(* ===== verification/Prelude.thy ===== *)
theory Prelude
  imports
    Complex_Main
    "HOL-Library.AList"
    "HOL-Library.Multiset"
    "HOL-Library.Product_Lexorder"
    "HOL-Library.Word"
begin

section \<open>Shared vocabulary of the development\<close>

text \<open>
  What every component uses of Python: its exceptions as values, insertion-ordered
  dictionaries as association lists with distinct keys, \<open>min\<close> and \<open>max\<close> with a key,
  and the lemmas about lists and multisets that several components need.  Python floats
  (heartbeat times, round-trip times, weights) are read as the rational numbers they denote
  and arithmetic on them is exact; Python integers are \<open>int\<close>.
\<close>

subsection \<open>Exceptions as values\<close>

text \<open>
  An operation that may raise returns \<open>py_error + 'a\<close>.  The text of a message is not
  kept: the control channel distinguishes exceptions by their class only.
\<close>

datatype py_error =
    ValueError | RuntimeError | PermissionError | KeyError | IndexError
  | WireError | TensorError | StructError | UnicodeError | AssertionError | OSError | TypeError
  | AttributeError

type_synonym 'a result = "py_error + 'a"

fun bindE :: "'a result \<Rightarrow> ('a \<Rightarrow> 'b result) \<Rightarrow> 'b result" where
  "bindE (Inl e) f = Inl e"
| "bindE (Inr x) f = f x"

lemma bindE_Inr_iff: "bindE m f = Inr y \<longleftrightarrow> (\<exists>x. m = Inr x \<and> f x = Inr y)"
  by (cases m) auto

lemma bindE_Inl_iff: "bindE m f = Inl e \<longleftrightarrow> m = Inl e \<or> (\<exists>x. m = Inr x \<and> f x = Inl e)"
  by (cases m) auto

fun mapE :: "('a \<Rightarrow> 'b result) \<Rightarrow> 'a list \<Rightarrow> 'b list result" where
  "mapE f [] = Inr []"
| "mapE f (x # xs) = bindE (f x) (\<lambda>y. bindE (mapE f xs) (\<lambda>ys. Inr (y # ys)))"

lemma mapE_all_Inr: "(\<And>x. x \<in> set xs \<Longrightarrow> f x = Inr (g x)) \<Longrightarrow> mapE f xs = Inr (map g xs)"
  by (induction xs) auto

lemma mapE_Inr_list_all2: "mapE f xs = Inr ys \<Longrightarrow> list_all2 (\<lambda>x y. f x = Inr y) xs ys"
  by (induction xs arbitrary: ys) (auto simp: bindE_Inr_iff)

lemma mapE_length: "mapE f xs = Inr ys \<Longrightarrow> length ys = length xs"
  by (metis mapE_Inr_list_all2 list_all2_lengthD)

text \<open>A byte of a Python \<open>bytes\<close> object.\<close>

type_synonym byte = "8 word"

subsection \<open>Dictionaries\<close>

text \<open>
  A Python dict keeps the order of first insertion and has one value per key.  It is an
  association list; \<open>d[k] = v\<close> is \<^const>\<open>AList.update\<close>, \<open>d.pop(k, None)\<close> and
  \<open>del d[k]\<close> are \<^const>\<open>AList.delete\<close>, \<open>d.get(k)\<close> is \<^const>\<open>map_of\<close>, and a
  change of the object stored under a key is \<^const>\<open>AList.map_entry\<close>.
\<close>

type_synonym ('k, 'v) dict = "('k \<times> 'v) list"

abbreviation dset :: "'k \<Rightarrow> 'v \<Rightarrow> ('k, 'v) dict \<Rightarrow> ('k, 'v) dict" where
  "dset \<equiv> AList.update"

abbreviation dpop :: "'k \<Rightarrow> ('k, 'v) dict \<Rightarrow> ('k, 'v) dict" where
  "dpop \<equiv> AList.delete"

abbreviation dmod :: "'k \<Rightarrow> ('v \<Rightarrow> 'v) \<Rightarrow> ('k, 'v) dict \<Rightarrow> ('k, 'v) dict" where
  "dmod \<equiv> AList.map_entry"

abbreviation dict_ok :: "('k, 'v) dict \<Rightarrow> bool" where
  "dict_ok d \<equiv> distinct (map fst d)"

text \<open>\<open>d.get(k, dflt)\<close>.\<close>

definition dget :: "('k, 'v) dict \<Rightarrow> 'k \<Rightarrow> 'v \<Rightarrow> 'v" where
  "dget d k dflt = (case map_of d k of None \<Rightarrow> dflt | Some v \<Rightarrow> v)"

named_theorems dict_simps \<open>lookups after dictionary operations\<close>

lemma map_of_dset [dict_simps]: "map_of (dset k v d) = (map_of d)(k \<mapsto> v)"
  by (rule update_conv')

lemma map_of_dpop [dict_simps]: "map_of (dpop k d) = (map_of d)(k := None)"
  by (rule delete_conv')

lemma map_of_dmod [dict_simps]:
  "map_of (dmod k f d) = (map_of d)(k := map_option f (map_of d k))"
  by (induction d) (auto simp: fun_eq_iff)

lemma dget_dset [dict_simps]: "dget (dset k v d) k' x = (if k' = k then v else dget d k' x)"
  by (simp add: dget_def dict_simps)

lemma dget_dpop [dict_simps]: "dget (dpop k d) k' x = (if k' = k then x else dget d k' x)"
  by (simp add: dget_def dict_simps)

lemma dict_ok_dset [simp]: "dict_ok d \<Longrightarrow> dict_ok (dset k v d)"
  by (rule distinct_update)

lemma dict_ok_dpop [simp]: "dict_ok d \<Longrightarrow> dict_ok (dpop k d)"
  by (rule distinct_delete)

lemma keys_dmod [simp]: "map fst (dmod k f d) = map fst d"
  by (induction d) auto

lemma set_dpop_subset: "set (dpop k d) \<subseteq> set d"
  by (auto simp: AList.delete_eq)

lemma values_dmod_distinct:
  assumes "dict_ok d"
  shows "(k', v) \<in> set (dmod k f d) \<longleftrightarrow>
     (if k' = k then \<exists>u. (k, u) \<in> set d \<and> v = f u else (k', v) \<in> set d)"
proof -
  have "dict_ok (dmod k f d)" using assms by simp
  then have "(k', v) \<in> set (dmod k f d) \<longleftrightarrow> map_of (dmod k f d) k' = Some v"
    by (simp add: map_of_eq_Some_iff)
  also have "\<dots> \<longleftrightarrow> (if k' = k then \<exists>u. map_of d k = Some u \<and> v = f u else map_of d k' = Some v)"
    by (auto simp: dict_simps)
  finally show ?thesis using assms by (simp add: map_of_eq_Some_iff)
qed

lemma set_dset_distinct:
  assumes "dict_ok d"
  shows "(k', u) \<in> set (dset k v d) \<longleftrightarrow> (if k' = k then u = v else (k', u) \<in> set d)"
proof -
  have "dict_ok (dset k v d)" using assms by simp
  then have "(k', u) \<in> set (dset k v d) \<longleftrightarrow> map_of (dset k v d) k' = Some u"
    by (simp add: map_of_eq_Some_iff)
  then show ?thesis using assms by (auto simp: dict_simps map_of_eq_Some_iff)
qed

lemma map_of_in_set: "map_of d k = Some v \<Longrightarrow> (k, v) \<in> set d"
  by (rule map_of_SomeD)

lemma map_of_map_snd:
  "map_of (map (\<lambda>(k, v). (k, f k v)) d) k = map_option (f k) (map_of d k)"
  by (induction d) auto

lemma keys_map_snd [simp]: "map fst (map (\<lambda>(k, v). (k, f k v)) d) = map fst d"
  by (induction d) auto

subsection \<open>\<open>min\<close> and \<open>max\<close> with a key\<close>

text \<open>
  \<open>min(xs, key=f)\<close> returns the first element with the least key, \<open>max(xs, key=f)\<close> the
  first with the greatest; both raise on an empty sequence, which the callers exclude.
\<close>

fun min_by :: "('a \<Rightarrow> 'k::linorder) \<Rightarrow> 'a list \<Rightarrow> 'a" where
  "min_by f [] = undefined"
| "min_by f [x] = x"
| "min_by f (x # y # ys) = (let m = min_by f (y # ys) in if f x \<le> f m then x else m)"

fun max_by :: "('a \<Rightarrow> 'k::linorder) \<Rightarrow> 'a list \<Rightarrow> 'a" where
  "max_by f [] = undefined"
| "max_by f [x] = x"
| "max_by f (x # y # ys) = (let m = max_by f (y # ys) in if f m \<le> f x then x else m)"

lemma min_by_in: "xs \<noteq> [] \<Longrightarrow> min_by f xs \<in> set xs"
  by (induction f xs rule: min_by.induct) (auto simp: Let_def)

lemma min_by_le: "x \<in> set xs \<Longrightarrow> f (min_by f xs) \<le> f x"
  by (induction f xs rule: min_by.induct) (auto simp: Let_def)

lemma max_by_in: "xs \<noteq> [] \<Longrightarrow> max_by f xs \<in> set xs"
  by (induction f xs rule: max_by.induct) (auto simp: Let_def)

lemma max_by_ge: "x \<in> set xs \<Longrightarrow> f x \<le> f (max_by f xs)"
  by (induction f xs rule: max_by.induct) (auto simp: Let_def)

subsection \<open>Lists and sums\<close>

lemma sum_list_update_int:
  "i < length xs \<Longrightarrow> sum_list (xs[i := (v::int)]) = sum_list xs + v - xs ! i"
  by (induction xs arbitrary: i) (auto split: nat.splits)

lemma hd_sort_key_le:
  assumes "x \<in> set xs"
  shows "f (hd (sort_key f xs)) \<le> f x"
proof -
  have "sorted (map f (sort_key f xs))" by simp
  moreover have "x \<in> set (sort_key f xs)" using assms by simp
  ultimately show ?thesis
    by (cases "sort_key f xs") auto
qed

lemma hd_sort_key_in: "xs \<noteq> [] \<Longrightarrow> hd (sort_key f xs) \<in> set xs"
  by (metis hd_in_set length_0_conv length_sort set_sort)

lemma sort_key_Nil_iff [simp]: "sort_key f xs = [] \<longleftrightarrow> xs = []"
  by (metis length_0_conv length_sort)

lemma distinct_map_fst_unique:
  "distinct (map fst d) \<Longrightarrow> (k, v) \<in> set d \<Longrightarrow> (k, w) \<in> set d \<Longrightarrow> v = w"
  by (metis eq_key_imp_eq_value)

end
