(* ===== verification/Topology_Plan.thy ===== *)
theory Topology_Plan
  imports Prelude "HOL-Library.Sublist"
begin

section \<open>Planning the pipeline: how many stages, and how big each one is\<close>

text \<open>
  The pure planners of \<open>engine/topology.py\<close>: the region distance estimate, the
  fewest-stages planner \<open>plan_stages\<close>, the bandwidth table and the
  bandwidth-proportional split \<open>plan_weighted_split\<close> with its layout.
\<close>

subsection \<open>Region distance\<close>

definition DEFAULT_RTT_MS :: rat where
  "DEFAULT_RTT_MS = 80"

text \<open>\<open>a.split("-", 1)[0]\<close>: what stands before the first dash.\<close>

definition before_dash :: "string \<Rightarrow> string" where
  "before_dash a = takeWhile (\<lambda>c. c \<noteq> CHR ''-'') a"

text \<open>A label is \<open>None\<close> or a string; both \<open>None\<close> and the empty string are falsy.\<close>

definition region_rtt_estimate :: "string option \<Rightarrow> string option \<Rightarrow> rat" where
  "region_rtt_estimate a b =
     (case (a, b) of
        (Some ra, Some rb) \<Rightarrow>
          (if ra = [] \<or> rb = [] then DEFAULT_RTT_MS
           else if ra = rb then 5
           else if before_dash ra = before_dash rb then 40
           else 150)
      | _ \<Rightarrow> DEFAULT_RTT_MS)"

subsection \<open>Fewest stages\<close>

text \<open>The slot sizes of a balanced split of \<open>budget\<close> layers into \<open>k\<close> slots.\<close>

definition plan_sizes :: "int \<Rightarrow> nat \<Rightarrow> int list" where
  "plan_sizes budget k =
     (let per = budget div int k; rem = budget mod int k
      in replicate (nat rem) (per + 1) @ replicate (k - nat rem) per)"

definition sorted_desc :: "int list \<Rightarrow> int list" where
  "sorted_desc xs = rev (sort xs)"

text \<open>
  The feasibility test of one candidate: sorted demands under sorted capacities.
\<close>

definition plan_feasible :: "int \<Rightarrow> int list \<Rightarrow> nat \<Rightarrow> nat \<Rightarrow> bool" where
  "plan_feasible budget caps replication k =
     (let demands = sorted_desc (concat (replicate replication (plan_sizes budget k)))
      in length demands \<le> length caps \<and> (\<forall>(d, c) \<in> set (zip demands caps). d \<le> c))"

text \<open>The loop over \<open>k\<close>, with its break on an empty slot and the final raise.\<close>

fun plan_loop :: "int \<Rightarrow> int list \<Rightarrow> nat \<Rightarrow> nat list \<Rightarrow> int result" where
  "plan_loop budget caps replication [] = Inl ValueError"
| "plan_loop budget caps replication (k # ks) =
     (if budget div int k = 0 then Inl ValueError
      else if plan_feasible budget caps replication k then Inr (int k)
      else plan_loop budget caps replication ks)"

definition plan_stages :: "int \<Rightarrow> int list \<Rightarrow> int \<Rightarrow> int result" where
  "plan_stages layer_budget capacities replication =
     (if layer_budget < 1 then Inl ValueError
      else if replication < 1 then Inl ValueError
      else plan_loop layer_budget (sorted_desc capacities) (nat replication)
             [1 ..< Suc (nat layer_budget)])"

subsection \<open>The bandwidth table\<close>

definition DEFAULT_BW :: rat where
  "DEFAULT_BW = 400"

definition GPU_BW :: "(string, rat) dict" where
  "GPU_BW =
     [(''h100'', 3350), (''h200'', 4800), (''a100 80'', 2039), (''a100'', 1555),
      (''l40s'', 864), (''l40'', 864), (''a40'', 696), (''rtx 6000 ada'', 960),
      (''rtx a6000'', 768), (''a6000'', 768), (''rtx a5000'', 768), (''a5000'', 768),
      (''rtx a4000'', 448), (''a4000'', 448), (''rtx 4090'', 1008), (''rtx 4080'', 717),
      (''rtx 4000 ada'', 360), (''l4'', 300), (''v100'', 900), (''t4'', 320)]"

text \<open>\<open>str.lower\<close> on ASCII letters, and \<open>key in n\<close> on strings.\<close>

definition lower_char :: "char \<Rightarrow> char" where
  "lower_char c = (if 65 \<le> (of_char c :: nat) \<and> (of_char c :: nat) \<le> 90
                   then char_of ((of_char c :: nat) + 32) else c)"

definition lower :: "string \<Rightarrow> string" where
  "lower s = map lower_char s"

fun py_contains :: "string \<Rightarrow> string \<Rightarrow> bool" where
  "py_contains key [] = (key = [])"
| "py_contains key (c # cs) = (prefix key (c # cs) \<or> py_contains key cs)"

text \<open>\<open>sorted(\<dots>, key=len, reverse=True)\<close> is stable: equal lengths keep the table's order.\<close>

definition gpu_bandwidth :: "string \<Rightarrow> rat" where
  "gpu_bandwidth name =
     (let n = lower name
      in case find (\<lambda>key. py_contains key n) (sort_key (\<lambda>k. - int (length k)) (map fst GPU_BW)) of
           None \<Rightarrow> DEFAULT_BW
         | Some key \<Rightarrow> dget GPU_BW key DEFAULT_BW)"

subsection \<open>Bandwidth-proportional split\<close>

text \<open>\<open>int(f)\<close> truncates towards zero.\<close>

definition py_int :: "rat \<Rightarrow> int" where
  "py_int f = (if 0 \<le> f then \<lfloor>f\<rfloor> else \<lceil>f\<rceil>)"

definition weighted_ideal :: "int \<Rightarrow> rat list \<Rightarrow> rat list" where
  "weighted_ideal tot w = map (\<lambda>x. of_int tot * x / sum_list w) w"

text \<open>
  Largest remainder: floors first, then one more layer for the largest fractional parts.
  \<open>order[i]\<close> past the end raises.
\<close>

definition remainder_order :: "rat list \<Rightarrow> int list \<Rightarrow> nat list" where
  "remainder_order ideal sizes =
     sort_key (\<lambda>i. - (ideal ! i - of_int (sizes ! i))) [0 ..< length ideal]"

definition hand_out :: "nat list \<Rightarrow> nat \<Rightarrow> int list \<Rightarrow> int list result" where
  "hand_out order rem sizes =
     (if rem \<le> length order
      then Inr (fold (\<lambda>j ss. ss[j := ss ! j + 1]) (take rem order) sizes)
      else Inl IndexError)"

definition round_sizes :: "int \<Rightarrow> rat list \<Rightarrow> int list result" where
  "round_sizes tot ideal =
     (let sizes = map py_int ideal; rem = tot - sum_list sizes
      in hand_out (remainder_order ideal sizes) (nat rem) sizes)"

text \<open>
  The minimum is enforced by moving one layer at a time from the largest slice to the
  smallest, for at most \<open>10 * n\<close> rounds.
\<close>

fun steal :: "nat \<Rightarrow> int \<Rightarrow> int list \<Rightarrow> int list" where
  "steal 0 min_size sizes = sizes"
| "steal (Suc guard) min_size sizes =
     (if min_list sizes < min_size then
        (let lo = min_by (\<lambda>i. sizes ! i) [0 ..< length sizes];
             hi = max_by (\<lambda>i. sizes ! i) [0 ..< length sizes]
         in if sizes ! hi - 1 < min_size then sizes
            else (let s1 = sizes[lo := sizes ! lo + 1]
                  in steal guard min_size (s1[hi := s1 ! hi - 1])))
      else sizes)"

definition plan_weighted_split :: "int \<Rightarrow> rat list \<Rightarrow> int \<Rightarrow> int list result" where
  "plan_weighted_split tot weights min_size =
     (let n = length weights in
      if n < 1 then Inl ValueError
      else if min_list weights \<le> 0 then Inl ValueError
      else if tot < int n * min_size then Inl ValueError
      else bindE (round_sizes tot (weighted_ideal tot weights))
             (\<lambda>sizes. Inr (steal (10 * n) min_size sizes)))"

fun layout_ranges :: "int \<Rightarrow> int list \<Rightarrow> (int \<times> int) list" where
  "layout_ranges s [] = []"
| "layout_ranges s (sz # szs) = (s, s + sz) # layout_ranges (s + sz) szs"

definition plan_pipeline_layout :: "int \<Rightarrow> rat list \<Rightarrow> int \<Rightarrow> (int \<times> int) list result" where
  "plan_pipeline_layout num_layers weights min_size =
     bindE (plan_weighted_split num_layers weights min_size)
       (\<lambda>sizes. Inr (layout_ranges 0 sizes))"

subsection \<open>Facts about balanced sizes\<close>

lemma length_plan_sizes: "0 < k \<Longrightarrow> length (plan_sizes b k) = k"
proof -
  assume "0 < k"
  then have "b mod int k < int k" by simp
  then have "nat (b mod int k) \<le> k" by linarith
  then show ?thesis by (simp add: plan_sizes_def Let_def)
qed

lemma sum_list_plan_sizes:
  assumes "0 < k"
  shows "sum_list (plan_sizes b k) = b"
proof -
  let ?per = "b div int k" and ?rem = "b mod int k"
  have rem: "0 \<le> ?rem" "?rem < int k" using assms by simp_all
  then have le: "nat ?rem \<le> k" by linarith
  have "sum_list (plan_sizes b k) = ?rem * (?per + 1) + (int k - ?rem) * ?per"
    using rem le by (simp add: plan_sizes_def Let_def sum_list_replicate of_nat_diff)
  also have "\<dots> = int k * ?per + ?rem" by (simp add: algebra_simps)
  also have "\<dots> = b" by simp
  finally show ?thesis .
qed

lemma plan_sizes_bounds:
  "x \<in> set (plan_sizes b k) \<Longrightarrow> b div int k \<le> x \<and> x \<le> b div int k + 1"
  by (auto simp: plan_sizes_def Let_def in_set_replicate split: if_splits)

text \<open>The closed form of the per-index size the constructor computes.\<close>

lemma plan_sizes_eq_map:
  assumes "0 < k"
  shows "plan_sizes b k =
    map (\<lambda>i. b div int k + (if int i < b mod int k then 1 else 0)) [0 ..< k]"
proof (rule nth_equalityI)
  show "length (plan_sizes b k) =
    length (map (\<lambda>i. b div int k + (if int i < b mod int k then 1 else 0)) [0 ..< k])"
    using assms by (simp add: length_plan_sizes)
next
  fix i assume "i < length (plan_sizes b k)"
  then have i: "i < k" using assms by (simp add: length_plan_sizes)
  have "nat (b mod int k) \<le> k" using assms pos_mod_bound [of "int k" b] by linarith
  then show "plan_sizes b k ! i =
    map (\<lambda>i. b div int k + (if int i < b mod int k then 1 else 0)) [0 ..< k] ! i"
    using i by (auto simp: plan_sizes_def Let_def nth_append)
qed

subsection \<open>What staffing means, and that the greedy test decides it\<close>

text \<open>
  Every demand gets a node of its own whose capacity covers it: the capacities in use are a
  sub-multiset of the fleet's, listed in the order of the demands.
\<close>

definition staffable :: "int list \<Rightarrow> int list \<Rightarrow> bool" where
  "staffable demands caps \<longleftrightarrow>
     (\<exists>used. mset used \<subseteq># mset caps \<and> list_all2 (\<le>) demands used)"

definition sorted_fit :: "int list \<Rightarrow> int list \<Rightarrow> bool" where
  "sorted_fit demands caps \<longleftrightarrow>
     length demands \<le> length caps \<and>
     (\<forall>(d, c) \<in> set (zip (sorted_desc demands) (sorted_desc caps)). d \<le> c)"

lemma mset_sorted_desc [simp]: "mset (sorted_desc xs) = mset xs"
  by (simp add: sorted_desc_def)

lemma length_sorted_desc [simp]: "length (sorted_desc xs) = length xs"
  by (simp add: sorted_desc_def)

lemma sorted_desc_idem [simp]: "sorted_desc (sorted_desc xs) = sorted_desc xs"
proof -
  have "sort (sorted_desc xs) = sort xs" by (rule properties_for_sort) (simp_all add: sorted_desc_def)
  then show ?thesis by (simp add: sorted_desc_def)
qed

lemma sorted_desc_nth_mono:
  "i \<le> j \<Longrightarrow> j < length xs \<Longrightarrow> sorted_desc xs ! j \<le> sorted_desc xs ! i"
  unfolding sorted_desc_def by (simp add: rev_nth sorted_nth_mono)

lemma sorted_fit_iff_nth:
  "sorted_fit D C \<longleftrightarrow> length D \<le> length C \<and>
     (\<forall>i < length D. sorted_desc D ! i \<le> sorted_desc C ! i)"
proof -
  have "(\<forall>(d, c) \<in> set (zip (sorted_desc D) (sorted_desc C)). d \<le> c) \<longleftrightarrow>
      (\<forall>i < min (length D) (length C). sorted_desc D ! i \<le> sorted_desc C ! i)"
    by (auto simp: set_zip)
  then show ?thesis by (auto simp: sorted_fit_def)
qed

lemma sorted_fit_imp_staffable:
  assumes "sorted_fit D C"
  shows "staffable D C"
proof -
  let ?used = "take (length D) (sorted_desc C)"
  have "list_all2 (\<le>) (sorted_desc D) ?used"
    using assms by (auto simp: sorted_fit_iff_nth list_all2_conv_all_nth)
  then obtain used where used: "list_all2 (\<le>) D used" "mset used = mset ?used"
    by (metis list_all2_reorder_left_invariance mset_sorted_desc)
  have "mset used + mset (drop (length D) (sorted_desc C)) = mset C"
    using used(2) by (metis append_take_drop_id mset_append mset_sorted_desc)
  then have "mset used \<subseteq># mset C" by (metis mset_subset_eq_add_left)
  with used(1) show ?thesis by (auto simp: staffable_def)
qed

lemma count_ge_list_all2:
  "list_all2 (\<le>) D U \<Longrightarrow> length (filter (\<lambda>d. (x::int) \<le> d) D) \<le> length (filter (\<lambda>c. x \<le> c) U)"
  by (induction rule: list_all2_induct) auto

lemma count_ge_sub:
  assumes "mset U \<subseteq># mset C"
  shows "length (filter P U) \<le> length (filter P C)"
proof -
  have "filter_mset P (mset U) \<subseteq># filter_mset P (mset C)"
    using assms by (rule multiset_filter_mono)
  then show ?thesis by (metis mset_filter size_mset size_mset_mono)
qed

lemma count_ge_card:
  "length (filter P xs) = card {j. j < length xs \<and> P (sorted_desc xs ! j)}"
proof -
  have "length (filter P xs) = length (filter P (sorted_desc xs))"
    by (metis mset_filter mset_sorted_desc size_mset)
  then show ?thesis by (simp add: length_filter_conv_card)
qed

lemma count_ge_nth_lower:
  assumes "i < length xs"
  shows "Suc i \<le> length (filter (\<lambda>d. sorted_desc xs ! i \<le> d) xs)"
proof -
  let ?x = "sorted_desc xs ! i"
  have "{..i} \<subseteq> {j. j < length (sorted_desc xs) \<and> ?x \<le> sorted_desc xs ! j}"
    using assms sorted_desc_nth_mono by auto
  then have "card {..i} \<le> card {j. j < length (sorted_desc xs) \<and> ?x \<le> sorted_desc xs ! j}"
    by (rule card_mono [rotated]) simp
  then show ?thesis by (simp add: count_ge_card [of _ xs])
qed

lemma count_ge_nth_upper:
  assumes "i < length xs" and "sorted_desc xs ! i < x"
  shows "length (filter (\<lambda>d. x \<le> d) xs) \<le> i"
proof -
  have "j < i" if "j < length xs" "x \<le> sorted_desc xs ! j" for j
    using that assms sorted_desc_nth_mono [of i j xs] by (cases "j < i") auto
  then have "{j. j < length (sorted_desc xs) \<and> x \<le> sorted_desc xs ! j} \<subseteq> {..<i}"
    by auto
  then have "card {j. j < length (sorted_desc xs) \<and> x \<le> sorted_desc xs ! j} \<le> card {..<i}"
    by (rule card_mono [rotated]) simp
  then show ?thesis by (simp add: count_ge_card [of _ xs])
qed

lemma staffable_imp_sorted_fit:
  assumes "staffable D C"
  shows "sorted_fit D C"
proof -
  from assms obtain U where U: "mset U \<subseteq># mset C" "list_all2 (\<le>) D U"
    by (auto simp: staffable_def)
  have count: "length (filter (\<lambda>d. x \<le> d) D) \<le> length (filter (\<lambda>c. x \<le> c) C)" for x
    using count_ge_list_all2 [OF U(2)] count_ge_sub [OF U(1)] by (rule le_trans)
  have len: "length D \<le> length C"
    using size_mset_mono [OF U(1)] list_all2_lengthD [OF U(2)] by simp
  have "sorted_desc D ! i \<le> sorted_desc C ! i" if i: "i < length D" for i
  proof (rule ccontr)
    assume "\<not> sorted_desc D ! i \<le> sorted_desc C ! i"
    then have "length (filter (\<lambda>c. sorted_desc D ! i \<le> c) C) \<le> i"
      using i len by (intro count_ge_nth_upper) auto
    with count_ge_nth_lower [OF i] count [of "sorted_desc D ! i"] show False by simp
  qed
  with len show ?thesis by (simp add: sorted_fit_iff_nth)
qed

lemma sorted_fit_iff_staffable: "sorted_fit D C \<longleftrightarrow> staffable D C"
  using sorted_fit_imp_staffable staffable_imp_sorted_fit by blast

text \<open>The staffing of \<open>k\<close> stages: every slot of the balanced split \<open>replication\<close> times.\<close>

definition stage_demands :: "int \<Rightarrow> nat \<Rightarrow> nat \<Rightarrow> int list" where
  "stage_demands budget replication k = concat (replicate replication (plan_sizes budget k))"

lemma plan_feasible_iff_staffable:
  "plan_feasible b (sorted_desc caps) r k \<longleftrightarrow> staffable (stage_demands b r k) caps"
  by (simp add: sorted_fit_iff_staffable [symmetric] sorted_fit_def plan_feasible_def
      stage_demands_def Let_def)

lemma plan_loop_Inr_iff:
  assumes "\<forall>k \<in> set ks. 0 < k \<and> int k \<le> b" and "sorted_wrt (<) ks"
  shows "plan_loop b caps r ks = Inr v \<longleftrightarrow>
    (\<exists>k \<in> set ks. v = int k \<and> plan_feasible b caps r k \<and>
       (\<forall>j \<in> set ks. j < k \<longrightarrow> \<not> plan_feasible b caps r j))"
  using assms
proof (induction ks)
  case Nil
  then show ?case by simp
next
  case (Cons k ks)
  have per: "b div int k \<noteq> 0"
    using Cons.prems(1) by (auto simp: zdiv_eq_0_iff)
  have first: "\<not> j < k" if "j \<in> set ks" for j
    using that Cons.prems(2) by auto
  show ?case
  proof (cases "plan_feasible b caps r k")
    case True
    then show ?thesis using per first Cons.prems(2) by auto
  next
    case False
    have "plan_loop b caps r ks = Inr v \<longleftrightarrow>
      (\<exists>k \<in> set ks. v = int k \<and> plan_feasible b caps r k \<and>
         (\<forall>j \<in> set ks. j < k \<longrightarrow> \<not> plan_feasible b caps r j))"
      using Cons by simp
    with False per show ?thesis by auto
  qed
qed

lemma plan_loop_never_other: "plan_loop b caps r ks = Inl e \<Longrightarrow> e = ValueError"
  by (induction ks) (auto split: if_splits)

subsection \<open>Facts about the proportional split\<close>

lemma fold_increment:
  assumes "distinct js" and "\<forall>j \<in> set js. j < length ss"
  shows "length (fold (\<lambda>j ss. ss[j := ss ! j + (1::int)]) js ss) = length ss \<and>
    sum_list (fold (\<lambda>j ss. ss[j := ss ! j + 1]) js ss) = sum_list ss + int (length js) \<and>
    (\<forall>i < length ss. fold (\<lambda>j ss. ss[j := ss ! j + 1]) js ss ! i =
        ss ! i + (if i \<in> set js then 1 else 0))"
  using assms
proof (induction js arbitrary: ss)
  case Nil
  then show ?case by simp
next
  case (Cons j js)
  have j: "j < length ss" using Cons.prems by simp
  let ?ss = "ss[j := ss ! j + 1]"
  have IH: "length (fold (\<lambda>j ss. ss[j := ss ! j + 1]) js ?ss) = length ?ss \<and>
    sum_list (fold (\<lambda>j ss. ss[j := ss ! j + 1]) js ?ss) = sum_list ?ss + int (length js) \<and>
    (\<forall>i < length ?ss. fold (\<lambda>j ss. ss[j := ss ! j + 1]) js ?ss ! i =
        ?ss ! i + (if i \<in> set js then 1 else 0))"
    using Cons.prems by (intro Cons.IH) auto
  have "j \<notin> set js" using Cons.prems by simp
  with IH j show ?case by (auto simp: sum_list_update_int nth_list_update)
qed

lemma remainder_order_set [simp]: "set (remainder_order ideal sizes) = {..< length ideal}"
  by (auto simp: remainder_order_def)

lemma remainder_order_distinct [simp]: "distinct (remainder_order ideal sizes)"
  by (simp add: remainder_order_def)

lemma remainder_order_length [simp]: "length (remainder_order ideal sizes) = length ideal"
  by (simp add: remainder_order_def)

lemma sum_floor_bounds:
  fixes xs :: "rat list"
  assumes "xs \<noteq> []"
  shows "of_int (sum_list (map floor xs)) \<le> sum_list xs"
    and "sum_list xs < of_int (sum_list (map floor xs)) + of_nat (length xs)"
  using assms
proof (induction xs rule: list_nonempty_induct)
  case (single x)
  { case 1 show ?case by simp }
  { case 2 show ?case by simp linarith }
next
  case (cons x xs)
  { case 1 show ?case using add_mono [OF of_int_floor_le [of x] cons.IH(1)] by simp }
  { case 2 show ?case using cons.IH(2) floor_correct [of x] by simp }
qed

text \<open>
  The rounding step for any ideal shares whose sum is within one of the total, however the
  shares were computed: the result has the total exactly, and every entry is a floor or a
  floor plus one.
\<close>

lemma round_sizes_spec:
  assumes "ideal \<noteq> []" and nonneg: "\<forall>f \<in> set ideal. 0 \<le> f"
    and close: "\<bar>sum_list ideal - of_int tot\<bar> < 1"
  obtains sizes where "round_sizes tot ideal = Inr sizes" and "length sizes = length ideal"
    and "sum_list sizes = tot"
    and "\<forall>i < length ideal. \<lfloor>ideal ! i\<rfloor> \<le> sizes ! i \<and> sizes ! i \<le> \<lfloor>ideal ! i\<rfloor> + 1"
proof -
  let ?fl = "map py_int ideal"
  have fl: "?fl = map floor ideal" using nonneg by (auto simp: py_int_def)
  let ?rem = "tot - sum_list ?fl"
  have "of_int (sum_list ?fl) < (of_int tot + 1 :: rat)"
    using sum_floor_bounds(1) [OF assms(1)] close unfolding fl by linarith
  then have "of_int (sum_list ?fl) < (of_int (tot + 1) :: rat)" by simp
  then have rem0: "0 \<le> ?rem" by (simp only: of_int_less_iff)
  have "(of_int tot :: rat) < of_int (sum_list ?fl) + of_nat (length ideal) + 1"
    using sum_floor_bounds(2) [OF assms(1)] close unfolding fl by linarith
  then have "(of_int tot :: rat) < of_int (sum_list ?fl + int (length ideal) + 1)" by simp
  then have remn: "nat ?rem \<le> length ideal" by (simp only: of_int_less_iff)
  let ?js = "take (nat ?rem) (remainder_order ideal ?fl)"
  let ?sizes = "fold (\<lambda>j ss. ss[j := ss ! j + 1]) ?js ?fl"
  have "set ?js \<subseteq> {..< length ideal}"
    using set_take_subset [of "nat ?rem" "remainder_order ideal ?fl"] by simp
  then have inc: "length ?sizes = length ?fl \<and> sum_list ?sizes = sum_list ?fl + int (length ?js) \<and>
    (\<forall>i < length ?fl. ?sizes ! i = ?fl ! i + (if i \<in> set ?js then 1 else 0))"
    by (intro fold_increment) auto
  show thesis
  proof (rule that)
    show "round_sizes tot ideal = Inr ?sizes"
      using remn by (simp add: round_sizes_def Let_def hand_out_def)
    show "length ?sizes = length ideal" using inc by simp
    show "sum_list ?sizes = tot" using inc rem0 remn by simp
    show "\<forall>i < length ideal. \<lfloor>ideal ! i\<rfloor> \<le> ?sizes ! i \<and> ?sizes ! i \<le> \<lfloor>ideal ! i\<rfloor> + 1"
    proof (intro allI impI)
      fix i assume i: "i < length ideal"
      then have "?sizes ! i = ?fl ! i + (if i \<in> set ?js then 1 else 0)" using inc by simp
      moreover have "?fl ! i = \<lfloor>ideal ! i\<rfloor>" using i unfolding fl by simp
      ultimately show "\<lfloor>ideal ! i\<rfloor> \<le> ?sizes ! i \<and> ?sizes ! i \<le> \<lfloor>ideal ! i\<rfloor> + 1" by auto
    qed
  qed
qed

lemma sum_weighted_ideal:
  assumes "sum_list w \<noteq> 0"
  shows "sum_list (weighted_ideal tot w) = of_int tot"
proof -
  have "sum_list (map (\<lambda>x. of_int tot * x / d) w) = of_int tot * sum_list w / d" for d
    by (induction w) (auto simp: add_divide_distrib algebra_simps)
  then have "sum_list (weighted_ideal tot w) = of_int tot * sum_list w / sum_list w"
    by (simp add: weighted_ideal_def)
  then show ?thesis using assms by simp
qed

definition deficit :: "int \<Rightarrow> int list \<Rightarrow> int" where
  "deficit m s = sum_list (map (\<lambda>x. max 0 (m - x)) s)"

lemma deficit_nonneg: "0 \<le> deficit m s"
  by (induction s) (auto simp: deficit_def)

lemma deficit_bound: "\<forall>x \<in> set s. 0 \<le> x \<Longrightarrow> 0 \<le> m \<Longrightarrow> deficit m s \<le> int (length s) * m"
  by (induction s) (auto simp: deficit_def algebra_simps)

lemma deficit_zero_iff: "deficit m s = 0 \<longleftrightarrow> (\<forall>x \<in> set s. m \<le> x)"
proof (induction s)
  case Nil
  then show ?case by (simp add: deficit_def)
next
  case (Cons x s)
  have "deficit m (x # s) = max 0 (m - x) + deficit m s" by (simp add: deficit_def)
  with Cons deficit_nonneg [of m s] show ?case by auto
qed

lemma deficit_update:
  "i < length s \<Longrightarrow> deficit m (s[i := v]) = deficit m s + max 0 (m - v) - max 0 (m - s ! i)"
  unfolding deficit_def map_update by (simp add: sum_list_update_int)

lemma sum_lt_if_below:
  "\<forall>x \<in> set s. x \<le> m \<Longrightarrow> \<exists>x \<in> set s. x < m \<Longrightarrow> sum_list s < int (length s) * m"
proof (induction s)
  case Nil
  then show ?case by simp
next
  case (Cons x s)
  have "sum_list s \<le> int (length s) * m"
    using Cons.prems(1) by (induction s) (auto simp: algebra_simps)
  with Cons show ?case by (cases "\<exists>x \<in> set s. x < m") (auto simp: algebra_simps)
qed

lemma min_list_less_iff: "s \<noteq> [] \<Longrightarrow> min_list s < (m::int) \<longleftrightarrow> (\<exists>x \<in> set s. x < m)"
  by (simp add: min_list_Min Min_less_iff)

text \<open>One round keeps length and sum, and lowers the deficit by exactly one.\<close>

lemma steal_step:
  fixes s :: "int list"
  defines "lo \<equiv> min_by (\<lambda>i. s ! i) [0 ..< length s]"
    and "hi \<equiv> max_by (\<lambda>i. s ! i) [0 ..< length s]"
  assumes below: "\<exists>x \<in> set s. x < m" and enough: "int (length s) * m \<le> sum_list s"
  defines "s1 \<equiv> s[lo := s ! lo + 1]"
  defines "s2 \<equiv> s1[hi := s1 ! hi - 1]"
  shows "m < s ! hi" and "length s2 = length s" and "sum_list s2 = sum_list s"
    and "deficit m s2 = deficit m s - 1"
proof -
  have ne: "[0 ..< length s] \<noteq> []" using below by auto
  have lo: "lo < length s" and hi: "hi < length s"
    using min_by_in [OF ne, of "\<lambda>i. s ! i"] max_by_in [OF ne, of "\<lambda>i. s ! i"]
    by (simp_all add: lo_def hi_def)
  have lo_min: "s ! lo < m"
  proof -
    from below obtain i where "i < length s" "s ! i < m" by (auto simp: in_set_conv_nth)
    then show ?thesis using min_by_le [of i "[0 ..< length s]" "\<lambda>i. s ! i"] by (simp add: lo_def)
  qed
  have hi_max: "s ! i \<le> s ! hi" if "i < length s" for i
    using that max_by_ge [of i "[0 ..< length s]" "\<lambda>i. s ! i"] by (simp add: hi_def)
  show above: "m < s ! hi"
  proof (rule ccontr)
    assume "\<not> m < s ! hi"
    then have "\<forall>x \<in> set s. x \<le> m" using hi_max by (fastforce simp: in_set_conv_nth)
    from sum_lt_if_below [OF this below] enough show False by simp
  qed
  then have ne_idx: "lo \<noteq> hi" using lo_min by auto
  show "length s2 = length s" by (simp add: s2_def s1_def)
  show "sum_list s2 = sum_list s"
    using lo hi by (simp add: s2_def s1_def sum_list_update_int)
  show "deficit m s2 = deficit m s - 1"
    using lo hi ne_idx lo_min above by (simp add: s2_def s1_def deficit_update nth_list_update)
qed

lemma steal_invariant:
  assumes "s \<noteq> []" and "int (length s) * m \<le> sum_list s"
  shows "length (steal g m s) = length s \<and> sum_list (steal g m s) = sum_list s \<and>
    deficit m (steal g m s) = max 0 (deficit m s - int g)"
  using assms
proof (induction g arbitrary: s)
  case 0
  then show ?case using deficit_nonneg [of m s] by simp
next
  case (Suc g)
  let ?lo = "min_by (\<lambda>i. s ! i) [0 ..< length s]"
  let ?hi = "max_by (\<lambda>i. s ! i) [0 ..< length s]"
  let ?s1 = "s[?lo := s ! ?lo + 1]"
  let ?s2 = "?s1[?hi := ?s1 ! ?hi - 1]"
  show ?case
  proof (cases "\<exists>x \<in> set s. x < m")
    case False
    then have "deficit m s = 0" by (auto simp: deficit_zero_iff)
    with False Suc.prems show ?thesis by (simp add: min_list_less_iff)
  next
    case True
    note step = steal_step [OF True Suc.prems(2)]
    have ne: "?s2 \<noteq> []" using Suc.prems(1) by simp
    have pos: "0 < deficit m s"
      using True deficit_zero_iff [of m s] deficit_nonneg [of m s] by fastforce
    have "steal (Suc g) m s = steal g m ?s2"
      using True step(1) Suc.prems(1) by (simp add: min_list_less_iff Let_def)
    moreover have "length (steal g m ?s2) = length ?s2 \<and> sum_list (steal g m ?s2) = sum_list ?s2 \<and>
      deficit m (steal g m ?s2) = max 0 (deficit m ?s2 - int g)"
      using step(2,3) Suc.prems(2) ne by (intro Suc.IH) simp_all
    ultimately show ?thesis using step pos by simp
  qed
qed

lemma layout_ranges_length [simp]: "length (layout_ranges s szs) = length szs"
  by (induction szs arbitrary: s) auto

lemma layout_ranges_nth:
  "i < length szs \<Longrightarrow>
     layout_ranges s szs ! i = (s + sum_list (take i szs), s + sum_list (take (Suc i) szs))"
  by (induction szs arbitrary: s i) (auto simp: nth_Cons' take_Cons' algebra_simps)

lemma layout_ranges_contiguous:
  "Suc i < length szs \<Longrightarrow> snd (layout_ranges s szs ! i) = fst (layout_ranges s szs ! Suc i)"
  by (simp add: layout_ranges_nth)

lemma weighted_split_rounds:
  assumes "weights \<noteq> []" and "0 < min_list weights" and "0 \<le> tot"
  obtains sizes where "round_sizes tot (weighted_ideal tot weights) = Inr sizes"
    and "length sizes = length weights" and "sum_list sizes = tot"
    and "\<forall>i < length weights.
      \<lfloor>weighted_ideal tot weights ! i\<rfloor> \<le> sizes ! i \<and>
      sizes ! i \<le> \<lfloor>weighted_ideal tot weights ! i\<rfloor> + 1"
    and "\<forall>x \<in> set sizes. 0 \<le> x"
proof -
  let ?ideal = "weighted_ideal tot weights"
  have pos: "\<forall>x \<in> set weights. 0 < x"
    using assms(1,2) by (simp add: min_list_Min)
  have "sum_list (map (\<lambda>x. x) weights) \<ge> 0"
    using pos by (intro sum_list_nonneg) (auto simp: less_imp_le)
  moreover have "hd weights \<le> sum_list weights"
    using pos assms(1) by (cases weights) (auto intro!: sum_list_nonneg simp: less_imp_le)
  ultimately have sum: "0 < sum_list weights"
    using pos assms(1) by (cases weights) force+
  have nonneg: "\<forall>f \<in> set ?ideal. 0 \<le> f"
    using pos sum assms(3) by (auto simp: weighted_ideal_def less_imp_le)
  have len: "length ?ideal = length weights" by (simp add: weighted_ideal_def)
  have "?ideal \<noteq> []" using assms(1) by (simp add: weighted_ideal_def)
  from this nonneg obtain sizes where sizes: "round_sizes tot ?ideal = Inr sizes"
      "length sizes = length ?ideal" "sum_list sizes = tot"
      "\<forall>i < length ?ideal. \<lfloor>?ideal ! i\<rfloor> \<le> sizes ! i \<and> sizes ! i \<le> \<lfloor>?ideal ! i\<rfloor> + 1"
    using sum round_sizes_spec [of ?ideal tot] by (auto simp: sum_weighted_ideal)
  have "0 \<le> sizes ! i" if "i < length sizes" for i
  proof -
    have "0 \<le> ?ideal ! i" using that sizes(2) nonneg by (metis nth_mem)
    then have "0 \<le> \<lfloor>?ideal ! i\<rfloor>" by simp
    moreover have "\<lfloor>?ideal ! i\<rfloor> \<le> sizes ! i" using sizes(2,4) that by simp
    ultimately show ?thesis by linarith
  qed
  then have "\<forall>x \<in> set sizes. 0 \<le> x" by (auto simp: in_set_conv_nth)
  with sizes len that show thesis by auto
qed

subsection \<open>Properties of the planners\<close>

text \<open>The planner returns the least number of stages that the fleet can staff: with
  \<open>k\<close> the result, every slot of the balanced \<open>k\<close>-way split can be given
  \<open>replication\<close> nodes of its own that hold it, and no smaller stage count can; when it
  raises, no stage count from 1 to the layer budget can be staffed.\<close>

theorem plan_stages_fewest:
  assumes "1 \<le> b" and "1 \<le> r"
  shows "case plan_stages b caps r of
      Inr v \<Rightarrow> \<exists>k. v = int k \<and> 0 < k \<and> int k \<le> b \<and>
        staffable (stage_demands b (nat r) k) caps \<and>
        (\<forall>j. 0 < j \<and> j < k \<longrightarrow> \<not> staffable (stage_demands b (nat r) j) caps)
    | Inl e \<Rightarrow> e = ValueError \<and>
        (\<forall>k. 0 < k \<and> int k \<le> b \<longrightarrow> \<not> staffable (stage_demands b (nat r) k) caps)"
proof -
  let ?ks = "[1 ..< Suc (nat b)]"
  have ks: "\<forall>k \<in> set ?ks. 0 < k \<and> int k \<le> b" and sorted: "sorted_wrt (<) ?ks"
    using assms(1) by (auto simp del: upt_Suc)
  have inks: "k \<in> set ?ks \<longleftrightarrow> 0 < k \<and> int k \<le> b" for k by auto
  have run: "plan_stages b caps r = plan_loop b (sorted_desc caps) (nat r) ?ks"
    using assms by (simp add: plan_stages_def)
  let ?ok = "\<lambda>k. staffable (stage_demands b (nat r) k) caps"
  let ?least = "\<lambda>k. 0 < k \<and> int k \<le> b \<and> ?ok k \<and> (\<forall>j. 0 < j \<and> j < k \<longrightarrow> \<not> ?ok j)"
  have iff: "plan_stages b caps r = Inr v \<longleftrightarrow> (\<exists>k. v = int k \<and> ?least k)" for v
  proof -
    have "plan_stages b caps r = Inr v \<longleftrightarrow>
        (\<exists>k \<in> set ?ks. v = int k \<and> ?ok k \<and> (\<forall>j \<in> set ?ks. j < k \<longrightarrow> \<not> ?ok j))"
      unfolding run plan_loop_Inr_iff [OF ks sorted] plan_feasible_iff_staffable ..
    also have "\<dots> \<longleftrightarrow> (\<exists>k. v = int k \<and> ?least k)"
    proof -
      have "k \<in> set ?ks \<and> v = int k \<and> ?ok k \<and> (\<forall>j \<in> set ?ks. j < k \<longrightarrow> \<not> ?ok j) \<longleftrightarrow>
          v = int k \<and> ?least k" for k
        unfolding Ball_def inks by auto
      then show ?thesis by (simp only: Bex_def)
    qed
    finally show ?thesis .
  qed
  show ?thesis
  proof (cases "plan_stages b caps r")
    case (Inr v)
    with iff [of v] have "\<exists>k. v = int k \<and> ?least k" by simp
    with Inr show ?thesis by auto
  next
    case (Inl e)
    have none: "\<not> ?ok k" if "0 < k" "int k \<le> b" for k
    proof
      let ?P = "\<lambda>k. 0 < k \<and> int k \<le> b \<and> ?ok k"
      assume "?ok k"
      with that have P: "?P (LEAST k. ?P k)" by (intro LeastI [of ?P]) auto
      have "\<not> ?P j" if "j < (LEAST k. ?P k)" for j using that by (rule not_less_Least)
      then have min: "\<not> ?ok j" if "0 < j" "j < (LEAST k. ?P k)" for j
        using that P by fastforce
      define m where "m = (LEAST k. ?P k)"
      have "?least m" using P min unfolding m_def [symmetric] by blast
      then have "plan_stages b caps r = Inr (int m)" unfolding iff by blast
      with Inl show False by simp
    qed
    moreover have "e = ValueError" using Inl run plan_loop_never_other by simp
    ultimately show ?thesis using Inl by simp
  qed
qed

lemma plan_stages_fewest_witness:
  "plan_stages 64 [24, 40, 24, 40] 1 = Inr 2 \<and> staffable (stage_demands 64 1 2) [24, 40, 24, 40]"
proof -
  have run: "plan_stages 64 [24, 40, 24, 40] 1 = Inr 2" by code_simp
  show ?thesis using plan_stages_fewest [of 64 1 "[24, 40, 24, 40]"] run by auto
qed

text \<open>C26. The proportional split always returns, its sizes add up to the total exactly, and
  each is at least \<open>min_size\<close> whenever \<open>0 \<le> min_size \<le> 10\<close> (the ten rounds per slice
  the guard allows); \<open>min_size = 1\<close> is the only value the engine itself passes.\<close>

theorem weighted_split_sums_and_min:
  assumes "weights \<noteq> []" and "\<forall>x \<in> set weights. 0 < x"
    and "int (length weights) * min_size \<le> tot" and "0 \<le> min_size" and "min_size \<le> 10"
  shows "\<exists>sizes. plan_weighted_split tot weights min_size = Inr sizes \<and>
    length sizes = length weights \<and> sum_list sizes = tot \<and> (\<forall>x \<in> set sizes. min_size \<le> x)"
proof -
  have "0 \<le> int (length weights) * min_size" using assms(4) by simp
  then have tot: "0 \<le> tot" using assms(3) by linarith
  have minpos: "0 < min_list weights" using assms(1,2) by (simp add: min_list_Min)
  obtain sizes where sizes: "round_sizes tot (weighted_ideal tot weights) = Inr sizes"
      "length sizes = length weights" "sum_list sizes = tot" "\<forall>x \<in> set sizes. 0 \<le> x"
    using weighted_split_rounds [OF assms(1) minpos tot] by metis
  let ?out = "steal (10 * length weights) min_size sizes"
  have ne: "sizes \<noteq> []" using sizes(2) assms(1) by auto
  have inv: "length ?out = length sizes \<and> sum_list ?out = sum_list sizes \<and>
    deficit min_size ?out = max 0 (deficit min_size sizes - int (10 * length weights))"
    using ne assms(3) sizes(2,3) by (intro steal_invariant) simp_all
  have "deficit min_size sizes \<le> int (length sizes) * min_size"
    using sizes(4) assms(4) by (rule deficit_bound)
  also have "\<dots> \<le> int (10 * length weights)"
    using assms(5) sizes(2) mult_left_mono [of min_size 10 "int (length weights)"] by simp
  finally have "deficit min_size ?out = 0" using inv by simp
  then have "\<forall>x \<in> set ?out. min_size \<le> x" by (simp add: deficit_zero_iff)
  moreover have "plan_weighted_split tot weights min_size = Inr ?out"
    using assms(1,3) minpos sizes(1) by (simp add: plan_weighted_split_def Let_def not_le)
  ultimately show ?thesis using inv sizes(2,3) by simp
qed

lemma weighted_split_sums_and_min_witness:
  "\<exists>sizes. plan_weighted_split 80 [864, 300] 1 = Inr sizes \<and>
    length sizes = 2 \<and> sum_list sizes = 80 \<and> (\<forall>x \<in> set sizes. 1 \<le> x)"
  using weighted_split_sums_and_min [of "[864, 300]" 1 80] by (simp add: numeral_2_eq_2)

text \<open>Above ten the guard runs out first: a request for at least 30 layers per stage over
  100 layers, which two stages can satisfy, returns a slice of 20.\<close>

theorem weighted_split_guard_too_small:
  "plan_weighted_split 100 [1, 1000] 30 = Inr [20, 80] \<and> (2::int) * 30 \<le> 100"
  by code_simp

text \<open>Before the minimum is enforced every stage is within one layer of its exact
  proportional share, and the shares' rounding loses no layer.\<close>

theorem weighted_split_near_ideal:
  assumes "weights \<noteq> []" and "\<forall>x \<in> set weights. 0 < x" and "0 \<le> tot"
  shows "\<exists>sizes. round_sizes tot (weighted_ideal tot weights) = Inr sizes \<and> sum_list sizes = tot \<and>
    (\<forall>i < length weights.
       \<bar>of_int (sizes ! i) - of_int tot * weights ! i / sum_list weights\<bar> \<le> 1)"
proof -
  have minpos: "0 < min_list weights" using assms(1,2) by (simp add: min_list_Min)
  obtain sizes where sizes: "round_sizes tot (weighted_ideal tot weights) = Inr sizes"
      "sum_list sizes = tot"
      "\<forall>i < length weights. \<lfloor>weighted_ideal tot weights ! i\<rfloor> \<le> sizes ! i \<and>
        sizes ! i \<le> \<lfloor>weighted_ideal tot weights ! i\<rfloor> + 1"
    using weighted_split_rounds [OF assms(1) minpos assms(3)] by metis
  have "\<bar>of_int (sizes ! i) - of_int tot * weights ! i / sum_list weights\<bar> \<le> 1"
    if i: "i < length weights" for i
  proof -
    have "weighted_ideal tot weights ! i = of_int tot * weights ! i / sum_list weights"
      using i by (simp add: weighted_ideal_def)
    moreover have "\<lfloor>weighted_ideal tot weights ! i\<rfloor> \<le> sizes ! i"
        "sizes ! i \<le> \<lfloor>weighted_ideal tot weights ! i\<rfloor> + 1" using sizes(3) i by auto
    ultimately show ?thesis
      using floor_correct [of "weighted_ideal tot weights ! i"] by linarith
  qed
  with sizes show ?thesis by blast
qed

lemma weighted_split_near_ideal_witness:
  "\<exists>sizes. round_sizes 80 (weighted_ideal 80 [864, 300]) = Inr sizes \<and> sum_list sizes = 80 \<and>
    (\<forall>i < 2. \<bar>of_int (sizes ! i) - 80 * [864, 300] ! i / (1164 :: rat)\<bar> \<le> 1)"
  using weighted_split_near_ideal [of "[864, 300]" 80] by (simp add: numeral_2_eq_2)

end
