(* ===== verification/Topology.thy ===== *)
theory Topology
  imports Topology_Plan
begin

section \<open>The live topology of the mesh\<close>

text \<open>
  The classes \<open>Node\<close>, \<open>Slot\<close> and \<open>Topology\<close> of \<open>engine/topology.py\<close> as records and
  every method of \<open>Topology\<close> as a function on them: slot construction, registration,
  heartbeats, the reaper, trust, latency, routing and the health summary.  A method that
  changes the topology returns it; one that may raise after it has changed it returns both
  the topology it leaves behind and the outcome.
\<close>

subsection \<open>Data\<close>

datatype node_state = JOINING | READY | SUSPECT | DEAD | DRAINING

datatype trust_tier = PROBATION | TRUSTED

record node =
  node_id :: string
  endpoint :: "string \<times> int"
  capacity_layers :: int
  node_fp :: string
  reachability :: string
  region :: "string option"
  payout_wallet :: string
  orchestrator :: bool
  slot :: "nat option"
  state :: node_state
  last_hb :: rat
  wire_key :: "byte list option"
  trust :: trust_tier
  checks_passed :: int
  strikes :: int

text \<open>\<open>Node(\<dots>)\<close> with the dataclass defaults of the fields a registration does not set.\<close>

definition new_node ::
  "string \<Rightarrow> string \<times> int \<Rightarrow> int \<Rightarrow> string \<Rightarrow> string \<Rightarrow> string option \<Rightarrow> string \<Rightarrow> bool \<Rightarrow> node" where
  "new_node nid ep cap fp reach reg wallet orch =
     \<lparr>node_id = nid, endpoint = ep, capacity_layers = cap, node_fp = fp, reachability = reach,
      region = reg, payout_wallet = wallet, orchestrator = orch, slot = None, state = JOINING,
      last_hb = 0, wire_key = None, trust = PROBATION, checks_passed = 0, strikes = 0\<rparr>"

record slot =
  s_index :: nat
  s_start :: int
  s_end :: int
  s_holders :: "string list"

record topology =
  num_layers :: int
  coordinator_end :: int
  topo_fp :: string
  replication :: int
  dead_after_s :: rat
  coordinator_region :: "string option"
  route_by_latency :: bool
  rtts :: "(string, rat) dict"
  nodes :: "(string, node) dict"
  slots :: "slot list"

subsection \<open>Construction\<close>

text \<open>Consecutive slots of the given sizes, from layer \<open>s\<close> and index \<open>i\<close> on.\<close>

fun mk_slots :: "nat \<Rightarrow> int \<Rightarrow> int list \<Rightarrow> slot list" where
  "mk_slots i s [] = []"
| "mk_slots i s (sz # szs) =
     \<lparr>s_index = i, s_start = s, s_end = s + sz, s_holders = []\<rparr> # mk_slots (Suc i) (s + sz) szs"

text \<open>The balanced default: \<open>per\<close> layers each, one more for the first \<open>rem\<close> slots.\<close>

definition balanced_sizes :: "int \<Rightarrow> nat \<Rightarrow> int list" where
  "balanced_sizes budget num_stages =
     (let per = budget div int num_stages; rem = budget mod int num_stages
      in map (\<lambda>i. per + (if int i < rem then 1 else 0)) [0 ..< num_stages])"

definition mk_topology ::
  "int \<Rightarrow> int \<Rightarrow> int \<Rightarrow> string \<Rightarrow> int \<Rightarrow> rat \<Rightarrow> string option \<Rightarrow> bool \<Rightarrow> int list option \<Rightarrow> topology result" where
  "mk_topology n_layers coord_end num_stages fp repl dead_after creg by_latency slot_sizes =
     (if num_stages < 1 then Inl ValueError
      else if \<not> (0 \<le> coord_end \<and> coord_end < n_layers) then Inl ValueError
      else
        (let budget = n_layers - coord_end;
             topo = (\<lambda>ss. \<lparr>num_layers = n_layers, coordinator_end = coord_end, topo_fp = fp,
                           replication = repl, dead_after_s = dead_after,
                           coordinator_region = creg, route_by_latency = by_latency,
                           rtts = [], nodes = [], slots = ss\<rparr>)
         in case slot_sizes of
              Some sizes \<Rightarrow>
                if int (length sizes) \<noteq> num_stages \<or> sum_list sizes \<noteq> budget \<or> min_list sizes < 1
                then Inl ValueError
                else Inr (topo (mk_slots 0 coord_end sizes))
            | None \<Rightarrow> Inr (topo (mk_slots 0 coord_end (balanced_sizes budget (nat num_stages))))))"

text \<open>\<open>Topology.for_fleet\<close>: fewest stages for the fleet, optionally split by weight.\<close>

definition for_fleet ::
  "int \<Rightarrow> int \<Rightarrow> string \<Rightarrow> int list \<Rightarrow> int \<Rightarrow> rat list option \<Rightarrow> rat \<Rightarrow> string option \<Rightarrow> bool \<Rightarrow> topology result" where
  "for_fleet n_layers coord_end fp capacities repl weights dead_after creg by_latency =
     bindE (plan_stages (n_layers - coord_end) capacities repl) (\<lambda>k.
       case weights of
         None \<Rightarrow> mk_topology n_layers coord_end k fp repl dead_after creg by_latency None
       | Some ws \<Rightarrow>
           if int (length ws) \<noteq> k then Inl ValueError
           else bindE (plan_weighted_split (n_layers - coord_end) ws 1) (\<lambda>sizes.
             mk_topology n_layers coord_end k fp repl dead_after creg by_latency (Some sizes)))"

definition slot_size :: "slot \<Rightarrow> int" where
  "slot_size s = s_end s - s_start s"

definition committed_count :: "topology \<Rightarrow> slot \<Rightarrow> nat" where
  "committed_count t s =
     length (filter (\<lambda>h. case map_of (nodes t) h of None \<Rightarrow> False | Some n \<Rightarrow> state n \<noteq> DEAD)
              (s_holders s))"

subsection \<open>Registration and assignment\<close>

definition drop_holder :: "string \<Rightarrow> slot list \<Rightarrow> slot list" where
  "drop_holder nid ss = map (\<lambda>s. s\<lparr>s_holders := remove1 nid (s_holders s)\<rparr>) ss"

definition pick_slot :: "topology \<Rightarrow> node \<Rightarrow> slot option" where
  "pick_slot t n =
     (let cands = filter (\<lambda>s. slot_size s \<le> capacity_layers n) (slots t)
      in if cands = [] then None
         else Some (hd (sort_key (\<lambda>s. (committed_count t s, s_index s)) cands)))"

definition choose_slot :: "topology \<Rightarrow> node \<Rightarrow> (int \<times> int) option \<Rightarrow> slot option" where
  "choose_slot t n prefer_range =
     (let preferred =
        (case prefer_range of
           None \<Rightarrow> None
         | Some pr \<Rightarrow>
             find (\<lambda>s. (s_start s, s_end s) = pr \<and> slot_size s \<le> capacity_layers n) (slots t))
      in case preferred of None \<Rightarrow> pick_slot t n | Some s \<Rightarrow> Some s)"

definition register ::
  "topology \<Rightarrow> node \<Rightarrow> rat \<Rightarrow> (int \<times> int) option \<Rightarrow> topology \<times> slot result" where
  "register t n now prefer_range =
     (if node_fp n \<noteq> topo_fp t then (t, Inl ValueError)
      else
        (let t1 = t\<lparr>slots := drop_holder (node_id n) (slots t)\<rparr>
         in case choose_slot t1 n prefer_range of
              None \<Rightarrow> (t1, Inl ValueError)
            | Some s \<Rightarrow>
                (let n' = n\<lparr>slot := Some (s_index s), state := JOINING, last_hb := now\<rparr>;
                     s' = s\<lparr>s_holders := s_holders s @ [node_id n]\<rparr>
                 in (t1\<lparr>nodes := dset (node_id n) n' (nodes t1),
                        slots := (slots t1)[s_index s := s']\<rparr>, Inr s'))))"

definition register_orchestrator :: "topology \<Rightarrow> node \<Rightarrow> rat \<Rightarrow> topology \<times> unit result" where
  "register_orchestrator t n now =
     (if node_fp n \<noteq> topo_fp t then (t, Inl ValueError)
      else
        (let n' = n\<lparr>slot := None, orchestrator := True, state := JOINING, last_hb := now\<rparr>
         in (t\<lparr>slots := drop_holder (node_id n) (slots t),
               nodes := dset (node_id n) n' (nodes t)\<rparr>, Inr ())))"

subsection \<open>Health\<close>

definition heartbeat :: "topology \<Rightarrow> string \<Rightarrow> rat \<Rightarrow> topology \<times> bool" where
  "heartbeat t nid now =
     (case map_of (nodes t) nid of
        None \<Rightarrow> (t, False)
      | Some n \<Rightarrow>
          if state n \<in> {JOINING, READY, SUSPECT, DRAINING}
          then (t\<lparr>nodes := dmod nid (\<lambda>n. n\<lparr>last_hb := now,
                    state := (if state n = SUSPECT then READY else state n)\<rparr>) (nodes t)\<rparr>, True)
          else (t, False))"

definition mark_ready :: "topology \<Rightarrow> string \<Rightarrow> topology" where
  "mark_ready t nid =
     t\<lparr>nodes := dmod nid (\<lambda>n. if state n = JOINING then n\<lparr>state := READY\<rparr> else n) (nodes t)\<rparr>"

definition mark_suspect :: "topology \<Rightarrow> string \<Rightarrow> topology" where
  "mark_suspect t nid =
     t\<lparr>nodes := dmod nid (\<lambda>n. if state n = READY then n\<lparr>state := SUSPECT\<rparr> else n) (nodes t)\<rparr>"

definition drain :: "topology \<Rightarrow> string \<Rightarrow> topology" where
  "drain t nid = t\<lparr>nodes := dmod nid (\<lambda>n. n\<lparr>state := DRAINING\<rparr>) (nodes t)\<rparr>"

definition stale :: "topology \<Rightarrow> rat \<Rightarrow> node \<Rightarrow> bool" where
  "stale t now n \<longleftrightarrow>
     state n \<in> {JOINING, READY, SUSPECT} \<and> now - last_hb n > dead_after_s t"

definition reap :: "topology \<Rightarrow> rat \<Rightarrow> topology \<times> string list" where
  "reap t now =
     (t\<lparr>nodes := map (\<lambda>(k, n). (k, if stale t now n then n\<lparr>state := DEAD\<rparr> else n)) (nodes t)\<rparr>,
      map (\<lambda>(k, n). node_id n) (filter (\<lambda>(k, n). stale t now n) (nodes t)))"

definition remove_node :: "topology \<Rightarrow> string \<Rightarrow> topology" where
  "remove_node t nid =
     (let t1 = t\<lparr>nodes := dpop nid (nodes t), rtts := dpop nid (rtts t)\<rparr>
      in case map_of (nodes t) nid of
           None \<Rightarrow> t1
         | Some n \<Rightarrow>
             (case slot n of
                None \<Rightarrow> t1
              | Some i \<Rightarrow>
                  t1\<lparr>slots := (slots t1)[i := (slots t1 ! i)
                       \<lparr>s_holders := remove1 nid (s_holders (slots t1 ! i))\<rparr>]\<rparr>))"

definition purge :: "topology \<Rightarrow> rat \<Rightarrow> topology \<times> string list" where
  "purge t now =
     (let gone = map fst (filter (\<lambda>(k, n). state n = DEAD \<and> now - last_hb n > 2 * dead_after_s t)
                            (nodes t))
      in (foldl remove_node t gone, gone))"

subsection \<open>Latency\<close>

definition set_rtt :: "topology \<Rightarrow> string \<Rightarrow> rat \<Rightarrow> topology" where
  "set_rtt t nid ms = t\<lparr>rtts := dset nid ms (rtts t)\<rparr>"

definition rtt :: "topology \<Rightarrow> string \<Rightarrow> rat" where
  "rtt t nid =
     (case map_of (rtts t) nid of
        Some ms \<Rightarrow> ms
      | None \<Rightarrow> region_rtt_estimate (coordinator_region t)
                  (case map_of (nodes t) nid of None \<Rightarrow> None | Some n \<Rightarrow> region n))"

subsection \<open>Routing\<close>

definition trank :: "node \<Rightarrow> nat" where
  "trank n = (if trust n = TRUSTED then 0 else 1)"

definition live_holders :: "topology \<Rightarrow> slot \<Rightarrow> node list" where
  "live_holders t s =
     filter (\<lambda>n. state n = READY) (List.map_filter (map_of (nodes t)) (s_holders s))"

text \<open>The index is always one of the topology's own slots, so \<open>slots[i]\<close> does not raise.\<close>

definition holders :: "topology \<Rightarrow> nat \<Rightarrow> node list" where
  "holders t i =
     (let live = live_holders t (slots t ! i)
      in if route_by_latency t
         then sort_key (\<lambda>n. (trank n, rtt t (node_id n), - last_hb n)) live
         else sort_key (\<lambda>n. (trank n, - last_hb n)) live)"

subsection \<open>Trust\<close>

datatype check_action = Promoted | Evicted

definition set_trusted :: "topology \<Rightarrow> string \<Rightarrow> topology" where
  "set_trusted t nid = t\<lparr>nodes := dmod nid (\<lambda>n. n\<lparr>trust := TRUSTED\<rparr>) (nodes t)\<rparr>"

text \<open>The fold of one verification result into one node.\<close>

definition check_node :: "bool \<Rightarrow> int \<Rightarrow> int \<Rightarrow> node \<Rightarrow> node \<times> check_action option" where
  "check_node ok promote_after strike_max n =
     (if ok then
        (let n1 = n\<lparr>checks_passed := checks_passed n + 1\<rparr>;
             n2 = (if 0 < strikes n1 then n1\<lparr>strikes := strikes n1 - 1\<rparr> else n1)
         in if trust n2 \<noteq> TRUSTED \<and> promote_after \<le> checks_passed n2 \<and> strikes n2 = 0
            then (n2\<lparr>trust := TRUSTED\<rparr>, Some Promoted)
            else (n2, None))
      else
        (let n1 = n\<lparr>strikes := strikes n + 1\<rparr>
         in if strike_max \<le> strikes n1
            then (n1\<lparr>trust := PROBATION, state := DEAD\<rparr>, Some Evicted)
            else (n1, None)))"

definition record_check ::
  "topology \<Rightarrow> string \<Rightarrow> bool \<Rightarrow> int \<Rightarrow> int \<Rightarrow> topology \<times> check_action option" where
  "record_check t nid ok promote_after strike_max =
     (case map_of (nodes t) nid of
        None \<Rightarrow> (t, None)
      | Some n \<Rightarrow>
          (let (n', act) = check_node ok promote_after strike_max n
           in (t\<lparr>nodes := dmod nid (\<lambda>_. n') (nodes t)\<rparr>, act)))"

subsection \<open>The route and the health summary\<close>

fun route_slots :: "topology \<Rightarrow> slot list \<Rightarrow> (slot \<times> node list) list result" where
  "route_slots t [] = Inr []"
| "route_slots t (s # ss) =
     (let hs = holders t (s_index s)
      in if hs = [] then Inl RuntimeError
         else bindE (route_slots t ss) (\<lambda>plan. Inr ((s, hs) # plan)))"

definition route :: "topology \<Rightarrow> (slot \<times> node list) list result" where
  "route t = route_slots t (slots t)"

definition coverage_ok :: "topology \<Rightarrow> bool" where
  "coverage_ok t \<longleftrightarrow> (\<forall>s \<in> set (slots t). holders t (s_index s) \<noteq> [])"

definition under_replicated :: "topology \<Rightarrow> slot list" where
  "under_replicated t =
     filter (\<lambda>s. int (length (holders t (s_index s))) < replication t) (slots t)"

definition rebalance_targets :: "topology \<Rightarrow> slot list" where
  "rebalance_targets t =
     sort_key (\<lambda>s. length (holders t (s_index s))) (under_replicated t)"

end
