(* ===== verification/Topology_Inv.thy ===== *)
theory Topology_Inv
  imports Topology
begin

section \<open>The topology's invariant and what its operations promise\<close>

text \<open>
  Well-formedness of a topology, its preservation by every operation and by every run of
  operations, and the contracts of registration, health, trust and routing.
\<close>

subsection \<open>Slots tile the layer range\<close>

fun tiles :: "int \<Rightarrow> int \<Rightarrow> slot list \<Rightarrow> bool" where
  "tiles a b [] \<longleftrightarrow> a = b"
| "tiles a b (s # ss) \<longleftrightarrow> s_start s = a \<and> s_start s \<le> s_end s \<and> tiles (s_end s) b ss"

lemma tiles_le: "tiles a b ss \<Longrightarrow> a \<le> b"
  by (induction ss arbitrary: a) force+

lemma tiles_member: "tiles a b ss \<Longrightarrow> s \<in> set ss \<Longrightarrow> a \<le> s_start s \<and> s_end s \<le> b"
  by (induction ss arbitrary: a) (fastforce dest: tiles_le)+

lemma tiles_unique_cover:
  "tiles a b ss \<Longrightarrow> a \<le> l \<Longrightarrow> l < b \<Longrightarrow>
     \<exists>!i. i < length ss \<and> s_start (ss ! i) \<le> l \<and> l < s_end (ss ! i)"
proof (induction ss arbitrary: a)
  case Nil
  then show ?case by simp
next
  case (Cons s ss)
  have tail: "tiles (s_end s) b ss" and s: "s_start s = a" using Cons.prems(1) by simp_all
  show ?case
  proof (cases "l < s_end s")
    case True
    show ?thesis
    proof (rule ex1I [of _ 0])
      show "0 < length (s # ss) \<and> s_start ((s # ss) ! 0) \<le> l \<and> l < s_end ((s # ss) ! 0)"
        using True s Cons.prems(2) by simp
    next
      fix i
      assume i: "i < length (s # ss) \<and> s_start ((s # ss) ! i) \<le> l \<and> l < s_end ((s # ss) ! i)"
      show "i = 0"
      proof (rule ccontr)
        assume "i \<noteq> 0"
        then obtain j where "i = Suc j" by (cases i) auto
        then have "ss ! j \<in> set ss" and "s_start (ss ! j) \<le> l" using i by simp_all
        with tiles_member [OF tail] True show False by fastforce
      qed
    qed
  next
    case False
    then obtain i where i: "i < length ss" "s_start (ss ! i) \<le> l" "l < s_end (ss ! i)"
      and uniq: "\<And>j. j < length ss \<and> s_start (ss ! j) \<le> l \<and> l < s_end (ss ! j) \<Longrightarrow> j = i"
      using Cons.IH [OF tail] Cons.prems(3) by (metis linorder_not_le)
    show ?thesis
    proof (rule ex1I [of _ "Suc i"])
      show "Suc i < length (s # ss) \<and> s_start ((s # ss) ! Suc i) \<le> l \<and> l < s_end ((s # ss) ! Suc i)"
        using i by simp
    next
      fix j
      assume "j < length (s # ss) \<and> s_start ((s # ss) ! j) \<le> l \<and> l < s_end ((s # ss) ! j)"
      with False uniq show "j = Suc i" by (cases j) auto
    qed
  qed
qed

text \<open>Tiling and indices depend on the bounds of the slots only, not on their holders.\<close>

abbreviation bounds :: "slot \<Rightarrow> nat \<times> int \<times> int" where
  "bounds s \<equiv> (s_index s, s_start s, s_end s)"

lemma tiles_cong: "map bounds ss = map bounds ss' \<Longrightarrow> tiles a b ss = tiles a b ss'"
proof (induction ss arbitrary: a ss')
  case Nil
  then show ?case by simp
next
  case (Cons s ss)
  then obtain s' rest where ss': "ss' = s' # rest" by (cases ss') auto
  with Cons.prems have "map bounds ss = map bounds rest" and "bounds s = bounds s'" by simp_all
  then show ?case using Cons.IH [of rest "s_end s"] ss' by simp
qed

lemma map_bounds_nth: "map bounds ss = map bounds ss' \<Longrightarrow> i < length ss \<Longrightarrow>
    s_index (ss ! i) = s_index (ss' ! i) \<and> slot_size (ss ! i) = slot_size (ss' ! i)"
proof -
  assume eq: "map bounds ss = map bounds ss'" and i: "i < length ss"
  from eq have "length ss = length ss'" by (rule map_eq_imp_length_eq)
  moreover have "map bounds ss ! i = map bounds ss' ! i" using eq by simp
  ultimately have "bounds (ss ! i) = bounds (ss' ! i)" using i by simp
  then show ?thesis by (simp add: slot_size_def)
qed

lemma mk_slots_length [simp]: "length (mk_slots i s szs) = length szs"
  by (induction szs arbitrary: i s) auto

lemma mk_slots_nth:
  "j < length szs \<Longrightarrow> s_index (mk_slots i s szs ! j) = i + j \<and>
     s_holders (mk_slots i s szs ! j) = [] \<and> slot_size (mk_slots i s szs ! j) = szs ! j"
proof (induction szs arbitrary: i s j)
  case Nil
  then show ?case by simp
next
  case (Cons x szs)
  show ?case
  proof (cases j)
    case 0
    then show ?thesis by (simp add: slot_size_def)
  next
    case (Suc k)
    then show ?thesis using Cons.IH [of k "Suc i" "s + x"] Cons.prems by simp
  qed
qed

lemma mk_slots_tiles:
  "\<forall>x \<in> set szs. 0 \<le> x \<Longrightarrow> tiles s (s + sum_list szs) (mk_slots i s szs)"
proof (induction szs arbitrary: i s)
  case Nil
  then show ?case by simp
next
  case (Cons x szs)
  then have "tiles (s + x) (s + x + sum_list szs) (mk_slots (Suc i) (s + x) szs)" by simp
  with Cons.prems show ?case by (simp add: add.assoc)
qed

text \<open>The constructor's balanced sizes are the planner's.\<close>

lemma balanced_sizes_eq_plan: "0 < k \<Longrightarrow> balanced_sizes b k = map
    (\<lambda>i. b div int k + (if int i < b mod int k then 1 else 0)) [0 ..< k]"
  by (simp add: balanced_sizes_def Let_def)

lemma balanced_sizes_plan_sizes: "0 < k \<Longrightarrow> balanced_sizes b k = plan_sizes b k"
  by (simp add: balanced_sizes_eq_plan plan_sizes_eq_map)

subsection \<open>Well-formedness\<close>

definition holds_in :: "topology \<Rightarrow> nat \<Rightarrow> string \<Rightarrow> bool" where
  "holds_in t i h \<longleftrightarrow>
     (\<exists>n. map_of (nodes t) h = Some n \<and> slot n = Some i \<and>
          slot_size (slots t ! i) \<le> capacity_layers n)"

definition topo_wf :: "topology \<Rightarrow> bool" where
  "topo_wf t \<longleftrightarrow>
     dict_ok (nodes t) \<and>
     (\<forall>k n. map_of (nodes t) k = Some n \<longrightarrow>
        node_id n = k \<and> node_fp n = topo_fp t \<and> (\<forall>i. slot n = Some i \<longrightarrow> i < length (slots t))) \<and>
     (\<forall>i < length (slots t). s_index (slots t ! i) = i \<and> distinct (s_holders (slots t ! i)) \<and>
        (\<forall>h \<in> set (s_holders (slots t ! i)). holds_in t i h)) \<and>
     tiles (coordinator_end t) (num_layers t) (slots t)"

lemma topo_wf_dict: "topo_wf t \<Longrightarrow> dict_ok (nodes t)"
  by (simp add: topo_wf_def)

lemma topo_wf_node: "topo_wf t \<Longrightarrow> map_of (nodes t) k = Some n \<Longrightarrow>
    node_id n = k \<and> node_fp n = topo_fp t \<and> (\<forall>i. slot n = Some i \<longrightarrow> i < length (slots t))"
  by (simp add: topo_wf_def)

lemma topo_wf_index: "topo_wf t \<Longrightarrow> i < length (slots t) \<Longrightarrow> s_index (slots t ! i) = i"
  by (simp add: topo_wf_def)

lemma topo_wf_distinct: "topo_wf t \<Longrightarrow> i < length (slots t) \<Longrightarrow> distinct (s_holders (slots t ! i))"
  by (simp add: topo_wf_def)

lemma topo_wf_holder:
  "topo_wf t \<Longrightarrow> i < length (slots t) \<Longrightarrow> h \<in> set (s_holders (slots t ! i)) \<Longrightarrow> holds_in t i h"
  by (simp add: topo_wf_def)

lemma topo_wf_tiles: "topo_wf t \<Longrightarrow> tiles (coordinator_end t) (num_layers t) (slots t)"
  by (simp add: topo_wf_def)

lemmas topo_wf_facts =
  topo_wf_dict topo_wf_node topo_wf_index topo_wf_distinct topo_wf_holder topo_wf_tiles

lemma topo_wf_slot_nth:
  "topo_wf t \<Longrightarrow> s \<in> set (slots t) \<Longrightarrow> s_index s < length (slots t) \<and> slots t ! s_index s = s"
  by (metis in_set_conv_nth topo_wf_index)

text \<open>A node holds in at most one slot.\<close>

lemma topo_wf_one_slot:
  assumes "topo_wf t" "i < length (slots t)" "j < length (slots t)"
    and "h \<in> set (s_holders (slots t ! i))" "h \<in> set (s_holders (slots t ! j))"
  shows "i = j"
  using topo_wf_holder [OF assms(1,2,4)] topo_wf_holder [OF assms(1,3,5)]
  by (auto simp: holds_in_def)

text \<open>What of a node the invariant looks at.\<close>

definition static_view :: "node \<Rightarrow> string \<times> string \<times> nat option \<times> int" where
  "static_view n = (node_id n, node_fp n, slot n, capacity_layers n)"

lemma topo_wf_static:
  assumes "topo_wf t" and "dict_ok ns"
    and same: "\<And>k. map_option static_view (map_of ns k) = map_option static_view (map_of (nodes t) k)"
  shows "topo_wf (t\<lparr>nodes := ns\<rparr>)"
proof -
  have backwards: "\<exists>m. map_of (nodes t) k = Some m \<and> static_view n = static_view m"
    if "map_of ns k = Some n" for k n
    using same [of k] that by (cases "map_of (nodes t) k") auto
  have forwards: "\<exists>n. map_of ns k = Some n \<and> static_view n = static_view m"
    if "map_of (nodes t) k = Some m" for k m
    using same [of k] that by (cases "map_of ns k") auto
  have "holds_in (t\<lparr>nodes := ns\<rparr>) i h" if "holds_in t i h" for i h
    using that forwards by (fastforce simp: holds_in_def static_view_def)
  moreover have "node_id n = k \<and> node_fp n = topo_fp t \<and>
      (\<forall>i. slot n = Some i \<longrightarrow> i < length (slots t))" if "map_of ns k = Some n" for k n
    using backwards [OF that] topo_wf_node [OF assms(1)] by (fastforce simp: static_view_def)
  ultimately show ?thesis using assms(1,2) by (simp add: topo_wf_def)
qed

lemma topo_wf_dmod:
  assumes "topo_wf t" and "\<And>n. static_view (f n) = static_view n"
  shows "topo_wf (t\<lparr>nodes := dmod nid f (nodes t)\<rparr>)"
  using assms
  by (intro topo_wf_static) (auto simp: dict_simps topo_wf_dict option.map_comp o_def)

lemma topo_wf_rtts: "topo_wf (t\<lparr>rtts := r\<rparr>) = topo_wf t"
  by (simp add: topo_wf_def holds_in_def)

text \<open>Dropping holders, or every holding of one node, keeps the invariant.\<close>

lemma topo_wf_fewer_holders:
  assumes "topo_wf t" and "map bounds ss = map bounds (slots t)"
    and "\<And>i. i < length ss \<Longrightarrow> distinct (s_holders (ss ! i)) \<and>
      set (s_holders (ss ! i)) \<subseteq> set (s_holders (slots t ! i))"
  shows "topo_wf (t\<lparr>slots := ss\<rparr>)"
proof -
  have len: "length ss = length (slots t)" using assms(2) map_eq_imp_length_eq by blast
  have nth: "s_index (ss ! i) = s_index (slots t ! i) \<and> slot_size (ss ! i) = slot_size (slots t ! i)"
    if "i < length ss" for i using map_bounds_nth [OF assms(2) that] .
  have "tiles (coordinator_end t) (num_layers t) ss"
    using tiles_cong [OF assms(2)] topo_wf_tiles [OF assms(1)] by simp
  moreover have "holds_in (t\<lparr>slots := ss\<rparr>) i h"
    if "i < length ss" "h \<in> set (s_holders (ss ! i))" for i h
    using topo_wf_holder [OF assms(1), of i h] assms(3) [OF that(1)] nth [OF that(1)] that len
    by (auto simp: holds_in_def)
  ultimately show ?thesis
    using assms(1,3) nth len by (simp add: topo_wf_def)
qed

lemma drop_holder_bounds [simp]: "map bounds (drop_holder nid ss) = map bounds ss"
  by (simp add: drop_holder_def)

lemma drop_holder_length [simp]: "length (drop_holder nid ss) = length ss"
  by (simp add: drop_holder_def)

lemma drop_holder_nth:
  "i < length ss \<Longrightarrow> drop_holder nid ss ! i = (ss ! i)\<lparr>s_holders := remove1 nid (s_holders (ss ! i))\<rparr>"
  by (simp add: drop_holder_def)

lemma topo_wf_drop_holder:
  assumes "topo_wf t"
  shows "topo_wf (t\<lparr>slots := drop_holder nid (slots t)\<rparr>)"
  using assms by (intro topo_wf_fewer_holders)
    (auto simp: drop_holder_nth topo_wf_distinct dest: notin_set_remove1)

lemma drop_holder_gone:
  assumes "topo_wf t" and "i < length (slots t)"
  shows "nid \<notin> set (s_holders (drop_holder nid (slots t) ! i))"
  using topo_wf_distinct [OF assms] assms(2) by (simp add: drop_holder_nth)

subsection \<open>Every operation keeps the invariant\<close>

lemma min_list_ge_1: "szs \<noteq> [] \<Longrightarrow> \<not> min_list szs < (1::int) \<Longrightarrow> \<forall>x \<in> set szs. 1 \<le> x"
  by (auto simp: min_list_Min not_less)

lemma mk_topology_Inr:
  assumes "mk_topology nl ce ns fp r d cr bl szs = Inr t"
  obtains sizes where "slots t = mk_slots 0 ce sizes" and "sum_list sizes = nl - ce"
    and "\<forall>x \<in> set sizes. 0 \<le> x" and "int (length sizes) = ns" and "1 \<le> ns"
    and "num_layers t = nl" and "coordinator_end t = ce" and "nodes t = []" and "topo_fp t = fp"
    and "0 \<le> ce" and "ce < nl"
    and "sizes = (case szs of None \<Rightarrow> plan_sizes (nl - ce) (nat ns) | Some zs \<Rightarrow> zs)"
proof (cases szs)
  case None
  let ?sizes = "plan_sizes (nl - ce) (nat ns)"
  have ok: "\<not> ns < 1" "0 \<le> ce \<and> ce < nl" using assms by (auto simp: mk_topology_def split: if_splits)
  have k: "0 < nat ns" using ok by simp
  have t: "t = \<lparr>num_layers = nl, coordinator_end = ce, topo_fp = fp, replication = r,
      dead_after_s = d, coordinator_region = cr, route_by_latency = bl, rtts = [], nodes = [],
      slots = mk_slots 0 ce ?sizes\<rparr>"
    using assms ok None k by (simp add: mk_topology_def balanced_sizes_plan_sizes)
  have nn: "\<forall>x \<in> set ?sizes. 0 \<le> x"
  proof
    fix x assume "x \<in> set ?sizes"
    then have "(nl - ce) div int (nat ns) \<le> x" using plan_sizes_bounds by blast
    moreover have "0 \<le> (nl - ce) div int (nat ns)" using ok by (simp add: div_int_pos_iff)
    ultimately show "0 \<le> x" by simp
  qed
  show thesis
    by (rule that [of ?sizes])
      (use t nn ok None k in \<open>simp_all add: sum_list_plan_sizes length_plan_sizes\<close>)
next
  case (Some zs)
  have ok: "\<not> ns < 1" "0 \<le> ce \<and> ce < nl" "int (length zs) = ns" "sum_list zs = nl - ce"
      "\<not> min_list zs < 1"
    using assms Some by (auto simp: mk_topology_def Let_def split: if_splits)
  have "zs \<noteq> []" using ok by auto
  with ok have "\<forall>x \<in> set zs. 0 \<le> x" using min_list_ge_1 by fastforce
  moreover have "t = \<lparr>num_layers = nl, coordinator_end = ce, topo_fp = fp, replication = r,
      dead_after_s = d, coordinator_region = cr, route_by_latency = bl, rtts = [], nodes = [],
      slots = mk_slots 0 ce zs\<rparr>"
    using assms Some ok by (simp add: mk_topology_def)
  ultimately show thesis
    by (intro that [of zs]) (use ok Some in simp_all)
qed

lemma topo_wf_mk_topology:
  assumes "mk_topology nl ce ns fp r d cr bl szs = Inr t"
  shows "topo_wf t"
proof -
  obtain sizes where t: "slots t = mk_slots 0 ce sizes" "sum_list sizes = nl - ce"
      "\<forall>x \<in> set sizes. 0 \<le> x" "num_layers t = nl" "coordinator_end t = ce" "nodes t = []"
    using mk_topology_Inr [OF assms] by metis
  have "tiles ce (ce + sum_list sizes) (mk_slots 0 ce sizes)" using t(3) by (rule mk_slots_tiles)
  with t show ?thesis by (simp add: topo_wf_def mk_slots_nth)
qed

lemma choose_slot_SomeD:
  assumes "choose_slot t n pr = Some s"
  shows "s \<in> set (slots t)" and "slot_size s \<le> capacity_layers n"
proof -
  have pick: "s \<in> set (slots t) \<and> slot_size s \<le> capacity_layers n" if "pick_slot t n = Some s" for s
  proof -
    let ?c = "filter (\<lambda>s. slot_size s \<le> capacity_layers n) (slots t)"
    let ?key = "\<lambda>s. (committed_count t s, s_index s)"
    have "?c \<noteq> []" and "s = hd (sort_key ?key ?c)"
      using that by (auto simp: pick_slot_def Let_def split: if_splits)
    then have "s \<in> set ?c" using hd_sort_key_in [of ?c ?key] by simp
    then show ?thesis by simp
  qed
  have "s \<in> set (slots t) \<and> slot_size s \<le> capacity_layers n"
    using assms pick by (auto simp: choose_slot_def Let_def find_Some_iff split: option.splits)
  then show "s \<in> set (slots t)" and "slot_size s \<le> capacity_layers n" by simp_all
qed

text \<open>Storing a node that no slot lists: the other nodes' holdings are untouched.\<close>

lemma topo_wf_set_node:
  assumes "topo_wf t" and gone: "\<forall>s \<in> set (slots t). node_id n \<notin> set (s_holders s)"
    and "node_fp n = topo_fp t" and "\<forall>i. slot n = Some i \<longrightarrow> i < length (slots t)"
  shows "topo_wf (t\<lparr>nodes := dset (node_id n) n (nodes t)\<rparr>)"
proof -
  have "holds_in (t\<lparr>nodes := dset (node_id n) n (nodes t)\<rparr>) i h"
    if "i < length (slots t)" "h \<in> set (s_holders (slots t ! i))" for i h
  proof -
    have "h \<noteq> node_id n" using gone that nth_mem by blast
    then show ?thesis
      using topo_wf_holder [OF assms(1) that] by (simp add: holds_in_def dict_simps)
  qed
  with assms show ?thesis by (auto simp: topo_wf_def dict_simps)
qed

text \<open>Listing a node in the slot its record names.\<close>

lemma topo_wf_add_holder:
  assumes "topo_wf t" and i: "i < length (slots t)"
    and "h \<notin> set (s_holders (slots t ! i))" and "holds_in t i h"
  shows "topo_wf (t\<lparr>slots := (slots t)[i := (slots t ! i)
    \<lparr>s_holders := s_holders (slots t ! i) @ [h]\<rparr>]\<rparr>)"
proof -
  let ?ss = "(slots t)[i := (slots t ! i)\<lparr>s_holders := s_holders (slots t ! i) @ [h]\<rparr>]"
  have b: "map bounds ?ss = map bounds (slots t)"
    using i by (simp add: map_update list_update_same_conv)
  have nth: "s_index (?ss ! j) = s_index (slots t ! j) \<and> slot_size (?ss ! j) = slot_size (slots t ! j)"
    if "j < length ?ss" for j using map_bounds_nth [OF b that] .
  have "holds_in (t\<lparr>slots := ?ss\<rparr>) j g" if "j < length ?ss" "g \<in> set (s_holders (?ss ! j))" for j g
  proof -
    have "holds_in t j g"
      using that topo_wf_holder [OF assms(1)] assms(4) i by (cases "j = i") auto
    with nth [OF that(1)] show ?thesis by (simp add: holds_in_def)
  qed
  moreover have "distinct (s_holders (?ss ! j))" if "j < length ?ss" for j
    using that assms(3) i topo_wf_distinct [OF assms(1)] by (cases "j = i") auto
  moreover have "tiles (coordinator_end t) (num_layers t) ?ss"
    using tiles_cong [OF b] topo_wf_tiles [OF assms(1)] by simp
  ultimately show ?thesis using assms(1) nth by (simp add: topo_wf_def)
qed

lemma topo_wf_register:
  assumes "topo_wf t"
  shows "topo_wf (fst (register t n now pr))"
proof (cases "node_fp n = topo_fp t")
  case False
  then show ?thesis using assms by (simp add: register_def)
next
  case fp: True
  let ?t1 = "t\<lparr>slots := drop_holder (node_id n) (slots t)\<rparr>"
  have wf1: "topo_wf ?t1" using assms by (rule topo_wf_drop_holder)
  show ?thesis
  proof (cases "choose_slot ?t1 n pr")
    case None
    then show ?thesis using fp wf1 by (simp add: register_def Let_def)
  next
    case (Some s)
    let ?i = "s_index s"
    let ?n = "n\<lparr>slot := Some ?i, state := JOINING, last_hb := now\<rparr>"
    let ?t2 = "?t1\<lparr>nodes := dset (node_id n) ?n (nodes ?t1)\<rparr>"
    note s = choose_slot_SomeD [OF Some]
    have i: "?i < length (slots ?t1)" and si: "slots ?t1 ! ?i = s"
      using topo_wf_slot_nth [OF wf1 s(1)] by simp_all
    have gone: "\<forall>s \<in> set (slots ?t1). node_id n \<notin> set (s_holders s)"
      using drop_holder_gone [OF assms] by (auto simp: in_set_conv_nth)
    have "topo_wf (?t1\<lparr>nodes := dset (node_id ?n) ?n (nodes ?t1)\<rparr>)"
      using wf1 gone fp i by (intro topo_wf_set_node) auto
    then have wf2: "topo_wf ?t2" by simp
    have "holds_in ?t2 ?i (node_id n)"
      using si s(2) by (simp add: holds_in_def dict_simps)
    moreover have "node_id n \<notin> set (s_holders (slots ?t2 ! ?i))" using gone si s(1) by simp
    ultimately have "topo_wf (?t2\<lparr>slots := (slots ?t2)[?i := (slots ?t2 ! ?i)
        \<lparr>s_holders := s_holders (slots ?t2 ! ?i) @ [node_id n]\<rparr>]\<rparr>)"
      using wf2 i by (intro topo_wf_add_holder) simp_all
    then show ?thesis using fp Some si by (simp add: register_def Let_def)
  qed
qed

lemma topo_wf_register_orchestrator:
  assumes "topo_wf t"
  shows "topo_wf (fst (register_orchestrator t n now))"
proof (cases "node_fp n = topo_fp t")
  case False
  then show ?thesis using assms by (simp add: register_orchestrator_def)
next
  case True
  let ?t1 = "t\<lparr>slots := drop_holder (node_id n) (slots t)\<rparr>"
  let ?n = "n\<lparr>slot := None, orchestrator := True, state := JOINING, last_hb := now\<rparr>"
  have "\<forall>s \<in> set (slots ?t1). node_id n \<notin> set (s_holders s)"
    using drop_holder_gone [OF assms] by (auto simp: in_set_conv_nth)
  then have "topo_wf (?t1\<lparr>nodes := dset (node_id ?n) ?n (nodes ?t1)\<rparr>)"
    using topo_wf_drop_holder [OF assms] True by (intro topo_wf_set_node) auto
  then show ?thesis using True by (simp add: register_orchestrator_def Let_def)
qed

lemma topo_wf_heartbeat: "topo_wf t \<Longrightarrow> topo_wf (fst (heartbeat t nid now))"
  by (auto simp: heartbeat_def static_view_def split: option.split intro!: topo_wf_dmod)

lemma topo_wf_mark_ready: "topo_wf t \<Longrightarrow> topo_wf (mark_ready t nid)"
  by (auto simp: mark_ready_def static_view_def intro!: topo_wf_dmod)

lemma topo_wf_mark_suspect: "topo_wf t \<Longrightarrow> topo_wf (mark_suspect t nid)"
  by (auto simp: mark_suspect_def static_view_def intro!: topo_wf_dmod)

lemma topo_wf_drain: "topo_wf t \<Longrightarrow> topo_wf (drain t nid)"
  by (auto simp: drain_def static_view_def intro!: topo_wf_dmod)

lemma topo_wf_set_trusted: "topo_wf t \<Longrightarrow> topo_wf (set_trusted t nid)"
  by (auto simp: set_trusted_def static_view_def intro!: topo_wf_dmod)

lemma topo_wf_set_rtt: "topo_wf t \<Longrightarrow> topo_wf (set_rtt t nid ms)"
  by (simp add: set_rtt_def topo_wf_rtts)

lemma topo_wf_map_nodes:
  assumes "topo_wf t" and "\<And>k n. static_view (f k n) = static_view n"
  shows "topo_wf (t\<lparr>nodes := map (\<lambda>(k, n). (k, f k n)) (nodes t)\<rparr>)"
  using assms(1)
proof (rule topo_wf_static)
  show "dict_ok (map (\<lambda>(k, n). (k, f k n)) (nodes t))"
    using assms(1) by (simp only: keys_map_snd topo_wf_dict)
  show "map_option static_view (map_of (map (\<lambda>(k, n). (k, f k n)) (nodes t)) k) =
      map_option static_view (map_of (nodes t) k)" for k
    using assms(2) by (simp add: map_of_map_snd option.map_comp o_def)
qed

lemma topo_wf_reap: "topo_wf t \<Longrightarrow> topo_wf (fst (reap t now))"
  unfolding reap_def fst_conv
  by (rule topo_wf_map_nodes [where f = "\<lambda>_ n. if stale t now n then n\<lparr>state := DEAD\<rparr> else n"])
    (simp_all add: static_view_def)

lemma static_view_check_node: "static_view (fst (check_node ok pa sm n)) = static_view n"
  by (simp add: check_node_def static_view_def Let_def)

lemma topo_wf_record_check:
  assumes "topo_wf t"
  shows "topo_wf (fst (record_check t nid ok pa sm))"
proof (cases "map_of (nodes t) nid")
  case None
  then show ?thesis using assms by (simp add: record_check_def)
next
  case (Some n)
  have "topo_wf (t\<lparr>nodes := dmod nid (\<lambda>_. fst (check_node ok pa sm n)) (nodes t)\<rparr>)"
    using assms
  proof (rule topo_wf_static)
    show "dict_ok (dmod nid (\<lambda>_. fst (check_node ok pa sm n)) (nodes t))"
      using assms by (simp add: topo_wf_dict)
    show "map_option static_view (map_of (dmod nid (\<lambda>_. fst (check_node ok pa sm n)) (nodes t)) k) =
        map_option static_view (map_of (nodes t) k)" for k
      using Some by (simp add: dict_simps static_view_check_node)
  qed
  with Some show ?thesis by (simp add: record_check_def split_beta)
qed

lemma topo_wf_remove_node:
  assumes "topo_wf t"
  shows "topo_wf (remove_node t nid)"
proof (cases "map_of (nodes t) nid")
  case None
  then have "dpop nid (nodes t) = nodes t"
    by (intro AList.delete_id) (simp add: map_of_eq_None_iff image_iff)
  then show ?thesis
    using None assms by (simp add: remove_node_def topo_wf_rtts)
next
  case (Some n)
  let ?ss = "case slot n of None \<Rightarrow> slots t | Some i \<Rightarrow> (slots t)[i := (slots t ! i)
       \<lparr>s_holders := remove1 nid (s_holders (slots t ! i))\<rparr>]"
  have eq: "remove_node t nid =
      t\<lparr>nodes := dpop nid (nodes t), slots := ?ss\<rparr>\<lparr>rtts := dpop nid (rtts t)\<rparr>"
    using Some by (simp add: remove_node_def Let_def split: option.split)
  have valid: "i < length (slots t)" if "slot n = Some i" for i
    using topo_wf_node [OF assms Some] that by simp
  have b: "map bounds ?ss = map bounds (slots t)"
    using valid by (auto simp: map_update list_update_same_conv split: option.split)
  have "distinct (s_holders (?ss ! i)) \<and> set (s_holders (?ss ! i)) \<subseteq> set (s_holders (slots t ! i))"
    if "i < length ?ss" for i
    using that topo_wf_distinct [OF assms] valid
    by (auto simp: nth_list_update split: option.splits dest: notin_set_remove1)
  with assms b have wf: "topo_wf (t\<lparr>slots := ?ss\<rparr>)" by (intro topo_wf_fewer_holders) auto
  have gone: "nid \<notin> set (s_holders (?ss ! i))" if i: "i < length ?ss" for i
  proof
    assume in_ss: "nid \<in> set (s_holders (?ss ! i))"
    have len: "length ?ss = length (slots t)" by (simp split: option.split)
    have "holds_in (t\<lparr>slots := ?ss\<rparr>) i nid" using topo_wf_holder [OF wf, of i nid] i in_ss by simp
    then have "slot n = Some i" using Some by (simp add: holds_in_def)
    then show False using in_ss i len topo_wf_distinct [OF assms, of i] by simp
  qed
  have "holds_in (t\<lparr>nodes := dpop nid (nodes t), slots := ?ss\<rparr>) i h"
    if "i < length ?ss" "h \<in> set (s_holders (?ss ! i))" for i h
    using topo_wf_holder [OF wf, of i h] gone [OF that(1)] that
    by (auto simp: holds_in_def dict_simps)
  then have "topo_wf (t\<lparr>nodes := dpop nid (nodes t), slots := ?ss\<rparr>)"
    using wf by (auto simp: topo_wf_def dict_simps)
  then show ?thesis by (simp only: eq topo_wf_rtts)
qed

lemma topo_wf_purge: "topo_wf t \<Longrightarrow> topo_wf (fst (purge t now))"
proof -
  have "topo_wf t \<Longrightarrow> topo_wf (foldl remove_node t ids)" for ids
    by (induction ids arbitrary: t) (simp_all add: topo_wf_remove_node)
  then show "topo_wf t \<Longrightarrow> topo_wf (fst (purge t now))" by (simp add: purge_def Let_def)
qed

lemmas topo_wf_ops =
  topo_wf_register topo_wf_register_orchestrator topo_wf_heartbeat topo_wf_mark_ready
  topo_wf_mark_suspect topo_wf_drain topo_wf_reap topo_wf_purge topo_wf_remove_node
  topo_wf_set_rtt topo_wf_set_trusted topo_wf_record_check

end
