(* ===== verification/Topology_Spec.thy ===== *)
theory Topology_Spec
  imports Topology_Inv
begin

section \<open>Contracts of the topology\<close>

text \<open>
  Runs of the topology as sequences of events, the invariant in every state a run reaches,
  and what registration, health, trust and routing promise the registry built on them.
\<close>

subsection \<open>Runs\<close>

datatype topo_event =
    ERegister node rat "(int \<times> int) option"
  | EOrchestrator node rat
  | EHeartbeat string rat
  | EReady string
  | ESuspect string
  | EDrain string
  | EReap rat
  | EPurge rat
  | ERemove string
  | ERtt string rat
  | ETrusted string
  | ECheck string bool int int

text \<open>One call on the topology, whatever its outcome.\<close>

fun topo_step :: "topology \<Rightarrow> topo_event \<Rightarrow> topology" where
  "topo_step t (ERegister n now pr) = fst (register t n now pr)"
| "topo_step t (EOrchestrator n now) = fst (register_orchestrator t n now)"
| "topo_step t (EHeartbeat nid now) = fst (heartbeat t nid now)"
| "topo_step t (EReady nid) = mark_ready t nid"
| "topo_step t (ESuspect nid) = mark_suspect t nid"
| "topo_step t (EDrain nid) = drain t nid"
| "topo_step t (EReap now) = fst (reap t now)"
| "topo_step t (EPurge now) = fst (purge t now)"
| "topo_step t (ERemove nid) = remove_node t nid"
| "topo_step t (ERtt nid ms) = set_rtt t nid ms"
| "topo_step t (ETrusted nid) = set_trusted t nid"
| "topo_step t (ECheck nid ok pa sm) = fst (record_check t nid ok pa sm)"

lemma topo_wf_step: "topo_wf t \<Longrightarrow> topo_wf (topo_step t e)"
  by (cases e) (simp_all add: topo_wf_ops)

lemma topo_wf_run: "topo_wf t \<Longrightarrow> topo_wf (foldl topo_step t es)"
  by (induction es arbitrary: t) (simp_all add: topo_wf_step)

text \<open>What construction fixes for good: the layer range, the fingerprint and the slots' bounds.\<close>

definition frame :: "topology \<Rightarrow> int \<times> int \<times> string \<times> (nat \<times> int \<times> int) list" where
  "frame t = (num_layers t, coordinator_end t, topo_fp t, map bounds (slots t))"

lemma frame_remove_node [simp]: "frame (remove_node t nid) = frame t"
  by (auto simp: frame_def remove_node_def Let_def map_update split: option.split)
    (metis (no_types, lifting) list_update_beyond list_update_id map_update
       linorder_not_le nth_map length_map)

lemma frame_foldl_remove [simp]: "frame (foldl remove_node t ids) = frame t"
  by (induction ids arbitrary: t) simp_all

lemma frame_nodes [simp]: "frame (t\<lparr>nodes := ns\<rparr>) = frame t"
  by (simp add: frame_def)

lemma frame_rtts [simp]: "frame (t\<lparr>rtts := r\<rparr>) = frame t"
  by (simp add: frame_def)

lemma frame_drop_holder [simp]: "frame (t\<lparr>slots := drop_holder nid (slots t)\<rparr>) = frame t"
  by (simp add: frame_def)

lemma frame_register: "topo_wf t \<Longrightarrow> frame (fst (register t n now pr)) = frame t"
proof -
  assume wf: "topo_wf t"
  let ?t1 = "t\<lparr>slots := drop_holder (node_id n) (slots t)\<rparr>"
  have "map bounds ((slots ?t1)[s_index s := s\<lparr>s_holders := s_holders s @ [node_id n]\<rparr>])
      = map bounds (slots t)" if "choose_slot ?t1 n pr = Some s" for s
  proof -
    have "s_index s < length (slots ?t1)" and "slots ?t1 ! s_index s = s"
      using topo_wf_slot_nth [OF topo_wf_drop_holder [OF wf]] choose_slot_SomeD(1) [OF that] by simp_all
    moreover have "map bounds (slots ?t1) ! s_index s = map bounds (slots t) ! s_index s" by simp
    ultimately have "map bounds (slots t) ! s_index s = bounds s" and "s_index s < length (slots t)"
      by (simp_all del: drop_holder_bounds)
    then have "(map bounds (slots t))[s_index s := bounds s] = map bounds (slots t)"
      by (simp only: list_update_same_conv length_map)
    then show ?thesis by (simp add: map_update)
  qed
  then show ?thesis by (simp add: register_def Let_def frame_def split: option.split)
qed

lemma frame_step: "topo_wf t \<Longrightarrow> frame (topo_step t e) = frame t"
  by (cases e) (simp_all add: frame_register register_orchestrator_def heartbeat_def mark_ready_def
      mark_suspect_def drain_def reap_def purge_def set_rtt_def set_trusted_def record_check_def
      Let_def split_beta split: option.split)

lemma frame_run: "topo_wf t \<Longrightarrow> frame (foldl topo_step t es) = frame t"
proof (induction es arbitrary: t)
  case Nil
  then show ?case by simp
next
  case (Cons e es)
  then show ?case using topo_wf_step frame_step by (metis foldl_Cons)
qed

text \<open>C26. After any sequence of calls on a topology the constructor accepted, whatever their
  arguments and outcomes: node ids are unique keys, every registered node carries the
  topology's fingerprint and names an existing slot (or none), every slot's holder list is
  duplicate-free and lists only registered nodes whose record names exactly that slot and
  whose capacity fits it, and every layer past the coordinator's own belongs to exactly one
  slot.\<close>

theorem topology_run_invariant:
  assumes "mk_topology nl ce ns fp r d cr bl szs = Inr t0" and "t = foldl topo_step t0 es"
  shows "dict_ok (nodes t) \<and>
    (\<forall>k n. map_of (nodes t) k = Some n \<longrightarrow>
       node_id n = k \<and> node_fp n = topo_fp t \<and> (\<forall>i. slot n = Some i \<longrightarrow> i < length (slots t))) \<and>
    (\<forall>i < length (slots t). distinct (s_holders (slots t ! i)) \<and>
       (\<forall>h \<in> set (s_holders (slots t ! i)). \<exists>n. map_of (nodes t) h = Some n \<and>
          slot n = Some i \<and> slot_size (slots t ! i) \<le> capacity_layers n)) \<and>
    (\<forall>l. ce \<le> l \<and> l < nl \<longrightarrow>
       (\<exists>!i. i < length (slots t) \<and> s_start (slots t ! i) \<le> l \<and> l < s_end (slots t ! i)))"
proof -
  have wf0: "topo_wf t0" using assms(1) by (rule topo_wf_mk_topology)
  then have wf: "topo_wf t" using assms(2) topo_wf_run by blast
  have "num_layers t = nl" "coordinator_end t = ce"
    using frame_run [OF wf0, of es] mk_topology_Inr [OF assms(1)] assms(2) by (auto simp: frame_def)
  then show ?thesis
    using topo_wf_dict [OF wf] topo_wf_node [OF wf] topo_wf_distinct [OF wf]
      topo_wf_holder [OF wf] tiles_unique_cover [OF topo_wf_tiles [OF wf]]
    unfolding holds_in_def by blast
qed

subsection \<open>Registration\<close>

lemma find_NoneD: "find P xs = None \<Longrightarrow> \<forall>x \<in> set xs. \<not> P x"
  by (simp add: find_None_iff)

lemma choose_slot_pick:
  assumes "choose_slot t n pr = Some s"
    and "\<not> (\<exists>u \<in> set (slots t). pr = Some (s_start u, s_end u) \<and> slot_size u \<le> capacity_layers n)"
    and "u \<in> set (slots t)" and "slot_size u \<le> capacity_layers n"
  shows "committed_count t s \<le> committed_count t u"
proof -
  have "pick_slot t n = Some s"
  proof (cases pr)
    case None
    then show ?thesis using assms(1) by (simp add: choose_slot_def)
  next
    case (Some p)
    then have "find (\<lambda>s. (s_start s, s_end s) = p \<and> slot_size s \<le> capacity_layers n) (slots t) = None"
      using assms(2) by (auto simp: find_None_iff)
    then show ?thesis using assms(1) Some by (simp add: choose_slot_def)
  qed
  then have "s = hd (sort_key (\<lambda>s. (committed_count t s, s_index s))
      (filter (\<lambda>s. slot_size s \<le> capacity_layers n) (slots t)))"
    by (auto simp: pick_slot_def Let_def split: if_splits)
  moreover have "u \<in> set (filter (\<lambda>s. slot_size s \<le> capacity_layers n) (slots t))"
    using assms(3,4) by simp
  ultimately have "(committed_count t s, s_index s) \<le> (committed_count t u, s_index u)"
    using hd_sort_key_le [of u _ "\<lambda>s. (committed_count t s, s_index s)"] by blast
  then show ?thesis by auto
qed

lemma choose_slot_prefers:
  assumes "choose_slot t n (Some (a, b)) = Some s"
    and "\<exists>u \<in> set (slots t). (s_start u, s_end u) = (a, b) \<and> slot_size u \<le> capacity_layers n"
  shows "s_start s = a \<and> s_end s = b"
proof -
  let ?P = "\<lambda>s. (s_start s, s_end s) = (a, b) \<and> slot_size s \<le> capacity_layers n"
  obtain u where "find ?P (slots t) = Some u" using assms(2) by (cases "find ?P (slots t)")
    (auto dest!: find_NoneD)
  moreover from this have "?P u" by (auto simp: find_Some_iff)
  ultimately show ?thesis using assms(1) by (simp add: choose_slot_def)
qed

lemma choose_slot_None_iff:
  "choose_slot t n pr = None \<longleftrightarrow> (\<forall>s \<in> set (slots t). capacity_layers n < slot_size s)"
proof
  assume n: "choose_slot t n pr = None"
  then have "pick_slot t n = None" by (auto simp: choose_slot_def Let_def split: option.splits)
  then show "\<forall>s \<in> set (slots t). capacity_layers n < slot_size s"
    by (auto simp: pick_slot_def Let_def filter_empty_conv not_le split: if_splits)
next
  assume all: "\<forall>s \<in> set (slots t). capacity_layers n < slot_size s"
  show "choose_slot t n pr = None"
  proof (cases "choose_slot t n pr")
    case None
    then show ?thesis .
  next
    case (Some s)
    then show ?thesis using choose_slot_SomeD [OF Some] all by fastforce
  qed
qed

lemma drop_holder_all_size:
  "(\<forall>s \<in> set (drop_holder nid ss). c < slot_size s) \<longleftrightarrow> (\<forall>s \<in> set ss. c < slot_size s)"
  by (simp add: drop_holder_def slot_size_def)

lemma register_Inl:
  "(\<exists>e. snd (register t n now pr) = Inl e) \<longleftrightarrow>
     node_fp n \<noteq> topo_fp t \<or> (\<forall>s \<in> set (slots t). capacity_layers n < slot_size s)"
proof (cases "node_fp n = topo_fp t")
  case False
  then show ?thesis by (simp add: register_def)
next
  case True
  let ?t1 = "t\<lparr>slots := drop_holder (node_id n) (slots t)\<rparr>"
  have "choose_slot ?t1 n pr = None \<longleftrightarrow> (\<forall>s \<in> set (slots t). capacity_layers n < slot_size s)"
    by (simp add: choose_slot_None_iff drop_holder_all_size)
  then show ?thesis using True
    by (cases "choose_slot ?t1 n pr") (simp_all add: register_def Let_def)
qed

lemma register_success:
  assumes wf: "topo_wf t" and reg: "register t n now pr = (t', Inr s')"
  shows "node_fp n = topo_fp t" and "s_index s' < length (slots t')" and "slots t' ! s_index s' = s'"
    and "nodes t' = dset (node_id n) (n\<lparr>slot := Some (s_index s'), state := JOINING, last_hb := now\<rparr>) (nodes t)"
proof -
  let ?t1 = "t\<lparr>slots := drop_holder (node_id n) (slots t)\<rparr>"
  show fp: "node_fp n = topo_fp t" using reg by (auto simp: register_def split: if_splits)
  then obtain s where s: "choose_slot ?t1 n pr = Some s"
    using reg by (auto simp: register_def Let_def split: option.splits)
  have "topo_wf ?t1" using wf by (rule topo_wf_drop_holder)
  then have "s_index s < length (slots ?t1)"
    using topo_wf_slot_nth choose_slot_SomeD(1) [OF s] by blast
  then show "s_index s' < length (slots t')" and "slots t' ! s_index s' = s'"
    and "nodes t' = dset (node_id n) (n\<lparr>slot := Some (s_index s'), state := JOINING, last_hb := now\<rparr>) (nodes t)"
    using reg fp s by (auto simp: register_def Let_def)
qed

text \<open>A registration that succeeds puts the node, \<open>JOINING\<close> and stamped with the time, last
  in the holder list of one slot that fits its capacity, and in no other slot.  The slot is the
  preferred layer range when some slot has exactly that range and fits; otherwise no fitting
  slot has fewer living holders than the chosen one (the node's previous holding not counted).
  Every other node's record is untouched.\<close>

theorem register_assigns:
  assumes wf: "topo_wf t" and reg: "register t n now pr = (t', Inr s')"
  shows "node_fp n = topo_fp t \<and> s_index s' < length (slots t') \<and> slots t' ! s_index s' = s' \<and>
    (\<exists>hs. s_holders s' = hs @ [node_id n]) \<and>
    (\<forall>j < length (slots t'). node_id n \<in> set (s_holders (slots t' ! j)) \<longrightarrow> j = s_index s') \<and>
    slot_size s' \<le> capacity_layers n \<and>
    map_of (nodes t') = (map_of (nodes t))
      (node_id n \<mapsto> n\<lparr>slot := Some (s_index s'), state := JOINING, last_hb := now\<rparr>) \<and>
    (if \<exists>u \<in> set (slots t). pr = Some (s_start u, s_end u) \<and> slot_size u \<le> capacity_layers n
     then pr = Some (s_start s', s_end s')
     else \<forall>u \<in> set (drop_holder (node_id n) (slots t)). slot_size u \<le> capacity_layers n \<longrightarrow>
       committed_count t (s'\<lparr>s_holders := butlast (s_holders s')\<rparr>) \<le> committed_count t u)"
proof -
  let ?t1 = "t\<lparr>slots := drop_holder (node_id n) (slots t)\<rparr>"
  have fp: "node_fp n = topo_fp t" using reg by (auto simp: register_def split: if_splits)
  then obtain s where s: "choose_slot ?t1 n pr = Some s"
    using reg by (auto simp: register_def Let_def split: option.splits)
  have s': "s' = s\<lparr>s_holders := s_holders s @ [node_id n]\<rparr>"
    and t': "t' = ?t1\<lparr>nodes := dset (node_id n) (n\<lparr>slot := Some (s_index s), state := JOINING,
      last_hb := now\<rparr>) (nodes t), slots := (slots ?t1)[s_index s := s']\<rparr>"
    using reg fp s by (auto simp: register_def Let_def)
  have wf1: "topo_wf ?t1" using wf by (rule topo_wf_drop_holder)
  have si: "s_index s < length (slots ?t1)" "slots ?t1 ! s_index s = s"
    using topo_wf_slot_nth [OF wf1 choose_slot_SomeD(1) [OF s]] by simp_all
  have wf': "topo_wf t'" using topo_wf_register [OF wf, of n now pr] reg by simp
  have one: "j = s_index s'"
    if j: "j < length (slots t')" and h: "node_id n \<in> set (s_holders (slots t' ! j))" for j
  proof (rule topo_wf_one_slot [OF wf' j _ h])
    show "s_index s' < length (slots t')" using si s' t' by simp
    show "node_id n \<in> set (s_holders (slots t' ! s_index s'))" using si s' t' by simp
  qed
  have cc: "committed_count ?t1 u = committed_count t u" for u by (simp add: committed_count_def)
  have ex: "(\<exists>u \<in> set (slots ?t1). pr = Some (s_start u, s_end u) \<and> slot_size u \<le> capacity_layers n)
      \<longleftrightarrow> (\<exists>u \<in> set (slots t). pr = Some (s_start u, s_end u) \<and> slot_size u \<le> capacity_layers n)"
    unfolding slot_size_def topology.select_convs topology.surjective
    by (auto simp: drop_holder_def)
  have chosen: "if \<exists>u \<in> set (slots t). pr = Some (s_start u, s_end u) \<and> slot_size u \<le> capacity_layers n
     then pr = Some (s_start s, s_end s)
     else \<forall>u \<in> set (slots ?t1). slot_size u \<le> capacity_layers n \<longrightarrow>
       committed_count t s \<le> committed_count t u" (is "if ?E then _ else _")
  proof (cases ?E)
    case True
    then obtain a b where ab: "pr = Some (a, b)" by auto
    then have "s_start s = a \<and> s_end s = b"
      using choose_slot_prefers [of ?t1 n a b s] s ex True by (simp only:) auto
    with True ab show ?thesis by simp
  next
    case False
    then have "\<not> (\<exists>u \<in> set (slots ?t1). pr = Some (s_start u, s_end u) \<and> slot_size u \<le> capacity_layers n)"
      using ex by blast
    then have "\<forall>u \<in> set (slots ?t1). slot_size u \<le> capacity_layers n \<longrightarrow>
        committed_count t s \<le> committed_count t u"
      using choose_slot_pick [OF s] unfolding cc by blast
    then show ?thesis unfolding if_not_P [OF False] .
  qed
  have "s'\<lparr>s_holders := butlast (s_holders s')\<rparr> = s" using s' by simp
  with chosen have pref: "if \<exists>u \<in> set (slots t). pr = Some (s_start u, s_end u) \<and> slot_size u \<le> capacity_layers n
     then pr = Some (s_start s', s_end s')
     else \<forall>u \<in> set (drop_holder (node_id n) (slots t)). slot_size u \<le> capacity_layers n \<longrightarrow>
       committed_count t (s'\<lparr>s_holders := butlast (s_holders s')\<rparr>) \<le> committed_count t u"
    using s' by simp
  have "slot_size s' \<le> capacity_layers n"
    using choose_slot_SomeD(2) [OF s] s' by (simp add: slot_size_def)
  then show ?thesis using pref one fp si s' t' by (simp add: dict_simps)
qed

text \<open>C32. Registration is refused exactly when the fingerprint differs or no slot fits the node's
  capacity, always with \<open>ValueError\<close>; the node table is then unchanged.  A refusal for capacity
  comes after the node's previous holding was dropped: the node disappears from the slot it held
  although its old record, still in the table, keeps naming that slot.\<close>

theorem register_refusal:
  shows "((\<exists>e. snd (register t n now pr) = Inl e) \<longleftrightarrow>
      node_fp n \<noteq> topo_fp t \<or> (\<forall>s \<in> set (slots t). capacity_layers n < slot_size s)) \<and>
    (case register t n now pr of
       (t', Inl e) \<Rightarrow> e = ValueError \<and> nodes t' = nodes t \<and>
         slots t' = (if node_fp n = topo_fp t then drop_holder (node_id n) (slots t) else slots t)
     | (t', Inr s) \<Rightarrow> True)"
  unfolding register_Inl
  by (auto simp: register_def Let_def split: option.split)

definition demo_node :: "string \<Rightarrow> int \<Rightarrow> node" where
  "demo_node nid cap = new_node nid (''10.0.0.1'', 9000) cap ''fp'' ''direct'' None '''' False"

definition demo_topology :: "topology" where
  "demo_topology = projr (mk_topology 10 2 2 ''fp'' 1 30 None False None)"

lemmas demo_simps = demo_node_def demo_topology_def new_node_def mk_topology_def balanced_sizes_def
  mk_slots.simps Let_def numeral_2_eq_2

lemma demo_topology_built: "mk_topology 10 2 2 ''fp'' 1 30 None False None = Inr demo_topology"
  by (simp add: demo_topology_def mk_topology_def)

lemma register_refusal_witness:
  "\<exists>e. snd (register demo_topology (demo_node ''a'' 3) 0 None) = Inl e"
proof -
  have "\<forall>s \<in> set (slots demo_topology). capacity_layers (demo_node ''a'' 3) < slot_size s"
    by (simp add: demo_simps slot_size_def)
  then show ?thesis using register_refusal [of demo_topology "demo_node ''a'' 3" 0 None] by blast
qed

lemma demo_topology_wf: "topo_wf demo_topology"
  by (rule topo_wf_mk_topology [OF demo_topology_built])

lemma register_assigns_witness:
  "\<exists>t' s'. register demo_topology (demo_node ''a'' 4) 0 (Some (6, 10)) = (t', Inr s') \<and>
     s_start s' = 6 \<and> s_holders s' = [''a'']"
proof -
  let ?r = "register demo_topology (demo_node ''a'' 4) 0 (Some (6, 10))"
  obtain t' s' where r: "?r = (t', Inr s')"
    by (simp add: register_def choose_slot_def demo_simps drop_holder_def slot_size_def)
  have "\<exists>u \<in> set (slots demo_topology). Some (6, 10) = Some (s_start u, s_end u) \<and>
      slot_size u \<le> capacity_layers (demo_node ''a'' 4)"
    by (simp add: demo_simps slot_size_def)
  then have "Some (6, 10) = Some (s_start s', s_end s')"
    using register_assigns [OF demo_topology_wf r] by metis
  moreover have "s_holders s' = [''a'']"
    using r by (auto simp: register_def choose_slot_def demo_simps drop_holder_def slot_size_def)
  ultimately show ?thesis using r by auto
qed

lemma topology_run_invariant_witness:
  "\<exists>t. t = foldl topo_step demo_topology [ERegister (demo_node ''a'' 4) 0 None, EReady ''a'',
     EReap 100, ERegister (demo_node ''a'' 9) 101 None] \<and> dict_ok (nodes t) \<and>
     (\<exists>!i. i < length (slots t) \<and> s_start (slots t ! i) \<le> 7 \<and> 7 < s_end (slots t ! i))"
  using topology_run_invariant [OF demo_topology_built refl, of "[ERegister (demo_node ''a'' 4) 0 None,
    EReady ''a'', EReap 100, ERegister (demo_node ''a'' 9) 101 None]"]
  by simp

subsection \<open>Health\<close>

text \<open>A heartbeat is answered positively exactly for a registered node that is not DEAD; it
  then stamps the time and turns SUSPECT back into READY, leaving any other state (a draining
  node stays draining).  A negative answer, which tells the node to register again, changes
  nothing.\<close>

theorem heartbeat_contract:
  "heartbeat t nid now =
     (case map_of (nodes t) nid of
        Some n \<Rightarrow>
          if state n = DEAD then (t, False)
          else (fst (heartbeat t nid now), True)
      | None \<Rightarrow> (t, False)) \<and>
   map_of (nodes (fst (heartbeat t nid now))) =
     (case map_of (nodes t) nid of
        Some n \<Rightarrow>
          if state n = DEAD then map_of (nodes t)
          else (map_of (nodes t))(nid \<mapsto> n\<lparr>last_hb := now,
             state := (if state n = SUSPECT then READY else state n)\<rparr>)
      | None \<Rightarrow> map_of (nodes t)) \<and>
   slots (fst (heartbeat t nid now)) = slots t"
  by (cases "map_of (nodes t) nid")
    (auto simp: heartbeat_def dict_simps intro: node_state.exhaust)

text \<open>After a reap no joining, ready or suspect node has a heartbeat older than the limit, the
  reported ids are exactly the nodes the reap declared dead, and only states changed.\<close>

theorem reap_declares_dead:
  assumes "topo_wf t" and "reap t now = (t', newly)"
  shows "(\<forall>k n. map_of (nodes t') k = Some n \<longrightarrow> \<not> stale t' now n) \<and>
    set newly = {k. \<exists>n. map_of (nodes t) k = Some n \<and> stale t now n} \<and>
    (\<forall>k. map_of (nodes t') k = map_option (\<lambda>n. if k \<in> set newly then n\<lparr>state := DEAD\<rparr> else n)
       (map_of (nodes t) k)) \<and> slots t' = slots t"
proof -
  have d: "dict_ok (nodes t)" using assms(1) by (rule topo_wf_dict)
  have newly: "newly = map (\<lambda>(k, n). node_id n) (filter (\<lambda>(k, n). stale t now n) (nodes t))"
    and t': "t' = t\<lparr>nodes := map (\<lambda>(k, n). (k, if stale t now n then n\<lparr>state := DEAD\<rparr> else n)) (nodes t)\<rparr>"
    using assms(2) by (simp_all add: reap_def)
  have m: "map_of (nodes t') k = map_option (\<lambda>n. if stale t now n then n\<lparr>state := DEAD\<rparr> else n)
      (map_of (nodes t) k)" for k
    using t' by (simp add: map_of_map_snd)
  have ids: "k \<in> set newly \<longleftrightarrow> (\<exists>n. map_of (nodes t) k = Some n \<and> stale t now n)" for k
    unfolding newly using topo_wf_node [OF assms(1)] d
    by (auto simp: image_iff split_beta)
  have "dead_after_s t' = dead_after_s t" using t' by simp
  then have "\<not> stale t' now (if stale t now z then z\<lparr>state := DEAD\<rparr> else z)" for z
    by (simp add: stale_def)
  then have "\<not> stale t' now n" if "map_of (nodes t') k = Some n" for k n
    using that unfolding m by blast
  moreover have "map_of (nodes t') k = map_option (\<lambda>n. if k \<in> set newly then n\<lparr>state := DEAD\<rparr> else n)
       (map_of (nodes t) k)" for k
    using ids [of k] by (cases "map_of (nodes t) k") (simp_all add: m)
  ultimately show ?thesis using ids t' by auto
qed

text \<open>A node taken out of service stays out until it registers again.\<close>

definition out_of_service :: "topology \<Rightarrow> string \<Rightarrow> bool" where
  "out_of_service t nid \<longleftrightarrow>
     (case map_of (nodes t) nid of None \<Rightarrow> True | Some n \<Rightarrow> state n \<in> {DEAD, DRAINING})"

fun registers :: "string \<Rightarrow> topo_event \<Rightarrow> bool" where
  "registers nid (ERegister n _ _) \<longleftrightarrow> node_id n = nid"
| "registers nid (EOrchestrator n _) \<longleftrightarrow> node_id n = nid"
| "registers nid _ \<longleftrightarrow> False"

lemma map_of_remove_node: "map_of (nodes (remove_node t nid)) = (map_of (nodes t))(nid := None)"
  by (simp add: remove_node_def Let_def dict_simps split: option.split)

lemma out_of_service_removes:
  "out_of_service t nid \<Longrightarrow> out_of_service (foldl remove_node t ids) nid"
  by (induction ids arbitrary: t) (auto simp: out_of_service_def map_of_remove_node)

lemma out_of_service_step:
  assumes "out_of_service t nid" and "\<not> registers nid e"
  shows "out_of_service (topo_step t e) nid"
proof (cases e)
  case (ERegister n now pr)
  with assms show ?thesis
    by (auto simp: out_of_service_def register_def Let_def dict_simps split: option.split)
next
  case (EPurge now)
  with assms show ?thesis by (simp add: purge_def Let_def out_of_service_removes)
next
  case (ECheck n ok pa sm)
  with assms show ?thesis
    by (auto simp: out_of_service_def record_check_def check_node_def Let_def dict_simps
        split: option.splits)
qed (use assms in \<open>auto simp: out_of_service_def register_orchestrator_def heartbeat_def
    mark_ready_def mark_suspect_def drain_def reap_def set_rtt_def set_trusted_def Let_def
    dict_simps map_of_remove_node map_of_map_snd split: option.splits\<close>)

text \<open>C27. A node the registry evicted, declared dead, removed or is draining never becomes routable
  again through any sequence of heartbeats, readiness reports, checks, reaps, purges, trust or
  latency updates, or registrations of other nodes: only its own re-registration brings it
  back.\<close>

theorem no_comeback_without_registration:
  assumes "out_of_service t nid" and "\<forall>e \<in> set es. \<not> registers nid e"
  shows "out_of_service (foldl topo_step t es) nid"
  using assms by (induction es arbitrary: t) (simp_all add: out_of_service_step)

lemma no_comeback_without_registration_witness:
  "out_of_service (foldl topo_step (drain (fst (register demo_topology (demo_node ''a'' 4) 0 None)) ''a'')
     [EHeartbeat ''a'' 1, EReady ''a'', ECheck ''a'' True 1 3]) ''a''"
  by (rule no_comeback_without_registration)
    (simp_all add: out_of_service_def drain_def register_def choose_slot_def pick_slot_def demo_simps
      drop_holder_def slot_size_def dict_simps committed_count_def)

subsection \<open>Routing\<close>

lemma holders_set: "set (holders t i) = set (live_holders t (slots t ! i))"
  by (simp add: holders_def Let_def)

lemma holders_mset: "mset (holders t i) = mset (live_holders t (slots t ! i))"
  by (simp add: holders_def Let_def)

lemma in_live_holders: "n \<in> set (live_holders t s) \<longleftrightarrow>
    state n = READY \<and> (\<exists>h \<in> set (s_holders s). map_of (nodes t) h = Some n)"
  by (auto simp: live_holders_def List.map_filter_def image_iff)

lemma holders_member:
  assumes "topo_wf t" and "i < length (slots t)" and "n \<in> set (holders t i)"
  shows "state n = READY \<and> map_of (nodes t) (node_id n) = Some n \<and> slot n = Some i \<and>
    slot_size (slots t ! i) \<le> capacity_layers n \<and> node_id n \<in> set (s_holders (slots t ! i))"
proof -
  obtain h where h: "state n = READY" "h \<in> set (s_holders (slots t ! i))" "map_of (nodes t) h = Some n"
    using assms(3) by (auto simp: holders_set in_live_holders)
  then have "node_id n = h" using topo_wf_node [OF assms(1)] by blast
  with h topo_wf_holder [OF assms(1,2) h(2)] show ?thesis by (simp add: holds_in_def)
qed

lemma holders_primary:
  assumes "n \<in> set (holders t i)"
  shows "(trust n = TRUSTED \<longrightarrow> trust (hd (holders t i)) = TRUSTED) \<and>
    (trust (hd (holders t i)) = trust n \<longrightarrow>
       (if route_by_latency t then rtt t (node_id (hd (holders t i))) \<le> rtt t (node_id n)
        else last_hb n \<le> last_hb (hd (holders t i))))"
proof (cases "route_by_latency t")
  case True
  let ?k = "\<lambda>n. (trank n, rtt t (node_id n), - last_hb n)"
  have h: "holders t i = sort_key ?k (live_holders t (slots t ! i))"
    using True by (simp add: holders_def)
  then have "?k (hd (holders t i)) \<le> ?k n"
    using hd_sort_key_le [of n "live_holders t (slots t ! i)" ?k] assms by (simp add: holders_set)
  then show ?thesis using True by (auto simp: trank_def less_prod_def split: if_splits)
next
  case False
  let ?k = "\<lambda>n. (trank n, - last_hb n)"
  have h: "holders t i = sort_key ?k (live_holders t (slots t ! i))"
    using False by (simp add: holders_def)
  then have "?k (hd (holders t i)) \<le> ?k n"
    using hd_sort_key_le [of n "live_holders t (slots t ! i)" ?k] assms by (simp add: holders_set)
  then show ?thesis using False by (auto simp: trank_def split: if_splits)
qed

lemma route_slots_Inr: "route_slots t ss = Inr plan \<longleftrightarrow>
    (\<forall>s \<in> set ss. holders t (s_index s) \<noteq> []) \<and> plan = map (\<lambda>s. (s, holders t (s_index s))) ss"
  by (induction ss arbitrary: plan) (auto simp: Let_def bindE_Inr_iff)

lemma route_slots_Inl: "route_slots t ss = Inl e \<longleftrightarrow>
    e = RuntimeError \<and> (\<exists>s \<in> set ss. holders t (s_index s) = [])"
  by (induction ss) (auto simp: Let_def bindE_Inl_iff)

text \<open>A route lists every slot of the topology, in layer order, each with the READY holders of
  exactly that slot (registered, assigned to it, large enough for it, none missing); the primary
  is trusted whenever any holder is, and within its trust tier it has the least round-trip time,
  or the latest heartbeat when latency is not used.\<close>

theorem route_plan:
  assumes wf: "topo_wf t" and plan: "route t = Inr plan"
  shows "map fst plan = slots t \<and>
    (\<forall>(s, hs) \<in> set plan. hs \<noteq> [] \<and> mset hs = mset (live_holders t s) \<and>
       (\<forall>n \<in> set hs. state n = READY \<and> map_of (nodes t) (node_id n) = Some n \<and>
          slot n = Some (s_index s) \<and> slot_size s \<le> capacity_layers n \<and>
          (trust n = TRUSTED \<longrightarrow> trust (hd hs) = TRUSTED) \<and>
          (trust (hd hs) = trust n \<longrightarrow>
             (if route_by_latency t then rtt t (node_id (hd hs)) \<le> rtt t (node_id n)
              else last_hb n \<le> last_hb (hd hs)))))"
proof -
  have p: "plan = map (\<lambda>s. (s, holders t (s_index s))) (slots t)"
    and ne: "\<forall>s \<in> set (slots t). holders t (s_index s) \<noteq> []"
    using plan by (simp_all add: route_def route_slots_Inr)
  have "map fst plan = slots t" unfolding p by (simp add: o_def)
  moreover have "hs \<noteq> [] \<and> mset hs = mset (live_holders t s) \<and>
       (\<forall>n \<in> set hs. state n = READY \<and> map_of (nodes t) (node_id n) = Some n \<and>
          slot n = Some (s_index s) \<and> slot_size s \<le> capacity_layers n \<and>
          (trust n = TRUSTED \<longrightarrow> trust (hd hs) = TRUSTED) \<and>
          (trust (hd hs) = trust n \<longrightarrow>
             (if route_by_latency t then rtt t (node_id (hd hs)) \<le> rtt t (node_id n)
              else last_hb n \<le> last_hb (hd hs))))" if "(s, hs) \<in> set plan" for s hs
  proof -
    have s: "s \<in> set (slots t)" and hs: "hs = holders t (s_index s)" using that p by auto
    have i: "s_index s < length (slots t)" "slots t ! s_index s = s"
      using topo_wf_slot_nth [OF wf s] by simp_all
    show ?thesis
      using ne s hs i holders_mset [of t "s_index s"] holders_member [OF wf i(1)]
        holders_primary [of _ t "s_index s"] by auto
  qed
  ultimately show ?thesis by blast
qed

text \<open>Routing fails, with \<open>RuntimeError\<close> and no other error, exactly when the coverage check
  would report a slot without a READY holder; so \<open>coverage_ok\<close> tells whether a session can be
  opened.\<close>

theorem route_iff_covered:
  "(coverage_ok t \<longleftrightarrow> (\<exists>plan. route t = Inr plan)) \<and>
   (\<forall>e. route t = Inl e \<longleftrightarrow> e = RuntimeError \<and> \<not> coverage_ok t)"
  by (auto simp: route_def route_slots_Inr route_slots_Inl coverage_ok_def)

text \<open>C27. The primaries of a route are distinct nodes and every layer past the coordinator's own is
  computed by exactly one of them.\<close>

theorem route_serves_each_layer_once:
  assumes wf: "topo_wf t" and plan: "route t = Inr plan"
    and l: "coordinator_end t \<le> l" "l < num_layers t"
  shows "distinct (map (\<lambda>(s, hs). node_id (hd hs)) plan) \<and>
    (\<exists>!i. i < length plan \<and> s_start (fst (plan ! i)) \<le> l \<and> l < s_end (fst (plan ! i)))"
proof
  have p: "plan = map (\<lambda>s. (s, holders t (s_index s))) (slots t)"
    and ne: "\<forall>s \<in> set (slots t). holders t (s_index s) \<noteq> []"
    using plan by (simp_all add: route_def route_slots_Inr)
  have mem: "node_id (hd (holders t i)) \<in> set (s_holders (slots t ! i))" if "i < length (slots t)" for i
    using holders_member [OF wf that] ne topo_wf_index [OF wf that] that by (metis hd_in_set nth_mem)
  have "node_id (hd (holders t i)) \<noteq> node_id (hd (holders t j))"
    if "i < length (slots t)" "j < length (slots t)" "i \<noteq> j" for i j
    using topo_wf_one_slot [OF wf that(1,2) mem [OF that(1)]] mem [OF that(2)] that(3) by auto
  then show "distinct (map (\<lambda>(s, hs). node_id (hd hs)) plan)"
    unfolding p by (auto simp: distinct_conv_nth topo_wf_index [OF wf])
  show "\<exists>!i. i < length plan \<and> s_start (fst (plan ! i)) \<le> l \<and> l < s_end (fst (plan ! i))"
    using tiles_unique_cover [OF topo_wf_tiles [OF wf] l] unfolding p
    by (auto cong: conj_cong)
qed

text \<open>Two nodes that cover the demonstration topology.\<close>

definition demo_live :: "topology" where
  "demo_live = foldl topo_step demo_topology
     [ERegister (demo_node ''a'' 4) 0 (Some (2, 6)), ERegister (demo_node ''b'' 4) 1 (Some (6, 10)),
      EReady ''a'', EReady ''b'']"

lemma demo_live_wf: "topo_wf demo_live"
  by (simp add: demo_live_def topo_wf_step demo_topology_wf del: topo_step.simps)

lemma demo_live_eq: "demo_live = demo_topology\<lparr>
    nodes := [(''a'', (demo_node ''a'' 4)\<lparr>slot := Some 0, state := READY\<rparr>),
      (''b'', (demo_node ''b'' 4)\<lparr>slot := Some 1, state := READY, last_hb := 1\<rparr>)],
    slots := [\<lparr>s_index = 0, s_start = 2, s_end = 6, s_holders = [''a'']\<rparr>,
      \<lparr>s_index = 1, s_start = 6, s_end = 10, s_holders = [''b'']\<rparr>]\<rparr>"
  by (simp add: demo_live_def register_def choose_slot_def demo_simps drop_holder_def slot_size_def
      mark_ready_def)

lemma demo_live_route: "\<exists>plan. route demo_live = Inr plan"
  by (simp add: demo_live_eq route_def holders_def live_holders_def demo_simps
      List.map_filter_def)

lemma reap_declares_dead_witness:
  "\<exists>t' newly. reap demo_live 31 = (t', newly) \<and> set newly = {''a''}"
proof -
  obtain t' newly where r: "reap demo_live 31 = (t', newly)" by (cases "reap demo_live 31")
  have "set newly = {k. \<exists>n. map_of (nodes demo_live) k = Some n \<and> stale demo_live 31 n}"
    using reap_declares_dead [OF demo_live_wf r] by blast
  also have "\<dots> = {''a''}"
    by (auto simp: demo_live_eq demo_simps stale_def split: if_splits)
  finally show ?thesis using r by blast
qed

lemma route_plan_witness:
  "\<exists>plan. route demo_live = Inr plan \<and> map fst plan = slots demo_live"
  using demo_live_route route_plan [OF demo_live_wf] by blast

lemma route_serves_each_layer_once_witness:
  "\<exists>plan. route demo_live = Inr plan \<and> distinct (map (\<lambda>(s, hs). node_id (hd hs)) plan)"
proof -
  obtain plan where p: "route demo_live = Inr plan" using demo_live_route by blast
  have "coordinator_end demo_live \<le> 7" "7 < num_layers demo_live"
    by (simp_all add: demo_live_eq demo_simps)
  then show ?thesis using p route_serves_each_layer_once [OF demo_live_wf p] by blast
qed

subsection \<open>Trust\<close>

text \<open>A history of verification results folded into one node.\<close>

definition checks_run :: "int \<Rightarrow> int \<Rightarrow> bool list \<Rightarrow> node \<Rightarrow> node" where
  "checks_run pa sm oks n = foldl (\<lambda>n ok. fst (check_node ok pa sm n)) n oks"

lemma checks_run_snoc: "checks_run pa sm (oks @ [ok]) n = fst (check_node ok pa sm (checks_run pa sm oks n))"
  by (simp add: checks_run_def)

lemma checks_run_bounds:
  assumes "checks_passed n = 0" and "strikes n = 0" and "trust n = PROBATION"
  shows "checks_passed (checks_run pa sm oks n) = int (count_list oks True) \<and>
    0 \<le> strikes (checks_run pa sm oks n) \<and>
    strikes (checks_run pa sm oks n) \<le> int (count_list oks False) \<and>
    (trust (checks_run pa sm oks n) = TRUSTED \<longrightarrow> pa \<le> int (count_list oks True))"
proof (induction oks rule: rev_induct)
  case Nil
  then show ?case using assms by (simp add: checks_run_def)
next
  case (snoc ok oks)
  then show ?case
    unfolding checks_run_snoc by (auto simp: check_node_def Let_def split: if_splits)
qed

text \<open>Starting from a fresh registration, whatever the order of the results: a node is trusted
  only after at least \<open>promote_after\<close> passed checks, its strikes never exceed its failures and
  never go below zero, so it is evicted only after \<open>strike_max\<close> failures; and \<open>strike_max\<close>
  failures in a row always leave it dead and back on probation.\<close>

theorem trust_is_earned:
  assumes "checks_passed n = 0" "strikes n = 0" "trust n = PROBATION" "state n \<noteq> DEAD" "1 \<le> sm"
  shows "(trust (checks_run pa sm oks n) = TRUSTED \<longrightarrow> pa \<le> int (count_list oks True)) \<and>
    0 \<le> strikes (checks_run pa sm oks n) \<and>
    strikes (checks_run pa sm oks n) \<le> int (count_list oks False) \<and>
    (state (checks_run pa sm oks n) = DEAD \<longrightarrow> sm \<le> int (count_list oks False)) \<and>
    (let m = checks_run pa sm (oks @ replicate (nat sm) False) n
     in state m = DEAD \<and> trust m = PROBATION)"
proof -
  have dead: "state (checks_run pa sm oks n) = DEAD \<longrightarrow> sm \<le> int (count_list oks False)"
  proof (induction oks rule: rev_induct)
    case Nil
    then show ?case using assms by (simp add: checks_run_def)
  next
    case (snoc ok oks)
    then show ?case using checks_run_bounds [OF assms(1,2,3), of pa sm oks]
      unfolding checks_run_snoc by (auto simp: check_node_def Let_def split: if_splits)
  qed
  have fails: "strikes (checks_run pa sm (oks @ replicate k False) n) =
      strikes (checks_run pa sm oks n) + int k" for k
  proof (induction k)
    case 0
    then show ?case by simp
  next
    case (Suc k)
    have "oks @ replicate (Suc k) False = (oks @ replicate k False) @ [False]"
      by (simp add: replicate_append_same)
    then show ?case using Suc by (simp only: checks_run_snoc) (simp add: check_node_def Let_def)
  qed
  have "nat sm = Suc (nat sm - 1)" using assms(5) by simp
  then have "oks @ replicate (nat sm) False = (oks @ replicate (nat sm - 1) False) @ [False]"
    by (metis append_assoc replicate_Suc replicate_append_same)
  moreover have "0 \<le> strikes (checks_run pa sm oks n)"
    using checks_run_bounds [OF assms(1,2,3)] by blast
  moreover have "sm \<le> strikes (checks_run pa sm (oks @ replicate (nat sm - 1) False) n) + 1"
    using fails [of "nat sm - 1"] calculation(2) assms(5) by simp
  ultimately have "let m = checks_run pa sm (oks @ replicate (nat sm) False) n
     in state m = DEAD \<and> trust m = PROBATION"
    by (simp only: checks_run_snoc) (simp add: check_node_def Let_def)
  then show ?thesis using dead checks_run_bounds [OF assms(1,2,3)] by blast
qed

lemma trust_is_earned_witness:
  "let m = checks_run 2 3 ([True, False] @ replicate (nat 3) False) (demo_node ''a'' 4)
   in state m = DEAD \<and> trust m = PROBATION"
  using trust_is_earned [of "demo_node ''a'' 4" 3 2 "[True, False]"]
  by (simp add: demo_node_def new_node_def)

end
