(* ===== verification/Bytes.thy ===== *)
theory Bytes
  imports Prelude
begin

section \<open>Byte strings, big-endian integers and UTF-8\<close>

text \<open>
  The part of Python's \<open>struct\<close> module and of its text encoding the program's codecs use:
  \<open>struct.pack\<close> and \<open>unpack\<close> of unsigned big-endian fields, slicing, and strict UTF-8.
  A text of arbitrary characters is the list of its code points.
\<close>

type_synonym bytes = "byte list"

type_synonym pystr = "nat list"

subsection \<open>Big-endian integers\<close>

fun be_bytes :: "nat \<Rightarrow> int \<Rightarrow> bytes" where
  "be_bytes 0 v = []"
| "be_bytes (Suc n) v = be_bytes n (v div 256) @ [word_of_int v]"

definition be_value :: "bytes \<Rightarrow> int" where
  "be_value bs = foldl (\<lambda>a b. a * 256 + uint b) 0 bs"

lemma length_be_bytes [simp]: "length (be_bytes n v) = n"
  by (induction n v rule: be_bytes.induct) auto

lemma be_value_Nil [simp]: "be_value [] = 0"
  by (simp add: be_value_def)

lemma be_value_snoc [simp]: "be_value (bs @ [b]) = be_value bs * 256 + uint b"
  by (simp add: be_value_def)

lemma uint_byte: "0 \<le> uint (b :: byte) \<and> uint b < 256"
  using uint_bounded [of b] by simp

lemma be_value_nonneg [simp]: "0 \<le> be_value bs"
  by (induction bs rule: rev_induct) auto

lemma be_value_less: "be_value bs < 256 ^ length bs"
proof (induction bs rule: rev_induct)
  case Nil
  then show ?case by simp
next
  case (snoc b bs)
  then have "be_value bs * 256 + 256 \<le> 256 ^ length bs * 256" by linarith
  then show ?case using uint_byte [of b] by simp
qed

lemma be_value_be_bytes: "0 \<le> v \<Longrightarrow> v < 256 ^ n \<Longrightarrow> be_value (be_bytes n v) = v"
proof (induction n v rule: be_bytes.induct)
  case (1 v)
  then show ?case by simp
next
  case (2 n v)
  have "v div 256 < 256 ^ n" using 2(3) by (simp add: div_less_iff_less_mult mult.commute)
  then have "be_value (be_bytes n (v div 256)) = v div 256" using 2 by simp
  moreover have "uint (word_of_int v :: byte) = v mod 256" by (simp add: uint_word_of_int)
  ultimately show ?case by simp
qed

lemma be_bytes_be_value: "length bs = n \<Longrightarrow> be_bytes n (be_value bs) = bs"
proof (induction bs arbitrary: n rule: rev_induct)
  case Nil
  then show ?case by simp
next
  case (snoc b bs)
  then obtain m where n: "n = Suc m" and m: "length bs = m" by auto
  have "(be_value bs * 256 + uint b) div 256 = be_value bs"
    using uint_byte [of b] by simp
  moreover have "word_of_int (be_value bs * 256 + uint b) = b"
  proof (rule word_uint_eqI)
    have "(be_value bs * 256 + uint b) mod 256 = uint b" using uint_byte [of b] by simp
    then show "uint (word_of_int (be_value bs * 256 + uint b) :: byte) = uint b"
      by (subst uint_word_of_int) simp
  qed
  ultimately show ?case using snoc.IH [OF m] n by simp
qed

subsection \<open>\<open>struct\<close> fields\<close>

text \<open>\<open>struct.pack\<close> of one unsigned field of \<open>n\<close> bytes raises out of range; \<open>struct.unpack\<close>
  raises unless it is given exactly the bytes of its format.\<close>

definition pack_uint :: "nat \<Rightarrow> int \<Rightarrow> bytes result" where
  "pack_uint n v = (if 0 \<le> v \<and> v < 256 ^ n then Inr (be_bytes n v) else Inl StructError)"

definition unpack_uint :: "nat \<Rightarrow> bytes \<Rightarrow> int result" where
  "unpack_uint n bs = (if length bs = n then Inr (be_value bs) else Inl StructError)"

lemma unpack_pack_uint: "pack_uint n v = Inr bs \<Longrightarrow> unpack_uint n bs = Inr v \<and> length bs = n"
  by (auto simp: pack_uint_def unpack_uint_def be_value_be_bytes split: if_splits)

lemma pack_unpack_uint: "unpack_uint n bs = Inr v \<Longrightarrow> pack_uint n v = Inr bs"
  using be_value_less [of bs]
  by (auto simp: pack_uint_def unpack_uint_def be_bytes_be_value split: if_splits)

text \<open>\<open>bs[off:off + n]\<close>: a slice stops at the end of the string.\<close>

definition slice :: "nat \<Rightarrow> nat \<Rightarrow> 'a list \<Rightarrow> 'a list" where
  "slice off n bs = take n (drop off bs)"

lemma slice_append [simp]: "slice (length xs) (length ys) (xs @ ys @ zs) = ys"
  by (simp add: slice_def)

subsection \<open>UTF-8\<close>

definition scalar_value :: "nat \<Rightarrow> bool" where
  "scalar_value c \<longleftrightarrow> c < 0xD800 \<or> (0xE000 \<le> c \<and> c < 0x110000)"

definition byte_of :: "nat \<Rightarrow> byte" where
  "byte_of n = word_of_nat n"

definition utf8_char :: "nat \<Rightarrow> bytes" where
  "utf8_char c =
     (if c < 0x80 then [byte_of c]
      else if c < 0x800 then [byte_of (0xC0 + c div 64), byte_of (0x80 + c mod 64)]
      else if c < 0x10000 then
        [byte_of (0xE0 + c div 4096), byte_of (0x80 + c div 64 mod 64), byte_of (0x80 + c mod 64)]
      else
        [byte_of (0xF0 + c div 262144), byte_of (0x80 + c div 4096 mod 64),
         byte_of (0x80 + c div 64 mod 64), byte_of (0x80 + c mod 64)])"

text \<open>\<open>s.encode()\<close> raises on a lone surrogate.\<close>

definition utf8_encode :: "pystr \<Rightarrow> bytes result" where
  "utf8_encode s =
     (if list_all scalar_value s then Inr (concat (map utf8_char s)) else Inl UnicodeError)"

text \<open>The \<open>k\<close> continuation bytes of a sequence whose lead contributes \<open>acc\<close>.\<close>

fun utf8_cont :: "nat \<Rightarrow> nat \<Rightarrow> bytes \<Rightarrow> (nat \<times> bytes) option" where
  "utf8_cont 0 acc bs = Some (acc, bs)"
| "utf8_cont (Suc k) acc [] = None"
| "utf8_cont (Suc k) acc (b # bs) =
     (if 0x80 \<le> unat b \<and> unat b < 0xC0 then utf8_cont k (acc * 64 + (unat b - 0x80)) bs else None)"

text \<open>One character: overlong forms, surrogates and values past U+10FFFF are malformed.\<close>

definition utf8_next :: "byte \<Rightarrow> bytes \<Rightarrow> (nat \<times> bytes) option" where
  "utf8_next b bs =
     (let n = unat b;
          guard = (\<lambda>lo r. case r of None \<Rightarrow> None
             | Some (c, rest) \<Rightarrow> if lo \<le> c \<and> scalar_value c then Some (c, rest) else None)
      in if n < 0x80 then Some (n, bs)
         else if n < 0xC0 then None
         else if n < 0xE0 then guard 0x80 (utf8_cont 1 (n - 0xC0) bs)
         else if n < 0xF0 then guard 0x800 (utf8_cont 2 (n - 0xE0) bs)
         else if n < 0xF8 then guard 0x10000 (utf8_cont 3 (n - 0xF0) bs)
         else None)"

lemma utf8_cont_shorter: "utf8_cont k acc bs = Some (c, rest) \<Longrightarrow> length rest \<le> length bs"
  by (induction k acc bs rule: utf8_cont.induct) (auto split: if_splits)

lemma utf8_next_shorter: "utf8_next b bs = Some (c, rest) \<Longrightarrow> length rest \<le> length bs"
  by (auto simp: utf8_next_def Let_def split: if_splits option.splits dest: utf8_cont_shorter)

function utf8_decode :: "bytes \<Rightarrow> pystr result" where
  "utf8_decode [] = Inr []"
| "utf8_decode (b # bs) =
     (case utf8_next b bs of
        None \<Rightarrow> Inl UnicodeError
      | Some (c, rest) \<Rightarrow> bindE (utf8_decode rest) (\<lambda>s. Inr (c # s)))"
  by pat_completeness auto
termination
  by (relation "measure length") (auto dest: utf8_next_shorter)

lemma unat_byte_of: "n < 256 \<Longrightarrow> unat (byte_of n) = n"
  by (simp add: byte_of_def unat_of_nat)

lemma cont_byte: "unat (byte_of (128 + c mod 64)) = 128 + c mod 64"
  by (intro unat_byte_of) (use mod_less_divisor [of 64 c] in linarith)

lemma base64_three: "(c div 4096 * 64 + c div 64 mod 64) * 64 + c mod 64 = (c :: nat)"
proof -
  have "c div 4096 = c div 64 div 64" by (simp add: div_mult2_eq [symmetric])
  then show ?thesis by simp
qed

lemma base64_four:
  "((c div 262144 * 64 + c div 4096 mod 64) * 64 + c div 64 mod 64) * 64 + c mod 64 = (c :: nat)"
proof -
  have "c div 262144 = c div 64 div 4096" and "c div 4096 mod 64 = c div 64 div 64 mod 64"
    by (simp_all add: div_mult2_eq [symmetric])
  then have "(c div 262144 * 64 + c div 4096 mod 64) * 64 + c div 64 mod 64 = c div 64"
    using base64_three [of "c div 64"] by simp
  then show ?thesis by simp
qed

lemma utf8_next_char:
  assumes "scalar_value c"
  shows "\<exists>b bs. utf8_char c = b # bs \<and> utf8_next b (bs @ rest) = Some (c, rest)"
proof -
  have max: "c < 0x110000" using assms by (auto simp: scalar_value_def)
  consider (one) "c < 0x80" | (two) "0x80 \<le> c" "c < 0x800" | (three) "0x800 \<le> c" "c < 0x10000"
    | (four) "0x10000 \<le> c" by linarith
  then show ?thesis
  proof cases
    case one
    then show ?thesis by (simp add: utf8_char_def utf8_next_def unat_byte_of)
  next
    case two
    have "c div 64 < 32" using two by simp
    then have lead: "unat (byte_of (192 + c div 64)) = 192 + c div 64" by (intro unat_byte_of) simp
    have "c div 64 * 64 + c mod 64 = c" by simp
    then show ?thesis using two lead cont_byte [of c] assms \<open>c div 64 < 32\<close> mod_less_divisor [of 64 c]
      by (simp add: utf8_char_def utf8_next_def Let_def)
  next
    case three
    have "c div 4096 < 16" using three by simp
    then have lead: "unat (byte_of (224 + c div 4096)) = 224 + c div 4096" by (intro unat_byte_of) simp
    show ?thesis
      using three base64_three [of c] lead cont_byte [of c] cont_byte [of "c div 64"] assms \<open>c div 4096 < 16\<close>
        mod_less_divisor [of 64 c] mod_less_divisor [of 64 "c div 64"]
      by (simp add: utf8_char_def utf8_next_def Let_def numeral_2_eq_2)
  next
    case four
    have "c div 262144 < 5" using max by simp
    then have lead: "unat (byte_of (240 + c div 262144)) = 240 + c div 262144"
      by (intro unat_byte_of) simp
    show ?thesis
      using four base64_four [of c] lead cont_byte [of c] cont_byte [of "c div 64"] cont_byte [of "c div 4096"] assms
        \<open>c div 262144 < 5\<close> mod_less_divisor [of 64 c] mod_less_divisor [of 64 "c div 64"]
        mod_less_divisor [of 64 "c div 4096"]
      by (simp add: utf8_char_def utf8_next_def Let_def numeral_3_eq_3)
  qed
qed

lemma utf8_roundtrip: "utf8_encode s = Inr bs \<Longrightarrow> utf8_decode bs = Inr s"
proof (induction s arbitrary: bs)
  case Nil
  then show ?case by (simp add: utf8_encode_def)
next
  case (Cons c s)
  then have c: "scalar_value c" and s: "utf8_encode s = Inr (concat (map utf8_char s))"
    and bs: "bs = utf8_char c @ concat (map utf8_char s)"
    by (auto simp: utf8_encode_def split: if_splits)
  obtain b cs where "utf8_char c = b # cs"
      "utf8_next b (cs @ concat (map utf8_char s)) = Some (c, concat (map utf8_char s))"
    using utf8_next_char [OF c] by blast
  with bs show ?case using Cons.IH [OF s] by simp
qed

subsection \<open>Decimal numbers\<close>

text \<open>\<open>str(n)\<close> of a natural number.\<close>

fun decimal :: "nat \<Rightarrow> pystr" where
  "decimal n = (if n < 10 then [48 + n] else decimal (n div 10) @ [48 + n mod 10])"

declare decimal.simps [simp del]

text \<open>Its digits, read back.\<close>

definition digits_value :: "nat list \<Rightarrow> nat" where
  "digits_value = foldl (\<lambda>a d. a * 10 + (d - 48)) 0"

lemma decimal_value [simp]: "digits_value (decimal n) = n"
proof (induction n rule: decimal.induct)
  case (1 n)
  then show ?case by (cases "n < 10") (simp_all add: decimal.simps [of n] digits_value_def)
qed

lemma decimal_digits: "decimal n \<noteq> [] \<and> (\<forall>d \<in> set (decimal n). 48 \<le> d \<and> d < 58)"
proof (induction n rule: decimal.induct)
  case (1 n)
  have "n mod 10 < 10" by simp
  then show ?case using 1 by (cases "n < 10") (auto simp: decimal.simps [of n])
qed

lemma decimal_inj: "decimal m = decimal n \<longleftrightarrow> m = n"
  by (metis decimal_value)

subsection \<open>Strings of the control plane\<close>

text \<open>A \<open>string\<close> of the control plane (characters below 256) as code points.\<close>

definition codes :: "string \<Rightarrow> pystr" where
  "codes s = map of_char s"

definition encode_string :: "string \<Rightarrow> bytes" where
  "encode_string s = concat (map utf8_char (codes s))"

lemma codes_encodable: "utf8_encode (codes s) = Inr (encode_string s)"
proof -
  have "scalar_value (of_char c)" for c :: char
    using nat_of_char_less_256 [of c] unfolding scalar_value_def by linarith
  then show ?thesis by (simp add: utf8_encode_def encode_string_def codes_def list_all_iff)
qed

end
