(* ===== verification/Sha256.thy ===== *)
theory Sha256
  imports Bytes
begin

unbundle bit_operations_syntax

section \<open>SHA-256 and HMAC\<close>

text \<open>
  What the program uses of Python's \<open>hashlib\<close> and \<open>hmac\<close>: the SHA-256 digest of a byte
  string (FIPS 180-4) and HMAC-SHA256 (RFC 2104).  Node keys (\<open>engine/registry.py\<close>) are computed
  with them.
\<close>

text \<open>The constants are the first 32 bits of the fractional parts of the cube roots of the first
  64 primes and of the square roots of the first 8: the largest \<open>r\<close> with \<open>r ^ e \<le> v\<close>, for
  \<open>v\<close> scaled so that the low word of \<open>r\<close> is the fraction, found bit by bit.\<close>

fun int_root :: "nat \<Rightarrow> nat \<Rightarrow> int \<Rightarrow> int \<Rightarrow> int" where
  "int_root e 0 v r = (if (r + 1) ^ e \<le> v then r + 1 else r)"
| "int_root e (Suc n) v r = int_root e n v (if (r + 2 ^ Suc n) ^ e \<le> v then r + 2 ^ Suc n else r)"

definition small_prime :: "nat \<Rightarrow> bool" where
  "small_prime n \<longleftrightarrow> 2 \<le> n \<and> list_all (\<lambda>d. n mod d \<noteq> 0) [2 ..< min n 18]"

definition sha_k :: "32 word list" where
  "sha_k = map (\<lambda>p. word_of_int (int_root 3 35 (int p * 2 ^ 96) 0)) (filter small_prime [2 ..< 312])"

definition sha_h0 :: "32 word list" where
  "sha_h0 = map (\<lambda>p. word_of_int (int_root 2 37 (int p * 2 ^ 64) 0)) (filter small_prime [2 ..< 20])"

definition rotr32 :: "nat \<Rightarrow> 32 word \<Rightarrow> 32 word" where
  "rotr32 n w = (drop_bit n w) OR (push_bit (32 - n) w)"

fun chunks :: "nat \<Rightarrow> 'a list \<Rightarrow> 'a list list" where
  "chunks n xs = (if n = 0 \<or> xs = [] then [] else take n xs # chunks n (drop n xs))"

declare chunks.simps [simp del]

definition sha_pad :: "bytes \<Rightarrow> bytes" where
  "sha_pad m =
     (let z = (119 - length m mod 64) mod 64
      in m @ [0x80] @ replicate z 0 @ be_bytes 8 (8 * int (length m)))"

fun sha_schedule :: "nat \<Rightarrow> 32 word list \<Rightarrow> 32 word list" where
  "sha_schedule 0 w = w"
| "sha_schedule (Suc n) w =
     (let t = length w;
          w15 = w ! (t - 15); w2 = w ! (t - 2);
          s0 = (rotr32 7 w15) XOR (rotr32 18 w15) XOR (drop_bit 3 w15);
          s1 = (rotr32 17 w2) XOR (rotr32 19 w2) XOR (drop_bit 10 w2)
      in sha_schedule n (w @ [w ! (t - 16) + s0 + w ! (t - 7) + s1]))"

fun sha_round :: "32 word list \<Rightarrow> 32 word \<times> 32 word \<Rightarrow> 32 word list" where
  "sha_round [a, b, c, d, e, f, g, h] (k, w) =
     (let s1 = (rotr32 6 e) XOR (rotr32 11 e) XOR (rotr32 25 e);
          ch = (e AND f) XOR ((NOT e) AND g);
          t1 = h + s1 + ch + k + w;
          s0 = (rotr32 2 a) XOR (rotr32 13 a) XOR (rotr32 22 a);
          maj = (a AND b) XOR (a AND c) XOR (b AND c);
          t2 = s0 + maj
      in [t1 + t2, a, b, c, d + t1, e, f, g])"
| "sha_round st _ = st"

definition sha_block :: "32 word list \<Rightarrow> bytes \<Rightarrow> 32 word list" where
  "sha_block hs blk =
     (let w = sha_schedule 48 (map (\<lambda>b. word_of_int (be_value b)) (chunks 4 blk))
      in map2 (+) hs (foldl sha_round hs (zip sha_k w)))"

definition sha256 :: "bytes \<Rightarrow> bytes" where
  "sha256 m = concat (map (\<lambda>w. be_bytes 4 (uint w)) (foldl sha_block sha_h0 (chunks 64 (sha_pad m))))"

definition hmac_sha256 :: "bytes \<Rightarrow> bytes \<Rightarrow> bytes" where
  "hmac_sha256 key msg =
     (let k0 = (if 64 < length key then sha256 key else key);
          k = k0 @ replicate (64 - length k0) 0
      in sha256 (map (\<lambda>b. b XOR 0x5c) k @ sha256 (map (\<lambda>b. b XOR 0x36) k @ msg)))"

lemma sha_round_length: "length st = 8 \<Longrightarrow> length (sha_round st kw) = 8"
  by (induction st kw rule: sha_round.induct) (auto simp: Let_def)

lemma sha_block_length:
  assumes "length hs = 8"
  shows "length (sha_block hs blk) = 8"
proof -
  have "length st = 8 \<Longrightarrow> length (foldl sha_round st xs) = 8" for st xs
    by (induction xs arbitrary: st) (simp_all add: sha_round_length)
  with assms show ?thesis by (simp add: sha_block_def Let_def)
qed

lemma sha256_length [simp]: "length (sha256 m) = 32"
proof -
  have "length hs = 8 \<Longrightarrow> length (foldl sha_block hs xs) = 8" for hs xs
    by (induction xs arbitrary: hs) (simp_all add: sha_block_length)
  moreover have "length sha_h0 = 8"
  proof -
    have "length (filter small_prime [2 ..< 20]) = 8" by code_simp
    then show ?thesis by (simp only: sha_h0_def length_map)
  qed
  ultimately have "length (foldl sha_block sha_h0 (chunks 64 (sha_pad m))) = 8" by blast
  then show ?thesis by (simp add: sha256_def length_concat o_def sum_list_triv)
qed

lemma hmac_length [simp]: "length (hmac_sha256 k m) = 32"
  by (simp add: hmac_sha256_def Let_def)

end
