(* ===== verification/Registry.thy ===== *)
theory Registry
  imports Topology Sha256 "HOL-Library.Char_ord" "HOL-Library.List_Lexorder"
begin

section \<open>The registry: the mesh's control service\<close>

text \<open>
  The class \<open>Registry\<close> of \<open>engine/registry.py\<close>: admission, bans, trust, maintenance, load
  balancing of sessions over replicas and over entry orchestrators, attribution of paid work,
  settlement, and the durable state.  Every method runs under one lock, so each is one atomic
  function on the registry's state.  The state file is the field \<open>disk\<close>: what the last
  successful write left there; \<open>disk_ok\<close> says whether writes succeed (a failing write is
  swallowed by the code).
\<close>

subsection \<open>State\<close>

record saved_state =
  sv_accrued :: "(string, int) dict"
  sv_wallets :: "(string, string) dict"
  sv_evictions :: "(string, int) dict"
  sv_banned :: "string list"
  sv_orch_seq :: int

text \<open>A session id is any hashable value: the in-process coordinator passes integers, the control
  channel strings.\<close>

datatype session_key = SInt int | SStr string

record registry =
  topo :: topology
  master_secret :: bytes
  coordinator_endpoint :: "string \<times> int"
  coordinator_wallet :: string
  allowlist :: "string list option"
  seed_nodes :: "string list option"
  fee_bps :: int
  accrued :: "(string, int) dict"
  wallets :: "(string, string) dict"
  ban_after :: int
  eviction_counts :: "(string, int) dict"
  banned :: "string list"
  state_path :: string
  loads :: "(string, int) dict"
  session_load :: "(session_key, string list) dict"
  entry_load :: "(string, int) dict"
  session_entry :: "(session_key, string) dict"
  orch_seq :: int
  disk :: "saved_state option"
  disk_ok :: bool

definition derive_node_key :: "bytes \<Rightarrow> string \<Rightarrow> bytes" where
  "derive_node_key secret nid = hmac_sha256 secret (encode_string nid)"

subsection \<open>Durable state\<close>

text \<open>The banned set is written sorted; sets of ids are lists without duplicates.\<close>

definition save_state :: "registry \<Rightarrow> registry" where
  "save_state r =
     (if state_path r = [] \<or> \<not> disk_ok r then r
      else r\<lparr>disk := Some \<lparr>sv_accrued = accrued r, sv_wallets = wallets r,
        sv_evictions = eviction_counts r, sv_banned = sort (banned r),
        sv_orch_seq = orch_seq r\<rparr>\<rparr>)"

definition dict_update :: "('k, 'v) dict \<Rightarrow> ('k, 'v) dict \<Rightarrow> ('k, 'v) dict" where
  "dict_update d e = foldl (\<lambda>d (k, v). dset k v d) d e"

definition set_update :: "'a list \<Rightarrow> 'a list \<Rightarrow> 'a list" where
  "set_update xs ys = foldl (\<lambda>xs y. if y \<in> set xs then xs else xs @ [y]) xs ys"

definition load_state :: "registry \<Rightarrow> registry" where
  "load_state r =
     (case disk r of
        None \<Rightarrow> r
      | Some s \<Rightarrow> r\<lparr>accrued := dict_update (accrued r) (sv_accrued s),
          wallets := dict_update (wallets r) (sv_wallets s),
          eviction_counts := dict_update (eviction_counts r) (sv_evictions s),
          banned := set_update (banned r) (sv_banned s), orch_seq := sv_orch_seq s\<rparr>)"

text \<open>A new \<open>Registry(\<dots>)\<close> over the file another one left; the constructor loads it.\<close>

definition mk_registry ::
  "topology \<Rightarrow> bytes \<Rightarrow> string \<times> int \<Rightarrow> string \<Rightarrow> string list option \<Rightarrow> string list option \<Rightarrow>
   int \<Rightarrow> int \<Rightarrow> string \<Rightarrow> saved_state option \<Rightarrow> bool \<Rightarrow> registry" where
  "mk_registry t secret cep cwallet allow seeds fee ban path file ok =
     (let r = \<lparr>topo = t, master_secret = secret, coordinator_endpoint = cep,
                coordinator_wallet = cwallet, allowlist = allow, seed_nodes = seeds, fee_bps = fee,
                accrued = [], wallets = [], ban_after = ban, eviction_counts = [], banned = [],
                state_path = path, loads = [], session_load = [], entry_load = [],
                session_entry = [], orch_seq = 0, disk = file, disk_ok = ok\<rparr>
      in if path = [] then r else load_state r)"

subsection \<open>Admission\<close>

record admission =
  assignment :: "(int \<times> int) option"
  orch_index :: "int option"
  adm_model_fp :: string
  session_key :: bytes
  adm_coordinator :: "string \<times> int"
  adm_replication :: int

text \<open>Fifteen bits of the registration counter.\<close>

definition orch_prefix :: "int \<Rightarrow> int" where
  "orch_prefix seq = seq AND 0x7FFF"

text \<open>What follows a successful assignment: seed trust, the node's key, its wallet, the answer.\<close>

definition admit :: "registry \<Rightarrow> node \<Rightarrow> (int \<times> int) option \<Rightarrow> int option \<Rightarrow> registry \<times> admission" where
  "admit r n asn idx =
     (let nid = node_id n;
          t1 = (case seed_nodes r of
                  None \<Rightarrow> topo r
                | Some seeds \<Rightarrow> if nid \<in> set seeds then set_trusted (topo r) nid else topo r);
          key = derive_node_key (master_secret r) nid;
          t2 = t1\<lparr>nodes := dmod nid (\<lambda>m. m\<lparr>wire_key := Some key\<rparr>) (nodes t1)\<rparr>;
          r1 = save_state (r\<lparr>topo := t2, wallets := dset nid (payout_wallet n) (wallets r)\<rparr>)
      in (r1, \<lparr>assignment = asn, orch_index = idx, adm_model_fp = topo_fp t2, session_key = key,
               adm_coordinator = coordinator_endpoint r, adm_replication = replication t2\<rparr>))"

definition reg_register ::
  "registry \<Rightarrow> node \<Rightarrow> rat \<Rightarrow> (int \<times> int) option \<Rightarrow> registry \<times> admission result" where
  "reg_register r n now prefer_range =
     (if node_id n \<in> set (banned r) then (r, Inl PermissionError)
      else if (case allowlist r of None \<Rightarrow> False | Some al \<Rightarrow> node_id n \<notin> set al)
      then (r, Inl PermissionError)
      else if orchestrator n then
        (case register_orchestrator (topo r) n now of
           (t, Inl e) \<Rightarrow> (r\<lparr>topo := t\<rparr>, Inl e)
         | (t, Inr _) \<Rightarrow>
             (case admit (r\<lparr>topo := t, orch_seq := orch_seq r + 1\<rparr>) n None
                     (Some (orch_prefix (orch_seq r))) of
                (r', adm) \<Rightarrow> (r', Inr adm)))
      else
        (case register (topo r) n now prefer_range of
           (t, Inl e) \<Rightarrow> (r\<lparr>topo := t\<rparr>, Inl e)
         | (t, Inr s) \<Rightarrow>
             (case admit (r\<lparr>topo := t\<rparr>) n (Some (s_start s, s_end s)) None of
                (r', adm) \<Rightarrow> (r', Inr adm))))"

subsection \<open>Liveness and trust\<close>

definition reg_heartbeat :: "registry \<Rightarrow> string \<Rightarrow> rat \<Rightarrow> registry \<times> bool" where
  "reg_heartbeat r nid now = (case heartbeat (topo r) nid now of (t, b) \<Rightarrow> (r\<lparr>topo := t\<rparr>, b))"

definition reg_drain :: "registry \<Rightarrow> string \<Rightarrow> registry" where
  "reg_drain r nid = r\<lparr>topo := drain (topo r) nid\<rparr>"

definition reg_mark_ready :: "registry \<Rightarrow> string \<Rightarrow> registry" where
  "reg_mark_ready r nid = r\<lparr>topo := mark_ready (topo r) nid\<rparr>"

definition reg_mark_suspect :: "registry \<Rightarrow> string \<Rightarrow> registry" where
  "reg_mark_suspect r nid = r\<lparr>topo := mark_suspect (topo r) nid\<rparr>"

definition reg_set_trusted :: "registry \<Rightarrow> string \<Rightarrow> registry" where
  "reg_set_trusted r nid = r\<lparr>topo := set_trusted (topo r) nid\<rparr>"

definition reg_set_rtt :: "registry \<Rightarrow> string \<Rightarrow> rat \<Rightarrow> registry" where
  "reg_set_rtt r nid ms = r\<lparr>topo := set_rtt (topo r) nid ms\<rparr>"

definition reg_record_check ::
  "registry \<Rightarrow> string \<Rightarrow> bool \<Rightarrow> int \<Rightarrow> int \<Rightarrow> registry \<times> check_action option" where
  "reg_record_check r nid ok promote_after strike_max =
     (case record_check (topo r) nid ok promote_after strike_max of
        (t, act) \<Rightarrow>
          (let r1 = r\<lparr>topo := t\<rparr>
           in if act = Some Evicted then
                (let c = dget (eviction_counts r) nid 0 + 1;
                     r2 = r1\<lparr>eviction_counts := dset nid c (eviction_counts r)\<rparr>;
                     r3 = (if ban_after r \<le> c then r2\<lparr>banned := List.insert nid (banned r2)\<rparr> else r2)
                 in (save_state r3, act))
              else (r1, act)))"

definition slot_pairs :: "topology \<Rightarrow> slot \<Rightarrow> (string \<times> string \<times> nat) list" where
  "slot_pairs t s =
     (let hs = holders t (s_index s);
          trusted = filter (\<lambda>n. trust n = TRUSTED) hs;
          probation = filter (\<lambda>n. trust n = PROBATION) hs
      in if trusted = [] \<or> probation = [] then []
         else map (\<lambda>p. (node_id p, node_id (hd trusted), s_index s)) probation)"

definition audit_pairs :: "registry \<Rightarrow> (string \<times> string \<times> nat) list" where
  "audit_pairs r = concat (map (slot_pairs (topo r)) (slots (topo r)))"

subsection \<open>Maintenance and views\<close>

record tick_report =
  reaped :: "string list"
  purged :: "string list"
  needs_holders :: "(nat \<times> (int \<times> int) \<times> nat \<times> int) list"
  tick_coverage :: bool

definition tick :: "registry \<Rightarrow> rat \<Rightarrow> registry \<times> tick_report" where
  "tick r now =
     (let (t1, dead) = reap (topo r) now;
          (t2, gone) = purge t1 now
      in (r\<lparr>topo := t2\<rparr>,
          \<lparr>reaped = dead, purged = gone,
           needs_holders = map (\<lambda>s. (s_index s, (s_start s, s_end s),
             length (holders t2 (s_index s)), replication t2)) (rebalance_targets t2),
           tick_coverage = coverage_ok t2\<rparr>))"

text \<open>\<open>round(x, 1)\<close>: to the nearest tenth, ties to even.\<close>

definition round_half_even :: "rat \<Rightarrow> int" where
  "round_half_even x =
     (let f = \<lfloor>x\<rfloor>; d = x - of_int f
      in if d < 1 / 2 then f else if 1 / 2 < d then f + 1 else if even f then f else f + 1)"

definition round_tenth :: "rat \<Rightarrow> rat" where
  "round_tenth x = of_int (round_half_even (10 * x)) / 10"

record holder_view =
  hv_node :: string
  hv_state :: node_state
  hv_trust :: trust_tier
  hv_region :: "string option"
  hv_rtt :: rat

record mesh_view =
  mv_fp :: string
  mv_replication :: int
  mv_coverage :: bool
  mv_slots :: "(nat \<times> (int \<times> int) \<times> holder_view list) list"

definition holder_views :: "topology \<Rightarrow> slot \<Rightarrow> holder_view list" where
  "holder_views t s =
     List.map_filter (\<lambda>h. map_option (\<lambda>n. \<lparr>hv_node = h, hv_state = state n, hv_trust = trust n,
       hv_region = region n, hv_rtt = round_tenth (rtt t h)\<rparr>) (map_of (nodes t) h)) (s_holders s)"

definition snapshot :: "registry \<Rightarrow> mesh_view" where
  "snapshot r =
     (let t = topo r
      in \<lparr>mv_fp = topo_fp t, mv_replication = replication t, mv_coverage = coverage_ok t,
          mv_slots = map (\<lambda>s. (s_index s, (s_start s, s_end s), holder_views t s)) (slots t)\<rparr>)"

definition node_endpoints :: "registry \<Rightarrow> (string \<times> string \<times> int) list" where
  "node_endpoints r =
     map (\<lambda>(nid, n). (nid, endpoint n))
       (filter (\<lambda>(nid, n). reachability n = ''public'') (nodes (topo r)))"

definition route_snapshot :: "registry \<Rightarrow> node list result" where
  "route_snapshot r = bindE (route (topo r)) (\<lambda>plan. Inr (map (\<lambda>(s, hs). hd hs) plan))"

subsection \<open>Load-balanced session routing\<close>

definition bump :: "string \<Rightarrow> (string, int) dict \<Rightarrow> (string, int) dict" where
  "bump nid ld = dset nid (dget ld nid 0 + 1) ld"

definition unbump :: "string \<Rightarrow> (string, int) dict \<Rightarrow> (string, int) dict" where
  "unbump nid ld =
     (let c = dget ld nid 0 - 1 in if 0 < c then dset nid c ld else dpop nid ld)"

definition pick_least :: "(string, int) dict \<Rightarrow> node list \<Rightarrow> node" where
  "pick_least ld hs = hs ! min_by (\<lambda>j. (dget ld (node_id (hs ! j)) 0, j)) [0 ..< length hs]"

text \<open>\<open>{h.node_id: h for h in holders}\<close> keeps the last holder of an id.\<close>

definition by_id :: "node list \<Rightarrow> string \<Rightarrow> node option" where
  "by_id hs = map_of (rev (map (\<lambda>h. (node_id h, h)) hs))"

definition affine_pick :: "(string, int) dict \<Rightarrow> string list \<Rightarrow> nat \<Rightarrow> node list \<Rightarrow> node" where
  "affine_pick ld pinned k hs =
     (case (if k < length pinned then by_id hs (pinned ! k) else None) of
        Some h \<Rightarrow> h
      | None \<Rightarrow> pick_least ld hs)"

definition acquire_route :: "registry \<Rightarrow> session_key \<Rightarrow> registry \<times> node list result" where
  "acquire_route r session =
     (case route (topo r) of
        Inl e \<Rightarrow> (r, Inl e)
      | Inr plan \<Rightarrow>
          (case map_of (session_load r) session of
             None \<Rightarrow>
               (let rt = map (\<lambda>(s, hs). pick_least (loads r) hs) plan;
                    ids = map node_id rt
                in (r\<lparr>loads := foldl (\<lambda>ld nid. bump nid ld) (loads r) ids,
                      session_load := dset session ids (session_load r)\<rparr>, Inr rt))
           | Some pinned \<Rightarrow>
               (let rt = map (\<lambda>(k, s, hs). affine_pick (loads r) pinned k hs)
                           (zip [0 ..< length plan] plan);
                    ids = map node_id rt;
                    lost = filter (\<lambda>nid. nid \<notin> set ids) (remdups pinned);
                    gained = filter (\<lambda>nid. nid \<notin> set pinned) (remdups ids);
                    ld1 = foldl (\<lambda>ld nid. unbump nid ld) (loads r) lost;
                    ld2 = foldl (\<lambda>ld nid. bump nid ld) ld1 gained
                in (r\<lparr>loads := ld2, session_load := dset session ids (session_load r)\<rparr>, Inr rt))))"

definition release_route :: "registry \<Rightarrow> session_key \<Rightarrow> registry" where
  "release_route r session =
     (let ids = dget (session_load r) session []
      in r\<lparr>session_load := dpop session (session_load r),
           loads := foldl (\<lambda>ld nid. unbump nid ld) (loads r) ids\<rparr>)"

subsection \<open>Entry orchestrators\<close>

definition release_entry :: "registry \<Rightarrow> session_key \<Rightarrow> registry" where
  "release_entry r session =
     (let r1 = r\<lparr>session_entry := dpop session (session_entry r)\<rparr>
      in case map_of (session_entry r) session of
           None \<Rightarrow> r1
         | Some nid \<Rightarrow> r1\<lparr>entry_load := unbump nid (entry_load r)\<rparr>)"

definition acquire_entry :: "registry \<Rightarrow> session_key \<Rightarrow> registry \<times> node option" where
  "acquire_entry r session =
     (let r1 = release_entry r session;
          cands = filter (\<lambda>n. orchestrator n \<and> state n = READY) (map snd (nodes (topo r1)))
      in if cands = [] then (r1, None)
         else
           (let pick = min_by (\<lambda>n. (dget (entry_load r1) (node_id n) 0, node_id n)) cands
            in (r1\<lparr>entry_load := bump (node_id pick) (entry_load r1),
                   session_entry := dset session (node_id pick) (session_entry r1)\<rparr>, Some pick)))"

subsection \<open>Attribution and payout\<close>

text \<open>The weights are \<open>(node, layers * tokens)\<close>; the last server gets what is left.\<close>

fun split_pool :: "int \<Rightarrow> int \<Rightarrow> int \<Rightarrow> (string \<times> int) list \<Rightarrow> (string, int) dict \<Rightarrow> (string, int) dict" where
  "split_pool pool tot assigned [] acc = acc"
| "split_pool pool tot assigned [(nid, w)] acc =
     dset nid (dget acc nid 0 + (pool - assigned)) acc"
| "split_pool pool tot assigned ((nid, w) # v # vs) acc =
     (let share = pool * w div tot
      in split_pool pool tot (assigned + share) (v # vs) (dset nid (dget acc nid 0 + share) acc))"

definition protocol_fee :: "int \<Rightarrow> int \<Rightarrow> int" where
  "protocol_fee bps paid = paid * bps div 10000"

definition record_work :: "registry \<Rightarrow> (string \<times> int \<times> int) list \<Rightarrow> int \<Rightarrow> registry" where
  "record_work r work paid_raw =
     (let pool = paid_raw - protocol_fee (fee_bps r) paid_raw;
          weights = map (\<lambda>(nid, layers, tokens). (nid, layers * tokens)) work;
          tot = sum_list (map snd weights)
      in if tot \<le> 0 then r
         else save_state (r\<lparr>accrued := split_pool pool tot 0 weights (accrued r)\<rparr>))"

definition has_wallet :: "registry \<Rightarrow> string \<Rightarrow> bool" where
  "has_wallet r nid \<longleftrightarrow> dget (wallets r) nid [] \<noteq> []"

definition payout_eligible :: "registry \<Rightarrow> (string \<times> string \<times> trust_tier) list" where
  "payout_eligible r =
     (let out = map (\<lambda>(nid, n). (nid, dget (wallets r) nid [], trust n))
                  (filter (\<lambda>(nid, n). state n = READY \<and> has_wallet r nid) (nodes (topo r)))
      in if coordinator_wallet r \<noteq> []
         then (''coordinator'', coordinator_wallet r, TRUSTED) # out else out)"

definition payable :: "registry \<Rightarrow> int \<Rightarrow> string \<times> int \<Rightarrow> bool" where
  "payable r min_payout = (\<lambda>(nid, amount). min_payout \<le> amount \<and> has_wallet r nid)"

definition settle :: "registry \<Rightarrow> int \<Rightarrow> registry \<times> (string \<times> int) list" where
  "settle r min_payout =
     (let batch = map (\<lambda>(nid, amount). (dget (wallets r) nid [], amount))
                    (filter (payable r min_payout) (accrued r));
          acc = map (\<lambda>(nid, amount). (nid, if payable r min_payout (nid, amount) then 0 else amount))
                  (accrued r)
      in (save_state (r\<lparr>accrued := acc\<rparr>), batch))"

end
