(* ===== verification/Registry_Inv.thy ===== *)
theory Registry_Inv
  imports Registry Topology_Spec
begin

section \<open>The registry's invariant\<close>

text \<open>
  The load counters as an interface, and the invariant every method keeps: the topology is
  well formed, and each load counter is the number of sessions that pin the node.
\<close>

subsection \<open>Load counters\<close>

text \<open>What the balancing code relies on: a counter table with a unit increment and decrement.\<close>

locale load_table =
  fixes inc :: "'k \<Rightarrow> 't \<Rightarrow> 't"
    and dec :: "'k \<Rightarrow> 't \<Rightarrow> 't"
    and cnt :: "'t \<Rightarrow> 'k \<Rightarrow> int"
    and ok :: "'t \<Rightarrow> bool"
  assumes cnt_inc: "ok t \<Longrightarrow> cnt (inc k t) j = cnt t j + (if j = k then 1 else 0)"
    and cnt_dec: "ok t \<Longrightarrow> 0 < cnt t k \<Longrightarrow> cnt (dec k t) j = cnt t j - (if j = k then 1 else 0)"
    and ok_inc: "ok t \<Longrightarrow> ok (inc k t)"
    and ok_dec: "ok t \<Longrightarrow> ok (dec k t)"
begin

lemma ok_incs: "ok t \<Longrightarrow> ok (foldl (\<lambda>t k. inc k t) t ks)"
  by (induction ks arbitrary: t) (simp_all add: ok_inc)

lemma ok_decs: "ok t \<Longrightarrow> ok (foldl (\<lambda>t k. dec k t) t ks)"
  by (induction ks arbitrary: t) (simp_all add: ok_dec)

lemma cnt_incs: "ok t \<Longrightarrow> cnt (foldl (\<lambda>t k. inc k t) t ks) j = cnt t j + int (count_list ks j)"
  by (induction ks arbitrary: t) (simp_all add: cnt_inc ok_inc)

lemma cnt_decs:
  "ok t \<Longrightarrow> (\<And>i. int (count_list ks i) \<le> cnt t i) \<Longrightarrow>
     cnt (foldl (\<lambda>t k. dec k t) t ks) j = cnt t j - int (count_list ks j)"
proof (induction ks arbitrary: t)
  case Nil
  then show ?case by simp
next
  case (Cons k ks)
  have pos: "0 < cnt t k" using Cons.prems(2) [of k] by simp
  have "int (count_list ks i) \<le> cnt (dec k t) i" for i
    using Cons.prems(2) [of i] by (auto simp: cnt_dec [OF Cons.prems(1) pos] split: if_splits)
  then have "cnt (foldl (\<lambda>t k. dec k t) (dec k t) ks) j = cnt (dec k t) j - int (count_list ks j)"
    by (rule Cons.IH [OF ok_dec [OF Cons.prems(1)]])
  then show ?case by (simp add: cnt_dec [OF Cons.prems(1) pos])
qed

end

text \<open>A table with one positive entry per key and no zero entries.\<close>

definition pos_table :: "('k, int) dict \<Rightarrow> bool" where
  "pos_table d \<longleftrightarrow> dict_ok d \<and> (\<forall>k v. map_of d k = Some v \<longrightarrow> 0 < v)"

lemma pos_table_dget: "pos_table d \<Longrightarrow> 0 \<le> dget d k 0"
  by (auto simp: pos_table_def dget_def less_imp_le split: option.split)

lemma pos_table_dset: "pos_table d \<Longrightarrow> 0 < v \<Longrightarrow> pos_table (dset k v d)"
  by (auto simp: pos_table_def dict_simps)

lemma pos_table_dpop: "pos_table d \<Longrightarrow> pos_table (dpop k d)"
  by (auto simp: pos_table_def dict_simps)

lemma pos_table_bump: "pos_table d \<Longrightarrow> pos_table (bump k d)"
  using pos_table_dget [of d k] by (simp add: bump_def pos_table_dset)

lemma pos_table_unbump: "pos_table d \<Longrightarrow> pos_table (unbump k d)"
  by (simp add: unbump_def Let_def pos_table_dset pos_table_dpop)

interpretation load: load_table bump unbump "\<lambda>d k. dget d k 0" pos_table
proof
  show "dget (unbump k t) j 0 = dget t j 0 - (if j = k then 1 else 0)"
    if "pos_table t" "0 < dget t k 0" for t :: "(string, int) dict" and k j
    using that by (auto simp: unbump_def Let_def dict_simps)
qed (simp_all add: bump_def [of _ "_ :: (string, int) dict"] dict_simps pos_table_unbump
      pos_table_bump [unfolded bump_def])

text \<open>No entry is left for a node nobody uses.\<close>

lemma pos_table_empty: "pos_table d \<Longrightarrow> (\<And>k. dget d k 0 = 0) \<Longrightarrow> d = []"
proof (rule ccontr)
  assume "pos_table d" "\<And>k. dget d k 0 = 0" "d \<noteq> []"
  then obtain k v where "map_of d k = Some v" by (metis list.set_cases map_of_SomeD
      map_of_eq_empty_iff not_Some_eq)
  then show False using \<open>pos_table d\<close> \<open>\<And>k. dget d k 0 = 0\<close> [of k]
    by (fastforce simp: pos_table_def dget_def)
qed

subsection \<open>Sessions and their pins\<close>

definition pin_count :: "(session_key, string list) dict \<Rightarrow> string \<Rightarrow> int" where
  "pin_count d nid = int (length (filter (\<lambda>(s, ids). nid \<in> set ids) d))"

lemma pin_count_Nil [simp]: "pin_count [] nid = 0"
  by (simp add: pin_count_def)

lemma pin_count_Cons [simp]:
  "pin_count ((s, ids) # d) nid = (if nid \<in> set ids then 1 else 0) + pin_count d nid"
  by (simp add: pin_count_def)

lemma pin_count_dset:
  "dict_ok d \<Longrightarrow> pin_count (dset s ids d) nid = pin_count d nid
     - (if nid \<in> set (dget d s []) then 1 else 0) + (if nid \<in> set ids then 1 else 0)"
  by (induction d) (auto simp: dget_def)

lemma pin_count_dpop:
  "dict_ok d \<Longrightarrow> pin_count (dpop s d) nid = pin_count d nid
     - (if nid \<in> set (dget d s []) then 1 else 0)"
proof (induction d)
  case Nil
  then show ?case by (simp add: dget_def)
next
  case (Cons p d)
  then show ?case by (cases p) (auto simp: dget_def image_iff map_of_eq_None_iff [symmetric])
qed

lemma pin_count_ge: "map_of d s = Some ids \<Longrightarrow> nid \<in> set ids \<Longrightarrow> 1 \<le> pin_count d nid"
proof (induction d)
  case Nil
  then show ?case by simp
next
  case (Cons p d)
  have "0 \<le> pin_count d nid" by (simp add: pin_count_def)
  with Cons show ?case by (cases p) (auto split: if_splits)
qed

lemma dget_Some: "map_of d k = Some v \<Longrightarrow> dget d k x = v"
  by (simp add: dget_def)

lemma dget_None: "map_of d k = None \<Longrightarrow> dget d k x = x"
  by (simp add: dget_def)

definition loads_exact :: "registry \<Rightarrow> bool" where
  "loads_exact r \<longleftrightarrow> dict_ok (session_load r) \<and>
     (\<forall>s ids. map_of (session_load r) s = Some ids \<longrightarrow> distinct ids) \<and>
     pos_table (loads r) \<and> (\<forall>nid. dget (loads r) nid 0 = pin_count (session_load r) nid)"

definition entry_count :: "(session_key, string) dict \<Rightarrow> string \<Rightarrow> int" where
  "entry_count d nid = int (length (filter (\<lambda>(s, e). e = nid) d))"

definition entries_exact :: "registry \<Rightarrow> bool" where
  "entries_exact r \<longleftrightarrow> dict_ok (session_entry r) \<and> pos_table (entry_load r) \<and>
     (\<forall>nid. dget (entry_load r) nid 0 = entry_count (session_entry r) nid)"

definition registry_ok :: "registry \<Rightarrow> bool" where
  "registry_ok r \<longleftrightarrow> topo_wf (topo r) \<and> loads_exact r \<and> entries_exact r"

lemma count_list_distinct: "distinct xs \<Longrightarrow> count_list xs x = (if x \<in> set xs then 1 else 0)"
  by (induction xs) auto

subsection \<open>Routes of distinct nodes\<close>

lemma route_picks_distinct:
  assumes wf: "topo_wf t" and plan: "route t = Inr plan" and len: "length rt = length plan"
    and mem: "\<And>i. i < length plan \<Longrightarrow> rt ! i \<in> set (snd (plan ! i))"
  shows "distinct (map node_id rt)"
proof -
  have p: "plan = map (\<lambda>s. (s, holders t (s_index s))) (slots t)"
    using plan by (simp_all add: route_def route_slots_Inr)
  then have n: "length rt = length (slots t)" using len by simp
  have hold: "node_id (rt ! i) \<in> set (s_holders (slots t ! i))" if "i < length (slots t)" for i
    using mem [of i] that holders_member [OF wf that] topo_wf_index [OF wf that] by (simp add: p)
  have "node_id (rt ! i) \<noteq> node_id (rt ! j)" if "i < length rt" "j < length rt" "i \<noteq> j" for i j
    using topo_wf_one_slot [OF wf, of i j "node_id (rt ! i)"] hold [of i] hold [of j] that n
    by (metis (full_types))
  then show ?thesis by (auto simp: distinct_conv_nth)
qed

lemma pick_least_index:
  assumes "hs \<noteq> []"
  shows "\<exists>i < length hs. pick_least ld hs = hs ! i \<and>
    (\<forall>j < length hs. (dget ld (node_id (hs ! i)) 0, i) \<le> (dget ld (node_id (hs ! j)) 0, j))"
proof -
  let ?f = "\<lambda>j. (dget ld (node_id (hs ! j)) 0, j)"
  let ?i = "min_by ?f [0 ..< length hs]"
  have "?i \<in> set [0 ..< length hs]" using assms by (intro min_by_in) simp
  moreover have "?f ?i \<le> ?f j" if "j < length hs" for j
    using that by (intro min_by_le) simp
  ultimately show ?thesis by (auto simp: pick_least_def)
qed

lemma pick_least_in: "hs \<noteq> [] \<Longrightarrow> pick_least ld hs \<in> set hs"
  using pick_least_index by (metis nth_mem)

lemma by_id_SomeD: "by_id hs k = Some h \<Longrightarrow> h \<in> set hs \<and> node_id h = k"
  by (auto simp: by_id_def dest!: map_of_SomeD)

lemma by_id_None_iff: "by_id hs k = None \<longleftrightarrow> (\<forall>h \<in> set hs. node_id h \<noteq> k)"
  by (force simp: by_id_def map_of_eq_None_iff)

lemma affine_pick_in: "hs \<noteq> [] \<Longrightarrow> affine_pick ld pinned k hs \<in> set hs"
  by (auto simp: affine_pick_def pick_least_in dest: by_id_SomeD split: option.split)

lemma route_nonempty: "route t = Inr plan \<Longrightarrow> i < length plan \<Longrightarrow> snd (plan ! i) \<noteq> []"
  by (auto simp: route_def route_slots_Inr)

subsection \<open>Acquiring and releasing a route\<close>

lemma loads_exact_release:
  assumes "loads_exact r"
  shows "loads_exact (release_route r session)"
proof (cases "map_of (session_load r) session")
  case None
  then have "dpop session (session_load r) = session_load r"
    by (intro AList.delete_id) (simp add: map_of_eq_None_iff image_iff)
  then show ?thesis using None assms
    by (simp add: release_route_def dget_def Let_def loads_exact_def)
next
  case (Some ids)
  have d: "dict_ok (session_load r)" and dist: "distinct ids" and pos: "pos_table (loads r)"
    and cnt: "\<And>nid. dget (loads r) nid 0 = pin_count (session_load r) nid"
    using assms Some by (auto simp: loads_exact_def)
  have "int (count_list ids nid) \<le> dget (loads r) nid 0" for nid
    using pin_count_ge [OF Some, of nid] pos_table_dget [OF pos, of nid]
    by (simp add: count_list_distinct [OF dist] cnt)
  then have "dget (foldl (\<lambda>ld nid. unbump nid ld) (loads r) ids) nid 0 =
      dget (loads r) nid 0 - int (count_list ids nid)" for nid
    using load.cnt_decs [OF pos] by blast
  moreover have "pin_count (dpop session (session_load r)) nid =
      pin_count (session_load r) nid - int (count_list ids nid)" for nid
    using Some pin_count_dpop [OF d] by (simp add: dget_def count_list_distinct [OF dist])
  ultimately show ?thesis
    using assms Some load.ok_decs [OF pos] cnt
    by (simp add: release_route_def Let_def loads_exact_def dget_def dict_simps)
qed

text \<open>Replacing one pin by another.\<close>

definition repin :: "string list \<Rightarrow> string list \<Rightarrow> (string, int) dict \<Rightarrow> (string, int) dict" where
  "repin old new ld =
     foldl (\<lambda>ld nid. bump nid ld)
       (foldl (\<lambda>ld nid. unbump nid ld) ld (filter (\<lambda>nid. nid \<notin> set new) (remdups old)))
       (filter (\<lambda>nid. nid \<notin> set old) (remdups new))"

lemma repin_exact:
  assumes "loads_exact r" and "map_of (session_load r) session = Some pinned" and "distinct ids"
  shows "loads_exact (r\<lparr>loads := repin pinned ids (loads r),
    session_load := dset session ids (session_load r)\<rparr>)"
proof -
  have d: "dict_ok (session_load r)" and pos: "pos_table (loads r)"
    and cnt: "\<And>nid. dget (loads r) nid 0 = pin_count (session_load r) nid"
    using assms by (auto simp: loads_exact_def)
  let ?lost = "filter (\<lambda>nid. nid \<notin> set ids) (remdups pinned)"
  let ?gained = "filter (\<lambda>nid. nid \<notin> set pinned) (remdups ids)"
  let ?ld1 = "foldl (\<lambda>ld nid. unbump nid ld) (loads r) ?lost"
  have le: "int (count_list ?lost nid) \<le> dget (loads r) nid 0" for nid
    using pin_count_ge [OF assms(2), of nid] pos_table_dget [OF pos, of nid]
    by (simp add: count_list_distinct cnt)
  have pos1: "pos_table ?ld1" by (rule load.ok_decs [OF pos])
  have "dget (repin pinned ids (loads r)) nid 0 =
      dget (loads r) nid 0 - int (count_list ?lost nid) + int (count_list ?gained nid)" for nid
    unfolding repin_def load.cnt_incs [OF pos1] load.cnt_decs [OF pos le] by simp
  then have "dget (repin pinned ids (loads r)) nid 0 = pin_count (dset session ids (session_load r)) nid"
    for nid
    using dget_Some [OF assms(2)] by (simp add: pin_count_dset [OF d] cnt count_list_distinct)
  moreover have "pos_table (repin pinned ids (loads r))"
    unfolding repin_def by (rule load.ok_incs [OF pos1])
  ultimately show ?thesis using assms by (auto simp: loads_exact_def dict_simps)
qed

text \<open>Both branches of \<open>acquire_route\<close>: the chosen nodes, then the bookkeeping.\<close>

definition session_route :: "registry \<Rightarrow> session_key \<Rightarrow> (slot \<times> node list) list \<Rightarrow> node list" where
  "session_route r session plan =
     (case map_of (session_load r) session of
        None \<Rightarrow> map (\<lambda>(s, hs). pick_least (loads r) hs) plan
      | Some pinned \<Rightarrow>
          map (\<lambda>(k, s, hs). affine_pick (loads r) pinned k hs) (zip [0 ..< length plan] plan))"

lemma length_session_route [simp]: "length (session_route r session plan) = length plan"
  by (simp add: session_route_def split: option.split)

lemma session_route_nth:
  "i < length plan \<Longrightarrow> session_route r session plan ! i =
     (case map_of (session_load r) session of
        None \<Rightarrow> pick_least (loads r) (snd (plan ! i))
      | Some pinned \<Rightarrow> affine_pick (loads r) pinned i (snd (plan ! i)))"
  by (simp add: session_route_def split_beta split: option.split)

lemma session_route_in:
  assumes "route t = Inr plan" and "i < length plan"
  shows "session_route r session plan ! i \<in> set (snd (plan ! i))"
  using route_nonempty [OF assms] assms(2)
  by (auto simp: session_route_nth pick_least_in affine_pick_in split: option.split)

lemma session_route_distinct:
  assumes "topo_wf t" and "route t = Inr plan"
  shows "distinct (map node_id (session_route r session plan))"
  using assms by (intro route_picks_distinct [of t plan]) (auto intro: session_route_in)

lemma acquire_route_eq:
  "acquire_route r session =
     (case route (topo r) of
        Inl e \<Rightarrow> (r, Inl e)
      | Inr plan \<Rightarrow>
          (let rt = session_route r session plan; ids = map node_id rt
           in (r\<lparr>loads := (case map_of (session_load r) session of
                   None \<Rightarrow> foldl (\<lambda>ld nid. bump nid ld) (loads r) ids
                 | Some pinned \<Rightarrow> repin pinned ids (loads r)),
                 session_load := dset session ids (session_load r)\<rparr>, Inr rt)))"
  by (simp add: acquire_route_def session_route_def repin_def Let_def del: map_map set_map
      split: sum.split option.split)

lemma loads_exact_acquire:
  assumes "topo_wf (topo r)" and "loads_exact r"
  shows "loads_exact (fst (acquire_route r session))"
proof (cases "route (topo r)")
  case (Inl e)
  then show ?thesis using assms by (simp add: acquire_route_eq)
next
  case (Inr plan)
  let ?ids = "map node_id (session_route r session plan)"
  have dist: "distinct ?ids" using session_route_distinct [OF assms(1) Inr] .
  show ?thesis
  proof (cases "map_of (session_load r) session")
    case None
    have d: "dict_ok (session_load r)" and pos: "pos_table (loads r)"
      and cnt: "\<And>nid. dget (loads r) nid 0 = pin_count (session_load r) nid"
      using assms by (auto simp: loads_exact_def)
    have "dget (foldl (\<lambda>ld nid. bump nid ld) (loads r) ?ids) nid 0 =
        pin_count (dset session ?ids (session_load r)) nid" for nid
      unfolding load.cnt_incs [OF pos] using dget_None [OF None]
      by (simp add: pin_count_dset [OF d] cnt count_list_distinct [OF dist] del: map_map)
    then show ?thesis using None Inr dist assms load.ok_incs [OF pos]
      by (auto simp: acquire_route_eq Let_def loads_exact_def dict_simps)
  next
    case (Some pinned)
    then show ?thesis using Inr repin_exact [OF assms(2) Some dist]
      by (simp add: acquire_route_eq Let_def)
  qed
qed

subsection \<open>Entry orchestrators\<close>

lemma entry_count_dset_new:
  "map_of d s = None \<Longrightarrow> entry_count (dset s e d) nid = entry_count d nid + (if e = nid then 1 else 0)"
  by (induction d) (auto simp: entry_count_def split: if_splits)

lemma entry_count_dpop:
  assumes "dict_ok d" and "map_of d s = Some e"
  shows "entry_count (dpop s d) nid = entry_count d nid - (if e = nid then 1 else 0)"
  using assms
proof (induction d)
  case Nil
  then show ?case by simp
next
  case (Cons p d)
  show ?case
  proof (cases "fst p = s")
    case True
    then have "dpop s d = d" using Cons.prems(1) by (intro AList.delete_id) auto
    then show ?thesis using True Cons.prems by (cases p) (auto simp: entry_count_def)
  next
    case False
    then show ?thesis using Cons by (cases p) (auto simp: entry_count_def)
  qed
qed

lemma entry_count_pos: "map_of d s = Some e \<Longrightarrow> 1 \<le> entry_count d e"
  by (induction d) (auto simp: entry_count_def split: if_splits)

lemma entries_exact_release:
  assumes "entries_exact r"
  shows "entries_exact (release_entry r session) \<and>
    map_of (session_entry (release_entry r session)) session = None"
proof (cases "map_of (session_entry r) session")
  case None
  then have "dpop session (session_entry r) = session_entry r"
    by (intro AList.delete_id) (simp add: map_of_eq_None_iff image_iff)
  then show ?thesis using None assms by (simp add: release_entry_def Let_def entries_exact_def)
next
  case (Some e)
  have d: "dict_ok (session_entry r)" and pos: "pos_table (entry_load r)"
    and cnt: "\<And>nid. dget (entry_load r) nid 0 = entry_count (session_entry r) nid"
    using assms by (auto simp: entries_exact_def)
  have "0 < dget (entry_load r) e 0" using entry_count_pos [OF Some] cnt by simp
  note dec = load.cnt_dec [OF pos this]
  have "dget (unbump e (entry_load r)) nid 0 = entry_count (dpop session (session_entry r)) nid" for nid
    unfolding dec entry_count_dpop [OF d Some] cnt by auto
  then show ?thesis using Some d load.ok_dec [OF pos]
    by (simp add: release_entry_def Let_def entries_exact_def dict_simps)
qed

lemma entries_exact_acquire:
  assumes "entries_exact r"
  shows "entries_exact (fst (acquire_entry r session))"
proof -
  let ?r = "release_entry r session"
  have ex: "entries_exact ?r" and none: "map_of (session_entry ?r) session = None"
    using entries_exact_release [OF assms] by simp_all
  have pos: "pos_table (entry_load ?r)" and d: "dict_ok (session_entry ?r)"
    using ex by (simp_all add: entries_exact_def)
  have "entries_exact (?r\<lparr>entry_load := bump e (entry_load ?r),
      session_entry := dset session e (session_entry ?r)\<rparr>)" for e
    using ex load.ok_inc [OF pos] load.cnt_inc [OF pos] entry_count_dset_new [OF none] d
    by (simp add: entries_exact_def)
  with ex show ?thesis by (simp add: acquire_entry_def Let_def)
qed

subsection \<open>Runs of the registry\<close>

datatype reg_event =
    RRegister node rat "(int \<times> int) option"
  | RHeartbeat string rat
  | RDrain string
  | RReady string
  | RSuspect string
  | RTrusted string
  | RCheck string bool int int
  | RRtt string rat
  | RTick rat
  | RAcquire session_key
  | RRelease session_key
  | RAcquireEntry session_key
  | RReleaseEntry session_key
  | RWork "(string \<times> int \<times> int) list" int
  | RSettle int

fun reg_step :: "registry \<Rightarrow> reg_event \<Rightarrow> registry" where
  "reg_step r (RRegister n now pr) = fst (reg_register r n now pr)"
| "reg_step r (RHeartbeat nid now) = fst (reg_heartbeat r nid now)"
| "reg_step r (RDrain nid) = reg_drain r nid"
| "reg_step r (RReady nid) = reg_mark_ready r nid"
| "reg_step r (RSuspect nid) = reg_mark_suspect r nid"
| "reg_step r (RTrusted nid) = reg_set_trusted r nid"
| "reg_step r (RCheck nid ok pa sm) = fst (reg_record_check r nid ok pa sm)"
| "reg_step r (RRtt nid ms) = reg_set_rtt r nid ms"
| "reg_step r (RTick now) = fst (tick r now)"
| "reg_step r (RAcquire s) = fst (acquire_route r s)"
| "reg_step r (RRelease s) = release_route r s"
| "reg_step r (RAcquireEntry s) = fst (acquire_entry r s)"
| "reg_step r (RReleaseEntry s) = release_entry r s"
| "reg_step r (RWork work paid) = record_work r work paid"
| "reg_step r (RSettle m) = fst (settle r m)"

text \<open>What the invariant looks at.\<close>

abbreviation session_view where
  "session_view r \<equiv> (loads r, session_load r, entry_load r, session_entry r)"

lemma registry_ok_cong:
  assumes "session_view r' = session_view r" and "topo_wf (topo r')" and "registry_ok r"
  shows "registry_ok r'"
  using assms by (simp add: registry_ok_def loads_exact_def entries_exact_def)

lemma save_state_frame [simp]: "loads (save_state r) = loads r"
  "session_load (save_state r) = session_load r" "entry_load (save_state r) = entry_load r"
  "session_entry (save_state r) = session_entry r"
  "topo (save_state r) = topo r" "banned (save_state r) = banned r"
  "orch_seq (save_state r) = orch_seq r" "accrued (save_state r) = accrued r"
  "wallets (save_state r) = wallets r" "eviction_counts (save_state r) = eviction_counts r"
  "allowlist (save_state r) = allowlist r" "state_path (save_state r) = state_path r"
  "disk_ok (save_state r) = disk_ok r" "ban_after (save_state r) = ban_after r"
  "fee_bps (save_state r) = fee_bps r"
  by (simp_all add: save_state_def)

lemma registry_ok_topo:
  "registry_ok r \<Longrightarrow> topo_wf t \<Longrightarrow> registry_ok (r\<lparr>topo := t\<rparr>)"
  by (rule registry_ok_cong) simp_all

lemma topo_wf_admit: "topo_wf (topo r) \<Longrightarrow> topo_wf (topo (fst (admit r n asn idx)))"
  by (simp add: admit_def Let_def)
    (auto simp: static_view_def topo_wf_set_trusted intro!: topo_wf_dmod split: option.split)

lemma admit_session_view: "session_view (fst (admit r n asn idx)) = session_view r"
  by (simp add: admit_def Let_def)

lemma registry_ok_register:
  assumes "registry_ok r"
  shows "registry_ok (fst (reg_register r n now pr))"
proof (rule registry_ok_cong [OF _ _ assms])
  have wf: "topo_wf (topo r)" using assms by (simp add: registry_ok_def)
  show "session_view (fst (reg_register r n now pr)) = session_view r"
    using admit_session_view
    by (auto simp: reg_register_def split_beta split: sum.split option.split)
  show "topo_wf (topo (fst (reg_register r n now pr)))"
    using topo_wf_register [OF wf, of n now pr] topo_wf_register_orchestrator [OF wf, of n now]
      topo_wf_admit wf
    by (auto simp: reg_register_def split_beta split: sum.split option.split)
qed

lemma registry_ok_step:
  assumes "registry_ok r"
  shows "registry_ok (reg_step r e)"
proof -
  have wf: "topo_wf (topo r)" and lo: "loads_exact r" and en: "entries_exact r"
    using assms by (simp_all add: registry_ok_def)
  show ?thesis
  proof (cases e)
    case (RRegister n now pr)
    then show ?thesis by (simp add: registry_ok_register [OF assms])
  next
    case (RCheck nid ok pa sm)
    have "topo_wf (fst (record_check (topo r) nid ok pa sm))" using wf by (rule topo_wf_record_check)
    then show ?thesis using RCheck
      by (auto intro!: registry_ok_cong [OF _ _ assms] simp: reg_record_check_def split_beta Let_def)
  next
    case (RTick now)
    have "topo_wf (fst (purge (fst (reap (topo r) now)) now))"
      by (intro topo_wf_purge topo_wf_reap wf)
    then show ?thesis using RTick registry_ok_topo [OF assms] by (simp add: tick_def split_beta Let_def)
  next
    case (RAcquire s)
    then show ?thesis using loads_exact_acquire [OF wf lo, of s] wf en
      by (auto simp: registry_ok_def entries_exact_def acquire_route_def Let_def
          split: sum.splits option.splits)
  next
    case (RRelease s)
    then show ?thesis using loads_exact_release [OF lo, of s] wf en
      by (simp add: registry_ok_def entries_exact_def release_route_def Let_def)
  next
    case (RAcquireEntry s)
    have "topo (fst (acquire_entry r s)) = topo r \<and> loads (fst (acquire_entry r s)) = loads r \<and>
        session_load (fst (acquire_entry r s)) = session_load r"
      by (simp add: acquire_entry_def release_entry_def Let_def split: option.split)
    then show ?thesis using RAcquireEntry entries_exact_acquire [OF en, of s] wf lo
      by (simp add: registry_ok_def loads_exact_def)
  next
    case (RReleaseEntry s)
    have "topo (release_entry r s) = topo r \<and> loads (release_entry r s) = loads r \<and>
        session_load (release_entry r s) = session_load r"
      by (simp add: release_entry_def Let_def split: option.split)
    then show ?thesis using RReleaseEntry entries_exact_release [OF en, of s] wf lo
      by (simp add: registry_ok_def loads_exact_def)
  next
    case (RWork work paid)
    then show ?thesis using wf by (auto intro!: registry_ok_cong [OF _ _ assms] simp: record_work_def Let_def)
  next
    case (RSettle m)
    then show ?thesis using wf by (auto intro!: registry_ok_cong [OF _ _ assms] simp: settle_def Let_def)
  qed (auto simp: reg_heartbeat_def reg_drain_def reg_mark_ready_def reg_mark_suspect_def
      reg_set_trusted_def reg_set_rtt_def split_beta topo_wf_ops wf intro!: registry_ok_topo [OF assms])
qed

lemma registry_ok_run: "registry_ok r \<Longrightarrow> registry_ok (foldl reg_step r es)"
  by (induction es arbitrary: r) (simp_all add: registry_ok_step)

lemma registry_ok_initial:
  "topo_wf t \<Longrightarrow> registry_ok (mk_registry t secret cep cw al seeds fee ban path file ok)"
  by (simp add: mk_registry_def registry_ok_def loads_exact_def entries_exact_def load_state_def
      pos_table_def dget_def entry_count_def Let_def split: option.split)

end
