(* ===== verification/Registry_Spec.thy ===== *)
theory Registry_Spec
  imports Registry_Inv
begin

section \<open>Contracts of the registry\<close>

text \<open>
  Load accounting in every state a run reaches, the choice of replicas and the affinity of
  re-homed sessions, admission and bans, conservation of paid work and of settlements, and
  the durable state.
\<close>

subsection \<open>Load balancing\<close>

text \<open>C25. In every state the registry reaches, whatever calls were made in whatever order: a
  node's load is the number of sessions whose route pins it, an orchestrator's entry load the
  number of sessions it drives, no route pins a node twice, and no zero or stale entry is left
  behind.\<close>

theorem load_counts_sessions:
  assumes "mk_topology nl ce ns fp rep d cr bl szs = Inr t0"
    and "r = foldl reg_step (mk_registry t0 secret cep cw al seeds fee ban path file ok) es"
  shows "(\<forall>nid. dget (loads r) nid 0 =
       int (length (filter (\<lambda>(s, ids). nid \<in> set ids) (session_load r)))) \<and>
    (\<forall>nid. dget (entry_load r) nid 0 =
       int (length (filter (\<lambda>(s, e). e = nid) (session_entry r)))) \<and>
    (\<forall>s ids. map_of (session_load r) s = Some ids \<longrightarrow> distinct ids) \<and>
    (\<forall>k v. map_of (loads r) k = Some v \<or> map_of (entry_load r) k = Some v \<longrightarrow> 0 < v)"
proof -
  have "registry_ok r"
    using registry_ok_run [OF registry_ok_initial [OF topo_wf_mk_topology [OF assms(1)]]] assms(2)
    by simp
  then show ?thesis
    by (auto simp: registry_ok_def loads_exact_def entries_exact_def pos_table_def pin_count_def
        entry_count_def)
qed

definition demo_registry :: "registry" where
  "demo_registry = mk_registry demo_live [1] (''coord'', 7000) '''' None None 1000 1 ''state'' None True"

lemma demo_registry_ok: "registry_ok demo_registry"
  unfolding demo_registry_def by (rule registry_ok_initial [OF demo_live_wf])

lemma load_counts_sessions_witness:
  "\<exists>r. r = foldl reg_step (mk_registry demo_topology [1] (''c'', 1) '''' None None 1000 3 '''' None True)
      [RRegister (demo_node ''a'' 4) 0 None, RReady ''a'', RAcquire (SInt 7), RTick 100] \<and>
     (\<forall>nid. dget (loads r) nid 0 = int (length (filter (\<lambda>(s, ids). nid \<in> set ids) (session_load r))))"
  using load_counts_sessions [OF demo_topology_built refl, of "[1]" "(''c'', 1)" "''''" None None 1000 3
      "''''" None True "[RRegister (demo_node ''a'' 4) 0 None, RReady ''a'', RAcquire (SInt 7), RTick 100]"]
  by blast

text \<open>A new session's route takes, for every slot in order, a routable holder of that slot with
  the least load; among equally loaded holders the first in the topology's preference order.
  Each chosen node's load grows by one and nothing else changes.\<close>

theorem new_session_least_loaded:
  assumes ok: "registry_ok r" and new: "map_of (session_load r) session = None"
    and acq: "acquire_route r session = (r', Inr rt)" and plan: "route (topo r) = Inr plan"
  shows "length rt = length plan \<and>
    (\<forall>i < length plan. \<exists>k < length (snd (plan ! i)). rt ! i = snd (plan ! i) ! k \<and>
       (\<forall>j < length (snd (plan ! i)).
          dget (loads r) (node_id (rt ! i)) 0 \<le> dget (loads r) (node_id (snd (plan ! i) ! j)) 0 \<and>
          (j < k \<longrightarrow> dget (loads r) (node_id (rt ! i)) 0
             < dget (loads r) (node_id (snd (plan ! i) ! j)) 0))) \<and>
    (\<forall>nid. dget (loads r') nid 0 =
       dget (loads r) nid 0 + (if nid \<in> node_id ` set rt then 1 else 0)) \<and>
    map_of (session_load r') = (map_of (session_load r))(session \<mapsto> map node_id rt) \<and> topo r' = topo r"
proof -
  have rt: "rt = session_route r session plan"
    and r': "r' = r\<lparr>loads := foldl (\<lambda>ld nid. bump nid ld) (loads r) (map node_id rt),
      session_load := dset session (map node_id rt) (session_load r)\<rparr>"
    using acq new plan by (auto simp: acquire_route_eq Let_def)
  have dist: "distinct (map node_id rt)" unfolding rt
    using ok plan by (intro session_route_distinct) (simp_all add: registry_ok_def)
  have pos: "pos_table (loads r)" using ok by (simp add: registry_ok_def loads_exact_def)
  have pick: "\<exists>k < length hs. rt ! i = hs ! k \<and> (\<forall>j < length hs.
      dget (loads r) (node_id (rt ! i)) 0 \<le> dget (loads r) (node_id (hs ! j)) 0 \<and>
      (j < k \<longrightarrow> dget (loads r) (node_id (rt ! i)) 0 < dget (loads r) (node_id (hs ! j)) 0))"
    if "i < length plan" "hs = snd (plan ! i)" for i hs
  proof -
    have "hs \<noteq> []" using route_nonempty [OF plan that(1)] that(2) by simp
    then obtain k where k: "k < length hs" "pick_least (loads r) hs = hs ! k"
      and le: "\<forall>j < length hs. (dget (loads r) (node_id (hs ! k)) 0, k) \<le> (dget (loads r) (node_id (hs ! j)) 0, j)"
      using pick_least_index by blast
    have "rt ! i = hs ! k" using that k new by (simp add: rt session_route_nth)
    with k(1) le show ?thesis by (force simp: less_eq_prod_def)
  qed
  have "dget (loads r') nid 0 = dget (loads r) nid 0 + (if nid \<in> node_id ` set rt then 1 else 0)" for nid
    using load.cnt_incs [OF pos, of "map node_id rt" nid] count_list_distinct [OF dist]
    by (simp add: r')
  then show ?thesis using pick rt r' by (simp add: dict_simps)
qed

text \<open>A session that is re-homed (acquired again without release) keeps, slot by slot, exactly
  the holder it has pinned whenever that holder is still routable for the slot; only a slot
  whose pinned holder is gone gets a replacement, and that is one of the slot's least loaded
  holders.\<close>

theorem rehomed_session_keeps_holders:
  assumes ok: "registry_ok r" and old: "map_of (session_load r) session = Some pinned"
    and acq: "acquire_route r session = (r', Inr rt)" and plan: "route (topo r) = Inr plan"
    and i: "i < length plan"
  shows "rt ! i \<in> set (snd (plan ! i)) \<and>
    (if i < length pinned \<and> (\<exists>h \<in> set (snd (plan ! i)). node_id h = pinned ! i)
     then node_id (rt ! i) = pinned ! i
     else \<forall>h \<in> set (snd (plan ! i)).
       dget (loads r) (node_id (rt ! i)) 0 \<le> dget (loads r) (node_id h) 0)"
proof -
  let ?hs = "snd (plan ! i)"
  have rt: "rt = session_route r session plan" using acq plan by (auto simp: acquire_route_eq Let_def)
  have nth: "rt ! i = affine_pick (loads r) pinned i ?hs" using old i by (simp add: rt session_route_nth)
  have mem: "rt ! i \<in> set ?hs" using session_route_in [OF plan i] rt by simp
  have least: "\<forall>h \<in> set ?hs. dget (loads r) (node_id (pick_least (loads r) ?hs)) 0
      \<le> dget (loads r) (node_id h) 0"
    using pick_least_index [OF route_nonempty [OF plan i], of "loads r"]
    by (fastforce simp: less_eq_prod_def in_set_conv_nth)
  show ?thesis
  proof (cases "i < length pinned \<and> (\<exists>h \<in> set ?hs. node_id h = pinned ! i)")
    case True
    then obtain h where "by_id ?hs (pinned ! i) = Some h"
      using by_id_None_iff [of ?hs "pinned ! i"] by (cases "by_id ?hs (pinned ! i)") auto
    then have "node_id (rt ! i) = pinned ! i" using True nth by_id_SomeD by (simp add: affine_pick_def)
    with True mem show ?thesis by simp
  next
    case False
    then have "(if i < length pinned then by_id ?hs (pinned ! i) else None) = None"
      by (auto simp: by_id_None_iff)
    then have "rt ! i = pick_least (loads r) ?hs" using nth by (simp add: affine_pick_def)
    with least mem show ?thesis unfolding if_not_P [OF False] by simp
  qed
qed

text \<open>Releasing a session undoes its acquisition: the loads are what they were before it was
  opened, it is no longer pinned, and releasing it again changes nothing.\<close>

theorem release_undoes_acquire:
  assumes ok: "registry_ok r" and new: "map_of (session_load r) session = None"
    and acq: "acquire_route r session = (r', Inr rt)"
  shows "(\<forall>nid. dget (loads (release_route r' session)) nid 0 = dget (loads r) nid 0) \<and>
    map_of (session_load (release_route r' session)) = map_of (session_load r) \<and>
    release_route (release_route r' session) session = release_route r' session"
proof -
  obtain plan where plan: "route (topo r) = Inr plan"
    using acq by (auto simp: acquire_route_def split: sum.splits)
  have ok': "registry_ok r'" using registry_ok_step [OF ok, of "RAcquire session"] acq by simp
  have lo: "loads_exact r'" and lo2: "loads_exact (release_route r' session)"
    using ok' loads_exact_release by (simp_all add: registry_ok_def)
  have sl: "session_load r' = dset session (map node_id rt) (session_load r)"
    using acq new plan by (auto simp: acquire_route_eq Let_def)
  have d: "dict_ok (session_load r)" "dict_ok (session_load r')"
    using ok ok' by (simp_all add: registry_ok_def loads_exact_def)
  have "pin_count (session_load (release_route r' session)) nid = pin_count (session_load r) nid" for nid
    using d new by (simp add: release_route_def Let_def pin_count_dpop sl pin_count_dset dget_None
        dict_simps)
  then have "\<forall>nid. dget (loads (release_route r' session)) nid 0 = dget (loads r) nid 0"
    using lo2 ok by (simp add: loads_exact_def registry_ok_def)
  moreover have "map_of (session_load (release_route r' session)) = map_of (session_load r)"
    using new by (auto simp: release_route_def Let_def sl dict_simps)
  moreover have "release_route r2 session = r2" if "map_of (session_load r2) session = None" for r2
  proof -
    have "dpop session (session_load r2) = session_load r2"
      using that by (intro AList.delete_id) (simp add: map_of_eq_None_iff image_iff)
    with that show ?thesis by (simp add: release_route_def Let_def dget_None)
  qed
  ultimately show ?thesis using new by metis
qed

lemma demo_registry_topo: "topo demo_registry = demo_live"
  by (simp add: demo_registry_def mk_registry_def load_state_def Let_def)

lemma demo_plan: "\<exists>plan. route (topo demo_registry) = Inr plan \<and> length plan = 2"
proof -
  obtain plan where "route demo_live = Inr plan" using demo_live_route by blast
  moreover from this have "plan = map (\<lambda>s. (s, holders demo_live (s_index s))) (slots demo_live)"
    by (simp add: route_def route_slots_Inr)
  moreover have "length (slots demo_live) = 2" by (simp add: demo_live_eq)
  ultimately show ?thesis by (simp add: demo_registry_topo)
qed

lemma demo_acquire: "\<exists>r' rt. acquire_route demo_registry (SInt 7) = (r', Inr rt)"
  using demo_plan by (auto simp: acquire_route_def Let_def split: option.split)

lemma demo_no_session: "map_of (session_load demo_registry) s = None"
  by (simp add: demo_registry_def mk_registry_def load_state_def Let_def)

lemma new_session_least_loaded_witness:
  "\<exists>r' rt. acquire_route demo_registry (SInt 7) = (r', Inr rt) \<and> length rt = 2"
proof -
  obtain plan where p: "route (topo demo_registry) = Inr plan" "length plan = 2"
    using demo_plan by blast
  obtain r' rt where a: "acquire_route demo_registry (SInt 7) = (r', Inr rt)" using demo_acquire by blast
  then show ?thesis
    using new_session_least_loaded [OF demo_registry_ok demo_no_session a p(1)] p(2) by auto
qed

lemma release_undoes_acquire_witness:
  "\<exists>r' rt. acquire_route demo_registry (SInt 7) = (r', Inr rt) \<and>
     map_of (session_load (release_route r' (SInt 7))) = map_of (session_load demo_registry)"
proof -
  obtain r' rt where a: "acquire_route demo_registry (SInt 7) = (r', Inr rt)" using demo_acquire by blast
  then show ?thesis
    using release_undoes_acquire [OF demo_registry_ok demo_no_session a] by blast
qed

lemma rehomed_session_keeps_holders_witness:
  "\<exists>r1 rt1 r2 rt2. acquire_route demo_registry (SInt 7) = (r1, Inr rt1) \<and>
     acquire_route r1 (SInt 7) = (r2, Inr rt2) \<and> node_id (rt2 ! 1) = node_id (rt1 ! 1)"
proof -
  obtain plan where p: "route (topo demo_registry) = Inr plan" "length plan = 2"
    using demo_plan by blast
  obtain r1 rt1 where a: "acquire_route demo_registry (SInt 7) = (r1, Inr rt1)" using demo_acquire by blast
  have ok1: "registry_ok r1" using registry_ok_step [OF demo_registry_ok, of "RAcquire (SInt 7)"] a by simp
  have rt1: "rt1 = session_route demo_registry (SInt 7) plan" and t1: "topo r1 = topo demo_registry"
    and pin: "map_of (session_load r1) (SInt 7) = Some (map node_id rt1)"
    using a p(1) demo_no_session by (auto simp: acquire_route_eq Let_def dict_simps)
  have len: "length rt1 = 2" using rt1 p(2) by simp
  have p1: "route (topo r1) = Inr plan" using p(1) t1 by simp
  then obtain r2 rt2 where b: "acquire_route r1 (SInt 7) = (r2, Inr rt2)"
    using pin by (auto simp: acquire_route_def Let_def)
  have i: "1 < length plan" using p(2) by simp
  have "rt1 ! 1 \<in> set (snd (plan ! 1))" using session_route_in [OF p(1) i] rt1 by simp
  then have "node_id (rt2 ! 1) = map node_id rt1 ! 1"
    using rehomed_session_keeps_holders [OF ok1 pin b p1 i] len by (auto split: if_splits)
  then show ?thesis using a b len by auto
qed

subsection \<open>Paid work and settlement\<close>

text \<open>The servers' shares: rounded down, the last one takes the rest.\<close>

definition work_shares :: "int \<Rightarrow> int list \<Rightarrow> int list" where
  "work_shares pool ws =
     (let tot = sum_list ws; fl = map (\<lambda>w. pool * w div tot) (butlast ws)
      in fl @ [pool - sum_list fl])"

definition credit :: "(string, int) dict \<Rightarrow> string \<times> int \<Rightarrow> (string, int) dict" where
  "credit acc = (\<lambda>(nid, x). dset nid (dget acc nid 0 + x) acc)"

lemma split_pool_credits:
  "ws \<noteq> [] \<Longrightarrow> split_pool pool tot assigned ws acc =
     foldl credit acc (zip (map fst ws) (map (\<lambda>w. pool * w div tot) (butlast (map snd ws))
       @ [pool - assigned - sum_list (map (\<lambda>w. pool * w div tot) (butlast (map snd ws)))]))"
  by (induction pool tot assigned ws acc rule: split_pool.induct)
    (simp_all add: credit_def Let_def algebra_simps)

lemma sum_dset_dget:
  "dict_ok d \<Longrightarrow> sum_list (map snd (dset k (dget d k 0 + x) d)) = sum_list (map snd d) + (x :: int)"
proof (induction d)
  case Nil
  then show ?case by (simp add: dget_def)
next
  case (Cons p d)
  show ?case
  proof (cases "fst p = k")
    case True
    then show ?thesis by (cases p) (simp add: dget_def)
  next
    case False
    then have "dget (p # d) k 0 = dget d k 0" by (cases p) (simp add: dget_def)
    with False Cons show ?thesis by (cases p) simp
  qed
qed

lemma credit_sum:
  "dict_ok acc \<Longrightarrow> sum_list (map snd (foldl credit acc xs)) = sum_list (map snd acc) + sum_list (map snd xs)"
  by (induction xs arbitrary: acc) (auto simp: credit_def sum_dset_dget)

lemma credit_dget:
  "dget (foldl credit acc xs) nid 0 =
     dget acc nid 0 + sum_list (map snd (filter (\<lambda>(k, x). k = nid) xs))"
  by (induction xs arbitrary: acc) (auto simp: credit_def dict_simps)

lemma length_work_shares: "ws \<noteq> [] \<Longrightarrow> length (work_shares pool ws) = length ws"
  by (simp add: work_shares_def Let_def)

lemma sum_work_shares: "sum_list (work_shares pool ws) = pool"
  by (simp add: work_shares_def Let_def)

lemma sum_floors:
  assumes "0 < (tot :: int)"
  shows "sum_list (map (\<lambda>w. pool * w div tot) ws) * tot \<le> pool * sum_list ws \<and>
    pool * sum_list ws \<le> sum_list (map (\<lambda>w. pool * w div tot) ws) * tot + int (length ws) * (tot - 1)"
proof (induction ws)
  case Nil
  then show ?case by simp
next
  case (Cons w ws)
  define q where "q = pool * w div tot"
  define k where "k = pool * w mod tot"
  define S where "S = sum_list (map (\<lambda>w. pool * w div tot) ws)"
  have "pool * w = q * tot + k" by (simp add: q_def k_def)
  moreover have "0 \<le> k" "k \<le> tot - 1" using assms by (simp_all add: k_def)
  moreover have "S * tot \<le> pool * sum_list ws"
      "pool * sum_list ws \<le> S * tot + int (length ws) * (tot - 1)" using Cons by (simp_all add: S_def)
  ultimately have "(q + S) * tot \<le> pool * (w + sum_list ws)"
      "pool * (w + sum_list ws) \<le> (q + S) * tot + (1 + int (length ws)) * (tot - 1)"
    by (simp_all add: distrib_left distrib_right)
  then show ?case by (simp add: q_def S_def)
qed

lemma work_shares_bounds:
  assumes tot: "0 < sum_list ws" and i: "i < length ws"
  shows "pool * (ws ! i) div sum_list ws \<le> work_shares pool ws ! i \<and>
    work_shares pool ws ! i \<le> pool * (ws ! i) div sum_list ws + (int (length ws) - 1)"
proof (cases "i < length ws - 1")
  case True
  then have "work_shares pool ws ! i = pool * (ws ! i) div sum_list ws"
    by (simp add: work_shares_def Let_def nth_append nth_butlast)
  then show ?thesis using i by (cases ws) simp_all
next
  case False
  let ?T = "sum_list ws"
  let ?fl = "\<lambda>ws. sum_list (map (\<lambda>w. pool * w div ?T) ws)"
  have ne: "ws \<noteq> []" using i by auto
  have "i = length ws - 1" using False i by simp
  then have last: "ws ! i = last ws" using ne by (simp add: last_conv_nth)
  have eq: "?fl ws = ?fl (butlast ws) + pool * last ws div ?T"
  proof -
    have "map (\<lambda>w. pool * w div ?T) ws = map (\<lambda>w. pool * w div ?T) (butlast ws @ [last ws])"
      using ne by simp
    then show ?thesis by (simp only: map_append sum_list_append) simp
  qed
  have b: "?fl ws * ?T \<le> pool * ?T" "pool * ?T \<le> ?fl ws * ?T + int (length ws) * (?T - 1)"
    using sum_floors [OF tot, of pool ws] by simp_all
  then have lo: "?fl ws \<le> pool" using tot by simp
  have "(pool - ?fl ws) * ?T \<le> int (length ws) * (?T - 1)" using b(2) by (simp add: algebra_simps)
  also have "\<dots> < int (length ws) * ?T"
    by (rule mult_strict_left_mono) (use i in \<open>simp, linarith\<close>)
  finally have hi: "pool - ?fl ws < int (length ws)" using tot by simp
  have "work_shares pool ws ! i = pool - ?fl (butlast ws)"
    using False i by (simp add: work_shares_def Let_def nth_append)
  then show ?thesis using lo hi eq last by simp
qed

text \<open>C28. One paid request with positive work in total: the pool (payment less fee) is credited exactly, nothing lost to
  rounding; each server gets its \<open>layers * tokens\<close> share rounded down, and at most one raw unit
  per other server more (the rounding remainder, given to the last one).  A request without
  positive work in total credits nobody and leaves the registry as it was.\<close>

theorem paid_work_conserved:
  assumes d: "dict_ok (accrued r)"
    and ws: "ws = map (\<lambda>(nid, layers, tokens). layers * tokens) work"
    and pool: "pool = paid - paid * fee_bps r div 10000"
  shows "if sum_list ws \<le> 0 then record_work r work paid = r
    else sum_list (map snd (accrued (record_work r work paid))) = sum_list (map snd (accrued r)) + pool \<and>
    length (work_shares pool ws) = length work \<and>
    (\<forall>nid. dget (accrued (record_work r work paid)) nid 0 = dget (accrued r) nid 0 +
       sum_list (map snd (filter (\<lambda>(k, x). k = nid) (zip (map fst work) (work_shares pool ws))))) \<and>
    (\<forall>i < length work. pool * (ws ! i) div sum_list ws \<le> work_shares pool ws ! i \<and>
       work_shares pool ws ! i \<le> pool * (ws ! i) div sum_list ws + (int (length work) - 1)) \<and>
    dict_ok (accrued (record_work r work paid))"
proof (cases "sum_list ws \<le> 0")
  case True
  have "map snd (map (\<lambda>(nid, layers, tokens). (nid, layers * tokens)) work) = ws" unfolding ws by auto
  then show ?thesis using True by (simp add: record_work_def Let_def)
next
  case False
  then have tot: "0 < sum_list ws" by simp
  let ?w = "map (\<lambda>(nid, layers, tokens). (nid, layers * tokens)) work"
  have ne: "?w \<noteq> []" using tot ws by auto
  have fst: "map fst ?w = map fst work" and snd: "map snd ?w = ws" unfolding ws by auto
  have len: "length ws = length work" by (simp add: ws)
  have acc: "accrued (record_work r work paid) = foldl credit (accrued r) (zip (map fst work) (work_shares pool ws))"
    using tot ne split_pool_credits [OF ne, of pool "sum_list ws" 0 "accrued r"]
    unfolding record_work_def Let_def fst snd by (simp add: pool protocol_fee_def work_shares_def Let_def)
  have lw: "length (work_shares pool ws) = length work"
    using length_work_shares [of ws pool] len tot by fastforce
  have "dict_ok acc \<Longrightarrow> dict_ok (foldl credit acc xs)" for acc xs
    by (induction xs arbitrary: acc) (auto simp: credit_def)
  then show ?thesis
    using credit_sum [OF d] credit_dget work_shares_bounds [OF tot] lw len d
    by (simp add: acc sum_work_shares False)
qed

lemma paid_work_conserved_witness:
  "sum_list (map snd (accrued (record_work demo_registry [(''a'', 3, 10), (''b'', 7, 10)] 1000))) = 900"
proof -
  have "sum_list (map snd (accrued (record_work demo_registry [(''a'', 3, 10), (''b'', 7, 10)] 1000)))
      = sum_list (map snd (accrued demo_registry)) + 900"
    using paid_work_conserved [of demo_registry "[30, 70]" "[(''a'', 3, 10), (''b'', 7, 10)]" 900 1000]
    by (simp add: demo_registry_def mk_registry_def load_state_def Let_def)
  then show ?thesis by (simp add: demo_registry_def mk_registry_def load_state_def Let_def)
qed

text \<open>A settlement pays out exactly what it zeroes: the batch total is what the accrued total
  drops by, every line is the full balance of a node with a wallet at or above the threshold,
  smaller balances and nodes without a wallet roll over untouched, and settling again at once
  pays nothing more.\<close>

theorem settlement_conserved:
  assumes "dict_ok (accrued r)" and "settle r m = (r', batch)"
  shows "sum_list (map snd (accrued r)) = sum_list (map snd (accrued r')) + sum_list (map snd batch) \<and>
    batch = map (\<lambda>(nid, amount). (dget (wallets r) nid [], amount))
      (filter (\<lambda>(nid, amount). m \<le> amount \<and> dget (wallets r) nid [] \<noteq> []) (accrued r)) \<and>
    (\<forall>nid. map_of (accrued r') nid = map_option
       (\<lambda>amount. if m \<le> amount \<and> dget (wallets r) nid [] \<noteq> [] then 0 else amount) (map_of (accrued r) nid)) \<and>
    (0 < m \<longrightarrow> snd (settle r' m) = [])"
proof -
  let ?f = "\<lambda>nid amount. if payable r m (nid, amount) then 0 else amount"
  have acc: "accrued r' = map (\<lambda>(nid, amount). (nid, ?f nid amount)) (accrued r)"
    and b: "batch = map (\<lambda>(nid, amount). (dget (wallets r) nid [], amount)) (filter (payable r m) (accrued r))"
    and w: "wallets r' = wallets r"
    using assms(2) by (auto simp: settle_def Let_def)
  have "sum_list (map snd xs) = sum_list (map snd (map (\<lambda>(nid, amount). (nid, ?f nid amount)) xs)) +
      sum_list (map snd (map (\<lambda>(nid, amount). (dget (wallets r) nid [], amount)) (filter (payable r m) xs)))"
    for xs by (induction xs) auto
  then have "sum_list (map snd (accrued r)) = sum_list (map snd (accrued r')) + sum_list (map snd batch)"
    unfolding acc b .
  moreover have "map_of (accrued r') nid = map_option (?f nid) (map_of (accrued r) nid)" for nid
    unfolding acc by (rule map_of_map_snd)
  moreover have "0 < m \<Longrightarrow> filter (payable r' m) (accrued r') = []"
    unfolding acc by (auto simp: filter_empty_conv payable_def has_wallet_def w split: if_splits)
  ultimately show ?thesis using b
    by (simp add: payable_def has_wallet_def settle_def Let_def)
qed

lemma settlement_conserved_witness:
  "let r = demo_registry\<lparr>accrued := [(''a'', 270), (''b'', 5)], wallets := [(''a'', ''W'')]\<rparr>;
       (r', batch) = settle r 100
   in batch = [(''W'', 270)] \<and> sum_list (map snd (accrued r')) = 5"
proof -
  let ?r = "demo_registry\<lparr>accrued := [(''a'', 270), (''b'', 5)], wallets := [(''a'', ''W'')]\<rparr>"
  obtain r' batch where s: "settle ?r 100 = (r', batch)" by (cases "settle ?r 100")
  have "batch = [(''W'', 270)]" and "sum_list (map snd (accrued r')) + sum_list (map snd batch) = 275"
    using settlement_conserved [OF _ s] by (auto simp: dget_def)
  then have "sum_list (map snd (accrued r')) = 5" by simp
  then show ?thesis using s \<open>batch = _\<close> by simp
qed

subsection \<open>Admission, bans and restarts\<close>

lemma banned_step: "nid \<in> set (banned r) \<Longrightarrow> nid \<in> set (banned (reg_step r e))"
proof (cases e)
  case (RRegister n now pr)
  then show "nid \<in> set (banned r) \<Longrightarrow> ?thesis"
    by (simp add: reg_register_def admit_def Let_def split_beta split: sum.split option.split)
next
  case (RCheck n ok pa sm)
  then show "nid \<in> set (banned r) \<Longrightarrow> ?thesis"
    by (simp add: reg_record_check_def Let_def split_beta)
qed (simp_all add: reg_heartbeat_def reg_drain_def reg_mark_ready_def reg_mark_suspect_def
    reg_set_trusted_def reg_set_rtt_def tick_def acquire_route_def release_route_def acquire_entry_def
    release_entry_def record_work_def settle_def Let_def split_beta split: sum.split option.split)

text \<open>The state file never loses a ban that reached it.\<close>

definition ban_on_disk :: "registry \<Rightarrow> string \<Rightarrow> bool" where
  "ban_on_disk r nid \<longleftrightarrow> nid \<in> set (banned r) \<and> (case disk r of None \<Rightarrow> False | Some s \<Rightarrow> nid \<in> set (sv_banned s))"

lemma ban_on_disk_save: "nid \<in> set (banned r) \<Longrightarrow> state_path r \<noteq> [] \<Longrightarrow> disk_ok r \<Longrightarrow>
    ban_on_disk (save_state r) nid"
  by (simp add: ban_on_disk_def save_state_def)

lemma disk_save_cases: "disk (save_state r) = disk r \<or>
    (\<exists>s. disk (save_state r) = Some s \<and> set (sv_banned s) = set (banned r))"
  by (auto simp: save_state_def)

lemma ban_on_disk_saved: "ban_on_disk r nid \<Longrightarrow> set (banned r) \<subseteq> set (banned q) \<Longrightarrow> disk q = disk r \<Longrightarrow>
    ban_on_disk (save_state q) nid"
  using disk_save_cases [of q] by (auto simp: ban_on_disk_def split: option.splits)

lemma ban_on_disk_same: "ban_on_disk r nid \<Longrightarrow> banned q = banned r \<Longrightarrow> disk q = disk r \<Longrightarrow> ban_on_disk q nid"
  by (simp add: ban_on_disk_def)

lemma ban_on_disk_step: "ban_on_disk r nid \<Longrightarrow> ban_on_disk (reg_step r e) nid"
proof (cases e)
  case (RRegister n now pr)
  then show "ban_on_disk r nid \<Longrightarrow> ?thesis"
    by (auto simp: reg_register_def admit_def Let_def split_beta split: sum.split option.split
        intro!: ban_on_disk_saved [of r] intro: ban_on_disk_same [of r])
next
  case (RCheck n ok pa sm)
  then show "ban_on_disk r nid \<Longrightarrow> ?thesis"
    by (auto simp: reg_record_check_def Let_def split_beta
        intro!: ban_on_disk_saved [of r] intro: ban_on_disk_same [of r])
next
  case (RWork w p)
  then show "ban_on_disk r nid \<Longrightarrow> ?thesis"
    by (auto simp: record_work_def Let_def intro!: ban_on_disk_saved [of r])
next
  case (RSettle m)
  then show "ban_on_disk r nid \<Longrightarrow> ?thesis"
    by (auto simp: settle_def Let_def intro!: ban_on_disk_saved [of r])
qed (simp_all add: ban_on_disk_def reg_heartbeat_def reg_drain_def reg_mark_ready_def reg_mark_suspect_def
    reg_set_trusted_def reg_set_rtt_def tick_def acquire_route_def release_route_def acquire_entry_def
    release_entry_def Let_def split_beta split: sum.splits option.splits)

lemma set_update_set [simp]: "set (set_update xs ys) = set xs \<union> set ys"
  unfolding set_update_def by (induction ys arbitrary: xs) auto

text \<open>C30. The eviction that reaches the limit bans the node for good: whatever the registry does
  afterwards, and also after a restart from the state file, every attempt to register under
  that id is refused with \<open>PermissionError\<close> and changes nothing.\<close>

theorem ban_is_permanent:
  assumes evict: "reg_record_check r nid False pa sm = (r1, Some Evicted)"
    and limit: "ban_after r \<le> dget (eviction_counts r) nid 0 + 1"
    and path: "state_path r \<noteq> []" "disk_ok r"
    and r2: "r2 = foldl reg_step r1 es"
    and r3: "r3 = foldl reg_step (mk_registry t secret cep cw al seeds fee ban (state_path r) (disk r2) ok) fs"
    and n: "node_id n = nid"
  shows "reg_register r2 n now pr = (r2, Inl PermissionError) \<and>
    reg_register r3 n now pr = (r3, Inl PermissionError)"
proof -
  obtain t' where t': "record_check (topo r) nid False pa sm = (t', Some Evicted)"
    using evict by (cases "record_check (topo r) nid False pa sm")
      (auto simp: reg_record_check_def Let_def split: if_splits)
  have r1: "r1 = save_state (r\<lparr>topo := t',
      eviction_counts := dset nid (dget (eviction_counts r) nid 0 + 1) (eviction_counts r),
      banned := List.insert nid (banned r)\<rparr>)"
    using evict limit t' by (simp add: reg_record_check_def Let_def)
  have "ban_on_disk r1 nid" unfolding r1 using path by (intro ban_on_disk_save) simp_all
  then have b2: "ban_on_disk r2 nid" unfolding r2
    by (induction es arbitrary: r1) (simp_all add: ban_on_disk_step)
  then have "nid \<in> set (banned (mk_registry t secret cep cw al seeds fee ban (state_path r) (disk r2) ok))"
    using path by (auto simp: ban_on_disk_def mk_registry_def load_state_def Let_def split: option.splits)
  then have "nid \<in> set (banned r3)" unfolding r3
    by (induction fs rule: rev_induct) (simp_all add: banned_step)
  with b2 n show ?thesis by (simp add: ban_on_disk_def reg_register_def)
qed

lemma ban_is_permanent_witness:
  "\<exists>r1. reg_record_check demo_registry ''a'' False 3 1 = (r1, Some Evicted) \<and>
     snd (reg_register r1 (demo_node ''a'' 4) 50 None) = Inl PermissionError"
proof -
  obtain r1 where r1: "reg_record_check demo_registry ''a'' False 3 1 = (r1, Some Evicted)"
    by (simp add: reg_record_check_def record_check_def check_node_def demo_registry_topo demo_live_eq
        demo_node_def new_node_def Let_def)
  show ?thesis
    using ban_is_permanent [OF r1 _ _ _ foldl_Nil [symmetric] refl, of "demo_node ''a'' 4" 50 None] r1
    by (simp add: demo_registry_def mk_registry_def load_state_def Let_def dget_def demo_node_def new_node_def)
qed

lemma orch_prefix_mod: "orch_prefix s = s mod 2 ^ 15"
proof -
  have "take_bit 15 s = s AND mask 15" by (rule take_bit_eq_mask)
  moreover have "mask 15 = (0x7FFF :: int)" by (simp add: mask_eq_exp_minus_1)
  ultimately show ?thesis by (simp add: orch_prefix_def take_bit_eq_mod)
qed

text \<open>What an admitted node is told is what the registry stored: it was neither banned nor off
  the allowlist; its key is the HMAC of its id under the master secret, returned and recorded;
  it is JOINING, and trusted exactly when it is a seed node (or came marked trusted); an
  orchestrator gets an index below \<open>2^15\<close> and no layers, any other node the exact layer
  range of the slot its record names.\<close>

theorem admission_contract:
  assumes adm: "reg_register r n now pr = (r', Inr adm)" and wf: "topo_wf (topo r)"
  shows "node_id n \<notin> set (banned r) \<and> (\<forall>al. allowlist r = Some al \<longrightarrow> node_id n \<in> set al) \<and>
    session_key adm = hmac_sha256 (master_secret r) (encode_string (node_id n)) \<and>
    map_of (wallets r') = (map_of (wallets r))(node_id n \<mapsto> payout_wallet n) \<and>
    (\<exists>m. map_of (nodes (topo r')) (node_id n) = Some m \<and> wire_key m = Some (session_key adm) \<and>
       state m = JOINING \<and>
       (trust m = TRUSTED \<longleftrightarrow> trust n = TRUSTED \<or>
          (\<exists>sd. seed_nodes r = Some sd \<and> node_id n \<in> set sd)) \<and>
       (if orchestrator n
        then assignment adm = None \<and> slot m = None \<and> orch_index adm = Some (orch_seq r mod 2 ^ 15) \<and>
          orch_seq r' = orch_seq r + 1
        else orch_index adm = None \<and> (\<exists>i. slot m = Some i \<and> i < length (slots (topo r')) \<and>
          assignment adm = Some (s_start (slots (topo r') ! i), s_end (slots (topo r') ! i)))))"
proof -
  note mask = orch_prefix_mod
  have ok: "node_id n \<notin> set (banned r)" "\<forall>al. allowlist r = Some al \<longrightarrow> node_id n \<in> set al"
    using adm by (auto simp: reg_register_def split: if_splits option.splits)
  let ?m = "\<lambda>n. n\<lparr>wire_key := Some (derive_node_key (master_secret r) (node_id n)),
      trust := (if \<exists>sd. seed_nodes r = Some sd \<and> node_id n \<in> set sd then TRUSTED else trust n)\<rparr>"
  show ?thesis
  proof (cases "orchestrator n")
    case True
    then obtain t where t: "register_orchestrator (topo r) n now = (t, Inr ())"
      and a: "admit (r\<lparr>topo := t, orch_seq := orch_seq r + 1\<rparr>) n None (Some (orch_prefix (orch_seq r))) = (r', adm)"
      using adm True by (cases "register_orchestrator (topo r) n now")
        (auto simp: reg_register_def split: prod.splits if_splits option.splits sum.splits)
    have "map_of (nodes t) (node_id n) = Some (n\<lparr>slot := None, orchestrator := True, state := JOINING, last_hb := now\<rparr>)"
      using t by (auto simp: register_orchestrator_def Let_def dict_simps split: if_splits)
    with a ok True mask show ?thesis
      by (auto simp: admit_def Let_def dict_simps derive_node_key_def set_trusted_def split: option.splits if_splits)
  next
    case False
    then obtain t s where t: "register (topo r) n now pr = (t, Inr s)"
      and a: "admit (r\<lparr>topo := t\<rparr>) n (Some (s_start s, s_end s)) None = (r', adm)"
      using adm False by (cases "register (topo r) n now pr")
        (auto simp: reg_register_def split: prod.splits if_splits option.splits sum.splits)
    have si: "s_index s < length (slots t)" "slots t ! s_index s = s"
      and m: "map_of (nodes t) (node_id n) = Some (n\<lparr>slot := Some (s_index s), state := JOINING, last_hb := now\<rparr>)"
      using register_success [OF wf t] by (simp_all add: dict_simps)
    from a ok False si m show ?thesis
      by (auto simp: admit_def Let_def dict_simps derive_node_key_def set_trusted_def split: option.splits if_splits)
  qed
qed

lemma admission_contract_witness:
  "\<exists>r' adm. reg_register demo_registry ((demo_node ''o'' 0)\<lparr>orchestrator := True\<rparr>) 5 None = (r', Inr adm) \<and>
     orch_index adm = Some 0"
proof -
  let ?n = "(demo_node ''o'' 0)\<lparr>orchestrator := True\<rparr>"
  obtain r' adm where a: "reg_register demo_registry ?n 5 None = (r', Inr adm)"
    by (simp add: reg_register_def register_orchestrator_def demo_registry_def mk_registry_def
        load_state_def demo_live_eq demo_node_def new_node_def demo_topology_def mk_topology_def Let_def
        split_beta)
  have "topo_wf (topo demo_registry)" using demo_registry_ok by (simp add: registry_ok_def)
  from admission_contract [OF a this] have "orch_index adm = Some (orch_seq demo_registry mod 2 ^ 15)"
    by (simp add: demo_node_def new_node_def) blast
  with a show ?thesis by (simp add: demo_registry_def mk_registry_def load_state_def Let_def)
qed

lemma dict_update_append: "dict_ok e \<Longrightarrow> set (map fst d) \<inter> set (map fst e) = {} \<Longrightarrow> dict_update d e = d @ e"
proof (induction e arbitrary: d)
  case Nil
  then show ?case by (simp add: dict_update_def)
next
  case (Cons p e)
  obtain k v where p: "p = (k, v)" by (cases p)
  have "k \<notin> fst ` set d" using Cons.prems(2) p by auto
  then have "dset k v d = d @ [(k, v)]" by (induction d) auto
  moreover have "dict_update (d @ [(k, v)]) e = (d @ [(k, v)]) @ e"
    using Cons.prems p by (intro Cons.IH) auto
  ultimately show ?case using p by (simp add: dict_update_def)
qed

lemma dict_update_empty: "dict_ok e \<Longrightarrow> dict_update [] e = e"
  using dict_update_append [of e "[]"] by simp

subsection \<open>Entry orchestrators and audits\<close>

text \<open>The entry node of a session: a READY orchestrator with the least load, ties by id.\<close>

lemma acquire_entry_least:
  assumes "acquire_entry r session = (r', Some n)" and "m \<in> snd ` set (nodes (topo r))"
    and "orchestrator m" "state m = READY"
  shows "orchestrator n \<and> state n = READY \<and>
    (dget (entry_load (release_entry r session)) (node_id n) 0, node_id n)
      \<le> (dget (entry_load (release_entry r session)) (node_id m) 0, node_id m)"
proof -
  let ?r = "release_entry r session"
  let ?c = "filter (\<lambda>n. orchestrator n \<and> state n = READY) (map snd (nodes (topo ?r)))"
  let ?k = "\<lambda>n. (dget (entry_load ?r) (node_id n) 0, node_id n)"
  have t: "topo ?r = topo r" by (simp add: release_entry_def Let_def split: option.split)
  have m: "m \<in> set ?c" using assms(2-4) t by auto
  then have ne: "?c \<noteq> []" by (metis empty_iff empty_set)
  have n: "n = min_by ?k ?c" using assms(1) ne by (simp add: acquire_entry_def Let_def split: if_splits)
  have "n \<in> set ?c" unfolding n using ne by (rule min_by_in)
  moreover have "?k n \<le> ?k m" unfolding n using m by (rule min_by_le)
  ultimately show ?thesis by auto
qed

lemma acquire_entry_None: "snd (acquire_entry r session) = None \<longleftrightarrow>
    \<not> (\<exists>n \<in> snd ` set (nodes (topo r)). orchestrator n \<and> state n = READY)"
proof -
  have "topo (release_entry r session) = topo r"
    by (simp add: release_entry_def Let_def split: option.split)
  then show ?thesis by (auto simp: acquire_entry_def Let_def filter_empty_conv)
qed

text \<open>An audit pairs a probation holder of a slot with a trusted holder of the same slot.\<close>

lemma audit_pairs_sound:
  assumes wf: "topo_wf (topo r)" and pair: "(p, ref, i) \<in> set (audit_pairs r)"
  shows "\<exists>np nr. map_of (nodes (topo r)) p = Some np \<and> map_of (nodes (topo r)) ref = Some nr \<and>
    state np = READY \<and> state nr = READY \<and> trust np = PROBATION \<and> trust nr = TRUSTED \<and>
    slot np = Some i \<and> slot nr = Some i"
proof -
  let ?t = "topo r"
  obtain s where s: "s \<in> set (slots ?t)" "(p, ref, i) \<in> set (slot_pairs ?t s)"
    using pair by (auto simp: audit_pairs_def)
  let ?hs = "holders ?t (s_index s)"
  let ?tr = "filter (\<lambda>n. trust n = TRUSTED) ?hs"
  have ne: "?tr \<noteq> []" and i: "i = s_index s" and ref: "ref = node_id (hd ?tr)"
    using s(2) by (auto simp: slot_pairs_def Let_def split: if_splits)
  obtain np where np: "np \<in> set ?hs" "trust np = PROBATION" "p = node_id np"
    using s(2) by (auto simp: slot_pairs_def Let_def split: if_splits)
  have "hd ?tr \<in> set ?tr" using ne by (rule hd_in_set)
  then have nr: "hd ?tr \<in> set ?hs" "trust (hd ?tr) = TRUSTED" by auto
  have lt: "s_index s < length (slots ?t)" using topo_wf_slot_nth [OF wf s(1)] by simp
  from holders_member [OF wf lt np(1)] holders_member [OF wf lt nr(1)] np nr i ref
  show ?thesis by auto
qed

lemma audit_pairs_complete:
  assumes "s \<in> set (slots (topo r))" and "p \<in> set (holders (topo r) (s_index s))"
    and "trust p = PROBATION" and "n \<in> set (holders (topo r) (s_index s))" and "trust n = TRUSTED"
  shows "\<exists>ref. (node_id p, ref, s_index s) \<in> set (audit_pairs r)"
proof -
  let ?hs = "holders (topo r) (s_index s)"
  have "filter (\<lambda>n. trust n = TRUSTED) ?hs \<noteq> []" "filter (\<lambda>n. trust n = PROBATION) ?hs \<noteq> []"
    using assms by (auto simp: filter_empty_conv)
  then show ?thesis using assms
    by (intro exI [of _ "node_id (hd (filter (\<lambda>n. trust n = TRUSTED) ?hs))"])
      (force simp: audit_pairs_def slot_pairs_def Let_def)
qed

text \<open>Fewer than \<open>2^15\<close> calls apart, two orchestrators never get the same session prefix.\<close>

lemma orch_seq_step: "orch_seq r \<le> orch_seq (reg_step r e) \<and> orch_seq (reg_step r e) \<le> orch_seq r + 1"
proof (cases e)
  case (RRegister n now pr)
  then show ?thesis
    by (simp add: reg_register_def admit_def Let_def split_beta split: sum.split option.split)
next
  case (RCheck n ok pa sm)
  then show ?thesis by (simp add: reg_record_check_def Let_def split_beta)
qed (simp_all add: reg_heartbeat_def reg_drain_def reg_mark_ready_def reg_mark_suspect_def
    reg_set_trusted_def reg_set_rtt_def tick_def acquire_route_def release_route_def acquire_entry_def
    release_entry_def record_work_def settle_def Let_def split_beta split: sum.split option.split)

lemma orch_seq_run:
  "orch_seq r \<le> orch_seq (foldl reg_step r es) \<and> orch_seq (foldl reg_step r es) \<le> orch_seq r + int (length es)"
proof (induction es rule: rev_induct)
  case Nil
  then show ?case by simp
next
  case (snoc e es)
  then show ?case using orch_seq_step [of "foldl reg_step r es" e] by simp
qed

lemma prefix_distinct: "a < b \<Longrightarrow> b < a + 2 ^ 15 \<Longrightarrow> orch_prefix a \<noteq> orch_prefix b"
proof
  assume ab: "a < b" "b < a + 2 ^ 15" and "orch_prefix a = orch_prefix b"
  then have "(b - a) mod 2 ^ 15 = 0" unfolding orch_prefix_mod by (metis diff_self mod_0 mod_diff_eq)
  moreover have "(b - a) mod 2 ^ 15 = b - a" using ab by (intro mod_pos_pos_trivial) simp_all
  ultimately show False using ab by simp
qed

subsection \<open>Restarts\<close>

text \<open>What a restart has to bring back, and that the state file has it.\<close>

definition durable ::
  "registry \<Rightarrow> (string, int) dict \<times> (string, string) dict \<times> (string, int) dict \<times> string set \<times> int" where
  "durable r = (accrued r, wallets r, eviction_counts r, set (banned r), orch_seq r)"

definition file_holds ::
  "saved_state option \<Rightarrow> (string, int) dict \<times> (string, string) dict \<times> (string, int) dict \<times> string set \<times> int \<Rightarrow> bool" where
  "file_holds file d \<longleftrightarrow> d = (case file of None \<Rightarrow> ([], [], [], {}, 0)
     | Some s \<Rightarrow> (sv_accrued s, sv_wallets s, sv_evictions s, set (sv_banned s), sv_orch_seq s))"

text \<open>A JSON object names no key twice.\<close>

definition file_ok :: "saved_state option \<Rightarrow> bool" where
  "file_ok file \<longleftrightarrow> (case file of None \<Rightarrow> True
     | Some s \<Rightarrow> dict_ok (sv_accrued s) \<and> dict_ok (sv_wallets s) \<and> dict_ok (sv_evictions s))"

definition state_synced :: "registry \<Rightarrow> bool" where
  "state_synced r \<longleftrightarrow> state_path r \<noteq> [] \<and> disk_ok r \<and> file_ok (disk r) \<and> file_holds (disk r) (durable r)"

lemma state_synced_dicts: "state_synced r \<Longrightarrow> dict_ok (accrued r) \<and> dict_ok (wallets r) \<and> dict_ok (eviction_counts r)"
  by (auto simp: state_synced_def file_ok_def file_holds_def durable_def split: option.splits)

lemma state_synced_save:
  "state_path r \<noteq> [] \<Longrightarrow> disk_ok r \<Longrightarrow> dict_ok (accrued r) \<Longrightarrow> dict_ok (wallets r) \<Longrightarrow> dict_ok (eviction_counts r) \<Longrightarrow>
     state_synced (save_state r)"
  by (simp add: state_synced_def save_state_def file_ok_def file_holds_def durable_def)

lemma state_synced_same:
  "state_synced r \<Longrightarrow> durable q = durable r \<Longrightarrow> disk q = disk r \<Longrightarrow> state_path q = state_path r \<Longrightarrow> disk_ok q = disk_ok r \<Longrightarrow>
     state_synced q"
  by (simp add: state_synced_def)

lemma dict_ok_split_pool: "dict_ok acc \<Longrightarrow> dict_ok (split_pool pool tot given ws acc)"
  by (induction pool tot given ws acc rule: split_pool.induct) (simp_all add: Let_def)

lemma dict_ok_settled: "dict_ok d \<Longrightarrow> dict_ok (map (\<lambda>(k, v). (k, f k v)) d)"
proof -
  have "map fst (map (\<lambda>(k, v). (k, f k v)) d) = map fst d" by auto
  then show "dict_ok d \<Longrightarrow> dict_ok (map (\<lambda>(k, v). (k, f k v)) d)" by (simp only:)
qed

lemma state_synced_step: "state_synced r \<Longrightarrow> state_synced (reg_step r e)"
proof -
  assume r: "state_synced r"
  then have p: "state_path r \<noteq> []" "disk_ok r" by (simp_all add: state_synced_def)
  note d = state_synced_dicts [OF r] and same = state_synced_same [OF r]
  show ?thesis
  proof (cases e)
    case (RRegister n now pr)
    then show ?thesis using p d
      by (auto simp: reg_register_def admit_def Let_def split_beta durable_def split: sum.split option.split
          intro!: state_synced_save intro: same)
  next
    case (RCheck n ok pa sm)
    then show ?thesis using p d
      by (auto simp: reg_record_check_def Let_def split_beta durable_def intro!: state_synced_save intro: same)
  next
    case (RWork w paid)
    then show ?thesis using p d r dict_ok_split_pool
      by (auto simp: record_work_def Let_def intro!: state_synced_save)
  next
    case (RSettle m)
    then show ?thesis using p d dict_ok_settled [of "accrued r"]
      by (auto simp: settle_def Let_def intro!: state_synced_save)
  qed (auto simp: reg_heartbeat_def reg_drain_def reg_mark_ready_def reg_mark_suspect_def
      reg_set_trusted_def reg_set_rtt_def tick_def acquire_route_def release_route_def acquire_entry_def
      release_entry_def durable_def Let_def split_beta split: sum.splits option.splits intro!: same)
qed

text \<open>The life of a control plane: calls, and restarts over the file it left, with whatever topology,
  secrets and configuration the new process is given.\<close>

datatype life_event =
    Call reg_event
  | Restart topology bytes "string \<times> int" string "string list option" "string list option" int int

fun life_step :: "registry \<Rightarrow> life_event \<Rightarrow> registry" where
  "life_step r (Call e) = reg_step r e"
| "life_step r (Restart t secret cep cw al seeds fee ban) =
     mk_registry t secret cep cw al seeds fee ban (state_path r) (disk r) True"

lemma started_durable:
  assumes "path \<noteq> []" and "file_ok file" and "r = mk_registry t secret cep cw al seeds fee ban path file True"
  shows "state_synced r \<and> file_holds file (durable r)"
  using assms
  by (cases "file") (simp_all add: mk_registry_def load_state_def Let_def state_synced_def file_ok_def file_holds_def durable_def dict_update_empty)

lemma restart_durable:
  assumes "state_synced r" and "r2 = mk_registry t secret cep cw al seeds fee ban (state_path r) (disk r) True"
  shows "state_synced r2 \<and> durable r2 = durable r"
  using started_durable [OF _ _ assms(2)] assms(1) by (auto simp: state_synced_def file_holds_def split: option.splits)

lemma life_state_synced: "state_synced r \<Longrightarrow> state_synced (foldl life_step r es)"
proof (induction es rule: rev_induct)
  case (snoc e es)
  then show ?case by (cases e) (simp_all add: state_synced_step restart_durable)
qed simp

lemma life_orch_seq:
  "state_synced r \<Longrightarrow> orch_seq r \<le> orch_seq (foldl life_step r es) \<and> orch_seq (foldl life_step r es) \<le> orch_seq r + int (length es)"
proof (induction es rule: rev_induct)
  case (snoc e es)
  let ?q = "foldl life_step r es"
  have "orch_seq ?q \<le> orch_seq (life_step ?q e) \<and> orch_seq (life_step ?q e) \<le> orch_seq ?q + 1"
  proof (cases e)
    case (Call c)
    then show ?thesis using orch_seq_step by simp
  next
    case Restart
    then show ?thesis using restart_durable [OF life_state_synced [OF snoc.prems] refl] by (simp add: durable_def)
  qed
  then show ?case using snoc by simp
qed simp

lemma orch_admission:
  "reg_register r n now pr = (r', Inr adm) \<Longrightarrow> orchestrator n \<Longrightarrow>
     orch_index adm = Some (orch_prefix (orch_seq r)) \<and> orch_seq r' = orch_seq r + 1"
  by (auto simp: reg_register_def admit_def Let_def split: if_splits option.splits sum.splits prod.splits)

text \<open>C31. In every state a control plane with a writable state file reaches, through any calls and any
  number of restarts, the file is up to date: a restart at that point, with whatever configuration,
  owes the same balances to the same wallets, remembers the same evictions and bans, and continues
  the orchestrator counter.  So two orchestrators admitted in such a life never get the same session
  prefix unless at least \<open>2^15 - 1\<close> calls and restarts lie between them, restarts included.\<close>

theorem restart_keeps_durable_state:
  assumes path: "path \<noteq> []" and fl: "file_ok file"
    and r: "r = foldl life_step (mk_registry t secret cep cw al seeds fee ban path file True) es"
  shows "durable (mk_registry t' secret' cep' cw' al' seeds' fee' ban' (state_path r) (disk r) True) = durable r \<and>
    (reg_register r n now pr = (r1, Inr adm) \<and> orchestrator n \<and> length fs < 2 ^ 15 - 1 \<and>
     reg_register (foldl life_step r1 fs) n' now' pr' = (r3, Inr adm') \<and> orchestrator n' \<longrightarrow>
     orch_index adm \<noteq> None \<and> orch_index adm' \<noteq> None \<and> orch_index adm \<noteq> orch_index adm')"
proof (intro conjI impI)
  have s: "state_synced r" unfolding r using started_durable [OF path fl refl] by (intro life_state_synced) blast
  then show "durable (mk_registry t' secret' cep' cw' al' seeds' fee' ban' (state_path r) (disk r) True) = durable r"
    using restart_durable [OF s refl] by blast
  let ?q = "foldl life_step r1 fs"
  assume a: "reg_register r n now pr = (r1, Inr adm) \<and> orchestrator n \<and> length fs < 2 ^ 15 - 1 \<and>
     reg_register ?q n' now' pr' = (r3, Inr adm') \<and> orchestrator n'"
  have s1: "state_synced r1" using state_synced_step [OF s, of "RRegister n now pr"] a by simp
  have i: "orch_index adm = Some (orch_prefix (orch_seq r))" "orch_seq r1 = orch_seq r + 1"
    using orch_admission [of r n now pr r1 adm] a by blast+
  have j: "orch_index adm' = Some (orch_prefix (orch_seq ?q))"
    using orch_admission [of ?q n' now' pr' r3 adm'] a by blast
  have "orch_seq r < orch_seq ?q" "orch_seq ?q < orch_seq r + 2 ^ 15"
    using life_orch_seq [OF s1, of fs] i(2) a by auto
  then have "orch_prefix (orch_seq r) \<noteq> orch_prefix (orch_seq ?q)" by (rule prefix_distinct)
  then show "orch_index adm \<noteq> None" "orch_index adm' \<noteq> None" "orch_index adm \<noteq> orch_index adm'"
    using i j by simp_all
qed

text \<open>An orchestrator registers, the control plane restarts, another registers.\<close>

definition demo_restart :: life_event where
  "demo_restart = Restart demo_topology [2] (''c'', 1) '''' None None 500 3"

lemma restart_keeps_durable_state_witness:
  "\<exists>r1 adm r3 adm'. reg_register demo_registry ((demo_node ''o'' 0)\<lparr>orchestrator := True\<rparr>) 5 None = (r1, Inr adm) \<and>
     reg_register (life_step r1 demo_restart) ((demo_node ''p'' 0)\<lparr>orchestrator := True\<rparr>) 6 None = (r3, Inr adm') \<and>
     orch_index adm \<noteq> orch_index adm'"
proof -
  let ?o = "(demo_node ''o'' 0)\<lparr>orchestrator := True\<rparr>" and ?p = "(demo_node ''p'' 0)\<lparr>orchestrator := True\<rparr>"
  obtain r1 adm where a: "reg_register demo_registry ?o 5 None = (r1, Inr adm)"
    by (simp add: reg_register_def register_orchestrator_def demo_registry_def mk_registry_def
        load_state_def demo_live_eq demo_node_def new_node_def demo_topology_def mk_topology_def Let_def split_beta)
  have banned: "banned r1 = []" "state_synced r1"
  proof -
    have s: "state_synced demo_registry" unfolding demo_registry_def
      by (intro conjunct1 [OF started_durable [OF _ _ refl]]) (simp_all add: file_ok_def)
    show "state_synced r1" using state_synced_step [OF s, of "RRegister ?o 5 None"] a by simp
    show "banned r1 = []" using a
      by (auto simp: reg_register_def register_orchestrator_def demo_registry_def mk_registry_def admit_def save_state_def
          load_state_def demo_live_eq demo_node_def new_node_def demo_topology_def mk_topology_def set_trusted_def Let_def split_beta)
  qed
  have b0: "banned (life_step r1 demo_restart) = []"
  proof -
    have "set (banned (life_step r1 demo_restart)) = set (banned r1)"
      using restart_durable [OF banned(2) refl] by (simp add: demo_restart_def durable_def)
    then show ?thesis using banned(1) by simp
  qed
  have q: "topo (life_step r1 demo_restart) = demo_topology" "allowlist (life_step r1 demo_restart) = None"
    by (simp_all add: demo_restart_def mk_registry_def load_state_def Let_def split: option.splits)
  obtain r3 adm' where b: "reg_register (life_step r1 demo_restart) ?p 6 None = (r3, Inr adm')"
    using b0 q by (simp add: reg_register_def register_orchestrator_def demo_node_def new_node_def demo_topology_def mk_topology_def Let_def split_beta)
  show ?thesis
    using a b restart_keeps_durable_state [of "''state''" None demo_registry demo_live "[1]" "(''coord'', 7000)" "''''" None None 1000 1 "[]"
        _ _ _ _ _ _ _ _ ?o 5 None r1 adm "[demo_restart]" ?p 6 None r3 adm']
    by (auto simp: demo_registry_def file_ok_def demo_node_def new_node_def)
qed

end
