(* ===== verification/Codec.thy ===== *)
theory Codec
  imports Bytes
begin

section \<open>Self-delimiting codecs\<close>

text \<open>
  The interface every wire format of the program is used through: an encoder that may refuse a
  value and a decoder that takes the value off the front of a buffer and returns the rest.
  Sequences of values, injectivity and prefix-freedom follow once.
\<close>

text \<open>Reading \<open>n\<close> values one after the other.\<close>

fun dec_n :: "(bytes \<Rightarrow> ('a \<times> bytes) result) \<Rightarrow> nat \<Rightarrow> bytes \<Rightarrow> ('a list \<times> bytes) result" where
  "dec_n dec 0 bs = Inr ([], bs)"
| "dec_n dec (Suc n) bs =
     bindE (dec bs) (\<lambda>(x, rest). bindE (dec_n dec n rest) (\<lambda>(xs, rest'). Inr (x # xs, rest')))"

locale prefix_codec =
  fixes enc :: "'a \<Rightarrow> bytes result"
    and dec :: "bytes \<Rightarrow> ('a \<times> bytes) result"
    and valid :: "'a \<Rightarrow> bool"
  assumes dec_enc: "valid x \<Longrightarrow> enc x = Inr bs \<Longrightarrow> dec (bs @ rest) = Inr (x, rest)"
begin

lemma enc_inj: "valid x \<Longrightarrow> valid y \<Longrightarrow> enc x = Inr bs \<Longrightarrow> enc y = Inr bs \<Longrightarrow> x = y"
  using dec_enc [of x bs "[]"] dec_enc [of y bs "[]"] by simp

lemma enc_prefix_free:
  "valid x \<Longrightarrow> valid y \<Longrightarrow> enc x = Inr bs \<Longrightarrow> enc y = Inr (bs @ more) \<Longrightarrow> x = y \<and> more = []"
  using dec_enc [of x bs more] dec_enc [of y "bs @ more" "[]"] by simp

lemma dec_all:
  "\<forall>x \<in> set xs. valid x \<Longrightarrow> mapE enc xs = Inr bss \<Longrightarrow> dec_n dec (length xs) (concat bss @ rest) = Inr (xs, rest)"
proof (induction xs arbitrary: bss)
  case Nil
  then show ?case by simp
next
  case (Cons x xs)
  then obtain b bss' where b: "enc x = Inr b" "mapE enc xs = Inr bss'" "bss = b # bss'"
    by (auto simp: bindE_Inr_iff)
  then show ?case using Cons dec_enc [of x b "concat bss' @ rest"] by simp
qed

end

text \<open>An unsigned big-endian field.\<close>

definition dec_uint :: "nat \<Rightarrow> bytes \<Rightarrow> (int \<times> bytes) result" where
  "dec_uint n bs = bindE (unpack_uint n (take n bs)) (\<lambda>v. Inr (v, drop n bs))"

interpretation uint_field: prefix_codec "pack_uint n" "dec_uint n" "\<lambda>_. True" for n
proof
  fix v bs and rest :: bytes
  assume "pack_uint n v = Inr bs"
  then have "length bs = n" "unpack_uint n bs = Inr v" using unpack_pack_uint by blast+
  then show "dec_uint n (bs @ rest) = Inr (v, rest)" by (simp add: dec_uint_def)
qed

end
