(* ===== verification/Tensors.thy ===== *)
theory Tensors
  imports Codec
begin

section \<open>Tensor and activation payloads\<close>

text \<open>
  \<open>engine/tensors.py\<close>.  A tensor is its dtype, its shape and its contiguous bytes; every dtype
  the wire does not carry is \<open>OtherDtype\<close>.  The conversions \<open>to(torch.int32)\<close> and
  \<open>to(torch.uint8)\<close> are the tensor library's: parameters of the batch and tree packers.  The
  library's own errors are kept: a zero-dimensional tensor cannot be viewed as bytes of another
  size, an empty buffer cannot become a tensor, and a view needs a whole number of elements.
\<close>

datatype dtype = F32 | F16 | BF16 | I32 | I64 | U8 | OtherDtype

record tensor =
  t_dtype :: dtype
  t_shape :: "nat list"
  t_raw :: bytes

fun dtype_code :: "dtype \<Rightarrow> nat option" where
  "dtype_code F32 = Some 1" | "dtype_code F16 = Some 2" | "dtype_code BF16 = Some 3"
| "dtype_code I32 = Some 4" | "dtype_code I64 = Some 5" | "dtype_code U8 = Some 6"
| "dtype_code OtherDtype = None"

definition dtype_of_code :: "nat \<Rightarrow> dtype option" where
  "dtype_of_code c = find (\<lambda>d. dtype_code d = Some c) [F32, F16, BF16, I32, I64, U8]"

fun itemsize :: "dtype \<Rightarrow> nat" where
  "itemsize F32 = 4" | "itemsize F16 = 2" | "itemsize BF16 = 2"
| "itemsize I32 = 4" | "itemsize I64 = 8" | "itemsize U8 = 1" | "itemsize OtherDtype = 1"

definition FLAG_NONE :: int where "FLAG_NONE = 0"
definition FLAG_LAST_STAGE :: int where "FLAG_LAST_STAGE = 1"

definition pack_tensor :: "tensor \<Rightarrow> bytes result" where
  "pack_tensor t =
     (case dtype_code (t_dtype t) of
        None \<Rightarrow> Inl TensorError
      | Some c \<Rightarrow>
          if 255 < length (t_shape t) then Inl TensorError
          else bindE (mapE (\<lambda>d. pack_uint 4 (int d)) (t_shape t)) (\<lambda>dims.
            if t_shape t = [] \<and> itemsize (t_dtype t) \<noteq> 1 then Inl RuntimeError
            else Inr (byte_of c # byte_of (length (t_shape t)) # concat dims @ t_raw t)))"

fun read_dims :: "nat \<Rightarrow> bytes \<Rightarrow> (nat list \<times> bytes) result" where
  "read_dims 0 buf = Inr ([], buf)"
| "read_dims (Suc n) buf =
     bindE (unpack_uint 4 (take 4 buf)) (\<lambda>d.
       bindE (read_dims n (drop 4 buf)) (\<lambda>(ds, rest). Inr (nat d # ds, rest)))"

definition unpack_tensor :: "bytes \<Rightarrow> tensor result" where
  "unpack_tensor buf =
     (case buf of
        code # ndim # body \<Rightarrow>
          (case dtype_of_code (unat code) of
             None \<Rightarrow> Inl TensorError
           | Some dt \<Rightarrow>
               bindE (read_dims (unat ndim) body) (\<lambda>(shape, raw).
                 if raw = [] then Inl ValueError
                 else if length raw mod itemsize dt \<noteq> 0 then Inl RuntimeError
                 else if length raw div itemsize dt \<noteq> prod_list shape then Inl TensorError
                 else Inr \<lparr>t_dtype = dt, t_shape = shape, t_raw = raw\<rparr>))
      | _ \<Rightarrow> Inl TensorError)"

text \<open>\<open>struct.pack(">IIB", \<dots>)\<close> with the two masks.\<close>

definition activation_head :: "int \<Rightarrow> int \<Rightarrow> int \<Rightarrow> bytes result" where
  "activation_head sid position flags =
     bindE (pack_uint 4 (sid mod 2 ^ 32)) (\<lambda>a.
     bindE (pack_uint 4 (position mod 2 ^ 32)) (\<lambda>b.
     bindE (pack_uint 1 flags) (\<lambda>c. Inr (a @ b @ c))))"

definition read_head :: "bytes \<Rightarrow> int \<times> int \<times> int" where
  "read_head p = (be_value (slice 0 4 p), be_value (slice 4 4 p), be_value (slice 8 1 p))"

definition pack_activation :: "int \<Rightarrow> int \<Rightarrow> tensor \<Rightarrow> int \<Rightarrow> bytes result" where
  "pack_activation sid position hidden flags =
     bindE (activation_head sid position flags) (\<lambda>h.
     bindE (pack_tensor hidden) (\<lambda>t. Inr (h @ t)))"

definition unpack_activation :: "bytes \<Rightarrow> (int \<times> int \<times> int \<times> tensor) result" where
  "unpack_activation p =
     (if length p < 9 then Inl TensorError
      else case read_head p of (sid, position, flags) \<Rightarrow>
        bindE (unpack_tensor (drop 9 p)) (\<lambda>h. Inr (sid, position, flags, h)))"

subsection \<open>Length-delimited tensors\<close>

definition pack_sized :: "tensor \<Rightarrow> bytes result" where
  "pack_sized t = bindE (pack_tensor t) (\<lambda>p. bindE (pack_uint 4 (int (length p))) (\<lambda>n. Inr (n @ p)))"

definition unpack_sized :: "bytes \<Rightarrow> (tensor \<times> bytes) result" where
  "unpack_sized buf =
     bindE (unpack_uint 4 (take 4 buf)) (\<lambda>n.
     bindE (unpack_tensor (take (nat n) (drop 4 buf))) (\<lambda>t. Inr (t, drop (nat n) (drop 4 buf))))"

text \<open>The three tensors are packed before the first length is written.\<close>

definition pack_three :: "int \<Rightarrow> int \<Rightarrow> int \<Rightarrow> tensor \<Rightarrow> tensor \<Rightarrow> tensor \<Rightarrow> bytes result" where
  "pack_three sid position flags a b c =
     bindE (mapE pack_tensor [a, b, c]) (\<lambda>_.
     bindE (mapE pack_sized [a, b, c]) (\<lambda>ps.
     bindE (activation_head sid position flags) (\<lambda>h. Inr (h @ concat ps))))"

definition unpack_three :: "bytes \<Rightarrow> (int \<times> int \<times> int \<times> tensor list) result" where
  "unpack_three p =
     (if length p < 9 then Inl TensorError
      else case read_head p of (sid, position, flags) \<Rightarrow>
        bindE (dec_n unpack_sized 3 (drop 9 p)) (\<lambda>(ts, rest). Inr (sid, position, flags, ts)))"

definition pack_batch_activation ::
  "(tensor \<Rightarrow> tensor) \<Rightarrow> (tensor \<Rightarrow> tensor) \<Rightarrow> int \<Rightarrow> int \<Rightarrow> tensor \<Rightarrow> tensor \<Rightarrow> tensor \<Rightarrow> int \<Rightarrow> bytes result" where
  "pack_batch_activation to_i32 to_u8 batch_id position hidden position_ids attention_mask flags =
     pack_three batch_id position flags hidden (to_i32 position_ids) (to_u8 attention_mask)"

definition unpack_batch_activation :: "bytes \<Rightarrow> (int \<times> int \<times> int \<times> tensor list) result" where
  "unpack_batch_activation = unpack_three"

definition pack_tree_activation ::
  "(tensor \<Rightarrow> tensor) \<Rightarrow> int \<Rightarrow> int \<Rightarrow> tensor \<Rightarrow> tensor \<Rightarrow> tensor \<Rightarrow> int \<Rightarrow> bytes result" where
  "pack_tree_activation to_i32 sid position hidden tree_positions tree_parents flags =
     pack_three sid position flags hidden (to_i32 tree_positions) (to_i32 tree_parents)"

definition unpack_tree_activation :: "bytes \<Rightarrow> (int \<times> int \<times> int \<times> tensor list) result" where
  "unpack_tree_activation = unpack_three"

subsection \<open>The tree mask\<close>

text \<open>Python indexing: a negative index counts from the end.\<close>

definition py_index :: "nat \<Rightarrow> int \<Rightarrow> nat option" where
  "py_index n i =
     (if 0 \<le> i \<and> i < int n then Some (nat i)
      else if - int n \<le> i \<and> i < 0 then Some (nat (int n + i)) else None)"

text \<open>The walk from node \<open>a\<close> up its parents, marking the row; \<open>True\<close> is an attended position
  (the additive mask's zero).  It does not end on a cycle: \<open>None\<close>.\<close>

partial_function (option) tree_walk :: "int list \<Rightarrow> nat \<Rightarrow> int \<Rightarrow> bool list \<Rightarrow> bool list result option" where
  "tree_walk parents prefix_len a row =
     (if a = -1 then Some (Inr row)
      else case py_index (length row) (int prefix_len + a) of
             None \<Rightarrow> Some (Inl IndexError)
           | Some j \<Rightarrow>
               (case py_index (length parents) a of
                  None \<Rightarrow> Some (Inl IndexError)
                | Some i \<Rightarrow> tree_walk parents prefix_len (parents ! i) (row[j := True])))"

definition tree_row :: "int list \<Rightarrow> nat \<Rightarrow> nat \<Rightarrow> bool list result option" where
  "tree_row parents prefix_len i =
     tree_walk parents prefix_len (int i)
       (replicate prefix_len True @ replicate (length parents) False)"

fun collect_rows :: "bool list result option list \<Rightarrow> bool list list result option" where
  "collect_rows [] = Some (Inr [])"
| "collect_rows (r # rs) =
     (case r of
        None \<Rightarrow> None
      | Some (Inl e) \<Rightarrow> Some (Inl e)
      | Some (Inr row) \<Rightarrow>
          (case collect_rows rs of
             None \<Rightarrow> None
           | Some (Inl e) \<Rightarrow> Some (Inl e)
           | Some (Inr rows) \<Rightarrow> Some (Inr (row # rows))))"

definition build_tree_mask :: "int list \<Rightarrow> nat \<Rightarrow> bool list list result option" where
  "build_tree_mask parents prefix_len =
     collect_rows (map (tree_row parents prefix_len) [0 ..< length parents])"

end
