(* ===== verification/Tensors_Spec.thy ===== *)
theory Tensors_Spec
  imports Tensors
begin

section \<open>Correctness of the tensor payloads and of the tree mask\<close>

text \<open>
  The packed tensor is a self-delimiting field of the batch and tree frames, the three activation
  frames come back as they were sent, what a receiver accepts has the byte count its shape asks
  for, and the tree mask is the prefix and the ancestor chain of each node.
\<close>

subsection \<open>Packed tensors\<close>

definition tensor_ok :: "tensor \<Rightarrow> bool" where
  "tensor_ok t \<longleftrightarrow> t_raw t \<noteq> [] \<and> length (t_raw t) = itemsize (t_dtype t) * prod_list (t_shape t)"

lemma dtype_of_code_Some: "dtype_of_code c = Some d \<Longrightarrow> dtype_code d = Some c"
  by (auto simp: dtype_of_code_def split: if_splits)

lemma dtype_code_Some: "dtype_code d = Some c \<Longrightarrow> dtype_of_code c = Some d \<and> c < 256"
  by (cases d) (auto simp: dtype_of_code_def)

lemma itemsize_pos [simp]: "0 < itemsize d"
  by (cases d) auto

lemma read_dims_pack:
  "mapE (\<lambda>d. pack_uint 4 (int d)) ds = Inr bss \<Longrightarrow>
     read_dims (length ds) (concat bss @ rest) = Inr (ds, rest)"
proof (induction ds arbitrary: bss)
  case Nil
  then show ?case by simp
next
  case (Cons d ds)
  then obtain b bss' where b: "pack_uint 4 (int d) = Inr b" "bss = b # bss'"
      "mapE (\<lambda>d. pack_uint 4 (int d)) ds = Inr bss'"
    by (auto simp: bindE_Inr_iff)
  have "unpack_uint 4 b = Inr (int d)" "length b = 4" using unpack_pack_uint [OF b(1)] by simp_all
  then show ?case using Cons.IH [OF b(3)] b(2) by simp
qed

lemma read_dims_sound:
  "read_dims n buf = Inr (ds, rest) \<Longrightarrow>
     \<exists>bss. mapE (\<lambda>d. pack_uint 4 (int d)) ds = Inr bss \<and> length ds = n \<and> buf = concat bss @ rest"
proof (induction n arbitrary: buf ds)
  case 0
  then show ?case by simp
next
  case (Suc n)
  obtain d ds' where d: "unpack_uint 4 (take 4 buf) = Inr d" "read_dims n (drop 4 buf) = Inr (ds', rest)"
      "ds = nat d # ds'"
    using Suc.prems by (auto simp: bindE_Inr_iff)
  obtain bss where bss: "mapE (\<lambda>d. pack_uint 4 (int d)) ds' = Inr bss" "length ds' = n"
      "drop 4 buf = concat bss @ rest"
    using Suc.IH [OF d(2)] by blast
  have p: "pack_uint 4 d = Inr (take 4 buf)" by (rule pack_unpack_uint [OF d(1)])
  then have "0 \<le> d" by (auto simp: pack_uint_def split: if_splits)
  then have "pack_uint 4 (int (nat d)) = Inr (take 4 buf)" using p by simp
  then have "mapE (\<lambda>d. pack_uint 4 (int d)) ds = Inr (take 4 buf # bss)" using bss(1) d(3) by simp
  moreover have "buf = concat (take 4 buf # bss) @ rest" using bss(3) append_take_drop_id [of 4 buf] by simp
  moreover have "length ds = Suc n" using bss(2) d(3) by simp
  ultimately show ?case by blast
qed

lemma pack_tensor_Inr: "pack_tensor t = Inr bs \<longleftrightarrow>
    (\<exists>c bss. dtype_code (t_dtype t) = Some c \<and> length (t_shape t) \<le> 255 \<and>
       mapE (\<lambda>d. pack_uint 4 (int d)) (t_shape t) = Inr bss \<and>
       \<not> (t_shape t = [] \<and> itemsize (t_dtype t) \<noteq> 1) \<and>
       bs = byte_of c # byte_of (length (t_shape t)) # concat bss @ t_raw t)"
  by (auto simp: pack_tensor_def bindE_Inr_iff split: option.splits)

lemma unpack_pack_tensor:
  assumes "tensor_ok t" and "pack_tensor t = Inr bs"
  shows "unpack_tensor bs = Inr t"
proof -
  obtain c bss where c: "dtype_code (t_dtype t) = Some c" "length (t_shape t) \<le> 255"
      "mapE (\<lambda>d. pack_uint 4 (int d)) (t_shape t) = Inr bss"
      "bs = byte_of c # byte_of (length (t_shape t)) # concat bss @ t_raw t"
    using assms(2) by (auto simp: pack_tensor_Inr)
  have d: "dtype_of_code c = Some (t_dtype t)" "c < 256" using dtype_code_Some [OF c(1)] by simp_all
  have u: "unat (byte_of c) = c" "unat (byte_of (length (t_shape t))) = length (t_shape t)"
    using d(2) c(2) by (simp_all add: unat_byte_of)
  have m: "length (t_raw t) mod itemsize (t_dtype t) = 0"
      "length (t_raw t) div itemsize (t_dtype t) = prod_list (t_shape t)" "t_raw t \<noteq> []"
    using assms(1) by (simp_all add: tensor_ok_def)
  show ?thesis
    by (simp add: unpack_tensor_def c(4) u d(1) read_dims_pack [OF c(3)] m)
qed

lemma unpack_tensor_Inr:
  assumes "unpack_tensor buf = Inr t"
  shows "tensor_ok t"
    and "t_shape t = [] \<longrightarrow> itemsize (t_dtype t) = 1 \<Longrightarrow> pack_tensor t = Inr buf"
proof -
  obtain code ndim body dt shape raw where b: "buf = code # ndim # body"
      "dtype_of_code (unat code) = Some dt" "read_dims (unat ndim) body = Inr (shape, raw)"
      "raw \<noteq> []" "length raw mod itemsize dt = 0" "length raw div itemsize dt = prod_list shape"
      "t = \<lparr>t_dtype = dt, t_shape = shape, t_raw = raw\<rparr>"
    using assms by (auto simp: unpack_tensor_def bindE_Inr_iff split: list.splits option.splits if_splits)
  show "tensor_ok t"
    using b(4-7) by (auto simp: tensor_ok_def)
  assume nz: "t_shape t = [] \<longrightarrow> itemsize (t_dtype t) = 1"
  obtain bss where bss: "mapE (\<lambda>d. pack_uint 4 (int d)) shape = Inr bss" "length shape = unat ndim"
      "body = concat bss @ raw"
    using read_dims_sound [OF b(3)] by blast
  have "byte_of (unat code) = code" "byte_of (unat ndim) = ndim"
    by (simp_all add: byte_of_def)
  moreover have "unat ndim \<le> 255" using unsigned_less [of ndim, where ?'a = nat] by simp
  ultimately show "pack_tensor t = Inr buf"
    using b nz bss dtype_of_code_Some [OF b(2)] by (auto simp: pack_tensor_Inr)
qed

interpretation sized: prefix_codec pack_sized unpack_sized tensor_ok
proof
  fix t bs and rest :: bytes
  assume t: "tensor_ok t" "pack_sized t = Inr bs"
  obtain p n where p: "pack_tensor t = Inr p" "pack_uint 4 (int (length p)) = Inr n" "bs = n @ p"
    using t(2) by (auto simp: pack_sized_def bindE_Inr_iff)
  have "unpack_uint 4 n = Inr (int (length p))" "length n = 4"
    using unpack_pack_uint [OF p(2)] by simp_all
  then show "unpack_sized (bs @ rest) = Inr (t, rest)"
    using unpack_pack_tensor [OF t(1) p(1)] p(3) by (simp add: unpack_sized_def)
qed

subsection \<open>Frames\<close>

lemma read_activation_head:
  assumes "activation_head sid position flags = Inr h"
  shows "length h = 9 \<and> read_head (h @ rest) = (sid mod 2 ^ 32, position mod 2 ^ 32, flags)"
proof -
  obtain a b c where h: "pack_uint 4 (sid mod 2 ^ 32) = Inr a" "pack_uint 4 (position mod 2 ^ 32) = Inr b"
      "pack_uint 1 flags = Inr c" "h = a @ b @ c"
    using assms by (auto simp: activation_head_def bindE_Inr_iff)
  have l: "length a = 4" "length b = 4" "length c = 1"
    using h(1-3) unpack_pack_uint by blast+
  have v: "be_value a = sid mod 2 ^ 32" "be_value b = position mod 2 ^ 32" "be_value c = flags"
    using h(1-3) by (auto dest!: unpack_pack_uint simp: unpack_uint_def split: if_splits)
  show ?thesis
    using l v by (simp add: read_head_def slice_def h(4))
qed

lemma three_roundtrip:
  assumes "pack_three sid position flags a b c = Inr bs"
    and "tensor_ok a" "tensor_ok b" "tensor_ok c"
  shows "unpack_three bs = Inr (sid mod 2 ^ 32, position mod 2 ^ 32, flags, [a, b, c])"
proof -
  obtain h ps where h: "activation_head sid position flags = Inr h" "mapE pack_sized [a, b, c] = Inr ps"
      "bs = h @ concat ps"
    using assms(1) unfolding pack_three_def bindE_Inr_iff by blast
  have "dec_n unpack_sized (length [a, b, c]) (concat ps @ []) = Inr ([a, b, c], [])"
    by (rule sized.dec_all) (use assms h in auto)
  then have d: "dec_n unpack_sized 3 (concat ps) = Inr ([a, b, c], [])"
    by (simp add: eval_nat_numeral)
  show ?thesis
    using read_activation_head [OF h(1), of "concat ps"] d
    by (simp add: unpack_three_def h(3))
qed
lemma activation_roundtrip:
  assumes "tensor_ok t" and "pack_activation sid position t flags = Inr bs"
  shows "unpack_activation bs = Inr (sid mod 2 ^ 32, position mod 2 ^ 32, flags, t)"
proof -
  obtain h p where h: "activation_head sid position flags = Inr h" "pack_tensor t = Inr p" "bs = h @ p"
    using assms(2) by (auto simp: pack_activation_def bindE_Inr_iff)
  show ?thesis
    using read_activation_head [OF h(1), of p] unpack_pack_tensor [OF assms(1) h(2)]
    by (simp add: unpack_activation_def h(3))
qed

text \<open>C38. An activation comes back as it was sent: the session id and position as 32-bit values, the
  flags byte and the tensor, dtype, shape and bytes; a single-stream, a batch and a tree frame
  alike, the position ids and the mask or the parents after their conversion.\<close>

theorem activation_frames_roundtrip:
  assumes "tensor_ok t"
    and "tensor_ok (to_i32 ids)" "tensor_ok (to_u8 msk)" "tensor_ok (to_i32 parents)"
  shows "(pack_activation sid position t flags = Inr bs \<longrightarrow>
           unpack_activation bs = Inr (sid mod 2 ^ 32, position mod 2 ^ 32, flags, t)) \<and>
         (pack_batch_activation to_i32 to_u8 sid position t ids msk flags = Inr bs \<longrightarrow>
           unpack_batch_activation bs =
             Inr (sid mod 2 ^ 32, position mod 2 ^ 32, flags, [t, to_i32 ids, to_u8 msk])) \<and>
         (pack_tree_activation to_i32 sid position t ids parents flags = Inr bs \<longrightarrow>
           unpack_tree_activation bs =
             Inr (sid mod 2 ^ 32, position mod 2 ^ 32, flags, [t, to_i32 ids, to_i32 parents]))"
  using assms activation_roundtrip
  by (simp add: pack_batch_activation_def unpack_batch_activation_def pack_tree_activation_def
       unpack_tree_activation_def three_roundtrip)

definition demo_tensor :: tensor where
  "demo_tensor = \<lparr>t_dtype = I32, t_shape = [1, 2], t_raw = [0, 0, 0, 7, 0, 0, 1, 0]\<rparr>"

theorem activation_frames_roundtrip_witness:
  "\<exists>bs. pack_tree_activation id (- 1) 3 demo_tensor demo_tensor demo_tensor 0 = Inr bs \<and>
        unpack_tree_activation bs = Inr (4294967295, 3, 0, [demo_tensor, demo_tensor, demo_tensor])"
proof -
  have ok: "tensor_ok demo_tensor" by (simp add: tensor_ok_def demo_tensor_def)
  obtain bs where bs: "pack_tree_activation id (- 1) 3 demo_tensor demo_tensor demo_tensor 0 = Inr bs"
    by (simp add: pack_tree_activation_def pack_three_def pack_sized_def pack_tensor_def demo_tensor_def
        pack_uint_def activation_head_def)
  have "id demo_tensor = demo_tensor" by simp
  then show ?thesis
    using activation_frames_roundtrip [of demo_tensor id demo_tensor id demo_tensor demo_tensor "- 1" 3 0 bs] bs ok
    by simp
qed

text \<open>What a receiver accepts as a tensor is one: its byte count is what its dtype and shape ask
  for, and, the multi-byte scalars that the sender cannot build apart, it is byte for byte the
  packing of the tensor it returns, so two different buffers never read as the same tensor.\<close>

theorem accepted_tensor_is_packing:
  assumes "unpack_tensor buf = Inr t"
  shows "tensor_ok t \<and> (t_shape t \<noteq> [] \<or> itemsize (t_dtype t) = 1 \<longrightarrow> pack_tensor t = Inr buf)"
  using unpack_tensor_Inr [OF assms] by blast

theorem accepted_tensor_is_packing_witness:
  "unpack_tensor [4, 2, 0, 0, 0, 1, 0, 0, 0, 2, 0, 0, 0, 7, 0, 0, 1, 0] = Inr demo_tensor \<and>
   pack_tensor demo_tensor = Inr [4, 2, 0, 0, 0, 1, 0, 0, 0, 2, 0, 0, 0, 7, 0, 0, 1, 0]"
proof -
  have u: "unpack_tensor [4, 2, 0, 0, 0, 1, 0, 0, 0, 2, 0, 0, 0, 7, 0, 0, 1, 0] = Inr demo_tensor"
    by code_simp
  show ?thesis
    using accepted_tensor_is_packing [OF u] u by (simp add: demo_tensor_def)
qed

subsection \<open>The tree mask\<close>

text \<open>\<open>b\<close> lies on the walk from \<open>a\<close> up the parent pointers.\<close>

inductive on_walk :: "int list \<Rightarrow> int \<Rightarrow> int \<Rightarrow> bool" for parents where
  here: "on_walk parents a a"
| up: "a \<noteq> -1 \<Longrightarrow> on_walk parents (parents ! nat a) b \<Longrightarrow> on_walk parents a b"

inductive_cases on_walkE: "on_walk parents a b"

lemma on_walk_root: "on_walk parents (- 1) b \<longleftrightarrow> b = - 1"
  by (auto intro: on_walk.intros elim: on_walkE)

lemma on_walk_step: "a \<noteq> -1 \<Longrightarrow> on_walk parents a b \<longleftrightarrow> a = b \<or> on_walk parents (parents ! nat a) b"
  by (auto intro: on_walk.intros elim: on_walkE)

definition parents_ok :: "int list \<Rightarrow> bool" where
  "parents_ok parents \<longleftrightarrow> (\<forall>q \<in> set parents. - 1 \<le> q \<and> q < int (length parents))"

lemma parents_okD: "parents_ok parents \<Longrightarrow> 0 \<le> a \<Longrightarrow> a < int (length parents) \<Longrightarrow>
    - 1 \<le> parents ! nat a \<and> parents ! nat a < int (length parents)"
  by (simp add: parents_ok_def nat_less_iff)

lemma py_index_nonneg: "0 \<le> i \<Longrightarrow> i < int n \<Longrightarrow> py_index n i = Some (nat i)"
  by (simp add: py_index_def)

lemma tree_walk_step:
  assumes "0 \<le> a" "a < int (length parents)" and "length row = p + length parents"
  shows "tree_walk parents p a row = tree_walk parents p (parents ! nat a) (row[p + nat a := True])"
proof -
  have "py_index (length row) (int p + a) = Some (p + nat a)" "py_index (length parents) a = Some (nat a)"
    using assms by (simp_all add: py_index_nonneg nat_add_distrib)
  then show ?thesis using assms(1) by (subst tree_walk.simps) simp
qed

lemma tree_walk_root: "tree_walk parents p (- 1) row = Some (Inr row)"
  by (subst tree_walk.simps) simp

text \<open>What a walk that returns has marked.\<close>

definition walked :: "int list \<Rightarrow> nat \<Rightarrow> int \<Rightarrow> bool list \<Rightarrow> bool list \<Rightarrow> bool" where
  "walked parents p a row row' \<longleftrightarrow> length row' = length row \<and>
     (\<forall>j < length row. row' ! j \<longleftrightarrow> row ! j \<or> (p \<le> j \<and> on_walk parents a (int (j - p))))"

definition walk_result :: "int list \<Rightarrow> nat \<Rightarrow> int \<Rightarrow> bool list \<Rightarrow> bool list result \<Rightarrow> bool" where
  "walk_result parents p a row r \<longleftrightarrow>
     (parents_ok parents \<and> - 1 \<le> a \<and> a < int (length parents) \<and> length row = p + length parents \<longrightarrow>
      on_walk parents a (- 1) \<and> (\<exists>row'. r = Inr row' \<and> walked parents p a row row'))"

lemma tree_walk_returns_only: "tree_walk parents p a row = Some r \<Longrightarrow> walk_result parents p a row r"
proof (rule tree_walk.raw_induct [of walk_result parents p a row r, rotated])
  fix walk parents p a row r
  assume IH: "\<And>parents p a row r. walk parents p a row = Some r \<Longrightarrow> walk_result parents p a row r"
    and body: "(if a = - 1 then Some (Inr row)
          else case py_index (length row) (int p + a) of None \<Rightarrow> Some (Inl IndexError)
               | Some j \<Rightarrow> (case py_index (length parents) a of None \<Rightarrow> Some (Inl IndexError)
                   | Some i \<Rightarrow> walk parents p (parents ! i) (row[j := True]))) = Some r"
  show "walk_result parents p a row r"
    unfolding walk_result_def
  proof (intro impI, elim conjE)
    assume ok: "parents_ok parents" "- 1 \<le> a" "a < int (length parents)" "length row = p + length parents"
    show "on_walk parents a (- 1) \<and> (\<exists>row'. r = Inr row' \<and> walked parents p a row row')"
    proof (cases "a = - 1")
      case True
      then show ?thesis using body
        by (auto simp: walked_def on_walk_root intro: on_walk.here)
    next
      case False
      then have a: "0 \<le> a" using ok(2) by simp
      have i: "py_index (length row) (int p + a) = Some (p + nat a)" "py_index (length parents) a = Some (nat a)"
        using ok a by (simp_all add: py_index_nonneg nat_add_distrib)
      have w: "walk parents p (parents ! nat a) (row[p + nat a := True]) = Some r"
        using body False i by simp
      obtain row' where r: "on_walk parents (parents ! nat a) (- 1)" "r = Inr row'"
          "walked parents p (parents ! nat a) (row[p + nat a := True]) row'"
        using IH [OF w] parents_okD [OF ok(1) a ok(3)] ok(1,4) by (auto simp: walk_result_def)
      have "walked parents p a row row'"
        using r(3) a ok(3,4) False
        by (auto simp: walked_def nth_list_update on_walk_step [OF False])
      then show ?thesis using r(1,2) False by (auto simp: on_walk_step)
    qed
  qed
qed

lemma tree_walk_returns:
  "on_walk parents a b \<Longrightarrow> b = - 1 \<Longrightarrow> parents_ok parents \<Longrightarrow> - 1 \<le> a \<Longrightarrow> a < int (length parents) \<Longrightarrow>
     length row = p + length parents \<Longrightarrow> \<exists>r. tree_walk parents p a row = Some r"
proof (induction arbitrary: row rule: on_walk.induct)
  case (here a)
  then show ?case by (simp add: tree_walk_root)
next
  case (up a b)
  then have "0 \<le> a" by simp
  then show ?case using up tree_walk_step [of a parents row p] parents_okD [of parents a] by simp
qed

lemma tree_row_cases:
  assumes "parents_ok parents" and "i < length parents"
  shows "tree_row parents p i = None \<longleftrightarrow> \<not> on_walk parents (int i) (- 1)"
    and "tree_row parents p i = Some r \<Longrightarrow> \<exists>row. r = Inr row \<and> length row = p + length parents \<and>
           (\<forall>j < p + length parents. row ! j \<longleftrightarrow> j < p \<or> on_walk parents (int i) (int j - int p))"
proof -
  let ?row = "replicate p True @ replicate (length parents) False"
  have len: "length ?row = p + length parents" by simp
  show "tree_row parents p i = None \<longleftrightarrow> \<not> on_walk parents (int i) (- 1)"
    using tree_walk_returns [OF _ refl assms(1), of "int i" ?row p] tree_walk_returns_only [of parents p "int i" ?row]
      assms len by (cases "tree_row parents p i") (auto simp: tree_row_def walk_result_def)
  assume "tree_row parents p i = Some r"
  then obtain row' where "r = Inr row'" "walked parents p (int i) ?row row'"
    using tree_walk_returns_only [of parents p "int i" ?row r] assms
    by (auto simp: tree_row_def walk_result_def)
  then show "\<exists>row. r = Inr row \<and> length row = p + length parents \<and>
           (\<forall>j < p + length parents. row ! j \<longleftrightarrow> j < p \<or> on_walk parents (int i) (int j - int p))"
    by (auto simp: walked_def nth_append of_nat_diff)
qed

lemma collect_rows_None:
  "\<forall>r \<in> set rs. \<forall>e. r \<noteq> Some (Inl e) \<Longrightarrow> collect_rows rs = None \<longleftrightarrow> None \<in> set rs"
  by (induction rs rule: collect_rows.induct) (auto split: option.splits sum.splits)

lemma collect_rows_Some:
  "\<forall>r \<in> set rs. \<forall>e. r \<noteq> Some (Inl e) \<Longrightarrow> collect_rows rs = Some r \<Longrightarrow>
     \<exists>m. r = Inr m \<and> rs = map (Some \<circ> Inr) m"
proof (induction rs arbitrary: r)
  case Nil
  then show ?case by auto
next
  case (Cons x rs)
  from Cons.prems obtain row where x: "x = Some (Inr row)"
    by (auto split: option.splits sum.splits)
  then obtain r' where r': "collect_rows rs = Some r'"
    using Cons.prems(2) by (auto split: option.splits)
  obtain m where m: "r' = Inr m" "rs = map (Some \<circ> Inr) m"
    using Cons.IH [OF _ r'] Cons.prems(1) by auto
  have "r = Inr (row # m)" using Cons.prems(2) by (simp add: x r' m(1))
  then show ?case using x m(2) by (intro exI [of _ "row # m"]) simp
qed

lemma backward_walk_ends:
  "\<forall>k < length parents. - 1 \<le> parents ! k \<and> parents ! k < int k \<Longrightarrow> i < length parents \<Longrightarrow>
     on_walk parents (int i) (- 1)"
proof (induction i rule: less_induct)
  case (less i)
  show ?case
  proof (cases "parents ! i = - 1")
    case True
    then have "on_walk parents (parents ! nat (int i)) (- 1)" by (simp add: on_walk_root)
    then show ?thesis by (rule on_walk.up [rotated]) simp
  next
    case False
    define k where "k = nat (parents ! i)"
    have "- 1 \<le> parents ! i" "parents ! i < int i" using less.prems by blast+
    then have "int k = parents ! i" "k < i" using False unfolding k_def by linarith+
    then have "on_walk parents (parents ! i) (- 1)"
      using less.IH [of k] less.prems by simp
    then have "on_walk parents (parents ! nat (int i)) (- 1)" by simp
    then show ?thesis by (rule on_walk.up [rotated]) simp
  qed
qed

lemma mask_rows_ok:
  assumes "parents_ok parents"
  shows "\<forall>r \<in> set (map (tree_row parents p) [0 ..< length parents]). \<forall>e. r \<noteq> Some (Inl e)"
proof (intro ballI allI notI)
  fix r e assume "r \<in> set (map (tree_row parents p) [0 ..< length parents])" "r = Some (Inl e)"
  then obtain i where "i < length parents" "tree_row parents p i = Some (Inl e)" by auto
  then show False using tree_row_cases(2) [OF assms] by blast
qed

lemma mask_hangs:
  assumes "parents_ok parents"
  shows "build_tree_mask parents p = None \<longleftrightarrow> (\<exists>i < length parents. \<not> on_walk parents (int i) (- 1))"
  unfolding build_tree_mask_def collect_rows_None [OF mask_rows_ok [OF assms]]
  using tree_row_cases(1) [OF assms, of _ p] unfolding set_map image_iff set_upt Bex_def atLeastLessThan_iff
  by (metis zero_le)

lemma mask_backward:
  assumes "parents_ok parents" and "\<forall>i < length parents. parents ! i < int i"
  shows "build_tree_mask parents p \<noteq> None"
  using mask_hangs [OF assms(1)] backward_walk_ends [of parents] assms by (auto simp: parents_ok_def)

lemma mask_rows:
  assumes "parents_ok parents" and "build_tree_mask parents p = Some r"
  shows "\<exists>m. r = Inr m \<and> length m = length parents \<and>
      (\<forall>i < length parents. length (m ! i) = p + length parents \<and>
         (\<forall>j < p + length parents. m ! i ! j \<longleftrightarrow> j < p \<or> on_walk parents (int i) (int j - int p)))"
proof -
  obtain m where m: "r = Inr m" "map (tree_row parents p) [0 ..< length parents] = map (Some \<circ> Inr) m"
    using collect_rows_Some [OF mask_rows_ok [OF assms(1)], of p r] assms(2) unfolding build_tree_mask_def by blast
  have l: "length m = length parents" using m(2) by (metis length_map length_upt diff_zero)
  have "tree_row parents p i = Some (Inr (m ! i))" if "i < length parents" for i
    using arg_cong [OF m(2), of "\<lambda>xs. xs ! i"] that l by simp
  then show ?thesis
    using m(1) l tree_row_cases(2) [OF assms(1)] by fastforce
qed

text \<open>C37. The tree mask that the coordinator builds and every stage rebuilds from the parent pointers:
  for pointers in range, the construction returns exactly when every node's walk reaches the
  prefix (always when each parent precedes its child; never on a cycle), and then node \<open>i\<close> attends
  position \<open>j\<close> exactly when \<open>j\<close> is in the prefix or is node \<open>i\<close> itself or one of its ancestors.\<close>

theorem tree_mask_is_ancestry:
  assumes "parents_ok parents"
  shows "(build_tree_mask parents p = None \<longleftrightarrow> (\<exists>i < length parents. \<not> on_walk parents (int i) (- 1))) \<and>
    ((\<forall>i < length parents. parents ! i < int i) \<longrightarrow> build_tree_mask parents p \<noteq> None) \<and>
    (\<forall>r. build_tree_mask parents p = Some r \<longrightarrow>
       (\<exists>m. r = Inr m \<and> length m = length parents \<and>
          (\<forall>i < length parents. length (m ! i) = p + length parents \<and>
             (\<forall>j < p + length parents. m ! i ! j \<longleftrightarrow>
                j < p \<or> on_walk parents (int i) (int j - int p)))))"
  using mask_hangs [OF assms] mask_backward [OF assms] mask_rows [OF assms] by blast

theorem tree_mask_is_ancestry_witness:
  "parents_ok [- 1, 0, 0, 1] \<and>
   (\<exists>m. build_tree_mask [- 1, 0, 0, 1] 2 = Some (Inr m) \<and> m ! 3 ! 2 \<and> m ! 3 ! 3 \<and> \<not> m ! 3 ! 4) \<and>
   build_tree_mask [1, 0] 2 = None"
proof -
  let ?ps = "[- 1, 0, 0, 1] :: int list"
  have ok: "parents_ok ?ps" "parents_ok [1, 0]" by (simp_all add: parents_ok_def)
  have "\<forall>i < length ?ps. ?ps ! i < int i" by (auto simp: less_Suc_eq nth_Cons split: nat.splits)
  then obtain m where m: "build_tree_mask ?ps 2 = Some (Inr m)" and
    rows: "\<forall>i < 4. \<forall>j < 6. m ! i ! j \<longleftrightarrow> j < 2 \<or> on_walk ?ps (int i) (int j - 2)"
    using tree_mask_is_ancestry [OF ok(1), of 2] by fastforce
  have r: "m ! 3 ! j \<longleftrightarrow> j < 2 \<or> on_walk ?ps 3 (int j - 2)" if "j < 6" for j
    using rows [rule_format, of 3 j] that by simp
  have marks: "m ! 3 ! 2" "m ! 3 ! 3" "\<not> m ! 3 ! 4"
    using r [of 2] r [of 3] r [of 4] by (simp_all add: on_walk_step on_walk_root)
  have loop: "b \<in> {0, 1}" if h: "on_walk [1, 0] a b" "a \<in> {0, 1}" for a b :: int
    using h
  proof (induction rule: on_walk.induct)
    case (up a b)
    then have "([1, 0] :: int list) ! nat a \<in> {0, 1}" by auto
    then show ?case by (rule up.IH)
  qed
  have "\<not> on_walk [1, 0] (int 0) (- 1)" using loop [of 0 "- 1"] by auto
  then have "\<exists>i < length [1, 0 :: int]. \<not> on_walk [1, 0] (int i) (- 1)" by (intro exI [of _ 0]) simp
  then have "build_tree_mask [1, 0] 2 = None"
    using tree_mask_is_ancestry [OF ok(2), of 2] by blast
  then show ?thesis using ok(1) m marks by blast
qed

end
