(* ===== verification/KV.thy ===== *)
theory KV
  imports Prelude
begin

section \<open>The KV cache of a pipeline stage\<close>

text \<open>
  The class \<open>StageKV\<close> of \<open>engine/kv.py\<close>.  A stage's cache has one slot per layer of the
  model; a slot holds the cached entries (key and value together) of the tokens the layer has
  processed, in order, and is empty for a layer the stage does not own.  Slicing
  \<open>[..., :length, :]\<close> and \<open>index_select\<close> act on that token axis.  What a layer's cache
  says of the mask size is the library's: it is a parameter of \<open>kv_mask_sizes\<close>.
\<close>

type_synonym 'e stage_kv = "'e list list"

text \<open>\<open>get_seq_length\<close>: of the first populated layer, whichever it is.\<close>

fun kv_seq_length :: "'e stage_kv \<Rightarrow> nat" where
  "kv_seq_length [] = 0"
| "kv_seq_length (l # ls) = (if l \<noteq> [] then length l else kv_seq_length ls)"

fun kv_mask_sizes :: "('e list \<Rightarrow> nat \<Rightarrow> nat \<times> nat) \<Rightarrow> 'e stage_kv \<Rightarrow> nat \<Rightarrow> nat \<times> nat" where
  "kv_mask_sizes layer_sizes [] q = (q, 0)"
| "kv_mask_sizes layer_sizes (l # ls) q =
     (if l \<noteq> [] then layer_sizes l q else kv_mask_sizes layer_sizes ls q)"

definition kv_reset :: "'e stage_kv \<Rightarrow> 'e stage_kv" where
  "kv_reset kv = map (\<lambda>l. []) kv"

definition kv_truncate :: "nat \<Rightarrow> 'e stage_kv \<Rightarrow> 'e stage_kv" where
  "kv_truncate n kv = map (\<lambda>l. if length l \<le> n then l else take n l) kv"

text \<open>\<open>index_select\<close> raises on an index outside the axis.\<close>

definition index_select :: "int list \<Rightarrow> 'e list \<Rightarrow> 'e list result" where
  "index_select idx l =
     (if list_all (\<lambda>i. 0 \<le> i \<and> i < int (length l)) idx then Inr (map (\<lambda>i. l ! nat i) idx)
      else Inl IndexError)"

definition tree_keep_indices :: "nat \<Rightarrow> int list \<Rightarrow> int list" where
  "tree_keep_indices prefix_len accepted =
     map int [0 ..< prefix_len] @ map (\<lambda>s. int prefix_len + s) accepted"

text \<open>Layers before the one that raises have been compacted already.\<close>

fun kv_keep_layers :: "int list \<Rightarrow> 'e stage_kv \<Rightarrow> 'e stage_kv \<times> unit result" where
  "kv_keep_layers keep [] = ([], Inr ())"
| "kv_keep_layers keep (l # ls) =
     (if l = [] then (case kv_keep_layers keep ls of (ls', r) \<Rightarrow> (l # ls', r))
      else case index_select keep l of
             Inl e \<Rightarrow> (l # ls, Inl e)
           | Inr l' \<Rightarrow> (case kv_keep_layers keep ls of (ls', r) \<Rightarrow> (l' # ls', r)))"

definition kv_keep_tree_path :: "nat \<Rightarrow> int list \<Rightarrow> 'e stage_kv \<Rightarrow> 'e stage_kv \<times> unit result" where
  "kv_keep_tree_path prefix_len accepted kv =
     kv_keep_layers (tree_keep_indices prefix_len accepted) kv"

subsection \<open>Uniform caches\<close>

text \<open>
  Between two forwards every layer a stage owns has cached the same number of tokens.
\<close>

definition kv_uniform :: "nat \<Rightarrow> 'e stage_kv \<Rightarrow> bool" where
  "kv_uniform n kv \<longleftrightarrow> (\<forall>l \<in> set kv. l = [] \<or> length l = n) \<and> (0 < n \<longrightarrow> (\<exists>l \<in> set kv. l \<noteq> []))"

lemma kv_seq_length_uniform: "kv_uniform n kv \<Longrightarrow> kv_seq_length kv = n"
proof (induction kv)
  case Nil
  then show ?case by (simp add: kv_uniform_def)
next
  case (Cons l ls)
  then show ?case by (cases "l = []") (auto simp: kv_uniform_def)
qed

lemma kv_truncate_take: "kv_truncate n kv = map (take n) kv"
  by (simp add: kv_truncate_def)

lemma kv_uniform_truncate: "kv_uniform n kv \<Longrightarrow> m \<le> n \<Longrightarrow> kv_uniform m (kv_truncate m kv)"
  by (fastforce simp: kv_uniform_def kv_truncate_take)

lemma kv_uniform_reset: "kv_uniform 0 (kv_reset kv)"
  by (simp add: kv_uniform_def kv_reset_def)

lemma kv_truncate_id: "kv_uniform n kv \<Longrightarrow> n \<le> m \<Longrightarrow> kv_truncate m kv = kv"
  by (induction kv) (auto simp: kv_truncate_def kv_uniform_def intro!: map_idI)

text \<open>Rolling back what a forward appended restores the cache it started from.\<close>

lemma kv_truncate_append:
  assumes "length news = length kv" and "\<forall>l \<in> set kv. length l = n"
  shows "kv_truncate n (map2 (@) kv news) = kv"
  using assms by (induction news kv rule: list_induct2) (auto simp: kv_truncate_def)

lemma kv_truncate_truncate: "m \<le> n \<Longrightarrow> kv_truncate m (kv_truncate n kv) = kv_truncate m kv"
  by (auto simp: kv_truncate_def min_def)

text \<open>The path a tree verify accepted: the prefix, then the accepted nodes' entries in order.\<close>

lemma index_select_ok:
  "list_all (\<lambda>i. 0 \<le> i \<and> i < int (length l)) idx \<Longrightarrow> index_select idx l = Inr (map (\<lambda>i. l ! nat i) idx)"
  by (simp add: index_select_def)

definition tree_path_of :: "nat \<Rightarrow> int list \<Rightarrow> 'e list \<Rightarrow> 'e list" where
  "tree_path_of prefix_len accepted l = take prefix_len l @ map (\<lambda>s. drop prefix_len l ! nat s) accepted"

lemma tree_select:
  assumes "prefix_len \<le> length l" and "\<forall>s \<in> set accepted. 0 \<le> s \<and> prefix_len + nat s < length l"
  shows "index_select (tree_keep_indices prefix_len accepted) l = Inr (tree_path_of prefix_len accepted l)"
proof -
  have "list_all (\<lambda>i. 0 \<le> i \<and> i < int (length l)) (tree_keep_indices prefix_len accepted)"
    using assms by (auto simp: list_all_iff tree_keep_indices_def)
  moreover have "map (\<lambda>i. l ! nat i) (map int [0 ..< prefix_len]) = take prefix_len l"
    using assms(1) by (intro nth_equalityI) simp_all
  moreover have "map (\<lambda>i. l ! nat i) (map (\<lambda>s. int prefix_len + s) accepted) =
      map (\<lambda>s. drop prefix_len l ! nat s) accepted"
    using assms by (auto simp: nat_add_distrib)
  ultimately show ?thesis
    by (simp add: index_select_ok tree_path_of_def) (simp add: tree_keep_indices_def)
qed

lemma kv_keep_tree_path_ok:
  assumes "\<forall>l \<in> set kv. l = [] \<or>
    (prefix_len \<le> length l \<and> (\<forall>s \<in> set accepted. 0 \<le> s \<and> prefix_len + nat s < length l))"
  shows "kv_keep_tree_path prefix_len accepted kv =
    (map (\<lambda>l. if l = [] then [] else tree_path_of prefix_len accepted l) kv, Inr ())"
  using assms unfolding kv_keep_tree_path_def
  by (induction kv) (auto simp: tree_select)

text \<open>Accepting the first \<open>k\<close> nodes of a chain is a plain rollback.\<close>

lemma tree_path_chain:
  "prefix_len + k \<le> length l \<Longrightarrow> tree_path_of prefix_len (map int [0 ..< k]) l = take (prefix_len + k) l"
  by (intro nth_equalityI) (auto simp: tree_path_of_def nth_append min_def nat_diff_distrib
      simp flip: of_nat_diff)

text \<open>C36. Compacting a cache after a tree verify leaves, in every layer the stage owns, the prefix
  followed by the entries of the accepted nodes in path order, touches no other layer, and makes
  the sequence length the prefix plus the accepted nodes; for a draft that is a chain it is the
  rollback linear speculation does.\<close>

theorem tree_compaction:
  assumes "kv_uniform n kv" and "prefix_len \<le> n" and "\<forall>s \<in> set accepted. 0 \<le> s \<and> prefix_len + nat s < n"
  shows "kv_keep_tree_path prefix_len accepted kv =
      (map (\<lambda>l. if l = [] then [] else take prefix_len l @ map (\<lambda>s. l ! (prefix_len + nat s)) accepted) kv, Inr ()) \<and>
    (0 < n \<longrightarrow> kv_seq_length (fst (kv_keep_tree_path prefix_len accepted kv)) = prefix_len + length accepted) \<and>
    (\<forall>k. accepted = map int [0 ..< k] \<longrightarrow>
       fst (kv_keep_tree_path prefix_len accepted kv) = kv_truncate (prefix_len + k) kv)"
proof -
  have layers: "\<forall>l \<in> set kv. l = [] \<or>
      (prefix_len \<le> length l \<and> (\<forall>s \<in> set accepted. 0 \<le> s \<and> prefix_len + nat s < length l))"
    using assms by (auto simp: kv_uniform_def)
  note keep = kv_keep_tree_path_ok [OF layers]
  have expand: "tree_path_of prefix_len accepted l = take prefix_len l @ map (\<lambda>s. l ! (prefix_len + nat s)) accepted"
    if "l \<in> set kv" "l \<noteq> []" for l
  proof -
    have "length l = n" using assms(1) that by (auto simp: kv_uniform_def)
    with assms(2,3) show ?thesis by (auto simp: tree_path_of_def)
  qed
  have len: "kv_seq_length (fst (kv_keep_tree_path prefix_len accepted kv)) = prefix_len + length accepted"
    if pos: "0 < n"
  proof (cases "prefix_len + length accepted = 0")
    case True
    then have "\<forall>l \<in> set (fst (kv_keep_tree_path prefix_len accepted kv)). l = []"
      unfolding keep by (auto simp: tree_path_of_def)
    moreover have "(\<forall>l \<in> set k. l = []) \<Longrightarrow> kv_seq_length k = 0" for k :: "'a stage_kv" by (induction k) auto
    ultimately show ?thesis using True by simp
  next
    case False
    obtain l0 where l0: "l0 \<in> set kv" "l0 \<noteq> []" using assms(1) pos by (auto simp: kv_uniform_def)
    have path: "length (tree_path_of prefix_len accepted l) = prefix_len + length accepted"
      if "l \<in> set kv" "l \<noteq> []" for l
      using layers that by (auto simp: tree_path_of_def)
    then have "tree_path_of prefix_len accepted l0 \<noteq> []" using l0 False by fastforce
    then have "kv_uniform (prefix_len + length accepted) (fst (kv_keep_tree_path prefix_len accepted kv))"
      unfolding keep kv_uniform_def using path l0 by auto
    then show ?thesis by (rule kv_seq_length_uniform)
  qed
  have chain: "fst (kv_keep_tree_path prefix_len accepted kv) = kv_truncate (prefix_len + k) kv"
    if acc: "accepted = map int [0 ..< k]" for k
  proof -
    have "prefix_len + k \<le> length l" if "l \<in> set kv" "l \<noteq> []" for l
    proof (cases k)
      case 0
      then show ?thesis using that layers by auto
    next
      case (Suc j)
      then have "int j \<in> set accepted" using acc by simp
      then show ?thesis using that layers Suc by fastforce
    qed
    then show ?thesis
      unfolding keep by (auto simp: kv_truncate_take acc tree_path_chain)
  qed
  have "map (\<lambda>l. if l = [] then [] else tree_path_of prefix_len accepted l) kv =
      map (\<lambda>l. if l = [] then [] else take prefix_len l @ map (\<lambda>s. l ! (prefix_len + nat s)) accepted) kv"
    using expand by (intro map_cong) auto
  then show ?thesis using keep len chain by simp
qed

lemma tree_compaction_witness:
  "fst (kv_keep_tree_path 2 [0, 2] [[], [10, 11, 12, 13, 14 :: nat], [20, 21, 22, 23, 24]]) =
     [[], [10, 11, 12, 14], [20, 21, 22, 24]]"
  using tree_compaction [of 5 "[[], [10, 11, 12, 13, 14 :: nat], [20, 21, 22, 23, 24]]" 2 "[0, 2]"]
  by (simp add: kv_uniform_def numeral_eq_Suc)

end
