(* ===== verification/Specdecode.thy ===== *)
theory Specdecode
  imports KV
begin

section \<open>Greedy speculative decoding\<close>

text \<open>
  \<open>engine/specdecode.py\<close>: the verification round, the collecting and the streaming decode
  loops over an arbitrary target and draft, and the two in-process implementations,
  \<open>SplitTarget\<close> and \<open>GreedyDraft\<close>.  A target is its operations on a state: the logits rows
  of a forward pass (one per token of the batch), the cached length, the rollback and the last
  hidden features; a row's \<open>argmax\<close> belongs to it.  A draft likewise.  Transformer layers,
  embedding, norm and head are the model library's: a layer is given by the entry it caches for
  a token and by what it computes for a token from the cached entries up to it.
\<close>

subsection \<open>The protocols\<close>

record ('s, 'l, 'h) target_ops =
  t_forward :: "'s \<Rightarrow> int list \<Rightarrow> nat \<Rightarrow> 's \<times> 'l list result"
  t_kv_len :: "'s \<Rightarrow> nat"
  t_rollback :: "'s \<Rightarrow> nat \<Rightarrow> 's \<times> unit result"
  t_hidden :: "'s \<Rightarrow> 'h list"
  t_argmax :: "'l \<Rightarrow> int"

type_synonym perturb = "(nat \<Rightarrow> int \<Rightarrow> int) option"

record ('d, 'h) draft_ops =
  d_needs_hidden :: bool
  d_prefill :: "'d \<Rightarrow> int list \<Rightarrow> 'd result"
  d_eagle_prefill :: "'d \<Rightarrow> int list \<Rightarrow> 'h list \<Rightarrow> 'd"
  d_propose :: "'d \<Rightarrow> int \<Rightarrow> nat \<Rightarrow> nat \<Rightarrow> perturb \<Rightarrow> 'h list option \<Rightarrow> (int list \<times> 'd) result"
  d_eagle_commit :: "'d \<Rightarrow> int list \<Rightarrow> 'h list \<Rightarrow> 'd"
  d_rollback :: "'d \<Rightarrow> nat \<Rightarrow> 'd"

subsection \<open>Counters\<close>

record spec_counts =
  sc_rounds :: nat
  sc_accepted :: nat
  sc_proposed :: nat
  sc_window :: "(nat \<times> nat) list option"

definition no_counts :: "spec_counts" where
  "no_counts = \<lparr>sc_rounds = 0, sc_accepted = 0, sc_proposed = 0, sc_window = None\<rparr>"

definition bump_counts :: "nat \<Rightarrow> nat \<Rightarrow> spec_counts \<Rightarrow> spec_counts" where
  "bump_counts m K c =
     c\<lparr>sc_rounds := sc_rounds c + 1, sc_accepted := sc_accepted c + m,
       sc_proposed := sc_proposed c + K,
       sc_window := map_option (\<lambda>w. w @ [(m, K)]) (sc_window c)\<rparr>"

subsection \<open>A verification round\<close>

text \<open>Leading matches of the drafts with the target's predictions; \<open>k\<close> counts the iterations of
  \<open>for j in range(K)\<close> that are left.\<close>

fun match_len :: "nat \<Rightarrow> int list \<Rightarrow> int list \<Rightarrow> nat \<Rightarrow> nat result" where
  "match_len 0 preds drafts m = Inr m"
| "match_len (Suc k) preds drafts m =
     (if length preds \<le> m \<or> length drafts \<le> m then Inl IndexError
      else if preds ! m = drafts ! m then match_len k preds drafts (Suc m)
      else Inr m)"

record ('s, 'd) spec_state =
  sp_target :: 's
  sp_draft :: 'd
  sp_head :: int
  sp_pos :: nat

text \<open>A call that raises leaves its target behind all the same.\<close>

definition spec_round ::
  "('s, 'l, 'h) target_ops \<Rightarrow> ('d, 'h) draft_ops \<Rightarrow> perturb \<Rightarrow> nat \<Rightarrow> ('s, 'd) spec_state \<Rightarrow>
   's \<times> (int list \<times> nat \<times> ('s, 'd) spec_state) result" where
  "spec_round T D pt K st =
     (case d_propose D (sp_draft st) (sp_head st) K (sp_pos st) pt
              (if d_needs_hidden D then Some (t_hidden T (sp_target st)) else None) of
        Inl e \<Rightarrow> (sp_target st, Inl e)
      | Inr (drafts, d1) \<Rightarrow>
          (case t_forward T (sp_target st) (sp_head st # drafts) (sp_pos st) of
             (s1, Inl e) \<Rightarrow> (s1, Inl e)
           | (s1, Inr rows) \<Rightarrow>
               (let preds = map (t_argmax T) rows
                in case match_len K preds drafts 0 of
                     Inl e \<Rightarrow> (s1, Inl e)
                   | Inr m \<Rightarrow>
                       if length preds \<le> m then (s1, Inl IndexError)
                       else
                         (let extra = preds ! m;
                              d2 = (if d_needs_hidden D
                                    then d_eagle_commit D d1 (sp_head st # take m drafts) (take (m + 1) (t_hidden T s1))
                                    else d1);
                              keep = sp_pos st + m + 1
                          in case t_rollback T s1 keep of
                               (s2, Inl e) \<Rightarrow> (s2, Inl e)
                             | (s2, Inr _) \<Rightarrow>
                                 (s2, Inr (take m drafts @ [extra], m,
                                   \<lparr>sp_target = s2, sp_draft = d_rollback D d2 keep,
                                    sp_head = extra, sp_pos = keep\<rparr>))))))"

text \<open>The prompt prefill and the first token; both loops start with it.\<close>

definition spec_start ::
  "('s, 'l, 'h) target_ops \<Rightarrow> ('d, 'h) draft_ops \<Rightarrow> 's \<Rightarrow> 'd \<Rightarrow> int list \<Rightarrow> 's \<times> ('s, 'd) spec_state result" where
  "spec_start T D s d prompt =
     (case t_forward T s prompt 0 of
        (s1, Inl e) \<Rightarrow> (s1, Inl e)
      | (s1, Inr rows) \<Rightarrow>
          (s1, bindE (d_prefill D d prompt) (\<lambda>d1.
             if rows = [] then Inl IndexError
             else Inr \<lparr>sp_target = s1,
                       sp_draft = (if d_needs_hidden D then d_eagle_prefill D d1 prompt (t_hidden T s1) else d1),
                       sp_head = t_argmax T (last rows), sp_pos = t_kv_len T s1\<rparr>)))"

lemma spec_round_nonempty: "spec_round T D pt K st = (s, Inr (com, m, st')) \<Longrightarrow> com \<noteq> []"
  by (auto simp: spec_round_def Let_def split: if_splits sum.splits prod.splits)

subsection \<open>The collecting loop\<close>

function spec_loop ::
  "('s, 'l, 'h) target_ops \<Rightarrow> ('d, 'h) draft_ops \<Rightarrow> perturb \<Rightarrow> nat \<Rightarrow> nat \<Rightarrow> int list \<Rightarrow>
   ('s, 'd) spec_state \<Rightarrow> spec_counts \<Rightarrow> spec_counts option \<Rightarrow>
   's \<times> spec_counts option \<times> (int list \<times> ('s, 'd) spec_state \<times> spec_counts) result" where
  "spec_loop T D pt K n_new out st lc gc =
     (if length out < n_new then
        (case spec_round T D pt K st of
           (s, Inl e) \<Rightarrow> (s, gc, Inl e)
         | (s, Inr (com, m, st')) \<Rightarrow>
             spec_loop T D pt K n_new (out @ com) st' (bump_counts m K lc)
               (map_option (bump_counts m K) gc))
      else (sp_target st, gc, Inr (out, st, lc)))"
  by pat_completeness auto
termination
  by (relation "measure (\<lambda>(T, D, pt, K, n_new, out, st, lc, gc). n_new - length out)")
    (auto dest!: spec_round_nonempty [OF sym] simp flip: length_greater_0_conv)

declare spec_loop.simps [simp del]

definition speculative_greedy ::
  "('s, 'l, 'h) target_ops \<Rightarrow> ('d, 'h) draft_ops \<Rightarrow> perturb \<Rightarrow> nat \<Rightarrow> 's \<Rightarrow> 'd \<Rightarrow> int list \<Rightarrow> nat \<Rightarrow>
   spec_counts option \<Rightarrow> 's \<times> spec_counts option \<times> (int list \<times> ('s, 'd) spec_state \<times> spec_counts) result" where
  "speculative_greedy T D pt K s d prompt n_new gc =
     (case spec_start T D s d prompt of
        (s1, Inl e) \<Rightarrow> (s1, gc, Inl e)
      | (s1, Inr st) \<Rightarrow>
          (case spec_loop T D pt K n_new [sp_head st] st no_counts gc of
             (s2, gc', r) \<Rightarrow> (s2, gc', bindE r (\<lambda>(out, st', lc). Inr (take n_new out, st', lc)))))"

subsection \<open>The streaming loop\<close>

text \<open>The committed tokens that are yielded, and whether the generator returns.\<close>

fun emit_committed :: "int set \<Rightarrow> nat \<Rightarrow> nat \<Rightarrow> int list \<Rightarrow> int list \<times> bool" where
  "emit_committed eos n_new produced [] = ([], False)"
| "emit_committed eos n_new produced (t # ts) =
     (if t \<in> eos \<or> n_new \<le> produced then ([], True)
      else case emit_committed eos n_new (Suc produced) ts of (ys, stop) \<Rightarrow> (t # ys, stop))"

lemma emit_committed_all: "emit_committed eos n_new produced ts = (ys, False) \<Longrightarrow> ys = ts"
  by (induction eos n_new produced ts arbitrary: ys rule: emit_committed.induct)
    (auto split: if_splits prod.splits)

text \<open>What is yielded before the loop ends, the target and counters it leaves, and how it ends.\<close>

function stream_loop ::
  "('s, 'l, 'h) target_ops \<Rightarrow> ('d, 'h) draft_ops \<Rightarrow> perturb \<Rightarrow> nat \<Rightarrow> int set \<Rightarrow> nat \<Rightarrow> nat \<Rightarrow>
   ('s, 'd) spec_state \<Rightarrow> spec_counts option \<Rightarrow>
   int list \<times> 's \<times> spec_counts option \<times> unit result" where
  "stream_loop T D pt K eos n_new produced st gc =
     (if produced < n_new then
        (case spec_round T D pt K st of
           (s, Inl e) \<Rightarrow> ([], s, gc, Inl e)
         | (s, Inr (com, m, st')) \<Rightarrow>
             (let gc' = map_option (bump_counts m K) gc
              in case emit_committed eos n_new produced com of
                   (ys, True) \<Rightarrow> (ys, s, gc', Inr ())
                 | (ys, False) \<Rightarrow>
                     (case stream_loop T D pt K eos n_new (produced + length ys) st' gc' of
                        (zs, r) \<Rightarrow> (ys @ zs, r))))
      else ([], sp_target st, gc, Inr ()))"
  by pat_completeness auto
termination
proof (relation "measure (\<lambda>(T, D, pt, K, eos, n_new, produced, st, gc). n_new - produced)")
  show "wf (measure (\<lambda>(T, D, pt, K, eos, n_new, produced, st, gc). n_new - produced))" by simp
qed (auto dest!: spec_round_nonempty [OF sym] emit_committed_all [OF sym] simp flip: length_greater_0_conv)

declare stream_loop.simps [simp del]

definition speculative_greedy_stream ::
  "('s, 'l, 'h) target_ops \<Rightarrow> ('d, 'h) draft_ops \<Rightarrow> perturb \<Rightarrow> nat \<Rightarrow> int set \<Rightarrow> 's \<Rightarrow> 'd \<Rightarrow> int list \<Rightarrow>
   nat \<Rightarrow> spec_counts option \<Rightarrow> int list \<times> 's \<times> spec_counts option \<times> unit result" where
  "speculative_greedy_stream T D pt K eos s d prompt n_new gc =
     (case spec_start T D s d prompt of
        (s1, Inl e) \<Rightarrow> ([], s1, gc, Inl e)
      | (s1, Inr st) \<Rightarrow>
          if sp_head st \<in> eos then ([], s1, gc, Inr ())
          else (case stream_loop T D pt K eos n_new 1 st gc of (ys, r) \<Rightarrow> (sp_head st # ys, r)))"

subsection \<open>The split target\<close>

text \<open>One decoder layer over a batch of tokens: each token's entry is cached, then the token is
  computed from the entries cached so far, its own included (causal attention).\<close>

record ('e, 'h, 'l) model_ops =
  m_embed :: "int \<Rightarrow> 'h"
  m_entry :: "nat \<Rightarrow> 'h \<Rightarrow> nat \<Rightarrow> 'e"
  m_layer :: "nat \<Rightarrow> 'e list \<Rightarrow> 'h \<Rightarrow> nat \<Rightarrow> 'h"
  m_head :: "'h \<Rightarrow> 'l"
  m_argmax :: "'l \<Rightarrow> int"

fun layer_forward ::
  "('e, 'h, 'l) model_ops \<Rightarrow> nat \<Rightarrow> 'e list \<Rightarrow> ('h \<times> nat) list \<Rightarrow> 'h list \<times> 'e list" where
  "layer_forward M g cache [] = ([], cache)"
| "layer_forward M g cache ((h, p) # xs) =
     (let cache' = cache @ [m_entry M g h p];
          out = m_layer M g cache' h p
      in case layer_forward M g cache' xs of (outs, c) \<Rightarrow> (out # outs, c))"

text \<open>\<open>Stage.forward\<close>: the stage's layers in order, each with its own slot of the cache.\<close>

fun stage_forward ::
  "('e, 'h, 'l) model_ops \<Rightarrow> nat list \<Rightarrow> 'e stage_kv \<Rightarrow> 'h list \<Rightarrow> nat list \<Rightarrow> 'h list \<times> 'e stage_kv" where
  "stage_forward M [] kv hs ps = (hs, kv)"
| "stage_forward M (g # gs) kv hs ps =
     (case layer_forward M g (kv ! g) (zip hs ps) of
        (hs', c) \<Rightarrow> stage_forward M gs (kv[g := c]) hs' ps)"

text \<open>\<open>split_model\<close>: the layer indices of each stage, by boundaries.\<close>

definition split_layers :: "nat \<Rightarrow> nat list \<Rightarrow> nat list list" where
  "split_layers n boundaries =
     (let cuts = [0] @ boundaries @ [n]
      in map (\<lambda>(s, e). [s ..< e]) (zip (butlast cuts) (tl cuts)))"

record ('e, 'h) split_state =
  sst_caches :: "'e stage_kv list"
  sst_hidden :: "'h list"

fun stages_forward ::
  "('e, 'h, 'l) model_ops \<Rightarrow> nat list list \<Rightarrow> 'e stage_kv list \<Rightarrow> 'h list \<Rightarrow> nat list \<Rightarrow>
   'h list \<times> 'e stage_kv list" where
  "stages_forward M (st # sts) (c # cs) hs ps =
     (case stage_forward M st c hs ps of
        (hs', c') \<Rightarrow> (case stages_forward M sts cs hs' ps of (out, cs') \<Rightarrow> (out, c' # cs')))"
| "stages_forward M _ cs hs ps = (hs, cs)"

definition split_forward ::
  "('e, 'h, 'l) model_ops \<Rightarrow> nat list list \<Rightarrow> ('e, 'h) split_state \<Rightarrow> int list \<Rightarrow> nat \<Rightarrow>
   ('e, 'h) split_state \<times> 'l list result" where
  "split_forward M stages s ids start_pos =
     (case stages_forward M stages (sst_caches s) (map (m_embed M) ids)
             (map (\<lambda>i. i + start_pos) [0 ..< length ids]) of
        (h, cs) \<Rightarrow> (\<lparr>sst_caches = cs, sst_hidden = h\<rparr>, Inr (map (m_head M) h)))"

text \<open>The first stage's cache tells the length; a target without stages raises, which the
  constructor's callers exclude.\<close>

definition split_kv_len :: "('e, 'h) split_state \<Rightarrow> nat" where
  "split_kv_len s = kv_seq_length (hd (sst_caches s))"

definition split_rollback :: "('e, 'h) split_state \<Rightarrow> nat \<Rightarrow> ('e, 'h) split_state" where
  "split_rollback s n = s\<lparr>sst_caches := map (kv_truncate n) (sst_caches s)\<rparr>"

definition split_target ::
  "('e, 'h, 'l) model_ops \<Rightarrow> nat list list \<Rightarrow> (('e, 'h) split_state, 'l, 'h) target_ops" where
  "split_target M stages =
     \<lparr>t_forward = split_forward M stages, t_kv_len = split_kv_len,
      t_rollback = (\<lambda>s n. (split_rollback s n, Inr ())),
      t_hidden = sst_hidden, t_argmax = m_argmax M\<rparr>"

definition split_init :: "nat \<Rightarrow> nat list list \<Rightarrow> ('e, 'h) split_state" where
  "split_init n stages = \<lparr>sst_caches = map (\<lambda>_. replicate n []) stages, sst_hidden = []\<rparr>"

subsection \<open>The greedy draft\<close>

text \<open>A whole draft model with its own cache: one stage of all its layers.\<close>

definition draft_forward ::
  "('e, 'h, 'l) model_ops \<Rightarrow> nat \<Rightarrow> 'e stage_kv \<Rightarrow> int list \<Rightarrow> 'l list \<times> 'e stage_kv" where
  "draft_forward M n kv ids =
     (case stage_forward M [0 ..< n] kv (map (m_embed M) ids)
             (map (\<lambda>i. i + kv_seq_length kv) [0 ..< length ids]) of
        (h, kv') \<Rightarrow> (map (m_head M) h, kv'))"

text \<open>The \<open>K\<close> proposals from \<open>cur\<close> on; \<open>i\<close> counts them.\<close>

fun propose_steps ::
  "('e, 'h, 'l) model_ops \<Rightarrow> nat \<Rightarrow> perturb \<Rightarrow> nat \<Rightarrow> nat \<Rightarrow> int \<Rightarrow> 'e stage_kv \<Rightarrow> int list \<times> int \<times> 'e stage_kv" where
  "propose_steps M n pt i 0 cur kv = ([], cur, kv)"
| "propose_steps M n pt i (Suc k) cur kv =
     (case draft_forward M n kv [cur] of
        (rows, kv1) \<Rightarrow>
          (let a = m_argmax M (last rows);
               nxt = (case pt of None \<Rightarrow> a | Some f \<Rightarrow> f i a)
           in case propose_steps M n pt (Suc i) k nxt kv1 of
                (props, c, kv2) \<Rightarrow> (nxt # props, c, kv2)))"

definition greedy_propose ::
  "('e, 'h, 'l) model_ops \<Rightarrow> nat \<Rightarrow> 'e stage_kv \<Rightarrow> int \<Rightarrow> nat \<Rightarrow> nat \<Rightarrow> perturb \<Rightarrow> 'x list option \<Rightarrow>
   (int list \<times> 'e stage_kv) result" where
  "greedy_propose M n kv head_tok K start_pos pt hid =
     (if kv_seq_length kv \<noteq> start_pos then Inl AssertionError
      else case propose_steps M n pt 0 K head_tok kv of
             (props, cur, kv1) \<Rightarrow> Inr (props, snd (draft_forward M n kv1 [cur])))"

definition greedy_draft ::
  "('e, 'h, 'l) model_ops \<Rightarrow> nat \<Rightarrow> ('e stage_kv, 'x) draft_ops" where
  "greedy_draft M n =
     \<lparr>d_needs_hidden = False,
      d_prefill = (\<lambda>kv prompt. Inr (snd (draft_forward M n kv prompt))),
      d_eagle_prefill = (\<lambda>kv _ _. kv),
      d_propose = greedy_propose M n,
      d_eagle_commit = (\<lambda>kv _ _. kv),
      d_rollback = (\<lambda>kv len. kv_truncate len kv)\<rparr>"

end
