(* ===== verification/Specdecode_Spec.thy ===== *)
theory Specdecode_Spec
  imports Specdecode
begin

section \<open>Speculative decoding computes the greedy continuation\<close>

text \<open>
  The contracts of a target and of a draft as locales, the correctness of both loops for every
  target and draft that keep them, and the proof that the split target and the greedy draft do.
\<close>

subsection \<open>Plain greedy decoding\<close>

fun greedy :: "(int list \<Rightarrow> int) \<Rightarrow> int list \<Rightarrow> nat \<Rightarrow> int list" where
  "greedy nx ctx 0 = []"
| "greedy nx ctx (Suc n) = nx ctx # greedy nx (ctx @ [nx ctx]) n"

lemma length_greedy [simp]: "length (greedy nx ctx n) = n"
  by (induction n arbitrary: ctx) auto

lemma greedy_add: "greedy nx ctx (m + n) = greedy nx ctx m @ greedy nx (ctx @ greedy nx ctx m) n"
  by (induction m arbitrary: ctx) auto

lemma greedy_snoc: "greedy nx ctx (Suc n) = greedy nx ctx n @ [nx (ctx @ greedy nx ctx n)]"
  using greedy_add [of nx ctx n 1] by simp

lemma take_greedy: "take m (greedy nx ctx n) = greedy nx ctx (min m n)"
proof (cases "m \<le> n")
  case True
  then obtain k where "n = m + k" using le_Suc_ex by blast
  then show ?thesis by (simp add: greedy_add)
qed simp

text \<open>What a streaming loop yields of the continuation: it stops before the first end token.\<close>

definition until_eos :: "int set \<Rightarrow> int list \<Rightarrow> int list" where
  "until_eos eos ts = takeWhile (\<lambda>t. t \<notin> eos) ts"

lemma emit_committed_spec:
  "emit_committed eos n p com = (until_eos eos (take (n - p) com),
     \<not> (length com \<le> n - p \<and> (\<forall>t \<in> set com. t \<notin> eos)))"
proof (induction eos n p com rule: emit_committed.induct)
  case (1 eos n p)
  then show ?case by (simp add: until_eos_def)
next
  case (2 eos n p t ts)
  show ?case
  proof (cases "t \<in> eos \<or> n \<le> p")
    case True
    then show ?thesis by (cases "n - p") (auto simp: until_eos_def)
  next
    case False
    then obtain k where "n - p = Suc k" "n - Suc p = k" by (metis Suc_diff_Suc linorder_not_le)
    with 2 False show ?thesis by (simp add: until_eos_def)
  qed
qed

lemma until_eos_append_all: "\<forall>t \<in> set xs. t \<notin> eos \<Longrightarrow> until_eos eos (xs @ ys) = xs @ until_eos eos ys"
  by (simp add: until_eos_def takeWhile_append2)

lemma until_eos_append_stop: "\<exists>t \<in> set xs. t \<in> eos \<Longrightarrow> until_eos eos (xs @ ys) = until_eos eos xs"
  by (auto simp: until_eos_def takeWhile_append)

lemma until_eos_all: "\<forall>t \<in> set xs. t \<notin> eos \<Longrightarrow> until_eos eos xs = xs"
  using until_eos_append_all [of xs eos "[]"] by (simp add: until_eos_def)

text \<open>A round that commits greedy tokens: all are yielded and the stream goes on, or it is complete.\<close>

lemma emit_greedy:
  assumes out: "out = greedy nx prompt (length out)" "\<forall>t \<in> set out. t \<notin> eos" and more: "length out < n_new"
    and com: "com = greedy nx (prompt @ out) k"
  shows "(emit_committed eos n_new (length out) com = (com, False) \<and> length (out @ com) \<le> n_new \<and> (\<forall>t \<in> set (out @ com). t \<notin> eos)) \<or>
    (\<exists>ys. emit_committed eos n_new (length out) com = (ys, True) \<and> out @ ys = until_eos eos (greedy nx prompt n_new))"
proof (cases "length com \<le> n_new - length out \<and> (\<forall>t \<in> set com. t \<notin> eos)")
  case go: True
  then have "take (n_new - length out) com = com" by simp
  then have "emit_committed eos n_new (length out) com = (com, False)"
    using emit_committed_spec [of eos n_new "length out" com] go until_eos_all [of com eos] by simp
  then show ?thesis using go more out(2) by auto
next
  case stop: False
  have full: "greedy nx prompt n_new = out @ greedy nx (prompt @ out) (n_new - length out)"
    using more out(1) greedy_add [of nx prompt "length out" "n_new - length out"] by simp
  have em: "emit_committed eos n_new (length out) com = (until_eos eos (take (n_new - length out) com), True)"
    using emit_committed_spec [of eos n_new "length out" com] stop by simp
  have "out @ until_eos eos (take (n_new - length out) com) = until_eos eos (greedy nx prompt n_new)"
  proof (cases "length com \<le> n_new - length out")
    case True
    then have take: "take (n_new - length out) com = com" by simp
    obtain j where j: "n_new - length out = k + j" using True com le_Suc_ex by (metis length_greedy)
    have "\<exists>t \<in> set com. t \<in> eos" using stop True by blast
    then have "until_eos eos (greedy nx (prompt @ out) (n_new - length out)) = until_eos eos com"
      unfolding j greedy_add com by (rule until_eos_append_stop)
    then show ?thesis unfolding full take using until_eos_append_all [OF out(2)] by metis
  next
    case False
    then have "n_new - length out \<le> k" using com by simp
    then have "take (n_new - length out) com = greedy nx (prompt @ out) (n_new - length out)"
      unfolding com take_greedy by simp
    then show ?thesis unfolding full using until_eos_append_all [OF out(2)] by metis
  qed
  then show ?thesis using em by blast
qed

subsection \<open>The contracts\<close>

text \<open>\<open>holds s ctx\<close>: the target's caches are those of exactly the tokens \<open>ctx\<close>; \<open>fresh s prompt\<close>:
  it is ready for the prefill of \<open>prompt\<close>; \<open>room\<close>: the lengths it can hold.\<close>

locale decode_target =
  fixes T :: "('s, 'l, 'h) target_ops"
    and holds :: "'s \<Rightarrow> int list \<Rightarrow> bool"
    and fresh :: "'s \<Rightarrow> int list \<Rightarrow> bool"
    and nx :: "int list \<Rightarrow> int"
    and room :: "nat \<Rightarrow> bool"
  assumes prefill: "fresh s prompt \<Longrightarrow> prompt \<noteq> [] \<Longrightarrow> room (length prompt) \<Longrightarrow> \<exists>rows s'. t_forward T s prompt 0 = (s', Inr rows) \<and>
      rows \<noteq> [] \<and> t_argmax T (last rows) = nx prompt \<and> holds s' prompt"
    and forward: "holds s ctx \<Longrightarrow> ctx \<noteq> [] \<Longrightarrow> ids \<noteq> [] \<Longrightarrow> room (length ctx + length ids) \<Longrightarrow>
      \<exists>rows s'. t_forward T s ids (length ctx) = (s', Inr rows) \<and> holds s' (ctx @ ids) \<and>
        map (t_argmax T) rows = map (\<lambda>j. nx (ctx @ take (Suc j) ids)) [0 ..< length ids]"
    and rollback: "holds s ctx \<Longrightarrow> ctx \<noteq> [] \<Longrightarrow> n \<le> length ctx \<Longrightarrow>
      \<exists>s'. t_rollback T s n = (s', Inr ()) \<and> holds s' (take n ctx)"
    and kv_len: "holds s ctx \<Longrightarrow> t_kv_len T s = length ctx"
    and room_le: "room a \<Longrightarrow> b \<le> a \<Longrightarrow> room b"

text \<open>An exact target keeps one hidden state for every token it was given last.\<close>

locale hidden_target = decode_target T holds fresh nx room
  for T :: "('s, 'l, 'h) target_ops" and holds fresh nx room +
  fixes exact :: bool
  assumes hidden_prompt: "exact \<Longrightarrow> fresh s prompt \<Longrightarrow> prompt \<noteq> [] \<Longrightarrow> room (length prompt) \<Longrightarrow>
      t_forward T s prompt 0 = (s', Inr rows) \<Longrightarrow> length (t_hidden T s') = length prompt"
    and hidden_rows: "exact \<Longrightarrow> t_forward T s ids p = (s', Inr rows) \<Longrightarrow> length (t_hidden T s') = length rows"

text \<open>A draft proposes \<open>K\<close> tokens, whatever they are, and can be rolled back to any length
  between its position and the end of its proposals.  A strict draft relies on one hidden state for
  every token that it is given.\<close>

locale feature_draft =
  fixes D :: "('d, 'h) draft_ops"
    and synced :: "'d \<Rightarrow> nat \<Rightarrow> bool"
    and startable :: "'d \<Rightarrow> bool"
    and strict :: bool
  assumes draft_prefill: "startable d \<Longrightarrow> prompt \<noteq> [] \<Longrightarrow> strict \<longrightarrow> length hid = length prompt \<Longrightarrow>
      \<exists>d1. d_prefill D d prompt = Inr d1 \<and>
        synced (if d_needs_hidden D then d_eagle_prefill D d1 prompt hid else d1) (length prompt)"
    and draft_propose: "synced d pos \<Longrightarrow> \<exists>ps d1. d_propose D d hd_tok K pos pt hid' = Inr (ps, d1) \<and>
      length ps = K \<and> (\<forall>keep toks hid. pos < keep \<and> keep \<le> pos + K + 1 \<and>
          (strict \<longrightarrow> length toks = keep - pos \<and> length hid = keep - pos) \<longrightarrow>
        synced (d_rollback D (if d_needs_hidden D then d_eagle_commit D d1 toks hid else d1) keep) keep)"

text \<open>The drafts that work with every target.\<close>

locale draft_source = feature_draft D synced startable False
  for D :: "('d, 'h) draft_ops" and synced startable

text \<open>The counters: each round accepts at most what it proposes and commits one token more.\<close>

definition counts_ok :: "nat \<Rightarrow> spec_counts \<Rightarrow> nat \<Rightarrow> bool" where
  "counts_ok K c produced \<longleftrightarrow> sc_accepted c \<le> sc_proposed c \<and> sc_proposed c = K * sc_rounds c \<and>
     produced = 1 + sc_accepted c + sc_rounds c"

locale speculation = hidden_target T holds fresh nx room exact + feature_draft D synced startable strict
  for T :: "('s, 'l, 'h) target_ops" and holds fresh nx room exact
    and D :: "('d, 'h) draft_ops" and synced startable strict +
  assumes strict_exact: "strict \<Longrightarrow> exact"
begin

text \<open>What a loop knows between rounds: the last token is committed but not processed.\<close>

definition at_ctx :: "int list \<Rightarrow> ('s, 'd) spec_state \<Rightarrow> bool" where
  "at_ctx ctx st \<longleftrightarrow> ctx \<noteq> [] \<and> holds (sp_target st) ctx \<and> synced (sp_draft st) (length ctx) \<and>
     sp_pos st = length ctx \<and> sp_head st = nx ctx"

text \<open>The target still holds the prompt, and perhaps more.\<close>

definition kept :: "int list \<Rightarrow> 's \<Rightarrow> bool" where
  "kept prompt s \<longleftrightarrow> (\<exists>ctx. holds s (prompt @ ctx))"

lemma keptI: "holds s (prompt @ ctx) \<Longrightarrow> kept prompt s"
  by (auto simp: kept_def)

lemma match_len_greedy:
  assumes "length preds = Suc K" and "length drafts = K"
    and preds: "\<And>j. j \<le> K \<Longrightarrow> preds ! j = nx (base @ take j drafts)"
    and "m \<le> K" and "take m drafts = greedy nx base m"
  shows "\<exists>m'. match_len (K - m) preds drafts m = Inr m' \<and> m' \<le> K \<and> take m' drafts = greedy nx base m'"
  using assms(4,5)
proof (induction "K - m" arbitrary: m)
  case 0
  then show ?case by auto
next
  case (Suc k)
  then have m: "m < K" and Km: "K - m = Suc (K - Suc m)" by auto
  show ?case
  proof (cases "preds ! m = drafts ! m")
    case True
    have "drafts ! m = nx (base @ take m drafts)" using preds [of m] m True by simp
    then have "take (Suc m) drafts = greedy nx base (Suc m)"
      using m assms(2) Suc.prems(2) by (simp add: greedy_snoc take_Suc_conv_app_nth del: greedy.simps)
    then show ?thesis using Suc.hyps(1) [of "Suc m"] Suc.hyps(2) m True Km assms(1,2) by simp
  next
    case False
    then show ?thesis using m Km assms(1,2) Suc.prems by auto
  qed
qed

lemma start_at:
  assumes "fresh s prompt" and "startable d" and "prompt \<noteq> []" and "room (length prompt)"
  shows "\<exists>st. spec_start T D s d prompt = (sp_target st, Inr st) \<and> at_ctx prompt st"
proof -
  obtain rows s1 where f: "t_forward T s prompt 0 = (s1, Inr rows)" "rows \<noteq> []"
      "t_argmax T (last rows) = nx prompt" "holds s1 prompt"
    using prefill [OF assms(1,3,4)] by blast
  obtain d1 where d: "d_prefill D d prompt = Inr d1"
      "synced (if d_needs_hidden D then d_eagle_prefill D d1 prompt (t_hidden T s1) else d1) (length prompt)"
    using draft_prefill [OF assms(2,3)] hidden_prompt [OF strict_exact assms(1,3,4) f(1)] by blast
  show ?thesis using f d kv_len [OF f(4)] assms(3) by (simp add: spec_start_def at_ctx_def)
qed

text \<open>One round commits a stretch of the greedy continuation.\<close>

lemma round_greedy:
  assumes "at_ctx ctx st" and "room (length ctx + Suc K)"
  shows "\<exists>m st'. spec_round T D pt K st = (sp_target st', Inr (greedy nx (ctx @ [sp_head st]) (Suc m), m, st')) \<and> m \<le> K \<and>
    at_ctx (ctx @ sp_head st # greedy nx (ctx @ [sp_head st]) m) st'"
proof -
  let ?h = "sp_head st"
  let ?base = "ctx @ [?h]"
  have pos: "sp_pos st = length ctx" and hold: "holds (sp_target st) ctx" and ne: "ctx \<noteq> []"
    and syn: "synced (sp_draft st) (length ctx)" using assms(1) by (simp_all add: at_ctx_def)
  obtain drafts d1 where dr: "d_propose D (sp_draft st) ?h K (length ctx) pt
        (if d_needs_hidden D then Some (t_hidden T (sp_target st)) else None) = Inr (drafts, d1)"
      "length drafts = K"
      "\<And>keep toks hid. length ctx < keep \<Longrightarrow> keep \<le> length ctx + K + 1 \<Longrightarrow>
        strict \<longrightarrow> length toks = keep - length ctx \<and> length hid = keep - length ctx \<Longrightarrow> synced (d_rollback D (if d_needs_hidden D then d_eagle_commit D d1 toks hid else d1) keep) keep"
    using draft_propose [OF syn, of ?h K pt
        "if d_needs_hidden D then Some (t_hidden T (sp_target st)) else None"] by auto
  obtain rows s1 where fw: "t_forward T (sp_target st) (?h # drafts) (length ctx) = (s1, Inr rows)"
      "holds s1 (ctx @ ?h # drafts)"
      "map (t_argmax T) rows = map (\<lambda>j. nx (ctx @ take (Suc j) (?h # drafts))) [0 ..< length (?h # drafts)]"
    using forward [OF hold ne, of "?h # drafts"] dr(2) assms(2) by auto
  let ?preds = "map (t_argmax T) rows"
  have plen: "length ?preds = Suc K" using fw(3) dr(2) by simp
  have pj: "?preds ! j = nx (?base @ take j drafts)" if "j \<le> K" for j
    unfolding fw(3) using that dr(2) by (simp del: upt_Suc)
  obtain m where m: "match_len K ?preds drafts 0 = Inr m" "m \<le> K" "take m drafts = greedy nx ?base m"
    using match_len_greedy [OF plen dr(2) pj, of 0] by auto
  let ?ctx = "ctx @ ?h # greedy nx ?base m"
  have extra: "?preds ! m = nx ?ctx" using pj [OF m(2)] m(3) by simp
  have com: "take m drafts @ [?preds ! m] = greedy nx ?base (Suc m)"
    using m(3) extra by (simp only: greedy_snoc) simp
  have keep: "length ctx + m + 1 = length ?ctx" by simp
  have "take (length ctx + m + 1) (ctx @ ?h # drafts) = ?ctx" using m(3) by simp
  then obtain s2 where "t_rollback T s1 (length ctx + m + 1) = (s2, Inr ())" "holds s2 ?ctx"
    using rollback [OF fw(2), of "length ctx + m + 1"] m(2) dr(2) by auto
  moreover have "synced (d_rollback D (if d_needs_hidden D
      then d_eagle_commit D d1 (?h # take m drafts) (take (m + 1) (t_hidden T s1)) else d1) (length ctx + m + 1))
      (length ctx + m + 1)"
  proof (rule dr(3))
    have "length rows = Suc K" using plen by simp
    then show "strict \<longrightarrow> length (?h # take m drafts) = length ctx + m + 1 - length ctx \<and>
        length (take (m + 1) (t_hidden T s1)) = length ctx + m + 1 - length ctx"
      using hidden_rows [OF strict_exact fw(1)] m(2) dr(2) by simp
  qed (use m(2) in auto)
  ultimately show ?thesis
    using dr(1) fw(1) m(1,2) plen com extra keep
    by (intro exI [of _ m]) (simp add: spec_round_def pos at_ctx_def Let_def)
qed

lemma loop_greedy:
  assumes "at_ctx (prompt @ butlast out) st" and "out = greedy nx prompt (length out)" and "out \<noteq> []"
    and "counts_ok K lc (length out)" and rm: "room (length prompt + n_new + K)"
  shows "\<exists>out' st' lc' gc'. spec_loop T D pt K n_new out st lc gc = (sp_target st', gc', Inr (out', st', lc')) \<and>
    n_new \<le> length out' \<and> out' = greedy nx prompt (length out') \<and> counts_ok K lc' (length out') \<and>
    at_ctx (prompt @ butlast out') st'"
  using assms(1-4)
proof (induction "n_new - length out" arbitrary: out st lc gc rule: less_induct)
  case less
  show ?case
  proof (cases "length out < n_new")
    case False
    then show ?thesis using less.prems by (simp add: spec_loop.simps)
  next
    case True
    let ?ctx = "prompt @ butlast out"
    have head: "sp_head st = nx ?ctx" using less.prems(1) by (simp add: at_ctx_def)
    obtain k where k: "length out = Suc k" using less.prems(3) by (cases out) auto
    have bl: "butlast out = greedy nx prompt k"
      using less.prems(2) k greedy_snoc [of nx prompt k] by (metis butlast_snoc)
    have out: "out = butlast out @ [sp_head st]"
      using less.prems(2) k greedy_snoc [of nx prompt k] bl head by metis
    have now: "room (length ?ctx + Suc K)" using room_le [OF rm] True k by simp
    obtain m st' where r: "spec_round T D pt K st = (sp_target st', Inr (greedy nx (?ctx @ [sp_head st]) (Suc m), m, st'))"
        "m \<le> K" "at_ctx (?ctx @ sp_head st # greedy nx (?ctx @ [sp_head st]) m) st'"
      using round_greedy [OF less.prems(1) now] by blast
    let ?com = "greedy nx (?ctx @ [sp_head st]) (Suc m)"
    have base: "?ctx @ [sp_head st] = prompt @ out" using out by simp
    have out': "out @ ?com = greedy nx prompt (length (out @ ?com))"
      unfolding base using less.prems(2) greedy_add [of nx prompt "length out" "Suc m"] by simp
    have "butlast (out @ ?com) = out @ greedy nx (?ctx @ [sp_head st]) m"
      by (simp only: greedy_snoc) (simp add: butlast_append)
    then have at': "at_ctx (prompt @ butlast (out @ ?com)) st'"
      using r(3) base by (metis append.assoc append_Cons append_Nil)
    have "counts_ok K (bump_counts m K lc) (length (out @ ?com))"
      using less.prems(4) r(2) by (auto simp: counts_ok_def bump_counts_def)
    moreover have "n_new - length (out @ ?com) < n_new - length out" using True by simp
    ultimately obtain out2 st2 lc2 gc2 where
        "spec_loop T D pt K n_new (out @ ?com) st' (bump_counts m K lc) (map_option (bump_counts m K) gc)
          = (sp_target st2, gc2, Inr (out2, st2, lc2))"
        "n_new \<le> length out2" "out2 = greedy nx prompt (length out2)" "counts_ok K lc2 (length out2)"
        "at_ctx (prompt @ butlast out2) st2"
      using less.hyps [OF _ at' out', of "bump_counts m K lc" "map_option (bump_counts m K) gc"] by auto
    then show ?thesis using True r(1) by (simp add: spec_loop.simps [of T D pt K n_new out])
  qed
qed

lemma spec_correct:
  assumes "fresh s prompt" and "startable d" and "prompt \<noteq> []" and rm: "room (length prompt + n_new + K)"
  shows "\<exists>st lc gc' n. speculative_greedy T D pt K s d prompt n_new gc =
      (sp_target st, gc', Inr (greedy nx prompt n_new, st, lc)) \<and> n_new \<le> n \<and> counts_ok K lc n \<and>
      kept prompt (sp_target st) \<and> t_kv_len T (sp_target st) = length prompt + sc_accepted lc + sc_rounds lc"
proof -
  obtain st where st: "spec_start T D s d prompt = (sp_target st, Inr st)" "at_ctx prompt st"
    using start_at [OF assms(1-3) room_le [OF rm]] by auto
  have head: "[sp_head st] = greedy nx prompt (length [sp_head st])" using st(2) by (simp add: at_ctx_def)
  have c0: "counts_ok K no_counts (length [sp_head st])" by (simp add: counts_ok_def no_counts_def)
  obtain out' st' lc' gc' where l: "spec_loop T D pt K n_new [sp_head st] st no_counts gc = (sp_target st', gc', Inr (out', st', lc'))"
      "n_new \<le> length out'" "out' = greedy nx prompt (length out')" "counts_ok K lc' (length out')"
      "at_ctx (prompt @ butlast out') st'"
    using loop_greedy [of prompt "[sp_head st]" st K no_counts n_new pt gc] st(2) head c0 rm by auto
  have "take n_new out' = greedy nx prompt n_new"
    using l(2,3) take_greedy [of n_new nx prompt "length out'"] by simp
  moreover have "kept prompt (sp_target st')" using l(5) by (auto simp: at_ctx_def intro: keptI)
  moreover have "t_kv_len T (sp_target st') = length prompt + sc_accepted lc' + sc_rounds lc'"
    using l(4,5) kv_len [of "sp_target st'" "prompt @ butlast out'"] by (simp add: at_ctx_def counts_ok_def)
  ultimately show ?thesis using st(1) l(1,2,4) by (auto simp: speculative_greedy_def)
qed

lemma stream_greedy:
  assumes "at_ctx (prompt @ butlast out) st" and "out = greedy nx prompt (length out)" and "out \<noteq> []"
    and "\<forall>t \<in> set out. t \<notin> eos" and rm: "room (length prompt + n_new + K)"
  shows "\<exists>ys s gc'. stream_loop T D pt K eos n_new (length out) st gc = (ys, s, gc', Inr ()) \<and>
    kept prompt s \<and> out @ ys = until_eos eos (greedy nx prompt (max (length out) n_new))"
  using assms(1-4)
proof (induction "n_new - length out" arbitrary: out st gc rule: less_induct)
  case less
  have held: "kept prompt (sp_target st)" using less.prems(1) by (auto simp: at_ctx_def intro: keptI)
  show ?case
  proof (cases "length out < n_new")
    case False
    then show ?thesis using less.prems until_eos_all held by (auto simp: stream_loop.simps max_def)
  next
    case True
    let ?ctx = "prompt @ butlast out"
    obtain k where k: "length out = Suc k" using less.prems(3) by (cases out) auto
    have head: "sp_head st = nx ?ctx" using less.prems(1) by (simp add: at_ctx_def)
    have bl: "butlast out = greedy nx prompt k"
      using less.prems(2) k greedy_snoc [of nx prompt k] by (metis butlast_snoc)
    have out: "out = butlast out @ [sp_head st]"
      using less.prems(2) k greedy_snoc [of nx prompt k] bl head by metis
    have now: "room (length ?ctx + Suc K)" using room_le [OF rm] True k by simp
    obtain m st' where r: "spec_round T D pt K st = (sp_target st', Inr (greedy nx (?ctx @ [sp_head st]) (Suc m), m, st'))"
        "at_ctx (?ctx @ sp_head st # greedy nx (?ctx @ [sp_head st]) m) st'"
      using round_greedy [OF less.prems(1) now] by blast
    let ?com = "greedy nx (?ctx @ [sp_head st]) (Suc m)"
    have base: "?ctx @ [sp_head st] = prompt @ out" using out by simp
    have out': "out @ ?com = greedy nx prompt (length (out @ ?com))"
      unfolding base using less.prems(2) greedy_add [of nx prompt "length out" "Suc m"] by simp
    have max: "max (length out) n_new = n_new" using True by simp
    consider (go) "emit_committed eos n_new (length out) ?com = (?com, False)" "length (out @ ?com) \<le> n_new"
        "\<forall>t \<in> set (out @ ?com). t \<notin> eos"
      | (stop) ys where "emit_committed eos n_new (length out) ?com = (ys, True)"
        "out @ ys = until_eos eos (greedy nx prompt n_new)"
      using emit_greedy [OF less.prems(2,4) True, of ?com "Suc m"] base by metis
    then show ?thesis
    proof cases
      case go
      have "butlast (out @ ?com) = out @ greedy nx (?ctx @ [sp_head st]) m"
        by (simp only: greedy_snoc) (simp add: butlast_append)
      then have at': "at_ctx (prompt @ butlast (out @ ?com)) st'"
        using r(2) base by (metis append.assoc append_Cons append_Nil)
      have ne: "out @ ?com \<noteq> []" by simp
      have "n_new - length (out @ ?com) < n_new - length out" using True by simp
      then obtain ys s2 gc2 where ys: "stream_loop T D pt K eos n_new (length (out @ ?com)) st'
            (map_option (bump_counts m K) gc) = (ys, s2, gc2, Inr ())" "kept prompt s2"
          "(out @ ?com) @ ys = until_eos eos (greedy nx prompt (max (length (out @ ?com)) n_new))"
        using less.hyps [OF _ at' out' ne go(3), of "map_option (bump_counts m K) gc"] by blast
      have "max (length (out @ ?com)) n_new = n_new" using go(2) by (simp only: max_absorb2)
      then show ?thesis using True r(1) go(1) ys max
        by (simp add: stream_loop.simps [of T D pt K eos n_new "length out"] del: greedy.simps)
    next
      case stop
      have "kept prompt (sp_target st')" using r(2) by (auto simp: at_ctx_def intro: keptI)
      then show ?thesis using True r(1) stop max
        by (simp add: stream_loop.simps [of T D pt K eos n_new "length out"] Let_def del: greedy.simps)
    qed
  qed
qed

lemma stream_correct:
  assumes "fresh s prompt" and "startable d" and "prompt \<noteq> []" and rm: "room (length prompt + n_new + K)"
  shows "\<exists>s' gc'. speculative_greedy_stream T D pt K eos s d prompt n_new gc =
    (until_eos eos (greedy nx prompt (max 1 n_new)), s', gc', Inr ()) \<and> kept prompt s'"
proof -
  obtain st where st: "spec_start T D s d prompt = (sp_target st, Inr st)" "at_ctx prompt st"
    using start_at [OF assms(1-3) room_le [OF rm]] by auto
  have head: "sp_head st = nx prompt" using st(2) by (simp add: at_ctx_def)
  show ?thesis
  proof (cases "sp_head st \<in> eos")
    case True
    have "greedy nx prompt (max 1 n_new) = nx prompt # greedy nx (prompt @ [nx prompt]) (max 1 n_new - 1)"
      by (cases "max 1 n_new") auto
    moreover have "kept prompt (sp_target st)" using st(2) keptI [of _ prompt "[]"] by (simp add: at_ctx_def)
    ultimately show ?thesis using True st(1) head by (simp add: speculative_greedy_stream_def until_eos_def)
  next
    case False
    have one: "[sp_head st] = greedy nx prompt (length [sp_head st])" using head by simp
    obtain ys s' gc' where "stream_loop T D pt K eos n_new (length [sp_head st]) st gc = (ys, s', gc', Inr ())"
        "kept prompt s'" "[sp_head st] @ ys = until_eos eos (greedy nx prompt (max (length [sp_head st]) n_new))"
      using stream_greedy [of prompt "[sp_head st]" st eos n_new K pt gc] st(2) one False rm by auto
    then show ?thesis using st(1) False by (simp add: speculative_greedy_stream_def)
  qed
qed

end

subsection \<open>Causality of a stage\<close>

lemma layer_forward_append:
  "layer_forward M g c (xs @ ys) =
     (let (o1, c1) = layer_forward M g c xs; (o2, c2) = layer_forward M g c1 ys in (o1 @ o2, c2))"
  by (induction M g c xs rule: layer_forward.induct) (auto simp: Let_def split: prod.split)

lemma layer_forward_length [simp]: "length (fst (layer_forward M g c xs)) = length xs"
  by (induction M g c xs rule: layer_forward.induct) (auto simp: Let_def split: prod.split)

lemma layer_forward_cache: "\<exists>new. snd (layer_forward M g c xs) = c @ new \<and> length new = length xs"
proof (induction xs arbitrary: c)
  case Nil
  then show ?case by simp
next
  case (Cons x xs)
  obtain h p where x: "x = (h, p)" by (cases x)
  obtain new where "snd (layer_forward M g (c @ [m_entry M g h p]) xs) = (c @ [m_entry M g h p]) @ new"
      "length new = length xs" using Cons.IH by blast
  then show ?case unfolding x
    by (intro exI [of _ "m_entry M g h p # new"]) (simp add: Let_def split_beta)
qed

lemma stage_forward_length [simp]:
  "length hs = length ps \<Longrightarrow> length (fst (stage_forward M gs kv hs ps)) = length hs"
proof (induction M gs kv hs ps rule: stage_forward.induct)
  case (2 M g gs kv hs ps)
  obtain hs' c where l: "layer_forward M g (kv ! g) (zip hs ps) = (hs', c)"
    by (cases "layer_forward M g (kv ! g) (zip hs ps)")
  then have "length hs' = length hs" using layer_forward_length [of M g "kv ! g" "zip hs ps"] 2(2) by simp
  then show ?case using 2 l by simp
qed simp

lemma stage_forward_slots [simp]: "length (snd (stage_forward M gs kv hs ps)) = length kv"
  by (induction M gs kv hs ps rule: stage_forward.induct) (simp_all split: prod.split)

lemma stage_forward_update:
  "g \<notin> set gs \<Longrightarrow> stage_forward M gs (kv[g := x]) hs ps =
     (fst (stage_forward M gs kv hs ps), (snd (stage_forward M gs kv hs ps))[g := x])"
proof (induction M gs kv hs ps rule: stage_forward.induct)
  case (2 M g' gs kv hs ps)
  obtain hs' c where "layer_forward M g' (kv ! g') (zip hs ps) = (hs', c)"
    by (cases "layer_forward M g' (kv ! g') (zip hs ps)")
  then show ?case using 2 by (auto simp: list_update_swap [of g' g])
qed simp

text \<open>Running a batch is running its first tokens, then the rest.\<close>

lemma stage_forward_append:
  assumes "distinct gs" and "\<forall>g \<in> set gs. g < length kv"
    and "length h1 = length p1" and "length h2 = length p2"
  shows "stage_forward M gs kv (h1 @ h2) (p1 @ p2) =
    (let (o1, kv1) = stage_forward M gs kv h1 p1; (o2, kv2) = stage_forward M gs kv1 h2 p2
     in (o1 @ o2, kv2))"
  using assms
proof (induction gs arbitrary: kv h1 h2)
  case Nil
  then show ?case by simp
next
  case (Cons g gs)
  obtain a1 c1 where l1: "layer_forward M g (kv ! g) (zip h1 p1) = (a1, c1)"
    by (cases "layer_forward M g (kv ! g) (zip h1 p1)")
  obtain a2 c2 where l2: "layer_forward M g c1 (zip h2 p2) = (a2, c2)"
    by (cases "layer_forward M g c1 (zip h2 p2)")
  have zip: "zip (h1 @ h2) (p1 @ p2) = zip h1 p1 @ zip h2 p2" using Cons.prems by simp
  have len: "length a1 = length p1" "length a2 = length p2"
    using layer_forward_length [of M g "kv ! g" "zip h1 p1"] layer_forward_length [of M g c1 "zip h2 p2"]
      l1 l2 Cons.prems by simp_all
  have g: "g \<notin> set gs" "g < length kv" using Cons.prems by simp_all
  obtain o1 kv1 where s1: "stage_forward M gs kv a1 p1 = (o1, kv1)" by (cases "stage_forward M gs kv a1 p1")
  have lk: "length kv1 = length kv" using stage_forward_slots [of M gs kv a1 p1] s1 by simp
  have IH: "stage_forward M gs kv (a1 @ a2) (p1 @ p2) =
      (let (o1, kv1) = stage_forward M gs kv a1 p1; (o2, kv2) = stage_forward M gs kv1 a2 p2
       in (o1 @ o2, kv2))"
    using Cons.prems len by (intro Cons.IH) auto
  have left: "stage_forward M (g # gs) kv (h1 @ h2) (p1 @ p2) = stage_forward M gs (kv[g := c2]) (a1 @ a2) (p1 @ p2)"
    using l1 l2 by (simp add: zip layer_forward_append)
  have first: "stage_forward M (g # gs) kv h1 p1 = (o1, kv1[g := c1])"
    using l1 s1 by (simp add: stage_forward_update [OF g(1)])
  have second: "stage_forward M (g # gs) (kv1[g := c1]) h2 p2 =
      (fst (stage_forward M gs kv1 a2 p2), (snd (stage_forward M gs kv1 a2 p2))[g := c2])"
    using l2 g lk by (simp add: stage_forward_update [OF g(1)])
  show ?case
    unfolding left stage_forward_update [OF g(1)] IH first using s1 second
    by (simp add: split_beta Let_def)
qed

text \<open>Each owned slot grows by one entry per token, the others stay.\<close>

lemma stage_forward_grow:
  assumes "distinct gs" and "length hs = length ps" and "i < length kv"
  shows "\<exists>new. snd (stage_forward M gs kv hs ps) ! i = kv ! i @ new \<and>
    length new = (if i \<in> set gs then length hs else 0)"
  using assms
proof (induction gs arbitrary: kv hs)
  case Nil
  then show ?case by simp
next
  case (Cons g gs)
  obtain hs' c where l: "layer_forward M g (kv ! g) (zip hs ps) = (hs', c)"
    by (cases "layer_forward M g (kv ! g) (zip hs ps)")
  have len: "length hs' = length hs"
    using layer_forward_length [of M g "kv ! g" "zip hs ps"] l Cons.prems by simp
  obtain newg where ng: "c = kv ! g @ newg" "length newg = length hs"
    using layer_forward_cache [of M g "kv ! g" "zip hs ps"] l Cons.prems by auto
  have "\<exists>new. snd (stage_forward M gs (kv[g := c]) hs' ps) ! i = kv[g := c] ! i @ new \<and>
      length new = (if i \<in> set gs then length hs' else 0)"
    using Cons.prems len by (intro Cons.IH) auto
  then obtain new where n: "snd (stage_forward M gs (kv[g := c]) hs' ps) ! i = kv[g := c] ! i @ new"
      "length new = (if i \<in> set gs then length hs else 0)" using len by auto
  show ?case
  proof (cases "i = g")
    case True
    then show ?thesis using n ng l Cons.prems by (auto intro!: exI [of _ newg])
  next
    case False
    then show ?thesis using n l by auto
  qed
qed

subsection \<open>Causality of the whole pipeline\<close>

abbreviation stages_wf :: "nat \<Rightarrow> nat list list \<Rightarrow> bool" where
  "stages_wf n sts \<equiv> \<forall>gs \<in> set sts. distinct gs \<and> (\<forall>g \<in> set gs. g < n)"

lemma stages_forward_shape:
  "length sts = length cs \<Longrightarrow> length hs = length ps \<Longrightarrow>
     length (fst (stages_forward M sts cs hs ps)) = length hs \<and>
     length (snd (stages_forward M sts cs hs ps)) = length cs \<and>
     map length (snd (stages_forward M sts cs hs ps)) = map length cs"
proof (induction sts cs arbitrary: hs rule: list_induct2)
  case Nil
  then show ?case by simp
next
  case (Cons st sts c cs)
  obtain hs' c' where s: "stage_forward M st c hs ps = (hs', c')" by (cases "stage_forward M st c hs ps")
  have "length hs' = length hs" "length c' = length c"
    using stage_forward_length [OF Cons.prems, of M st c] stage_forward_slots [of M st c hs ps] s by simp_all
  then show ?case using Cons.IH [of hs'] Cons.prems s by (simp add: split_beta)
qed

lemma stages_forward_append:
  assumes "length sts = length cs" and "stages_wf n sts" and "\<forall>c \<in> set cs. length c = n"
    and "length h1 = length p1" and "length h2 = length p2"
  shows "stages_forward M sts cs (h1 @ h2) (p1 @ p2) =
    (let (o1, cs1) = stages_forward M sts cs h1 p1; (o2, cs2) = stages_forward M sts cs1 h2 p2
     in (o1 @ o2, cs2))"
  using assms
proof (induction sts cs arbitrary: h1 h2 rule: list_induct2)
  case Nil
  then show ?case by simp
next
  case (Cons st sts c cs)
  obtain a1 c1 where s1: "stage_forward M st c h1 p1 = (a1, c1)" by (cases "stage_forward M st c h1 p1")
  obtain a2 c2 where s2: "stage_forward M st c1 h2 p2 = (a2, c2)" by (cases "stage_forward M st c1 h2 p2")
  have "length a1 = length p1" "length a2 = length p2"
    using stage_forward_length [OF Cons.prems(3), of M st c] stage_forward_length [OF Cons.prems(4), of M st c1]
      s1 s2 Cons.prems by simp_all
  then have IH: "stages_forward M sts cs (a1 @ a2) (p1 @ p2) =
      (let (o1, cs1) = stages_forward M sts cs a1 p1; (o2, cs2) = stages_forward M sts cs1 a2 p2
       in (o1 @ o2, cs2))"
    using Cons.prems by (intro Cons.IH) auto
  have "stage_forward M st c (h1 @ h2) (p1 @ p2) = (a1 @ a2, c2)"
    using stage_forward_append [of st c h1 p1 h2 p2 M] Cons.prems s1 s2 by auto
  then show ?case using IH s1 s2 by (simp add: split_beta Let_def)
qed

lemma stages_forward_grow:
  assumes "length sts = length cs" and "stages_wf n sts" and "length hs = length ps"
    and "k < length cs" and "i < length (cs ! k)"
  shows "\<exists>new. snd (stages_forward M sts cs hs ps) ! k ! i = cs ! k ! i @ new \<and>
    length new = (if i \<in> set (sts ! k) then length hs else 0)"
  using assms
proof (induction sts cs arbitrary: hs k rule: list_induct2)
  case Nil
  then show ?case by simp
next
  case (Cons st sts c cs)
  obtain hs' c' where s: "stage_forward M st c hs ps = (hs', c')" by (cases "stage_forward M st c hs ps")
  have len: "length hs' = length hs"
    using stage_forward_length [OF Cons.prems(2), of M st c] s by simp
  show ?case
  proof (cases k)
    case 0
    have d: "distinct st" and i: "i < length c" using Cons.prems 0 by simp_all
    show ?thesis using stage_forward_grow [OF d Cons.prems(2) i, of M] s 0
      by (simp add: split_beta del: if_split)
  next
    case (Suc j)
    have "\<exists>new. snd (stages_forward M sts cs hs' ps) ! j ! i = cs ! j ! i @ new \<and>
        length new = (if i \<in> set (sts ! j) then length hs' else 0)"
      using Cons.prems Suc len by (intro Cons.IH) auto
    then show ?thesis using s Suc len by (simp only: stages_forward.simps split_beta) simp
  qed
qed

subsection \<open>The split target keeps the target's contract\<close>

text \<open>The whole sequence from empty caches: the reference without any reuse of the cache.\<close>

definition split_run ::
  "('e, 'h, 'l) model_ops \<Rightarrow> nat \<Rightarrow> nat list list \<Rightarrow> int list \<Rightarrow> 'h list \<times> 'e stage_kv list" where
  "split_run M n sts ctx =
     stages_forward M sts (map (\<lambda>_. replicate n []) sts) (map (m_embed M) ctx) [0 ..< length ctx]"

definition split_next :: "('e, 'h, 'l) model_ops \<Rightarrow> nat \<Rightarrow> nat list list \<Rightarrow> int list \<Rightarrow> int" where
  "split_next M n sts ctx = m_argmax M (m_head M (last (fst (split_run M n sts ctx))))"

definition split_ok :: "nat \<Rightarrow> nat list list \<Rightarrow> bool" where
  "split_ok n sts \<longleftrightarrow> sts \<noteq> [] \<and> hd sts \<noteq> [] \<and> stages_wf n sts"

definition split_holds ::
  "('e, 'h, 'l) model_ops \<Rightarrow> nat \<Rightarrow> nat list list \<Rightarrow> ('e, 'h) split_state \<Rightarrow> int list \<Rightarrow> bool" where
  "split_holds M n sts s ctx \<longleftrightarrow> split_ok n sts \<and> sst_caches s = snd (split_run M n sts ctx)"

definition split_fresh :: "nat \<Rightarrow> nat list list \<Rightarrow> ('e, 'h) split_state \<Rightarrow> int list \<Rightarrow> bool" where
  "split_fresh n sts s prompt \<longleftrightarrow> split_ok n sts \<and> sst_caches s = map (\<lambda>_. replicate n []) sts"

lemma split_run_shape:
  "length (fst (split_run M n sts ctx)) = length ctx \<and> length (snd (split_run M n sts ctx)) = length sts \<and>
   map length (snd (split_run M n sts ctx)) = map (\<lambda>_. n) sts"
  using stages_forward_shape [of sts "map (\<lambda>_. replicate n []) sts" "map (m_embed M) ctx" "[0 ..< length ctx]" M]
  by (simp add: split_run_def o_def)

lemma split_run_width: "\<forall>c \<in> set (snd (split_run M n sts ctx)). length c = n"
proof
  fix c assume "c \<in> set (snd (split_run M n sts ctx))"
  then have "length c \<in> set (map length (snd (split_run M n sts ctx)))" by simp
  then show "length c = n" using split_run_shape [of M n sts ctx] by auto
qed

lemma split_run_append:
  assumes "stages_wf n sts"
  shows "split_run M n sts (ctx @ ids) =
    (let (o1, cs1) = split_run M n sts ctx;
         (o2, cs2) = stages_forward M sts cs1 (map (m_embed M) ids) (map (\<lambda>i. i + length ctx) [0 ..< length ids])
     in (o1 @ o2, cs2))"
proof -
  have "[0 ..< length (ctx @ ids)] = [0 ..< length ctx] @ map (\<lambda>i. i + length ctx) [0 ..< length ids]"
    using upt_add_eq_append [of 0 "length ctx" "length ids"] by (simp add: map_add_upt add.commute)
  then show ?thesis
    unfolding split_run_def
    using stages_forward_append [of sts "map (\<lambda>_. replicate n []) sts" n "map (m_embed M) ctx" "[0 ..< length ctx]"
        "map (m_embed M) ids" "map (\<lambda>i. i + length ctx) [0 ..< length ids]" M] assms by auto
qed

text \<open>A slot holds one entry per token if its stage owns the layer, none otherwise.\<close>

lemma split_run_slot:
  assumes "stages_wf n sts" and "k < length sts" and "i < n"
  shows "length (snd (split_run M n sts ctx) ! k ! i) = (if i \<in> set (sts ! k) then length ctx else 0)"
proof -
  let ?cs = "map (\<lambda>_. replicate n []) sts :: 'a stage_kv list"
  have "\<exists>new. snd (stages_forward M sts ?cs (map (m_embed M) ctx) [0 ..< length ctx]) ! k ! i = ?cs ! k ! i @ new \<and>
      length new = (if i \<in> set (sts ! k) then length (map (m_embed M) ctx) else 0)"
    using assms by (intro stages_forward_grow [of sts ?cs n]) simp_all
  then show ?thesis using assms by (auto simp: split_run_def)
qed

lemma split_run_truncate:
  assumes wf: "stages_wf n sts" and m: "m \<le> length ctx"
  shows "map (kv_truncate m) (snd (split_run M n sts ctx)) = snd (split_run M n sts (take m ctx))"
proof (rule nth_equalityI)
  let ?a = "snd (split_run M n sts (take m ctx))"
  let ?b = "snd (split_run M n sts ctx)"
  have len: "length ?a = length sts" "length ?b = length sts" using split_run_shape [of M n sts] by auto
  then show "length (map (kv_truncate m) ?b) = length ?a" by simp
  fix k assume "k < length (map (kv_truncate m) ?b)"
  then have k: "k < length sts" using len by simp
  have width: "length (?a ! k) = n" "length (?b ! k) = n" using split_run_width k len by (metis nth_mem)+
  have "kv_truncate m (?b ! k) = ?a ! k"
  proof (rule nth_equalityI)
    show "length (kv_truncate m (?b ! k)) = length (?a ! k)" using width by (simp add: kv_truncate_def)
    fix i assume "i < length (kv_truncate m (?b ! k))"
    then have i: "i < n" using width by (simp add: kv_truncate_def)
    let ?ids = "drop m ctx"
    have "?b = snd (stages_forward M sts ?a (map (m_embed M) ?ids) (map (\<lambda>i. i + length (take m ctx)) [0 ..< length ?ids]))"
      using split_run_append [OF wf, of M "take m ctx" ?ids] by (simp add: split_beta Let_def)
    moreover have "\<exists>new. snd (stages_forward M sts ?a (map (m_embed M) ?ids)
          (map (\<lambda>i. i + length (take m ctx)) [0 ..< length ?ids])) ! k ! i = ?a ! k ! i @ new \<and>
        length new = (if i \<in> set (sts ! k) then length (map (m_embed M) ?ids) else 0)"
      using wf k i len width by (intro stages_forward_grow [of sts ?a n]) simp_all
    ultimately obtain new where new: "?b ! k ! i = ?a ! k ! i @ new"
        "length new = (if i \<in> set (sts ! k) then length (map (m_embed M) ?ids) else 0)" by metis
    have "length (?a ! k ! i) = (if i \<in> set (sts ! k) then m else 0)"
      using split_run_slot [OF wf k i, of M "take m ctx"] m by simp
    then have "take m (?b ! k ! i) = ?a ! k ! i" using new by (auto split: if_splits)
    then show "kv_truncate m (?b ! k) ! i = ?a ! k ! i" using i width by (simp add: kv_truncate_take)
  qed
  then show "map (kv_truncate m) ?b ! k = ?a ! k" using k len by simp
qed

lemma split_run_causal:
  assumes "stages_wf n sts"
  shows "fst (split_run M n sts (take m ctx)) = take m (fst (split_run M n sts ctx))"
proof -
  have "fst (split_run M n sts ctx) = fst (split_run M n sts (take m ctx)) @ rest" if "rest = fst (stages_forward M sts
      (snd (split_run M n sts (take m ctx))) (map (m_embed M) (drop m ctx))
      (map (\<lambda>i. i + length (take m ctx)) [0 ..< length (drop m ctx)]))" for rest
    using split_run_append [OF assms, of M "take m ctx" "drop m ctx"] that by (simp add: split_beta Let_def)
  then have "take (length (take m ctx)) (fst (split_run M n sts ctx)) = fst (split_run M n sts (take m ctx))"
    using split_run_shape [of M n sts "take m ctx"] by simp
  then show ?thesis using split_run_shape [of M n sts ctx] by (cases "m \<le> length ctx") auto
qed

text \<open>The rows of a batch predict what the model predicts after each of its tokens.\<close>

lemma split_rows:
  assumes wf: "stages_wf n sts"
    and f: "stages_forward M sts (snd (split_run M n sts ctx)) (map (m_embed M) ids)
      (map (\<lambda>i. i + length ctx) [0 ..< length ids]) = (o2, cs2)"
  shows "map (m_argmax M) (map (m_head M) o2) = map (\<lambda>j. split_next M n sts (ctx @ take (Suc j) ids)) [0 ..< length ids]"
proof -
  have full: "split_run M n sts (ctx @ ids) = (fst (split_run M n sts ctx) @ o2, cs2)"
    using split_run_append [OF wf, of M ctx ids] f by (simp add: split_beta Let_def)
  have lo2: "length o2 = length ids"
    using split_run_shape [of M n sts "ctx @ ids"] split_run_shape [of M n sts ctx] full by simp
  have "m_argmax M (m_head M (o2 ! j)) = split_next M n sts (ctx @ take (Suc j) ids)" if j: "j < length ids" for j
  proof -
    have "fst (split_run M n sts (ctx @ take (Suc j) ids)) = take (length ctx + Suc j) (fst (split_run M n sts (ctx @ ids)))"
      using split_run_causal [OF wf, of M "length ctx + Suc j" "ctx @ ids"] by simp
    also have "\<dots> = fst (split_run M n sts ctx) @ take (Suc j) o2"
      using full split_run_shape [of M n sts ctx] by simp
    finally show ?thesis using j lo2 by (simp add: split_next_def take_Suc_conv_app_nth)
  qed
  then show ?thesis using lo2 by (intro nth_equalityI) simp_all
qed

interpretation split: decode_target "split_target M sts" "split_holds M n sts" "split_fresh n sts" "split_next M n sts"
  "\<lambda>_. True"
  for M :: "('e, 'h, 'l) model_ops" and n sts
proof
  fix s :: "('e, 'h) split_state" and prompt :: "int list"
  assume fresh: "split_fresh n sts s prompt" and ne: "prompt \<noteq> []"
  have run: "stages_forward M sts (sst_caches s) (map (m_embed M) prompt) (map (\<lambda>i. i + 0) [0 ..< length prompt])
      = split_run M n sts prompt"
    using fresh by (simp add: split_fresh_def split_run_def)
  have "fst (split_run M n sts prompt) \<noteq> []" using split_run_shape [of M n sts prompt] ne by auto
  then show "\<exists>rows s'. t_forward (split_target M sts) s prompt 0 = (s', Inr rows) \<and> rows \<noteq> [] \<and>
      t_argmax (split_target M sts) (last rows) = split_next M n sts prompt \<and> split_holds M n sts s' prompt"
    using fresh run by (simp add: split_target_def split_forward_def split_next_def split_holds_def
        split_fresh_def split_beta last_map)
next
  fix s :: "('e, 'h) split_state" and ctx ids :: "int list"
  assume h: "split_holds M n sts s ctx" and ne: "ctx \<noteq> []" "ids \<noteq> []"
  have wf: "stages_wf n sts" and c: "sst_caches s = snd (split_run M n sts ctx)"
    using h by (simp_all add: split_holds_def split_ok_def)
  obtain o2 cs2 where f: "stages_forward M sts (sst_caches s) (map (m_embed M) ids)
      (map (\<lambda>i. i + length ctx) [0 ..< length ids]) = (o2, cs2)"
    by (cases "stages_forward M sts (sst_caches s) (map (m_embed M) ids) (map (\<lambda>i. i + length ctx) [0 ..< length ids])")
  have full: "split_run M n sts (ctx @ ids) = (fst (split_run M n sts ctx) @ o2, cs2)"
    using split_run_append [OF wf, of M ctx ids] f c by (simp add: split_beta Let_def)
  have "map (m_argmax M) (map (m_head M) o2) = map (\<lambda>j. split_next M n sts (ctx @ take (Suc j) ids)) [0 ..< length ids]"
    using split_rows [OF wf] f c by simp
  then show "\<exists>rows s'. t_forward (split_target M sts) s ids (length ctx) = (s', Inr rows) \<and>
      split_holds M n sts s' (ctx @ ids) \<and> map (t_argmax (split_target M sts)) rows =
      map (\<lambda>j. split_next M n sts (ctx @ take (Suc j) ids)) [0 ..< length ids]"
    using h f full by (simp add: split_target_def split_forward_def split_holds_def)
next
  fix s :: "('e, 'h) split_state" and ctx :: "int list" and m
  assume "split_holds M n sts s ctx" "m \<le> length ctx"
  then show "\<exists>s'. t_rollback (split_target M sts) s m = (s', Inr ()) \<and> split_holds M n sts s' (take m ctx)"
    using split_run_truncate [where n = n and sts = sts and m = m and ctx = ctx and M = M]
    by (simp add: split_holds_def split_target_def split_rollback_def split_ok_def)
next
  fix s :: "('e, 'h) split_state" and ctx :: "int list"
  assume h: "split_holds M n sts s ctx"
  then obtain gs rest where sts: "sts = gs # rest" "gs \<noteq> []" "stages_wf n sts"
    by (cases sts) (auto simp: split_holds_def split_ok_def)
  let ?c = "hd (sst_caches s)"
  have c0: "?c = snd (split_run M n sts ctx) ! 0"
  proof -
    have "snd (split_run M n sts ctx) \<noteq> []" using split_run_shape [of M n sts ctx] sts by auto
    then show ?thesis using h by (simp add: split_holds_def hd_conv_nth)
  qed
  have width: "length ?c = n"
  proof -
    have "0 < length (snd (split_run M n sts ctx))" using split_run_shape [of M n sts ctx] sts by simp
    then have "?c \<in> set (snd (split_run M n sts ctx))" unfolding c0 by (rule nth_mem)
    then show ?thesis using split_run_width by blast
  qed
  have slot: "length (?c ! i) = (if i \<in> set gs then length ctx else 0)" if "i < n" for i
    using split_run_slot [OF sts(3), of 0 i M ctx] that sts(1) by (simp add: c0)
  have "kv_uniform (length ctx) ?c"
  proof -
    have g: "hd gs \<in> set gs" using sts(2) by (rule hd_in_set)
    then have gn: "hd gs < n" using sts(1,3) by simp
    have owned: "length (?c ! hd gs) = length ctx" using slot [OF gn] g by simp
    have mem: "?c ! hd gs \<in> set ?c" using gn width by (intro nth_mem) simp
    have each: "l = [] \<or> length l = length ctx" if l: "l \<in> set ?c" for l
    proof -
      obtain i where i: "i < length ?c" "?c ! i = l" using l by (auto simp: in_set_conv_nth)
      then have "length l = (if i \<in> set gs then length ctx else 0)" using slot [of i] width by simp
      then show ?thesis by (simp split: if_splits)
    qed
    have "\<exists>l \<in> set ?c. l \<noteq> []" if "0 < length ctx"
      using mem owned that by (intro bexI [OF _ mem]) auto
    then show ?thesis using each unfolding kv_uniform_def by blast
  qed
  then show "t_kv_len (split_target M sts) s = length ctx"
    by (simp add: split_target_def split_kv_len_def kv_seq_length_uniform)
qed

subsection \<open>The greedy draft keeps the draft's contract\<close>

definition draft_synced :: "nat \<Rightarrow> 'e stage_kv \<Rightarrow> nat \<Rightarrow> bool" where
  "draft_synced n kv pos \<longleftrightarrow> 0 < n \<and> length kv = n \<and> (\<forall>l \<in> set kv. length l = pos)"

lemma draft_synced_length: "draft_synced n kv pos \<Longrightarrow> kv_seq_length kv = pos"
proof -
  assume d: "draft_synced n kv pos"
  then have "hd kv \<in> set kv" by (auto simp: draft_synced_def)
  then have "kv_uniform pos kv" using d by (force simp: draft_synced_def kv_uniform_def)
  then show ?thesis by (rule kv_seq_length_uniform)
qed

lemma draft_forward_synced:
  assumes "draft_synced n kv pos"
  shows "draft_synced n (snd (draft_forward M n kv ids)) (pos + length ids)"
proof -
  let ?hs = "map (m_embed M) ids"
  let ?ps = "map (\<lambda>i. i + kv_seq_length kv) [0 ..< length ids]"
  let ?kv = "snd (stage_forward M [0 ..< n] kv ?hs ?ps)"
  have n: "0 < n" "length kv = n" using assms by (simp_all add: draft_synced_def)
  have "length (?kv ! i) = pos + length ids" if "i < n" for i
  proof -
    have "\<exists>new. ?kv ! i = kv ! i @ new \<and> length new = (if i \<in> set [0 ..< n] then length ?hs else 0)"
      using that n by (intro stage_forward_grow) simp_all
    moreover have "length (kv ! i) = pos" using assms that n by (simp add: draft_synced_def)
    ultimately show ?thesis using that by auto
  qed
  then have "\<forall>l \<in> set ?kv. length l = pos + length ids" using n by (auto simp: in_set_conv_nth)
  then show ?thesis using n by (simp add: draft_synced_def draft_forward_def split_beta)
qed

lemma propose_steps_synced:
  "draft_synced n kv pos \<Longrightarrow> propose_steps M n pt i k cur kv = (props, c, kv') \<Longrightarrow>
     length props = k \<and> draft_synced n kv' (pos + k)"
proof (induction k arbitrary: i cur kv pos props)
  case 0
  then show ?case by simp
next
  case (Suc k)
  obtain rows kv1 where f: "draft_forward M n kv [cur] = (rows, kv1)" by (cases "draft_forward M n kv [cur]")
  have s: "draft_synced n kv1 (pos + 1)" using draft_forward_synced [OF Suc.prems(1), of M "[cur]"] f by simp
  let ?nxt = "case pt of None \<Rightarrow> m_argmax M (last rows) | Some g \<Rightarrow> g i (m_argmax M (last rows))"
  obtain props' where p: "propose_steps M n pt (Suc i) k ?nxt kv1 = (props', c, kv')" "props = ?nxt # props'"
    using Suc.prems(2) f by (auto simp: Let_def split: prod.splits)
  show ?case using Suc.IH [OF s p(1)] p(2) by simp
qed

lemma draft_synced_truncate: "draft_synced n kv pos \<Longrightarrow> m \<le> pos \<Longrightarrow> draft_synced n (kv_truncate m kv) m"
  by (auto simp: draft_synced_def kv_truncate_take)

interpretation gdraft: draft_source "greedy_draft M n" "draft_synced n" "\<lambda>kv. 0 < n \<and> kv = replicate n []"
  for M :: "('e, 'h, 'l) model_ops" and n
proof
  fix kv :: "'e stage_kv" and prompt :: "int list" and hid :: "'x list"
  assume "0 < n \<and> kv = replicate n []"
  then have "draft_synced n kv 0" by (simp add: draft_synced_def)
  from draft_forward_synced [OF this, of M prompt]
  show "\<exists>d1. d_prefill (greedy_draft M n) kv prompt = Inr d1 \<and>
      draft_synced n (if d_needs_hidden (greedy_draft M n) then d_eagle_prefill (greedy_draft M n) d1 prompt hid else d1)
        (length prompt)"
    by (simp add: greedy_draft_def)
next
  fix kv :: "'e stage_kv" and pos :: nat and hd_tok :: int and K :: nat and pt :: perturb and hid' :: "'x list option"
  assume s: "draft_synced n kv pos"
  obtain props cur kv1 where p: "propose_steps M n pt 0 K hd_tok kv = (props, cur, kv1)"
    by (cases "propose_steps M n pt 0 K hd_tok kv") auto
  note s1 = propose_steps_synced [OF s p]
  have s2: "draft_synced n (snd (draft_forward M n kv1 [cur])) (pos + K + 1)"
    using draft_forward_synced [of n kv1 "pos + K" M "[cur]"] s1 by simp
  show "\<exists>ps d1. d_propose (greedy_draft M n) kv hd_tok K pos pt hid' = Inr (ps, d1) \<and> length ps = K \<and>
      (\<forall>keep toks hid. pos < keep \<and> keep \<le> pos + K + 1 \<and>
          (False \<longrightarrow> length toks = keep - pos \<and> length hid = keep - pos) \<longrightarrow>
        draft_synced n (d_rollback (greedy_draft M n) (if d_needs_hidden (greedy_draft M n)
          then d_eagle_commit (greedy_draft M n) d1 toks hid else d1) keep) keep)"
    using p s1 draft_synced_length [OF s] draft_synced_truncate [OF s2]
    by (simp add: greedy_draft_def greedy_propose_def)
qed

interpretation split_hidden: hidden_target "split_target M sts" "split_holds M n sts" "split_fresh n sts" "split_next M n sts"
  "\<lambda>_. True" True
  for M :: "('e, 'h, 'l) model_ops" and n sts
proof
  fix s s' :: "('e, 'h) split_state" and ids prompt :: "int list" and p rows
  have one: "length (t_hidden (split_target M sts) s') = length rows \<and> (length (sst_caches s) = length sts \<longrightarrow> length rows = length ids)"
    if "t_forward (split_target M sts) s ids p = (s', Inr rows)" for ids p
    using that stages_forward_shape [of sts "sst_caches s" "map (m_embed M) ids" "map (\<lambda>i. i + p) [0 ..< length ids]" M]
    by (auto simp: split_target_def split_forward_def split: prod.splits)
  show "length (t_hidden (split_target M sts) s') = length rows" if "t_forward (split_target M sts) s ids p = (s', Inr rows)"
    using one [OF that] by simp
  show "length (t_hidden (split_target M sts) s') = length prompt"
    if "split_fresh n sts s prompt" "t_forward (split_target M sts) s prompt 0 = (s', Inr rows)"
    using one [OF that(2)] that(1) by (simp add: split_fresh_def)
qed

interpretation sg: speculation "split_target M sts" "split_holds M n sts" "split_fresh n sts" "split_next M n sts" "\<lambda>_. True" True
    "greedy_draft N k" "draft_synced k" "\<lambda>kv. 0 < k \<and> kv = replicate k []" False
  for M :: "('e, 'h, 'l) model_ops" and n sts and N :: "('f, 'g, 'm) model_ops" and k
  by (intro speculation.intro speculation_axioms.intro split_hidden.hidden_target_axioms gdraft.feature_draft_axioms) simp

lemma split_speculation:
  "feature_draft D synced startable strict \<Longrightarrow> speculation (split_target M sts) (split_holds M n sts) (split_fresh n sts)
     (split_next M n sts) (\<lambda>_. True) True D synced startable strict"
  by (intro speculation.intro speculation_axioms.intro split_hidden.hidden_target_axioms) simp_all

subsection \<open>The correctness contract\<close>

text \<open>The rounds of a decode, each with what it commits and how many proposals it accepts.\<close>

inductive spec_rounds ::
  "('s, 'l, 'h) target_ops \<Rightarrow> ('d, 'h) draft_ops \<Rightarrow> perturb \<Rightarrow> nat \<Rightarrow>
   ('s, 'd) spec_state \<Rightarrow> (int list \<times> nat) list \<Rightarrow> ('s, 'd) spec_state \<Rightarrow> bool"
  for T D pt K where
  no_round: "spec_rounds T D pt K st [] st"
| more_rounds: "spec_round T D pt K st = (s, Inr (com, m, st1)) \<Longrightarrow> spec_rounds T D pt K st1 tr st2 \<Longrightarrow>
     spec_rounds T D pt K st ((com, m) # tr) st2"

text \<open>The counters after those rounds.\<close>

definition count_rounds :: "nat \<Rightarrow> (int list \<times> nat) list \<Rightarrow> spec_counts \<Rightarrow> spec_counts" where
  "count_rounds K tr c =
     c\<lparr>sc_rounds := sc_rounds c + length tr, sc_accepted := sc_accepted c + sum_list (map snd tr),
       sc_proposed := sc_proposed c + K * length tr,
       sc_window := map_option (\<lambda>w. w @ map (\<lambda>(com, m). (m, K)) tr) (sc_window c)\<rparr>"

lemma count_rounds_simps [simp]:
  "count_rounds K [] c = c"
  "count_rounds K ((com, m) # tr) c = count_rounds K tr (bump_counts m K c)"
  by (simp_all add: count_rounds_def bump_counts_def map_option.compositionality comp_def option.map_ident)

lemma match_len_bounds: "match_len k preds drafts m = Inr m' \<Longrightarrow> m' \<le> m + k \<and> (m \<le> length drafts \<longrightarrow> m' \<le> length drafts)"
  by (induction k preds drafts m rule: match_len.induct) (auto split: if_splits)

lemma spec_round_commits: "spec_round T D pt K st = (s, Inr (com, m, st1)) \<Longrightarrow> length com = Suc m \<and> m \<le> K \<and> sp_target st1 = s"
  by (auto simp: spec_round_def Let_def dest!: match_len_bounds split: if_splits sum.splits prod.splits)

lemma spec_loop_rounds:
  "spec_loop T D pt K n_new out st lc gc = (s, gc', Inr (out', st', lc')) \<Longrightarrow>
     \<exists>tr. spec_rounds T D pt K st tr st' \<and> out' = out @ concat (map fst tr) \<and>
       (tr \<noteq> [] \<longrightarrow> length (out @ concat (map fst (butlast tr))) < n_new) \<and>
       (\<forall>(com, m) \<in> set tr. length com = Suc m \<and> m \<le> K) \<and>
       lc' = count_rounds K tr lc \<and> gc' = map_option (count_rounds K tr) gc"
proof (induction T D pt K n_new out st lc gc arbitrary: s gc' out' st' lc' rule: spec_loop.induct)
  case (1 T D pt K n_new out st lc gc)
  show ?case
  proof (cases "length out < n_new")
    case False
    then show ?thesis using 1(2)
      by (intro exI [of _ "[]"]) (auto simp: spec_loop.simps [of T D pt K n_new out] option.map_ident intro: no_round)
  next
    case True
    obtain s1 com m st1 where r: "spec_round T D pt K st = (s1, Inr (com, m, st1))"
        "spec_loop T D pt K n_new (out @ com) st1 (bump_counts m K lc) (map_option (bump_counts m K) gc) =
          (s, gc', Inr (out', st', lc'))"
      using 1(2) True by (auto simp: spec_loop.simps [of T D pt K n_new out] split: prod.splits sum.splits)
    obtain tr where tr: "spec_rounds T D pt K st1 tr st'" "out' = (out @ com) @ concat (map fst tr)"
        "tr \<noteq> [] \<longrightarrow> length ((out @ com) @ concat (map fst (butlast tr))) < n_new"
        "\<forall>(com, m) \<in> set tr. length com = Suc m \<and> m \<le> K"
        "lc' = count_rounds K tr (bump_counts m K lc)" "gc' = map_option (count_rounds K tr) (map_option (bump_counts m K) gc)"
      using 1(1) [OF True r(1) [symmetric] refl refl refl r(2)] by blast
    show ?thesis
      using more_rounds [OF r(1) tr(1)] tr(2-6) True spec_round_commits [OF r(1)]
      by (intro exI [of _ "(com, m) # tr"]) (auto simp: option.map_comp comp_def)
  qed
qed

text \<open>C24. Speculative decoding over the split pipeline returns, for any draft that proposes \<open>K\<close>
  tokens and can be rolled back, exactly the \<open>n_new\<close> tokens of plain greedy decoding, where each
  token is the argmax of the model run from scratch, without any cache, on all tokens before it;
  it always returns (a round commits at least one token) and never runs out of predictions.  It
  stops after the first round that reaches \<open>n_new\<close> tokens; every round commits one token more than
  it accepts.  Its counters, and the caller's, count these rounds, \<open>K\<close> proposals for each, and
  exactly the proposals they accepted, round by round in the window; and the target's cache ends
  with one entry per prompt token, round and accepted proposal.\<close>

theorem speculative_is_greedy:
  assumes draft: "feature_draft D synced startable strict" and d: "startable d"
    and target: "split_fresh n sts s prompt" and prompt: "prompt \<noteq> []"
  shows "\<exists>st0 tr st. spec_start (split_target M sts) D s d prompt = (sp_target st0, Inr st0) \<and>
    spec_rounds (split_target M sts) D pt K st0 tr st \<and>
    speculative_greedy (split_target M sts) D pt K s d prompt n_new gc =
      (sp_target st, map_option (count_rounds K tr) gc,
       Inr (greedy (split_next M n sts) prompt n_new, st, count_rounds K tr no_counts)) \<and>
    greedy (split_next M n sts) prompt n_new = take n_new (sp_head st0 # concat (map fst tr)) \<and>
    n_new \<le> length (sp_head st0 # concat (map fst tr)) \<and>
    (tr = [] \<or> length (sp_head st0 # concat (map fst (butlast tr))) < n_new) \<and>
    (\<forall>(com, m) \<in> set tr. length com = Suc m \<and> m \<le> K) \<and>
    split_kv_len (sp_target st) = length prompt + length tr + sum_list (map snd tr)"
proof -
  let ?T = "split_target M sts" and ?g = "greedy (split_next M n sts) prompt n_new"
  obtain st lc gc' k where g: "speculative_greedy ?T D pt K s d prompt n_new gc = (sp_target st, gc', Inr (?g, st, lc))"
      "t_kv_len ?T (sp_target st) = length prompt + sc_accepted lc + sc_rounds lc"
    using speculation.spec_correct [OF split_speculation [OF draft] target d prompt TrueI] by blast
  obtain st0 where st0: "spec_start ?T D s d prompt = (sp_target st0, Inr st0)"
    using speculation.start_at [OF split_speculation [OF draft] target d prompt TrueI] by blast
  obtain out where l: "spec_loop ?T D pt K n_new [sp_head st0] st0 no_counts gc = (sp_target st, gc', Inr (out, st, lc))"
      "?g = take n_new out"
    using g(1) st0 by (auto simp: speculative_greedy_def bindE_Inr_iff split: prod.splits)
  obtain tr where tr: "spec_rounds ?T D pt K st0 tr st" "out = [sp_head st0] @ concat (map fst tr)"
      "tr \<noteq> [] \<longrightarrow> length ([sp_head st0] @ concat (map fst (butlast tr))) < n_new"
      "\<forall>(com, m) \<in> set tr. length com = Suc m \<and> m \<le> K"
      "lc = count_rounds K tr no_counts" "gc' = map_option (count_rounds K tr) gc"
    using spec_loop_rounds [OF l(1)] by blast
  have "length ?g = n_new" by simp
  then have n: "n_new \<le> length out" using l(2) by (metis length_take min.cobounded1)
  have kv: "split_kv_len (sp_target st) = length prompt + length tr + sum_list (map snd tr)"
    using g(2) tr(5) by (simp add: split_target_def count_rounds_def no_counts_def)
  show ?thesis
    using st0 tr(1) g(1) l(2) tr(3-6) n kv unfolding tr(2)
    by (intro exI [of _ st0] exI [of _ tr] exI [of _ st]) auto
qed

definition demo_model :: "(int, int, int) model_ops" where
  "demo_model = \<lparr>m_embed = (\<lambda>t. t), m_entry = (\<lambda>g h p. h + int p),
     m_layer = (\<lambda>g es h p. (sum_list es + int g) mod 11), m_head = (\<lambda>h. h), m_argmax = (\<lambda>l. l)\<rparr>"

lemma demo_fresh: "split_fresh 2 [[0], [1]] (split_init 2 [[0], [1]]) prompt"
  by (simp add: split_fresh_def split_ok_def split_init_def)

lemma speculative_is_greedy_witness:
  "\<exists>s' gc' st. speculative_greedy (split_target demo_model [[0], [1]]) (greedy_draft demo_model 1) (Some (\<lambda>i t. t + 1)) 3
      (split_init 2 [[0], [1]]) [[]] [3, 1] 5 None = (s', gc', Inr (greedy (split_next demo_model 2 [[0], [1]]) [3, 1] 5, st))"
proof -
  have start: "0 < (1 :: nat) \<and> [[]] = replicate 1 ([] :: int list)" by simp
  show ?thesis
    using speculative_is_greedy [OF gdraft.feature_draft_axioms start demo_fresh, of "[3, 1]" demo_model
        demo_model "Some (\<lambda>i t. t + 1)" 3 5 None]
    by (simp del: greedy.simps) blast
qed

text \<open>The streaming variant yields, for any such draft, the same greedy continuation up to the
  first end-of-sequence token (not yielded) or the token limit, and ends without an error.  With
  a limit of zero it still yields the first token.\<close>

theorem speculative_stream_is_greedy:
  assumes draft: "feature_draft D synced startable strict" and d: "startable d"
    and target: "split_fresh n sts s prompt" and prompt: "prompt \<noteq> []"
  shows "\<exists>s' gc'. speculative_greedy_stream (split_target M sts) D pt K eos s d prompt n_new gc =
    (takeWhile (\<lambda>t. t \<notin> eos) (greedy (split_next M n sts) prompt (max 1 n_new)), s', gc', Inr ())"
proof -
  from speculation.stream_correct [OF split_speculation [OF draft] target d prompt TrueI] show ?thesis
    unfolding until_eos_def by blast
qed

lemma speculative_stream_is_greedy_witness:
  "\<exists>s' gc'. speculative_greedy_stream (split_target demo_model [[0], [1]]) (greedy_draft demo_model 1) None 3 {0}
      (split_init 2 [[0], [1]]) [[]] [3, 1] 5 None =
     (takeWhile (\<lambda>t. t \<notin> {0}) (greedy (split_next demo_model 2 [[0], [1]]) [3, 1] 5), s', gc', Inr ())"
proof -
  have start: "0 < (1 :: nat) \<and> [[]] = replicate 1 ([] :: int list)" by simp
  show ?thesis
    using speculative_stream_is_greedy [OF gdraft.feature_draft_axioms start demo_fresh, of "[3, 1]" demo_model
        demo_model None 3 "{0}" 5 None]
    by (simp del: greedy.simps)
qed

subsection \<open>Splitting the model changes nothing\<close>

lemma stage_forward_chain:
  "stage_forward M (gs @ gs') kv hs ps =
     (case stage_forward M gs kv hs ps of (h, kv') \<Rightarrow> stage_forward M gs' kv' h ps)"
  by (induction M gs kv hs ps rule: stage_forward.induct) (auto split: prod.split)

text \<open>A stage reads and writes only its own slots.\<close>

lemma stage_forward_cong:
  assumes "\<forall>g \<in> set gs. kv ! g = kv' ! g \<and> g < length kv \<and> g < length kv'" and "distinct gs"
  shows "fst (stage_forward M gs kv hs ps) = fst (stage_forward M gs kv' hs ps)"
  using assms
proof (induction gs arbitrary: kv kv' hs)
  case Nil
  then show ?case by simp
next
  case (Cons g gs)
  obtain hs' c where "layer_forward M g (kv ! g) (zip hs ps) = (hs', c)"
    by (cases "layer_forward M g (kv ! g) (zip hs ps)")
  moreover have "fst (stage_forward M gs (kv[g := c]) hs' ps) = fst (stage_forward M gs (kv'[g := c]) hs' ps)"
    using Cons.prems by (intro Cons.IH) (auto simp: nth_list_update)
  ultimately show ?case using Cons.prems by simp
qed

lemma stage_forward_other:
  "i \<notin> set gs \<Longrightarrow> snd (stage_forward M gs kv hs ps) ! i = kv ! i"
  by (induction M gs kv hs ps rule: stage_forward.induct) (auto split: prod.split)

text \<open>The stages' hidden state equals that of one stage holding all their layers.\<close>

lemma stages_forward_concat:
  assumes "length kv = n" and "distinct (concat sts)" and "\<forall>g \<in> set (concat sts). g < n \<and> kv ! g = []"
  shows "fst (stages_forward M sts (map (\<lambda>_. replicate n []) sts) hs ps) = fst (stage_forward M (concat sts) kv hs ps)"
  using assms
proof (induction sts arbitrary: kv hs)
  case Nil
  then show ?case by simp
next
  case (Cons gs sts)
  let ?e = "replicate n [] :: 'a stage_kv"
  obtain h1 c1 where s1: "stage_forward M gs ?e hs ps = (h1, c1)" by (cases "stage_forward M gs ?e hs ps")
  obtain h2 c2 where s2: "stage_forward M gs kv hs ps = (h2, c2)" by (cases "stage_forward M gs kv hs ps")
  have "fst (stage_forward M gs ?e hs ps) = fst (stage_forward M gs kv hs ps)"
    using Cons.prems by (intro stage_forward_cong) auto
  then have h: "h1 = h2" using s1 s2 by simp
  have "fst (stages_forward M sts (map (\<lambda>_. replicate n []) sts) h2 ps) = fst (stage_forward M (concat sts) c2 h2 ps)"
  proof (rule Cons.IH)
    show "length c2 = n" using stage_forward_slots [of M gs kv hs ps] s2 Cons.prems(1) by simp
    show "distinct (concat sts)" using Cons.prems(2) by simp
    show "\<forall>g \<in> set (concat sts). g < n \<and> c2 ! g = []"
    proof
      fix g assume g: "g \<in> set (concat sts)"
      then have "g \<notin> set gs" using Cons.prems(2) by auto
      then have "c2 ! g = kv ! g" using stage_forward_other [of g gs M kv hs ps] s2 by simp
      then show "g < n \<and> c2 ! g = []" using g Cons.prems(3) by simp
    qed
  qed
  then show ?case using s1 s2 h by (simp add: stage_forward_chain split_beta)
qed

lemma concat_intervals:
  "sorted (a # cuts) \<Longrightarrow> concat (map (\<lambda>(s, e). [s ..< e]) (zip (butlast (a # cuts)) (tl (a # cuts)))) = [a ..< last (a # cuts)]"
proof (induction cuts arbitrary: a)
  case Nil
  then show ?case by simp
next
  case (Cons b cuts)
  have "b \<le> last (b # cuts)" using Cons.prems by (cases cuts) (auto intro: last_in_set)
  then show ?case using Cons.IH [of b] Cons.prems upt_add_eq_append [of a b "last (b # cuts) - b"] by simp
qed

text \<open>Splitting a model at any boundaries computes, for every token sequence, the hidden states
  and the next token of the whole model run as one stage: the stages tile the layers in order and
  each reads only its own cache slots.\<close>

theorem split_model_equivalent:
  assumes "sorted ([0] @ boundaries @ [n])"
  shows "concat (split_layers n boundaries) = [0 ..< n] \<and>
    fst (split_run M n (split_layers n boundaries) ctx) = fst (split_run M n [[0 ..< n]] ctx) \<and>
    split_next M n (split_layers n boundaries) ctx = split_next M n [[0 ..< n]] ctx"
proof -
  have c: "concat (split_layers n boundaries) = [0 ..< n]"
    using concat_intervals [of 0 "boundaries @ [n]"] assms by (simp add: split_layers_def Let_def)
  have "fst (stages_forward M sts (map (\<lambda>_. replicate n []) sts) hs ps) =
      fst (stage_forward M [0 ..< n] (replicate n []) hs ps)" if "concat sts = [0 ..< n]" for sts hs ps
    using stages_forward_concat [of "replicate n []" n sts M hs ps] that by simp
  then have "fst (split_run M n (split_layers n boundaries) ctx) = fst (split_run M n [[0 ..< n]] ctx)"
    unfolding split_run_def using c by (simp add: split_beta)
  then show ?thesis using c by (simp add: split_next_def)
qed

lemma split_model_equivalent_witness:
  "split_next demo_model 3 (split_layers 3 [1]) [4, 5] = split_next demo_model 3 [[0 ..< 3]] [4, 5]"
  using split_model_equivalent [of "[1]" 3 demo_model "[4, 5]"] by simp

end
