(* ===== verification/Wire.thy ===== *)
theory Wire
  imports Bytes
begin

section \<open>Encrypted framing\<close>

text \<open>
  \<open>engine/wire.py\<close>: sealing a message into a length-prefixed frame, opening a frame body,
  and reading frames from a socket that may deliver the bytes in any pieces.  The AEAD is the
  cryptography library's: a parameter with its encryption and decryption, \<open>decrypt\<close> returning
  nothing when the tag does not verify; the nonce is drawn by the caller.
\<close>

subsection \<open>Protocol constants\<close>

definition VERSION_AAD :: "bytes" where "VERSION_AAD = [1]"
definition NONCE_LEN :: nat where "NONCE_LEN = 12"
definition TAG_LEN :: nat where "TAG_LEN = 16"
definition KEY_LEN :: nat where "KEY_LEN = 32"
definition MAX_FRAME :: int where "MAX_FRAME = 256 * 1024 * 1024"

datatype msg =
    HELLO | WELCOME | ACTIVATION | RESULT | KV_CTRL | PING | PONG | ERROR | BYE
  | BATCH_ACTIVATION | CHAIN_ACTIVATION | TREE_ACTIVATION

fun msg_code :: "msg \<Rightarrow> int" where
  "msg_code HELLO = 1" | "msg_code WELCOME = 2" | "msg_code ACTIVATION = 3" | "msg_code RESULT = 4"
| "msg_code KV_CTRL = 5" | "msg_code PING = 6" | "msg_code PONG = 7" | "msg_code ERROR = 8"
| "msg_code BYE = 9" | "msg_code BATCH_ACTIVATION = 10" | "msg_code CHAIN_ACTIVATION = 11"
| "msg_code TREE_ACTIVATION = 12"

definition all_msgs :: "msg list" where
  "all_msgs = [HELLO, WELCOME, ACTIVATION, RESULT, KV_CTRL, PING, PONG, ERROR, BYE,
     BATCH_ACTIVATION, CHAIN_ACTIVATION, TREE_ACTIVATION]"

text \<open>The known message of a code, if any.\<close>

definition msg_of_code :: "int \<Rightarrow> msg option" where
  "msg_of_code c = find (\<lambda>m. msg_code m = c) all_msgs"

lemma msg_of_code_of: "msg_of_code (msg_code m) = Some m"
  by (cases m) (simp_all add: msg_of_code_def all_msgs_def)

subsection \<open>Keys\<close>

datatype key_arg = KText string | KRaw bytes

definition hex_digit :: "char \<Rightarrow> nat option" where
  "hex_digit c =
     (let n = (of_char c :: nat)
      in if 48 \<le> n \<and> n \<le> 57 then Some (n - 48)
         else if 65 \<le> n \<and> n \<le> 70 then Some (n - 55)
         else if 97 \<le> n \<and> n \<le> 102 then Some (n - 87)
         else None)"

definition ascii_space :: "char \<Rightarrow> bool" where
  "ascii_space c \<longleftrightarrow> (of_char c :: nat) \<in> {9, 10, 11, 12, 13, 32}"

text \<open>\<open>bytes.fromhex\<close> skips white space between the two-digit groups.\<close>

fun fromhex :: "string \<Rightarrow> bytes result" where
  "fromhex [] = Inr []"
| "fromhex [c] = (if ascii_space c then Inr [] else Inl ValueError)"
| "fromhex (c # d # cs) =
     (if ascii_space c then fromhex (d # cs)
      else case (hex_digit c, hex_digit d) of
             (Some h, Some l) \<Rightarrow> bindE (fromhex cs) (\<lambda>bs. Inr (byte_of (16 * h + l) # bs))
           | _ \<Rightarrow> Inl ValueError)"

definition normalize_key :: "key_arg \<Rightarrow> bytes result" where
  "normalize_key k =
     bindE (case k of KText s \<Rightarrow> fromhex s | KRaw b \<Rightarrow> Inr b) (\<lambda>b.
       if length b \<noteq> KEY_LEN then Inl WireError else Inr b)"

subsection \<open>Frames\<close>

record aead =
  encrypt :: "bytes \<Rightarrow> bytes \<Rightarrow> bytes \<Rightarrow> bytes \<Rightarrow> bytes"
  decrypt :: "bytes \<Rightarrow> bytes \<Rightarrow> bytes \<Rightarrow> bytes \<Rightarrow> bytes option"

text \<open>\<open>encrypt A key nonce plaintext aad\<close>.  The library's constructor refuses a key that is not
  32 bytes.\<close>

definition seal :: "aead \<Rightarrow> bytes \<Rightarrow> bytes \<Rightarrow> int \<Rightarrow> bytes \<Rightarrow> bytes result" where
  "seal A key nonce msg_type payload =
     (if \<not> (0 \<le> msg_type \<and> msg_type \<le> 255) then Inl WireError
      else if length key \<noteq> KEY_LEN then Inl ValueError
      else
        (let plaintext = word_of_int msg_type # payload;
             body = nonce @ encrypt A key nonce plaintext VERSION_AAD
         in if MAX_FRAME < int (length body) then Inl WireError
            else bindE (pack_uint 4 (int (length body))) (\<lambda>pre. Inr (pre @ body))))"

definition open_body :: "aead \<Rightarrow> bytes \<Rightarrow> bytes \<Rightarrow> (int \<times> bytes) result" where
  "open_body A key body =
     (if length body < NONCE_LEN + TAG_LEN + 1 then Inl WireError
      else if length key \<noteq> KEY_LEN then Inl ValueError
      else case decrypt A key (take NONCE_LEN body) (drop NONCE_LEN body) VERSION_AAD of
             None \<Rightarrow> Inl WireError
           | Some [] \<Rightarrow> Inl IndexError
           | Some (b # rest) \<Rightarrow> Inr (uint b, rest))"

subsection \<open>Sockets\<close>

text \<open>What a socket still has to deliver: the pieces in which the bytes arrive, then the end of
  the stream.  One \<open>recv_into\<close> returns at most what it asks for and at most one piece.\<close>

type_synonym socket = "bytes list"

fun recv_into :: "nat \<Rightarrow> socket \<Rightarrow> bytes \<times> socket" where
  "recv_into n [] = ([], [])"
| "recv_into n (p # ps) =
     (if p = [] then recv_into n ps
      else (take n p, if length p \<le> n then ps else drop n p # ps))"

lemma recv_into_concat: "recv_into n s = (b, s') \<Longrightarrow> b @ concat s' = concat s"
  by (induction n s rule: recv_into.induct) (auto split: if_splits)

lemma recv_into_bound: "recv_into n s = (b, s') \<Longrightarrow> length b \<le> n"
  by (induction n s rule: recv_into.induct) (auto split: if_splits)

lemma recv_into_progress: "recv_into n s = (b, s') \<Longrightarrow> 0 < n \<Longrightarrow> concat s \<noteq> [] \<Longrightarrow> b \<noteq> []"
  by (induction n s rule: recv_into.induct) (auto split: if_splits)

text \<open>\<open>recv_exact\<close>: \<open>buf\<close> is what has been read so far.\<close>

function recv_loop :: "nat \<Rightarrow> bytes \<Rightarrow> socket \<Rightarrow> socket \<times> bytes result" where
  "recv_loop n buf s =
     (if length buf < n then
        (case recv_into (n - length buf) s of
           (r, s') \<Rightarrow> if r = [] then (s', Inl WireError) else recv_loop n (buf @ r) s')
      else (s, Inr buf))"
  by pat_completeness auto
termination
  by (relation "measure (\<lambda>(n, buf, s). n - length buf)") (auto simp flip: length_greater_0_conv)

declare recv_loop.simps [simp del]

definition recv_exact :: "nat \<Rightarrow> socket \<Rightarrow> socket \<times> bytes result" where
  "recv_exact n s = recv_loop n [] s"

definition read_frame_keyed :: "aead \<Rightarrow> bytes \<Rightarrow> socket \<Rightarrow> socket \<times> (int \<times> bytes) result" where
  "read_frame_keyed A key s =
     (case recv_exact 4 s of
        (s1, Inl e) \<Rightarrow> (s1, Inl e)
      | (s1, Inr pre) \<Rightarrow>
          (case unpack_uint 4 pre of
             Inl e \<Rightarrow> (s1, Inl e)
           | Inr len \<Rightarrow>
               if MAX_FRAME < len \<or> len < int (NONCE_LEN + TAG_LEN + 1) then (s1, Inl WireError)
               else (case recv_exact (nat len) s1 of
                       (s2, Inl e) \<Rightarrow> (s2, Inl e)
                     | (s2, Inr body) \<Rightarrow> (s2, open_body A key body))))"

text \<open>\<open>write_frame\<close>: \<open>out\<close> is everything the peer has been sent.\<close>

definition write_frame :: "aead \<Rightarrow> bytes \<Rightarrow> bytes \<Rightarrow> int \<Rightarrow> bytes \<Rightarrow> bytes \<Rightarrow> bytes result" where
  "write_frame A key nonce msg_type payload out =
     bindE (seal A key nonce msg_type payload) (\<lambda>frame. Inr (out @ frame))"

subsection \<open>What framing promises\<close>

text \<open>The documented behaviour of ChaCha20-Poly1305: decryption undoes encryption, the
  ciphertext is the plaintext's length plus the tag.\<close>

definition aead_ok :: "aead \<Rightarrow> bool" where
  "aead_ok A \<longleftrightarrow> (\<forall>k n p a. decrypt A k n (encrypt A k n p a) a = Some p \<and>
     length (encrypt A k n p a) = length p + TAG_LEN)"

lemma recv_loop_enough:
  "length buf \<le> n \<Longrightarrow> n \<le> length buf + length (concat s) \<Longrightarrow>
     \<exists>s'. recv_loop n buf s = (s', Inr (buf @ take (n - length buf) (concat s))) \<and>
       concat s' = drop (n - length buf) (concat s)"
proof (induction n buf s rule: recv_loop.induct)
  case (1 n buf s)
  show ?case
  proof (cases "length buf < n")
    case False
    then show ?thesis using 1(2) by (simp add: recv_loop.simps)
  next
    case True
    obtain r s1 where r: "recv_into (n - length buf) s = (r, s1)" by (cases "recv_into (n - length buf) s")
    note cat = recv_into_concat [OF r] and len = recv_into_bound [OF r]
    have "0 < length (concat s)" using True 1(3) by linarith
    then have "concat s \<noteq> []" by fastforce
    then have ne: "r \<noteq> []" using recv_into_progress [OF r] True by simp
    have b: "length (buf @ r) \<le> n" using len True by simp
    have e: "n \<le> length (buf @ r) + length (concat s1)"
      using 1(3) by (metis add.assoc cat length_append)
    obtain s' where "recv_loop n (buf @ r) s1 = (s', Inr ((buf @ r) @ take (n - length (buf @ r)) (concat s1)))"
        "concat s' = drop (n - length (buf @ r)) (concat s1)"
      using 1(1) [OF True r [symmetric] ne b e] by blast
    moreover have "take (n - length buf) (concat s) = r @ take (n - length (buf @ r)) (concat s1)"
      using len by (simp add: cat [symmetric])
    moreover have "drop (n - length buf) (concat s) = drop (n - length (buf @ r)) (concat s1)"
      using len by (simp add: cat [symmetric])
    ultimately show ?thesis using True r ne by (simp add: recv_loop.simps [of n buf s])
  qed
qed

lemma recv_exact_enough:
  "n \<le> length (concat s) \<Longrightarrow> \<exists>s'. recv_exact n s = (s', Inr (take n (concat s))) \<and> concat s' = drop n (concat s)"
  using recv_loop_enough [of "[]" n s] by (simp add: recv_exact_def)

lemma recv_loop_short:
  "length buf + length (concat s) < n \<Longrightarrow> \<exists>s'. recv_loop n buf s = (s', Inl WireError) \<and> concat s' = []"
proof (induction n buf s rule: recv_loop.induct)
  case (1 n buf s)
  obtain r s1 where r: "recv_into (n - length buf) s = (r, s1)" by (cases "recv_into (n - length buf) s")
  have less: "length buf < n" using 1(2) by simp
  have "length (buf @ r) + length (concat s1) < n"
    using 1(2) by (metis add.assoc length_append recv_into_concat [OF r])
  moreover have "r = [] \<Longrightarrow> concat s1 = []"
    using recv_into_progress [OF r] recv_into_concat [OF r] less by auto
  ultimately show ?case using 1(1) [OF less r [symmetric]] less r
    by (cases "r = []") (auto simp add: recv_loop.simps [of n buf s])
qed

lemma recv_exact_short:
  "length (concat s) < n \<Longrightarrow> \<exists>s'. recv_exact n s = (s', Inl WireError) \<and> concat s' = []"
  using recv_loop_short [of "[]" s n] by (simp add: recv_exact_def)

lemma recv_exact_result:
  "recv_exact n s = (s', Inr b) \<Longrightarrow> b = take n (concat s) \<and> concat s' = drop n (concat s) \<and> length b = n"
proof -
  assume r: "recv_exact n s = (s', Inr b)"
  then have "n \<le> length (concat s)" using recv_exact_short [of s n] by (cases "n \<le> length (concat s)") auto
  with recv_exact_enough [OF this] r show ?thesis by auto
qed

lemma seal_Inr:
  "seal A key nonce msg_type payload = Inr frame \<longleftrightarrow>
     0 \<le> msg_type \<and> msg_type \<le> 255 \<and> length key = KEY_LEN \<and>
     (let body = nonce @ encrypt A key nonce (word_of_int msg_type # payload) VERSION_AAD
      in int (length body) \<le> MAX_FRAME \<and> frame = be_bytes 4 (int (length body)) @ body)"
  by (auto simp: seal_def Let_def bindE_Inr_iff pack_uint_def MAX_FRAME_def)

lemma uint_byte_of_int: "0 \<le> v \<Longrightarrow> v \<le> 255 \<Longrightarrow> uint (word_of_int v :: byte) = v"
  by (simp add: uint_word_of_int)

lemma seal_small:
  assumes "aead_ok A" "0 \<le> mt" "mt \<le> 255" "length key = KEY_LEN" "length nonce = NONCE_LEN"
    and "int (length payload) \<le> MAX_FRAME - 29"
  shows "\<exists>frame. seal A key nonce mt payload = Inr frame"
  using assms unfolding seal_Inr by (simp add: aead_ok_def NONCE_LEN_def TAG_LEN_def Let_def)

text \<open>However the network cuts the bytes into pieces, reading a frame that was sealed under the
  same key yields exactly its message type and payload and leaves exactly the bytes that
  followed it; so a stream of frames is read back message by message.\<close>

theorem frame_roundtrip:
  assumes aead: "aead_ok A" and nonce: "length nonce = NONCE_LEN"
    and sealed: "seal A key nonce msg_type payload = Inr frame"
    and stream: "concat s = frame @ rest"
  shows "\<exists>s'. read_frame_keyed A key s = (s', Inr (msg_type, payload)) \<and> concat s' = rest"
proof -
  let ?ct = "encrypt A key nonce (word_of_int msg_type # payload) VERSION_AAD"
  let ?body = "nonce @ ?ct"
  have mt: "0 \<le> msg_type" "msg_type \<le> 255" and key: "length key = KEY_LEN"
    and small: "int (length ?body) \<le> MAX_FRAME" and frame: "frame = be_bytes 4 (int (length ?body)) @ ?body"
    using sealed by (simp_all add: seal_Inr Let_def)
  have ct: "length ?ct = length payload + 1 + TAG_LEN"
    and dec: "decrypt A key nonce ?ct VERSION_AAD = Some (word_of_int msg_type # payload)"
    using aead by (simp_all add: aead_ok_def)
  have long: "NONCE_LEN + TAG_LEN + 1 \<le> length ?body" using ct nonce by simp
  obtain s1 where s1: "recv_exact 4 s = (s1, Inr (take 4 (concat s)))" "concat s1 = drop 4 (concat s)"
    using recv_exact_enough [of 4 s] by (auto simp: stream frame)
  have t4: "take 4 (concat s) = be_bytes 4 (int (length ?body))" and d4: "concat s1 = ?body @ rest"
    using s1(2) by (simp_all add: stream frame)
  have v: "be_value (be_bytes 4 (int (length ?body))) = int (length ?body)"
    using small by (intro be_value_be_bytes) (simp_all add: MAX_FRAME_def)
  obtain s2 where s2: "recv_exact (length ?body) s1 = (s2, Inr ?body)" "concat s2 = rest"
    using recv_exact_enough [of "length ?body" s1] d4 by auto
  have "open_body A key ?body = Inr (msg_type, payload)"
    using long key nonce dec mt by (simp add: open_body_def uint_byte_of_int)
  moreover have "\<not> (MAX_FRAME < int (length ?body) \<or> int (length ?body) < int (NONCE_LEN + TAG_LEN + 1))"
    using small long by linarith
  ultimately show ?thesis using s1 t4 v s2 by (simp add: read_frame_keyed_def unpack_uint_def del: length_append)
qed

text \<open>C39. A frame is only ever accepted when its body authenticates under the key.  A stream that
  ends within the four length bytes, or within the announced body, fails with \<open>WireError\<close> and is
  used up; an announced length out of range is refused with exactly the four bytes read, so never
  more than \<open>MAX_FRAME\<close> bytes are read for a body; once a length in range is followed by its body,
  the socket stands exactly past that body, whatever comes of it, and a body that does not
  authenticate is a \<open>WireError\<close> there.\<close>

theorem read_frame_authentic:
  assumes r: "read_frame_keyed A key s = (s', res)"
  shows "(\<forall>mt payload. res = Inr (mt, payload) \<longrightarrow>
      (\<exists>pre body rest. concat s = pre @ body @ rest \<and> concat s' = rest \<and> length pre = 4 \<and>
         be_value pre = int (length body) \<and> int (length body) \<le> MAX_FRAME \<and> length key = KEY_LEN \<and>
         0 \<le> mt \<and> mt \<le> 255 \<and>
         decrypt A key (take NONCE_LEN body) (drop NONCE_LEN body) VERSION_AAD
           = Some (word_of_int mt # payload))) \<and>
    (length (concat s) < 4 \<longrightarrow> res = Inl WireError \<and> concat s' = []) \<and>
    (4 \<le> length (concat s) \<and> (MAX_FRAME < be_value (take 4 (concat s)) \<or> be_value (take 4 (concat s)) < 29) \<longrightarrow>
       res = Inl WireError \<and> concat s' = drop 4 (concat s)) \<and>
    (4 \<le> length (concat s) \<and> 29 \<le> be_value (take 4 (concat s)) \<and> be_value (take 4 (concat s)) \<le> MAX_FRAME \<longrightarrow>
       (let body = take (nat (be_value (take 4 (concat s)))) (drop 4 (concat s))
        in if int (length body) < be_value (take 4 (concat s)) then res = Inl WireError \<and> concat s' = []
           else concat s = take 4 (concat s) @ body @ concat s' \<and>
             (length key = KEY_LEN \<and>
              decrypt A key (take NONCE_LEN body) (drop NONCE_LEN body) VERSION_AAD = None \<longrightarrow>
                res = Inl WireError)))"
proof (intro conjI impI allI)
  assume "length (concat s) < 4"
  then show "res = Inl WireError" and "concat s' = []"
    using r recv_exact_short [of s 4] by (auto simp: read_frame_keyed_def)
next
  assume a: "4 \<le> length (concat s) \<and> (MAX_FRAME < be_value (take 4 (concat s)) \<or> be_value (take 4 (concat s)) < 29)"
  then obtain s1 where s1: "recv_exact 4 s = (s1, Inr (take 4 (concat s)))" "concat s1 = drop 4 (concat s)"
    using recv_exact_enough by blast
  then show "res = Inl WireError" and "concat s' = drop 4 (concat s)"
    using a r by (auto simp: read_frame_keyed_def unpack_uint_def NONCE_LEN_def TAG_LEN_def)
next
  let ?n = "be_value (take 4 (concat s))"
  let ?body = "take (nat ?n) (drop 4 (concat s))"
  assume a: "4 \<le> length (concat s) \<and> 29 \<le> ?n \<and> ?n \<le> MAX_FRAME"
  then obtain s1 where s1: "recv_exact 4 s = (s1, Inr (take 4 (concat s)))" "concat s1 = drop 4 (concat s)"
    using recv_exact_enough by blast
  have body: "read_frame_keyed A key s = (case recv_exact (nat ?n) s1 of
      (s2, Inl e) \<Rightarrow> (s2, Inl e) | (s2, Inr body) \<Rightarrow> (s2, open_body A key body))"
    using a s1 by (simp add: read_frame_keyed_def unpack_uint_def NONCE_LEN_def TAG_LEN_def)
  show "let body = ?body in if int (length body) < ?n then res = Inl WireError \<and> concat s' = []
      else concat s = take 4 (concat s) @ body @ concat s' \<and>
        (length key = KEY_LEN \<and>
         decrypt A key (take NONCE_LEN body) (drop NONCE_LEN body) VERSION_AAD = None \<longrightarrow> res = Inl WireError)"
  proof (cases "length (concat s1) < nat ?n")
    case True
    moreover have "int (length ?body) < ?n" using True s1(2) by simp
    ultimately show ?thesis using r body recv_exact_short [OF True] by (auto simp: Let_def)
  next
    case False
    then obtain s2 where s2: "recv_exact (nat ?n) s1 = (s2, Inr ?body)" "concat s2 = drop (nat ?n) (drop 4 (concat s))"
      using recv_exact_enough [of "nat ?n" s1] s1(2) by auto
    have len: "int (length ?body) = ?n" using False s1(2) a by simp
    moreover have "concat s = take 4 (concat s) @ ?body @ concat s2" using s2(2) by (metis append_take_drop_id)
    moreover have "NONCE_LEN + TAG_LEN + 1 \<le> length ?body"
    proof -
      have "29 \<le> length ?body" using len a by linarith
      then show ?thesis by (simp add: NONCE_LEN_def TAG_LEN_def)
    qed
    ultimately show ?thesis using r body s2(1) by (auto simp: Let_def open_body_def)
  qed
next
  fix mt payload assume res: "res = Inr (mt, payload)"
  obtain s1 pre where s1: "recv_exact 4 s = (s1, Inr pre)"
    using r res by (auto simp: read_frame_keyed_def split: prod.splits sum.splits)
  note pre = recv_exact_result [OF s1]
  have "length pre = 4" using pre by blast
  then have u: "unpack_uint 4 pre = Inr (be_value pre)" unfolding unpack_uint_def by simp
  then have range: "be_value pre \<le> MAX_FRAME"
    using r res s1 by (auto simp: read_frame_keyed_def split: if_splits)
  obtain body where body: "recv_exact (nat (be_value pre)) s1 = (s', Inr body)" "open_body A key body = Inr (mt, payload)"
    using r res s1 u by (auto simp: read_frame_keyed_def split: if_splits prod.splits sum.splits)
  note b = recv_exact_result [OF body(1)]
  obtain w where w: "decrypt A key (take NONCE_LEN body) (drop NONCE_LEN body) VERSION_AAD = Some (w # payload)"
      "mt = uint w" and k: "length key = KEY_LEN"
    using body(2) by (auto simp: open_body_def split: if_splits option.splits list.splits)
  have "concat s = pre @ body @ concat s'" using pre b by (metis append_take_drop_id)
  moreover have "be_value pre = int (length body)"
  proof -
    have "length body = nat (be_value pre)" using b by blast
    then show ?thesis by (simp only: int_nat_eq be_value_nonneg if_True)
  qed
  ultimately show "\<exists>pre body rest. concat s = pre @ body @ rest \<and> concat s' = rest \<and> length pre = 4 \<and>
         be_value pre = int (length body) \<and> int (length body) \<le> MAX_FRAME \<and> length key = KEY_LEN \<and>
         0 \<le> mt \<and> mt \<le> 255 \<and>
         decrypt A key (take NONCE_LEN body) (drop NONCE_LEN body) VERSION_AAD = Some (word_of_int mt # payload)"
    using pre range w k uint_byte [of w] by (intro exI [of _ pre] exI [of _ body] exI [of _ "concat s'"]) auto
qed

text \<open>A cipher with these laws: the tag is the key's and nonce's first bytes repeated.\<close>

definition demo_aead :: "aead" where
  "demo_aead = \<lparr>encrypt = (\<lambda>k n p a. p @ replicate TAG_LEN 7),
     decrypt = (\<lambda>k n c a. if drop (length c - TAG_LEN) c = replicate TAG_LEN 7
       then Some (take (length c - TAG_LEN) c) else None)\<rparr>"

lemma demo_aead_ok: "aead_ok demo_aead"
  by (simp add: aead_ok_def demo_aead_def)

lemma frame_roundtrip_witness:
  "\<exists>s' frame. seal demo_aead (replicate 32 1) (replicate 12 2) 3 [9, 8] = Inr frame \<and>
     read_frame_keyed demo_aead (replicate 32 1) [take 2 frame, drop 2 frame @ [5]] = (s', Inr (3, [9, 8])) \<and>
     concat s' = [5]"
proof -
  obtain frame where f: "seal demo_aead (replicate 32 1) (replicate 12 2) 3 [9, 8] = Inr frame"
    using seal_small [OF demo_aead_ok, of 3 "replicate 32 1" "replicate 12 2" "[9, 8]"]
    by (auto simp: KEY_LEN_def NONCE_LEN_def MAX_FRAME_def)
  have n: "length (replicate 12 (2 :: byte)) = NONCE_LEN" by (simp add: NONCE_LEN_def)
  have c: "concat [take 2 frame, drop 2 frame @ [5]] = frame @ [5]" by simp
  show ?thesis using frame_roundtrip [OF demo_aead_ok n f c] f by blast
qed

lemma demo_frame:
  "seal demo_aead (replicate 32 1) (replicate 12 2) 3 [] = Inr ([0, 0, 0, 29] @ replicate 12 2 @ [3] @ replicate 16 7)"
  by code_simp

text \<open>The last byte of a sealed frame is changed on its way: the reader refuses it and stands at the
  byte after it.\<close>

lemma read_frame_authentic_witness:
  "\<exists>frame s'. seal demo_aead (replicate 32 1) (replicate 12 2) 3 [] = Inr frame \<and>
     read_frame_keyed demo_aead (replicate 32 1) [butlast frame @ [8], [5]] = (s', Inl WireError) \<and> concat s' = [5]"
proof -
  let ?f = "[0, 0, 0, 29] @ replicate 12 2 @ [3] @ replicate 16 (7 :: byte)"
  obtain s' res where r: "read_frame_keyed demo_aead (replicate 32 1) [butlast ?f @ [8], [5]] = (s', res)"
    by (cases "read_frame_keyed demo_aead (replicate 32 1) [butlast ?f @ [8], [5]]")
  let ?s = "concat [butlast ?f @ [8], [5]]"
  let ?b = "replicate 12 2 @ [3] @ replicate 15 7 @ [8 :: byte]"
  have s: "take 4 ?s = [0, 0, 0, 29]" "length ?s = 34" "take 29 (drop 4 ?s) = ?b" "?s = [0, 0, 0, 29] @ ?b @ [5]"
    by code_simp+
  have v: "be_value [0, 0, 0, 29] = 29" "length ?b = 29" "29 \<le> MAX_FRAME" by code_simp+
  have d: "length (replicate 32 (1 :: byte)) = KEY_LEN"
      "decrypt demo_aead (replicate 32 1) (take NONCE_LEN ?b) (drop NONCE_LEN ?b) VERSION_AAD = None"
    by code_simp+
  have "4 \<le> length ?s \<and> 29 \<le> be_value (take 4 ?s) \<and> be_value (take 4 ?s) \<le> MAX_FRAME"
    unfolding s(1,2) v(1) using v(3) by simp
  with conjunct2 [OF conjunct2 [OF conjunct2 [OF read_frame_authentic [OF r]]]]
  have "let body = take (nat (be_value (take 4 ?s))) (drop 4 ?s)
     in if int (length body) < be_value (take 4 ?s) then res = Inl WireError \<and> concat s' = []
        else ?s = take 4 ?s @ body @ concat s' \<and>
          (length (replicate 32 (1 :: byte)) = KEY_LEN \<and>
           decrypt demo_aead (replicate 32 1) (take NONCE_LEN body) (drop NONCE_LEN body) VERSION_AAD = None \<longrightarrow>
             res = Inl WireError)"
    by (rule mp)
  then have "?s = [0, 0, 0, 29] @ ?b @ concat s' \<and> res = Inl WireError"
    unfolding s(1) v(1) nat_numeral s(3) Let_def v(2) using d by simp
  then have "res = Inl WireError \<and> concat s' = [5]" unfolding s(4) by simp
  then show ?thesis using r demo_frame by blast
qed

end
