(* ===== verification/Chain.thy ===== *)
theory Chain
  imports Codec Topology Wire
begin

section \<open>Chain-relay routes\<close>

text \<open>
  \<open>engine/chain.py\<close>: the downstream route carried ahead of an activation, and the step that
  takes the next hop off it.  A hop is where to dial and the key to encrypt to it.
\<close>

type_synonym hop = "pystr \<times> int \<times> bytes"

definition encode_hop :: "hop \<Rightarrow> bytes result" where
  "encode_hop = (\<lambda>(host, port, key).
     bindE (utf8_encode host) (\<lambda>hb.
       if 255 < length hb then Inl ValueError
       else if \<not> (0 \<le> port \<and> port \<le> 65535) then Inl ValueError
       else if length key \<noteq> 32 then Inl ValueError
       else bindE (pack_uint 2 port) (\<lambda>pb. Inr (byte_of (length hb) # hb @ pb @ key))))"

definition encode_route :: "hop list \<Rightarrow> bytes result" where
  "encode_route hops =
     (if 255 < length hops then Inl ValueError
      else bindE (mapE encode_hop hops) (\<lambda>bs. Inr (byte_of (length hops) # concat bs)))"

text \<open>One hop off the front of the buffer; \<open>buf[off:off+n]\<close> stops at the end.\<close>

definition decode_hop :: "bytes \<Rightarrow> (hop \<times> bytes) result" where
  "decode_hop buf =
     (case buf of
        [] \<Rightarrow> Inl ValueError
      | b # rest \<Rightarrow>
          (let hl = unat b; after_host = drop hl rest; after_port = drop 2 after_host
           in bindE (utf8_decode (take hl rest)) (\<lambda>host.
              bindE (unpack_uint 2 (take 2 after_host)) (\<lambda>port.
                if length (take 32 after_port) \<noteq> 32 then Inl ValueError
                else Inr ((host, port, take 32 after_port), drop 32 after_port)))))"

definition decode_route :: "bytes \<Rightarrow> (hop list \<times> bytes) result" where
  "decode_route buf =
     (case buf of
        [] \<Rightarrow> Inl ValueError
      | b # rest \<Rightarrow> dec_n decode_hop (unat b) rest)"

definition pop_next :: "hop list \<Rightarrow> hop option \<times> hop list" where
  "pop_next hops = (case hops of [] \<Rightarrow> (None, []) | h # hs \<Rightarrow> (Some h, hs))"

text \<open>The hops after the head, from the nodes of a pinned route.\<close>

definition hop_of_node :: "node \<Rightarrow> hop result" where
  "hop_of_node n =
     (case wire_key n of
        None \<Rightarrow> Inl ValueError
      | Some k \<Rightarrow> if length k \<noteq> 32 then Inl ValueError
                  else Inr (codes (fst (endpoint n)), snd (endpoint n), k))"

definition chain_head_and_route :: "node list \<Rightarrow> (node \<times> hop list) result" where
  "chain_head_and_route rt =
     (case rt of
        [] \<Rightarrow> Inl ValueError
      | n # ns \<Rightarrow> bindE (mapE hop_of_node ns) (\<lambda>hops. Inr (n, hops)))"

subsection \<open>The route header is a self-delimiting codec\<close>

lemma encode_hop_Inr: "encode_hop (host, port, key) = Inr bs \<longleftrightarrow>
    (\<exists>hb pb. utf8_encode host = Inr hb \<and> length hb \<le> 255 \<and> length key = 32 \<and>
       pack_uint 2 port = Inr pb \<and> bs = byte_of (length hb) # hb @ pb @ key)"
proof (cases "utf8_encode host")
  case (Inl e)
  then show ?thesis by (simp add: encode_hop_def)
next
  case (Inr hb)
  then show ?thesis by (auto simp: encode_hop_def bindE_Inr_iff pack_uint_def)
qed

interpretation hop: prefix_codec encode_hop decode_hop "\<lambda>_. True"
proof
  fix x :: hop and bs rest :: bytes
  assume e: "encode_hop x = Inr bs"
  obtain host port key where x: "x = (host, port, key)" by (cases x)
  obtain hb pb where hb: "utf8_encode host = Inr hb" "length hb \<le> 255" "length key = 32"
    and pb: "pack_uint 2 port = Inr pb" and bs: "bs = byte_of (length hb) # hb @ pb @ key"
    using e x by (auto simp: encode_hop_Inr)
  have "length pb = 2" "unpack_uint 2 pb = Inr port" using unpack_pack_uint [OF pb] by simp_all
  moreover have "unat (byte_of (length hb)) = length hb" using hb(2) by (intro unat_byte_of) simp
  ultimately show "decode_hop (bs @ rest) = Inr (x, rest)"
    using utf8_roundtrip [OF hb(1)] hb(3) by (simp add: decode_hop_def bs x Let_def)
qed

interpretation route_header: prefix_codec encode_route decode_route "\<lambda>_. True"
proof
  fix hops :: "hop list" and bs rest :: bytes
  assume e: "encode_route hops = Inr bs"
  then obtain bss where b: "length hops \<le> 255" "mapE encode_hop hops = Inr bss"
      "bs = byte_of (length hops) # concat bss"
    by (auto simp: encode_route_def bindE_Inr_iff split: if_splits)
  have "unat (byte_of (length hops)) = length hops" using b(1) by (intro unat_byte_of) simp
  then show "decode_route (bs @ rest) = Inr (hops, rest)"
    using hop.dec_all [of hops bss rest] b by (simp add: decode_route_def)
qed

text \<open>Who computes in which order when each node pops its next hop and forwards the rest.\<close>

fun relay_order :: "nat \<Rightarrow> hop list \<Rightarrow> hop list" where
  "relay_order 0 hops = []"
| "relay_order (Suc n) hops =
     (case pop_next hops of (None, _) \<Rightarrow> [] | (Some h, rest) \<Rightarrow> h # relay_order n rest)"

lemma relay_order_all: "length hops \<le> n \<Longrightarrow> relay_order n hops = hops"
  by (induction n hops rule: relay_order.induct) (auto simp: pop_next_def split: list.splits)

lemma hop_of_node_encodes:
  assumes "hop_of_node n = Inr h" and "length (encode_string (fst (endpoint n))) \<le> 255"
    and "0 \<le> snd (endpoint n)" "snd (endpoint n) \<le> 65535"
  shows "\<exists>bs. encode_hop h = Inr bs"
proof -
  obtain k where k: "h = (codes (fst (endpoint n)), snd (endpoint n), k)" "length k = 32"
    using assms(1) by (auto simp: hop_of_node_def split: option.splits if_splits)
  then show ?thesis using assms(2,3,4) codes_encodable [of "fst (endpoint n)"]
    by (auto simp: k(1) encode_hop_Inr pack_uint_def)
qed

lemma list_all2_in_right: "list_all2 P xs ys \<Longrightarrow> y \<in> set ys \<Longrightarrow> \<exists>x \<in> set xs. P x y"
  by (induction rule: list_all2_induct) auto

lemma mapE_total: "\<forall>x \<in> set xs. \<exists>y. f x = Inr y \<Longrightarrow> \<exists>ys. mapE f xs = Inr ys"
  by (induction xs) auto

text \<open>A chain frame's payload, the encoded downstream route followed by the packed activation,
  decodes at each node to exactly that route and those activation bytes; different routes never
  have the same encoding, and no encoding is a prefix of another.\<close>

theorem route_header_roundtrip:
  assumes "encode_route hops = Inr hdr"
  shows "decode_route (hdr @ activation) = Inr (hops, activation) \<and>
    (\<forall>hops'. encode_route hops' = Inr hdr \<longrightarrow> hops' = hops) \<and>
    (\<forall>hops' more. encode_route hops' = Inr (hdr @ more) \<longrightarrow> hops' = hops \<and> more = [])"
  using route_header.dec_enc [OF _ assms] route_header.enc_inj [OF _ _ _ assms]
    route_header.enc_prefix_free [OF _ _ assms] by blast

definition demo_hop :: "hop" where
  "demo_hop = ([104, 233, 8364], 9001, replicate 32 5)"

lemma route_header_roundtrip_witness:
  "\<exists>hdr. encode_route [demo_hop, demo_hop] = Inr hdr \<and> decode_route (hdr @ [1, 2]) = Inr ([demo_hop, demo_hop], [1, 2])"
proof -
  obtain hdr where "encode_route [demo_hop, demo_hop] = Inr hdr"
    by (simp add: demo_hop_def encode_route_def encode_hop_def utf8_encode_def utf8_char_def
        scalar_value_def pack_uint_def)
  then show ?thesis using route_header_roundtrip by blast
qed

text \<open>From a pinned route the coordinator dials the first node and hands on the others: when every
  later node has a dialable address and a 32-byte key, the header exists, and the hops taken one
  by one along the chain are exactly the remaining nodes in route order, each with its own
  address and key.\<close>

theorem chain_visits_route:
  assumes keys: "\<forall>n \<in> set ns. (\<exists>k. wire_key n = Some k \<and> length k = 32) \<and>
      length (encode_string (fst (endpoint n))) \<le> 255 \<and> 0 \<le> snd (endpoint n) \<and> snd (endpoint n) \<le> 65535"
    and short: "length ns \<le> 255"
  shows "\<exists>hops hdr. chain_head_and_route (hd_node # ns) = Inr (hd_node, hops) \<and>
    encode_route hops = Inr hdr \<and> decode_route (hdr @ act) = Inr (hops, act) \<and>
    map Some hops = map (\<lambda>n. map_option (\<lambda>k. (codes (fst (endpoint n)), snd (endpoint n), k)) (wire_key n)) ns \<and>
    relay_order (length hops) hops = hops"
proof -
  have each: "\<exists>h. hop_of_node n = Inr h" if "n \<in> set ns" for n
    using keys that by (fastforce simp: hop_of_node_def)
  then obtain hops where hops: "mapE hop_of_node ns = Inr hops" using mapE_total [of ns hop_of_node] by blast
  have l2: "list_all2 (\<lambda>n h. hop_of_node n = Inr h) ns hops" using hops by (rule mapE_Inr_list_all2)
  then have "map Some hops = map (\<lambda>n. map_option (\<lambda>k. (codes (fst (endpoint n)), snd (endpoint n), k)) (wire_key n)) ns"
    by (induction rule: list_all2_induct) (auto simp: hop_of_node_def split: option.splits if_splits)
  moreover have "\<exists>bs. encode_hop h = Inr bs" if h: "h \<in> set hops" for h
  proof -
    obtain n where "n \<in> set ns" "hop_of_node n = Inr h"
      using list_all2_in_right [OF l2 h] by blast
    then show ?thesis using keys hop_of_node_encodes by blast
  qed
  then obtain bss where "mapE encode_hop hops = Inr bss" using mapE_total [of hops encode_hop] by blast
  moreover have "length hops = length ns" using hops by (rule mapE_length)
  ultimately show ?thesis
    using hops short relay_order_all [of hops "length hops"] route_header.dec_enc [of hops _ act]
    by (auto simp: chain_head_and_route_def encode_route_def)
qed

lemma chain_visits_route_witness:
  "\<exists>hops. chain_head_and_route [new_node ''a'' (''h'', 1) 4 '''' '''' None '''' False,
      (new_node ''b'' (''k'', 2) 4 '''' '''' None '''' False)\<lparr>wire_key := Some (replicate 32 0)\<rparr>] =
     Inr (new_node ''a'' (''h'', 1) 4 '''' '''' None '''' False, hops) \<and> length hops = 1"
  using chain_visits_route [of "[(new_node ''b'' (''k'', 2) 4 '''' '''' None '''' False)
      \<lparr>wire_key := Some (replicate 32 0)\<rparr>]" "new_node ''a'' (''h'', 1) 4 '''' '''' None '''' False" "[]"]
  by (fastforce simp: new_node_def encode_string_def codes_def utf8_char_def)

end
