(* ===== verification/Stage_Worker.thy ===== *)
theory Stage_Worker
  imports Tensors Chain Specdecode
begin

section \<open>A stage worker\<close>

text \<open>
  \<open>engine/stage_worker.py\<close>: the session store of a worker and what one frame from a peer does
  to it.  The store is shared by all peer connections; a frame is handled atomically, since a
  session has one owner.  Frames are given decrypted (the transport is the theory \<open>Wire\<close>).  The
  stage's forward pass acts on the library's tensors: it is an argument, together with the
  library's \<open>tolist\<close> and the number of layer slots of a fresh cache; it returns the cache it
  leaves behind and the outcome.  What is on the other side of a chain-forward socket is an
  argument as well, with a state of its own.
\<close>

subsection \<open>State\<close>

record 'e worker =
  w_sessions :: "(int, 'e stage_kv) dict"
  w_touch :: "(int, rat) dict"

datatype fwd_mode =
    Causal "int list"
  | Padded tensor tensor
  | TreeMasked tensor "bool list list"

record 'e stage_lib =
  sl_forward :: "fwd_mode \<Rightarrow> tensor \<Rightarrow> 'e stage_kv \<Rightarrow> 'e stage_kv \<times> tensor result"
  sl_tolist :: "tensor \<Rightarrow> int list result"
  sl_slots :: nat

text \<open>What a frame leads to on its connection: a reply, nothing, the end of the connection's
  thread by return or by exception, or a thread that never comes back.\<close>

datatype outcome = Reply int bytes | Silent | Closed | Raised py_error | Hung

subsection \<open>The session store\<close>

definition get_cache :: "nat \<Rightarrow> int \<Rightarrow> int \<Rightarrow> rat \<Rightarrow> 'e worker \<Rightarrow> 'e stage_kv \<times> 'e worker" where
  "get_cache n session pos now w =
     (let c = (case map_of (w_sessions w) session of
                 None \<Rightarrow> replicate n []
               | Some kv \<Rightarrow> if pos = 0 then replicate n [] else kv)
      in (c, w\<lparr>w_sessions := dset session c (w_sessions w), w_touch := dset session now (w_touch w)\<rparr>))"

text \<open>The cache object in the store is the one the forward pass mutates.\<close>

definition put_cache :: "int \<Rightarrow> 'e stage_kv \<Rightarrow> 'e worker \<Rightarrow> 'e worker" where
  "put_cache session c w = w\<lparr>w_sessions := dmod session (\<lambda>_. c) (w_sessions w)\<rparr>"

definition session_reaper :: "rat \<Rightarrow> rat \<Rightarrow> 'e worker \<Rightarrow> 'e worker \<times> int list" where
  "session_reaper ttl now w =
     (let cutoff = now - ttl;
          gone = map fst (filter (\<lambda>(s, t). t < cutoff) (w_touch w))
      in (foldl (\<lambda>w s. w\<lparr>w_sessions := dpop s (w_sessions w), w_touch := dpop s (w_touch w)\<rparr>) w gone, gone))"

subsection \<open>Forwarding an activation\<close>

text \<open>\<open>hidden.shape[1]\<close>.\<close>

definition seq_len :: "tensor \<Rightarrow> nat result" where
  "seq_len t = (case t_shape t of _ # s # _ \<Rightarrow> Inr s | _ \<Rightarrow> Inl IndexError)"

definition position_ids :: "nat \<Rightarrow> int \<Rightarrow> int list" where
  "position_ids n start_pos = map (\<lambda>i. int i + start_pos) [0 ..< n]"

text \<open>\<open>_get_cache\<close>, then the mode's own arguments, then the forward pass.\<close>

definition run_stage ::
  "'e stage_lib \<Rightarrow> rat \<Rightarrow> int \<Rightarrow> int \<Rightarrow> tensor \<Rightarrow> fwd_mode result \<Rightarrow> 'e worker \<Rightarrow> 'e worker \<times> tensor result" where
  "run_stage L now session pos hidden mode w =
     (case get_cache (sl_slots L) session pos now w of
        (c, w1) \<Rightarrow>
          (case mode of
             Inl e \<Rightarrow> (w1, Inl e)
           | Inr md \<Rightarrow> (case sl_forward L md hidden c of (c', r) \<Rightarrow> (put_cache session c' w1, r))))"

definition causal_mode :: "tensor \<Rightarrow> int \<Rightarrow> fwd_mode result" where
  "causal_mode hidden pos = bindE (seq_len hidden) (\<lambda>n. Inr (Causal (position_ids n pos)))"

definition reply_activation :: "int \<Rightarrow> int \<Rightarrow> tensor result \<Rightarrow> outcome" where
  "reply_activation session pos out =
     (case bindE out (\<lambda>t. pack_activation session pos t FLAG_NONE) of
        Inl e \<Rightarrow> Raised e
      | Inr p \<Rightarrow> Reply (msg_code RESULT) p)"

definition handle_activation ::
  "'e stage_lib \<Rightarrow> rat \<Rightarrow> bytes \<Rightarrow> 'e worker \<Rightarrow> 'e worker \<times> outcome" where
  "handle_activation L now payload w =
     (case unpack_activation payload of
        Inl e \<Rightarrow> (w, Raised e)
      | Inr (session, pos, flags, hidden) \<Rightarrow>
          (case run_stage L now session pos hidden (causal_mode hidden pos) w of
             (w', out) \<Rightarrow> (w', reply_activation session pos out)))"

definition handle_batch :: "'e stage_lib \<Rightarrow> rat \<Rightarrow> bytes \<Rightarrow> 'e worker \<Rightarrow> 'e worker \<times> outcome" where
  "handle_batch L now payload w =
     (case unpack_batch_activation payload of
        Inr (batch_id, pos, flags, [hidden, ids, attn]) \<Rightarrow>
          (case run_stage L now batch_id pos hidden (Inr (Padded ids attn)) w of
             (w', out) \<Rightarrow> (w', reply_activation batch_id pos out))
      | Inl e \<Rightarrow> (w, Raised e)
      | _ \<Rightarrow> (w, Raised ValueError))"

text \<open>\<open>torch.finfo\<close> knows the floating-point types only.\<close>

definition float_dtype :: "dtype \<Rightarrow> bool" where
  "float_dtype d \<longleftrightarrow> d \<in> {F32, F16, BF16}"

definition handle_tree :: "'e stage_lib \<Rightarrow> rat \<Rightarrow> bytes \<Rightarrow> 'e worker \<Rightarrow> 'e worker \<times> outcome" where
  "handle_tree L now payload w =
     (case unpack_tree_activation payload of
        Inr (session, pos, flags, [hidden, tpos, tparents]) \<Rightarrow>
          (case sl_tolist L tparents of
             Inl e \<Rightarrow> (w, Raised e)
           | Inr parents \<Rightarrow>
               (let w1 = snd (get_cache (sl_slots L) session pos now w)
                in if \<not> float_dtype (t_dtype hidden) then (w1, Raised TypeError)
                   else case build_tree_mask parents (nat pos) of
                          None \<Rightarrow> (w1, Hung)
                        | Some tm \<Rightarrow>
                            (case run_stage L now session pos hidden (map_sum id (TreeMasked tpos) tm) w of
                               (w', out) \<Rightarrow> (w', reply_activation session pos out))))
      | Inl e \<Rightarrow> (w, Raised e)
      | _ \<Rightarrow> (w, Raised ValueError))"

subsection \<open>Chain forwarding\<close>

text \<open>The text of an address.\<close>

definition endpoint_text :: "pystr \<Rightarrow> int \<Rightarrow> pystr" where
  "endpoint_text host port = host @ [58] @ (if port < 0 then 45 # decimal (nat (- port)) else decimal (nat port))"

type_synonym fwd_pool = "(pystr \<times> int) list"

record 'net peers =
  p_connect :: "pystr \<times> int \<Rightarrow> 'net \<Rightarrow> 'net \<times> unit result"
  p_exchange :: "pystr \<times> int \<Rightarrow> bytes \<Rightarrow> int \<Rightarrow> bytes \<Rightarrow> 'net \<Rightarrow> 'net \<times> (int \<times> bytes) result"

definition fwd_conn :: "'net peers \<Rightarrow> pystr \<times> int \<Rightarrow> fwd_pool \<Rightarrow> 'net \<Rightarrow> fwd_pool \<times> 'net \<times> unit result" where
  "fwd_conn P ep pool net =
     (if ep \<in> set pool then (pool, net, Inr ())
      else case p_connect P ep net of
             (net', Inl e) \<Rightarrow> (pool, net', Inl e)
           | (net', Inr _) \<Rightarrow> (pool @ [ep], net', Inr ()))"

text \<open>The reply bubbled up, or the broken hop's endpoint; other exceptions pass through.\<close>

definition chain_failed :: "hop \<Rightarrow> py_error \<Rightarrow> fwd_pool \<Rightarrow> fwd_pool \<times> outcome" where
  "chain_failed hp e pool =
     (case hp of (host, port, key) \<Rightarrow>
        if e = WireError \<or> e = OSError then
          (removeAll (host, port) pool,
           case utf8_encode (endpoint_text host port) of
             Inl e' \<Rightarrow> Raised e'
           | Inr b \<Rightarrow> Reply (msg_code ERROR) b)
        else (pool, Raised e))"

definition chain_forward ::
  "'net peers \<Rightarrow> hop \<Rightarrow> hop list \<Rightarrow> int \<Rightarrow> int \<Rightarrow> tensor \<Rightarrow> fwd_pool \<Rightarrow> 'net \<Rightarrow> fwd_pool \<times> 'net \<times> outcome" where
  "chain_forward P hp remaining session pos out pool net =
     (case hp of (host, port, key) \<Rightarrow>
        (case fwd_conn P (host, port) pool net of
           (pool1, net1, Inl e) \<Rightarrow> (case chain_failed hp e pool1 of (pool2, oc) \<Rightarrow> (pool2, net1, oc))
         | (pool1, net1, Inr _) \<Rightarrow>
             (case bindE (encode_route remaining) (\<lambda>rt.
                     bindE (pack_activation session pos out FLAG_NONE) (\<lambda>act. Inr (rt @ act))) of
                Inl e \<Rightarrow> (pool1, net1, Raised e)
              | Inr body \<Rightarrow>
                  (case p_exchange P (host, port) key (msg_code CHAIN_ACTIVATION) body net1 of
                     (net2, Inr (mt, reply)) \<Rightarrow> (pool1, net2, Reply mt reply)
                   | (net2, Inl e) \<Rightarrow> (case chain_failed hp e pool1 of (pool2, oc) \<Rightarrow> (pool2, net2, oc))))))"

definition handle_chain ::
  "'e stage_lib \<Rightarrow> 'net peers \<Rightarrow> rat \<Rightarrow> bytes \<Rightarrow> 'e worker \<Rightarrow> fwd_pool \<Rightarrow> 'net \<Rightarrow>
   'e worker \<times> fwd_pool \<times> 'net \<times> outcome" where
  "handle_chain L P now payload w pool net =
     (case bindE (decode_route payload) (\<lambda>(rt, rest). bindE (unpack_activation rest) (\<lambda>a. Inr (rt, a))) of
        Inl e \<Rightarrow> (w, pool, net, Raised e)
      | Inr (rt, session, pos, flags, hidden) \<Rightarrow>
          (case run_stage L now session pos hidden (causal_mode hidden pos) w of
             (w', Inl e) \<Rightarrow> (w', pool, net, Raised e)
           | (w', Inr out) \<Rightarrow>
               (case pop_next rt of
                  (None, _) \<Rightarrow> (w', pool, net, reply_activation session pos (Inr out))
                | (Some hp, remaining) \<Rightarrow>
                    (case chain_forward P hp remaining session pos out pool net of
                       (pool', net', oc) \<Rightarrow> (w', pool', net', oc)))))"

subsection \<open>Cache control\<close>

definition KVOP_RESET :: int where "KVOP_RESET = 1"
definition KVOP_TRUNCATE :: int where "KVOP_TRUNCATE = 2"
definition KVOP_FREE :: int where "KVOP_FREE = 3"
definition KVOP_TREE_KEEP :: int where "KVOP_TREE_KEEP = 4"

fun read_uints :: "nat \<Rightarrow> bytes \<Rightarrow> int list result" where
  "read_uints 0 bs = (if bs = [] then Inr [] else Inl StructError)"
| "read_uints (Suc n) bs =
     bindE (unpack_uint 4 (take 4 bs)) (\<lambda>v. bindE (read_uints n (drop 4 bs)) (\<lambda>vs. Inr (v # vs)))"

text \<open>The operation on the session's cache, and the exception it may end with.\<close>

definition kv_op :: "int \<Rightarrow> int \<Rightarrow> bytes \<Rightarrow> 'e stage_kv \<Rightarrow> 'e stage_kv \<times> unit result" where
  "kv_op op arg payload c =
     (if op = KVOP_TREE_KEEP then
        (case bindE (unpack_uint 4 (slice 9 4 payload)) (\<lambda>n. read_uints (nat n) (slice 13 (4 * nat n) payload)) of
           Inl e \<Rightarrow> (c, Inl e)
         | Inr accepted \<Rightarrow> kv_keep_tree_path (nat arg) accepted c)
      else if op = KVOP_RESET then (kv_reset c, Inr ())
      else if op = KVOP_TRUNCATE then (kv_truncate (nat arg) c, Inr ())
      else (c, Inr ()))"

definition handle_kv_ctrl :: "rat \<Rightarrow> bytes \<Rightarrow> 'e worker \<Rightarrow> 'e worker \<times> outcome" where
  "handle_kv_ctrl now payload w =
     (if length (take 9 payload) \<noteq> 9 then (w, Raised StructError)
      else
        (let session = be_value (slice 0 4 payload);
             op = be_value (slice 4 1 payload);
             arg = be_value (slice 5 4 payload)
         in if op = KVOP_FREE then
              (w\<lparr>w_sessions := dpop session (w_sessions w), w_touch := dpop session (w_touch w)\<rparr>, Silent)
            else case map_of (w_sessions w) session of
                   None \<Rightarrow> (w, Silent)
                 | Some c \<Rightarrow>
                     (let w1 = w\<lparr>w_touch := dset session now (w_touch w)\<rparr>
                      in case kv_op op arg payload c of
                           (c', r) \<Rightarrow> (put_cache session c' w1,
                             case r of Inl e \<Rightarrow> Raised e | Inr _ \<Rightarrow> Silent))))"

subsection \<open>The dispatch loop\<close>

definition handle_frame ::
  "'e stage_lib \<Rightarrow> 'net peers \<Rightarrow> rat \<Rightarrow> int \<Rightarrow> bytes \<Rightarrow> 'e worker \<Rightarrow> fwd_pool \<Rightarrow> 'net \<Rightarrow>
   'e worker \<times> fwd_pool \<times> 'net \<times> outcome" where
  "handle_frame L P now mt payload w pool net =
     (case msg_of_code mt of
        Some ACTIVATION \<Rightarrow> (case handle_activation L now payload w of (w', oc) \<Rightarrow> (w', pool, net, oc))
      | Some BATCH_ACTIVATION \<Rightarrow> (case handle_batch L now payload w of (w', oc) \<Rightarrow> (w', pool, net, oc))
      | Some TREE_ACTIVATION \<Rightarrow> (case handle_tree L now payload w of (w', oc) \<Rightarrow> (w', pool, net, oc))
      | Some CHAIN_ACTIVATION \<Rightarrow> handle_chain L P now payload w pool net
      | Some KV_CTRL \<Rightarrow> (case handle_kv_ctrl now payload w of (w', oc) \<Rightarrow> (w', pool, net, oc))
      | Some PING \<Rightarrow> (w, pool, net, Reply (msg_code PONG) payload)
      | Some BYE \<Rightarrow> (w, pool, net, Closed)
      | _ \<Rightarrow> (w, pool, net, Silent))"

text \<open>The frames of one connection, each with the time of its handling; after the last the peer
  closes.  The loop goes on while frames are answered or silent.\<close>

fun handle_conn ::
  "'e stage_lib \<Rightarrow> 'net peers \<Rightarrow> (rat \<times> int \<times> bytes) list \<Rightarrow> 'e worker \<Rightarrow> fwd_pool \<Rightarrow> 'net \<Rightarrow>
   'e worker \<times> 'net \<times> (int \<times> bytes) list \<times> outcome" where
  "handle_conn L P [] w pool net = (w, net, [], Closed)"
| "handle_conn L P ((now, mt, payload) # fs) w pool net =
     (case handle_frame L P now mt payload w pool net of
        (w1, pool1, net1, Reply rt rp) \<Rightarrow>
          (case handle_conn L P fs w1 pool1 net1 of (w2, net2, out, oc) \<Rightarrow> (w2, net2, (rt, rp) # out, oc))
      | (w1, pool1, net1, Silent) \<Rightarrow> handle_conn L P fs w1 pool1 net1
      | (w1, pool1, net1, oc) \<Rightarrow> (w1, net1, [], oc))"

end
