(* ===== verification/Stage_Worker_Spec.thy ===== *)
theory Stage_Worker_Spec
  imports Stage_Worker Tensors_Spec
begin

section \<open>Isolation and bookkeeping of the session store\<close>

text \<open>
  A frame touches the session it names and no other; the store and its activity times have the
  same sessions, whatever the frames and the reaper do; the reaper frees the idle sessions and
  only those.  The frames of a run come from any number of connections, interleaved.
\<close>

subsection \<open>The session a frame names\<close>

definition head_session :: "bytes \<Rightarrow> int option" where
  "head_session p = (if length p < 9 then None else Some (fst (read_head p)))"

definition frame_session :: "int \<Rightarrow> bytes \<Rightarrow> int option" where
  "frame_session mt p =
     (case msg_of_code mt of
        Some ACTIVATION \<Rightarrow> head_session p
      | Some BATCH_ACTIVATION \<Rightarrow> head_session p
      | Some TREE_ACTIVATION \<Rightarrow> head_session p
      | Some CHAIN_ACTIVATION \<Rightarrow> (case decode_route p of Inl _ \<Rightarrow> None | Inr (_, rest) \<Rightarrow> head_session rest)
      | Some KV_CTRL \<Rightarrow> head_session p
      | _ \<Rightarrow> None)"

text \<open>The worker is the same but possibly for one session.\<close>

definition only_session :: "int option \<Rightarrow> 'e worker \<Rightarrow> 'e worker \<Rightarrow> bool" where
  "only_session sid w w' \<longleftrightarrow>
     (\<forall>s. Some s \<noteq> sid \<longrightarrow> map_of (w_sessions w') s = map_of (w_sessions w) s \<and>
        map_of (w_touch w') s = map_of (w_touch w) s)"

definition store_ok :: "'e worker \<Rightarrow> bool" where
  "store_ok w \<longleftrightarrow> dom (map_of (w_sessions w)) = dom (map_of (w_touch w)) \<and>
     dict_ok (w_sessions w) \<and> dict_ok (w_touch w)"

lemma only_session_refl [simp]: "only_session sid w w"
  by (simp add: only_session_def)

lemma store_ok_touch:
  "store_ok w \<Longrightarrow> store_ok (w\<lparr>w_sessions := dset s c (w_sessions w), w_touch := dset s now (w_touch w)\<rparr>)"
  by (simp add: store_ok_def dict_simps)

lemma get_cache_frame:
  assumes "get_cache n s pos now w = (c, w')"
  shows "only_session (Some s) w w' \<and> (store_ok w \<longrightarrow> store_ok w')"
proof -
  have "w' = w\<lparr>w_sessions := dset s c (w_sessions w), w_touch := dset s now (w_touch w)\<rparr>"
    using assms unfolding get_cache_def Let_def by auto
  then show ?thesis using store_ok_touch [of w s now c] by (simp add: only_session_def dict_simps)
qed

lemma put_cache_frame: "only_session (Some s) w (put_cache s c w) \<and> (store_ok w \<longrightarrow> store_ok (put_cache s c w))"
  by (auto simp: put_cache_def only_session_def store_ok_def dict_simps)

lemma only_session_trans: "only_session sid w w' \<Longrightarrow> only_session sid w' w'' \<Longrightarrow> only_session sid w w''"
  by (auto simp: only_session_def)

lemma run_stage_frame:
  "run_stage L now s pos hidden mode w = (w', r) \<Longrightarrow> only_session (Some s) w w' \<and> (store_ok w \<longrightarrow> store_ok w')"
  unfolding run_stage_def
  by (auto split: prod.splits sum.splits dest!: get_cache_frame
      intro: only_session_trans [OF _ put_cache_frame [THEN conjunct1]] put_cache_frame [THEN conjunct2, rule_format])

subsection \<open>Headers of what unpacks\<close>

lemma unpack_activation_session:
  "unpack_activation p = Inr (sid, pos, fl, t) \<Longrightarrow> head_session p = Some sid"
  by (auto simp: unpack_activation_def head_session_def bindE_Inr_iff split: if_splits prod.splits)

lemma unpack_three_session:
  "unpack_three p = Inr (sid, pos, fl, ts) \<Longrightarrow> head_session p = Some sid"
  by (auto simp: unpack_three_def head_session_def bindE_Inr_iff split: if_splits prod.splits)

lemma handle_activation_frame:
  assumes "handle_activation L now p w = (w', oc)"
  shows "only_session (head_session p) w w' \<and> (store_ok w \<longrightarrow> store_ok w')"
  using assms unfolding handle_activation_def
  by (auto split: sum.splits prod.splits dest!: run_stage_frame simp: unpack_activation_session)

lemma handle_batch_frame:
  assumes "handle_batch L now p w = (w', oc)"
  shows "only_session (head_session p) w w' \<and> (store_ok w \<longrightarrow> store_ok w')"
  using assms unfolding handle_batch_def unpack_batch_activation_def
  by (auto split: sum.splits prod.splits list.splits dest!: run_stage_frame simp: unpack_three_session)

lemma handle_tree_frame:
  assumes "handle_tree L now p w = (w', oc)"
  shows "only_session (head_session p) w w' \<and> (store_ok w \<longrightarrow> store_ok w')"
proof -
  have gc: "only_session (Some s) w (snd (get_cache n s pos now w)) \<and>
      (store_ok w \<longrightarrow> store_ok (snd (get_cache n s pos now w)))" for n s pos
    using get_cache_frame [of n s pos now w] by (cases "get_cache n s pos now w") auto
  show ?thesis
    using assms gc unfolding handle_tree_def unpack_tree_activation_def Let_def
    by (auto split: sum.splits prod.splits list.splits option.splits if_splits
        dest!: run_stage_frame simp: unpack_three_session)
qed

lemma handle_chain_frame:
  assumes "handle_chain L P now p w pool net = (w', pool', net', oc)"
  shows "only_session (case decode_route p of Inl _ \<Rightarrow> None | Inr (_, rest) \<Rightarrow> head_session rest) w w' \<and>
    (store_ok w \<longrightarrow> store_ok w')"
proof (cases "bindE (decode_route p) (\<lambda>(rt, rest). bindE (unpack_activation rest) (\<lambda>a. Inr (rt, a)))")
  case (Inl e)
  then show ?thesis using assms by (simp add: handle_chain_def)
next
  case (Inr a)
  obtain rt rest sid pos fl h where r: "decode_route p = Inr (rt, rest)"
      "unpack_activation rest = Inr (sid, pos, fl, h)" "a = (rt, sid, pos, fl, h)"
    using Inr by (auto simp: bindE_Inr_iff split: prod.splits)
  obtain w1 out where s: "run_stage L now sid pos h (causal_mode h pos) w = (w1, out)" by fastforce
  have "w' = w1"
    using assms Inr r(3) s unfolding handle_chain_def
    by (auto split: sum.splits prod.splits option.splits)
  then show ?thesis using run_stage_frame [OF s] r(1) unpack_activation_session [OF r(2)] by simp
qed

lemma handle_kv_ctrl_frame:
  assumes "handle_kv_ctrl now p w = (w', oc)"
  shows "only_session (head_session p) w w' \<and> (store_ok w \<longrightarrow> store_ok w')"
proof (cases "length p < 9")
  case True
  then show ?thesis using assms by (auto simp: handle_kv_ctrl_def)
next
  case False
  let ?s = "be_value (slice 0 4 p)"
  have hs: "head_session p = Some ?s" using False by (simp add: head_session_def read_head_def)
  show ?thesis
  proof (cases "be_value (slice 4 1 p) = KVOP_FREE")
    case True
    then have "w' = w\<lparr>w_sessions := dpop ?s (w_sessions w), w_touch := dpop ?s (w_touch w)\<rparr>"
      using assms False by (auto simp: handle_kv_ctrl_def Let_def)
    then show ?thesis by (auto simp: hs only_session_def store_ok_def dict_simps)
  next
    case op: False
    show ?thesis
    proof (cases "map_of (w_sessions w) ?s")
      case None
      then have "w' = w" using assms False op by (auto simp: handle_kv_ctrl_def Let_def)
      then show ?thesis by simp
    next
      case (Some c)
      then obtain c' where w': "w' = put_cache ?s c' (w\<lparr>w_touch := dset ?s now (w_touch w)\<rparr>)"
        using assms False op by (auto simp: handle_kv_ctrl_def Let_def split: prod.splits)
      have "map_of (w_sessions w) ?s \<noteq> None" using Some by simp
      then have "?s \<in> dom (map_of (w_sessions w))" by blast
      then show ?thesis
        unfolding hs w' by (auto simp: only_session_def store_ok_def put_cache_def dict_simps insert_absorb)
    qed
  qed
qed

lemma handle_frame_frame:
  assumes "handle_frame L P now mt p w pool net = (w', pool', net', oc)"
  shows "only_session (frame_session mt p) w w' \<and> (store_ok w \<longrightarrow> store_ok w')"
  using assms handle_activation_frame handle_batch_frame handle_tree_frame handle_chain_frame
    handle_kv_ctrl_frame
  unfolding handle_frame_def frame_session_def
  by (fastforce split: option.splits msg.splits prod.splits)

subsection \<open>Runs\<close>

text \<open>What can happen to a worker: a frame on a connection, with the connection's forward pool and
  the rest of the mesh, or a pass of the reaper.\<close>

datatype 'net worker_event =
    Frame rat int bytes fwd_pool 'net
  | ReaperPass rat rat

definition worker_step :: "'e stage_lib \<Rightarrow> 'net peers \<Rightarrow> 'e worker \<Rightarrow> 'net worker_event \<Rightarrow> 'e worker" where
  "worker_step L P w ev =
     (case ev of
        Frame now mt p pool net \<Rightarrow> fst (handle_frame L P now mt p w pool net)
      | ReaperPass ttl now \<Rightarrow> fst (session_reaper ttl now w))"

lemma reaper_map_of:
  "map_of (w_sessions (foldl (\<lambda>w s. w\<lparr>w_sessions := dpop s (w_sessions w), w_touch := dpop s (w_touch w)\<rparr>) w gone)) s =
     (if s \<in> set gone then None else map_of (w_sessions w) s)"
  "map_of (w_touch (foldl (\<lambda>w s. w\<lparr>w_sessions := dpop s (w_sessions w), w_touch := dpop s (w_touch w)\<rparr>) w gone)) s =
     (if s \<in> set gone then None else map_of (w_touch w) s)"
  by (induction gone arbitrary: w) (auto simp: dict_simps)

lemma reaper_dict_ok:
  "dict_ok (w_sessions w) \<Longrightarrow> dict_ok (w_touch w) \<Longrightarrow>
   dict_ok (w_sessions (foldl (\<lambda>w s. w\<lparr>w_sessions := dpop s (w_sessions w), w_touch := dpop s (w_touch w)\<rparr>) w gone)) \<and>
   dict_ok (w_touch (foldl (\<lambda>w s. w\<lparr>w_sessions := dpop s (w_sessions w), w_touch := dpop s (w_touch w)\<rparr>) w gone))"
  by (induction gone arbitrary: w) auto

text \<open>Exactly the idle sessions go.\<close>

lemma reaper_exact:
  assumes "store_ok w" and "session_reaper ttl now w = (w', gone)"
  shows "store_ok w'"
    and "s \<in> set gone \<longleftrightarrow> (\<exists>t. map_of (w_touch w) s = Some t \<and> t < now - ttl)"
    and "map_of (w_sessions w') s = (if s \<in> set gone then None else map_of (w_sessions w) s)"
    and "map_of (w_touch w') s = (if s \<in> set gone then None else map_of (w_touch w) s)"
proof -
  have gone: "gone = map fst (filter (\<lambda>(s, t). t < now - ttl) (w_touch w))"
    and w': "w' = foldl (\<lambda>w s. w\<lparr>w_sessions := dpop s (w_sessions w), w_touch := dpop s (w_touch w)\<rparr>) w gone"
    using assms(2) by (auto simp: session_reaper_def Let_def)
  show "map_of (w_sessions w') s = (if s \<in> set gone then None else map_of (w_sessions w) s)"
    and "map_of (w_touch w') s = (if s \<in> set gone then None else map_of (w_touch w) s)"
    unfolding w' by (simp_all add: reaper_map_of)
  have d: "dict_ok (w_touch w)" "dict_ok (w_sessions w)" using assms(1) by (simp_all add: store_ok_def)
  show "s \<in> set gone \<longleftrightarrow> (\<exists>t. map_of (w_touch w) s = Some t \<and> t < now - ttl)"
    unfolding gone using d(1) by (force simp: image_iff map_of_eq_Some_iff)
  have "map_of (w_sessions w') = (\<lambda>s. if s \<in> set gone then None else map_of (w_sessions w) s)"
    "map_of (w_touch w') = (\<lambda>s. if s \<in> set gone then None else map_of (w_touch w) s)"
    unfolding w' by (simp_all add: fun_eq_iff reaper_map_of)
  then have "dom (map_of (w_sessions w')) = dom (map_of (w_sessions w)) - set gone"
    "dom (map_of (w_touch w')) = dom (map_of (w_touch w)) - set gone"
    by (auto simp: dom_def)
  then show "store_ok w'"
    using assms(1) reaper_dict_ok [OF d(2,1), of gone] unfolding store_ok_def w' by simp
qed

lemma worker_step_Frame:
  assumes "worker_step L P w (Frame now mt p pool net) = w'"
  shows "only_session (frame_session mt p) w w' \<and> (store_ok w \<longrightarrow> store_ok w')"
proof -
  obtain v pool' net' oc where "handle_frame L P now mt p w pool net = (v, pool', net', oc)"
    by (cases "handle_frame L P now mt p w pool net")
  then show ?thesis using handle_frame_frame assms by (fastforce simp: worker_step_def)
qed

lemma worker_step_Reaper:
  assumes "worker_step L P w (ReaperPass ttl now) = w'" and "store_ok w"
  shows "store_ok w' \<and> (if \<exists>t. map_of (w_touch w) s = Some t \<and> t < now - ttl
     then map_of (w_sessions w') s = None \<and> map_of (w_touch w') s = None
     else map_of (w_sessions w') s = map_of (w_sessions w) s \<and> map_of (w_touch w') s = map_of (w_touch w) s)"
proof -
  obtain v gone where "session_reaper ttl now w = (v, gone)" by fastforce
  then have v: "session_reaper ttl now w = (v, gone)" "w' = v" using assms(1) by (simp_all add: worker_step_def)
  note r = reaper_exact [OF assms(2) v(1)]
  show ?thesis
    unfolding r(2) [symmetric] using r(1) r(3) [of s] r(4) [of s] v(2) by simp
qed

definition quiet :: "int \<Rightarrow> 'net worker_event \<Rightarrow> bool" where
  "quiet s ev = (case ev of Frame now mt p pool net \<Rightarrow> frame_session mt p \<noteq> Some s | ReaperPass ttl now \<Rightarrow> True)"

lemma quiet_run:
  assumes "store_ok w" and "\<forall>ev \<in> set evs. quiet s ev"
  shows "store_ok (foldl (worker_step L P) w evs) \<and>
    (map_of (w_sessions (foldl (worker_step L P) w evs)) s = map_of (w_sessions w) s \<and>
       map_of (w_touch (foldl (worker_step L P) w evs)) s = map_of (w_touch w) s \<or>
     map_of (w_sessions (foldl (worker_step L P) w evs)) s = None \<and>
       map_of (w_touch (foldl (worker_step L P) w evs)) s = None \<and>
       (\<exists>t ttl now. ReaperPass ttl now \<in> set evs \<and> map_of (w_touch w) s = Some t \<and> t < now - ttl))"
  using assms
proof (induction evs rule: rev_induct)
  case Nil
  then show ?case by simp
next
  case (snoc ev evs)
  let ?v = "foldl (worker_step L P) w evs"
  have IH: "store_ok ?v" "map_of (w_sessions ?v) s = map_of (w_sessions w) s \<and>
       map_of (w_touch ?v) s = map_of (w_touch w) s \<or>
     map_of (w_sessions ?v) s = None \<and> map_of (w_touch ?v) s = None \<and>
       (\<exists>t ttl now. ReaperPass ttl now \<in> set evs \<and> map_of (w_touch w) s = Some t \<and> t < now - ttl)"
    using snoc by simp_all
  have q: "quiet s ev" using snoc.prems by simp
  show ?case
  proof (cases ev)
    case (Frame now mt p pool net)
    have "only_session (frame_session mt p) ?v (worker_step L P ?v ev)" "store_ok (worker_step L P ?v ev)"
      using worker_step_Frame [of L P ?v now mt p pool net] Frame IH(1) by blast+
    moreover have "frame_session mt p \<noteq> Some s" using q Frame by (simp add: quiet_def)
    ultimately show ?thesis using IH(2) by (auto simp: only_session_def)
  next
    case (ReaperPass ttl now)
    then have r: "ReaperPass ttl now \<in> set (evs @ [ev])" by simp
    let ?u = "worker_step L P ?v ev"
    have step: "store_ok ?u \<and> (if \<exists>t. map_of (w_touch ?v) s = Some t \<and> t < now - ttl
        then map_of (w_sessions ?u) s = None \<and> map_of (w_touch ?u) s = None
        else map_of (w_sessions ?u) s = map_of (w_sessions ?v) s \<and> map_of (w_touch ?u) s = map_of (w_touch ?v) s)"
      unfolding ReaperPass by (rule worker_step_Reaper [OF refl IH(1)])
    show ?thesis
    proof (cases "\<exists>t. map_of (w_touch ?v) s = Some t \<and> t < now - ttl")
      case True
      then obtain t where t: "map_of (w_touch ?v) s = Some t" "t < now - ttl" by blast
      then have "map_of (w_touch w) s = Some t" using IH(2) by (elim disjE) simp_all
      then show ?thesis using step True t(2) r by auto
    next
      case False
      then have "map_of (w_sessions ?u) s = map_of (w_sessions ?v) s" "map_of (w_touch ?u) s = map_of (w_touch ?v) s"
        using step by simp_all
      then show ?thesis using step IH(2) by auto
    qed
  qed
qed

text \<open>C29. On a worker shared by any number of connections, whatever frames arrive in whatever order
  and whatever the reaper does between them, a session that no frame names keeps its cache and
  its last activity, or is freed by a reaper pass after which it had been idle for longer than
  the time to live; and the store and the activity table always have the same sessions.\<close>

theorem worker_sessions_isolated:
  assumes "store_ok w" and "\<forall>ev \<in> set evs. quiet s ev"
  shows "store_ok (foldl (worker_step L P) w evs) \<and>
    (map_of (w_sessions (foldl (worker_step L P) w evs)) s = map_of (w_sessions w) s \<and>
       map_of (w_touch (foldl (worker_step L P) w evs)) s = map_of (w_touch w) s \<or>
     map_of (w_sessions (foldl (worker_step L P) w evs)) s = None \<and>
       (\<exists>t ttl now. ReaperPass ttl now \<in> set evs \<and> map_of (w_touch w) s = Some t \<and> t < now - ttl))"
  using quiet_run [OF assms] by blast

definition demo_worker :: "nat worker" where
  "demo_worker = \<lparr>w_sessions = [(1, [[10, 11]]), (2, [[20]])], w_touch = [(1, 100), (2, 5)]\<rparr>"

definition demo_lib :: "nat stage_lib" where
  "demo_lib = \<lparr>sl_forward = (\<lambda>md t c. (map (\<lambda>l. l @ [0]) c, Inr t)), sl_tolist = (\<lambda>_. Inr []), sl_slots = 1\<rparr>"

definition no_peers :: "unit peers" where
  "no_peers = \<lparr>p_connect = (\<lambda>ep net. (net, Inl OSError)), p_exchange = (\<lambda>ep k mt b net. (net, Inl OSError))\<rparr>"

text \<open>A truncation of session 2, which the reaper then frees; session 1 stays.\<close>

theorem worker_sessions_isolated_witness:
  "let w = foldl (worker_step demo_lib no_peers) demo_worker
         [Frame 50 5 [0, 0, 0, 2, 2, 0, 0, 0, 0] [] (), ReaperPass 60 120]
   in store_ok w \<and> map_of (w_sessions w) 1 = Some [[10, 11]] \<and> map_of (w_sessions w) 2 = None"
proof -
  let ?evs = "[Frame 50 5 [0, 0, 0, 2, 2, 0, 0, 0, 0] [] (), ReaperPass 60 120]"
  let ?w = "foldl (worker_step demo_lib no_peers) demo_worker ?evs"
  have ok: "store_ok demo_worker" by (auto simp: store_ok_def demo_worker_def)
  have fs: "frame_session 5 [0, 0, 0, 2, 2, 0, 0, 0, 0] = Some 2" by code_simp
  have q: "\<forall>ev \<in> set ?evs. quiet 1 ev" by (simp add: quiet_def fs)
  have alive: "\<not> (\<exists>t ttl now. ReaperPass ttl now \<in> set ?evs \<and> map_of (w_touch demo_worker) 1 = Some t \<and> t < now - ttl)"
    by (auto simp: demo_worker_def)
  have one: "store_ok ?w \<and> map_of (w_sessions ?w) 1 = Some [[10, 11]]"
    using worker_sessions_isolated [OF ok q] alive by (simp add: demo_worker_def)
  have "map_of (w_sessions ?w) 2 = None" by code_simp
  then show ?thesis using one by (simp add: Let_def)
qed

end
