(* ===== verification/Coordinator.thy ===== *)
theory Coordinator
  imports Stage_Worker Registry
begin

unbundle bit_operations_syntax

section \<open>The coordinator on the mesh\<close>

text \<open>
  \<open>engine/coordinator.py\<close>, dynamic mode: session ids, the route pinned for a session, relaying
  an activation through the holders of the route (star) or along them (chain), failover by
  re-prefill, the greedy decode loop, and the control frames for the holders' caches.  The
  coordinator, the workers and the route provider form one state; each contact with a node may
  fail, which a function of the number of contacts so far decides.  Frames are plaintext here:
  a frame reaches its node when the keys agree (the theory \<open>Wire\<close> is the transport).  A node's
  registered endpoint is where that node listens, so a connection of the coordinator is named by
  the node's id; a chain hop is dialled by its endpoint.
\<close>

subsection \<open>The network\<close>

text \<open>A request may be refused, or be processed and the reply lost; a one-way write may fail, or
  go nowhere with the connection that carried it.\<close>

datatype contact = Delivered | Refused | Lost

record 'e mesh_env =
  me_lib :: "string \<Rightarrow> 'e stage_lib"
  me_key :: "string \<Rightarrow> bytes"
  me_at :: "pystr \<times> int \<Rightarrow> string option"
  me_net :: "nat \<Rightarrow> string \<Rightarrow> contact"
  me_clock :: "nat \<Rightarrow> rat"

text \<open>\<open>m_conns\<close> is the request's connection set, with whether a connection still works;
  \<open>m_routes\<close>, \<open>m_local\<close> and \<open>m_keys\<close> are the coordinator's \<open>_session_routes\<close>,
  \<open>_local_caches\<close> and \<open>_route_keys\<close>; \<open>m_prov\<close> is the route provider's state.\<close>

record ('e, 'p) mesh =
  m_workers :: "(string, 'e worker) dict"
  m_conns :: "(string, bool) dict"
  m_routes :: "(int, node list) dict"
  m_local :: "(int, 'e stage_kv) dict"
  m_keys :: "(string, bytes) dict"
  m_prov :: 'p
  m_contacts :: nat

record 'p route_provider =
  rp_acquire :: "'p \<Rightarrow> int \<Rightarrow> 'p \<times> node list result"
  rp_release :: "'p \<Rightarrow> int \<Rightarrow> 'p"
  rp_suspect :: "'p \<Rightarrow> string \<Rightarrow> 'p"

text \<open>\<open>LocalRouteProvider\<close>: straight to the in-process registry.\<close>

definition local_provider :: "registry route_provider" where
  "local_provider =
     \<lparr>rp_acquire = (\<lambda>r s. acquire_route r (SInt s)),
      rp_release = (\<lambda>r s. release_route r (SInt s)),
      rp_suspect = reg_mark_suspect\<rparr>"

definition wire_failure :: "py_error \<Rightarrow> bool" where
  "wire_failure e \<longleftrightarrow> e = WireError \<or> e = OSError"

definition tick_contact :: "('e, 'p) mesh \<Rightarrow> ('e, 'p) mesh" where
  "tick_contact m = m\<lparr>m_contacts := m_contacts m + 1\<rparr>"

text \<open>A request to the worker of a node and its reply; \<open>d\<close> bounds how often a request is forwarded
  along a chain.\<close>

primrec exchange ::
  "nat \<Rightarrow> 'e mesh_env \<Rightarrow> string \<Rightarrow> bytes \<Rightarrow> int \<Rightarrow> bytes \<Rightarrow> ('e, 'p) mesh \<Rightarrow> ('e, 'p) mesh \<times> (int \<times> bytes) result" where
  "exchange 0 E nid key mt payload m = (m, Inl OSError)"
| "exchange (Suc d) E nid key mt payload m =
     (let c = me_net E (m_contacts m) nid; m1 = tick_contact m
      in if c = Refused then (m1, Inl OSError)
         else case map_of (m_workers m1) nid of
                None \<Rightarrow> (m1, Inl OSError)
              | Some w \<Rightarrow>
                  if key \<noteq> me_key E nid then (m1, Inl WireError)
                  else
                    (case handle_frame (me_lib E nid)
                        \<lparr>p_connect = (\<lambda>ep net. (net, if me_at E ep = None then Inl OSError else Inr ())),
                         p_exchange = (\<lambda>ep k t body net.
                            case me_at E ep of None \<Rightarrow> (net, Inl OSError)
                            | Some nid' \<Rightarrow> exchange d E nid' k t body net)\<rparr>
                        (me_clock E (m_contacts m)) mt payload w [] m1 of
                       (w', pool', m2, oc) \<Rightarrow>
                         (let m3 = m2\<lparr>m_workers := dmod nid (\<lambda>_. w') (m_workers m2)\<rparr>
                          in case oc of
                               Reply rt rp \<Rightarrow> if c = Lost then (m3, Inl OSError) else (m3, Inr (rt, rp))
                             | _ \<Rightarrow> (m3, Inl WireError))))"

text \<open>The longest chain: a route header has at most 255 hops after the head.\<close>

definition max_chain :: nat where "max_chain = 257"

text \<open>A control frame, to which no reply is expected.\<close>

definition send_frame ::
  "'e mesh_env \<Rightarrow> string \<Rightarrow> bytes \<Rightarrow> int \<Rightarrow> bytes \<Rightarrow> ('e, 'p) mesh \<Rightarrow> ('e, 'p) mesh \<times> unit result" where
  "send_frame E nid key mt payload m =
     (let c = me_net E (m_contacts m) nid; m1 = tick_contact m
      in if c = Refused \<or> map_of (m_conns m1) nid = Some False then (m1, Inl OSError)
         else if c = Lost \<or> key \<noteq> me_key E nid
         then (m1\<lparr>m_conns := dmod nid (\<lambda>_. False) (m_conns m1)\<rparr>, Inr ())
         else case map_of (m_workers m1) nid of
                None \<Rightarrow> (m1\<lparr>m_conns := dmod nid (\<lambda>_. False) (m_conns m1)\<rparr>, Inr ())
              | Some w \<Rightarrow>
                  (case handle_frame (me_lib E nid)
                      \<lparr>p_connect = (\<lambda>ep net. (net, Inl OSError)), p_exchange = (\<lambda>ep k t b net. (net, Inl OSError))\<rparr>
                      (me_clock E (m_contacts m)) mt payload w [] () of
                     (w', pool', u, oc) \<Rightarrow>
                       (m1\<lparr>m_workers := dmod nid (\<lambda>_. w') (m_workers m1),
                           m_conns := (case oc of Silent \<Rightarrow> m_conns m1
                                       | Reply _ _ \<Rightarrow> m_conns m1
                                       | _ \<Rightarrow> dmod nid (\<lambda>_. False) (m_conns m1))\<rparr>, Inr ())))"

subsection \<open>Session ids\<close>

definition next_session_id :: "int \<Rightarrow> int \<Rightarrow> int \<times> int" where
  "next_session_id orch n =
     (let n' = n mod 0xFFFF + 1 in (push_bit 16 (orch AND 0x7FFF) OR n', n'))"

definition audit_session :: int where "audit_session = 2 ^ 30"
definition first_batch_id :: int where "first_batch_id = 2 ^ 31"

subsection \<open>Connections and keys\<close>

definition node_key :: "bytes \<Rightarrow> node \<Rightarrow> bytes result" where
  "node_key cluster n =
     (case wire_key n of
        None \<Rightarrow> Inr cluster
      | Some k \<Rightarrow> if k = [] then Inr cluster else normalize_key (KRaw k))"

fun remember_route_keys ::
  "bytes \<Rightarrow> node list \<Rightarrow> (string, bytes) dict \<Rightarrow> (string, bytes) dict \<times> unit result" where
  "remember_route_keys cluster [] keys = (keys, Inr ())"
| "remember_route_keys cluster (n # ns) keys =
     (case node_key cluster n of
        Inl e \<Rightarrow> (keys, Inl e)
      | Inr k \<Rightarrow> remember_route_keys cluster ns (dset (node_id n) k keys))"

definition key_for :: "bytes \<Rightarrow> ('e, 'p) mesh \<Rightarrow> string \<Rightarrow> bytes" where
  "key_for cluster m nid = dget (m_keys m) nid cluster"

definition conn_for :: "'e mesh_env \<Rightarrow> string \<Rightarrow> ('e, 'p) mesh \<Rightarrow> ('e, 'p) mesh \<times> unit result" where
  "conn_for E nid m =
     (if map_of (m_conns m) nid \<noteq> None then (m, Inr ())
      else
        (let m1 = tick_contact m
         in if me_net E (m_contacts m) nid = Delivered \<and> map_of (m_workers m) nid \<noteq> None
            then (m1\<lparr>m_conns := dset nid True (m_conns m1)\<rparr>, Inr ())
            else (m1, Inl OSError)))"

definition drop_conn :: "string \<Rightarrow> ('e, 'p) mesh \<Rightarrow> ('e, 'p) mesh" where
  "drop_conn nid m = m\<lparr>m_conns := dpop nid (m_conns m)\<rparr>"

subsection \<open>Relaying an activation\<close>

record ('e, 'l) coord =
  co_key :: bytes
  co_local :: "'e stage_lib option"
  co_embed :: "int list \<Rightarrow> tensor"
  co_rows :: "tensor \<Rightarrow> 'l list"
  co_argmax :: "'l \<Rightarrow> int"
  co_eos :: "int set"
  co_chain :: bool

text \<open>A request on the connection to a node; a connection that no longer works fails.\<close>

definition request ::
  "'e mesh_env \<Rightarrow> string \<Rightarrow> bytes \<Rightarrow> int \<Rightarrow> bytes \<Rightarrow> ('e, 'p) mesh \<Rightarrow> ('e, 'p) mesh \<times> (int \<times> bytes) result" where
  "request E nid key mt payload m =
     (if map_of (m_conns m) nid = Some False then (tick_contact m, Inl OSError)
      else exchange max_chain E nid key mt payload m)"

text \<open>The hidden state out of a \<open>RESULT\<close>.\<close>

definition result_hidden :: "int \<times> bytes \<Rightarrow> tensor result" where
  "result_hidden = (\<lambda>(mt, payload).
     if mt \<noteq> msg_code RESULT then Inl WireError
     else bindE (unpack_activation payload) (\<lambda>(s, p, f, h). Inr h))"

definition run_local ::
  "'e stage_lib \<Rightarrow> int \<Rightarrow> int \<Rightarrow> tensor \<Rightarrow> ('e, 'p) mesh \<Rightarrow> ('e, 'p) mesh \<times> tensor result" where
  "run_local L session pos hidden m =
     (let c = (case map_of (m_local m) session of
                 None \<Rightarrow> replicate (sl_slots L) []
               | Some kv \<Rightarrow> if pos = 0 then replicate (sl_slots L) [] else kv);
          m1 = m\<lparr>m_local := dset session c (m_local m)\<rparr>
      in case causal_mode hidden pos of
           Inl e \<Rightarrow> (m1, Inl e)
         | Inr md \<Rightarrow>
             (case sl_forward L md hidden c of
                (c', r) \<Rightarrow> (m\<lparr>m_local := dset session c' (m_local m)\<rparr>, r)))"

text \<open>One holder of the star: connect, send, receive.\<close>

definition star_hop ::
  "'e mesh_env \<Rightarrow> bytes \<Rightarrow> int \<Rightarrow> int \<Rightarrow> string \<Rightarrow> tensor \<Rightarrow> ('e, 'p) mesh \<Rightarrow> ('e, 'p) mesh \<times> tensor result" where
  "star_hop E key session pos nid hidden m =
     (case conn_for E nid m of
        (m1, Inl e) \<Rightarrow> (m1, Inl e)
      | (m1, Inr _) \<Rightarrow>
          (case pack_activation session pos hidden FLAG_NONE of
             Inl e \<Rightarrow> (m1, Inl e)
           | Inr body \<Rightarrow>
               (case request E nid key (msg_code ACTIVATION) body m1 of
                  (m2, r) \<Rightarrow> (m2, bindE r result_hidden))))"

text \<open>What a failed hop leaves behind: the connection dropped, the node suspected, the pin gone.\<close>

definition hop_failed :: "'p route_provider \<Rightarrow> int \<Rightarrow> string \<Rightarrow> ('e, 'p) mesh \<Rightarrow> ('e, 'p) mesh" where
  "hop_failed P session nid m =
     (drop_conn nid m)\<lparr>m_prov := rp_suspect P (m_prov m) nid, m_routes := dpop session (m_routes m)\<rparr>"

fun star_relay ::
  "'e mesh_env \<Rightarrow> bytes \<Rightarrow> 'p route_provider \<Rightarrow> int \<Rightarrow> int \<Rightarrow> node list \<Rightarrow> tensor \<Rightarrow> ('e, 'p) mesh \<Rightarrow>
   ('e, 'p) mesh \<times> tensor result" where
  "star_relay E cluster P session pos [] hidden m = (m, Inr hidden)"
| "star_relay E cluster P session pos (n # ns) hidden m =
     (case node_key cluster n of
        Inl e \<Rightarrow> (m, Inl e)
      | Inr key \<Rightarrow>
          (case star_hop E key session pos (node_id n) hidden m of
             (m1, Inr h) \<Rightarrow> star_relay E cluster P session pos ns h m1
           | (m1, Inl e) \<Rightarrow> (if wire_failure e then hop_failed P session (node_id n) m1 else m1, Inl e)))"

text \<open>\<open>_suspect_by_endpoint\<close>: the first node of the route at the reported endpoint, if any.\<close>

definition suspect_by_endpoint ::
  "'p route_provider \<Rightarrow> pystr \<Rightarrow> node list \<Rightarrow> ('e, 'p) mesh \<Rightarrow> ('e, 'p) mesh" where
  "suspect_by_endpoint P text rt m =
     (case find (\<lambda>n. endpoint_text (codes (fst (endpoint n))) (snd (endpoint n)) = text) rt of
        None \<Rightarrow> m
      | Some n \<Rightarrow> m\<lparr>m_prov := rp_suspect P (m_prov m) (node_id n)\<rparr>)"

text \<open>\<open>decode("utf-8", "replace")\<close> of what a node sent; only a decodable text can match an
  endpoint, the replacement character is not in one.\<close>

definition decode_replace :: "bytes \<Rightarrow> pystr" where
  "decode_replace b = (case utf8_decode b of Inr s \<Rightarrow> s | Inl _ \<Rightarrow> [0xFFFD])"

definition relay_chain ::
  "'e mesh_env \<Rightarrow> bytes \<Rightarrow> 'p route_provider \<Rightarrow> int \<Rightarrow> int \<Rightarrow> node list \<Rightarrow> tensor \<Rightarrow> ('e, 'p) mesh \<Rightarrow>
   ('e, 'p) mesh \<times> tensor result" where
  "relay_chain E cluster P session pos rt hidden m =
     (case bindE (chain_head_and_route rt) (\<lambda>(hd_node, down). bindE (node_key cluster hd_node) (\<lambda>key. Inr (hd_node, down, key))) of
        Inl e \<Rightarrow> (m, Inl e)
      | Inr (hd_node, down, key) \<Rightarrow>
          (let nid = node_id hd_node
           in case (case conn_for E nid m of
                      (m1, Inl e) \<Rightarrow> (m1, Inl e)
                    | (m1, Inr _) \<Rightarrow>
                        (case bindE (encode_route down) (\<lambda>r.
                                bindE (pack_activation session pos hidden FLAG_NONE) (\<lambda>a. Inr (r @ a))) of
                           Inl e \<Rightarrow> (m1, Inl e)
                         | Inr body \<Rightarrow> request E nid key (msg_code CHAIN_ACTIVATION) body m1)) of
                (m2, Inl e) \<Rightarrow> (if wire_failure e then hop_failed P session nid m2 else m2, Inl e)
              | (m2, Inr (mt, payload)) \<Rightarrow>
                  if mt = msg_code RESULT then (m2, result_hidden (mt, payload))
                  else if mt = msg_code ERROR then
                    (let m3 = suspect_by_endpoint P (decode_replace payload) rt (drop_conn nid m2)
                     in (m3\<lparr>m_routes := dpop session (m_routes m3)\<rparr>, Inl WireError))
                  else (m2, Inl WireError)))"

text \<open>The route is pinned at the session's first hop and reused until it is dropped.\<close>

definition pinned_route ::
  "bytes \<Rightarrow> 'p route_provider \<Rightarrow> int \<Rightarrow> int \<Rightarrow> ('e, 'p) mesh \<Rightarrow> ('e, 'p) mesh \<times> node list result" where
  "pinned_route cluster P session pos m =
     (case (if pos = 0 then None else map_of (m_routes m) session) of
        Some rt \<Rightarrow> (m, Inr rt)
      | None \<Rightarrow>
          (case rp_acquire P (m_prov m) session of
             (p, Inl e) \<Rightarrow> (m\<lparr>m_prov := p\<rparr>, Inl e)
           | (p, Inr rt) \<Rightarrow>
               (let m1 = m\<lparr>m_prov := p, m_routes := dset session rt (m_routes m)\<rparr>
                in case remember_route_keys cluster rt (m_keys m1) of
                     (ks, r) \<Rightarrow> (m1\<lparr>m_keys := ks\<rparr>, bindE r (\<lambda>_. Inr rt)))))"

definition relay_dynamic ::
  "'e mesh_env \<Rightarrow> ('e, 'l) coord \<Rightarrow> 'p route_provider \<Rightarrow> int \<Rightarrow> int \<Rightarrow> tensor \<Rightarrow> ('e, 'p) mesh \<Rightarrow>
   ('e, 'p) mesh \<times> tensor result" where
  "relay_dynamic E C P session pos hidden m =
     (case pinned_route (co_key C) P session pos m of
        (m1, Inl e) \<Rightarrow> (m1, Inl e)
      | (m1, Inr rt) \<Rightarrow>
          if co_chain C then relay_chain E (co_key C) P session pos rt hidden m1
          else star_relay E (co_key C) P session pos rt hidden m1)"

definition relay ::
  "'e mesh_env \<Rightarrow> ('e, 'l) coord \<Rightarrow> 'p route_provider \<Rightarrow> int \<Rightarrow> int \<Rightarrow> tensor \<Rightarrow> ('e, 'p) mesh \<Rightarrow>
   ('e, 'p) mesh \<times> tensor result" where
  "relay E C P session pos hidden m =
     (case (case co_local C of None \<Rightarrow> (m, Inr hidden) | Some L \<Rightarrow> run_local L session pos hidden m) of
        (m1, Inl e) \<Rightarrow> (m1, Inl e)
      | (m1, Inr h) \<Rightarrow> relay_dynamic E C P session pos h m1)"

subsection \<open>Control frames for the holders' caches\<close>

text \<open>\<open>struct.pack(">IBI", session, op, arg)\<close>.\<close>

definition kv_frame :: "int \<Rightarrow> int \<Rightarrow> int \<Rightarrow> bytes result" where
  "kv_frame session op arg =
     bindE (pack_uint 4 session) (\<lambda>a. bindE (pack_uint 1 op) (\<lambda>b. bindE (pack_uint 4 arg) (\<lambda>c. Inr (a @ b @ c))))"

text \<open>To every connected node; a write that fails drops its connection and, in strict mode, ends
  the operation.\<close>

fun broadcast ::
  "'e mesh_env \<Rightarrow> bytes \<Rightarrow> bool \<Rightarrow> bytes \<Rightarrow> string list \<Rightarrow> ('e, 'p) mesh \<Rightarrow> ('e, 'p) mesh \<times> unit result" where
  "broadcast E cluster strict body [] m = (m, Inr ())"
| "broadcast E cluster strict body (nid # nids) m =
     (case send_frame E nid (key_for cluster m nid) (msg_code KV_CTRL) body m of
        (m1, Inr _) \<Rightarrow> broadcast E cluster strict body nids m1
      | (m1, Inl e) \<Rightarrow>
          (let m2 = drop_conn nid m1
           in if strict then (m2, Inl e) else broadcast E cluster strict body nids m2))"

definition broadcast_packed ::
  "'e mesh_env \<Rightarrow> bytes \<Rightarrow> bool \<Rightarrow> bytes result \<Rightarrow> ('e, 'p) mesh \<Rightarrow> ('e, 'p) mesh \<times> unit result" where
  "broadcast_packed E cluster strict body m =
     (let nids = map fst (m_conns m)
      in if nids = [] then (m, Inr ())
         else case body of Inl e \<Rightarrow> (m, Inl e) | Inr b \<Rightarrow> broadcast E cluster strict b nids m)"

definition reset_sessions ::
  "'e mesh_env \<Rightarrow> bytes \<Rightarrow> 'p route_provider \<Rightarrow> int \<Rightarrow> ('e, 'p) mesh \<Rightarrow> ('e, 'p) mesh \<times> unit result" where
  "reset_sessions E cluster P session m =
     broadcast_packed E cluster False (kv_frame session KVOP_RESET 0)
       (m\<lparr>m_local := dpop session (m_local m), m_routes := dpop session (m_routes m),
          m_prov := rp_release P (m_prov m) session\<rparr>)"

definition kv_truncate_all ::
  "'e mesh_env \<Rightarrow> bytes \<Rightarrow> int \<Rightarrow> nat \<Rightarrow> bool \<Rightarrow> ('e, 'p) mesh \<Rightarrow> ('e, 'p) mesh \<times> unit result" where
  "kv_truncate_all E cluster session len strict m =
     broadcast_packed E cluster strict (kv_frame session KVOP_TRUNCATE (int len))
       (m\<lparr>m_local := dmod session (kv_truncate len) (m_local m)\<rparr>)"

text \<open>The frame is packed before the first write; the local cache is compacted before that.\<close>

definition kv_tree_keep ::
  "'e mesh_env \<Rightarrow> bytes \<Rightarrow> int \<Rightarrow> nat \<Rightarrow> int list \<Rightarrow> ('e, 'p) mesh \<Rightarrow> ('e, 'p) mesh \<times> unit result" where
  "kv_tree_keep E cluster session prefix_len accepted m =
     (case (case map_of (m_local m) session of
              None \<Rightarrow> (m, Inr ())
            | Some c \<Rightarrow>
                (case kv_keep_tree_path prefix_len accepted c of
                   (c', r) \<Rightarrow> (m\<lparr>m_local := dset session c' (m_local m)\<rparr>, r))) of
        (m1, Inl e) \<Rightarrow> (m1, Inl e)
      | (m1, Inr _) \<Rightarrow>
          (case bindE (kv_frame session KVOP_TREE_KEEP (int prefix_len)) (\<lambda>h.
                  bindE (pack_uint 4 (int (length accepted))) (\<lambda>n.
                  bindE (mapE (pack_uint 4) accepted) (\<lambda>ss. Inr (h @ n @ concat ss)))) of
             Inl e \<Rightarrow> (m1, Inl e)
           | Inr body \<Rightarrow> broadcast E cluster False body (map fst (m_conns m1)) m1))"

subsection \<open>Failover\<close>

definition reprefill ::
  "'e mesh_env \<Rightarrow> ('e, 'l) coord \<Rightarrow> 'p route_provider \<Rightarrow> int \<Rightarrow> int list \<Rightarrow> ('e, 'p) mesh \<Rightarrow>
   ('e, 'p) mesh \<times> unit result" where
  "reprefill E C P session ids m =
     (case reset_sessions E (co_key C) P session m of
        (m1, Inl e) \<Rightarrow> (m1, Inl e)
      | (m1, Inr _) \<Rightarrow>
          if ids = [] then (m1, Inr ())
          else (case relay E C P session 0 (co_embed C ids) m1 of (m2, r) \<Rightarrow> (m2, bindE r (\<lambda>_. Inr ()))))"

text \<open>The attempts that are left, whether the first has been made, and the last failure.\<close>

fun failover_loop ::
  "'e mesh_env \<Rightarrow> ('e, 'l) coord \<Rightarrow> 'p route_provider \<Rightarrow> int \<Rightarrow> int \<Rightarrow> tensor \<Rightarrow> int list \<Rightarrow>
   nat \<Rightarrow> bool \<Rightarrow> py_error \<Rightarrow> ('e, 'p) mesh \<Rightarrow> ('e, 'p) mesh \<times> tensor result" where
  "failover_loop E C P session pos x ids 0 again e m = (m, Inl e)"
| "failover_loop E C P session pos x ids (Suc k) again e m =
     (case (if again then reprefill E C P session ids m else (m, Inr ())) of
        (m1, Inl e1) \<Rightarrow> if wire_failure e1 then failover_loop E C P session pos x ids k True e1 m1 else (m1, Inl e1)
      | (m1, Inr _) \<Rightarrow>
          (case relay E C P session pos x m1 of
             (m2, Inr h) \<Rightarrow> (m2, Inr h)
           | (m2, Inl e2) \<Rightarrow> if wire_failure e2 then failover_loop E C P session pos x ids k True e2 m2 else (m2, Inl e2)))"

definition max_failovers :: nat where "max_failovers = 2"

definition relay_with_failover ::
  "'e mesh_env \<Rightarrow> ('e, 'l) coord \<Rightarrow> 'p route_provider \<Rightarrow> int \<Rightarrow> int \<Rightarrow> tensor \<Rightarrow> int list \<Rightarrow>
   ('e, 'p) mesh \<Rightarrow> ('e, 'p) mesh \<times> tensor result" where
  "relay_with_failover E C P session pos x ids m =
     failover_loop E C P session pos x ids (max_failovers + 1) False WireError m"

subsection \<open>Greedy decoding\<close>

text \<open>The head's choice after a hidden state: the argmax of the last row.\<close>

definition next_token :: "('e, 'l) coord \<Rightarrow> tensor \<Rightarrow> int result" where
  "next_token C hidden =
     (let rows = co_rows C hidden in if rows = [] then Inl IndexError else Inr (co_argmax C (last rows)))"

text \<open>The carried state: tokens in the caches, the next token, its position.\<close>

type_synonym resume_state = "int list \<times> int \<times> nat"

fun greedy_steps ::
  "'e mesh_env \<Rightarrow> ('e, 'l) coord \<Rightarrow> 'p route_provider \<Rightarrow> int \<Rightarrow> nat \<Rightarrow> int list \<times> int \<times> nat \<Rightarrow>
   ('e, 'p) mesh \<Rightarrow> ('e, 'p) mesh \<times> (int list \<times> int list \<times> int \<times> nat) result" where
  "greedy_steps E C P session 0 (seq_ids, nxt, cur) m = (m, Inr ([], seq_ids, nxt, cur))"
| "greedy_steps E C P session (Suc k) (seq_ids, nxt, cur) m =
     (if nxt \<in> co_eos C then (m, Inr ([], seq_ids, nxt, cur))
      else case relay_with_failover E C P session (int cur) (co_embed C [nxt]) seq_ids m of
             (m1, Inl e) \<Rightarrow> (m1, Inl e)
           | (m1, Inr h) \<Rightarrow>
               (case next_token C h of
                  Inl e \<Rightarrow> (m1, Inl e)
                | Inr t \<Rightarrow>
                    (case greedy_steps E C P session k (seq_ids @ [nxt], t, cur + 1) m1 of
                       (m2, Inl e) \<Rightarrow> (m2, Inl e)
                     | (m2, Inr (out, st)) \<Rightarrow> (m2, Inr (nxt # out, st)))))"

text \<open>The \<open>finally\<close> block: free the session unless it is kept warm.\<close>

definition finish_session ::
  "'e mesh_env \<Rightarrow> ('e, 'l) coord \<Rightarrow> 'p route_provider \<Rightarrow> int \<Rightarrow> bool \<Rightarrow>
   ('e, 'p) mesh \<times> 'r result \<Rightarrow> ('e, 'p) mesh \<times> 'r result" where
  "finish_session E C P session keep_warm = (\<lambda>(m, r).
     if keep_warm then (m, r)
     else case reset_sessions E (co_key C) P session m of
            (m1, Inl e) \<Rightarrow> (m1, Inl e)
          | (m1, Inr _) \<Rightarrow> (m1, r))"

definition generate_state ::
  "'e mesh_env \<Rightarrow> ('e, 'l) coord \<Rightarrow> 'p route_provider \<Rightarrow> int \<Rightarrow> int list \<Rightarrow> nat \<Rightarrow> bool \<Rightarrow>
   ('e, 'p) mesh \<Rightarrow> ('e, 'p) mesh \<times> (int list \<times> int list \<times> int \<times> nat) result" where
  "generate_state E C P session ids n_new keep_warm m =
     finish_session E C P session keep_warm
       (case relay_with_failover E C P session 0 (co_embed C ids) [] m of
          (m1, Inl e) \<Rightarrow> (m1, Inl e)
        | (m1, Inr h) \<Rightarrow>
            (case next_token C h of
               Inl e \<Rightarrow> (m1, Inl e)
             | Inr t \<Rightarrow> greedy_steps E C P session n_new (ids, t, length ids) m1))"

definition generate_resume_state ::
  "'e mesh_env \<Rightarrow> ('e, 'l) coord \<Rightarrow> 'p route_provider \<Rightarrow> int \<Rightarrow> int list \<times> int \<times> nat \<Rightarrow> nat \<Rightarrow> bool \<Rightarrow>
   ('e, 'p) mesh \<Rightarrow> ('e, 'p) mesh \<times> (int list \<times> int list \<times> int \<times> nat) result" where
  "generate_resume_state E C P session st n_new keep_warm m =
     finish_session E C P session keep_warm (greedy_steps E C P session n_new st m)"

end
