(* ===== verification/Coordinator_Spec.thy ===== *)
theory Coordinator_Spec
  imports Coordinator Stage_Worker_Spec Specdecode_Spec
begin

section \<open>Decoding over the mesh is greedy decoding\<close>

text \<open>
  What the coordinator computes through the holders of a route is what the whole model computes
  in one place: for every failure of the network that it survives, and for every route that the
  provider hands out.  The stages' forward pass is the one of \<open>Stage.forward\<close>; tensors represent
  rows of hidden states.
\<close>

subsection \<open>Tensors that stand for hidden states\<close>

definition tensor_rep :: "('h list \<Rightarrow> tensor) \<Rightarrow> bool" where
  "tensor_rep enc \<longleftrightarrow> (\<forall>hs. hs \<noteq> [] \<and> length hs < 2 ^ 32 \<longrightarrow>
     tensor_ok (enc hs) \<and> seq_len (enc hs) = Inr (length hs) \<and> (\<exists>p. pack_tensor (enc hs) = Inr p))"

text \<open>A stage library that runs the layers \<open>gs\<close> of the model.\<close>

definition lib_serves ::
  "('e, 'h, 'l) model_ops \<Rightarrow> nat \<Rightarrow> ('h list \<Rightarrow> tensor) \<Rightarrow> nat list \<Rightarrow> 'e stage_lib \<Rightarrow> bool" where
  "lib_serves M n enc gs L \<longleftrightarrow> sl_slots L = n \<and>
     (\<forall>hs pos c. hs \<noteq> [] \<and> length c = n \<longrightarrow>
        sl_forward L (Causal (position_ids (length hs) (int pos))) (enc hs) c =
          (case stage_forward M gs c hs (map (\<lambda>i. i + pos) [0 ..< length hs]) of (o1, c') \<Rightarrow> (c', Inr (enc o1))))"

definition parts_ok :: "('e, 'h, 'l) model_ops \<Rightarrow> ('h list \<Rightarrow> tensor) \<Rightarrow> ('e, 'l) coord \<Rightarrow> bool" where
  "parts_ok M enc C \<longleftrightarrow> (\<forall>ids. co_embed C ids = enc (map (m_embed M) ids)) \<and>
     (\<forall>hs. hs \<noteq> [] \<longrightarrow> co_rows C (enc hs) = map (m_head M) hs) \<and> co_argmax C = m_argmax M"

definition id_ok :: "int \<Rightarrow> bool" where
  "id_ok v \<longleftrightarrow> 0 \<le> v \<and> v < 2 ^ 32"

definition batch_ok :: "'h list \<Rightarrow> bool" where
  "batch_ok hs \<longleftrightarrow> hs \<noteq> [] \<and> length hs < 2 ^ 32"

lemma pack_activation_rep:
  assumes "tensor_rep enc" and "batch_ok hs"
  shows "\<exists>b. pack_activation s p (enc hs) FLAG_NONE = Inr b"
proof -
  obtain t where t: "pack_tensor (enc hs) = Inr t" using assms by (auto simp: tensor_rep_def batch_ok_def)
  have "\<exists>h. activation_head s p FLAG_NONE = Inr h"
    by (simp add: activation_head_def pack_uint_def FLAG_NONE_def)
  then show ?thesis using t by (auto simp: pack_activation_def)
qed

lemma unpack_activation_rep:
  assumes "tensor_rep enc" and "batch_ok hs" and "pack_activation s p (enc hs) FLAG_NONE = Inr b"
    and "id_ok s" "id_ok p"
  shows "unpack_activation b = Inr (s, p, FLAG_NONE, enc hs)"
  using activation_roundtrip [OF _ assms(3)] assms(1,2,4,5)
  by (simp add: tensor_rep_def batch_ok_def id_ok_def)

subsection \<open>One holder\<close>

text \<open>The cache a holder starts from: its session's, or an empty one at position 0.\<close>

definition cached :: "nat \<Rightarrow> nat \<Rightarrow> int \<Rightarrow> 'e worker \<Rightarrow> 'e stage_kv \<Rightarrow> bool" where
  "cached n pos session w c \<longleftrightarrow> length c = n \<and>
     (if pos = 0 then c = replicate n [] else map_of (w_sessions w) session = Some c)"

lemma get_cache_cached:
  assumes "cached n pos session w c"
  shows "get_cache n session (int pos) now w =
    (c, w\<lparr>w_sessions := dset session c (w_sessions w), w_touch := dset session now (w_touch w)\<rparr>)"
  using assms by (auto simp: get_cache_def cached_def split: if_splits option.splits)

lemma worker_activation:
  assumes L: "lib_serves M n enc gs L" and rep: "tensor_rep enc" and hs: "batch_ok hs"
    and ids: "id_ok session" "id_ok (int pos)" and c: "cached n pos session w c"
    and body: "pack_activation session (int pos) (enc hs) FLAG_NONE = Inr body"
    and f: "stage_forward M gs c hs (map (\<lambda>i. i + pos) [0 ..< length hs]) = (o1, c')"
  shows "batch_ok o1 \<and> length o1 = length hs \<and> length c' = n \<and>
    (\<exists>w' body'. handle_frame L P now (msg_code ACTIVATION) body w pool net =
        (w', pool, net, Reply (msg_code RESULT) body') \<and>
      unpack_activation body' = Inr (session, int pos, FLAG_NONE, enc o1) \<and>
      map_of (w_sessions w') session = Some c')"
proof -
  have len: "length o1 = length hs" "length c' = n"
    using stage_forward_length [of hs "map (\<lambda>i. i + pos) [0 ..< length hs]" M gs c]
      stage_forward_slots [of M gs c hs "map (\<lambda>i. i + pos) [0 ..< length hs]"] f c by (simp_all add: cached_def)
  then have o1: "batch_ok o1" using hs by (auto simp: batch_ok_def)
  obtain body' where b': "pack_activation session (int pos) (enc o1) FLAG_NONE = Inr body'"
    using pack_activation_rep [OF rep o1] by blast
  have u: "unpack_activation body = Inr (session, int pos, FLAG_NONE, enc hs)"
    by (rule unpack_activation_rep [OF rep hs body ids])
  have mode: "causal_mode (enc hs) (int pos) = Inr (Causal (position_ids (length hs) (int pos)))"
    using rep hs by (simp add: causal_mode_def tensor_rep_def batch_ok_def)
  have fwd: "sl_forward L (Causal (position_ids (length hs) (int pos))) (enc hs) c = (c', Inr (enc o1))"
    using L hs c f by (simp add: lib_serves_def batch_ok_def cached_def)
  have gc: "get_cache (sl_slots L) session (int pos) now w =
      (c, w\<lparr>w_sessions := dset session c (w_sessions w), w_touch := dset session now (w_touch w)\<rparr>)"
    using get_cache_cached [OF c] L by (simp add: lib_serves_def)
  define w' where "w' = put_cache session c' (w\<lparr>w_sessions := dset session c (w_sessions w),
    w_touch := dset session now (w_touch w)\<rparr>)"
  have "handle_activation L now body w = (w', Reply (msg_code RESULT) body')"
    unfolding handle_activation_def u run_stage_def
    using gc mode fwd b' by (simp add: reply_activation_def w'_def)
  moreover have "map_of (w_sessions w') session = Some c'"
    by (simp add: w'_def put_cache_def dict_simps)
  moreover have "msg_of_code (msg_code ACTIVATION) = Some ACTIVATION" by (rule msg_of_code_of)
  ultimately have "handle_frame L P now (msg_code ACTIVATION) body w pool net = (w', pool, net, Reply (msg_code RESULT) body')
      \<and> map_of (w_sessions w') session = Some c'"
    by (simp add: handle_frame_def)
  then show ?thesis
    using o1 len unpack_activation_rep [OF rep o1 b' ids] by blast
qed

subsection \<open>Frames of the mesh's state\<close>

text \<open>What a step of the coordinator may change of the workers: those in \<open>A\<close>, none gone.\<close>

definition workers_frame :: "string set \<Rightarrow> ('e, 'p) mesh \<Rightarrow> ('e, 'p) mesh \<Rightarrow> bool" where
  "workers_frame A m m' \<longleftrightarrow> dom (map_of (m_workers m')) = dom (map_of (m_workers m)) \<and>
     (\<forall>x. x \<notin> A \<longrightarrow> map_of (m_workers m') x = map_of (m_workers m) x)"

lemma workers_frame_refl [simp]: "workers_frame A m m"
  by (simp add: workers_frame_def)

lemma workers_frame_trans:
  "workers_frame A m m' \<Longrightarrow> workers_frame B m' m'' \<Longrightarrow> workers_frame (A \<union> B) m m''"
  by (simp add: workers_frame_def)

lemma workers_frame_mono: "workers_frame A m m' \<Longrightarrow> A \<subseteq> B \<Longrightarrow> workers_frame B m m'"
  by (auto simp: workers_frame_def)

text \<open>The coordinator's own tables, the provider's state apart, are as they were.\<close>

definition tables_frame :: "('e, 'p) mesh \<Rightarrow> ('e, 'p) mesh \<Rightarrow> bool" where
  "tables_frame m m' \<longleftrightarrow> m_routes m' = m_routes m \<and> m_local m' = m_local m \<and> m_prov m' = m_prov m \<and>
     m_keys m' = m_keys m"

text \<open>The connections afterwards: those before, and those to \<open>A\<close>.\<close>

definition conns_frame :: "string set \<Rightarrow> ('e, 'p) mesh \<Rightarrow> ('e, 'p) mesh \<Rightarrow> bool" where
  "conns_frame A m m' \<longleftrightarrow> dom (map_of (m_conns m')) = dom (map_of (m_conns m)) \<union> A \<and> m_keys m' = m_keys m \<and>
     (dict_ok (m_conns m) \<longrightarrow> dict_ok (m_conns m'))"

lemma tables_frame_refl [simp]: "tables_frame m m"
  by (simp add: tables_frame_def)

lemma tables_frame_trans: "tables_frame m m' \<Longrightarrow> tables_frame m' m'' \<Longrightarrow> tables_frame m m''"
  by (simp add: tables_frame_def)

subsection \<open>The star\<close>

lemma workers_frame_dmod:
  "workers_frame {nid} m (m\<lparr>m_contacts := k, m_workers := dmod nid f (m_workers m)\<rparr>)"
  by (auto simp: workers_frame_def dict_simps)

text \<open>A worker that answers a request with the hidden states \<open>o1\<close>, leaving the cache \<open>c'\<close>.\<close>

definition answers ::
  "'e stage_lib \<Rightarrow> ('h list \<Rightarrow> tensor) \<Rightarrow> int \<Rightarrow> bytes \<Rightarrow> 'e worker \<Rightarrow> int \<Rightarrow> 'h list \<Rightarrow> 'e stage_kv \<Rightarrow> 'net itself \<Rightarrow> bool" where
  "answers L enc mt body w session o1 c' (_ :: 'net itself) \<longleftrightarrow> (\<forall>(P :: 'net peers) now net. \<exists>w' body'.
     handle_frame L P now mt body w [] net = (w', [], net, Reply (msg_code RESULT) body') \<and>
     result_hidden (msg_code RESULT, body') = Inr (enc o1) \<and> map_of (w_sessions w') session = Some c')"

lemma exchange_answer:
  fixes m :: "('e, 'p) mesh"
  assumes w: "map_of (m_workers m) nid = Some w" and key: "key = me_key E nid"
    and a: "answers (me_lib E nid) enc mt body w session o1 c' TYPE(('e, 'p) mesh)"
    and x: "exchange (Suc d) E nid key mt body m = (m', r)"
  shows "workers_frame {nid} m m' \<and> tables_frame m m' \<and> m_conns m' = m_conns m \<and>
    m_contacts m' = m_contacts m + 1 \<and>
    (case r of
       Inl e \<Rightarrow> wire_failure e \<and> me_net E (m_contacts m) nid \<noteq> Delivered
     | Inr rep \<Rightarrow> result_hidden rep = Inr (enc o1) \<and>
         (\<exists>w'. map_of (m_workers m') nid = Some w' \<and> map_of (w_sessions w') session = Some c'))"
proof (cases "me_net E (m_contacts m) nid = Refused")
  case True
  then have "m' = tick_contact m" "r = Inl OSError" using x by (simp_all add: Let_def)
  then show ?thesis using True by (simp add: tick_contact_def workers_frame_def tables_frame_def wire_failure_def)
next
  case False
  let ?P = "\<lparr>p_connect = (\<lambda>ep net. (net, if me_at E ep = None then Inl OSError else Inr ())),
       p_exchange = (\<lambda>ep k t body net. case me_at E ep of None \<Rightarrow> (net, Inl OSError)
                            | Some nid' \<Rightarrow> exchange d E nid' k t body net)\<rparr> :: ('e, 'p) mesh peers"
  obtain w' body' where h: "handle_frame (me_lib E nid) ?P (me_clock E (m_contacts m)) mt body w []
        (tick_contact m) = (w', [], tick_contact m, Reply (msg_code RESULT) body')"
      "result_hidden (msg_code RESULT, body') = Inr (enc o1)" "map_of (w_sessions w') session = Some c'"
    using a unfolding answers_def by blast
  have wt: "map_of (m_workers (tick_contact m)) nid = Some w" using w by (simp add: tick_contact_def)
  let ?m' = "(tick_contact m)\<lparr>m_workers := dmod nid (\<lambda>_. w') (m_workers (tick_contact m))\<rparr>"
  have m': "(m', r) = (?m', if me_net E (m_contacts m) nid = Lost then Inl OSError
      else Inr (msg_code RESULT, body'))"
    using x False key h(1) wt by (cases "me_net E (m_contacts m) nid = Lost") (simp_all add: Let_def)
  have fr: "workers_frame {nid} m ?m' \<and> tables_frame m ?m' \<and> m_conns ?m' = m_conns m \<and> m_contacts ?m' = m_contacts m + 1 \<and>
      map_of (m_workers ?m') nid = Some w'"
    using w by (auto simp: tick_contact_def workers_frame_def tables_frame_def dict_simps)
  show ?thesis
    using m' fr h(2,3) by (cases "me_net E (m_contacts m) nid = Lost") (simp_all add: wire_failure_def)
qed

lemma conn_for_frame:
  "conn_for E nid m = (m', r) \<Longrightarrow> m_workers m' = m_workers m \<and> tables_frame m m' \<and>
    m_contacts m \<le> m_contacts m' \<and>
    (case r of Inl e \<Rightarrow> wire_failure e \<and> (me_net E (m_contacts m) nid = Delivered \<longrightarrow> map_of (m_workers m) nid = None)
     | Inr _ \<Rightarrow> (map_of (m_conns m) nid = None \<longrightarrow> map_of (m_conns m') nid = Some True) \<and> conns_frame {nid} m m')"
  by (auto simp: conn_for_def Let_def tick_contact_def tables_frame_def conns_frame_def wire_failure_def dict_simps
      split: if_splits)

definition quiet_net :: "'e mesh_env \<Rightarrow> bool" where
  "quiet_net E \<longleftrightarrow> (\<forall>k nid. me_net E k nid = Delivered)"

definition conns_open :: "('e, 'p) mesh \<Rightarrow> bool" where
  "conns_open m \<longleftrightarrow> (\<forall>nid. map_of (m_conns m) nid \<noteq> Some False)"

text \<open>Connect, send, receive.\<close>

lemma hop_answer:
  fixes m :: "('e, 'p) mesh"
  assumes w: "map_of (m_workers m) nid = Some w" and key: "key = me_key E nid"
    and a: "answers (me_lib E nid) enc mt body w session o1 c' TYPE(('e, 'p) mesh)"
    and x: "(case conn_for E nid m of
        (m1, Inl e) \<Rightarrow> (m1, Inl e)
      | (m1, Inr _) \<Rightarrow> (case request E nid key mt body m1 of (m2, r) \<Rightarrow> (m2, bindE r result_hidden))) = (m', r)"
  shows "workers_frame {nid} m m' \<and> tables_frame m m' \<and>
    (quiet_net E \<and> conns_open m \<longrightarrow> conns_open m' \<and> (\<exists>h. r = Inr h)) \<and>
    (case r of
       Inl e \<Rightarrow> wire_failure e
     | Inr h \<Rightarrow> h = enc o1 \<and> conns_frame {nid} m m' \<and>
         (\<exists>w'. map_of (m_workers m') nid = Some w' \<and> map_of (w_sessions w') session = Some c'))"
proof -
  obtain m1 r1 where k: "conn_for E nid m = (m1, r1)" by fastforce
  note kf = conn_for_frame [OF k]
  show ?thesis
  proof (cases r1)
    case (Inl e)
    then have "m' = m1" "r = Inl e" using x k by simp_all
    then show ?thesis using kf Inl w by (auto simp: workers_frame_def quiet_net_def)
  next
    case (Inr u)
    have w1: "map_of (m_workers m1) nid = Some w" using kf w by simp
    have cop: "conns_open m \<Longrightarrow> conns_open m1"
      using k Inr by (auto simp: conn_for_def Let_def conns_open_def tick_contact_def dict_simps split: if_splits)
    obtain m2 r2 where q: "request E nid key mt body m1 = (m2, r2)" by fastforce
    have m': "m' = m2" "r = bindE r2 result_hidden" using x k Inr q by simp_all
    show ?thesis
    proof (cases "map_of (m_conns m1) nid = Some False")
      case True
      then have "m2 = tick_contact m1" "r2 = Inl OSError" using q by (simp_all add: request_def)
      then show ?thesis using m' kf True cop
        by (auto simp: tick_contact_def workers_frame_def tables_frame_def wire_failure_def conns_open_def)
    next
      case False
      then have "exchange (Suc 256) E nid key mt body m1 = (m2, r2)"
        using q by (simp add: request_def max_chain_def del: exchange.simps)
      note ex = exchange_answer [OF w1 key a this]
      have "workers_frame {nid} m m2" "tables_frame m m2"
        using ex kf by (auto simp: workers_frame_def tables_frame_def)
      then show ?thesis
        using m' ex cop kf Inr by (auto simp: quiet_net_def conns_open_def conns_frame_def tables_frame_def split: sum.splits)
    qed
  qed
qed

lemma star_hop_ok:
  assumes L: "lib_serves M n enc gs (me_lib E nid)" and rep: "tensor_rep enc" and hs: "batch_ok hs"
    and ids: "id_ok session" "id_ok (int pos)" and w: "map_of (m_workers m) nid = Some w"
    and c: "cached n pos session w c" and key: "key = me_key E nid"
    and f: "stage_forward M gs c hs (map (\<lambda>i. i + pos) [0 ..< length hs]) = (o1, c')"
    and x: "star_hop E key session (int pos) nid (enc hs) m = (m', r)"
  shows "workers_frame {nid} m m' \<and> tables_frame m m' \<and>
    (quiet_net E \<and> conns_open m \<longrightarrow> conns_open m' \<and> (\<exists>h. r = Inr h)) \<and>
    (case r of
       Inl e \<Rightarrow> wire_failure e
     | Inr h \<Rightarrow> h = enc o1 \<and> conns_frame {nid} m m' \<and>
         (\<exists>w'. map_of (m_workers m') nid = Some w' \<and> map_of (w_sessions w') session = Some c'))"
proof -
  obtain body where body: "pack_activation session (int pos) (enc hs) FLAG_NONE = Inr body"
    using pack_activation_rep [OF rep hs] by blast
  have "answers (me_lib E nid) enc (msg_code ACTIVATION) body w session o1 c' TYPE(('a, 'd) mesh)"
    unfolding answers_def result_hidden_def using worker_activation [OF L rep hs ids c body f] by fastforce
  then show ?thesis by (rule hop_answer [OF w key _ x [unfolded star_hop_def body sum.case]])
qed

text \<open>A route whose nodes run the layers that \<open>lay\<close> says, with the keys they were given.\<close>

definition route_good ::
  "'e mesh_env \<Rightarrow> bytes \<Rightarrow> ('e, 'h, 'l) model_ops \<Rightarrow> nat \<Rightarrow> ('h list \<Rightarrow> tensor) \<Rightarrow> (string \<Rightarrow> nat list) \<Rightarrow>
   ('e, 'p) mesh \<Rightarrow> node list \<Rightarrow> bool" where
  "route_good E cluster M n enc lay m rt \<longleftrightarrow> distinct (map node_id rt) \<and>
     (\<forall>nd \<in> set rt. node_key cluster nd = Inr (me_key E (node_id nd)) \<and>
        lib_serves M n enc (lay (node_id nd)) (me_lib E (node_id nd)) \<and>
        node_id nd \<in> dom (map_of (m_workers m)))"

definition at_holders :: "nat \<Rightarrow> nat \<Rightarrow> int \<Rightarrow> ('e, 'p) mesh \<Rightarrow> node list \<Rightarrow> 'e stage_kv list \<Rightarrow> bool" where
  "at_holders n pos session m rt cs \<longleftrightarrow>
     list_all2 (\<lambda>nd c. \<exists>w. map_of (m_workers m) (node_id nd) = Some w \<and> cached n pos session w c) rt cs"

definition hold :: "int \<Rightarrow> ('e, 'p) mesh \<Rightarrow> node list \<Rightarrow> 'e stage_kv list \<Rightarrow> bool" where
  "hold session m rt cs \<longleftrightarrow>
     list_all2 (\<lambda>nd c. \<exists>w. map_of (m_workers m) (node_id nd) = Some w \<and> map_of (w_sessions w) session = Some c) rt cs"

lemma all2_same_workers:
  assumes "\<forall>nd \<in> set rt. map_of (m_workers m') (node_id nd) = map_of (m_workers m) (node_id nd)"
  shows "list_all2 (\<lambda>nd c. \<exists>w. map_of (m_workers m') (node_id nd) = Some w \<and> Q w c) rt cs =
    list_all2 (\<lambda>nd c. \<exists>w. map_of (m_workers m) (node_id nd) = Some w \<and> Q w c) rt cs"
  using assms by (auto simp: list_all2_conv_all_nth)

lemma frame_away:
  "workers_frame A m m' \<Longrightarrow> A \<inter> node_id ` set rt = {} \<Longrightarrow>
     \<forall>nd \<in> set rt. map_of (m_workers m') (node_id nd) = map_of (m_workers m) (node_id nd)"
  by (auto simp: workers_frame_def)

lemma at_holders_frame:
  "workers_frame A m m' \<Longrightarrow> A \<inter> node_id ` set rt = {} \<Longrightarrow>
     at_holders n pos session m' rt cs = at_holders n pos session m rt cs"
  unfolding at_holders_def by (rule all2_same_workers) (rule frame_away)

lemma hold_frame:
  "workers_frame A m m' \<Longrightarrow> A \<inter> node_id ` set rt = {} \<Longrightarrow> hold session m' rt cs = hold session m rt cs"
  unfolding hold_def by (rule all2_same_workers) (rule frame_away)

lemma route_good_frame:
  "workers_frame A m m' \<Longrightarrow> route_good E cluster M n enc lay m rt \<Longrightarrow> route_good E cluster M n enc lay m' rt"
  by (simp add: route_good_def workers_frame_def)

definition relay_failed :: "'p route_provider \<Rightarrow> int \<Rightarrow> ('e, 'p) mesh \<Rightarrow> ('e, 'p) mesh \<Rightarrow> py_error \<Rightarrow> bool" where
  "relay_failed P session m m' e \<longleftrightarrow> wire_failure e \<and> m_routes m' = dpop session (m_routes m) \<and>
     (\<exists>nid. m_prov m' = rp_suspect P (m_prov m) nid)"

lemma star_relay_ok:
  assumes "tensor_rep enc" and "id_ok session" "id_ok (int pos)" and "batch_ok hs"
    and "route_good E cluster M n enc lay m rt" and "at_holders n pos session m rt cs"
    and "stages_forward M (map (\<lambda>nd. lay (node_id nd)) rt) cs hs (map (\<lambda>i. i + pos) [0 ..< length hs]) = (o1, cs')"
    and "star_relay E cluster P session (int pos) rt (enc hs) m = (m', r)"
  shows "workers_frame (node_id ` set rt) m m' \<and> m_local m' = m_local m \<and>
    (quiet_net E \<and> conns_open m \<longrightarrow> conns_open m' \<and> (\<exists>h. r = Inr h)) \<and>
    (case r of
       Inl e \<Rightarrow> relay_failed P session m m' e
     | Inr h \<Rightarrow> h = enc o1 \<and> batch_ok o1 \<and> m_routes m' = m_routes m \<and> m_prov m' = m_prov m \<and> hold session m' rt cs' \<and>
         conns_frame (node_id ` set rt) m m')"
  using assms(4-)
proof (induction rt arbitrary: m cs hs cs' o1)
  case Nil
  then show ?case by (auto simp: at_holders_def hold_def conns_frame_def)
next
  case (Cons nd rt)
  let ?ps = "map (\<lambda>i. i + pos) [0 ..< length hs]"
  let ?nid = "node_id nd"
  obtain c cs2 w where c: "cs = c # cs2" "map_of (m_workers m) ?nid = Some w" "cached n pos session w c"
      "at_holders n pos session m rt cs2"
    using Cons.prems(3) by (auto simp: at_holders_def list_all2_Cons1)
  have nd: "node_key cluster nd = Inr (me_key E ?nid)" "lib_serves M n enc (lay ?nid) (me_lib E ?nid)"
      "?nid \<notin> node_id ` set rt" and rtg: "route_good E cluster M n enc lay m rt"
    using Cons.prems(2) by (auto simp: route_good_def)
  obtain h1 c' where f: "stage_forward M (lay ?nid) c hs ?ps = (h1, c')" by fastforce
  obtain cs3 where f2: "stages_forward M (map (\<lambda>nd. lay (node_id nd)) rt) cs2 h1 ?ps = (o1, cs3)" "cs' = c' # cs3"
    using Cons.prems(4) f c(1) by (auto split: prod.splits)
  obtain m1 r1 where h: "star_hop E (me_key E ?nid) session (int pos) ?nid (enc hs) m = (m1, r1)" by fastforce
  note ok = star_hop_ok [OF nd(2) assms(1) Cons.prems(1) assms(2,3) c(2,3) refl f h]
  show ?case
  proof (cases r1)
    case (Inl e)
    then have wf: "wire_failure e" using ok by simp
    then have r: "r = Inl e" "m' = hop_failed P session ?nid m1" using Cons.prems(5) nd(1) h Inl by simp_all
    have "workers_frame {?nid} m m'" "m_local m' = m_local m" "relay_failed P session m m' e"
      using ok wf by (auto simp: r(2) hop_failed_def drop_conn_def workers_frame_def tables_frame_def relay_failed_def)
    then show ?thesis using ok Inl r(1) by (auto intro: workers_frame_mono)
  next
    case (Inr x)
    have x: "x = enc h1" and w': "\<exists>w'. map_of (m_workers m1) ?nid = Some w' \<and> map_of (w_sessions w') session = Some c'"
      and wf1: "workers_frame {?nid} m m1" and t1: "tables_frame m m1"
      and q1: "quiet_net E \<and> conns_open m \<longrightarrow> conns_open m1" and cf1: "conns_frame {?nid} m m1"
      using ok Inr by auto
    have l1: "length h1 = length hs" using stage_forward_length [of hs ?ps M "lay ?nid" c] f by simp
    then have b1: "batch_ok h1" using Cons.prems(1) by (auto simp: batch_ok_def)
    have away: "{?nid} \<inter> node_id ` set rt = {}" using nd(3) by simp
    have rest: "star_relay E cluster P session (int pos) rt (enc h1) m1 = (m', r)"
      using Cons.prems(5) nd(1) h Inr x by simp
    have f2': "stages_forward M (map (\<lambda>nd. lay (node_id nd)) rt) cs2 h1 (map (\<lambda>i. i + pos) [0 ..< length h1]) = (o1, cs3)"
      using f2(1) l1 by simp
    have at1: "at_holders n pos session m1 rt cs2"
      using at_holders_frame [OF wf1 away] c(4) by simp
    note IH = Cons.IH [OF b1 route_good_frame [OF wf1 rtg] at1 f2' rest]
    have fr: "workers_frame (node_id ` set rt) m1 m'" using IH by blast
    have frm: "workers_frame (node_id ` set (nd # rt)) m m'"
      using workers_frame_trans [OF wf1 fr] by simp
    have same: "map_of (m_workers m') ?nid = map_of (m_workers m1) ?nid"
      using fr nd(3) by (simp add: workers_frame_def)
    show ?thesis
      using IH frm t1 q1 w' same f2(2) cf1
      by (auto simp: tables_frame_def relay_failed_def hold_def conns_frame_def split: sum.splits)
  qed
qed

subsection \<open>The co-located stage\<close>

definition local_ok ::
  "('e, 'h, 'l) model_ops \<Rightarrow> nat \<Rightarrow> ('h list \<Rightarrow> tensor) \<Rightarrow> nat list option \<Rightarrow> 'e stage_lib option \<Rightarrow> bool" where
  "local_ok M n enc ll L \<longleftrightarrow>
     (case (ll, L) of (None, None) \<Rightarrow> True | (Some gs, Some lb) \<Rightarrow> lib_serves M n enc gs lb | _ \<Rightarrow> False)"

definition all_stages :: "nat list option \<Rightarrow> (string \<Rightarrow> nat list) \<Rightarrow> node list \<Rightarrow> nat list list" where
  "all_stages ll lay rt = (case ll of None \<Rightarrow> [] | Some gs \<Rightarrow> [gs]) @ map (\<lambda>nd. lay (node_id nd)) rt"

definition local_cached :: "nat \<Rightarrow> nat \<Rightarrow> int \<Rightarrow> nat list option \<Rightarrow> ('e, 'p) mesh \<Rightarrow> 'e stage_kv list \<Rightarrow> bool" where
  "local_cached n pos session ll m lcs \<longleftrightarrow>
     (case ll of None \<Rightarrow> lcs = []
      | Some gs \<Rightarrow> \<exists>c. lcs = [c] \<and> length c = n \<and>
          (if pos = 0 then c = replicate n [] else map_of (m_local m) session = Some c))"

definition local_holds :: "int \<Rightarrow> nat list option \<Rightarrow> ('e, 'p) mesh \<Rightarrow> 'e stage_kv list \<Rightarrow> bool" where
  "local_holds session ll m lcs \<longleftrightarrow>
     (case ll of None \<Rightarrow> lcs = [] | Some gs \<Rightarrow> \<exists>c. lcs = [c] \<and> map_of (m_local m) session = Some c)"

definition local_step :: "('e, 'l) coord \<Rightarrow> int \<Rightarrow> int \<Rightarrow> tensor \<Rightarrow> ('e, 'p) mesh \<Rightarrow> ('e, 'p) mesh \<times> tensor result" where
  "local_step C session pos hidden m =
     (case co_local C of None \<Rightarrow> (m, Inr hidden) | Some L \<Rightarrow> run_local L session pos hidden m)"

lemma relay_local_step: "relay E C P session pos hidden m =
     (case local_step C session pos hidden m of
        (m1, Inl e) \<Rightarrow> (m1, Inl e) | (m1, Inr h) \<Rightarrow> relay_dynamic E C P session pos h m1)"
  by (simp add: relay_def local_step_def)

lemma local_step_ok:
  assumes "local_ok M n enc ll (co_local C)" and rep: "tensor_rep enc" and hs: "batch_ok hs"
    and c: "local_cached n pos session ll m lcs"
    and f: "stages_forward M (case ll of None \<Rightarrow> [] | Some gs \<Rightarrow> [gs]) lcs hs (map (\<lambda>i. i + pos) [0 ..< length hs]) = (o1, lcs')"
  shows "\<exists>m'. local_step C session (int pos) (enc hs) m = (m', Inr (enc o1)) \<and> length o1 = length hs \<and>
    local_holds session ll m' lcs' \<and> (\<exists>d. m' = m\<lparr>m_local := d\<rparr>)"
proof (cases ll)
  case None
  then show ?thesis using assms by (auto simp: local_ok_def local_cached_def local_step_def local_holds_def
        split: option.splits intro: exI [of _ "m_local m"])
next
  case (Some gs)
  obtain L where L: "co_local C = Some L" "lib_serves M n enc gs L"
    using assms(1) Some by (auto simp: local_ok_def split: option.splits)
  obtain c0 where c0: "lcs = [c0]" "length c0 = n"
      "if pos = 0 then c0 = replicate n [] else map_of (m_local m) session = Some c0"
    using c Some by (auto simp: local_cached_def)
  obtain c' where s: "stage_forward M gs c0 hs (map (\<lambda>i. i + pos) [0 ..< length hs]) = (o1, c')" "lcs' = [c']"
    using f Some c0(1) by (auto split: prod.splits)
  have mode: "causal_mode (enc hs) (int pos) = Inr (Causal (position_ids (length hs) (int pos)))"
    using rep hs by (simp add: causal_mode_def tensor_rep_def batch_ok_def)
  have fwd: "sl_forward L (Causal (position_ids (length hs) (int pos))) (enc hs) c0 = (c', Inr (enc o1))"
    using L(2) hs c0(2) s(1) by (simp add: lib_serves_def batch_ok_def)
  have start: "(case map_of (m_local m) session of None \<Rightarrow> replicate (sl_slots L) []
      | Some kv \<Rightarrow> if int pos = 0 then replicate (sl_slots L) [] else kv) = c0"
    using c0 L(2) by (auto simp: lib_serves_def split: if_splits option.splits)
  have "length o1 = length hs"
    using stage_forward_length [of hs "map (\<lambda>i. i + pos) [0 ..< length hs]" M gs c0] s(1) by simp
  then show ?thesis
    using start mode fwd L(1) Some s(2)
    by (auto simp: local_step_def run_local_def Let_def local_holds_def dict_simps)
qed

subsection \<open>The contract of a route provider\<close>

text \<open>\<open>good\<close>: what its routes promise; \<open>live\<close>: it can hand one out; \<open>bound\<close>: what it gives the session
  when asked again is this route, until the session is released.  A provider that may forget a
  session has no such promise: \<open>None\<close>.\<close>

locale route_source =
  fixes P :: "'p route_provider" and Inv :: "'p \<Rightarrow> bool" and good :: "node list \<Rightarrow> bool" and live :: "'p \<Rightarrow> bool"
    and bound :: "('p \<Rightarrow> int \<Rightarrow> node list \<Rightarrow> bool) option"
  assumes acquire: "Inv p \<Longrightarrow> rp_acquire P p s = (p', r) \<Longrightarrow> Inv p' \<and> (\<forall>rt. r = Inr rt \<longrightarrow> good rt)"
    and release: "Inv p \<Longrightarrow> Inv (rp_release P p s)"
    and suspect: "Inv p \<Longrightarrow> Inv (rp_suspect P p nid)"
    and acquire_live: "Inv p \<Longrightarrow> live p \<Longrightarrow> rp_acquire P p s = (p', r) \<Longrightarrow> live p' \<and> (\<exists>rt. r = Inr rt)"
    and release_live: "Inv p \<Longrightarrow> live p \<Longrightarrow> live (rp_release P p s)"
    and acquire_bound: "bound = Some b \<Longrightarrow> Inv p \<Longrightarrow> rp_acquire P p s = (p', Inr rt) \<Longrightarrow> b p' s rt"
    and bound_acquire: "bound = Some b \<Longrightarrow> Inv p \<Longrightarrow> b p s rt \<Longrightarrow> rp_acquire P p s = (p', Inr rt') \<Longrightarrow> rt' = rt"
    and release_bound: "bound = Some b \<Longrightarrow> Inv p \<Longrightarrow> b p s rt \<Longrightarrow> s' \<noteq> s \<Longrightarrow> b (rp_release P p s') s rt"

text \<open>The route's nodes are workers of the mesh that run the stages of the model, in order.\<close>

definition serves ::
  "'e mesh_env \<Rightarrow> bytes \<Rightarrow> ('e, 'h, 'l) model_ops \<Rightarrow> nat \<Rightarrow> ('h list \<Rightarrow> tensor) \<Rightarrow> (string \<Rightarrow> nat list) \<Rightarrow>
   nat list option \<Rightarrow> string set \<Rightarrow> node list \<Rightarrow> bool" where
  "serves E cluster M n enc lay ll names rt \<longleftrightarrow> distinct (map node_id rt) \<and>
     (\<forall>nd \<in> set rt. node_key cluster nd = Inr (me_key E (node_id nd)) \<and>
        lib_serves M n enc (lay (node_id nd)) (me_lib E (node_id nd)) \<and> node_id nd \<in> names) \<and>
     concat (all_stages ll lay rt) = [0 ..< n]"

lemma serves_route_good:
  "serves E cluster M n enc lay ll (dom (map_of (m_workers m))) rt \<Longrightarrow> route_good E cluster M n enc lay m rt"
  by (simp add: serves_def route_good_def)

lemma serves_wf: "serves E cluster M n enc lay ll names rt \<Longrightarrow> stages_wf n (all_stages ll lay rt)"
proof -
  assume "serves E cluster M n enc lay ll names rt"
  then have c: "concat (all_stages ll lay rt) = [0 ..< n]" by (simp add: serves_def)
  show ?thesis
  proof (intro ballI conjI)
    fix gs assume gs: "gs \<in> set (all_stages ll lay rt)"
    then obtain xs ys where "all_stages ll lay rt = xs @ gs # ys" by (meson split_list)
    then have "distinct (concat xs @ gs @ concat ys)" using c by (metis concat.simps(2) concat_append distinct_upt)
    then show "distinct gs" by simp
    fix g assume "g \<in> set gs"
    then have "g \<in> set (concat (all_stages ll lay rt))" using gs by auto
    then show "g < n" unfolding c by simp
  qed
qed

text \<open>The route that the session uses: pinned by this coordinator, or one the provider gives again
  when asked (so another coordinator finds the same holders).\<close>

definition uses_route :: "('p \<Rightarrow> int \<Rightarrow> node list \<Rightarrow> bool) option \<Rightarrow> int \<Rightarrow> ('e, 'p) mesh \<Rightarrow> node list \<Rightarrow> bool" where
  "uses_route bound session m rt \<longleftrightarrow>
     (case bound of
        None \<Rightarrow> map_of (m_routes m) session = Some rt
      | Some b \<Rightarrow> map_of (m_routes m) session \<in> {None, Some rt} \<and> b (m_prov m) session rt)"

text \<open>The caches of the session, local stage first, are those of the tokens \<open>ctx\<close>.\<close>

definition in_session ::
  "('p \<Rightarrow> int \<Rightarrow> node list \<Rightarrow> bool) option \<Rightarrow> ('e, 'h, 'l) model_ops \<Rightarrow> nat \<Rightarrow> (string \<Rightarrow> nat list) \<Rightarrow> nat list option \<Rightarrow> (node list \<Rightarrow> bool) \<Rightarrow> int \<Rightarrow>
   int list \<Rightarrow> ('e, 'p) mesh \<Rightarrow> bool" where
  "in_session bound M n lay ll good session ctx m \<longleftrightarrow>
     (\<exists>rt lcs cs. uses_route bound session m rt \<and> good rt \<and>
        local_holds session ll m lcs \<and> hold session m rt cs \<and>
        lcs @ cs = snd (split_run M n (all_stages ll lay rt) ctx))"

definition whole_next :: "('e, 'h, 'l) model_ops \<Rightarrow> nat \<Rightarrow> int list \<Rightarrow> int" where
  "whole_next M n ctx = split_next M n [[0 ..< n]] ctx"

lemma split_next_whole: "concat sts = [0 ..< n] \<Longrightarrow> split_next M n sts ctx = whole_next M n ctx"
  using stages_forward_concat [of "replicate n []" n sts M] stages_forward_concat [of "replicate n []" n "[[0 ..< n]]" M]
  by (simp add: whole_next_def split_next_def split_run_def)

lemma remember_route_keys_ok:
  "\<forall>nd \<in> set rt. \<exists>k. node_key cluster nd = Inr k \<Longrightarrow> snd (remember_route_keys cluster rt keys) = Inr ()"
  by (induction rt arbitrary: keys) auto

text \<open>One relay of a batch, as a step of the whole session.\<close>

definition split_step ::
  "('e, 'h, 'l) model_ops \<Rightarrow> nat \<Rightarrow> nat list list \<Rightarrow> int list \<Rightarrow> int list \<Rightarrow> 'h list \<times> 'e stage_kv list" where
  "split_step M n sts ctx ids =
     stages_forward M sts (snd (split_run M n sts ctx)) (map (m_embed M) ids) (map (\<lambda>i. i + length ctx) [0 ..< length ids])"

lemma stages_forward_none: "length cs = length sts \<Longrightarrow> \<forall>c \<in> set cs. length c = n \<Longrightarrow> stages_wf n sts \<Longrightarrow>
    stages_forward M sts cs [] [] = ([], cs)"
proof (induction cs sts rule: list_induct2)
  case Nil
  then show ?case by simp
next
  case (Cons c cs st sts)
  have "stage_forward M gs kv [] [] = ([], kv)" if "\<forall>g \<in> set gs. g < length kv" for gs kv
    using that by (induction gs) auto
  then show ?case using Cons by simp
qed

lemma split_run_Nil: "stages_wf n sts \<Longrightarrow> snd (split_run M n sts []) = map (\<lambda>_. replicate n []) sts"
  using stages_forward_none [of "map (\<lambda>_. replicate n []) sts" sts n M] by (simp add: split_run_def)

lemma split_step_run:
  assumes "stages_wf n sts" and "split_step M n sts ctx ids = (o1, cs)"
  shows "snd (split_run M n sts (ctx @ ids)) = cs \<and> length o1 = length ids \<and>
    (ids \<noteq> [] \<longrightarrow> split_next M n sts (ctx @ ids) = m_argmax M (m_head M (last o1)))"
proof -
  have r: "split_run M n sts (ctx @ ids) = (fst (split_run M n sts ctx) @ o1, cs)"
    using split_run_append [OF assms(1), of M ctx ids] assms(2) by (simp add: split_step_def split_beta Let_def)
  have "length o1 = length ids"
    using split_run_shape [of M n sts "ctx @ ids"] split_run_shape [of M n sts ctx] r by simp
  moreover have "snd (split_run M n sts (ctx @ ids)) = cs" by (simp only: r snd_conv)
  moreover have "o1 \<noteq> [] \<Longrightarrow> split_next M n sts (ctx @ ids) = m_argmax M (m_head M (last o1))"
    by (simp add: split_next_def r)
  ultimately show ?thesis by (cases "o1 = []") auto
qed

lemma stages_forward_app:
  "length s1 = length c1 \<Longrightarrow> stages_forward M (s1 @ s2) (c1 @ c2) hs ps =
     (case stages_forward M s1 c1 hs ps of (h, d1) \<Rightarrow>
        (case stages_forward M s2 c2 h ps of (o1, d2) \<Rightarrow> (o1, d1 @ d2)))"
  by (induction s1 c1 arbitrary: hs rule: list_induct2) (auto split: prod.splits)

text \<open>The caches a batch starts from.\<close>

definition start_caches ::
  "('e, 'h, 'l) model_ops \<Rightarrow> nat \<Rightarrow> (string \<Rightarrow> nat list) \<Rightarrow> nat list option \<Rightarrow> int list \<Rightarrow> node list \<Rightarrow> 'e stage_kv list" where
  "start_caches M n lay ll ctx rt = snd (split_run M n (all_stages ll lay rt) ctx)"

lemma start_caches_ready:
  assumes "ctx = [] \<or> (local_holds session ll m lcs0 \<and> hold session m rt0 cs0 \<and> lcs0 @ cs0 = start_caches M n lay ll ctx rt0)"
  shows "\<exists>lcs. local_cached n (length ctx) session ll m lcs \<and>
    (\<forall>rt. stages_wf n (all_stages ll lay rt) \<and> (\<forall>nd \<in> set rt. node_id nd \<in> dom (map_of (m_workers m))) \<and>
       (ctx \<noteq> [] \<longrightarrow> rt = rt0) \<longrightarrow>
       (\<exists>cs. lcs @ cs = start_caches M n lay ll ctx rt \<and> at_holders n (length ctx) session m rt cs))"
proof (cases "ctx = []")
  case True
  let ?l = "case ll of None \<Rightarrow> [] | Some gs \<Rightarrow> [replicate n []]"
  have "\<exists>cs. ?l @ cs = start_caches M n lay ll ctx rt \<and> at_holders n (length ctx) session m rt cs"
    if wf: "stages_wf n (all_stages ll lay rt)" and d: "\<forall>nd \<in> set rt. node_id nd \<in> dom (map_of (m_workers m))" for rt
  proof (intro exI conjI)
    let ?c = "map (\<lambda>_. replicate n []) rt"
    show "?l @ ?c = start_caches M n lay ll ctx rt"
      using split_run_Nil [OF wf, of M] True
      by (simp add: start_caches_def all_stages_def o_def split: option.splits)
    show "at_holders n (length ctx) session m rt ?c"
      using True d by (force simp: at_holders_def list_all2_conv_all_nth cached_def)
  qed
  moreover have "local_cached n (length ctx) session ll m ?l"
    using True by (simp add: local_cached_def split: option.splits)
  ultimately show ?thesis by blast
next
  case False
  then have h: "local_holds session ll m lcs0" "hold session m rt0 cs0" "lcs0 @ cs0 = start_caches M n lay ll ctx rt0"
    using assms by blast+
  have w: "\<forall>c \<in> set (lcs0 @ cs0). length c = n"
    unfolding h(3) start_caches_def by (rule split_run_width)
  have "local_cached n (length ctx) session ll m lcs0"
    using h(1) w False by (auto simp: local_cached_def local_holds_def split: option.splits)
  moreover have "at_holders n (length ctx) session m rt0 cs0"
    using h(2) w False unfolding at_holders_def hold_def list_all2_conv_all_nth cached_def
    by (metis in_set_conv_nth length_greater_0_conv less_numeral_extra(3) set_append UnI2)
  ultimately show ?thesis using h(3) False by blast
qed

subsection \<open>Relaying a batch of the session\<close>

lemma send_frame_frame:
  assumes "send_frame E nid key mt payload m = (m', r)"
  shows "dom (map_of (m_workers m')) = dom (map_of (m_workers m)) \<and> m_prov m' = m_prov m"
  using assms
  by (auto simp: send_frame_def Let_def tick_contact_def dict_simps split: if_splits option.splits prod.splits)

lemma broadcast_frame:
  "dom (map_of (m_workers (fst (broadcast E cluster strict b nids m)))) = dom (map_of (m_workers m)) \<and>
    m_prov (fst (broadcast E cluster strict b nids m)) = m_prov m \<and>
    (\<not> strict \<longrightarrow> snd (broadcast E cluster strict b nids m) = Inr ())"
proof (induction nids arbitrary: m)
  case Nil
  then show ?case by simp
next
  case (Cons nid nids)
  obtain m1 u where s: "send_frame E nid (key_for cluster m nid) (msg_code KV_CTRL) b m = (m1, u)" by fastforce
  show ?case
    using Cons.IH [of m1] Cons.IH [of "drop_conn nid m1"] send_frame_frame [OF s] s
    by (cases u; cases strict) (simp_all add: Let_def drop_conn_def)
qed

text \<open>Every connection is to a worker whose key is known; the session's route is pinned, with a
  connection to each of its holders.\<close>

definition keyed :: "'e mesh_env \<Rightarrow> bytes \<Rightarrow> ('e, 'p) mesh \<Rightarrow> bool" where
  "keyed E cluster m \<longleftrightarrow> dict_ok (m_conns m) \<and> (\<forall>nid \<in> dom (map_of (m_conns m)).
     nid \<in> dom (map_of (m_workers m)) \<and> key_for cluster m nid = me_key E nid)"

definition attached :: "int \<Rightarrow> ('e, 'p) mesh \<Rightarrow> bool" where
  "attached session m \<longleftrightarrow> (\<exists>rt. map_of (m_routes m) session = Some rt \<and>
     node_id ` set rt \<subseteq> dom (map_of (m_conns m)))"

lemma remember_route_keys_key:
  "remember_route_keys cluster rt keys = (ks, Inr ()) \<Longrightarrow>
     (\<forall>nd \<in> set rt. node_key cluster nd = Inr (k (node_id nd))) \<Longrightarrow>
     dget ks nid d = (if nid \<in> node_id ` set rt then k nid else dget keys nid d)"
  by (induction rt arbitrary: keys) (auto simp: dict_simps)

text \<open>Everything the decode loop relies on, fixed for a whole generation.\<close>

definition system_ok ::
  "'e mesh_env \<Rightarrow> ('e, 'l) coord \<Rightarrow> ('e, 'h, 'l) model_ops \<Rightarrow> nat \<Rightarrow> ('h list \<Rightarrow> tensor) \<Rightarrow> nat list option \<Rightarrow> bool" where
  "system_ok E C M n enc ll \<longleftrightarrow> tensor_rep enc \<and> parts_ok M enc C \<and> local_ok M n enc ll (co_local C) \<and> \<not> co_chain C"

text \<open>The decode loop from a session that holds \<open>ctx\<close>: it emits the whole model's greedy
  continuation, up to an end token, and carries the state of where it stopped.\<close>

definition steps_result :: "(int list \<Rightarrow> int) \<Rightarrow> int set \<Rightarrow> int list \<Rightarrow> nat \<Rightarrow> int list \<times> int list \<times> int \<times> nat" where
  "steps_result nx eos ctx k =
     (let out = until_eos eos (greedy nx ctx k) in (out, ctx @ out, nx (ctx @ out), length ctx + length out))"

lemma steps_result_Suc:
  "steps_result nx eos ctx (Suc k) =
     (if nx ctx \<in> eos then ([], ctx, nx ctx, length ctx)
      else case steps_result nx eos (ctx @ [nx ctx]) k of (out, st) \<Rightarrow> (nx ctx # out, st))"
  by (simp add: steps_result_def until_eos_def Let_def)

context route_source
begin

definition mesh_ok :: "string set \<Rightarrow> ('e, 'p) mesh \<Rightarrow> bool" where
  "mesh_ok names m \<longleftrightarrow> Inv (m_prov m) \<and> dom (map_of (m_workers m)) = names"

definition calm :: "'e mesh_env \<Rightarrow> ('e, 'p) mesh \<Rightarrow> bool" where
  "calm E m \<longleftrightarrow> quiet_net E \<and> conns_open m \<and> live (m_prov m)"

lemma pinned_route_ok:
  assumes "mesh_ok names m" and good: "\<forall>rt. good rt \<longrightarrow> serves E cluster M n enc lay ll names rt"
    and old: "pos \<noteq> 0 \<longrightarrow> uses_route bound session m rt0 \<and> good rt0"
    and p: "pinned_route cluster P session (int pos) m = (m', r)"
  shows "mesh_ok names m' \<and> m_workers m' = m_workers m \<and> m_local m' = m_local m \<and> m_conns m' = m_conns m \<and>
    (calm E m \<longrightarrow> calm E m' \<and> (\<exists>rt. r = Inr rt)) \<and>
    (\<forall>rt. r = Inr rt \<longrightarrow> good rt \<and> uses_route bound session m' rt \<and> map_of (m_routes m') session = Some rt \<and>
       (pos \<noteq> 0 \<longrightarrow> rt = rt0) \<and>
       (keyed E cluster m \<and> (pos = 0 \<or> attached session m) \<longrightarrow> keyed E cluster m' \<and>
          (\<forall>nd \<in> set rt. key_for cluster m' (node_id nd) = me_key E (node_id nd))))"
proof (cases "pos \<noteq> 0 \<and> map_of (m_routes m) session \<noteq> None")
  case True
  then have "r = Inr rt0" "m' = m" using old p by (auto simp: pinned_route_def uses_route_def split: option.splits)
  moreover have "keyed E cluster m \<and> attached session m \<longrightarrow>
      (\<forall>nd \<in> set rt0. key_for cluster m (node_id nd) = me_key E (node_id nd))"
  proof (intro impI ballI)
    fix nd assume k: "keyed E cluster m \<and> attached session m" "nd \<in> set rt0"
    have "map_of (m_routes m) session = Some rt0" using True old by (auto simp: uses_route_def split: option.splits)
    then have "node_id nd \<in> dom (map_of (m_conns m))" using k by (auto simp: attached_def)
    then show "key_for cluster m (node_id nd) = me_key E (node_id nd)" using k(1) by (simp add: keyed_def)
  qed
  ultimately show ?thesis using True old assms(1) by (auto simp: uses_route_def split: option.splits)
next
  case F: False
  then have look: "(if int pos = 0 then None else map_of (m_routes m) session) = None" by auto
  obtain p' r' where a: "rp_acquire P (m_prov m) session = (p', r')" by fastforce
  have inv: "Inv (m_prov m)" using assms(1) by (simp add: mesh_ok_def)
  note ac = acquire [OF inv a]
  show ?thesis
  proof (cases r')
    case (Inl e)
    then have "\<not> live (m_prov m)" using acquire_live [OF inv _ a] by blast
    then show ?thesis using p a Inl ac assms(1) unfolding pinned_route_def look by (auto simp: mesh_ok_def calm_def)
  next
    case (Inr rt)
    then have g: "good rt" using ac by blast
    then have "\<forall>nd \<in> set rt. \<exists>k. node_key cluster nd = Inr k" using good by (auto simp: serves_def)
    then obtain ks where ks: "remember_route_keys cluster rt (m_keys m) = (ks, Inr ())"
      using remember_route_keys_ok [of rt cluster "m_keys m"] by (metis prod.collapse)
    have "r = Inr rt" "m' = m\<lparr>m_prov := p', m_routes := dset session rt (m_routes m), m_keys := ks\<rparr>"
      using p a Inr ks unfolding pinned_route_def look by (auto simp: Let_def)
    moreover have "key_for cluster m' nid = (if nid \<in> node_id ` set rt then me_key E nid else key_for cluster m nid)" for nid
      using remember_route_keys_key [OF ks, of "me_key E" nid cluster] good g
      by (simp add: calculation(2) key_for_def serves_def)
    moreover have "pos \<noteq> 0 \<Longrightarrow> rt = rt0" using old F bound_acquire [OF _ inv _ a [unfolded Inr], of _ rt0] by (auto simp: uses_route_def split: option.splits)
    moreover have "bound = Some b \<Longrightarrow> b p' session rt" for b using acquire_bound [OF _ inv] a Inr by blast
    ultimately show ?thesis
      using g ac assms(1) acquire_live [OF inv _ a]
      by (auto simp: mesh_ok_def calm_def conns_open_def uses_route_def keyed_def dict_simps split: option.splits)
  qed
qed


text \<open>One relay: after it the session's caches are those of the longer context and the head's choice
  is the whole model's, or it failed.\<close>

lemma relay_session:
  assumes sys: "system_ok E C M n enc ll" and mesh: "mesh_ok names m"
    and good: "\<forall>rt. good rt \<longrightarrow> serves E (co_key C) M n enc lay ll names rt"
    and ids: "ids \<noteq> []" "length ids < 2 ^ 32" "id_ok session" "id_ok (int (length ctx))"
    and ctx: "ctx = [] \<or> in_session bound M n lay ll good session ctx m"
    and r: "relay E C P session (int (length ctx)) (co_embed C ids) m = (m', r)"
  shows "mesh_ok names m' \<and> (calm E m \<longrightarrow> calm E m' \<and> (\<exists>h. r = Inr h)) \<and>
    (\<forall>h. r = Inr h \<longrightarrow> in_session bound M n lay ll good session (ctx @ ids) m' \<and>
       next_token C h = Inr (whole_next M n (ctx @ ids)) \<and>
       map (co_argmax C) (co_rows C h) = map (\<lambda>j. whole_next M n (ctx @ take (Suc j) ids)) [0 ..< length ids] \<and>
       (keyed E (co_key C) m \<and> (ctx = [] \<or> attached session m) \<longrightarrow> keyed E (co_key C) m' \<and> attached session m'))"
proof -
  let ?hs = "map (m_embed M) ids" and ?pos = "length ctx"
  let ?ps = "map (\<lambda>i. i + ?pos) [0 ..< length ?hs]"
  have parts: "tensor_rep enc" "parts_ok M enc C" "local_ok M n enc ll (co_local C)" "\<not> co_chain C"
    using sys by (auto simp: system_ok_def)
  have emb: "co_embed C ids = enc ?hs" and hs: "batch_ok ?hs"
    using parts(2) ids by (auto simp: parts_ok_def batch_ok_def)
  obtain rt0 lcs0 cs0 where old: "ctx \<noteq> [] \<longrightarrow> uses_route bound session m rt0 \<and> good rt0 \<and>
      local_holds session ll m lcs0 \<and> hold session m rt0 cs0 \<and> lcs0 @ cs0 = start_caches M n lay ll ctx rt0"
    using ctx unfolding in_session_def start_caches_def by blast
  have names: "dom (map_of (m_workers m)) = names" using mesh by (simp add: mesh_ok_def)
  obtain lcs where lcs: "local_cached n ?pos session ll m lcs"
    and remote: "\<And>rt. stages_wf n (all_stages ll lay rt) \<Longrightarrow> \<forall>nd \<in> set rt. node_id nd \<in> names \<Longrightarrow>
       ctx \<noteq> [] \<longrightarrow> rt = rt0 \<Longrightarrow>
       \<exists>cs. lcs @ cs = start_caches M n lay ll ctx rt \<and> at_holders n ?pos session m rt cs"
    using start_caches_ready [of ctx session ll m lcs0 rt0 cs0 M n lay] old names by blast
  let ?ls = "case ll of None \<Rightarrow> [] | Some gs \<Rightarrow> [gs]"
  obtain o1 lcs' where f1: "stages_forward M ?ls lcs ?hs ?ps = (o1, lcs')" by fastforce
  obtain m1 where l: "local_step C session (int ?pos) (enc ?hs) m = (m1, Inr (enc o1))" "length o1 = length ?hs"
      "local_holds session ll m1 lcs'" "\<exists>d. m1 = m\<lparr>m_local := d\<rparr>"
    using local_step_ok [OF parts(3,1) hs lcs f1] by blast
  have m1: "m_workers m1 = m_workers m" "m_routes m1 = m_routes m" "m_prov m1 = m_prov m" "m_conns m1 = m_conns m"
    using l(4) by auto
  have mesh1: "mesh_ok names m1" and calm1: "calm E m1 = calm E m"
    using mesh m1 by (simp_all add: mesh_ok_def calm_def conns_open_def)
  obtain m2 r2 where p: "pinned_route (co_key C) P session (int ?pos) m1 = (m2, r2)" by fastforce
  have pre: "?pos \<noteq> 0 \<longrightarrow> uses_route bound session m1 rt0 \<and> good rt0" using old m1 by (simp add: uses_route_def split: option.splits)
  note pok = pinned_route_ok [OF mesh1 good pre p]
  show ?thesis
  proof (cases r2)
    case (Inl e)
    then have "r = Inl e" "m' = m2" using r l(1) p emb by (simp_all add: relay_local_step relay_dynamic_def)
    then show ?thesis using pok calm1 Inl by auto
  next
    case (Inr rt)
    have g: "good rt" "uses_route bound session m2 rt" "ctx \<noteq> [] \<longrightarrow> rt = rt0" and mesh2: "mesh_ok names m2"
      and same2: "m_workers m2 = m_workers m1" "m_local m2 = m_local m1"
      and pin: "map_of (m_routes m2) session = Some rt"
      and kk: "keyed E (co_key C) m1 \<and> (?pos = 0 \<or> attached session m1) \<longrightarrow> keyed E (co_key C) m2 \<and>
        (\<forall>nd \<in> set rt. key_for (co_key C) m2 (node_id nd) = me_key E (node_id nd))"
      using pok Inr by auto
    have sv: "serves E (co_key C) M n enc lay ll names rt" using good g(1) by blast
    note wf = serves_wf [OF sv]
    have dn: "\<forall>nd \<in> set rt. node_id nd \<in> names" using sv by (simp add: serves_def)
    obtain cs where cs: "lcs @ cs = start_caches M n lay ll ctx rt" "at_holders n ?pos session m rt cs"
      using remote [OF wf dn g(3)] by blast
    have at2: "at_holders n ?pos session m2 rt cs"
      using cs(2) by (simp add: at_holders_def same2 m1)
    have b1: "batch_ok o1" using hs l(2) by (auto simp: batch_ok_def)
    have rg: "route_good E (co_key C) M n enc lay m2 rt"
      using sv mesh2 by (intro serves_route_good [where ll = ll]) (simp add: mesh_ok_def)
    obtain o2 cs' where f2: "stages_forward M (map (\<lambda>nd. lay (node_id nd)) rt) cs o1 (map (\<lambda>i. i + ?pos) [0 ..< length o1]) = (o2, cs')"
      by fastforce
    have st: "star_relay E (co_key C) P session (int ?pos) rt (enc o1) m2 = (m', r)"
      using r l(1) p emb Inr parts(4) by (simp add: relay_local_step relay_dynamic_def)
    note star = star_relay_ok [OF parts(1) ids(3,4) b1 rg at2 f2 st]
    have len: "length ?ls = length lcs" using lcs by (auto simp: local_cached_def split: option.splits)
    have step: "split_step M n (all_stages ll lay rt) ctx ids = (o2, lcs' @ cs')"
      using stages_forward_app [OF len, of M "map (\<lambda>nd. lay (node_id nd)) rt" cs ?hs ?ps] f1 f2 l(2) cs(1)
      by (simp add: split_step_def start_caches_def all_stages_def)
    note run = split_step_run [OF wf step]
    have cc: "concat (all_stages ll lay rt) = [0 ..< n]" using sv by (simp add: serves_def)
    have frame: "mesh_ok names m'" "calm E m \<longrightarrow> calm E m' \<and> (\<exists>h. r = Inr h)"
    proof -
      have "dom (map_of (m_workers m')) = names" using star mesh2 by (simp add: workers_frame_def mesh_ok_def)
      moreover have "Inv (m_prov m')"
        using star mesh2 suspect by (auto simp: mesh_ok_def relay_failed_def split: sum.splits)
      ultimately show "mesh_ok names m'" by (simp add: mesh_ok_def)
      show "calm E m \<longrightarrow> calm E m' \<and> (\<exists>h. r = Inr h)"
        using star pok calm1 by (auto simp: calm_def split: sum.splits)
    qed
    have "in_session bound M n lay ll good session (ctx @ ids) m' \<and> next_token C h = Inr (whole_next M n (ctx @ ids)) \<and>
       map (co_argmax C) (co_rows C h) = map (\<lambda>j. whole_next M n (ctx @ take (Suc j) ids)) [0 ..< length ids] \<and>
       (keyed E (co_key C) m \<and> (ctx = [] \<or> attached session m) \<longrightarrow> keyed E (co_key C) m' \<and> attached session m')"
      if h: "r = Inr h" for h
    proof -
      have s: "h = enc o2" "uses_route bound session m' rt" "hold session m' rt cs'" "m_local m' = m_local m2"
          "m_routes m' = m_routes m2" "conns_frame (node_id ` set rt) m2 m'"
        using star h g(2) by (auto simp: uses_route_def split: option.splits)
      have "m_local m' = m_local m1" using s(4) same2 by simp
      then have lh: "local_holds session ll m' lcs'"
        using l(3) by (auto simp: local_holds_def split: option.splits)
      have o2: "o2 \<noteq> []" using run ids(1) by auto
      have rows: "co_rows C h = map (m_head M) o2" using parts(2) o2 by (simp add: s(1) parts_ok_def)
      have "next_token C h = Inr (m_argmax M (m_head M (last o2)))"
        using parts(2) o2 by (simp add: next_token_def rows parts_ok_def last_map)
      moreover have "m_argmax M (m_head M (last o2)) = whole_next M n (ctx @ ids)"
        using run ids(1) split_next_whole [OF cc, of M "ctx @ ids"] by simp
      moreover have "map (co_argmax C) (co_rows C h) = map (\<lambda>j. whole_next M n (ctx @ take (Suc j) ids)) [0 ..< length ids]"
        using split_rows [OF wf step [unfolded split_step_def]] parts(2)
        by (simp add: rows parts_ok_def split_next_whole [OF cc])
      moreover have "in_session bound M n lay ll good session (ctx @ ids) m'"
        unfolding in_session_def using g(1) s(2,3) lh run by metis
      moreover have "keyed E (co_key C) m' \<and> attached session m'"
        if k: "keyed E (co_key C) m \<and> (ctx = [] \<or> attached session m)"
      proof -
        have "keyed E (co_key C) m2" "\<forall>nd \<in> set rt. key_for (co_key C) m2 (node_id nd) = me_key E (node_id nd)"
          using kk k m1 l(4) by (auto simp: keyed_def attached_def key_for_def)
        then show ?thesis
          using s(5,6) pin frame(1) mesh2 dn
          by (auto simp: keyed_def attached_def conns_frame_def key_for_def mesh_ok_def)
      qed
      ultimately show ?thesis by (simp only:) blast
    qed
    then show ?thesis using frame by blast
  qed
qed

text \<open>Freeing or restarting a session keeps the mesh whole, and always gets through.\<close>

lemma reset_sessions_ok:
  assumes "mesh_ok names m" and "id_ok session" and "reset_sessions E cluster P session m = (m', r)"
  shows "mesh_ok names m' \<and> r = Inr ()"
proof -
  obtain b where b: "kv_frame session KVOP_RESET 0 = Inr b"
    using assms(2) by (auto simp: kv_frame_def id_ok_def pack_uint_def KVOP_RESET_def)
  let ?m0 = "m\<lparr>m_local := dpop session (m_local m), m_routes := dpop session (m_routes m),
      m_prov := rp_release P (m_prov m) session\<rparr>"
  have m0: "mesh_ok names ?m0" using assms(1) release by (simp add: mesh_ok_def)
  show ?thesis
  proof (cases "m_conns m = []")
    case True
    then show ?thesis using assms(3) m0 by (simp add: reset_sessions_def broadcast_packed_def)
  next
    case False
    then have "broadcast E cluster False b (map fst (m_conns m)) ?m0 = (m', r)"
      using assms(3) b by (simp add: reset_sessions_def broadcast_packed_def Let_def)
    then show ?thesis using broadcast_frame [of E cluster False b "map fst (m_conns m)" ?m0] m0 by (simp add: mesh_ok_def)
  qed
qed

text \<open>The attempts of one relay: each starts from the session's caches, or rebuilds them from
  position 0.\<close>

lemma failover_session:
  assumes sys: "system_ok E C M n enc ll"
    and good: "\<forall>rt. good rt \<longrightarrow> serves E (co_key C) M n enc lay ll names rt"
    and ids: "ids \<noteq> []" "length ctx + length ids < 2 ^ 32" "id_ok session"
    and "mesh_ok names m"
    and "again \<or> ctx = [] \<or> in_session bound M n lay ll good session ctx m"
    and "failover_loop E C P session (int (length ctx)) (co_embed C ids) ctx k again e m = (m', r)"
  shows "mesh_ok names m' \<and> (\<not> again \<and> 0 < k \<and> calm E m \<longrightarrow> calm E m' \<and> (\<exists>h. r = Inr h)) \<and>
    (\<forall>h. r = Inr h \<longrightarrow> in_session bound M n lay ll good session (ctx @ ids) m' \<and>
       next_token C h = Inr (whole_next M n (ctx @ ids)))"
  using assms(6-8)
proof (induction k arbitrary: again e m)
  case 0
  then have "m' = m" "r = Inl e" by simp_all
  then show ?case using 0(1) by simp
next
  case (Suc k)
  have idl: "id_ok (int (length ctx))" "length ids < 2 ^ 32" "length ctx < 2 ^ 32" "id_ok 0"
    using ids(2) by (auto simp: id_ok_def)
  obtain m1 r1 where st: "(if again then reprefill E C P session ctx m else (m, Inr ())) = (m1, r1)" by fastforce
  have pre: "mesh_ok names m1 \<and> (\<forall>u. r1 = Inr u \<longrightarrow> ctx = [] \<or> in_session bound M n lay ll good session ctx m1)"
  proof (cases again)
    case False
    then show ?thesis using st Suc.prems by auto
  next
    case True
    obtain m0 r0 where z: "reset_sessions E (co_key C) P session m = (m0, r0)" by fastforce
    have z': "mesh_ok names m0" "r0 = Inr ()" using reset_sessions_ok [OF Suc.prems(1) ids(3) z] by auto
    show ?thesis
    proof (cases "ctx = []")
      case True
      then show ?thesis using st z z' \<open>again\<close> by (simp add: reprefill_def)
    next
      case ne: False
      obtain m2 r2 where y: "relay E C P session (int (length ([] :: int list))) (co_embed C ctx) m0 = (m2, r2)" by fastforce
      have "id_ok (int (length ([] :: int list)))" using idl(4) by simp
      note rl = relay_session [OF sys z'(1) good ne idl(3) ids(3) this disjI1 [OF refl] y]
      have "(m1, r1) = (m2, bindE r2 (\<lambda>_. Inr ()))" using st z z' y ne True by (simp add: reprefill_def)
      then show ?thesis using rl by (cases r2) auto
    qed
  qed
  show ?case
  proof (cases r1)
    case (Inl e1)
    then have ag: "again" using st by (auto split: if_splits)
    have "if wire_failure e1 then failover_loop E C P session (int (length ctx)) (co_embed C ids) ctx k True e1 m1 = (m', r)
        else (m', r) = (m1, Inl e1)"
      using Suc.prems(3) st Inl by (auto split: if_splits)
    then show ?thesis using Suc.IH [of m1 True e1] pre ag by (auto split: if_splits)
  next
    case (Inr u)
    then have c1: "ctx = [] \<or> in_session bound M n lay ll good session ctx m1" and m1: "mesh_ok names m1" using pre by auto
    obtain m2 r2 where y: "relay E C P session (int (length ctx)) (co_embed C ids) m1 = (m2, r2)" by fastforce
    note rl = relay_session [OF sys m1 good ids(1) idl(2) ids(3) idl(1) c1 y]
    show ?thesis
    proof (cases r2)
      case (Inr h)
      then have "(m', r) = (m2, Inr h)" using Suc.prems(3) st \<open>r1 = Inr u\<close> y by simp
      then show ?thesis using rl Inr st by auto
    next
      case (Inl e2)
      then have f: "if wire_failure e2 then failover_loop E C P session (int (length ctx)) (co_embed C ids) ctx k True e2 m2 = (m', r)
          else (m', r) = (m2, Inl e2)"
        using Suc.prems(3) st \<open>r1 = Inr u\<close> y by (auto split: if_splits)
      have nc: "\<not> again \<and> calm E m \<longrightarrow> False" using rl Inl st by auto
      have "mesh_ok names m2" using rl by simp
      then show ?thesis using Suc.IH [of m2 True e2] f nc by (auto split: if_splits)
    qed
  qed
qed

lemma greedy_steps_session:
  assumes sys: "system_ok E C M n enc ll"
    and good: "\<forall>rt. good rt \<longrightarrow> serves E (co_key C) M n enc lay ll names rt"
    and session: "id_ok session"
    and "mesh_ok names m" and "in_session bound M n lay ll good session ctx m" and "length ctx + k < 2 ^ 32"
    and "greedy_steps E C P session k (ctx, whole_next M n ctx, length ctx) m = (m', r)"
  shows "mesh_ok names m' \<and> (calm E m \<longrightarrow> calm E m' \<and> (\<exists>x. r = Inr x)) \<and>
    (\<forall>x. r = Inr x \<longrightarrow> x = steps_result (whole_next M n) (co_eos C) ctx k \<and>
       in_session bound M n lay ll good session (fst (snd x)) m')"
  using assms(4-7)
proof (induction k arbitrary: ctx m m' r)
  case 0
  then show ?case by (auto simp: steps_result_def until_eos_def)
next
  case (Suc k)
  let ?t = "whole_next M n ctx"
  show ?case
  proof (cases "?t \<in> co_eos C")
    case True
    then show ?thesis using Suc.prems by (auto simp: steps_result_Suc)
  next
    case False
    obtain m1 r1 where f: "relay_with_failover E C P session (int (length ctx)) (co_embed C [?t]) ctx m = (m1, r1)"
      by fastforce
    have l: "length ctx + length [?t] < 2 ^ 32" using Suc.prems(3) by simp
    note fo = failover_session [OF sys good _ l session Suc.prems(1) _ f [unfolded relay_with_failover_def]]
    have ok: "mesh_ok names m1 \<and> (calm E m \<longrightarrow> calm E m1 \<and> (\<exists>h. r1 = Inr h)) \<and>
        (\<forall>h. r1 = Inr h \<longrightarrow> in_session bound M n lay ll good session (ctx @ [?t]) m1 \<and>
           next_token C h = Inr (whole_next M n (ctx @ [?t])))"
      using fo Suc.prems(2) by simp
    show ?thesis
    proof (cases r1)
      case (Inl e)
      then show ?thesis using Suc.prems(4) False f ok by auto
    next
      case (Inr h)
      have nt: "next_token C h = Inr (whole_next M n (ctx @ [?t]))"
        and inn: "in_session bound M n lay ll good session (ctx @ [?t]) m1" and m1: "mesh_ok names m1"
        using ok Inr by blast+
      obtain m2 r2 where g: "greedy_steps E C P session k
          (ctx @ [?t], whole_next M n (ctx @ [?t]), length (ctx @ [?t])) m1 = (m2, r2)" by fastforce
      have r: "m' = m2" "r = (case r2 of Inl e \<Rightarrow> Inl e | Inr (out, st) \<Rightarrow> Inr (?t # out, st))"
        using Suc.prems(4) False f Inr nt g by (auto split: sum.splits prod.splits)
      note IH = Suc.IH [OF m1 inn _ g]
      have IH': "mesh_ok names m2 \<and> (calm E m1 \<longrightarrow> calm E m2 \<and> (\<exists>x. r2 = Inr x)) \<and>
        (\<forall>x. r2 = Inr x \<longrightarrow> x = steps_result (whole_next M n) (co_eos C) (ctx @ [?t]) k \<and>
          in_session bound M n lay ll good session (fst (snd x)) m2)"
        using IH Suc.prems(3) by simp
      then show ?thesis using ok r False by (auto simp: steps_result_Suc split: sum.splits prod.splits)
    qed
  qed
qed

lemma finish_session_ok:
  assumes "mesh_ok names m" and "id_ok session" and "finish_session E C P session warm (m, r) = (m', r')"
  shows "mesh_ok names m' \<and> r' = r \<and> (warm \<longrightarrow> m' = m)"
proof (cases warm)
  case True
  then show ?thesis using assms by (simp add: finish_session_def)
next
  case False
  obtain m1 u where z: "reset_sessions E (co_key C) P session m = (m1, u)" by fastforce
  have "mesh_ok names m1" "u = Inr ()" using reset_sessions_ok [OF assms(1,2) z] by auto
  then show ?thesis using assms(3) False z by (simp add: finish_session_def)
qed

lemma generate_session:
  assumes sys: "system_ok E C M n enc ll"
    and good: "\<forall>rt. good rt \<longrightarrow> serves E (co_key C) M n enc lay ll names rt"
    and session: "id_ok session" and mesh: "mesh_ok names m"
    and ids: "ids \<noteq> []" "length ids + k < 2 ^ 32"
    and gen: "generate_state E C P session ids k warm m = (m', r)"
  shows "mesh_ok names m' \<and> (calm E m \<longrightarrow> (warm \<longrightarrow> calm E m') \<and> (\<exists>x. r = Inr x)) \<and>
    (\<forall>x. r = Inr x \<longrightarrow> x = steps_result (whole_next M n) (co_eos C) ids k \<and>
       (warm \<longrightarrow> in_session bound M n lay ll good session (fst (snd x)) m'))"
proof -
  obtain m1 r1 where f: "relay_with_failover E C P session (int (length ([] :: int list))) (co_embed C ids) [] m = (m1, r1)"
    by fastforce
  have l: "length ([] :: int list) + length ids < 2 ^ 32" using ids(2) by simp
  note fo = failover_session [OF sys good ids(1) l session mesh _ f [unfolded relay_with_failover_def]]
  have ok: "mesh_ok names m1 \<and> (calm E m \<longrightarrow> calm E m1 \<and> (\<exists>h. r1 = Inr h)) \<and>
      (\<forall>h. r1 = Inr h \<longrightarrow> in_session bound M n lay ll good session ids m1 \<and> next_token C h = Inr (whole_next M n ids))"
    using fo by simp
  show ?thesis
  proof (cases r1)
    case (Inl e)
    then have fin: "finish_session E C P session warm (m1, Inl e :: (int list \<times> int list \<times> int \<times> nat) result) = (m', r)"
      using gen f by (simp add: generate_state_def)
    have "mesh_ok names m1" using ok by blast
    note finish_session_ok [OF this session fin]
    then show ?thesis using ok Inl by auto
  next
    case (Inr h)
    have nt: "next_token C h = Inr (whole_next M n ids)" and inn: "in_session bound M n lay ll good session ids m1"
      and m1: "mesh_ok names m1"
      using ok Inr by blast+
    obtain m2 r2 where g: "greedy_steps E C P session k (ids, whole_next M n ids, length ids) m1 = (m2, r2)" by fastforce
    note st = greedy_steps_session [OF sys good session m1 inn ids(2) g]
    have fin: "finish_session E C P session warm (m2, r2) = (m', r)"
      using gen f Inr nt g by (simp add: generate_state_def)
    have "mesh_ok names m2" using st by blast
    note finish_session_ok [OF this session fin]
    then show ?thesis using st ok by auto
  qed
qed

lemma resume_session:
  assumes sys: "system_ok E C M n enc ll"
    and good: "\<forall>rt. good rt \<longrightarrow> serves E (co_key C) M n enc lay ll names rt"
    and session: "id_ok session" and mesh: "mesh_ok names m" "in_session bound M n lay ll good session ctx m"
    and len: "length ctx + k < 2 ^ 32"
    and gen: "generate_resume_state E C P session (ctx, whole_next M n ctx, length ctx) k warm m = (m', r)"
  shows "mesh_ok names m' \<and> (calm E m \<longrightarrow> (warm \<longrightarrow> calm E m') \<and> (\<exists>x. r = Inr x)) \<and>
    (\<forall>x. r = Inr x \<longrightarrow> x = steps_result (whole_next M n) (co_eos C) ctx k \<and>
       (warm \<longrightarrow> in_session bound M n lay ll good session (fst (snd x)) m'))"
proof -
  obtain m2 r2 where g: "greedy_steps E C P session k (ctx, whole_next M n ctx, length ctx) m = (m2, r2)" by fastforce
  note st = greedy_steps_session [OF sys good session mesh len g]
  have fin: "finish_session E C P session warm (m2, r2) = (m', r)"
    using gen g by (simp add: generate_resume_state_def)
  have "mesh_ok names m2" using st by blast
  note finish_session_ok [OF this session fin]
  then show ?thesis using st by auto
qed

end

end
