(* ===== verification/Mesh_Spec.thy ===== *)
theory Mesh_Spec
  imports Coordinator_Spec Registry_Spec
begin

section \<open>The mesh as a whole\<close>

text \<open>
  The registry as the coordinator's route provider, and what follows for a generation over the
  mesh: the tokens are those of the whole model, whatever holders the registry picks and whatever
  failures are survived; a generation can be continued by another coordinator; sessions of
  different coordinators have different ids.
\<close>

subsection \<open>A deployment\<close>

text \<open>Every node that the registry lists as a holder runs the layers of its slot, under the key
  the registry hands out for it; the coordinator's own stage has the layers before the first slot.\<close>

definition deployed ::
  "'e mesh_env \<Rightarrow> bytes \<Rightarrow> ('e, 'h, 'l) model_ops \<Rightarrow> nat \<Rightarrow> ('h list \<Rightarrow> tensor) \<Rightarrow> (string \<Rightarrow> nat list) \<Rightarrow>
   nat list option \<Rightarrow> string set \<Rightarrow> topology \<Rightarrow> bool" where
  "deployed E cluster M n enc lay ll names t \<longleftrightarrow>
     num_layers t = int n \<and> 0 \<le> coordinator_end t \<and>
     (case ll of None \<Rightarrow> coordinator_end t = 0 | Some gs \<Rightarrow> gs = [0 ..< nat (coordinator_end t)]) \<and>
     (\<forall>s \<in> set (slots t). \<forall>h \<in> set (s_holders s).
        h \<in> names \<and> lay h = [nat (s_start s) ..< nat (s_end s)] \<and> lib_serves M n enc (lay h) (me_lib E h) \<and>
        (\<forall>nd. map_of (nodes t) h = Some nd \<longrightarrow> node_key cluster nd = Inr (me_key E h)))"

lemma tiles_layers:
  "tiles a b ss \<Longrightarrow> 0 \<le> a \<Longrightarrow> concat (map (\<lambda>s. [nat (s_start s) ..< nat (s_end s)]) ss) = [nat a ..< nat b]"
proof (induction ss arbitrary: a)
  case Nil
  then show ?case by simp
next
  case (Cons s ss)
  have t: "tiles (s_end s) b ss" and a: "s_start s = a" "a \<le> s_end s" using Cons.prems(1) by auto
  have "nat a \<le> nat (s_end s)" "nat (s_end s) \<le> nat b" using a tiles_le [OF t] by auto
  then have "[nat a ..< nat (s_end s)] @ [nat (s_end s) ..< nat b] = [nat a ..< nat b]"
    by (metis le_add_diff_inverse upt_add_eq_append)
  then show ?case using Cons.IH [OF t] a Cons.prems(2) by simp
qed

lemma acquired_route_serves:
  assumes reg: "registry_ok r" and dep: "deployed E cluster M n enc lay ll names (topo r)"
    and acq: "acquire_route r s = (r', Inr rt)"
  shows "serves E cluster M n enc lay ll names rt"
proof -
  let ?t = "topo r"
  have wf: "topo_wf ?t" using reg by (simp add: registry_ok_def)
  obtain plan where plan: "route ?t = Inr plan" and rt: "rt = session_route r s plan"
    using acq by (auto simp: acquire_route_eq Let_def split: sum.splits)
  have p: "plan = map (\<lambda>s. (s, holders ?t (s_index s))) (slots ?t)"
    using plan by (simp add: route_def route_slots_Inr)
  have len: "length rt = length (slots ?t)" by (simp add: rt p)
  have nth: "map_of (nodes ?t) (node_id (rt ! i)) = Some (rt ! i) \<and> node_id (rt ! i) \<in> set (s_holders (slots ?t ! i))"
    if "i < length rt" for i
  proof -
    have i: "i < length (slots ?t)" using that len by simp
    have "rt ! i \<in> set (holders ?t i)"
      using session_route_in [OF plan, of i r s] i topo_wf_index [OF wf i] by (simp add: rt p)
    then show ?thesis using holders_member [OF wf i] by blast
  qed
  have good: "node_key cluster (rt ! i) = Inr (me_key E (node_id (rt ! i))) \<and>
      lib_serves M n enc (lay (node_id (rt ! i))) (me_lib E (node_id (rt ! i))) \<and> node_id (rt ! i) \<in> names \<and>
      lay (node_id (rt ! i)) = [nat (s_start (slots ?t ! i)) ..< nat (s_end (slots ?t ! i))]" if "i < length rt" for i
  proof -
    have "slots ?t ! i \<in> set (slots ?t)" using that len by simp
    then show ?thesis using nth [OF that] dep unfolding deployed_def by blast
  qed
  then have runs: "node_key cluster (rt ! i) = Inr (me_key E (node_id (rt ! i))) \<and>
      lib_serves M n enc (lay (node_id (rt ! i))) (me_lib E (node_id (rt ! i))) \<and> node_id (rt ! i) \<in> names"
    if "i < length rt" for i
    using that by blast
  have "map (\<lambda>nd. lay (node_id nd)) rt = map (\<lambda>s. [nat (s_start s) ..< nat (s_end s)]) (slots ?t)"
    by (rule nth_equalityI) (simp_all add: len good)
  moreover have "tiles (coordinator_end ?t) (int n) (slots ?t)"
    using topo_wf_tiles [OF wf] dep by (simp add: deployed_def)
  ultimately have "concat (map (\<lambda>nd. lay (node_id nd)) rt) = [nat (coordinator_end ?t) ..< n]"
    and le: "coordinator_end ?t \<le> int n"
    using tiles_layers tiles_le dep by (fastforce simp: deployed_def)+
  moreover have "nat (coordinator_end ?t) \<le> n" using le by simp
  moreover from this have "[0 ..< nat (coordinator_end ?t)] @ [nat (coordinator_end ?t) ..< n] = [0 ..< n]"
    by (metis add_0 le_add_diff_inverse upt_add_eq_append zero_le)
  ultimately have "concat (all_stages ll lay rt) = [0 ..< n]"
    using dep by (auto simp: all_stages_def deployed_def split: option.splits)
  then show ?thesis
    using session_route_distinct [OF wf plan, of r s] runs by (auto simp: serves_def rt in_set_conv_nth)
qed

lemma deployed_mark_suspect:
  assumes "deployed E cluster M n enc lay ll names t"
  shows "deployed E cluster M n enc lay ll names (mark_suspect t nid)"
proof -
  let ?t = "mark_suspect t nid"
  have "\<exists>nd'. map_of (nodes t) h = Some nd' \<and> node_key cluster nd' = node_key cluster nd"
    if "map_of (nodes ?t) h = Some nd" for h nd
    using that by (auto simp: mark_suspect_def dict_simps node_key_def split: if_splits)
  then have "\<forall>nd. map_of (nodes ?t) h = Some nd \<longrightarrow> node_key cluster nd = Inr (me_key E h)"
    if "\<forall>nd. map_of (nodes t) h = Some nd \<longrightarrow> node_key cluster nd = Inr (me_key E h)" for h
    using that by metis
  moreover have eq: "slots ?t = slots t" "num_layers ?t = num_layers t" "coordinator_end ?t = coordinator_end t"
    by (simp_all add: mark_suspect_def)
  ultimately show ?thesis using assms unfolding deployed_def eq by blast
qed

text \<open>A session is bound to a route when it is pinned to its nodes and each is still a holder of
  its slot; such a session is given the same route again.\<close>

definition pinned_to :: "registry \<Rightarrow> session_key \<Rightarrow> node list \<Rightarrow> bool" where
  "pinned_to r k rt \<longleftrightarrow> map_of (session_load r) k = Some (map node_id rt) \<and> snd (acquire_route r k) = Inr rt"

abbreviation session_bound :: "registry \<Rightarrow> int \<Rightarrow> node list \<Rightarrow> bool" where
  "session_bound r s \<equiv> pinned_to r (SInt s)"

lemma bound_route:
  assumes wf: "topo_wf (topo r)" and plan: "route (topo r) = Inr plan"
    and pin: "map_of (session_load r) s = Some (map node_id rt)" and len: "length rt = length plan"
  shows "session_route r s plan = rt \<longleftrightarrow> (\<forall>i < length plan. rt ! i \<in> set (snd (plan ! i)))"
proof
  show "\<forall>i < length plan. rt ! i \<in> set (snd (plan ! i))" if "session_route r s plan = rt"
    using session_route_in [OF plan, of _ r s] that by auto
next
  assume mem: "\<forall>i < length plan. rt ! i \<in> set (snd (plan ! i))"
  show "session_route r s plan = rt"
  proof (rule nth_equalityI)
    show "length (session_route r s plan) = length rt" by (simp add: len)
    fix i assume "i < length (session_route r s plan)"
    then have i: "i < length plan" by simp
    have "plan = map (\<lambda>s. (s, holders (topo r) (s_index s))) (slots (topo r))"
      using plan by (simp add: route_def route_slots_Inr)
    then have hs: "snd (plan ! i) = holders (topo r) i" "i < length (slots (topo r))"
      using i topo_wf_index [OF wf] by simp_all
    have one: "h = rt ! i" if "h \<in> set (snd (plan ! i))" "node_id h = node_id (rt ! i)" for h
    proof -
      have "rt ! i \<in> set (holders (topo r) i)" using mem i unfolding hs(1) [symmetric] by blast
      note a = holders_member [OF wf hs(2) this]
      have "h \<in> set (holders (topo r) i)" using that(1) unfolding hs(1) .
      note b = holders_member [OF wf hs(2) this]
      show ?thesis using a b that(2) by simp
    qed
    have "by_id (snd (plan ! i)) (node_id (rt ! i)) \<noteq> None" using mem i by (auto simp: by_id_None_iff)
    then obtain h where h: "by_id (snd (plan ! i)) (node_id (rt ! i)) = Some h" by blast
    then have "h = rt ! i" using by_id_SomeD one by blast
    then show "session_route r s plan ! i = rt ! i"
      using i h pin len by (simp add: session_route_nth affine_pick_def)
  qed
qed

lemma acquire_route_bound:
  assumes reg: "registry_ok r" and acq: "acquire_route r s = (r', Inr rt)"
  shows "pinned_to r' s rt"
proof -
  have wf: "topo_wf (topo r)" using reg by (simp add: registry_ok_def)
  obtain plan where plan: "route (topo r) = Inr plan" and rt: "rt = session_route r s plan"
    using acq by (auto simp: acquire_route_eq Let_def split: sum.splits)
  have r': "topo r' = topo r" "map_of (session_load r') s = Some (map node_id rt)"
    using acq plan rt by (auto simp: acquire_route_eq Let_def dict_simps)
  have mem: "\<forall>i < length plan. rt ! i \<in> set (snd (plan ! i))" unfolding rt using session_route_in [OF plan] by blast
  have "topo_wf (topo r')" "route (topo r') = Inr plan" "length rt = length plan"
    using wf plan by (simp_all only: r'(1)) (simp add: rt)
  from bound_route [OF this(1,2) r'(2) this(3)] mem have "session_route r' s plan = rt" by blast
  then show ?thesis using r' plan by (simp add: pinned_to_def acquire_route_eq Let_def)
qed

lemma pinned_release:
  assumes reg: "registry_ok r" and b: "pinned_to r s rt" and ne: "s' \<noteq> s"
  shows "pinned_to (release_route r s') s rt"
proof -
  let ?r = "release_route r s'"
  have wf: "topo_wf (topo r)" using reg by (simp add: registry_ok_def)
  obtain plan where plan: "route (topo r) = Inr plan" and rt: "rt = session_route r s plan"
    using b by (auto simp: pinned_to_def acquire_route_eq Let_def split: sum.splits)
  have r: "topo ?r = topo r" "map_of (session_load ?r) s = Some (map node_id rt)"
    using b ne by (auto simp: pinned_to_def release_route_def Let_def dict_simps)
  have mem: "\<forall>i < length plan. rt ! i \<in> set (snd (plan ! i))" unfolding rt using session_route_in [OF plan] by blast
  have "topo_wf (topo ?r)" "route (topo ?r) = Inr plan" "length rt = length plan"
    using wf plan by (simp_all only: r(1)) (simp add: rt)
  from bound_route [OF this(1,2) r(2) this(3)] mem have "session_route ?r s plan = rt" by blast
  then show ?thesis using r plan by (simp add: pinned_to_def acquire_route_eq Let_def)
qed

lemma pinned_acquire:
  assumes reg: "registry_ok r" and b: "pinned_to r s rt" and ne: "s' \<noteq> s"
  shows "pinned_to (fst (acquire_route r s')) s rt"
proof -
  let ?r = "fst (acquire_route r s')"
  have wf: "topo_wf (topo r)" using reg by (simp add: registry_ok_def)
  obtain plan where plan: "route (topo r) = Inr plan" and rt: "rt = session_route r s plan"
    using b by (auto simp: pinned_to_def acquire_route_eq Let_def split: sum.splits)
  have r: "topo ?r = topo r" "map_of (session_load ?r) s = Some (map node_id rt)"
    using b ne plan by (auto simp: pinned_to_def acquire_route_eq Let_def dict_simps)
  have mem: "\<forall>i < length plan. rt ! i \<in> set (snd (plan ! i))" unfolding rt using session_route_in [OF plan] by blast
  have "topo_wf (topo ?r)" "route (topo ?r) = Inr plan" "length rt = length plan"
    using wf plan by (simp_all only: r(1)) (simp add: rt)
  from bound_route [OF this(1,2) r(2) this(3)] mem have "session_route ?r s plan = rt" by blast
  then show ?thesis using r plan by (simp add: pinned_to_def acquire_route_eq Let_def)
qed

interpretation lp: route_source local_provider
  "\<lambda>r. registry_ok r \<and> deployed E cluster M n enc lay ll names (topo r)"
  "serves E cluster M n enc lay ll names" "\<lambda>r. coverage_ok (topo r)" "Some session_bound"
  for E cluster M n enc lay ll names
proof (unfold_locales, goal_cases)
  case (1 p s p' r)
  then have a: "acquire_route p (SInt s) = (p', r)" by (simp add: local_provider_def)
  then have "topo p' = topo p" by (auto simp: acquire_route_eq Let_def split: sum.splits)
  then show ?case
    using 1 a registry_ok_step [of p "RAcquire (SInt s)"] acquired_route_serves [of p E cluster M n enc lay ll names "SInt s" p'] by auto
next
  case (2 p s)
  then show ?case using registry_ok_step [of p "RRelease (SInt s)"]
    by (simp add: local_provider_def release_route_def Let_def)
next
  case (3 p nid)
  then show ?case using registry_ok_step [of p "RSuspect nid"]
    by (simp add: local_provider_def reg_mark_suspect_def deployed_mark_suspect)
next
  case (4 p s p' r)
  then obtain plan where "route (topo p) = Inr plan" using route_iff_covered by blast
  then show ?case using 4 by (auto simp: local_provider_def acquire_route_eq Let_def)
next
  case (5 p s)
  then show ?case by (simp add: local_provider_def release_route_def Let_def)
next
  case (6 b p s p' rt)
  then show ?case using acquire_route_bound by (auto simp: local_provider_def)
next
  case (7 b p s rt p' rt')
  then show ?case by (auto simp: local_provider_def pinned_to_def)
next
  case (8 b p s rt s')
  then show ?case using pinned_release [of p "SInt s" rt "SInt s'"] by (auto simp: local_provider_def)
qed

subsection \<open>Generation\<close>

lemma until_eos_greedy_add:
  "until_eos eos (greedy nx ctx a) @ until_eos eos (greedy nx (ctx @ until_eos eos (greedy nx ctx a)) b) =
   until_eos eos (greedy nx ctx (a + b))"
proof (induction a arbitrary: ctx)
  case 0
  then show ?case by (simp add: until_eos_def)
next
  case (Suc a)
  show ?case
  proof (cases "nx ctx \<in> eos")
    case True
    then show ?thesis by (cases b) (simp_all add: until_eos_def)
  next
    case False
    then show ?thesis using Suc.IH [of "ctx @ [nx ctx]"] by (simp add: until_eos_def)
  qed
qed

definition mesh_ready ::
  "'e mesh_env \<Rightarrow> ('e, 'l) coord \<Rightarrow> ('e, 'h, 'l) model_ops \<Rightarrow> nat \<Rightarrow> ('h list \<Rightarrow> tensor) \<Rightarrow> (string \<Rightarrow> nat list) \<Rightarrow>
   nat list option \<Rightarrow> ('e, registry) mesh \<Rightarrow> bool" where
  "mesh_ready E C M n enc lay ll m \<longleftrightarrow> system_ok E C M n enc ll \<and> registry_ok (m_prov m) \<and>
     deployed E (co_key C) M n enc lay ll (dom (map_of (m_workers m))) (topo (m_prov m))"

abbreviation mesh_inv where
  "mesh_inv E cluster M n enc lay ll names \<equiv>
     route_source.mesh_ok (\<lambda>r. registry_ok r \<and> deployed E cluster M n enc lay ll names (topo r)) names"

lemma mesh_ready_ok: "mesh_ready E C M n enc lay ll m \<Longrightarrow>
    mesh_inv E (co_key C) M n enc lay ll (dom (map_of (m_workers m))) m"
  by (simp add: mesh_ready_def lp.mesh_ok_def)

text \<open>C1. A generation over the mesh that returns has produced exactly the tokens the whole model
  decodes greedily in one place, up to the first end token, with the matching resume state: for any
  split of the layers over slots and the coordinator's own stage, any choice of replicas, and any
  refused contact, lost reply or broken connection that failover survives.  With a network that
  loses nothing, open connections and every slot covered it does return.  The registry stays
  consistent either way.\<close>

theorem mesh_generation_is_greedy:
  assumes ready: "mesh_ready E C M n enc lay ll m" and session: "id_ok session"
    and ids: "ids \<noteq> []" "length ids + n_new < 2 ^ 32"
    and gen: "generate_state E C local_provider session ids n_new warm m = (m', r)"
  shows "(\<forall>out st. r = Inr (out, st) \<longrightarrow>
       out = until_eos (co_eos C) (greedy (whole_next M n) ids n_new) \<and>
       st = (ids @ out, whole_next M n (ids @ out), length ids + length out)) \<and>
    (quiet_net E \<and> conns_open m \<and> coverage_ok (topo (m_prov m)) \<longrightarrow> (\<exists>x. r = Inr x)) \<and>
    registry_ok (m_prov m')"
proof -
  have sys: "system_ok E C M n enc ll" using ready by (simp add: mesh_ready_def)
  have triv: "\<forall>rt. serves E (co_key C) M n enc lay ll (dom (map_of (m_workers m))) rt \<longrightarrow>
      serves E (co_key C) M n enc lay ll (dom (map_of (m_workers m))) rt" by blast
  note g = lp.generate_session [OF sys triv session mesh_ready_ok [OF ready] ids gen]
  show ?thesis using g by (auto simp: lp.mesh_ok_def lp.calm_def steps_result_def Let_def)
qed

text \<open>A session can move to another coordinator in mid-generation without prefilling again: if
  the first one stops after \<open>n1\<close> tokens and keeps the session, a second one that has only the
  resume state (no pinned route, no cache of its own) finds the same holders again through the
  registry and continues, and the tokens of both together are one uninterrupted generation of
  \<open>n1 + n2\<close> tokens; over a network that loses nothing the continuation does return.\<close>

theorem rehomed_generation_continues:
  assumes ready: "mesh_ready E C M n enc lay None m" and session: "id_ok session"
    and ids: "ids \<noteq> []" "length ids + n1 + n2 < 2 ^ 32"
    and first: "generate_state E C local_provider session ids n1 True m = (m1, Inr (out1, st))"
    and other: "system_ok E C2 M n enc None" "co_key C2 = co_key C" "co_eos C2 = co_eos C"
    and moved: "m_workers m2 = m_workers m1" "m_prov m2 = m_prov m1" "m_routes m2 = []"
    and second: "generate_resume_state E C2 local_provider session st n2 warm m2 = (m3, r2)"
  shows "(\<forall>out2 st2. r2 = Inr (out2, st2) \<longrightarrow>
       out1 @ out2 = until_eos (co_eos C) (greedy (whole_next M n) ids (n1 + n2)) \<and>
       st2 = (ids @ out1 @ out2, whole_next M n (ids @ out1 @ out2), length ids + length out1 + length out2)) \<and>
    (quiet_net E \<and> conns_open m \<and> coverage_ok (topo (m_prov m)) \<and> conns_open m2 \<longrightarrow> (\<exists>x. r2 = Inr x))"
proof -
  let ?nx = "whole_next M n" and ?w = "dom (map_of (m_workers m))"
  have sys: "system_ok E C M n enc None" using ready by (simp add: mesh_ready_def)
  have l1: "length ids + n1 < 2 ^ 32" using ids(2) by simp
  have triv: "\<forall>rt. serves E key M n enc lay None ?w rt \<longrightarrow> serves E key M n enc lay None ?w rt" for key
    by blast
  note g = lp.generate_session [OF sys triv session mesh_ready_ok [OF ready] ids(1) l1 first]
  have res: "(out1, st) = steps_result ?nx (co_eos C) ids n1" and m1: "mesh_inv E (co_key C) M n enc lay None ?w m1"
    and inn: "in_session (Some session_bound) M n lay None (serves E (co_key C) M n enc lay None ?w) session (fst st) m1"
    using g by auto
  have o1: "out1 = until_eos (co_eos C) (greedy ?nx ids n1)"
    and st: "st = (ids @ out1, ?nx (ids @ out1), length (ids @ out1))"
    using res by (simp_all add: steps_result_def Let_def)
  have m2: "mesh_inv E (co_key C2) M n enc lay None ?w m2"
    using m1 moved other(2) by (simp add: lp.mesh_ok_def)
  have in2: "in_session (Some session_bound) M n lay None (serves E (co_key C2) M n enc lay None ?w) session (ids @ out1) m2"
    using inn moved other(2) by (auto simp: in_session_def st uses_route_def local_holds_def hold_def)
  have "length out1 \<le> n1" unfolding o1 until_eos_def by (metis length_greedy length_takeWhile_le)
  then have l2: "length (ids @ out1) + n2 < 2 ^ 32" using ids(2) by simp
  note h = lp.resume_session [OF other(1) triv session m2 in2 l2 second [unfolded st]]
  have r2: "\<forall>x. r2 = Inr x \<longrightarrow> x = steps_result ?nx (co_eos C) (ids @ out1) n2" using h other(3) by auto
  have "out1 @ until_eos (co_eos C) (greedy ?nx (ids @ out1) n2) = until_eos (co_eos C) (greedy ?nx ids (n1 + n2))"
    unfolding o1 by (rule until_eos_greedy_add)
  moreover have "quiet_net E \<and> conns_open m \<and> coverage_ok (topo (m_prov m)) \<and> conns_open m2 \<longrightarrow> (\<exists>x. r2 = Inr x)"
    using g h moved(2) by (auto simp: lp.calm_def)
  ultimately show ?thesis using r2 by (auto simp: steps_result_def Let_def)
qed

subsection \<open>A small deployment\<close>

text \<open>Four layers over two nodes; hidden states are single bytes.\<close>

definition byte_enc :: "8 word list \<Rightarrow> tensor" where
  "byte_enc hs = \<lparr>t_dtype = U8, t_shape = [1, length hs, 1], t_raw = hs\<rparr>"

definition byte_model :: "(8 word, 8 word, 8 word) model_ops" where
  "byte_model = \<lparr>m_embed = of_int, m_entry = (\<lambda>g h p. h + of_nat p),
     m_layer = (\<lambda>g es h p. sum_list es + of_nat g), m_head = (\<lambda>h. h), m_argmax = uint\<rparr>"

definition byte_lib :: "nat list \<Rightarrow> nat \<Rightarrow> 8 word stage_lib" where
  "byte_lib gs n = \<lparr>sl_forward = (\<lambda>md x c.
       case md of
         Causal ps \<Rightarrow> (case stage_forward byte_model gs c (t_raw x) (map nat ps) of (o1, c') \<Rightarrow> (c', Inr (byte_enc o1)))
       | _ \<Rightarrow> (c, Inl RuntimeError)),
     sl_tolist = (\<lambda>x. Inr (map uint (t_raw x))), sl_slots = n\<rparr>"

lemma byte_enc_rep: "tensor_rep byte_enc"
  by (auto simp: tensor_rep_def tensor_ok_def byte_enc_def seq_len_def pack_tensor_def pack_uint_def)

lemma byte_lib_serves: "lib_serves byte_model n byte_enc gs (byte_lib gs n)"
proof -
  have "map nat (position_ids k (int pos)) = map (\<lambda>i. i + pos) [0 ..< k]" for k pos
    by (simp add: position_ids_def nat_int_add)
  then show ?thesis by (simp add: lib_serves_def byte_lib_def byte_enc_def)
qed

definition demo_lay :: "string \<Rightarrow> nat list" where
  "demo_lay nid = (if nid = ''a'' then [0, 1] else [2, 3])"

definition demo_env :: "8 word mesh_env" where
  "demo_env = \<lparr>me_lib = (\<lambda>nid. byte_lib (demo_lay nid) 4), me_key = (\<lambda>_. [7]), me_at = (\<lambda>_. None),
     me_net = (\<lambda>_ _. Delivered), me_clock = (\<lambda>_. 0)\<rparr>"

definition demo_coord :: "(8 word, 8 word) coord" where
  "demo_coord = \<lparr>co_key = [7], co_local = None, co_embed = (\<lambda>ids. byte_enc (map of_int ids)),
     co_rows = t_raw, co_argmax = uint, co_eos = {0}, co_chain = False\<rparr>"

definition demo_four :: "topology" where
  "demo_four = foldl topo_step (projr (mk_topology 4 0 2 ''fp'' 1 30 None False None))
     [ERegister (demo_node ''a'' 2) 0 (Some (0, 2)), ERegister (demo_node ''b'' 2) 1 (Some (2, 4)),
      EReady ''a'', EReady ''b'']"

definition demo_mesh :: "(8 word, registry) mesh" where
  "demo_mesh = \<lparr>m_workers = [(''a'', \<lparr>w_sessions = [], w_touch = []\<rparr>), (''b'', \<lparr>w_sessions = [], w_touch = []\<rparr>)],
     m_conns = [], m_routes = [], m_local = [], m_keys = [],
     m_prov = mk_registry demo_four [1] (''coord'', 7000) '''' None None 1000 1 '''' None True, m_contacts = 0\<rparr>"

lemma demo_four_eq: "demo_four = (projr (mk_topology 4 0 2 ''fp'' 1 30 None False None))\<lparr>
    nodes := [(''a'', (demo_node ''a'' 2)\<lparr>slot := Some 0, state := READY\<rparr>),
      (''b'', (demo_node ''b'' 2)\<lparr>slot := Some 1, state := READY, last_hb := 1\<rparr>)],
    slots := [\<lparr>s_index = 0, s_start = 0, s_end = 2, s_holders = [''a'']\<rparr>,
      \<lparr>s_index = 1, s_start = 2, s_end = 4, s_holders = [''b'']\<rparr>]\<rparr>"
  by (simp add: demo_four_def register_def choose_slot_def demo_simps drop_holder_def slot_size_def mark_ready_def)

lemma demo_four_wf: "topo_wf demo_four"
proof -
  have "mk_topology 4 0 2 ''fp'' 1 30 None False None = Inr (projr (mk_topology 4 0 2 ''fp'' 1 30 None False None))"
    by (simp add: mk_topology_def)
  from topo_wf_mk_topology [OF this] show ?thesis
    unfolding demo_four_def by (simp add: topo_wf_step del: topo_step.simps)
qed

lemma demo_four_covered: "coverage_ok demo_four"
  by (simp add: demo_four_eq coverage_ok_def holders_def live_holders_def List.map_filter_simps
      demo_simps)

lemma demo_system: "system_ok demo_env demo_coord byte_model 4 byte_enc None"
  by (simp add: system_ok_def byte_enc_rep parts_ok_def local_ok_def demo_coord_def)
    (simp add: byte_enc_def byte_model_def)

lemma demo_mesh_topo: "topo (m_prov demo_mesh) = demo_four"
  by (simp add: demo_mesh_def mk_registry_def Let_def)

lemma demo_ready: "mesh_ready demo_env demo_coord byte_model 4 byte_enc demo_lay None demo_mesh"
proof -
  have "registry_ok (m_prov demo_mesh)"
    unfolding demo_mesh_def by (simp add: registry_ok_initial [OF demo_four_wf])
  moreover have "deployed demo_env (co_key demo_coord) byte_model 4 byte_enc demo_lay None
      (dom (map_of (m_workers demo_mesh))) demo_four"
    using byte_lib_serves [of 4]
    by (simp add: deployed_def demo_four_eq mk_topology_def Let_def demo_mesh_def demo_lay_def demo_env_def
        node_key_def demo_node_def new_node_def demo_coord_def upt_rec numeral_eq_Suc)
  ultimately show ?thesis by (simp add: mesh_ready_def demo_system demo_mesh_topo)
qed

lemma demo_calm: "quiet_net demo_env \<and> conns_open demo_mesh \<and> coverage_ok (topo (m_prov demo_mesh))"
  by (simp add: quiet_net_def conns_open_def demo_env_def demo_mesh_topo demo_four_covered) (simp add: demo_mesh_def)

lemma demo_first:
  assumes "generate_state demo_env demo_coord local_provider 1 [3, 1] k warm demo_mesh = (m', r)" and "k < 100"
  shows "\<exists>x. r = Inr x"
proof -
  have triv: "\<forall>rt. serves E key M n enc lay None w rt \<longrightarrow> serves E key M n enc lay None w rt" for E key M n enc lay w rt
    by blast
  show ?thesis
    using lp.generate_session [OF demo_system triv _ mesh_ready_ok [OF demo_ready] _ _ assms(1)] demo_calm assms(2)
    by (simp add: lp.calm_def id_ok_def)
qed

lemma mesh_generation_is_greedy_witness:
  "\<exists>m' st. generate_state demo_env demo_coord local_provider 1 [3, 1] 4 False demo_mesh =
     (m', Inr (until_eos {0} (greedy (whole_next byte_model 4) [3, 1] 4), st))"
proof -
  obtain m' r where g: "generate_state demo_env demo_coord local_provider 1 [3, 1] 4 False demo_mesh = (m', r)"
    by fastforce
  note t = mesh_generation_is_greedy [OF demo_ready _ _ _ g]
  then show ?thesis using demo_calm g by (auto simp: id_ok_def demo_coord_def)
qed


lemma rehomed_generation_continues_witness:
  "\<exists>m1 out1 st m3 out2 st2.
     generate_state demo_env demo_coord local_provider 1 [3, 1] 2 True demo_mesh = (m1, Inr (out1, st)) \<and>
     generate_resume_state demo_env demo_coord local_provider 1 st 3 False (m1\<lparr>m_routes := [], m_conns := [], m_keys := []\<rparr>) =
       (m3, Inr (out2, st2)) \<and>
     out1 @ out2 = until_eos {0} (greedy (whole_next byte_model 4) [3, 1] 5)"
proof -
  have sz: "length [3, 1 :: int] + 2 < 2 ^ 32" "length [3, 1 :: int] + 2 + 3 < 2 ^ 32" "[3, 1 :: int] \<noteq> []" "id_ok 1"
    by (simp_all add: id_ok_def)
  obtain m1 r1 where g: "generate_state demo_env demo_coord local_provider 1 [3, 1] 2 True demo_mesh = (m1, r1)" by fastforce
  obtain out1 st where x: "r1 = Inr (out1, st)"
    using demo_first [OF g] by auto
  let ?m2 = "m1\<lparr>m_routes := [], m_conns := [], m_keys := []\<rparr>"
  obtain m3 r2 where h: "generate_resume_state demo_env demo_coord local_provider 1 st 3 False ?m2 = (m3, r2)" by fastforce
  have "conns_open ?m2" by (simp add: conns_open_def)
  then show ?thesis
    using rehomed_generation_continues [OF demo_ready sz(4,3,2) g [unfolded x] demo_system refl refl _ _ _ h]
      demo_calm g x h by (auto simp: demo_coord_def)
qed

subsection \<open>Session ids\<close>

lemma next_session_id_value:
  "fst (next_session_id orch k) = (orch mod 2 ^ 15) * 2 ^ 16 + (k mod 0xFFFF + 1)"
proof -
  have o: "orch AND 0x7FFF = orch mod 2 ^ 15"
    using take_bit_eq_mask [of 15 orch] by (simp add: mask_eq_exp_minus_1 take_bit_eq_mod)
  have k: "0 \<le> k mod 0xFFFF + 1" "k mod 0xFFFF + 1 < 2 ^ 16"
    using pos_mod_bound [of "0xFFFF" k] by simp_all
  have "push_bit 16 (orch mod 2 ^ 15) OR (k mod 0xFFFF + 1) = push_bit 16 (orch mod 2 ^ 15) + (k mod 0xFFFF + 1)"
  proof (rule disjunctive_add [symmetric])
    fix i
    have "take_bit 16 (k mod 0xFFFF + 1) = k mod 0xFFFF + 1" using k by (simp add: take_bit_int_eq_self)
    then have "bit (k mod 0xFFFF + 1) i \<Longrightarrow> i < 16" by (metis bit_take_bit_iff)
    then show "\<not> bit (push_bit 16 (orch mod 2 ^ 15)) i \<or> \<not> bit (k mod 0xFFFF + 1) i"
      by (auto simp: bit_push_bit_iff)
  qed
  then show ?thesis by (simp add: next_session_id_def Let_def o push_bit_eq_mult)
qed

lemma session_id_parts:
  assumes "0 \<le> x" "x < 2 ^ 16" "0 \<le> y" "y < 2 ^ 16"
  shows "(a * 2 ^ 16 + x = b * 2 ^ 16 + y) \<longleftrightarrow> a = b \<and> x = (y :: int)"
proof
  assume e: "a * 2 ^ 16 + x = b * 2 ^ 16 + y"
  define d where "d = b - a"
  have "x - y = 65536 * d" using e by (simp add: d_def algebra_simps)
  moreover have "- 65536 < x - y" "x - y < 65536" using assms by simp_all
  ultimately have "d = 0" by linarith
  then show "a = b \<and> x = y" using e by (simp add: d_def)
qed simp

lemma session_id_range:
  "0 \<le> p \<Longrightarrow> p < 2 ^ 15 \<Longrightarrow> 1 \<le> c \<Longrightarrow> c < 2 ^ 16 \<Longrightarrow> 0 < p * 2 ^ 16 + c \<and> p * 2 ^ 16 + c < (2 ^ 31 :: int)"
  by simp

lemma next_session_id_ok: "id_ok (fst (next_session_id orch k))"
proof -
  have "0 \<le> orch mod 2 ^ 15" "orch mod 2 ^ 15 < 2 ^ 15" "1 \<le> k mod 0xFFFF + 1" "k mod 0xFFFF + 1 < 2 ^ 16"
    using pos_mod_bound [of "0xFFFF" k] by simp_all
  from session_id_range [OF this] show ?thesis unfolding next_session_id_value id_ok_def by simp
qed

text \<open>A session id is positive, fits the wire's 32 bits, and is neither a batch id nor the audit
  session's; two ids are equal exactly when both the orchestrators' prefixes (15 bits) and the
  counters (modulo 65535) agree, so the counter repeats an id after 65535 sessions and not before.\<close>

theorem session_ids_disjoint:
  "0 < fst (next_session_id orch k) \<and> fst (next_session_id orch k) < first_batch_id \<and>
   fst (next_session_id orch k) \<noteq> audit_session \<and> id_ok (fst (next_session_id orch k)) \<and>
   (fst (next_session_id orch k) = fst (next_session_id orch2 k2) \<longleftrightarrow>
      orch mod 2 ^ 15 = orch2 mod 2 ^ 15 \<and> k mod 0xFFFF = k2 mod 0xFFFF)"
proof -
  have c: "0 \<le> k mod 0xFFFF + 1" "k mod 0xFFFF + 1 < 2 ^ 16" "1 \<le> k mod 0xFFFF + 1" for k :: int
    using pos_mod_bound [of "0xFFFF" k] by simp_all
  have p: "0 \<le> orch mod 2 ^ 15" "orch mod 2 ^ 15 < 2 ^ 15" by simp_all
  let ?p = "orch mod 2 ^ 15" and ?c = "k mod 0xFFFF + 1"
  have range: "0 < ?p * 2 ^ 16 + ?c" "?p * 2 ^ 16 + ?c < 2 ^ 31" using session_id_range [OF p c(3,2)] by blast+
  have "?p * 2 ^ 16 + ?c \<noteq> 2 ^ 14 * 2 ^ 16 + 0"
    using session_id_parts [of ?c 0 ?p "2 ^ 14"] c [of k] by linarith
  then have "?p * 2 ^ 16 + ?c \<noteq> 2 ^ 30" by simp
  moreover have "?p * 2 ^ 16 + ?c = (orch2 mod 2 ^ 15) * 2 ^ 16 + (k2 mod 0xFFFF + 1) \<longleftrightarrow>
      ?p = orch2 mod 2 ^ 15 \<and> ?c = k2 mod 0xFFFF + 1"
    by (rule session_id_parts) (use c in auto)
  ultimately show ?thesis
    using range unfolding next_session_id_value first_batch_id_def audit_session_def id_ok_def
    using range(1,2) by (auto simp del: power_numeral) (auto intro: less_trans)
qed

text \<open>C40. Two orchestrators that register with the registry within \<open>2^15\<close> calls of each other never
  use the same session id, so their sessions never meet in a worker's store, whatever else the
  registry does in between and however many sessions each opens.\<close>

theorem orchestrators_never_collide:
  assumes first: "reg_register r n now pr = (r1, Inr adm)" "orchestrator n"
    and between: "r2 = foldl reg_step r1 es" "length es < 2 ^ 15 - 1"
    and second: "reg_register r2 n' now' pr' = (r3, Inr adm')" "orchestrator n'"
  shows "\<exists>i j. orch_index adm = Some i \<and> orch_index adm' = Some j \<and>
    fst (next_session_id i k) \<noteq> fst (next_session_id j k')"
proof -
  have reg: "orch_index adm = Some (orch_prefix (orch_seq r)) \<and> orch_seq r' = orch_seq r + 1"
    if "reg_register r n now pr = (r', Inr adm)" "orchestrator n" for r n now pr r' adm
    using that by (auto simp: reg_register_def admit_def Let_def split: if_splits option.splits sum.splits prod.splits)
  have s1: "orch_index adm = Some (orch_prefix (orch_seq r))" "orch_seq r1 = orch_seq r + 1"
    using reg [OF first] by blast+
  have s2: "orch_index adm' = Some (orch_prefix (orch_seq r2))" using reg [OF second] by blast
  have "orch_seq r < orch_seq r2" "orch_seq r2 < orch_seq r + 2 ^ 15"
    using orch_seq_run [of r1 es] between s1(2) by auto
  then have ne: "orch_prefix (orch_seq r) \<noteq> orch_prefix (orch_seq r2)" by (rule prefix_distinct)
  have c: "0 \<le> k mod 0xFFFF + 1" "k mod 0xFFFF + 1 < 2 ^ 16" for k :: int
    using pos_mod_bound [of "0xFFFF" k] by simp_all
  have "orch_prefix s mod 2 ^ 15 = orch_prefix s" for s by (simp add: orch_prefix_mod)
  then have "fst (next_session_id (orch_prefix (orch_seq r)) k) \<noteq> fst (next_session_id (orch_prefix (orch_seq r2)) k')"
    using ne session_id_parts [OF c c] by (simp only: next_session_id_value) blast
  then show ?thesis using s1(1) s2 by blast
qed

lemma orchestrators_never_collide_witness:
  "\<exists>r1 adm r2 adm' i j. reg_register demo_registry ((demo_node ''o'' 0)\<lparr>orchestrator := True\<rparr>) 5 None = (r1, Inr adm) \<and>
     reg_register (foldl reg_step r1 [RAcquire (SInt 1)]) ((demo_node ''p'' 0)\<lparr>orchestrator := True\<rparr>) 6 None = (r2, Inr adm') \<and>
     orch_index adm = Some i \<and> orch_index adm' = Some j \<and>
     fst (next_session_id i 0) \<noteq> fst (next_session_id j 0)"
proof -
  let ?o = "(demo_node ''o'' 0)\<lparr>orchestrator := True\<rparr>" and ?p = "(demo_node ''p'' 0)\<lparr>orchestrator := True\<rparr>"
  obtain r1 adm where a: "reg_register demo_registry ?o 5 None = (r1, Inr adm)"
    by (simp add: reg_register_def register_orchestrator_def demo_registry_def mk_registry_def
        load_state_def demo_live_eq demo_node_def new_node_def demo_topology_def mk_topology_def Let_def split_beta)
  have f: "banned r1 = []" "allowlist r1 = None" "topo_fp (topo r1) = ''fp''"
    using a by (auto simp: reg_register_def register_orchestrator_def demo_registry_def mk_registry_def admit_def save_state_def
        load_state_def demo_live_eq demo_node_def new_node_def demo_topology_def mk_topology_def set_trusted_def Let_def split_beta)
  let ?r2 = "foldl reg_step r1 [RAcquire (SInt 1)]"
  have g: "banned ?r2 = []" "allowlist ?r2 = None" "topo_fp (topo ?r2) = ''fp''"
    using f by (auto simp: acquire_route_def Let_def split: sum.splits option.splits)
  obtain r2 adm' where b: "reg_register ?r2 ?p 6 None = (r2, Inr adm')"
    using g by (simp add: reg_register_def register_orchestrator_def demo_node_def new_node_def Let_def split_beta)
  have o: "orchestrator ?o" "orchestrator ?p" by simp_all
  show ?thesis using orchestrators_never_collide [OF a o(1) refl _ b o(2)] a b by auto
qed

end
