(* ===== verification/Generation.thy ===== *)
theory Generation
  imports Coordinator
begin

section \<open>Generation modes of the coordinator\<close>

text \<open>
  \<open>engine/coordinator.py\<close>: the connection pool, the target that speculative decoding runs on
  (\<open>SocketTarget\<close>), the prefix cache, the streaming and the speculative generation, and the
  speculation counters.  A slot of the pool owns its connections and its warm session, so one
  request sees the state below for itself.  Tokenizing and detokenizing are the model library's.
\<close>

subsection \<open>The connection pool\<close>

text \<open>\<open>cp_sem\<close> is the semaphore's value; connection sets are numbered in the order of creation,
  and \<open>cp_made\<close> is how many there are (\<open>all\<close>).\<close>

record conn_pool =
  cp_sem :: nat
  cp_idle :: "nat list"
  cp_made :: nat

definition new_pool :: "int \<Rightarrow> conn_pool" where
  "new_pool maxsize = \<lparr>cp_sem = nat (max 1 maxsize), cp_idle = [], cp_made = 0\<rparr>"

text \<open>Entering the scope; it blocks while the semaphore is at zero.\<close>

definition pool_lend :: "conn_pool \<Rightarrow> (nat \<times> conn_pool) option" where
  "pool_lend p =
     (if cp_sem p = 0 then None
      else if cp_idle p = [] then Some (cp_made p, p\<lparr>cp_sem := cp_sem p - 1, cp_made := cp_made p + 1\<rparr>)
      else Some (last (cp_idle p), p\<lparr>cp_sem := cp_sem p - 1, cp_idle := butlast (cp_idle p)\<rparr>))"

definition pool_return :: "nat \<Rightarrow> conn_pool \<Rightarrow> conn_pool" where
  "pool_return c p = p\<lparr>cp_idle := cp_idle p @ [c], cp_sem := cp_sem p + 1\<rparr>"

subsection \<open>Speculation counters\<close>

record spec_totals =
  st_calls :: nat
  st_rounds :: nat
  st_accepted :: nat
  st_proposed :: nat
  st_window :: "(nat \<times> nat) list"

text \<open>\<open>deque(maxlen=400)\<close> keeps the last 400.\<close>

definition window_size :: nat where "window_size = 400"

definition keep_last :: "nat \<Rightarrow> 'a list \<Rightarrow> 'a list" where
  "keep_last n xs = drop (length xs - n) xs"

definition no_totals :: spec_totals where
  "no_totals = \<lparr>st_calls = 0, st_rounds = 0, st_accepted = 0, st_proposed = 0, st_window = []\<rparr>"

definition call_counts :: spec_counts where
  "call_counts = \<lparr>sc_rounds = 0, sc_accepted = 0, sc_proposed = 0, sc_window = Some []\<rparr>"

definition merge_spec :: "spec_counts \<Rightarrow> spec_totals \<Rightarrow> spec_totals" where
  "merge_spec c t =
     t\<lparr>st_calls := st_calls t + 1, st_rounds := st_rounds t + sc_rounds c,
       st_accepted := st_accepted t + sc_accepted c, st_proposed := st_proposed t + sc_proposed c,
       st_window := keep_last window_size (st_window t @ (case sc_window c of None \<Rightarrow> [] | Some w \<Rightarrow> w))\<rparr>"

record spec_report =
  sr_calls :: nat
  sr_rounds :: nat
  sr_proposed :: nat
  sr_accepted :: nat
  sr_rate :: "rat option"
  sr_per_round :: "rat option"
  sr_recent :: "rat option"
  sr_recent_rounds :: nat

text \<open>\<open>round(x, d)\<close> to the nearest, ties to even; the quotient is exact here.\<close>

definition round_to :: "nat \<Rightarrow> rat \<Rightarrow> rat" where
  "round_to d x = of_int (round_half_even (10 ^ d * x)) / 10 ^ d"

definition spec_stats :: "spec_totals \<Rightarrow> spec_report" where
  "spec_stats t =
     (let wa = sum_list (map fst (st_window t)); wk = sum_list (map snd (st_window t))
      in \<lparr>sr_calls = st_calls t, sr_rounds = st_rounds t, sr_proposed = st_proposed t,
          sr_accepted = st_accepted t,
          sr_rate = (if st_proposed t = 0 then None
                     else Some (round_to 3 (of_nat (st_accepted t) / of_nat (st_proposed t)))),
          sr_per_round = (if st_rounds t = 0 then None
                     else Some (round_to 2 (of_nat (st_accepted t + st_rounds t) / of_nat (st_rounds t)))),
          sr_recent = (if wk = 0 then None else Some (round_to 3 (of_nat wa / of_nat wk))),
          sr_recent_rounds = length (st_window t)\<rparr>)"

subsection \<open>The target over the mesh\<close>

record ('e, 'p) socket_target =
  so_mesh :: "('e, 'p) mesh"
  so_kv :: nat
  so_hidden :: "tensor option"

text \<open>A prompt's prefill relays only what the session's caches do not hold yet.\<close>

definition socket_forward ::
  "'e mesh_env \<Rightarrow> ('e, 'l) coord \<Rightarrow> 'p route_provider \<Rightarrow> int \<Rightarrow> nat \<Rightarrow>
   ('e, 'p) socket_target \<Rightarrow> int list \<Rightarrow> nat \<Rightarrow> ('e, 'p) socket_target \<times> 'l list result" where
  "socket_forward E C P session prefilled s ids start_pos =
     (let (pos, toks) = (if start_pos = 0 \<and> 0 < prefilled then (prefilled, drop prefilled ids) else (start_pos, ids))
      in case relay E C P session (int pos) (co_embed C toks) (so_mesh s) of
           (m, Inl e) \<Rightarrow> (s\<lparr>so_mesh := m\<rparr>, Inl e)
         | (m, Inr hidden) \<Rightarrow>
             (\<lparr>so_mesh = m, so_kv = start_pos + length ids, so_hidden = Some hidden\<rparr>, Inr (co_rows C hidden)))"

definition socket_rollback ::
  "'e mesh_env \<Rightarrow> ('e, 'l) coord \<Rightarrow> int \<Rightarrow> ('e, 'p) socket_target \<Rightarrow> nat \<Rightarrow> ('e, 'p) socket_target \<times> unit result" where
  "socket_rollback E C session s len =
     (case kv_truncate_all E (co_key C) session len False (so_mesh s) of
        (m, Inl e) \<Rightarrow> (s\<lparr>so_mesh := m\<rparr>, Inl e)
      | (m, Inr _) \<Rightarrow> (s\<lparr>so_mesh := m, so_kv := len\<rparr>, Inr ()))"

text \<open>\<open>feats\<close>: the rows of a hidden state, for a draft that conditions on them.\<close>

definition socket_target ::
  "'e mesh_env \<Rightarrow> ('e, 'l) coord \<Rightarrow> 'p route_provider \<Rightarrow> (tensor \<Rightarrow> 'f list) \<Rightarrow> int \<Rightarrow> nat \<Rightarrow>
   (('e, 'p) socket_target, 'l, 'f) target_ops" where
  "socket_target E C P feats session prefilled =
     \<lparr>t_forward = socket_forward E C P session prefilled, t_kv_len = so_kv,
      t_rollback = socket_rollback E C session,
      t_hidden = (\<lambda>s. case so_hidden s of None \<Rightarrow> [] | Some h \<Rightarrow> feats h), t_argmax = co_argmax C\<rparr>"

definition open_target :: "('e, 'p) mesh \<Rightarrow> nat \<Rightarrow> ('e, 'p) socket_target" where
  "open_target m prefilled = \<lparr>so_mesh = m, so_kv = prefilled, so_hidden = None\<rparr>"

subsection \<open>The prefix cache\<close>

text \<open>A slot's state: the mesh it is connected to, the session counter, its warm session
  (the tokens it was left with, its id, how many of them its caches hold), and the counters.\<close>

record ('e, 'p) orch =
  or_mesh :: "('e, 'p) mesh"
  or_counter :: int
  or_pc_ids :: "int list option"
  or_pc_sid :: "int option"
  or_pc_len :: nat
  or_totals :: spec_totals

record 'f gen_config =
  gc_prefix :: int
  gc_cache :: bool
  gc_min :: int
  gc_feats :: "tensor \<Rightarrow> 'f list"
  gc_decode :: "int list \<Rightarrow> pystr"
  gc_has_draft :: bool

fun lcp_len :: "'a list \<Rightarrow> 'a list \<Rightarrow> nat" where
  "lcp_len (x # xs) (y # ys) = (if x = y then Suc (lcp_len xs ys) else 0)"
| "lcp_len _ _ = 0"

definition warm_route_ok :: "int \<Rightarrow> ('e, 'p) mesh \<Rightarrow> bool" where
  "warm_route_ok sid m =
     (case map_of (m_routes m) sid of
        None \<Rightarrow> False
      | Some rt \<Rightarrow> rt \<noteq> [] \<and> (\<forall>nd \<in> set rt. map_of (m_conns m) (node_id nd) \<noteq> None))"

definition fresh_session :: "'f gen_config \<Rightarrow> ('e, 'p) orch \<Rightarrow> ('e, 'p) orch \<times> int" where
  "fresh_session G s =
     (case next_session_id (gc_prefix G) (or_counter s) of (sid, n') \<Rightarrow> (s\<lparr>or_counter := n'\<rparr>, sid))"

definition invalidate_prefix ::
  "'e mesh_env \<Rightarrow> ('e, 'l) coord \<Rightarrow> 'p route_provider \<Rightarrow> ('e, 'p) orch \<Rightarrow> ('e, 'p) orch" where
  "invalidate_prefix E C P s =
     (let s1 = s\<lparr>or_pc_ids := None, or_pc_sid := None, or_pc_len := 0\<rparr>
      in case or_pc_sid s of
           None \<Rightarrow> s1
         | Some old \<Rightarrow> s1\<lparr>or_mesh := fst (reset_sessions E (co_key C) P old (or_mesh s))\<rparr>)"

definition begin_session ::
  "'e mesh_env \<Rightarrow> ('e, 'l) coord \<Rightarrow> 'p route_provider \<Rightarrow> 'f gen_config \<Rightarrow> int list \<Rightarrow> ('e, 'p) orch \<Rightarrow>
   ('e, 'p) orch \<times> int \<times> nat" where
  "begin_session E C P G ids s =
     (let common = min (case or_pc_ids s of None \<Rightarrow> 0 | Some old \<Rightarrow> int (lcp_len ids old)) (int (length ids) - 1);
          fresh = (\<lambda>s. case fresh_session G s of (s', sid) \<Rightarrow> (s', sid, 0))
      in case (if gc_cache G then or_pc_sid s else None) of
           None \<Rightarrow> fresh s
         | Some sid \<Rightarrow>
             if gc_min G \<le> common \<and> warm_route_ok sid (or_mesh s)
             then (case (if common < int (or_pc_len s)
                         then kv_truncate_all E (co_key C) sid (nat common) True (or_mesh s)
                         else (or_mesh s, Inr ())) of
                     (m, Inr _) \<Rightarrow> (s\<lparr>or_mesh := m, or_pc_len := nat common\<rparr>, sid, nat common)
                   | (m, Inl e) \<Rightarrow> fresh (invalidate_prefix E C P (s\<lparr>or_mesh := m\<rparr>)))
             else fresh s)"

definition end_session ::
  "'e mesh_env \<Rightarrow> ('e, 'l) coord \<Rightarrow> 'p route_provider \<Rightarrow> 'f gen_config \<Rightarrow> int \<Rightarrow> int list \<Rightarrow> ('e, 'p) orch \<Rightarrow>
   ('e, 'p) orch \<times> unit result" where
  "end_session E C P G sid ids s =
     (if \<not> gc_cache G
      then (case reset_sessions E (co_key C) P sid (or_mesh s) of (m, r) \<Rightarrow> (s\<lparr>or_mesh := m\<rparr>, r))
      else
        (case kv_truncate_all E (co_key C) sid (length ids) False (or_mesh s) of
           (m1, r1) \<Rightarrow>
             (case (case r1 of
                      Inl e \<Rightarrow> (m1, Inl e)
                    | Inr _ \<Rightarrow>
                        (case or_pc_sid s of
                           None \<Rightarrow> (m1, Inr ())
                         | Some old \<Rightarrow> if old = sid then (m1, Inr ()) else reset_sessions E (co_key C) P old m1)) of
                (m2, Inr _) \<Rightarrow>
                  (s\<lparr>or_mesh := m2, or_pc_ids := Some ids, or_pc_sid := Some sid, or_pc_len := length ids\<rparr>, Inr ())
              | (m2, Inl e) \<Rightarrow>
                  (let s1 = invalidate_prefix E C P (s\<lparr>or_mesh := m2\<rparr>)
                   in case reset_sessions E (co_key C) P sid (or_mesh s1) of (m3, r3) \<Rightarrow> (s1\<lparr>or_mesh := m3\<rparr>, r3)))))"

subsection \<open>Speculative generation\<close>

text \<open>The \<open>finally\<close> blocks run whatever happened before; an exception of theirs replaces it.\<close>

definition merge_call :: "spec_counts option \<Rightarrow> ('e, 'p) orch \<Rightarrow> ('e, 'p) orch" where
  "merge_call gc s = (case gc of None \<Rightarrow> s | Some c \<Rightarrow> s\<lparr>or_totals := merge_spec c (or_totals s)\<rparr>)"

definition generate_speculative ::
  "'e mesh_env \<Rightarrow> ('e, 'l) coord \<Rightarrow> 'p route_provider \<Rightarrow> 'f gen_config \<Rightarrow> ('d, 'f) draft_ops \<Rightarrow> 'd \<Rightarrow> nat \<Rightarrow>
   int list \<Rightarrow> nat \<Rightarrow> ('e, 'p) orch \<Rightarrow> ('e, 'p) orch \<times> int list result" where
  "generate_speculative E C P G D d K ids n_new s =
     (case fresh_session G s of
        (s1, sid) \<Rightarrow>
          (case speculative_greedy (socket_target E C P (gc_feats G) sid 0) D None K (open_target (or_mesh s1) 0)
                  d ids n_new (Some call_counts) of
             (t, gc, r) \<Rightarrow>
               (let s2 = merge_call gc (s1\<lparr>or_mesh := so_mesh t\<rparr>)
                in case reset_sessions E (co_key C) P sid (or_mesh s2) of
                     (m, Inl e) \<Rightarrow> (s2\<lparr>or_mesh := m\<rparr>, Inl e)
                   | (m, Inr _) \<Rightarrow> (s2\<lparr>or_mesh := m\<rparr>, bindE r (\<lambda>(out, x). Inr out)))))"

text \<open>What a stream of tokens yields as text: the part of the decoded text that is new, when it
  has become longer.\<close>

fun text_pieces :: "(int list \<Rightarrow> pystr) \<Rightarrow> int list \<Rightarrow> pystr \<Rightarrow> int list \<Rightarrow> pystr list" where
  "text_pieces dec produced prev [] = []"
| "text_pieces dec produced prev (t # ts) =
     (let text = dec (produced @ [t])
      in if length prev < length text
         then drop (length prev) text # text_pieces dec (produced @ [t]) text ts
         else text_pieces dec (produced @ [t]) prev ts)"

definition generate_speculative_stream ::
  "'e mesh_env \<Rightarrow> ('e, 'l) coord \<Rightarrow> 'p route_provider \<Rightarrow> 'f gen_config \<Rightarrow> ('d, 'f) draft_ops \<Rightarrow> 'd \<Rightarrow> nat \<Rightarrow>
   int list \<Rightarrow> nat \<Rightarrow> ('e, 'p) orch \<Rightarrow> ('e, 'p) orch \<times> pystr list \<times> unit result" where
  "generate_speculative_stream E C P G D d K ids n_new s =
     (if \<not> gc_has_draft G then (s, [], Inl RuntimeError)
      else
        (case begin_session E C P G ids s of
           (s1, sid, prefilled) \<Rightarrow>
             (case speculative_greedy_stream (socket_target E C P (gc_feats G) sid prefilled) D None K (co_eos C)
                     (open_target (or_mesh s1) prefilled) d ids n_new (Some call_counts) of
                (toks, t, gc, r) \<Rightarrow>
                  (case end_session E C P G sid ids (merge_call gc (s1\<lparr>or_mesh := so_mesh t\<rparr>)) of
                     (s2, Inl e) \<Rightarrow> (s2, text_pieces (gc_decode G) [] [] toks, Inl e)
                   | (s2, Inr _) \<Rightarrow> (s2, text_pieces (gc_decode G) [] [] toks, r)))))"

subsection \<open>Streaming greedy generation\<close>

text \<open>The loop of \<open>generate_stream\<close>: a token is yielded before it is relayed.\<close>

fun stream_steps ::
  "'e mesh_env \<Rightarrow> ('e, 'l) coord \<Rightarrow> 'p route_provider \<Rightarrow> bool \<Rightarrow> int \<Rightarrow> nat \<Rightarrow> int list \<times> int \<times> nat \<Rightarrow>
   ('e, 'p) mesh \<Rightarrow> ('e, 'p) mesh \<times> int list \<times> unit result" where
  "stream_steps E C P stop session 0 st m = (m, [], Inr ())"
| "stream_steps E C P stop session (Suc k) (seq_ids, nxt, cur) m =
     (if stop \<and> nxt \<in> co_eos C then (m, [], Inr ())
      else case relay_with_failover E C P session (int cur) (co_embed C [nxt]) seq_ids m of
             (m1, Inl e) \<Rightarrow> (m1, [nxt], Inl e)
           | (m1, Inr h) \<Rightarrow>
               (case next_token C h of
                  Inl e \<Rightarrow> (m1, [nxt], Inl e)
                | Inr t \<Rightarrow>
                    (case stream_steps E C P stop session k (seq_ids @ [nxt], t, cur + 1) m1 of
                       (m2, out, r) \<Rightarrow> (m2, nxt # out, r))))"

definition generate_stream ::
  "'e mesh_env \<Rightarrow> ('e, 'l) coord \<Rightarrow> 'p route_provider \<Rightarrow> 'f gen_config \<Rightarrow> bool \<Rightarrow> int list \<Rightarrow> nat \<Rightarrow>
   ('e, 'p) orch \<Rightarrow> ('e, 'p) orch \<times> pystr list \<times> unit result" where
  "generate_stream E C P G stop ids n_new s =
     (case fresh_session G s of
        (s1, sid) \<Rightarrow>
          (case (case relay_with_failover E C P sid 0 (co_embed C ids) [] (or_mesh s1) of
                   (m1, Inl e) \<Rightarrow> (m1, [], Inl e)
                 | (m1, Inr h) \<Rightarrow>
                     (case next_token C h of
                        Inl e \<Rightarrow> (m1, [], Inl e)
                      | Inr t \<Rightarrow> stream_steps E C P stop sid n_new (ids, t, length ids) m1)) of
             (m2, toks, r) \<Rightarrow>
               (case reset_sessions E (co_key C) P sid m2 of
                  (m3, r3) \<Rightarrow> (s1\<lparr>or_mesh := m3\<rparr>, text_pieces (gc_decode G) [] [] toks, bindE r3 (\<lambda>_. r)))))"

end
