(* ===== verification/Generation_Spec.thy ===== *)
theory Generation_Spec
  imports Generation Mesh_Spec
begin

section \<open>Speculation and the prefix cache change nothing\<close>

text \<open>
  \<open>SocketTarget\<close> keeps the contract of a decode target on a mesh that loses nothing, so
  speculative decoding over the mesh is greedy decoding of the whole model; a session kept warm
  between requests never changes what a request returns.  Also the connection pool and the text of
  a stream.
\<close>

subsection \<open>Control frames\<close>

lemma kv_frame_fields:
  assumes "kv_frame s op arg = Inr b"
  shows "length (take 9 b) = 9 \<and> be_value (slice 0 4 b) = s \<and> be_value (slice 4 1 b) = op \<and> be_value (slice 5 4 b) = arg"
proof -
  obtain x y z where p: "pack_uint 4 s = Inr x" "pack_uint 1 op = Inr y" "pack_uint 4 arg = Inr z" "b = x @ y @ z"
    using assms by (auto simp: kv_frame_def bindE_Inr_iff)
  have v: "length x = 4" "length y = 1" "length z = 4" "be_value x = s" "be_value y = op" "be_value z = arg"
    using unpack_pack_uint [OF p(1)] unpack_pack_uint [OF p(2)] unpack_pack_uint [OF p(3)]
    by (auto simp: unpack_uint_def split: if_splits)
  have "slice 0 4 b = x" "slice 4 1 b = y" "slice 5 4 b = z"
    using v(1-3) by (simp_all add: p(4) slice_def)
  then show ?thesis using v p(4) by simp
qed

text \<open>A frame that changes a session's cache by \<open>f\<close> and is not answered, at every worker whose cache
  of that session satisfies \<open>Q\<close>.\<close>

definition ctrl_frame :: "('e stage_kv option \<Rightarrow> bool) \<Rightarrow> ('e stage_kv \<Rightarrow> 'e stage_kv) \<Rightarrow> int \<Rightarrow> bytes \<Rightarrow> bool" where
  "ctrl_frame Q f session b \<longleftrightarrow> (\<forall>L now (w :: 'e worker). Q (map_of (w_sessions w) session) \<longrightarrow> (\<exists>w'. handle_frame L
       \<lparr>p_connect = (\<lambda>ep net. (net, Inl OSError)), p_exchange = (\<lambda>ep k t b net. (net, Inl OSError))\<rparr>
       now (msg_code KV_CTRL) b w [] () = (w', [], (), Silent) \<and>
     map_of (w_sessions w') = (map_of (w_sessions w))(session := map_option f (map_of (w_sessions w) session))))"

lemma kv_ctrl_frame:
  assumes "length (take 9 b) = 9" "be_value (slice 0 4 b) = s" "be_value (slice 4 1 b) = op" "be_value (slice 5 4 b) = arg"
    and "op \<noteq> KVOP_FREE" and "\<And>c. Q (Some c) \<Longrightarrow> kv_op op arg b c = (f c, Inr ())"
  shows "ctrl_frame Q f s b"
  unfolding ctrl_frame_def
proof (intro allI impI)
  fix L now and w :: "'a worker"
  assume Q: "Q (map_of (w_sessions w) s)"
  have m: "msg_of_code (msg_code KV_CTRL) = Some KV_CTRL" by (rule msg_of_code_of)
  have "\<exists>w'. handle_kv_ctrl now b w = (w', Silent) \<and>
      map_of (w_sessions w') = (map_of (w_sessions w))(s := map_option f (map_of (w_sessions w) s))"
    using Q assms by (auto simp: handle_kv_ctrl_def Let_def put_cache_def dict_simps split: option.split)
  then show "\<exists>w'. handle_frame L
       \<lparr>p_connect = (\<lambda>ep net. (net, Inl OSError)), p_exchange = (\<lambda>ep k t b net. (net, Inl OSError))\<rparr>
       now (msg_code KV_CTRL) b w [] () = (w', [], (), Silent) \<and>
     map_of (w_sessions w') = (map_of (w_sessions w))(s := map_option f (map_of (w_sessions w) s))"
    using m by (auto simp: handle_frame_def)
qed

lemma truncate_frame:
  assumes "id_ok session" and "len < 2 ^ 32"
  shows "\<exists>b. kv_frame session KVOP_TRUNCATE (int len) = Inr b \<and> ctrl_frame (\<lambda>_. True) (kv_truncate len) session b"
proof -
  obtain b where b: "kv_frame session KVOP_TRUNCATE (int len) = Inr b"
    using assms by (auto simp: kv_frame_def id_ok_def pack_uint_def KVOP_TRUNCATE_def)
  then show ?thesis
    using kv_ctrl_frame [of b session KVOP_TRUNCATE "int len" "\<lambda>_. True" "kv_truncate len"] kv_frame_fields [OF b]
    by (auto simp: kv_op_def KVOP_TRUNCATE_def KVOP_FREE_def KVOP_RESET_def KVOP_TREE_KEEP_def)
qed

lemma reset_frame:
  assumes "id_ok session"
  shows "\<exists>b. kv_frame session KVOP_RESET 0 = Inr b \<and> ctrl_frame (\<lambda>_. True) kv_reset session b"
proof -
  obtain b where b: "kv_frame session KVOP_RESET 0 = Inr b"
    using assms by (auto simp: kv_frame_def id_ok_def pack_uint_def KVOP_RESET_def)
  then show ?thesis
    using kv_ctrl_frame [of b session KVOP_RESET 0 "\<lambda>_. True" kv_reset] kv_frame_fields [OF b]
    by (auto simp: kv_op_def KVOP_TRUNCATE_def KVOP_FREE_def KVOP_RESET_def KVOP_TREE_KEEP_def)
qed

text \<open>The workers in \<open>A\<close> have changed one session's cache by \<open>f\<close>, nothing else has changed.\<close>

definition changed :: "('e stage_kv \<Rightarrow> 'e stage_kv) \<Rightarrow> int \<Rightarrow> string set \<Rightarrow> ('e, 'p) mesh \<Rightarrow> ('e, 'p) mesh \<Rightarrow> bool" where
  "changed f session A m m' \<longleftrightarrow> dom (map_of (m_workers m')) = dom (map_of (m_workers m)) \<and>
     m_conns m' = m_conns m \<and> m_keys m' = m_keys m \<and> m_routes m' = m_routes m \<and> m_local m' = m_local m \<and>
     m_prov m' = m_prov m \<and>
     (\<forall>nid w. map_of (m_workers m) nid = Some w \<longrightarrow> (\<exists>w'. map_of (m_workers m') nid = Some w' \<and>
        map_of (w_sessions w') = (if nid \<in> A then (map_of (w_sessions w))(session := map_option f (map_of (w_sessions w) session))
                                  else map_of (w_sessions w))))"

lemma changed_trans:
  assumes "changed f s A m m1" and "changed f s B m1 m2" and "A \<inter> B = {}"
  shows "changed f s (A \<union> B) m m2"
  unfolding changed_def
proof (intro conjI allI impI)
  fix nid w assume w: "map_of (m_workers m) nid = Some w"
  obtain w1 where w1: "map_of (m_workers m1) nid = Some w1"
      "map_of (w_sessions w1) = (if nid \<in> A then (map_of (w_sessions w))(s := map_option f (map_of (w_sessions w) s))
        else map_of (w_sessions w))"
    using assms(1) w unfolding changed_def by blast
  obtain w2 where w2: "map_of (m_workers m2) nid = Some w2"
      "map_of (w_sessions w2) = (if nid \<in> B then (map_of (w_sessions w1))(s := map_option f (map_of (w_sessions w1) s))
        else map_of (w_sessions w1))"
    using assms(2) w1(1) unfolding changed_def by blast
  show "\<exists>w'. map_of (m_workers m2) nid = Some w' \<and> map_of (w_sessions w') =
      (if nid \<in> A \<union> B then (map_of (w_sessions w))(s := map_option f (map_of (w_sessions w) s)) else map_of (w_sessions w))"
    using w1(2) w2 assms(3) by auto
qed (use assms in \<open>simp_all add: changed_def\<close>)

lemma send_ctrl:
  assumes q: "quiet_net E" and "conns_open m" and k: "keyed E cluster m" and nid: "nid \<in> dom (map_of (m_conns m))"
    and b: "ctrl_frame Q f session b"
    and Q: "\<forall>w. map_of (m_workers m) nid = Some w \<longrightarrow> Q (map_of (w_sessions w) session)"
    and s: "send_frame E nid (key_for cluster m nid) (msg_code KV_CTRL) b m = (m', r)"
  shows "r = Inr () \<and> changed f session {nid} m m'"
proof -
  obtain w where w: "map_of (m_workers m) nid = Some w" and key: "key_for cluster m nid = me_key E nid"
    using k nid by (auto simp: keyed_def)
  have c: "map_of (m_conns m) nid \<noteq> Some False" using assms(2) by (simp add: conns_open_def)
  obtain w' where h: "handle_frame (me_lib E nid)
        \<lparr>p_connect = (\<lambda>ep net. (net, Inl OSError)), p_exchange = (\<lambda>ep k t b net. (net, Inl OSError))\<rparr>
        (me_clock E (m_contacts m)) (msg_code KV_CTRL) b w [] () = (w', [], (), Silent)"
      "map_of (w_sessions w') = (map_of (w_sessions w))(session := map_option f (map_of (w_sessions w) session))"
    using b Q w unfolding ctrl_frame_def by blast
  have "(m', r) = ((tick_contact m)\<lparr>m_workers := dmod nid (\<lambda>_. w') (m_workers m)\<rparr>, Inr ())"
    using s q c key w h(1) by (simp add: send_frame_def quiet_net_def tick_contact_def Let_def)
  then show ?thesis using w h(2) by (auto simp: changed_def tick_contact_def dict_simps)
qed

lemma broadcast_ctrl:
  assumes q: "quiet_net E" and b: "ctrl_frame Q f session b"
  shows "conns_open m \<Longrightarrow> keyed E cluster m \<Longrightarrow> distinct nids \<Longrightarrow>
    \<forall>nid \<in> set nids. \<forall>w. map_of (m_workers m) nid = Some w \<longrightarrow> Q (map_of (w_sessions w) session) \<Longrightarrow> set nids \<subseteq> dom (map_of (m_conns m)) \<Longrightarrow>
    broadcast E cluster strict b nids m = (m', r) \<Longrightarrow> r = Inr () \<and> changed f session (set nids) m m'"
proof (induction nids arbitrary: m)
  case Nil
  then show ?case by (auto simp: changed_def)
next
  case (Cons nid nids)
  obtain m1 r1 where s: "send_frame E nid (key_for cluster m nid) (msg_code KV_CTRL) b m = (m1, r1)" by fastforce
  have one: "r1 = Inr ()" "changed f session {nid} m m1"
    using send_ctrl [OF q Cons.prems(1,2) _ b _ s] Cons.prems(4,5) by auto
  have st: "conns_open m1" "keyed E cluster m1" "set nids \<subseteq> dom (map_of (m_conns m1))"
    using one(2) Cons.prems by (auto simp: changed_def conns_open_def keyed_def key_for_def)
  have Q: "\<forall>nid \<in> set nids. \<forall>w. map_of (m_workers m1) nid = Some w \<longrightarrow> Q (map_of (w_sessions w) session)"
  proof (intro ballI allI impI)
    fix nid' w1 assume n: "nid' \<in> set nids" and w1: "map_of (m_workers m1) nid' = Some w1"
    then have "nid' \<noteq> nid" using Cons.prems(3) by auto
    moreover obtain w where w: "map_of (m_workers m) nid' = Some w" using one(2) w1 unfolding changed_def by blast
    ultimately have "map_of (w_sessions w1) = map_of (w_sessions w)"
      using one(2) w1 unfolding changed_def by (metis option.inject singletonD)
    then show "Q (map_of (w_sessions w1) session)" using Cons.prems(4) n w by auto
  qed
  have "broadcast E cluster strict b nids m1 = (m', r)" using Cons.prems(6) s one(1) by simp
  then have "r = Inr () \<and> changed f session (set nids) m1 m'"
    using Cons.IH [OF st(1,2) _ Q st(3)] Cons.prems(3) by simp
  then show ?case using changed_trans [OF one(2)] Cons.prems(3) by auto
qed

text \<open>A control frame to every connection.\<close>

lemma broadcast_packed_ctrl:
  assumes "quiet_net E" and "ctrl_frame Q f session b"
    and "conns_open m" and "keyed E cluster m"
    and "\<forall>nid \<in> dom (map_of (m_conns m)). \<forall>w. map_of (m_workers m) nid = Some w \<longrightarrow> Q (map_of (w_sessions w) session)"
    and "broadcast_packed E cluster strict (Inr b) m = (m', r)"
  shows "r = Inr () \<and> changed f session (dom (map_of (m_conns m))) m m'"
proof (cases "m_conns m = []")
  case True
  then show ?thesis using assms(6) by (auto simp: broadcast_packed_def changed_def)
next
  case False
  then have "broadcast E cluster strict b (map fst (m_conns m)) m = (m', r)"
    using assms(6) by (simp add: broadcast_packed_def Let_def)
  moreover have "set (map fst (m_conns m)) = dom (map_of (m_conns m))" by (simp add: dom_map_of_conv_image_fst)
  ultimately show ?thesis
    using broadcast_ctrl [OF assms(1-2), of m cluster "map fst (m_conns m)" strict m' r] assms(3-5) by (simp add: keyed_def)
qed

subsection \<open>Sessions under control frames\<close>

lemma list_all2_mono':
  assumes "\<And>x y. x \<in> set xs \<Longrightarrow> R x y \<Longrightarrow> S x y" and "list_all2 R xs ys"
  shows "list_all2 S xs ys"
  using assms(2,1) by (induction rule: list_all2_induct) auto

lemma changed_hold:
  assumes ch: "changed f session A m m'" and h: "hold session m rt cs" and A: "node_id ` set rt \<subseteq> A"
  shows "hold session m' rt (map f cs)"
  unfolding hold_def list_all2_map2
proof (rule list_all2_mono' [OF _ h [unfolded hold_def]])
  fix nd c assume nd: "nd \<in> set rt" and w: "\<exists>w. map_of (m_workers m) (node_id nd) = Some w \<and> map_of (w_sessions w) session = Some c"
  then show "\<exists>w. map_of (m_workers m') (node_id nd) = Some w \<and> map_of (w_sessions w) session = Some (f c)"
  proof -
    obtain w0 where w0: "map_of (m_workers m) (node_id nd) = Some w0" "map_of (w_sessions w0) session = Some c"
      using w by blast
    obtain w' where "map_of (m_workers m') (node_id nd) = Some w'" "map_of (w_sessions w') =
        (if node_id nd \<in> A then (map_of (w_sessions w0))(session := map_option f (map_of (w_sessions w0) session))
         else map_of (w_sessions w0))"
      using ch w0(1) unfolding changed_def by blast
    then show ?thesis using w0(2) nd A by auto
  qed
qed

lemma changed_other_hold:
  assumes ch: "changed f old A m m'" and h: "hold session m rt cs" and ne: "old \<noteq> session"
  shows "hold session m' rt cs"
  unfolding hold_def
proof (rule list_all2_mono' [OF _ h [unfolded hold_def]])
  fix nd c assume "\<exists>w. map_of (m_workers m) (node_id nd) = Some w \<and> map_of (w_sessions w) session = Some c"
  then obtain w where w: "map_of (m_workers m) (node_id nd) = Some w" "map_of (w_sessions w) session = Some c" by blast
  obtain w' where "map_of (m_workers m') (node_id nd) = Some w'" "map_of (w_sessions w') =
      (if node_id nd \<in> A then (map_of (w_sessions w))(old := map_option f (map_of (w_sessions w) old)) else map_of (w_sessions w))"
    using ch w(1) unfolding changed_def by blast
  then show "\<exists>w. map_of (m_workers m') (node_id nd) = Some w \<and> map_of (w_sessions w) session = Some c"
    using w(2) ne by auto
qed

lemma changed_steady:
  assumes "changed f session A m m'" and "conns_open m" and "keyed E cluster m"
  shows "conns_open m' \<and> keyed E cluster m'"
  using assms by (auto simp: changed_def conns_open_def keyed_def key_for_def)

lemma split_run_truncate_parts:
  assumes "stages_wf n sts" and "m \<le> length ctx" and "lcs @ cs = snd (split_run M n sts ctx)"
  shows "map (kv_truncate m) lcs @ map (kv_truncate m) cs = snd (split_run M n sts (take m ctx))"
  using split_run_truncate [OF assms(1,2), of M] assms(3) by (metis map_append)

context route_source
begin

lemma truncate_session:
  fixes E :: "'e mesh_env"
  assumes good: "\<forall>rt. good rt \<longrightarrow> serves E (co_key C) M n enc lay ll names rt"
    and session: "id_ok session" and mesh: "mesh_ok names m" and calm: "calm E m"
    and key: "keyed E (co_key C) m" and att: "attached session m"
    and inn: "in_session bound M n lay ll good session ctx m" and len: "len \<le> length ctx" "len < 2 ^ 32"
    and t: "kv_truncate_all E (co_key C) session len strict m = (m', r)"
  shows "r = Inr () \<and> mesh_ok names m' \<and> calm E m' \<and> keyed E (co_key C) m' \<and> attached session m' \<and>
    in_session bound M n lay ll good session (take len ctx) m'"
proof -
  let ?m0 = "m\<lparr>m_local := dmod session (kv_truncate len) (m_local m)\<rparr>"
  obtain b where b: "kv_frame session KVOP_TRUNCATE (int len) = Inr b"
      "ctrl_frame (\<lambda>_. True) (kv_truncate len :: 'e stage_kv \<Rightarrow> 'e stage_kv) session b"
    using truncate_frame [OF session len(2)] by blast
  have q: "quiet_net E" "conns_open ?m0" "keyed E (co_key C) ?m0"
    using calm key by (auto simp: calm_def conns_open_def keyed_def key_for_def)
  have bp: "broadcast_packed E (co_key C) strict (Inr b) ?m0 = (m', r)"
    using t b(1) by (simp add: kv_truncate_all_def)
  have ch: "r = Inr ()" "changed (kv_truncate len) session (dom (map_of (m_conns ?m0))) ?m0 m'"
    using broadcast_packed_ctrl [OF q(1) b(2) q(2,3) _ bp] by auto
  obtain rt lcs cs where u: "uses_route bound session m rt" "good rt" "local_holds session ll m lcs" "hold session m rt cs"
      "lcs @ cs = snd (split_run M n (all_stages ll lay rt) ctx)"
    using inn unfolding in_session_def by blast
  have wf: "stages_wf n (all_stages ll lay rt)" using serves_wf good u(2) by blast
  obtain rt1 where r1: "map_of (m_routes m) session = Some rt1" "node_id ` set rt1 \<subseteq> dom (map_of (m_conns m))"
    using att unfolding attached_def by blast
  then have pin: "node_id ` set rt \<subseteq> dom (map_of (m_conns m))" using u(1) by (auto simp: uses_route_def split: option.splits)
  have same: "m_conns m' = m_conns m" "m_routes m' = m_routes m" "m_prov m' = m_prov m"
      "m_local m' = dmod session (kv_truncate len) (m_local m)" "dom (map_of (m_workers m')) = dom (map_of (m_workers m))"
    using ch(2) by (simp_all add: changed_def)
  have "hold session m' rt (map (kv_truncate len) cs)"
    using changed_hold [OF ch(2)] u(4) pin by (simp add: hold_def)
  moreover have "local_holds session ll m' (map (kv_truncate len) lcs)"
    using u(3) same(4) by (auto simp: local_holds_def dict_simps split: option.splits)
  moreover have "uses_route bound session m' rt" using u(1) same by (auto simp: uses_route_def split: option.splits)
  ultimately have "in_session bound M n lay ll good session (take len ctx) m'"
    using u(2) split_run_truncate_parts [OF wf len(1) u(5)] unfolding in_session_def by blast
  moreover have "keyed E (co_key C) m'" using changed_steady [OF ch(2) q(2,3)] by simp
  ultimately show ?thesis
    using ch(1) mesh calm att same by (auto simp: mesh_ok_def calm_def conns_open_def attached_def)
qed

text \<open>Freeing another session leaves this one as it is.\<close>

lemma reset_steady:
  fixes E :: "'e mesh_env"
  assumes old: "id_ok old" and mesh: "mesh_ok names m" and calm: "calm E m" and key: "keyed E cluster m"
    and t: "reset_sessions E cluster P old m = (m', r)"
  shows "r = Inr () \<and> mesh_ok names m' \<and> calm E m' \<and> keyed E cluster m' \<and> m_conns m' = m_conns m \<and>
    (session \<noteq> old \<longrightarrow> (attached session m \<longrightarrow> attached session m') \<and>
       (in_session bound M n lay ll good session ctx m \<longrightarrow> in_session bound M n lay ll good session ctx m'))"
proof -
  let ?m0 = "m\<lparr>m_local := dpop old (m_local m), m_routes := dpop old (m_routes m), m_prov := rp_release P (m_prov m) old\<rparr>"
  obtain b where b: "kv_frame old KVOP_RESET 0 = Inr b" "ctrl_frame (\<lambda>_. True) (kv_reset :: 'e stage_kv \<Rightarrow> 'e stage_kv) old b"
    using reset_frame [OF old] by blast
  have inv: "Inv (m_prov m)" using mesh by (simp add: mesh_ok_def)
  have q: "quiet_net E" "conns_open ?m0" "keyed E cluster ?m0"
    using calm key by (auto simp: calm_def conns_open_def keyed_def key_for_def)
  have bp: "broadcast_packed E cluster False (Inr b) ?m0 = (m', r)"
    using t b(1) by (simp add: reset_sessions_def)
  have ch: "r = Inr ()" "changed kv_reset old (dom (map_of (m_conns ?m0))) ?m0 m'"
    using broadcast_packed_ctrl [OF q(1) b(2) q(2,3) _ bp] by auto
  have same: "m_conns m' = m_conns m" "m_routes m' = dpop old (m_routes m)" "m_prov m' = rp_release P (m_prov m) old"
      "m_local m' = dpop old (m_local m)" "dom (map_of (m_workers m')) = dom (map_of (m_workers m))"
    using ch(2) by (simp_all add: changed_def)
  have mesh': "mesh_ok names m'" using mesh same release [OF inv] by (simp add: mesh_ok_def)
  have steady: "calm E m'" "keyed E cluster m'"
    using calm same release_live [OF inv] changed_steady [OF ch(2) q(2,3)] by (auto simp: calm_def)
  have att: "attached session m \<longrightarrow> attached session m'" if "session \<noteq> old"
    using that same by (auto simp: attached_def dict_simps)
  have inn: "in_session bound M n lay ll good session ctx m'"
    if ne: "session \<noteq> old" and h: "in_session bound M n lay ll good session ctx m"
  proof -
    obtain rt lcs cs where u: "uses_route bound session m rt" "good rt" "local_holds session ll m lcs" "hold session m rt cs"
        "lcs @ cs = snd (split_run M n (all_stages ll lay rt) ctx)"
      using h unfolding in_session_def by blast
    have "hold session ?m0 rt cs" using u(4) by (simp add: hold_def)
    then have "hold session m' rt cs" using changed_other_hold [OF ch(2)] ne by auto
    moreover have "local_holds session ll m' lcs"
      using u(3) same(4) ne by (auto simp: local_holds_def dict_simps split: option.splits)
    moreover have "uses_route bound session m' rt"
      using u(1) same ne release_bound [OF _ inv, of _ session rt old] by (auto simp: uses_route_def dict_simps split: option.splits)
    ultimately show ?thesis using u(2,5) unfolding in_session_def by blast
  qed
  show ?thesis using ch(1) mesh' steady same(1) att inn by auto
qed

end

subsection \<open>The target over the mesh keeps the target's contract\<close>

text \<open>The mesh loses nothing and every connection is usable, the system serves the model, and the
  session's caches are those of \<open>ctx\<close>.\<close>

definition mesh_steady ::
  "'e mesh_env \<Rightarrow> ('e, 'l) coord \<Rightarrow> ('e, 'h, 'l) model_ops \<Rightarrow> nat \<Rightarrow> ('h list \<Rightarrow> tensor) \<Rightarrow> (string \<Rightarrow> nat list) \<Rightarrow>
   nat list option \<Rightarrow> ('e, registry) mesh \<Rightarrow> bool" where
  "mesh_steady E C M n enc lay ll m \<longleftrightarrow> mesh_ready E C M n enc lay ll m \<and> quiet_net E \<and> conns_open m \<and>
     coverage_ok (topo (m_prov m)) \<and> keyed E (co_key C) m"

definition warm ::
  "'e mesh_env \<Rightarrow> ('e, 'l) coord \<Rightarrow> ('e, 'h, 'l) model_ops \<Rightarrow> nat \<Rightarrow> ('h list \<Rightarrow> tensor) \<Rightarrow> (string \<Rightarrow> nat list) \<Rightarrow>
   nat list option \<Rightarrow> int \<Rightarrow> int list \<Rightarrow> ('e, registry) mesh \<Rightarrow> bool" where
  "warm E C M n enc lay ll session ctx m \<longleftrightarrow> attached session m \<and>
     in_session (Some session_bound) M n lay ll (serves E (co_key C) M n enc lay ll (dom (map_of (m_workers m)))) session ctx m"

definition mesh_holds where
  "mesh_holds E C M n enc lay ll session s ctx \<longleftrightarrow> id_ok session \<and> length ctx < 2 ^ 32 \<and>
     mesh_steady E C M n enc lay ll (so_mesh s) \<and> warm E C M n enc lay ll session ctx (so_mesh s) \<and> so_kv s = length ctx"

definition mesh_fresh where
  "mesh_fresh E C M n enc lay ll session pre s prompt \<longleftrightarrow> id_ok session \<and>
     mesh_steady E C M n enc lay ll (so_mesh s) \<and>
     (0 < pre \<longrightarrow> pre < length prompt \<and> warm E C M n enc lay ll session (take pre prompt) (so_mesh s))"

lemma steady_parts:
  "mesh_steady E C M n enc lay ll m \<Longrightarrow> dom (map_of (m_workers m)) = w \<Longrightarrow>
     system_ok E C M n enc ll \<and> mesh_inv E (co_key C) M n enc lay ll w m \<and>
     route_source.calm (\<lambda>r. coverage_ok (topo r)) E m \<and> keyed E (co_key C) m"
  using mesh_ready_ok [of E C M n enc lay ll m]
  by (simp add: mesh_steady_def mesh_ready_def lp.calm_def)

lemma steady_from_parts:
  "system_ok E C M n enc ll \<Longrightarrow> mesh_inv E (co_key C) M n enc lay ll w m \<Longrightarrow>
     route_source.calm (\<lambda>r. coverage_ok (topo r)) E m \<Longrightarrow> keyed E (co_key C) m \<Longrightarrow>
     mesh_steady E C M n enc lay ll m \<and> dom (map_of (m_workers m)) = w"
  by (auto simp: mesh_steady_def mesh_ready_def lp.calm_def lp.mesh_ok_def)

lemma serves_triv: "\<forall>rt. serves E key M n enc lay ll w rt \<longrightarrow> serves E key M n enc lay ll w rt"
  by blast

text \<open>One relay in the steady state.\<close>

lemma steady_relay:
  assumes st: "mesh_steady E C M n enc lay ll m" and session: "id_ok session"
    and ids: "ids \<noteq> []" "length ctx + length ids < 2 ^ 32"
    and ctx: "ctx = [] \<or> warm E C M n enc lay ll session ctx m"
  shows "\<exists>m' h. relay E C local_provider session (int (length ctx)) (co_embed C ids) m = (m', Inr h) \<and>
    mesh_steady E C M n enc lay ll m' \<and> warm E C M n enc lay ll session (ctx @ ids) m' \<and>
    map (co_argmax C) (co_rows C h) = map (\<lambda>j. whole_next M n (ctx @ take (Suc j) ids)) [0 ..< length ids]"
proof -
  let ?w = "dom (map_of (m_workers m))"
  note p = steady_parts [OF st refl]
  have sys: "system_ok E C M n enc ll" and mesh: "mesh_inv E (co_key C) M n enc lay ll ?w m"
    and calm: "route_source.calm (\<lambda>r. coverage_ok (topo r)) E m" and key: "keyed E (co_key C) m"
    using p by blast+
  have len: "length ids < 2 ^ 32" "id_ok (int (length ctx))" using ids(2) by (auto simp: id_ok_def)
  have inn: "ctx = [] \<or> in_session (Some session_bound) M n lay ll (serves E (co_key C) M n enc lay ll ?w) session ctx m"
    and att: "ctx = [] \<or> attached session m"
    using ctx by (auto simp: warm_def)
  obtain m' r where r: "relay E C local_provider session (int (length ctx)) (co_embed C ids) m = (m', r)" by fastforce
  note rl = lp.relay_session [OF sys mesh serves_triv ids(1) len(1) session len(2) inn r]
  obtain h where h: "r = Inr h" using rl calm by blast
  have "mesh_steady E C M n enc lay ll m' \<and> dom (map_of (m_workers m')) = ?w"
    using rl h calm key att by (intro steady_from_parts [OF sys]) auto
  then show ?thesis using rl h key att r by (auto simp: warm_def)
qed

lemma steady_truncate:
  assumes st: "mesh_steady E C M n enc lay ll m" and session: "id_ok session"
    and w: "warm E C M n enc lay ll session ctx m" and len: "len \<le> length ctx" "len < 2 ^ 32"
  shows "\<exists>m'. kv_truncate_all E (co_key C) session len strict m = (m', Inr ()) \<and>
    mesh_steady E C M n enc lay ll m' \<and> warm E C M n enc lay ll session (take len ctx) m'"
proof -
  let ?w = "dom (map_of (m_workers m))"
  have sys: "system_ok E C M n enc ll" and mesh: "mesh_inv E (co_key C) M n enc lay ll ?w m"
    and calm: "route_source.calm (\<lambda>r. coverage_ok (topo r)) E m" and key: "keyed E (co_key C) m"
    using steady_parts [OF st refl] by blast+
  have inn: "in_session (Some session_bound) M n lay ll (serves E (co_key C) M n enc lay ll ?w) session ctx m"
    and att: "attached session m"
    using w by (auto simp: warm_def)
  obtain m' r where r: "kv_truncate_all E (co_key C) session len strict m = (m', r)" by fastforce
  note t = lp.truncate_session [OF serves_triv session mesh calm key att inn len r]
  have "mesh_steady E C M n enc lay ll m' \<and> dom (map_of (m_workers m')) = ?w"
    using t by (intro steady_from_parts [OF sys]) auto
  then show ?thesis using t r by (auto simp: warm_def)
qed

lemma steady_reset:
  assumes st: "mesh_steady E C M n enc lay ll m" and old: "id_ok old"
  shows "\<exists>m'. reset_sessions E (co_key C) local_provider old m = (m', Inr ()) \<and> mesh_steady E C M n enc lay ll m' \<and>
    (session \<noteq> old \<and> warm E C M n enc lay ll session ctx m \<longrightarrow> warm E C M n enc lay ll session ctx m')"
proof -
  let ?w = "dom (map_of (m_workers m))"
  have sys: "system_ok E C M n enc ll" and mesh: "mesh_inv E (co_key C) M n enc lay ll ?w m"
    and calm: "route_source.calm (\<lambda>r. coverage_ok (topo r)) E m" and key: "keyed E (co_key C) m"
    using steady_parts [OF st refl] by blast+
  obtain m' r where r: "reset_sessions E (co_key C) local_provider old m = (m', r)" by fastforce
  have t: "r = Inr () \<and> mesh_inv E (co_key C) M n enc lay ll ?w m' \<and> route_source.calm (\<lambda>r. coverage_ok (topo r)) E m' \<and>
      keyed E (co_key C) m' \<and> (session \<noteq> old \<longrightarrow> (attached session m \<longrightarrow> attached session m') \<and>
      (in_session (Some session_bound) M n lay ll (serves E (co_key C) M n enc lay ll ?w) session ctx m \<longrightarrow>
       in_session (Some session_bound) M n lay ll (serves E (co_key C) M n enc lay ll ?w) session ctx m'))"
    using lp.reset_steady [OF old mesh calm key r] by blast
  have "mesh_steady E C M n enc lay ll m' \<and> dom (map_of (m_workers m')) = ?w"
    using t by (intro steady_from_parts [OF sys]) auto
  then show ?thesis using t r by (auto simp: warm_def)
qed

interpretation mt: decode_target "socket_target E C local_provider feats session pre"
  "mesh_holds E C M n enc lay ll session" "mesh_fresh E C M n enc lay ll session pre" "whole_next M n" "\<lambda>k. k < 2 ^ 32"
  for E C feats session pre M n enc lay ll
proof (unfold_locales, goal_cases)
  case (1 s prompt)
  let ?pre = "take pre prompt" and ?suf = "drop pre prompt"
  have st: "mesh_steady E C M n enc lay ll (so_mesh s)" and id: "id_ok session"
    and pre: "0 < pre \<longrightarrow> pre < length prompt \<and> warm E C M n enc lay ll session ?pre (so_mesh s)"
    using 1(1) by (auto simp: mesh_fresh_def)
  have ne: "?suf \<noteq> []" using pre 1(2) by (cases "pre = 0") auto
  have len: "length ?pre + length ?suf < 2 ^ 32" using 1(3) by simp
  have w: "?pre = [] \<or> warm E C M n enc lay ll session ?pre (so_mesh s)" using pre by auto
  obtain m' h where r: "relay E C local_provider session (int (length ?pre)) (co_embed C ?suf) (so_mesh s) = (m', Inr h)"
      "mesh_steady E C M n enc lay ll m'" "warm E C M n enc lay ll session (?pre @ ?suf) m'"
      "map (co_argmax C) (co_rows C h) = map (\<lambda>j. whole_next M n (?pre @ take (Suc j) ?suf)) [0 ..< length ?suf]"
    using steady_relay [OF st id ne len w] by blast
  have lp: "int (length ?pre) = int pre \<or> pre = 0" using pre by auto
  have rows: "co_rows C h \<noteq> []" "co_argmax C (last (co_rows C h)) = whole_next M n prompt"
  proof -
    have "map (co_argmax C) (co_rows C h) \<noteq> []" using r(4) ne by simp
    then show nz: "co_rows C h \<noteq> []" by simp
    have "co_argmax C (last (co_rows C h)) = last (map (co_argmax C) (co_rows C h))" using nz by (simp add: last_map)
    also obtain k where k: "length ?suf = Suc k" using ne by (cases ?suf) auto
    have "last (map (co_argmax C) (co_rows C h)) = whole_next M n (?pre @ take (Suc k) ?suf)"
      unfolding r(4) k by simp
    also have "\<dots> = whole_next M n prompt" unfolding k [symmetric] by simp
    finally show "co_argmax C (last (co_rows C h)) = whole_next M n prompt" .
  qed
  let ?s = "\<lparr>so_mesh = m', so_kv = length prompt, so_hidden = Some h\<rparr>"
  have "socket_forward E C local_provider session pre s prompt 0 = (?s, Inr (co_rows C h))"
    using r(1) lp pre by (cases "pre = 0") (auto simp: socket_forward_def)
  moreover have "mesh_holds E C M n enc lay ll session ?s prompt"
    using r(2,3) id 1(3) by (simp add: mesh_holds_def)
  ultimately show ?case using rows by (simp add: socket_target_def)
next
  case (2 s ctx ids)
  have st: "mesh_steady E C M n enc lay ll (so_mesh s)" and id: "id_ok session"
    and w: "warm E C M n enc lay ll session ctx (so_mesh s)"
    using 2(1) by (auto simp: mesh_holds_def)
  obtain m' h where r: "relay E C local_provider session (int (length ctx)) (co_embed C ids) (so_mesh s) = (m', Inr h)"
      "mesh_steady E C M n enc lay ll m'" "warm E C M n enc lay ll session (ctx @ ids) m'"
      "map (co_argmax C) (co_rows C h) = map (\<lambda>j. whole_next M n (ctx @ take (Suc j) ids)) [0 ..< length ids]"
    using steady_relay [OF st id 2(3,4) disjI2 [OF w]] by blast
  let ?s = "\<lparr>so_mesh = m', so_kv = length ctx + length ids, so_hidden = Some h\<rparr>"
  have "socket_forward E C local_provider session pre s ids (length ctx) = (?s, Inr (co_rows C h))"
    using r(1) 2(2) by (simp add: socket_forward_def)
  moreover have "mesh_holds E C M n enc lay ll session ?s (ctx @ ids)"
    using r(2,3) id 2(4) by (simp add: mesh_holds_def)
  ultimately show ?case using r(4) by (simp add: socket_target_def)
next
  case (3 s ctx k)
  have st: "mesh_steady E C M n enc lay ll (so_mesh s)" and id: "id_ok session" and len: "length ctx < 2 ^ 32"
    and w: "warm E C M n enc lay ll session ctx (so_mesh s)"
    using 3(1) by (auto simp: mesh_holds_def)
  obtain m' where "kv_truncate_all E (co_key C) session k False (so_mesh s) = (m', Inr ())"
      "mesh_steady E C M n enc lay ll m'" "warm E C M n enc lay ll session (take k ctx) m'"
    using steady_truncate [OF st id w 3(3), of False] 3(3) len by auto
  then show ?case using id len 3(3) by (simp add: socket_target_def socket_rollback_def mesh_holds_def)
next
  case (4 s ctx)
  then show ?case by (simp add: mesh_holds_def socket_target_def)
next
  case (5 a b)
  then show ?case by simp
qed

subsection \<open>Speculative generation\<close>

lemma fresh_session_ok:
  assumes "fresh_session G s = (s1, sid)"
  shows "id_ok sid \<and> or_mesh s1 = or_mesh s \<and> or_pc_ids s1 = or_pc_ids s \<and> or_pc_sid s1 = or_pc_sid s \<and>
    or_pc_len s1 = or_pc_len s \<and> or_totals s1 = or_totals s"
  using assms next_session_id_ok [of "gc_prefix G" "or_counter s"]
  by (auto simp: fresh_session_def split: prod.splits)

text \<open>A hidden state has a row for every position, as the logits have.\<close>

definition feats_ok :: "('e, 'l) coord \<Rightarrow> (tensor \<Rightarrow> 'f list) \<Rightarrow> bool" where
  "feats_ok C feats \<longleftrightarrow> (\<forall>h. length (feats h) = length (co_rows C h))"

text \<open>With a warm prefix the target keeps the hidden states of the suffix only.\<close>

interpretation mth: hidden_target "socket_target E C local_provider feats session pre"
  "mesh_holds E C M n enc lay ll session" "mesh_fresh E C M n enc lay ll session pre" "whole_next M n" "\<lambda>k. k < 2 ^ 32"
  "pre = 0 \<and> feats_ok C feats"
  for E C feats session pre M n enc lay ll
proof (unfold_locales, goal_cases)
  case (1 s prompt s' rows)
  have id: "id_ok session" and st: "mesh_steady E C M n enc lay ll (so_mesh s)" using 1(2) by (simp_all add: mesh_fresh_def)
  obtain m' h where r: "relay E C local_provider session (int (length ([] :: int list))) (co_embed C prompt) (so_mesh s) = (m', Inr h)"
      "map (co_argmax C) (co_rows C h) = map (\<lambda>j. whole_next M n ([] @ take (Suc j) prompt)) [0 ..< length prompt]"
    using steady_relay [OF st id 1(3), of "[]"] 1(4) by auto
  have "length (map (co_argmax C) (co_rows C h)) = length prompt" unfolding r(2) by simp
  moreover have "s' = \<lparr>so_mesh = m', so_kv = length prompt, so_hidden = Some h\<rparr>"
    using 1(1,5) r(1) by (simp add: socket_target_def socket_forward_def)
  ultimately show ?case using 1(1) by (simp add: socket_target_def feats_ok_def)
next
  case (2 s ids p s' rows)
  then show ?case
    by (auto simp: socket_target_def socket_forward_def feats_ok_def Let_def split: prod.splits sum.splits)
qed

lemma mesh_speculation:
  assumes "feature_draft D synced startable strict" and "strict \<longrightarrow> pre = 0 \<and> feats_ok C feats"
  shows "speculation (socket_target E C local_provider feats session pre)
    (mesh_holds E C M n enc lay ll session) (mesh_fresh E C M n enc lay ll session pre) (whole_next M n) (\<lambda>k. k < 2 ^ 32)
    (pre = 0 \<and> feats_ok C feats) D synced startable strict"
  by (intro speculation.intro speculation_axioms.intro mth.hidden_target_axioms) (use assms in simp_all)

lemma merge_call_mesh [simp]: "or_mesh (merge_call gc s) = or_mesh s" "or_pc_sid (merge_call gc s) = or_pc_sid s"
  "or_pc_ids (merge_call gc s) = or_pc_ids s" "or_pc_len (merge_call gc s) = or_pc_len s"
  "merge_call gc s\<lparr>or_mesh := m\<rparr> = merge_call gc (s\<lparr>or_mesh := m\<rparr>)"
  by (simp_all add: merge_call_def split: option.split)

lemma mesh_speculation_spec:
  assumes draft: "feature_draft D synced startable strict" "startable d" "strict \<longrightarrow> feats_ok C (gc_feats G)"
    and steady: "mesh_steady E C M n enc lay ll (or_mesh s)"
    and ids: "ids \<noteq> []" "length ids + n_new + K < 2 ^ 32"
  shows "\<exists>s'. generate_speculative E C local_provider G D d K ids n_new s =
      (s', Inr (greedy (whole_next M n) ids n_new)) \<and> mesh_steady E C M n enc lay ll (or_mesh s')"
proof -
  obtain s1 sid where f: "fresh_session G s = (s1, sid)" by fastforce
  note fs = fresh_session_ok [OF f]
  have exact: "strict \<longrightarrow> (0 :: nat) = 0 \<and> feats_ok C (gc_feats G)" using draft(3) by simp
  note sp = mesh_speculation [OF draft(1) exact, of E sid M n enc lay ll]
  have fr: "mesh_fresh E C M n enc lay ll sid 0 (open_target (or_mesh s1) 0) ids"
    using fs steady by (simp add: mesh_fresh_def open_target_def)
  obtain st lc gc where r: "speculative_greedy (socket_target E C local_provider (gc_feats G) sid 0) D None K
        (open_target (or_mesh s1) 0) d ids n_new (Some call_counts) =
      (sp_target st, gc, Inr (greedy (whole_next M n) ids n_new, st, lc))"
      "speculation.kept (mesh_holds E C M n enc lay ll sid) ids (sp_target st)"
    using speculation.spec_correct [OF sp fr draft(2) ids] by blast
  have m: "mesh_steady E C M n enc lay ll (so_mesh (sp_target st))"
    using r(2) by (auto simp: speculation.kept_def [OF sp] mesh_holds_def)
  obtain m' where z: "reset_sessions E (co_key C) local_provider sid (so_mesh (sp_target st)) = (m', Inr ())"
      "mesh_steady E C M n enc lay ll m'"
    using steady_reset [OF m, of sid] fs by blast
  show ?thesis using f r(1) z by (simp add: generate_speculative_def Let_def)
qed

text \<open>C2. Speculative generation over a mesh that loses nothing returns, for any draft that proposes
  \<open>K\<close> tokens and can be rolled back, also one that conditions on the target's hidden states, exactly the \<open>n_new\<close> tokens of plain greedy decoding
  with the whole model in one place; the mesh is as usable afterwards as before.\<close>

theorem mesh_speculation_is_greedy:
  assumes draft: "feature_draft D synced startable strict" "startable d" "strict \<longrightarrow> feats_ok C (gc_feats G)"
    and steady: "mesh_steady E C M n enc lay ll (or_mesh s)"
    and ids: "ids \<noteq> []" "length ids + n_new + K < 2 ^ 32"
  shows "\<exists>s'. generate_speculative E C local_provider G D d K ids n_new s =
      (s', Inr (greedy (whole_next M n) ids n_new)) \<and> mesh_steady E C M n enc lay ll (or_mesh s')"
  using mesh_speculation_spec [OF assms] .

subsection \<open>The prefix cache\<close>

lemma lcp_len_le: "lcp_len xs ys \<le> length xs \<and> lcp_len xs ys \<le> length ys"
  by (induction xs ys rule: lcp_len.induct) auto

lemma lcp_len_take: "k \<le> lcp_len xs ys \<Longrightarrow> take k xs = take k ys"
proof (induction xs ys arbitrary: k rule: lcp_len.induct)
  case (1 x xs y ys)
  then show ?case by (cases k) (auto split: if_splits)
qed auto

text \<open>A slot at rest: its mesh is usable, and its warm session, if any, holds exactly the tokens it
  is recorded with.\<close>

definition slot_ok where
  "slot_ok E C M n enc lay ll G s \<longleftrightarrow> mesh_steady E C M n enc lay ll (or_mesh s) \<and>
     (case or_pc_sid s of
        None \<Rightarrow> True
      | Some sid \<Rightarrow> gc_cache G \<and> id_ok sid \<and> (\<exists>old. or_pc_ids s = Some old \<and> or_pc_len s = length old \<and>
          length old < 2 ^ 32 \<and> warm E C M n enc lay ll sid old (or_mesh s)))"

lemma begin_session_ok:
  assumes ok: "slot_ok E C M n enc lay ll G s" and ids: "ids \<noteq> []"
    and b: "begin_session E C local_provider G ids s = (s1, sid, pre)"
  shows "id_ok sid \<and> mesh_fresh E C M n enc lay ll sid pre (open_target (or_mesh s1) pre) ids \<and>
    (\<forall>old. or_pc_sid s1 = Some old \<longrightarrow> gc_cache G \<and> id_ok old)"
proof -
  let ?common = "min (case or_pc_ids s of None \<Rightarrow> 0 | Some old \<Rightarrow> int (lcp_len ids old)) (int (length ids) - 1)"
  have steady: "mesh_steady E C M n enc lay ll (or_mesh s)" using ok by (simp add: slot_ok_def)
  have pc: "\<forall>old. or_pc_sid s = Some old \<longrightarrow> gc_cache G \<and> id_ok old" using ok by (auto simp: slot_ok_def)
  have fresh: "?thesis" if "(case fresh_session G s of (s', sid) \<Rightarrow> (s', sid, 0)) = (s1, sid, pre)"
  proof -
    obtain s' sid' where f: "fresh_session G s = (s', sid')" by fastforce
    then have "s1 = s'" "sid = sid'" "pre = 0" using that by simp_all
    then show ?thesis using fresh_session_ok [OF f] steady pc by (simp add: mesh_fresh_def open_target_def)
  qed
  show ?thesis
  proof (cases "if gc_cache G then or_pc_sid s else None")
    case None
    then show ?thesis using b fresh by (simp add: begin_session_def Let_def)
  next
    case (Some old)
    then have some: "or_pc_sid s = Some old" by (simp split: if_splits)
    show ?thesis
    proof (cases "gc_min G \<le> ?common \<and> warm_route_ok old (or_mesh s)")
      case False
      then have "(case fresh_session G s of (s', sid) \<Rightarrow> (s', sid, 0)) = (s1, sid, pre)"
        using b Some by (auto simp: begin_session_def Let_def)
      then show ?thesis by (rule fresh)
    next
      case True
      obtain toks where toks: "or_pc_ids s = Some toks" "or_pc_len s = length toks" "length toks < 2 ^ 32"
          "warm E C M n enc lay ll old toks (or_mesh s)" and id: "id_ok old"
        using ok some by (auto simp: slot_ok_def)
      let ?k = "nat ?common"
      have common: "?common = int ?k" "?k \<le> lcp_len ids toks" "?k < length ids"
      proof -
        have l: "1 \<le> length ids" using ids by (cases ids) auto
        have c: "?common = min (int (lcp_len ids toks)) (int (length ids) - 1)" by (simp add: toks(1))
        show "?common = int ?k" "?k \<le> lcp_len ids toks" "?k < length ids" unfolding c using l by linarith+
      qed
      have le: "?k \<le> length toks" using common(2) lcp_len_le [of ids toks] by simp
      have same: "take ?k toks = take ?k ids" using lcp_len_take [OF common(2)] by simp
      have out: "mesh_fresh E C M n enc lay ll old ?k (open_target m ?k) ids"
        if "mesh_steady E C M n enc lay ll m" "warm E C M n enc lay ll old (take ?k toks) m" for m
        using that common(3) id same by (simp add: mesh_fresh_def open_target_def)
      show ?thesis
      proof (cases "?common < int (or_pc_len s)")
        case lt: True
        obtain m' where t: "kv_truncate_all E (co_key C) old ?k True (or_mesh s) = (m', Inr ())"
            "mesh_steady E C M n enc lay ll m'" "warm E C M n enc lay ll old (take ?k toks) m'"
          using steady_truncate [OF steady id toks(4) le, of True] le toks(3) by auto
        have "begin_session E C local_provider G ids s = (s\<lparr>or_mesh := m', or_pc_len := ?k\<rparr>, old, ?k)"
          unfolding begin_session_def Let_def
          by (simp only: Some True lt t(1) option.case if_True simp_thms prod.case sum.case)
        then have "(s1, sid, pre) = (s\<lparr>or_mesh := m', or_pc_len := ?k\<rparr>, old, ?k)" unfolding b .
        then show ?thesis using out [OF t(2,3)] id some pc by simp
      next
        case ge: False
        then have "take ?k toks = toks" using common(1) toks(2) by simp
        moreover have "begin_session E C local_provider G ids s = (s\<lparr>or_mesh := or_mesh s, or_pc_len := ?k\<rparr>, old, ?k)"
          unfolding begin_session_def Let_def
          by (simp only: Some True ge option.case if_True if_False simp_thms prod.case sum.case)
        then have "(s1, sid, pre) = (s\<lparr>or_mesh := or_mesh s, or_pc_len := ?k\<rparr>, old, ?k)" unfolding b .
        ultimately show ?thesis using out [of "or_mesh s"] steady toks(4) id some pc by simp
      qed
    qed
  qed
qed

lemma end_session_ok:
  assumes held: "mesh_holds E C M n enc lay ll sid t (ids @ ctx)" and mesh: "or_mesh s = so_mesh t"
    and ids: "ids \<noteq> []" and pc: "\<forall>old. or_pc_sid s = Some old \<longrightarrow> gc_cache G \<and> id_ok old"
  shows "\<exists>s'. end_session E C local_provider G sid ids s = (s', Inr ()) \<and> slot_ok E C M n enc lay ll G s'"
proof -
  have st: "mesh_steady E C M n enc lay ll (or_mesh s)" and id: "id_ok sid" and len: "length (ids @ ctx) < 2 ^ 32"
    and w: "warm E C M n enc lay ll sid (ids @ ctx) (or_mesh s)"
    using held mesh by (auto simp: mesh_holds_def)
  show ?thesis
  proof (cases "gc_cache G")
    case False
    then have "or_pc_sid s = None" using pc by (cases "or_pc_sid s") auto
    moreover obtain m' where "reset_sessions E (co_key C) local_provider sid (or_mesh s) = (m', Inr ())"
        "mesh_steady E C M n enc lay ll m'"
      using steady_reset [OF st id] by blast
    ultimately show ?thesis using False by (simp add: end_session_def slot_ok_def)
  next
    case True
    obtain m1 where t: "kv_truncate_all E (co_key C) sid (length ids) False (or_mesh s) = (m1, Inr ())"
        "mesh_steady E C M n enc lay ll m1" "warm E C M n enc lay ll sid ids m1"
      using steady_truncate [OF st id w, of "length ids" False] len by auto
    have "\<exists>m2. (case or_pc_sid s of None \<Rightarrow> (m1, Inr ())
          | Some old \<Rightarrow> if old = sid then (m1, Inr ()) else reset_sessions E (co_key C) local_provider old m1) = (m2, Inr ()) \<and>
        mesh_steady E C M n enc lay ll m2 \<and> warm E C M n enc lay ll sid ids m2"
    proof (cases "or_pc_sid s")
      case None
      then show ?thesis using t by simp
    next
      case (Some old)
      then have "id_ok old" using pc by blast
      then show ?thesis using Some t steady_reset [OF t(2), of old sid ids] by (cases "old = sid") auto
    qed
    then show ?thesis using True t(1) id len by (auto simp: end_session_def slot_ok_def)
  qed
qed

lemma slot_stream:
  assumes draft: "feature_draft D synced startable strict" "startable d" "gc_has_draft G"
    and cold: "strict \<longrightarrow> \<not> gc_cache G \<and> feats_ok C (gc_feats G)"
    and ok: "slot_ok E C M n enc lay ll G s" and ids: "ids \<noteq> []" "length ids + n_new + K < 2 ^ 32"
  shows "\<exists>s'. generate_speculative_stream E C local_provider G D d K ids n_new s =
      (s', text_pieces (gc_decode G) [] [] (until_eos (co_eos C) (greedy (whole_next M n) ids (max 1 n_new))), Inr ()) \<and>
    slot_ok E C M n enc lay ll G s'"
proof -
  obtain s1 sid pre where b: "begin_session E C local_provider G ids s = (s1, sid, pre)" by (metis surj_pair)
  note bs = begin_session_ok [OF ok ids(1) b]
  have "\<not> gc_cache G \<Longrightarrow> pre = 0" using b by (auto simp: begin_session_def split: prod.splits)
  then have exact: "strict \<longrightarrow> pre = 0 \<and> feats_ok C (gc_feats G)" using cold by blast
  note sp = mesh_speculation [OF draft(1) exact, of E sid M n enc lay ll]
  have fr: "mesh_fresh E C M n enc lay ll sid pre (open_target (or_mesh s1) pre) ids" using bs by blast
  let ?out = "until_eos (co_eos C) (greedy (whole_next M n) ids (max 1 n_new))"
  obtain t gc where r: "speculative_greedy_stream (socket_target E C local_provider (gc_feats G) sid pre) D None K
        (co_eos C) (open_target (or_mesh s1) pre) d ids n_new (Some call_counts) = (?out, t, gc, Inr ())"
      "speculation.kept (mesh_holds E C M n enc lay ll sid) ids t"
    using speculation.stream_correct [OF sp fr draft(2) ids] by blast
  obtain ctx where held: "mesh_holds E C M n enc lay ll sid t (ids @ ctx)"
    using r(2) by (auto simp: speculation.kept_def [OF sp])
  let ?s2 = "merge_call gc (s1\<lparr>or_mesh := so_mesh t\<rparr>)"
  have pc: "\<forall>old. or_pc_sid ?s2 = Some old \<longrightarrow> gc_cache G \<and> id_ok old" using bs by simp
  obtain s3 where e: "end_session E C local_provider G sid ids ?s2 = (s3, Inr ())" "slot_ok E C M n enc lay ll G s3"
    using end_session_ok [OF held _ ids(1) pc] by auto
  show ?thesis using draft(3) b r(1) e by (simp add: generate_speculative_stream_def)
qed

text \<open>The requests of one slot, one after the other: each with its prompt and its limit.\<close>

fun serve_requests where
  "serve_requests E C P G D d K [] s = (s, [])"
| "serve_requests E C P G D d K ((ids, n_new) # reqs) s =
     (case generate_speculative_stream E C P G D d K ids n_new s of
        (s1, out) \<Rightarrow> (case serve_requests E C P G D d K reqs s1 of (s2, outs) \<Rightarrow> (s2, out # outs)))"

text \<open>C3. The prefix cache is invisible: whatever prompts a slot serves one after the other, with the
  cache on or off and for any minimum prefix, each request streams exactly the text it would stream
  alone, the pieces of the greedy continuation of its own prompt up to the first end token, and
  ends without an error, on a mesh that loses nothing.  A draft that conditions on hidden states needs
  the cache off.\<close>

theorem prefix_cache_transparent:
  assumes draft: "feature_draft D synced startable strict" "startable d" "gc_has_draft G"
    and cold: "strict \<longrightarrow> \<not> gc_cache G \<and> feats_ok C (gc_feats G)"
    and steady: "mesh_steady E C M n enc lay ll (or_mesh s)" and new: "or_pc_sid s = None"
    and reqs: "\<forall>(ids, n_new) \<in> set reqs. ids \<noteq> [] \<and> length ids + n_new + K < 2 ^ 32"
  shows "snd (serve_requests E C local_provider G D d K reqs s) =
    map (\<lambda>(ids, n_new). (text_pieces (gc_decode G) [] []
      (until_eos (co_eos C) (greedy (whole_next M n) ids (max 1 n_new))), Inr ())) reqs"
proof -
  have "slot_ok E C M n enc lay ll G s" using steady new by (simp add: slot_ok_def)
  then show ?thesis using reqs
  proof (induction reqs arbitrary: s)
    case Nil
    then show ?case by simp
  next
    case (Cons rq reqs)
    obtain ids n_new where rq: "rq = (ids, n_new)" by fastforce
    have ids: "ids \<noteq> []" "length ids + n_new + K < 2 ^ 32" using Cons.prems(2) rq by auto
    obtain s' where g: "generate_speculative_stream E C local_provider G D d K ids n_new s =
        (s', text_pieces (gc_decode G) [] [] (until_eos (co_eos C) (greedy (whole_next M n) ids (max 1 n_new))), Inr ())"
        "slot_ok E C M n enc lay ll G s'"
      using slot_stream [OF draft cold Cons.prems(1) ids] by blast
    show ?case using Cons.IH [OF g(2)] Cons.prems(2) g(1) rq by (simp add: split_beta)
  qed
qed

subsection \<open>A small deployment, served speculatively\<close>

definition demo_orch :: "(8 word, registry) orch" where
  "demo_orch = \<lparr>or_mesh = demo_mesh, or_counter = 0, or_pc_ids = None, or_pc_sid = None, or_pc_len = 0,
     or_totals = no_totals\<rparr>"

definition demo_gen :: "8 word gen_config" where
  "demo_gen = \<lparr>gc_prefix = 0, gc_cache = True, gc_min = 1, gc_feats = t_raw, gc_decode = map nat, gc_has_draft = True\<rparr>"

lemma demo_steady: "mesh_steady demo_env demo_coord byte_model 4 byte_enc demo_lay None (or_mesh demo_orch)"
proof -
  have "keyed demo_env (co_key demo_coord) demo_mesh" by (simp add: keyed_def demo_mesh_def)
  then show ?thesis using demo_ready demo_calm by (simp add: mesh_steady_def demo_orch_def)
qed

lemma demo_draft_start: "0 < (1 :: nat) \<and> [[]] = replicate 1 ([] :: 8 word list)"
  by simp

lemma mesh_speculation_is_greedy_witness:
  "\<exists>s'. generate_speculative demo_env demo_coord local_provider demo_gen (greedy_draft byte_model 1) [[]] 2 [3, 1] 5 demo_orch =
     (s', Inr (greedy (whole_next byte_model 4) [3, 1] 5))"
  using mesh_speculation_is_greedy [OF gdraft.feature_draft_axioms [where M = byte_model] demo_draft_start _ demo_steady,
      where ids = "[3, 1]" and n_new = 5 and K = 2 and G = demo_gen]
  by (simp del: greedy.simps) blast

lemma prefix_cache_transparent_witness:
  "snd (serve_requests demo_env demo_coord local_provider demo_gen (greedy_draft byte_model 1) [[]] 2
     [([3, 1, 4, 1], 5), ([3, 1, 4, 2], 3), ([3, 1], 2)] demo_orch) =
   map (\<lambda>(ids, n_new). (text_pieces (map nat) [] []
      (until_eos {0} (greedy (whole_next byte_model 4) ids (max 1 n_new))), Inr ()))
     [([3, 1, 4, 1], 5), ([3, 1, 4, 2], 3), ([3, 1], 2)]"
proof -
  have g: "gc_has_draft demo_gen" "or_pc_sid demo_orch = None" "gc_decode demo_gen = map nat" "co_eos demo_coord = {0}"
    by (simp_all add: demo_gen_def demo_orch_def demo_coord_def)
  show ?thesis
    using prefix_cache_transparent [OF gdraft.feature_draft_axioms [where M = byte_model] demo_draft_start g(1) _ demo_steady g(2),
        where K = 2 and reqs = "[([3, 1, 4, 1], 5), ([3, 1, 4, 2], 3), ([3, 1], 2)]"] g(3,4)
    by (simp del: greedy.simps serve_requests.simps)
qed

subsection \<open>The text of a stream\<close>

text \<open>The pieces that a stream yields spell the decoded text, when decoding more tokens only ever
  extends the text; each piece is then the text that its token adds.\<close>

theorem stream_spells_text:
  assumes ext: "\<And>ts t. take (length (dec ts)) (dec (ts @ [t])) = dec ts" and start: "dec [] = []"
  shows "concat (text_pieces dec [] [] ts) = dec ts"
proof -
  have "concat (text_pieces dec pre (dec pre) ts) = drop (length (dec pre)) (dec (pre @ ts)) \<and>
      take (length (dec pre)) (dec (pre @ ts)) = dec pre" for pre
  proof (induction ts arbitrary: pre)
    case Nil
    then show ?case by simp
  next
    case (Cons t ts)
    let ?a = "dec pre" and ?b = "dec (pre @ [t])" and ?c = "dec (pre @ t # ts)"
    have IH: "concat (text_pieces dec (pre @ [t]) ?b ts) = drop (length ?b) ?c" "take (length ?b) ?c = ?b"
      using Cons.IH [of "pre @ [t]"] by simp_all
    have ab: "take (length ?a) ?b = ?a" by (rule ext)
    then have le: "length ?a \<le> length ?b" by (metis length_take min.cobounded1)
    have "take (length ?a) ?c = ?a" using ab IH(2) le by (metis min.absorb1 take_take)
    moreover have "concat (text_pieces dec pre ?a (t # ts)) = drop (length ?a) ?c"
    proof (cases "length ?a < length ?b")
      case True
      have "?c = ?b @ drop (length ?b) ?c" using IH(2) by (metis append_take_drop_id)
      then have "drop (length ?a) ?c = drop (length ?a) ?b @ drop (length ?b) ?c"
        using le by (metis drop_append diff_is_0_eq drop0)
      then show ?thesis using True IH(1) by (simp add: Let_def)
    next
      case False
      then have "?b = ?a" using ab by (metis linorder_not_less take_all)
      then show ?thesis using False IH(1) by (simp add: Let_def)
    qed
    ultimately show ?case by blast
  qed
  from this [of "[]"] show ?thesis using start by simp
qed

lemma stream_spells_text_witness:
  "concat (text_pieces (map nat) [] [] [72, 105]) = [72, 105]"
  using stream_spells_text [of "map nat" "[72, 105]"] by simp

text \<open>A decoder that shows half a character as the replacement character until its other half has
  come does not have that property: the stream keeps the replacement character.\<close>

lemma stream_keeps_replacement:
  "\<exists>dec. dec [] = [] \<and> dec [1] = [0xFFFD] \<and> dec [1, 2] = [0xE9] \<and>
     concat (text_pieces dec [] [] [1, 2]) = [0xFFFD] \<and> concat (text_pieces dec [] [] [1, 2]) \<noteq> dec [1, 2]"
proof -
  let ?dec = "\<lambda>ts :: int list. if ts = [] then [] else if ts = [1] then [0xFFFD] else [0xE9 :: nat]"
  show ?thesis by (rule exI [of _ ?dec]) (simp add: Let_def)
qed

subsection \<open>Streaming is generating\<close>

lemma stream_steps_greedy:
  "case greedy_steps E C P session k st m of
     (m', Inr (out, st')) \<Rightarrow> stream_steps E C P True session k st m = (m', out, Inr ())
   | (m', Inl e) \<Rightarrow> \<exists>out. stream_steps E C P True session k st m = (m', out, Inl e)"
proof (induction k arbitrary: st m)
  case 0
  obtain a b c where "st = (a, b, c)" by (metis surj_pair)
  then show ?case by simp
next
  case (Suc k)
  obtain seq nxt cur where st: "st = (seq, nxt, cur)" by (metis surj_pair)
  obtain m1 r1 where f: "relay_with_failover E C P session (int cur) (co_embed C [nxt]) seq m = (m1, r1)" by fastforce
  show ?case
  proof (cases "nxt \<in> co_eos C")
    case True
    then show ?thesis by (simp add: st)
  next
    case False
    show ?thesis
    proof (cases r1)
      case (Inl e)
      then show ?thesis using f False by (simp add: st)
    next
      case (Inr h)
      show ?thesis
      proof (cases "next_token C h")
        case (Inl e)
        then show ?thesis using f False Inr by (simp add: st)
      next
        case t: (Inr t)
        show ?thesis
          using Suc.IH [of "(seq @ [nxt], t, cur + 1)" m1] f False Inr t
          by (auto simp: st split: prod.splits sum.splits)
      qed
    qed
  qed
qed

text \<open>A streamed generation does to the mesh exactly what a collected one does, whatever fails: it
  ends in the same state and in the same way, and when it ends well its pieces are the text of the
  collected tokens.\<close>

theorem streaming_equals_generating:
  "case fresh_session G s of (s1, sid) \<Rightarrow>
     (case generate_state E C P sid ids n_new False (or_mesh s1) of
        (m', Inr (out, st)) \<Rightarrow> generate_stream E C P G True ids n_new s =
          (s1\<lparr>or_mesh := m'\<rparr>, text_pieces (gc_decode G) [] [] out, Inr ())
      | (m', Inl e) \<Rightarrow> \<exists>pieces. generate_stream E C P G True ids n_new s = (s1\<lparr>or_mesh := m'\<rparr>, pieces, Inl e))"
proof -
  obtain s1 sid where f: "fresh_session G s = (s1, sid)" by fastforce
  obtain m1 r1 where r: "relay_with_failover E C P sid 0 (co_embed C ids) [] (or_mesh s1) = (m1, r1)" by fastforce
  show ?thesis
  proof (cases r1)
    case (Inl e)
    then show ?thesis using f r
      by (cases "reset_sessions E (co_key C) P sid m1")
        (auto simp: generate_stream_def generate_state_def finish_session_def split: sum.splits)
  next
    case (Inr h)
    show ?thesis
    proof (cases "next_token C h")
      case e: (Inl e)
      then show ?thesis using f r Inr
        by (cases "reset_sessions E (co_key C) P sid m1")
          (auto simp: generate_stream_def generate_state_def finish_session_def split: sum.splits)
    next
      case t: (Inr t)
      obtain m2 r2 where g: "greedy_steps E C P sid n_new (ids, t, length ids) m1 = (m2, r2)" by fastforce
      obtain m3 r3 where z: "reset_sessions E (co_key C) P sid m2 = (m3, r3)" by fastforce
      show ?thesis
        using f r Inr t g z stream_steps_greedy [of E C P sid n_new "(ids, t, length ids)" m1]
        by (cases r2; cases r3) (auto simp: generate_stream_def generate_state_def finish_session_def split: prod.splits)
    qed
  qed
qed

subsection \<open>The connection pool\<close>

text \<open>What requests do to the pool: each lent set is given back once.\<close>

inductive pool_run :: "int \<Rightarrow> conn_pool \<Rightarrow> nat list \<Rightarrow> bool" for maxsize where
  start: "pool_run maxsize (new_pool maxsize) []"
| lend: "pool_run maxsize p out \<Longrightarrow> pool_lend p = Some (c, p') \<Longrightarrow> pool_run maxsize p' (c # out)"
| give: "pool_run maxsize p out \<Longrightarrow> c \<in> set out \<Longrightarrow> pool_run maxsize (pool_return c p) (remove1 c out)"

text \<open>However requests come and go, no connection set is lent to two of them, at most
  \<open>maxsize\<close> (at least one) are out at a time, as many sets are ever made, and every set is either out
  or idle: none is lost.\<close>

theorem pool_isolates_requests:
  assumes "pool_run maxsize p out"
  shows "distinct (out @ cp_idle p) \<and> set (out @ cp_idle p) = {0 ..< cp_made p} \<and>
    length out + cp_sem p = nat (max 1 maxsize) \<and> cp_made p \<le> nat (max 1 maxsize)"
  using assms
proof (induction rule: pool_run.induct)
  case start
  then show ?case by (simp add: new_pool_def)
next
  case (lend p out c p')
  have IH: "distinct out" "distinct (cp_idle p)" "set out \<inter> set (cp_idle p) = {}"
      "set out \<union> set (cp_idle p) = {0 ..< cp_made p}" "length out + cp_sem p = nat (max 1 maxsize)" "cp_made p \<le> nat (max 1 maxsize)"
    using lend.IH by auto
  have size: "length out + length (cp_idle p) = cp_made p"
    using distinct_card [of "out @ cp_idle p"] IH(1-4) by simp
  have sem: "0 < cp_sem p" using lend.hyps(2) by (simp add: pool_lend_def split: if_splits)
  show ?case
  proof (cases "cp_idle p = []")
    case True
    then have p': "c = cp_made p" "p' = p\<lparr>cp_sem := cp_sem p - 1, cp_made := cp_made p + 1\<rparr>"
      using lend.hyps(2) sem by (auto simp: pool_lend_def)
    have "set out = {0 ..< cp_made p}" using IH(4) True by simp
    then show ?thesis using IH(1,5,6) size sem True by (simp add: p' atLeast0_lessThan_Suc)
  next
    case False
    then obtain xs x where idle: "cp_idle p = xs @ [x]" by (metis rev_exhaust)
    then have p': "c = x" "p' = p\<lparr>cp_sem := cp_sem p - 1, cp_idle := xs\<rparr>"
      using lend.hyps(2) sem by (auto simp: pool_lend_def)
    have "distinct (x # out @ xs)" "set (x # out @ xs) = {0 ..< cp_made p}" using IH(1-4) idle by auto
    then show ?thesis using IH(5,6) sem by (simp add: p')
  qed
next
  case (give p out c)
  have IH: "distinct out" "distinct (cp_idle p)" "set out \<inter> set (cp_idle p) = {}"
      "set out \<union> set (cp_idle p) = {0 ..< cp_made p}" "length out + cp_sem p = nat (max 1 maxsize)" "cp_made p \<le> nat (max 1 maxsize)"
    using give.IH by auto
  have l: "length (remove1 c out) + 1 = length out"
    using give.hyps(2) by (simp add: length_remove1) (metis Suc_pred length_pos_if_in_set)
  have r: "set (remove1 c out) = set out - {c}" "distinct (remove1 c out)" using IH(1) by simp_all
  have d: "distinct (remove1 c out @ cp_idle p @ [c])" "set (remove1 c out @ cp_idle p @ [c]) = {0 ..< cp_made p}"
    using IH(2-4) r give.hyps(2) by auto
  show ?case using d IH(5,6) l by (simp add: pool_return_def)
qed

lemma pool_isolates_requests_witness:
  "pool_run 2 (pool_return 1 \<lparr>cp_sem = 0, cp_idle = [], cp_made = 2\<rparr>) [0] \<and>
   distinct ([0] @ cp_idle (pool_return 1 \<lparr>cp_sem = 0, cp_idle = [], cp_made = 2\<rparr>))"
proof -
  have "pool_run 2 \<lparr>cp_sem = 1, cp_idle = [], cp_made = 1\<rparr> [0]"
    by (rule pool_run.lend [OF pool_run.start]) (simp add: pool_lend_def new_pool_def)
  then have "pool_run 2 \<lparr>cp_sem = 0, cp_idle = [], cp_made = 2\<rparr> [1, 0]"
    by (rule pool_run.lend) (simp add: pool_lend_def)
  from pool_run.give [OF this, of 1] have r: "pool_run 2 (pool_return 1 \<lparr>cp_sem = 0, cp_idle = [], cp_made = 2\<rparr>) [0]"
    by simp
  show ?thesis using pool_isolates_requests [OF r] r by blast
qed

end
