(* ===== verification/Tree_Decode.thy ===== *)
theory Tree_Decode
  imports Generation
begin

section \<open>Tree drafting\<close>

text \<open>
  \<open>engine/coordinator.py\<close>: building a draft tree (node by node with a heap, or level by level
  with a beam), verifying it in one relay under the tree mask, accepting the longest branch the
  target agrees with, compacting every cache to that branch, and the streaming loop around it.
  Scores are an ordered type with the draft model's addition (floats in the program, without
  not-a-number); the draft's forward passes and \<open>topk\<close> are arguments.
\<close>

subsection \<open>Draft trees\<close>

record draft_node =
  dn_tok :: int
  dn_parent :: int
  dn_depth :: nat

text \<open>\<open>td_top\<close>: the \<open>branch\<close> best next tokens after a context, with their log probabilities.
  \<open>td_prefill\<close> and \<open>td_step\<close> run the draft with its cache: a prefix, or the frontier's tokens at
  one position under a mask of attended cache slots; they give each row's best next tokens.\<close>

record ('c, 'k) tree_draft =
  td_zero :: 'c
  td_add :: "'c \<Rightarrow> 'c \<Rightarrow> 'c"
  td_top :: "int list \<Rightarrow> nat \<Rightarrow> (int \<times> 'c) list result"
  td_prefill :: "int list \<Rightarrow> nat \<Rightarrow> ('k \<times> (int \<times> 'c) list) result"
  td_len :: "'k \<Rightarrow> nat"
  td_step :: "'k \<Rightarrow> int list \<Rightarrow> nat \<Rightarrow> bool list list \<Rightarrow> nat \<Rightarrow> ('k \<times> (int \<times> 'c) list list) result"

record 'c open_node = draft_node +
  on_suffix :: "int list"
  on_score :: 'c

subsection \<open>Best first\<close>

text \<open>The heap holds \<open>(-score, index)\<close>; the least is the best score, the oldest node among equals.\<close>

definition before :: "('c :: linorder) \<times> nat \<Rightarrow> 'c \<times> nat \<Rightarrow> bool" where
  "before x y \<longleftrightarrow> fst y < fst x \<or> (fst x = fst y \<and> snd x \<le> snd y)"

fun heap_top :: "(('c :: linorder) \<times> nat) list \<Rightarrow> 'c \<times> nat" where
  "heap_top [] = undefined"
| "heap_top [x] = x"
| "heap_top (x # y # ys) = (let b = heap_top (y # ys) in if before x b then x else b)"

text \<open>The children of node \<open>idx\<close>, until the tree is full.\<close>

fun add_children ::
  "('c \<Rightarrow> 'c \<Rightarrow> 'c) \<Rightarrow> nat \<Rightarrow> nat \<Rightarrow> 'c open_node \<Rightarrow> (int \<times> 'c) list \<Rightarrow> 'c open_node list \<Rightarrow> ('c \<times> nat) list \<Rightarrow>
   'c open_node list \<times> ('c \<times> nat) list" where
  "add_children addc n_nodes idx nd [] tree fr = (tree, fr)"
| "add_children addc n_nodes idx nd ((ct, v) # tb) tree fr =
     (if n_nodes \<le> length tree then (tree, fr)
      else
        (let clp = addc (on_score nd) v
         in add_children addc n_nodes idx nd tb
              (tree @ [\<lparr>dn_tok = ct, dn_parent = int idx, dn_depth = dn_depth nd + 1,
                        on_suffix = on_suffix nd @ [ct], on_score = clp\<rparr>])
              (fr @ [(clp, length tree)])))"

lemma map_sum_Inr: "map_sum f g r = Inr y \<Longrightarrow> (\<And>x. r = Inr x \<Longrightarrow> y = g x \<Longrightarrow> P) \<Longrightarrow> P"
  by (cases r) auto

lemma add_children_length:
  "add_children addc n_nodes idx nd tb tree fr = (tree', fr') \<Longrightarrow>
     length tree < length tree' \<or> (tree' = tree \<and> fr' = fr)"
  by (induction addc n_nodes idx nd tb tree fr arbitrary: tree' fr' rule: add_children.induct)
    (fastforce simp: Let_def split: if_splits)+

lemma heap_top_in: "fr \<noteq> [] \<Longrightarrow> heap_top fr \<in> set fr"
  by (induction fr rule: heap_top.induct) (auto simp: Let_def)

function grow_tree ::
  "(('c :: linorder), 'k) tree_draft \<Rightarrow> int list \<Rightarrow> int \<Rightarrow> nat \<Rightarrow> nat \<Rightarrow> nat \<Rightarrow> 'c open_node list \<Rightarrow> ('c \<times> nat) list \<Rightarrow>
   'c open_node list result" where
  "grow_tree D base hd_tok n_nodes branch max_depth tree fr =
     (if n_nodes \<le> length tree \<or> fr = [] then Inr tree
      else
        (let x = heap_top fr; fr1 = remove1 x fr; nd = tree ! snd x
         in if max_depth \<le> dn_depth nd then grow_tree D base hd_tok n_nodes branch max_depth tree fr1
            else
              (case td_top D (base @ hd_tok # on_suffix nd) branch of
                 Inl e \<Rightarrow> Inl e
               | Inr tb \<Rightarrow>
                   (case add_children (td_add D) n_nodes (snd x) nd tb tree fr1 of
                      (tree2, fr2) \<Rightarrow> grow_tree D base hd_tok n_nodes branch max_depth tree2 fr2))))"
  by pat_completeness auto
termination
proof (relation "measures [\<lambda>(D, base, h, k, b, md, tree, fr). k - length tree, \<lambda>(D, base, h, k, b, md, tree, fr). length fr]", goal_cases)
  case 1
  then show ?case by simp
next
  case (2 D base h k b md tree fr x fr1 nd)
  then have "fr1 = remove1 (heap_top fr) fr" "heap_top fr \<in> set fr" using heap_top_in by auto
  moreover from this have "length fr1 < length fr" by (metis One_nat_def Suc_pred length_pos_if_in_set length_remove1 lessI)
  ultimately show ?case by simp
next
  case (3 D base h k b md tree fr x fr1 nd tb tree2 fr2)
  have "fr1 = remove1 (heap_top fr) fr" "heap_top fr \<in> set fr" using 3(1,2,3) heap_top_in by auto
  then have "length fr1 < length fr" by (metis One_nat_def Suc_pred length_pos_if_in_set length_remove1 lessI)
  moreover have "length tree < length tree2 \<or> (tree2 = tree \<and> fr2 = fr1)"
    using 3 by (intro add_children_length) auto
  ultimately show ?case using 3(1) by auto
qed

declare grow_tree.simps [simp del]

definition build_tree ::
  "(('c :: linorder), 'k) tree_draft \<Rightarrow> int list \<Rightarrow> int \<Rightarrow> nat \<Rightarrow> nat \<Rightarrow> nat \<Rightarrow> draft_node list result" where
  "build_tree D base hd_tok n_nodes branch max_depth =
     map_sum id (map draft_node.truncate)
       (grow_tree D base hd_tok n_nodes branch max_depth
          [\<lparr>dn_tok = hd_tok, dn_parent = - 1, dn_depth = 0, on_suffix = [], on_score = td_zero D\<rparr>]
          [(td_zero D, 0)])"

subsection \<open>Level by level\<close>

text \<open>A stable sort by falling score.\<close>

fun insert_desc :: "('a \<Rightarrow> 'b :: linorder) \<Rightarrow> 'a \<Rightarrow> 'a list \<Rightarrow> 'a list" where
  "insert_desc f x [] = [x]"
| "insert_desc f x (y # ys) = (if f y \<le> f x then x # y # ys else y # insert_desc f x ys)"

definition sort_desc :: "('a \<Rightarrow> 'b :: linorder) \<Rightarrow> 'a list \<Rightarrow> 'a list" where
  "sort_desc f xs = foldr (insert_desc f) xs []"

record 'c beam_node =
  bn_node :: nat
  bn_anc :: "nat list"
  bn_score :: 'c

definition first_level ::
  "nat \<Rightarrow> (int \<times> 'c :: linorder) list \<Rightarrow> draft_node list \<Rightarrow> draft_node list \<times> 'c beam_node list" where
  "first_level beam tb tree =
     (let cand = take beam (sort_desc snd (sort_desc fst tb))
      in (tree @ map (\<lambda>(tok, v). \<lparr>dn_tok = tok, dn_parent = 0, dn_depth = 1\<rparr>) cand,
          map (\<lambda>(i, (tok, v)). \<lparr>bn_node = length tree + i, bn_anc = [], bn_score = v\<rparr>) (enumerate 0 cand)))"

definition beam_mask :: "nat \<Rightarrow> nat \<Rightarrow> 'c beam_node list \<Rightarrow> bool list list" where
  "beam_mask prefix_len cache_len frontier =
     map (\<lambda>(k, f). map (\<lambda>s. s < prefix_len \<or> s \<in> set (bn_anc f) \<or> s = cache_len + k)
            [0 ..< cache_len + length frontier]) (enumerate 0 frontier)"

text \<open>The candidates of a level: the best next tokens of each node of the frontier, with its slot.\<close>

definition candidates ::
  "('c \<Rightarrow> 'c \<Rightarrow> 'c) \<Rightarrow> nat \<Rightarrow> 'c beam_node list \<Rightarrow> (int \<times> 'c) list list \<Rightarrow> ('c \<times> nat \<times> nat \<times> nat list \<times> int) list" where
  "candidates addc cache_len frontier rows =
     concat (map (\<lambda>(k, f, tb). map (\<lambda>(tok, v). (addc (bn_score f) v, bn_node f, cache_len + k, bn_anc f, tok)) tb)
       (enumerate 0 (zip frontier rows)))"

fun add_level ::
  "nat \<Rightarrow> nat \<Rightarrow> nat \<Rightarrow> ('c \<times> nat \<times> nat \<times> nat list \<times> int) list \<Rightarrow> draft_node list \<Rightarrow> 'c beam_node list \<Rightarrow>
   draft_node list \<times> 'c beam_node list" where
  "add_level n_nodes beam depth [] tree nf = (tree, nf)"
| "add_level n_nodes beam depth ((clp, par, par_slot, par_anc, tok) # nxt) tree nf =
     (if n_nodes \<le> length tree then (tree, nf)
      else add_level n_nodes beam depth nxt
             (tree @ [\<lparr>dn_tok = tok, dn_parent = int par, dn_depth = depth + 1\<rparr>])
             (if length nf < beam
              then nf @ [\<lparr>bn_node = length tree, bn_anc = par_anc @ [par_slot], bn_score = clp\<rparr>] else nf))"

function grow_levels ::
  "(('c :: linorder), 'k) tree_draft \<Rightarrow> nat \<Rightarrow> nat \<Rightarrow> nat \<Rightarrow> nat \<Rightarrow> nat \<Rightarrow> nat \<Rightarrow> 'k \<Rightarrow> draft_node list \<Rightarrow> 'c beam_node list \<Rightarrow>
   draft_node list result" where
  "grow_levels D prefix_len n_nodes branch max_depth beam depth kv tree frontier =
     (if frontier = [] \<or> n_nodes \<le> length tree \<or> max_depth \<le> depth then Inr tree
      else
        (let cache_len = td_len D kv
         in case td_step D kv (map (\<lambda>f. dn_tok (tree ! bn_node f)) frontier) (prefix_len - 1 + depth)
                   (beam_mask prefix_len cache_len frontier) branch of
              Inl e \<Rightarrow> Inl e
            | Inr (kv1, rows) \<Rightarrow>
                (case add_level n_nodes beam depth
                        (sort_desc fst (candidates (td_add D) cache_len frontier rows)) tree [] of
                   (tree1, frontier1) \<Rightarrow>
                     grow_levels D prefix_len n_nodes branch max_depth beam (depth + 1) kv1 tree1 frontier1)))"
  by pat_completeness auto
termination
  by (relation "measure (\<lambda>(D, pl, k, b, md, bm, depth, kv, tree, fr). md - depth)") auto

declare grow_levels.simps [simp del]

definition build_tree_batched ::
  "(('c :: linorder), 'k) tree_draft \<Rightarrow> int list \<Rightarrow> int \<Rightarrow> nat \<Rightarrow> nat \<Rightarrow> nat \<Rightarrow> nat \<Rightarrow> draft_node list result" where
  "build_tree_batched D base hd_tok n_nodes branch max_depth beam =
     bindE (td_prefill D (base @ [hd_tok]) branch) (\<lambda>(kv, tb).
       (case first_level beam tb [\<lparr>dn_tok = hd_tok, dn_parent = - 1, dn_depth = 0\<rparr>] of
          (tree, frontier) \<Rightarrow>
            grow_levels D (length base + 1) n_nodes branch max_depth beam 1 kv tree frontier))"

subsection \<open>Accepting a branch\<close>

text \<open>The first child of node \<open>cur\<close> with the predicted token.\<close>

definition matching_child :: "draft_node list \<Rightarrow> nat \<Rightarrow> int \<Rightarrow> nat option" where
  "matching_child tree cur pred =
     find (\<lambda>c. dn_parent (tree ! c) = int cur \<and> dn_tok (tree ! c) = pred) [0 ..< length tree]"

text \<open>The walk down from the root.  It does not end on a cycle of parents: \<open>None\<close>.\<close>

partial_function (option) accept_walk :: "draft_node list \<Rightarrow> int list \<Rightarrow> nat \<Rightarrow> nat list result option" where
  "accept_walk tree preds cur =
     (if length preds \<le> cur then Some (Inl IndexError)
      else case matching_child tree cur (preds ! cur) of
             None \<Rightarrow> Some (Inr [cur])
           | Some nx \<Rightarrow> Option.bind (accept_walk tree preds nx) (\<lambda>r. Some (map_sum id ((#) cur) r)))"

text \<open>The tokens after the head, the accepted nodes with the head, and the target's next token.\<close>

definition accept_tree :: "draft_node list \<Rightarrow> int list \<Rightarrow> (int list \<times> nat list \<times> int) result option" where
  "accept_tree tree preds =
     map_option (map_sum id (\<lambda>path. (map (\<lambda>i. dn_tok (tree ! i)) (tl path) @ [preds ! last path], path, preds ! last path)))
       (accept_walk tree preds 0)"

subsection \<open>Verifying a tree over the mesh\<close>

text \<open>\<open>tc_long\<close> makes a tensor of Python integers, \<open>tc_i32\<close> converts it.\<close>

record tree_codec =
  tc_long :: "int list \<Rightarrow> tensor"
  tc_i32 :: "tensor \<Rightarrow> tensor"

definition run_local_tree ::
  "'e stage_lib \<Rightarrow> int \<Rightarrow> nat \<Rightarrow> tensor \<Rightarrow> tensor \<Rightarrow> tensor \<Rightarrow> ('e, 'p) mesh \<Rightarrow> ('e, 'p) mesh \<times> tensor result option" where
  "run_local_tree L session pos hidden tpos parents m =
     (let c = (case map_of (m_local m) session of
                 None \<Rightarrow> replicate (sl_slots L) []
               | Some kv \<Rightarrow> if pos = 0 then replicate (sl_slots L) [] else kv);
          m1 = m\<lparr>m_local := dset session c (m_local m)\<rparr>
      in if \<not> float_dtype (t_dtype hidden) then (m1, Some (Inl TypeError))
         else case sl_tolist L parents of
                Inl e \<Rightarrow> (m1, Some (Inl e))
              | Inr ps \<Rightarrow>
                  (case build_tree_mask ps pos of
                     None \<Rightarrow> (m1, None)
                   | Some (Inl e) \<Rightarrow> (m1, Some (Inl e))
                   | Some (Inr tm) \<Rightarrow>
                       (case sl_forward L (TreeMasked tpos tm) hidden c of
                          (c', r) \<Rightarrow> (m\<lparr>m_local := dset session c' (m_local m)\<rparr>, Some r))))"

definition tree_hop ::
  "'e mesh_env \<Rightarrow> tree_codec \<Rightarrow> bytes \<Rightarrow> int \<Rightarrow> int \<Rightarrow> tensor \<Rightarrow> tensor \<Rightarrow> string \<Rightarrow> tensor \<Rightarrow> ('e, 'p) mesh \<Rightarrow>
   ('e, 'p) mesh \<times> tensor result" where
  "tree_hop E T key session pos tpos parents nid hidden m =
     (case conn_for E nid m of
        (m1, Inl e) \<Rightarrow> (m1, Inl e)
      | (m1, Inr _) \<Rightarrow>
          (case pack_tree_activation (tc_i32 T) session pos hidden tpos parents FLAG_NONE of
             Inl e \<Rightarrow> (m1, Inl e)
           | Inr body \<Rightarrow>
               (case request E nid key (msg_code TREE_ACTIVATION) body m1 of
                  (m2, r) \<Rightarrow> (m2, bindE r result_hidden))))"

text \<open>A failed hop is not failed over here: the exception ends the generation.\<close>

fun tree_star ::
  "'e mesh_env \<Rightarrow> tree_codec \<Rightarrow> bytes \<Rightarrow> int \<Rightarrow> int \<Rightarrow> tensor \<Rightarrow> tensor \<Rightarrow> node list \<Rightarrow> tensor \<Rightarrow> ('e, 'p) mesh \<Rightarrow>
   ('e, 'p) mesh \<times> tensor result" where
  "tree_star E T cluster session pos tpos parents [] hidden m = (m, Inr hidden)"
| "tree_star E T cluster session pos tpos parents (n # ns) hidden m =
     (case node_key cluster n of
        Inl e \<Rightarrow> (m, Inl e)
      | Inr key \<Rightarrow>
          (case tree_hop E T key session pos tpos parents (node_id n) hidden m of
             (m1, Inr h) \<Rightarrow> tree_star E T cluster session pos tpos parents ns h m1
           | (m1, Inl e) \<Rightarrow> (m1, Inl e)))"

text \<open>The pinned route, whatever the position; \<open>pinned_route\<close> at 1 asks for just that.\<close>

definition relay_tree ::
  "'e mesh_env \<Rightarrow> tree_codec \<Rightarrow> ('e, 'l) coord \<Rightarrow> 'p route_provider \<Rightarrow> int \<Rightarrow> nat \<Rightarrow> tensor \<Rightarrow> tensor \<Rightarrow> tensor \<Rightarrow>
   ('e, 'p) mesh \<Rightarrow> ('e, 'p) mesh \<times> tensor result option" where
  "relay_tree E T C P session pos hidden tpos parents m =
     (case (case co_local C of None \<Rightarrow> (m, Some (Inr hidden)) | Some L \<Rightarrow> run_local_tree L session pos hidden tpos parents m) of
        (m1, None) \<Rightarrow> (m1, None)
      | (m1, Some (Inl e)) \<Rightarrow> (m1, Some (Inl e))
      | (m1, Some (Inr h)) \<Rightarrow>
          (case pinned_route (co_key C) P session 1 m1 of
             (m2, Inl e) \<Rightarrow> (m2, Some (Inl e))
           | (m2, Inr rt) \<Rightarrow>
               (case tree_star E T (co_key C) session (int pos) tpos parents rt h m2 of
                  (m3, r) \<Rightarrow> (m3, Some r))))"

subsection \<open>The streaming loop\<close>

record ('c, 'k) tree_config =
  tg_draft :: "('c, 'k) tree_draft option"
  tg_codec :: tree_codec
  tg_nodes :: nat
  tg_branch :: nat
  tg_depth :: nat
  tg_beam :: nat
  tg_naive :: bool

definition make_tree ::
  "('c :: linorder, 'k) tree_config \<Rightarrow> ('c, 'k) tree_draft \<Rightarrow> int list \<Rightarrow> int \<Rightarrow> draft_node list result" where
  "make_tree G D base hd_tok =
     (if tg_naive G then build_tree D base hd_tok (tg_nodes G) (tg_branch G) (tg_depth G)
      else build_tree_batched D base hd_tok (tg_nodes G) (tg_branch G) (tg_depth G) (tg_beam G))"

text \<open>The tree counters have no window entry per round.\<close>

definition bump_tree :: "nat \<Rightarrow> nat \<Rightarrow> spec_counts \<Rightarrow> spec_counts" where
  "bump_tree m K c = c\<lparr>sc_rounds := sc_rounds c + 1, sc_accepted := sc_accepted c + m, sc_proposed := sc_proposed c + K\<rparr>"

text \<open>One round: what it commits, the accepted nodes and the size of the tree; \<open>None\<close> is a round that
  never comes back.  A kept slot of the tree is packed and sent to every holder.\<close>

definition tree_round ::
  "'e mesh_env \<Rightarrow> ('e, 'l) coord \<Rightarrow> 'p route_provider \<Rightarrow> ('c :: linorder, 'k) tree_config \<Rightarrow> ('c, 'k) tree_draft \<Rightarrow> int \<Rightarrow>
   int list \<Rightarrow> int \<Rightarrow> nat \<Rightarrow> ('e, 'p) mesh \<Rightarrow> ('e, 'p) mesh \<times> (int list \<times> nat list \<times> nat) result option" where
  "tree_round E C P G D session base hd_tok pos m =
     (case make_tree G D base hd_tok of
        Inl e \<Rightarrow> (m, Some (Inl e))
      | Inr tree \<Rightarrow>
          (case relay_tree E (tg_codec G) C P session pos (co_embed C (map dn_tok tree))
                  (tc_long (tg_codec G) (map (\<lambda>n. int (pos + dn_depth n)) tree))
                  (tc_long (tg_codec G) (map dn_parent tree)) m of
             (m1, None) \<Rightarrow> (m1, None)
           | (m1, Some (Inl e)) \<Rightarrow> (m1, Some (Inl e))
           | (m1, Some (Inr h)) \<Rightarrow>
               (case accept_tree tree (map (co_argmax C) (co_rows C h)) of
                  None \<Rightarrow> (m1, None)
                | Some (Inl e) \<Rightarrow> (m1, Some (Inl e))
                | Some (Inr (committed, path, bonus)) \<Rightarrow>
                    (case kv_tree_keep E (co_key C) session pos (map int path) m1 of
                       (m2, Inl e) \<Rightarrow> (m2, Some (Inl e))
                     | (m2, Inr _) \<Rightarrow> (m2, Some (Inr (committed, path, length tree)))))))"

lemma accept_tree_last:
  "accept_tree tree preds = Some (Inr (com, path, bonus)) \<Longrightarrow> com \<noteq> [] \<and> last com = bonus"
  by (auto simp: accept_tree_def elim!: map_sum_Inr)

lemma tree_round_nonempty:
  "tree_round E C P G D session base hd_tok pos m = (m', Some (Inr (com, path, t))) \<Longrightarrow> com \<noteq> []"
  by (auto simp: tree_round_def dest: accept_tree_last split: sum.splits prod.splits option.splits)

text \<open>The tokens yielded by the rounds, what they leave, and how they end.\<close>

function tree_loop ::
  "'e mesh_env \<Rightarrow> ('e, 'l) coord \<Rightarrow> 'p route_provider \<Rightarrow> ('c :: linorder, 'k) tree_config \<Rightarrow> ('c, 'k) tree_draft \<Rightarrow> int \<Rightarrow>
   int list \<Rightarrow> nat \<Rightarrow> int list \<Rightarrow> int \<Rightarrow> nat \<Rightarrow> ('e, 'p) mesh \<Rightarrow> spec_counts \<Rightarrow>
   int list \<times> ('e, 'p) mesh \<times> spec_counts \<times> unit result option" where
  "tree_loop E C P G D session ids n_new produced hd_tok pos m gc =
     (if length produced < n_new then
        (case tree_round E C P G D session (ids @ butlast produced) hd_tok pos m of
           (m1, None) \<Rightarrow> ([], m1, gc, None)
         | (m1, Some (Inl e)) \<Rightarrow> ([], m1, gc, Some (Inl e))
         | (m1, Some (Inr (com, path, t))) \<Rightarrow>
             (let gc1 = bump_tree (length path - 1) (t - 1) gc
              in case emit_committed (co_eos C) n_new (length produced) com of
                   (ys, True) \<Rightarrow> (ys, m1, gc1, Some (Inr ()))
                 | (ys, False) \<Rightarrow>
                     (case tree_loop E C P G D session ids n_new (produced @ ys) (last com) (pos + length path) m1 gc1 of
                        (zs, r) \<Rightarrow> (ys @ zs, r))))
      else ([], m, gc, Some (Inr ())))"
  by pat_completeness auto
termination
proof (relation "measure (\<lambda>(E, C, P, G, D, session, ids, n_new, produced, h, pos, m, gc). n_new - length produced)")
  show "wf (measure (\<lambda>(E, C, P, G, D, session, ids, n_new, produced, h, pos, m, gc). n_new - length produced))" by simp
qed (auto dest!: tree_round_nonempty [OF sym] emit_committed_all [OF sym] simp flip: length_greater_0_conv)

declare tree_loop.simps [simp del]

definition generate_tree_stream ::
  "'e mesh_env \<Rightarrow> ('e, 'l) coord \<Rightarrow> 'p route_provider \<Rightarrow> 'f gen_config \<Rightarrow> ('c :: linorder, 'k) tree_config \<Rightarrow>
   int list \<Rightarrow> nat \<Rightarrow> ('e, 'p) orch \<Rightarrow> (('e, 'p) orch \<times> pystr list \<times> unit result) option" where
  "generate_tree_stream E C P G TG ids n_new s =
     (case tg_draft TG of
        None \<Rightarrow> Some (s, [], Inl RuntimeError)
      | Some D \<Rightarrow>
          (case fresh_session G s of
             (s1, sid) \<Rightarrow>
               (case (case relay E C P sid 0 (co_embed C ids) (or_mesh s1) of
                        (m1, Inl e) \<Rightarrow> ([], m1, call_counts, Some (Inl e))
                      | (m1, Inr h) \<Rightarrow>
                          (case next_token C h of
                             Inl e \<Rightarrow> ([], m1, call_counts, Some (Inl e))
                           | Inr t \<Rightarrow>
                               if t \<in> co_eos C then ([], m1, call_counts, Some (Inr ()))
                               else (case tree_loop E C P TG D sid ids n_new [t] t (length ids) m1 call_counts of
                                       (ys, r) \<Rightarrow> (t # ys, r)))) of
                  (toks, m2, gc, None) \<Rightarrow> None
                | (toks, m2, gc, Some r) \<Rightarrow>
                    (let s2 = merge_call (Some gc) (s1\<lparr>or_mesh := m2\<rparr>);
                         text = (case toks of [] \<Rightarrow> []
                                 | t # ts \<Rightarrow> gc_decode G [t] # text_pieces (gc_decode G) [t] (gc_decode G [t]) ts)
                     in case reset_sessions E (co_key C) P sid (or_mesh s2) of
                          (m3, r3) \<Rightarrow> Some (s2\<lparr>or_mesh := m3\<rparr>, text, bindE r3 (\<lambda>_. r))))))"

end
