(* ===== verification/Tree_Layers.thy ===== *)
theory Tree_Layers
  imports Specdecode_Spec Tensors_Spec
begin

section \<open>A tree of tokens through the layers\<close>

text \<open>
  \<open>Stage.forward\<close> of \<open>engine/stage.py\<close> with a tree mask: the tokens of a tree are cached one after
  the other, and each attends the cached entries its row of the mask marks.  The mask that
  \<open>build_tree_mask\<close> makes of backward parent pointers marks the prefix and the token's branch, so
  what a stage computes for a token is what it would compute for the branch alone, one token after
  the other; and keeping a branch's entries leaves the cache of that sequence.
\<close>

subsection \<open>The masked forward pass\<close>

definition masked_layer ::
  "('e, 'h, 'l) model_ops \<Rightarrow> nat \<Rightarrow> 'e list \<Rightarrow> ('h \<times> nat) list \<Rightarrow> bool list list \<Rightarrow> 'h list \<times> 'e list" where
  "masked_layer M g cache xs tm =
     (let cache' = cache @ map (\<lambda>(h, p). m_entry M g h p) xs
      in (map (\<lambda>((h, p), row). m_layer M g (map snd (filter fst (zip row cache'))) h p) (zip xs tm), cache'))"

fun masked_stage ::
  "('e, 'h, 'l) model_ops \<Rightarrow> nat list \<Rightarrow> 'e stage_kv \<Rightarrow> 'h list \<Rightarrow> nat list \<Rightarrow> bool list list \<Rightarrow>
   'h list \<times> 'e stage_kv" where
  "masked_stage M [] kv hs ps tm = (hs, kv)"
| "masked_stage M (g # gs) kv hs ps tm =
     (case masked_layer M g (kv ! g) (zip hs ps) tm of
        (hs', c) \<Rightarrow> masked_stage M gs (kv[g := c]) hs' ps tm)"

fun masked_stages ::
  "('e, 'h, 'l) model_ops \<Rightarrow> nat list list \<Rightarrow> 'e stage_kv list \<Rightarrow> 'h list \<Rightarrow> nat list \<Rightarrow> bool list list \<Rightarrow>
   'h list \<times> 'e stage_kv list" where
  "masked_stages M (st # sts) (c # cs) hs ps tm =
     (case masked_stage M st c hs ps tm of
        (hs', c') \<Rightarrow> (case masked_stages M sts cs hs' ps tm of (out, cs') \<Rightarrow> (out, c' # cs')))"
| "masked_stages M _ cs hs ps tm = (hs, cs)"

lemma masked_stage_slots [simp]: "length (snd (masked_stage M gs kv hs ps tm)) = length kv"
  by (induction M gs kv hs ps tm rule: masked_stage.induct) (simp_all split: prod.split)

lemma masked_stage_length:
  "length hs = length tm \<Longrightarrow> length ps = length tm \<Longrightarrow> length (fst (masked_stage M gs kv hs ps tm)) = length tm"
  by (induction M gs kv hs ps tm rule: masked_stage.induct) (auto simp: masked_layer_def Let_def)

lemma masked_stage_update:
  "g \<notin> set gs \<Longrightarrow> masked_stage M gs (kv[g := x]) hs ps tm =
     (fst (masked_stage M gs kv hs ps tm), (snd (masked_stage M gs kv hs ps tm))[g := x])"
proof (induction M gs kv hs ps tm rule: masked_stage.induct)
  case (2 M g' gs kv hs ps tm)
  obtain hs' c where "masked_layer M g' (kv ! g') (zip hs ps) tm = (hs', c)" by fastforce
  then show ?case using 2 by (auto simp: list_update_swap [of g' g])
qed simp

subsection \<open>Branches\<close>

text \<open>Node 0 is the root and every other node comes after its parent.\<close>

definition tree_parents :: "int list \<Rightarrow> bool" where
  "tree_parents ps \<longleftrightarrow> ps \<noteq> [] \<and> ps ! 0 = - 1 \<and> (\<forall>i < length ps. 0 < i \<longrightarrow> 0 \<le> ps ! i \<and> ps ! i < int i)"

text \<open>The branch to a node, root first.\<close>

definition branch :: "int list \<Rightarrow> nat \<Rightarrow> nat list" where
  "branch ps i = filter (\<lambda>j. on_walk ps (int i) (int j)) [0 ..< length ps]"

lemma tree_parents_ok: "tree_parents ps \<Longrightarrow> parents_ok ps \<and> (\<forall>i < length ps. ps ! i < int i)"
  by (fastforce simp: tree_parents_def parents_ok_def in_set_conv_nth)

lemma tree_parentD:
  assumes "tree_parents ps" and "i < length ps" and "0 < i"
  shows "nat (ps ! i) < i \<and> int (nat (ps ! i)) = ps ! i"
  using assms by (auto simp: tree_parents_def)

lemma on_walk_le: "tree_parents ps \<Longrightarrow> on_walk ps (int i) (int j) \<Longrightarrow> i < length ps \<Longrightarrow> j \<le> i"
proof (induction i rule: less_induct)
  case (less i)
  show ?case
  proof (cases "i = j")
    case False
    then have up: "on_walk ps (ps ! i) (int j)" using less.prems(2) on_walk_step [of "int i" ps "int j"] by auto
    have "i \<noteq> 0"
    proof
      assume "i = 0"
      then have "on_walk ps (- 1) (int j)" using up less.prems(1) by (simp add: tree_parents_def)
      then show False by (simp add: on_walk_root)
    qed
    then have p: "nat (ps ! i) < i" "int (nat (ps ! i)) = ps ! i" using tree_parentD [OF less.prems(1,3)] by auto
    then have "j \<le> nat (ps ! i)" using less.IH [OF p(1) less.prems(1)] up less.prems(3) by simp
    then show ?thesis using p(1) by simp
  qed simp
qed

lemma branch_root: "tree_parents ps \<Longrightarrow> branch ps 0 = [0]"
proof -
  assume t: "tree_parents ps"
  have "on_walk ps 0 (int j) \<longleftrightarrow> j = 0" for j
    using t on_walk_step [of 0 ps "int j"] by (auto simp: tree_parents_def on_walk_root)
  moreover obtain k where "length ps = Suc k" using t by (cases ps) (auto simp: tree_parents_def)
  ultimately show ?thesis by (simp add: branch_def upt_rec [of 0] del: upt_Suc)
qed

lemma branch_step:
  assumes t: "tree_parents ps" and i: "i < length ps" "0 < i"
  shows "branch ps i = branch ps (nat (ps ! i)) @ [i]"
proof -
  let ?k = "nat (ps ! i)"
  have k: "?k < i" "int ?k = ps ! i" using tree_parentD [OF t i] by auto
  have w: "on_walk ps (int i) (int j) \<longleftrightarrow> j = i \<or> on_walk ps (int ?k) (int j)" for j
    using on_walk_step [of "int i" ps "int j"] k(2) by auto
  have none: "\<not> on_walk ps (int ?k) (int j)" if "i \<le> j" for j
    using on_walk_le [OF t, of ?k j] k(1) i(1) that by auto
  have split: "[0 ..< length ps] = [0 ..< i] @ i # [Suc i ..< length ps]"
    using i(1) upt_add_eq_append [of 0 i "length ps - i"] upt_conv_Cons [of i "length ps"] by simp
  have "filter (\<lambda>j. on_walk ps (int i) (int j)) [Suc i ..< length ps] = []"
    using w none by (auto simp: filter_empty_conv)
  moreover have "filter (\<lambda>j. on_walk ps (int ?k) (int j)) (i # [Suc i ..< length ps]) = []"
    using none by (auto simp: filter_empty_conv)
  moreover have "filter (\<lambda>j. on_walk ps (int i) (int j)) [0 ..< i] = filter (\<lambda>j. on_walk ps (int ?k) (int j)) [0 ..< i]"
    using w by (intro filter_cong) auto
  ultimately show ?thesis unfolding branch_def split by (simp add: w)
qed

lemma branch_induct [consumes 2, case_names root child]:
  assumes t: "tree_parents ps" and i: "i < length ps"
    and root: "P 0" and child: "\<And>i. i < length ps \<Longrightarrow> 0 < i \<Longrightarrow> P (nat (ps ! i)) \<Longrightarrow> P i"
  shows "P i"
  using i
proof (induction i rule: less_induct)
  case (less i)
  show ?case
  proof (cases "i = 0")
    case False
    then have k: "nat (ps ! i) < i" using tree_parentD [OF t less.prems] by simp
    have pos: "0 < i" using False by simp
    have "nat (ps ! i) < length ps" using k less.prems by simp
    then have "P (nat (ps ! i))" by (rule less.IH [OF k])
    then show ?thesis by (rule child [OF less.prems pos])
  qed (simp add: root)
qed

lemma branch_in: "j \<in> set (branch ps i) \<Longrightarrow> j < length ps"
  by (simp add: branch_def)

lemma branch_last:
  assumes t: "tree_parents ps" and i: "i < length ps"
  shows "branch ps i \<noteq> [] \<and> last (branch ps i) = i \<and> hd (branch ps i) = 0"
  using assms
proof (induction i rule: branch_induct)
  case root
  then show ?case by (simp add: branch_root [OF t])
next
  case (child i)
  then show ?case using branch_step [OF t, of i] by simp
qed

subsection \<open>What the mask shows\<close>

lemma filter_zip_map: "map snd (filter fst (zip (map Q [0 ..< length es]) es)) = map ((!) es) (filter Q [0 ..< length es])"
proof (induction es rule: rev_induct)
  case (snoc e es)
  have "map ((!) (es @ [e])) (filter Q [0 ..< length es]) = map ((!) es) (filter Q [0 ..< length es])"
    by (intro map_cong) (auto simp: nth_append)
  then show ?case using snoc by (simp add: zip_append [of "map Q [0 ..< length es]" es "[Q (length es)]"])
qed simp

lemma masked_visible:
  assumes "length row = length c + length es" and "\<forall>j < length c + length es. row ! j \<longleftrightarrow> j < length c \<or> Q (j - length c)"
  shows "map snd (filter fst (zip row (c @ es))) = c @ map ((!) es) (filter Q [0 ..< length es])"
proof -
  have "row = map (\<lambda>_. True) [0 ..< length c] @ map Q [0 ..< length es]"
    using assms by (intro nth_equalityI) (auto simp: nth_append)
  moreover have "zip (map (\<lambda>_. True) [0 ..< length c] @ map Q [0 ..< length es]) (c @ es) =
      zip (map (\<lambda>_. True) [0 ..< length c]) c @ zip (map Q [0 ..< length es]) es"
    by (intro zip_append) simp
  ultimately show ?thesis
    using filter_zip_map [of "\<lambda>_. True" c] filter_zip_map [of Q es] by (simp add: map_nth)
qed

text \<open>A mask for the tree over a prefix, as \<open>build_tree_mask\<close> makes it.\<close>

definition tree_mask_for :: "int list \<Rightarrow> nat \<Rightarrow> bool list list \<Rightarrow> bool" where
  "tree_mask_for ps p tm \<longleftrightarrow> length tm = length ps \<and> (\<forall>i < length ps. length (tm ! i) = p + length ps \<and>
     (\<forall>j < p + length ps. tm ! i ! j \<longleftrightarrow> j < p \<or> on_walk ps (int i) (int (j - p))))"

lemma build_tree_mask_for:
  assumes "tree_parents ps"
  shows "\<exists>tm. build_tree_mask ps p = Some (Inr tm) \<and> tree_mask_for ps p tm"
proof -
  have ok: "parents_ok ps" "\<forall>i < length ps. ps ! i < int i" using tree_parents_ok [OF assms] by auto
  obtain r where r: "build_tree_mask ps p = Some r" using mask_backward [OF ok] by auto
  obtain m where m: "r = Inr m" "length m = length ps"
      "\<forall>i < length ps. length (m ! i) = p + length ps \<and>
         (\<forall>j < p + length ps. m ! i ! j \<longleftrightarrow> j < p \<or> on_walk ps (int i) (int j - int p))"
    using mask_rows [OF ok(1) r] by blast
  moreover have "j < p \<or> on_walk ps a (int j - int p) \<longleftrightarrow> j < p \<or> on_walk ps a (int (j - p))" for a j
    by (cases "j < p") (simp_all add: of_nat_diff)
  ultimately have "tree_mask_for ps p m" unfolding tree_mask_for_def by simp
  then show ?thesis using r m(1) by blast
qed

subsection \<open>A tree is its branches\<close>

lemma masked_layer_branch:
  assumes t: "tree_parents ps" and tm: "tree_mask_for ps (length c) tm"
    and hs: "length hs = length ps" and pos: "pos = map (\<lambda>i. length c + (length (branch ps i) - 1)) [0 ..< length ps]"
    and f: "masked_layer M g c (zip hs pos) tm = (os, c')" and i: "i < length ps"
  shows "layer_forward M g c (zip (map ((!) hs) (branch ps i)) (map (\<lambda>k. k + length c) [0 ..< length (branch ps i)])) =
      (map ((!) os) (branch ps i), tree_path_of (length c) (map int (branch ps i)) c')"
proof -
  define es where "es = map (\<lambda>(h, p). m_entry M g h p) (zip hs pos)"
  have es: "length es = length ps" using hs pos by (simp add: es_def)
  have c': "c' = c @ es" and os: "os = map (\<lambda>((h, p), row). m_layer M g (map snd (filter fst (zip row (c @ es)))) h p) (zip (zip hs pos) tm)"
    using f by (auto simp: masked_layer_def Let_def es_def)
  have path: "tree_path_of (length c) (map int (branch ps i)) c' = c @ map ((!) es) (branch ps i)" for i
    by (simp add: tree_path_of_def c')
  have node: "es ! i = m_entry M g (hs ! i) (length c + (length (branch ps i) - 1)) \<and>
      os ! i = m_layer M g (c @ map ((!) es) (branch ps i)) (hs ! i) (length c + (length (branch ps i) - 1))"
    if i: "i < length ps" for i
  proof -
    have "map snd (filter fst (zip (tm ! i) (c @ es))) = c @ map ((!) es) (filter (\<lambda>j. on_walk ps (int i) (int j)) [0 ..< length es])"
      using tm i es by (intro masked_visible) (auto simp: tree_mask_for_def)
    then show ?thesis using i hs tm by (simp add: os es_def pos tree_mask_for_def branch_def)
  qed
  show ?thesis
    using t i unfolding path
  proof (induction i rule: branch_induct)
    case root
    have "0 < length ps" using t by (simp add: tree_parents_def)
    then show ?case using node [of 0] branch_root [OF t] by (simp add: Let_def)
  next
    case (child i)
    let ?b = "branch ps (nat (ps ! i))"
    have b: "branch ps i = ?b @ [i]" by (rule branch_step [OF t child(1,2)])
    have e: "es ! i = m_entry M g (hs ! i) (length ?b + length c)"
      using node [OF child(1)] b by (simp add: add.commute)
    have o: "os ! i = m_layer M g (c @ map ((!) es) ?b @ [es ! i]) (hs ! i) (length ?b + length c)"
      using node [OF child(1), THEN conjunct2] b by (simp add: add.commute)
    have step: "layer_forward M g (c @ map ((!) es) ?b) [(hs ! i, length ?b + length c)] = ([os ! i], c @ map ((!) es) (branch ps i))"
      unfolding o by (simp add: Let_def b e)
    have zip: "zip (map ((!) hs) (branch ps i)) (map (\<lambda>k. k + length c) [0 ..< length (branch ps i)]) =
        zip (map ((!) hs) ?b) (map (\<lambda>k. k + length c) [0 ..< length ?b]) @ [(hs ! i, length ?b + length c)]"
      by (simp add: b)
    show ?case unfolding zip layer_forward_append child(3) Let_def prod.case step by (simp add: b)
  qed
qed

text \<open>The slots of a stage after a tree, and what is left of them for one branch.\<close>

lemma masked_stage_branch:
  assumes t: "tree_parents ps" and tm: "tree_mask_for ps p tm"
    and pos: "pos = map (\<lambda>i. p + (length (branch ps i) - 1)) [0 ..< length ps]" and i: "i < length ps"
  shows "distinct gs \<Longrightarrow> \<forall>g \<in> set gs. g < length kv \<and> length (kv ! g) = p \<Longrightarrow> length hs = length ps \<Longrightarrow>
    masked_stage M gs kv hs pos tm = (os, kv') \<Longrightarrow>
    stage_forward M gs kv (map ((!) hs) (branch ps i)) (map (\<lambda>k. k + p) [0 ..< length (branch ps i)]) =
      (map ((!) os) (branch ps i),
       map (\<lambda>g. if g \<in> set gs then tree_path_of p (map int (branch ps i)) (kv' ! g) else kv ! g) [0 ..< length kv]) \<and>
    (\<forall>g < length kv. length (kv' ! g) = (if g \<in> set gs then p + length ps else length (kv ! g)))"
proof (induction gs arbitrary: kv hs kv')
  case Nil
  then show ?case by (simp add: map_nth)
next
  case (Cons g gs)
  obtain hs1 c1 where l: "masked_layer M g (kv ! g) (zip hs pos) tm = (hs1, c1)" by fastforce
  have g: "g \<notin> set gs" "g < length kv" "length (kv ! g) = p" using Cons.prems by auto
  have lp: "length pos = length ps" "length tm = length ps" using pos tm by (simp_all add: tree_mask_for_def)
  have l1: "length hs1 = length ps" "length c1 = p + length ps"
    using l lp Cons.prems(3) g(3) by (auto simp: masked_layer_def Let_def)
  obtain kv1 where s: "masked_stage M gs kv hs1 pos tm = (os, kv1)" "kv' = kv1[g := c1]"
    using Cons.prems(4) l masked_stage_update [OF g(1), of M kv c1 hs1 pos tm] by (cases "masked_stage M gs kv hs1 pos tm") auto
  have lk: "length kv1 = length kv" using masked_stage_slots [of M gs kv hs1 pos tm] s(1) by simp
  let ?b = "branch ps i" and ?q = "map (\<lambda>k. k + p) [0 ..< length (branch ps i)]"
  have IH: "stage_forward M gs kv (map ((!) hs1) ?b) ?q = (map ((!) os) ?b,
       map (\<lambda>g. if g \<in> set gs then tree_path_of p (map int ?b) (kv1 ! g) else kv ! g) [0 ..< length kv])"
    "\<forall>g < length kv. length (kv1 ! g) = (if g \<in> set gs then p + length ps else length (kv ! g))"
    using Cons.IH [OF _ _ l1(1) s(1)] Cons.prems by auto
  have "layer_forward M g (kv ! g) (zip (map ((!) hs) ?b) ?q) = (map ((!) hs1) ?b, tree_path_of p (map int ?b) c1)"
    using masked_layer_branch [OF t _ Cons.prems(3) _ l i] tm g(3) pos by simp
  then have "stage_forward M (g # gs) kv (map ((!) hs) ?b) ?q = (map ((!) os) ?b,
      (map (\<lambda>g. if g \<in> set gs then tree_path_of p (map int ?b) (kv1 ! g) else kv ! g) [0 ..< length kv])
        [g := tree_path_of p (map int ?b) c1])"
    using IH(1) by (simp add: stage_forward_update [OF g(1)])
  moreover have "(map (\<lambda>g. if g \<in> set gs then tree_path_of p (map int ?b) (kv1 ! g) else kv ! g) [0 ..< length kv])
        [g := tree_path_of p (map int ?b) c1] =
      map (\<lambda>h. if h \<in> set (g # gs) then tree_path_of p (map int ?b) (kv' ! h) else kv ! h) [0 ..< length kv]"
    using g lk by (intro nth_equalityI) (auto simp: s(2) nth_list_update)
  moreover have "\<forall>h < length kv. length (kv' ! h) = (if h \<in> set (g # gs) then p + length ps else length (kv ! h))"
    using IH(2) g lk l1(2) by (auto simp: s(2) nth_list_update)
  ultimately show ?case by simp
qed

text \<open>A stage's cache of \<open>p\<close> tokens.\<close>

definition kv_slots :: "nat \<Rightarrow> nat list \<Rightarrow> nat \<Rightarrow> 'e stage_kv \<Rightarrow> bool" where
  "kv_slots n gs p c \<longleftrightarrow> length c = n \<and> distinct gs \<and> (\<forall>g \<in> set gs. g < n) \<and>
     (\<forall>g < n. length (c ! g) = (if g \<in> set gs then p else 0))"

lemma kv_slots_keep:
  assumes "kv_slots n gs (p + length ps) c" and "i < length ps"
  shows "kv_keep_tree_path p (map int (branch ps i)) c =
    (map (\<lambda>g. if g \<in> set gs then tree_path_of p (map int (branch ps i)) (c ! g) else []) [0 ..< n], Inr ())"
proof -
  have "\<forall>l \<in> set c. l = [] \<or> (p \<le> length l \<and> (\<forall>s \<in> set (map int (branch ps i)). 0 \<le> s \<and> p + nat s < length l))"
  proof
    fix l assume "l \<in> set c"
    then obtain g where "g < n" "l = c ! g" using assms(1) by (auto simp: kv_slots_def in_set_conv_nth)
    then have "length l = p + length ps \<or> l = []" using assms(1) by (auto simp: kv_slots_def)
    then show "l = [] \<or> (p \<le> length l \<and> (\<forall>s \<in> set (map int (branch ps i)). 0 \<le> s \<and> p + nat s < length l))"
      using branch_in by fastforce
  qed
  note keep = kv_keep_tree_path_ok [OF this]
  have "map (\<lambda>l. if l = [] then [] else tree_path_of p (map int (branch ps i)) l) c =
      map (\<lambda>g. if g \<in> set gs then tree_path_of p (map int (branch ps i)) (c ! g) else []) [0 ..< n]"
  proof (rule nth_equalityI)
    fix g assume "g < length (map (\<lambda>l. if l = [] then [] else tree_path_of p (map int (branch ps i)) l) c)"
    then have "g < n" "length (c ! g) = (if g \<in> set gs then p + length ps else 0)" using assms(1) by (auto simp: kv_slots_def)
    moreover have "0 < length ps" using assms(2) by (rule le_less_trans [OF le0])
    ultimately show "map (\<lambda>l. if l = [] then [] else tree_path_of p (map int (branch ps i)) l) c ! g =
        map (\<lambda>g. if g \<in> set gs then tree_path_of p (map int (branch ps i)) (c ! g) else []) [0 ..< n] ! g"
      using assms(1) by (cases "g \<in> set gs") (auto simp: kv_slots_def)
  qed (use assms(1) in \<open>simp add: kv_slots_def\<close>)
  then show ?thesis using keep by simp
qed

lemma stage_branch_keep:
  assumes t: "tree_parents ps" and tm: "tree_mask_for ps p tm"
    and pos: "pos = map (\<lambda>i. p + (length (branch ps i) - 1)) [0 ..< length ps]" and i: "i < length ps"
    and c: "kv_slots n gs p c" and hs: "length hs = length ps" and f: "masked_stage M gs c hs pos tm = (os, c')"
  shows "stage_forward M gs c (map ((!) hs) (branch ps i)) (map (\<lambda>k. k + p) [0 ..< length (branch ps i)]) =
      (map ((!) os) (branch ps i), fst (kv_keep_tree_path p (map int (branch ps i)) c')) \<and> kv_slots n gs (p + length ps) c'"
proof -
  have g: "distinct gs" "\<forall>g \<in> set gs. g < length c \<and> length (c ! g) = p" using c by (auto simp: kv_slots_def)
  note m = masked_stage_branch [OF t tm pos i g hs f]
  have lc: "length c' = n" using masked_stage_slots [of M gs c hs pos tm] f c by (simp add: kv_slots_def)
  have k: "kv_slots n gs (p + length ps) c'" using m c lc by (auto simp: kv_slots_def)
  have "map (\<lambda>g. if g \<in> set gs then tree_path_of p (map int (branch ps i)) (c' ! g) else c ! g) [0 ..< length c] =
      map (\<lambda>g. if g \<in> set gs then tree_path_of p (map int (branch ps i)) (c' ! g) else []) [0 ..< n]"
    using c by (intro map_cong) (auto simp: kv_slots_def)
  then show ?thesis using m k kv_slots_keep [OF k i] by simp
qed

lemma masked_stages_branch:
  assumes t: "tree_parents ps" and tm: "tree_mask_for ps p tm"
    and pos: "pos = map (\<lambda>i. p + (length (branch ps i) - 1)) [0 ..< length ps]" and i: "i < length ps"
  shows "list_all2 (\<lambda>gs c. kv_slots n gs p c) sts cs \<Longrightarrow> length hs = length ps \<Longrightarrow>
    masked_stages M sts cs hs pos tm = (os, cs') \<Longrightarrow>
    stages_forward M sts cs (map ((!) hs) (branch ps i)) (map (\<lambda>k. k + p) [0 ..< length (branch ps i)]) =
      (map ((!) os) (branch ps i), map (\<lambda>c. fst (kv_keep_tree_path p (map int (branch ps i)) c)) cs') \<and>
    list_all2 (\<lambda>gs c. kv_slots n gs (p + length ps) c) sts cs' \<and> length os = length ps"
proof (induction sts cs arbitrary: hs cs' rule: list_all2_induct)
  case Nil
  then show ?case by simp
next
  case (Cons st sts c cs)
  obtain h1 c1 where s: "masked_stage M st c hs pos tm = (h1, c1)" by fastforce
  obtain cs1 where r: "masked_stages M sts cs h1 pos tm = (os, cs1)" "cs' = c1 # cs1"
    using Cons.prems(2) s by (auto split: prod.splits)
  have "length h1 = length ps"
    using masked_stage_length [of hs tm pos M st c] s tm pos Cons.prems(1) by (simp add: tree_mask_for_def)
  note IH = Cons.IH [OF this r(1)]
  note st = stage_branch_keep [OF t tm pos i Cons.hyps(1) Cons.prems(1) s]
  show ?case using IH st r(2) by simp
qed

lemma split_run_slots:
  assumes "stages_wf n sts"
  shows "list_all2 (\<lambda>gs c. kv_slots n gs (length ctx) c) sts (snd (split_run M n sts ctx))"
proof (rule list_all2_all_nthI)
  show len: "length sts = length (snd (split_run M n sts ctx))" using split_run_shape [of M n sts ctx] by simp
  fix k assume k: "k < length sts"
  have "length (snd (split_run M n sts ctx) ! k) = n" using split_run_width [of M n sts ctx] k len by (metis nth_mem)
  moreover have "\<forall>g < n. length (snd (split_run M n sts ctx) ! k ! g) = (if g \<in> set (sts ! k) then length ctx else 0)"
    using split_run_slot [OF assms k, of _ M ctx] by blast
  moreover have "distinct (sts ! k) \<and> (\<forall>g \<in> set (sts ! k). g < n)" using assms nth_mem [OF k] by blast
  ultimately show "kv_slots n (sts ! k) (length ctx) (snd (split_run M n sts ctx) ! k)"
    unfolding kv_slots_def by blast
qed

end
