(* ===== verification/Draft_Tree.thy ===== *)
theory Draft_Tree
  imports Tree_Decode Tree_Layers
begin

section \<open>Draft trees are trees\<close>

text \<open>
  Both builders give a tree whose root is the head token, whose nodes come after their parents and
  know their depth, and which stays within its budget; the walk that accepts a branch always ends,
  and when the predictions are those of a sequential model it spells the model's own greedy
  continuation.
\<close>

subsection \<open>Well-formed trees\<close>

definition tree_wf :: "int \<Rightarrow> draft_node list \<Rightarrow> bool" where
  "tree_wf h tr \<longleftrightarrow> tr \<noteq> [] \<and> tr ! 0 = \<lparr>dn_tok = h, dn_parent = - 1, dn_depth = 0\<rparr> \<and>
     (\<forall>i < length tr. 0 < i \<longrightarrow> 0 \<le> dn_parent (tr ! i) \<and> dn_parent (tr ! i) < int i \<and>
        dn_depth (tr ! i) = dn_depth (tr ! nat (dn_parent (tr ! i))) + 1)"

lemma tree_wf_root: "tree_wf h [\<lparr>dn_tok = h, dn_parent = - 1, dn_depth = 0\<rparr>]"
  by (simp add: tree_wf_def)

lemma tree_wf_snoc:
  assumes "tree_wf h tr" and "k < length tr" and "d = dn_depth (tr ! k) + 1"
  shows "tree_wf h (tr @ [\<lparr>dn_tok = t, dn_parent = int k, dn_depth = d\<rparr>])"
  using assms by (auto simp: tree_wf_def nth_append less_Suc_eq nat_less_iff)

lemma tree_wf_parents:
  assumes "tree_wf h tr"
  shows "tree_parents (map dn_parent tr) \<and> dn_tok (tr ! 0) = h"
  using assms by (auto simp: tree_wf_def tree_parents_def)

lemma tree_wf_depth:
  assumes wf: "tree_wf h tr" and i: "i < length tr"
  shows "dn_depth (tr ! i) = length (branch (map dn_parent tr) i) - 1"
proof -
  let ?ps = "map dn_parent tr"
  have t: "tree_parents ?ps" using tree_wf_parents [OF wf] by blast
  have "i < length ?ps" using i by simp
  with t show ?thesis
  proof (induction i rule: branch_induct)
    case root
    then show ?case using wf branch_root [OF t] by (simp add: tree_wf_def)
  next
    case (child i)
    have k: "dn_parent (tr ! i) = ?ps ! i" "i < length tr" using child(1) by simp_all
    have "dn_depth (tr ! i) = dn_depth (tr ! nat (?ps ! i)) + 1" using wf child(2) k by (simp add: tree_wf_def)
    moreover have "branch ?ps (nat (?ps ! i)) \<noteq> []"
      using branch_last [OF t, of "nat (?ps ! i)"] tree_parentD [OF t child(1,2)] child(1) by simp
    ultimately show ?case using child(3) branch_step [OF t child(1,2)] by (cases "branch ?ps (nat (?ps ! i))") auto
  qed
qed

subsection \<open>The builders\<close>

text \<open>A draft that answers every request with as many tokens as were asked for.\<close>

definition draft_answers :: "('c :: linorder, 'k) tree_draft \<Rightarrow> nat \<Rightarrow> bool" where
  "draft_answers D b \<longleftrightarrow> (\<forall>ctx. \<exists>tb. td_top D ctx b = Inr tb) \<and> (\<forall>ctx. \<exists>x. td_prefill D ctx b = Inr x) \<and>
     (\<forall>kv toks p tm. \<exists>x. td_step D kv toks p tm b = Inr x)"

lemma truncate_open:
  "draft_node.truncate \<lparr>dn_tok = t, dn_parent = p, dn_depth = d, on_suffix = sf, on_score = v\<rparr> =
     \<lparr>dn_tok = t, dn_parent = p, dn_depth = d\<rparr>"
  "dn_depth (draft_node.truncate x) = dn_depth x"
  by (simp_all add: draft_node.defs)

lemma add_children_wf:
  assumes "add_children addc k idx nd tb tr fr = (tr', fr')" and "idx < length tr" and "nd = tr ! idx"
    and "tree_wf h (map draft_node.truncate tr)" and "\<forall>x \<in> set fr. snd x < length tr"
  shows "tree_wf h (map draft_node.truncate tr') \<and> (\<forall>x \<in> set fr'. snd x < length tr') \<and>
    length tr \<le> length tr' \<and> length tr' \<le> max (length tr) k"
  using assms
proof (induction addc k idx nd tb tr fr arbitrary: tr' fr' rule: add_children.induct)
  case (1 addc k idx nd tr fr)
  then show ?case by simp
next
  case (2 addc k idx nd ct v tb tr fr)
  show ?case
  proof (cases "k \<le> length tr")
    case True
    then show ?thesis using 2 by simp
  next
    case False
    let ?n = "\<lparr>dn_tok = ct, dn_parent = int idx, dn_depth = dn_depth nd + 1, on_suffix = on_suffix nd @ [ct],
        on_score = addc (on_score nd) v\<rparr>"
    have wf: "tree_wf h (map draft_node.truncate (tr @ [?n]))"
      using tree_wf_snoc [OF 2(5), of idx "dn_depth nd + 1" ct] 2(3,4) by (simp add: truncate_open)
    have "tree_wf h (map draft_node.truncate tr') \<and> (\<forall>x \<in> set fr'. snd x < length tr') \<and>
        length (tr @ [?n]) \<le> length tr' \<and> length tr' \<le> max (length (tr @ [?n])) k"
      using 2 False wf by (intro "2.IH" [OF False refl, of tr' fr']) (auto simp: nth_append Let_def)
    then show ?thesis using False by auto
  qed
qed

lemma grow_tree_wf:
  assumes "draft_answers D b" and "tree_wf h (map draft_node.truncate tr)" and "\<forall>x \<in> set fr. snd x < length tr"
  shows "\<exists>tr'. grow_tree D base hd_tok k b md tr fr = Inr tr' \<and> tree_wf h (map draft_node.truncate tr') \<and>
    length tr' \<le> max (length tr) k"
  using assms
proof (induction D base hd_tok k b md tr fr rule: grow_tree.induct)
  case (1 D base hd_tok k b md tr fr)
  show ?case
  proof (cases "k \<le> length tr \<or> fr = []")
    case True
    then show ?thesis using 1(4) by (subst grow_tree.simps) simp
  next
    case False
    let ?x = "heap_top fr" and ?fr = "remove1 (heap_top fr) fr"
    let ?nd = "tr ! snd ?x"
    have x: "?x \<in> set fr" using False heap_top_in by blast
    have fr: "\<forall>y \<in> set ?fr. snd y < length tr" using 1(5) by (meson notin_set_remove1)
    show ?thesis
    proof (cases "md \<le> dn_depth ?nd")
      case True
      then have "grow_tree D base hd_tok k b md tr fr = grow_tree D base hd_tok k b md tr ?fr"
        using False by (subst grow_tree.simps) (simp add: Let_def)
      then show ?thesis using 1(1) [OF False refl refl refl True 1(3,4) fr] by simp
    next
      case deep: False
      obtain tb where tb: "td_top D (base @ hd_tok # on_suffix ?nd) b = Inr tb" using 1(3) unfolding draft_answers_def by blast
      obtain tr2 fr2 where a: "add_children (td_add D) k (snd ?x) ?nd tb tr ?fr = (tr2, fr2)" by fastforce
      have "snd ?x < length tr" using x 1(5) by blast
      note wf = add_children_wf [OF a this refl 1(4) fr]
      have "grow_tree D base hd_tok k b md tr fr = grow_tree D base hd_tok k b md tr2 fr2"
        using False deep tb a by (subst grow_tree.simps) (simp add: Let_def)
      then show ?thesis using 1(2) [OF False refl refl refl deep tb a [symmetric] 1(3)] wf by auto
    qed
  qed
qed

lemma build_tree_wf:
  assumes "draft_answers D b"
  shows "\<exists>tr. build_tree D base h k b md = Inr tr \<and> tree_wf h tr \<and> length tr \<le> max 1 k"
  using grow_tree_wf [OF assms, of h "[\<lparr>dn_tok = h, dn_parent = - 1, dn_depth = 0, on_suffix = [], on_score = td_zero D\<rparr>]"
      "[(td_zero D, 0)]" base h k md] tree_wf_root [of h]
  by (auto simp: build_tree_def draft_node.defs)

text \<open>Level by level: the frontier's nodes are at one depth.\<close>

definition frontier_ok :: "nat \<Rightarrow> draft_node list \<Rightarrow> 'c beam_node list \<Rightarrow> bool" where
  "frontier_ok depth tr fr \<longleftrightarrow> (\<forall>f \<in> set fr. bn_node f < length tr \<and> dn_depth (tr ! bn_node f) = depth)"

lemma set_insert_desc: "set (insert_desc f x xs) = insert x (set xs)"
  by (induction f x xs rule: insert_desc.induct) auto

lemma set_sort_desc: "set (sort_desc f xs) = set xs"
  by (induction xs) (auto simp: sort_desc_def set_insert_desc)

lemma add_level_wf:
  assumes "add_level k beam depth nxt tr nf = (tr', nf')" and "tree_wf h tr"
    and "\<forall>(clp, par, sl, anc, tok) \<in> set nxt. par < length tr \<and> dn_depth (tr ! par) = depth"
    and "frontier_ok (depth + 1) tr nf"
  shows "tree_wf h tr' \<and> frontier_ok (depth + 1) tr' nf' \<and> length tr' \<le> max (length tr) k"
  using assms
proof (induction k beam depth nxt tr nf arbitrary: tr' nf' rule: add_level.induct)
  case (1 k beam depth tr nf)
  then show ?case by simp
next
  case (2 k beam depth clp par sl anc tok nxt tr nf)
  show ?case
  proof (cases "k \<le> length tr")
    case True
    then show ?thesis using 2 by simp
  next
    case False
    let ?tr = "tr @ [\<lparr>dn_tok = tok, dn_parent = int par, dn_depth = depth + 1\<rparr>]"
    let ?nf = "if length nf < beam then nf @ [\<lparr>bn_node = length tr, bn_anc = anc @ [sl], bn_score = clp\<rparr>] else nf"
    have wf: "tree_wf h ?tr" using tree_wf_snoc [OF 2(3), of par "depth + 1" tok] 2(4) by simp
    have "tree_wf h tr' \<and> frontier_ok (depth + 1) tr' nf' \<and> length tr' \<le> max (length ?tr) k"
      using 2 False wf by (intro "2.IH" [OF False, of tr' nf']) (auto simp: nth_append frontier_ok_def)
    then show ?thesis using False by auto
  qed
qed

lemma candidates_parent:
  assumes "(clp, par, sl, anc, tok) \<in> set (candidates addc cl fr rows)"
  shows "\<exists>f \<in> set fr. par = bn_node f"
proof -
  obtain i f tb where e: "(i, f, tb) \<in> set (enumerate 0 (zip fr rows))" and par: "par = bn_node f"
    using assms by (auto simp: candidates_def)
  have "snd (i, f, tb) \<in> set (map snd (enumerate 0 (zip fr rows)))" unfolding set_map by (rule imageI [OF e])
  then have "(f, tb) \<in> set (zip fr rows)" by simp
  then have "f \<in> set fr" by (rule set_zip_leftD)
  then show ?thesis using par by blast
qed

lemma grow_levels_wf:
  assumes "draft_answers D b" and "tree_wf h tr" and "frontier_ok depth tr fr"
  shows "\<exists>tr'. grow_levels D pl k b md beam depth kv tr fr = Inr tr' \<and> tree_wf h tr' \<and> length tr' \<le> max (length tr) k"
  using assms
proof (induction D pl k b md beam depth kv tr fr rule: grow_levels.induct)
  case (1 D pl k b md beam depth kv tr fr)
  show ?case
  proof (cases "fr = [] \<or> k \<le> length tr \<or> md \<le> depth")
    case True
    then show ?thesis using 1(3) by (subst grow_levels.simps) simp
  next
    case False
    obtain kv1 rows where st: "td_step D kv (map (\<lambda>f. dn_tok (tr ! bn_node f)) fr) (pl - 1 + depth)
        (beam_mask pl (td_len D kv) fr) b = Inr (kv1, rows)" using 1(2) by (auto simp: draft_answers_def) (metis surj_pair)
    let ?nxt = "sort_desc fst (candidates (td_add D) (td_len D kv) fr rows)"
    obtain tr1 fr1 where a: "add_level k beam depth ?nxt tr [] = (tr1, fr1)" by fastforce
    have par: "\<forall>(clp, par, sl, anc, tok) \<in> set ?nxt. par < length tr \<and> dn_depth (tr ! par) = depth"
      using candidates_parent 1(4) unfolding set_sort_desc by (fastforce simp: frontier_ok_def)
    note wf = add_level_wf [OF a 1(3) par]
    have "grow_levels D pl k b md beam depth kv tr fr = grow_levels D pl k b md beam (depth + 1) kv1 tr1 fr1"
      using False st a by (subst grow_levels.simps) (simp add: Let_def)
    then show ?thesis
      using 1(1) [OF False refl st refl a [symmetric] 1(2)] wf by (auto simp: frontier_ok_def)
  qed
qed

lemma first_level_wf:
  assumes "tree_wf h [r]" and "set cand \<subseteq> UNIV"
  shows "tree_wf h ([r] @ map (\<lambda>(tok, v). \<lparr>dn_tok = tok, dn_parent = 0, dn_depth = 1\<rparr>) cand)"
proof (induction cand rule: rev_induct)
  case (snoc x xs)
  obtain tok v where x: "x = (tok, v)" by (cases x)
  have "dn_depth ([r] ! 0) = 0" using assms by (simp add: tree_wf_def)
  then show ?case using tree_wf_snoc [OF snoc, of 0 1 tok] x by simp
qed (use assms in simp)

lemma build_tree_batched_wf:
  assumes "draft_answers D b"
  shows "\<exists>tr. build_tree_batched D base h k b md beam = Inr tr \<and> tree_wf h tr \<and> length tr \<le> max (beam + 1) k"
proof -
  obtain kv tb where p: "td_prefill D (base @ [h]) b = Inr (kv, tb)" using assms by (auto simp: draft_answers_def) (metis surj_pair)
  let ?r = "\<lparr>dn_tok = h, dn_parent = - 1, dn_depth = 0\<rparr>" and ?cand = "take beam (sort_desc snd (sort_desc fst tb))"
  obtain tr fr where f: "first_level beam tb [?r] = (tr, fr)" by fastforce
  have tr: "tr = [?r] @ map (\<lambda>(tok, v). \<lparr>dn_tok = tok, dn_parent = 0, dn_depth = 1\<rparr>) ?cand"
    using f by (simp add: first_level_def Let_def)
  have wf: "tree_wf h tr" unfolding tr by (rule first_level_wf [OF tree_wf_root]) simp
  have len: "length tr \<le> beam + 1" by (simp add: tr)
  have fro: "frontier_ok 1 tr fr"
    using f unfolding frontier_ok_def
    by (auto simp: first_level_def Let_def tr in_set_enumerate_eq nth_append case_prod_unfold)
  show ?thesis
    using grow_levels_wf [OF assms wf fro, of "length base + 1" k md beam kv] p f len
    by (auto simp: build_tree_batched_def)
qed

lemma make_tree_wf:
  assumes "draft_answers D (tg_branch G)"
  shows "\<exists>tr. make_tree G D base h = Inr tr \<and> tree_wf h tr \<and> length tr \<le> max (tg_beam G + 1) (tg_nodes G)"
  using build_tree_wf [OF assms, of base h "tg_nodes G" "tg_depth G"]
    build_tree_batched_wf [OF assms, of base h "tg_nodes G" "tg_depth G" "tg_beam G"]
  by (fastforce simp: make_tree_def)

subsection \<open>The accepted branch\<close>

abbreviation tree_ps :: "draft_node list \<Rightarrow> int list" where
  "tree_ps tr \<equiv> map dn_parent tr"

definition branch_toks :: "draft_node list \<Rightarrow> nat \<Rightarrow> int list" where
  "branch_toks tr i = map (\<lambda>j. dn_tok (tr ! j)) (branch (tree_ps tr) i)"

lemma matching_child_Some:
  assumes wf: "tree_wf h tr" and c: "matching_child tr cur p = Some c"
  shows "c < length tr \<and> cur < c \<and> dn_tok (tr ! c) = p \<and> branch (tree_ps tr) c = branch (tree_ps tr) cur @ [c]"
proof -
  have c: "c < length tr" "dn_parent (tr ! c) = int cur" "dn_tok (tr ! c) = p"
    using c by (auto simp: matching_child_def find_Some_iff)
  have t: "tree_parents (tree_ps tr)" using tree_wf_parents [OF wf] by blast
  have "0 < c" using c(2) wf by (cases "c = 0") (auto simp: tree_wf_def)
  then have "branch (tree_ps tr) c = branch (tree_ps tr) (nat (tree_ps tr ! c)) @ [c]" "nat (tree_ps tr ! c) < c"
    using branch_step [OF t] tree_parentD [OF t] c(1) by simp_all
  then show ?thesis using c by simp
qed

lemma accept_walk_greedy:
  assumes wf: "tree_wf h tr" and len: "length preds = length tr"
    and preds: "\<forall>i < length tr. preds ! i = nx (ctx @ branch_toks tr i)"
  shows "cur < length tr \<Longrightarrow> branch_toks tr cur = greedy nx ctx (length (branch (tree_ps tr) cur)) \<Longrightarrow>
    \<exists>path. accept_walk tr preds cur = Some (Inr path) \<and> path \<noteq> [] \<and> last path < length tr \<and>
      butlast (branch (tree_ps tr) cur) @ path = branch (tree_ps tr) (last path) \<and>
      branch_toks tr (last path) = greedy nx ctx (length (branch (tree_ps tr) (last path)))"
proof (induction "length tr - cur" arbitrary: cur rule: less_induct)
  case less
  have t: "tree_parents (tree_ps tr)" using tree_wf_parents [OF wf] by blast
  have bl: "butlast (branch (tree_ps tr) cur) @ [cur] = branch (tree_ps tr) cur"
    using branch_last [OF t, of cur] less.prems(1) by (metis append_butlast_last_id length_map)
  show ?case
  proof (cases "matching_child tr cur (preds ! cur)")
    case None
    then have "accept_walk tr preds cur = Some (Inr [cur])" using less.prems(1) len by (subst accept_walk.simps) simp
    then show ?thesis using less.prems bl by (intro exI [of _ "[cur]"]) simp
  next
    case (Some c)
    note mc = matching_child_Some [OF wf Some]
    have "branch_toks tr c = branch_toks tr cur @ [nx (ctx @ branch_toks tr cur)]"
      using mc preds less.prems(1) by (simp add: branch_toks_def)
    then have g: "branch_toks tr c = greedy nx ctx (length (branch (tree_ps tr) c))"
      using less.prems(2) mc greedy_snoc [of nx ctx "length (branch (tree_ps tr) cur)"] by simp
    have "length tr - c < length tr - cur" using mc by (intro diff_less_mono2) (auto elim: less_trans)
    then obtain path where path: "accept_walk tr preds c = Some (Inr path)" "path \<noteq> []" "last path < length tr"
        "butlast (branch (tree_ps tr) c) @ path = branch (tree_ps tr) (last path)"
        "branch_toks tr (last path) = greedy nx ctx (length (branch (tree_ps tr) (last path)))"
      using less.hyps [of c] mc g by blast
    have "accept_walk tr preds cur = Some (Inr (cur # path))"
      using less.prems(1) len Some path(1) by (subst accept_walk.simps) simp
    moreover have "butlast (branch (tree_ps tr) cur) @ cur # path = branch (tree_ps tr) (last path)"
      using path(4) mc bl by (metis append.assoc append_Cons append_Nil butlast_snoc)
    ultimately show ?thesis using path(2,3,5) by (intro exI [of _ "cur # path"]) simp
  qed
qed

text \<open>The accepted nodes are a branch, and with the target's next token they spell the greedy
  continuation from the head on.\<close>

lemma accept_tree_greedy:
  assumes wf: "tree_wf (nx ctx) tr" and len: "length preds = length tr"
    and preds: "\<forall>i < length tr. preds ! i = nx (ctx @ branch_toks tr i)"
  shows "\<exists>i com. i < length tr \<and> accept_tree tr preds = Some (Inr (com, branch (tree_ps tr) i, last com)) \<and>
    branch_toks tr i = greedy nx ctx (length (branch (tree_ps tr) i)) \<and>
    nx ctx # com = greedy nx ctx (length (branch (tree_ps tr) i) + 1)"
proof -
  have t: "tree_parents (tree_ps tr)" "dn_tok (tr ! 0) = nx ctx" "0 < length tr"
    using tree_wf_parents [OF wf] wf by (auto simp: tree_wf_def)
  have "branch_toks tr 0 = greedy nx ctx (length (branch (tree_ps tr) 0))"
    by (simp add: branch_toks_def branch_root [OF t(1)] t(2))
  then obtain path where path: "accept_walk tr preds 0 = Some (Inr path)" "path \<noteq> []" "last path < length tr"
      "path = branch (tree_ps tr) (last path)" "branch_toks tr (last path) = greedy nx ctx (length path)"
    using accept_walk_greedy [OF wf len preds t(3)] branch_root [OF t(1)] by force
  let ?com = "map (\<lambda>j. dn_tok (tr ! j)) (tl path) @ [preds ! last path]"
  have toks: "map (\<lambda>j. dn_tok (tr ! j)) path = greedy nx ctx (length path)"
    using path(4,5) by (simp add: branch_toks_def)
  have "hd path = 0" using branch_last [OF t(1), of "last path"] path(3,4) by simp
  then have "nx ctx # ?com = map (\<lambda>j. dn_tok (tr ! j)) path @ [preds ! last path]"
    using path(2) t(2) by (cases path) auto
  also have "\<dots> = greedy nx ctx (length path + 1)"
    using preds path(3,5) toks greedy_snoc [of nx ctx "length path"] by simp
  finally have g: "nx ctx # ?com = greedy nx ctx (length path + 1)" .
  have "accept_tree tr preds = Some (Inr (?com, path, last ?com))" using path(1) by (simp add: accept_tree_def)
  then show ?thesis using path(3,4,5) g by metis
qed

end
