(* ===== verification/Tree_Decode_Spec.thy ===== *)
theory Tree_Decode_Spec
  imports Draft_Tree Generation_Spec
begin

section \<open>Tree drafting changes nothing\<close>

text \<open>
  A tree pass over the mesh gives, for every node, what the whole model says after the node's
  branch; the accepted branch is the greedy continuation, and the caches that are left are those of
  the committed tokens.  So the stream of a tree-drafted generation is the greedy one, for any
  draft and either way of building the tree.
\<close>

subsection \<open>Tensors and libraries of a tree pass\<close>

definition int32_list :: "int list \<Rightarrow> bool" where
  "int32_list xs \<longleftrightarrow> xs \<noteq> [] \<and> (\<forall>x \<in> set xs. - (2 ^ 31) \<le> x \<and> x < 2 ^ 31)"

text \<open>A tree of at most \<open>cap\<close> nodes can be packed.\<close>

definition codec_ok :: "nat \<Rightarrow> ('h list \<Rightarrow> tensor) \<Rightarrow> tree_codec \<Rightarrow> bool" where
  "codec_ok cap enc T \<longleftrightarrow>
     (\<forall>hs. hs \<noteq> [] \<and> length hs \<le> cap \<longrightarrow> tensor_ok (enc hs) \<and> (\<exists>b. pack_sized (enc hs) = Inr b) \<and> float_dtype (t_dtype (enc hs))) \<and>
     (\<forall>xs. int32_list xs \<and> length xs \<le> cap \<longrightarrow> tensor_ok (tc_i32 T (tc_long T xs)) \<and>
        (\<exists>b. pack_sized (tc_i32 T (tc_long T xs)) = Inr b))"

definition tree_lib ::
  "('e, 'h, 'l) model_ops \<Rightarrow> nat \<Rightarrow> nat \<Rightarrow> ('h list \<Rightarrow> tensor) \<Rightarrow> tree_codec \<Rightarrow> nat list \<Rightarrow> 'e stage_lib \<Rightarrow> bool" where
  "tree_lib M n cap enc T gs L \<longleftrightarrow> sl_slots L = n \<and>
     (\<forall>xs t. int32_list xs \<and> length xs \<le> cap \<and> t \<in> {tc_long T xs, tc_i32 T (tc_long T xs)} \<longrightarrow> sl_tolist L t = Inr xs) \<and>
     (\<forall>hs pos tm c t. hs \<noteq> [] \<and> length hs \<le> cap \<and> length pos = length hs \<and> length tm = length hs \<and> length c = n \<and>
        int32_list (map int pos) \<and> t \<in> {tc_long T (map int pos), tc_i32 T (tc_long T (map int pos))} \<longrightarrow>
        sl_forward L (TreeMasked t tm) (enc hs) c =
          (case masked_stage M gs c hs pos tm of (o1, c') \<Rightarrow> (c', Inr (enc o1))))"

subsection \<open>One holder\<close>

text \<open>What a tree of the nodes \<open>hs\<close> with parents \<open>ps\<close>, after \<open>p\<close> cached tokens, looks like.\<close>

definition tree_batch :: "nat \<Rightarrow> nat \<Rightarrow> int list \<Rightarrow> nat list \<Rightarrow> 'h list \<Rightarrow> bool" where
  "tree_batch cap p ps pos hs \<longleftrightarrow> tree_parents ps \<and> length ps \<le> cap \<and> cap < 2 ^ 31 \<and> p + cap < 2 ^ 31 \<and>
     pos = map (\<lambda>i. p + (length (branch ps i) - 1)) [0 ..< length ps] \<and> length hs = length ps"

lemma branch_short:
  assumes t: "tree_parents ps" and i: "i < length ps"
  shows "length (branch ps i) \<le> length ps"
  unfolding branch_def by (metis diff_zero length_filter_le length_upt)

lemma tree_batch_ints:
  assumes "tree_batch cap p ps pos hs"
  shows "int32_list ps \<and> int32_list (map int pos) \<and> length pos = length ps \<and> hs \<noteq> [] \<and> length hs \<le> cap \<and> length ps \<le> cap"
proof -
  have t: "tree_parents ps" and l: "length ps \<le> cap" "p + cap < 2 ^ 31" "cap < 2 ^ 31" "length hs = length ps"
    and pos: "pos = map (\<lambda>i. p + (length (branch ps i) - 1)) [0 ..< length ps]"
    using assms by (auto simp: tree_batch_def)
  have ne: "ps \<noteq> []" using t by (simp add: tree_parents_def)
  have "- (2 ^ 31) \<le> x \<and> x < 2 ^ 31" if x: "x \<in> set ps" for x
  proof -
    obtain i where i: "i < length ps" "ps ! i = x" using x by (auto simp: in_set_conv_nth)
    have "x < int i" using tree_parents_ok [OF t] i by blast
    moreover have "- 1 \<le> x" using tree_parents_ok [OF t] x by (simp add: parents_ok_def)
    ultimately show ?thesis using i(1) l(1,3) by simp
  qed
  moreover have "q < 2 ^ 31" if q: "q \<in> set pos" for q
  proof -
    obtain i where i: "i < length ps" "q = p + (length (branch ps i) - 1)" using q pos by auto
    then show ?thesis using branch_short [OF t i(1)] l by linarith
  qed
  ultimately show ?thesis using ne l pos by (fastforce simp: int32_list_def)
qed

lemma pack_tree_ok:
  assumes cod: "codec_ok cap enc T" and b: "tree_batch cap p ps pos hs" and ids: "id_ok session" "id_ok (int p)"
  shows "\<exists>body. pack_tree_activation (tc_i32 T) session (int p) (enc hs) (tc_long T (map int pos)) (tc_long T ps) FLAG_NONE = Inr body \<and>
    unpack_tree_activation body = Inr (session, int p, FLAG_NONE, [enc hs, tc_i32 T (tc_long T (map int pos)), tc_i32 T (tc_long T ps)])"
proof -
  note n = tree_batch_ints [OF b]
  let ?a = "enc hs" and ?b = "tc_i32 T (tc_long T (map int pos))" and ?c = "tc_i32 T (tc_long T ps)"
  have ok: "tensor_ok ?a" "tensor_ok ?b" "tensor_ok ?c"
    and packs: "\<exists>b. pack_sized ?a = Inr b" "\<exists>b. pack_sized ?b = Inr b" "\<exists>b. pack_sized ?c = Inr b"
    using cod n by (auto simp: codec_ok_def)
  have "\<exists>h. activation_head session (int p) FLAG_NONE = Inr h"
    by (simp add: activation_head_def pack_uint_def FLAG_NONE_def)
  moreover have pt: "\<exists>b. pack_tensor t = Inr b" if "\<exists>b. pack_sized t = Inr b" for t
    using that by (auto simp: pack_sized_def bindE_Inr_iff)
  ultimately obtain body where body: "pack_three session (int p) FLAG_NONE ?a ?b ?c = Inr body"
    using packs pt [OF packs(1)] pt [OF packs(2)] pt [OF packs(3)] unfolding pack_three_def by fastforce
  then show ?thesis
    using three_roundtrip [OF body ok] ids
    by (auto simp: pack_tree_activation_def unpack_tree_activation_def id_ok_def)
qed

lemma worker_tree:
  assumes L: "tree_lib M n cap enc T gs L" and rep: "tensor_rep enc" and cod: "codec_ok cap enc T"
    and b: "tree_batch cap p ps pos hs" and tm: "build_tree_mask ps p = Some (Inr tm)"
    and ids: "id_ok session" "id_ok (int p)" and c: "cached n p session w c"
    and body: "unpack_tree_activation body = Inr (session, int p, FLAG_NONE, [enc hs, tc_i32 T (tc_long T (map int pos)), tc_i32 T (tc_long T ps)])"
    and f: "masked_stage M gs c hs pos tm = (o1, c')"
  shows "answers L enc (msg_code TREE_ACTIVATION) body w session o1 c' TYPE('net)"
  unfolding answers_def
proof (intro allI)
  fix P :: "'net peers" and now net
  note nb = tree_batch_ints [OF b]
  have t: "tree_parents ps" using b by (simp add: tree_batch_def)
  have tmf: "tree_mask_for ps p tm" using build_tree_mask_for [OF t, of p] tm by auto
  have lhs: "length hs = length ps" using b by (simp add: tree_batch_def)
  have len: "length tm = length hs" "length pos = length hs" using tmf lhs nb by (simp_all add: tree_mask_for_def)
  have lo: "length o1 = length hs" using masked_stage_length [of hs tm pos M gs c] f len by simp
  have cap: "cap < 2 ^ 31" using b by (simp add: tree_batch_def)
  have bo: "batch_ok o1" using nb lo cap by (auto simp: batch_ok_def)
  obtain body' where b': "pack_activation session (int p) (enc o1) FLAG_NONE = Inr body'"
    using pack_activation_rep [OF rep bo] by blast
  have tl: "sl_tolist L (tc_i32 T (tc_long T ps)) = Inr ps" using L nb by (simp add: tree_lib_def)
  have flt: "float_dtype (t_dtype (enc hs))" using cod nb by (simp add: codec_ok_def)
  have fwd: "sl_forward L (TreeMasked (tc_i32 T (tc_long T (map int pos))) tm) (enc hs) c = (c', Inr (enc o1))"
  proof -
    have "length c = n" using c by (simp add: cached_def)
    then have "sl_forward L (TreeMasked (tc_i32 T (tc_long T (map int pos))) tm) (enc hs) c =
        (case masked_stage M gs c hs pos tm of (o1, c') \<Rightarrow> (c', Inr (enc o1)))"
      using L nb len unfolding tree_lib_def by blast
    then show ?thesis by (simp add: f)
  qed
  have gc: "get_cache (sl_slots L) session (int p) now w =
      (c, w\<lparr>w_sessions := dset session c (w_sessions w), w_touch := dset session now (w_touch w)\<rparr>)"
    using get_cache_cached [OF c] L by (simp add: tree_lib_def)
  define w' where "w' = put_cache session c' (w\<lparr>w_sessions := dset session c (w_sessions w),
    w_touch := dset session now (w_touch w)\<rparr>)"
  have "handle_tree L now body w = (w', Reply (msg_code RESULT) body')"
    unfolding handle_tree_def body run_stage_def
    using gc tl flt tm fwd b' by (simp add: reply_activation_def w'_def)
  moreover have "map_of (w_sessions w') session = Some c'"
    by (simp add: w'_def put_cache_def dict_simps)
  moreover have "msg_of_code (msg_code TREE_ACTIVATION) = Some TREE_ACTIVATION" by (rule msg_of_code_of)
  moreover have "result_hidden (msg_code RESULT, body') = Inr (enc o1)"
    using unpack_activation_rep [OF rep bo b' ids] by (simp add: result_hidden_def)
  ultimately show "\<exists>w' body'. handle_frame L P now (msg_code TREE_ACTIVATION) body w [] net = (w', [], net, Reply (msg_code RESULT) body') \<and>
     result_hidden (msg_code RESULT, body') = Inr (enc o1) \<and> map_of (w_sessions w') session = Some c'"
    by (auto simp: handle_frame_def)
qed

subsection \<open>The pass over the route\<close>

text \<open>The holders of the route serve trees as well.\<close>

definition tree_route ::
  "'e mesh_env \<Rightarrow> ('e, 'h, 'l) model_ops \<Rightarrow> nat \<Rightarrow> nat \<Rightarrow> ('h list \<Rightarrow> tensor) \<Rightarrow> tree_codec \<Rightarrow> (string \<Rightarrow> nat list) \<Rightarrow> node list \<Rightarrow> bool" where
  "tree_route E M n cap enc T lay rt \<longleftrightarrow> (\<forall>nd \<in> set rt. tree_lib M n cap enc T (lay (node_id nd)) (me_lib E (node_id nd)))"

lemma tree_star_ok:
  assumes rep: "tensor_rep enc" and cod: "codec_ok cap enc T" and ids: "id_ok session" "id_ok (int p)" and quiet: "quiet_net E"
    and tm: "build_tree_mask ps p = Some (Inr tm)"
  shows "tree_batch cap p ps pos hs \<Longrightarrow> route_good E cluster M n enc lay m rt \<Longrightarrow> tree_route E M n cap enc T lay rt \<Longrightarrow>
    at_holders n p session m rt cs \<Longrightarrow> conns_open m \<Longrightarrow>
    masked_stages M (map (\<lambda>nd. lay (node_id nd)) rt) cs hs pos tm = (o1, cs') \<Longrightarrow>
    \<exists>m'. tree_star E T cluster session (int p) (tc_long T (map int pos)) (tc_long T ps) rt (enc hs) m = (m', Inr (enc o1)) \<and>
      workers_frame (node_id ` set rt) m m' \<and> tables_frame m m' \<and> conns_open m' \<and> conns_frame (node_id ` set rt) m m' \<and>
      hold session m' rt cs'"
proof (induction rt arbitrary: m cs hs cs')
  case Nil
  then show ?case by (auto simp: at_holders_def hold_def conns_frame_def)
next
  case (Cons nd rt)
  let ?nid = "node_id nd"
  obtain c cs2 w where c: "cs = c # cs2" "map_of (m_workers m) ?nid = Some w" "cached n p session w c"
      "at_holders n p session m rt cs2"
    using Cons.prems(4) by (auto simp: at_holders_def list_all2_Cons1)
  have nd: "node_key cluster nd = Inr (me_key E ?nid)" "?nid \<notin> node_id ` set rt"
      "tree_lib M n cap enc T (lay ?nid) (me_lib E ?nid)"
    and rtg: "route_good E cluster M n enc lay m rt" "tree_route E M n cap enc T lay rt"
    using Cons.prems(2,3) by (auto simp: route_good_def tree_route_def)
  obtain h1 c' where f: "masked_stage M (lay ?nid) c hs pos tm = (h1, c')" by fastforce
  obtain cs3 where f2: "masked_stages M (map (\<lambda>nd. lay (node_id nd)) rt) cs2 h1 pos tm = (o1, cs3)" "cs' = c' # cs3"
    using Cons.prems(6) f c(1) by (auto split: prod.splits)
  obtain body where body: "pack_tree_activation (tc_i32 T) session (int p) (enc hs) (tc_long T (map int pos)) (tc_long T ps) FLAG_NONE = Inr body"
      "unpack_tree_activation body = Inr (session, int p, FLAG_NONE, [enc hs, tc_i32 T (tc_long T (map int pos)), tc_i32 T (tc_long T ps)])"
    using pack_tree_ok [OF cod Cons.prems(1) ids] by blast
  note ans = worker_tree [OF nd(3) rep cod Cons.prems(1) tm ids c(3) body(2) f]
  obtain m1 r1 where h: "tree_hop E T (me_key E ?nid) session (int p) (tc_long T (map int pos)) (tc_long T ps) ?nid (enc hs) m = (m1, r1)"
    by fastforce
  note ok = hop_answer [OF c(2) refl ans h [unfolded tree_hop_def body(1) sum.case]]
  have one: "r1 = Inr (enc h1)" "workers_frame {?nid} m m1" "tables_frame m m1" "conns_open m1" "conns_frame {?nid} m m1"
      "\<exists>w'. map_of (m_workers m1) ?nid = Some w' \<and> map_of (w_sessions w') session = Some c'"
    using ok quiet Cons.prems(5) by auto
  have l1: "length h1 = length hs"
  proof -
    have t: "tree_parents ps" "length pos = length hs" "length hs = length ps"
      using Cons.prems(1) tree_batch_ints [OF Cons.prems(1)] by (auto simp: tree_batch_def)
    then have "length tm = length hs" using build_tree_mask_for [OF t(1), of p] tm by (auto simp: tree_mask_for_def)
    then show ?thesis using masked_stage_length [of hs tm pos M "lay ?nid" c] f t(2) by simp
  qed
  have b1: "tree_batch cap p ps pos h1" using Cons.prems(1) l1 by (simp add: tree_batch_def)
  have away: "{?nid} \<inter> node_id ` set rt = {}" using nd(2) by simp
  have at1: "at_holders n p session m1 rt cs2" using at_holders_frame [OF one(2) away] c(4) by simp
  obtain m' where IH: "tree_star E T cluster session (int p) (tc_long T (map int pos)) (tc_long T ps) rt (enc h1) m1 = (m', Inr (enc o1))"
      "workers_frame (node_id ` set rt) m1 m'" "tables_frame m1 m'" "conns_open m'" "conns_frame (node_id ` set rt) m1 m'"
      "hold session m' rt cs3"
    using Cons.IH [OF b1 route_good_frame [OF one(2) rtg(1)] rtg(2) at1 one(4) f2(1)] by blast
  have "tree_star E T cluster session (int p) (tc_long T (map int pos)) (tc_long T ps) (nd # rt) (enc hs) m = (m', Inr (enc o1))"
    using nd(1) h one(1) IH(1) by simp
  moreover have "workers_frame (node_id ` set (nd # rt)) m m'" using workers_frame_trans [OF one(2) IH(2)] by simp
  moreover have "tables_frame m m'" using tables_frame_trans one(3) IH(3) by blast
  moreover have "conns_frame (node_id ` set (nd # rt)) m m'" using one(5) IH(5) by (auto simp: conns_frame_def)
  moreover have "map_of (m_workers m') ?nid = map_of (m_workers m1) ?nid" using IH(2) nd(2) by (simp add: workers_frame_def)
  then have "hold session m' (nd # rt) cs'" using one(6) IH(6) f2(2) by (simp add: hold_def)
  ultimately show ?case using IH(4) by blast
qed

subsection \<open>The co-located stage\<close>

definition local_tree ::
  "('e, 'h, 'l) model_ops \<Rightarrow> nat \<Rightarrow> nat \<Rightarrow> ('h list \<Rightarrow> tensor) \<Rightarrow> tree_codec \<Rightarrow> nat list option \<Rightarrow> 'e stage_lib option \<Rightarrow> bool" where
  "local_tree M n cap enc T ll L \<longleftrightarrow>
     (case (ll, L) of (None, None) \<Rightarrow> True | (Some gs, Some lb) \<Rightarrow> tree_lib M n cap enc T gs lb | _ \<Rightarrow> False)"

abbreviation local_layers :: "nat list option \<Rightarrow> nat list list" where
  "local_layers ll \<equiv> (case ll of None \<Rightarrow> [] | Some gs \<Rightarrow> [gs])"

definition local_tree_step ::
  "('e, 'l) coord \<Rightarrow> int \<Rightarrow> nat \<Rightarrow> tensor \<Rightarrow> tensor \<Rightarrow> tensor \<Rightarrow> ('e, 'p) mesh \<Rightarrow> ('e, 'p) mesh \<times> tensor result option" where
  "local_tree_step C session pos hidden tpos parents m =
     (case co_local C of None \<Rightarrow> (m, Some (Inr hidden)) | Some L \<Rightarrow> run_local_tree L session pos hidden tpos parents m)"

lemma local_tree_ok:
  assumes "local_tree M n cap enc T ll (co_local C)" and cod: "codec_ok cap enc T"
    and b: "tree_batch cap p ps pos hs" and tm: "build_tree_mask ps p = Some (Inr tm)"
    and c: "local_cached n p session ll m lcs"
    and f: "masked_stages M (local_layers ll) lcs hs pos tm = (o1, lcs')"
  shows "\<exists>m'. local_tree_step C session p (enc hs) (tc_long T (map int pos)) (tc_long T ps) m = (m', Some (Inr (enc o1))) \<and>
    local_holds session ll m' lcs' \<and> (\<exists>d. m' = m\<lparr>m_local := d\<rparr>)"
proof (cases ll)
  case None
  then show ?thesis using assms by (auto simp: local_tree_def local_cached_def local_tree_step_def local_holds_def
        split: option.splits intro: exI [of _ "m_local m"])
next
  case (Some gs)
  obtain L where L: "co_local C = Some L" "tree_lib M n cap enc T gs L"
    using assms(1) Some by (auto simp: local_tree_def split: option.splits)
  obtain c0 where c0: "lcs = [c0]" "length c0 = n"
      "if p = 0 then c0 = replicate n [] else map_of (m_local m) session = Some c0"
    using c Some by (auto simp: local_cached_def)
  obtain c' where s: "masked_stage M gs c0 hs pos tm = (o1, c')" "lcs' = [c']"
    using f Some c0(1) by (auto split: prod.splits)
  note nb = tree_batch_ints [OF b]
  have t: "tree_parents ps" "length hs = length ps" using b by (simp_all add: tree_batch_def)
  have len: "length tm = length hs" "length pos = length hs"
    using build_tree_mask_for [OF t(1), of p] tm t(2) nb by (auto simp: tree_mask_for_def)
  have start: "(case map_of (m_local m) session of None \<Rightarrow> replicate (sl_slots L) []
      | Some kv \<Rightarrow> if p = 0 then replicate (sl_slots L) [] else kv) = c0"
    using c0 L(2) by (auto simp: tree_lib_def split: if_splits option.splits)
  have flt: "float_dtype (t_dtype (enc hs))" using cod nb by (simp add: codec_ok_def)
  have tl: "sl_tolist L (tc_long T ps) = Inr ps" using L(2) nb by (simp add: tree_lib_def)
  have "sl_forward L (TreeMasked (tc_long T (map int pos)) tm) (enc hs) c0 =
      (case masked_stage M gs c0 hs pos tm of (o1, c') \<Rightarrow> (c', Inr (enc o1)))"
    using L(2) nb len c0(2) unfolding tree_lib_def by blast
  then show ?thesis
    using start flt tl tm L(1) Some s
    by (auto simp: local_tree_step_def run_local_tree_def Let_def local_holds_def dict_simps)
qed

lemma masked_stages_app:
  "length s1 = length c1 \<Longrightarrow> masked_stages M (s1 @ s2) (c1 @ c2) hs ps tm =
     (case masked_stages M s1 c1 hs ps tm of (h, d1) \<Rightarrow>
        (case masked_stages M s2 c2 h ps tm of (o1, d2) \<Rightarrow> (o1, d1 @ d2)))"
  by (induction s1 c1 arbitrary: hs rule: list_induct2) (auto split: prod.splits)

subsection \<open>A pass on a steady mesh\<close>

text \<open>Every holder and the coordinator's own stage serve trees of up to \<open>cap\<close> nodes.\<close>

definition tree_system ::
  "'e mesh_env \<Rightarrow> ('e, 'l) coord \<Rightarrow> ('e, 'h, 'l) model_ops \<Rightarrow> nat \<Rightarrow> nat \<Rightarrow> ('h list \<Rightarrow> tensor) \<Rightarrow> tree_codec \<Rightarrow>
   (string \<Rightarrow> nat list) \<Rightarrow> nat list option \<Rightarrow> string set \<Rightarrow> bool" where
  "tree_system E C M n cap enc T lay ll names \<longleftrightarrow> codec_ok cap enc T \<and> local_tree M n cap enc T ll (co_local C) \<and>
     (\<forall>nid \<in> names. tree_lib M n cap enc T (lay nid) (me_lib E nid))"

text \<open>The session's caches are those of \<open>ctx\<close>, and no worker off its route has cached anything for it.\<close>

definition off_route :: "nat list option \<Rightarrow> int \<Rightarrow> node list \<Rightarrow> ('e, 'p) mesh \<Rightarrow> bool" where
  "off_route ll session rt m \<longleftrightarrow> (ll = None \<longrightarrow> map_of (m_local m) session = None) \<and> (\<forall>nid w c. nid \<notin> node_id ` set rt \<and> map_of (m_workers m) nid = Some w \<and>
     map_of (w_sessions w) session = Some c \<longrightarrow> (\<forall>l \<in> set c. l = []))"

definition alone :: "nat list option \<Rightarrow> int \<Rightarrow> ('e, 'p) mesh \<Rightarrow> bool" where
  "alone ll session m \<longleftrightarrow> (\<forall>rt. map_of (m_routes m) session = Some rt \<longrightarrow> off_route ll session rt m)"

lemma warm_parts:
  assumes "warm E C M n enc lay ll session ctx m"
  shows "\<exists>rt lcs cs. map_of (m_routes m) session = Some rt \<and> session_bound (m_prov m) session rt \<and>
    serves E (co_key C) M n enc lay ll (dom (map_of (m_workers m))) rt \<and> node_id ` set rt \<subseteq> dom (map_of (m_conns m)) \<and>
    local_holds session ll m lcs \<and> hold session m rt cs \<and> lcs @ cs = snd (split_run M n (all_stages ll lay rt) ctx)"
proof -
  obtain rt0 where r0: "map_of (m_routes m) session = Some rt0" "node_id ` set rt0 \<subseteq> dom (map_of (m_conns m))"
    using assms unfolding warm_def attached_def by blast
  obtain rt lcs cs where r: "uses_route (Some session_bound) session m rt" "serves E (co_key C) M n enc lay ll (dom (map_of (m_workers m))) rt"
      "local_holds session ll m lcs" "hold session m rt cs" "lcs @ cs = snd (split_run M n (all_stages ll lay rt) ctx)"
    using assms unfolding warm_def in_session_def by blast
  have eq: "rt0 = rt" using r0(1) r(1) by (simp add: uses_route_def)
  have "session_bound (m_prov m) session rt" using r(1) by (simp add: uses_route_def)
  then show ?thesis using r0 r(2-5) unfolding eq by blast
qed

text \<open>What a tree pass leaves: the caches of the stages after the whole tree, and its outputs.\<close>

definition tree_passed where
  "tree_passed E C M n enc lay ll session ctx rt toks ps os cs m' \<longleftrightarrow>
     mesh_steady E C M n enc lay ll m' \<and> map_of (m_routes m') session = Some rt \<and> session_bound (m_prov m') session rt \<and>
     serves E (co_key C) M n enc lay ll (dom (map_of (m_workers m'))) rt \<and> node_id ` set rt \<subseteq> dom (map_of (m_conns m')) \<and>
     length os = length ps \<and>
     list_all2 (\<lambda>gs c. kv_slots n gs (length ctx + length ps) c) (all_stages ll lay rt) cs \<and>
     (\<exists>lcs rcs. cs = lcs @ rcs \<and> local_holds session ll m' lcs \<and> hold session m' rt rcs) \<and>
     (\<forall>i < length ps. split_step M n (all_stages ll lay rt) ctx (map ((!) toks) (branch ps i)) =
        (map ((!) os) (branch ps i), map (\<lambda>c. fst (kv_keep_tree_path (length ctx) (map int (branch ps i)) c)) cs))"

lemma holds_ready:
  assumes "hold session m rt cs" and "0 < p" and "\<forall>c \<in> set cs. length c = n"
  shows "at_holders n p session m rt cs"
  using assms unfolding hold_def at_holders_def cached_def by (auto simp: list_all2_conv_all_nth)

lemma local_ready:
  assumes "local_holds session ll m lcs" and "0 < p" and "\<forall>c \<in> set lcs. length c = n"
  shows "local_cached n p session ll m lcs"
  using assms unfolding local_holds_def local_cached_def by (auto split: option.splits)

lemma tree_pass:
  assumes st: "mesh_steady E C M n enc lay ll m" and session: "id_ok session"
    and tsys: "tree_system E C M n cap enc T lay ll (dom (map_of (m_workers m)))"
    and w: "warm E C M n enc lay ll session ctx m" and ctx: "ctx \<noteq> []" and off: "alone ll session m"
    and b: "tree_batch cap (length ctx) ps pos (map (m_embed M) toks)"
  shows "\<exists>m' h rt os cs. relay_tree E T C local_provider session (length ctx) (co_embed C toks) (tc_long T (map int pos)) (tc_long T ps) m =
      (m', Some (Inr h)) \<and> map (co_argmax C) (co_rows C h) = map (\<lambda>o1. m_argmax M (m_head M o1)) os \<and>
    tree_passed E C M n enc lay ll session ctx rt toks ps os cs m' \<and> off_route ll session rt m' \<and>
    dom (map_of (m_workers m')) = dom (map_of (m_workers m))"
proof -
  let ?w = "dom (map_of (m_workers m))" and ?p = "length ctx" and ?hs = "map (m_embed M) toks"
  have sys: "system_ok E C M n enc ll" and mesh: "mesh_inv E (co_key C) M n enc lay ll ?w m"
    and calm: "route_source.calm (\<lambda>r. coverage_ok (topo r)) E m" and key: "keyed E (co_key C) m"
    using steady_parts [OF st refl] by blast+
  have parts: "tensor_rep enc" "parts_ok M enc C" using sys by (auto simp: system_ok_def)
  have cod: "codec_ok cap enc T" and lt: "local_tree M n cap enc T ll (co_local C)" using tsys by (simp_all add: tree_system_def)
  have quiet: "quiet_net E" "conns_open m" using calm by (simp_all add: lp.calm_def)
  obtain rt lcs cs where r: "map_of (m_routes m) session = Some rt" "session_bound (m_prov m) session rt"
      "serves E (co_key C) M n enc lay ll ?w rt" "node_id ` set rt \<subseteq> dom (map_of (m_conns m))"
      "local_holds session ll m lcs" "hold session m rt cs" "lcs @ cs = snd (split_run M n (all_stages ll lay rt) ctx)"
    using warm_parts [OF w] by blast
  note wf = serves_wf [OF r(3)]
  have len0: "\<forall>c \<in> set (lcs @ cs). length c = n" unfolding r(7) by (rule split_run_width)
  have pp: "0 < ?p" using ctx by simp
  have t: "tree_parents ps" "length toks = length ps" and posdef: "pos = map (\<lambda>i. ?p + (length (branch ps i) - 1)) [0 ..< length ps]"
    and plen: "?p < 2 ^ 32" using b by (auto simp: tree_batch_def)
  obtain tm where tm: "build_tree_mask ps ?p = Some (Inr tm)" "tree_mask_for ps ?p tm"
    using build_tree_mask_for [OF t(1)] by blast
  have pid: "id_ok (int ?p)" using plen by (simp add: id_ok_def)
  have emb: "co_embed C toks = enc ?hs" using parts(2) by (simp add: parts_ok_def)
  obtain o1 lcs' where f1: "masked_stages M (local_layers ll) lcs ?hs pos tm = (o1, lcs')" by fastforce
  have lc: "local_cached n ?p session ll m lcs" using local_ready [OF r(5) pp] len0 by simp
  obtain m1 where l: "local_tree_step C session ?p (enc ?hs) (tc_long T (map int pos)) (tc_long T ps) m = (m1, Some (Inr (enc o1)))"
      "local_holds session ll m1 lcs'" "\<exists>d. m1 = m\<lparr>m_local := d\<rparr>"
    using local_tree_ok [OF lt cod b tm(1) lc f1] by blast
  have m1: "m_workers m1 = m_workers m" "m_routes m1 = m_routes m" "m_conns m1 = m_conns m" "m_prov m1 = m_prov m" "m_keys m1 = m_keys m"
    using l(3) by auto
  have pin: "pinned_route (co_key C) local_provider session 1 m1 = (m1, Inr rt)"
    using r(1) m1 by (simp add: pinned_route_def)
  obtain o2 cs' where f2: "masked_stages M (map (\<lambda>nd. lay (node_id nd)) rt) cs o1 pos tm = (o2, cs')" by fastforce
  have ll: "length (local_layers ll) = length lcs" using r(5) by (auto simp: local_holds_def split: option.splits)
  have all: "masked_stages M (all_stages ll lay rt) (lcs @ cs) ?hs pos tm = (o2, lcs' @ cs')"
    using masked_stages_app [OF ll, of M "map (\<lambda>nd. lay (node_id nd)) rt" cs ?hs pos tm] f1 f2 by (simp add: all_stages_def)
  have slots: "list_all2 (\<lambda>gs c. kv_slots n gs ?p c) (all_stages ll lay rt) (lcs @ cs)"
    unfolding r(7) by (rule split_run_slots [OF wf])
  have lhs: "length ?hs = length ps" using t(2) by simp
  note br = masked_stages_branch [OF t(1) tm(2) posdef _ slots lhs all]
  have root: "0 < length ps" using t(1) by (simp add: tree_parents_def)
  have lo1: "length o1 = length ps"
    using masked_stages_branch [OF t(1) tm(2) posdef root, of n "local_layers ll" lcs ?hs M o1 lcs'] f1 lhs slots ll
    by (simp add: all_stages_def list_all2_append)
  have b1: "tree_batch cap ?p ps pos o1" using b lo1 by (simp add: tree_batch_def)
  have rg: "route_good E (co_key C) M n enc lay m1 rt" using serves_route_good [OF r(3)] by (simp add: route_good_def m1)
  have tr: "tree_route E M n cap enc T lay rt" using tsys r(3) by (auto simp: tree_route_def tree_system_def serves_def)
  have at1: "at_holders n ?p session m1 rt cs" using holds_ready [OF r(6) pp] len0 by (simp add: at_holders_def m1)
  have op1: "conns_open m1" using quiet(2) m1 by (simp add: conns_open_def)
  obtain m' where s: "tree_star E T (co_key C) session (int ?p) (tc_long T (map int pos)) (tc_long T ps) rt (enc o1) m1 = (m', Inr (enc o2))"
      "workers_frame (node_id ` set rt) m1 m'" "tables_frame m1 m'" "conns_open m'" "conns_frame (node_id ` set rt) m1 m'"
      "hold session m' rt cs'"
    using tree_star_ok [OF parts(1) cod session pid quiet(1) tm(1) b1 rg tr at1 op1 f2] by blast
  have rel: "relay_tree E T C local_provider session ?p (co_embed C toks) (tc_long T (map int pos)) (tc_long T ps) m = (m', Some (Inr (enc o2)))"
    using l(1) pin s(1) unfolding relay_tree_def local_tree_step_def [symmetric] emb by simp
  have lo2: "length o2 = length ps" using br [OF root] by simp
  have "o2 \<noteq> []" using lo2 root by auto
  then have rows: "map (co_argmax C) (co_rows C (enc o2)) = map (\<lambda>o1. m_argmax M (m_head M o1)) o2"
    using parts(2) by (simp add: parts_ok_def)
  have dw: "dom (map_of (m_workers m')) = ?w" using s(2) m1 by (simp add: workers_frame_def)
  have same: "m_routes m' = m_routes m" "m_prov m' = m_prov m" using s(3) m1 by (simp_all add: tables_frame_def)
  have conns: "node_id ` set rt \<subseteq> dom (map_of (m_conns m'))" using s(5) by (simp add: conns_frame_def)
  have key': "keyed E (co_key C) m'"
  proof -
    have "dom (map_of (m_conns m')) = dom (map_of (m_conns m))" using s(5) r(4) m1 by (auto simp: conns_frame_def)
    then show ?thesis using key s(5) dw m1 by (simp add: keyed_def conns_frame_def key_for_def)
  qed
  have "mesh_inv E (co_key C) M n enc lay ll ?w m'" using mesh dw same by (simp add: lp.mesh_ok_def)
  moreover have "route_source.calm (\<lambda>r. coverage_ok (topo r)) E m'" using calm same s(4) by (simp add: lp.calm_def)
  ultimately have steady: "mesh_steady E C M n enc lay ll m'" using steady_from_parts [OF sys _ _ key'] by blast
  have lh: "local_holds session ll m' lcs'" using l(2) s(3) by (simp add: local_holds_def tables_frame_def split: option.splits)
  have step: "split_step M n (all_stages ll lay rt) ctx (map ((!) toks) (branch ps i)) =
        (map ((!) o2) (branch ps i), map (\<lambda>c. fst (kv_keep_tree_path ?p (map int (branch ps i)) c)) (lcs' @ cs'))" if i: "i < length ps" for i
  proof -
    have e: "map (m_embed M) (map ((!) toks) (branch ps i)) = map ((!) ?hs) (branch ps i)"
      unfolding map_map comp_def using t(2) branch_in by (intro map_cong) auto
    show ?thesis using br [OF i] unfolding split_step_def r(7) e by simp
  qed
  have passed: "tree_passed E C M n enc lay ll session ctx rt toks ps o2 (lcs' @ cs') m'"
    unfolding tree_passed_def
    using steady same r(1-3) conns lo2 br [OF root] lh s(6) step by (intro conjI) (auto simp: dw)
  have "m1 = m" if "ll = None"
    using l(1) lt that by (auto simp: local_tree_step_def local_tree_def split: option.splits)
  then have "off_route ll session rt m'"
    using off r(1) s(2,3) m1 unfolding alone_def off_route_def workers_frame_def tables_frame_def by auto
  then show ?thesis using rel rows passed dw by blast
qed

subsection \<open>Keeping the accepted branch\<close>

lemma read_uints_pack:
  "mapE (pack_uint 4) xs = Inr bs \<Longrightarrow> read_uints (length xs) (concat bs) = Inr xs \<and> length (concat bs) = 4 * length xs"
proof (induction xs arbitrary: bs)
  case Nil
  then show ?case by simp
next
  case (Cons x xs)
  obtain b bs' where b: "pack_uint 4 x = Inr b" "mapE (pack_uint 4) xs = Inr bs'" "bs = b # bs'"
    using Cons.prems by (auto simp: bindE_Inr_iff)
  have "length b = 4" "unpack_uint 4 b = Inr x" using unpack_pack_uint [OF b(1)] by auto
  then show ?case using Cons.IH [OF b(2)] b(3) by simp
qed

definition keep_fine :: "nat \<Rightarrow> int list \<Rightarrow> 'e stage_kv option \<Rightarrow> bool" where
  "keep_fine p accepted x \<longleftrightarrow> (\<forall>c. x = Some c \<longrightarrow> snd (kv_keep_tree_path p accepted c) = Inr ())"

lemma keep_frame:
  assumes "id_ok session" and "id_ok (int p)" and "\<forall>a \<in> set accepted. id_ok a" and "length accepted < 2 ^ 32"
  shows "\<exists>b. bindE (kv_frame session KVOP_TREE_KEEP (int p)) (\<lambda>h.
                  bindE (pack_uint 4 (int (length accepted))) (\<lambda>n.
                  bindE (mapE (pack_uint 4) accepted) (\<lambda>ss. Inr (h @ n @ concat ss)))) = Inr b \<and>
    ctrl_frame (keep_fine p accepted) (\<lambda>c. fst (kv_keep_tree_path p accepted c)) session b"
proof -
  obtain h where h: "kv_frame session KVOP_TREE_KEEP (int p) = Inr h"
    using assms(1,2) by (auto simp: kv_frame_def id_ok_def pack_uint_def KVOP_TREE_KEEP_def)
  obtain k where k: "pack_uint 4 (int (length accepted)) = Inr k" using assms(4) by (auto simp: pack_uint_def)
  have "\<exists>ss. mapE (pack_uint 4) accepted = Inr ss" using assms(3)
    by (induction accepted) (auto simp: id_ok_def pack_uint_def)
  then obtain ss where ss: "mapE (pack_uint 4) accepted = Inr ss" by blast
  let ?b = "h @ k @ concat ss"
  note fl = kv_frame_fields [OF h]
  obtain x y z where p: "pack_uint 4 session = Inr x" "pack_uint 1 KVOP_TREE_KEEP = Inr y" "pack_uint 4 (int p) = Inr z" "h = x @ y @ z"
    using h by (auto simp: kv_frame_def bindE_Inr_iff)
  have l: "length x = 4" "length y = 1" "length z = 4" "length k = 4"
    using unpack_pack_uint [OF p(1)] unpack_pack_uint [OF p(2)] unpack_pack_uint [OF p(3)] unpack_pack_uint [OF k] by auto
  then have lh: "length h = 9" by (simp add: p(4))
  have f: "length (take 9 ?b) = 9" "be_value (slice 0 4 ?b) = session" "be_value (slice 4 1 ?b) = KVOP_TREE_KEEP"
      "be_value (slice 5 4 ?b) = int p"
    using fl l by (simp_all add: slice_def p(4))
  have u: "unpack_uint 4 (slice 9 4 ?b) = Inr (int (length accepted))"
    using unpack_pack_uint [OF k] lh l(4) by (simp add: slice_def)
  have rd: "read_uints (length accepted) (slice 13 (4 * length accepted) ?b) = Inr accepted"
    using read_uints_pack [OF ss] lh l(4) by (simp add: slice_def)
  have "kv_op KVOP_TREE_KEEP (int p) ?b c = (fst (kv_keep_tree_path p accepted c), Inr ())"
    if "keep_fine p accepted (Some c)" for c :: "'b stage_kv"
  proof -
    have "snd (kv_keep_tree_path p accepted c) = Inr ()" using that by (simp add: keep_fine_def)
    then show ?thesis using u rd by (simp add: kv_op_def prod_eq_iff)
  qed
  from kv_ctrl_frame [OF f _ this] have "ctrl_frame (keep_fine p accepted) (\<lambda>c :: 'b stage_kv. fst (kv_keep_tree_path p accepted c)) session ?b"
    by (simp add: KVOP_TREE_KEEP_def KVOP_FREE_def)
  then show ?thesis using h k ss by auto
qed

lemma keep_empty: "\<forall>l \<in> set c. l = [] \<Longrightarrow> kv_keep_tree_path p accepted c = (c, Inr ())"
  unfolding kv_keep_tree_path_def by (induction c) auto

text \<open>After the pass, keeping the branch of node \<open>i\<close> leaves the session with that branch.\<close>

lemma tree_keep:
  fixes E :: "'e mesh_env"
  assumes pass: "tree_passed E C M n enc lay ll session ctx rt toks ps os cs m" and session: "id_ok session"
    and t: "tree_parents ps" "length toks = length ps" and i: "i < length ps" and off: "off_route ll session rt m"
    and small: "length ctx < 2 ^ 32" "length ps < 2 ^ 32"
  shows "\<exists>m'. kv_tree_keep E (co_key C) session (length ctx) (map int (branch ps i)) m = (m', Inr ()) \<and>
    mesh_steady E C M n enc lay ll m' \<and> warm E C M n enc lay ll session (ctx @ map ((!) toks) (branch ps i)) m' \<and>
    alone ll session m' \<and> dom (map_of (m_workers m')) = dom (map_of (m_workers m))"
proof -
  let ?acc = "map int (branch ps i)" and ?p = "length ctx" and ?w = "dom (map_of (m_workers m))"
  let ?keep = "\<lambda>c :: 'e stage_kv. fst (kv_keep_tree_path ?p ?acc c)"
  have st: "mesh_steady E C M n enc lay ll m" using pass by (simp add: tree_passed_def)
  have sys: "system_ok E C M n enc ll" and mesh: "mesh_inv E (co_key C) M n enc lay ll ?w m"
    and calm: "route_source.calm (\<lambda>r. coverage_ok (topo r)) E m" and key: "keyed E (co_key C) m"
    using steady_parts [OF st refl] by blast+
  obtain lcs rcs where cs: "cs = lcs @ rcs" "local_holds session ll m lcs" "hold session m rt rcs"
    using pass by (auto simp: tree_passed_def)
  have sv: "serves E (co_key C) M n enc lay ll ?w rt" and r: "map_of (m_routes m) session = Some rt"
      "session_bound (m_prov m) session rt" "node_id ` set rt \<subseteq> dom (map_of (m_conns m))"
    and slots: "list_all2 (\<lambda>gs c. kv_slots n gs (?p + length ps) c) (all_stages ll lay rt) cs"
    using pass by (auto simp: tree_passed_def)
  have fine: "snd (kv_keep_tree_path ?p ?acc c) = Inr ()" if "c \<in> set cs" for c
  proof -
    obtain k where k: "k < length cs" "c = cs ! k" using \<open>c \<in> set cs\<close> by (auto simp: in_set_conv_nth)
    then have "kv_slots n (all_stages ll lay rt ! k) (?p + length ps) c" using slots by (simp add: list_all2_conv_all_nth)
    from kv_slots_keep [OF this i] show ?thesis by simp
  qed
  have ids: "id_ok (int ?p)" "\<forall>a \<in> set ?acc. id_ok a" "length ?acc < 2 ^ 32"
    using small branch_in [of _ ps i] branch_short [OF t(1) i] by (fastforce simp: id_ok_def)+
  obtain b where b: "bindE (kv_frame session KVOP_TREE_KEEP (int ?p)) (\<lambda>h.
                  bindE (pack_uint 4 (int (length ?acc))) (\<lambda>n.
                  bindE (mapE (pack_uint 4) ?acc) (\<lambda>ss. Inr (h @ n @ concat ss)))) = Inr b"
      "ctrl_frame (keep_fine ?p ?acc) ?keep session b"
    using keep_frame [OF session ids] by blast
  obtain m1 where l: "(case map_of (m_local m) session of None \<Rightarrow> (m, Inr ())
        | Some c \<Rightarrow> (case kv_keep_tree_path ?p ?acc c of (c', r) \<Rightarrow> (m\<lparr>m_local := dset session c' (m_local m)\<rparr>, r))) = (m1, Inr ())"
      "local_holds session ll m1 (map ?keep lcs)" "\<exists>d. m1 = m\<lparr>m_local := d\<rparr>" "ll = None \<longrightarrow> m1 = m"
  proof (cases ll)
    case None
    then show ?thesis using off cs(2) by (intro that [of m]) (auto simp: off_route_def local_holds_def intro: exI [of _ "m_local m"])
  next
    case (Some gs)
    obtain c where c: "lcs = [c]" "map_of (m_local m) session = Some c" using cs(2) Some by (auto simp: local_holds_def)
    obtain c' where c': "kv_keep_tree_path ?p ?acc c = (c', Inr ())" using fine [of c] cs(1) c(1) by (cases "kv_keep_tree_path ?p ?acc c") auto
    show ?thesis using c c' Some
      by (intro that [of "m\<lparr>m_local := dset session c' (m_local m)\<rparr>"]) (auto simp: local_holds_def dict_simps)
  qed
  have m1: "m_workers m1 = m_workers m" "m_conns m1 = m_conns m" "m_keys m1 = m_keys m" "m_routes m1 = m_routes m" "m_prov m1 = m_prov m"
    using l(3) by auto
  have Q: "keep_fine ?p ?acc (map_of (w_sessions w) session)" if w: "map_of (m_workers m1) nid = Some w" for nid w
  proof (cases "nid \<in> node_id ` set rt")
    case True
    then obtain k where k: "k < length rt" "nid = node_id (rt ! k)" by (auto simp: in_set_conv_nth)
    then have "map_of (w_sessions w) session = Some (rcs ! k)" "rcs ! k \<in> set cs"
      using cs(1,3) w m1 by (auto simp: hold_def list_all2_conv_all_nth)
    then show ?thesis using fine by (simp add: keep_fine_def)
  next
    case False
    then show ?thesis using off w m1 keep_empty unfolding off_route_def keep_fine_def by (metis snd_conv)
  qed
  obtain m' x where bc: "broadcast E (co_key C) False b (map fst (m_conns m1)) m1 = (m', x)" by fastforce
  have q: "quiet_net E" "conns_open m1" "keyed E (co_key C) m1"
    using calm key m1 by (auto simp: lp.calm_def conns_open_def keyed_def key_for_def)
  have ch: "x = Inr ()" "changed ?keep session (dom (map_of (m_conns m1))) m1 m'"
    using broadcast_ctrl [OF q(1) b(2) q(2,3) _ _ _ bc] Q q(3) by (auto simp: keyed_def dom_map_of_conv_image_fst)
  have run: "kv_tree_keep E (co_key C) session ?p ?acc m = (m', Inr ())"
    unfolding kv_tree_keep_def l(1) using b(1) bc ch(1) by simp
  have same: "m_conns m' = m_conns m" "m_routes m' = m_routes m" "m_prov m' = m_prov m" "m_local m' = m_local m1"
      "dom (map_of (m_workers m')) = ?w"
    using ch(2) m1 by (simp_all add: changed_def)
  have h1: "hold session m1 rt rcs" using cs(3) m1 by (simp add: hold_def)
  have hold': "hold session m' rt (map ?keep rcs)" using changed_hold [OF ch(2) h1] r(3) m1 by simp
  have lh': "local_holds session ll m' (map ?keep lcs)" using l(2) same(4) by (simp add: local_holds_def split: option.splits)
  have "split_step M n (all_stages ll lay rt) ctx (map ((!) toks) (branch ps i)) = (map ((!) os) (branch ps i), map ?keep lcs @ map ?keep rcs)"
    using pass i cs(1) by (simp add: tree_passed_def)
  from split_step_run [OF serves_wf [OF sv] this]
  have run': "map ?keep lcs @ map ?keep rcs = snd (split_run M n (all_stages ll lay rt) (ctx @ map ((!) toks) (branch ps i)))" by simp
  have "in_session (Some session_bound) M n lay ll (serves E (co_key C) M n enc lay ll ?w) session (ctx @ map ((!) toks) (branch ps i)) m'"
    unfolding in_session_def uses_route_def using hold' lh' run' sv r same by auto
  then have warm': "warm E C M n enc lay ll session (ctx @ map ((!) toks) (branch ps i)) m'"
    using r same by (auto simp: warm_def attached_def)
  have "mesh_inv E (co_key C) M n enc lay ll ?w m'" using mesh same by (simp add: lp.mesh_ok_def)
  moreover have "route_source.calm (\<lambda>r. coverage_ok (topo r)) E m' \<and> keyed E (co_key C) m'"
    using calm same changed_steady [OF ch(2) q(2,3)] by (simp add: lp.calm_def)
  ultimately have "mesh_steady E C M n enc lay ll m'" using steady_from_parts [OF sys] by blast
  moreover have "alone ll session m'"
    unfolding alone_def off_route_def
  proof (intro allI impI conjI)
    fix rt' nid w' c assume rt': "map_of (m_routes m') session = Some rt'" and w': "nid \<notin> node_id ` set rt' \<and>
      map_of (m_workers m') nid = Some w' \<and> map_of (w_sessions w') session = Some c"
    have e: "rt' = rt" using rt' same r(1) by simp
    obtain w where w: "map_of (m_workers m1) nid = Some w"
      using w' same(5) m1 by (metis (no_types, lifting) domD domI)
    have "map_of (w_sessions w') session = map_option ?keep (map_of (w_sessions w) session) \<or>
        map_of (w_sessions w') session = map_of (w_sessions w) session"
      using ch(2) w w' unfolding changed_def by (smt (verit) fun_upd_same option.inject)
    then obtain c0 where c0: "map_of (w_sessions w) session = Some c0" "c = ?keep c0 \<or> c = c0"
      using w' by (cases "map_of (w_sessions w) session") auto
    have "\<forall>l \<in> set c0. l = []" using off w w' c0(1) m1 e unfolding off_route_def by metis
    then show "\<forall>l \<in> set c. l = []" using c0(2) keep_empty [of c0] by auto
  qed (use off l(4) same(4) in \<open>auto simp: off_route_def\<close>)
  ultimately show ?thesis using run warm' same(5) by blast
qed

subsection \<open>The prefill touches the route's workers only\<close>

definition elsewhere_same :: "string set \<Rightarrow> ('e, 'p) mesh \<Rightarrow> ('e, 'p) mesh \<Rightarrow> bool" where
  "elsewhere_same A m m' \<longleftrightarrow> (\<forall>nid. nid \<notin> A \<longrightarrow> map_of (m_workers m') nid = map_of (m_workers m) nid) \<and>
     m_routes m' = m_routes m \<and> m_local m' = m_local m"

lemma exchange_elsewhere:
  assumes "exchange d E nid key (msg_code ACTIVATION) body m = (m', r)"
  shows "elsewhere_same {nid} m m'"
proof (cases d)
  case 0
  then show ?thesis using assms by (simp add: elsewhere_same_def)
next
  case (Suc k)
  have act: "handle_frame L P now (msg_code ACTIVATION) body w [] net = (case handle_activation L now body w of (w', oc) \<Rightarrow> (w', [], net, oc))"
    for L now w and P :: "('a, 'b) mesh peers" and net
    using msg_of_code_of [of ACTIVATION] by (simp add: handle_frame_def)
  show ?thesis using assms unfolding Suc exchange.simps act
    by (auto simp: Let_def tick_contact_def elsewhere_same_def dict_simps split: if_splits option.splits prod.splits outcome.splits)
qed

lemma star_hop_elsewhere:
  assumes "star_hop E key session pos nid hidden m = (m', r)"
  shows "elsewhere_same {nid} m m'"
proof -
  obtain m1 r1 where c: "conn_for E nid m = (m1, r1)" by fastforce
  have c1: "elsewhere_same {nid} m m1"
    using c by (auto simp: conn_for_def Let_def tick_contact_def elsewhere_same_def split: if_splits)
  show ?thesis
  proof (cases "\<exists>body. r1 = Inr () \<and> pack_activation session pos hidden FLAG_NONE = Inr body")
    case True
    then obtain body where b: "r1 = Inr ()" "pack_activation session pos hidden FLAG_NONE = Inr body" by blast
    obtain m2 r2 where q: "request E nid key (msg_code ACTIVATION) body m1 = (m2, r2)" by fastforce
    have "elsewhere_same {nid} m1 m2"
      using q exchange_elsewhere [of max_chain E nid key body m1 m2 r2]
      by (auto simp: request_def tick_contact_def elsewhere_same_def split: if_splits)
    then show ?thesis using assms c b q c1 by (simp add: star_hop_def elsewhere_same_def)
  next
    case False
    then have "m' = m1" using assms c by (cases r1; cases "pack_activation session pos hidden FLAG_NONE") (auto simp: star_hop_def)
    then show ?thesis using c1 by simp
  qed
qed

lemma star_relay_elsewhere:
  "star_relay E cluster P session pos rt hidden m = (m', Inr h) \<Longrightarrow> elsewhere_same (node_id ` set rt) m m'"
proof (induction rt arbitrary: hidden m)
  case Nil
  then show ?case by (simp add: elsewhere_same_def)
next
  case (Cons nd rt)
  obtain key m1 h1 where s: "star_hop E key session pos (node_id nd) hidden m = (m1, Inr h1)"
      "star_relay E cluster P session pos rt h1 m1 = (m', Inr h)"
    using Cons.prems by (auto split: sum.splits prod.splits if_splits)
  show ?case using star_hop_elsewhere [OF s(1)] Cons.IH [OF s(2)] by (auto simp: elsewhere_same_def)
qed

definition unused :: "nat list option \<Rightarrow> int \<Rightarrow> ('e, 'p) mesh \<Rightarrow> bool" where
  "unused ll session m \<longleftrightarrow> off_route ll session [] m"

lemma relay_alone:
  assumes r: "relay E C P session 0 hidden m = (m', Inr h)" and chain: "\<not> co_chain C" and un: "unused ll session m"
    and loc: "ll = None \<longleftrightarrow> co_local C = None"
  shows "alone ll session m'"
proof -
  obtain m1 h1 where l: "local_step C session 0 hidden m = (m1, Inr h1)" "relay_dynamic E C P session 0 h1 m1 = (m', Inr h)"
    using r by (auto simp: relay_local_step split: prod.splits sum.splits)
  have m1: "m_workers m1 = m_workers m" "ll = None \<longrightarrow> m1 = m"
    using l(1) loc by (auto simp: local_step_def run_local_def Let_def split: option.splits sum.splits prod.splits)
  obtain m2 rt where p: "pinned_route (co_key C) P session 0 m1 = (m2, Inr rt)"
      "star_relay E (co_key C) P session 0 rt h1 m2 = (m', Inr h)"
    using l(2) chain by (auto simp: relay_dynamic_def split: prod.splits sum.splits)
  have m2: "m_workers m2 = m_workers m1" "m_local m2 = m_local m1" "map_of (m_routes m2) session = Some rt"
    using p(1) by (auto simp: pinned_route_def Let_def dict_simps bindE_Inr_iff split: prod.splits sum.splits)
  show ?thesis
    using star_relay_elsewhere [OF p(2)] m1 m2 un
    unfolding alone_def off_route_def unused_def elsewhere_same_def by auto
qed

subsection \<open>What a round sends\<close>

lemma tree_hop_contacts:
  assumes h: "tree_hop E T key session pos tpos parents nid hidden m = (m', Inr h)" and c: "map_of (m_conns m) nid \<noteq> None"
  shows "m_contacts m' = m_contacts m + 1 \<and> m_conns m' = m_conns m \<and> m_routes m' = m_routes m"
proof -
  have tree: "handle_frame L P now (msg_code TREE_ACTIVATION) body w [] net = (case handle_tree L now body w of (w', oc) \<Rightarrow> (w', [], net, oc))"
    for L now body w and P :: "('a, 'b) mesh peers" and net
    using msg_of_code_of [of TREE_ACTIVATION] by (simp add: handle_frame_def)
  obtain body r where "request E nid key (msg_code TREE_ACTIVATION) body m = (m', Inr r)"
    using h c by (auto simp: tree_hop_def conn_for_def bindE_Inr_iff split: sum.splits prod.splits)
  then have "exchange (Suc 256) E nid key (msg_code TREE_ACTIVATION) body m = (m', Inr r)"
    by (auto simp: request_def max_chain_def split: if_splits)
  then show ?thesis
    unfolding exchange.simps tree
    by (auto simp: Let_def tick_contact_def split: if_splits option.splits prod.splits outcome.splits)
qed

lemma tree_star_contacts:
  "tree_star E T cluster session pos tpos parents rt hidden m = (m', Inr h) \<Longrightarrow>
     node_id ` set rt \<subseteq> dom (map_of (m_conns m)) \<Longrightarrow>
     m_contacts m' = m_contacts m + length rt \<and> m_conns m' = m_conns m \<and> m_routes m' = m_routes m"
proof (induction rt arbitrary: hidden m)
  case (Cons nd rt)
  obtain key m1 h1 where s: "tree_hop E T key session pos tpos parents (node_id nd) hidden m = (m1, Inr h1)"
      "tree_star E T cluster session pos tpos parents rt h1 m1 = (m', Inr h)"
    using Cons.prems by (auto split: sum.splits prod.splits)
  have "map_of (m_conns m) (node_id nd) \<noteq> None" using Cons.prems(2) by auto
  note one = tree_hop_contacts [OF s(1) this]
  show ?case using Cons.IH [OF s(2)] one Cons.prems(2) by simp
qed simp

lemma send_frame_contacts: "send_frame E nid key mt payload m = (m', r) \<Longrightarrow> m_contacts m' = m_contacts m + 1"
  by (auto simp: send_frame_def Let_def tick_contact_def split: if_splits option.splits prod.splits)

lemma broadcast_contacts:
  "broadcast E cluster False b nids m = (m', r) \<Longrightarrow> m_contacts m' = m_contacts m + length nids"
proof (induction nids arbitrary: m)
  case (Cons nid nids)
  obtain m1 x where s: "send_frame E nid (key_for cluster m nid) (msg_code KV_CTRL) b m = (m1, x)" by fastforce
  note one = send_frame_contacts [OF s]
  show ?case using Cons.prems s one Cons.IH [of m1] Cons.IH [of "drop_conn nid m1"]
    by (cases x) (auto simp: Let_def drop_conn_def)
qed simp

text \<open>One activation frame to each holder of the route, then one keep frame over every connection.\<close>

definition tree_sent :: "int \<Rightarrow> ('e, 'p) mesh \<Rightarrow> ('e, 'p) mesh \<Rightarrow> bool" where
  "tree_sent session m m' \<longleftrightarrow> (\<exists>rt. map_of (m_routes m) session = Some rt \<and>
     m_contacts m' = m_contacts m + length rt + length (m_conns m))"

lemma tree_round_sent:
  assumes r: "tree_round E C local_provider G D session base hd_tok pos m = (m', Some (Inr x))"
    and w: "warm E C M n enc lay ll session ctx m"
  shows "tree_sent session m m'"
proof -
  obtain rt where rt: "map_of (m_routes m) session = Some rt" "node_id ` set rt \<subseteq> dom (map_of (m_conns m))"
    using warm_parts [OF w] by blast
  obtain hid tp pa h1 m1 path where p: "relay_tree E (tg_codec G) C local_provider session pos hid tp pa m = (m1, Some (Inr h1))"
      "kv_tree_keep E (co_key C) session pos (map int path) m1 = (m', Inr ())"
    using r by (auto simp: tree_round_def split: sum.splits prod.splits option.splits)
  let ?local = "case co_local C of None \<Rightarrow> (m, Some (Inr hid)) | Some L \<Rightarrow> run_local_tree L session pos hid tp pa m"
  obtain m0 h0 where local_part: "?local = (m0, Some (Inr h0))" and next_hops: "(case pinned_route (co_key C) local_provider session 1 m0 of (m2, Inl e) \<Rightarrow> (m2, Some (Inl e))
         | (m2, Inr rt) \<Rightarrow> (case tree_star E (tg_codec G) (co_key C) session (int pos) tp pa rt h0 m2 of (m3, r) \<Rightarrow> (m3, Some r)))
         = (m1, Some (Inr h1))"
    using p(1) unfolding relay_tree_def
  proof (cases ?local)
    case (Pair m0 r0)
    then show ?thesis using p(1) that [of m0] unfolding relay_tree_def
      by (cases r0; cases "the r0") simp_all
  qed
  have l: "m_routes m0 = m_routes m" "m_conns m0 = m_conns m" "m_contacts m0 = m_contacts m"
    using local_part by (auto simp: run_local_tree_def Let_def split: sum.splits prod.splits option.splits if_splits)
  have "pinned_route (co_key C) local_provider session 1 m0 = (m0, Inr rt)"
    using rt(1) l(1) by (simp add: pinned_route_def)
  then have star: "tree_star E (tg_codec G) (co_key C) session (int pos) tp pa rt h0 m0 = (m1, Inr h1)"
    using next_hops by (simp split: prod.splits)
  have a: "m_contacts m1 = m_contacts m + length rt" "m_conns m1 = m_conns m"
    using tree_star_contacts [OF star] l rt(2) by simp_all
  have "m_contacts m' = m_contacts m1 + length (m_conns m1)"
    using p(2) by (auto simp: kv_tree_keep_def Let_def dest: broadcast_contacts split: option.splits sum.splits prod.splits if_splits)
  then show ?thesis using a rt(1) by (simp add: tree_sent_def)
qed

subsection \<open>Rounds\<close>

definition tree_ready where
  "tree_ready E C M n cap enc T lay ll session ctx m \<longleftrightarrow> mesh_steady E C M n enc lay ll m \<and>
     tree_system E C M n cap enc T lay ll (dom (map_of (m_workers m))) \<and> warm E C M n enc lay ll session ctx m \<and>
     alone ll session m \<and> ctx \<noteq> []"

definition tree_cap :: "('c :: linorder, 'k) tree_config \<Rightarrow> nat" where
  "tree_cap G = max (tg_beam G + 1) (tg_nodes G)"

lemma tree_round_greedy:
  assumes rdy: "tree_ready E C M n (tree_cap G) enc (tg_codec G) lay ll session ctx m" and session: "id_ok session"
    and D: "draft_answers D (tg_branch G)" and small: "length ctx + tree_cap G < 2 ^ 31"
    and h: "h = whole_next M n ctx"
  shows "\<exists>m' com path t. tree_round E C local_provider G D session ctx h (length ctx) m = (m', Some (Inr (com, path, t))) \<and>
    com \<noteq> [] \<and> length path = length com \<and> h # com = greedy (whole_next M n) ctx (length com + 1) \<and>
    tree_ready E C M n (tree_cap G) enc (tg_codec G) lay ll session (ctx @ greedy (whole_next M n) ctx (length com)) m'"
proof -
  let ?nx = "whole_next M n" and ?T = "tg_codec G" and ?w = "dom (map_of (m_workers m))"
  have st: "mesh_steady E C M n enc lay ll m" and ts: "tree_system E C M n (tree_cap G) enc ?T lay ll ?w"
    and w: "warm E C M n enc lay ll session ctx m" and off: "alone ll session m" and ne: "ctx \<noteq> []"
    using rdy by (simp_all add: tree_ready_def)
  obtain tr where tr: "make_tree G D ctx h = Inr tr" "tree_wf h tr" "length tr \<le> tree_cap G"
    using make_tree_wf [OF D, of ctx h] by (auto simp: tree_cap_def)
  let ?ps = "tree_ps tr" and ?toks = "map dn_tok tr"
  let ?pos = "map (\<lambda>i. length ctx + (length (branch ?ps i) - 1)) [0 ..< length ?ps]"
  have t: "tree_parents ?ps" using tree_wf_parents [OF tr(2)] by blast
  have pos: "map (\<lambda>nd. int (length ctx + dn_depth nd)) tr = map int ?pos"
    using tree_wf_depth [OF tr(2)] by (intro nth_equalityI) auto
  have batch: "tree_batch (tree_cap G) (length ctx) ?ps ?pos (map (m_embed M) ?toks)"
    using t tr(3) small by (simp add: tree_batch_def)
  obtain m1 hid rt os cs where p: "relay_tree E ?T C local_provider session (length ctx) (co_embed C ?toks)
        (tc_long ?T (map int ?pos)) (tc_long ?T ?ps) m = (m1, Some (Inr hid))"
      "map (co_argmax C) (co_rows C hid) = map (\<lambda>o1. m_argmax M (m_head M o1)) os"
      "tree_passed E C M n enc lay ll session ctx rt ?toks ?ps os cs m1" "off_route ll session rt m1"
      "dom (map_of (m_workers m1)) = ?w"
    using tree_pass [OF st session ts w ne off batch] by blast
  have sv: "serves E (co_key C) M n enc lay ll (dom (map_of (m_workers m1))) rt" and lo: "length os = length tr"
    and step: "\<And>i. i < length tr \<Longrightarrow> split_step M n (all_stages ll lay rt) ctx (map ((!) ?toks) (branch ?ps i)) =
        (map ((!) os) (branch ?ps i), map (\<lambda>c. fst (kv_keep_tree_path (length ctx) (map int (branch ?ps i)) c)) cs)"
    using p(3) by (auto simp: tree_passed_def)
  have toks: "map ((!) ?toks) (branch ?ps i) = branch_toks tr i" for i
    unfolding branch_toks_def using branch_in [of _ ?ps i] by (intro map_cong) auto
  have preds: "map (co_argmax C) (co_rows C hid) ! i = ?nx (ctx @ branch_toks tr i)" if i: "i < length tr" for i
  proof -
    have b: "branch ?ps i \<noteq> []" "last (branch ?ps i) = i" using branch_last [OF t] i by simp_all
    note run = split_step_run [OF serves_wf [OF sv] step [OF i]]
    have "concat (all_stages ll lay rt) = [0 ..< n]" using sv by (simp add: serves_def)
    then have whole: "split_next M n (all_stages ll lay rt) (ctx @ branch_toks tr i) = ?nx (ctx @ branch_toks tr i)"
      by (rule split_next_whole)
    have "branch_toks tr i \<noteq> []" using b(1) by (simp add: branch_toks_def)
    then have "?nx (ctx @ branch_toks tr i) = m_argmax M (m_head M (last (map ((!) os) (branch ?ps i))))"
      using run unfolding toks whole by blast
    also have "last (map ((!) os) (branch ?ps i)) = os ! i" using b by (simp add: last_map)
    finally show ?thesis using i lo unfolding p(2) by simp
  qed
  have lp: "length (map (co_argmax C) (co_rows C hid)) = length tr" unfolding p(2) using lo by simp
  obtain i com where a: "i < length tr" "accept_tree tr (map (co_argmax C) (co_rows C hid)) = Some (Inr (com, branch ?ps i, last com))"
      "branch_toks tr i = greedy ?nx ctx (length (branch ?ps i))" "?nx ctx # com = greedy ?nx ctx (length (branch ?ps i) + 1)"
    using accept_tree_greedy [of ?nx ctx tr, OF _ lp] tr(2) preds unfolding h by blast
  have lc: "length com = length (branch ?ps i)" using arg_cong [OF a(4), of length] by simp
  have "branch ?ps i \<noteq> []" using branch_last [OF t] a(1) by simp
  then have cne: "com \<noteq> []" using lc by auto
  have small2: "length ctx < 2 ^ 32" "length ?ps < 2 ^ 32" using small tr(3) by simp_all
  obtain m2 where k: "kv_tree_keep E (co_key C) session (length ctx) (map int (branch ?ps i)) m1 = (m2, Inr ())"
      "mesh_steady E C M n enc lay ll m2" "warm E C M n enc lay ll session (ctx @ branch_toks tr i) m2"
      "alone ll session m2" "dom (map_of (m_workers m2)) = dom (map_of (m_workers m1))"
    using tree_keep [OF p(3) session t _ _ p(4) small2, of i] a(1) unfolding toks by auto
  have "tree_round E C local_provider G D session ctx h (length ctx) m = (m2, Some (Inr (com, branch ?ps i, length tr)))"
    unfolding tree_round_def tr(1) sum.case pos p(1) prod.case option.case a(2) k(1) by simp
  moreover have "tree_ready E C M n (tree_cap G) enc ?T lay ll session (ctx @ greedy ?nx ctx (length com)) m2"
    using k ts p(5) ne a(3) lc by (simp add: tree_ready_def)
  ultimately show ?thesis using cne lc a(4) h by (intro exI [of _ m2] exI [of _ com]) auto
qed

text \<open>The rounds of one generation, each with all the tokens committed so far (also those a last round
  commits past the end of the text) and the mesh it leaves.\<close>

inductive tree_rounds ::
  "'e mesh_env \<Rightarrow> ('e, 'l) coord \<Rightarrow> ('c :: linorder, 'k) tree_config \<Rightarrow> ('c, 'k) tree_draft \<Rightarrow> int \<Rightarrow> int list \<Rightarrow> nat \<Rightarrow>
   int list \<Rightarrow> ('e, registry) mesh \<Rightarrow> (int list \<times> ('e, registry) mesh) list \<Rightarrow> bool"
  for E C G D session ids n_new where
  enough: "n_new \<le> length produced \<Longrightarrow> tree_rounds E C G D session ids n_new produced m []"
| last_round: "length produced < n_new \<Longrightarrow>
     tree_round E C local_provider G D session (ids @ butlast produced) (last produced)
       (length (ids @ butlast produced)) m = (m1, Some (Inr (com, path, t))) \<Longrightarrow>
     emit_committed (co_eos C) n_new (length produced) com = (ys, True) \<Longrightarrow>
     tree_rounds E C G D session ids n_new produced m [(produced @ com, m1)]"
| next_round: "length produced < n_new \<Longrightarrow>
     tree_round E C local_provider G D session (ids @ butlast produced) (last produced)
       (length (ids @ butlast produced)) m = (m1, Some (Inr (com, path, t))) \<Longrightarrow>
     emit_committed (co_eos C) n_new (length produced) com = (ys, False) \<Longrightarrow>
     tree_rounds E C G D session ids n_new (produced @ ys) m1 tr \<Longrightarrow>
     tree_rounds E C G D session ids n_new produced m ((produced @ com, m1) # tr)"

text \<open>What every round leaves: the committed tokens are the model's, every cache of the route's holders
  and of the co-located stage holds exactly all of them but the last, no other worker holds anything
  of the session, and the round sent one activation frame per holder and one keep frame per
  connection.\<close>

fun rounds_clean where
  "rounds_clean E C M n enc lay ll session ids m [] \<longleftrightarrow> True"
| "rounds_clean E C M n enc lay ll session ids m ((out, m1) # tr) \<longleftrightarrow>
     out = greedy (whole_next M n) ids (length out) \<and> out \<noteq> [] \<and>
     warm E C M n enc lay ll session (ids @ butlast out) m1 \<and> alone ll session m1 \<and>
     tree_sent session m m1 \<and> rounds_clean E C M n enc lay ll session ids m1 tr"

lemma tree_loop_greedy:
  assumes rdy: "tree_ready E C M n (tree_cap G) enc (tg_codec G) lay ll session (ids @ butlast out) m"
    and session: "id_ok session" and D: "draft_answers D (tg_branch G)"
    and out: "out = greedy (whole_next M n) ids (length out)" "out \<noteq> []" "\<forall>t \<in> set out. t \<notin> co_eos C"
    and small: "length ids + n_new + tree_cap G < 2 ^ 31"
  shows "\<exists>ys m' gc' tr. tree_loop E C local_provider G D session ids n_new out (last out) (length (ids @ butlast out)) m gc =
      (ys, m', gc', Some (Inr ())) \<and> mesh_steady E C M n enc lay ll m' \<and>
    out @ ys = until_eos (co_eos C) (greedy (whole_next M n) ids (max (length out) n_new)) \<and>
    tree_rounds E C G D session ids n_new out m tr \<and> m' = last (m # map snd tr) \<and>
    sc_rounds gc' = sc_rounds gc + length tr \<and> rounds_clean E C M n enc lay ll session ids m tr"
  using rdy out
proof (induction "n_new - length out" arbitrary: out m gc rule: less_induct)
  case less
  let ?nx = "whole_next M n" and ?ctx = "ids @ butlast out"
  show ?case
  proof (cases "length out < n_new")
    case False
    then have "tree_rounds E C G D session ids n_new out m []" by (intro enough) simp
    then show ?thesis using False less.prems until_eos_all
      by (intro exI [of _ "[]"] exI [of _ m] exI [of _ gc]) (auto simp: tree_loop.simps max_def tree_ready_def)
  next
    case True
    obtain k where k: "length out = Suc k" using less.prems(3) by (cases out) auto
    have os: "out = greedy ?nx ids k @ [?nx (ids @ greedy ?nx ids k)]"
      using less.prems(2) unfolding k greedy_snoc .
    have lst: "last out = ?nx ?ctx" by (subst (1 2) os) (simp only: butlast_snoc last_snoc)
    have base: "?ctx @ [last out] = ids @ out" using less.prems(3) by simp
    have small': "length ?ctx + tree_cap G < 2 ^ 31" using small True k by simp
    obtain m' com path t where r: "tree_round E C local_provider G D session ?ctx (last out) (length ?ctx) m = (m', Some (Inr (com, path, t)))"
        "com \<noteq> []" "length path = length com" "last out # com = greedy ?nx ?ctx (length com + 1)"
        "tree_ready E C M n (tree_cap G) enc (tg_codec G) lay ll session (?ctx @ greedy ?nx ?ctx (length com)) m'"
      using tree_round_greedy [OF less.prems(1) session D small' lst] by blast
    have com: "com = greedy ?nx (ids @ out) (length com)"
      using r(4) lst unfolding base [symmetric] by simp
    have more: "out @ com = greedy ?nx ids (length (out @ com))"
      using less.prems(2) com greedy_add [of ?nx ids "length out" "length com"] by simp
    have "greedy ?nx ?ctx (length com) = butlast (last out # com)"
      using r(4) greedy_snoc [of ?nx ?ctx "length com"] by simp
    then have ctx': "?ctx @ greedy ?nx ?ctx (length com) = ids @ butlast (out @ com)"
      using r(2) less.prems(3) by (simp add: butlast_append)
    have mx: "max (length out) n_new = n_new" using True by simp
    let ?gc = "bump_tree (length path - 1) (t - 1) gc"
    have w: "warm E C M n enc lay ll session ?ctx m" using less.prems(1) by (simp add: tree_ready_def)
    have clean: "out @ com = greedy ?nx ids (length (out @ com))" "out @ com \<noteq> []"
        "warm E C M n enc lay ll session (ids @ butlast (out @ com)) m'" "alone ll session m'" "tree_sent session m m'"
      using more r(2,5) tree_round_sent [OF r(1) w] unfolding ctx' by (blast, blast, simp_all add: tree_ready_def)
    consider (go) "emit_committed (co_eos C) n_new (length out) com = (com, False)" "length (out @ com) \<le> n_new"
        "\<forall>t \<in> set (out @ com). t \<notin> co_eos C"
      | (stop) ys where "emit_committed (co_eos C) n_new (length out) com = (ys, True)"
        "out @ ys = until_eos (co_eos C) (greedy ?nx ids n_new)"
      using emit_greedy [OF less.prems(2,4) True com] by blast
    then show ?thesis
    proof cases
      case go
      have "n_new - length (out @ com) < n_new - length out" using True r(2) by (cases com) auto
      then obtain ys m2 gc2 tr where ys: "tree_loop E C local_provider G D session ids n_new (out @ com) (last (out @ com))
            (length (ids @ butlast (out @ com))) m' ?gc = (ys, m2, gc2, Some (Inr ()))"
          "mesh_steady E C M n enc lay ll m2"
          "(out @ com) @ ys = until_eos (co_eos C) (greedy ?nx ids (max (length (out @ com)) n_new))"
          and tr: "tree_rounds E C G D session ids n_new (out @ com) m' tr" "m2 = last (m' # map snd tr)"
          "sc_rounds gc2 = sc_rounds ?gc + length tr" "rounds_clean E C M n enc lay ll session ids m' tr"
        using less.hyps [OF _ _ more _ go(3), of m' ?gc] r(2,5) unfolding ctx' by blast
      have mx2: "max (length (out @ com)) n_new = n_new" using go(2) by (simp only: max_absorb2)
      have "last (out @ com) = last com" using r(2) by simp
      then have run: "tree_loop E C local_provider G D session ids n_new out (last out) (length ?ctx) m gc =
          (com @ ys, m2, gc2, Some (Inr ()))"
        using True r(1) go(1) ys(1)
        by (simp add: tree_loop.simps [of E C local_provider G D session ids n_new out] Let_def k r(3) add.assoc)
      show ?thesis
        using run ys(2,3) mx mx2 next_round [OF True r(1) go(1) tr(1)] tr(2-4) clean
        by (intro exI [of _ "com @ ys"] exI [of _ m2] exI [of _ gc2] exI [of _ "(out @ com, m') # tr"])
          (simp add: bump_tree_def del: greedy.simps)
    next
      case stop
      have "mesh_steady E C M n enc lay ll m'" using r(5) by (simp add: tree_ready_def)
      moreover have "tree_loop E C local_provider G D session ids n_new out (last out) (length ?ctx) m gc = (ys, m', ?gc, Some (Inr ()))"
        using True r(1) stop(1) by (simp add: tree_loop.simps [of E C local_provider G D session ids n_new out] Let_def)
      ultimately show ?thesis using stop(2) mx last_round [OF True r(1) stop(1)] clean
        by (intro exI [of _ ys] exI [of _ m'] exI [of _ ?gc] exI [of _ "[(out @ com, m')]"])
          (simp add: bump_tree_def del: greedy.simps)
    qed
  qed
qed

subsection \<open>Tree-drafted generation\<close>

lemma steady_next:
  assumes "map (co_argmax C) (co_rows C h) = map (\<lambda>j. nx (ctx @ take (Suc j) ids)) [0 ..< length ids]" and "ids \<noteq> []"
  shows "next_token C h = Inr (nx (ctx @ ids))"
proof -
  have ne: "co_rows C h \<noteq> []" using assms by (metis length_0_conv length_map length_upt diff_zero)
  obtain k where k: "length ids = Suc k" using assms(2) by (cases ids) auto
  have "co_argmax C (last (co_rows C h)) = last (map (co_argmax C) (co_rows C h))" using ne by (simp add: last_map)
  also have "\<dots> = nx (ctx @ take (Suc k) ids)" unfolding assms(1) k by simp
  also have "\<dots> = nx (ctx @ ids)" unfolding k [symmetric] by simp
  finally show ?thesis using ne by (simp add: next_token_def Let_def)
qed

text \<open>The first piece of a stream is the whole text of the first token, even if it is empty.\<close>

definition tree_text :: "(int list \<Rightarrow> pystr) \<Rightarrow> int list \<Rightarrow> pystr list" where
  "tree_text dec toks = (case toks of [] \<Rightarrow> [] | t # ts \<Rightarrow> dec [t] # text_pieces dec [t] (dec [t]) ts)"

text \<open>C4. Tree drafting never changes a token: over a mesh that loses nothing, for any draft that
  answers, built best first or level by level, with any budget of nodes, branching, depth and beam,
  the streamed generation returns and spells the whole model's greedy continuation, up to the first
  end token.  Every round, the last one included, verifies its tree with one activation frame per
  holder of the route and compacts it with one keep frame per connection, and leaves in every cache
  exactly the prompt and the committed tokens before the last; the counted rounds are these, and
  what the last of them leaves is what the reset at the end clears.  The session's id must not have
  left entries at other workers.\<close>

theorem tree_drafting_is_greedy:
  assumes draft: "tg_draft TG = Some D" "draft_answers D (tg_branch TG)"
    and steady: "mesh_steady E C M n enc lay ll (or_mesh s)"
    and trees: "tree_system E C M n (tree_cap TG) enc (tg_codec TG) lay ll (dom (map_of (m_workers (or_mesh s))))"
    and new: "unused ll (fst (next_session_id (gc_prefix G) (or_counter s))) (or_mesh s)"
    and ids: "ids \<noteq> []" "length ids + n_new + tree_cap TG < 2 ^ 31"
  shows "\<exists>s' m1 h tr. let session = fst (next_session_id (gc_prefix G) (or_counter s)); t = whole_next M n ids
    in generate_tree_stream E C local_provider G TG ids n_new s =
      Some (s', tree_text (gc_decode G) (until_eos (co_eos C) (greedy (whole_next M n) ids (max 1 n_new))), Inr ()) \<and>
    mesh_steady E C M n enc lay ll (or_mesh s') \<and>
    relay E C local_provider session 0 (co_embed C ids) (or_mesh s) = (m1, Inr h) \<and>
    warm E C M n enc lay ll session ids m1 \<and>
    (if t \<in> co_eos C then tr = [] else tree_rounds E C TG D session ids n_new [t] m1 tr) \<and>
    rounds_clean E C M n enc lay ll session ids m1 tr \<and>
    st_rounds (or_totals s') = st_rounds (or_totals s) + length tr \<and>
    reset_sessions E (co_key C) local_provider session (last (m1 # map snd tr)) = (or_mesh s', Inr ())"
proof -
  let ?nx = "whole_next M n" and ?sid = "fst (next_session_id (gc_prefix G) (or_counter s))"
  obtain s1 where f: "fresh_session G s = (s1, ?sid)" by (cases "next_session_id (gc_prefix G) (or_counter s)") (auto simp: fresh_session_def)
  note fs = fresh_session_ok [OF f]
  have sys: "system_ok E C M n enc ll" using steady_parts [OF steady refl] by blast
  have len: "length ([] :: int list) + length ids < 2 ^ 32" using ids(2) by simp
  have sid: "id_ok ?sid" using fs by blast
  obtain m1 h where r: "relay E C local_provider ?sid (int (length ([] :: int list))) (co_embed C ids) (or_mesh s) = (m1, Inr h)"
      "mesh_steady E C M n enc lay ll m1" "warm E C M n enc lay ll ?sid ([] @ ids) m1"
      "map (co_argmax C) (co_rows C h) = map (\<lambda>j. ?nx ([] @ take (Suc j) ids)) [0 ..< length ids]"
    using steady_relay [OF steady sid ids(1) len disjI1 [OF refl]] by blast
  have chain: "\<not> co_chain C" and loc: "ll = None \<longleftrightarrow> co_local C = None"
    using sys by (auto simp: system_ok_def local_ok_def split: option.splits)
  have al: "alone ll ?sid m1" using relay_alone [OF _ chain new loc] r(1) by simp
  have dw: "dom (map_of (m_workers m1)) = dom (map_of (m_workers (or_mesh s)))"
  proof -
    have mesh: "mesh_inv E (co_key C) M n enc lay ll (dom (map_of (m_workers (or_mesh s)))) (or_mesh s)"
      using steady_parts [OF steady refl] by blast
    have l: "length ids < 2 ^ 32" "id_ok (int (length ([] :: int list)))" using ids(2) by (simp_all add: id_ok_def)
    show ?thesis using lp.relay_session [OF sys mesh serves_triv ids(1) l(1) sid l(2) disjI1 [OF refl] r(1)] by (simp add: lp.mesh_ok_def)
  qed
  have nt: "next_token C h = Inr (?nx ids)" using steady_next [OF r(4) ids(1)] by simp
  have rdy: "tree_ready E C M n (tree_cap TG) enc (tg_codec TG) lay ll ?sid (ids @ butlast [?nx ids]) m1"
    using r(2,3) trees dw al ids(1) by (simp add: tree_ready_def)
  let ?fin = "until_eos (co_eos C) (greedy ?nx ids (max 1 n_new))"
  have first: "greedy ?nx ids (max 1 n_new) = ?nx ids # greedy ?nx (ids @ [?nx ids]) (max 1 n_new - 1)"
    by (cases "max 1 n_new") auto
  obtain toks m2 gc tr where run: "(if ?nx ids \<in> co_eos C then ([], m1, call_counts, Some (Inr ()))
      else (case tree_loop E C local_provider TG D ?sid ids n_new [?nx ids] (?nx ids) (length ids) m1 call_counts of
              (ys, r) \<Rightarrow> (?nx ids # ys, r))) = (toks, m2, gc, Some (Inr ()))" "toks = ?fin" "mesh_steady E C M n enc lay ll m2"
      and tr: "if ?nx ids \<in> co_eos C then tr = [] else tree_rounds E C TG D ?sid ids n_new [?nx ids] m1 tr"
        "m2 = last (m1 # map snd tr)" "sc_rounds gc = length tr" "rounds_clean E C M n enc lay ll ?sid ids m1 tr"
  proof (cases "?nx ids \<in> co_eos C")
    case True
    then show ?thesis using r(2) first by (intro that [of "[]" m1 call_counts "[]"]) (auto simp: until_eos_def call_counts_def)
  next
    case False
    have one: "[?nx ids] = greedy ?nx ids (length [?nx ids])" "[?nx ids] \<noteq> []" "\<forall>t \<in> set [?nx ids]. t \<notin> co_eos C" using False by simp_all
    obtain ys m2 gc tr where "tree_loop E C local_provider TG D ?sid ids n_new [?nx ids] (last [?nx ids]) (length (ids @ butlast [?nx ids])) m1 call_counts =
        (ys, m2, gc, Some (Inr ()))" "mesh_steady E C M n enc lay ll m2"
        "[?nx ids] @ ys = until_eos (co_eos C) (greedy ?nx ids (max (length [?nx ids]) n_new))"
        "tree_rounds E C TG D ?sid ids n_new [?nx ids] m1 tr" "m2 = last (m1 # map snd tr)"
        "sc_rounds gc = sc_rounds call_counts + length tr" "rounds_clean E C M n enc lay ll ?sid ids m1 tr"
      using tree_loop_greedy [OF rdy sid draft(2) one ids(2)] by blast
    then show ?thesis using False by (intro that [of "?nx ids # ys" m2 gc tr]) (auto simp: call_counts_def)
  qed
  let ?s2 = "merge_call (Some gc) (s1\<lparr>or_mesh := m2\<rparr>)"
  obtain m3 where z: "reset_sessions E (co_key C) local_provider ?sid (or_mesh ?s2) = (m3, Inr ())" "mesh_steady E C M n enc lay ll m3"
    using steady_reset [OF run(3) sid] by auto
  have rel: "relay E C local_provider ?sid 0 (co_embed C ids) (or_mesh s1) = (m1, Inr h)" using r(1) fs by simp
  have "generate_tree_stream E C local_provider G TG ids n_new s = Some (?s2\<lparr>or_mesh := m3\<rparr>, tree_text (gc_decode G) ?fin, Inr ())"
    unfolding generate_tree_stream_def draft(1) option.case f prod.case rel sum.case nt run(1) z(1) Let_def
    by (simp add: tree_text_def run(2))
  moreover have "reset_sessions E (co_key C) local_provider ?sid (last (m1 # map snd tr)) = (m3, Inr ())"
    using z(1) tr(2) by (simp add: merge_call_def)
  moreover have "st_rounds (or_totals (?s2\<lparr>or_mesh := m3\<rparr>)) = st_rounds (or_totals s) + length tr"
    using tr(3) fs by (simp add: merge_call_def merge_spec_def)
  ultimately show ?thesis using z(2) r(1,3) tr(1,4)
    by (intro exI [of _ "?s2\<lparr>or_mesh := m3\<rparr>"] exI [of _ m1] exI [of _ h] exI [of _ tr]) (simp add: Let_def)
qed

subsection \<open>A small deployment, drafted with trees\<close>

text \<open>Hidden states of two bytes, of which the second is padding; integers of eight and four bytes.\<close>

fun evens :: "bytes \<Rightarrow> bytes" where
  "evens (a # b # r) = a # evens r"
| "evens _ = []"

definition half_enc :: "8 word list \<Rightarrow> tensor" where
  "half_enc hs = \<lparr>t_dtype = F16, t_shape = [1, length hs, 1], t_raw = concat (map (\<lambda>h. [h, 0]) hs)\<rparr>"

definition int_tensor :: "dtype \<Rightarrow> int list \<Rightarrow> tensor" where
  "int_tensor dt xs = \<lparr>t_dtype = dt, t_shape = [length xs],
     t_raw = concat (map (\<lambda>x. be_bytes (itemsize dt) (x mod 256 ^ itemsize dt)) xs)\<rparr>"

definition tensor_ints :: "tensor \<Rightarrow> int list" where
  "tensor_ints t = (let w = itemsize (t_dtype t) in
     map (\<lambda>i. let v = be_value (take w (drop (i * w) (t_raw t))) in if 2 * v < 256 ^ w then v else v - 256 ^ w)
       [0 ..< hd (t_shape t)])"

definition demo_codec :: tree_codec where
  "demo_codec = \<lparr>tc_long = int_tensor I64, tc_i32 = (\<lambda>t. int_tensor I32 (tensor_ints t))\<rparr>"

definition half_lib :: "nat list \<Rightarrow> nat \<Rightarrow> 8 word stage_lib" where
  "half_lib gs n = \<lparr>sl_forward = (\<lambda>md x c.
       case (case md of
               Causal ps \<Rightarrow> stage_forward byte_model gs c (evens (t_raw x)) (map nat ps)
             | TreeMasked tp tm \<Rightarrow> masked_stage byte_model gs c (evens (t_raw x)) (map nat (tensor_ints tp)) tm
             | _ \<Rightarrow> ([], c)) of
         (o1, c') \<Rightarrow> (c', Inr (half_enc o1))),
     sl_tolist = (\<lambda>x. Inr (tensor_ints x)), sl_slots = n\<rparr>"

lemma evens_pad [simp]: "evens (concat (map (\<lambda>h. [h, 0]) hs)) = hs"
  by (induction hs) auto

lemma length_blocks: "\<forall>x \<in> set xs. length (f x) = w \<Longrightarrow> length (concat (map f xs)) = w * length xs"
  by (induction xs) auto

lemma block_at:
  "\<forall>x. length (f x) = w \<Longrightarrow> i < length xs \<Longrightarrow> take w (drop (i * w) (concat (map f xs))) = f (xs ! i)"
proof (induction xs arbitrary: i)
  case (Cons x xs)
  then show ?case by (cases i) auto
qed simp

lemma signed_mod:
  assumes "- (2 ^ 31) \<le> x" and "x < 2 ^ 31" and "dt \<in> {I32, I64}"
  shows "(let v = (x :: int) mod 256 ^ itemsize dt in if 2 * v < 256 ^ itemsize dt then v else v - 256 ^ itemsize dt) = x"
proof (cases "0 \<le> x")
  case True
  then have "x mod 256 ^ itemsize dt = x" using assms by (intro mod_pos_pos_trivial) auto
  then show ?thesis using assms by auto
next
  case False
  have "x mod 256 ^ itemsize dt = (x + 256 ^ itemsize dt) mod 256 ^ itemsize dt" by simp
  also have "\<dots> = x + 256 ^ itemsize dt" using assms False by (intro mod_pos_pos_trivial) auto
  finally show ?thesis using assms False by (auto simp: Let_def)
qed

lemma tensor_ints_of:
  assumes "int32_list xs" and "dt \<in> {I32, I64}"
  shows "tensor_ints (int_tensor dt xs) = xs"
proof (rule nth_equalityI)
  fix i assume "i < length (tensor_ints (int_tensor dt xs))"
  then have i: "i < length xs" by (simp add: tensor_ints_def int_tensor_def Let_def)
  have "be_value (be_bytes (itemsize dt) (xs ! i mod 256 ^ itemsize dt)) = xs ! i mod 256 ^ itemsize dt"
    by (intro be_value_be_bytes) simp_all
  moreover have "- (2 ^ 31) \<le> xs ! i \<and> xs ! i < 2 ^ 31" using assms(1) i by (simp add: int32_list_def)
  ultimately show "tensor_ints (int_tensor dt xs) ! i = xs ! i"
    using block_at [of "\<lambda>x. be_bytes (itemsize dt) (x mod 256 ^ itemsize dt)" "itemsize dt" i xs] i
      signed_mod [of "xs ! i" dt] assms(2)
    by (simp only: tensor_ints_def int_tensor_def Let_def tensor.simps list.sel nth_map_upt length_be_bytes) (simp split: if_splits)
qed (simp add: tensor_ints_def int_tensor_def Let_def)

lemma half_enc_rep: "tensor_rep half_enc"
  by (auto simp: tensor_rep_def tensor_ok_def half_enc_def seq_len_def pack_tensor_def pack_uint_def
      length_blocks [of _ _ 2])

lemma pack_sized_small:
  assumes "t_dtype t \<in> {F16, I32}" and "t_shape t \<noteq> []" and "length (t_shape t) \<le> 3"
    and "\<forall>d \<in> set (t_shape t). d < 2 ^ 32" and "length (t_raw t) < 2 ^ 31"
  shows "\<exists>b. pack_sized t = Inr b"
proof -
  have "mapE (\<lambda>d. pack_uint 4 (int d)) (t_shape t) = Inr (map (\<lambda>d. be_bytes 4 (int d)) (t_shape t))"
    using assms(4) by (intro mapE_all_Inr) (auto simp: pack_uint_def)
  moreover have "length (concat (map (\<lambda>d. be_bytes 4 (int d)) (t_shape t))) = 4 * length (t_shape t)"
    by (simp add: length_blocks)
  ultimately show ?thesis using assms by (auto simp: pack_sized_def pack_tensor_def pack_uint_def)
qed

lemma demo_codec_ok: "codec_ok 4 half_enc demo_codec"
  unfolding codec_ok_def
proof (intro conjI allI impI)
  fix hs :: "8 word list" assume h: "hs \<noteq> [] \<and> length hs \<le> 4"
  then have "length hs < 2 ^ 32" by simp
  then show "tensor_ok (half_enc hs)" using half_enc_rep h unfolding tensor_rep_def by blast
  show "\<exists>b. pack_sized (half_enc hs) = Inr b"
    using h by (intro pack_sized_small) (simp_all add: half_enc_def length_blocks [of _ _ 2])
  show "float_dtype (t_dtype (half_enc hs))" by (simp add: half_enc_def float_dtype_def)
next
  fix xs assume x: "int32_list xs \<and> length xs \<le> 4"
  have t: "tc_i32 demo_codec (tc_long demo_codec xs) = int_tensor I32 xs"
    using x by (simp add: demo_codec_def tensor_ints_of)
  have l: "length (t_raw (int_tensor I32 xs)) = 4 * length xs" by (simp add: int_tensor_def length_blocks)
  have ne: "xs \<noteq> []" using x by (simp add: int32_list_def)
  then have "t_raw (int_tensor I32 xs) \<noteq> []" using l by auto
  then show "tensor_ok (tc_i32 demo_codec (tc_long demo_codec xs))"
    unfolding t tensor_ok_def using l by (simp add: int_tensor_def)
  show "\<exists>b. pack_sized (tc_i32 demo_codec (tc_long demo_codec xs)) = Inr b"
    unfolding t using x l by (intro pack_sized_small) (simp_all add: int_tensor_def)
qed

lemma half_lib_tree: "tree_lib byte_model n 4 half_enc demo_codec gs (half_lib gs n)"
proof -
  have ints: "tensor_ints t = xs" if "int32_list xs" "t = tc_long demo_codec xs \<or> t = tc_i32 demo_codec (tc_long demo_codec xs)" for xs t
    using that by (auto simp: demo_codec_def tensor_ints_of)
  then show ?thesis
    by (auto simp: tree_lib_def half_lib_def half_enc_def comp_def)
qed

lemma half_lib_serves: "lib_serves byte_model n half_enc gs (half_lib gs n)"
proof -
  have "map nat (position_ids k (int pos)) = map (\<lambda>i. i + pos) [0 ..< k]" for k pos
    by (simp add: position_ids_def nat_int_add)
  then show ?thesis by (simp add: lib_serves_def half_lib_def half_enc_def)
qed

definition half_env :: "8 word mesh_env" where
  "half_env = demo_env\<lparr>me_lib := (\<lambda>nid. half_lib (demo_lay nid) 4)\<rparr>"

definition half_coord :: "(8 word, 8 word) coord" where
  "half_coord = demo_coord\<lparr>co_embed := (\<lambda>ids. half_enc (map of_int ids)), co_rows := (\<lambda>x. evens (t_raw x))\<rparr>"

definition demo_draft :: "(nat, unit) tree_draft" where
  "demo_draft = \<lparr>td_zero = 0, td_add = (+), td_top = (\<lambda>ctx b. Inr (map (\<lambda>i. (sum_list ctx + int i, i)) [0 ..< b])),
     td_prefill = (\<lambda>ctx b. Inr ((), map (\<lambda>i. (sum_list ctx + int i, i)) [0 ..< b])), td_len = (\<lambda>_. 2),
     td_step = (\<lambda>_ toks p tm b. Inr ((), map (\<lambda>t. map (\<lambda>i. (t + int i, i)) [0 ..< b]) toks))\<rparr>"

definition demo_tree :: "(nat, unit) tree_config" where
  "demo_tree = \<lparr>tg_draft = Some demo_draft, tg_codec = demo_codec, tg_nodes = 4, tg_branch = 2, tg_depth = 2,
     tg_beam = 2, tg_naive = False\<rparr>"

lemma half_steady: "mesh_steady half_env half_coord byte_model 4 half_enc demo_lay None (or_mesh demo_orch)"
proof -
  have sys: "system_ok half_env half_coord byte_model 4 half_enc None"
    by (simp add: system_ok_def half_enc_rep parts_ok_def local_ok_def half_coord_def demo_coord_def)
      (simp add: half_enc_def byte_model_def)
  have "deployed half_env (co_key half_coord) byte_model 4 half_enc demo_lay None
      (dom (map_of (m_workers demo_mesh))) demo_four"
    using half_lib_serves [of 4]
    by (simp add: deployed_def demo_four_eq mk_topology_def Let_def demo_mesh_def demo_lay_def demo_env_def half_env_def
        node_key_def demo_node_def new_node_def half_coord_def demo_coord_def upt_rec numeral_eq_Suc)
  then have "mesh_ready half_env half_coord byte_model 4 half_enc demo_lay None demo_mesh"
    using demo_ready sys by (simp add: mesh_ready_def demo_mesh_topo)
  moreover have "keyed half_env (co_key half_coord) demo_mesh" by (simp add: keyed_def demo_mesh_def)
  moreover have "quiet_net half_env" using demo_calm by (simp add: quiet_net_def half_env_def)
  ultimately show ?thesis using demo_calm by (simp add: mesh_steady_def demo_orch_def)
qed

lemma tree_drafting_is_greedy_witness:
  "\<exists>s'. generate_tree_stream half_env half_coord local_provider demo_gen demo_tree [3, 1] 5 demo_orch =
     Some (s', tree_text (map nat) (until_eos {0} (greedy (whole_next byte_model 4) [3, 1] 5)), Inr ())"
proof -
  have d: "tg_draft demo_tree = Some demo_draft" "draft_answers demo_draft (tg_branch demo_tree)"
    by (simp_all add: demo_tree_def draft_answers_def demo_draft_def)
  have cap: "tree_cap demo_tree = 4" and cod: "tg_codec demo_tree = demo_codec" by (simp_all add: tree_cap_def demo_tree_def)
  have t: "tree_system half_env half_coord byte_model 4 (tree_cap demo_tree) half_enc (tg_codec demo_tree) demo_lay None
      (dom (map_of (m_workers (or_mesh demo_orch))))"
    unfolding cap cod tree_system_def
    using demo_codec_ok half_lib_tree by (simp add: local_tree_def half_coord_def demo_coord_def half_env_def)
  have u: "unused None (fst (next_session_id (gc_prefix demo_gen) (or_counter demo_orch))) (or_mesh demo_orch)"
    by (simp add: unused_def off_route_def demo_orch_def demo_mesh_def)
  have g: "gc_decode demo_gen = map nat" "co_eos half_coord = {0}" by (simp_all add: demo_gen_def half_coord_def demo_coord_def)
  show ?thesis
    using tree_drafting_is_greedy [OF d half_steady t u, of "[3, 1]" 5] cap g unfolding Let_def by (simp del: greedy.simps) blast
qed

end
