(* ===== verification/Json.thy ===== *)
theory Json
  imports Wire "HOL-Library.Char_ord" "HOL-Library.List_Lexorder"
begin

section \<open>JSON bodies of the control channel\<close>

text \<open>
  The values that \<open>json.loads\<close> gives, what the control server and its clients do with one
  (\<open>dict.get\<close>, truth, \<open>str\<close>, \<open>int\<close>, \<open>float\<close>, \<open>bytes.fromhex\<close>), and the canonical text of
  \<open>engine/canonical.py\<close> that is signed and verified.  Strings have characters below 256, as in the
  rest of the control plane.  Floats are rationals, infinities or not-a-number; their text is
  Python's \<open>repr\<close>, an argument.
\<close>

subsection \<open>Values\<close>

datatype pyfloat = Fin rat | PosInf | NegInf | NaN

datatype json = JNull | JBool bool | JInt int | JFloat pyfloat | JStr string | JList "json list"
  | JObj "(string \<times> json) list"

text \<open>A body without duplicate keys, as every parsed object is.\<close>

type_synonym body = "(string, json) dict"

fun truthy :: "json \<Rightarrow> bool" where
  "truthy JNull = False"
| "truthy (JBool b) = b"
| "truthy (JInt i) = (i \<noteq> 0)"
| "truthy (JFloat f) = (f \<noteq> Fin 0)"
| "truthy (JStr s) = (s \<noteq> [])"
| "truthy (JList xs) = (xs \<noteq> [])"
| "truthy (JObj kvs) = (kvs \<noteq> [])"

text \<open>\<open>body[k]\<close>.\<close>

definition jfield :: "string \<Rightarrow> body \<Rightarrow> json result" where
  "jfield k b = (case map_of b k of None \<Rightarrow> Inl KeyError | Some v \<Rightarrow> Inr v)"

subsection \<open>Numbers as text\<close>

definition int_text :: "int \<Rightarrow> string" where
  "int_text i = (if i < 0 then ''-'' else []) @ map char_of (decimal (nat \<bar>i\<bar>))"

lemma int_text_inj: "int_text i = int_text j \<longleftrightarrow> i = j"
proof -
  define f where "f m = map (char_of :: nat \<Rightarrow> char) (decimal m)" for m
  have undo: "map of_char (f k) = decimal k" for k
    using decimal_digits [of k] by (auto simp: f_def o_def of_char_of intro!: map_idI)
  have inj: "f m = f n \<longleftrightarrow> m = n" for m n using undo decimal_inj by metis
  have minus: "f m \<noteq> CHR ''-'' # xs" for m xs
  proof
    assume eq: "f m = CHR ''-'' # xs"
    then have "decimal m = 45 # map of_char xs" using undo [of m] by simp
    then show False using decimal_digits [of m] by simp
  qed
  show ?thesis
    unfolding int_text_def f_def [symmetric]
    by (cases "i < 0"; cases "j < 0") (simp_all add: inj minus minus [symmetric] eq_nat_nat_iff)
qed

text \<open>\<open>int(s)\<close>: white space around, a sign, digits with single underscores between them, and no
  more digits than the interpreter's limit.\<close>

definition py_space :: "char \<Rightarrow> bool" where
  "py_space c \<longleftrightarrow> (of_char c :: nat) \<in> {9, 10, 11, 12, 13, 28, 29, 30, 31, 32, 133, 160}"

definition py_strip :: "string \<Rightarrow> string" where
  "py_strip s = rev (dropWhile py_space (rev (dropWhile py_space s)))"

definition dec_digit :: "char \<Rightarrow> nat option" where
  "dec_digit c = (let n = (of_char c :: nat) in if 48 \<le> n \<and> n < 58 then Some (n - 48) else None)"

fun int_digits :: "string \<Rightarrow> bool \<Rightarrow> nat \<Rightarrow> nat option" where
  "int_digits [] after acc = (if after then Some acc else None)"
| "int_digits (c # cs) after acc =
     (case dec_digit c of
        Some d \<Rightarrow> int_digits cs True (acc * 10 + d)
      | None \<Rightarrow> if c = CHR ''_'' \<and> after then int_digits cs False acc else None)"

definition max_int_digits :: nat where "max_int_digits = 4300"

definition parse_int :: "string \<Rightarrow> int result" where
  "parse_int s =
     (let t = py_strip s;
          neg = (case t of c # _ \<Rightarrow> c = CHR ''-'' | [] \<Rightarrow> False);
          ds = (case t of c # cs \<Rightarrow> if c = CHR ''-'' \<or> c = CHR ''+'' then cs else t | [] \<Rightarrow> t)
      in if max_int_digits < length (filter (\<lambda>c. c \<noteq> CHR ''_'') ds) then Inl ValueError
         else case int_digits ds False 0 of
                None \<Rightarrow> Inl ValueError
              | Some n \<Rightarrow> Inr (if neg then - int n else int n))"

text \<open>\<open>int(v)\<close> of a value.  An infinity raises \<open>OverflowError\<close>, which like \<open>TypeError\<close> no handler
  of the program catches.\<close>

fun json_int :: "json \<Rightarrow> int result" where
  "json_int (JInt i) = Inr i"
| "json_int (JBool b) = Inr (if b then 1 else 0)"
| "json_int (JFloat (Fin q)) = Inr (if q < 0 then \<lceil>q\<rceil> else \<lfloor>q\<rfloor>)"
| "json_int (JFloat NaN) = Inl ValueError"
| "json_int (JStr s) = parse_int s"
| "json_int _ = Inl TypeError"

text \<open>What Python prints and reads of floats and of nested values: \<open>py_repr\<close> is \<open>str\<close> of a float, a list or
  a dict, \<open>py_dumps\<close> the JSON text of a float, \<open>py_float\<close> is \<open>float(s)\<close> of a string.\<close>

record float_text =
  py_repr :: "json \<Rightarrow> string"
  py_dumps :: "pyfloat \<Rightarrow> string"
  py_float :: "string \<Rightarrow> pyfloat option"

fun json_str :: "float_text \<Rightarrow> json \<Rightarrow> string" where
  "json_str F JNull = ''None''"
| "json_str F (JBool b) = (if b then ''True'' else ''False'')"
| "json_str F (JInt i) = int_text i"
| "json_str F (JStr s) = s"
| "json_str F v = py_repr F v"

fun json_float :: "float_text \<Rightarrow> json \<Rightarrow> pyfloat result" where
  "json_float F (JInt i) = Inr (Fin (of_int i))"
| "json_float F (JBool b) = Inr (Fin (if b then 1 else 0))"
| "json_float F (JFloat f) = Inr f"
| "json_float F (JStr s) = (case py_float F s of None \<Rightarrow> Inl ValueError | Some f \<Rightarrow> Inr f)"
| "json_float F _ = Inl TypeError"

fun json_hex :: "json \<Rightarrow> bytes result" where
  "json_hex (JStr s) = fromhex s"
| "json_hex _ = Inl TypeError"

subsection \<open>Canonical text\<close>

definition hex_char :: "nat \<Rightarrow> char" where
  "hex_char n = char_of (if n < 10 then 48 + n else 87 + n)"

definition escape_char :: "char \<Rightarrow> string" where
  "escape_char c =
     (let n = (of_char c :: nat)
      in if n = 92 \<or> n = 34 then [CHR 0x5C, c]
         else if n = 10 then [CHR 0x5C, CHR ''n''] else if n = 13 then [CHR 0x5C, CHR ''r'']
         else if n = 9 then [CHR 0x5C, CHR ''t''] else if n = 12 then [CHR 0x5C, CHR ''f'']
         else if n = 8 then [CHR 0x5C, CHR ''b'']
         else if n < 32 then CHR 0x5C # ''u00'' @ [hex_char (n div 16), hex_char (n mod 16)]
         else [c])"

definition quoted :: "string \<Rightarrow> string" where
  "quoted s = CHR 34 # concat (map escape_char s) @ [CHR 34]"

definition comma_sep :: "string list \<Rightarrow> string" where
  "comma_sep xs = (case xs of [] \<Rightarrow> [] | y # ys \<Rightarrow> y @ concat (map (\<lambda>z. CHR '','' # z) ys))"

text \<open>\<open>json.dumps\<close> with sorted keys, no spaces and non-ASCII characters left as they are.\<close>

fun canonical_str :: "float_text \<Rightarrow> json \<Rightarrow> string" where
  "canonical_str F JNull = ''null''"
| "canonical_str F (JBool b) = (if b then ''true'' else ''false'')"
| "canonical_str F (JInt i) = int_text i"
| "canonical_str F (JFloat f) = py_dumps F f"
| "canonical_str F (JStr s) = quoted s"
| "canonical_str F (JList xs) = CHR ''['' # comma_sep (map (canonical_str F) xs) @ '']''"
| "canonical_str F (JObj kvs) =
     CHR ''{'' # comma_sep (map (\<lambda>(k, t). quoted k @ CHR '':'' # t)
        (sort_key fst (map (\<lambda>(k, v). (k, canonical_str F v)) kvs))) @ ''}''"

definition canonical :: "float_text \<Rightarrow> json \<Rightarrow> bytes" where
  "canonical F v = encode_string (canonical_str F v)"

subsection \<open>Hexadecimal\<close>

text \<open>\<open>bytes.hex\<close>.\<close>

definition hex_of :: "bytes \<Rightarrow> string" where
  "hex_of bs = concat (map (\<lambda>b. [hex_char (unat b div 16), hex_char (unat b mod 16)]) bs)"

lemma hex_digit_char: "n < 16 \<Longrightarrow> hex_digit (hex_char n) = Some n \<and> \<not> ascii_space (hex_char n)"
  by (auto simp: hex_digit_def hex_char_def ascii_space_def Let_def of_char_of)

lemma fromhex_hex [simp]: "fromhex (hex_of bs) = Inr bs"
proof (induction bs)
  case (Cons b bs)
  have b: "unat b div 16 < 16" "unat b mod 16 < 16" using unsigned_less [of b, where ?'a = nat] by simp_all
  have "byte_of (16 * (unat b div 16) + unat b mod 16) = b" by (simp add: byte_of_def)
  then show ?case using Cons hex_digit_char [OF b(1)] hex_digit_char [OF b(2)] by (simp add: hex_of_def)
qed (simp add: hex_of_def)

end
