(* ===== verification/Control_Server.thy ===== *)
theory Control_Server
  imports Json Registry
begin

section \<open>The control server\<close>

text \<open>
  \<open>engine/control_server.py\<close>: the ed25519 verifier and signer of request bodies, the handler of
  every POST and GET, with its status codes and the exceptions it does not catch, and the limiter
  of suspect reports.  The signature scheme is an argument.  Every handler holds the registry's
  lock while it changes it, and the limiter's lock while it counts, so a request is one step.  A
  body is \<open>None\<close> when its bytes are not JSON.  The text of an error answer is not kept.
\<close>

subsection \<open>Signed bodies\<close>

record ed25519 =
  ed_sign :: "bytes \<Rightarrow> bytes \<Rightarrow> bytes"
  ed_check :: "bytes \<Rightarrow> bytes \<Rightarrow> bytes \<Rightarrow> bool"

text \<open>The message: the body without its signature.\<close>

definition signed_bytes :: "float_text \<Rightarrow> body \<Rightarrow> bytes" where
  "signed_bytes F b = canonical F (JObj (filter (\<lambda>(k, v). k \<noteq> ''sig'') b))"

text \<open>\<open>abs(time.time() - ts) > window\<close>: a comparison with not-a-number is false.\<close>

definition too_far :: "rat \<Rightarrow> rat \<Rightarrow> pyfloat \<Rightarrow> bool" where
  "too_far window now ts =
     (case ts of Fin q \<Rightarrow> window < \<bar>now - q\<bar> | PosInf \<Rightarrow> True | NegInf \<Rightarrow> True | NaN \<Rightarrow> False)"

definition fresh_ts :: "float_text \<Rightarrow> rat \<Rightarrow> rat \<Rightarrow> body \<Rightarrow> bool" where
  "fresh_ts F window now b =
     (window = 0 \<or>
      (case map_of b ''ts'' of
         None \<Rightarrow> False
       | Some JNull \<Rightarrow> False
       | Some v \<Rightarrow> (case json_float F v of Inl _ \<Rightarrow> False | Inr f \<Rightarrow> \<not> too_far window now f)))"

definition verify_body :: "float_text \<Rightarrow> ed25519 \<Rightarrow> rat \<Rightarrow> rat \<Rightarrow> json \<Rightarrow> bool" where
  "verify_body F S window now v =
     (case v of
        JObj b \<Rightarrow>
          fresh_ts F window now b \<and>
          (case (bindE (jfield ''sig'' b) json_hex, bindE (jfield ''node_id'' b) json_hex) of
             (Inr sig, Inr pub) \<Rightarrow> ed_check S pub sig (signed_bytes F b)
           | _ \<Rightarrow> False)
      | _ \<Rightarrow> False)"

definition sign_body :: "float_text \<Rightarrow> ed25519 \<Rightarrow> bytes \<Rightarrow> string \<Rightarrow> rat \<Rightarrow> body \<Rightarrow> body" where
  "sign_body F S priv nid now b =
     (let b1 = dset ''ts'' (JFloat (Fin now)) (dset ''node_id'' (JStr nid) b)
      in dset ''sig'' (JStr (hex_of (ed_sign S priv (signed_bytes F b1)))) b1)"

subsection \<open>Bodies and answers\<close>

fun trust_text :: "trust_tier \<Rightarrow> string" where
  "trust_text PROBATION = ''probation''"
| "trust_text TRUSTED = ''trusted''"

definition pair_json :: "string \<times> int \<Rightarrow> json" where
  "pair_json ep = JList [JStr (fst ep), JInt (snd ep)]"

definition node_slice :: "registry \<Rightarrow> node \<Rightarrow> (int \<times> int) option" where
  "node_slice r n =
     (case slot n of
        None \<Rightarrow> None
      | Some i \<Rightarrow> if i < length (slots (topo r))
                  then Some (s_start (slots (topo r) ! i), s_end (slots (topo r) ! i)) else None)"

definition node_json :: "registry \<Rightarrow> bool \<Rightarrow> node \<Rightarrow> json" where
  "node_json r with_key n =
     JObj ([(''node_id'', JStr (node_id n)), (''endpoint'', pair_json (endpoint n)),
        (''layers'', case node_slice r n of None \<Rightarrow> JNull | Some (a, b) \<Rightarrow> JList [JInt a, JInt b]),
        (''reachability'', JStr (reachability n)), (''trust'', JStr (trust_text (trust n))),
        (''orchestrator'', JBool (orchestrator n))] @
       (case wire_key n of Some k \<Rightarrow> if with_key then [(''wire_key'', JStr (hex_of k))] else [] | None \<Rightarrow> []))"

definition admission_json :: "admission \<Rightarrow> body" where
  "admission_json a =
     [(''assignment'', case assignment a of None \<Rightarrow> JNull
                       | Some (x, y) \<Rightarrow> JObj [(''start'', JInt x), (''end'', JInt y)]),
      (''orch_index'', case orch_index a of None \<Rightarrow> JNull | Some i \<Rightarrow> JInt i),
      (''model_fp'', JStr (adm_model_fp a)), (''session_key'', JStr (hex_of (session_key a))),
      (''coordinator'', pair_json (adm_coordinator a)), (''replication'', JInt (adm_replication a))]"

text \<open>\<open>tuple(v)\<close> of an address.  A tuple that is not a host and a port is admitted by the program but
  is no endpoint of the model: \<open>Inr None\<close>.\<close>

fun json_endpoint :: "json \<Rightarrow> (string \<times> int) option result" where
  "json_endpoint (JList [JStr h, JInt p]) = Inr (Some (h, p))"
| "json_endpoint (JList xs) = Inr None"
| "json_endpoint (JStr s) = Inr None"
| "json_endpoint (JObj kvs) = Inr None"
| "json_endpoint _ = Inl TypeError"

text \<open>The slot a node asks for; what equals no pair of layers asks for none.  A number is not
  iterable and raises in the middle of the registration, which the model leaves out: \<open>None\<close>.\<close>

fun json_index :: "json \<Rightarrow> int option" where
  "json_index (JInt i) = Some i"
| "json_index (JBool b) = Some (if b then 1 else 0)"
| "json_index (JFloat (Fin q)) = (if q = of_int \<lfloor>q\<rfloor> then Some \<lfloor>q\<rfloor> else None)"
| "json_index _ = None"

fun json_range :: "json option \<Rightarrow> (int \<times> int) option option" where
  "json_range (Some (JList [x, y])) =
     Some (case (json_index x, json_index y) of (Some a, Some b) \<Rightarrow> Some (a, b) | _ \<Rightarrow> None)"
| "json_range (Some (JBool b)) = None"
| "json_range (Some (JInt i)) = None"
| "json_range (Some (JFloat f)) = None"
| "json_range _ = Some None"

definition opt_str :: "float_text \<Rightarrow> body \<Rightarrow> string \<Rightarrow> string \<Rightarrow> string" where
  "opt_str F b k dflt = (case map_of b k of None \<Rightarrow> dflt | Some v \<Rightarrow> json_str F v)"

definition node_of_body :: "float_text \<Rightarrow> body \<Rightarrow> node option result" where
  "node_of_body F b =
     bindE (jfield ''node_id'' b) (\<lambda>nid.
     bindE (bindE (jfield ''endpoint'' b) json_endpoint) (\<lambda>ep.
     bindE (bindE (jfield ''capacity_layers'' b) json_int) (\<lambda>cap.
       Inr (map_option (\<lambda>ep.
         new_node (json_str F nid) ep cap (opt_str F b ''model_fp'' [])
           (opt_str F b ''reachability'' ''public'')
           (case map_of b ''region'' of None \<Rightarrow> None | Some v \<Rightarrow> if truthy v then Some (json_str F v) else None)
           (opt_str F b ''payout_wallet'' [])
           (case map_of b ''orchestrator'' of None \<Rightarrow> False | Some v \<Rightarrow> truthy v)) ep))))"

text \<open>\<open>body[k]\<close> of any value.\<close>

definition any_field :: "string \<Rightarrow> json \<Rightarrow> json result" where
  "any_field k v = (case v of JObj b \<Rightarrow> jfield k b | _ \<Rightarrow> Inl TypeError)"

text \<open>\<open>"sig" in body\<close>.\<close>

fun has_sig :: "json \<Rightarrow> bool result" where
  "has_sig (JObj b) = Inr (map_of b ''sig'' \<noteq> None)"
| "has_sig (JList xs) = Inr (JStr ''sig'' \<in> set xs)"
| "has_sig (JStr s) = Inr (py_contains ''sig'' s)"
| "has_sig _ = Inl TypeError"

subsection \<open>Posts\<close>

record control_config =
  cc_text :: float_text
  cc_verify :: "(rat \<Rightarrow> json \<Rightarrow> bool) option"
  cc_strict :: bool
  cc_entry_sig :: bool
  cc_suspect_max :: int

record control =
  ct_reg :: registry
  ct_suspects :: "(string, rat list) dict"

text \<open>\<open>Crashed\<close>: an exception nobody catches; the connection closes without an answer.\<close>

datatype reply = Answer body | Failed nat | Crashed

definition error_reply :: "py_error \<Rightarrow> reply" where
  "error_reply e =
     (case e of PermissionError \<Rightarrow> Failed 403 | ValueError \<Rightarrow> Failed 409 | UnicodeError \<Rightarrow> Failed 409
      | KeyError \<Rightarrow> Failed 400 | _ \<Rightarrow> Crashed)"

definition ok_reply :: reply where
  "ok_reply = Answer [(''ok'', JBool True)]"

definition verified :: "control_config \<Rightarrow> rat \<Rightarrow> json \<Rightarrow> bool" where
  "verified cfg wall v = (case cc_verify cfg of None \<Rightarrow> False | Some ver \<Rightarrow> ver wall v)"

text \<open>\<open>None\<close>: a registration outside the model (see above).\<close>

definition post_register ::
  "control_config \<Rightarrow> rat \<Rightarrow> rat \<Rightarrow> json \<Rightarrow> control \<Rightarrow> (control \<times> reply) option" where
  "post_register cfg now wall v c =
     (if cc_verify cfg \<noteq> None \<and> \<not> verified cfg wall v then Some (c, Failed 401)
      else case v of
             JObj b \<Rightarrow>
               (case node_of_body (cc_text cfg) b of
                  Inl e \<Rightarrow> Some (c, error_reply e)
                | Inr None \<Rightarrow> None
                | Inr (Some n) \<Rightarrow>
                    (case json_range (map_of b ''loaded_layers'') of
                       None \<Rightarrow> None
                     | Some pr \<Rightarrow>
                         Some (case reg_register (ct_reg c) n now pr of
                                 (r, Inl e) \<Rightarrow> (c\<lparr>ct_reg := r\<rparr>, error_reply e)
                               | (r, Inr a) \<Rightarrow> (c\<lparr>ct_reg := r\<rparr>, Answer (admission_json a)))))
           | _ \<Rightarrow> Some (c, Crashed))"

text \<open>Liveness posts: a signature that is there must verify; without one the post is refused only
  in strict mode.\<close>

definition live_guard :: "control_config \<Rightarrow> rat \<Rightarrow> json \<Rightarrow> reply option" where
  "live_guard cfg wall v =
     (if cc_verify cfg = None then None
      else case has_sig v of
             Inl e \<Rightarrow> Some (error_reply e)
           | Inr sig \<Rightarrow>
               if sig then (if verified cfg wall v then None else Some (Failed 401))
               else if cc_strict cfg then Some (Failed 401) else None)"

definition post_live ::
  "control_config \<Rightarrow> rat \<Rightarrow> rat \<Rightarrow> string \<Rightarrow> json \<Rightarrow> control \<Rightarrow> control \<times> reply" where
  "post_live cfg now wall path v c =
     (case live_guard cfg wall v of
        Some rep \<Rightarrow> (c, rep)
      | None \<Rightarrow>
          (case any_field ''node_id'' v of
             Inl e \<Rightarrow> (c, error_reply e)
           | Inr x \<Rightarrow>
               (let nid = json_str (cc_text cfg) x
                in if path = ''/ready'' then (c\<lparr>ct_reg := reg_mark_ready (ct_reg c) nid\<rparr>, ok_reply)
                   else if path = ''/heartbeat'' then
                     (case reg_heartbeat (ct_reg c) nid now of
                        (r, known) \<Rightarrow> (c\<lparr>ct_reg := r\<rparr>, Answer [(''ok'', JBool True), (''registered'', JBool known)]))
                   else (c\<lparr>ct_reg := reg_drain (ct_reg c) nid\<rparr>, ok_reply))))"

definition post_entry ::
  "control_config \<Rightarrow> rat \<Rightarrow> string \<Rightarrow> json \<Rightarrow> control \<Rightarrow> control \<times> reply" where
  "post_entry cfg wall path v c =
     (if cc_entry_sig cfg \<and> \<not> verified cfg wall v then (c, Failed 401)
      else case any_field ''session'' v of
             Inl e \<Rightarrow> (c, error_reply e)
           | Inr x \<Rightarrow>
               (let s = SStr (json_str (cc_text cfg) x)
                in if path = ''/entry/acquire'' then
                     (case acquire_entry (ct_reg c) s of
                        (r, n) \<Rightarrow> (c\<lparr>ct_reg := r\<rparr>, Answer [(''orchestrator'',
                           case n of None \<Rightarrow> JNull | Some nd \<Rightarrow> node_json r False nd)]))
                   else (c\<lparr>ct_reg := release_entry (ct_reg c) s\<rparr>, ok_reply)))"

text \<open>At most \<open>cc_suspect_max\<close> reports of one caller in sixty seconds.\<close>

definition recent_reports :: "rat \<Rightarrow> string \<Rightarrow> control \<Rightarrow> rat list" where
  "recent_reports wall caller c = filter (\<lambda>t. wall - t < 60) (dget (ct_suspects c) caller [])"

definition post_suspect ::
  "control_config \<Rightarrow> rat \<Rightarrow> body \<Rightarrow> control \<Rightarrow> control \<times> reply" where
  "post_suspect cfg wall b c =
     (let caller = opt_str (cc_text cfg) b ''node_id'' [];
          hist = recent_reports wall caller c
      in if cc_suspect_max cfg \<le> int (length hist) then (c, Failed 429)
         else let c1 = c\<lparr>ct_suspects := dset caller (hist @ [wall]) (ct_suspects c)\<rparr>
              in case jfield ''suspect'' b of
                   Inl e \<Rightarrow> (c1, error_reply e)
                 | Inr x \<Rightarrow> (c1\<lparr>ct_reg := reg_mark_suspect (ct_reg c1) (json_str (cc_text cfg) x)\<rparr>, ok_reply))"

definition post_route ::
  "control_config \<Rightarrow> rat \<Rightarrow> string \<Rightarrow> json \<Rightarrow> control \<Rightarrow> control \<times> reply" where
  "post_route cfg wall path v c =
     (if cc_verify cfg = None then (c, Failed 403)
      else if \<not> verified cfg wall v then (c, Failed 401)
      else case v of
             JObj b \<Rightarrow>
               if path = ''/route/suspect'' then post_suspect cfg wall b c
               else
                 (case jfield ''session'' b of
                    Inl e \<Rightarrow> (c, error_reply e)
                  | Inr x \<Rightarrow>
                      (let s = SStr (json_str (cc_text cfg) x)
                       in if path = ''/route/acquire'' then
                            (case acquire_route (ct_reg c) s of
                               (r, Inl e) \<Rightarrow> (c\<lparr>ct_reg := r\<rparr>, if e = RuntimeError then Failed 503 else error_reply e)
                             | (r, Inr rt) \<Rightarrow> (c\<lparr>ct_reg := r\<rparr>, Answer [(''route'', JList (map (node_json r True) rt))]))
                          else (c\<lparr>ct_reg := release_route (ct_reg c) s\<rparr>, ok_reply)))
           | _ \<Rightarrow> (c, Crashed))"

definition handle_post ::
  "control_config \<Rightarrow> rat \<Rightarrow> rat \<Rightarrow> string \<Rightarrow> json option \<Rightarrow> control \<Rightarrow> (control \<times> reply) option" where
  "handle_post cfg now wall path body c =
     (case body of
        None \<Rightarrow> Some (c, Failed 400)
      | Some v \<Rightarrow>
          if path = ''/register'' then post_register cfg now wall v c
          else if path \<in> {''/ready'', ''/heartbeat'', ''/drain''} then Some (post_live cfg now wall path v c)
          else if path \<in> {''/entry/acquire'', ''/entry/release''} then Some (post_entry cfg wall path v c)
          else if path \<in> {''/route/acquire'', ''/route/release'', ''/route/suspect''}
          then Some (post_route cfg wall path v c)
          else Some (c, Failed 404))"

subsection \<open>Gets and the reaper\<close>

datatype view = TopologyView mesh_view | HealthView bool | PayoutView "(string \<times> string \<times> trust_tier) list" | NotFound

definition handle_get :: "string \<Rightarrow> control \<Rightarrow> view" where
  "handle_get path c =
     (if path = ''/topology'' then TopologyView (snapshot (ct_reg c))
      else if path = ''/health'' then HealthView (mv_coverage (snapshot (ct_reg c)))
      else if path = ''/payouts/eligible'' then PayoutView (payout_eligible (ct_reg c))
      else NotFound)"

text \<open>One round of the background reaper, without its log lines.\<close>

definition reaper_round :: "rat \<Rightarrow> control \<Rightarrow> control" where
  "reaper_round now c = c\<lparr>ct_reg := fst (tick (ct_reg c) now)\<rparr>"

end
