(* ===== verification/Route_Client.thy ===== *)
theory Route_Client
  imports Control_Server Coordinator
begin

section \<open>Clients of the control plane\<close>

text \<open>
  \<open>engine/route_provider.py\<close>: the failover client for several control planes
  (\<open>ControlEndpoints\<close>) and the route provider of an orchestrator that has no registry of its own
  (\<open>RemoteRouteProvider\<close>).  A post reaches the control server of a URL as the network lets it:
  refused, delivered, or delivered with the answer lost.  Answers with an error status, a closed
  connection and a refusal are all the \<open>OSError\<close> that \<open>urlopen\<close> raises.  The body goes through
  \<open>json.dumps\<close> and \<open>json.loads\<close> unchanged.
\<close>

subsection \<open>Hops\<close>

record route_hop =
  rh_id :: string
  rh_host :: "string option"
  rh_port :: "int option"
  rh_layers :: "(int \<times> int) option"
  rh_reach :: string
  rh_key :: "bytes option"

definition to_hops :: "registry \<Rightarrow> node list \<Rightarrow> route_hop list" where
  "to_hops r nds =
     map (\<lambda>n. \<lparr>rh_id = node_id n, rh_host = Some (fst (endpoint n)), rh_port = Some (snd (endpoint n)),
       rh_layers = node_slice r n, rh_reach = reachability n, rh_key = wire_key n\<rparr>) nds"

subsection \<open>Failover over control URLs\<close>

record endpoints =
  ep_urls :: "string list"
  ep_preferred :: nat

fun split_char :: "char \<Rightarrow> string \<Rightarrow> string list" where
  "split_char c [] = [[]]"
| "split_char c (d # ds) =
     (if d = c then [] # split_char c ds
      else case split_char c ds of [] \<Rightarrow> [[d]] | w # ws \<Rightarrow> (d # w) # ws)"

definition strip_slashes :: "string \<Rightarrow> string" where
  "strip_slashes u = rev (dropWhile (\<lambda>c. c = CHR ''/'') (rev u))"

datatype url_spec = UrlText string | UrlList "string list"

definition mk_endpoints :: "url_spec \<Rightarrow> endpoints result" where
  "mk_endpoints spec =
     (let urls = (case spec of UrlText s \<Rightarrow> map py_strip (split_char CHR '','' s) | UrlList us \<Rightarrow> us);
          kept = map strip_slashes (filter (\<lambda>u. py_strip u \<noteq> []) urls)
      in if kept = [] then Inl ValueError else Inr \<lparr>ep_urls = kept, ep_preferred = 0\<rparr>)"

text \<open>The sticky URL first, then the others in order; the last error is raised when none answers.\<close>

definition try_order :: "endpoints \<Rightarrow> nat list" where
  "try_order e = ep_preferred e # filter (\<lambda>i. i \<noteq> ep_preferred e) [0 ..< length (ep_urls e)]"

fun first_answer ::
  "(string \<Rightarrow> 's \<Rightarrow> 's \<times> 'r result) \<Rightarrow> string list \<Rightarrow> nat list \<Rightarrow> py_error \<Rightarrow> 's \<Rightarrow> 's \<times> (nat \<times> 'r) result" where
  "first_answer post urls [] err s = (s, Inl err)"
| "first_answer post urls (i # is) err s =
     (case post (urls ! i) s of
        (s1, Inr r) \<Rightarrow> (s1, Inr (i, r))
      | (s1, Inl e) \<Rightarrow> first_answer post urls is e s1)"

definition failover_post ::
  "(string \<Rightarrow> 's \<Rightarrow> 's \<times> 'r result) \<Rightarrow> endpoints \<Rightarrow> 's \<Rightarrow> endpoints \<times> 's \<times> 'r result" where
  "failover_post post e s =
     (case first_answer post (ep_urls e) (try_order e) RuntimeError s of
        (s1, Inl er) \<Rightarrow> (e, s1, Inl er)
      | (s1, Inr (i, r)) \<Rightarrow> (e\<lparr>ep_preferred := i\<rparr>, s1, Inr r))"

text \<open>The fan-out: every URL once, whatever the others answer.\<close>

fun post_each :: "(string \<Rightarrow> 's \<Rightarrow> 's \<times> 'r result) \<Rightarrow> string list \<Rightarrow> 's \<Rightarrow> 's \<times> (string \<times> 'r result) list" where
  "post_each post [] s = (s, [])"
| "post_each post (u # us) s =
     (case post u s of (s1, r) \<Rightarrow> (case post_each post us s1 of (s2, out) \<Rightarrow> (s2, (u, r) # out)))"

definition post_all :: "(string \<Rightarrow> 's \<Rightarrow> 's \<times> 'r result) \<Rightarrow> endpoints \<Rightarrow> 's \<Rightarrow> 's \<times> (string \<times> 'r result) list" where
  "post_all post e s = post_each post (ep_urls e) s"

subsection \<open>Posting to control servers\<close>

text \<open>Every post is one contact: its fate, and the two clocks at that moment.\<close>

record control_net =
  cn_config :: control_config
  cn_reach :: "nat \<Rightarrow> string \<Rightarrow> contact"
  cn_server :: "nat \<Rightarrow> rat"
  cn_clock :: "nat \<Rightarrow> rat"
  cn_sign :: "(rat \<Rightarrow> body \<Rightarrow> body) option"

record planes =
  pl_servers :: "(string, control) dict"
  pl_contacts :: nat

text \<open>A registration outside the model of the control server counts as not delivered; the clients send
  none.\<close>

definition post_one ::
  "control_net \<Rightarrow> string \<Rightarrow> body \<Rightarrow> string \<Rightarrow> planes \<Rightarrow> planes \<times> body result" where
  "post_one N path b url s =
     (let t = pl_contacts s;
          s1 = s\<lparr>pl_contacts := t + 1\<rparr>;
          data = (case cn_sign N of None \<Rightarrow> b | Some sign \<Rightarrow> sign (cn_clock N t) b)
      in if cn_reach N t url = Refused then (s1, Inl OSError)
         else case map_of (pl_servers s) url of
                None \<Rightarrow> (s1, Inl OSError)
              | Some c \<Rightarrow>
                  (case handle_post (cn_config N) (cn_server N t) (cn_server N t) path (Some (JObj data)) c of
                     None \<Rightarrow> (s1, Inl OSError)
                   | Some (c', rep) \<Rightarrow>
                       (let s2 = s1\<lparr>pl_servers := dmod url (\<lambda>_. c') (pl_servers s1)\<rparr>
                        in if cn_reach N t url = Lost then (s2, Inl OSError)
                           else (s2, case rep of Answer r \<Rightarrow> Inr r | _ \<Rightarrow> Inl OSError))))"

subsection \<open>The remote route provider\<close>

text \<open>A hop of an answer.  A host that is no string or a port that is no number is refused here, in
  the program when the connection is made.\<close>

definition json_host :: "json \<Rightarrow> string option result" where
  "json_host v = (case v of JNull \<Rightarrow> Inr None | JStr s \<Rightarrow> Inr (Some s) | _ \<Rightarrow> Inl TypeError)"

definition json_port :: "json \<Rightarrow> int option result" where
  "json_port v = (case v of JNull \<Rightarrow> Inr None | JInt i \<Rightarrow> Inr (Some i) | _ \<Rightarrow> Inl TypeError)"

text \<open>\<open>body.get(k)\<close> where it is true.\<close>

definition true_field :: "string \<Rightarrow> body \<Rightarrow> json option" where
  "true_field k b = (case map_of b k of None \<Rightarrow> None | Some v \<Rightarrow> if truthy v then Some v else None)"

definition hop_of_json :: "json \<Rightarrow> route_hop result" where
  "hop_of_json v =
     (case v of
        JObj h \<Rightarrow>
          bindE (case true_field ''endpoint'' h of
                   None \<Rightarrow> Inr (JNull, JNull)
                 | Some (JList (x # y # _)) \<Rightarrow> Inr (x, y)
                 | Some (JList _) \<Rightarrow> Inl IndexError
                 | Some _ \<Rightarrow> Inl TypeError) (\<lambda>(hst, prt).
          bindE (case true_field ''layers'' h of
                   None \<Rightarrow> Inr None
                 | Some (JList [JInt a, JInt b]) \<Rightarrow> Inr (Some (a, b))
                 | Some _ \<Rightarrow> Inl TypeError) (\<lambda>ly.
          bindE (case true_field ''wire_key'' h of
                   None \<Rightarrow> Inr None
                 | Some k \<Rightarrow> bindE (json_hex k) (\<lambda>b. Inr (Some b))) (\<lambda>wk.
          bindE (jfield ''node_id'' h) (\<lambda>nid.
          bindE (case nid of JStr s \<Rightarrow> Inr s | _ \<Rightarrow> Inl TypeError) (\<lambda>nid.
          bindE (case map_of h ''reachability'' of None \<Rightarrow> Inr ''public'' | Some (JStr s) \<Rightarrow> Inr s | Some _ \<Rightarrow> Inl TypeError) (\<lambda>rch.
          bindE (json_host hst) (\<lambda>hst.
          bindE (json_port prt) (\<lambda>prt.
            Inr \<lparr>rh_id = nid, rh_host = hst, rh_port = prt, rh_layers = ly, rh_reach = rch, rh_key = wk\<rparr>))))))))
      | _ \<Rightarrow> Inl TypeError)"

definition hops_of_answer :: "body \<Rightarrow> route_hop list result" where
  "hops_of_answer b =
     (case map_of b ''route'' of
        None \<Rightarrow> Inr []
      | Some (JStr []) \<Rightarrow> Inr []
      | Some (JObj []) \<Rightarrow> Inr []
      | Some (JList xs) \<Rightarrow> mapE hop_of_json xs
      | Some _ \<Rightarrow> Inl TypeError)"

text \<open>The relay code uses a hop as it uses a node: by id, address and key.  A hop without an address
  has one nobody listens at.\<close>

definition hop_node :: "route_hop \<Rightarrow> node" where
  "hop_node h =
     (new_node (rh_id h)
        (case rh_host h of None \<Rightarrow> [] | Some s \<Rightarrow> s, case rh_port h of None \<Rightarrow> 0 | Some p \<Rightarrow> p)
        0 [] (rh_reach h) None [] False)\<lparr>wire_key := rh_key h\<rparr>"

record remote =
  re_eps :: endpoints
  re_planes :: planes

definition remote_post :: "control_net \<Rightarrow> string \<Rightarrow> body \<Rightarrow> remote \<Rightarrow> remote \<times> body result" where
  "remote_post N path b st =
     (case failover_post (post_one N path b) (re_eps st) (re_planes st) of
        (e, s, r) \<Rightarrow> (\<lparr>re_eps = e, re_planes = s\<rparr>, r))"

definition remote_acquire :: "control_net \<Rightarrow> remote \<Rightarrow> int \<Rightarrow> remote \<times> route_hop list result" where
  "remote_acquire N st session =
     (case remote_post N ''/route/acquire'' [(''session'', JStr (int_text session))] st of
        (st1, r) \<Rightarrow> (st1, bindE r hops_of_answer))"

definition remote_release :: "control_net \<Rightarrow> remote \<Rightarrow> int \<Rightarrow> remote" where
  "remote_release N st session =
     fst (remote_post N ''/route/release'' [(''session'', JStr (int_text session))] st)"

definition remote_suspect :: "control_net \<Rightarrow> remote \<Rightarrow> string \<Rightarrow> remote" where
  "remote_suspect N st nid = fst (remote_post N ''/route/suspect'' [(''suspect'', JStr nid)] st)"

definition remote_provider :: "control_net \<Rightarrow> remote route_provider" where
  "remote_provider N =
     \<lparr>rp_acquire = (\<lambda>st s. case remote_acquire N st s of (st1, r) \<Rightarrow> (st1, bindE r (\<lambda>hs. Inr (map hop_node hs)))),
      rp_release = remote_release N,
      rp_suspect = remote_suspect N\<rparr>"

end
