(* ===== verification/Control_Spec.thy ===== *)
theory Control_Spec
  imports Control_Server Registry_Spec
begin

section \<open>What the control server guarantees\<close>

text \<open>
  Every post is at most one step of the registry, so its invariants hold whatever arrives.  Nobody
  without a valid signature changes the registry or sees a data-wire key.  A signed body is
  accepted exactly in its time window.  No caller has more suspect reports accepted in a minute
  than the limit.
\<close>

subsection \<open>A post is a step of the registry\<close>

definition steps_to :: "registry \<Rightarrow> registry \<Rightarrow> bool" where
  "steps_to r r' \<longleftrightarrow> r' = r \<or> (\<exists>e. r' = reg_step r e)"

lemma reg_steps:
  "reg_register r n now pr = (r', a) \<Longrightarrow> steps_to r r'"
  "reg_heartbeat r nid now = (r', b) \<Longrightarrow> steps_to r r'"
  "acquire_route r s = (r', rt) \<Longrightarrow> steps_to r r'"
  "acquire_entry r s = (r', nd) \<Longrightarrow> steps_to r r'"
  by (metis reg_step.simps fst_conv steps_to_def)+

lemma reg_ops [simp]:
  "steps_to r r" "steps_to r (reg_mark_ready r nid)" "steps_to r (reg_drain r nid)"
  "steps_to r (reg_mark_suspect r nid)" "steps_to r (release_route r s)" "steps_to r (release_entry r s)"
  by (metis reg_step.simps steps_to_def)+

lemmas post_cases = if_splits sum.splits option.splits prod.splits json.splits

lemma post_register_step:
  "post_register cfg now wall v c = Some (c', rep) \<Longrightarrow> steps_to (ct_reg c) (ct_reg c')"
  by (auto simp: post_register_def dest: reg_steps split: post_cases)

lemma post_live_step:
  "post_live cfg now wall path v c = (c', rep) \<Longrightarrow> steps_to (ct_reg c) (ct_reg c')"
  by (auto simp: post_live_def Let_def dest: reg_steps split: post_cases)

lemma post_entry_step:
  "post_entry cfg wall path v c = (c', rep) \<Longrightarrow> steps_to (ct_reg c) (ct_reg c')"
  by (auto simp: post_entry_def Let_def dest: reg_steps split: post_cases)

lemma post_route_step:
  "post_route cfg wall path v c = (c', rep) \<Longrightarrow> steps_to (ct_reg c) (ct_reg c')"
  by (auto simp: post_route_def post_suspect_def Let_def dest: reg_steps split: post_cases)

lemma post_is_step:
  "handle_post cfg now wall path body c = Some (c', rep) \<Longrightarrow>
     steps_to (ct_reg c) (ct_reg c')"
  using post_register_step post_live_step post_entry_step post_route_step
  by (auto simp: handle_post_def split: option.splits if_splits)


subsection \<open>Runs of the server\<close>

text \<open>Posts with the server's two clocks, and rounds of the reaper; what each post was answered.  A run
  ends at a registration the model leaves out.\<close>

datatype control_event = CPost rat rat string "json option" | CReap rat

fun control_run :: "control_config \<Rightarrow> control_event list \<Rightarrow> control \<Rightarrow> (control \<times> (control_event \<times> reply) list) option" where
  "control_run cfg [] c = Some (c, [])"
| "control_run cfg (CReap now # es) c = control_run cfg es (reaper_round now c)"
| "control_run cfg (CPost now wall path body # es) c =
     (case handle_post cfg now wall path body c of
        None \<Rightarrow> None
      | Some (c1, rep) \<Rightarrow>
          map_option (\<lambda>(c2, out). (c2, (CPost now wall path body, rep) # out)) (control_run cfg es c1))"

lemma registry_ok_post:
  "handle_post cfg now wall path body c = Some (c', rep) \<Longrightarrow> registry_ok (ct_reg c) \<Longrightarrow> registry_ok (ct_reg c')"
  using post_is_step registry_ok_step unfolding steps_to_def by metis

lemma registry_ok_control_run:
  "control_run cfg es c = Some (c', out) \<Longrightarrow> registry_ok (ct_reg c) \<Longrightarrow> registry_ok (ct_reg c')"
proof (induction cfg es c arbitrary: out rule: control_run.induct)
  case (2 cfg now es c)
  have "registry_ok (ct_reg (reaper_round now c))"
    using registry_ok_step [OF 2(3), of "RTick now"] by (simp add: reaper_round_def)
  then show ?case using 2 by simp
next
  case (3 cfg now wall path body es c)
  then show ?case using registry_ok_post by (auto split: option.splits)
qed simp

subsection \<open>Signatures\<close>

lemma filter_unsigned: "filter (\<lambda>(k, v). k \<noteq> x) (dset x w b) = filter (\<lambda>(k, v). k \<noteq> x) b"
  by (induction b) auto

text \<open>The values under a key, in the order of the whole tree.\<close>

fun mentions :: "string \<Rightarrow> json \<Rightarrow> bool" where
  "mentions k (JList xs) = (\<exists>x \<in> set xs. mentions k x)"
| "mentions k (JObj kvs) = (\<exists>(k', v) \<in> set kvs. k' = k \<or> mentions k v)"
| "mentions k _ = False"

lemma verify_signed:
  "\<forall>msg. ed_check S pub (ed_sign S priv msg) msg \<Longrightarrow> \<bar>now - t\<bar> \<le> window \<Longrightarrow>
     verify_body F S window now (JObj (sign_body F S priv (hex_of pub) t b))"
  by (auto simp: verify_body_def sign_body_def Let_def fresh_ts_def too_far_def jfield_def dict_simps
      signed_bytes_def filter_unsigned)

text \<open>A body signed by \<open>sign_body\<close> with the private key behind its \<open>node_id\<close> verifies exactly while
  its time stamp is within the window of the server's clock, so a captured body cannot be replayed
  later; and a body whose finite stamp is outside the window is refused whoever signed it.\<close>

theorem signatures_expire:
  assumes key: "\<forall>msg. ed_check S pub (ed_sign S priv msg) msg" and window: "window \<noteq> 0"
  shows "(verify_body F S window now (JObj (sign_body F S priv (hex_of pub) t b)) \<longleftrightarrow> \<bar>now - t\<bar> \<le> window) \<and>
    (map_of b' ''ts'' = Some (JFloat (Fin t)) \<and> verify_body F S window now (JObj b') \<longrightarrow> \<bar>now - t\<bar> \<le> window)"
  using assms by (auto simp: verify_body_def sign_body_def Let_def fresh_ts_def too_far_def jfield_def dict_simps
      signed_bytes_def filter_unsigned)

lemma node_json_keyless: "\<not> mentions ''wire_key'' (node_json r False nd)"
  by (auto simp: node_json_def pair_json_def split: option.splits)

lemma ok_reply_keyless: "ok_reply = Answer b \<Longrightarrow> \<not> mentions ''wire_key'' (JObj b)"
  by (auto simp: ok_reply_def)

lemma error_reply_no_answer: "error_reply e \<noteq> Answer b"
  by (cases e) (simp_all add: error_reply_def)

lemma post_live_keyless:
  "post_live cfg now wall path v c = (c', Answer b) \<Longrightarrow> \<not> mentions ''wire_key'' (JObj b)"
  by (auto simp: post_live_def live_guard_def Let_def error_reply_no_answer ok_reply_def split: post_cases)

lemma post_entry_keyless:
  "post_entry cfg wall path v c = (c', Answer b) \<Longrightarrow> \<not> mentions ''wire_key'' (JObj b)"
  using node_json_keyless
  by (auto simp: post_entry_def Let_def error_reply_no_answer ok_reply_def split: post_cases)

lemma unverified_post:
  assumes "\<not> verified cfg wall v"
  shows "cc_verify cfg \<noteq> None \<Longrightarrow> post_register cfg now wall v c = Some (c, Failed 401)"
    "cc_verify cfg \<noteq> None \<and> cc_strict cfg \<Longrightarrow> \<exists>rep. post_live cfg now wall path v c = (c, rep) \<and> (\<forall>b. rep \<noteq> Answer b)"
    "cc_entry_sig cfg \<Longrightarrow> post_entry cfg wall path v c = (c, Failed 401)"
    "\<exists>k. post_route cfg wall path v c = (c, Failed k)"
  using assms
  by (auto simp: post_register_def post_live_def live_guard_def post_entry_def post_route_def error_reply_no_answer
      split: post_cases)

text \<open>C20. Nobody acts on the control server without a signature: where a verifier is set, with strict
  liveness and guarded entry posts, a post whose body does not verify is refused and changes
  nothing; and in any configuration an answer to a body that did not verify never mentions a
  data-wire key, except the answer to a registration, which carries the registered node's own key.\<close>

theorem control_needs_signature:
  assumes "handle_post cfg now wall path (Some v) c = Some (c', rep)" and "\<not> verified cfg wall v"
  shows "(cc_verify cfg \<noteq> None \<and> cc_strict cfg \<and> cc_entry_sig cfg \<longrightarrow> c' = c \<and> (\<forall>b. rep \<noteq> Answer b)) \<and>
     (\<forall>b. path \<noteq> ''/register'' \<and> rep = Answer b \<longrightarrow> \<not> mentions ''wire_key'' (JObj b))"
proof -
  note un = unverified_post [OF assms(2)]
  consider (reg) "path = ''/register''" "post_register cfg now wall v c = Some (c', rep)"
    | (live) "post_live cfg now wall path v c = (c', rep)"
    | (entry) "post_entry cfg wall path v c = (c', rep)"
    | (route) "post_route cfg wall path v c = (c', rep)"
    | (other) "c' = c" "rep = Failed 404"
    using assms(1) by (auto simp: handle_post_def split: if_splits)
  then show ?thesis
  proof cases
    case reg
    then show ?thesis using un(1) [of now c] by auto
  next
    case live
    then show ?thesis using un(2) [of now path c] post_live_keyless [of cfg now wall path v c c'] by auto
  next
    case entry
    then show ?thesis using un(3) [of path c] post_entry_keyless [of cfg wall path v c c'] by auto
  next
    case route
    then show ?thesis using un(4) [of path c] by auto
  qed auto
qed

subsection \<open>The limit on suspect reports\<close>

text \<open>The reports of a caller that the server acted on, by the server's clock.\<close>

definition report_time :: "control_config \<Rightarrow> string \<Rightarrow> control_event \<times> reply \<Rightarrow> rat option" where
  "report_time cfg caller er =
     (case er of
        (CPost now wall path (Some (JObj b)), rep) \<Rightarrow>
          if path = ''/route/suspect'' \<and> rep = ok_reply \<and> opt_str (cc_text cfg) b ''node_id'' [] = caller
          then Some wall else None
      | _ \<Rightarrow> None)"

fun clock_of :: "control_event \<Rightarrow> rat option" where
  "clock_of (CPost now wall path body) = Some wall"
| "clock_of (CReap now) = None"

definition in_minute :: "rat \<Rightarrow> rat list \<Rightarrow> nat" where
  "in_minute t ws = length (filter (\<lambda>w. t - 60 < w \<and> w \<le> t) ws)"

text \<open>The log keeps what still counts of everything it ever held.\<close>

definition log_ok :: "int \<Rightarrow> rat \<Rightarrow> rat list \<Rightarrow> rat list \<Rightarrow> bool" where
  "log_ok k now hist lg \<longleftrightarrow> (\<forall>w \<in> set hist. w \<le> now) \<and> (\<forall>t. int (in_minute t hist) \<le> max 0 k) \<and>
     (\<forall>w \<ge> now. filter (\<lambda>t. w - t < 60) lg = filter (\<lambda>t. w - t < 60) hist)"

lemma log_ok_later: "log_ok k now hist lg \<Longrightarrow> now \<le> w \<Longrightarrow> log_ok k w hist lg"
  by (force simp: log_ok_def)

lemma log_ok_accept:
  assumes ok: "log_ok k now hist lg" and w: "now \<le> w" and room: "int (length (filter (\<lambda>t. w - t < 60) lg)) < k"
  shows "log_ok k w (hist @ [w]) (filter (\<lambda>t. w - t < 60) lg @ [w])"
proof -
  have lg: "filter (\<lambda>t. v - t < 60) lg = filter (\<lambda>t. v - t < 60) hist" if "now \<le> v" for v
    using ok that by (simp add: log_ok_def)
  have "int (in_minute t (hist @ [w])) \<le> max 0 k" for t
  proof (cases "t - 60 < w \<and> w \<le> t")
    case True
    then have imp: "t - 60 < x \<and> x \<le> t \<longrightarrow> w - x < 60" for x by linarith
    have "filter (\<lambda>x. t - 60 < x \<and> x \<le> t) hist = filter (\<lambda>x. t - 60 < x \<and> x \<le> t) (filter (\<lambda>x. w - x < 60) hist)"
      using imp by (auto simp: filter_filter intro!: filter_cong)
    then have "in_minute t hist \<le> length (filter (\<lambda>x. w - x < 60) lg)"
      unfolding in_minute_def lg [OF w] by (metis length_filter_le)
    then show ?thesis using True room by (simp add: in_minute_def)
  next
    case False
    then have "in_minute t (hist @ [w]) = in_minute t hist" by (auto simp: in_minute_def)
    then show ?thesis using ok by (simp add: log_ok_def)
  qed
  moreover have "filter (\<lambda>t. v - t < 60) (filter (\<lambda>t. w - t < 60) lg @ [w]) = filter (\<lambda>t. v - t < 60) (hist @ [w])"
    if v: "w \<le> v" for v
  proof -
    have "filter (\<lambda>t. v - t < 60) (filter (\<lambda>t. w - t < 60) lg) = filter (\<lambda>t. v - t < 60) lg"
      using v by (auto simp: filter_filter intro!: filter_cong)
    then show ?thesis using lg [of v] v w by simp
  qed
  moreover have "\<forall>x \<in> set (hist @ [w]). x \<le> w" using ok w by (force simp: log_ok_def)
  ultimately show ?thesis unfolding log_ok_def by blast
qed

lemma post_log:
  assumes "handle_post cfg now wall path body c = Some (c', rep)"
  shows "(dget (ct_suspects c') caller [] = dget (ct_suspects c) caller [] \<and>
      report_time cfg caller (CPost now wall path body, rep) = None) \<or>
    (int (length (recent_reports wall caller c)) < cc_suspect_max cfg \<and>
      dget (ct_suspects c') caller [] = recent_reports wall caller c @ [wall])"
proof (cases "path = ''/route/suspect''")
  case False
  then have "ct_suspects c' = ct_suspects c"
    using assms by (auto simp: handle_post_def post_register_def post_live_def post_entry_def post_route_def Let_def
        split: if_splits post_cases)
  then show ?thesis using False by (auto simp: report_time_def split: option.splits json.splits)
next
  case True
  then show ?thesis
    using assms by (auto simp: handle_post_def post_route_def post_suspect_def Let_def report_time_def ok_reply_def dict_simps
        split: if_splits post_cases)
qed

lemma reports_limited:
  assumes "control_run cfg es c = Some (c', out)" and "log_ok (cc_suspect_max cfg) now hist (dget (ct_suspects c) caller [])"
    and "sorted (now # List.map_filter clock_of es)"
  shows "int (in_minute t (hist @ List.map_filter (report_time cfg caller) out)) \<le> max 0 (cc_suspect_max cfg)"
  using assms
proof (induction cfg es c arbitrary: out now hist rule: control_run.induct)
  case (1 cfg c)
  then show ?case by (simp add: List.map_filter_simps log_ok_def)
next
  case (2 cfg now' es c)
  then show ?case by (simp add: List.map_filter_simps reaper_round_def)
next
  case (3 cfg now' wall path body es c)
  obtain c1 rep out1 where p: "handle_post cfg now' wall path body c = Some (c1, rep)"
      "control_run cfg es c1 = Some (c', out1)" "out = (CPost now' wall path body, rep) # out1"
    using 3(2) by (auto split: option.splits)
  have w: "now \<le> wall" "sorted (wall # List.map_filter clock_of es)" using 3(4) by (simp_all add: List.map_filter_simps)
  note IH = 3(1) [OF p(1) refl p(2)]
  let ?rt = "report_time cfg caller (CPost now' wall path body, rep)"
  consider (same) "dget (ct_suspects c1) caller [] = dget (ct_suspects c) caller []" "?rt = None"
    | (new) "int (length (recent_reports wall caller c)) < cc_suspect_max cfg"
        "dget (ct_suspects c1) caller [] = recent_reports wall caller c @ [wall]"
    using post_log [OF p(1), of caller] by fast
  then show ?case
  proof cases
    case same
    then show ?thesis using IH [of wall hist] log_ok_later [OF 3(3) w(1)] w(2) p(3) by (simp add: List.map_filter_simps)
  next
    case new
    have "log_ok (cc_suspect_max cfg) wall (hist @ [wall]) (dget (ct_suspects c1) caller [])"
      using log_ok_accept [OF 3(3) w(1)] new by (simp add: recent_reports_def)
    then have "int (in_minute t ((hist @ [wall]) @ List.map_filter (report_time cfg caller) out1)) \<le> max 0 (cc_suspect_max cfg)"
      using IH w(2) by blast
    moreover have "?rt = None \<or> ?rt = Some wall"
      by (auto simp: report_time_def split: option.splits json.splits)
    ultimately show ?thesis using p(3) by (auto simp: List.map_filter_simps in_minute_def split: if_splits)
  qed
qed

text \<open>No orchestrator can flood the mesh with suspect reports: in every run of the server whose clock
  does not go back, whatever posts arrive, at most \<open>cc_suspect_max\<close> reports of one caller are acted
  on in any sixty seconds; and the registry's invariants hold at the end of the run.\<close>

theorem suspect_reports_limited:
  assumes run: "control_run cfg es c = Some (c', out)" and start: "ct_suspects c = []" "registry_ok (ct_reg c)"
    and clock: "sorted (List.map_filter clock_of es)"
  shows "int (in_minute t (List.map_filter (report_time cfg caller) out)) \<le> max 0 (cc_suspect_max cfg) \<and>
    registry_ok (ct_reg c')"
proof -
  obtain now where now: "sorted (now # List.map_filter clock_of es)"
    using clock by (cases "List.map_filter clock_of es") auto
  have "log_ok (cc_suspect_max cfg) now [] (dget (ct_suspects c) caller [])"
    using start by (simp add: log_ok_def in_minute_def dget_def)
  then show ?thesis using reports_limited [OF run _ now, of "[]"] registry_ok_control_run [OF run start(2)] by simp
qed

subsection \<open>A small server\<close>

definition demo_text :: float_text where
  "demo_text = \<lparr>py_repr = (\<lambda>_. []), py_dumps = (\<lambda>_. []), py_float = (\<lambda>_. None)\<rparr>"

definition demo_keys :: ed25519 where
  "demo_keys = \<lparr>ed_sign = (\<lambda>k m. m), ed_check = (\<lambda>p s m. s = m)\<rparr>"

definition demo_config :: control_config where
  "demo_config = \<lparr>cc_text = demo_text, cc_verify = Some (verify_body demo_text demo_keys 300), cc_strict = True,
     cc_entry_sig = True, cc_suspect_max = 1\<rparr>"

definition demo_control :: control where
  "demo_control = \<lparr>ct_reg = demo_registry, ct_suspects = []\<rparr>"

lemma signatures_expire_witness:
  "verify_body demo_text demo_keys 300 1000 (JObj (sign_body demo_text demo_keys [] (hex_of [7]) 800 [])) \<and>
   \<not> verify_body demo_text demo_keys 300 1200 (JObj (sign_body demo_text demo_keys [] (hex_of [7]) 800 []))"
  using signatures_expire [of demo_keys "[7]" "[]" 300 demo_text _ 800 "[]" "[]"] by (simp add: demo_keys_def)

lemma control_needs_signature_witness:
  "\<exists>rep. handle_post demo_config 0 0 ''/drain'' (Some (JObj [])) demo_control = Some (demo_control, rep) \<and> (\<forall>b. rep \<noteq> Answer b)"
proof -
  obtain c' rep where p: "handle_post demo_config 0 0 ''/drain'' (Some (JObj [])) demo_control = Some (c', rep)"
    by (cases "post_live demo_config 0 0 ''/drain'' (JObj []) demo_control") (auto simp: handle_post_def)
  have "\<not> verified demo_config 0 (JObj [])" by (simp add: verified_def demo_config_def verify_body_def fresh_ts_def)
  from control_needs_signature [OF p this] show ?thesis using p by (auto simp: demo_config_def)
qed

definition demo_report :: "rat \<Rightarrow> control_event" where
  "demo_report t = CPost t t ''/route/suspect''
     (Some (JObj (sign_body demo_text demo_keys [] (hex_of [7]) t [(''suspect'', JStr ''a'')])))"

lemma suspect_reports_limited_witness:
  "\<exists>c' out. control_run demo_config [demo_report 0, demo_report 1] demo_control = Some (c', out) \<and>
     in_minute 30 (List.map_filter (report_time demo_config (hex_of [7])) out) \<le> 1 \<and> registry_ok (ct_reg c')"
proof -
  have "control_run demo_config [demo_report 0, demo_report 1] demo_control \<noteq> None"
    by (simp add: demo_report_def handle_post_def split_beta)
  then obtain c' out where r: "control_run demo_config [demo_report 0, demo_report 1] demo_control = Some (c', out)" by auto
  have "sorted (List.map_filter clock_of [demo_report 0, demo_report 1])"
    by (simp add: demo_report_def List.map_filter_simps)
  from suspect_reports_limited [OF r _ _ this, of 30 "hex_of [7]"] show ?thesis
    using r demo_registry_ok by (simp add: demo_control_def demo_config_def)
qed

end
