(* ===== verification/Route_Client_Spec.thy ===== *)
theory Route_Client_Spec
  imports Route_Client Mesh_Spec Control_Spec
begin

section \<open>An orchestrator without a registry\<close>

text \<open>
  The route provider over the network gives what the control server's registry gives: so it keeps
  the contract of a route provider, and a generation of a head-only orchestrator is the whole
  model's, whichever control plane answers.
\<close>

subsection \<open>Failover\<close>

lemma first_answer_cases:
  assumes "first_answer post urls is err s = (s', r)" and "\<And>u s s' r. I s \<Longrightarrow> post u s = (s', r) \<Longrightarrow> I s' \<and> (\<forall>x. r = Inr x \<longrightarrow> J x)" and "I s"
  shows "I s' \<and> (\<forall>i x. r = Inr (i, x) \<longrightarrow> i \<in> set is \<and> J x)"
  using assms(1,3)
proof (induction "is" arbitrary: s err)
  case (Cons i "is")
  obtain s1 r1 where p: "post (urls ! i) s = (s1, r1)" by fastforce
  note a = assms(2) [OF Cons.prems(2) p]
  show ?case
  proof (cases r1)
    case (Inl e)
    then show ?thesis using Cons.IH [of e s1] Cons.prems(1) p a by auto
  next
    case (Inr x)
    then show ?thesis using Cons.prems(1) p a by auto
  qed
qed auto

definition eps_ok :: "endpoints \<Rightarrow> bool" where
  "eps_ok e \<longleftrightarrow> ep_preferred e < length (ep_urls e)"

lemma try_order_set: "eps_ok e \<Longrightarrow> set (try_order e) = {0 ..< length (ep_urls e)} \<and> distinct (try_order e)"
  by (auto simp: try_order_def eps_ok_def)

lemma failover_post_cases:
  assumes "failover_post post e s = (e', s', r)" and "\<And>u s s' r. I s \<Longrightarrow> post u s = (s', r) \<Longrightarrow> I s' \<and> (\<forall>x. r = Inr x \<longrightarrow> J x)"
    and "I s" and "eps_ok e"
  shows "I s' \<and> (\<forall>x. r = Inr x \<longrightarrow> J x) \<and> eps_ok e' \<and> ep_urls e' = ep_urls e"
proof -
  obtain s1 r1 where f: "first_answer post (ep_urls e) (try_order e) RuntimeError s = (s1, r1)" by fastforce
  note a = first_answer_cases [OF f, of I J, OF assms(2,3)]
  have "set (try_order e) = {0 ..< length (ep_urls e)}" using try_order_set assms(4) by blast
  then show ?thesis
    using a assms(1,4) f by (cases r1) (auto simp: failover_post_def eps_ok_def)
qed

lemma failover_preferred:
  assumes "post (ep_urls e ! ep_preferred e) s = (s', Inr x)"
  shows "failover_post post e s = (e, s', Inr x)"
  using assms by (simp add: failover_post_def try_order_def)

subsection \<open>One post\<close>

text \<open>A signer adds its identity and leaves the request alone.\<close>

definition signs :: "control_net \<Rightarrow> bool" where
  "signs N \<longleftrightarrow> (\<exists>F S priv nid. cn_sign N = Some (sign_body F S priv nid))"

definition data_of :: "control_net \<Rightarrow> nat \<Rightarrow> body \<Rightarrow> body" where
  "data_of N t b = (case cn_sign N of None \<Rightarrow> b | Some sign \<Rightarrow> sign (cn_clock N t) b)"

lemma data_of_field: "signs N \<Longrightarrow> k \<notin> {''sig'', ''ts'', ''node_id''} \<Longrightarrow> map_of (data_of N t b) k = map_of b k"
  by (auto simp: signs_def data_of_def sign_body_def Let_def dict_simps)

text \<open>What every control plane's registry satisfies.\<close>

definition planes_ok :: "(registry \<Rightarrow> bool) \<Rightarrow> planes \<Rightarrow> bool" where
  "planes_ok Q s \<longleftrightarrow> (\<forall>url c. map_of (pl_servers s) url = Some c \<longrightarrow> Q (ct_reg c))"

definition route_closed :: "(registry \<Rightarrow> bool) \<Rightarrow> bool" where
  "route_closed Q \<longleftrightarrow> (\<forall>r. Q r \<longrightarrow> (\<forall>s. Q (fst (acquire_route r s)) \<and> Q (release_route r s)) \<and> (\<forall>nid. Q (reg_mark_suspect r nid)))"

lemma post_route_keeps:
  "route_closed Q \<Longrightarrow> Q (ct_reg c) \<Longrightarrow> post_route cfg wall path v c = (c', rep) \<Longrightarrow> Q (ct_reg c')"
  by (auto simp: post_route_def post_suspect_def route_closed_def Let_def split: post_cases) (metis fst_conv)+

abbreviation route_paths :: "string set" where
  "route_paths \<equiv> {''/route/acquire'', ''/route/release'', ''/route/suspect''}"

lemma post_one_cases:
  assumes "path \<in> route_paths" and p: "post_one N path b url s = (s', r)"
  shows "pl_contacts s' = pl_contacts s + 1 \<and>
    ((pl_servers s' = pl_servers s \<and> r = Inl OSError) \<or>
     (\<exists>c c' rep. map_of (pl_servers s) url = Some c \<and> cn_reach N (pl_contacts s) url \<noteq> Refused \<and>
        post_route (cn_config N) (cn_server N (pl_contacts s)) path (JObj (data_of N (pl_contacts s) b)) c = (c', rep) \<and>
        pl_servers s' = dmod url (\<lambda>_. c') (pl_servers s) \<and>
        r = (if cn_reach N (pl_contacts s) url = Lost then Inl OSError
             else case rep of Answer x \<Rightarrow> Inr x | _ \<Rightarrow> Inl OSError)))"
proof -
  let ?t = "pl_contacts s"
  have post: "handle_post cfg now wall path (Some v) c = Some (post_route cfg wall path v c)" for cfg now wall v c
    using assms(1) by (auto simp: handle_post_def)
  show ?thesis
  proof (cases "cn_reach N ?t url = Refused \<or> map_of (pl_servers s) url = None")
    case True
    then show ?thesis using p by (auto simp: post_one_def Let_def split: if_splits option.splits)
  next
    case False
    then obtain c where c: "map_of (pl_servers s) url = Some c" "cn_reach N ?t url \<noteq> Refused" by blast
    obtain c' rep where h: "post_route (cn_config N) (cn_server N ?t) path (JObj (data_of N ?t b)) c = (c', rep)" by fastforce
    show ?thesis
      using p c h by (auto simp: post_one_def Let_def post data_of_def [symmetric])
  qed
qed

lemma post_one_keeps:
  assumes Q: "route_closed Q" "planes_ok Q s" and path: "path \<in> route_paths" and p: "post_one N path b url s = (s', r)"
  shows "planes_ok Q s'"
proof -
  consider "pl_servers s' = pl_servers s"
    | (sent) c c' rep where "map_of (pl_servers s) url = Some c"
        "post_route (cn_config N) (cn_server N (pl_contacts s)) path (JObj (data_of N (pl_contacts s) b)) c = (c', rep)"
        "pl_servers s' = dmod url (\<lambda>_. c') (pl_servers s)"
    using post_one_cases [OF path p] by blast
  then show ?thesis
  proof cases
    case sent
    then have "Q (ct_reg c')" using post_route_keeps [OF Q(1)] Q(2) unfolding planes_ok_def by blast
    then show ?thesis using Q(2) sent(3) by (auto simp: planes_ok_def dict_simps split: if_splits)
  qed (use Q(2) in \<open>simp add: planes_ok_def\<close>)
qed

subsection \<open>Routes through JSON\<close>

definition hop_sent :: "registry \<Rightarrow> node \<Rightarrow> route_hop" where
  "hop_sent r n = \<lparr>rh_id = node_id n, rh_host = Some (fst (endpoint n)), rh_port = Some (snd (endpoint n)),
     rh_layers = node_slice r n, rh_reach = reachability n, rh_key = (if wire_key n = Some [] then None else wire_key n)\<rparr>"

lemma hex_of_empty: "hex_of k = [] \<longleftrightarrow> k = []"
  by (cases k) (simp_all add: hex_of_def)

lemma hop_of_node_json: "hop_of_json (node_json r True n) = Inr (hop_sent r n)"
  by (auto simp: hop_of_json_def node_json_def hop_sent_def true_field_def pair_json_def jfield_def json_host_def json_port_def
      hex_of_empty split: option.splits)

lemma hops_of_route: "hops_of_answer [(''route'', JList (map (node_json r True) rt))] = Inr (map (hop_sent r) rt)"
proof -
  have "mapE hop_of_json (map (node_json r True) rt) = Inr (map (hop_sent r) rt)"
    by (induction rt) (simp_all add: hop_of_node_json)
  then show ?thesis by (simp add: hops_of_answer_def)
qed

definition remote_node :: "node \<Rightarrow> node" where
  "remote_node n = hop_node (hop_sent undefined n)"

lemma hop_node_sent: "hop_node (hop_sent r n) = remote_node n"
  by (simp add: remote_node_def hop_node_def hop_sent_def)

lemma remote_node_facts: "node_id (remote_node n) = node_id n \<and> node_key cluster (remote_node n) = node_key cluster n"
  by (auto simp: remote_node_def hop_node_def hop_sent_def new_node_def node_key_def split: option.splits)

lemma serves_remote: "serves E cluster M n enc lay ll names (map remote_node rt) = serves E cluster M n enc lay ll names rt"
  by (simp add: serves_def remote_node_facts o_def all_stages_def)

subsection \<open>The provider's answers\<close>

abbreviation session_req :: "int \<Rightarrow> body" where
  "session_req s \<equiv> [(''session'', JStr (int_text s))]"

lemma data_session: "signs N \<Longrightarrow> jfield ''session'' (data_of N t (session_req ss)) = Inr (JStr (int_text ss))"
  using data_of_field [of N "''session''" t "session_req ss"] by (simp add: jfield_def)

lemma acquire_answer:
  assumes sg: "signs N" and p: "post_one N ''/route/acquire'' (session_req ss) url s = (s', Inr ans)"
  shows "\<exists>c r' rt. map_of (pl_servers s) url = Some c \<and> acquire_route (ct_reg c) (SStr (int_text ss)) = (r', Inr rt) \<and>
    hops_of_answer ans = Inr (map (hop_sent r') rt) \<and> pl_servers s' = dmod url (\<lambda>_. c\<lparr>ct_reg := r'\<rparr>) (pl_servers s)"
proof -
  have path: "''/route/acquire'' \<in> route_paths" by simp
  obtain c c' rep where c: "map_of (pl_servers s) url = Some c"
      "post_route (cn_config N) (cn_server N (pl_contacts s)) ''/route/acquire'' (JObj (data_of N (pl_contacts s) (session_req ss))) c = (c', rep)"
      "pl_servers s' = dmod url (\<lambda>_. c') (pl_servers s)" "rep = Answer ans"
    using post_one_cases [OF path p] by (auto split: if_splits reply.splits)
  obtain r' x where a: "acquire_route (ct_reg c) (SStr (int_text ss)) = (r', x)" by fastforce
  have "\<exists>rt. x = Inr rt \<and> c' = c\<lparr>ct_reg := r'\<rparr> \<and> ans = [(''route'', JList (map (node_json r' True) rt))]"
    using c(2,4) a data_session [OF sg] by (auto simp: post_route_def error_reply_no_answer Let_def split: if_splits sum.splits)
  then show ?thesis using c(1,3) a hops_of_route by auto
qed

lemma acquire_delivered:
  assumes sg: "signs N" and url: "map_of (pl_servers s) url = Some c" "cn_reach N (pl_contacts s) url = Delivered"
    and ver: "verified (cn_config N) (cn_server N (pl_contacts s)) (JObj (data_of N (pl_contacts s) (session_req ss)))"
    and a: "acquire_route (ct_reg c) (SStr (int_text ss)) = (r', Inr rt)"
  shows "\<exists>s' ans. post_one N ''/route/acquire'' (session_req ss) url s = (s', Inr ans)"
proof -
  obtain s' r where p: "post_one N ''/route/acquire'' (session_req ss) url s = (s', r)" by fastforce
  have path: "''/route/acquire'' \<in> route_paths" by simp
  have "cc_verify (cn_config N) \<noteq> None" using ver by (auto simp: verified_def split: option.splits)
  then have "post_route (cn_config N) (cn_server N (pl_contacts s)) ''/route/acquire''
      (JObj (data_of N (pl_contacts s) (session_req ss))) c = (c\<lparr>ct_reg := r'\<rparr>, Answer [(''route'', JList (map (node_json r' True) rt))])"
    using ver a data_session [OF sg] by (simp add: post_route_def Let_def)
  moreover from this have "handle_post (cn_config N) (cn_server N (pl_contacts s)) (cn_server N (pl_contacts s)) ''/route/acquire''
      (Some (JObj (data_of N (pl_contacts s) (session_req ss)))) c =
      Some (c\<lparr>ct_reg := r'\<rparr>, Answer [(''route'', JList (map (node_json r' True) rt))])"
    by (simp add: handle_post_def)
  ultimately show ?thesis using url by (auto simp: post_one_def Let_def data_of_def [symmetric])
qed

subsection \<open>The contract of the remote provider\<close>

abbreviation mesh_registry where
  "mesh_registry E cluster M n enc lay ll names r \<equiv> registry_ok r \<and> deployed E cluster M n enc lay ll names (topo r)"

lemma mesh_registry_closed: "route_closed (\<lambda>r. mesh_registry E cluster M n enc lay ll names r)"
  unfolding route_closed_def
proof (intro allI impI conjI)
  fix r s nid assume r: "mesh_registry E cluster M n enc lay ll names r"
  have "topo (fst (acquire_route r s)) = topo r"
    by (auto simp: acquire_route_eq Let_def split: sum.splits)
  then show "registry_ok (fst (acquire_route r s))" "deployed E cluster M n enc lay ll names (topo (fst (acquire_route r s)))"
    using r registry_ok_step [of r "RAcquire s"] by auto
  show "registry_ok (release_route r s)" "deployed E cluster M n enc lay ll names (topo (release_route r s))"
    using r registry_ok_step [of r "RRelease s"] by (simp_all add: release_route_def Let_def)
  show "registry_ok (reg_mark_suspect r nid)" "deployed E cluster M n enc lay ll names (topo (reg_mark_suspect r nid))"
    using r registry_ok_step [of r "RSuspect nid"] by (simp_all add: reg_mark_suspect_def deployed_mark_suspect)
qed

definition remote_inv :: "control_net \<Rightarrow> (registry \<Rightarrow> bool) \<Rightarrow> remote \<Rightarrow> bool" where
  "remote_inv N Q st \<longleftrightarrow> signs N \<and> route_closed Q \<and> planes_ok Q (re_planes st) \<and> eps_ok (re_eps st)"

text \<open>The preferred control plane answers from now on, and has a holder for every slot.\<close>

abbreviation preferred_url :: "remote \<Rightarrow> string" where
  "preferred_url st \<equiv> ep_urls (re_eps st) ! ep_preferred (re_eps st)"

definition remote_live :: "control_net \<Rightarrow> remote \<Rightarrow> bool" where
  "remote_live N st \<longleftrightarrow> (\<exists>c. map_of (pl_servers (re_planes st)) (preferred_url st) = Some c \<and> coverage_ok (topo (ct_reg c))) \<and>
     (\<forall>t \<ge> pl_contacts (re_planes st). cn_reach N t (preferred_url st) = Delivered \<and>
        (\<forall>b. verified (cn_config N) (cn_server N t) (JObj (data_of N t b))))"

lemma remote_post_keeps:
  assumes inv: "remote_inv N Q st" and path: "path \<in> route_paths" and p: "remote_post N path b st = (st', r)"
  shows "remote_inv N Q st' \<and> ep_urls (re_eps st') = ep_urls (re_eps st)"
proof -
  obtain e s where f: "failover_post (post_one N path b) (re_eps st) (re_planes st) = (e, s, r)" "st' = \<lparr>re_eps = e, re_planes = s\<rparr>"
    using p by (auto simp: remote_post_def split: prod.splits)
  have "planes_ok Q s' \<and> (\<forall>x. r = Inr x \<longrightarrow> True)" if "planes_ok Q s" "post_one N path b u s = (s', r)" for u s s' r
    using post_one_keeps [OF _ that(1) path that(2)] inv by (simp add: remote_inv_def)
  then show ?thesis
    using failover_post_cases [OF f(1), of "planes_ok Q" "\<lambda>_. True"] inv f(2) by (simp add: remote_inv_def)
qed

lemma first_answer_from:
  assumes "first_answer post urls is err s = (s', Inr (i, x))" and "I s" and "\<And>u s s' r. I s \<Longrightarrow> post u s = (s', r) \<Longrightarrow> I s'"
  shows "\<exists>s1. I s1 \<and> post (urls ! i) s1 = (s', Inr x) \<and> (\<forall>j. is = [j] \<longrightarrow> i = j \<and> s1 = s)"
  using assms(1,2)
proof (induction "is" arbitrary: s err)
  case (Cons j "is")
  obtain s1 r1 where p: "post (urls ! j) s = (s1, r1)" by fastforce
  show ?case
  proof (cases r1)
    case (Inl e)
    then have a: "first_answer post urls is e s1 = (s', Inr (i, x))" using Cons.prems(1) p by simp
    then have "is \<noteq> []" by (cases "is") auto
    then show ?thesis using Cons.IH [OF a assms(3) [OF Cons.prems(2) p]] by auto
  next
    case (Inr y)
    then show ?thesis using Cons.prems p by auto
  qed
qed simp

text \<open>A route that is handed out comes from the registry of the control plane that is preferred afterwards.\<close>

lemma remote_acquired:
  assumes inv: "remote_inv N Q st" and a: "rp_acquire (remote_provider N) st ss = (st', Inr rt)"
  shows "\<exists>c r' rt0. Q (ct_reg c) \<and> acquire_route (ct_reg c) (SStr (int_text ss)) = (r', Inr rt0) \<and>
    rt = map remote_node rt0 \<and> map_of (pl_servers (re_planes st')) (preferred_url st') = Some (c\<lparr>ct_reg := r'\<rparr>) \<and>
    (\<forall>url. ep_urls (re_eps st) = [url] \<longrightarrow> map_of (pl_servers (re_planes st)) url = Some c)"
proof -
  let ?post = "post_one N ''/route/acquire'' (session_req ss)"
  obtain e s ans where f: "failover_post ?post (re_eps st) (re_planes st) = (e, s, Inr ans)" "st' = \<lparr>re_eps = e, re_planes = s\<rparr>"
      "bindE (hops_of_answer ans) (\<lambda>hs. Inr (map hop_node hs)) = Inr rt"
    using a by (auto simp: remote_provider_def remote_acquire_def remote_post_def bindE_Inr_iff split: prod.splits)
  obtain i where i: "first_answer ?post (ep_urls (re_eps st)) (try_order (re_eps st)) RuntimeError (re_planes st) = (s, Inr (i, ans))"
      "e = (re_eps st)\<lparr>ep_preferred := i\<rparr>"
    using f(1) by (auto simp: failover_post_def split: prod.splits sum.splits)
  have keep: "planes_ok Q s'" if "planes_ok Q s" "?post u s = (s', r)" for u s s' r
    using post_one_keeps [OF _ that(1) _ that(2)] inv by (simp add: remote_inv_def)
  obtain s1 where s1: "planes_ok Q s1" "?post (ep_urls (re_eps st) ! i) s1 = (s, Inr ans)"
      "\<forall>j. try_order (re_eps st) = [j] \<longrightarrow> i = j \<and> s1 = re_planes st"
    using first_answer_from [OF i(1), of "planes_ok Q"] keep inv by (auto simp: remote_inv_def)
  obtain c r' rt0 where c: "map_of (pl_servers s1) (ep_urls (re_eps st) ! i) = Some c"
      "acquire_route (ct_reg c) (SStr (int_text ss)) = (r', Inr rt0)" "hops_of_answer ans = Inr (map (hop_sent r') rt0)"
      "pl_servers s = dmod (ep_urls (re_eps st) ! i) (\<lambda>_. c\<lparr>ct_reg := r'\<rparr>) (pl_servers s1)"
    using acquire_answer [OF _ s1(2)] inv by (auto simp: remote_inv_def)
  have "rt = map remote_node rt0" using f(3) c(3) by (auto simp: hop_node_sent)
  moreover have "map_of (pl_servers (re_planes st')) (preferred_url st') = Some (c\<lparr>ct_reg := r'\<rparr>)"
    using c(1,4) f(2) i(2) by (simp add: dict_simps)
  moreover have "map_of (pl_servers (re_planes st)) url = Some c" if one: "ep_urls (re_eps st) = [url]" for url
  proof -
    have "try_order (re_eps st) = [0]" using inv one by (auto simp: try_order_def remote_inv_def eps_ok_def)
    then show ?thesis using s1(3) c(1) one by auto
  qed
  ultimately show ?thesis using s1(1) c(1,2) by (auto simp: planes_ok_def)
qed

lemma remote_acquire_live:
  assumes inv: "remote_inv N Q st" and wf: "\<And>r. Q r \<Longrightarrow> topo_wf (topo r)" and live: "remote_live N st"
    and a: "rp_acquire (remote_provider N) st ss = (st', r)"
  shows "remote_live N st' \<and> (\<exists>rt. r = Inr rt)"
proof -
  let ?post = "post_one N ''/route/acquire'' (session_req ss)" and ?url = "preferred_url st"
  obtain c where c: "map_of (pl_servers (re_planes st)) ?url = Some c" "coverage_ok (topo (ct_reg c))"
    using live by (auto simp: remote_live_def)
  have "topo_wf (topo (ct_reg c))" using inv wf c(1) by (auto simp: remote_inv_def planes_ok_def)
  then obtain plan where "route (topo (ct_reg c)) = Inr plan" using route_iff_covered c(2) by blast
  then obtain r' rt0 where ac: "acquire_route (ct_reg c) (SStr (int_text ss)) = (r', Inr rt0)" "topo r' = topo (ct_reg c)"
    by (auto simp: acquire_route_eq Let_def)
  have sg: "signs N" using inv by (simp add: remote_inv_def)
  obtain s' ans where p: "?post ?url (re_planes st) = (s', Inr ans)"
    using acquire_delivered [OF sg c(1) _ _ ac(1)] live by (auto simp: remote_live_def)
  have f: "failover_post ?post (re_eps st) (re_planes st) = (re_eps st, s', Inr ans)"
    by (rule failover_preferred) (rule p)
  have s': "pl_servers s' = dmod ?url (\<lambda>_. c\<lparr>ct_reg := r'\<rparr>) (pl_servers (re_planes st))"
      "\<exists>rt1. hops_of_answer ans = Inr rt1"
    using acquire_answer [OF sg p] c(1) ac(1) by auto
  have "pl_contacts s' = pl_contacts (re_planes st) + 1" using post_one_cases [OF _ p] by simp
  then have "remote_live N \<lparr>re_eps = re_eps st, re_planes = s'\<rparr>"
    using live c s'(1) ac(2) by (simp add: remote_live_def dict_simps)
  then show ?thesis using a f s'(2) by (auto simp: remote_provider_def remote_acquire_def remote_post_def)
qed

lemma remote_release_live:
  assumes inv: "remote_inv N Q st" and live: "remote_live N st"
  shows "remote_live N (rp_release (remote_provider N) st ss) \<and>
    (\<forall>c. map_of (pl_servers (re_planes st)) (preferred_url st) = Some c \<longrightarrow>
       map_of (pl_servers (re_planes (rp_release (remote_provider N) st ss))) (preferred_url st) =
         Some (c\<lparr>ct_reg := release_route (ct_reg c) (SStr (int_text ss))\<rparr>))"
proof -
  let ?post = "post_one N ''/route/release'' (session_req ss)" and ?url = "preferred_url st" and ?t = "pl_contacts (re_planes st)"
  obtain c where c: "map_of (pl_servers (re_planes st)) ?url = Some c" "coverage_ok (topo (ct_reg c))"
    using live by (auto simp: remote_live_def)
  have sg: "signs N" using inv by (simp add: remote_inv_def)
  have ver: "verified (cn_config N) (cn_server N ?t) (JObj (data_of N ?t (session_req ss)))" "cn_reach N ?t ?url = Delivered"
    using live by (auto simp: remote_live_def)
  then obtain y where set: "cc_verify (cn_config N) = Some y" by (auto simp: verified_def split: option.splits)
  have "post_route (cn_config N) (cn_server N ?t) ''/route/release'' (JObj (data_of N ?t (session_req ss))) c =
      (c\<lparr>ct_reg := release_route (ct_reg c) (SStr (int_text ss))\<rparr>, ok_reply)"
    using set ver data_session [OF sg] by (simp add: post_route_def Let_def)
  then have p: "?post ?url (re_planes st) = ((re_planes st)\<lparr>pl_contacts := ?t + 1,
      pl_servers := dmod ?url (\<lambda>_. c\<lparr>ct_reg := release_route (ct_reg c) (SStr (int_text ss))\<rparr>) (pl_servers (re_planes st))\<rparr>,
      Inr [(''ok'', JBool True)])"
    using c(1) ver(2) by (simp add: post_one_def Let_def handle_post_def data_of_def [symmetric] ok_reply_def)
  have f: "failover_post ?post (re_eps st) (re_planes st) = (re_eps st, (re_planes st)\<lparr>pl_contacts := ?t + 1,
      pl_servers := dmod ?url (\<lambda>_. c\<lparr>ct_reg := release_route (ct_reg c) (SStr (int_text ss))\<rparr>) (pl_servers (re_planes st))\<rparr>,
      Inr [(''ok'', JBool True)])"
    by (rule failover_preferred) (rule p)
  show ?thesis
    using live c f
    by (simp add: remote_provider_def remote_release_def remote_post_def remote_live_def dict_simps release_route_def Let_def)
qed

interpretation rp: route_source "remote_provider N" "remote_inv N (\<lambda>r. mesh_registry E cluster M n enc lay ll names r)"
  "serves E cluster M n enc lay ll names" "remote_live N" None
  for N E cluster M n enc lay ll names
proof (unfold_locales, goal_cases)
  case (1 p s p' r)
  let ?Q = "\<lambda>r. mesh_registry E cluster M n enc lay ll names r"
  have "serves E cluster M n enc lay ll names rt" if r: "r = Inr rt" for rt
  proof -
    obtain c :: control and r' rt0 where "?Q (ct_reg c)" "acquire_route (ct_reg c) (SStr (int_text s)) = (r', Inr rt0)" "rt = map remote_node rt0"
      using remote_acquired [OF 1(1) 1(2) [unfolded r]] by blast
    then show ?thesis using acquired_route_serves [of "ct_reg c"] by (auto simp: serves_remote)
  qed
  moreover have "remote_inv N ?Q p'"
    using remote_post_keeps [OF 1(1), of "''/route/acquire''" "session_req s"] 1(2)
    by (auto simp: remote_provider_def remote_acquire_def split: prod.splits)
  ultimately show ?case by blast
next
  case (2 p s)
  then show ?case
    using remote_post_keeps [OF 2 _ prod.collapse [symmetric], of "''/route/release''" "session_req s"]
    by (simp add: remote_provider_def remote_release_def)
next
  case (3 p nid)
  then show ?case
    using remote_post_keeps [OF 3 _ prod.collapse [symmetric], of "''/route/suspect''" "[(''suspect'', JStr nid)]"]
    by (simp add: remote_provider_def remote_suspect_def)
next
  case (4 p s p' r)
  then show ?case using remote_acquire_live [OF 4(1) _ 4(2,3)] by (simp add: registry_ok_def)
next
  case (5 p s)
  then show ?case using remote_release_live by blast
qed auto

subsection \<open>One control plane\<close>

text \<open>With a single control plane a session keeps its route, whoever asks.\<close>

definition remote_bound :: "remote \<Rightarrow> int \<Rightarrow> node list \<Rightarrow> bool" where
  "remote_bound st s rt \<longleftrightarrow> (\<exists>url c rt0. ep_urls (re_eps st) = [url] \<and> map_of (pl_servers (re_planes st)) url = Some c \<and>
     pinned_to (ct_reg c) (SStr (int_text s)) rt0 \<and> rt = map remote_node rt0)"

definition remote_single :: "control_net \<Rightarrow> (registry \<Rightarrow> bool) \<Rightarrow> remote \<Rightarrow> bool" where
  "remote_single N Q st \<longleftrightarrow> remote_inv N Q st \<and> length (ep_urls (re_eps st)) = 1"

lemma remote_single_url:
  "remote_single N Q st \<Longrightarrow> \<exists>url. ep_urls (re_eps st) = [url] \<and> preferred_url st = url \<and> try_order (re_eps st) = [0]"
  by (auto simp: remote_single_def remote_inv_def eps_ok_def try_order_def length_Suc_conv)

lemma remote_single_post:
  assumes one: "remote_single N Q st" and path: "path \<in> route_paths" and p: "remote_post N path b st = (st', r)"
  shows "remote_single N Q st' \<and> ep_urls (re_eps st') = ep_urls (re_eps st) \<and>
    (\<exists>s' x. post_one N path b (preferred_url st) (re_planes st) = (s', x) \<and> re_planes st' = s')"
proof -
  obtain url where u: "ep_urls (re_eps st) = [url]" "preferred_url st = url" "try_order (re_eps st) = [0]"
    using remote_single_url [OF one] by blast
  have "re_planes st' = fst (post_one N path b url (re_planes st))"
    using p u by (auto simp: remote_post_def failover_post_def split: prod.splits sum.splits)
  then show ?thesis
    using remote_post_keeps [OF _ path p, of Q] one u(2) by (auto simp: remote_single_def) (metis prod.collapse)
qed

lemma remote_release_bound:
  assumes one: "remote_single N Q st" and Q: "\<And>r. Q r \<Longrightarrow> registry_ok r" and b: "remote_bound st s rt" and ne: "s' \<noteq> s"
  shows "remote_bound (rp_release (remote_provider N) st s') s rt"
proof -
  let ?st = "rp_release (remote_provider N) st s'" and ?path = "''/route/release''"
  obtain url c rt0 where u: "ep_urls (re_eps st) = [url]" "map_of (pl_servers (re_planes st)) url = Some c"
      "pinned_to (ct_reg c) (SStr (int_text s)) rt0" "rt = map remote_node rt0"
    using b by (auto simp: remote_bound_def)
  have pref: "preferred_url st = url" using remote_single_url [OF one] u(1) by auto
  obtain r where p: "remote_post N ?path (session_req s') st = (?st, r)"
    by (cases "remote_post N ?path (session_req s') st") (simp add: remote_provider_def remote_release_def)
  have path: "?path \<in> route_paths" by simp
  obtain s1 x where s1: "post_one N ?path (session_req s') url (re_planes st) = (s1, x)" "re_planes ?st = s1"
      "ep_urls (re_eps ?st) = [url]"
    using remote_single_post [OF one path p] pref u(1) by auto
  have ok: "registry_ok (ct_reg c)" using one Q u(2) by (auto simp: remote_single_def remote_inv_def planes_ok_def)
  have "SStr (int_text s') \<noteq> SStr (int_text s)" using ne by (simp add: int_text_inj)
  note rel = pinned_release [OF ok u(3) this]
  have sg: "signs N" using one by (simp add: remote_single_def remote_inv_def)
  have "\<exists>c'. map_of (pl_servers s1) url = Some c' \<and> ct_reg c' \<in> {ct_reg c, release_route (ct_reg c) (SStr (int_text s'))}"
  proof -
    consider "pl_servers s1 = pl_servers (re_planes st)"
      | (sent) c' rep where "pl_servers s1 = dmod url (\<lambda>_. c') (pl_servers (re_planes st))"
          "post_route (cn_config N) (cn_server N (pl_contacts (re_planes st))) ?path
             (JObj (data_of N (pl_contacts (re_planes st)) (session_req s'))) c = (c', rep)"
      using post_one_cases [OF path s1(1)] u(2) by auto
    then show ?thesis
    proof cases
      case sent
      then have "ct_reg c' \<in> {ct_reg c, release_route (ct_reg c) (SStr (int_text s'))}"
        using data_session [OF sg] by (auto simp: post_route_def Let_def split: if_splits)
      then show ?thesis using sent(1) u(2) by (simp add: dict_simps)
    qed (use u(2) in simp)
  qed
  then show ?thesis using rel u s1(2,3) by (auto simp: remote_bound_def)
qed

lemma remote_acquire_single:
  assumes "remote_single N Q st" and "rp_acquire (remote_provider N) st s = (st', r)"
  shows "remote_single N Q st'"
proof -
  obtain x where "remote_post N ''/route/acquire'' (session_req s) st = (st', x)"
    using assms(2) by (auto simp: remote_provider_def remote_acquire_def split: prod.splits)
  from remote_single_post [OF assms(1) _ this] show ?thesis by simp
qed

interpretation rp1: route_source "remote_provider N" "remote_single N (\<lambda>r. mesh_registry E cluster M n enc lay ll names r)"
  "serves E cluster M n enc lay ll names" "remote_live N" "Some remote_bound"
  for N E cluster M n enc lay ll names
proof (unfold_locales, goal_cases)
  case (1 p s p' r)
  then show ?case
    using rp.acquire [of N E cluster M n enc lay ll names p s p' r] remote_acquire_single [OF 1]
    by (simp add: remote_single_def)
next
  case (2 p s)
  then show ?case
    using remote_single_post [OF 2 _ prod.collapse [symmetric], of "''/route/release''" "session_req s"]
    by (simp add: remote_provider_def remote_release_def)
next
  case (3 p nid)
  then show ?case
    using remote_single_post [OF 3 _ prod.collapse [symmetric], of "''/route/suspect''" "[(''suspect'', JStr nid)]"]
    by (simp add: remote_provider_def remote_suspect_def)
next
  case (4 p s p' r)
  then show ?case using rp.acquire_live [of N E cluster M n enc lay ll names p s p' r] by (simp add: remote_single_def)
next
  case (5 p s)
  then show ?case using rp.release_live [of N E cluster M n enc lay ll names p s] by (simp add: remote_single_def)
next
  case (6 b p s p' rt)
  have inv: "remote_inv N (\<lambda>r. mesh_registry E cluster M n enc lay ll names r) p" using 6(2) by (simp add: remote_single_def)
  obtain c :: control and r' rt0 where a: "registry_ok (ct_reg c)" "acquire_route (ct_reg c) (SStr (int_text s)) = (r', Inr rt0)"
      "rt = map remote_node rt0" "map_of (pl_servers (re_planes p')) (preferred_url p') = Some (c\<lparr>ct_reg := r'\<rparr>)"
    using remote_acquired [OF inv 6(3)] by blast
  have "remote_single N (\<lambda>r. mesh_registry E cluster M n enc lay ll names r) p'"
    by (rule remote_acquire_single [OF 6(2,3)])
  then obtain url where "ep_urls (re_eps p') = [url]" "preferred_url p' = url" using remote_single_url by blast
  then show ?case using a acquire_route_bound [OF a(1,2)] 6(1) by (auto simp: remote_bound_def)
next
  case (7 b p s rt p' rt')
  have inv: "remote_inv N (\<lambda>r. mesh_registry E cluster M n enc lay ll names r) p" using 7(2) by (simp add: remote_single_def)
  obtain c :: control and r' rt0 where a: "acquire_route (ct_reg c) (SStr (int_text s)) = (r', Inr rt0)" "rt' = map remote_node rt0"
      "\<forall>url. ep_urls (re_eps p) = [url] \<longrightarrow> map_of (pl_servers (re_planes p)) url = Some c"
    using remote_acquired [OF inv 7(4)] by blast
  then show ?case using 7(1,3) by (auto simp: remote_bound_def pinned_to_def)
next
  case (8 b p s rt s')
  then show ?case using remote_release_bound [OF 8(2) _ _ 8(4), of rt] by auto
qed

subsection \<open>Generation\<close>

text \<open>The signer's key is the one behind its id, the server verifies it within its window, and the
  preferred control plane answers from now on and has every slot covered.\<close>

definition link_open :: "control_net \<Rightarrow> remote \<Rightarrow> bool" where
  "link_open N st \<longleftrightarrow>
     (\<exists>F S priv pub window. cc_verify (cn_config N) = Some (verify_body F S window) \<and>
        cn_sign N = Some (sign_body F S priv (hex_of pub)) \<and> (\<forall>msg. ed_check S pub (ed_sign S priv msg) msg) \<and>
        (\<forall>t. \<bar>cn_server N t - cn_clock N t\<bar> \<le> window)) \<and>
     (\<forall>t \<ge> pl_contacts (re_planes st). cn_reach N t (preferred_url st) = Delivered) \<and>
     (\<exists>c. map_of (pl_servers (re_planes st)) (preferred_url st) = Some c \<and> coverage_ok (topo (ct_reg c)))"

lemma link_open_live: "link_open N st \<Longrightarrow> remote_live N st"
  using verify_signed by (auto simp: link_open_def remote_live_def verified_def data_of_def)

text \<open>An orchestrator whose routes come from control planes that are all consistent and deployed.\<close>

definition head_ready ::
  "'e mesh_env \<Rightarrow> ('e, 'l) coord \<Rightarrow> control_net \<Rightarrow> ('e, 'h, 'l) model_ops \<Rightarrow> nat \<Rightarrow> ('h list \<Rightarrow> tensor) \<Rightarrow>
   (string \<Rightarrow> nat list) \<Rightarrow> nat list option \<Rightarrow> ('e, remote) mesh \<Rightarrow> bool" where
  "head_ready E C N M n enc lay ll m \<longleftrightarrow> system_ok E C M n enc ll \<and> signs N \<and> eps_ok (re_eps (m_prov m)) \<and>
     planes_ok (\<lambda>r. mesh_registry E (co_key C) M n enc lay ll (dom (map_of (m_workers m))) r) (re_planes (m_prov m))"

text \<open>C7. An orchestrator that has no registry generates exactly what the whole model does: its routes
  come as signed posts from any of several control planes, over links that refuse posts or lose
  answers and with failover between the control planes as well as between holders.  A generation
  that returns is the greedy one up to the first end token, with the matching resume state; it does
  return when the mesh loses nothing, the preferred control plane answers, the clocks differ by at
  most the signature window and every slot is covered; and every control plane's registry stays
  consistent.\<close>

theorem head_only_generation_is_greedy:
  assumes ready: "head_ready E C N M n enc lay ll m" and session: "id_ok session"
    and ids: "ids \<noteq> []" "length ids + n_new < 2 ^ 32"
    and gen: "generate_state E C (remote_provider N) session ids n_new warm m = (m', r)"
  shows "(\<forall>out st. r = Inr (out, st) \<longrightarrow>
       out = until_eos (co_eos C) (greedy (whole_next M n) ids n_new) \<and>
       st = (ids @ out, whole_next M n (ids @ out), length ids + length out)) \<and>
    (quiet_net E \<and> conns_open m \<and> link_open N (m_prov m) \<longrightarrow> (\<exists>x. r = Inr x)) \<and>
    planes_ok registry_ok (re_planes (m_prov m'))"
proof -
  have sys: "system_ok E C M n enc ll" using ready by (simp add: head_ready_def)
  let ?w = "dom (map_of (m_workers m))"
  have triv: "\<forall>rt. serves E (co_key C) M n enc lay ll ?w rt \<longrightarrow> serves E (co_key C) M n enc lay ll ?w rt" by blast
  have mesh: "route_source.mesh_ok (remote_inv N (\<lambda>r. mesh_registry E (co_key C) M n enc lay ll ?w r)) ?w m"
    using ready mesh_registry_closed [of E "co_key C" M n enc lay ll ?w]
    by (simp add: rp.mesh_ok_def remote_inv_def head_ready_def)
  note g = rp.generate_session [OF sys triv session mesh ids gen]
  show ?thesis
    using g link_open_live [of N "m_prov m"]
    by (auto simp: rp.mesh_ok_def rp.calm_def steps_result_def Let_def remote_inv_def planes_ok_def)
qed

text \<open>A session is kept between two states of a deployment when every worker has the same cache for it, whatever
  else it holds, and the control planes, still consistent, give it the same route, whatever other
  sessions and reports did to them.\<close>

definition session_kept ::
  "'e mesh_env \<Rightarrow> bytes \<Rightarrow> ('e, 'h, 'l) model_ops \<Rightarrow> nat \<Rightarrow> ('h list \<Rightarrow> tensor) \<Rightarrow> (string \<Rightarrow> nat list) \<Rightarrow> int \<Rightarrow>
   ('e, remote) mesh \<Rightarrow> ('e, remote) mesh \<Rightarrow> bool" where
  "session_kept E cluster M n enc lay session m1 m2 \<longleftrightarrow>
     (\<forall>nid. map_option (\<lambda>w. map_of (w_sessions w) session) (map_of (m_workers m2) nid) =
            map_option (\<lambda>w. map_of (w_sessions w) session) (map_of (m_workers m1) nid)) \<and>
     ep_urls (re_eps (m_prov m2)) = ep_urls (re_eps (m_prov m1)) \<and> eps_ok (re_eps (m_prov m2)) \<and>
     planes_ok (\<lambda>r. mesh_registry E cluster M n enc lay None (dom (map_of (m_workers m1))) r) (re_planes (m_prov m2)) \<and>
     (\<forall>url c1. map_of (pl_servers (re_planes (m_prov m1))) url = Some c1 \<longrightarrow>
        (\<exists>c2. map_of (pl_servers (re_planes (m_prov m2))) url = Some c2 \<and>
           (\<forall>rt. pinned_to (ct_reg c1) (SStr (int_text session)) rt \<longrightarrow>
              (\<exists>rt'. pinned_to (ct_reg c2) (SStr (int_text session)) rt' \<and> map remote_node rt' = map remote_node rt))))"

text \<open>So it is, for one, when the control planes only gave and took back other sessions' routes meanwhile.\<close>

definition others_only :: "session_key \<Rightarrow> reg_event list \<Rightarrow> bool" where
  "others_only k es \<longleftrightarrow> (\<forall>e \<in> set es. \<exists>s. s \<noteq> k \<and> e \<in> {RAcquire s, RRelease s})"

lemma others_keep_pins:
  assumes "mesh_registry E cluster M n enc lay ll names r" and "pinned_to r k rt" and "others_only k es"
  shows "mesh_registry E cluster M n enc lay ll names (foldl reg_step r es) \<and> pinned_to (foldl reg_step r es) k rt"
  using assms
proof (induction es arbitrary: r)
  case (Cons e es)
  obtain s where s: "s \<noteq> k" "e = RAcquire s \<or> e = RRelease s" using Cons.prems(3) by (auto simp: others_only_def)
  have "route_closed (\<lambda>r. mesh_registry E cluster M n enc lay ll names r)" by (rule mesh_registry_closed)
  then have 1: "mesh_registry E cluster M n enc lay ll names (reg_step r e)"
    using Cons.prems(1) s(2) unfolding route_closed_def by auto
  have "registry_ok r" using Cons.prems(1) by simp
  then have 2: "pinned_to (reg_step r e) k rt" using pinned_acquire pinned_release Cons.prems(2) s by auto
  have "others_only k es" using Cons.prems(3) by (simp add: others_only_def)
  from Cons.IH [OF 1 2 this] show ?case by simp
qed simp

lemma kept_by_others:
  assumes workers: "\<forall>nid. map_option (\<lambda>w. map_of (w_sessions w) session) (map_of (m_workers m2) nid) =
            map_option (\<lambda>w. map_of (w_sessions w) session) (map_of (m_workers m1) nid)"
    and urls: "ep_urls (re_eps (m_prov m2)) = ep_urls (re_eps (m_prov m1))" "eps_ok (re_eps (m_prov m2))"
    and one: "pl_servers (re_planes (m_prov m1)) = [(url, c1)]" "pl_servers (re_planes (m_prov m2)) = [(url, c2)]"
    and reg: "mesh_registry E cluster M n enc lay None (dom (map_of (m_workers m1))) (ct_reg c1)"
    and pin: "pinned_to (ct_reg c1) (SStr (int_text session)) rt"
    and others: "others_only (SStr (int_text session)) es" "ct_reg c2 = foldl reg_step (ct_reg c1) es"
  shows "session_kept E cluster M n enc lay session m1 m2"
proof -
  have same: "rt' = rt" if "pinned_to (ct_reg c1) (SStr (int_text session)) rt'" for rt'
    using that pin by (simp add: pinned_to_def)
  note k = others_keep_pins [OF reg pin others(1)]
  have "planes_ok (\<lambda>r. mesh_registry E cluster M n enc lay None (dom (map_of (m_workers m1))) r) (re_planes (m_prov m2))"
    using k one(2) others(2) by (simp add: planes_ok_def)
  then show ?thesis unfolding session_kept_def using workers urls one others(2) k same by auto
qed

text \<open>With one control plane a session can move between orchestrators that know nothing of each other:
  if the first one stops after \<open>n1\<close> tokens and keeps the session, a second one, with its own identity
  and nothing but the resume state, is given the same holders by the control plane and continues the
  generation as if it had never moved, without prefilling again.\<close>

theorem head_only_session_moves:
  assumes ready: "head_ready E C N M n enc lay None m" and one: "length (ep_urls (re_eps (m_prov m))) = 1"
    and session: "id_ok session" and ids: "ids \<noteq> []" "length ids + n1 + n2 < 2 ^ 32"
    and first: "generate_state E C (remote_provider N) session ids n1 True m = (m1, Inr (out1, st))"
    and other: "system_ok E C2 M n enc None" "co_key C2 = co_key C" "co_eos C2 = co_eos C" "signs N2"
    and moved: "session_kept E (co_key C) M n enc lay session m1 m2" "map_of (m_routes m2) session = None"
    and second: "generate_resume_state E C2 (remote_provider N2) session st n2 warm m2 = (m3, r2)"
  shows "(\<forall>out2 st2. r2 = Inr (out2, st2) \<longrightarrow>
       out1 @ out2 = until_eos (co_eos C) (greedy (whole_next M n) ids (n1 + n2)) \<and>
       st2 = (ids @ out1 @ out2, whole_next M n (ids @ out1 @ out2), length ids + length out1 + length out2)) \<and>
    (quiet_net E \<and> conns_open m2 \<and> link_open N2 (m_prov m2) \<longrightarrow> (\<exists>x. r2 = Inr x))"
proof -
  let ?nx = "whole_next M n" and ?w = "dom (map_of (m_workers m))" and ?k = "co_key C"
  let ?Q = "\<lambda>r. mesh_registry E ?k M n enc lay None ?w r" and ?g = "serves E ?k M n enc lay None ?w"
  have sys: "system_ok E C M n enc None" using ready by (simp add: head_ready_def)
  have l1: "length ids + n1 < 2 ^ 32" using ids(2) by simp
  have triv: "\<forall>rt. ?g rt \<longrightarrow> ?g rt" by blast
  have inv: "remote_single N ?Q (m_prov m)"
    using ready one mesh_registry_closed [of E ?k M n enc lay None ?w] by (simp add: head_ready_def remote_single_def remote_inv_def)
  have mesh: "route_source.mesh_ok (remote_single N ?Q) ?w m" using inv by (simp add: rp1.mesh_ok_def)
  note g = rp1.generate_session [OF sys triv session mesh ids(1) l1 first]
  have res: "(out1, st) = steps_result ?nx (co_eos C) ids n1" and m1: "remote_single N ?Q (m_prov m1)" "dom (map_of (m_workers m1)) = ?w"
    and inn: "in_session (Some remote_bound) M n lay None ?g session (fst st) m1"
    using g by (auto simp: rp1.mesh_ok_def)
  have o1: "out1 = until_eos (co_eos C) (greedy ?nx ids n1)"
    and st: "st = (ids @ out1, ?nx (ids @ out1), length (ids @ out1))"
    using res by (simp_all add: steps_result_def Let_def)
  note kept = moved(1) [unfolded session_kept_def]
  obtain rt lcs cs where r: "remote_bound (m_prov m1) session rt" "?g rt" "local_holds session None m1 lcs" "hold session m1 rt cs"
      "lcs @ cs = snd (split_run M n (all_stages None lay rt) (ids @ out1))"
    using inn by (auto simp: in_session_def st uses_route_def)
  obtain url c1 rt1 where u: "ep_urls (re_eps (m_prov m1)) = [url]" "map_of (pl_servers (re_planes (m_prov m1))) url = Some c1"
      "pinned_to (ct_reg c1) (SStr (int_text session)) rt1" "rt = map remote_node rt1"
    using r(1) unfolding remote_bound_def by blast
  obtain c2 rt2 where k2: "map_of (pl_servers (re_planes (m_prov m2))) url = Some c2"
      "pinned_to (ct_reg c2) (SStr (int_text session)) rt2" "map remote_node rt2 = map remote_node rt1"
    using kept u(2,3) by blast
  have "ep_urls (re_eps (m_prov m2)) = [url]" using kept u(1) by simp
  then have b2: "remote_bound (m_prov m2) session rt" unfolding remote_bound_def using k2 u(4) by metis
  have at: "map_option (\<lambda>w. map_of (w_sessions w) session) (map_of (m_workers m2) nid) =
      map_option (\<lambda>w. map_of (w_sessions w) session) (map_of (m_workers m1) nid)" for nid
    using kept by blast
  then have "map_of (m_workers m2) nid = None \<longleftrightarrow> map_of (m_workers m1) nid = None" for nid
    by (metis option.map_disc_iff)
  then have names: "dom (map_of (m_workers m2)) = dom (map_of (m_workers m1))" by (auto simp: dom_def)
  have m2: "route_source.mesh_ok (remote_single N2 ?Q) ?w m2"
    using m1 names kept inv other(4) by (simp add: rp1.mesh_ok_def remote_single_def remote_inv_def)
  have cache: "\<exists>w. map_of (m_workers m2) nid = Some w \<and> map_of (w_sessions w) session = Some c"
    if "\<exists>w. map_of (m_workers m1) nid = Some w \<and> map_of (w_sessions w) session = Some c" for nid c
    using that at [of nid] by (cases "map_of (m_workers m2) nid") auto
  have "hold session m2 rt cs" unfolding hold_def
    by (rule list_all2_mono [OF r(4) [unfolded hold_def]]) (rule cache)
  then have in2: "in_session (Some remote_bound) M n lay None ?g session (ids @ out1) m2"
    using r(2,3,5) moved(2) b2 by (auto simp: in_session_def uses_route_def local_holds_def)
  have "length out1 \<le> n1" unfolding o1 until_eos_def by (metis length_greedy length_takeWhile_le)
  then have l2: "length (ids @ out1) + n2 < 2 ^ 32" using ids(2) by simp
  have triv2: "\<forall>rt. ?g rt \<longrightarrow> serves E (co_key C2) M n enc lay None ?w rt" using other(2) by simp
  note h = rp1.resume_session [OF other(1) triv2 session m2 in2 l2 second [unfolded st]]
  have r2: "\<forall>x. r2 = Inr x \<longrightarrow> x = steps_result ?nx (co_eos C) (ids @ out1) n2" using h other(3) by auto
  have "out1 @ until_eos (co_eos C) (greedy ?nx (ids @ out1) n2) = until_eos (co_eos C) (greedy ?nx ids (n1 + n2))"
    unfolding o1 by (rule until_eos_greedy_add)
  moreover have "quiet_net E \<and> conns_open m2 \<and> link_open N2 (m_prov m2) \<longrightarrow> (\<exists>x. r2 = Inr x)"
    using h link_open_live [of N2 "m_prov m2"] by (auto simp: rp1.calm_def)
  ultimately show ?thesis using r2 by (auto simp: steps_result_def Let_def)
qed

subsection \<open>A small deployment with a control plane\<close>

definition demo_net :: control_net where
  "demo_net = \<lparr>cn_config = demo_config, cn_reach = (\<lambda>_ _. Delivered), cn_server = (\<lambda>_. 0), cn_clock = (\<lambda>_. 0),
     cn_sign = Some (sign_body demo_text demo_keys [] (hex_of [7]))\<rparr>"

definition demo_remote :: remote where
  "demo_remote = \<lparr>re_eps = \<lparr>ep_urls = [''cp''], ep_preferred = 0\<rparr>,
     re_planes = \<lparr>pl_servers = [(''cp'', \<lparr>ct_reg = m_prov demo_mesh, ct_suspects = []\<rparr>)], pl_contacts = 0\<rparr>\<rparr>"

definition head_mesh :: "(8 word, remote) mesh" where
  "head_mesh = \<lparr>m_workers = m_workers demo_mesh, m_conns = [], m_routes = [], m_local = [], m_keys = [],
     m_prov = demo_remote, m_contacts = 0\<rparr>"

lemma head_mesh_ready: "head_ready demo_env demo_coord demo_net byte_model 4 byte_enc demo_lay None head_mesh"
  using demo_ready
  by (auto simp: head_ready_def mesh_ready_def signs_def demo_net_def eps_ok_def head_mesh_def demo_remote_def planes_ok_def)

lemma demo_signed:
  "\<exists>F S priv pub window. cc_verify (cn_config demo_net) = Some (verify_body F S window) \<and>
      cn_sign demo_net = Some (sign_body F S priv (hex_of pub)) \<and> (\<forall>msg. ed_check S pub (ed_sign S priv msg) msg) \<and>
      (\<forall>t. \<bar>cn_server demo_net t - cn_clock demo_net t\<bar> \<le> window)"
  by (intro exI [of _ demo_text] exI [of _ demo_keys] exI [of _ "[]"] exI [of _ "[7]"] exI [of _ 300])
    (simp add: demo_net_def demo_config_def, simp add: demo_keys_def)

lemma demo_link: "re_eps st = re_eps demo_remote \<Longrightarrow>
    (\<exists>c. map_of (pl_servers (re_planes st)) ''cp'' = Some c \<and> coverage_ok (topo (ct_reg c))) \<Longrightarrow> link_open demo_net st"
  using demo_signed by (auto simp: link_open_def demo_net_def demo_remote_def)

lemma demo_live_link: "remote_live demo_net st \<Longrightarrow> link_open demo_net st"
  using demo_signed by (auto simp: link_open_def remote_live_def demo_net_def)

lemma head_mesh_calm: "quiet_net demo_env \<and> conns_open head_mesh \<and> link_open demo_net (m_prov head_mesh)"
  using demo_calm demo_link [of demo_remote] by (simp add: conns_open_def head_mesh_def) (simp add: demo_remote_def)

lemma head_only_generation_is_greedy_witness:
  "\<exists>m' st. generate_state demo_env demo_coord (remote_provider demo_net) 1 [3, 1] 4 False head_mesh =
     (m', Inr (until_eos {0} (greedy (whole_next byte_model 4) [3, 1] 4), st))"
proof -
  obtain m' r where g: "generate_state demo_env demo_coord (remote_provider demo_net) 1 [3, 1] 4 False head_mesh = (m', r)"
    by fastforce
  note t = head_only_generation_is_greedy [OF head_mesh_ready _ _ _ g]
  then show ?thesis using head_mesh_calm g by (auto simp: id_ok_def demo_coord_def)
qed

text \<open>A session that the head leaves warm: its control plane can be reached again.\<close>

lemma demo_session_left:
  assumes g: "generate_state demo_env demo_coord (remote_provider demo_net) sid ids k True head_mesh = (m1, r1)"
    and sid: "id_ok sid" and ids: "ids \<noteq> []" "length ids + k < 2 ^ 32"
  shows "(\<exists>x. r1 = Inr x) \<and> link_open demo_net (m_prov m1) \<and> eps_ok (re_eps (m_prov m1)) \<and>
    session_kept demo_env (co_key demo_coord) byte_model 4 byte_enc demo_lay sid m1 (m1\<lparr>m_routes := [], m_conns := [], m_keys := []\<rparr>)"
proof -
  let ?w = "dom (map_of (m_workers head_mesh))" and ?k = "co_key demo_coord"
  let ?Q = "\<lambda>r. mesh_registry demo_env ?k byte_model 4 byte_enc demo_lay None ?w r"
  have one: "length (ep_urls (re_eps (m_prov head_mesh))) = 1" by (simp add: head_mesh_def demo_remote_def)
  have inv: "remote_single demo_net ?Q (m_prov head_mesh)"
    using head_mesh_ready one mesh_registry_closed [of demo_env ?k byte_model 4 byte_enc demo_lay None ?w]
    by (simp add: head_ready_def remote_single_def remote_inv_def)
  have mesh: "route_source.mesh_ok (remote_single demo_net ?Q) ?w head_mesh" using inv by (simp add: rp1.mesh_ok_def)
  have calm: "route_source.calm (remote_live demo_net) demo_env head_mesh"
    using head_mesh_calm link_open_live [of demo_net] by (simp add: rp1.calm_def)
  have triv: "\<forall>rt. serves demo_env ?k byte_model 4 byte_enc demo_lay None ?w rt \<longrightarrow>
      serves demo_env ?k byte_model 4 byte_enc demo_lay None ?w rt" by blast
  note s = rp1.generate_session [OF demo_system triv sid mesh ids g]
  have i: "remote_single demo_net ?Q (m_prov m1)" "remote_live demo_net (m_prov m1)" "dom (map_of (m_workers m1)) = ?w"
    using s calm by (simp_all add: rp1.mesh_ok_def rp1.calm_def)
  then have "eps_ok (re_eps (m_prov m1))" "planes_ok ?Q (re_planes (m_prov m1))" by (simp_all add: remote_single_def remote_inv_def)
  then have "session_kept demo_env ?k byte_model 4 byte_enc demo_lay sid m1 (m1\<lparr>m_routes := [], m_conns := [], m_keys := []\<rparr>)"
    using i(3) unfolding session_kept_def by auto
  then show ?thesis using s calm demo_live_link i by (auto simp: remote_single_def remote_inv_def)
qed

lemma head_only_session_moves_witness:
  "\<exists>m1 out1 st m3 out2 st2.
     generate_state demo_env demo_coord (remote_provider demo_net) 1 [3, 1] 2 True head_mesh = (m1, Inr (out1, st)) \<and>
     generate_resume_state demo_env demo_coord (remote_provider demo_net) 1 st 3 False (m1\<lparr>m_routes := [], m_conns := [], m_keys := []\<rparr>) =
       (m3, Inr (out2, st2)) \<and>
     out1 @ out2 = until_eos {0} (greedy (whole_next byte_model 4) [3, 1] 5)"
proof -
  have sz: "length [3, 1 :: int] + 2 < 2 ^ 32" "length [3, 1 :: int] + 2 + 3 < 2 ^ 32" "[3, 1 :: int] \<noteq> []" "id_ok 1"
    by (simp_all add: id_ok_def)
  have one: "length (ep_urls (re_eps (m_prov head_mesh))) = 1" by (simp add: head_mesh_def demo_remote_def)
  obtain m1 r1 where g: "generate_state demo_env demo_coord (remote_provider demo_net) 1 [3, 1] 2 True head_mesh = (m1, r1)"
    by fastforce
  note left = demo_session_left [OF g sz(4,3,1)]
  obtain out1 st where x: "r1 = Inr (out1, st)" using left by auto
  let ?m2 = "m1\<lparr>m_routes := [], m_conns := [], m_keys := []\<rparr>"
  obtain m3 r2 where h: "generate_resume_state demo_env demo_coord (remote_provider demo_net) 1 st 3 False ?m2 = (m3, r2)" by fastforce
  have moved: "session_kept demo_env (co_key demo_coord) byte_model 4 byte_enc demo_lay 1 m1 ?m2" "map_of (m_routes ?m2) 1 = None"
    using left by simp_all
  have sg: "signs demo_net" using head_mesh_ready by (simp add: head_ready_def)
  note t = head_only_session_moves [OF head_mesh_ready one sz(4,3,2) g [unfolded x] demo_system refl refl sg moved h]
  have "conns_open ?m2" "link_open demo_net (m_prov ?m2)" using left by (simp_all add: conns_open_def)
  then obtain x2 where x2: "r2 = Inr x2" using t head_mesh_calm by auto
  then show ?thesis
    using t g x h by (cases x2) (auto simp: demo_coord_def)
qed

end
