(* ===== verification/Relay.thy ===== *)
theory Relay
  imports Control_Server
begin

section \<open>The NAT relay\<close>

text \<open>
  \<open>engine/relay.py\<close>: every connection is served by a thread of its own; the threads share the table
  of control connections, the table of dials that wait, and the sockets.  A step of the model is one
  thread's run up to its next access to what is shared: a region under the lock, a write to a
  socket, an event.  What a socket delivers, whether a write succeeds and whether a wait times out
  is the environment's choice.  The tags and nonces drawn from \<open>secrets\<close>, the JSON parser and the
  signature scheme are arguments.
\<close>

subsection \<open>Preambles\<close>

definition PREAMBLE_MAX :: int where "PREAMBLE_MAX = 64 * 1024"

text \<open>\<open>_recvall\<close> is the loop of \<open>wire.recv_exact\<close> with a different exception.\<close>

definition recvall :: "nat \<Rightarrow> socket \<Rightarrow> socket \<times> bytes result" where
  "recvall n s = (case recv_exact n s of (s1, Inl _) \<Rightarrow> (s1, Inl OSError) | (s1, Inr b) \<Rightarrow> (s1, Inr b))"

definition read_preamble :: "(bytes \<Rightarrow> json result) \<Rightarrow> socket \<Rightarrow> socket \<times> json result" where
  "read_preamble parse s =
     (case recvall 4 s of
        (s1, Inl e) \<Rightarrow> (s1, Inl e)
      | (s1, Inr pre) \<Rightarrow>
          (case unpack_uint 4 pre of
             Inl e \<Rightarrow> (s1, Inl e)
           | Inr len \<Rightarrow>
               if PREAMBLE_MAX < len then (s1, Inl ValueError)
               else (case recvall (nat len) s1 of
                       (s2, Inl e) \<Rightarrow> (s2, Inl e)
                     | (s2, Inr b) \<Rightarrow> (s2, parse b))))"

definition write_preamble :: "(body \<Rightarrow> bytes) \<Rightarrow> body \<Rightarrow> bytes \<Rightarrow> bytes result" where
  "write_preamble dumps b out =
     bindE (pack_uint 4 (int (length (dumps b)))) (\<lambda>pre. Inr (out @ pre @ dumps b))"

lemma preamble_roundtrip:
  assumes "parse (dumps b) = Inr (JObj b)" and "int (length (dumps b)) \<le> PREAMBLE_MAX"
  shows "\<exists>frame. write_preamble dumps b out = Inr (out @ frame) \<and>
    (\<forall>s rest. concat s = frame @ rest \<longrightarrow> (\<exists>s'. read_preamble parse s = (s', Inr (JObj b)) \<and> concat s' = rest))"
proof -
  let ?n = "int (length (dumps b))"
  have n: "0 \<le> ?n" "?n < 2 ^ 32" using assms(2) by (simp_all add: PREAMBLE_MAX_def)
  have v: "be_value (be_bytes 4 ?n) = ?n" using n by (intro be_value_be_bytes) simp_all
  have "\<exists>s'. read_preamble parse s = (s', Inr (JObj b)) \<and> concat s' = rest"
    if s: "concat s = (be_bytes 4 ?n @ dumps b) @ rest" for s rest
  proof -
    obtain s1 where s1: "recv_exact 4 s = (s1, Inr (be_bytes 4 ?n))" "concat s1 = dumps b @ rest"
      using recv_exact_enough [of 4 s] s by auto
    obtain s2 where s2: "recv_exact (length (dumps b)) s1 = (s2, Inr (dumps b))" "concat s2 = rest"
      using recv_exact_enough [of "length (dumps b)" s1] s1(2) by auto
    show ?thesis using s1 s2 v assms by (simp add: read_preamble_def recvall_def unpack_uint_def)
  qed
  then show ?thesis
    using n by (intro exI [of _ "be_bytes 4 ?n @ dumps b"]) (simp add: write_preamble_def pack_uint_def)
qed

subsection \<open>The signature of a node\<close>

text \<open>\<open>_verify_node_sig\<close>: a signature that is no string is a \<open>TypeError\<close> once the key has been read.\<close>

definition verify_node_sig :: "ed25519 \<Rightarrow> string \<Rightarrow> bytes \<Rightarrow> json \<Rightarrow> bool result" where
  "verify_node_sig S nid nonce v =
     (case fromhex nid of
        Inl _ \<Rightarrow> Inr False
      | Inr pub \<Rightarrow>
          if length pub \<noteq> 32 then Inr False
          else case v of
                 JStr h \<Rightarrow> (case fromhex h of Inl _ \<Rightarrow> Inr False | Inr sig \<Rightarrow> Inr (ed_check S pub sig nonce))
               | _ \<Rightarrow> Inl TypeError)"

subsection \<open>The state of the relay\<close>

type_synonym conn = nat

text \<open>Where a thread is.  \<open>Closing\<close> is the way out of \<open>_handle\<close> for a connection that was not handed
  off, \<open>Handed\<close> the way out for one that was.\<close>

datatype phase =
    Opened
  | Challenged | Admitting | Replacing conn | Online | Leaving
  | Dialing | Signalling conn | Offline | Refusing | Announcing | Waiting | Expired
  | Pairing | Spawning | Spawning2
  | Closing | Closed | Handed

text \<open>What was written to a connection: a preamble, or a chunk a pipe copied.\<close>

datatype sent = Pre body | Raw bytes

text \<open>
  \<open>rl_controls\<close> is \<open>_controls\<close>, \<open>rl_pending\<close> is \<open>_pending\<close>; the event of an entry is its dial's, and
  \<open>rl_events\<close> holds the dials whose event is set.  \<open>rl_ids\<close> (node id and nonce), \<open>rl_proofs\<close> (the
  signature that was accepted), \<open>rl_dials\<close> and \<open>rl_datas\<close> (node id and tag) and \<open>rl_peer\<close> (the dial
  a data connection was paired with) are the locals of the threads.  \<open>rl_pipes\<close> are the copy threads
  that were started, \<open>rl_ended\<close> those that have ended; \<open>rl_down\<close> the sockets that the relay has
  closed or shut down; \<open>rl_drawn\<close> counts the draws from \<open>secrets\<close>.
\<close>

record relay =
  rl_next :: conn
  rl_drawn :: nat
  rl_threads :: "conn \<rightharpoonup> phase"
  rl_controls :: "(string, conn) dict"
  rl_pending :: "string \<times> string \<rightharpoonup> conn"
  rl_events :: "conn list"
  rl_ids :: "conn \<rightharpoonup> string \<times> bytes"
  rl_proofs :: "conn \<rightharpoonup> bytes"
  rl_dials :: "conn \<rightharpoonup> string \<times> string"
  rl_datas :: "conn \<rightharpoonup> string \<times> string"
  rl_peer :: "conn \<rightharpoonup> conn"
  rl_pipes :: "(conn \<times> conn) list"
  rl_ended :: "(conn \<times> conn) list"
  rl_down :: "conn list"
  rl_sent :: "(conn \<times> sent) list"
  rl_stopped :: bool

definition relay_start :: relay where
  "relay_start = \<lparr>rl_next = 0, rl_drawn = 0, rl_threads = Map.empty, rl_controls = [], rl_pending = Map.empty,
     rl_events = [], rl_ids = Map.empty, rl_proofs = Map.empty, rl_dials = Map.empty, rl_datas = Map.empty,
     rl_peer = Map.empty, rl_pipes = [], rl_ended = [], rl_down = [], rl_sent = [], rl_stopped = False\<rparr>"

record relay_config =
  rc_token :: string
  rc_verify :: bool
  rc_keys :: ed25519
  rc_loads :: "bytes \<Rightarrow> json result"
  rc_nonce :: "nat \<Rightarrow> bytes"
  rc_tag :: "nat \<Rightarrow> string"

text \<open>What the environment gives a thread: the pieces a socket delivers and whether the reply to them
  can be written, whether a write succeeds, whether bytes or the end of the stream came, and how a
  wait ends.\<close>

datatype io = Got socket bool | Wrote bool | Heard bool | Woken | TimedOut | Go

subsection \<open>Steps of a thread\<close>

definition goto :: "conn \<Rightarrow> phase \<Rightarrow> relay \<Rightarrow> relay" where
  "goto i p st = st\<lparr>rl_threads := (rl_threads st)(i \<mapsto> p)\<rparr>"

text \<open>A write to the thread's own connection; a failed one ends the thread.\<close>

definition reply_to :: "conn \<Rightarrow> body \<Rightarrow> bool \<Rightarrow> phase \<Rightarrow> relay \<Rightarrow> relay" where
  "reply_to i b w next st =
     (if w \<and> i \<notin> set (rl_down st) then goto i next (st\<lparr>rl_sent := rl_sent st @ [(i, Pre b)]\<rparr>)
      else goto i Closing st)"

abbreviation refusal :: "string \<Rightarrow> body" where
  "refusal err \<equiv> [(''ok'', JBool False), (''err'', JStr err)]"

definition pre_get :: "string \<Rightarrow> body \<Rightarrow> json" where
  "pre_get k b = (case map_of b k of None \<Rightarrow> JStr [] | Some v \<Rightarrow> v)"

text \<open>\<open>_handle_control\<close>.  A node id that is true and no string is outside the model.\<close>

definition open_control :: "relay_config \<Rightarrow> conn \<Rightarrow> json \<Rightarrow> bool \<Rightarrow> relay \<Rightarrow> relay option" where
  "open_control cfg i v w st =
     (if \<not> truthy v then Some (reply_to i (refusal ''no node_id'') w Closing st)
      else case v of
             JStr nid \<Rightarrow>
               (let nonce = rc_nonce cfg (rl_drawn st)
                in Some (reply_to i [(''nonce'', JStr (hex_of nonce))] w Challenged
                     (st\<lparr>rl_drawn := rl_drawn st + 1, rl_ids := (rl_ids st)(i \<mapsto> (nid, nonce))\<rparr>)))
           | _ \<Rightarrow> None)"

definition answer_challenge :: "relay_config \<Rightarrow> conn \<Rightarrow> string \<Rightarrow> bytes \<Rightarrow> json \<Rightarrow> bool \<Rightarrow> relay \<Rightarrow> relay" where
  "answer_challenge cfg i nid nonce resp w st =
     (if \<not> rc_verify cfg then reply_to i [(''ok'', JBool True)] w Admitting st
      else case resp of
             JObj b \<Rightarrow>
               (case verify_node_sig (rc_keys cfg) nid nonce (pre_get ''sig'' b) of
                  Inl _ \<Rightarrow> goto i Closing st
                | Inr False \<Rightarrow> reply_to i (refusal ''bad signature'') w Closing st
                | Inr True \<Rightarrow>
                    reply_to i [(''ok'', JBool True)] w Admitting
                      (st\<lparr>rl_proofs := (rl_proofs st)(i := (case pre_get ''sig'' b of
                             JStr h \<Rightarrow> (case fromhex h of Inr s \<Rightarrow> Some s | Inl _ \<Rightarrow> None) | _ \<Rightarrow> None))\<rparr>))
           | _ \<Rightarrow> goto i Closing st)"

text \<open>\<open>_handle_dial\<close>.  A node id that is null, a truth value or a number is outside the model.\<close>

definition open_dial :: "relay_config \<Rightarrow> conn \<Rightarrow> json \<Rightarrow> json \<Rightarrow> bool \<Rightarrow> relay \<Rightarrow> relay option" where
  "open_dial cfg i v token w st =
     (if rc_token cfg \<noteq> [] \<and> token \<noteq> JStr (rc_token cfg) then Some (reply_to i (refusal ''bad token'') w Closing st)
      else case v of
             JStr nid \<Rightarrow>
               (let tag = rc_tag cfg (rl_drawn st)
                in Some (goto i Dialing (st\<lparr>rl_drawn := rl_drawn st + 1,
                     rl_dials := (rl_dials st)(i \<mapsto> (nid, tag)), rl_pending := (rl_pending st)((nid, tag) \<mapsto> i)\<rparr>)))
           | JList _ \<Rightarrow> Some (goto i Closing (st\<lparr>rl_drawn := rl_drawn st + 1\<rparr>))
           | JObj _ \<Rightarrow> Some (goto i Closing (st\<lparr>rl_drawn := rl_drawn st + 1\<rparr>))
           | _ \<Rightarrow> None)"

text \<open>\<open>_handle_data\<close>: keys that are no strings match no entry or cannot be looked up.\<close>

definition open_data :: "conn \<Rightarrow> json \<Rightarrow> json \<Rightarrow> relay \<Rightarrow> relay" where
  "open_data i v t st =
     (case (v, t) of
        (JStr nid, JStr tag) \<Rightarrow>
          (let st1 = st\<lparr>rl_datas := (rl_datas st)(i \<mapsto> (nid, tag))\<rparr>
           in case rl_pending st (nid, tag) of
                None \<Rightarrow> goto i Closing st1
              | Some d \<Rightarrow> goto i Pairing
                  (st1\<lparr>rl_pending := (rl_pending st)((nid, tag) := None), rl_peer := (rl_peer st)(i \<mapsto> d)\<rparr>))
      | _ \<Rightarrow> goto i Closing st)"

definition open_conn :: "relay_config \<Rightarrow> conn \<Rightarrow> body \<Rightarrow> bool \<Rightarrow> relay \<Rightarrow> relay option" where
  "open_conn cfg i b w st =
     (if map_of b ''role'' = Some (JStr ''control'') then open_control cfg i (pre_get ''node_id'' b) w st
      else if map_of b ''role'' = Some (JStr ''dial'') then
        open_dial cfg i (pre_get ''node_id'' b) (pre_get ''token'' b) w st
      else if map_of b ''role'' = Some (JStr ''data'') then Some (open_data i (pre_get ''node_id'' b) (pre_get ''tag'' b) st)
      else Some (reply_to i (refusal ''unknown role'') w Closing st))"

text \<open>The node and the tag of a dial, the node and the nonce of a control connection.\<close>

abbreviation dial_of :: "relay \<Rightarrow> conn \<Rightarrow> string \<times> string" where
  "dial_of st i \<equiv> (case rl_dials st i of Some k \<Rightarrow> k | None \<Rightarrow> ([], []))"

abbreviation id_of :: "relay \<Rightarrow> conn \<Rightarrow> string \<times> bytes" where
  "id_of st i \<equiv> (case rl_ids st i of Some k \<Rightarrow> k | None \<Rightarrow> ([], []))"

text \<open>The threads of control connections: the nonce has been sent (\<open>Challenged\<close>), its signature was
  accepted (\<open>Admitting\<close>), an older connection of the node is closed (\<open>Replacing\<close>), the thread reads
  (\<open>Online\<close>), the loop has ended (\<open>Leaving\<close>).\<close>

definition control_thread :: "relay_config \<Rightarrow> conn \<Rightarrow> phase \<Rightarrow> io \<Rightarrow> relay \<Rightarrow> relay option" where
  "control_thread cfg i p x st =
     (let (nid, nonce) = id_of st i
      in case (p, x) of
           (Challenged, Got s w) \<Rightarrow>
             (case snd (read_preamble (rc_loads cfg) s) of
                Inl _ \<Rightarrow> Some (goto i Closing st)
              | Inr resp \<Rightarrow> Some (answer_challenge cfg i nid nonce resp w st))
         | (Admitting, Go) \<Rightarrow>
             Some (goto i (case map_of (rl_controls st) nid of None \<Rightarrow> Online | Some old \<Rightarrow> Replacing old)
               (st\<lparr>rl_controls := dset nid i (dpop nid (rl_controls st))\<rparr>))
         | (Replacing old, Go) \<Rightarrow> Some (goto i Online (st\<lparr>rl_down := old # rl_down st\<rparr>))
         | (Online, Heard b) \<Rightarrow> Some (goto i (if b then Online else Leaving) st)
         | (Online, Go) \<Rightarrow> if rl_stopped st then Some (goto i Leaving st) else None
         | (Leaving, Go) \<Rightarrow>
             Some (goto i Closing
               (if map_of (rl_controls st) nid = Some i then st\<lparr>rl_controls := dpop nid (rl_controls st)\<rparr> else st))
         | _ \<Rightarrow> None)"

text \<open>The threads of dials: the entry is in the table (\<open>Dialing\<close>), the node's control connection was found
  (\<open>Signalling\<close>) or not, the coordinator is told (\<open>Announcing\<close>) and waits.  A wait can time out although
  the event is being set.\<close>

definition dial_thread :: "conn \<Rightarrow> phase \<Rightarrow> io \<Rightarrow> relay \<Rightarrow> relay option" where
  "dial_thread i p x st =
     (let (nid, tag) = dial_of st i
      in case (p, x) of
           (Dialing, Go) \<Rightarrow>
             Some (goto i (case map_of (rl_controls st) nid of None \<Rightarrow> Offline | Some c \<Rightarrow> Signalling c) st)
         | (Signalling c, Wrote w) \<Rightarrow>
             if w \<and> c \<notin> set (rl_down st) then
               Some (goto i Announcing
                 (st\<lparr>rl_sent := rl_sent st @ [(c, Pre [(''op'', JStr ''open''), (''tag'', JStr tag)])]\<rparr>))
             else Some (goto i Offline st)
         | (Offline, Go) \<Rightarrow> Some (goto i Refusing (st\<lparr>rl_pending := (rl_pending st)((nid, tag) := None)\<rparr>))
         | (Refusing, Wrote w) \<Rightarrow> Some (reply_to i (refusal ''node offline'') w Closing st)
         | (Announcing, Wrote w) \<Rightarrow> Some (reply_to i [(''ok'', JBool True)] w Waiting st)
         | (Waiting, Woken) \<Rightarrow> if i \<in> set (rl_events st) then Some (goto i Handed st) else None
         | (Waiting, TimedOut) \<Rightarrow> Some (goto i Expired st)
         | (Expired, Go) \<Rightarrow> Some (goto i Closing (st\<lparr>rl_pending := (rl_pending st)((nid, tag) := None)\<rparr>))
         | _ \<Rightarrow> None)"

text \<open>The threads of data connections: the dial is released, then the two copy threads start.\<close>

definition data_thread :: "conn \<Rightarrow> phase \<Rightarrow> io \<Rightarrow> relay \<Rightarrow> relay option" where
  "data_thread i p x st =
     (case (rl_peer st i, p, x) of
        (Some d, Pairing, Go) \<Rightarrow> Some (goto i Spawning (st\<lparr>rl_events := d # rl_events st\<rparr>))
      | (Some d, Spawning, Go) \<Rightarrow> Some (goto i Spawning2 (st\<lparr>rl_pipes := rl_pipes st @ [(i, d)]\<rparr>))
      | (Some d, Spawning2, Go) \<Rightarrow> Some (goto i Handed (st\<lparr>rl_pipes := rl_pipes st @ [(d, i)]\<rparr>))
      | _ \<Rightarrow> None)"

definition thread_step :: "relay_config \<Rightarrow> conn \<Rightarrow> phase \<Rightarrow> io \<Rightarrow> relay \<Rightarrow> relay option" where
  "thread_step cfg i p x st =
     (case p of
        Opened \<Rightarrow>
          (case x of
             Got s w \<Rightarrow>
               (case snd (read_preamble (rc_loads cfg) s) of
                  Inr (JObj b) \<Rightarrow> open_conn cfg i b w st
                | _ \<Rightarrow> Some (goto i Closing st))
           | _ \<Rightarrow> None)
      | Closing \<Rightarrow> if x = Go then Some (goto i Closed (st\<lparr>rl_down := i # rl_down st\<rparr>)) else None
      | Closed \<Rightarrow> None
      | Handed \<Rightarrow> None
      | Challenged \<Rightarrow> control_thread cfg i p x st
      | Admitting \<Rightarrow> control_thread cfg i p x st
      | Replacing _ \<Rightarrow> control_thread cfg i p x st
      | Online \<Rightarrow> control_thread cfg i p x st
      | Leaving \<Rightarrow> control_thread cfg i p x st
      | Pairing \<Rightarrow> data_thread i p x st
      | Spawning \<Rightarrow> data_thread i p x st
      | Spawning2 \<Rightarrow> data_thread i p x st
      | _ \<Rightarrow> dial_thread i p x st)"

subsection \<open>Pipes and the listening loop\<close>

text \<open>One round of \<open>_pipe\<close> from \<open>a\<close> to \<open>b\<close>: the bytes that were read, none at the end of the stream or
  on an error, and whether they can be written.\<close>

definition pipe_step :: "conn \<Rightarrow> conn \<Rightarrow> bytes \<Rightarrow> bool \<Rightarrow> relay \<Rightarrow> relay" where
  "pipe_step a b bs w st =
     (if bs \<noteq> [] \<and> w \<and> b \<notin> set (rl_down st) then st\<lparr>rl_sent := rl_sent st @ [(b, Raw bs)]\<rparr>
      else st\<lparr>rl_ended := (a, b) # rl_ended st, rl_down := a # b # rl_down st\<rparr>)"

definition pipe_runs :: "relay \<Rightarrow> conn \<times> conn \<Rightarrow> bool" where
  "pipe_runs st p \<longleftrightarrow> p \<in> set (rl_pipes st) \<and> p \<notin> set (rl_ended st)"

datatype relay_event = EAccept | EThread conn io | EPipe conn conn bytes bool | EStop

fun relay_step :: "relay_config \<Rightarrow> relay_event \<Rightarrow> relay \<Rightarrow> relay option" where
  "relay_step cfg EAccept st =
     (if rl_stopped st then None else Some (goto (rl_next st) Opened (st\<lparr>rl_next := rl_next st + 1\<rparr>)))"
| "relay_step cfg (EThread i x) st =
     (case rl_threads st i of None \<Rightarrow> None | Some p \<Rightarrow> thread_step cfg i p x st)"
| "relay_step cfg (EPipe a b bs w) st = (if pipe_runs st (a, b) then Some (pipe_step a b bs w st) else None)"
| "relay_step cfg EStop st = Some (st\<lparr>rl_stopped := True\<rparr>)"

definition nodes_online :: "relay \<Rightarrow> string list" where
  "nodes_online st = sort (map fst (rl_controls st))"

text \<open>Every interleaving of the threads.\<close>

inductive relay_reach :: "relay_config \<Rightarrow> relay \<Rightarrow> bool" for cfg where
  start: "relay_reach cfg relay_start"
| step: "relay_reach cfg st \<Longrightarrow> relay_step cfg e st = Some st' \<Longrightarrow> relay_reach cfg st'"

fun relay_run :: "relay_config \<Rightarrow> relay_event list \<Rightarrow> relay \<Rightarrow> relay option" where
  "relay_run cfg [] st = Some st"
| "relay_run cfg (e # es) st = (case relay_step cfg e st of None \<Rightarrow> None | Some st1 \<Rightarrow> relay_run cfg es st1)"

lemma relay_reach_run: "relay_reach cfg st \<Longrightarrow> relay_run cfg es st = Some st' \<Longrightarrow> relay_reach cfg st'"
  by (induction es arbitrary: st) (auto split: option.splits intro: relay_reach.step)

subsection \<open>The clients of the relay\<close>

text \<open>
  The node's side (\<open>_relay_client\<close> of \<open>engine/stage_worker.py\<close>): what it answers to the preambles read
  on its control connection, a list that ends where the connection drops or the read blocks.  It
  returns what it writes on the control connection, the preambles of the data connections it opens,
  and the back-off before the next attempt.  The coordinator's side is \<open>_relay_dial\<close>.
\<close>

definition client_proof :: "ed25519 \<Rightarrow> bytes \<Rightarrow> json \<Rightarrow> body result" where
  "client_proof S priv v =
     (case v of
        JObj b \<Rightarrow> bindE (bindE (jfield ''nonce'' b) json_hex) (\<lambda>nonce. Inr [(''sig'', JStr (hex_of (ed_sign S priv nonce)))])
      | _ \<Rightarrow> Inl TypeError)"

definition answered_ok :: "json \<Rightarrow> bool result" where
  "answered_ok v = (case v of JObj b \<Rightarrow> Inr (case map_of b ''ok'' of None \<Rightarrow> False | Some x \<Rightarrow> truthy x) | _ \<Rightarrow> Inl TypeError)"

fun client_opens :: "string \<Rightarrow> json result list \<Rightarrow> body list" where
  "client_opens nid (Inr (JObj b) # ms) =
     (if map_of b ''op'' = Some (JStr ''open'')
      then [(''role'', JStr ''data''), (''node_id'', JStr nid), (''tag'', pre_get ''tag'' b)] # client_opens nid ms
      else client_opens nid ms)"
| "client_opens nid _ = []"

definition next_backoff :: "rat \<Rightarrow> rat" where
  "next_backoff t = min (t * 2) 30"

definition client_session ::
  "ed25519 \<Rightarrow> bytes \<Rightarrow> string \<Rightarrow> rat \<Rightarrow> json result list \<Rightarrow> body list \<times> body list \<times> rat" where
  "client_session S priv nid wait msgs =
     (let hello = [(''role'', JStr ''control''), (''node_id'', JStr nid)]
      in case msgs of
           Inr v # ms \<Rightarrow>
             (case client_proof S priv v of
                Inl _ \<Rightarrow> ([hello], [], next_backoff wait)
              | Inr proof \<Rightarrow>
                  (case ms of
                     Inr a # rest \<Rightarrow>
                       (if answered_ok a = Inr True then ([hello, proof], client_opens nid rest, next_backoff 1)
                        else ([hello, proof], [], next_backoff wait))
                   | _ \<Rightarrow> ([hello, proof], [], next_backoff wait)))
         | _ \<Rightarrow> ([hello], [], next_backoff wait))"

definition relay_dial_hello :: "string \<Rightarrow> string \<Rightarrow> body" where
  "relay_dial_hello nid token = [(''role'', JStr ''dial''), (''node_id'', JStr nid), (''token'', JStr token)]"

text \<open>What follows the answer to a dial: every failure to read it is a \<open>WireError\<close>.\<close>

definition relay_dial_result :: "json result \<Rightarrow> unit result" where
  "relay_dial_result r =
     (case r of
        Inl _ \<Rightarrow> Inl WireError
      | Inr v \<Rightarrow> bindE (answered_ok v) (\<lambda>ok. if ok then Inr () else Inl WireError))"

end
