(* ===== verification/Relay_Spec.thy ===== *)
theory Relay_Spec
  imports Relay
begin

section \<open>What the relay connects\<close>

text \<open>
  The transitions of the threads as a relation, the invariant of every interleaving, and what
  follows: a pipe joins a dial and a data connection that name the same node and tag, a tag is
  only told to a connection that has proven to be the dialled node, and a data connection that
  comes while its dial waits is joined to it whatever the other threads do.
\<close>

subsection \<open>The transitions\<close>

abbreviation say :: "relay \<Rightarrow> (conn \<times> sent) list \<Rightarrow> relay" where
  "say st out \<equiv> st\<lparr>rl_sent := rl_sent st @ out\<rparr>"

abbreviation open_msg :: "string \<Rightarrow> sent" where
  "open_msg tag \<equiv> Pre [(''op'', JStr ''open''), (''tag'', JStr tag)]"

definition no_open :: "(conn \<times> sent) list \<Rightarrow> bool" where
  "no_open out \<longleftrightarrow> (\<forall>c t. (c, open_msg t) \<notin> set out)"

text \<open>The signature that was accepted verifies under the node's key.\<close>

definition proven :: "relay_config \<Rightarrow> relay \<Rightarrow> string \<Rightarrow> conn \<Rightarrow> bool" where
  "proven cfg st nid c \<longleftrightarrow> (\<exists>nonce. rl_ids st c = Some (nid, nonce) \<and>
     (rc_verify cfg \<longrightarrow> (\<exists>pub sig. fromhex nid = Inr pub \<and> length pub = 32 \<and> rl_proofs st c = Some sig \<and>
        ed_check (rc_keys cfg) pub sig nonce)))"

inductive moves :: "relay_config \<Rightarrow> conn \<Rightarrow> phase \<Rightarrow> relay \<Rightarrow> relay \<Rightarrow> bool" for cfg i where
  quiet: "(p, q) \<in> {(Opened, Closing), (Challenged, Closing), (Online, Online), (Online, Leaving), (Refusing, Closing),
      (Announcing, Waiting), (Announcing, Closing), (Waiting, Expired)} \<or> (\<exists>c. p = Signalling c \<and> q = Offline) \<Longrightarrow>
    no_open out \<Longrightarrow> moves cfg i p st (goto i q (say st out))"
| wake: "i \<in> set (rl_events st) \<Longrightarrow> moves cfg i Waiting st (goto i Handed st)"
| challenge: "q = Challenged \<or> q = Closing \<Longrightarrow> no_open out \<Longrightarrow> moves cfg i Opened st (goto i q (say (st\<lparr>rl_drawn := rl_drawn st + 1,
      rl_ids := (rl_ids st)(i \<mapsto> (nid, rc_nonce cfg (rl_drawn st)))\<rparr>) out))"
| trust: "q = Admitting \<or> q = Closing \<Longrightarrow> no_open out \<Longrightarrow> \<not> rc_verify cfg \<Longrightarrow> moves cfg i Challenged st (goto i q (say st out))"
| prove: "q = Admitting \<or> q = Closing \<Longrightarrow> no_open out \<Longrightarrow> verify_node_sig (rc_keys cfg) (fst (id_of st i)) (snd (id_of st i)) (JStr h) = Inr True \<Longrightarrow>
    fromhex h = Inr sig \<Longrightarrow> moves cfg i Challenged st (goto i q (say (st\<lparr>rl_proofs := (rl_proofs st)(i \<mapsto> sig)\<rparr>) out))"
| admit: "q = Online \<or> (\<exists>old. q = Replacing old) \<Longrightarrow>
    moves cfg i Admitting st (goto i q (st\<lparr>rl_controls := dset (fst (id_of st i)) i (dpop (fst (id_of st i)) (rl_controls st))\<rparr>))"
| replace: "moves cfg i (Replacing old) st (goto i Online (st\<lparr>rl_down := old # rl_down st\<rparr>))"
| leave: "cs = rl_controls st \<or> cs = dpop (fst (id_of st i)) (rl_controls st) \<Longrightarrow>
    moves cfg i Leaving st (goto i Closing (st\<lparr>rl_controls := cs\<rparr>))"
| dial: "k = (nid, rc_tag cfg (rl_drawn st)) \<Longrightarrow> rc_token cfg = [] \<or> token = JStr (rc_token cfg) \<Longrightarrow>
    moves cfg i Opened st (goto i Dialing (st\<lparr>rl_drawn := rl_drawn st + 1,
      rl_dials := (rl_dials st)(i \<mapsto> k), rl_pending := (rl_pending st)(k \<mapsto> i)\<rparr>))"
| dial_lost: "moves cfg i Opened st (goto i Closing (st\<lparr>rl_drawn := rl_drawn st + 1\<rparr>))"
| no_control: "moves cfg i Dialing st (goto i Offline st)"
| found: "map_of (rl_controls st) (fst (dial_of st i)) = Some c \<Longrightarrow> moves cfg i Dialing st (goto i (Signalling c) st)"
| signal: "moves cfg i (Signalling c) st (goto i Announcing (say st [(c, open_msg (snd (dial_of st i)))]))"
| withdraw: "(p, q) \<in> {(Offline, Refusing), (Expired, Closing)} \<Longrightarrow>
    moves cfg i p st (goto i q (st\<lparr>rl_pending := (rl_pending st)(dial_of st i := None)\<rparr>))"
| unpaired: "moves cfg i Opened st (goto i Closing (st\<lparr>rl_datas := (rl_datas st)(i \<mapsto> k)\<rparr>))"
| pair: "rl_pending st k = Some d \<Longrightarrow> moves cfg i Opened st (goto i Pairing (st\<lparr>rl_datas := (rl_datas st)(i \<mapsto> k),
      rl_pending := (rl_pending st)(k := None), rl_peer := (rl_peer st)(i \<mapsto> d)\<rparr>))"
| release: "rl_peer st i = Some d \<Longrightarrow> moves cfg i Pairing st (goto i Spawning (st\<lparr>rl_events := d # rl_events st\<rparr>))"
| spawn: "rl_peer st i = Some d \<Longrightarrow> (p, q, ab) \<in> {(Spawning, Spawning2, i, d), (Spawning2, Handed, d, i)} \<Longrightarrow>
    moves cfg i p st (goto i q (st\<lparr>rl_pipes := rl_pipes st @ [ab]\<rparr>))"
| close: "moves cfg i Closing st (goto i Closed (st\<lparr>rl_down := i # rl_down st\<rparr>))"

lemma no_open_simps [simp]: "no_open []" "no_open [(i, Pre [(''ok'', v)])]" "no_open [(i, Pre [(''nonce'', v)])]"
  "no_open [(i, Pre (refusal err))]" "no_open [(i, Raw bs)]"
  by (auto simp: no_open_def)

lemma goto_say_nil: "goto i q (say st []) = goto i q st"
  by (simp add: goto_def)

lemma reply_quiet:
  assumes "(p, q) \<in> {(Opened, Closing), (Refusing, Closing), (Challenged, Closing), (Announcing, Waiting)}" and "no_open [(i, Pre b)]"
  shows "moves cfg i p st (reply_to i b w q st)"
  using assms moves.quiet [of p q "[(i, Pre b)]" cfg i st] moves.quiet [of p Closing "[]" cfg i st]
  by (auto simp: reply_to_def goto_def)

lemma control_moves: "control_thread cfg i p x st = Some st' \<Longrightarrow> moves cfg i p st st'"
proof -
  assume c: "control_thread cfg i p x st = Some st'"
  obtain nid nonce where id: "id_of st i = (nid, nonce)" by fastforce
  show ?thesis
  proof (cases p)
    case Challenged
    then obtain s w where x: "x = Got s w" using c by (cases x) (auto simp: control_thread_def id)
    have fail: "moves cfg i Challenged st (goto i Closing st)"
      using moves.quiet [of Challenged Closing "[]" cfg i st] by (simp add: goto_say_nil)
    show ?thesis
    proof (cases "snd (read_preamble (rc_loads cfg) s)")
      case (Inr resp)
      then have a: "st' = answer_challenge cfg i nid nonce resp w st" using c x Challenged by (simp add: control_thread_def id)
      have ok: "moves cfg i Challenged st (reply_to i [(''ok'', JBool True)] w Admitting st)" if "\<not> rc_verify cfg"
        using that moves.trust [of Admitting "[(i, Pre [(''ok'', JBool True)])]" cfg i st] fail
        by (auto simp: reply_to_def)
      have proved: "moves cfg i Challenged st (reply_to i [(''ok'', JBool True)] w Admitting (st\<lparr>rl_proofs := (rl_proofs st)(i \<mapsto> sig)\<rparr>))"
        if "verify_node_sig (rc_keys cfg) nid nonce (JStr h) = Inr True" "fromhex h = Inr sig" for h sig
        using that id moves.prove [of Admitting "[(i, Pre [(''ok'', JBool True)])]" cfg st i h sig]
          moves.prove [of Closing "[]" cfg st i h sig] by (auto simp: reply_to_def goto_def)
      have sig: "\<exists>h s. v = JStr h \<and> fromhex h = Inr s" if "verify_node_sig (rc_keys cfg) nid nonce v = Inr True" for v
        using that by (auto simp: verify_node_sig_def split: sum.splits if_splits json.splits)
      show ?thesis
      proof (cases "rc_verify cfg \<and> (\<exists>b. resp = JObj b)")
        case False
        then show ?thesis
          using a ok fail Challenged by (cases "rc_verify cfg"; cases resp) (simp_all add: answer_challenge_def)
      next
        case True
        then obtain b where b: "rc_verify cfg" "resp = JObj b" by blast
        let ?v = "verify_node_sig (rc_keys cfg) nid nonce (pre_get ''sig'' b)"
        consider (wrong) "?v = Inr False" | (raised) e where "?v = Inl e" | (right) "?v = Inr True"
          by (cases ?v) auto
        then show ?thesis
        proof cases
          case right
          then obtain h sg where h: "pre_get ''sig'' b = JStr h" "fromhex h = Inr sg" using sig [OF right] by blast
          then show ?thesis using proved [of h sg] right a b Challenged by (simp add: answer_challenge_def)
        next
          case wrong
          then show ?thesis
            using a b Challenged reply_quiet [of Challenged Closing i "refusal ''bad signature''" cfg st w]
            by (simp add: answer_challenge_def)
        qed (use a b fail Challenged in \<open>simp add: answer_challenge_def\<close>)
      qed
    qed (use c x Challenged fail in \<open>simp add: control_thread_def id\<close>)
  next
    case Online
    then show ?thesis
      using c moves.quiet [of Online Online "[]" cfg i st] moves.quiet [of Online Leaving "[]" cfg i st]
      by (cases x) (auto simp: control_thread_def id goto_say_nil split: if_splits)
  next
    case Admitting
    then show ?thesis
      using c moves.admit [of _ cfg i st] by (cases x) (auto simp: control_thread_def id split: option.splits)
  next
    case (Replacing old)
    then show ?thesis using c by (cases x) (auto simp: control_thread_def id intro: moves.replace)
  next
    case Leaving
    have "st = st\<lparr>rl_controls := rl_controls st\<rparr>" by simp
    then show ?thesis
      using c Leaving moves.leave [of "rl_controls st" st i cfg] moves.leave [of "dpop nid (rl_controls st)" st i cfg]
      by (cases x) (auto simp: control_thread_def id split: if_splits)
  qed (use c in \<open>simp_all add: control_thread_def id\<close>)
qed

lemma dial_moves: "dial_thread i p x st = Some st' \<Longrightarrow> moves cfg i p st st'"
proof -
  assume d: "dial_thread i p x st = Some st'"
  obtain nid tag where k: "dial_of st i = (nid, tag)" by fastforce
  show ?thesis
  proof (cases p)
    case Dialing
    then show ?thesis
      using d moves.found [of st i _ cfg] by (cases x) (auto simp: dial_thread_def k intro: moves.no_control split: option.splits)
  next
    case (Signalling c)
    then show ?thesis
      using d moves.signal [of cfg i c st] moves.quiet [of p Offline "[]" cfg i st]
      by (cases x) (auto simp: dial_thread_def k goto_say_nil split: if_splits)
  next
    case Offline
    then show ?thesis using d moves.withdraw [of Offline Refusing cfg i st] by (cases x) (auto simp: dial_thread_def k)
  next
    case Refusing
    then show ?thesis using d by (cases x) (auto simp: dial_thread_def k intro: reply_quiet)
  next
    case Announcing
    then show ?thesis using d by (cases x) (auto simp: dial_thread_def k intro: reply_quiet)
  next
    case Waiting
    then show ?thesis
      using d moves.quiet [of Waiting Expired "[]" cfg i st]
      by (cases x) (auto simp: dial_thread_def k goto_say_nil intro: moves.wake split: if_splits)
  next
    case Expired
    then show ?thesis using d moves.withdraw [of Expired Closing cfg i st] by (cases x) (auto simp: dial_thread_def k)
  qed (use d in \<open>simp_all add: dial_thread_def k\<close>)
qed

lemma data_moves: "data_thread i p x st = Some st' \<Longrightarrow> moves cfg i p st st'"
proof -
  assume d: "data_thread i p x st = Some st'"
  then obtain c where c: "rl_peer st i = Some c" by (auto simp: data_thread_def split: option.splits)
  then show ?thesis
    using d moves.spawn [OF c, of p _ _ cfg]
    by (cases p; cases x) (auto simp: data_thread_def intro: moves.release)
qed

lemma open_moves: "open_conn cfg i b w st = Some st' \<Longrightarrow> moves cfg i Opened st st'"
proof -
  assume o: "open_conn cfg i b w st = Some st'"
  have control: "moves cfg i Opened st st'" if c: "open_control cfg i v w st = Some st'" for v
  proof (cases "truthy v")
    case False
    then show ?thesis using c reply_quiet [of Opened Closing i "refusal ''no node_id''" cfg st w] by (auto simp: open_control_def)
  next
    case True
    then obtain nid where nid: "v = JStr nid" using c by (cases v) (auto simp: open_control_def)
    show ?thesis
      using c True moves.challenge [of Challenged "[(i, Pre [(''nonce'', JStr (hex_of (rc_nonce cfg (rl_drawn st))))])]" cfg i st nid]
        moves.challenge [of Closing "[]" cfg i st nid]
      by (auto simp: open_control_def nid reply_to_def Let_def goto_say_nil)
  qed
  have dial: "moves cfg i Opened st st'" if "open_dial cfg i v t w st = Some st'" for v t
    using that moves.dial [OF refl, of cfg t i st] reply_quiet [of Opened Closing i "refusal ''bad token''" cfg st w]
      moves.dial_lost [of cfg i st]
    by (auto simp: open_dial_def Let_def split: if_splits json.splits)
  have data: "moves cfg i Opened st (open_data i v t st)" for v t
    using moves.unpaired [of cfg i st] moves.pair [of st _ _ cfg i] moves.quiet [of Opened Closing "[]" cfg i st]
    by (auto simp: open_data_def Let_def goto_say_nil split: json.splits option.splits)
  show ?thesis
    using o control dial data reply_quiet [of Opened Closing i "refusal ''unknown role''" cfg st w]
    by (auto simp: open_conn_def split: if_splits)
qed

lemma thread_moves:
  assumes t: "thread_step cfg i p x st = Some st'"
  shows "moves cfg i p st st'"
proof (cases p)
  case Opened
  have "moves cfg i Opened st (goto i Closing st)"
    using moves.quiet [of Opened Closing "[]" cfg i st] by (simp add: goto_say_nil)
  then show ?thesis
    using t Opened by (cases x) (auto simp: thread_step_def split: sum.splits json.splits intro: open_moves)
next
  case Closing
  then show ?thesis using t by (auto simp: thread_step_def intro: moves.close split: if_splits)
qed (use t in \<open>auto simp: thread_step_def intro: control_moves dial_moves data_moves\<close>)

subsection \<open>The invariant\<close>

definition dial_phase :: "phase \<Rightarrow> bool" where
  "dial_phase p \<longleftrightarrow> p \<in> {Dialing, Offline, Refusing, Announcing, Waiting, Expired} \<or> (\<exists>c. p = Signalling c)"

definition data_phase :: "phase \<Rightarrow> bool" where
  "data_phase p \<longleftrightarrow> p \<in> {Pairing, Spawning, Spawning2}"

definition control_phase :: "phase \<Rightarrow> bool" where
  "control_phase p \<longleftrightarrow> p \<in> {Admitting, Online, Leaving} \<or> (\<exists>c. p = Replacing c)"

text \<open>A connection has the locals of one role, from the moment its preamble was read.\<close>

definition locals_ok :: "relay \<Rightarrow> bool" where
  "locals_ok st \<longleftrightarrow>
     (\<forall>i. rl_next st \<le> i \<longrightarrow> rl_threads st i = None) \<and>
     (\<forall>i. rl_threads st i \<in> {None, Some Opened} \<longrightarrow>
        rl_dials st i = None \<and> rl_datas st i = None \<and> rl_ids st i = None \<and> rl_peer st i = None \<and> rl_proofs st i = None) \<and>
     (\<forall>i. rl_dials st i \<noteq> None \<longrightarrow> rl_datas st i = None) \<and>
     (\<forall>i. rl_ids st i \<noteq> None \<longrightarrow> rl_dials st i = None \<and> rl_datas st i = None) \<and>
     (\<forall>i p. rl_threads st i = Some p \<longrightarrow> (dial_phase p \<longrightarrow> rl_dials st i \<noteq> None) \<and>
        (data_phase p \<longrightarrow> rl_peer st i \<noteq> None) \<and> (control_phase p \<or> p = Challenged \<longrightarrow> rl_ids st i \<noteq> None) \<and>
        (p = Challenged \<longrightarrow> rl_proofs st i = None))"

text \<open>Tags and nonces were drawn, each for one connection.\<close>

definition draws_ok :: "relay_config \<Rightarrow> relay \<Rightarrow> bool" where
  "draws_ok cfg st \<longleftrightarrow>
     (\<forall>d nid t. rl_dials st d = Some (nid, t) \<longrightarrow> (\<exists>k < rl_drawn st. t = rc_tag cfg k)) \<and>
     (\<forall>d d' nid nid' t. rl_dials st d = Some (nid, t) \<and> rl_dials st d' = Some (nid', t) \<longrightarrow> d = d') \<and>
     (\<forall>c nid n. rl_ids st c = Some (nid, n) \<longrightarrow> (\<exists>k < rl_drawn st. n = rc_nonce cfg k)) \<and>
     (\<forall>c c' nid nid' n. rl_ids st c = Some (nid, n) \<and> rl_ids st c' = Some (nid', n) \<longrightarrow> c = c')"

text \<open>An entry of the table is its dial's; a data connection took the entry of the dial it is paired
  with, and copy threads join such pairs.\<close>

definition pairs_ok :: "relay \<Rightarrow> bool" where
  "pairs_ok st \<longleftrightarrow>
     (\<forall>k d. rl_pending st k = Some d \<longrightarrow> rl_dials st d = Some k) \<and>
     (\<forall>n d. rl_peer st n = Some d \<longrightarrow> (\<exists>k. rl_datas st n = Some k \<and> rl_dials st d = Some k \<and> rl_pending st k = None)) \<and>
     (\<forall>n n' d. rl_peer st n = Some d \<and> rl_peer st n' = Some d \<longrightarrow> n = n') \<and>
     (\<forall>a b. (a, b) \<in> set (rl_pipes st) \<longrightarrow> rl_peer st a = Some b \<or> rl_peer st b = Some a) \<and>
     (\<forall>d \<in> set (rl_events st). \<exists>n. rl_peer st n = Some d)"

text \<open>Connections in the table of controls, and those that are told a tag, have proven their node id.\<close>

definition controls_ok :: "relay_config \<Rightarrow> relay \<Rightarrow> bool" where
  "controls_ok cfg st \<longleftrightarrow>
     (\<forall>i p. rl_threads st i = Some p \<and> control_phase p \<longrightarrow> proven cfg st (fst (id_of st i)) i) \<and>
     (\<forall>nid c. map_of (rl_controls st) nid = Some c \<longrightarrow> proven cfg st nid c) \<and>
     (\<forall>d c. rl_threads st d = Some (Signalling c) \<longrightarrow> proven cfg st (fst (dial_of st d)) c) \<and>
     (\<forall>c t. (c, open_msg t) \<in> set (rl_sent st) \<longrightarrow> (\<exists>d nid. rl_dials st d = Some (nid, t) \<and> proven cfg st nid c)) \<and>
     dict_ok (rl_controls st)"

definition relay_ok :: "relay_config \<Rightarrow> relay \<Rightarrow> bool" where
  "relay_ok cfg st \<longleftrightarrow> locals_ok st \<and> draws_ok cfg st \<and> pairs_ok st \<and> controls_ok cfg st"

lemmas phase_simps = dial_phase_def data_phase_def control_phase_def

lemma locals_moves:
  assumes "moves cfg i p st st'" and "rl_threads st i = Some p" and "locals_ok st"
  shows "locals_ok st'"
  using assms(1) by cases (use assms(2,3) in \<open>auto simp: locals_ok_def goto_def phase_simps\<close>)

lemma draws_moves:
  assumes "moves cfg i p st st'" and "draws_ok cfg st" and "inj (rc_tag cfg)" "inj (rc_nonce cfg)"
  shows "draws_ok cfg st'"
proof -
  note d = assms(2) [unfolded draws_ok_def]
  have tag: "rl_dials st d \<noteq> Some (nid, rc_tag cfg (rl_drawn st))" for d nid
    using d injD [OF assms(3)] by (metis nat_neq_iff)
  have nonce: "rl_ids st c \<noteq> Some (nid, rc_nonce cfg (rl_drawn st))" for c nid
    using d injD [OF assms(4)] by (metis nat_neq_iff)
  show ?thesis
    using assms(1)
  proof cases
    case (challenge q out nid)
    then show ?thesis using d nonce unfolding draws_ok_def by (simp add: goto_def) (metis less_Suc_eq)
  next
    case (dial k nid token)
    then show ?thesis using d tag unfolding draws_ok_def by (simp add: goto_def) (metis less_Suc_eq)
  next
    case dial_lost
    then show ?thesis using d unfolding draws_ok_def by (simp add: goto_def) (metis less_Suc_eq)
  qed (use assms(2) in \<open>simp_all add: draws_ok_def goto_def\<close>)
qed

lemma pairs_moves:
  assumes "moves cfg i p st st'" and "rl_threads st i = Some p" and "locals_ok st" "draws_ok cfg st" "pairs_ok st"
    and "inj (rc_tag cfg)"
  shows "pairs_ok st'"
proof -
  note l = assms(3) [unfolded locals_ok_def] and d = assms(4) [unfolded draws_ok_def] and q = assms(5) [unfolded pairs_ok_def]
  have tag: "rl_dials st d \<noteq> Some (nid, rc_tag cfg (rl_drawn st))" for d nid
    using d injD [OF assms(6)] by (metis nat_neq_iff)
  have opened: "rl_dials st i = None" "rl_peer st i = None" "rl_datas st i = None" if "p = Opened"
    using l assms(2) that by simp_all
  have fresh: "rl_peer st n \<noteq> Some i" "rl_pending st k \<noteq> Some i" if "p = Opened" for n k
    using q opened(1) [OF that] by fastforce+
  have one: "k = k'" if "rl_dials st d = Some k" "rl_dials st d = Some k'" for d k k' using that by simp
  show ?thesis
    using assms(1)
  proof cases
    case (dial k nid token)
    then show ?thesis using q opened fresh tag unfolding pairs_ok_def
      by (simp add: goto_def) (metis option.distinct(1))
  next
    case (pair k d)
    have dk: "rl_dials st d = Some k" using q pair(3) by blast
    have un: "rl_peer st n \<noteq> Some d" for n
      using q pair(3) dk by (metis option.distinct(1) option.inject)
    note o = opened [OF pair(1)]
    show ?thesis
      unfolding pairs_ok_def pair(2)
    proof (intro conjI allI ballI impI, goal_cases)
      case (1 k' d')
      then show ?case using q by (cases k') (simp add: goto_def split: if_splits)
    next
      case (2 n d')
      show ?case
      proof (cases "n = i")
        case False
        then have "rl_peer st n = Some d'" using 2 by (simp add: goto_def)
        then obtain k' where k': "rl_datas st n = Some k'" "rl_dials st d' = Some k'" "rl_pending st k' = None"
          using q by blast
        then show ?thesis using False by (simp add: goto_def)
      qed (use 2 dk in \<open>simp add: goto_def\<close>)
    next
      case (3 n n' d')
      then show ?case using q un by (auto simp: goto_def split: if_splits)
    next
      case (4 a b)
      then have "rl_peer st a = Some b \<or> rl_peer st b = Some a" using q by (simp add: goto_def)
      then show ?case using o by (auto simp: goto_def)
    next
      case (5 d')
      then obtain n where n: "rl_peer st n = Some d'" using q by (auto simp: goto_def)
      then have "n \<noteq> i" using o by auto
      then show ?case using n by (auto simp: goto_def)
    qed
  next
    case (unpaired k)
    then show ?thesis using q opened unfolding pairs_ok_def by (simp add: goto_def)
  next
    case (release d)
    then show ?thesis using q unfolding pairs_ok_def by (auto simp: goto_def)
  next
    case (spawn d q' ab)
    then show ?thesis using q unfolding pairs_ok_def by (auto simp: goto_def)
  next
    case (withdraw q')
    obtain a b where "dial_of st i = (a, b)" by fastforce
    then show ?thesis using withdraw q unfolding pairs_ok_def by (simp add: goto_def) (metis (no_types, lifting))
  qed (use assms(5) in \<open>simp_all add: pairs_ok_def goto_def\<close>)
qed

lemma proven_stays:
  assumes "moves cfg i p st st'" and "rl_threads st i = Some p" and "locals_ok st" and "proven cfg st nid c"
  shows "proven cfg st' nid c"
proof -
  have ids: "rl_ids st c \<noteq> None" using assms(4) by (auto simp: proven_def)
  have new: "c \<noteq> i" if "p = Opened" using assms(2,3) that ids by (auto simp: locals_ok_def)
  have old: "rl_proofs st i = None" if "p = Challenged" using assms(2,3) that by (simp add: locals_ok_def)
  show ?thesis
    using assms(1)
  proof cases
    case (challenge q out n)
    then show ?thesis using assms(4) new by (auto simp: proven_def goto_def)
  next
    case (prove q out h sig)
    then show ?thesis using assms(4) old by (cases "c = i") (auto simp: proven_def goto_def)
  qed (use assms(4) in \<open>auto simp: proven_def goto_def\<close>)
qed

lemma local_dial: "locals_ok st \<Longrightarrow> rl_threads st d = Some p \<Longrightarrow> dial_phase p \<Longrightarrow> \<exists>x. rl_dials st d = Some x"
  unfolding locals_ok_def by blast

lemma dial_phase_signalling [simp]: "dial_phase (Signalling c)"
  by (simp add: dial_phase_def)

lemma controls_moves:
  assumes "moves cfg i p st st'" and "rl_threads st i = Some p" and "locals_ok st" "controls_ok cfg st"
  shows "controls_ok cfg st'"
proof -
  note l = assms(3) [unfolded locals_ok_def] and k = assms(4) [unfolded controls_ok_def]
  note stay = proven_stays [OF assms(1-3)]
  have opened: "rl_dials st i = None" "rl_ids st i = None" if "p = Opened" using l assms(2) that by simp_all
  have ids: "rl_ids st j = Some x \<Longrightarrow> rl_ids st' j = Some x" for j x
    using assms(1) opened(2) by cases (auto simp: goto_def)
  have dials: "rl_dials st j = Some x \<Longrightarrow> rl_dials st' j = Some x" for j x
    using assms(1) opened(1) by cases (auto simp: goto_def)
  have other: "rl_threads st' j = rl_threads st j" if "j \<noteq> i" for j
    using assms(1) that by cases (auto simp: goto_def)
  have old: "proven cfg st' (fst (id_of st' j)) j"
    if j: "rl_threads st j = Some p'" "control_phase p'" for j p'
  proof -
    obtain x where x: "rl_ids st j = Some x" using l j by blast
    have "proven cfg st (fst (id_of st j)) j" using k j by blast
    then show ?thesis using stay x ids [OF x] by simp
  qed
  have mine: "proven cfg st' (fst (id_of st' i)) i" if q: "rl_threads st' i = Some p'" "control_phase p'" for p'
  proof (cases "control_phase p")
    case True
    then show ?thesis using old assms(2) by blast
  next
    case False
    have admitting: "p = Challenged \<and> p' = Admitting"
      using assms(1) q False by cases (auto simp: goto_def phase_simps)
    then obtain x where x: "rl_ids st i = Some x" using l assms(2) by blast
    show ?thesis
      using assms(1)
    proof cases
      case (prove q out h sig)
      then show ?thesis
        using x by (cases x) (auto simp: proven_def goto_def verify_node_sig_def split: sum.splits if_splits)
    next
      case (trust q out)
      then show ?thesis using x by (cases x) (auto simp: proven_def goto_def)
    qed (use q admitting in \<open>auto simp: goto_def phase_simps\<close>)
  qed
  have table: "proven cfg st' nid c" if c: "map_of (rl_controls st') nid = Some c" for nid c
  proof (cases "map_of (rl_controls st) nid = Some c")
    case True
    then show ?thesis using k stay by blast
  next
    case False
    have "p = Admitting \<and> c = i \<and> nid = fst (id_of st' i)"
      using assms(1) False c by cases (auto simp: goto_def dict_simps split: if_splits)
    then show ?thesis using old [OF assms(2)] by (simp add: phase_simps)
  qed
  have signalling: "proven cfg st' (fst (dial_of st' d)) c" if d: "rl_threads st' d = Some (Signalling c)" for d c
  proof (cases "d = i")
    case True
    have "p = Dialing \<and> map_of (rl_controls st) (fst (dial_of st i)) = Some c \<and> rl_dials st' = rl_dials st"
      using assms(1) d True by cases (auto simp: goto_def)
    then show ?thesis using k stay True by simp
  next
    case False
    then have "rl_threads st d = Some (Signalling c)" using d other by simp
    moreover then obtain x where x: "rl_dials st d = Some x" using local_dial [OF assms(3)] by fastforce
    ultimately have "proven cfg st (fst (dial_of st d)) c" using k by blast
    then show ?thesis using stay x dials [OF x] by simp
  qed
  have told: "\<exists>d nid. rl_dials st' d = Some (nid, t) \<and> proven cfg st' nid c" if t: "(c, open_msg t) \<in> set (rl_sent st')" for c t
  proof (cases "(c, open_msg t) \<in> set (rl_sent st)")
    case True
    then show ?thesis using k stay dials by blast
  next
    case False
    have p: "p = Signalling c \<and> t = snd (dial_of st i)"
      using assms(1) False t by cases (auto simp: goto_def no_open_def)
    obtain x where "rl_dials st i = Some x" using local_dial [OF assms(3,2)] p by auto
    moreover have "proven cfg st (fst (dial_of st i)) c" using k assms(2) p by blast
    ultimately show ?thesis using stay dials p by (cases x) (simp, blast)
  qed
  have dict: "dict_ok (rl_controls st')"
    using assms(1) k by cases (auto simp: goto_def)
  show ?thesis
    using old mine table signalling told dict other unfolding controls_ok_def by metis
qed

lemma relay_ok_moves:
  assumes "moves cfg i p st st'" and "rl_threads st i = Some p" and "relay_ok cfg st"
    and "inj (rc_tag cfg)" "inj (rc_nonce cfg)"
  shows "relay_ok cfg st'"
  using assms locals_moves [OF assms(1,2)] draws_moves [OF assms(1)] pairs_moves [OF assms(1,2)] controls_moves [OF assms(1,2)]
  by (simp add: relay_ok_def)

lemma relay_ok_start: "relay_ok cfg relay_start"
  by (simp add: relay_ok_def locals_ok_def draws_ok_def pairs_ok_def controls_ok_def relay_start_def)

lemma proven_pipe [simp]: "proven cfg (pipe_step a b bs w st) = proven cfg st"
  by (simp add: fun_eq_iff proven_def pipe_step_def)

lemma relay_ok_step:
  assumes ok: "relay_ok cfg st" and inj: "inj (rc_tag cfg)" "inj (rc_nonce cfg)" and s: "relay_step cfg e st = Some st'"
  shows "relay_ok cfg st'"
proof (cases e)
  case EAccept
  then have st': "st' = goto (rl_next st) Opened (st\<lparr>rl_next := rl_next st + 1\<rparr>)" using s by (simp split: if_splits)
  have new: "rl_threads st (rl_next st) = None" using ok by (simp add: relay_ok_def locals_ok_def)
  have none: "rl_dials st (rl_next st) = None \<and> rl_datas st (rl_next st) = None \<and> rl_ids st (rl_next st) = None \<and>
      rl_peer st (rl_next st) = None \<and> rl_proofs st (rl_next st) = None"
    using ok new unfolding relay_ok_def locals_ok_def by blast
  have "proven cfg st' = proven cfg st" by (simp add: fun_eq_iff proven_def st' goto_def)
  then have "controls_ok cfg st'"
    using ok by (auto simp: relay_ok_def controls_ok_def st' goto_def phase_simps)
  moreover have "locals_ok st'"
    using ok none by (auto simp: relay_ok_def locals_ok_def st' goto_def phase_simps)
  ultimately show ?thesis
    using ok by (simp add: relay_ok_def draws_ok_def pairs_ok_def st' goto_def)
next
  case (EThread i x)
  then obtain p where p: "rl_threads st i = Some p" "thread_step cfg i p x st = Some st'" using s by (auto split: option.splits)
  show ?thesis by (rule relay_ok_moves [OF thread_moves [OF p(2)] p(1) ok inj])
next
  case (EPipe a b bs w)
  then have st': "st' = pipe_step a b bs w st" using s by (simp split: if_splits)
  have same: "rl_threads st' = rl_threads st \<and> rl_next st' = rl_next st \<and> rl_dials st' = rl_dials st \<and> rl_datas st' = rl_datas st \<and>
      rl_ids st' = rl_ids st \<and> rl_peer st' = rl_peer st \<and> rl_proofs st' = rl_proofs st \<and> rl_drawn st' = rl_drawn st \<and>
      rl_pending st' = rl_pending st \<and> rl_pipes st' = rl_pipes st \<and> rl_events st' = rl_events st \<and> rl_controls st' = rl_controls st \<and>
      (\<forall>c t. (c, open_msg t) \<in> set (rl_sent st') \<longrightarrow> (c, open_msg t) \<in> set (rl_sent st))"
    by (simp add: st' pipe_step_def)
  have "proven cfg st' = proven cfg st" using st' by simp
  then show ?thesis using ok same unfolding relay_ok_def locals_ok_def draws_ok_def pairs_ok_def controls_ok_def by simp
next
  case EStop
  then have "st' = st\<lparr>rl_stopped := True\<rparr>" using s by simp
  then show ?thesis using ok by (simp add: relay_ok_def locals_ok_def draws_ok_def pairs_ok_def controls_ok_def proven_def)
qed

lemma relay_reach_ok:
  "relay_reach cfg st \<Longrightarrow> inj (rc_tag cfg) \<Longrightarrow> inj (rc_nonce cfg) \<Longrightarrow> relay_ok cfg st"
  by (induction rule: relay_reach.induct) (auto intro: relay_ok_start relay_ok_step)

subsection \<open>Safety\<close>

text \<open>C21. In every interleaving of the relay's threads a copy thread joins one dial and one data connection
  that named the same node and the tag drawn for that dial; no connection is joined to two others, so
  bytes never cross between conversations; and what waits in the table is each dial under its own node
  and tag.\<close>

theorem relay_joins_matching_pairs:
  assumes "relay_reach cfg st" and "inj (rc_tag cfg)" "inj (rc_nonce cfg)"
  shows "((a, b) \<in> set (rl_pipes st) \<longrightarrow>
      (\<exists>nid k. (rl_dials st a = Some (nid, rc_tag cfg k) \<and> rl_datas st b = Some (nid, rc_tag cfg k)) \<or>
               (rl_dials st b = Some (nid, rc_tag cfg k) \<and> rl_datas st a = Some (nid, rc_tag cfg k)))) \<and>
    ((a, b) \<in> set (rl_pipes st) \<and> ((a, c) \<in> set (rl_pipes st) \<or> (c, a) \<in> set (rl_pipes st)) \<longrightarrow> b = c) \<and>
    (rl_pending st key = Some d \<longrightarrow> rl_dials st d = Some key)"
proof -
  note ok = relay_reach_ok [OF assms, unfolded relay_ok_def]
  have q: "\<And>k d. rl_pending st k = Some d \<Longrightarrow> rl_dials st d = Some k"
      "\<And>n d. rl_peer st n = Some d \<Longrightarrow> \<exists>k. rl_datas st n = Some k \<and> rl_dials st d = Some k"
      "\<And>n n' d. rl_peer st n = Some d \<Longrightarrow> rl_peer st n' = Some d \<Longrightarrow> n = n'"
      "\<And>a b. (a, b) \<in> set (rl_pipes st) \<Longrightarrow> rl_peer st a = Some b \<or> rl_peer st b = Some a"
    using ok unfolding pairs_ok_def by blast+
  have one: "rl_dials st i \<noteq> None \<Longrightarrow> rl_datas st i = None" for i using ok unfolding locals_ok_def by blast
  have tag: "\<And>d nid t. rl_dials st d = Some (nid, t) \<Longrightarrow> \<exists>k. t = rc_tag cfg k" using ok unfolding draws_ok_def by blast
  have joined: "\<exists>nid k. rl_datas st n = Some (nid, rc_tag cfg k) \<and> rl_dials st d = Some (nid, rc_tag cfg k)"
    if "rl_peer st n = Some d" for n d
    using q(2) [OF that] tag by (metis surj_pair)
  have apart: "rl_peer st d = None" if "rl_peer st n = Some d" for n d
    using q(2) [OF that] q(2) [of d] one [of d] by (cases "rl_peer st d") auto
  have "b = c" if "(a, b) \<in> set (rl_pipes st)" "(a, c) \<in> set (rl_pipes st) \<or> (c, a) \<in> set (rl_pipes st)"
    using q(4) [OF that(1)] q(4) [of a c] q(4) [of c a] that(2) q(3) apart by (metis option.distinct(1) option.inject)
  then show ?thesis using q(1,4) joined by blast
qed

text \<open>C22. A tag is told, on any connection, only if that connection has signed the nonce drawn for it alone
  with the key of the node that the tag's dial asked for; and the table of control connections holds
  only connections that have done so.  So a node cannot take another's place without its key or the
  tag.\<close>

theorem relay_tells_only_proven_nodes:
  assumes "relay_reach cfg st" and "inj (rc_tag cfg)" "inj (rc_nonce cfg)" and "rc_verify cfg"
  shows "((c, open_msg tag) \<in> set (rl_sent st) \<or> map_of (rl_controls st) node = Some c \<longrightarrow>
      (\<exists>nid k pub sig. rl_ids st c = Some (nid, rc_nonce cfg k) \<and> fromhex nid = Inr pub \<and> rl_proofs st c = Some sig \<and>
         ed_check (rc_keys cfg) pub sig (rc_nonce cfg k) \<and>
         (\<forall>c' nid'. rl_ids st c' = Some (nid', rc_nonce cfg k) \<longrightarrow> c' = c) \<and>
         (map_of (rl_controls st) node = Some c \<longrightarrow> nid = node) \<and>
         ((c, open_msg tag) \<in> set (rl_sent st) \<longrightarrow>
            (\<exists>d. rl_dials st d = Some (nid, tag) \<and> (\<forall>d' nid'. rl_dials st d' = Some (nid', tag) \<longrightarrow> d' = d)))))"
proof
  assume told: "(c, open_msg tag) \<in> set (rl_sent st) \<or> map_of (rl_controls st) node = Some c"
  note ok = relay_reach_ok [OF assms(1-3), unfolded relay_ok_def]
  have told_ok: "\<And>c t. (c, open_msg t) \<in> set (rl_sent st) \<Longrightarrow> \<exists>d nid. rl_dials st d = Some (nid, t) \<and> proven cfg st nid c"
    and table: "\<And>nid c. map_of (rl_controls st) nid = Some c \<Longrightarrow> proven cfg st nid c"
    using ok unfolding controls_ok_def by blast+
  have draws: "\<And>d d' nid nid' t. rl_dials st d = Some (nid, t) \<Longrightarrow> rl_dials st d' = Some (nid', t) \<Longrightarrow> d = d'"
      "\<And>c nid n. rl_ids st c = Some (nid, n) \<Longrightarrow> \<exists>k. n = rc_nonce cfg k"
      "\<And>c c' nid nid' n. rl_ids st c = Some (nid, n) \<Longrightarrow> rl_ids st c' = Some (nid', n) \<Longrightarrow> c = c'"
    using ok unfolding draws_ok_def by blast+
  obtain nid where p: "proven cfg st nid c" using told told_ok table by blast
  then obtain nonce pub sig where n: "rl_ids st c = Some (nid, nonce)" "fromhex nid = Inr pub" "rl_proofs st c = Some sig"
      "ed_check (rc_keys cfg) pub sig nonce"
    using assms(4) by (auto simp: proven_def)
  obtain k where k: "nonce = rc_nonce cfg k" using draws(2) [OF n(1)] by blast
  have same: "nid' = nid" if "proven cfg st nid' c" for nid' using that n(1) by (auto simp: proven_def)
  have "\<exists>d. rl_dials st d = Some (nid, tag)" if "(c, open_msg tag) \<in> set (rl_sent st)"
    using told_ok [OF that] same by blast
  moreover have "nid = node" if "map_of (rl_controls st) node = Some c"
    using table [OF that] same by blast
  ultimately show "\<exists>nid k pub sig. rl_ids st c = Some (nid, rc_nonce cfg k) \<and> fromhex nid = Inr pub \<and> rl_proofs st c = Some sig \<and>
         ed_check (rc_keys cfg) pub sig (rc_nonce cfg k) \<and>
         (\<forall>c' nid'. rl_ids st c' = Some (nid', rc_nonce cfg k) \<longrightarrow> c' = c) \<and>
         (map_of (rl_controls st) node = Some c \<longrightarrow> nid = node) \<and>
         ((c, open_msg tag) \<in> set (rl_sent st) \<longrightarrow>
            (\<exists>d. rl_dials st d = Some (nid, tag) \<and> (\<forall>d' nid'. rl_dials st d' = Some (nid', tag) \<longrightarrow> d' = d)))"
    using n draws k by (intro exI [of _ nid] exI [of _ k] exI [of _ pub] exI [of _ sig] conjI) blast+
qed

subsection \<open>Sockets the relay takes down\<close>

text \<open>Only its own thread, a newer connection of the same node or the end of a pipe takes a socket down.\<close>

definition down_ok :: "relay \<Rightarrow> bool" where
  "down_ok st \<longleftrightarrow>
     (\<forall>i \<in> set (rl_down st). rl_threads st i = Some Closed \<or> rl_ids st i \<noteq> None \<or>
        (\<exists>a b. (a, b) \<in> set (rl_ended st) \<and> (i = a \<or> i = b))) \<and>
     (\<forall>i old. rl_threads st i = Some (Replacing old) \<longrightarrow> rl_ids st old \<noteq> None)"

lemma replacing_old: "thread_step cfg i p x st = Some st' \<Longrightarrow> rl_threads st' i = Some (Replacing old) \<Longrightarrow> p = Admitting \<Longrightarrow>
    map_of (rl_controls st) (fst (id_of st i)) = Some old"
  by (cases "id_of st i"; cases x) (auto simp: thread_step_def control_thread_def goto_def split: option.splits)

lemma down_ok_step:
  assumes d: "down_ok st" and ok: "relay_ok cfg st" and s: "relay_step cfg e st = Some st'"
  shows "down_ok st'"
proof (cases e)
  case (EThread i x)
  then obtain p where p: "rl_threads st i = Some p" "thread_step cfg i p x st = Some st'" using s by (auto split: option.splits)
  have old: "\<exists>y. rl_ids st old = Some y" if "p = Admitting" "rl_threads st' i = Some (Replacing old)" for old
    using replacing_old [OF p(2) that(2,1)] ok unfolding relay_ok_def controls_ok_def proven_def by blast
  have running: "p \<noteq> Closed" using p(2) by (auto simp: thread_step_def)
  note m = thread_moves [OF p(2)]
  have ids: "rl_ids st j \<noteq> None \<Longrightarrow> rl_ids st' j \<noteq> None" for j using m by cases (auto simp: goto_def)
  have ended: "rl_ended st' = rl_ended st" using m by cases (simp_all add: goto_def)
  have down: "j \<in> set (rl_down st') \<Longrightarrow> j \<in> set (rl_down st) \<or> (j = i \<and> rl_threads st' i = Some Closed) \<or> p = Replacing j" for j
    using m by cases (auto simp: goto_def)
  have closed: "rl_threads st j = Some Closed \<Longrightarrow> rl_threads st' j = Some Closed" for j
    using m running p(1) by cases (auto simp: goto_def)
  have replacing: "rl_threads st' j = Some (Replacing old) \<Longrightarrow> rl_threads st j = Some (Replacing old) \<or> (j = i \<and> p = Admitting)" for j old
    using m by cases (auto simp: goto_def split: if_splits)
  show ?thesis
    unfolding down_ok_def
  proof (intro conjI ballI allI impI, goal_cases)
    case (1 j)
    then show ?case using down [OF 1] d p(1) ids closed unfolding down_ok_def ended by blast
  next
    case (2 j old')
    then show ?case using replacing [OF 2] old ids d unfolding down_ok_def by blast
  qed
next
  case EAccept
  then have st': "st' = goto (rl_next st) Opened (st\<lparr>rl_next := rl_next st + 1\<rparr>)" using s by (simp split: if_splits)
  have "rl_threads st (rl_next st) = None" using ok by (simp add: relay_ok_def locals_ok_def)
  then show ?thesis using d by (auto simp: down_ok_def st' goto_def)
next
  case (EPipe a b bs w)
  then have "st' = pipe_step a b bs w st" using s by (simp split: if_splits)
  then show ?thesis using d unfolding down_ok_def pipe_step_def by (simp split: if_splits) blast
next
  case EStop
  then have "st' = st\<lparr>rl_stopped := True\<rparr>" using s by simp
  then show ?thesis using d unfolding down_ok_def by simp
qed

lemma relay_reach_down:
  assumes "relay_reach cfg st" "inj (rc_tag cfg)" "inj (rc_nonce cfg)"
  shows "down_ok st"
  using assms(1)
proof induction
  case start
  then show ?case by (simp add: down_ok_def relay_start_def)
next
  case (step st e st')
  then show ?case using down_ok_step relay_reach_ok [OF step(1) assms(2,3)] by blast
qed

subsection \<open>A waiting dial is joined\<close>

abbreviation data_preamble :: "string \<Rightarrow> string \<Rightarrow> body" where
  "data_preamble nid tag \<equiv> [(''role'', JStr ''data''), (''node_id'', JStr nid), (''tag'', JStr tag)]"

text \<open>How far the data connection \<open>n\<close> has come that goes with the waiting dial \<open>d\<close>.\<close>

definition stage :: "conn \<Rightarrow> conn \<Rightarrow> string \<times> string \<Rightarrow> nat \<Rightarrow> relay \<Rightarrow> bool" where
  "stage n d key k st \<longleftrightarrow> k \<le> 4 \<and> n \<noteq> d \<and> rl_dials st d = Some key \<and>
     rl_threads st n = Some ([Opened, Pairing, Spawning, Spawning2, Handed] ! k) \<and>
     (k = 0 \<longrightarrow> rl_pending st key = Some d) \<and> (0 < k \<longrightarrow> rl_peer st n = Some d) \<and>
     (rl_threads st d = Some Waiting \<or> 0 < k \<and> rl_threads st d = Some Handed) \<and>
     (2 \<le> k \<longrightarrow> d \<in> set (rl_events st)) \<and>
     (3 \<le> k \<longrightarrow> (n, d) \<in> set (rl_pipes st)) \<and> (k = 4 \<longrightarrow> (d, n) \<in> set (rl_pipes st))"

definition turns :: "conn \<Rightarrow> relay_event list \<Rightarrow> nat" where
  "turns n es = length (filter (\<lambda>e. \<exists>x. e = EThread n x) es)"

lemma stage_own:
  assumes "stage n d key k st" and "relay_step cfg (EThread n x) st = Some st'"
    and "\<And>s w. x = Got s w \<Longrightarrow> snd (read_preamble (rc_loads cfg) s) = Inr (JObj (data_preamble (fst key) (snd key)))"
  shows "stage n d key (k + 1) st'"
proof -
  have "k = 0 \<or> k = 1 \<or> k = 2 \<or> k = 3 \<or> k = 4" using assms(1) by (auto simp: stage_def)
  then show ?thesis
    using assms
    by (elim disjE; cases x; cases key)
      (auto simp: stage_def thread_step_def data_thread_def open_conn_def open_data_def pre_get_def goto_def Let_def)
qed

lemma stage_other:
  assumes st: "stage n d key k st" and ok: "relay_ok cfg st" "relay_ok cfg st'" and s: "relay_step cfg e st = Some st'"
    and e: "\<nexists>x. e = EThread n x" "e \<noteq> EThread d TimedOut" and only: "\<And>m. rl_datas st' m = Some key \<Longrightarrow> m = n"
  shows "stage n d key k st'"
proof (cases e)
  case EAccept
  then have st': "st' = goto (rl_next st) Opened (st\<lparr>rl_next := rl_next st + 1\<rparr>)" using s by (simp split: if_splits)
  have "rl_threads st (rl_next st) = None" using ok by (simp add: relay_ok_def locals_ok_def)
  then have "rl_next st \<noteq> n" "rl_next st \<noteq> d" using st by (auto simp: stage_def)
  then show ?thesis using st by (auto simp: stage_def st' goto_def)
next
  case (EPipe a b bs w)
  then have "st' = pipe_step a b bs w st" using s by (simp split: if_splits)
  then show ?thesis using st by (auto simp: stage_def pipe_step_def)
next
  case EStop
  then show ?thesis using st s by (auto simp: stage_def)
next
  case (EThread i x)
  then have i: "i \<noteq> n" using e(1) by blast
  obtain p where p: "rl_threads st i = Some p" "thread_step cfg i p x st = Some st'" using s EThread by (auto split: option.splits)
  show ?thesis
  proof (cases "i = d")
    case True
    then have "p = Waiting \<or> p = Handed" using st p(1) by (auto simp: stage_def)
    then have "x = Woken \<and> d \<in> set (rl_events st) \<and> st' = goto d Handed st \<and> p = Waiting"
      using p(2) True e(2) EThread by (cases x) (auto simp: thread_step_def dial_thread_def split: prod.splits if_splits)
    moreover have "0 < k" if ev: "d \<in> set (rl_events st)"
    proof (rule ccontr)
      assume k: "\<not> 0 < k"
      obtain m where m: "rl_peer st m = Some d" using ev ok(1) by (auto simp: relay_ok_def pairs_ok_def)
      then obtain key' where key': "rl_datas st m = Some key'" "rl_dials st d = Some key'" "rl_pending st key' = None"
        using ok(1) unfolding relay_ok_def pairs_ok_def by blast
      then show False using st k by (simp add: stage_def)
    qed
    ultimately show ?thesis using st i by (auto simp: stage_def goto_def)
  next
    case False
    note m = thread_moves [OF p(2)]
    have dk: "rl_dials st d = Some key" using st by (simp add: stage_def)
    have opened: "rl_peer st i = None \<and> rl_dials st i = None" if "p = Opened" using that ok(1) p(1) by (simp add: relay_ok_def locals_ok_def)
    have uniq: "rl_dials st' j = Some (a, t) \<Longrightarrow> rl_dials st' j' = Some (b, t) \<Longrightarrow> j = j'" for j j' a b t
      using ok(2) unfolding relay_ok_def draws_ok_def by blast
    have threads: "rl_threads st' n = rl_threads st n \<and> rl_threads st' d = rl_threads st d"
      using m i False by cases (simp_all add: goto_def)
    have dials: "rl_dials st' d = Some key" using m dk False by cases (simp_all add: goto_def)
    have mono: "rl_peer st' n = rl_peer st n" "set (rl_events st) \<subseteq> set (rl_events st')" "set (rl_pipes st) \<subseteq> set (rl_pipes st')"
      using m i by (cases; auto simp: goto_def)+
    have "rl_pending st' key = Some d" if pend: "rl_pending st key = Some d"
      using m
    proof cases
      case (dial k nid token)
      then have "rl_dials st' i = Some k" by (simp add: goto_def)
      then have "k \<noteq> key" using uniq [of i nid _ d nid] dials dial(3) False by auto
      then show ?thesis using dial pend by (simp add: goto_def)
    next
      case (pair k d')
      then have "rl_datas st' i = Some k" by (simp add: goto_def)
      then have "k \<noteq> key" using only i by blast
      then show ?thesis using pair pend by (simp add: goto_def)
    next
      case (withdraw q)
      then obtain x where x: "rl_dials st i = Some x" using local_dial [of st i p] ok(1) p(1) by (auto simp: relay_ok_def dial_phase_def)
      then have "rl_dials st' i = Some x" using withdraw by (simp add: goto_def)
      then have "x \<noteq> key" using uniq [of i _ _ d] dials False by (metis surj_pair)
      then show ?thesis using withdraw pend x by (simp add: goto_def)
    qed (use pend in \<open>simp_all add: goto_def\<close>)
    then show ?thesis using st threads dials mono unfolding stage_def by auto
  qed
qed

lemma datas_stay:
  assumes ok: "relay_ok cfg st" and s: "relay_step cfg e st = Some st'" and m: "rl_datas st m = Some key"
  shows "rl_datas st' m = Some key"
proof (cases e)
  case (EThread i x)
  then obtain p where p: "rl_threads st i = Some p" "thread_step cfg i p x st = Some st'" using s by (auto split: option.splits)
  have "i \<noteq> m" if "p = Opened" using that ok p(1) m by (auto simp: relay_ok_def locals_ok_def)
  show ?thesis using thread_moves [OF p(2)] \<open>p = Opened \<Longrightarrow> i \<noteq> m\<close> m by cases (auto simp: goto_def)
qed (use s m in \<open>auto simp: goto_def pipe_step_def split: if_splits\<close>)

lemma relay_run_datas:
  assumes "relay_run cfg es st = Some st'" "relay_reach cfg st" "inj (rc_tag cfg)" "inj (rc_nonce cfg)" "rl_datas st m = Some key"
  shows "rl_datas st' m = Some key"
  using assms
proof (induction es arbitrary: st)
  case (Cons e es)
  then obtain st1 where s: "relay_step cfg e st = Some st1" "relay_run cfg es st1 = Some st'" by (auto split: option.splits)
  then show ?case
    using Cons datas_stay [OF relay_reach_ok [OF Cons.prems(2-4)] s(1) Cons.prems(5)] relay_reach.step by blast
qed auto

lemma stage_run:
  assumes "relay_reach cfg st" and inj: "inj (rc_tag cfg)" "inj (rc_nonce cfg)" and "stage n d key k st"
    and "relay_run cfg es st = Some st'"
    and "\<And>s w. EThread n (Got s w) \<in> set es \<Longrightarrow> snd (read_preamble (rc_loads cfg) s) = Inr (JObj (data_preamble (fst key) (snd key)))"
    and "EThread d TimedOut \<notin> set es" and only: "\<And>m. rl_datas st' m = Some key \<Longrightarrow> m = n"
  shows "stage n d key (k + turns n es) st'"
  using assms(1,4-7)
proof (induction es arbitrary: st k)
  case Nil
  then show ?case by (simp add: turns_def)
next
  case (Cons e es)
  then obtain st1 where s: "relay_step cfg e st = Some st1" "relay_run cfg es st1 = Some st'" by (auto split: option.splits)
  have r1: "relay_reach cfg st1" using Cons.prems(1) s(1) by (rule relay_reach.step)
  note ok = relay_reach_ok [OF Cons.prems(1) inj] relay_reach_ok [OF r1 inj]
  have rest: "snd (read_preamble (rc_loads cfg) s) = Inr (JObj (data_preamble (fst key) (snd key)))"
    if "EThread n (Got s w) \<in> set es" for s w
    using Cons.prems(4) [of s w] that by simp
  have waits: "EThread d TimedOut \<notin> set es" using Cons.prems(5) by simp
  have only1: "\<And>m. rl_datas st1 m = Some key \<Longrightarrow> m = n" using relay_run_datas [OF s(2) r1 inj] only by blast
  show ?case
  proof (cases "\<exists>x. e = EThread n x")
    case True
    then obtain x where x: "e = EThread n x" by blast
    have "stage n d key (k + 1) st1"
    proof (rule stage_own [OF Cons.prems(2) s(1) [unfolded x]])
      fix s w assume "x = Got s w"
      then show "snd (read_preamble (rc_loads cfg) s) = Inr (JObj (data_preamble (fst key) (snd key)))"
        using Cons.prems(4) [of s w] x by simp
    qed
    then have "stage n d key (k + 1 + turns n es) st'"
      by (rule Cons.IH [OF r1 _ s(2) rest waits])
    then show ?thesis using x by (simp add: turns_def)
  next
    case False
    have "stage n d key k st1" by (rule stage_other [OF Cons.prems(2) ok s(1) False _ only1]) (use Cons.prems(5) in auto)
    then have "stage n d key (k + turns n es) st'"
      by (rule Cons.IH [OF r1 _ s(2) rest waits])
    then show ?thesis using False by (simp add: turns_def)
  qed
qed

text \<open>C23. A dial that waits gets the node's connection, whatever the other threads do meanwhile: once a data
  connection with its node and tag has been accepted, the next turn of that connection's thread is always
  possible until it has taken four; then bytes are copied both ways between the two, the dial's thread
  can leave without closing its socket, and until one of the two copy threads ends the relay has taken
  neither socket down.  This needs that the wait does not time out and that no other connection used the
  tag.\<close>

theorem waiting_dial_is_joined:
  assumes st: "relay_reach cfg st" and inj: "inj (rc_tag cfg)" "inj (rc_nonce cfg)"
    and dial: "rl_threads st d = Some Waiting" "rl_pending st (nid, tag) = Some d" and data: "rl_threads st n = Some Opened"
    and run: "relay_run cfg es st = Some st'"
    and reads: "\<forall>s w. EThread n (Got s w) \<in> set es \<longrightarrow> snd (read_preamble (rc_loads cfg) s) = Inr (JObj (data_preamble nid tag))"
    and waits: "EThread d TimedOut \<notin> set es" and only: "\<forall>m. rl_datas st' m = Some (nid, tag) \<longrightarrow> m = n"
  shows "turns n es \<le> 4 \<and> (1 \<le> turns n es \<and> turns n es < 4 \<longrightarrow> relay_step cfg (EThread n Go) st' \<noteq> None) \<and>
    (turns n es = 4 \<longrightarrow> (n, d) \<in> set (rl_pipes st') \<and> (d, n) \<in> set (rl_pipes st') \<and> rl_threads st' n = Some Handed \<and>
      (rl_threads st' d = Some Handed \<or> rl_threads st' d = Some Waiting \<and> relay_step cfg (EThread d Woken) st' \<noteq> None) \<and>
      ((\<forall>a b. (a, b) \<in> set (rl_ended st') \<longrightarrow> {a, b} \<inter> {n, d} = {}) \<longrightarrow> n \<notin> set (rl_down st') \<and> d \<notin> set (rl_down st')))"
    (is "_ \<and> _ \<and> (_ \<longrightarrow> ?joined)")
proof -
  note ok = relay_reach_ok [OF st inj]
  have "rl_dials st d = Some (nid, tag)" using ok dial(2) by (auto simp: relay_ok_def pairs_ok_def)
  then have "stage n d (nid, tag) 0 st" using dial data by (auto simp: stage_def)
  then have s: "stage n d (nid, tag) (turns n es) st'"
    using stage_run [OF st inj _ run, of n d "(nid, tag)" 0] reads waits only by simp
  then have le: "turns n es \<le> 4" by (simp add: stage_def)
  have enabled: "relay_step cfg (EThread n Go) st' \<noteq> None" if "1 \<le> turns n es" "turns n es < 4"
  proof -
    have "turns n es = 1 \<or> turns n es = 2 \<or> turns n es = 3" using that by arith
    then show ?thesis using s by (elim disjE) (simp_all add: stage_def thread_step_def data_thread_def)
  qed
  have r': "relay_reach cfg st'" by (rule relay_reach_run [OF st run])
  note ok' = relay_reach_ok [OF r' inj, unfolded relay_ok_def] and down = relay_reach_down [OF r' inj, unfolded down_ok_def]
  show ?thesis
  proof (cases "turns n es = 4")
    case True
    then have f: "(n, d) \<in> set (rl_pipes st')" "(d, n) \<in> set (rl_pipes st')" "rl_threads st' n = Some Handed" "d \<in> set (rl_events st')"
        "rl_threads st' d = Some Waiting \<or> rl_threads st' d = Some Handed" "rl_dials st' d = Some (nid, tag)" "rl_peer st' n = Some d"
      using s by (auto simp: stage_def)
    have some: "rl_datas st' n \<noteq> None" "rl_dials st' d \<noteq> None" using ok' f(6,7) unfolding pairs_ok_def by blast+
    have excl: "rl_ids st' i \<noteq> None \<Longrightarrow> rl_dials st' i = None \<and> rl_datas st' i = None" for i
      using ok' unfolding locals_ok_def by blast
    have ids: "rl_ids st' n = None" "rl_ids st' d = None" using some excl [of n] excl [of d] by metis+
    have "x \<notin> set (rl_down st')" if "\<forall>a b. (a, b) \<in> set (rl_ended st') \<longrightarrow> {a, b} \<inter> {n, d} = {}" "x = n \<or> x = d" for x
    proof
      assume "x \<in> set (rl_down st')"
      moreover have "rl_threads st' x \<noteq> Some Closed \<and> rl_ids st' x = None" using that(2) ids f(3,5) by auto
      ultimately show False using down that by blast
    qed
    then have up: "(\<forall>a b. (a, b) \<in> set (rl_ended st') \<longrightarrow> {a, b} \<inter> {n, d} = {}) \<longrightarrow> n \<notin> set (rl_down st') \<and> d \<notin> set (rl_down st')"
      by simp
    have wake: "relay_step cfg (EThread d Woken) st' \<noteq> None" if "rl_threads st' d = Some Waiting"
      using that f(4) by (simp add: thread_step_def dial_thread_def split: prod.split)
    have "rl_threads st' d = Some Handed \<or> rl_threads st' d = Some Waiting \<and> relay_step cfg (EThread d Woken) st' \<noteq> None"
      using wake f(5) by blast
    then have "?joined" by (intro impI conjI f(1-3) up)
    then show ?thesis using True by simp
  qed (use le enabled in simp)
qed

subsection \<open>Clients\<close>

text \<open>The two sides of the control handshake fit: a node that holds the key of its id and answers the
  relay's challenge is admitted under that id, whatever nonce was drawn; and the preamble it opens a
  data connection with for a tag it was told is the one that pairs with the dial that waits for that
  node and tag.\<close>

theorem relay_client_is_admitted:
  assumes key: "length pub = 32" "ed_check (rc_keys cfg) pub (ed_sign (rc_keys cfg) priv nonce) nonce"
    and thread: "rl_threads st i = Some Challenged" "rl_ids st i = Some (hex_of pub, nonce)" "i \<notin> set (rl_down st)"
    and msgs: "client_session (rc_keys cfg) priv (hex_of pub) wait
      (Inr (JObj [(''nonce'', JStr (hex_of nonce))]) # Inr (JObj [(''ok'', JBool True)]) # opens) = ([hello, answer], datas, back)"
    and read: "snd (read_preamble (rc_loads cfg) s) = Inr (JObj answer)"
  shows "\<exists>st1 st2. relay_step cfg (EThread i (Got s True)) st = Some st1 \<and> relay_step cfg (EThread i Go) st1 = Some st2 \<and>
      map_of (rl_controls st2) (hex_of pub) = Some i \<and>
      (\<forall>tag. rl_pending st2 (hex_of pub, tag) = Some d \<and> rl_threads st2 n = Some Opened \<and>
         Inr (JObj [(''op'', JStr ''open''), (''tag'', JStr tag)]) = hd opens \<and> opens \<noteq> [] \<longrightarrow>
         (\<exists>st3. open_conn cfg n (hd datas) True st2 = Some st3 \<and> rl_peer st3 n = Some d \<and> rl_threads st3 n = Some Pairing))"
proof -
  have a: "answer = [(''sig'', JStr (hex_of (ed_sign (rc_keys cfg) priv nonce)))]" and datas: "datas = client_opens (hex_of pub) opens"
    using msgs by (auto simp: client_session_def client_proof_def answered_ok_def jfield_def Let_def)
  have v: "verify_node_sig (rc_keys cfg) (hex_of pub) nonce (pre_get ''sig'' answer) = Inr True"
    using key by (simp add: verify_node_sig_def pre_get_def a)
  have "\<exists>st1. relay_step cfg (EThread i (Got s True)) st = Some st1 \<and> rl_threads st1 i = Some Admitting \<and>
      rl_ids st1 = rl_ids st \<and> rl_controls st1 = rl_controls st"
    using thread read v by (simp add: thread_step_def control_thread_def answer_challenge_def reply_to_def goto_def)
  then obtain st1 where st1: "relay_step cfg (EThread i (Got s True)) st = Some st1" "rl_threads st1 i = Some Admitting" "rl_ids st1 = rl_ids st"
    by blast
  obtain st2 where st2: "relay_step cfg (EThread i Go) st1 = Some st2" "map_of (rl_controls st2) (hex_of pub) = Some i"
    using st1 thread(2) by (simp add: thread_step_def control_thread_def goto_def dict_simps)
  have "\<exists>st3. open_conn cfg n (hd datas) True st2 = Some st3 \<and> rl_peer st3 n = Some d \<and> rl_threads st3 n = Some Pairing"
    if "rl_pending st2 (hex_of pub, tag) = Some d" "Inr (JObj [(''op'', JStr ''open''), (''tag'', JStr tag)]) = hd opens" "opens \<noteq> []" for tag
    using that by (cases opens) (auto simp: datas open_conn_def open_data_def pre_get_def goto_def Let_def)
  then show ?thesis using st1(1) st2 by blast
qed

subsection \<open>A small relay\<close>

text \<open>A node, a coordinator that dials it and the node's data connection; messages are numbered.\<close>

definition demo_node :: string where
  "demo_node = concat (replicate 32 ''07'')"

definition demo_relay :: relay_config where
  "demo_relay = \<lparr>rc_token = ''t'', rc_verify = True, rc_keys = \<lparr>ed_sign = (\<lambda>k m. m), ed_check = (\<lambda>p s m. s = m)\<rparr>,
     rc_loads = (\<lambda>bs. if bs = [1] then Inr (JObj [(''role'', JStr ''control''), (''node_id'', JStr demo_node)])
       else if bs = [2] then Inr (JObj [(''sig'', JStr [])])
       else if bs = [3] then Inr (JObj [(''role'', JStr ''dial''), (''node_id'', JStr demo_node), (''token'', JStr ''t'')])
       else if bs = [4] then Inr (JObj (data_preamble demo_node ''a'')) else Inl ValueError),
     rc_nonce = (\<lambda>k. replicate k 0), rc_tag = (\<lambda>k. replicate k CHR ''a'')\<rparr>"

abbreviation demo_msg :: "byte \<Rightarrow> io" where
  "demo_msg k \<equiv> Got [[0, 0, 0, 1, k]] True"

definition demo_dialled :: "relay_event list" where
  "demo_dialled = [EAccept, EThread 0 (demo_msg 1), EThread 0 (demo_msg 2), EThread 0 Go,
     EAccept, EThread 1 (demo_msg 3), EThread 1 Go, EThread 1 (Wrote True), EThread 1 (Wrote True), EAccept]"

definition demo_joined :: "relay_event list" where
  "demo_joined = [EThread 2 (demo_msg 4), EThread 2 Go, EThread 1 Woken, EThread 2 Go, EThread 2 Go]"

lemma demo_relay_inj: "inj (rc_tag demo_relay)" "inj (rc_nonce demo_relay)"
  by (auto simp: demo_relay_def inj_def dest: arg_cong [where f = length])

lemma demo_waiting:
  "case relay_run demo_relay demo_dialled relay_start of None \<Rightarrow> False
   | Some st \<Rightarrow> rl_threads st 1 = Some Waiting \<and> rl_pending st (demo_node, ''a'') = Some 1 \<and> rl_threads st 2 = Some Opened \<and>
       map_of (rl_controls st) demo_node = Some 0 \<and> (0, open_msg ''a'') \<in> set (rl_sent st)"
  by code_simp

lemma relay_reach_events: "relay_run cfg es relay_start = Some st \<Longrightarrow> relay_reach cfg st"
  by (rule relay_reach_run [OF relay_reach.start])

lemma relay_run_append:
  "relay_run cfg (es @ fs) st = (case relay_run cfg es st of None \<Rightarrow> None | Some st1 \<Rightarrow> relay_run cfg fs st1)"
  by (induction es arbitrary: st) (auto split: option.splits)

lemma demo_joins:
  "case relay_run demo_relay (demo_dialled @ demo_joined) relay_start of None \<Rightarrow> False
   | Some st \<Rightarrow> (1, 2) \<in> set (rl_pipes st) \<and> (2, 1) \<in> set (rl_pipes st) \<and> rl_dials st 1 = Some (demo_node, ''a'') \<and>
       rl_datas st 0 = None \<and> rl_datas st 1 = None \<and> rl_next st = 3 \<and> rl_ended st = []"
  by code_simp

lemma relay_joins_matching_pairs_witness:
  "\<exists>st nid k. relay_reach demo_relay st \<and> (1, 2) \<in> set (rl_pipes st) \<and> rl_dials st 1 = Some (nid, rc_tag demo_relay k) \<and>
     rl_datas st 2 = Some (nid, rc_tag demo_relay k)"
proof -
  obtain st where st: "relay_run demo_relay (demo_dialled @ demo_joined) relay_start = Some st" "(1, 2) \<in> set (rl_pipes st)" "rl_datas st 1 = None"
    using demo_joins by (auto split: option.splits)
  note r = relay_reach_events [OF st(1)]
  obtain nid k where "(rl_dials st 1 = Some (nid, rc_tag demo_relay k) \<and> rl_datas st 2 = Some (nid, rc_tag demo_relay k)) \<or>
      (rl_dials st 2 = Some (nid, rc_tag demo_relay k) \<and> rl_datas st 1 = Some (nid, rc_tag demo_relay k))"
    using relay_joins_matching_pairs [OF r demo_relay_inj, of 1 2] st(2) by blast
  then have "rl_dials st 1 = Some (nid, rc_tag demo_relay k) \<and> rl_datas st 2 = Some (nid, rc_tag demo_relay k)"
    using st(3) by simp
  then show ?thesis using st(2) r by blast
qed

lemma relay_tells_only_proven_nodes_witness:
  "\<exists>st nid k pub sig. relay_reach demo_relay st \<and> (0, open_msg ''a'') \<in> set (rl_sent st) \<and>
     rl_ids st 0 = Some (nid, rc_nonce demo_relay k) \<and> fromhex nid = Inr pub \<and> ed_check (rc_keys demo_relay) pub sig (rc_nonce demo_relay k)"
proof -
  obtain st where st: "relay_run demo_relay demo_dialled relay_start = Some st" "(0, open_msg ''a'') \<in> set (rl_sent st)"
    using demo_waiting by (auto split: option.splits)
  note r = relay_reach_events [OF st(1)]
  have v: "rc_verify demo_relay" by (simp add: demo_relay_def)
  show ?thesis using relay_tells_only_proven_nodes [OF r demo_relay_inj v, of 0 "''a''"] st(2) r by blast
qed

lemma waiting_dial_is_joined_witness:
  "\<exists>st'. relay_reach demo_relay st' \<and> (2, 1) \<in> set (rl_pipes st') \<and> (1, 2) \<in> set (rl_pipes st') \<and>
     1 \<notin> set (rl_down st') \<and> 2 \<notin> set (rl_down st')"
proof -
  obtain st where st: "relay_run demo_relay demo_dialled relay_start = Some st" "rl_threads st 1 = Some Waiting"
      "rl_pending st (demo_node, ''a'') = Some 1" "rl_threads st 2 = Some Opened"
    using demo_waiting by (auto split: option.splits)
  obtain st' where st': "relay_run demo_relay (demo_dialled @ demo_joined) relay_start = Some st'"
      "rl_datas st' 0 = None" "rl_datas st' 1 = None" "rl_next st' = 3" "rl_ended st' = []"
    using demo_joins by (auto split: option.splits)
  have run: "relay_run demo_relay demo_joined st = Some st'" using st' st(1) by (simp add: relay_run_append)
  note r = relay_reach_events [OF st(1)] and r' = relay_reach_events [OF st'(1)]
  have reads: "snd (read_preamble (rc_loads demo_relay) s) = Inr (JObj (data_preamble demo_node ''a''))"
    if "EThread 2 (Got s w) \<in> set demo_joined" for s w
  proof -
    have "s = [[0, 0, 0, 1, 4]]" using that by (simp add: demo_joined_def)
    moreover have "snd (read_preamble (rc_loads demo_relay) [[0, 0, 0, 1, 4]]) = Inr (JObj (data_preamble demo_node ''a''))"
      by code_simp
    ultimately show ?thesis by simp
  qed
  have only: "m = 2" if "rl_datas st' m = Some (demo_node, ''a'')" for m
  proof -
    have "locals_ok st'" using relay_reach_ok [OF r' demo_relay_inj] by (simp add: relay_ok_def)
    then have "m < 3" using that st'(4) unfolding locals_ok_def by (metis insertI1 not_le option.distinct(1))
    moreover have "m \<noteq> 0" "m \<noteq> 1" using that st'(2,3) by (metis option.distinct(1))+
    ultimately show ?thesis by simp
  qed
  have "EThread 1 TimedOut \<notin> set demo_joined" "turns 2 demo_joined = 4" by (simp_all add: demo_joined_def turns_def)
  then show ?thesis
    using waiting_dial_is_joined [OF r demo_relay_inj st(2-4) run] reads only st'(5) r'
    by (intro exI [of _ st']) simp
qed

text \<open>When the wait times out as the data connection arrives, the relay closes the dial's socket although
  bytes are already being copied to it.\<close>

lemma timed_out_dial_closes_a_pipe:
  "\<exists>st. relay_reach demo_relay st \<and> pipe_runs st (2, 1) \<and> pipe_runs st (1, 2) \<and> rl_threads st 2 = Some Handed \<and>
     1 \<in> set (rl_down st) \<and> rl_ended st = []"
proof -
  let ?es = "demo_dialled @ [EThread 1 TimedOut, EThread 2 (demo_msg 4), EThread 2 Go, EThread 2 Go, EThread 2 Go, EThread 1 Go, EThread 1 Go]"
  have "case relay_run demo_relay ?es relay_start of None \<Rightarrow> False
     | Some st \<Rightarrow> (2, 1) \<in> set (rl_pipes st) \<and> (1, 2) \<in> set (rl_pipes st) \<and> rl_threads st 2 = Some Handed \<and> 1 \<in> set (rl_down st) \<and> rl_ended st = []"
    by code_simp
  then obtain st where st: "relay_run demo_relay ?es relay_start = Some st" "(2, 1) \<in> set (rl_pipes st)" "(1, 2) \<in> set (rl_pipes st)"
      "rl_threads st 2 = Some Handed" "1 \<in> set (rl_down st)" "rl_ended st = []"
    by (auto split: option.splits)
  show ?thesis using relay_reach_events [OF st(1)] st by (intro exI [of _ st]) (simp add: pipe_runs_def)
qed

text \<open>When the coordinator cannot be told, its entry stays in the table for ever.\<close>

lemma unannounced_dial_stays:
  "\<exists>st. relay_reach demo_relay st \<and> rl_pending st (demo_node, ''a'') = Some 1 \<and> rl_threads st 1 = Some Closed"
proof -
  let ?es = "take 8 demo_dialled @ [EThread 1 (Wrote False), EThread 1 Go]"
  have "case relay_run demo_relay ?es relay_start of None \<Rightarrow> False
     | Some st \<Rightarrow> rl_pending st (demo_node, ''a'') = Some 1 \<and> rl_threads st 1 = Some Closed"
    by code_simp
  then show ?thesis using relay_reach_events by (auto split: option.splits)
qed

end
