(* ===== verification/Batch_Layers.thy ===== *)
theory Batch_Layers
  imports Specdecode_Spec
begin

section \<open>A padded batch through the layers\<close>

text \<open>
  \<open>Stage.forward\<close> of \<open>engine/stage.py\<close> with a 2D padding mask: the prompts of a batch are padded on
  the left to one length, every row has its own position ids, and a token attends the cached
  columns of its row up to its own that the mask marks as real.  A column of the cache holds the
  entries of all the rows.  Seen through the mask every row is a sequence of its own: the real
  columns come out as the unpadded sequence would.
\<close>

subsection \<open>The marked part of a row\<close>

definition sel :: "bool list \<Rightarrow> 'a list \<Rightarrow> 'a list" where
  "sel m xs = map snd (filter fst (zip m xs))"

lemma sel_Nil [simp]: "sel m [] = []" "sel [] xs = []"
  by (simp_all add: sel_def)

lemma sel_Cons [simp]: "sel (b # m) (x # xs) = (if b then x # sel m xs else sel m xs)"
  by (simp add: sel_def)

lemma sel_append: "length xs \<le> length m \<Longrightarrow> sel m (xs @ ys) = sel (take (length xs) m) xs @ sel (drop (length xs) m) ys"
  by (simp add: sel_def zip_append2)

lemma sel_take: "length xs \<le> k \<Longrightarrow> sel (take k m) xs = sel m xs"
  using take_zip [of k m xs] by (simp add: sel_def)

lemma sel_more: "length xs \<le> length m \<Longrightarrow> sel (m @ m') xs = sel m xs"
  by (simp add: sel_def zip_append1)

lemma sel_map: "sel m (map f xs) = map f (sel m xs)"
  by (induction m xs rule: list_induct2') auto

lemma sel_all: "sel (replicate (length xs) True) xs = xs"
  by (induction xs) auto

lemma sel_none: "sel (replicate k False) xs = []"
  by (induction k arbitrary: xs) (auto simp: neq_Nil_conv split: list.splits intro: list.exhaust, metis list.exhaust sel_Cons sel_Nil(1))

lemma zip_sel: "length xs = length ys \<Longrightarrow> zip (sel m xs) (sel m ys) = sel m (zip xs ys)"
proof (induction xs ys arbitrary: m rule: list_induct2)
  case (Cons x xs y ys)
  then show ?case by (cases m) auto
qed simp

lemma length_sel: "length xs = length m \<Longrightarrow> length (sel m xs) = length (filter id m)"
  by (induction m xs rule: list_induct2') auto

subsection \<open>One row\<close>

fun row_layer ::
  "('e, 'h, 'l) model_ops \<Rightarrow> nat \<Rightarrow> 'e list \<Rightarrow> ('h \<times> nat) list \<Rightarrow> bool list \<Rightarrow> 'h list \<times> 'e list" where
  "row_layer M g cache [] attn = ([], cache)"
| "row_layer M g cache ((h, p) # xs) attn =
     (let cache' = cache @ [m_entry M g h p];
          out = m_layer M g (sel attn cache') h p
      in case row_layer M g cache' xs attn of (outs, c) \<Rightarrow> (out # outs, c))"

fun row_stage ::
  "('e, 'h, 'l) model_ops \<Rightarrow> nat list \<Rightarrow> 'e stage_kv \<Rightarrow> 'h list \<Rightarrow> nat list \<Rightarrow> bool list \<Rightarrow> 'h list \<times> 'e stage_kv" where
  "row_stage M [] kv hs ps attn = (hs, kv)"
| "row_stage M (g # gs) kv hs ps attn =
     (case row_layer M g (kv ! g) (zip hs ps) attn of
        (hs', c) \<Rightarrow> row_stage M gs (kv[g := c]) hs' ps attn)"

lemma row_layer_length:
  "length (fst (row_layer M g cache xs attn)) = length xs \<and> length (snd (row_layer M g cache xs attn)) = length cache + length xs"
  by (induction M g cache xs attn rule: row_layer.induct) (auto simp: Let_def split: prod.splits)

lemma row_layer_marked:
  assumes "length cache + length xs \<le> length attn"
  shows "layer_forward M g (sel attn cache) (sel (drop (length cache) attn) xs) =
    (sel (drop (length cache) attn) (fst (row_layer M g cache xs attn)), sel attn (snd (row_layer M g cache xs attn)))"
  using assms
proof (induction M g cache xs attn rule: row_layer.induct)
  case (2 M g cache h p xs attn)
  let ?c = "cache @ [m_entry M g h p]"
  obtain outs c where r: "row_layer M g ?c xs attn = (outs, c)" by fastforce
  have d: "drop (length cache) attn = attn ! length cache # drop (length ?c) attn"
    using 2(2) by (simp add: Cons_nth_drop_Suc)
  have s: "sel attn ?c = sel attn cache @ (if attn ! length cache then [m_entry M g h p] else [])"
    using sel_append [of cache attn "[m_entry M g h p]"] 2(2) d by (simp add: sel_take)
  have len: "length ?c + length xs \<le> length attn" using 2(2) by simp
  show ?case
    using "2.IH" [OF refl refl len] r s by (cases "attn ! length cache") (simp_all add: d Let_def)
qed simp

subsection \<open>The rows of a stage\<close>

definition marked :: "bool list \<Rightarrow> 'e stage_kv \<Rightarrow> 'e stage_kv" where
  "marked attn kv = map (sel attn) kv"

text \<open>The stage's own slots hold \<open>k\<close> columns.\<close>

definition row_ready :: "nat list \<Rightarrow> nat \<Rightarrow> 'e stage_kv \<Rightarrow> bool" where
  "row_ready gs k kv \<longleftrightarrow> distinct gs \<and> (\<forall>g \<in> set gs. g < length kv \<and> length (kv ! g) = k)"

lemma row_stage_shape:
  "length hs = length ps \<Longrightarrow> row_ready gs k kv \<Longrightarrow>
     length (fst (row_stage M gs kv hs ps attn)) = length hs \<and> row_ready gs (k + length hs) (snd (row_stage M gs kv hs ps attn)) \<and>
     length (snd (row_stage M gs kv hs ps attn)) = length kv \<and>
     (\<forall>g. g \<notin> set gs \<longrightarrow> snd (row_stage M gs kv hs ps attn) ! g = kv ! g)"
proof (induction M gs kv hs ps attn rule: row_stage.induct)
  case (2 M g gs kv hs ps attn)
  obtain hs' c where r: "row_layer M g (kv ! g) (zip hs ps) attn = (hs', c)" by fastforce
  have l: "length hs' = length hs" "length c = k + length hs"
    using row_layer_length [of M g "kv ! g" "zip hs ps" attn] r 2(2,3) by (simp_all add: row_ready_def)
  have ready: "row_ready gs k (kv[g := c])" using 2(3) by (auto simp: row_ready_def nth_list_update)
  note ih = 2(1) [OF r [symmetric] _ ready]
  have "length (snd (row_stage M gs (kv[g := c]) hs' ps attn) ! g) = k + length hs"
    using ih l 2(2,3) by (simp add: row_ready_def)
  then show ?case using ih l 2(2,3) r by (simp add: row_ready_def)
qed (simp add: row_ready_def)

lemma row_stage_marked:
  assumes "length hs = length ps" and "row_ready gs k kv" and "k + length hs \<le> length attn"
  shows "stage_forward M gs (marked attn kv) (sel (drop k attn) hs) (sel (drop k attn) ps) =
    (sel (drop k attn) (fst (row_stage M gs kv hs ps attn)), marked attn (snd (row_stage M gs kv hs ps attn)))"
  using assms
proof (induction M gs kv hs ps attn rule: row_stage.induct)
  case (2 M g gs kv hs ps attn)
  obtain hs' c where r: "row_layer M g (kv ! g) (zip hs ps) attn = (hs', c)" by fastforce
  have g: "g < length kv" "length (kv ! g) = k" using 2(3) by (simp_all add: row_ready_def)
  have len: "length (kv ! g) + length (zip hs ps) \<le> length attn" using g 2(2,4) by simp
  have f: "layer_forward M g (marked attn kv ! g) (zip (sel (drop k attn) hs) (sel (drop k attn) ps)) =
      (sel (drop k attn) hs', sel attn c)"
    using row_layer_marked [OF len, of M g] r g zip_sel [OF 2(2), of "drop k attn"] by (simp add: marked_def)
  have l: "length hs' = length hs" using row_layer_length [of M g "kv ! g" "zip hs ps" attn] r 2(2) by simp
  have ready: "row_ready gs k (kv[g := c])" using 2(3) by (auto simp: row_ready_def nth_list_update)
  have m: "(marked attn kv)[g := sel attn c] = marked attn (kv[g := c])" by (simp add: marked_def map_update)
  show ?case
    using 2(1) [OF r [symmetric] _ ready] l 2(2,4) f r m by simp
qed simp

subsection \<open>The whole batch\<close>

text \<open>A batched cache holds columns; \<open>row_kv\<close> is what a row sees of it.\<close>

definition row_kv :: "nat \<Rightarrow> 'e list stage_kv \<Rightarrow> 'e stage_kv" where
  "row_kv b kv = map (map (\<lambda>col. col ! b)) kv"

definition columns :: "'e stage_kv list \<Rightarrow> 'e list stage_kv" where
  "columns rows = map (\<lambda>l. transpose (map (\<lambda>kv. kv ! l) rows)) [0 ..< length (hd rows)]"

definition batch_stage ::
  "('e, 'h, 'l) model_ops \<Rightarrow> nat list \<Rightarrow> 'e list stage_kv \<Rightarrow> 'h list list \<Rightarrow> nat list list \<Rightarrow> bool list list \<Rightarrow>
   'h list list \<times> 'e list stage_kv" where
  "batch_stage M gs kv hs ps attn =
     (let rows = map (\<lambda>b. row_stage M gs (row_kv b kv) (hs ! b) (ps ! b) (attn ! b)) [0 ..< length hs]
      in (map fst rows, columns (map snd rows)))"

fun batch_stages ::
  "('e, 'h, 'l) model_ops \<Rightarrow> nat list list \<Rightarrow> 'e list stage_kv list \<Rightarrow> 'h list list \<Rightarrow> nat list list \<Rightarrow> bool list list \<Rightarrow>
   'h list list \<times> 'e list stage_kv list" where
  "batch_stages M (st # sts) (c # cs) hs ps attn =
     (case batch_stage M st c hs ps attn of
        (hs', c') \<Rightarrow> (case batch_stages M sts cs hs' ps attn of (out, cs') \<Rightarrow> (out, c' # cs')))"
| "batch_stages M _ cs hs ps attn = (hs, cs)"

text \<open>All rows have the same number of new columns, and the stage's slots \<open>k\<close> columns so far.\<close>

definition rect :: "nat \<Rightarrow> nat \<Rightarrow> 'a list list \<Rightarrow> bool" where
  "rect b t xss \<longleftrightarrow> length xss = b \<and> (\<forall>xs \<in> set xss. length xs = t)"

definition cols_ready :: "nat list \<Rightarrow> nat \<Rightarrow> nat \<Rightarrow> 'e list stage_kv \<Rightarrow> bool" where
  "cols_ready gs n k kv \<longleftrightarrow> distinct gs \<and> length kv = n \<and>
     (\<forall>g < n. length (kv ! g) = (if g \<in> set gs then k else 0)) \<and> (\<forall>g \<in> set gs. g < n)"

lemma rectD: "rect b t xss \<Longrightarrow> i < b \<Longrightarrow> length (xss ! i) = t"
  by (auto simp: rect_def)

lemma transpose_rect: "xss \<noteq> [] \<Longrightarrow> \<forall>xs \<in> set xss. length xs = k \<Longrightarrow> length (transpose xss) = k"
  by (subst transpose_rectangle [where n = k]) auto

lemma row_of_transpose:
  assumes "\<forall>xs \<in> set xss. length xs = k" and "b < length xss"
  shows "map (\<lambda>col. col ! b) (transpose xss) = xss ! b"
proof (rule nth_equalityI)
  have ne: "xss \<noteq> []" using assms(2) by auto
  have l: "length (transpose xss) = k" using transpose_rect [OF ne assms(1)] .
  then show "length (map (\<lambda>col. col ! b) (transpose xss)) = length (xss ! b)" using assms by simp
  fix i assume "i < length (map (\<lambda>col. col ! b) (transpose xss))"
  then have i: "i < k" using l by simp
  have "filter (\<lambda>ys. i < length ys) xss = xss" using assms(1) i by (auto intro: filter_True)
  then have "transpose xss ! i = map (\<lambda>xs. xs ! i) xss" using nth_transpose [of i xss] i l by simp
  then show "map (\<lambda>col. col ! b) (transpose xss) ! i = xss ! b ! i" using i l assms(2) by simp
qed

lemma row_ready_row: "cols_ready gs n k kv \<Longrightarrow> row_ready gs k (row_kv b kv) \<and> length (row_kv b kv) = n"
  by (auto simp: cols_ready_def row_ready_def row_kv_def)

lemma batch_stage_rows:
  assumes ready: "cols_ready gs n k kv" and rect: "rect B t hs" "rect B t ps" and B: "0 < B"
    and s: "batch_stage M gs kv hs ps attn = (out, kv')"
  shows "cols_ready gs n (k + t) kv' \<and> rect B t out \<and>
    (\<forall>b < B. row_stage M gs (row_kv b kv) (hs ! b) (ps ! b) (attn ! b) = (out ! b, row_kv b kv'))"
proof -
  define row where "row b = row_stage M gs (row_kv b kv) (hs ! b) (ps ! b) (attn ! b)" for b
  let ?rows = "map row [0 ..< B]"
  have out: "out = map fst ?rows" and kv': "kv' = columns (map snd ?rows)"
    using s rect(1) unfolding batch_stage_def Let_def row_def rect_def by auto
  have shape: "length (fst (row b)) = t \<and> row_ready gs (k + t) (snd (row b)) \<and> length (snd (row b)) = n \<and>
      (\<forall>g. g \<notin> set gs \<longrightarrow> snd (row b) ! g = row_kv b kv ! g)" if "b < B" for b
    using row_stage_shape [of "hs ! b" "ps ! b" gs k "row_kv b kv" M "attn ! b"] row_ready_row [OF ready, of b]
      rectD [OF rect(1) that] rectD [OF rect(2) that] by (simp add: row_def)
  have hd: "length (hd (map snd ?rows)) = n" using shape [OF B] B by (simp add: hd_map upt_rec)
  have slot: "length (snd (row b) ! g) = (if g \<in> set gs then k + t else 0)" if "b < B" "g < n" for b g
    using shape [OF that(1)] ready that(2) by (auto simp: row_ready_def cols_ready_def row_kv_def)
  have kv'_nth: "kv' ! g = transpose (map (\<lambda>b. snd (row b) ! g) [0 ..< B])" if "g < n" for g
    unfolding kv' columns_def hd using that by (simp add: o_def)
  have len: "length kv' = n" unfolding kv' columns_def hd by simp
  have "length (kv' ! g) = (if g \<in> set gs then k + t else 0)" if "g < n" for g
    unfolding kv'_nth [OF that] using B slot that by (intro transpose_rect) auto
  then have "cols_ready gs n (k + t) kv'" using ready len by (auto simp: cols_ready_def)
  moreover have "rect B t out" using shape by (auto simp: out rect_def)
  moreover have "row b = (out ! b, row_kv b kv')" if b: "b < B" for b
  proof -
    have "map (\<lambda>col. col ! b) (kv' ! g) = snd (row b) ! g" if g: "g < n" for g
    proof -
      have "\<forall>xs \<in> set (map (\<lambda>b. snd (row b) ! g) [0 ..< B]). length xs = (if g \<in> set gs then k + t else 0)"
        using slot g by auto
      from row_of_transpose [OF this, of b] show ?thesis using b kv'_nth [OF g] by simp
    qed
    then have "row_kv b kv' = snd (row b)"
      using shape [OF b] len by (intro nth_equalityI) (simp_all add: row_kv_def)
    then show ?thesis using b by (simp add: out prod_eq_iff)
  qed
  ultimately show ?thesis by (simp add: row_def)
qed

lemma batch_stages_rows:
  assumes "list_all2 (\<lambda>gs kv. cols_ready gs n k kv) sts kvs" and "rect B t hs" "rect B t ps" and "0 < B"
    and "\<forall>b < B. k + t \<le> length (attn ! b)" and "batch_stages M sts kvs hs ps attn = (out, kvs')"
  shows "list_all2 (\<lambda>gs kv. cols_ready gs n (k + t) kv) sts kvs' \<and> rect B t out \<and>
    (\<forall>b < B. stages_forward M sts (map (\<lambda>kv. marked (attn ! b) (row_kv b kv)) kvs)
       (sel (drop k (attn ! b)) (hs ! b)) (sel (drop k (attn ! b)) (ps ! b)) =
       (sel (drop k (attn ! b)) (out ! b), map (\<lambda>kv. marked (attn ! b) (row_kv b kv)) kvs'))"
  using assms
proof (induction sts kvs arbitrary: hs out kvs' rule: list_all2_induct)
  case Nil
  then show ?case by simp
next
  case (Cons gs sts kv kvs)
  obtain h1 kv1 where s1: "batch_stage M gs kv hs ps attn = (h1, kv1)" by fastforce
  obtain kvs1 where s2: "batch_stages M sts kvs h1 ps attn = (out, kvs1)" "kvs' = kv1 # kvs1"
    using Cons.prems(5) s1 by (auto split: prod.splits)
  note r1 = batch_stage_rows [OF Cons.hyps(1) Cons.prems(1,2,3) s1]
  note r2 = Cons.IH [OF _ Cons.prems(2,3,4) s2(1)]
  have "stage_forward M gs (marked (attn ! b) (row_kv b kv)) (sel (drop k (attn ! b)) (hs ! b)) (sel (drop k (attn ! b)) (ps ! b)) =
      (sel (drop k (attn ! b)) (h1 ! b), marked (attn ! b) (row_kv b kv1))" if b: "b < B" for b
    using row_stage_marked [of "hs ! b" "ps ! b" gs k "row_kv b kv" "attn ! b" M] row_ready_row [OF Cons.hyps(1), of b]
      rectD [OF Cons.prems(1) b] rectD [OF Cons.prems(2) b] Cons.prems(4) b r1 by simp
  then show ?case using r1 r2 s2(2) by simp
qed

end
