(* ===== verification/Batch.thy ===== *)
theory Batch
  imports Coordinator Batch_Layers
begin

section \<open>Batched decoding over static stages\<close>

text \<open>
  The batch path of \<open>engine/coordinator.py\<close>: \<open>_connect\<close> and \<open>_ensure_connected\<close> for the stages of a
  coordinator without a registry, \<open>_batch_inputs\<close>, \<open>_run_local_batch\<close>, \<open>_relay_batch\<close>,
  \<open>_reset_batch\<close>, \<open>generate_batch_stream\<close> and \<open>generate_batch\<close>.  A prompt is the list of its token ids;
  the tokenizer pads on the left.  The stages are named by their addresses.  Of the state that the
  coordinator shares with the mesh model, \<open>m_conns\<close> is the socket list, empty for \<open>None\<close>; what a later
  request would read from a socket on which an exchange failed is not modelled: it fails too.
\<close>

record ('e, 'l) batch_coord =
  bc_key :: bytes
  bc_local :: "'e stage_lib option"
  bc_addrs :: "string list"
  bc_embed :: "int list list \<Rightarrow> tensor"
  bc_ids :: "nat list list \<Rightarrow> tensor"
  bc_mask :: "bool list list \<Rightarrow> tensor"
  bc_i32 :: "tensor \<Rightarrow> tensor"
  bc_u8 :: "tensor \<Rightarrow> tensor"
  bc_logits :: "tensor \<Rightarrow> 'l list list"
  bc_argmax :: "'l \<Rightarrow> int"
  bc_eos :: "int set"
  bc_pad :: int

record 'e static =
  s_mesh :: "('e, unit) mesh"
  s_batches :: "(int, 'e stage_kv) dict"
  s_next :: int

subsection \<open>Sockets\<close>

text \<open>A contact stands for all the attempts that \<open>_connect\<close> makes until its deadline.\<close>

fun connect_all :: "'e mesh_env \<Rightarrow> string list \<Rightarrow> ('e, unit) mesh \<Rightarrow> ('e, unit) mesh \<times> unit result" where
  "connect_all E [] m = (m, Inr ())"
| "connect_all E (a # as) m =
     (let m1 = tick_contact m
      in if me_net E (m_contacts m) a = Refused \<or> map_of (m_workers m) a = None then (m1, Inl OSError)
         else connect_all E as m1)"

definition ensure_connected :: "'e mesh_env \<Rightarrow> string list \<Rightarrow> ('e, unit) mesh \<Rightarrow> ('e, unit) mesh \<times> unit result" where
  "ensure_connected E addrs m =
     (if m_conns m \<noteq> [] then (m, Inr ())
      else case connect_all E addrs m of
             (m1, Inl e) \<Rightarrow> (m1, Inl e)
           | (m1, Inr _) \<Rightarrow> (m1\<lparr>m_conns := map (\<lambda>a. (a, True)) addrs\<rparr>, Inr ()))"

subsection \<open>Inputs\<close>

definition pad_rows :: "int \<Rightarrow> int list list \<Rightarrow> int list list \<times> bool list list" where
  "pad_rows pad prompts =
     (let p = foldl (\<lambda>k ids. max k (length ids)) 0 prompts
      in (map (\<lambda>ids. replicate (p - length ids) pad @ ids) prompts,
          map (\<lambda>ids. replicate (p - length ids) False @ replicate (length ids) True) prompts))"

text \<open>\<open>(attn.cumsum(-1) - 1).clamp(min=0)\<close> and \<open>attn.sum(-1)\<close>.\<close>

definition row_positions :: "bool list \<Rightarrow> nat list" where
  "row_positions row = map (\<lambda>j. length (filter id (take (Suc j) row)) - 1) [0 ..< length row]"

definition row_length :: "bool list \<Rightarrow> nat" where
  "row_length row = length (filter id row)"

subsection \<open>Relaying a batch\<close>

definition run_local_batch ::
  "'e stage_lib \<Rightarrow> int \<Rightarrow> int \<Rightarrow> tensor \<Rightarrow> tensor \<Rightarrow> tensor \<Rightarrow> 'e static \<Rightarrow> 'e static \<times> tensor result" where
  "run_local_batch L bid pos hidden ids attn st =
     (let c = (case map_of (s_batches st) bid of
                 None \<Rightarrow> replicate (sl_slots L) []
               | Some kv \<Rightarrow> if pos = 0 then replicate (sl_slots L) [] else kv)
      in case sl_forward L (Padded ids attn) hidden c of
           (c', r) \<Rightarrow> (st\<lparr>s_batches := dset bid c' (s_batches st)\<rparr>, r))"

definition batch_hop ::
  "'e mesh_env \<Rightarrow> ('e, 'l) batch_coord \<Rightarrow> int \<Rightarrow> int \<Rightarrow> tensor \<Rightarrow> tensor \<Rightarrow> string \<Rightarrow> tensor \<Rightarrow> ('e, unit) mesh \<Rightarrow>
   ('e, unit) mesh \<times> tensor result" where
  "batch_hop E C bid pos ids attn a hidden m =
     (case pack_batch_activation (bc_i32 C) (bc_u8 C) bid pos hidden ids attn FLAG_NONE of
        Inl e \<Rightarrow> (m, Inl e)
      | Inr body \<Rightarrow>
          (case request E a (bc_key C) (msg_code BATCH_ACTIVATION) body m of
             (m1, Inl e) \<Rightarrow> (m1\<lparr>m_conns := dmod a (\<lambda>_. False) (m_conns m1)\<rparr>, Inl e)
           | (m1, Inr rep) \<Rightarrow> (m1, result_hidden rep)))"

fun batch_star ::
  "'e mesh_env \<Rightarrow> ('e, 'l) batch_coord \<Rightarrow> int \<Rightarrow> int \<Rightarrow> tensor \<Rightarrow> tensor \<Rightarrow> string list \<Rightarrow> tensor \<Rightarrow> ('e, unit) mesh \<Rightarrow>
   ('e, unit) mesh \<times> tensor result" where
  "batch_star E C bid pos ids attn [] hidden m = (m, Inr hidden)"
| "batch_star E C bid pos ids attn (a # as) hidden m =
     (case batch_hop E C bid pos ids attn a hidden m of
        (m1, Inl e) \<Rightarrow> (m1, Inl e)
      | (m1, Inr h) \<Rightarrow> batch_star E C bid pos ids attn as h m1)"

definition relay_batch ::
  "'e mesh_env \<Rightarrow> ('e, 'l) batch_coord \<Rightarrow> int \<Rightarrow> int \<Rightarrow> tensor \<Rightarrow> tensor \<Rightarrow> tensor \<Rightarrow> 'e static \<Rightarrow> 'e static \<times> tensor result" where
  "relay_batch E C bid pos hidden ids attn st =
     (case (case bc_local C of None \<Rightarrow> (st, Inr hidden) | Some L \<Rightarrow> run_local_batch L bid pos hidden ids attn st) of
        (st1, Inl e) \<Rightarrow> (st1, Inl e)
      | (st1, Inr h) \<Rightarrow>
          (case ensure_connected E (bc_addrs C) (s_mesh st1) of
             (m1, Inl e) \<Rightarrow> (st1\<lparr>s_mesh := m1\<rparr>, Inl e)
           | (m1, Inr _) \<Rightarrow>
               (case batch_star E C bid pos ids attn (bc_addrs C) h m1 of (m2, r) \<Rightarrow> (st1\<lparr>s_mesh := m2\<rparr>, r))))"

text \<open>A write that fails is passed over.\<close>

fun send_all :: "'e mesh_env \<Rightarrow> bytes \<Rightarrow> bytes \<Rightarrow> string list \<Rightarrow> ('e, unit) mesh \<Rightarrow> ('e, unit) mesh" where
  "send_all E key body [] m = m"
| "send_all E key body (a # as) m = send_all E key body as (fst (send_frame E a key (msg_code KV_CTRL) body m))"

definition reset_batch :: "'e mesh_env \<Rightarrow> ('e, 'l) batch_coord \<Rightarrow> int \<Rightarrow> 'e static \<Rightarrow> 'e static" where
  "reset_batch E C bid st =
     (let st1 = st\<lparr>s_batches := dpop bid (s_batches st)\<rparr>
      in case kv_frame (bid AND 0xFFFFFFFF) KVOP_FREE 0 of
           Inl _ \<Rightarrow> st1
         | Inr body \<Rightarrow> st1\<lparr>s_mesh := send_all E (bc_key C) body (map fst (m_conns (s_mesh st))) (s_mesh st)\<rparr>)"

subsection \<open>The decode loop\<close>

text \<open>What a row yields for its next token: \<open>(done, count)\<close> and at most one token.\<close>

definition emit_row :: "bool \<Rightarrow> int set \<Rightarrow> int \<Rightarrow> int \<Rightarrow> bool \<times> int \<Rightarrow> (bool \<times> int) \<times> int list" where
  "emit_row stop eos cap tok row =
     (let (fin, count) = row
      in if fin \<or> cap \<le> count then ((True, count), [])
         else if stop \<and> tok \<in> eos then ((True, count), [])
         else ((cap \<le> count + 1, count + 1), [tok]))"

definition emit ::
  "bool \<Rightarrow> int set \<Rightarrow> int list \<Rightarrow> int list \<Rightarrow> (bool \<times> int) list \<Rightarrow> (bool \<times> int) list \<times> (nat \<times> int) list" where
  "emit stop eos caps toks rows =
     (let rs = map (\<lambda>(cap, tok, row). emit_row stop eos cap tok row) (zip caps (zip toks rows))
      in (map fst rs, concat (map (\<lambda>(b, r). map (Pair b) (snd r)) (enumerate 0 rs))))"

definition next_tokens :: "('e, 'l) batch_coord \<Rightarrow> tensor \<Rightarrow> int list" where
  "next_tokens C h = map (\<lambda>row. bc_argmax C (last row)) (bc_logits C h)"

fun batch_loop ::
  "'e mesh_env \<Rightarrow> ('e, 'l) batch_coord \<Rightarrow> bool \<Rightarrow> int \<Rightarrow> int list \<Rightarrow> nat list \<Rightarrow> bool list list \<Rightarrow> nat list \<Rightarrow> int list \<Rightarrow>
   (bool \<times> int) list \<Rightarrow> 'e static \<Rightarrow> 'e static \<times> (nat \<times> int) list \<times> unit result" where
  "batch_loop E C stop bid caps [] attn lengths nxt rows st = (st, [], Inr ())"
| "batch_loop E C stop bid caps (step # steps) attn lengths nxt rows st =
     (if list_all fst rows then (st, [], Inr ())
      else
        (let attn' = map (\<lambda>r. r @ [True]) attn
         in case relay_batch E C bid (int step + 1) (bc_embed C (map (\<lambda>t. [t]) nxt)) (bc_ids C (map (\<lambda>l. [l]) lengths))
                (bc_mask C attn') st of
              (st1, Inl e) \<Rightarrow> (st1, [], Inl e)
            | (st1, Inr h) \<Rightarrow>
                (let nxt' = next_tokens C h; (rows', ev) = emit stop (bc_eos C) caps nxt' rows
                 in case batch_loop E C stop bid caps steps attn' (map Suc lengths) nxt' rows' st1 of
                      (st2, evs, r) \<Rightarrow> (st2, ev @ evs, r))))"

text \<open>The tokens in the order they are yielded, with their rows, and how the generator ends.\<close>

definition generate_batch_stream ::
  "'e mesh_env \<Rightarrow> ('e, 'l) batch_coord \<Rightarrow> bool \<Rightarrow> int list list \<Rightarrow> int list \<Rightarrow> 'e static \<Rightarrow>
   'e static \<times> (nat \<times> int) list \<times> unit result" where
  "generate_batch_stream E C stop prompts caps st =
     (let bid = s_next st; (ids, attn) = pad_rows (bc_pad C) prompts
      in case relay_batch E C bid 0 (bc_embed C ids) (bc_ids C (map row_positions attn)) (bc_mask C attn)
             (st\<lparr>s_next := bid + 1\<rparr>) of
           (st1, Inl e) \<Rightarrow> (reset_batch E C bid st1, [], Inl e)
         | (st1, Inr h) \<Rightarrow>
             (let nxt = next_tokens C h;
                  (rows, ev) = emit stop (bc_eos C) caps nxt (replicate (length prompts) (False, 0))
              in case batch_loop E C stop bid caps [0 ..< nat (Max (set caps) - 1)] attn (map row_length attn) nxt rows st1 of
                   (st2, evs, r) \<Rightarrow> (reset_batch E C bid st2, ev @ evs, r)))"

definition row_tokens :: "nat \<Rightarrow> (nat \<times> int) list \<Rightarrow> int list" where
  "row_tokens b evs = map snd (filter (\<lambda>e. fst e = b) evs)"

definition generate_batch ::
  "'e mesh_env \<Rightarrow> ('e, 'l) batch_coord \<Rightarrow> bool \<Rightarrow> int list list \<Rightarrow> int list \<Rightarrow> 'e static \<Rightarrow> 'e static \<times> int list list result" where
  "generate_batch E C stop prompts caps st =
     (case generate_batch_stream E C stop prompts caps st of
        (st1, evs, r) \<Rightarrow> (st1, bindE r (\<lambda>_. Inr (map (\<lambda>b. row_tokens b evs) [0 ..< length prompts]))))"

end
