(* ===== verification/Batch_Spec.thy ===== *)
theory Batch_Spec
  imports Batch Generation_Spec
begin

section \<open>A batch is its prompts one by one\<close>

text \<open>
  Decoding a padded batch through the stages yields, row by row, what every prompt yields alone:
  the whole model's greedy continuation up to its first end token and its own cap.
\<close>

subsection \<open>Padding\<close>

lemma row_positions_append:
  "row_positions (row @ [b]) = row_positions row @ [length (filter id (row @ [b])) - 1]"
  by (simp add: row_positions_def)

lemma row_positions_marked: "sel row (row_positions row) = [0 ..< length (filter id row)]"
proof (induction row rule: rev_induct)
  case (snoc b row)
  have l: "length (row_positions row) = length row" by (simp add: row_positions_def)
  have "sel (row @ [b]) (row_positions row @ [x]) = sel row (row_positions row) @ (if b then [x] else [])" for x
    using sel_append [of "row_positions row" "row @ [b]" "[x]"] by (simp add: l)
  then show ?case using snoc by (simp add: row_positions_append id_def)
qed (simp add: row_positions_def)

lemma row_length_marked: "row_length row = length (filter id row)"
  by (simp add: row_length_def)

lemma foldl_max_ge: "(k :: nat) \<le> foldl (\<lambda>k ids. max k (length ids)) k xss \<and> (\<forall>xs \<in> set xss. length xs \<le> foldl (\<lambda>k ids. max k (length ids)) k xss)"
proof (induction xss arbitrary: k)
  case (Cons x xss)
  from Cons [of "max k (length x)"] show ?case by auto
qed simp

lemma foldl_max_le: "(k :: nat) \<le> l \<Longrightarrow> \<forall>xs \<in> set xss. length xs \<le> l \<Longrightarrow> foldl (\<lambda>k ids. max k (length ids)) k xss \<le> l"
  by (induction xss arbitrary: k) auto

text \<open>Every row of the padded batch ends with its prompt, marked.\<close>

lemma pad_rows_rect:
  assumes "pad_rows pad prompts = (ids, attn)"
  shows "\<exists>t. rect (length prompts) t ids \<and> rect (length prompts) t attn \<and> (\<forall>l. (\<forall>p \<in> set prompts. length p \<le> l) \<longrightarrow> t \<le> l) \<and>
    (\<forall>b < length prompts. length (prompts ! b) \<le> t \<and> sel (attn ! b) (ids ! b) = prompts ! b \<and> length (filter id (attn ! b)) = length (prompts ! b) \<and>
      (prompts ! b \<noteq> [] \<longrightarrow> last (attn ! b)))"
proof -
  define t where "t = foldl (\<lambda>k ids. max k (length ids)) 0 prompts"
  have le: "length (prompts ! b) \<le> t" if "b < length prompts" for b
    using foldl_max_ge [of 0 prompts] that by (simp add: t_def)
  have ids: "ids = map (\<lambda>ids. replicate (t - length ids) pad @ ids) prompts"
    and attn: "attn = map (\<lambda>ids. replicate (t - length ids) False @ replicate (length ids) True) prompts"
    using assms by (simp_all add: pad_rows_def t_def Let_def)
  have "sel (replicate k False @ replicate (length xs) True) (replicate k pad @ xs) = xs" for k xs
    using sel_append [of "replicate k pad" "replicate k False @ replicate (length xs) True" xs] sel_all [of xs] sel_none [of k "replicate k pad"]
    by simp
  then have "sel (attn ! b) (ids ! b) = prompts ! b" if "b < length prompts" for b using that by (simp add: ids attn)
  moreover have "rect (length prompts) t ids \<and> rect (length prompts) t attn"
    using foldl_max_ge [of 0 prompts] by (auto simp: rect_def ids attn t_def)
  moreover have "length (filter id (attn ! b)) = length (prompts ! b) \<and> (prompts ! b \<noteq> [] \<longrightarrow> last (attn ! b))" if "b < length prompts" for b
    using that by (simp add: attn)
  moreover have "\<forall>p \<in> set prompts. length p \<le> l \<Longrightarrow> t \<le> l" for l unfolding t_def by (rule foldl_max_le) simp_all
  ultimately show ?thesis using le by blast
qed

subsection \<open>A worker and a batch\<close>

text \<open>Tensors of at most \<open>room\<close> scalars fit a frame.\<close>

definition batch_rep :: "nat \<Rightarrow> ('a list list \<Rightarrow> tensor) \<Rightarrow> bool" where
  "batch_rep room enc \<longleftrightarrow> (\<forall>b t xss. rect b t xss \<and> 0 < b \<and> 0 < t \<and> b * t \<le> room \<longrightarrow>
     tensor_ok (enc xss) \<and> (\<exists>p. pack_tensor (enc xss) = Inr p \<and> length p < 2 ^ 32))"

text \<open>A step of \<open>t\<close> columns for \<open>b\<close> rows after \<open>k\<close> columns, positions inside the row.\<close>

definition batch_shape :: "nat \<Rightarrow> nat \<Rightarrow> nat \<Rightarrow> nat \<Rightarrow> 'h list list \<Rightarrow> nat list list \<Rightarrow> bool list list \<Rightarrow> bool" where
  "batch_shape room b t k hs ps attn \<longleftrightarrow> rect b t hs \<and> rect b t ps \<and> rect b (k + t) attn \<and> 0 < b \<and> 0 < t \<and>
     b * (k + t) \<le> room \<and> (\<forall>row \<in> set ps. \<forall>p \<in> set row. p < k + t)"

definition batch_serves ::
  "('e, 'h, 'l) model_ops \<Rightarrow> nat \<Rightarrow> nat \<Rightarrow> ('h list list \<Rightarrow> tensor) \<Rightarrow> (nat list list \<Rightarrow> tensor) \<Rightarrow> (bool list list \<Rightarrow> tensor) \<Rightarrow>
   nat list \<Rightarrow> 'e list stage_lib \<Rightarrow> bool" where
  "batch_serves M n room enc ei em gs L \<longleftrightarrow> sl_slots L = n \<and>
     (\<forall>hs ps attn c b t k. batch_shape room b t k hs ps attn \<and> length c = n \<longrightarrow>
        sl_forward L (Padded (ei ps) (em attn)) (enc hs) c =
          (case batch_stage M gs c hs ps attn of (o1, c') \<Rightarrow> (c', Inr (enc o1))))"

lemma batch_serves_step: "batch_serves M n room enc ei em gs L \<Longrightarrow> batch_shape room b t k hs ps attn \<Longrightarrow> length c = n \<Longrightarrow>
    batch_stage M gs c hs ps attn = (o1, c') \<Longrightarrow> sl_forward L (Padded (ei ps) (em attn)) (enc hs) c = (c', Inr (enc o1))"
  unfolding batch_serves_def by fastforce

lemma pack_sized_rep: "batch_rep room enc \<Longrightarrow> rect b t xss \<Longrightarrow> 0 < b \<Longrightarrow> 0 < t \<Longrightarrow> b * t \<le> room \<Longrightarrow>
    tensor_ok (enc xss) \<and> (\<exists>q p. pack_sized (enc xss) = Inr q \<and> pack_tensor (enc xss) = Inr p)"
  unfolding batch_rep_def pack_sized_def by (fastforce simp: pack_uint_def)

lemma pack_batch_rep:
  assumes "batch_rep room enc" "batch_rep room (\<lambda>x. i32 (ei x))" "batch_rep room (\<lambda>x. u8 (em x))"
    and "rect b t hs" "rect b t ps" "rect b t' attn" "0 < b" "0 < t" "0 < t'" "b * t \<le> room" "b * t' \<le> room"
  shows "\<exists>body. pack_batch_activation i32 u8 s p (enc hs) (ei ps) (em attn) FLAG_NONE = Inr body"
proof -
  have "\<exists>h. activation_head s p FLAG_NONE = Inr h"
    by (simp add: activation_head_def pack_uint_def FLAG_NONE_def)
  then show ?thesis
    using pack_sized_rep [OF assms(1,4,7,8,10)] pack_sized_rep [OF assms(2,5,7,8,10)] pack_sized_rep [OF assms(3,6,7,9,11)]
    by (auto simp: pack_batch_activation_def pack_three_def)
qed

lemma pack_activation_batch:
  assumes "batch_rep room enc" "rect b t hs" "0 < b" "0 < t" "b * t \<le> room"
  shows "tensor_ok (enc hs) \<and> (\<exists>body. pack_activation s p (enc hs) FLAG_NONE = Inr body)"
proof -
  have "\<exists>h. activation_head s p FLAG_NONE = Inr h"
    by (simp add: activation_head_def pack_uint_def FLAG_NONE_def)
  then show ?thesis using pack_sized_rep [OF assms] by (auto simp: pack_activation_def)
qed

lemma worker_batch:
  assumes L: "batch_serves M n room enc (\<lambda>x. i32 (ei x)) (\<lambda>x. u8 (em x)) gs L"
    and rep: "batch_rep room enc" "batch_rep room (\<lambda>x. i32 (ei x))" "batch_rep room (\<lambda>x. u8 (em x))"
    and bshape: "batch_shape room b t k hs ps attn"
    and ids: "id_ok bid" "id_ok (int pos)" and c: "cached n pos bid w c" "cols_ready gs n k c"
    and body: "pack_batch_activation i32 u8 bid (int pos) (enc hs) (ei ps) (em attn) FLAG_NONE = Inr body"
    and f: "batch_stage M gs c hs ps attn = (o1, c')"
  shows "answers L enc (msg_code BATCH_ACTIVATION) body w bid o1 c' TYPE('net)"
  unfolding answers_def
proof (intro allI)
  fix P :: "'net peers" and now net
  have shape: "rect b t hs" "rect b t ps" "rect b (k + t) attn" "0 < b" "0 < t" "0 < k + t" "b * t \<le> room" "b * (k + t) \<le> room"
    using bshape unfolding batch_shape_def by (simp_all, metis add.commute le_add1 le_trans mult_le_mono2)
  have r: "rect b t o1" using batch_stage_rows [OF c(2) shape(1,2,4) f] by simp
  have lc: "length c = n" using c(2) by (simp add: cols_ready_def)
  have oks: "tensor_ok (enc hs)" "tensor_ok (i32 (ei ps))" "tensor_ok (u8 (em attn))"
    using pack_sized_rep [OF rep(1) shape(1,4,5,7)] pack_sized_rep [OF rep(2) shape(2,4,5,7)]
      pack_sized_rep [OF rep(3) shape(3,4,6,8)] by simp_all
  have u: "unpack_batch_activation body = Inr (bid, int pos, FLAG_NONE, [enc hs, i32 (ei ps), u8 (em attn)])"
    using three_roundtrip [OF body [unfolded pack_batch_activation_def] oks] ids by (simp add: unpack_batch_activation_def id_ok_def)
  obtain body' where b': "pack_activation bid (int pos) (enc o1) FLAG_NONE = Inr body'"
    using pack_activation_batch [OF rep(1) r shape(4,5,7)] by blast
  have "tensor_ok (enc o1)" using pack_activation_batch [OF rep(1) r shape(4,5,7)] by blast
  then have u': "unpack_activation body' = Inr (bid, int pos, FLAG_NONE, enc o1)"
    using activation_roundtrip [OF _ b'] ids by (simp add: id_ok_def)
  have fwd: "sl_forward L (Padded (i32 (ei ps)) (u8 (em attn))) (enc hs) c = (c', Inr (enc o1))"
    by (rule batch_serves_step [OF L bshape lc f])
  have gc: "get_cache (sl_slots L) bid (int pos) now w =
      (c, w\<lparr>w_sessions := dset bid c (w_sessions w), w_touch := dset bid now (w_touch w)\<rparr>)"
    using get_cache_cached [OF c(1)] L by (simp add: batch_serves_def)
  define w' where "w' = put_cache bid c' (w\<lparr>w_sessions := dset bid c (w_sessions w), w_touch := dset bid now (w_touch w)\<rparr>)"
  have "handle_batch L now body w = (w', Reply (msg_code RESULT) body')"
    unfolding handle_batch_def u run_stage_def using gc fwd b' by (simp add: reply_activation_def w'_def)
  moreover have "msg_of_code (msg_code BATCH_ACTIVATION) = Some BATCH_ACTIVATION" by (rule msg_of_code_of)
  ultimately have "handle_frame L P now (msg_code BATCH_ACTIVATION) body w [] net = (w', [], net, Reply (msg_code RESULT) body')"
    by (simp add: handle_frame_def)
  moreover have "map_of (w_sessions w') bid = Some c'" by (simp add: w'_def put_cache_def dict_simps)
  moreover have "result_hidden (msg_code RESULT, body') = Inr (enc o1)" using u' by (simp add: result_hidden_def)
  ultimately show "\<exists>w' body'. handle_frame L P now (msg_code BATCH_ACTIVATION) body w [] net = (w', [], net, Reply (msg_code RESULT) body') \<and>
      result_hidden (msg_code RESULT, body') = Inr (enc o1) \<and> map_of (w_sessions w') bid = Some c'" by blast
qed

subsection \<open>The stages\<close>

definition stages_at :: "nat \<Rightarrow> nat \<Rightarrow> int \<Rightarrow> ('e list, unit) mesh \<Rightarrow> string list \<Rightarrow> 'e list stage_kv list \<Rightarrow> bool" where
  "stages_at n pos bid m addrs cs \<longleftrightarrow>
     list_all2 (\<lambda>a c. \<exists>w. map_of (m_workers m) a = Some w \<and> cached n pos bid w c) addrs cs"

definition stages_hold :: "int \<Rightarrow> ('e list, unit) mesh \<Rightarrow> string list \<Rightarrow> 'e list stage_kv list \<Rightarrow> bool" where
  "stages_hold bid m addrs cs \<longleftrightarrow>
     list_all2 (\<lambda>a c. \<exists>w. map_of (m_workers m) a = Some w \<and> map_of (w_sessions w) bid = Some c) addrs cs"

lemma stages_frame:
  assumes "workers_frame A m m'" and "A \<inter> set addrs = {}"
  shows "stages_at n pos bid m' addrs cs = stages_at n pos bid m addrs cs" "stages_hold bid m' addrs cs = stages_hold bid m addrs cs"
proof -
  have same: "map_of (m_workers m') a = map_of (m_workers m) a" if "a \<in> set addrs" for a
    using assms that by (auto simp: workers_frame_def)
  have "list_all2 (\<lambda>a c. \<exists>w. map_of (m_workers m') a = Some w \<and> Q w c) addrs cs =
      list_all2 (\<lambda>a c. \<exists>w. map_of (m_workers m) a = Some w \<and> Q w c) addrs cs" for Q
    by (rule list.rel_cong) (simp_all add: same)
  then show "stages_at n pos bid m' addrs cs = stages_at n pos bid m addrs cs" "stages_hold bid m' addrs cs = stages_hold bid m addrs cs"
    by (simp_all add: stages_at_def stages_hold_def)
qed

text \<open>The stages of a static coordinator: keys, layers, and workers that exist.\<close>

definition stages_good ::
  "'e list mesh_env \<Rightarrow> ('e list, 'l) batch_coord \<Rightarrow> ('e, 'h, 'l) model_ops \<Rightarrow> nat \<Rightarrow> nat \<Rightarrow> ('h list list \<Rightarrow> tensor) \<Rightarrow>
   (string \<Rightarrow> nat list) \<Rightarrow> string list \<Rightarrow> bool" where
  "stages_good E C M n room enc lay addrs \<longleftrightarrow> distinct addrs \<and>
     (\<forall>a \<in> set addrs. me_key E a = bc_key C \<and>
        batch_serves M n room enc (\<lambda>x. bc_i32 C (bc_ids C x)) (\<lambda>x. bc_u8 C (bc_mask C x)) (lay a) (me_lib E a))"

definition reps_ok :: "('e list, 'l) batch_coord \<Rightarrow> ('h list list \<Rightarrow> tensor) \<Rightarrow> nat \<Rightarrow> bool" where
  "reps_ok C enc room \<longleftrightarrow> batch_rep room enc \<and> batch_rep room (\<lambda>x. bc_i32 C (bc_ids C x)) \<and>
     batch_rep room (\<lambda>x. bc_u8 C (bc_mask C x))"

lemma batch_hop_ok:
  fixes m :: "('e list, unit) mesh"
  assumes good: "stages_good E C M n room enc lay [a]" and reps: "reps_ok C enc room"
    and shape: "batch_shape room b t k hs ps attn" and ids: "id_ok bid" "id_ok (int pos)"
    and w: "map_of (m_workers m) a = Some w" and c: "cached n pos bid w c" "cols_ready (lay a) n k c"
    and f: "batch_stage M (lay a) c hs ps attn = (o1, c')"
    and x: "batch_hop E C bid (int pos) (bc_ids C ps) (bc_mask C attn) a (enc hs) m = (m', r)"
  shows "workers_frame {a} m m' \<and> map fst (m_conns m') = map fst (m_conns m) \<and>
    (quiet_net E \<and> conns_open m \<longrightarrow> conns_open m' \<and> (\<exists>h. r = Inr h)) \<and>
    (\<forall>h. r = Inr h \<longrightarrow> h = enc o1 \<and> (\<exists>w'. map_of (m_workers m') a = Some w' \<and> map_of (w_sessions w') bid = Some c'))"
proof -
  have L: "batch_serves M n room enc (\<lambda>x. bc_i32 C (bc_ids C x)) (\<lambda>x. bc_u8 C (bc_mask C x)) (lay a) (me_lib E a)"
    and key: "bc_key C = me_key E a" using good by (simp_all add: stages_good_def)
  note rep = reps [unfolded reps_ok_def]
  note sh = shape [unfolded batch_shape_def]
  have le: "b * t \<le> room" using sh by (metis add.commute le_add1 le_trans mult_le_mono2)
  have pos: "0 < k + t" using sh by simp
  obtain body where body: "pack_batch_activation (bc_i32 C) (bc_u8 C) bid (int pos) (enc hs) (bc_ids C ps) (bc_mask C attn) FLAG_NONE = Inr body"
    using pack_batch_rep [of room enc "bc_i32 C" "bc_ids C" "bc_u8 C" "bc_mask C" b t hs ps "k + t" attn bid "int pos"] rep sh le pos by blast
  have a: "answers (me_lib E a) enc (msg_code BATCH_ACTIVATION) body w bid o1 c' TYPE(('e list, unit) mesh)"
    using worker_batch [OF L _ _ _ shape ids c body f] rep by blast
  obtain m1 r1 where q: "request E a (bc_key C) (msg_code BATCH_ACTIVATION) body m = (m1, r1)" by fastforce
  have m': "(m', r) = (case r1 of Inl e \<Rightarrow> (m1\<lparr>m_conns := dmod a (\<lambda>_. False) (m_conns m1)\<rparr>, Inl e) | Inr rep \<Rightarrow> (m1, result_hidden rep))"
    using x body q by (auto simp: batch_hop_def split: sum.splits)
  show ?thesis
  proof (cases "map_of (m_conns m) a = Some False")
    case True
    then have "m1 = tick_contact m" "r1 = Inl OSError" using q by (simp_all add: request_def)
    then show ?thesis using m' True by (auto simp: tick_contact_def workers_frame_def conns_open_def)
  next
    case False
    then have "exchange (Suc 256) E a (bc_key C) (msg_code BATCH_ACTIVATION) body m = (m1, r1)"
      using q by (simp add: request_def max_chain_def del: exchange.simps)
    note ex = exchange_answer [OF w key a this]
    show ?thesis
    proof (cases r1)
      case (Inl e)
      then show ?thesis using ex m' by (auto simp: quiet_net_def workers_frame_def)
    next
      case (Inr rep)
      then show ?thesis using ex m' by (auto simp: conns_open_def)
    qed
  qed
qed

lemma batch_star_ok:
  fixes m :: "('e list, unit) mesh"
  assumes "stages_good E C M n room enc lay addrs" and "reps_ok C enc room"
    and "batch_shape room b t k hs ps attn" and "id_ok bid" "id_ok (int pos)"
    and "stages_at n pos bid m addrs cs" and "list_all2 (\<lambda>a c. cols_ready (lay a) n k c) addrs cs"
    and "batch_stages M (map lay addrs) cs hs ps attn = (o1, cs')"
    and "batch_star E C bid (int pos) (bc_ids C ps) (bc_mask C attn) addrs (enc hs) m = (m', r)"
  shows "workers_frame (set addrs) m m' \<and> map fst (m_conns m') = map fst (m_conns m) \<and>
    (quiet_net E \<and> conns_open m \<longrightarrow> conns_open m' \<and> (\<exists>h. r = Inr h)) \<and>
    (\<forall>h. r = Inr h \<longrightarrow> h = enc o1 \<and> stages_hold bid m' addrs cs')"
  using assms
proof (induction addrs arbitrary: hs m cs cs')
  case Nil
  then show ?case by (auto simp: stages_at_def stages_hold_def)
next
  case (Cons a as)
  obtain c cs1 where cs: "cs = c # cs1" using Cons.prems(6) by (auto simp: stages_at_def list_all2_Cons1)
  obtain w where w: "map_of (m_workers m) a = Some w" "cached n pos bid w c" and rest: "stages_at n pos bid m as cs1"
    using Cons.prems(6) cs by (auto simp: stages_at_def)
  have ready: "cols_ready (lay a) n k c" "list_all2 (\<lambda>a c. cols_ready (lay a) n k c) as cs1" using Cons.prems(7) cs by auto
  have good: "stages_good E C M n room enc lay [a]" "stages_good E C M n room enc lay as" and new: "a \<notin> set as"
    using Cons.prems(1) by (simp_all add: stages_good_def)
  obtain h1 c1 where s1: "batch_stage M (lay a) c hs ps attn = (h1, c1)" by fastforce
  obtain cs2 where s2: "batch_stages M (map lay as) cs1 h1 ps attn = (o1, cs2)" "cs' = c1 # cs2"
    using Cons.prems(8) s1 cs by (auto split: prod.splits)
  obtain m1 r1 where hop: "batch_hop E C bid (int pos) (bc_ids C ps) (bc_mask C attn) a (enc hs) m = (m1, r1)" by fastforce
  note h = batch_hop_ok [OF good(1) Cons.prems(2-5) w ready(1) s1 hop]
  have shape: "batch_shape room b t k h1 ps attn"
    using batch_stage_rows [OF ready(1) _ _ _ s1] Cons.prems(3) unfolding batch_shape_def by blast
  show ?case
  proof (cases r1)
    case (Inl e)
    then show ?thesis using h hop Cons.prems(9) by (auto simp: workers_frame_def)
  next
    case (Inr x)
    then have x: "x = enc h1" "batch_star E C bid (int pos) (bc_ids C ps) (bc_mask C attn) as (enc h1) m1 = (m', r)"
      using h hop Cons.prems(9) by auto
    have at: "stages_at n pos bid m1 as cs1" using stages_frame [of "{a}" m m1 as] h rest new by auto
    note ih = Cons.IH [OF good(2) Cons.prems(2) shape Cons.prems(4,5) at ready(2) s2(1) x(2)]
    obtain w' where w': "map_of (m_workers m1) a = Some w'" "map_of (w_sessions w') bid = Some c1" using h Inr by auto
    have "map_of (m_workers m') a = Some w'" using ih new w'(1) by (simp add: workers_frame_def)
    moreover have "workers_frame (set (a # as)) m m'"
      using workers_frame_trans [of "{a}" m m1 "set as" m'] h ih by simp
    ultimately show ?thesis using h ih w'(2) s2(2) Inr by (auto simp: stages_hold_def)
  qed
qed

subsection \<open>One relay\<close>

definition batch_layout :: "nat list option \<Rightarrow> (string \<Rightarrow> nat list) \<Rightarrow> string list \<Rightarrow> nat list list" where
  "batch_layout ll lay addrs = (case ll of None \<Rightarrow> [] | Some gs \<Rightarrow> [gs]) @ map lay addrs"

text \<open>Caches along the whole pipeline, the coordinator's own layers first.\<close>

definition batch_at ::
  "nat \<Rightarrow> nat \<Rightarrow> int \<Rightarrow> nat list option \<Rightarrow> string list \<Rightarrow> 'e list static \<Rightarrow> 'e list stage_kv list \<Rightarrow> bool" where
  "batch_at n pos bid ll addrs st cs \<longleftrightarrow>
     (case ll of
        None \<Rightarrow> stages_at n pos bid (s_mesh st) addrs cs
      | Some gs \<Rightarrow> \<exists>c cs1. cs = c # cs1 \<and> length c = n \<and>
          (if pos = 0 then c = replicate n [] else map_of (s_batches st) bid = Some c) \<and> stages_at n pos bid (s_mesh st) addrs cs1)"

definition batch_hold :: "int \<Rightarrow> nat list option \<Rightarrow> string list \<Rightarrow> 'e list static \<Rightarrow> 'e list stage_kv list \<Rightarrow> bool" where
  "batch_hold bid ll addrs st cs \<longleftrightarrow> map fst (m_conns (s_mesh st)) = addrs \<and>
     (case ll of
        None \<Rightarrow> stages_hold bid (s_mesh st) addrs cs
      | Some gs \<Rightarrow> \<exists>c cs1. cs = c # cs1 \<and> map_of (s_batches st) bid = Some c \<and> stages_hold bid (s_mesh st) addrs cs1)"

text \<open>The parts of a static coordinator, and the workers at its stages.\<close>

definition static_system ::
  "'e list mesh_env \<Rightarrow> ('e list, 'l) batch_coord \<Rightarrow> ('e, 'h, 'l) model_ops \<Rightarrow> nat \<Rightarrow> ('h list list \<Rightarrow> tensor) \<Rightarrow> nat \<Rightarrow>
   (string \<Rightarrow> nat list) \<Rightarrow> nat list option \<Rightarrow> bool" where
  "static_system E C M n enc room lay ll \<longleftrightarrow>
     stages_good E C M n room enc lay (bc_addrs C) \<and> reps_ok C enc room \<and>
     (case ll of None \<Rightarrow> bc_local C = None
      | Some gs \<Rightarrow> \<exists>L. bc_local C = Some L \<and> batch_serves M n room enc (bc_ids C) (bc_mask C) gs L) \<and>
     concat (batch_layout ll lay (bc_addrs C)) = [0 ..< n] \<and> 0 < n \<and>
     (\<forall>ids. bc_embed C ids = enc (map (map (m_embed M)) ids)) \<and>
     (\<forall>hs b t. rect b t hs \<and> 0 < b \<and> 0 < t \<longrightarrow> bc_logits C (enc hs) = map (map (m_head M)) hs) \<and> bc_argmax C = m_argmax M"

definition static_ok :: "string list \<Rightarrow> 'e static \<Rightarrow> bool" where
  "static_ok addrs st \<longleftrightarrow> set addrs \<subseteq> dom (map_of (m_workers (s_mesh st))) \<and>
     (map fst (m_conns (s_mesh st)) = [] \<or> map fst (m_conns (s_mesh st)) = addrs)"

lemma connect_all_frame:
  "connect_all E addrs m = (m', r) \<Longrightarrow> m_workers m' = m_workers m \<and> m_conns m' = m_conns m \<and>
    (quiet_net E \<and> set addrs \<subseteq> dom (map_of (m_workers m)) \<longrightarrow> r = Inr ())"
proof (induction addrs arbitrary: m)
  case (Cons a addrs)
  have t: "m_workers (tick_contact m) = m_workers m" "m_conns (tick_contact m) = m_conns m" by (simp_all add: tick_contact_def)
  then show ?case
    using Cons.IH [of "tick_contact m"] Cons.prems by (auto simp: Let_def quiet_net_def split: if_splits)
qed simp

lemma ensure_connected_frame:
  assumes "ensure_connected E addrs m = (m', r)"
  shows "m_workers m' = m_workers m \<and> (map fst (m_conns m) \<in> {[], addrs} \<longrightarrow> map fst (m_conns m') \<in> {[], addrs}) \<and>
    (quiet_net E \<and> set addrs \<subseteq> dom (map_of (m_workers m)) \<and> conns_open m \<longrightarrow> r = Inr () \<and> conns_open m') \<and>
    (r = Inr () \<and> map fst (m_conns m) \<in> {[], addrs} \<longrightarrow> map fst (m_conns m') = addrs)"
proof -
  have open_all: "conns_open (m1\<lparr>m_conns := map (\<lambda>a. (a, True)) addrs\<rparr>)" for m1 :: "('a, unit) mesh"
    by (auto simp: conns_open_def dest!: map_of_SomeD)
  show ?thesis
  proof (cases "m_conns m = []")
    case False
    then have "m' = m" "r = Inr ()" using assms by (simp_all add: ensure_connected_def)
    then show ?thesis using False by simp
  next
    case True
    obtain m1 r1 where c: "connect_all E addrs m = (m1, r1)" by fastforce
    note f = connect_all_frame [OF c]
    have "(m', r) = (case r1 of Inl e \<Rightarrow> (m1, Inl e) | Inr _ \<Rightarrow> (m1\<lparr>m_conns := map (\<lambda>a. (a, True)) addrs\<rparr>, Inr ()))"
      using assms True c by (simp add: ensure_connected_def split: sum.splits)
    then show ?thesis using f True open_all [of m1] by (cases r1) (auto simp: o_def)
  qed
qed

lemma relay_batch_ok:
  assumes sys: "static_system E C M n enc room lay ll" and st: "static_ok (bc_addrs C) st"
    and shape: "batch_shape room b t k hs ps attn" and ids: "id_ok bid" "id_ok (int pos)"
    and at: "batch_at n pos bid ll (bc_addrs C) st cs"
    and ready: "list_all2 (\<lambda>gs kv. cols_ready gs n k kv) (batch_layout ll lay (bc_addrs C)) cs"
    and f: "batch_stages M (batch_layout ll lay (bc_addrs C)) cs hs ps attn = (o1, cs')"
    and x: "relay_batch E C bid (int pos) (enc hs) (bc_ids C ps) (bc_mask C attn) st = (st', r)"
  shows "static_ok (bc_addrs C) st' \<and> s_next st' = s_next st \<and>
    (quiet_net E \<and> conns_open (s_mesh st) \<longrightarrow> conns_open (s_mesh st') \<and> (\<exists>h. r = Inr h)) \<and>
    (\<forall>h. r = Inr h \<longrightarrow> h = enc o1 \<and> batch_hold bid ll (bc_addrs C) st' cs')"
proof -
  let ?as = "bc_addrs C"
  have good: "stages_good E C M n room enc lay ?as" and reps: "reps_ok C enc room" using sys by (simp_all add: static_system_def)
  have tail: "static_ok ?as st' \<and> s_next st' = s_next st \<and>
      (quiet_net E \<and> conns_open (s_mesh st) \<longrightarrow> conns_open (s_mesh st') \<and> (\<exists>h. r = Inr h)) \<and>
      (\<forall>h. r = Inr h \<longrightarrow> h = enc o1 \<and> s_batches st' = s_batches st1 \<and> map fst (m_conns (s_mesh st')) = ?as \<and>
         stages_hold bid (s_mesh st') ?as cs2)"
    if s1: "s_mesh st1 = s_mesh st" "s_next st1 = s_next st" and sh: "batch_shape room b t k h1 ps attn"
      and at1: "stages_at n pos bid (s_mesh st) ?as cs1" and rd: "list_all2 (\<lambda>gs kv. cols_ready gs n k kv) (map lay ?as) cs1"
      and f1: "batch_stages M (map lay ?as) cs1 h1 ps attn = (o1, cs2)"
      and x1: "(case ensure_connected E ?as (s_mesh st1) of
             (m1, Inl e) \<Rightarrow> (st1\<lparr>s_mesh := m1\<rparr>, Inl e)
           | (m1, Inr _) \<Rightarrow>
               (case batch_star E C bid (int pos) (bc_ids C ps) (bc_mask C attn) ?as (enc h1) m1 of (m2, r) \<Rightarrow> (st1\<lparr>s_mesh := m2\<rparr>, r))) = (st', r)"
    for st1 :: "'a list static" and h1 cs1 cs2
  proof -
    obtain m1 r1 where ec: "ensure_connected E ?as (s_mesh st) = (m1, r1)" by fastforce
    note e = ensure_connected_frame [OF ec]
    show ?thesis
    proof (cases r1)
      case (Inl er)
      then have "st' = st1\<lparr>s_mesh := m1\<rparr>" "r = Inl er" using x1 ec s1 by simp_all
      then have mesh: "s_mesh st' = m1" "s_next st' = s_next st" "r = Inl er" using s1 by simp_all
      have "\<not> (quiet_net E \<and> conns_open (s_mesh st))" using e st Inl unfolding static_ok_def by blast
      moreover have "static_ok ?as st'" using e st unfolding static_ok_def mesh by auto
      ultimately show ?thesis using mesh by simp
    next
      case (Inr u)
      obtain m2 where star: "batch_star E C bid (int pos) (bc_ids C ps) (bc_mask C attn) ?as (enc h1) m1 = (m2, r)"
          and st': "st' = st1\<lparr>s_mesh := m2\<rparr>"
        using x1 ec s1 Inr by (auto split: prod.splits)
      have at2: "stages_at n pos bid m1 ?as cs1" using at1 e by (simp add: stages_at_def)
      have rd': "list_all2 (\<lambda>a c. cols_ready (lay a) n k c) ?as cs1" using rd by (simp add: list_all2_map1)
      note h = batch_star_ok [OF good reps sh ids at2 rd' f1 star]
      have mesh: "s_mesh st' = m2" "s_next st' = s_next st" "s_batches st' = s_batches st1" using st' s1 by simp_all
      have dom: "dom (map_of (m_workers m2)) = dom (map_of (m_workers m1))" using h by (simp add: workers_frame_def)
      have conns: "map fst (m_conns m2) = map fst (m_conns m1)" using h by blast
      have "static_ok ?as st'" using e st unfolding static_ok_def mesh dom conns by auto
      moreover have "conns_open m2 \<and> (\<exists>h. r = Inr h)" if q: "quiet_net E" "conns_open (s_mesh st)"
      proof -
        have "conns_open m1" using e q st unfolding static_ok_def by blast
        then show ?thesis using h q by blast
      qed
      moreover have "map fst (m_conns m2) = ?as" using e st Inr unfolding conns static_ok_def by auto
      ultimately show ?thesis using h mesh by auto
    qed
  qed
  show ?thesis
  proof (cases ll)
    case None
    then have loc: "bc_local C = None" using sys by (simp add: static_system_def)
    show ?thesis
      using tail [of st hs cs cs'] shape at ready f x loc None by (simp add: relay_batch_def batch_at_def batch_layout_def batch_hold_def)
  next
    case (Some gs)
    then obtain L where L: "bc_local C = Some L" "batch_serves M n room enc (bc_ids C) (bc_mask C) gs L"
      using sys by (auto simp: static_system_def)
    obtain c cs1 where c: "cs = c # cs1" "length c = n" "if pos = 0 then c = replicate n [] else map_of (s_batches st) bid = Some c"
        "stages_at n pos bid (s_mesh st) ?as cs1"
      using at Some by (auto simp: batch_at_def)
    have rd: "cols_ready gs n k c" "list_all2 (\<lambda>gs kv. cols_ready gs n k kv) (map lay ?as) cs1"
      using ready c(1) Some by (simp_all add: batch_layout_def)
    obtain h1 c1 where s1: "batch_stage M gs c hs ps attn = (h1, c1)" by fastforce
    obtain cs2 where s2: "batch_stages M (map lay ?as) cs1 h1 ps attn = (o1, cs2)" "cs' = c1 # cs2"
      using f s1 c(1) Some by (auto simp: batch_layout_def split: prod.splits)
    have sh: "batch_shape room b t k h1 ps attn"
      using batch_stage_rows [OF rd(1) _ _ _ s1] shape unfolding batch_shape_def by blast
    have fwd: "sl_forward L (Padded (bc_ids C ps) (bc_mask C attn)) (enc hs) c = (c1, Inr (enc h1))"
      by (rule batch_serves_step [OF L(2) shape c(2) s1])
    have "(case map_of (s_batches st) bid of None \<Rightarrow> replicate (sl_slots L) []
        | Some kv \<Rightarrow> if int pos = 0 then replicate (sl_slots L) [] else kv) = c"
      using c(2,3) L(2) by (auto simp: batch_serves_def split: if_splits option.splits)
    then have loc: "run_local_batch L bid (int pos) (enc hs) (bc_ids C ps) (bc_mask C attn) st =
        (st\<lparr>s_batches := dset bid c1 (s_batches st)\<rparr>, Inr (enc h1))"
      using fwd by (simp add: run_local_batch_def)
    show ?thesis
      using tail [of "st\<lparr>s_batches := dset bid c1 (s_batches st)\<rparr>" h1 cs1 cs2] sh c(4) rd(2) s2 x L(1) loc Some
      by (simp add: relay_batch_def batch_hold_def dict_simps)
  qed
qed

subsection \<open>What a batch holds\<close>

text \<open>Seen through its mask, every row of the caches is the split run of the row's own tokens.\<close>

definition batch_session ::
  "('e, 'h, 'l) model_ops \<Rightarrow> nat \<Rightarrow> nat list list \<Rightarrow> nat \<Rightarrow> nat \<Rightarrow> bool list list \<Rightarrow> (nat \<Rightarrow> int list) \<Rightarrow> 'e list stage_kv list \<Rightarrow> bool" where
  "batch_session M n sts B k attn ctx cs \<longleftrightarrow> rect B k attn \<and> list_all2 (\<lambda>gs kv. cols_ready gs n k kv) sts cs \<and>
     (\<forall>b < B. map (\<lambda>kv. marked (attn ! b) (row_kv b kv)) cs = snd (split_run M n sts (ctx b)))"

lemma batch_session_start:
  assumes "stages_wf n sts"
  shows "batch_session M n sts B 0 (replicate B []) (\<lambda>_. []) (map (\<lambda>_. replicate n []) sts)"
proof -
  have "map (\<lambda>kv. marked [] (row_kv b kv)) (map (\<lambda>_. replicate n []) sts) = snd (split_run M n sts [])" for b
    unfolding split_run_Nil [OF assms] by (simp add: o_def marked_def row_kv_def)
  moreover have "list_all2 (\<lambda>gs kv. cols_ready gs n 0 kv) sts (map (\<lambda>_. replicate n []) sts)"
    using assms by (simp add: list_all2_map2 list_all2_same cols_ready_def)
  ultimately show ?thesis by (simp add: batch_session_def rect_def)
qed

lemma last_sel:
  assumes "length xs = length m" "last m" "m \<noteq> []"
  shows "last (sel m xs) = last xs"
proof -
  obtain m' where m: "m = m' @ [True]" using assms(2,3) by (metis append_butlast_last_id)
  then obtain xs' x where xs: "xs = xs' @ [x]" "length xs' = length m'" using assms(1) by (cases xs rule: rev_cases) auto
  then show ?thesis unfolding m xs(1) by (subst sel_append) simp_all
qed

lemma marked_more:
  assumes "cols_ready gs n k kv" and "take k row' = row" and "k \<le> length row'"
  shows "marked row' (row_kv b kv) = marked row (row_kv b kv)"
proof -
  have "length c \<le> k" if c: "c \<in> set (row_kv b kv)" for c
  proof -
    obtain s where s: "s \<in> set kv" "c = map (\<lambda>col. col ! b) s" using c by (auto simp: row_kv_def)
    then obtain g where "g < n" "kv ! g = s" using assms(1) unfolding cols_ready_def in_set_conv_nth by blast
    then have "g < n" "c = map (\<lambda>col. col ! b) (kv ! g)" using s by simp_all
    then show ?thesis using assms(1) by (cases "g \<in> set gs") (simp_all add: cols_ready_def)
  qed
  then have "sel row' c = sel row c" if "c \<in> set (row_kv b kv)" for c
    using sel_take [of c k row'] assms(2) that by simp
  then show ?thesis by (simp add: marked_def)
qed

lemma batch_session_step:
  fixes toks :: "int list list"
  assumes wf: "stages_wf n sts" and s: "batch_session M n sts B k attn ctx cs"
    and shape: "rect B t toks" "rect B t ps" "rect B (k + t) attn'" "0 < B" "0 < t"
    and keep: "\<And>b. b < B \<Longrightarrow> take k (attn' ! b) = attn ! b"
    and new: "\<And>b. b < B \<Longrightarrow> sel (drop k (attn' ! b)) (toks ! b) = new b"
      "\<And>b. b < B \<Longrightarrow> sel (drop k (attn' ! b)) (ps ! b) = map (\<lambda>i. i + length (ctx b)) [0 ..< length (new b)]"
      "\<And>b. b < B \<Longrightarrow> new b \<noteq> []" "\<And>b. b < B \<Longrightarrow> last (attn' ! b)"
    and f: "batch_stages M sts cs (map (map (m_embed M)) toks) ps attn' = (o1, cs')"
  shows "batch_session M n sts B (k + t) attn' (\<lambda>b. ctx b @ new b) cs' \<and> rect B t o1 \<and>
    (\<forall>b < B. m_argmax M (m_head M (last (o1 ! b))) = split_next M n sts (ctx b @ new b))"
proof -
  have ready: "list_all2 (\<lambda>gs kv. cols_ready gs n k kv) sts cs" using s by (simp add: batch_session_def)
  have hs: "rect B t (map (map (m_embed M)) toks)" using shape(1) by (auto simp: rect_def)
  have len: "length (attn' ! b) = k + t" if "b < B" for b using rectD [OF shape(3) that] .
  then have room: "\<forall>b < B. k + t \<le> length (attn' ! b)" by simp
  note r = batch_stages_rows [OF ready hs shape(2,4) room f]
  have row: "split_step M n sts (ctx b) (new b) = (sel (drop k (attn' ! b)) (o1 ! b), map (\<lambda>kv. marked (attn' ! b) (row_kv b kv)) cs')"
    if b: "b < B" for b
  proof -
    have "cols_ready gs n k kv \<Longrightarrow> marked (attn' ! b) (row_kv b kv) = marked (attn ! b) (row_kv b kv)" for gs kv
      by (rule marked_more) (use keep [OF b] len [OF b] in auto)
    then have "marked (attn' ! b) (row_kv b kv) = marked (attn ! b) (row_kv b kv)" if "kv \<in> set cs" for kv
      using ready that by (metis in_set_conv_nth list_all2_conv_all_nth)
    then have "map (\<lambda>kv. marked (attn' ! b) (row_kv b kv)) cs = map (\<lambda>kv. marked (attn ! b) (row_kv b kv)) cs"
      by (rule map_cong [OF refl])
    also have "\<dots> = snd (split_run M n sts (ctx b))" using s b unfolding batch_session_def by blast
    finally have c: "map (\<lambda>kv. marked (attn' ! b) (row_kv b kv)) cs = snd (split_run M n sts (ctx b))" .
    have h: "sel (drop k (attn' ! b)) (map (map (m_embed M)) toks ! b) = map (m_embed M) (new b)"
      using new(1) [OF b] b shape(1) by (simp add: rect_def sel_map)
    have "stages_forward M sts (map (\<lambda>kv. marked (attn' ! b) (row_kv b kv)) cs)
        (sel (drop k (attn' ! b)) (map (map (m_embed M)) toks ! b)) (sel (drop k (attn' ! b)) (ps ! b)) =
        (sel (drop k (attn' ! b)) (o1 ! b), map (\<lambda>kv. marked (attn' ! b) (row_kv b kv)) cs')"
      using r b by blast
    then show ?thesis unfolding split_step_def c h new(2) [OF b] .
  qed
  have next_row: "m_argmax M (m_head M (last (o1 ! b))) = split_next M n sts (ctx b @ new b)" if b: "b < B" for b
  proof -
    have "length (o1 ! b) = length (drop k (attn' ! b))" using r rectD [of B t o1 b] b len [OF b] by simp
    moreover have "last (drop k (attn' ! b))" "drop k (attn' ! b) \<noteq> []" using new(4) [OF b] len [OF b] shape(5) by (simp_all add: last_drop)
    ultimately have "last (sel (drop k (attn' ! b)) (o1 ! b)) = last (o1 ! b)" by (rule last_sel)
    then show ?thesis using split_step_run [OF wf row [OF b]] new(3) [OF b] by simp
  qed
  have "map (\<lambda>kv. marked (attn' ! b) (row_kv b kv)) cs' = snd (split_run M n sts (ctx b @ new b))" if b: "b < B" for b
    using split_step_run [OF wf row [OF b]] by simp
  then show ?thesis using r shape(3) next_row by (simp add: batch_session_def)
qed

subsection \<open>What a row emits\<close>

definition batch_stops :: "bool \<Rightarrow> int set \<Rightarrow> int set" where
  "batch_stops stop eos = (if stop then eos else {})"

definition row_text :: "int set \<Rightarrow> int \<Rightarrow> int list \<Rightarrow> int list" where
  "row_text eos cap xs = until_eos eos (take (nat cap) xs)"

text \<open>A row that is done has stopped early or reached its cap.\<close>

definition row_ok :: "int set \<Rightarrow> int \<Rightarrow> int list \<Rightarrow> bool \<times> int \<Rightarrow> bool" where
  "row_ok eos cap xs row \<longleftrightarrow> snd row = int (length (row_text eos cap xs)) \<and>
     (length (row_text eos cap xs) < length xs \<longrightarrow> fst row \<or> cap \<le> snd row) \<and>
     (fst row \<longrightarrow> length (row_text eos cap xs) < length xs \<or> cap \<le> snd row)"

lemma row_text_cap: "nat cap \<le> length (row_text eos cap xs) \<Longrightarrow> row_text eos cap (xs @ ys) = row_text eos cap xs"
proof -
  have "length (row_text eos cap xs) \<le> length xs"
    unfolding row_text_def until_eos_def by (metis length_take length_takeWhile_le min.boundedE)
  then show "nat cap \<le> length (row_text eos cap xs) \<Longrightarrow> ?thesis" by (simp add: row_text_def)
qed

lemma row_text_stopped:
  assumes "length (row_text eos cap xs) < length xs"
  shows "row_text eos cap (xs @ ys) = row_text eos cap xs"
proof (cases "nat cap \<le> length xs")
  case True
  then show ?thesis by (simp add: row_text_def)
next
  case False
  then have t: "take (nat cap) xs = xs" by simp
  have "\<exists>t \<in> set xs. t \<in> eos"
    using assms until_eos_all [of xs eos] unfolding row_text_def t by (metis nat_neq_iff)
  then show ?thesis using False by (simp add: row_text_def until_eos_append_stop)
qed

lemma row_text_done: "row_ok eos cap xs row \<Longrightarrow> fst row \<Longrightarrow> row_text eos cap (xs @ ys) = row_text eos cap xs"
  using row_text_cap [of cap eos xs ys] row_text_stopped [of eos cap xs ys] by (auto simp: row_ok_def)

lemma row_text_all: "length (row_text eos cap xs) = length xs \<Longrightarrow> length xs < nat cap \<Longrightarrow>
    row_text eos cap xs = xs \<and> row_text eos cap (xs @ [t]) = (if t \<in> eos then xs else xs @ [t])"
proof -
  assume l: "length (row_text eos cap xs) = length xs" "length xs < nat cap"
  have r: "row_text eos cap xs = takeWhile (\<lambda>t. t \<notin> eos) xs" using l(2) by (simp add: row_text_def until_eos_def)
  then have eq: "row_text eos cap xs = xs"
    using l(1) by (metis takeWhile_eq_take take_all order_refl)
  then have "\<forall>t \<in> set xs. t \<notin> eos" using r by (metis takeWhile_eq_all_conv)
  then show ?thesis using l(2) eq by (simp add: row_text_def until_eos_append_all) (simp add: until_eos_def)
qed

lemma emit_row_ok:
  assumes ok: "row_ok (batch_stops stop eos) cap xs row" and e: "emit_row stop eos cap t row = (row', out)"
  shows "row_ok (batch_stops stop eos) cap (xs @ [t]) row' \<and>
    row_text (batch_stops stop eos) cap (xs @ [t]) = row_text (batch_stops stop eos) cap xs @ out"
proof -
  let ?E = "row_text (batch_stops stop eos) cap xs"
  obtain fin count where row: "row = (fin, count)" by (cases row)
  have le: "length ?E \<le> length xs"
    unfolding row_text_def until_eos_def by (metis length_take length_takeWhile_le min.boundedE)
  have c: "count = int (length ?E)" using ok by (simp add: row_ok_def row)
  show ?thesis
  proof (cases "fin \<or> cap \<le> count")
    case True
    then have frozen: "row_text (batch_stops stop eos) cap (xs @ [t]) = ?E"
      using row_text_done [OF ok] row_text_cap [of cap "batch_stops stop eos" xs "[t]"] c row by auto
    have "row' = (True, count)" "out = []" using True e row by (simp_all add: emit_row_def)
    then show ?thesis using frozen c le by (simp add: row_ok_def)
  next
    case False
    then have all: "length ?E = length xs" "length xs < nat cap" using ok le c row by (auto simp: row_ok_def)
    note row_all = row_text_all [OF all, of t]
    show ?thesis
    proof (cases "stop \<and> t \<in> eos")
      case True
      then have "row' = (True, count)" "out = []" using False e row by (simp_all add: emit_row_def)
      then show ?thesis using row_all True c by (simp add: row_ok_def batch_stops_def)
    next
      case cont: False
      then have r: "row' = (cap \<le> count + 1, count + 1)" "out = [t]" using False e row by (auto simp: emit_row_def)
      have "t \<notin> batch_stops stop eos" using cont by (simp add: batch_stops_def)
      then show ?thesis using row_all r c by (simp add: row_ok_def)
    qed
  qed
qed

lemma row_tokens_append [simp]: "row_tokens b (xs @ ys) = row_tokens b xs @ row_tokens b ys"
  by (simp add: row_tokens_def)

lemma row_tokens_Nil [simp]: "row_tokens b [] = []"
  by (simp add: row_tokens_def)

lemma row_tokens_pairs: "row_tokens b (map (Pair b') ts) = (if b = b' then ts else [])"
  by (induction ts) (auto simp: row_tokens_def)

lemma row_tokens_enumerate:
  "row_tokens b (concat (map (\<lambda>(b, r). map (Pair b) (snd r)) (enumerate k rs))) =
     (if k \<le> b \<and> b < k + length rs then snd (rs ! (b - k)) else [])"
proof (induction rs arbitrary: k)
  case Nil
  then show ?case by auto
next
  case (Cons r rs)
  then show ?case by (auto simp: row_tokens_pairs nth_Cons')
qed

lemma emit_rows:
  assumes "emit stop eos caps toks rows = (rows', ev)" and "length caps = B" "length toks = B" "length rows = B"
  shows "length rows' = B \<and> (\<forall>b < B. (rows' ! b, row_tokens b ev) = emit_row stop eos (caps ! b) (toks ! b) (rows ! b))"
proof -
  let ?rs = "map (\<lambda>(cap, tok, row). emit_row stop eos cap tok row) (zip caps (zip toks rows))"
  have "rows' = map fst ?rs" and ev: "ev = concat (map (\<lambda>(b, r). map (Pair b) (snd r)) (enumerate 0 ?rs))"
    using assms(1) by (simp_all add: emit_def Let_def)
  moreover have "row_tokens b ev = snd (?rs ! b)" if "b < B" for b
    unfolding ev row_tokens_enumerate using that assms(2-4) by simp
  ultimately show ?thesis using assms(2-4) by simp
qed

subsection \<open>The decode loop\<close>

lemma batch_hold_at: "batch_hold bid ll addrs st cs \<Longrightarrow> list_all2 (\<lambda>gs kv. cols_ready gs n k kv) (batch_layout ll lay addrs) cs \<Longrightarrow>
    0 < pos \<Longrightarrow> batch_at n pos bid ll addrs st cs"
proof -
  have hold: "stages_hold bid m addrs cs \<Longrightarrow> list_all2 (\<lambda>gs kv. cols_ready gs n k kv) (map lay addrs) cs \<Longrightarrow> 0 < pos \<Longrightarrow>
      stages_at n pos bid m addrs cs" for m :: "('a list, unit) mesh" and cs
    unfolding stages_hold_def stages_at_def cached_def cols_ready_def list_all2_map1 list_all2_conv_all_nth by force
  show "batch_hold bid ll addrs st cs \<Longrightarrow> list_all2 (\<lambda>gs kv. cols_ready gs n k kv) (batch_layout ll lay addrs) cs \<Longrightarrow> 0 < pos \<Longrightarrow> ?thesis"
    using hold by (cases ll) (auto simp: batch_hold_def batch_at_def batch_layout_def cols_ready_def)
qed

lemma layout_wf: "static_system E C M n enc room lay ll \<Longrightarrow> stages_wf n (batch_layout ll lay (bc_addrs C))"
proof -
  assume "static_system E C M n enc room lay ll"
  then have c: "concat (batch_layout ll lay (bc_addrs C)) = [0 ..< n]" by (simp add: static_system_def)
  have "distinct gs \<and> (\<forall>g \<in> set gs. g < n)" if gs: "gs \<in> set (batch_layout ll lay (bc_addrs C))" for gs
  proof -
    obtain xs ys where "batch_layout ll lay (bc_addrs C) = xs @ gs # ys" using split_list [OF gs] by blast
    then have c': "concat xs @ gs @ concat ys = [0 ..< n]" using c by simp
    then have "distinct (concat xs @ gs @ concat ys)" by simp
    moreover have "set gs \<subseteq> {0 ..< n}" using c' by (metis Un_upper1 Un_upper2 order_trans set_append set_upt)
    ultimately show ?thesis by auto
  qed
  then show ?thesis by blast
qed

lemma batch_advance:
  fixes toks :: "int list list"
  assumes sys: "static_system E C M n enc room lay ll" and st: "static_ok (bc_addrs C) st"
    and s: "batch_session M n (batch_layout ll lay (bc_addrs C)) B k attn ctx cs"
    and at: "batch_at n pos bid ll (bc_addrs C) st cs" and ids: "id_ok bid" "id_ok (int pos)"
    and shape: "batch_shape room B t k toks ps attn'"
    and keep: "\<And>b. b < B \<Longrightarrow> take k (attn' ! b) = attn ! b"
    and new: "\<And>b. b < B \<Longrightarrow> sel (drop k (attn' ! b)) (toks ! b) = new b"
      "\<And>b. b < B \<Longrightarrow> sel (drop k (attn' ! b)) (ps ! b) = map (\<lambda>i. i + length (ctx b)) [0 ..< length (new b)]"
      "\<And>b. b < B \<Longrightarrow> new b \<noteq> []" "\<And>b. b < B \<Longrightarrow> last (attn' ! b)"
    and x: "relay_batch E C bid (int pos) (bc_embed C toks) (bc_ids C ps) (bc_mask C attn') st = (st', r)"
  shows "static_ok (bc_addrs C) st' \<and> s_next st' = s_next st \<and>
    (quiet_net E \<and> conns_open (s_mesh st) \<longrightarrow> conns_open (s_mesh st') \<and> (\<exists>h. r = Inr h)) \<and>
    (\<forall>h. r = Inr h \<longrightarrow> next_tokens C h = map (\<lambda>b. whole_next M n (ctx b @ new b)) [0 ..< B] \<and>
       (\<exists>cs'. batch_session M n (batch_layout ll lay (bc_addrs C)) B (k + t) attn' (\<lambda>b. ctx b @ new b) cs' \<and>
          batch_hold bid ll (bc_addrs C) st' cs'))"
proof -
  let ?sts = "batch_layout ll lay (bc_addrs C)"
  obtain o1 cs' where f: "batch_stages M ?sts cs (map (map (m_embed M)) toks) ps attn' = (o1, cs')" by fastforce
  have sh: "batch_shape room B t k (map (map (m_embed M)) toks) ps attn'" using shape by (auto simp: batch_shape_def rect_def)
  have shape': "rect B t toks" "rect B t ps" "rect B (k + t) attn'" "0 < B" "0 < t" using shape by (simp_all add: batch_shape_def)
  have ready: "list_all2 (\<lambda>gs kv. cols_ready gs n k kv) ?sts cs" using s by (simp add: batch_session_def)
  have x': "relay_batch E C bid (int pos) (enc (map (map (m_embed M)) toks)) (bc_ids C ps) (bc_mask C attn') st = (st', r)"
    using x sys by (simp add: static_system_def)
  note rb = relay_batch_ok [OF sys st sh ids at ready f x']
  note step = batch_session_step [OF layout_wf [OF sys] s shape' keep new f]
  have o1: "rect B t o1" using step by blast
  have "bc_logits C (enc o1) = map (map (m_head M)) o1"
    using sys o1 shape'(4,5) unfolding static_system_def by blast
  moreover have "last (map (m_head M) row) = m_head M (last row)" if "row \<in> set o1" for row
    using o1 shape'(5) that by (intro last_map) (auto simp: rect_def)
  moreover have "bc_argmax C = m_argmax M" using sys by (simp add: static_system_def)
  ultimately have "next_tokens C (enc o1) = map (\<lambda>row. m_argmax M (m_head M (last row))) o1" by (simp add: next_tokens_def)
  also have "\<dots> = map (\<lambda>b. whole_next M n (ctx b @ new b)) [0 ..< B]"
    using step o1 split_next_whole [of ?sts n M] sys by (intro nth_equalityI) (simp_all add: rect_def static_system_def)
  finally have nxt: "next_tokens C (enc o1) = map (\<lambda>b. whole_next M n (ctx b @ new b)) [0 ..< B]" .
  show ?thesis using rb nxt step by blast
qed

text \<open>A batch after \<open>s\<close> decode steps: \<open>k\<close> columns are cached, and every row's next token is known.\<close>

definition batch_going ::
  "('e list, 'l) batch_coord \<Rightarrow> ('e, 'h, 'l) model_ops \<Rightarrow> nat \<Rightarrow> (string \<Rightarrow> nat list) \<Rightarrow> nat list option \<Rightarrow> bool \<Rightarrow> int \<Rightarrow> int list \<Rightarrow>
   int list list \<Rightarrow> nat \<Rightarrow> nat \<Rightarrow> bool list list \<Rightarrow> nat list \<Rightarrow> int list \<Rightarrow> (bool \<times> int) list \<Rightarrow> 'e list static \<Rightarrow> bool" where
  "batch_going C M n lay ll stop bid caps prompts k s attn lengths nxt rows st \<longleftrightarrow>
     (let B = length prompts; ctx = (\<lambda>b. prompts ! b @ greedy (whole_next M n) (prompts ! b) s)
      in (\<exists>cs. batch_session M n (batch_layout ll lay (bc_addrs C)) B k attn ctx cs \<and> batch_hold bid ll (bc_addrs C) st cs) \<and>
         lengths = map (\<lambda>b. length (ctx b)) [0 ..< B] \<and> nxt = map (\<lambda>b. whole_next M n (ctx b)) [0 ..< B] \<and>
         length rows = B \<and> (\<forall>b < B. length (ctx b) \<le> k \<and>
           row_ok (batch_stops stop (bc_eos C)) (caps ! b) (greedy (whole_next M n) (prompts ! b) (Suc s)) (rows ! b)))"

lemma batch_step:
  assumes sys: "static_system E C M n enc room lay ll" and st: "static_ok (bc_addrs C) st"
    and going: "batch_going C M n lay ll stop bid caps prompts k s attn lengths nxt rows st"
    and ids: "id_ok bid" "id_ok (int s + 1)" and B: "prompts \<noteq> []" "length caps = length prompts"
    and room: "length prompts * Suc k \<le> room" and attn': "attn' = map (\<lambda>r. r @ [True]) attn"
    and x: "relay_batch E C bid (int s + 1) (bc_embed C (map (\<lambda>t. [t]) nxt)) (bc_ids C (map (\<lambda>l. [l]) lengths)) (bc_mask C attn') st = (st', r)"
  shows "static_ok (bc_addrs C) st' \<and> s_next st' = s_next st \<and>
    (quiet_net E \<and> conns_open (s_mesh st) \<longrightarrow> conns_open (s_mesh st') \<and> (\<exists>h. r = Inr h)) \<and>
    (\<forall>h rows' ev. r = Inr h \<and> emit stop (bc_eos C) caps (next_tokens C h) rows = (rows', ev) \<longrightarrow>
       batch_going C M n lay ll stop bid caps prompts (Suc k) (Suc s) attn' (map Suc lengths) (next_tokens C h) rows' st' \<and>
       (\<forall>b < length prompts. row_text (batch_stops stop (bc_eos C)) (caps ! b) (greedy (whole_next M n) (prompts ! b) (Suc (Suc s))) =
          row_text (batch_stops stop (bc_eos C)) (caps ! b) (greedy (whole_next M n) (prompts ! b) (Suc s)) @ row_tokens b ev))"
proof -
  let ?B = "length prompts" let ?nx = "whole_next M n" let ?sts = "batch_layout ll lay (bc_addrs C)"
  define ctx where "ctx b = prompts ! b @ greedy ?nx (prompts ! b) s" for b
  obtain cs where s: "batch_session M n ?sts ?B k attn ctx cs" and hold: "batch_hold bid ll (bc_addrs C) st cs"
      and len: "lengths = map (\<lambda>b. length (ctx b)) [0 ..< ?B]" and nxt: "nxt = map (\<lambda>b. ?nx (ctx b)) [0 ..< ?B]"
      and rows: "length rows = ?B" and le: "\<And>b. b < ?B \<Longrightarrow> length (ctx b) \<le> k"
      and rok: "\<And>b. b < ?B \<Longrightarrow> row_ok (batch_stops stop (bc_eos C)) (caps ! b) (greedy ?nx (prompts ! b) (Suc s)) (rows ! b)"
    using going unfolding batch_going_def Let_def ctx_def by blast
  have a: "rect ?B k attn" using s by (simp add: batch_session_def)
  have row: "attn' ! b = attn ! b @ [True]" "length (attn ! b) = k" if "b < ?B" for b
    using that a attn' by (simp_all add: rect_def)
  have shape: "batch_shape room ?B 1 k (map (\<lambda>t. [t]) nxt) (map (\<lambda>l. [l]) lengths) attn'"
    using a B(1) room le by (auto simp: batch_shape_def rect_def attn' nxt len less_Suc_eq_le)
  have at: "batch_at n (Suc s) bid ll (bc_addrs C) st cs"
    using batch_hold_at [OF hold, of n k lay "Suc s"] s by (simp add: batch_session_def)
  have x': "relay_batch E C bid (int (Suc s)) (bc_embed C (map (\<lambda>t. [t]) nxt)) (bc_ids C (map (\<lambda>l. [l]) lengths)) (bc_mask C attn') st = (st', r)"
    using x by (simp add: add.commute)
  have i: "id_ok (int (Suc s))" using ids(2) by (simp add: add.commute)
  have "take k (attn' ! b) = attn ! b" if "b < ?B" for b using row [OF that] by simp
  moreover have "sel (drop k (attn' ! b)) (map (\<lambda>t. [t]) nxt ! b) = [?nx (ctx b)]" if "b < ?B" for b
    using row [OF that] that by (simp add: nxt)
  moreover have "sel (drop k (attn' ! b)) (map (\<lambda>l. [l]) lengths ! b) = map (\<lambda>i. i + length (ctx b)) [0 ..< length [?nx (ctx b)]]"
    if "b < ?B" for b using row [OF that] that by (simp add: len)
  moreover have "last (attn' ! b)" if "b < ?B" for b using row [OF that] by simp
  ultimately have adv: "static_ok (bc_addrs C) st' \<and> s_next st' = s_next st \<and>
      (quiet_net E \<and> conns_open (s_mesh st) \<longrightarrow> conns_open (s_mesh st') \<and> (\<exists>h. r = Inr h)) \<and>
      (\<forall>h. r = Inr h \<longrightarrow> next_tokens C h = map (\<lambda>b. ?nx (ctx b @ [?nx (ctx b)])) [0 ..< ?B] \<and>
         (\<exists>cs'. batch_session M n ?sts ?B (k + 1) attn' (\<lambda>b. ctx b @ [?nx (ctx b)]) cs' \<and> batch_hold bid ll (bc_addrs C) st' cs'))"
    using batch_advance [OF sys st s at ids(1) i shape, where new = "\<lambda>b. [?nx (ctx b)]"] x' by blast
  have ctx1: "ctx b @ [?nx (ctx b)] = prompts ! b @ greedy ?nx (prompts ! b) (Suc s)" for b
    by (simp only: ctx_def greedy_snoc append_assoc)
  have step: "batch_going C M n lay ll stop bid caps prompts (Suc k) (Suc s) attn' (map Suc lengths) (next_tokens C h) rows' st' \<and>
       (\<forall>b < ?B. row_text (batch_stops stop (bc_eos C)) (caps ! b) (greedy ?nx (prompts ! b) (Suc (Suc s))) =
          row_text (batch_stops stop (bc_eos C)) (caps ! b) (greedy ?nx (prompts ! b) (Suc s)) @ row_tokens b ev)"
    if r: "r = Inr h" and e: "emit stop (bc_eos C) caps (next_tokens C h) rows = (rows', ev)" for h rows' ev
  proof -
    have toks: "next_tokens C h = map (\<lambda>b. ?nx (prompts ! b @ greedy ?nx (prompts ! b) (Suc s))) [0 ..< ?B]"
      using adv r by (simp only: ctx1 simp_thms)
    obtain cs' where s': "batch_session M n ?sts ?B (Suc k) attn' (\<lambda>b. prompts ! b @ greedy ?nx (prompts ! b) (Suc s)) cs'"
        "batch_hold bid ll (bc_addrs C) st' cs'"
      using adv r by (auto simp only: ctx1 Suc_eq_plus1)
    have er: "length rows' = ?B" "\<And>b. b < ?B \<Longrightarrow> (rows' ! b, row_tokens b ev) = emit_row stop (bc_eos C) (caps ! b) (next_tokens C h ! b) (rows ! b)"
      using emit_rows [OF e B(2) _ rows] by (simp_all add: toks)
    have row': "row_ok (batch_stops stop (bc_eos C)) (caps ! b) (greedy ?nx (prompts ! b) (Suc (Suc s))) (rows' ! b) \<and>
        row_text (batch_stops stop (bc_eos C)) (caps ! b) (greedy ?nx (prompts ! b) (Suc (Suc s))) =
          row_text (batch_stops stop (bc_eos C)) (caps ! b) (greedy ?nx (prompts ! b) (Suc s)) @ row_tokens b ev" if b: "b < ?B" for b
    proof -
      have "greedy ?nx (prompts ! b) (Suc (Suc s)) = greedy ?nx (prompts ! b) (Suc s) @ [next_tokens C h ! b]"
        using b by (simp only: greedy_snoc [of _ _ "Suc s"] toks) simp
      then show ?thesis using emit_row_ok [OF rok [OF b] er(2) [OF b, symmetric]] by metis
    qed
    have "map Suc lengths = map (\<lambda>b. length (prompts ! b @ greedy ?nx (prompts ! b) (Suc s))) [0 ..< ?B]"
      by (simp add: len ctx_def)
    moreover have "length (prompts ! b @ greedy ?nx (prompts ! b) (Suc s)) \<le> Suc k" if "b < ?B" for b
      using le [OF that] by (simp add: ctx_def)
    ultimately show ?thesis using s' toks er(1) row' unfolding batch_going_def Let_def by blast
  qed
  show ?thesis using adv step by blast
qed

text \<open>What the loop yields for a row extends what the row yielded before it.\<close>

abbreviation row_upto :: "('e, 'h, 'l) model_ops \<Rightarrow> nat \<Rightarrow> int set \<Rightarrow> int \<Rightarrow> int list \<Rightarrow> nat \<Rightarrow> int list" where
  "row_upto M n eos cap p s \<equiv> row_text eos cap (greedy (whole_next M n) p s)"

lemma row_upto_done:
  "row_ok eos cap (greedy (whole_next M n) p s) row \<Longrightarrow> fst row \<Longrightarrow> row_upto M n eos cap p (s + d) = row_upto M n eos cap p s"
  by (simp add: greedy_add row_text_done)

lemma batch_loop_ok:
  assumes sys: "static_system E C M n enc room lay ll" and "static_ok (bc_addrs C) st"
    and "batch_going C M n lay ll stop bid caps prompts k s attn lengths nxt rows st"
    and "id_ok bid" "s + d < 2 ^ 32" and B: "prompts \<noteq> []" "length caps = length prompts"
    and "length prompts * (k + d) \<le> room"
    and "batch_loop E C stop bid caps [s ..< s + d] attn lengths nxt rows st = (st', evs, r)"
  shows "static_ok (bc_addrs C) st' \<and> s_next st' = s_next st \<and>
    (quiet_net E \<and> conns_open (s_mesh st) \<longrightarrow> conns_open (s_mesh st') \<and> r = Inr ()) \<and>
    (r = Inr () \<longrightarrow> map fst (m_conns (s_mesh st')) = bc_addrs C) \<and>
    (\<forall>b < length prompts. \<exists>j \<le> d. (r = Inr () \<longrightarrow> j = d) \<and>
       row_upto M n (batch_stops stop (bc_eos C)) (caps ! b) (prompts ! b) (Suc s + j) =
       row_upto M n (batch_stops stop (bc_eos C)) (caps ! b) (prompts ! b) (Suc s) @ row_tokens b evs)"
  using assms
proof (induction d arbitrary: k s attn lengths nxt rows st evs)
  case 0
  then show ?case by (auto simp: batch_going_def Let_def batch_hold_def)
next
  case (Suc d)
  have conns: "map fst (m_conns (s_mesh st)) = bc_addrs C"
    using Suc.prems(3) unfolding batch_going_def Let_def batch_hold_def by blast
  let ?eos = "batch_stops stop (bc_eos C)"
  have upt: "[s ..< s + Suc d] = s # [Suc s ..< Suc s + d]" by (simp add: upt_rec)
  have rows: "length rows = length prompts"
      "\<And>b. b < length prompts \<Longrightarrow> row_ok ?eos (caps ! b) (greedy (whole_next M n) (prompts ! b) (Suc s)) (rows ! b)"
    using Suc.prems(3) unfolding batch_going_def Let_def by blast+
  show ?case
  proof (cases "list_all fst rows")
    case True
    then have out: "st' = st" "evs = []" "r = Inr ()" using Suc.prems(9) unfolding upt by simp_all
    have "row_upto M n ?eos (caps ! b) (prompts ! b) (Suc s + Suc d) = row_upto M n ?eos (caps ! b) (prompts ! b) (Suc s)"
      if "b < length prompts" for b
      by (rule row_upto_done [OF rows(2) [OF that]]) (use True rows(1) that in \<open>simp add: list_all_length\<close>)
    then show ?thesis using Suc.prems(2) out conns by auto
  next
    case False
    let ?attn = "map (\<lambda>r. r @ [True]) attn"
    obtain st1 r1 where x: "relay_batch E C bid (int s + 1) (bc_embed C (map (\<lambda>t. [t]) nxt)) (bc_ids C (map (\<lambda>l. [l]) lengths))
        (bc_mask C ?attn) st = (st1, r1)" by fastforce
    have room: "length prompts * Suc k \<le> room"
      using Suc.prems(8) by (metis add_Suc_right add_Suc_shift le_add1 le_trans mult_le_mono2)
    have id: "id_ok (int s + 1)" using Suc.prems(5) by (simp add: id_ok_def)
    note h = batch_step [OF sys Suc.prems(2,3,4) id B room refl x]
    show ?thesis
    proof (cases r1)
      case (Inl e)
      then have out: "st' = st1" "evs = []" "r = Inl e" using Suc.prems(9) False x unfolding upt by (simp_all add: Let_def)
      then show ?thesis using h Inl by auto
    next
      case (Inr hid)
      obtain rows' ev where e: "emit stop (bc_eos C) caps (next_tokens C hid) rows = (rows', ev)" by fastforce
      obtain evs2 where l: "batch_loop E C stop bid caps [Suc s ..< Suc s + d] ?attn (map Suc lengths) (next_tokens C hid) rows' st1 = (st', evs2, r)"
          and evs: "evs = ev @ evs2"
        using Suc.prems(9) False x Inr e unfolding upt by (auto simp: Let_def split: prod.splits)
      have going: "batch_going C M n lay ll stop bid caps prompts (Suc k) (Suc s) ?attn (map Suc lengths) (next_tokens C hid) rows' st1"
        and one: "\<And>b. b < length prompts \<Longrightarrow> row_upto M n ?eos (caps ! b) (prompts ! b) (Suc (Suc s)) =
          row_upto M n ?eos (caps ! b) (prompts ! b) (Suc s) @ row_tokens b ev" using h Inr e by blast+
      have ok1: "static_ok (bc_addrs C) st1" using h by blast
      have lim: "Suc s + d < 2 ^ 32" "length prompts * (Suc k + d) \<le> room" using Suc.prems(5,8) by simp_all
      note ih = Suc.IH [OF sys ok1 going Suc.prems(4) lim(1) B lim(2) l]
      have "\<exists>j \<le> Suc d. (r = Inr () \<longrightarrow> j = Suc d) \<and> row_upto M n ?eos (caps ! b) (prompts ! b) (Suc s + j) =
          row_upto M n ?eos (caps ! b) (prompts ! b) (Suc s) @ row_tokens b evs" if b: "b < length prompts" for b
      proof -
        obtain j where j: "j \<le> d" "r = Inr () \<longrightarrow> j = d"
            "row_upto M n ?eos (caps ! b) (prompts ! b) (Suc (Suc s) + j) =
             row_upto M n ?eos (caps ! b) (prompts ! b) (Suc (Suc s)) @ row_tokens b evs2"
          using ih b by blast
        then show ?thesis using one [OF b] evs by (intro exI [of _ "Suc j"]) simp
      qed
      then show ?thesis using h ih Inr by auto
    qed
  qed
qed

subsection \<open>Freeing a batch\<close>

lemma send_frame_keys: "send_frame E a key mt b m = (m', r) \<Longrightarrow> map fst (m_conns m') = map fst (m_conns m)"
  by (auto simp: send_frame_def Let_def tick_contact_def split: if_splits option.splits prod.splits outcome.splits)

lemma send_all_frame:
  "dom (map_of (m_workers (send_all E key b addrs m))) = dom (map_of (m_workers m)) \<and>
   map fst (m_conns (send_all E key b addrs m)) = map fst (m_conns m)"
proof (induction addrs arbitrary: m)
  case (Cons a addrs)
  obtain m1 r where s: "send_frame E a key (msg_code KV_CTRL) b m = (m1, r)" by fastforce
  then show ?case using Cons.IH [of m1] send_frame_frame [OF s] send_frame_keys [OF s] by simp
qed simp

definition freed :: "int \<Rightarrow> string \<Rightarrow> ('e, 'p) mesh \<Rightarrow> bool" where
  "freed bid a m \<longleftrightarrow> (\<forall>w. map_of (m_workers m) a = Some w \<longrightarrow> map_of (w_sessions w) bid = None)"

lemma send_free:
  assumes q: "quiet_net E" and op: "conns_open m" and key: "key = me_key E a" and w: "a \<in> dom (map_of (m_workers m))"
    and b: "kv_frame bid KVOP_FREE 0 = Inr b" and s: "send_frame E a key (msg_code KV_CTRL) b m = (m', r)"
  shows "conns_open m' \<and> freed bid a m' \<and> (\<forall>a'. a' \<noteq> a \<longrightarrow> map_of (m_workers m') a' = map_of (m_workers m) a')"
proof -
  obtain w where w: "map_of (m_workers m) a = Some w" using w by auto
  have c: "map_of (m_conns m) a \<noteq> Some False" using op by (simp add: conns_open_def)
  let ?w = "w\<lparr>w_sessions := dpop bid (w_sessions w), w_touch := dpop bid (w_touch w)\<rparr>"
  have m: "msg_of_code (msg_code KV_CTRL) = Some KV_CTRL" by (rule msg_of_code_of)
  have h: "handle_frame L P now (msg_code KV_CTRL) b w [] () = (?w, [], (), Silent)" for L P now
    using kv_frame_fields [OF b] m by (simp add: handle_frame_def handle_kv_ctrl_def Let_def)
  have "m' = (tick_contact m)\<lparr>m_workers := dmod a (\<lambda>_. ?w) (m_workers m)\<rparr>"
    using s q c key w h by (simp add: send_frame_def quiet_net_def tick_contact_def Let_def)
  then show ?thesis using op w by (auto simp: conns_open_def freed_def tick_contact_def dict_simps)
qed

lemma send_all_frees:
  assumes q: "quiet_net E" and b: "kv_frame bid KVOP_FREE 0 = Inr b"
  shows "conns_open m \<Longrightarrow> \<forall>a \<in> set addrs. me_key E a = key \<and> a \<in> dom (map_of (m_workers m)) \<Longrightarrow>
    conns_open (send_all E key b addrs m) \<and> (\<forall>a \<in> set addrs. freed bid a (send_all E key b addrs m)) \<and>
    (\<forall>a. freed bid a m \<longrightarrow> freed bid a (send_all E key b addrs m))"
proof (induction addrs arbitrary: m)
  case (Cons a addrs)
  obtain m1 r where s: "send_frame E a key (msg_code KV_CTRL) b m = (m1, r)" by fastforce
  have key: "key = me_key E a" and w: "a \<in> dom (map_of (m_workers m))" using Cons.prems(2) by auto
  have one: "conns_open m1" "freed bid a m1" "\<And>a'. a' \<noteq> a \<Longrightarrow> map_of (m_workers m1) a' = map_of (m_workers m) a'"
    using send_free [OF q Cons.prems(1) key w b s] by blast+
  have "dom (map_of (m_workers m1)) = dom (map_of (m_workers m))" using send_frame_frame [OF s] by blast
  then have "\<forall>a \<in> set addrs. me_key E a = key \<and> a \<in> dom (map_of (m_workers m1))" using Cons.prems(2) by simp
  note ih = Cons.IH [OF one(1) this]
  have "freed bid a' m1" if "freed bid a' m" for a' using one(2,3) that by (cases "a' = a") (simp_all add: freed_def)
  then show ?case using ih one(2) s by simp
qed simp

definition batch_freed :: "('e list, 'l) batch_coord \<Rightarrow> int \<Rightarrow> 'e list static \<Rightarrow> bool" where
  "batch_freed C bid st \<longleftrightarrow> map_of (s_batches st) bid = None \<and> (\<forall>a \<in> set (bc_addrs C). freed bid a (s_mesh st))"

lemma reset_batch_ok:
  assumes good: "stages_good E C M n room enc lay (bc_addrs C)" and st: "static_ok (bc_addrs C) st" and bid: "id_ok bid"
  shows "static_ok (bc_addrs C) (reset_batch E C bid st) \<and> s_next (reset_batch E C bid st) = s_next st \<and>
    map_of (s_batches (reset_batch E C bid st)) bid = None \<and>
    (quiet_net E \<and> conns_open (s_mesh st) \<longrightarrow> conns_open (s_mesh (reset_batch E C bid st)) \<and>
      (map fst (m_conns (s_mesh st)) = bc_addrs C \<longrightarrow> batch_freed C bid (reset_batch E C bid st)))"
proof -
  have "bid AND mask 32 = bid" using bid by (simp add: id_ok_def take_bit_int_eq_self_iff flip: take_bit_eq_mask)
  then have low: "bid AND 0xFFFFFFFF = bid" by (simp add: mask_eq_exp_minus_1)
  obtain b where b: "kv_frame bid KVOP_FREE 0 = Inr b" using bid by (auto simp: kv_frame_def id_ok_def pack_uint_def KVOP_FREE_def)
  let ?m = "send_all E (bc_key C) b (map fst (m_conns (s_mesh st))) (s_mesh st)"
  have r: "s_mesh (reset_batch E C bid st) = ?m" "s_next (reset_batch E C bid st) = s_next st"
      "s_batches (reset_batch E C bid st) = dpop bid (s_batches st)"
    using b by (simp_all add: reset_batch_def Let_def low)
  have ok: "static_ok (bc_addrs C) (reset_batch E C bid st)"
    using st send_all_frame [of E "bc_key C" b "map fst (m_conns (s_mesh st))" "s_mesh st"] unfolding static_ok_def r(1) by simp
  have none: "map_of (s_batches (reset_batch E C bid st)) bid = None" by (simp add: r(3) dict_simps)
  have stages: "me_key E a = bc_key C \<and> a \<in> dom (map_of (m_workers (s_mesh st)))" if "a \<in> set (map fst (m_conns (s_mesh st)))" for a
  proof -
    have "map fst (m_conns (s_mesh st)) = bc_addrs C"
      using st that unfolding static_ok_def by (metis empty_iff empty_set)
    then have "a \<in> set (bc_addrs C)" using that by simp
    then show ?thesis using good st unfolding stages_good_def static_ok_def by blast
  qed
  have "conns_open ?m \<and> (\<forall>a \<in> set (map fst (m_conns (s_mesh st))). freed bid a ?m)" if "quiet_net E" "conns_open (s_mesh st)"
    using send_all_frees [OF that(1) b that(2), of "map fst (m_conns (s_mesh st))" "bc_key C"] stages by blast
  then have "quiet_net E \<and> conns_open (s_mesh st) \<longrightarrow> conns_open ?m \<and>
      (map fst (m_conns (s_mesh st)) = bc_addrs C \<longrightarrow> (\<forall>a \<in> set (bc_addrs C). freed bid a ?m))" by metis
  then show ?thesis using ok none r(2) unfolding batch_freed_def r(1) by blast
qed

subsection \<open>The whole batch\<close>

lemma row_positions_less: "\<forall>p \<in> set (row_positions row). p < length row"
proof
  fix p assume "p \<in> set (row_positions row)"
  then obtain j where j: "j < length row" "p = length (filter id (take (Suc j) row)) - 1" by (auto simp: row_positions_def)
  have "length (filter id (take (Suc j) row)) \<le> Suc j" by (metis length_filter_le length_take min.bounded_iff order_trans)
  then show "p < length row" using j by linarith
qed

lemma row_text_greedy:
  "row_upto M n eos cap p s = until_eos eos (greedy (whole_next M n) p (min (nat cap) s))"
  by (simp add: row_text_def take_greedy)

lemma until_eos_prefix: "a \<le> b \<Longrightarrow> prefix (until_eos eos (greedy nx p a)) (until_eos eos (greedy nx p b))"
proof -
  assume "a \<le> b"
  then obtain d where "b = a + d" using le_Suc_ex by blast
  then have g: "greedy nx p b = greedy nx p a @ greedy nx (p @ greedy nx p a) d" by (simp add: greedy_add)
  show ?thesis
  proof (cases "\<exists>t \<in> set (greedy nx p a). t \<in> eos")
    case True
    then show ?thesis unfolding g by (simp add: until_eos_append_stop)
  next
    case False
    then show ?thesis unfolding g by (simp add: until_eos_append_all until_eos_all)
  qed
qed

lemma batch_prefill:
  assumes sys: "static_system E C M n enc room lay ll" and st: "static_ok (bc_addrs C) st" and bid: "id_ok bid"
    and B: "prompts \<noteq> []" "[] \<notin> set prompts" "length caps = length prompts"
    and K: "\<forall>p \<in> set prompts. length p \<le> K" "length prompts * K \<le> room"
    and pad: "pad_rows (bc_pad C) prompts = (ids, attn)"
    and x: "relay_batch E C bid 0 (bc_embed C ids) (bc_ids C (map row_positions attn)) (bc_mask C attn) st = (st', r)"
  shows "static_ok (bc_addrs C) st' \<and> s_next st' = s_next st \<and>
    (quiet_net E \<and> conns_open (s_mesh st) \<longrightarrow> conns_open (s_mesh st') \<and> (\<exists>h. r = Inr h)) \<and>
    (\<forall>h rows ev. r = Inr h \<and> emit stop (bc_eos C) caps (next_tokens C h) (replicate (length prompts) (False, 0)) = (rows, ev) \<longrightarrow>
       (\<exists>k \<le> K. batch_going C M n lay ll stop bid caps prompts k 0 attn (map row_length attn) (next_tokens C h) rows st') \<and>
       (\<forall>b < length prompts. row_upto M n (batch_stops stop (bc_eos C)) (caps ! b) (prompts ! b) (Suc 0) = row_tokens b ev))"
proof -
  let ?B = "length prompts" let ?nx = "whole_next M n" let ?sts = "batch_layout ll lay (bc_addrs C)"
  let ?cs = "map (\<lambda>_. replicate n []) ?sts :: 'a list stage_kv list"
  obtain t where t: "rect ?B t ids" "rect ?B t attn" "t \<le> K"
      and row: "\<And>b. b < ?B \<Longrightarrow> length (prompts ! b) \<le> t \<and> sel (attn ! b) (ids ! b) = prompts ! b \<and>
        length (filter id (attn ! b)) = length (prompts ! b) \<and> (prompts ! b \<noteq> [] \<longrightarrow> last (attn ! b))"
    using pad_rows_rect [OF pad] K(1) by blast
  have ne: "prompts ! b \<noteq> []" if "b < ?B" for b using B(2) that by (metis nth_mem)
  have B0: "0 < ?B" using B(1) by simp
  have t0: "0 < t" using row [OF B0] ne [OF B0] by (cases "prompts ! 0") auto
  have len: "length row = t" if "row \<in> set attn" for row using t(2) that by (simp add: rect_def)
  have "?B * t \<le> room" using K(2) t(3) by (metis le_trans mult_le_mono2)
  then have shape: "batch_shape room ?B t 0 ids (map row_positions attn) attn"
    using t t0 B0 row_positions_less len by (fastforce simp: batch_shape_def rect_def row_positions_def)
  have s0: "batch_session M n ?sts ?B 0 (replicate ?B []) (\<lambda>_. []) ?cs" by (rule batch_session_start [OF layout_wf [OF sys]])
  have ex: "\<exists>w. map_of (m_workers (s_mesh st)) a = Some w" if "a \<in> set (bc_addrs C)" for a
    using st that unfolding static_ok_def by blast
  then have "stages_at n 0 bid (s_mesh st) (bc_addrs C) (map (\<lambda>_. replicate n []) (map lay (bc_addrs C)))"
    by (simp add: stages_at_def cached_def list_all2_map2 list_all2_same)
  then have at: "batch_at n 0 bid ll (bc_addrs C) st ?cs" by (cases ll) (simp_all add: batch_at_def batch_layout_def)
  have id0: "id_ok (int 0)" by (simp add: id_ok_def)
  have x': "relay_batch E C bid (int 0) (bc_embed C ids) (bc_ids C (map row_positions attn)) (bc_mask C attn) st = (st', r)" using x by simp
  have "take 0 (attn ! b) = replicate ?B [] ! b" if "b < ?B" for b using that by simp
  moreover have "sel (drop 0 (attn ! b)) (ids ! b) = prompts ! b" if "b < ?B" for b using row [OF that] by simp
  moreover have "sel (drop 0 (attn ! b)) (map row_positions attn ! b) = map (\<lambda>i. i + length ([] :: int list)) [0 ..< length (prompts ! b)]"
    if "b < ?B" for b using row [OF that] t(2) that by (simp add: rect_def row_positions_marked)
  moreover have "last (attn ! b)" if "b < ?B" for b using row [OF that] ne [OF that] by simp
  ultimately have adv: "static_ok (bc_addrs C) st' \<and> s_next st' = s_next st \<and>
      (quiet_net E \<and> conns_open (s_mesh st) \<longrightarrow> conns_open (s_mesh st') \<and> (\<exists>h. r = Inr h)) \<and>
      (\<forall>h. r = Inr h \<longrightarrow> next_tokens C h = map (\<lambda>b. ?nx ([] @ prompts ! b)) [0 ..< ?B] \<and>
         (\<exists>cs'. batch_session M n ?sts ?B (0 + t) attn (\<lambda>b. [] @ prompts ! b) cs' \<and> batch_hold bid ll (bc_addrs C) st' cs'))"
    using batch_advance [OF sys st s0 at bid id0 shape, where new = "\<lambda>b. prompts ! b"] x' ne by blast
  have step: "batch_going C M n lay ll stop bid caps prompts t 0 attn (map row_length attn) (next_tokens C h) rows st' \<and>
       (\<forall>b < ?B. row_upto M n (batch_stops stop (bc_eos C)) (caps ! b) (prompts ! b) (Suc 0) = row_tokens b ev)"
    if r: "r = Inr h" and e: "emit stop (bc_eos C) caps (next_tokens C h) (replicate ?B (False, 0)) = (rows, ev)" for h rows ev
  proof -
    have toks: "next_tokens C h = map (\<lambda>b. ?nx (prompts ! b)) [0 ..< ?B]" using adv r by simp
    have er: "length rows = ?B" "\<And>b. b < ?B \<Longrightarrow> (rows ! b, row_tokens b ev) = emit_row stop (bc_eos C) (caps ! b) (?nx (prompts ! b)) (False, 0)"
      using emit_rows [OF e B(3)] by (simp_all add: toks)
    have "row_ok (batch_stops stop (bc_eos C)) cap [] (False, 0)" for cap by (simp add: row_ok_def row_text_def until_eos_def)
    then have one: "row_ok (batch_stops stop (bc_eos C)) (caps ! b) ([] @ [?nx (prompts ! b)]) (rows ! b) \<and>
        row_text (batch_stops stop (bc_eos C)) (caps ! b) ([] @ [?nx (prompts ! b)]) =
          row_text (batch_stops stop (bc_eos C)) (caps ! b) [] @ row_tokens b ev" if "b < ?B" for b
      using emit_row_ok er(2) [OF that, symmetric] by blast
    have nil: "row_text eos cap [] = []" for eos cap by (simp add: row_text_def until_eos_def)
    have lens: "map row_length attn = map (\<lambda>b. length (prompts ! b)) [0 ..< ?B]"
      using row t(2) by (intro nth_equalityI) (simp_all add: rect_def row_length_marked)
    obtain cs' where "batch_session M n ?sts ?B t attn (\<lambda>b. prompts ! b) cs'" "batch_hold bid ll (bc_addrs C) st' cs'"
      using adv r by auto
    then show ?thesis
      unfolding batch_going_def Let_def using toks er(1) one lens row nil by auto
  qed
  show ?thesis using adv step t(3) by blast
qed

lemma batch_rows_spec:
  assumes sys: "static_system E C M n enc room lay ll" and st: "static_ok (bc_addrs C) st" and bid: "id_ok (s_next st)"
    and B: "prompts \<noteq> []" "[] \<notin> set prompts" "length caps = length prompts"
    and K: "\<forall>p \<in> set prompts. length p \<le> K" "length prompts * (K + nat (Max (set caps))) \<le> room" "Max (set caps) < 2 ^ 32"
    and x: "generate_batch_stream E C stop prompts caps st = (st', evs, r)"
  shows "(\<forall>b < length prompts.
      prefix (row_tokens b evs)
        (until_eos (batch_stops stop (bc_eos C)) (greedy (whole_next M n) (prompts ! b) (nat (caps ! b)))) \<and>
      (r = Inr () \<longrightarrow> row_tokens b evs =
         until_eos (batch_stops stop (bc_eos C)) (greedy (whole_next M n) (prompts ! b) (nat (caps ! b))))) \<and>
    static_ok (bc_addrs C) st' \<and> s_next st' = s_next st + 1 \<and> map_of (s_batches st') (s_next st) = None \<and>
    (quiet_net E \<and> conns_open (s_mesh st) \<longrightarrow> conns_open (s_mesh st') \<and> r = Inr () \<and> batch_freed C (s_next st) st')"
proof -
  let ?B = "length prompts" and ?bid = "s_next st" and ?nx = "whole_next M n" and ?eos = "batch_stops stop (bc_eos C)"
  let ?st = "st\<lparr>s_next := ?bid + 1\<rparr>" and ?d = "nat (Max (set caps) - 1)"
  have good: "stages_good E C M n room enc lay (bc_addrs C)" using sys by (simp add: static_system_def)
  have st0: "static_ok (bc_addrs C) ?st" using st by (simp add: static_ok_def)
  have roomK: "?B * K \<le> room" using K(2) by (metis le_add1 le_trans mult_le_mono2)
  have cap: "nat (caps ! b) \<le> nat (Max (set caps))" if "b < ?B" for b using that B(3) by (intro nat_mono Max_ge) simp_all
  obtain ids attn where pad: "pad_rows (bc_pad C) prompts = (ids, attn)" by fastforce
  obtain st1 r1 where rl: "relay_batch E C ?bid 0 (bc_embed C ids) (bc_ids C (map row_positions attn)) (bc_mask C attn) ?st = (st1, r1)" by fastforce
  note pre = batch_prefill [OF sys st0 bid B K(1) roomK pad rl]
  show ?thesis
  proof (cases r1)
    case (Inl e)
    then have out: "st' = reset_batch E C ?bid st1" "evs = []" "r = Inl e" using x pad rl by (simp_all add: generate_batch_stream_def Let_def)
    have "static_ok (bc_addrs C) st1" "s_next st1 = ?bid + 1" "\<not> (quiet_net E \<and> conns_open (s_mesh st))" using pre Inl by auto
    then show ?thesis using reset_batch_ok [OF good _ bid, of st1] out by auto
  next
    case (Inr h)
    obtain rows ev where e: "emit stop (bc_eos C) caps (next_tokens C h) (replicate ?B (False, 0)) = (rows, ev)" by fastforce
    obtain st2 evs2 where l: "batch_loop E C stop ?bid caps [0 ..< 0 + ?d] attn (map row_length attn) (next_tokens C h) rows st1 = (st2, evs2, r)"
        and out: "st' = reset_batch E C ?bid st2" "evs = ev @ evs2"
      using x pad rl Inr e by (auto simp: generate_batch_stream_def Let_def split: prod.splits)
    obtain k where k: "k \<le> K" and going: "batch_going C M n lay ll stop ?bid caps prompts k 0 attn (map row_length attn) (next_tokens C h) rows st1"
        and one: "\<And>b. b < ?B \<Longrightarrow> row_upto M n ?eos (caps ! b) (prompts ! b) (Suc 0) = row_tokens b ev"
      using pre Inr e by blast
    have ok1: "static_ok (bc_addrs C) st1" using pre by blast
    have "?B * (k + ?d) \<le> ?B * (K + nat (Max (set caps)))" using k by (intro mult_le_mono2 add_mono) simp_all
    from le_trans [OF this K(2)] have lim: "0 + ?d < 2 ^ 32" "?B * (k + ?d) \<le> room" using K(3) by simp_all
    note lp = batch_loop_ok [OF sys ok1 going bid lim(1) B(1,3) lim(2) l]
    have row: "prefix (row_tokens b evs) (until_eos ?eos (greedy ?nx (prompts ! b) (nat (caps ! b)))) \<and>
        (r = Inr () \<longrightarrow> row_tokens b evs = until_eos ?eos (greedy ?nx (prompts ! b) (nat (caps ! b))))" if b: "b < ?B" for b
    proof -
      obtain j where "r = Inr () \<longrightarrow> j = ?d"
          "row_upto M n ?eos (caps ! b) (prompts ! b) (Suc 0 + j) = row_upto M n ?eos (caps ! b) (prompts ! b) (Suc 0) @ row_tokens b evs2"
        using lp b by blast
      then have j: "r = Inr () \<longrightarrow> j = ?d" "row_upto M n ?eos (caps ! b) (prompts ! b) (Suc 0 + j) = row_tokens b evs"
        unfolding one [OF b] out(2) by simp_all
      then have eq: "row_tokens b evs = until_eos ?eos (greedy ?nx (prompts ! b) (min (nat (caps ! b)) (Suc j)))"
        by (simp only: row_text_greedy add_Suc add_0)
      have "nat (caps ! b) \<le> Suc ?d" using cap [OF b] by linarith
      then show ?thesis using j(1) unfolding eq by (auto intro: until_eos_prefix)
    qed
    have fin: "static_ok (bc_addrs C) st2" "s_next st2 = ?bid + 1" using lp pre by auto
    have quiet: "conns_open (s_mesh st2) \<and> r = Inr () \<and> map fst (m_conns (s_mesh st2)) = bc_addrs C"
      if "quiet_net E \<and> conns_open (s_mesh st)" using lp pre that by simp
    show ?thesis using reset_batch_ok [OF good fin(1) bid] row quiet fin(2) out(1) by auto
  qed
qed

text \<open>C5. Decoding a batch of prompts is decoding each of them alone.  For every prompt the tokens yielded for its
  row, in order, are the whole model's greedy continuation of that prompt up to its first end token and its own
  cap, whatever the other prompts, their lengths and caps, and however the layers are split over the stages.  When
  a stage fails, what a row has yielded is a prefix of that.  On a quiet network no stage fails, and afterwards
  neither the coordinator nor any stage holds the batch's cache.\<close>

theorem batch_rows_are_greedy:
  assumes sys: "static_system E C M n enc room lay ll" and st: "static_ok (bc_addrs C) st" and bid: "id_ok (s_next st)"
    and B: "prompts \<noteq> []" "[] \<notin> set prompts" "length caps = length prompts"
    and K: "\<forall>p \<in> set prompts. length p \<le> K" "length prompts * (K + nat (Max (set caps))) \<le> room" "Max (set caps) < 2 ^ 32"
    and x: "generate_batch_stream E C stop prompts caps st = (st', evs, r)"
  shows "(\<forall>b < length prompts.
      prefix (row_tokens b evs)
        (until_eos (batch_stops stop (bc_eos C)) (greedy (whole_next M n) (prompts ! b) (nat (caps ! b)))) \<and>
      (r = Inr () \<longrightarrow> row_tokens b evs =
         until_eos (batch_stops stop (bc_eos C)) (greedy (whole_next M n) (prompts ! b) (nat (caps ! b))))) \<and>
    static_ok (bc_addrs C) st' \<and> s_next st' = s_next st + 1 \<and> map_of (s_batches st') (s_next st) = None \<and>
    (quiet_net E \<and> conns_open (s_mesh st) \<longrightarrow> conns_open (s_mesh st') \<and> r = Inr () \<and> batch_freed C (s_next st) st')"
  using batch_rows_spec [OF assms] .

subsection \<open>A small batch\<close>

definition byte_rows :: "8 word list list \<Rightarrow> tensor" where
  "byte_rows hs = \<lparr>t_dtype = U8, t_shape = [length hs, length (hd hs), 1], t_raw = concat hs\<rparr>"

definition int_rows :: "nat list list \<Rightarrow> tensor" where
  "int_rows ps = \<lparr>t_dtype = I32, t_shape = [length ps, length (hd ps)], t_raw = concat (map (\<lambda>p. [of_nat p, 0, 0, 0]) (concat ps))\<rparr>"

definition mask_rows :: "bool list list \<Rightarrow> tensor" where
  "mask_rows attn = \<lparr>t_dtype = U8, t_shape = [length attn, length (hd attn)], t_raw = concat (map (map of_bool) attn)\<rparr>"

definition row_chunks :: "nat \<Rightarrow> nat \<Rightarrow> 'a list \<Rightarrow> 'a list list" where
  "row_chunks b t xs = map (\<lambda>i. take t (drop (i * t) xs)) [0 ..< b]"

lemma row_chunks_concat: "rect b t xss \<Longrightarrow> row_chunks b t (concat xss) = xss"
proof (induction xss arbitrary: b)
  case Nil
  then show ?case by (simp add: rect_def row_chunks_def)
next
  case (Cons xs xss)
  then obtain b' where b: "b = Suc b'" "rect b' t xss" "length xs = t" by (auto simp: rect_def)
  have "row_chunks (Suc b') t (xs @ concat xss) = xs # row_chunks b' t (concat xss)"
    unfolding row_chunks_def using b(3) by (simp add: upt_conv_Cons map_Suc_upt [symmetric] o_def del: upt_Suc)
  then show ?case using b Cons.IH by simp
qed

definition batch_lib :: "nat list \<Rightarrow> nat \<Rightarrow> 8 word list stage_lib" where
  "batch_lib gs n = \<lparr>sl_forward = (\<lambda>md x c.
       case md of
         Padded ids attn \<Rightarrow>
           (case batch_stage byte_model gs c (row_chunks (t_shape x ! 0) (t_shape x ! 1) (t_raw x))
                   (row_chunks (t_shape ids ! 0) (t_shape ids ! 1) (map unat (map hd (row_chunks (t_shape ids ! 0 * t_shape ids ! 1) 4 (t_raw ids)))))
                   (row_chunks (t_shape attn ! 0) (t_shape attn ! 1) (map (\<lambda>x. x \<noteq> 0) (t_raw attn))) of
              (o1, c') \<Rightarrow> (c', Inr (byte_rows o1)))
       | _ \<Rightarrow> (c, Inl RuntimeError)),
     sl_tolist = (\<lambda>x. Inr (map uint (t_raw x))), sl_slots = n\<rparr>"

lemma hd_rect: "rect b t xss \<Longrightarrow> 0 < b \<Longrightarrow> length (hd xss) = t"
  by (cases xss) (auto simp: rect_def)

lemma length_concat_rect: "rect b t xss \<Longrightarrow> length (concat xss) = b * t"
  by (induction xss arbitrary: b) (auto simp: rect_def)

lemma batch_lib_serves: "batch_serves byte_model n 200 byte_rows int_rows mask_rows gs (batch_lib gs n)"
proof -
  have "sl_forward (batch_lib gs n) (Padded (int_rows ps) (mask_rows attn)) (byte_rows hs) c =
      (case batch_stage byte_model gs c hs ps attn of (o1, c') \<Rightarrow> (c', Inr (byte_rows o1)))"
    if s: "batch_shape 200 b t k hs ps attn" for hs ps attn and c :: "8 word list stage_kv" and b t k
  proof -
    have r: "rect b t hs" "rect b t ps" "rect b (k + t) attn" "0 < b" "0 < t" using s by (simp_all add: batch_shape_def)
    have le: "k + t \<le> 200" using s le_trans [OF mult_le_mono1 [of 1 b "k + t"]] by (simp add: batch_shape_def)
    have small: "p < 256" if p: "p \<in> set (concat ps)" for p
    proof -
      have "p < k + t" using s p unfolding batch_shape_def by auto
      then show ?thesis using le by linarith
    qed
    have rect4: "rect (b * t) 4 (map (\<lambda>p. [of_nat p :: 8 word, 0, 0, 0]) (concat ps))"
      using length_concat_rect [OF r(2)] by (auto simp: rect_def)
    have "map unat (map hd (row_chunks (b * t) 4 (concat (map (\<lambda>p. [of_nat p :: 8 word, 0, 0, 0]) (concat ps))))) = concat ps"
      unfolding row_chunks_concat [OF rect4] map_map o_def list.sel using small by (intro map_idI) (simp add: unat_of_nat)
    moreover have "map (\<lambda>x. x \<noteq> (0 :: 8 word)) (concat (map (map of_bool) attn)) = concat attn"
      by (simp add: map_concat o_def)
    ultimately show ?thesis
      using r hd_rect [OF r(1,4)] hd_rect [OF r(2,4)] hd_rect [OF r(3,4)] row_chunks_concat [OF r(1)] row_chunks_concat [OF r(2)] row_chunks_concat [OF r(3)]
      by (simp add: batch_lib_def byte_rows_def int_rows_def mask_rows_def rect_def)
  qed
  moreover have "sl_slots (batch_lib gs n) = n" by (simp add: batch_lib_def)
  ultimately show ?thesis unfolding batch_serves_def by blast
qed

lemma rows_rep: "batch_rep 200 byte_rows" "batch_rep 200 int_rows" "batch_rep 200 mask_rows"
proof -
  have dim: "b < 2 ^ 32 \<and> t < 2 ^ 32 \<and> b * t \<noteq> 0" if "0 < b" "0 < t" "b * t \<le> 200" for b t :: nat
  proof -
    have "b * 1 \<le> b * t" "1 * t \<le> b * t" using that(1,2) by (intro mult_le_mono; simp)+
    from this [THEN le_trans [OF _ that(3)]] show ?thesis using that(1,2) by simp
  qed
  have four: "length (concat (map (\<lambda>p. [of_nat p :: 8 word, 0, 0, 0]) xs)) = 4 * length xs" for xs by (induction xs) simp_all
  have bits: "length (concat (map (map of_bool) attn)) = length (concat attn)" for attn :: "bool list list" by (induction attn) simp_all
  have ok: "tensor_ok T \<and> (\<exists>p. pack_tensor T = Inr p \<and> length p < 2 ^ 32)"
    if T: "T = \<lparr>t_dtype = d, t_shape = b # t # e, t_raw = raw\<rparr>" "d \<noteq> OtherDtype" "set e \<subseteq> {1}" "length e \<le> 1"
      "length raw = itemsize d * (b * t)" "0 < b" "0 < t" "b * t \<le> 200" for T d b t e raw
  proof -
    have i: "0 < itemsize d \<and> itemsize d \<le> 8" by (cases d) simp_all
    have "itemsize d * (b * t) \<le> 8 * 200" using i T(8) mult_le_mono by blast
    then have raw: "raw \<noteq> []" "length raw \<le> 1600" using T(5) dim [OF T(6-8)] i by (metis list.size(3) mult_is_0 not_less_zero, simp)
    have e: "e = [] \<or> e = [1]" using T(3,4) by (cases e) auto
    obtain c where c: "dtype_code d = Some c" using T(2) by (cases d) simp_all
    have "tensor_ok T" using e raw(1) T(5) by (auto simp: T(1) tensor_ok_def)
    moreover have "\<exists>p. pack_tensor T = Inr p \<and> length p < 2 ^ 32"
      using e raw dim [OF T(6-8)] c by (auto simp: T(1) pack_tensor_def pack_uint_def)
    ultimately show ?thesis by blast
  qed
  show "batch_rep 200 byte_rows"
    unfolding batch_rep_def
  proof (intro allI impI)
    fix b t and xss :: "8 word list list"
    assume h: "rect b t xss \<and> 0 < b \<and> 0 < t \<and> b * t \<le> 200"
    then show "tensor_ok (byte_rows xss) \<and> (\<exists>p. pack_tensor (byte_rows xss) = Inr p \<and> length p < 2 ^ 32)"
      using hd_rect [of b t xss] length_concat_rect [of b t xss]
      by (intro ok [of _ U8 b t "[1]" "concat xss"]) (auto simp: byte_rows_def rect_def)
  qed
  show "batch_rep 200 int_rows"
    unfolding batch_rep_def
  proof (intro allI impI)
    fix b t and xss :: "nat list list"
    assume h: "rect b t xss \<and> 0 < b \<and> 0 < t \<and> b * t \<le> 200"
    then show "tensor_ok (int_rows xss) \<and> (\<exists>p. pack_tensor (int_rows xss) = Inr p \<and> length p < 2 ^ 32)"
      using hd_rect [of b t xss] length_concat_rect [of b t xss] four [of "concat xss"]
      by (intro ok [of _ I32 b t "[]" "t_raw (int_rows xss)"]) (auto simp: int_rows_def rect_def)
  qed
  show "batch_rep 200 mask_rows"
    unfolding batch_rep_def
  proof (intro allI impI)
    fix b t and xss :: "bool list list"
    assume h: "rect b t xss \<and> 0 < b \<and> 0 < t \<and> b * t \<le> 200"
    then show "tensor_ok (mask_rows xss) \<and> (\<exists>p. pack_tensor (mask_rows xss) = Inr p \<and> length p < 2 ^ 32)"
      using hd_rect [of b t xss] length_concat_rect [of b t xss] bits [of xss]
      by (intro ok [of _ U8 b t "[]" "t_raw (mask_rows xss)"]) (auto simp: mask_rows_def rect_def)
  qed
qed

text \<open>Layers 0 and 1 beside the coordinator, layers 2 and 3 on two workers.\<close>

definition batch_lay :: "string \<Rightarrow> nat list" where
  "batch_lay a = (if a = ''b'' then [2] else [3])"

definition batch_env :: "8 word list mesh_env" where
  "batch_env = \<lparr>me_lib = (\<lambda>a. batch_lib (batch_lay a) 4), me_key = (\<lambda>_. [7]), me_at = (\<lambda>_. None),
     me_net = (\<lambda>_ _. Delivered), me_clock = (\<lambda>_. 0)\<rparr>"

definition demo_batch :: "(8 word list, 8 word) batch_coord" where
  "demo_batch = \<lparr>bc_key = [7], bc_local = Some (batch_lib [0, 1] 4), bc_addrs = [''b'', ''c''],
     bc_embed = (\<lambda>ids. byte_rows (map (map of_int) ids)), bc_ids = int_rows, bc_mask = mask_rows,
     bc_i32 = id, bc_u8 = id, bc_logits = (\<lambda>x. row_chunks (t_shape x ! 0) (t_shape x ! 1) (t_raw x)), bc_argmax = uint, bc_eos = {0}, bc_pad = 0\<rparr>"

definition batch_start :: "8 word list static" where
  "batch_start = \<lparr>s_mesh = \<lparr>m_workers = [(''b'', \<lparr>w_sessions = [], w_touch = []\<rparr>), (''c'', \<lparr>w_sessions = [], w_touch = []\<rparr>)],
     m_conns = [], m_routes = [], m_local = [], m_keys = [], m_prov = (), m_contacts = 0\<rparr>, s_batches = [], s_next = first_batch_id\<rparr>"

lemma demo_batch_system: "static_system batch_env demo_batch byte_model 4 byte_rows 200 batch_lay (Some [0, 1])"
proof -
  have "map (map (m_head byte_model)) hs = hs" for hs by (simp add: byte_model_def map_idI)
  moreover have "bc_logits demo_batch (byte_rows hs) = hs" if "rect b t hs" "0 < b" for b t hs
    using that hd_rect [OF that] row_chunks_concat [OF that(1)] by (simp add: demo_batch_def byte_rows_def rect_def)
  moreover have "batch_rep 200 (\<lambda>x. bc_i32 demo_batch (bc_ids demo_batch x))" "batch_rep 200 (\<lambda>x. bc_u8 demo_batch (bc_mask demo_batch x))"
    using rows_rep by (simp_all add: demo_batch_def)
  moreover have "stages_good batch_env demo_batch byte_model 4 200 byte_rows batch_lay (bc_addrs demo_batch)"
    using batch_lib_serves [of 4] by (simp add: stages_good_def demo_batch_def batch_env_def)
  moreover have "concat (batch_layout (Some [0, 1]) batch_lay (bc_addrs demo_batch)) = [0 ..< 4]"
    by (simp add: batch_layout_def demo_batch_def batch_lay_def upt_rec)
  moreover have "bc_embed demo_batch ids = byte_rows (map (map (m_embed byte_model)) ids)" "bc_argmax demo_batch = m_argmax byte_model" for ids
    by (simp_all add: demo_batch_def byte_model_def)
  moreover have "bc_local demo_batch = Some (batch_lib [0, 1] 4)" "bc_ids demo_batch = int_rows" "bc_mask demo_batch = mask_rows"
    by (simp_all add: demo_batch_def)
  ultimately show ?thesis
    using rows_rep(1) batch_lib_serves [of 4 "[0, 1]"] unfolding static_system_def reps_ok_def by auto
qed

theorem batch_rows_are_greedy_witness:
  "\<exists>st' evs. generate_batch_stream batch_env demo_batch True [[3, 1, 4], [2]] [4, 2] batch_start = (st', evs, Inr ()) \<and>
     row_tokens 0 evs = until_eos {0} (greedy (whole_next byte_model 4) [3, 1, 4] 4) \<and>
     row_tokens 1 evs = until_eos {0} (greedy (whole_next byte_model 4) [2] 2) \<and> s_next st' = first_batch_id + 1"
proof -
  obtain st' evs r where g: "generate_batch_stream batch_env demo_batch True [[3, 1, 4], [2]] [4, 2] batch_start = (st', evs, r)"
    using prod_cases3 by blast
  have start: "static_ok (bc_addrs demo_batch) batch_start" "id_ok (s_next batch_start)" "quiet_net batch_env \<and> conns_open (s_mesh batch_start)"
    by (simp_all add: static_ok_def demo_batch_def batch_start_def id_ok_def first_batch_id_def quiet_net_def conns_open_def batch_env_def)
  have "(\<forall>b < length [[3, 1, 4], [2 :: int]]. r = Inr () \<longrightarrow> row_tokens b evs =
      until_eos (batch_stops True (bc_eos demo_batch)) (greedy (whole_next byte_model 4) ([[3, 1, 4], [2]] ! b) (nat ([4, 2] ! b)))) \<and>
      s_next st' = s_next batch_start + 1 \<and> r = Inr ()"
    using batch_rows_are_greedy [OF demo_batch_system start(1,2) _ _ _ _ _ _ g, of 3] start(3) by simp
  from this [THEN conjunct1, rule_format, of 0] this [THEN conjunct1, rule_format, of 1] this
  have "row_tokens 0 evs = until_eos (batch_stops True (bc_eos demo_batch)) (greedy (whole_next byte_model 4) [3, 1, 4] 4)"
    "row_tokens 1 evs = until_eos (batch_stops True (bc_eos demo_batch)) (greedy (whole_next byte_model 4) [2] 2)"
    "s_next st' = s_next batch_start + 1" "r = Inr ()" by simp_all
  moreover have "batch_stops True (bc_eos demo_batch) = {0}" by (simp add: batch_stops_def demo_batch_def)
  moreover have "s_next batch_start = first_batch_id" by (simp add: batch_start_def)
  ultimately show ?thesis using g by simp
qed

end
