(* ===== verification/Scheduler.thy ===== *)
theory Scheduler
  imports Batch_Spec
begin

section \<open>The batching scheduler\<close>

text \<open>
  \<open>BatchScheduler\<close> of \<open>engine/scheduler.py\<close>, in front of the batch decoder.  A request is its
  prompt's token ids, its cap, and its output queue, named by the number of the queue.  How many
  requests arrive within the collecting window is the argument of a \<open>Serve\<close> event; requests that
  arrive later are later \<open>Submit\<close> events.  The scheduler's thread tests the stop flag before it
  blocks for the first request of a batch, so the flag takes effect after the batch it waits for.
\<close>

datatype sched_item = Token int | Failed py_error | Done

record 'e sched =
  sc_static :: "'e static"
  sc_queue :: "(int list \<times> int \<times> nat) list"
  sc_outs :: "sched_item list list"
  sc_stopped :: bool
  sc_collecting :: bool

datatype sched_event = Submit "int list" int | Serve nat | Stop

definition mk_sched :: "'e static \<Rightarrow> 'e sched" where
  "mk_sched st = \<lparr>sc_static = st, sc_queue = [], sc_outs = [], sc_stopped = False, sc_collecting = True\<rparr>"

definition submit :: "int list \<Rightarrow> int \<Rightarrow> 'e sched \<Rightarrow> 'e sched" where
  "submit prompt max_tokens s =
     s\<lparr>sc_queue := sc_queue s @ [(prompt, max_tokens, length (sc_outs s))], sc_outs := sc_outs s @ [[]]\<rparr>"

text \<open>The first request, and more up to \<open>max_batch\<close> as long as the window lasts.\<close>

definition collect :: "nat \<Rightarrow> nat \<Rightarrow> 'r list \<Rightarrow> 'r list \<times> 'r list" where
  "collect max_batch w q = (let n = Suc (min w (max_batch - 1)) in (take n q, drop n q))"

definition put_out :: "sched_item \<Rightarrow> sched_item list list \<Rightarrow> nat \<Rightarrow> sched_item list list" where
  "put_out x outs i = outs[i := outs ! i @ [x]]"

definition serve_batch :: "'e mesh_env \<Rightarrow> ('e, 'l) batch_coord \<Rightarrow> nat \<Rightarrow> nat \<Rightarrow> 'e sched \<Rightarrow> 'e sched" where
  "serve_batch E C max_batch w s =
     (let (batch, rest) = collect max_batch w (sc_queue s);
          prompts = map fst batch; caps = map (fst \<circ> snd) batch; outs = map (snd \<circ> snd) batch
      in case generate_batch_stream E C True prompts caps (sc_static s) of
           (st, evs, r) \<Rightarrow>
             (let o1 = foldl (\<lambda>os (b, tok). put_out (Token tok) os (outs ! b)) (sc_outs s) evs;
                  o2 = (case r of Inl e \<Rightarrow> foldl (put_out (Failed e)) o1 outs | Inr _ \<Rightarrow> o1)
              in s\<lparr>sc_static := st, sc_queue := rest, sc_outs := foldl (put_out Done) o2 outs,
                   sc_collecting := \<not> sc_stopped s\<rparr>))"

fun sched_step :: "'e mesh_env \<Rightarrow> ('e, 'l) batch_coord \<Rightarrow> nat \<Rightarrow> 'e sched \<Rightarrow> sched_event \<Rightarrow> 'e sched" where
  "sched_step E C max_batch s (Submit prompt max_tokens) = submit prompt max_tokens s"
| "sched_step E C max_batch s (Serve w) =
     (if sc_collecting s \<and> sc_queue s \<noteq> [] then serve_batch E C max_batch w s else s)"
| "sched_step E C max_batch s Stop = s\<lparr>sc_stopped := True\<rparr>"

subsection \<open>Output queues\<close>

lemma put_out_length [simp]: "length (put_out x outs i) = length outs"
  by (simp add: put_out_def)

lemma put_out_nth: "i < length outs \<Longrightarrow> j < length outs \<Longrightarrow> put_out x outs i ! j = (if i = j then outs ! j @ [x] else outs ! j)"
  by (simp add: put_out_def nth_list_update)

lemma put_all:
  "distinct ids \<Longrightarrow> set ids \<subseteq> {..< length outs} \<Longrightarrow> length (foldl (put_out x) outs ids) = length outs \<and>
     (\<forall>j < length outs. foldl (put_out x) outs ids ! j = (if j \<in> set ids then outs ! j @ [x] else outs ! j))"
proof (induction ids arbitrary: outs)
  case (Cons i ids)
  then show ?case using Cons.IH [of "put_out x outs i"] by (auto simp: put_out_nth)
qed simp

lemma put_tokens:
  assumes "distinct ids" and "set ids \<subseteq> {..< length outs}" and "\<forall>(b, t) \<in> set evs. b < length ids"
  shows "length (foldl (\<lambda>os (b, tok). put_out (Token tok) os (ids ! b)) outs evs) = length outs \<and>
     (\<forall>j < length outs. j \<notin> set ids \<longrightarrow> foldl (\<lambda>os (b, tok). put_out (Token tok) os (ids ! b)) outs evs ! j = outs ! j) \<and>
     (\<forall>b < length ids. foldl (\<lambda>os (b, tok). put_out (Token tok) os (ids ! b)) outs evs ! (ids ! b) =
        outs ! (ids ! b) @ map Token (row_tokens b evs))"
  using assms(2,3)
proof (induction evs arbitrary: outs)
  case (Cons e evs)
  obtain b t where e: "e = (b, t)" by fastforce
  let ?o = "put_out (Token t) outs (ids ! b)"
  have b: "b < length ids" using Cons.prems(2) e by auto
  then have i: "ids ! b < length outs" using Cons.prems(1) by (meson lessThan_iff nth_mem subsetD)
  have lt: "ids ! c < length outs" if "c < length ids" for c using Cons.prems(1) that by (meson lessThan_iff nth_mem subsetD)
  have row: "row_tokens c (e # evs) = (if c = b then [t] else []) @ row_tokens c evs" for c by (auto simp: row_tokens_def e)
  have "set ids \<subseteq> {..< length ?o}" "\<forall>(b, t) \<in> set evs. b < length ids" using Cons.prems by auto
  note ih = Cons.IH [OF this]
  have other: "?o ! j = outs ! j" if "j < length outs" "j \<notin> set ids" for j
    using put_out_nth [OF i that(1)] that(2) b by auto
  have mine: "?o ! (ids ! c) = outs ! (ids ! c) @ map Token (if c = b then [t] else [])" if "c < length ids" for c
    using put_out_nth [OF i lt [OF that]] that b assms(1) by (auto simp: nth_eq_iff_index_eq)
  show ?case using ih other mine by (simp add: e row [unfolded e])
qed (simp add: row_tokens_def)

lemma emit_in_range: "emit stop eos caps toks rows = (rows', ev) \<Longrightarrow> \<forall>(b, t) \<in> set ev. b < length rows"
proof -
  have "\<forall>(b, t) \<in> set (concat (map (\<lambda>(b, r). map (Pair b) (snd r)) (enumerate k rs))). b < k + length rs" for k and rs :: "('a \<times> 'b list) list"
    by (auto simp: in_set_enumerate_eq)
  from this [of 0] show "emit stop eos caps toks rows = (rows', ev) \<Longrightarrow> ?thesis" by (fastforce simp: emit_def Let_def)
qed

lemma emit_length: "emit stop eos caps toks rows = (rows', ev) \<Longrightarrow> length rows' \<le> length rows"
  by (auto simp: emit_def Let_def)

lemma batch_loop_in_range:
  "batch_loop E C stop bid caps steps attn lengths nxt rows st = (st', evs, r) \<Longrightarrow> \<forall>(b, t) \<in> set evs. b < length rows"
proof (induction E C stop bid caps steps attn lengths nxt rows st arbitrary: st' evs r rule: batch_loop.induct)
  case (2 E C stop bid caps step steps attn lengths nxt rows st)
  show ?case
  proof (cases "list_all fst rows")
    case True
    then show ?thesis using 2(2) by simp
  next
    case False
    obtain st1 r1 where x: "relay_batch E C bid (int step + 1) (bc_embed C (map (\<lambda>t. [t]) nxt)) (bc_ids C (map (\<lambda>l. [l]) lengths))
        (bc_mask C (map (\<lambda>r. r @ [True]) attn)) st = (st1, r1)" by fastforce
    show ?thesis
    proof (cases r1)
      case (Inl e)
      then show ?thesis using 2(2) False x by (auto simp: Let_def)
    next
      case (Inr h)
      obtain rows' ev where e: "emit stop (bc_eos C) caps (next_tokens C h) rows = (rows', ev)" by fastforce
      obtain st2 evs2 r2 where l: "batch_loop E C stop bid caps steps (map (\<lambda>r. r @ [True]) attn) (map Suc lengths) (next_tokens C h) rows' st1 = (st2, evs2, r2)"
        using prod_cases3 by blast
      have "\<forall>(b, t) \<in> set evs2. b < length rows'"
        using 2(1) [OF False refl x [symmetric] Inr refl refl e [symmetric] l] by simp
      moreover have "evs = ev @ evs2" using 2(2) False x Inr e l by (simp add: Let_def)
      ultimately show ?thesis using emit_in_range [OF e] emit_length [OF e] by fastforce
    qed
  qed
qed auto

lemma stream_in_range:
  assumes "generate_batch_stream E C stop prompts caps st = (st', evs, r)"
  shows "\<forall>(b, t) \<in> set evs. b < length prompts"
proof -
  obtain ids attn where pad: "pad_rows (bc_pad C) prompts = (ids, attn)" by fastforce
  obtain st1 r1 where x: "relay_batch E C (s_next st) 0 (bc_embed C ids) (bc_ids C (map row_positions attn)) (bc_mask C attn)
      (st\<lparr>s_next := s_next st + 1\<rparr>) = (st1, r1)" by fastforce
  show ?thesis
  proof (cases r1)
    case (Inl e)
    then show ?thesis using assms pad x by (simp add: generate_batch_stream_def Let_def)
  next
    case (Inr h)
    obtain rows ev where e: "emit stop (bc_eos C) caps (next_tokens C h) (replicate (length prompts) (False, 0)) = (rows, ev)" by fastforce
    obtain st2 evs2 r2 where l: "batch_loop E C stop (s_next st) caps [0 ..< nat (Max (set caps) - 1)] attn (map row_length attn)
        (next_tokens C h) rows st1 = (st2, evs2, r2)" using prod_cases3 by blast
    have "evs = ev @ evs2" using assms pad x Inr e l by (simp add: generate_batch_stream_def Let_def)
    then show ?thesis using emit_in_range [OF e] emit_length [OF e] batch_loop_in_range [OF l] by fastforce
  qed
qed

subsection \<open>What a request gets\<close>

definition requests :: "sched_event list \<Rightarrow> (int list \<times> int) list" where
  "requests evs = concat (map (\<lambda>e. case e of Submit p cap \<Rightarrow> [(p, cap)] | _ \<Rightarrow> []) evs)"

definition answer :: "('e, 'h, 'l) model_ops \<Rightarrow> nat \<Rightarrow> int set \<Rightarrow> int list \<times> int \<Rightarrow> int list" where
  "answer M n eos req = until_eos eos (greedy (whole_next M n) (fst req) (nat (snd req)))"

text \<open>All its tokens, or some of them and the error, and then the end mark.\<close>

definition served :: "('e, 'h, 'l) model_ops \<Rightarrow> nat \<Rightarrow> int set \<Rightarrow> int list \<times> int \<Rightarrow> sched_item list \<Rightarrow> bool" where
  "served M n eos req out \<longleftrightarrow> out = map Token (answer M n eos req) @ [Done] \<or>
     (\<exists>toks e. prefix toks (answer M n eos req) \<and> out = map Token toks @ [Failed e, Done])"

text \<open>The requests the scheduler is built for.\<close>

definition fits :: "nat \<Rightarrow> nat \<Rightarrow> nat \<Rightarrow> nat \<Rightarrow> (int list \<times> int) list \<Rightarrow> bool" where
  "fits room max_batch K N reqs \<longleftrightarrow> (\<forall>(p, cap) \<in> set reqs. p \<noteq> [] \<and> length p \<le> K \<and> cap \<le> int N) \<and>
     max 1 max_batch * (K + N) \<le> room \<and> N < 2 ^ 32 \<and> length reqs < 2 ^ 31"

definition sched_inv ::
  "'e list mesh_env \<Rightarrow> ('e list, 'l) batch_coord \<Rightarrow> ('e, 'h, 'l) model_ops \<Rightarrow> nat \<Rightarrow> (int list \<times> int) list \<Rightarrow> nat \<Rightarrow> 'e list sched \<Rightarrow> bool" where
  "sched_inv E C M n reqs k s \<longleftrightarrow> k \<le> length reqs \<and> length (sc_outs s) = length reqs \<and>
     sc_queue s = map (\<lambda>i. (fst (reqs ! i), snd (reqs ! i), i)) [k ..< length reqs] \<and>
     (\<forall>i < length reqs. if k \<le> i then sc_outs s ! i = [] else served M n (bc_eos C) (reqs ! i) (sc_outs s ! i) \<and>
        (quiet_net E \<longrightarrow> sc_outs s ! i = map Token (answer M n (bc_eos C) (reqs ! i)) @ [Done])) \<and>
     static_ok (bc_addrs C) (sc_static s) \<and> (quiet_net E \<longrightarrow> conns_open (s_mesh (sc_static s))) \<and>
     first_batch_id \<le> s_next (sc_static s) \<and> s_next (sc_static s) \<le> first_batch_id + int k"

lemma sched_inv_submit: "sched_inv E C M n reqs k s \<Longrightarrow> sched_inv E C M n (reqs @ [(p, cap)]) k (submit p cap s)"
  by (auto simp: sched_inv_def submit_def nth_append)

lemma served_iff: "served M n eos req out \<longleftrightarrow> (\<exists>toks es. out = map Token toks @ map Failed es @ [Done] \<and> length es \<le> 1 \<and>
    prefix toks (answer M n eos req) \<and> (es = [] \<longrightarrow> toks = answer M n eos req))"
proof
  assume "served M n eos req out"
  then show "\<exists>toks es. out = map Token toks @ map Failed es @ [Done] \<and> length es \<le> 1 \<and>
      prefix toks (answer M n eos req) \<and> (es = [] \<longrightarrow> toks = answer M n eos req)"
    unfolding served_def
  proof
    assume "out = map Token (answer M n eos req) @ [Done]"
    then show ?thesis by (intro exI [of _ "answer M n eos req"] exI [of _ "[]"]) simp
  next
    assume "\<exists>toks e. prefix toks (answer M n eos req) \<and> out = map Token toks @ [Failed e, Done]"
    then obtain toks e where "prefix toks (answer M n eos req)" "out = map Token toks @ [Failed e, Done]" by blast
    then show ?thesis by (intro exI [of _ toks] exI [of _ "[e]"]) simp
  qed
next
  assume "\<exists>toks es. out = map Token toks @ map Failed es @ [Done] \<and> length es \<le> 1 \<and>
      prefix toks (answer M n eos req) \<and> (es = [] \<longrightarrow> toks = answer M n eos req)"
  then obtain toks es where o: "out = map Token toks @ map Failed es @ [Done]" "length es \<le> 1"
      "prefix toks (answer M n eos req)" "es = [] \<longrightarrow> toks = answer M n eos req" by blast
  then show "served M n eos req out" by (cases es) (auto simp: served_def)
qed

lemma serve_batch_ok:
  assumes sys: "static_system E C M n enc room lay ll" and f: "fits room max_batch K N reqs"
    and inv: "sched_inv E C M n reqs k s" and q: "sc_queue s \<noteq> []"
  shows "\<exists>k' > k. sched_inv E C M n reqs k' (serve_batch E C max_batch w s)"
proof -
  let ?m = "Suc (min w (max_batch - 1))"
  define k' where "k' = min (k + ?m) (length reqs)"
  have queue: "sc_queue s = map (\<lambda>i. (fst (reqs ! i), snd (reqs ! i), i)) [k ..< length reqs]" using inv by (simp add: sched_inv_def)
  have k: "k < k'" "k' \<le> length reqs" using q queue by (auto simp: k'_def)
  let ?ids = "[k ..< k']" let ?prompts = "map (\<lambda>i. fst (reqs ! i)) ?ids" let ?caps = "map (\<lambda>i. snd (reqs ! i)) ?ids"
  let ?batch = "map (\<lambda>i. (fst (reqs ! i), snd (reqs ! i), i)) ?ids" let ?rest = "map (\<lambda>i. (fst (reqs ! i), snd (reqs ! i), i)) [k' ..< length reqs]"
  have col: "collect max_batch w (sc_queue s) = (?batch, ?rest)"
  proof (cases "k + ?m \<le> length reqs")
    case True
    then show ?thesis unfolding queue collect_def Let_def take_map drop_map k'_def by (simp add: take_upt)
  next
    case False
    then show ?thesis unfolding queue collect_def Let_def take_map drop_map k'_def by simp
  qed
  have B: "?prompts \<noteq> []" "length ?caps = length ?prompts" using k by auto
  have mem: "reqs ! i \<in> set reqs" if "i \<in> set ?ids" for i using that k by simp
  have each: "fst (reqs ! i) \<noteq> [] \<and> length (fst (reqs ! i)) \<le> K \<and> snd (reqs ! i) \<le> int N" if "i \<in> set ?ids" for i
    using f mem [OF that] unfolding fits_def by (auto simp: case_prod_beta)
  have ne: "[] \<notin> set ?prompts" and len: "\<forall>p \<in> set ?prompts. length p \<le> K" using each by force+
  have cap: "Max (set ?caps) \<le> int N" using each k by (subst Max_le_iff) auto
  have "length ?prompts \<le> max 1 max_batch" by (auto simp: k'_def)
  moreover have "K + nat (Max (set ?caps)) \<le> K + N" using cap by linarith
  ultimately have "length ?prompts * (K + nat (Max (set ?caps))) \<le> max 1 max_batch * (K + N)" by (rule mult_le_mono)
  then have room: "length ?prompts * (K + nat (Max (set ?caps))) \<le> room" using f by (simp add: fits_def)
  have lim: "Max (set ?caps) < 2 ^ 32" using cap f by (simp add: fits_def)
  have st: "static_ok (bc_addrs C) (sc_static s)" and bid: "id_ok (s_next (sc_static s))"
    using inv f k by (auto simp: sched_inv_def id_ok_def fits_def first_batch_id_def)
  obtain st' evs r where g: "generate_batch_stream E C True ?prompts ?caps (sc_static s) = (st', evs, r)" using prod_cases3 by blast
  note b = batch_rows_spec [OF sys st bid B(1) ne B(2) len room lim g]
  define o1 where "o1 = foldl (\<lambda>os (b, tok). put_out (Token tok) os (?ids ! b)) (sc_outs s) evs"
  define o2 where "o2 = (case r of Inl e \<Rightarrow> foldl (put_out (Failed e)) o1 ?ids | Inr _ \<Rightarrow> o1)"
  define o3 where "o3 = foldl (put_out Done) o2 ?ids"
  have maps: "map fst ?batch = ?prompts" "map (fst \<circ> snd) ?batch = ?caps" "map (snd \<circ> snd) ?batch = ?ids"
    by (simp_all add: o_def)
  have s': "serve_batch E C max_batch w s = s\<lparr>sc_static := st', sc_queue := ?rest, sc_outs := o3, sc_collecting := \<not> sc_stopped s\<rparr>"
    unfolding serve_batch_def col Let_def prod.case maps g o3_def o2_def o1_def ..
  have len0: "length (sc_outs s) = length reqs" using inv by (simp add: sched_inv_def)
  have ids: "distinct ?ids" "set ?ids \<subseteq> {..< length (sc_outs s)}" using k len0 by auto
  have range: "\<forall>(b, t) \<in> set evs. b < length ?ids" using stream_in_range [OF g] by simp
  note t = put_tokens [OF ids range, folded o1_def]
  have l1: "length o1 = length reqs" using t len0 by simp
  have l2: "length o2 = length reqs \<and> (\<forall>j < length reqs. o2 ! j = o1 ! j @
      (if j \<in> set ?ids then (case r of Inl e \<Rightarrow> [Failed e] | Inr _ \<Rightarrow> []) else []))"
    using put_all [of ?ids o1] ids l1 len0 by (cases r) (auto simp: o2_def)
  have l3: "length o3 = length reqs" "\<And>j. j < length reqs \<Longrightarrow> o3 ! j = o2 ! j @ (if j \<in> set ?ids then [Done] else [])"
    using put_all [of ?ids o2 Done] ids l2 len0 by (auto simp: o3_def)
  have new: "o3 ! i = map Token (row_tokens (i - k) evs) @ map Failed (case r of Inl e \<Rightarrow> [e] | Inr _ \<Rightarrow> []) @ [Done]"
    if i: "k \<le> i" "i < k'" for i
  proof -
    have ii: "i - k < length ?ids" "?ids ! (i - k) = i" using i k by simp_all
    have "sc_outs s ! i = []" using inv i k unfolding sched_inv_def by (meson less_le_trans)
    then have "o1 ! i = map Token (row_tokens (i - k) evs)" using t ii by (metis append_Nil)
    then show ?thesis using l2 l3(2) [of i] i k by (cases r) simp_all
  qed
  have old: "o3 ! i = sc_outs s ! i" if "i < length reqs" "\<not> (k \<le> i \<and> i < k')" for i
    using t l2 l3(2) [OF that(1)] that len0 by auto
  have row: "prefix (row_tokens (i - k) evs) (answer M n (bc_eos C) (reqs ! i)) \<and>
      (r = Inr () \<longrightarrow> row_tokens (i - k) evs = answer M n (bc_eos C) (reqs ! i))" if i: "k \<le> i" "i < k'" for i
  proof -
    have "i - k < length ?prompts" "?prompts ! (i - k) = fst (reqs ! i)" "?caps ! (i - k) = snd (reqs ! i)" using i k by simp_all
    then show ?thesis using b [THEN conjunct1, rule_format, of "i - k"] by (simp add: answer_def batch_stops_def)
  qed
  have "if k' \<le> i then o3 ! i = [] else served M n (bc_eos C) (reqs ! i) (o3 ! i) \<and>
      (quiet_net E \<longrightarrow> o3 ! i = map Token (answer M n (bc_eos C) (reqs ! i)) @ [Done])" if i: "i < length reqs" for i
  proof (cases "k \<le> i \<and> i < k'")
    case True
    have q: "r = Inr ()" if "quiet_net E" using b inv that unfolding sched_inv_def by blast
    show ?thesis
    proof (cases r)
      case (Inl e)
      then have "\<not> quiet_net E" using q by auto
      then show ?thesis using new [of i] row [of i] True Inl by (auto simp: served_def)
    next
      case (Inr u)
      then show ?thesis using new [of i] row [of i] True by (auto simp: served_def)
    qed
  next
    case False
    then show ?thesis using old [OF i] inv i k unfolding sched_inv_def by auto
  qed
  then have "sched_inv E C M n reqs k' (serve_batch E C max_batch w s)"
    unfolding s' sched_inv_def using k l3(1) b inv by (auto simp: sched_inv_def)
  then show ?thesis using k(1) by blast
qed

subsection \<open>Runs of the scheduler\<close>

definition sched_run :: "'e mesh_env \<Rightarrow> ('e, 'l) batch_coord \<Rightarrow> nat \<Rightarrow> 'e static \<Rightarrow> sched_event list \<Rightarrow> 'e sched" where
  "sched_run E C max_batch st evs = foldl (sched_step E C max_batch) (mk_sched st) evs"

text \<open>The coordinator the scheduler starts with has served no batch yet.\<close>

definition sched_start :: "'e list mesh_env \<Rightarrow> ('e list, 'l) batch_coord \<Rightarrow> 'e list static \<Rightarrow> bool" where
  "sched_start E C st \<longleftrightarrow> static_ok (bc_addrs C) st \<and> s_next st = first_batch_id \<and> (quiet_net E \<longrightarrow> conns_open (s_mesh st))"

lemma requests_simps [simp]: "requests [] = []" "requests (xs @ ys) = requests xs @ requests ys"
  "requests (map Serve ws) = []"
  by (induction ws) (auto simp: requests_def)

lemma fits_append: "fits room max_batch K N (xs @ ys) \<Longrightarrow> fits room max_batch K N xs"
  by (auto simp: fits_def)

lemma sched_run_inv:
  assumes sys: "static_system E C M n enc room lay ll" and st: "sched_start E C st"
    and "fits room max_batch K N (requests evs)"
  shows "\<exists>k. sched_inv E C M n (requests evs) k (sched_run E C max_batch st evs)"
  using assms(3)
proof (induction evs rule: rev_induct)
  case Nil
  have "sched_inv E C M n [] 0 (mk_sched st)" using st by (simp add: sched_inv_def mk_sched_def sched_start_def)
  then show ?case by (auto simp: sched_run_def)
next
  case (snoc e evs)
  let ?s = "sched_run E C max_batch st evs"
  have f: "fits room max_batch K N (requests evs)" using fits_append snoc.prems by simp
  obtain k where k: "sched_inv E C M n (requests evs) k ?s" using snoc.IH [OF f] by blast
  have s: "sched_run E C max_batch st (evs @ [e]) = sched_step E C max_batch ?s e" by (simp add: sched_run_def)
  show ?case
  proof (cases e)
    case (Submit p cap)
    then show ?thesis using sched_inv_submit [OF k, of p cap] s by (auto simp: requests_def)
  next
    case (Serve w)
    then show ?thesis using serve_batch_ok [OF sys f k, of w] k s by (auto simp: requests_def)
  next
    case Stop
    then show ?thesis using k s by (auto simp: requests_def sched_inv_def)
  qed
qed

lemma sched_going: "Stop \<notin> set evs \<Longrightarrow> \<not> sc_stopped (sched_run E C max_batch st evs) \<and> sc_collecting (sched_run E C max_batch st evs)"
proof (induction evs rule: rev_induct)
  case Nil
  show ?case by (simp add: sched_run_def mk_sched_def)
next
  case (snoc e evs)
  have s: "sched_run E C max_batch st (evs @ [e]) = sched_step E C max_batch (sched_run E C max_batch st evs) e" by (simp add: sched_run_def)
  show ?case
    using snoc unfolding s by (cases e) (auto simp: submit_def serve_batch_def Let_def split: prod.splits)
qed

lemma sched_serves:
  assumes sys: "static_system E C M n enc room lay ll" and f: "fits room max_batch K N (requests evs)" and "Stop \<notin> set evs"
    and "sched_inv E C M n (requests evs) k (sched_run E C max_batch st evs)"
  shows "\<exists>k'. sched_inv E C M n (requests evs) k' (sched_run E C max_batch st (evs @ map Serve ws)) \<and>
    min (length (requests evs)) (k + length ws) \<le> k'"
proof (induction ws rule: rev_induct)
  case Nil
  then show ?case using assms(4) by (auto intro!: exI [of _ k])
next
  case (snoc w ws)
  let ?evs = "evs @ map Serve ws" let ?s = "sched_run E C max_batch st (evs @ map Serve ws)"
  obtain k1 where k1: "sched_inv E C M n (requests evs) k1 ?s" "min (length (requests evs)) (k + length ws) \<le> k1"
    using snoc.IH by blast
  have "Stop \<notin> set ?evs" using assms(3) by auto
  then have going: "sc_collecting ?s" using sched_going by blast
  have s: "sched_run E C max_batch st (evs @ map Serve (ws @ [w])) = sched_step E C max_batch ?s (Serve w)" by (simp add: sched_run_def)
  show ?case
  proof (cases "sc_queue ?s = []")
    case True
    then have "length (requests evs) \<le> k1" using k1(1) by (auto simp: sched_inv_def)
    then show ?thesis using k1(1) True unfolding s by (intro exI [of _ k1]) simp
  next
    case False
    obtain k' where "k' > k1" "sched_inv E C M n (requests evs) k' (serve_batch E C max_batch w ?s)"
      using serve_batch_ok [OF sys f k1(1) False] by blast
    then show ?thesis using k1(2) going False unfolding s by (intro exI [of _ k']) auto
  qed
qed


text \<open>C19. No request waits for ever.  On a quiet network, and as long as the scheduler is not stopped, serving as
  many batches as there are requests gives every one of them exactly its own answer and the end mark, however the
  arrivals and the collecting windows fell.\<close>

theorem every_request_is_answered:
  assumes "static_system E C M n enc room lay ll" and "sched_start E C st" and "fits room max_batch K N (requests evs)"
    and "quiet_net E" and "Stop \<notin> set evs" and "length (requests evs) \<le> length ws"
    and "sched_run E C max_batch st (evs @ map Serve ws) = s"
  shows "sc_queue s = [] \<and> sc_outs s = map (\<lambda>req. map Token (answer M n (bc_eos C) req) @ [Done]) (requests evs)"
proof -
  obtain k where k: "sched_inv E C M n (requests evs) k (sched_run E C max_batch st evs)"
    using sched_run_inv [OF assms(1-3)] by blast
  obtain k' where k': "sched_inv E C M n (requests evs) k' s" "min (length (requests evs)) (k + length ws) \<le> k'"
    using sched_serves [OF assms(1,3,5) k] assms(7) by blast
  then have "length (requests evs) \<le> k'" using assms(6) by simp
  then show ?thesis using k'(1) assms(4) unfolding sched_inv_def by (auto intro!: nth_equalityI)
qed

subsection \<open>Three requests in two batches\<close>

definition demo_requests :: "sched_event list" where
  "demo_requests = [Submit [3, 1, 4] 4, Submit [2] 2, Submit [5, 9] 3]"

lemma demo_requests: "requests demo_requests = [([3, 1, 4], 4), ([2], 2), ([5, 9], 3)]"
  by (simp add: demo_requests_def requests_def)

lemma demo_fits: "fits 200 2 3 4 (requests demo_requests)" "sched_start batch_env demo_batch batch_start"
  unfolding demo_requests
  by (simp_all add: fits_def sched_start_def static_ok_def demo_batch_def batch_start_def conns_open_def)


theorem every_request_is_answered_witness:
  "sc_outs (sched_run batch_env demo_batch 2 batch_start (demo_requests @ map Serve [1, 0, 7])) =
     map (\<lambda>req. map Token (answer byte_model 4 {0} req) @ [Done]) [([3, 1, 4], 4), ([2], 2), ([5, 9], 3)]"
proof -
  have "quiet_net batch_env" "Stop \<notin> set demo_requests" "bc_eos demo_batch = {0}"
    by (simp_all add: quiet_net_def batch_env_def demo_requests_def demo_batch_def)
  then show ?thesis
    using every_request_is_answered [OF demo_batch_system demo_fits(2,1) _ _ _ refl, of "[1, 0, 7]"] by (simp add: demo_requests)
qed

end
