(* ===== verification/Eagle.thy ===== *)
theory Eagle
  imports Generation_Spec
begin

section \<open>The EAGLE draft\<close>

text \<open>
  \<open>EagleDraft\<close> of \<open>engine/eagle.py\<close>: the running context of committed tokens and their features, the
  input of the head built from it, the proposals, commits and rollbacks.  The head itself is
  arithmetic and a parameter: \<open>eo_fuse\<close> is \<open>fuse\<close> on the embedding of a token and a feature,
  \<open>eo_layer\<close> the last row of \<open>layer\<close> over an input whose positions start at a base, \<open>eo_pick\<close> the
  target's head and argmax, \<open>eo_norm\<close> the target's final norm.
\<close>

record ('h, 'f, 'x) eagle_ops =
  eo_norm :: "'h \<Rightarrow> 'f"
  eo_fuse :: "int \<Rightarrow> 'f \<Rightarrow> 'x"
  eo_layer :: "'x list \<Rightarrow> nat \<Rightarrow> 'f"
  eo_pick :: "'f \<Rightarrow> int"

record 'f eagle =
  eg_len :: nat
  eg_toks :: "int list"
  eg_feats :: "'f list option"

definition eagle_new :: "'f eagle" where
  "eagle_new = \<lparr>eg_len = 0, eg_toks = [], eg_feats = None\<rparr>"

text \<open>Tensors are joined along their last dimension only when they have the same number of rows.\<close>

definition eagle_input ::
  "('h, 'f, 'x) eagle_ops \<Rightarrow> 'f eagle \<Rightarrow> int \<Rightarrow> nat \<Rightarrow> 'h list option \<Rightarrow> ('x list \<times> nat) result" where
  "eagle_input Op d head_tok start_pos target_hidden =
     (case if start_pos < 1 then None else eg_feats d of
        None \<Rightarrow>
          bindE (case target_hidden of
                   Some hs \<Rightarrow> if hs = [] then Inl RuntimeError else Inr (eo_norm Op (last hs))
                 | None \<Rightarrow> (case eg_feats d of
                     None \<Rightarrow> Inl TypeError
                   | Some fs \<Rightarrow> if fs = [] then Inl RuntimeError else Inr (last fs)))
            (\<lambda>f. Inr ([eo_fuse Op head_tok f], start_pos))
      | Some feats \<Rightarrow>
          (let in_toks = take start_pos (drop 1 (eg_toks d @ [head_tok])); fs = take start_pos feats
           in if in_toks = [] \<or> length in_toks \<noteq> length fs then Inl RuntimeError
              else Inr (map2 (eo_fuse Op) in_toks fs, 1)))"

fun eagle_steps :: "('h, 'f, 'x) eagle_ops \<Rightarrow> perturb \<Rightarrow> nat \<Rightarrow> nat \<Rightarrow> 'x list \<Rightarrow> nat \<Rightarrow> int list" where
  "eagle_steps Op pt i 0 x base = []"
| "eagle_steps Op pt i (Suc k) x base =
     (let g = eo_layer Op x base; t = eo_pick Op g;
          tok = (case pt of None \<Rightarrow> t | Some p \<Rightarrow> p i t)
      in tok # eagle_steps Op pt (Suc i) k (x @ [eo_fuse Op tok g]) base)"

definition eagle_propose ::
  "('h, 'f, 'x) eagle_ops \<Rightarrow> 'f eagle \<Rightarrow> int \<Rightarrow> nat \<Rightarrow> nat \<Rightarrow> perturb \<Rightarrow> 'h list option \<Rightarrow> (int list \<times> 'f eagle) result" where
  "eagle_propose Op d head_tok K start_pos pt target_hidden =
     bindE (eagle_input Op d head_tok start_pos target_hidden)
       (\<lambda>(x, base). Inr (eagle_steps Op pt 0 K x base, d\<lparr>eg_len := start_pos\<rparr>))"

definition eagle_prefill :: "('h, 'f, 'x) eagle_ops \<Rightarrow> 'f eagle \<Rightarrow> int list \<Rightarrow> 'h list \<Rightarrow> 'f eagle" where
  "eagle_prefill Op d prompt hidden = d\<lparr>eg_toks := prompt, eg_feats := Some (map (eo_norm Op) hidden)\<rparr>"

definition eagle_commit :: "('h, 'f, 'x) eagle_ops \<Rightarrow> 'f eagle \<Rightarrow> int list \<Rightarrow> 'h list \<Rightarrow> 'f eagle" where
  "eagle_commit Op d tokens hidden =
     (let f = map (eo_norm Op) hidden
      in d\<lparr>eg_toks := eg_toks d @ tokens, eg_feats := Some (case eg_feats d of None \<Rightarrow> f | Some fs \<Rightarrow> fs @ f)\<rparr>)"

definition eagle_rollback :: "'f eagle \<Rightarrow> nat \<Rightarrow> 'f eagle" where
  "eagle_rollback d n =
     (let d1 = d\<lparr>eg_len := n\<rparr>
      in if n < length (eg_toks d)
         then d1\<lparr>eg_toks := take n (eg_toks d), eg_feats := map_option (take n) (eg_feats d)\<rparr> else d1)"

definition eagle_draft :: "('h, 'f, 'x) eagle_ops \<Rightarrow> ('f eagle, 'h) draft_ops" where
  "eagle_draft Op =
     \<lparr>d_needs_hidden = True, d_prefill = (\<lambda>d prompt. Inr (d\<lparr>eg_len := length prompt\<rparr>)),
      d_eagle_prefill = eagle_prefill Op, d_propose = eagle_propose Op,
      d_eagle_commit = eagle_commit Op, d_rollback = eagle_rollback\<rparr>"

subsection \<open>The contract\<close>

text \<open>Between rounds the context has the features of all its tokens, aligned by position.\<close>

definition eagle_synced :: "'f eagle \<Rightarrow> nat \<Rightarrow> bool" where
  "eagle_synced d pos \<longleftrightarrow> 0 < pos \<and> length (eg_toks d) = pos \<and> (\<exists>fs. eg_feats d = Some fs \<and> length fs = pos)"

lemma length_eagle_steps [simp]: "length (eagle_steps Op pt i k x base) = k"
  by (induction k arbitrary: i x) (simp_all add: Let_def)

lemma eagle_propose_synced:
  assumes "eagle_synced d pos"
  shows "\<exists>ps. eagle_propose Op d h K pos pt hid = Inr (ps, d\<lparr>eg_len := pos\<rparr>) \<and> length ps = K"
proof -
  obtain fs where "eg_feats d = Some fs" "length fs = pos" "0 < pos" "length (eg_toks d) = pos"
    using assms by (auto simp: eagle_synced_def)
  then show ?thesis by (auto simp: eagle_propose_def eagle_input_def Let_def)
qed

interpretation eagle: feature_draft "eagle_draft Op" eagle_synced "\<lambda>_. True" True
  for Op :: "('h, 'f, 'x) eagle_ops"
proof
  fix d :: "'f eagle" and prompt :: "int list" and hid :: "'h list"
  assume "prompt \<noteq> []" "True \<longrightarrow> length hid = length prompt"
  then show "\<exists>d1. d_prefill (eagle_draft Op) d prompt = Inr d1 \<and>
      eagle_synced (if d_needs_hidden (eagle_draft Op) then d_eagle_prefill (eagle_draft Op) d1 prompt hid else d1) (length prompt)"
    by (simp add: eagle_draft_def eagle_prefill_def eagle_synced_def)
next
  fix d :: "'f eagle" and pos :: nat and hd_tok :: int and K :: nat and pt :: perturb and hid' :: "'h list option"
  assume s: "eagle_synced d pos"
  obtain ps where p: "eagle_propose Op d hd_tok K pos pt hid' = Inr (ps, d\<lparr>eg_len := pos\<rparr>)" "length ps = K"
    using eagle_propose_synced [OF s] by blast
  have "eagle_synced (eagle_rollback (eagle_commit Op (d\<lparr>eg_len := pos\<rparr>) toks hid) keep) keep"
    if "pos < keep" "length toks = keep - pos" "length hid = keep - pos" for keep toks hid
    using s that by (auto simp: eagle_synced_def eagle_rollback_def eagle_commit_def Let_def)
  then show "\<exists>ps d1. d_propose (eagle_draft Op) d hd_tok K pos pt hid' = Inr (ps, d1) \<and> length ps = K \<and>
      (\<forall>keep toks hid. pos < keep \<and> keep \<le> pos + K + 1 \<and>
          (True \<longrightarrow> length toks = keep - pos \<and> length hid = keep - pos) \<longrightarrow>
        eagle_synced (d_rollback (eagle_draft Op)
          (if d_needs_hidden (eagle_draft Op) then d_eagle_commit (eagle_draft Op) d1 toks hid else d1) keep) keep)"
    using p by (simp add: eagle_draft_def)
qed

text \<open>What a round leaves in the context: the tokens it processed (the head and the accepted proposals), and
  for each of them the norm of the hidden state the target has just computed for it, the one whose prediction is
  the token committed next.\<close>

definition eagle_fed ::
  "('e, 'l) coord \<Rightarrow> (tensor \<Rightarrow> 'h list) \<Rightarrow> ('h, 'f, 'x) eagle_ops \<Rightarrow>
   (('e, 'p) socket_target, 'f eagle) spec_state \<Rightarrow> int list \<Rightarrow> (('e, 'p) socket_target, 'f eagle) spec_state \<Rightarrow> bool" where
  "eagle_fed C feats Op st com st1 \<longleftrightarrow> (\<exists>h fs. so_hidden (sp_target st1) = Some h \<and>
     map (co_argmax C) (take (length com) (co_rows C h)) = com \<and>
     eg_toks (sp_draft st1) = eg_toks (sp_draft st) @ sp_head st # butlast com \<and> eg_feats (sp_draft st) = Some fs \<and>
     eg_feats (sp_draft st1) = Some (fs @ map (eo_norm Op) (take (length com) (feats h))) \<and>
     eagle_synced (sp_draft st1) (sp_pos st1))"

inductive eagle_rounds ::
  "'e mesh_env \<Rightarrow> ('e, 'l) coord \<Rightarrow> (tensor \<Rightarrow> 'h list) \<Rightarrow> ('h, 'f, 'x) eagle_ops \<Rightarrow> int \<Rightarrow> nat \<Rightarrow>
   (('e, registry) socket_target, 'f eagle) spec_state \<Rightarrow> (int list \<times> nat) list \<Rightarrow>
   (('e, registry) socket_target, 'f eagle) spec_state \<Rightarrow> bool"
  for E C feats Op session K where
  no_round: "eagle_rounds E C feats Op session K st [] st"
| next_round: "spec_round (socket_target E C local_provider feats session 0) (eagle_draft Op) None K st = (s, Inr (com, m, st1)) \<Longrightarrow>
     eagle_fed C feats Op st com st1 \<Longrightarrow> eagle_rounds E C feats Op session K st1 tr st2 \<Longrightarrow>
     eagle_rounds E C feats Op session K st ((com, m) # tr) st2"

lemma match_len_prefix:
  "match_len k preds drafts m = Inr m' \<Longrightarrow> take m preds = take m drafts \<Longrightarrow> take m' preds = take m' drafts"
  by (induction k preds drafts m rule: match_len.induct) (auto simp: take_Suc_conv_app_nth split: if_splits)

lemma socket_forward_hidden:
  "t_forward (socket_target E C P feats session pre) s ids p = (s', Inr rows) \<Longrightarrow>
     \<exists>h. so_hidden s' = Some h \<and> rows = co_rows C h"
  by (auto simp: socket_target_def socket_forward_def Let_def split: prod.splits sum.splits)

lemma eagle_round_fed:
  assumes r: "spec_round (socket_target E C P feats session pre) (eagle_draft Op) pt K st = (s, Inr (com, m, st1))"
    and syn: "eagle_synced (sp_draft st) (sp_pos st)" and feats: "feats_ok C feats"
  shows "eagle_fed C feats Op st com st1"
proof -
  let ?T = "socket_target E C P feats session pre" and ?pos = "sp_pos st"
  obtain fs where fs: "eg_feats (sp_draft st) = Some fs" "length fs = ?pos" "0 < ?pos" "length (eg_toks (sp_draft st)) = ?pos"
    using syn by (auto simp: eagle_synced_def)
  obtain drafts where dr: "eagle_propose Op (sp_draft st) (sp_head st) K ?pos pt (Some (t_hidden ?T (sp_target st))) =
      Inr (drafts, (sp_draft st)\<lparr>eg_len := ?pos\<rparr>)"
    using eagle_propose_synced [OF syn] by blast
  let ?d2 = "\<lambda>h. eagle_commit Op ((sp_draft st)\<lparr>eg_len := ?pos\<rparr>) (sp_head st # take m drafts) (take (m + 1) (feats h))"
  obtain s1 rows s2 where f: "t_forward ?T (sp_target st) (sp_head st # drafts) ?pos = (s1, Inr rows)"
      "match_len K (map (co_argmax C) rows) drafts 0 = Inr m" "m < length rows"
      "t_rollback ?T s1 (?pos + m + 1) = (s2, Inr ())" "sp_target st1 = s2" "sp_pos st1 = ?pos + m + 1"
      "com = take m drafts @ [map (co_argmax C) rows ! m]"
      "sp_draft st1 = eagle_rollback (eagle_commit Op ((sp_draft st)\<lparr>eg_len := ?pos\<rparr>) (sp_head st # take m drafts)
         (take (m + 1) (t_hidden ?T s1))) (?pos + m + 1)"
    using r dr by (auto simp: spec_round_def eagle_draft_def Let_def socket_target_def split: if_splits sum.splits prod.splits)
  obtain h where h: "so_hidden s1 = Some h" "rows = co_rows C h"
    using socket_forward_hidden [OF f(1)] by blast
  have h2: "so_hidden s2 = Some h"
    using f(4) h(1) by (auto simp: socket_target_def socket_rollback_def split: prod.splits sum.splits)
  have hid: "t_hidden ?T s1 = feats h" using h(1) by (simp add: socket_target_def)
  have t: "take m (map (co_argmax C) rows) = take m drafts" using match_len_prefix [OF f(2)] by simp
  have com: "com = map (co_argmax C) (take (Suc m) rows)"
    unfolding f(7) t [symmetric] using f(3) by (simp add: take_Suc_conv_app_nth take_map)
  have m: "m \<le> length drafts" using match_len_bounds [OF f(2)] by simp
  have lc: "length com = Suc m" using com f(3) by simp
  have len: "Suc m \<le> length (feats h)" using feats f(3) h(2) by (simp add: feats_ok_def)
  have "eg_toks (sp_draft st1) = eg_toks (sp_draft st) @ sp_head st # take m drafts"
    "eg_feats (sp_draft st1) = Some (fs @ map (eo_norm Op) (take (Suc m) (feats h)))"
    unfolding f(8) hid using fs m by (simp_all add: eagle_commit_def eagle_rollback_def Let_def)
  moreover have "butlast com = take m drafts" unfolding f(7) by simp
  ultimately show ?thesis
    unfolding eagle_fed_def using f(5,6) h2 h(2) com lc fs m len
    by (intro exI [of _ h] exI [of _ fs]) (auto simp: eagle_synced_def min_def)
qed

lemma eagle_rounds_fed:
  "spec_rounds (socket_target E C local_provider feats session 0) (eagle_draft Op) None K st tr st2 \<Longrightarrow>
     eagle_synced (sp_draft st) (sp_pos st) \<Longrightarrow> feats_ok C feats \<Longrightarrow> eagle_rounds E C feats Op session K st tr st2"
proof (induction rule: spec_rounds.induct)
  case (no_round st)
  show ?case by (rule eagle_rounds.no_round)
next
  case (more_rounds st s com m st1 tr st2)
  note fed = eagle_round_fed [OF more_rounds.hyps(1) more_rounds.prems]
  then have "eagle_synced (sp_draft st1) (sp_pos st1)" by (auto simp: eagle_fed_def)
  with more_rounds fed show ?case by (intro eagle_rounds.next_round) simp_all
qed

text \<open>C14. With the EAGLE draft, whatever its head computes, speculative generation over a mesh that loses nothing
  returns exactly the whole model's greedy tokens.  The run seeds the context with the prompt and one feature per
  prompt token, and every round extends it by the tokens the round processed and, one for each, the norms of exactly
  the hidden states behind its committed tokens; so tokens and features stay aligned, as many as the target's
  position, and the draft always proposes.\<close>

theorem eagle_generation_is_greedy:
  assumes "mesh_steady E C M n enc lay ll (or_mesh s)" and "feats_ok C (gc_feats G)"
    and "ids \<noteq> []" "length ids + n_new + K < 2 ^ 32"
  shows "(\<exists>s'. generate_speculative E C local_provider G (eagle_draft Op) d K ids n_new s =
      (s', Inr (greedy (whole_next M n) ids n_new)) \<and> mesh_steady E C M n enc lay ll (or_mesh s')) \<and>
    (\<exists>st0 h tr st. let session = fst (next_session_id (gc_prefix G) (or_counter s))
     in speculative_greedy (socket_target E C local_provider (gc_feats G) session 0) (eagle_draft Op) None K
          (open_target (or_mesh s) 0) d ids n_new (Some call_counts) =
        (sp_target st, Some (count_rounds K tr call_counts),
         Inr (greedy (whole_next M n) ids n_new, st, count_rounds K tr no_counts)) \<and>
     spec_start (socket_target E C local_provider (gc_feats G) session 0) (eagle_draft Op) (open_target (or_mesh s) 0) d ids =
        (sp_target st0, Inr st0) \<and>
     so_hidden (sp_target st0) = Some h \<and> length (gc_feats G h) = length ids \<and> eg_toks (sp_draft st0) = ids \<and>
     eg_feats (sp_draft st0) = Some (map (eo_norm Op) (gc_feats G h)) \<and>
     eagle_rounds E C (gc_feats G) Op session K st0 tr st \<and>
     greedy (whole_next M n) ids n_new = take n_new (sp_head st0 # concat (map fst tr)))"
proof
  show "\<exists>s'. generate_speculative E C local_provider G (eagle_draft Op) d K ids n_new s =
      (s', Inr (greedy (whole_next M n) ids n_new)) \<and> mesh_steady E C M n enc lay ll (or_mesh s')"
    using mesh_speculation_spec [OF eagle.feature_draft_axioms TrueI _ assms(1,3,4)] assms(2) by blast
  let ?sid = "fst (next_session_id (gc_prefix G) (or_counter s))" and ?s = "open_target (or_mesh s) 0"
  let ?T = "socket_target E C local_provider (gc_feats G) ?sid 0" and ?g = "greedy (whole_next M n) ids n_new"
  obtain s1 where f: "fresh_session G s = (s1, ?sid)"
    by (cases "next_session_id (gc_prefix G) (or_counter s)") (auto simp: fresh_session_def)
  have fr: "mesh_fresh E C M n enc lay ll ?sid 0 ?s ids"
    using fresh_session_ok [OF f] assms(1) by (simp add: mesh_fresh_def open_target_def)
  have sp: "speculation ?T (mesh_holds E C M n enc lay ll ?sid) (mesh_fresh E C M n enc lay ll ?sid 0) (whole_next M n)
      (\<lambda>k. k < 2 ^ 32) ((0 :: nat) = 0 \<and> feats_ok C (gc_feats G)) (eagle_draft Op) eagle_synced (\<lambda>_. True) True"
    using mesh_speculation [OF eagle.feature_draft_axioms, of 0 C "gc_feats G" E ?sid M n enc lay ll] assms(2) by blast
  obtain st lc gc where g: "speculative_greedy ?T (eagle_draft Op) None K ?s d ids n_new (Some call_counts) =
      (sp_target st, gc, Inr (?g, st, lc))"
    using speculation.spec_correct [OF sp fr TrueI assms(3,4)] by blast
  have room: "length ids < 2 ^ 32" using assms(4) by simp
  obtain st0 where st0: "spec_start ?T (eagle_draft Op) ?s d ids = (sp_target st0, Inr st0)" "eagle_synced (sp_draft st0) (length ids)"
      "sp_pos st0 = length ids"
    using speculation.start_at [OF sp fr TrueI assms(3) room] unfolding speculation.at_ctx_def [OF sp] by blast
  obtain h where h: "so_hidden (sp_target st0) = Some h" "eg_toks (sp_draft st0) = ids"
      "eg_feats (sp_draft st0) = Some (map (eo_norm Op) (gc_feats G h))"
  proof -
    obtain rows where fw: "t_forward ?T ?s ids 0 = (sp_target st0, Inr rows)"
      using st0(1) by (auto simp: spec_start_def bindE_Inr_iff split: prod.splits sum.splits)
    have dr: "sp_draft st0 = eagle_prefill Op (d\<lparr>eg_len := length ids\<rparr>) ids (t_hidden ?T (sp_target st0))"
      using st0(1) fw by (cases "rows = []") (auto simp: spec_start_def eagle_draft_def dest: arg_cong [of _ st0 sp_draft])
    obtain h where "so_hidden (sp_target st0) = Some h" using socket_forward_hidden [OF fw] by blast
    then show ?thesis using dr by (intro that [of h]) (simp_all add: eagle_prefill_def socket_target_def)
  qed
  have lf: "length (gc_feats G h) = length ids" using st0(2) h(3) by (auto simp: eagle_synced_def)
  obtain out where l: "spec_loop ?T (eagle_draft Op) None K n_new [sp_head st0] st0 no_counts (Some call_counts) =
      (sp_target st, gc, Inr (out, st, lc))" "?g = take n_new out"
    using g st0(1) by (auto simp: speculative_greedy_def bindE_Inr_iff split: prod.splits)
  obtain tr where tr: "spec_rounds ?T (eagle_draft Op) None K st0 tr st" "out = [sp_head st0] @ concat (map fst tr)"
      "lc = count_rounds K tr no_counts" "gc = map_option (count_rounds K tr) (Some call_counts)"
    using spec_loop_rounds [OF l(1)] by blast
  have "eagle_rounds E C (gc_feats G) Op ?sid K st0 tr st"
    using eagle_rounds_fed [OF tr(1)] st0(2,3) assms(2) by simp
  then show "\<exists>st0 h tr st. let session = ?sid
     in speculative_greedy (socket_target E C local_provider (gc_feats G) session 0) (eagle_draft Op) None K ?s d ids n_new (Some call_counts) =
        (sp_target st, Some (count_rounds K tr call_counts), Inr (?g, st, count_rounds K tr no_counts)) \<and>
     spec_start (socket_target E C local_provider (gc_feats G) session 0) (eagle_draft Op) ?s d ids = (sp_target st0, Inr st0) \<and>
     so_hidden (sp_target st0) = Some h \<and> length (gc_feats G h) = length ids \<and> eg_toks (sp_draft st0) = ids \<and>
     eg_feats (sp_draft st0) = Some (map (eo_norm Op) (gc_feats G h)) \<and>
     eagle_rounds E C (gc_feats G) Op session K st0 tr st \<and>
     ?g = take n_new (sp_head st0 # concat (map fst tr))"
    using g st0(1) h lf l(2) tr(2-4)
    by (intro exI [of _ st0] exI [of _ h] exI [of _ tr] exI [of _ st]) (simp add: Let_def)
qed

subsection \<open>With a warm prefix\<close>

text \<open>The first proposal, when the context was seeded with fewer hidden states than tokens.\<close>

lemma eagle_misaligned:
  "toks \<noteq> [] \<Longrightarrow> length hid < length toks \<Longrightarrow>
     eagle_propose Op (eagle_prefill Op d toks hid) h K (length toks) pt hid' = Inl RuntimeError"
  by (auto simp: eagle_propose_def eagle_input_def eagle_prefill_def Let_def split: option.split)

text \<open>C35. On a warm prefix the EAGLE draft cannot propose: the target keeps the hidden states of the suffix only,
  the draft is seeded with all prompt tokens, and its first proposal joins tensors of different lengths.  The
  stream yields its first token and raises.\<close>

theorem eagle_fails_on_warm_prefix:
  assumes fresh: "mesh_fresh E C M n enc lay ll session pre s prompt" and warm: "0 < pre" and feats: "feats_ok C feats"
    and len: "length prompt < 2 ^ 32" and more: "1 < n_new" and go: "whole_next M n prompt \<notin> eos"
  shows "\<exists>s'. speculative_greedy_stream (socket_target E C local_provider feats session pre) (eagle_draft Op) pt K eos s d prompt n_new gc =
    ([whole_next M n prompt], s', gc, Inl RuntimeError)"
proof -
  let ?T = "socket_target E C local_provider feats session pre" and ?suf = "drop pre prompt"
  have pre: "pre < length prompt" and st: "mesh_steady E C M n enc lay ll (so_mesh s)" and id: "id_ok session"
    and w: "warm E C M n enc lay ll session (take pre prompt) (so_mesh s)" using fresh warm by (simp_all add: mesh_fresh_def)
  have ne: "prompt \<noteq> []" "?suf \<noteq> []" using pre by auto
  obtain m' h where r: "relay E C local_provider session (int (length (take pre prompt))) (co_embed C ?suf) (so_mesh s) = (m', Inr h)"
      "map (co_argmax C) (co_rows C h) = map (\<lambda>j. whole_next M n (take pre prompt @ take (Suc j) ?suf)) [0 ..< length ?suf]"
    using steady_relay [OF st id ne(2) _ disjI2 [OF w]] len pre by auto
  have rows: "length (co_rows C h) = length prompt - pre" using arg_cong [OF r(2), of length] by simp
  let ?s1 = "\<lparr>so_mesh = m', so_kv = length prompt, so_hidden = Some h\<rparr>"
  have f: "t_forward ?T s prompt 0 = (?s1, Inr (co_rows C h))"
    using r(1) warm pre by (simp add: socket_target_def socket_forward_def)
  obtain rows' s2 where f': "t_forward ?T s prompt 0 = (s2, Inr rows')" "rows' \<noteq> []" "t_argmax ?T (last rows') = whole_next M n prompt"
    using mt.prefill [OF fresh ne(1) len] by blast
  have hid: "t_hidden ?T ?s1 = feats h" "length (feats h) < length prompt" "t_kv_len ?T ?s1 = length prompt"
    using feats rows warm pre by (simp_all add: socket_target_def feats_ok_def)
  let ?st = "\<lparr>sp_target = ?s1, sp_draft = eagle_prefill Op (d\<lparr>eg_len := length prompt\<rparr>) prompt (feats h),
      sp_head = whole_next M n prompt, sp_pos = length prompt\<rparr>"
  have start: "spec_start ?T (eagle_draft Op) s d prompt = (?s1, Inr ?st)"
    using f f' hid by (simp add: spec_start_def eagle_draft_def)
  have "spec_round ?T (eagle_draft Op) pt K ?st = (?s1, Inl RuntimeError)"
    by (simp add: spec_round_def eagle_draft_def eagle_misaligned [OF ne(1) hid(2)])
  then have "stream_loop ?T (eagle_draft Op) pt K eos n_new 1 ?st gc = ([], ?s1, gc, Inl RuntimeError)"
    using more by (simp add: stream_loop.simps)
  then show ?thesis using start go by (simp add: speculative_greedy_stream_def)
qed

subsection \<open>An EAGLE draft on a small mesh\<close>

definition demo_eagle :: "(8 word, 8 word, 8 word) eagle_ops" where
  "demo_eagle = \<lparr>eo_norm = (\<lambda>h. h), eo_fuse = (\<lambda>t f. of_int t + f), eo_layer = (\<lambda>x p. sum_list x), eo_pick = uint\<rparr>"

definition eagle_gen :: "8 word gen_config" where
  "eagle_gen = demo_gen\<lparr>gc_feats := t_raw\<rparr>"

lemma eagle_feats: "feats_ok demo_coord t_raw"
  by (simp add: feats_ok_def demo_coord_def)

theorem eagle_generation_is_greedy_witness:
  "\<exists>s'. generate_speculative demo_env demo_coord local_provider eagle_gen (eagle_draft demo_eagle) eagle_new 2 [3, 1] 5 demo_orch =
     (s', Inr (greedy (whole_next byte_model 4) [3, 1] 5))"
proof -
  have "feats_ok demo_coord (gc_feats eagle_gen)" using eagle_feats by (simp add: eagle_gen_def)
  from eagle_generation_is_greedy [OF demo_steady this, of "[3, 1]" 5 2 demo_eagle eagle_new] show ?thesis
    by (simp del: greedy.simps) blast
qed

theorem eagle_fails_on_warm_prefix_witness:
  "\<exists>s s'. speculative_greedy_stream (socket_target demo_env demo_coord local_provider t_raw 1 2) (eagle_draft demo_eagle) None 2 {}
     s eagle_new [3, 1, 4] 5 None = ([whole_next byte_model 4 [3, 1, 4]], s', None, Inl RuntimeError)"
proof -
  have "mesh_fresh demo_env demo_coord byte_model 4 byte_enc demo_lay None 1 0 (open_target (or_mesh demo_orch) 0) [3, 1]"
    using demo_steady by (simp add: mesh_fresh_def open_target_def id_ok_def)
  note cold = this
  have "[3, 1 :: int] \<noteq> []" "length [3, 1 :: int] < 2 ^ 32" by simp_all
  from mt.prefill [OF cold this, of t_raw] obtain s :: "(8 word, registry) socket_target"
    where "mesh_holds demo_env demo_coord byte_model 4 byte_enc demo_lay None 1 s [3, 1]"
    by blast
  then have "mesh_fresh demo_env demo_coord byte_model 4 byte_enc demo_lay None 1 2 s [3, 1, 4]"
    by (simp add: mesh_holds_def mesh_fresh_def numeral_2_eq_2)
  from eagle_fails_on_warm_prefix [OF this _ eagle_feats, of 5 "{}" demo_eagle None 2 eagle_new None] show ?thesis by auto
qed

end
