(* ===== verification/Node_Audit.thy ===== *)
theory Node_Audit
  imports Mesh_Spec Json
begin

section \<open>Auditing nodes\<close>

text \<open>
  \<open>engine/verify.py\<close> and the audit round of \<open>engine/coordinator.py\<close>: a probation node and a trusted
  holder of the same slot are given the same challenge, their outputs are compared, and the result
  is recorded in the registry.  The random generator and the reading of a tensor as 32-bit floats
  are parameters; norms and quotients of floats are exact, so a norm is a real number.
\<close>

subsection \<open>Challenges\<close>

definition seed_from :: "string \<Rightarrow> int" where
  "seed_from text = be_value (take 8 (sha256 (encode_string text))) AND 0x7FFFFFFFFFFFFFFF"

text \<open>\<open>torch.randn\<close> from a seeded generator, of the given width and length, in the model's dtype.\<close>

record audit_cfg =
  au_randn :: "int \<Rightarrow> nat \<Rightarrow> nat \<Rightarrow> tensor"
  au_floats :: "tensor \<Rightarrow> pyfloat list"
  au_width :: nat
  au_cos :: real
  au_l2 :: real

definition challenge_activation :: "audit_cfg \<Rightarrow> string \<Rightarrow> tensor" where
  "challenge_activation V seed = au_randn V (seed_from seed) 4 (au_width V)"

subsection \<open>Comparing outputs\<close>

fun finite_float :: "pyfloat \<Rightarrow> bool" where
  "finite_float (Fin r) = True"
| "finite_float _ = False"

fun float_value :: "pyfloat \<Rightarrow> real" where
  "float_value (Fin r) = of_rat r"
| "float_value _ = 0"

definition dot :: "real list \<Rightarrow> real list \<Rightarrow> real" where
  "dot xs ys = sum_list (map2 (*) xs ys)"

definition norm2 :: "real list \<Rightarrow> real" where
  "norm2 xs = sqrt (dot xs xs)"

text \<open>Whether they agree, the cosine, and the relative distance, \<open>None\<close> for infinity.\<close>

definition compare_values :: "real \<Rightarrow> real \<Rightarrow> real list \<Rightarrow> real list \<Rightarrow> bool \<times> real \<times> real option" where
  "compare_values cos_t l2_t a b =
     (let na = norm2 a; nb = norm2 b
      in if na = 0 \<and> nb = 0 then (True, 1, Some 0)
         else if na = 0 \<or> nb = 0 then (False, 0, None)
         else (let cs = dot a b / (na * nb); rel = norm2 (map2 (-) a b) / nb
               in (cos_t \<le> cs \<and> rel \<le> l2_t, cs, Some rel)))"

definition outputs_agree :: "audit_cfg \<Rightarrow> tensor option \<Rightarrow> tensor option \<Rightarrow> bool \<times> real \<times> real option" where
  "outputs_agree V a b =
     (case (a, b) of
        (Some x, Some y) \<Rightarrow>
          if t_shape x \<noteq> t_shape y then (False, 0, None)
          else if \<not> list_all finite_float (au_floats V x) \<or> \<not> list_all finite_float (au_floats V y) then (False, 0, None)
          else compare_values (au_cos V) (au_l2 V) (map float_value (au_floats V x)) (map float_value (au_floats V y))
      | _ \<Rightarrow> (False, 0, None))"

subsection \<open>The audit round\<close>

definition challenge_node ::
  "'e mesh_env \<Rightarrow> bytes \<Rightarrow> node \<Rightarrow> tensor \<Rightarrow> ('e, registry) mesh \<Rightarrow> ('e, registry) mesh \<times> tensor result" where
  "challenge_node E cluster nd hidden m =
     (case node_key cluster nd of
        Inl e \<Rightarrow> (m, Inl e)
      | Inr key \<Rightarrow> star_hop E key audit_session 0 (node_id nd) hidden m)"

definition skip_pair :: "string \<Rightarrow> string \<Rightarrow> ('e, registry) mesh \<Rightarrow> ('e, registry) mesh" where
  "skip_pair test_id ref_id m = drop_conn test_id (drop_conn ref_id m)"

record audit_result =
  ar_node :: string
  ar_slot :: nat
  ar_ok :: bool
  ar_action :: "check_action option"

definition challenge_seed :: "string \<Rightarrow> nat \<Rightarrow> string \<Rightarrow> string" where
  "challenge_seed test_id i nonce = test_id @ '':'' @ int_text (int i) @ '':'' @ nonce"

text \<open>One pair: \<open>Inr None\<close> when it is skipped.\<close>

definition audit_pair ::
  "'e mesh_env \<Rightarrow> bytes \<Rightarrow> audit_cfg \<Rightarrow> string \<Rightarrow> string \<times> string \<times> nat \<Rightarrow> ('e, registry) mesh \<Rightarrow>
   ('e, registry) mesh \<times> audit_result option result" where
  "audit_pair E cluster V nonce = (\<lambda>(test_id, ref_id, i) m.
     (case (map_of (nodes (topo (m_prov m))) test_id, map_of (nodes (topo (m_prov m))) ref_id) of
        (Some test, Some ref) \<Rightarrow>
          (let x = challenge_activation V (challenge_seed test_id i nonce)
           in case challenge_node E cluster ref x m of
                (m1, Inl e) \<Rightarrow> if wire_failure e then (skip_pair test_id ref_id m1, Inr None) else (m1, Inl e)
              | (m1, Inr out_ref) \<Rightarrow>
                  (case challenge_node E cluster test x m1 of
                     (m2, Inl e) \<Rightarrow> if wire_failure e then (skip_pair test_id ref_id m2, Inr None) else (m2, Inl e)
                   | (m2, Inr out_test) \<Rightarrow>
                       (let ok = fst (outputs_agree V (Some out_test) (Some out_ref));
                            (reg, action) = reg_record_check (m_prov m2) test_id ok 3 2
                        in (m2\<lparr>m_prov := reg\<rparr>,
                            Inr (Some \<lparr>ar_node = test_id, ar_slot = i, ar_ok = ok, ar_action = action\<rparr>)))))
      | _ \<Rightarrow> (m, Inr None)))"

text \<open>The results so far, and how the round ends.  \<open>nonces k\<close> is what \<open>os.urandom\<close> gives for the pair \<open>k\<close>.\<close>

fun audit_pairs_loop ::
  "'e mesh_env \<Rightarrow> bytes \<Rightarrow> audit_cfg \<Rightarrow> (nat \<Rightarrow> string) \<Rightarrow> nat \<Rightarrow> (string \<times> string \<times> nat) list \<Rightarrow> ('e, registry) mesh \<Rightarrow>
   ('e, registry) mesh \<times> audit_result list \<times> unit result" where
  "audit_pairs_loop E cluster V nonces k [] m = (m, [], Inr ())"
| "audit_pairs_loop E cluster V nonces k (p # ps) m =
     (case audit_pair E cluster V (nonces k) p m of
        (m1, Inl e) \<Rightarrow> (m1, [], Inl e)
      | (m1, Inr a) \<Rightarrow>
          (case audit_pairs_loop E cluster V nonces (Suc k) ps m1 of
             (m2, rs, r) \<Rightarrow> (m2, (case a of None \<Rightarrow> rs | Some x \<Rightarrow> x # rs), r)))"

definition run_audit_round ::
  "'e mesh_env \<Rightarrow> bytes \<Rightarrow> audit_cfg \<Rightarrow> (nat \<Rightarrow> string) \<Rightarrow> nat \<Rightarrow> ('e, registry) mesh \<Rightarrow>
   ('e, registry) mesh \<times> audit_result list \<times> unit result" where
  "run_audit_round E cluster V nonces max_pairs m =
     audit_pairs_loop E cluster V nonces 0 (take max_pairs (audit_pairs (m_prov m))) m"

subsection \<open>What agreement means\<close>

lemma dot_Cons [simp]: "dot (x # xs) (y # ys) = x * y + dot xs ys"
  by (simp add: dot_def)

lemma dot_Nil [simp]: "dot [] ys = 0" "dot xs [] = 0"
  by (simp_all add: dot_def)

lemma dot_self_nonneg [simp]: "0 \<le> dot xs xs"
  by (induction xs) (simp_all add: add_nonneg_nonneg)

lemma dot_commute: "dot xs ys = dot ys xs"
  by (induction xs ys rule: list_induct2') (simp_all add: mult.commute)

lemma norm2_nonneg [simp]: "0 \<le> norm2 xs"
  by (simp add: norm2_def)

lemma norm2_square: "norm2 xs * norm2 xs = dot xs xs"
  by (simp add: norm2_def)

lemma dot_diff: "length xs = length ys \<Longrightarrow>
    dot (map2 (-) xs ys) (map2 (-) xs ys) = dot xs xs + dot ys ys - 2 * dot xs ys"
  by (induction xs ys rule: list_induct2) (simp_all add: algebra_simps)

lemma dot_zero_right: "length a = length b \<Longrightarrow> dot b b = 0 \<Longrightarrow> dot a b = 0"
  by (induction a b rule: list_induct2) (simp_all add: add_nonneg_eq_0_iff)

lemma norm2_self_ratio: "norm2 a \<noteq> 0 \<Longrightarrow> dot a a / (norm2 a * norm2 a) = 1"
  by (simp add: norm2_square [symmetric])

lemma diff_self_norm [simp]: "norm2 (map2 (-) xs xs) = 0"
  using dot_diff [of xs xs] by (simp add: norm2_def)

text \<open>A small relative distance forces a large cosine.\<close>

lemma square_of_difference: "(x - t * y) * (x - t * y) = x * x - 2 * (t * (x * y)) + (t * t) * (y * (y :: real))"
  by (simp add: algebra_simps)

lemma cosine_of_distance:
  assumes l: "length a = length b" and a: "norm2 a \<noteq> 0" and b: "norm2 b \<noteq> 0"
    and e: "norm2 (map2 (-) a b) \<le> eps * norm2 b" "0 \<le> eps" "eps \<le> 1"
  shows "sqrt (1 - eps\<^sup>2) \<le> dot a b / (norm2 a * norm2 b)"
proof -
  let ?A = "norm2 a" and ?B = "norm2 b" and ?s = "sqrt (1 - eps\<^sup>2)"
  have pos: "0 < ?A" "0 < ?B" using a b norm2_nonneg [of a] norm2_nonneg [of b] by linarith+
  have s: "?s * ?s = 1 - eps\<^sup>2" using e(2,3) by (simp add: power_le_one)
  have "norm2 (map2 (-) a b) * norm2 (map2 (-) a b) \<le> (eps * ?B) * (eps * ?B)"
    using e(1) by (intro mult_mono) (use e(2) pos in simp_all)
  then have "?A * ?A + ?B * ?B - 2 * dot a b \<le> eps\<^sup>2 * (?B * ?B)"
    using dot_diff [OF l] by (simp add: norm2_square power2_eq_square algebra_simps)
  moreover have "0 \<le> (?A - ?s * ?B) * (?A - ?s * ?B)" by simp
  moreover have "(?A - ?s * ?B) * (?A - ?s * ?B) = ?A * ?A - 2 * (?s * (?A * ?B)) + (1 - eps\<^sup>2) * (?B * ?B)"
    unfolding square_of_difference s by simp
  ultimately have "?s * (?A * ?B) \<le> dot a b" by (simp add: algebra_simps)
  then show ?thesis using pos by (simp add: pos_le_divide_eq mult.commute)
qed

text \<open>Up to a distance of 0.14 the cosine is at least 0.99.\<close>

lemma default_cosine: "0 \<le> eps \<Longrightarrow> eps \<le> (7 / 50 :: real) \<Longrightarrow> 99 / 100 \<le> sqrt (1 - eps\<^sup>2)"
proof -
  assume e: "0 \<le> eps" "eps \<le> (7 / 50 :: real)"
  have "eps\<^sup>2 \<le> (7 / 50)\<^sup>2" using e by (intro power_mono) simp_all
  then have "(99 / 100)\<^sup>2 \<le> 1 - eps\<^sup>2" by (simp add: power2_eq_square)
  then show ?thesis by (rule real_le_rsqrt)
qed

lemma compare_values_distance:
  assumes l: "length a = length b" and c: "cos_t \<le> 99 / 100" and d: "0 \<le> l2_t" "l2_t \<le> 7 / 50"
  shows "fst (compare_values cos_t l2_t a b) \<longleftrightarrow>
    norm2 (map2 (-) a b) \<le> l2_t * norm2 b \<and> (norm2 b = 0 \<longrightarrow> norm2 a = 0) \<and> (norm2 a = 0 \<longrightarrow> norm2 b = 0)"
proof -
  consider (zero) "norm2 a = 0" "norm2 b = 0" | (one) "(norm2 a = 0) \<noteq> (norm2 b = 0)" | (both) "norm2 a \<noteq> 0" "norm2 b \<noteq> 0" by blast
  then show ?thesis
  proof cases
    case zero
    have "dot a b = 0" using dot_zero_right [OF l] zero(2) norm2_square [of b] by simp
    then have "dot (map2 (-) a b) (map2 (-) a b) = 0"
      using dot_diff [OF l] zero norm2_square [of a] norm2_square [of b] by simp
    then have "norm2 (map2 (-) a b) = 0" by (simp add: norm2_def)
    then show ?thesis using zero by (simp add: compare_values_def)
  next
    case one
    then show ?thesis by (auto simp: compare_values_def Let_def)
  next
    case both
    have pos: "0 < norm2 b" using both(2) norm2_nonneg [of b] by linarith
    have iff: "norm2 (map2 (-) a b) / norm2 b \<le> l2_t \<longleftrightarrow> norm2 (map2 (-) a b) \<le> l2_t * norm2 b"
      using pos by (simp add: pos_divide_le_eq)
    have "cos_t \<le> dot a b / (norm2 a * norm2 b)" if "norm2 (map2 (-) a b) \<le> l2_t * norm2 b"
      using cosine_of_distance [OF l both that d(1)] default_cosine [OF d] c d(2) by linarith
    then show ?thesis using both iff by (auto simp: compare_values_def Let_def)
  qed
qed

text \<open>Noise: two outputs near a third are near each other.\<close>

lemma dot_scaled: "length a = length b \<Longrightarrow>
    dot (map2 (\<lambda>x y. s * x - t * y) a b) (map2 (\<lambda>x y. s * x - t * y) a b) = s * s * dot a a - 2 * (s * t) * dot a b + t * t * dot b b"
  by (induction a b rule: list_induct2) (simp_all add: algebra_simps)

lemma dot_bound:
  assumes "length a = length b"
  shows "\<bar>dot a b\<bar> \<le> norm2 a * norm2 b"
proof (cases "dot b b = 0")
  case True
  then show ?thesis using dot_zero_right [OF assms] by simp
next
  case False
  then have pos: "0 < dot b b" using dot_self_nonneg [of b] by linarith
  have "0 \<le> dot b b * dot b b * dot a a - 2 * (dot b b * dot a b) * dot a b + dot a b * dot a b * dot b b"
    unfolding dot_scaled [OF assms, symmetric] by simp
  then have "0 \<le> dot b b * (dot a a * dot b b - dot a b * dot a b)" by (simp add: algebra_simps)
  then have "(dot a b)\<^sup>2 \<le> dot a a * dot b b" using pos by (simp add: zero_le_mult_iff power2_eq_square)
  then have "sqrt ((dot a b)\<^sup>2) \<le> sqrt (dot a a * dot b b)" by (rule real_sqrt_le_mono)
  then show ?thesis by (simp add: norm2_def real_sqrt_mult)
qed

lemma norm2_diff_le:
  assumes "length a = length b"
  shows "norm2 (map2 (-) a b) \<le> norm2 a + norm2 b"
proof (rule power2_le_imp_le)
  have "(norm2 (map2 (-) a b))\<^sup>2 = dot a a + dot b b - 2 * dot a b"
    using norm2_square [of "map2 (-) a b"] dot_diff [OF assms] by (simp add: power2_eq_square)
  also have "\<dots> \<le> dot a a + dot b b + 2 * (norm2 a * norm2 b)" using dot_bound [OF assms] by linarith
  also have "\<dots> = (norm2 a + norm2 b)\<^sup>2" using norm2_square [of a] norm2_square [of b] by (simp add: power2_eq_square algebra_simps)
  finally show "(norm2 (map2 (-) a b))\<^sup>2 \<le> (norm2 a + norm2 b)\<^sup>2" .
qed simp

lemma diff_of_diffs: "length a = length v \<Longrightarrow> length b = length v \<Longrightarrow>
    map2 (-) (map2 (-) a v) (map2 (-) b v) = map2 (-) a (b :: real list)"
  by (intro nth_equalityI) auto

lemma diff_of_diff: "length b = length v \<Longrightarrow> map2 (-) b (map2 (-) b v) = (v :: real list)"
  by (intro nth_equalityI) auto

lemma near_norm:
  assumes "length b = length v" and "norm2 (map2 (-) b v) \<le> eps * norm2 v"
  shows "(1 - eps) * norm2 v \<le> norm2 b"
proof -
  have "norm2 v \<le> norm2 b + norm2 (map2 (-) b v)"
    using norm2_diff_le [of b "map2 (-) b v"] assms(1) diff_of_diff [OF assms(1)] by simp
  then show ?thesis using assms(2) by (simp add: algebra_simps)
qed

lemma near_zero:
  assumes "length a = length v" and "norm2 (map2 (-) a v) \<le> eps * norm2 v" and v: "norm2 v = 0"
  shows "norm2 a = 0"
proof -
  have "dot v v = 0" using norm2_square [of v] v by simp
  then have "dot a v = 0" using dot_zero_right [OF assms(1)] by blast
  then have "dot (map2 (-) a v) (map2 (-) a v) = dot a a" using dot_diff [OF assms(1)] \<open>dot v v = 0\<close> by simp
  moreover have "norm2 (map2 (-) a v) = 0" by (rule antisym) (use assms(2) v in simp_all)
  ultimately show ?thesis by (simp add: norm2_def)
qed

text \<open>Outputs within a fraction \<open>eps\<close> of one ideal vector agree, for a distance threshold of at least
  \<open>2 eps / (1 - eps)\<close>.\<close>

lemma near_outputs_agree:
  assumes shape: "t_shape x = t_shape y" and fin: "list_all finite_float (au_floats V x)" "list_all finite_float (au_floats V y)"
    and len: "length (au_floats V x) = length v" "length (au_floats V y) = length v"
    and near: "norm2 (map2 (-) (map float_value (au_floats V x)) v) \<le> eps * norm2 v"
      "norm2 (map2 (-) (map float_value (au_floats V y)) v) \<le> eps * norm2 v"
    and eps: "0 \<le> eps" "eps < 1" "2 * eps / (1 - eps) \<le> au_l2 V" "au_l2 V \<le> 7 / 50" and cos: "au_cos V \<le> 99 / 100"
  shows "fst (outputs_agree V (Some x) (Some y))"
proof -
  let ?a = "map float_value (au_floats V x)" and ?b = "map float_value (au_floats V y)"
  have l: "length ?a = length v" "length ?b = length v" using len by simp_all
  have "norm2 (map2 (-) ?a ?b) \<le> norm2 (map2 (-) ?a v) + norm2 (map2 (-) ?b v)"
    using norm2_diff_le [of "map2 (-) ?a v" "map2 (-) ?b v"] diff_of_diffs [OF l] l by simp
  then have d: "norm2 (map2 (-) ?a ?b) \<le> 2 * eps * norm2 v" using near by simp
  have p: "0 < 1 - eps" using eps(2) by simp
  have "0 \<le> 2 * eps / (1 - eps)" using eps(1) p by (intro divide_nonneg_pos) simp_all
  then have l2: "2 * eps \<le> au_l2 V * (1 - eps)" "0 \<le> au_l2 V"
    using eps(3) pos_divide_le_eq [OF p, of "2 * eps" "au_l2 V"] by linarith+
  have "2 * eps * norm2 v \<le> au_l2 V * ((1 - eps) * norm2 v)"
    using mult_right_mono [OF l2(1) norm2_nonneg [of v]] by (simp add: mult.assoc)
  also have "\<dots> \<le> au_l2 V * norm2 ?b" using near_norm [OF l(2) near(2)] l2(2) by (rule mult_left_mono)
  finally have dist: "norm2 (map2 (-) ?a ?b) \<le> au_l2 V * norm2 ?b" using d by linarith
  have z: "norm2 v = 0" if "norm2 c = 0" "length c = length v" "norm2 (map2 (-) c v) \<le> eps * norm2 v" for c
  proof -
    have "(1 - eps) * norm2 v \<le> 0" using near_norm [OF that(2,3)] that(1) by simp
    then show ?thesis using eps(2) norm2_nonneg [of v] by (simp add: mult_le_0_iff)
  qed
  have "norm2 ?a = 0 \<longleftrightarrow> norm2 ?b = 0"
    using z [OF _ l(1) near(1)] z [OF _ l(2) near(2)] near_zero [OF l(1) near(1)] near_zero [OF l(2) near(2)] by blast
  then have "fst (compare_values (au_cos V) (au_l2 V) ?a ?b)"
    using compare_values_distance [of ?a ?b "au_cos V" "au_l2 V"] l cos l2(2) eps(4) dist by simp
  then show ?thesis using shape fin by (simp add: outputs_agree_def)
qed

text \<open>Entry by entry suffices.\<close>

lemma near_entries:
  assumes "list_all2 (\<lambda>x y. \<bar>x - y\<bar> \<le> eps * \<bar>y\<bar>) a v" and "0 \<le> eps"
  shows "norm2 (map2 (-) a v) \<le> eps * norm2 v"
proof -
  have "dot (map2 (-) a v) (map2 (-) a v) \<le> eps * eps * dot v v" using assms(1)
  proof (induction rule: list_all2_induct)
    case (Cons x xs y ys)
    have "\<bar>x - y\<bar> * \<bar>x - y\<bar> \<le> (eps * \<bar>y\<bar>) * (eps * \<bar>y\<bar>)" using Cons.hyps(1) assms(2) by (intro mult_mono) simp_all
    then have "(x - y) * (x - y) \<le> eps * eps * (y * y)" by (simp add: abs_mult_self_eq mult.left_commute mult.assoc)
    then show ?case using Cons.IH by (simp add: algebra_simps)
  qed simp
  then have "norm2 (map2 (-) a v) \<le> sqrt (eps * eps * dot v v)" unfolding norm2_def by (rule real_sqrt_le_mono)
  also have "\<dots> = eps * norm2 v" using assms(2) by (simp add: norm2_def real_sqrt_mult)
  finally show ?thesis .
qed

text \<open>C11. Two outputs of one shape without infinities and not-a-number agree, for a cosine threshold of at most
  0.99 and a distance threshold between 0 and 0.14, as the defaults are, exactly when their distance is within
  that fraction of the reference's norm and neither alone is zero: then the cosine is never the deciding
  test.  So every output within numerical noise of the reference passes, and one of twice its size does not.\<close>

theorem agreement_is_relative_distance:
  assumes "au_cos V \<le> 99 / 100" and "0 \<le> au_l2 V" "au_l2 V \<le> 7 / 50" and "t_shape x = t_shape y"
    and "length (au_floats V x) = length (au_floats V y)"
  defines "a \<equiv> map float_value (au_floats V x)" and "b \<equiv> map float_value (au_floats V y)"
  shows "fst (outputs_agree V (Some x) (Some y)) \<longleftrightarrow>
    list_all finite_float (au_floats V x @ au_floats V y) \<and> norm2 (map2 (-) a b) \<le> au_l2 V * norm2 b \<and>
    (norm2 a = 0 \<longleftrightarrow> norm2 b = 0)"
  using compare_values_distance [of a b "au_cos V" "au_l2 V"] assms by (auto simp: outputs_agree_def)

subsection \<open>Honest nodes\<close>

text \<open>A node the mesh holds for a slot answers a challenge with the output of its layers.\<close>

definition slice_output ::
  "('e, 'h, 'l) model_ops \<Rightarrow> nat \<Rightarrow> ('h list \<Rightarrow> tensor) \<Rightarrow> slot \<Rightarrow> 'h list \<Rightarrow> tensor" where
  "slice_output M n enc s hs =
     enc (fst (stage_forward M [nat (s_start s) ..< nat (s_end s)] (replicate n []) hs (map (\<lambda>i. i + 0) [0 ..< length hs])))"

text \<open>An honest fleet: every holder of a slot runs the slot's layers of the model, each in its own arithmetic
  \<open>Mo h\<close>, and its key is the one the registry has.\<close>

definition honest_fleet ::
  "'e mesh_env \<Rightarrow> bytes \<Rightarrow> (string \<Rightarrow> ('e, 'h, 'l) model_ops) \<Rightarrow> nat \<Rightarrow> ('h list \<Rightarrow> tensor) \<Rightarrow> string set \<Rightarrow> topology \<Rightarrow> bool" where
  "honest_fleet E cluster Mo n enc names t \<longleftrightarrow> (\<forall>s \<in> set (slots t). \<forall>h \<in> set (s_holders s).
     h \<in> names \<and> lib_serves (Mo h) n enc [nat (s_start s) ..< nat (s_end s)] (me_lib E h) \<and>
     (\<forall>nd. map_of (nodes t) h = Some nd \<longrightarrow> node_key cluster nd = Inr (me_key E h)))"

text \<open>The arithmetics differ by rounding only: on every challenge the outputs of a slot's holders have one shape,
  are finite, and lie within a fraction \<open>eps\<close> of one ideal output.\<close>

definition within_noise ::
  "audit_cfg \<Rightarrow> real \<Rightarrow> (string \<Rightarrow> ('e, 'h, 'l) model_ops) \<Rightarrow> nat \<Rightarrow> ('h list \<Rightarrow> tensor) \<Rightarrow> slot list \<Rightarrow> bool" where
  "within_noise V eps Mo n enc ss \<longleftrightarrow> (\<forall>s \<in> set ss. \<forall>seed hs. challenge_activation V seed = enc hs \<longrightarrow>
     (\<exists>shape v. \<forall>h \<in> set (s_holders s). let y = slice_output (Mo h) n enc s hs
        in t_shape y = shape \<and> list_all finite_float (au_floats V y) \<and> length (au_floats V y) = length v \<and>
           norm2 (map2 (-) (map float_value (au_floats V y)) v) \<le> eps * norm2 v))"

lemma challenge_honest:
  assumes dep: "honest_fleet E cluster Mo n enc (dom (map_of (m_workers m))) (topo (m_prov m))"
    and rep: "tensor_rep enc" and hs: "batch_ok hs"
    and s: "s \<in> set (slots (topo (m_prov m)))" and h: "node_id nd \<in> set (s_holders s)"
    and nd: "map_of (nodes (topo (m_prov m))) (node_id nd) = Some nd"
    and x: "challenge_node E cluster nd (enc hs) m = (m', r)"
  shows "workers_frame {node_id nd} m m' \<and> tables_frame m m' \<and>
    (quiet_net E \<and> conns_open m \<longrightarrow> conns_open m' \<and> (\<exists>y. r = Inr y)) \<and>
    (case r of Inl e \<Rightarrow> wire_failure e | Inr y \<Rightarrow> y = slice_output (Mo (node_id nd)) n enc s hs)"
proof -
  let ?h = "node_id nd" and ?gs = "[nat (s_start s) ..< nat (s_end s)]"
  have d: "?h \<in> dom (map_of (m_workers m))" "lib_serves (Mo ?h) n enc ?gs (me_lib E ?h)"
      "node_key cluster nd = Inr (me_key E ?h)"
    using dep s h nd unfolding honest_fleet_def by blast+
  obtain w where w: "map_of (m_workers m) ?h = Some w" using d(1) by blast
  obtain o1 c' where f: "stage_forward (Mo ?h) ?gs (replicate n []) hs (map (\<lambda>i. i + 0) [0 ..< length hs]) = (o1, c')"
    by fastforce
  have ids: "id_ok audit_session" "id_ok (int 0)" by (simp_all add: id_ok_def audit_session_def)
  have c: "cached n 0 audit_session w (replicate n [])" by (simp add: cached_def)
  have hop: "star_hop E (me_key E ?h) audit_session (int 0) ?h (enc hs) m = (m', r)"
    using x d(3) by (simp add: challenge_node_def)
  show ?thesis
    using star_hop_ok [OF d(2) rep hs ids w c refl f hop] f by (auto simp: slice_output_def split: sum.splits)
qed

text \<open>What passed checks leave alone.\<close>

definition audit_frame :: "registry \<Rightarrow> registry \<Rightarrow> bool" where
  "audit_frame r r' \<longleftrightarrow> slots (topo r') = slots (topo r) \<and> banned r' = banned r \<and> eviction_counts r' = eviction_counts r \<and>
     (\<forall>k. map_option state (map_of (nodes (topo r')) k) = map_option state (map_of (nodes (topo r)) k))"

lemma audit_frame_refl [simp]: "audit_frame r r"
  by (simp add: audit_frame_def)

lemma audit_frame_trans: "audit_frame r r' \<Longrightarrow> audit_frame r' r'' \<Longrightarrow> audit_frame r r''"
  by (simp add: audit_frame_def)

lemma check_node_passed:
  "snd (check_node True pa sm nd) \<noteq> Some Evicted \<and> state (fst (check_node True pa sm nd)) = state nd \<and>
   wire_key (fst (check_node True pa sm nd)) = wire_key nd"
  by (simp add: check_node_def Let_def)

lemma passed_check_fleet:
  assumes "honest_fleet E cluster Mo n enc names t"
  shows "honest_fleet E cluster Mo n enc names (fst (record_check t nid True pa sm))"
proof -
  let ?t = "fst (record_check t nid True pa sm)"
  have "\<exists>nd'. map_of (nodes t) h = Some nd' \<and> node_key cluster nd' = node_key cluster nd"
    if "map_of (nodes ?t) h = Some nd" for h nd
    using that check_node_passed [of pa sm]
    by (auto simp: record_check_def dict_simps node_key_def split_beta split: if_splits option.splits)
  then have "\<forall>nd. map_of (nodes ?t) h = Some nd \<longrightarrow> node_key cluster nd = Inr (me_key E h)"
    if "\<forall>nd. map_of (nodes t) h = Some nd \<longrightarrow> node_key cluster nd = Inr (me_key E h)" for h
    using that by metis
  moreover have eq: "slots ?t = slots t" by (simp add: record_check_def split_beta split: option.split)
  ultimately show ?thesis using assms unfolding honest_fleet_def eq by blast
qed

lemma passed_check:
  assumes "reg_record_check r nid True pa sm = (r', act)"
  shows "act \<noteq> Some Evicted \<and> audit_frame r r' \<and> topo r' = fst (record_check (topo r) nid True pa sm)"
proof -
  obtain t a where t: "record_check (topo r) nid True pa sm = (t, a)" by fastforce
  have a: "a \<noteq> Some Evicted" "slots t = slots (topo r)"
    "\<forall>k. map_option state (map_of (nodes t) k) = map_option state (map_of (nodes (topo r)) k)"
    using t check_node_passed [of pa sm] by (auto simp: record_check_def split_beta dict_simps split: option.splits)
  then show ?thesis using assms t by (auto simp: reg_record_check_def audit_frame_def)
qed

definition audit_model :: "('h list \<Rightarrow> tensor) \<Rightarrow> audit_cfg \<Rightarrow> bool" where
  "audit_model enc V \<longleftrightarrow> (\<forall>seed. \<exists>hs. batch_ok hs \<and> au_randn V seed 4 (au_width V) = enc hs)"

text \<open>The thresholds leave room for the noise.\<close>

definition thresholds_ok :: "audit_cfg \<Rightarrow> real \<Rightarrow> bool" where
  "thresholds_ok V eps \<longleftrightarrow> 0 \<le> eps \<and> eps < 1 \<and> 2 * eps / (1 - eps) \<le> au_l2 V \<and> au_l2 V \<le> 7 / 50 \<and> au_cos V \<le> 99 / 100"

definition audit_ready ::
  "'e mesh_env \<Rightarrow> bytes \<Rightarrow> (string \<Rightarrow> ('e, 'h, 'l) model_ops) \<Rightarrow> nat \<Rightarrow> ('h list \<Rightarrow> tensor) \<Rightarrow> audit_cfg \<Rightarrow> real \<Rightarrow>
   ('e, registry) mesh \<Rightarrow> bool" where
  "audit_ready E cluster Mo n enc V eps m \<longleftrightarrow> registry_ok (m_prov m) \<and>
     honest_fleet E cluster Mo n enc (dom (map_of (m_workers m))) (topo (m_prov m)) \<and>
     within_noise V eps Mo n enc (slots (topo (m_prov m)))"

definition pair_ok :: "topology \<Rightarrow> string \<times> string \<times> nat \<Rightarrow> bool" where
  "pair_ok t = (\<lambda>(a, b, i). i < length (slots t) \<and> (\<forall>h \<in> {a, b}. h \<in> set (s_holders (slots t ! i)) \<and>
     h \<in> dom (map_of (nodes t))))"

lemma audit_pairs_ok:
  assumes wf: "topo_wf (topo r)" and p: "p \<in> set (audit_pairs r)"
  shows "pair_ok (topo r) p"
proof -
  obtain a b i where abi: "p = (a, b, i)" by (cases p)
  note q = audit_pairs_sound [OF wf p [unfolded abi]]
  obtain s where s: "s \<in> set (slots (topo r))" "(a, b, i) \<in> set (slot_pairs (topo r) s)"
    using p abi by (auto simp: audit_pairs_def)
  let ?hs = "holders (topo r) (s_index s)"
  let ?tr = "filter (\<lambda>n. trust n = TRUSTED) ?hs"
  have ne: "?tr \<noteq> []" and i: "i = s_index s" and ab: "b = node_id (hd ?tr)" "\<exists>nd \<in> set ?hs. a = node_id nd"
    using s(2) by (auto simp: slot_pairs_def Let_def split: if_splits)
  have lt: "s_index s < length (slots (topo r))" using topo_wf_slot_nth [OF wf s(1)] by simp
  have "hd ?tr \<in> set ?hs" using hd_in_set [OF ne] by simp
  then have "\<exists>nd \<in> set ?hs. b = node_id nd" using ab(1) by blast
  then show ?thesis using ab(2) q lt holders_member [OF wf lt] by (auto simp: pair_ok_def abi i)
qed

lemma pair_ok_frame:
  assumes "audit_frame r r'" and "pair_ok (topo r) p"
  shows "pair_ok (topo r') p"
proof -
  have "map_of (nodes (topo r')) k = None \<longleftrightarrow> map_of (nodes (topo r)) k = None" for k
    using assms(1) unfolding audit_frame_def by (metis option.map_disc_iff)
  then have "dom (map_of (nodes (topo r'))) = dom (map_of (nodes (topo r)))" by (auto simp: dom_def)
  then show ?thesis using assms by (simp add: pair_ok_def audit_frame_def)
qed

lemma audit_ready_frame:
  assumes "audit_ready E cluster Mo n enc V eps m" and "workers_frame A m m'" and "tables_frame m m'"
  shows "audit_ready E cluster Mo n enc V eps m'"
  using assms by (simp add: audit_ready_def workers_frame_def tables_frame_def)

lemma challenge_ready:
  assumes inv: "audit_ready E cluster Mo n enc V eps m" and rep: "tensor_rep enc" and hs: "batch_ok hs"
    and s: "s \<in> set (slots (topo (m_prov m)))" and h: "k \<in> set (s_holders s)"
    and nd: "map_of (nodes (topo (m_prov m))) k = Some nd"
    and x: "challenge_node E cluster nd (enc hs) m = (m', r)"
  shows "audit_ready E cluster Mo n enc V eps m' \<and> dom (map_of (m_workers m')) = dom (map_of (m_workers m)) \<and>
    m_prov m' = m_prov m \<and> (quiet_net E \<and> conns_open m \<longrightarrow> conns_open m' \<and> (\<exists>y. r = Inr y)) \<and>
    (case r of Inl e \<Rightarrow> wire_failure e | Inr y \<Rightarrow> y = slice_output (Mo k) n enc s hs)"
proof -
  have id: "node_id nd = k"
    using topo_wf_node [OF _ nd] inv by (simp add: audit_ready_def registry_ok_def)
  then have "workers_frame {node_id nd} m m' \<and> tables_frame m m' \<and>
      (quiet_net E \<and> conns_open m \<longrightarrow> conns_open m' \<and> (\<exists>y. r = Inr y)) \<and>
      (case r of Inl e \<Rightarrow> wire_failure e | Inr y \<Rightarrow> y = slice_output (Mo k) n enc s hs)"
    using challenge_honest [OF _ rep hs s _ _ x, of Mo n, unfolded id, OF _ h nd] inv unfolding audit_ready_def id by blast
  then show ?thesis using audit_ready_frame [OF inv] by (auto simp: workers_frame_def tables_frame_def)
qed

lemma skip_pair_frame:
  "audit_ready E cluster Mo n enc V eps (skip_pair a b m) = audit_ready E cluster Mo n enc V eps m"
  "m_prov (skip_pair a b m) = m_prov m" "m_workers (skip_pair a b m) = m_workers m"
  by (simp_all add: skip_pair_def drop_conn_def audit_ready_def)

lemma passed_check_ready:
  assumes "audit_ready E cluster Mo n enc V eps m" and c: "reg_record_check (m_prov m) nid True pa sm = (r', act)"
  shows "audit_ready E cluster Mo n enc V eps (m\<lparr>m_prov := r'\<rparr>)"
proof -
  have "slots (topo r') = slots (topo (m_prov m))" using conjunct1 [OF conjunct2 [OF passed_check [OF c]]] unfolding audit_frame_def by blast
  then show ?thesis
    using assms registry_ok_step [of "m_prov m" "RCheck nid True pa sm"] passed_check [OF c]
    by (simp add: audit_ready_def passed_check_fleet)
qed

lemma audit_pair_honest:
  assumes inv: "audit_ready E cluster Mo n enc V eps m" and rep: "tensor_rep enc" and V: "audit_model enc V" "thresholds_ok V eps"
    and p: "pair_ok (topo (m_prov m)) (a, b, i)" and x: "audit_pair E cluster V nonce (a, b, i) m = (m', r)"
  shows "audit_ready E cluster Mo n enc V eps m' \<and> dom (map_of (m_workers m')) = dom (map_of (m_workers m)) \<and>
    audit_frame (m_prov m) (m_prov m') \<and>
    (\<exists>y. r = Inr y \<and> (\<forall>z. y = Some z \<longrightarrow> ar_node z = a \<and> ar_slot z = i \<and> ar_ok z \<and> ar_action z \<noteq> Some Evicted) \<and>
      (quiet_net E \<and> conns_open m \<longrightarrow> conns_open m' \<and> y \<noteq> None))"
proof -
  let ?t = "topo (m_prov m)" and ?s = "slots (topo (m_prov m)) ! i"
  obtain nt nr where n: "map_of (nodes ?t) a = Some nt" "map_of (nodes ?t) b = Some nr"
    and h: "a \<in> set (s_holders ?s)" "b \<in> set (s_holders ?s)" and s: "?s \<in> set (slots ?t)"
    using p by (auto simp: pair_ok_def)
  obtain hs where hs: "batch_ok hs" "challenge_activation V (challenge_seed a i nonce) = enc hs"
    using V(1) by (auto simp: audit_model_def challenge_activation_def)
  obtain m1 r1 where c1: "challenge_node E cluster nr (enc hs) m = (m1, r1)" by fastforce
  note k1 = challenge_ready [OF inv rep hs(1) s h(2) n(2) c1]
  show ?thesis
  proof (cases r1)
    case (Inl e)
    then have "m' = skip_pair a b m1 \<and> r = Inr None" using x n hs(2) c1 k1 by (simp add: audit_pair_def)
    then show ?thesis using Inl k1 by (auto simp: skip_pair_frame)
  next
    case (Inr y1)
    obtain m2 r2 where c2: "challenge_node E cluster nt (enc hs) m1 = (m2, r2)" by fastforce
    have "audit_ready E cluster Mo n enc V eps m1" and same: "m_prov m1 = m_prov m" using k1 by simp_all
    note k2 = challenge_ready [OF this(1) rep hs(1) _ _ _ c2, unfolded same, OF s h(1) n(1)]
    show ?thesis
    proof (cases r2)
      case (Inl e)
      then have "m' = skip_pair a b m2 \<and> r = Inr None" using x n hs(2) c1 Inr c2 k2 by (simp add: audit_pair_def)
      then show ?thesis using Inl Inr k1 k2 by (auto simp: skip_pair_frame)
    next
      case R2: (Inr y2)
      have y: "y1 = slice_output (Mo b) n enc ?s hs" "y2 = slice_output (Mo a) n enc ?s hs" using Inr R2 k1 k2 by simp_all
      obtain shape v where v: "\<forall>h \<in> set (s_holders ?s). let y = slice_output (Mo h) n enc ?s hs
          in t_shape y = shape \<and> list_all finite_float (au_floats V y) \<and> length (au_floats V y) = length v \<and>
             norm2 (map2 (-) (map float_value (au_floats V y)) v) \<le> eps * norm2 v"
        using inv s hs(2) unfolding audit_ready_def within_noise_def by meson
      have ok: "fst (outputs_agree V (Some y2) (Some y1))"
        using bspec [OF v h(1)] bspec [OF v h(2)] V(2) unfolding y [symmetric] thresholds_ok_def Let_def
        by (intro near_outputs_agree [of y2 y1 V v eps]) simp_all
      obtain r' act where c: "reg_record_check (m_prov m2) a True 3 2 = (r', act)" by fastforce
      have "m' = m2\<lparr>m_prov := r'\<rparr> \<and> r = Inr (Some \<lparr>ar_node = a, ar_slot = i, ar_ok = True, ar_action = act\<rparr>)"
        using x n hs(2) c1 Inr c2 R2 ok c by (simp add: audit_pair_def)
      then show ?thesis
        using k1 k2 Inr R2 passed_check_ready [OF conjunct1 [OF k2] c] passed_check [OF c] by (auto simp: conns_open_def)
    qed
  qed
qed

lemma audit_loop_honest:
  assumes "tensor_rep enc" and "audit_model enc V" and "thresholds_ok V eps"
    and "audit_ready E cluster Mo n enc V eps m" and "\<forall>p \<in> set ps. pair_ok (topo (m_prov m)) p"
    and "audit_pairs_loop E cluster V nonces k ps m = (m', rs, r)"
  shows "r = Inr () \<and> audit_ready E cluster Mo n enc V eps m' \<and> audit_frame (m_prov m) (m_prov m') \<and>
    (\<forall>x \<in> set rs. ar_ok x \<and> ar_action x \<noteq> Some Evicted \<and> (ar_node x, ar_slot x) \<in> (\<lambda>(a, _, i). (a, i)) ` set ps) \<and>
    (quiet_net E \<and> conns_open m \<longrightarrow> map (\<lambda>x. (ar_node x, ar_slot x)) rs = map (\<lambda>(a, _, i). (a, i)) ps)"
  using assms(4-)
proof (induction ps arbitrary: m k rs)
  case Nil
  then show ?case by auto
next
  case (Cons p ps)
  obtain a b i where p: "p = (a, b, i)" by (cases p)
  obtain m1 r1 where a1: "audit_pair E cluster V (nonces k) p m = (m1, r1)" by fastforce
  obtain y where r1: "r1 = Inr y"
      and y: "\<forall>z. y = Some z \<longrightarrow> ar_node z = a \<and> ar_slot z = i \<and> ar_ok z \<and> ar_action z \<noteq> Some Evicted"
      and quiet: "quiet_net E \<and> conns_open m \<longrightarrow> conns_open m1 \<and> y \<noteq> None"
      and m1: "audit_ready E cluster Mo n enc V eps m1" "audit_frame (m_prov m) (m_prov m1)"
    using audit_pair_honest [OF Cons.prems(1) assms(1,2,3) _ a1 [unfolded p]] Cons.prems(2) p by auto
  obtain rs2 where l: "audit_pairs_loop E cluster V nonces (Suc k) ps m1 = (m', rs2, r)"
      and rs: "rs = (case y of None \<Rightarrow> rs2 | Some x \<Rightarrow> x # rs2)"
    using Cons.prems(3) a1 r1 by (auto split: prod.splits)
  have "\<forall>q \<in> set ps. pair_ok (topo (m_prov m1)) q" using Cons.prems(2) pair_ok_frame [OF m1(2)] by simp
  note ih = Cons.IH [OF m1(1) this l]
  have z: "map (\<lambda>x. (ar_node x, ar_slot x)) rs = map (\<lambda>(a, _, i). (a, i)) (p # ps)" if q: "quiet_net E \<and> conns_open m"
  proof -
    obtain z where "y = Some z" using quiet q by blast
    then show ?thesis using y quiet q ih p rs by simp
  qed
  have "ar_ok x \<and> ar_action x \<noteq> Some Evicted \<and> (ar_node x, ar_slot x) \<in> (\<lambda>(a, _, i). (a, i)) ` set (p # ps)"
    if "x \<in> set rs" for x
    using that y ih p rs by (auto split: option.splits)
  then show ?case using ih z audit_frame_trans [OF m1(2)] by blast
qed


subsection \<open>A small audit\<close>

text \<open>Two holders of the first slot, one of them trusted.\<close>

definition demo_three :: "topology" where
  "demo_three = foldl topo_step demo_four [ERegister (demo_node ''c'' 2) 2 (Some (0, 2)), EReady ''c'', ETrusted ''a'']"

definition demo_lay3 :: "string \<Rightarrow> nat list" where
  "demo_lay3 nid = (if nid = ''b'' then [2, 3] else [0, 1])"

text \<open>The node on probation computes a little differently.\<close>

definition rounded_model :: "(8 word, 8 word, 8 word) model_ops" where
  "rounded_model = byte_model\<lparr>m_layer := (\<lambda>g es h p. sum_list es + of_nat g + 1)\<rparr>"

definition demo_ops :: "string \<Rightarrow> (8 word, 8 word, 8 word) model_ops" where
  "demo_ops nid = (if nid = ''c'' then rounded_model else byte_model)"

definition ops_lib :: "(8 word, 8 word, 8 word) model_ops \<Rightarrow> nat list \<Rightarrow> nat \<Rightarrow> 8 word stage_lib" where
  "ops_lib M gs n = (byte_lib gs n)\<lparr>sl_forward := (\<lambda>md x c.
       case md of
         Causal ps \<Rightarrow> (case stage_forward M gs c (t_raw x) (map nat ps) of (o1, c') \<Rightarrow> (c', Inr (byte_enc o1)))
       | _ \<Rightarrow> (c, Inl RuntimeError))\<rparr>"

definition demo_env3 :: "8 word mesh_env" where
  "demo_env3 = demo_env\<lparr>me_lib := (\<lambda>nid. ops_lib (demo_ops nid) (demo_lay3 nid) 4)\<rparr>"

definition demo_mesh3 :: "(8 word, registry) mesh" where
  "demo_mesh3 = demo_mesh\<lparr>m_workers := map (\<lambda>nid. (nid, \<lparr>w_sessions = [], w_touch = []\<rparr>)) [''a'', ''b'', ''c''],
     m_prov := mk_registry demo_three [1] (''coord'', 7000) '''' None None 1000 1 '''' None True\<rparr>"

definition demo_audit :: "audit_cfg" where
  "demo_audit = \<lparr>au_randn = (\<lambda>seed len width. byte_enc (replicate len (of_int seed))),
     au_floats = (\<lambda>t. map (\<lambda>w. Fin (of_int (uint w))) (t_raw t)), au_width = 1, au_cos = 99 / 100, au_l2 = 1 / 20\<rparr>"

lemma demo_three_eq: "demo_three = demo_four\<lparr>
    nodes := [(''a'', (demo_node ''a'' 2)\<lparr>slot := Some 0, state := READY, trust := TRUSTED\<rparr>),
      (''b'', (demo_node ''b'' 2)\<lparr>slot := Some 1, state := READY, last_hb := 1\<rparr>),
      (''c'', (demo_node ''c'' 2)\<lparr>slot := Some 0, state := READY, last_hb := 2\<rparr>)],
    slots := [\<lparr>s_index = 0, s_start = 0, s_end = 2, s_holders = [''a'', ''c'']\<rparr>,
      \<lparr>s_index = 1, s_start = 2, s_end = 4, s_holders = [''b'']\<rparr>]\<rparr>"
  by (simp add: demo_three_def demo_four_eq register_def choose_slot_def demo_simps drop_holder_def slot_size_def
      mark_ready_def set_trusted_def)

text \<open>Outputs read as numbers around 20000, so that no two bytes are more than 1.3 per cent apart.\<close>

definition demo_noisy :: "audit_cfg" where
  "demo_noisy = demo_audit\<lparr>au_floats := (\<lambda>t. map (\<lambda>w. Fin (20000 + of_int (uint w))) (t_raw t))\<rparr>"

lemma demo_audit_model: "audit_model byte_enc demo_noisy"
  by (simp add: audit_model_def demo_noisy_def demo_audit_def batch_ok_def)
    (rule allI, rule exI, rule conjI [OF _ conjI [OF _ refl]], simp_all)

lemma demo_thresholds: "thresholds_ok demo_noisy (51 / 4000)"
  by (simp add: thresholds_ok_def demo_noisy_def demo_audit_def)

lemma ops_lib_serves: "lib_serves M n byte_enc gs (ops_lib M gs n)"
proof -
  have "map nat (position_ids k (int pos)) = map (\<lambda>i. i + pos) [0 ..< k]" for k pos
    by (simp add: position_ids_def nat_int_add)
  then show ?thesis by (simp add: lib_serves_def ops_lib_def byte_lib_def byte_enc_def)
qed

lemma demo_value: "real_of_rat (unsigned (w :: 8 word)) = unsigned w"
  using of_rat_of_nat_eq [of "unat w"] by simp

lemma demo_within_noise: "within_noise demo_noisy (51 / 4000) Mo n byte_enc ss"
  unfolding within_noise_def
proof (intro ballI allI impI)
  fix s :: slot and seed and hs :: "8 word list"
  let ?v = "replicate (length hs) (20000 :: real)"
  have "let y = slice_output (Mo h) n byte_enc s hs
     in t_shape y = t_shape (byte_enc hs) \<and> list_all finite_float (au_floats demo_noisy y) \<and>
       length (au_floats demo_noisy y) = length ?v \<and>
       norm2 (map2 (-) (map float_value (au_floats demo_noisy y)) ?v) \<le> 51 / 4000 * norm2 ?v" for h
  proof -
    obtain os where os: "slice_output (Mo h) n byte_enc s hs = byte_enc os" "length os = length hs"
      using stage_forward_length by (auto simp: slice_output_def)
    have f: "map float_value (au_floats demo_noisy (byte_enc os)) = map (\<lambda>w. 20000 + of_int (uint w)) os"
      by (simp add: demo_noisy_def byte_enc_def of_rat_add demo_value)
    have "\<bar>uint w\<bar> \<le> 255" for w :: "8 word" using uint_lt2p [of w] by (simp del: uint_nat)
    then have b: "\<bar>real_of_int (uint w)\<bar> \<le> 255" for w :: "8 word" by (metis of_int_abs of_int_le_iff of_int_numeral)
    have "norm2 (map2 (-) (map (\<lambda>w. 20000 + of_int (uint w)) os) ?v) \<le> 51 / 4000 * norm2 ?v"
      using b os(2) by (intro near_entries) (simp_all add: list_all2_conv_all_nth)
    then show ?thesis unfolding os(1) f [symmetric] Let_def using os(2)
      by (simp add: byte_enc_def demo_noisy_def list_all_iff)
  qed
  then show "\<exists>shape v. \<forall>h \<in> set (s_holders s). let y = slice_output (Mo h) n byte_enc s hs
     in t_shape y = shape \<and> list_all finite_float (au_floats demo_noisy y) \<and> length (au_floats demo_noisy y) = length v \<and>
        norm2 (map2 (-) (map float_value (au_floats demo_noisy y)) v) \<le> 51 / 4000 * norm2 v" by blast
qed

lemma demo_mesh3_topo: "topo (m_prov demo_mesh3) = demo_three"
  by (simp add: demo_mesh3_def mk_registry_def Let_def)

lemma demo_audit_ready: "audit_ready demo_env3 [7] demo_ops 4 byte_enc demo_noisy (51 / 4000) demo_mesh3"
proof -
  have "topo_wf demo_three" unfolding demo_three_def by (simp add: demo_four_wf topo_wf_step del: topo_step.simps)
  then have "registry_ok (m_prov demo_mesh3)" unfolding demo_mesh3_def by (simp add: registry_ok_initial)
  moreover have "honest_fleet demo_env3 [7] demo_ops 4 byte_enc (dom (map_of (m_workers demo_mesh3))) demo_three"
    using ops_lib_serves [of _ 4]
    by (simp add: honest_fleet_def demo_three_eq demo_four_eq mk_topology_def Let_def demo_mesh3_def demo_lay3_def demo_env3_def
        demo_env_def node_key_def demo_node_def new_node_def upt_rec numeral_eq_Suc)
  ultimately show ?thesis by (simp add: audit_ready_def demo_mesh3_topo demo_within_noise)
qed

text \<open>The two arithmetics differ.\<close>

lemma demo_rounding: "slice_output byte_model 4 byte_enc \<lparr>s_index = 0, s_start = 0, s_end = 2, s_holders = []\<rparr> [1] \<noteq>
    slice_output rounded_model 4 byte_enc \<lparr>s_index = 0, s_start = 0, s_end = 2, s_holders = []\<rparr> [1]"
  by code_simp

lemma demo_audit_pairs: "audit_pairs (m_prov demo_mesh3) = [(''c'', ''a'', 0)]"
  by (simp add: audit_pairs_def slot_pairs_def demo_mesh3_topo demo_three_eq demo_four_eq holders_def live_holders_def
      List.map_filter_simps demo_simps trank_def)


text \<open>Twice the reference is refused, although its direction is the same.\<close>

lemma agreement_is_relative_distance_witness:
  "\<not> fst (outputs_agree demo_audit (Some (byte_enc [6, 8])) (Some (byte_enc [3, 4]))) \<and>
   fst (outputs_agree demo_audit (Some (byte_enc [3, 4])) (Some (byte_enc [3, 4])))"
proof -
  have f: "au_cos demo_audit \<le> 99 / 100" "0 \<le> au_l2 demo_audit" "au_l2 demo_audit \<le> 7 / 50"
    by (simp_all add: demo_audit_def)
  have len: "t_shape (byte_enc [6, 8]) = t_shape (byte_enc [3, 4])"
      "length (au_floats demo_audit (byte_enc [6, 8])) = length (au_floats demo_audit (byte_enc [3, 4]))"
    by (simp_all add: byte_enc_def demo_audit_def)
  have n: "norm2 [3, 4] = 5" "norm2 [0, 0] = 0" by (simp_all add: norm2_def dot_def)
  have v: "map float_value (au_floats demo_audit (byte_enc [6, 8])) = [6, 8]"
      "map float_value (au_floats demo_audit (byte_enc [3, 4])) = [3, 4]"
    by (simp_all add: byte_enc_def demo_audit_def)
  show ?thesis
    using agreement_is_relative_distance [OF f len, unfolded v] agreement_is_relative_distance [OF f refl refl, of "byte_enc [3, 4]", unfolded v] n
    by (simp add: byte_enc_def demo_audit_def)
qed

end
