(* ===== verification/Node_Agent.thy ===== *)
theory Node_Agent
  imports Route_Client_Spec
begin

section \<open>Nodes that join a mesh\<close>

text \<open>
  \<open>run_control_client\<close> of \<open>engine/stage_worker.py\<close>: a node registers with the active control plane
  and its standbys, announces itself, sends heartbeats, registers again where it is not known any
  more, and drains on exit; and the registration and heartbeats of an orchestrator in
  \<open>engine/api.py\<close>.  A post is one contact with the modelled control server.  The interval between
  two rounds is not modelled: a round is one function.
\<close>

subsection \<open>Bodies\<close>

record node_agent =
  ag_id :: string
  ag_endpoint :: "string \<times> int"
  ag_capacity :: int
  ag_fp :: string
  ag_reach :: string
  ag_region :: string
  ag_wallet :: string
  ag_key :: "(ed25519 \<times> bytes) option"

text \<open>The time stamp in whole seconds, and the signature of the canonical body.\<close>

definition agent_signed :: "float_text \<Rightarrow> node_agent \<Rightarrow> rat \<Rightarrow> body \<Rightarrow> body" where
  "agent_signed F A clock b =
     (let b1 = dset ''ts'' (JInt \<lfloor>clock\<rfloor>) b
      in case ag_key A of
           None \<Rightarrow> b1
         | Some (S, priv) \<Rightarrow> dset ''sig'' (JStr (hex_of (ed_sign S priv (canonical F (JObj b1))))) b1)"

definition register_body :: "node_agent \<Rightarrow> (int \<times> int) option \<Rightarrow> body" where
  "register_body A prefer_range =
     [(''node_id'', JStr (ag_id A)), (''endpoint'', pair_json (ag_endpoint A)),
      (''capacity_layers'', JInt (ag_capacity A)), (''model_fp'', JStr (ag_fp A)),
      (''reachability'', JStr (ag_reach A)), (''region'', JStr (ag_region A)),
      (''payout_wallet'', JStr (ag_wallet A))] @
     (case prefer_range of None \<Rightarrow> [] | Some (a, b) \<Rightarrow> [(''loaded_layers'', JList [JInt a, JInt b])])"

definition live_body :: "node_agent \<Rightarrow> body" where
  "live_body A = [(''node_id'', JStr (ag_id A))]"

text \<open>The network as this node uses it.\<close>

definition agent_net :: "control_net \<Rightarrow> node_agent \<Rightarrow> control_net" where
  "agent_net N A = N\<lparr>cn_sign := Some (agent_signed (cc_text (cn_config N)) A)\<rparr>"

subsection \<open>Joining\<close>

text \<open>One post with its status: \<open>None\<close> when there is no answer.\<close>

definition control_contact :: "control_net \<Rightarrow> string \<Rightarrow> body \<Rightarrow> string \<Rightarrow> planes \<Rightarrow> planes \<times> reply option" where
  "control_contact N path b url s =
     (let t = pl_contacts s;
          s1 = s\<lparr>pl_contacts := t + 1\<rparr>;
          data = (case cn_sign N of None \<Rightarrow> b | Some sign \<Rightarrow> sign (cn_clock N t) b)
      in if cn_reach N t url = Refused then (s1, None)
         else case map_of (pl_servers s) url of
                None \<Rightarrow> (s1, None)
              | Some c \<Rightarrow>
                  (case handle_post (cn_config N) (cn_server N t) (cn_server N t) path (Some (JObj data)) c of
                     None \<Rightarrow> (s1, None)
                   | Some (c', rep) \<Rightarrow>
                       (s1\<lparr>pl_servers := dmod url (\<lambda>_. c') (pl_servers s1)\<rparr>,
                        if cn_reach N t url = Lost then None else Some rep)))"

lemma post_one_contact: "post_one N path b url s =
    (case control_contact N path b url s of
       (s1, Some (Answer r)) \<Rightarrow> (s1, Inr r) | (s1, _) \<Rightarrow> (s1, Inl OSError))"
  by (auto simp: post_one_def control_contact_def Let_def split: option.split reply.split prod.split)

text \<open>The assigned layers and the node's key; the server sends whole numbers.\<close>

definition read_admission :: "body \<Rightarrow> ((int \<times> int) \<times> bytes) result" where
  "read_admission b =
     bindE (jfield ''assignment'' b) (\<lambda>asn.
     bindE (any_field ''start'' asn) (\<lambda>x.
     bindE (any_field ''end'' asn) (\<lambda>y.
     bindE (bindE (jfield ''session_key'' b) json_hex) (\<lambda>k.
     bindE (normalize_key (KRaw k)) (\<lambda>k.
       case (x, y) of (JInt a, JInt e) \<Rightarrow> Inr ((a, e), k) | _ \<Rightarrow> Inl TypeError)))))"

datatype join = Joined "int \<times> int" bytes | TurnedAway nat | GaveUp | JoinError py_error

text \<open>The first argument of the loop is the number of attempts before the deadline.  A status from 400 to
  499 is final, everything else is tried again.\<close>

fun do_register :: "control_net \<Rightarrow> node_agent \<Rightarrow> (int \<times> int) option \<Rightarrow> string \<Rightarrow> nat \<Rightarrow> planes \<Rightarrow> planes \<times> join" where
  "do_register N A pr base 0 s = (s, GaveUp)"
| "do_register N A pr base (Suc k) s =
     (case control_contact (agent_net N A) ''/register'' (register_body A pr) base s of
        (s1, Some (Answer resp)) \<Rightarrow>
          (s1, case read_admission resp of Inl e \<Rightarrow> JoinError e | Inr (rng, key) \<Rightarrow> Joined rng key)
      | (s1, Some (Failed n)) \<Rightarrow>
          if 400 \<le> n \<and> n < 500 then (s1, TurnedAway n) else do_register N A pr base k s1
      | (s1, _) \<Rightarrow> do_register N A pr base k s1)"

text \<open>A standby that assigns another slot is only logged; the node announces itself there all the same.\<close>

definition register_standby :: "control_net \<Rightarrow> node_agent \<Rightarrow> int \<times> int \<Rightarrow> string \<Rightarrow> planes \<Rightarrow> planes \<times> bool" where
  "register_standby N A rng url s =
     (case post_one (agent_net N A) ''/register'' (register_body A (Some rng)) url s of
        (s1, Inl e) \<Rightarrow> (s1, False)
      | (s1, Inr resp) \<Rightarrow>
          (case post_one (agent_net N A) ''/ready'' (live_body A) url s1 of
             (s2, Inl e) \<Rightarrow> (s2, False)
           | (s2, Inr _) \<Rightarrow> (s2, True)))"

definition join_mesh :: "control_net \<Rightarrow> node_agent \<Rightarrow> nat \<Rightarrow> string list \<Rightarrow> planes \<Rightarrow> planes \<times> join" where
  "join_mesh N A attempts bases s =
     (case do_register N A None (hd bases) attempts s of
        (s1, Joined rng key) \<Rightarrow> (fold (\<lambda>sb s. fst (register_standby N A rng sb s)) (tl bases) s1, Joined rng key)
      | (s1, j) \<Rightarrow> (s1, j))"

subsection \<open>While it serves\<close>

definition heartbeat_at :: "control_net \<Rightarrow> node_agent \<Rightarrow> int \<times> int \<Rightarrow> string \<Rightarrow> planes \<Rightarrow> planes" where
  "heartbeat_at N A rng url s =
     (case post_one (agent_net N A) ''/heartbeat'' (live_body A) url s of
        (s1, Inl e) \<Rightarrow> s1
      | (s1, Inr resp) \<Rightarrow>
          if map_of resp ''registered'' = Some (JBool False) then fst (register_standby N A rng url s1) else s1)"

definition heartbeat_round :: "control_net \<Rightarrow> node_agent \<Rightarrow> int \<times> int \<Rightarrow> string list \<Rightarrow> planes \<Rightarrow> planes" where
  "heartbeat_round N A rng bases s = fold (heartbeat_at N A rng) bases s"

definition announce :: "control_net \<Rightarrow> node_agent \<Rightarrow> string \<Rightarrow> string list \<Rightarrow> planes \<Rightarrow> planes" where
  "announce N A path bases s = fold (\<lambda>b s. fst (post_one (agent_net N A) path (live_body A) b s)) bases s"

definition on_listening :: "control_net \<Rightarrow> node_agent \<Rightarrow> string list \<Rightarrow> planes \<Rightarrow> planes" where
  "on_listening N A bases s = announce N A ''/ready'' bases s"

definition leave_mesh :: "control_net \<Rightarrow> node_agent \<Rightarrow> string list \<Rightarrow> planes \<Rightarrow> planes" where
  "leave_mesh N A bases s = announce N A ''/drain'' bases s"

subsection \<open>Orchestrators\<close>

text \<open>An orchestrator's bodies are signed by the endpoints' signer, which adds its id and the time.\<close>

definition orch_body :: "node_agent \<Rightarrow> body" where
  "orch_body A =
     [(''endpoint'', pair_json (ag_endpoint A)), (''capacity_layers'', JInt 0), (''model_fp'', JStr (ag_fp A)),
      (''orchestrator'', JBool True), (''reachability'', JStr (ag_reach A)), (''payout_wallet'', JStr (ag_wallet A))]"

text \<open>The session prefix is the first index that a control plane answers; 0 when none does.\<close>

fun first_index :: "(string \<times> body result) list \<Rightarrow> int result" where
  "first_index [] = Inr 0"
| "first_index ((u, r) # rs) =
     (case r of
        Inl e \<Rightarrow> first_index rs
      | Inr b \<Rightarrow> if b = [] then first_index rs
                else (case map_of b ''orch_index'' of None \<Rightarrow> first_index rs | Some JNull \<Rightarrow> first_index rs
                      | Some v \<Rightarrow> json_int v))"

definition orch_register :: "control_net \<Rightarrow> node_agent \<Rightarrow> endpoints \<Rightarrow> planes \<Rightarrow> planes \<times> int result" where
  "orch_register N A eps s =
     (case post_all (post_one N ''/register'' (orch_body A)) eps s of
        (s1, rs) \<Rightarrow> (s1, if \<forall>(u, r) \<in> set rs. \<exists>e. r = Inl e then Inl RuntimeError else first_index rs))"

definition orch_ready :: "control_net \<Rightarrow> node_agent \<Rightarrow> endpoints \<Rightarrow> planes \<Rightarrow> planes" where
  "orch_ready N A eps s = fst (post_all (post_one N ''/ready'' (live_body A)) eps s)"

definition orch_heartbeat :: "control_net \<Rightarrow> node_agent \<Rightarrow> endpoints \<Rightarrow> planes \<Rightarrow> planes" where
  "orch_heartbeat N A eps s =
     (case post_all (post_one N ''/heartbeat'' (live_body A)) eps s of
        (s1, rs) \<Rightarrow>
          if \<exists>(u, r) \<in> set rs. \<exists>b. r = Inr b \<and> map_of b ''registered'' = Some (JBool False)
          then orch_ready N A eps (fst (post_all (post_one N ''/register'' (orch_body A)) eps s1)) else s1)"

end
