(* ===== verification/Node_Agent_Spec.thy ===== *)
theory Node_Agent_Spec
  imports Node_Agent
begin

section \<open>Nodes that join a mesh: properties\<close>

text \<open>
  A node that registers ends where its control planes and it agree: it holds the range it was
  given, under the key the control plane hands to coordinators.  A control plane that restarts
  empty gets its nodes back with their slots through their heartbeats; one with other slots gets
  them back in slots whose layers they do not run.
\<close>

subsection \<open>What a registration changes\<close>

definition serving :: "topology \<Rightarrow> string \<Rightarrow> int \<times> int \<Rightarrow> bool" where
  "serving t nid rng \<longleftrightarrow> (\<exists>i nd. i < length (slots t) \<and> (s_start (slots t ! i), s_end (slots t ! i)) = rng \<and>
     map_of (nodes t) nid = Some nd \<and> state nd = READY \<and> nid \<in> set (s_holders (slots t ! i)))"

lemma serving_stays:
  assumes "serving t nid rng" and "slots t' = slots t" and "map_of (nodes t') nid = Some nd" and "state nd = READY"
  shows "serving t' nid rng"
  using assms unfolding serving_def by metis

text \<open>Between \<open>t\<close> and \<open>t'\<close> only the node \<open>nid\<close> has moved.\<close>

definition others_same :: "string \<Rightarrow> topology \<Rightarrow> topology \<Rightarrow> bool" where
  "others_same nid t t' \<longleftrightarrow> map bounds (slots t') = map bounds (slots t) \<and> topo_fp t' = topo_fp t \<and>
     (\<forall>k. k \<noteq> nid \<longrightarrow> map_of (nodes t') k = map_of (nodes t) k \<and>
        (\<forall>i < length (slots t). k \<in> set (s_holders (slots t' ! i)) \<longleftrightarrow> k \<in> set (s_holders (slots t ! i))))"

lemma others_same_length: "others_same nid t t' \<Longrightarrow> length (slots t') = length (slots t)"
  by (auto simp: others_same_def dest: map_eq_imp_length_eq)

lemma bounds_nth:
  assumes eq: "map bounds ss = map bounds ss'" and i: "i < length ss"
  shows "bounds (ss ! i) = bounds (ss' ! i)"
proof -
  have "length ss = length ss'" using eq by (rule map_eq_imp_length_eq)
  moreover have "map bounds ss ! i = map bounds ss' ! i" by (simp only: eq)
  ultimately show ?thesis using i by simp
qed

lemma serving_others:
  assumes o: "others_same nid t t'" and ne: "k \<noteq> nid" and s: "serving t k rng"
  shows "serving t' k rng"
proof -
  obtain i nd where i: "i < length (slots t)" "(s_start (slots t ! i), s_end (slots t ! i)) = rng"
      "map_of (nodes t) k = Some nd" "state nd = READY" "k \<in> set (s_holders (slots t ! i))"
    using s by (auto simp: serving_def)
  moreover have "bounds (slots t' ! i) = bounds (slots t ! i)"
    using o i(1) others_same_length [OF o] bounds_nth [of "slots t'" "slots t" i] by (simp add: others_same_def)
  ultimately show ?thesis
    using o ne others_same_length [OF o] unfolding serving_def
    by (intro exI [of _ i] exI [of _ nd]) (auto simp: others_same_def)
qed

lemma others_same_refl [simp]: "others_same nid t t"
  by (simp add: others_same_def)

lemma others_same_trans:
  assumes a: "others_same nid t t'" and b: "others_same nid t' t''"
  shows "others_same nid t t''"
  using a b others_same_length [OF a] by (simp add: others_same_def)

lemma others_same_dmod: "others_same nid t (t\<lparr>nodes := dmod nid f (nodes t)\<rparr>)"
  by (simp add: others_same_def dict_simps)

lemma others_same_heartbeat: "others_same nid t (fst (heartbeat t nid now))"
  using others_same_dmod by (auto simp: heartbeat_def split: option.split)

lemma others_same_ready: "others_same nid t (mark_ready t nid)"
  unfolding mark_ready_def by (rule others_same_dmod)

lemma others_same_drop:
  "topo_wf t \<Longrightarrow> others_same nid t (t\<lparr>slots := drop_holder nid (slots t)\<rparr>)"
  by (auto simp: others_same_def drop_holder_nth topo_wf_distinct)

lemma others_same_put:
  assumes "s \<in> set (slots t)" and wf: "topo_wf t"
  shows "others_same nid t (t\<lparr>nodes := dset nid n (nodes t),
    slots := (slots t)[s_index s := s\<lparr>s_holders := s_holders s @ [nid]\<rparr>]\<rparr>)"
proof -
  have i: "s_index s < length (slots t)" "slots t ! s_index s = s" using topo_wf_slot_nth [OF wf assms(1)] by simp_all
  have "map bounds (slots t) ! s_index s = bounds s" using i by simp
  then have "(map bounds (slots t))[s_index s := bounds s] = map bounds (slots t)"
    using i by (simp only: list_update_same_conv length_map)
  then have "map bounds ((slots t)[s_index s := s\<lparr>s_holders := s_holders s @ [nid]\<rparr>]) = map bounds (slots t)"
    by (simp add: map_update)
  then show ?thesis using i by (auto simp: others_same_def dict_simps nth_list_update)
qed

lemma register_others:
  assumes wf: "topo_wf t"
  shows "others_same (node_id n) t (fst (register t n now pr))"
proof (cases "node_fp n = topo_fp t")
  case fp: True
  let ?t1 = "t\<lparr>slots := drop_holder (node_id n) (slots t)\<rparr>"
  have wf1: "topo_wf ?t1" using wf by (rule topo_wf_drop_holder)
  note d = others_same_drop [OF wf, of "node_id n"]
  show ?thesis
  proof (cases "choose_slot ?t1 n pr")
    case None
    then show ?thesis using fp d by (simp add: register_def)
  next
    case (Some s)
    have "s \<in> set (slots ?t1)" by (rule choose_slot_SomeD(1) [OF Some])
    from others_same_trans [OF d others_same_put [OF this wf1]] show ?thesis
      using fp Some by (simp add: register_def Let_def)
  qed
qed (simp add: register_def)

lemma admit_topo:
  "topo (fst (admit r n asn idx)) =
     (let t1 = (case seed_nodes r of None \<Rightarrow> topo r | Some seeds \<Rightarrow> if node_id n \<in> set seeds then set_trusted (topo r) (node_id n) else topo r)
      in t1\<lparr>nodes := dmod (node_id n) (\<lambda>m. m\<lparr>wire_key := Some (derive_node_key (master_secret r) (node_id n))\<rparr>) (nodes t1)\<rparr>)"
  by (simp add: admit_def Let_def)

lemma admit_others: "others_same (node_id n) (topo r) (topo (fst (admit r n asn idx)))"
proof -
  have "others_same (node_id n) (topo r) (set_trusted (topo r) (node_id n))"
    unfolding set_trusted_def by (rule others_same_dmod)
  then show ?thesis
    using others_same_trans [OF _ others_same_dmod] others_same_dmod by (simp add: admit_topo Let_def split: option.split)
qed

subsection \<open>A node that comes back\<close>

definition agent_node :: "node_agent \<Rightarrow> node" where
  "agent_node A = new_node (ag_id A) (ag_endpoint A) (ag_capacity A) (ag_fp A) (ag_reach A)
     (if ag_region A = [] then None else Some (ag_region A)) (ag_wallet A) False"

text \<open>The registry would take the node, and has a slot with exactly these layers that it can hold.\<close>

definition may_join :: "registry \<Rightarrow> node_agent \<Rightarrow> bool" where
  "may_join r A \<longleftrightarrow> ag_id A \<notin> set (banned r) \<and> (\<forall>al. allowlist r = Some al \<longrightarrow> ag_id A \<in> set al) \<and>
     ag_fp A = topo_fp (topo r)"

definition has_slot :: "topology \<Rightarrow> node_agent \<Rightarrow> int \<times> int \<Rightarrow> bool" where
  "has_slot t A rng \<longleftrightarrow> (\<exists>s \<in> set (slots t). (s_start s, s_end s) = rng \<and> slot_size s \<le> ag_capacity A)"

lemma agent_register:
  assumes wf: "topo_wf (topo r)" and j: "may_join r A" and fits: "\<exists>s \<in> set (slots (topo r)). slot_size s \<le> ag_capacity A"
  shows "\<exists>r1 a. reg_register r (agent_node A) now pr = (r1, Inr a) \<and> others_same (ag_id A) (topo r) (topo r1) \<and>
    banned r1 = banned r \<and> allowlist r1 = allowlist r \<and>
    (\<exists>i nd. i < length (slots (topo r1)) \<and> map_of (nodes (topo r1)) (ag_id A) = Some nd \<and> state nd = JOINING \<and>
       wire_key nd = Some (session_key a) \<and> session_key a = derive_node_key (master_secret r) (ag_id A) \<and>
       ag_id A \<in> set (s_holders (slots (topo r1) ! i)) \<and>
       assignment a = Some (s_start (slots (topo r1) ! i), s_end (slots (topo r1) ! i)) \<and>
       (\<forall>rng. pr = Some rng \<and> has_slot (topo r) A rng \<longrightarrow> assignment a = Some rng))"
proof -
  let ?n = "agent_node A" and ?t1 = "(topo r)\<lparr>slots := drop_holder (ag_id A) (slots (topo r))\<rparr>"
  have n: "node_id ?n = ag_id A" "node_fp ?n = ag_fp A" "capacity_layers ?n = ag_capacity A" "orchestrator ?n = False"
    by (simp_all add: agent_node_def new_node_def)
  have "\<not> (\<forall>s \<in> set (slots ?t1). capacity_layers ?n < slot_size s)"
    using fits drop_holder_all_size [of "ag_id A" "slots (topo r)" "ag_capacity A"] by (auto simp: n not_less)
  then obtain s where s: "choose_slot ?t1 ?n pr = Some s"
    using choose_slot_None_iff [of ?t1 ?n pr] by (cases "choose_slot ?t1 ?n pr") auto
  obtain t s' where t: "register (topo r) ?n now pr = (t, Inr s')" and s': "s' = s\<lparr>s_holders := s_holders s @ [ag_id A]\<rparr>"
    using s j by (auto simp: register_def Let_def n may_join_def)
  note ok = register_success [OF wf t]
  obtain r1 a where a: "admit (r\<lparr>topo := t\<rparr>) ?n (Some (s_start s', s_end s')) None = (r1, a)" by fastforce
  have reg: "reg_register r ?n now pr = (r1, Inr a)"
    using t a j by (auto simp: reg_register_def n may_join_def split: option.split)
  have "others_same (ag_id A) (topo r) t" using register_others [OF wf, of ?n now pr] t by (simp add: n)
  moreover have "others_same (ag_id A) t (topo r1)" using admit_others [of ?n "r\<lparr>topo := t\<rparr>" "Some (s_start s', s_end s')" None] a by (simp add: n)
  ultimately have o: "others_same (ag_id A) (topo r) (topo r1)" by (rule others_same_trans)
  have r1: "slots (topo r1) = slots t" "banned r1 = banned r" "allowlist r1 = allowlist r"
      "session_key a = derive_node_key (master_secret r) (ag_id A)" "assignment a = Some (s_start s', s_end s')"
    using a by (auto simp: admit_def Let_def set_trusted_def n split: option.splits)
  have nd: "\<exists>nd. map_of (nodes (topo r1)) (ag_id A) = Some nd \<and> state nd = JOINING \<and> wire_key nd = Some (session_key a)"
    using a ok(4) r1(4) by (auto simp: admit_def Let_def set_trusted_def n dict_simps split: option.splits)
  have same: "assignment a = Some rng" if pr: "pr = Some rng" "has_slot (topo r) A rng" for rng
  proof -
    obtain u where u: "u \<in> set (slots (topo r))" "(s_start u, s_end u) = rng" "slot_size u \<le> ag_capacity A"
      using pr(2) by (auto simp: has_slot_def)
    then have "u\<lparr>s_holders := remove1 (ag_id A) (s_holders u)\<rparr> \<in> set (slots ?t1)" by (simp add: drop_holder_def)
    moreover have "(s_start (u\<lparr>s_holders := h\<rparr>), s_end (u\<lparr>s_holders := h\<rparr>)) = rng \<and>
        slot_size (u\<lparr>s_holders := h\<rparr>) \<le> capacity_layers ?n" for h
      using u n(3) by (simp add: slot_size_def)
    ultimately have w: "\<exists>u \<in> set (slots ?t1). (s_start u, s_end u) = (fst rng, snd rng) \<and> slot_size u \<le> capacity_layers ?n"
      by (metis prod.collapse)
    have c: "choose_slot ?t1 ?n (Some (fst rng, snd rng)) = Some s" using s pr(1) by simp
    show ?thesis using choose_slot_prefers [OF c w] r1(5) s' by simp
  qed
  show ?thesis
    using reg o r1 nd same ok(2,3) s' by (intro exI [of _ r1] exI [of _ a]) (auto intro!: exI [of _ "s_index s'"])
qed

text \<open>Registered again with its layers and announced, it serves them, and nobody else has moved.\<close>

lemma rejoin:
  assumes "topo_wf (topo r)" and "may_join r A" and slot: "has_slot (topo r) A rng"
  shows "\<exists>r1 a. reg_register r (agent_node A) now (Some rng) = (r1, Inr a) \<and> banned r1 = banned r \<and> allowlist r1 = allowlist r \<and>
    others_same (ag_id A) (topo r) (topo (reg_mark_ready r1 (ag_id A))) \<and>
    serving (topo (reg_mark_ready r1 (ag_id A))) (ag_id A) rng"
proof -
  have "\<exists>s \<in> set (slots (topo r)). slot_size s \<le> ag_capacity A" using slot by (auto simp: has_slot_def)
  from agent_register [OF assms(1,2) this, of now "Some rng"] obtain r1 a i nd where
    r1: "reg_register r (agent_node A) now (Some rng) = (r1, Inr a)" "others_same (ag_id A) (topo r) (topo r1)"
      "banned r1 = banned r" "allowlist r1 = allowlist r"
    and i: "i < length (slots (topo r1))" "map_of (nodes (topo r1)) (ag_id A) = Some nd" "state nd = JOINING"
      "ag_id A \<in> set (s_holders (slots (topo r1) ! i))"
    and asn: "assignment a = Some (s_start (slots (topo r1) ! i), s_end (slots (topo r1) ! i))"
      "\<forall>g. Some rng = Some g \<and> has_slot (topo r) A g \<longrightarrow> assignment a = Some g"
    by blast
  have "assignment a = Some rng" using asn(2) slot by blast
  then have "(s_start (slots (topo r1) ! i), s_end (slots (topo r1) ! i)) = rng" using asn(1) by simp
  then have "serving (topo (reg_mark_ready r1 (ag_id A))) (ag_id A) rng"
    using i unfolding serving_def
    by (intro exI [of _ i] exI [of _ "nd\<lparr>state := READY\<rparr>"]) (simp add: reg_mark_ready_def mark_ready_def dict_simps)
  moreover have "others_same (ag_id A) (topo r) (topo (reg_mark_ready r1 (ag_id A)))"
    using others_same_trans [OF r1(2) others_same_ready] by (simp add: reg_mark_ready_def)
  ultimately show ?thesis using r1 by blast
qed

subsection \<open>Posts that arrive\<close>

text \<open>The control servers verify this node's signatures, and the clocks agree within the window.\<close>

definition believed :: "control_net \<Rightarrow> node_agent \<Rightarrow> bool" where
  "believed N A \<longleftrightarrow> (\<exists>S priv pub window.
     cc_verify (cn_config N) = Some (verify_body (cc_text (cn_config N)) S window) \<and>
     ag_key A = Some (S, priv) \<and> ag_id A = hex_of pub \<and> (\<forall>msg. ed_check S pub (ed_sign S priv msg) msg) \<and>
     (\<forall>t. \<bar>cn_server N t - of_int \<lfloor>cn_clock N t\<rfloor>\<bar> \<le> window))"

definition arrives :: "control_net \<Rightarrow> string \<Rightarrow> bool" where
  "arrives N url \<longleftrightarrow> (\<forall>k. cn_reach N k url = Delivered)"

abbreviation agent_data :: "control_net \<Rightarrow> node_agent \<Rightarrow> nat \<Rightarrow> body \<Rightarrow> body" where
  "agent_data N A t b \<equiv> agent_signed (cc_text (cn_config N)) A (cn_clock N t) b"

lemma no_sig_filter: "''sig'' \<notin> fst ` set b \<Longrightarrow> filter (\<lambda>(k, v). k \<noteq> ''sig'') b = b"
  by (induction b) auto

lemma agent_data_field: "k \<noteq> ''sig'' \<Longrightarrow> k \<noteq> ''ts'' \<Longrightarrow> map_of (agent_signed F A clock b) k = map_of b k"
  by (auto simp: agent_signed_def Let_def dict_simps split: option.split)

lemma agent_verified:
  assumes b: "believed N A" and nid: "map_of b ''node_id'' = Some (JStr (ag_id A))" and sig: "''sig'' \<notin> fst ` set b"
  shows "verified (cn_config N) (cn_server N t) (JObj (agent_data N A t b)) \<and> cc_verify (cn_config N) \<noteq> None"
proof -
  obtain S priv pub window where v: "cc_verify (cn_config N) = Some (verify_body (cc_text (cn_config N)) S window)"
    and k: "ag_key A = Some (S, priv)" "ag_id A = hex_of pub" "\<forall>msg. ed_check S pub (ed_sign S priv msg) msg"
    and w: "\<bar>cn_server N t - of_int \<lfloor>cn_clock N t\<rfloor>\<bar> \<le> window"
    using b unfolding believed_def by blast
  have "''sig'' \<notin> fst ` set (dset ''ts'' x b)" for x using sig by (simp add: dom_update)
  then show ?thesis using v k w nid
    by (auto simp: verified_def verify_body_def agent_signed_def Let_def fresh_ts_def too_far_def jfield_def dict_simps
        signed_bytes_def filter_unsigned no_sig_filter)
qed

text \<open>The server of \<open>url\<close> with another registry, one contact later.\<close>

definition with_reg :: "string \<Rightarrow> registry \<Rightarrow> planes \<Rightarrow> planes" where
  "with_reg url r s = s\<lparr>pl_contacts := pl_contacts s + 1,
     pl_servers := (case map_of (pl_servers s) url of
        None \<Rightarrow> pl_servers s | Some c \<Rightarrow> dmod url (\<lambda>_. c\<lparr>ct_reg := r\<rparr>) (pl_servers s))\<rparr>"

definition reg_at :: "planes \<Rightarrow> string \<Rightarrow> registry option" where
  "reg_at s url = map_option ct_reg (map_of (pl_servers s) url)"

lemma reg_at_with [simp]: "reg_at (with_reg url r s) u = (if u = url then map_option (\<lambda>_. r) (reg_at s u) else reg_at s u)"
  by (cases "map_of (pl_servers s) url") (simp_all add: reg_at_def with_reg_def dict_simps)

lemma delivered_post:
  assumes "arrives N url" and "map_of (pl_servers s) url = Some c"
  shows "(handle_post (cn_config N) (cn_server N (pl_contacts s)) (cn_server N (pl_contacts s)) path
      (Some (JObj (agent_data N A (pl_contacts s) b))) c = Some (c\<lparr>ct_reg := r\<rparr>, Answer x) \<longrightarrow>
    control_contact (agent_net N A) path b url s = (with_reg url r s, Some (Answer x))) \<and>
    (handle_post (cn_config N) (cn_server N (pl_contacts s)) (cn_server N (pl_contacts s)) path
      (Some (JObj (agent_data N A (pl_contacts s) b))) c = Some (c\<lparr>ct_reg := r\<rparr>, Answer x) \<longrightarrow>
    post_one (agent_net N A) path b url s = (with_reg url r s, Inr x))"
  using assms by (simp add: post_one_contact control_contact_def agent_net_def Let_def arrives_def with_reg_def)

lemma live_post:
  assumes b: "believed N A" and arr: "arrives N url" and r: "reg_at s url = Some r" and path: "path \<in> {''/ready'', ''/heartbeat'', ''/drain''}"
  shows "post_one (agent_net N A) path (live_body A) url s =
    (if path = ''/ready'' then (with_reg url (reg_mark_ready r (ag_id A)) s, Inr [(''ok'', JBool True)])
     else if path = ''/heartbeat'' then
       (with_reg url (fst (reg_heartbeat r (ag_id A) (cn_server N (pl_contacts s)))) s,
        Inr [(''ok'', JBool True), (''registered'', JBool (snd (reg_heartbeat r (ag_id A) (cn_server N (pl_contacts s)))))])
     else (with_reg url (reg_drain r (ag_id A)) s, Inr [(''ok'', JBool True)]))"
proof -
  let ?t = "pl_contacts s" and ?d = "agent_data N A (pl_contacts s) (live_body A)"
  obtain c where c: "map_of (pl_servers s) url = Some c" "ct_reg c = r" using r by (auto simp: reg_at_def)
  have v: "verified (cn_config N) (cn_server N ?t) (JObj ?d)" by (rule conjunct1 [OF agent_verified [OF b]]) (simp_all add: live_body_def)
  have "map_of ?d ''node_id'' = Some (JStr (ag_id A))" by (simp add: agent_data_field live_body_def)
  then have nid: "any_field ''node_id'' (JObj ?d) = Inr (JStr (ag_id A))" by (simp add: any_field_def jfield_def)
  have g: "live_guard (cn_config N) (cn_server N ?t) (JObj ?d) = None"
  proof -
    obtain S priv where "ag_key A = Some (S, priv)" using b by (auto simp: believed_def)
    then have "has_sig (JObj ?d) = Inr True" by (simp add: agent_signed_def Let_def dict_simps)
    then show ?thesis using v by (simp add: live_guard_def del: has_sig.simps)
  qed
  have h: "handle_post (cn_config N) (cn_server N ?t) (cn_server N ?t) path (Some (JObj ?d)) c =
      Some (post_live (cn_config N) (cn_server N ?t) (cn_server N ?t) path (JObj ?d) c)"
    using path by (auto simp: handle_post_def)
  note go = delivered_post [OF arr c(1), THEN conjunct2, THEN mp, OF trans [OF h]]
  consider "path = ''/ready''" | "path = ''/heartbeat''" | "path = ''/drain''" using path by blast
  then show ?thesis
  proof cases
    case 1
    show ?thesis by (subst go) (simp_all add: 1 post_live_def g nid c ok_reply_def Let_def)
  next
    case 2
    show ?thesis by (subst go) (simp_all add: 2 post_live_def g nid c Let_def split_beta)
  next
    case 3
    show ?thesis by (subst go) (simp_all add: 3 post_live_def g nid c ok_reply_def Let_def)
  qed
qed

lemma register_body_fields:
  "map_of (register_body A pr) ''node_id'' = Some (JStr (ag_id A))"
  "map_of (register_body A pr) ''endpoint'' = Some (pair_json (ag_endpoint A))"
  "map_of (register_body A pr) ''capacity_layers'' = Some (JInt (ag_capacity A))"
  "map_of (register_body A pr) ''model_fp'' = Some (JStr (ag_fp A))"
  "map_of (register_body A pr) ''reachability'' = Some (JStr (ag_reach A))"
  "map_of (register_body A pr) ''region'' = Some (JStr (ag_region A))"
  "map_of (register_body A pr) ''payout_wallet'' = Some (JStr (ag_wallet A))"
  "map_of (register_body A pr) ''orchestrator'' = None"
  by (simp_all add: register_body_def split: option.split)

lemma agent_of_body: "node_of_body F (agent_signed F A clock (register_body A pr)) = Inr (Some (agent_node A))"
  by (simp add: node_of_body_def jfield_def agent_data_field register_body_fields pair_json_def opt_str_def agent_node_def)

lemma agent_range: "json_range (map_of (agent_signed F A clock (register_body A pr)) ''loaded_layers'') = Some pr"
  by (cases pr) (auto simp: agent_data_field register_body_def)

lemma register_post:
  assumes b: "believed N A" and arr: "arrives N url" and r: "reg_at s url = Some r"
    and reg: "reg_register r (agent_node A) (cn_server N (pl_contacts s)) pr = (r1, Inr a)"
  shows "control_contact (agent_net N A) ''/register'' (register_body A pr) url s = (with_reg url r1 s, Some (Answer (admission_json a)))"
    and "post_one (agent_net N A) ''/register'' (register_body A pr) url s = (with_reg url r1 s, Inr (admission_json a))"
proof -
  let ?t = "pl_contacts s" and ?d = "agent_data N A (pl_contacts s) (register_body A pr)"
  obtain c where c: "map_of (pl_servers s) url = Some c" "ct_reg c = r" using r by (auto simp: reg_at_def)
  have v: "verified (cn_config N) (cn_server N ?t) (JObj ?d)"
    by (rule conjunct1 [OF agent_verified [OF b]]) (auto simp: register_body_def split: option.splits)
  have h: "handle_post (cn_config N) (cn_server N ?t) (cn_server N ?t) ''/register'' (Some (JObj ?d)) c =
      Some (c\<lparr>ct_reg := r1\<rparr>, Answer (admission_json a))"
    using v c(2) reg by (simp add: handle_post_def post_register_def agent_of_body agent_range)
  then show "control_contact (agent_net N A) ''/register'' (register_body A pr) url s = (with_reg url r1 s, Some (Answer (admission_json a)))"
    "post_one (agent_net N A) ''/register'' (register_body A pr) url s = (with_reg url r1 s, Inr (admission_json a))"
    using delivered_post [OF arr c(1)] by blast+
qed

subsection \<open>Heartbeats\<close>

lemma post_elsewhere: "u \<noteq> url \<Longrightarrow> reg_at (fst (post_one N path b u s)) url = reg_at s url"
  by (auto simp: post_one_def Let_def reg_at_def dict_simps split: option.split)

lemma standby_elsewhere:
  assumes "u \<noteq> url"
  shows "reg_at (fst (register_standby N A rng u s)) url = reg_at s url"
proof -
  obtain s1 r1 where p: "post_one (agent_net N A) ''/register'' (register_body A (Some rng)) u s = (s1, r1)" by fastforce
  obtain s2 r2 where q: "post_one (agent_net N A) ''/ready'' (live_body A) u s1 = (s2, r2)" by fastforce
  have "reg_at s1 url = reg_at s url" "reg_at s2 url = reg_at s1 url"
    using post_elsewhere [OF assms, of "agent_net N A"] p q by (metis fst_conv)+
  then show ?thesis using p q by (auto simp: register_standby_def split: sum.split)
qed

lemma heartbeat_elsewhere:
  assumes "u \<noteq> url"
  shows "reg_at (heartbeat_at N A rng u s) url = reg_at s url"
proof -
  obtain s1 r1 where p: "post_one (agent_net N A) ''/heartbeat'' (live_body A) u s = (s1, r1)" by fastforce
  have "reg_at s1 url = reg_at s url"
    using post_elsewhere [OF assms, of "agent_net N A"] p by (metis fst_conv)
  then show ?thesis using p standby_elsewhere [OF assms] by (auto simp: heartbeat_at_def split: sum.split)
qed

text \<open>What a control plane may be relied on to keep: its bans, its allowlist and every other node.\<close>

definition keeps :: "string \<Rightarrow> registry \<Rightarrow> registry \<Rightarrow> bool" where
  "keeps nid r r' \<longleftrightarrow> others_same nid (topo r) (topo r') \<and> banned r' = banned r \<and> allowlist r' = allowlist r \<and> registry_ok r'"

lemma standby_rejoins:
  assumes b: "believed N A" and arr: "arrives N url" and r: "reg_at s url = Some r"
    and ok: "registry_ok r" and j: "may_join r A" "has_slot (topo r) A rng"
  shows "\<exists>r'. register_standby N A rng url s = (with_reg url r' (with_reg url (fst (reg_register r (agent_node A) (cn_server N (pl_contacts s)) (Some rng))) s), True) \<and>
    keeps (ag_id A) r r' \<and> serving (topo r') (ag_id A) rng"
proof -
  have wf: "topo_wf (topo r)" using ok by (simp add: registry_ok_def)
  obtain r1 a where j1: "reg_register r (agent_node A) (cn_server N (pl_contacts s)) (Some rng) = (r1, Inr a)"
      "banned r1 = banned r" "allowlist r1 = allowlist r"
      "others_same (ag_id A) (topo r) (topo (reg_mark_ready r1 (ag_id A)))"
      "serving (topo (reg_mark_ready r1 (ag_id A))) (ag_id A) rng"
    using rejoin [OF wf j] by blast
  let ?s1 = "with_reg url r1 s" and ?r2 = "reg_mark_ready r1 (ag_id A)"
  have "registry_ok r1" using registry_ok_step [OF ok, of "RRegister (agent_node A) (cn_server N (pl_contacts s)) (Some rng)"] j1(1) by simp
  then have "registry_ok ?r2" using registry_ok_step [of r1 "RReady (ag_id A)"] by simp
  then have k: "keeps (ag_id A) r ?r2" using j1 by (simp add: keeps_def reg_mark_ready_def)
  have "reg_at ?s1 url = Some r1" using r by simp
  from live_post [OF b arr this, of "''/ready''"] register_post(2) [OF b arr r j1(1)] j1 k
  show ?thesis by (intro exI [of _ ?r2]) (simp add: register_standby_def)
qed

text \<open>A heartbeat of a node that its control plane does not know, or that serves there already.\<close>

lemma heartbeat_settles:
  assumes b: "believed N A" and arr: "arrives N url" and r: "reg_at s url = Some r"
    and ok: "registry_ok r" and j: "may_join r A" "has_slot (topo r) A rng"
    and known: "map_of (nodes (topo r)) (ag_id A) = None \<or> serving (topo r) (ag_id A) rng"
  shows "\<exists>r'. reg_at (heartbeat_at N A rng url s) url = Some r' \<and> keeps (ag_id A) r r' \<and> serving (topo r') (ag_id A) rng"
proof -
  let ?now = "cn_server N (pl_contacts s)"
  let ?r1 = "fst (reg_heartbeat r (ag_id A) ?now)" and ?b = "snd (reg_heartbeat r (ag_id A) ?now)"
  have hb: "post_one (agent_net N A) ''/heartbeat'' (live_body A) url s =
      (with_reg url ?r1 s, Inr [(''ok'', JBool True), (''registered'', JBool ?b)])"
    using live_post [OF b arr r, of "''/heartbeat''"] by simp
  have ok1: "registry_ok ?r1" using registry_ok_step [OF ok, of "RHeartbeat (ag_id A) ?now"] by simp
  show ?thesis
  proof (cases "map_of (nodes (topo r)) (ag_id A)")
    case None
    then have "?b = False" "?r1 = r" by (simp_all add: reg_heartbeat_def heartbeat_def)
    moreover have "reg_at (with_reg url r s) url = Some r" using r by simp
    note standby_rejoins [OF b arr this ok j]
    ultimately show ?thesis using hb r by (auto simp: heartbeat_at_def)
  next
    case (Some nd)
    then have sv: "serving (topo r) (ag_id A) rng" using known by simp
    then have "state nd = READY" using Some by (auto simp: serving_def)
    then have t: "?b" "topo ?r1 = (topo r)\<lparr>nodes := dmod (ag_id A) (\<lambda>n. n\<lparr>last_hb := ?now, state := (if state n = SUSPECT then READY else state n)\<rparr>) (nodes (topo r))\<rparr>"
        "banned ?r1 = banned r" "allowlist ?r1 = allowlist r"
      using Some by (simp_all add: reg_heartbeat_def heartbeat_def)
    have "keeps (ag_id A) r ?r1" using t ok1 others_same_dmod by (simp add: keeps_def)
    moreover have "serving (topo ?r1) (ag_id A) rng"
      by (rule serving_stays [OF sv, where nd = "nd\<lparr>last_hb := ?now, state := READY\<rparr>"])
        (use Some \<open>state nd = READY\<close> in \<open>simp_all add: t(2) dict_simps\<close>)
    ultimately show ?thesis using hb t(1) r by (auto simp: heartbeat_at_def)
  qed
qed

lemma may_join_keeps:
  assumes "keeps nid r r'" and "may_join r A \<and> has_slot (topo r) A rng"
  shows "may_join r' A \<and> has_slot (topo r') A rng"
proof -
  have o: "others_same nid (topo r) (topo r')" using assms(1) by (simp add: keeps_def)
  obtain s where s: "s \<in> set (slots (topo r))" "(s_start s, s_end s) = rng" "slot_size s \<le> ag_capacity A"
    using assms(2) by (auto simp: has_slot_def)
  then obtain i where i: "i < length (slots (topo r))" "slots (topo r) ! i = s" by (auto simp: in_set_conv_nth)
  have "bounds (slots (topo r') ! i) = bounds s"
    using o i others_same_length [OF o] bounds_nth [of "slots (topo r')" "slots (topo r)" i] by (simp add: others_same_def)
  moreover have "slots (topo r') ! i \<in> set (slots (topo r'))" using i others_same_length [OF o] by simp
  ultimately have "has_slot (topo r') A rng" using s by (auto simp: has_slot_def slot_size_def)
  then show ?thesis using assms by (simp add: may_join_def keeps_def others_same_def)
qed

lemma keeps_trans: "keeps nid r r' \<Longrightarrow> keeps nid r' r'' \<Longrightarrow> keeps nid r r''"
  by (auto simp: keeps_def intro: others_same_trans)

lemma round_settles:
  assumes b: "believed N A" and arr: "arrives N url"
    and "reg_at s url = Some r" "registry_ok r" "may_join r A" "has_slot (topo r) A rng"
    and "if url \<in> set bases then map_of (nodes (topo r)) (ag_id A) = None \<or> serving (topo r) (ag_id A) rng
         else serving (topo r) (ag_id A) rng"
  shows "\<exists>r'. reg_at (heartbeat_round N A rng bases s) url = Some r' \<and> keeps (ag_id A) r r' \<and> serving (topo r') (ag_id A) rng"
  using assms(3-)
proof (induction bases arbitrary: s r)
  case Nil
  then show ?case by (auto simp: heartbeat_round_def keeps_def)
next
  case (Cons u us)
  have step: "heartbeat_round N A rng (u # us) s = heartbeat_round N A rng us (heartbeat_at N A rng u s)"
    by (simp add: heartbeat_round_def)
  show ?case
  proof (cases "u = url")
    case True
    then have "map_of (nodes (topo r)) (ag_id A) = None \<or> serving (topo r) (ag_id A) rng" using Cons.prems(5) by simp
    from heartbeat_settles [OF b arr Cons.prems(1-4) this] obtain r1 where
      r1: "reg_at (heartbeat_at N A rng url s) url = Some r1" "keeps (ag_id A) r r1" "serving (topo r1) (ag_id A) rng" by blast
    have "may_join r1 A \<and> has_slot (topo r1) A rng" using may_join_keeps [OF r1(2)] Cons.prems(3,4) by blast
    then obtain r2 where "reg_at (heartbeat_round N A rng us (heartbeat_at N A rng url s)) url = Some r2"
        "keeps (ag_id A) r1 r2" "serving (topo r2) (ag_id A) rng"
      using Cons.IH [OF r1(1)] \<open>may_join r1 A \<and> has_slot (topo r1) A rng\<close> r1(2,3) by (cases "url \<in> set us") (auto simp: keeps_def)
    then show ?thesis using True keeps_trans [OF r1(2)] step by auto
  next
    case False
    then have "reg_at (heartbeat_at N A rng u s) url = Some r" using heartbeat_elsewhere Cons.prems(1) by simp
    from Cons.IH [OF this Cons.prems(2-4)] Cons.prems(5) False show ?thesis by (auto simp: step)
  qed
qed

lemma covered_by_serving:
  assumes wf: "topo_wf t" and all: "\<forall>s \<in> set (slots t). s_start s < s_end s \<and> (\<exists>nid. serving t nid (s_start s, s_end s))"
  shows "coverage_ok t"
  unfolding coverage_ok_def
proof
  fix s assume s: "s \<in> set (slots t)"
  obtain nid i nd where i: "i < length (slots t)" "s_start (slots t ! i) = s_start s" "s_end (slots t ! i) = s_end s"
      "map_of (nodes t) nid = Some nd" "state nd = READY" "nid \<in> set (s_holders (slots t ! i))"
    using all s by (auto simp: serving_def)
  have lt: "s_start s < s_end s" using all s by blast
  have at: "s_index s < length (slots t)" "slots t ! s_index s = s" using topo_wf_slot_nth [OF wf s] by simp_all
  have r: "coordinator_end t \<le> s_start s" "s_start s < num_layers t"
    using tiles_member [OF topo_wf_tiles [OF wf] s] lt by linarith+
  have "i = s_index s" using tiles_unique_cover [OF topo_wf_tiles [OF wf] r] i at lt by (metis order_refl)
  then have "nd \<in> set (holders t (s_index s))"
    using i at by (auto simp: holders_set in_live_holders)
  then show "holders t (s_index s) \<noteq> []" by auto
qed

definition newcomers :: "(node_agent \<times> (int \<times> int)) list \<Rightarrow> registry \<Rightarrow> bool" where
  "newcomers fleet r \<longleftrightarrow> (\<forall>(A, rng) \<in> set fleet. map_of (nodes (topo r)) (ag_id A) = None)"

definition admissible :: "control_net \<Rightarrow> (node_agent \<times> (int \<times> int)) list \<Rightarrow> registry \<Rightarrow> bool" where
  "admissible N fleet r \<longleftrightarrow> (\<forall>(A, rng) \<in> set fleet. believed N A \<and> may_join r A \<and> has_slot (topo r) A rng)"

lemma fleet_settles:
  assumes "arrives N url" and url: "url \<in> set bases"
    and "reg_at s url = Some r" "registry_ok r" "newcomers fleet r" "admissible N fleet r" "distinct (map (ag_id \<circ> fst) fleet)"
  shows "\<exists>r'. reg_at (fold (\<lambda>(A, rng). heartbeat_round N A rng bases) fleet s) url = Some r' \<and> registry_ok r' \<and>
      map bounds (slots (topo r')) = map bounds (slots (topo r)) \<and>
      (\<forall>(A, rng) \<in> set fleet. serving (topo r') (ag_id A) rng) \<and>
      (\<forall>k rng. k \<notin> (ag_id \<circ> fst) ` set fleet \<and> serving (topo r) k rng \<longrightarrow> serving (topo r') k rng)"
  using assms(3-)
proof (induction fleet arbitrary: s r)
  case (Cons p fl)
  obtain A rng where p: "p = (A, rng)" by (cases p)
  have A: "believed N A" "may_join r A" "has_slot (topo r) A rng" "map_of (nodes (topo r)) (ag_id A) = None"
    using Cons.prems(3,4) p by (auto simp: newcomers_def admissible_def)
  have "if url \<in> set bases then map_of (nodes (topo r)) (ag_id A) = None \<or> serving (topo r) (ag_id A) rng
      else serving (topo r) (ag_id A) rng" using A(4) url by simp
  from round_settles [OF A(1) assms(1) Cons.prems(1,2) A(2,3) this] obtain r1 where
    r1: "reg_at (heartbeat_round N A rng bases s) url = Some r1" "keeps (ag_id A) r r1" "serving (topo r1) (ag_id A) rng" by blast
  have o: "others_same (ag_id A) (topo r) (topo r1)" and ok1: "registry_ok r1" using r1(2) by (simp_all add: keeps_def)
  have ids: "ag_id A \<notin> (ag_id \<circ> fst) ` set fl" "distinct (map (ag_id \<circ> fst) fl)" using Cons.prems(5) by (simp_all add: p comp_def)
  have "map_of (nodes (topo r1)) (ag_id B) = None" if "(B, g) \<in> set fl" for B g
  proof -
    have "ag_id B \<noteq> ag_id A" using that ids(1) by (metis (no_types, lifting) comp_apply fst_conv image_eqI)
    then show ?thesis using that Cons.prems(3) o by (fastforce simp: newcomers_def others_same_def)
  qed
  then have "newcomers fl r1" by (auto simp: newcomers_def)
  moreover have "admissible N fl r1"
    using Cons.prems(4) may_join_keeps [OF r1(2)] by (auto simp: admissible_def)
  ultimately obtain r' where r': "reg_at (fold (\<lambda>(A, rng). heartbeat_round N A rng bases) fl (heartbeat_round N A rng bases s)) url = Some r'"
      "registry_ok r'" "map bounds (slots (topo r')) = map bounds (slots (topo r1))"
      "\<forall>(A, rng) \<in> set fl. serving (topo r') (ag_id A) rng"
      "\<forall>k rng. k \<notin> (ag_id \<circ> fst) ` set fl \<and> serving (topo r1) k rng \<longrightarrow> serving (topo r') k rng"
    using Cons.IH [OF r1(1) ok1 _ _ ids(2)] by blast
  have "serving (topo r') (ag_id A) rng" using r'(5) ids(1) r1(3) by blast
  moreover have "serving (topo r') k g" if "k \<notin> (ag_id \<circ> fst) ` set (p # fl)" "serving (topo r) k g" for k g
  proof -
    have "k \<noteq> ag_id A" "k \<notin> (ag_id \<circ> fst) ` set fl" using that(1) p by auto
    then show ?thesis using r'(5) serving_others [OF o _ that(2)] by blast
  qed
  moreover have "map bounds (slots (topo r')) = map bounds (slots (topo r))" using r'(3) o by (simp add: others_same_def)
  ultimately show ?case using r'(1,2,4) p by auto
qed simp

text \<open>C8. A control plane that restarts with an empty node table gets its mesh back from the heartbeats: when the
  nodes of a fleet, one at least for each slot, next send theirs, each learns that it is not known, registers
  again for the layers it has loaded and announces itself; then each serves its own layers there and every slot
  is covered.  The other control planes may answer, refuse or lose whatever they like.\<close>

theorem restart_recovers_coverage:
  assumes r: "reg_at s url = Some r" and ok: "registry_ok r" and empty: "nodes (topo r) = []"
    and url: "url \<in> set bases" and arr: "arrives N url"
    and fleet: "\<forall>(A, rng) \<in> set fleet. believed N A \<and> may_join r A \<and> has_slot (topo r) A rng"
    and distinct: "distinct (map (ag_id \<circ> fst) fleet)"
    and enough: "\<forall>sl \<in> set (slots (topo r)). s_start sl < s_end sl \<and> (s_start sl, s_end sl) \<in> snd ` set fleet"
  shows "\<exists>r'. reg_at (fold (\<lambda>(A, rng). heartbeat_round N A rng bases) fleet s) url = Some r' \<and> registry_ok r' \<and>
    (\<forall>(A, rng) \<in> set fleet. serving (topo r') (ag_id A) rng) \<and> coverage_ok (topo r')"
proof -
  have "newcomers fleet r" "admissible N fleet r" using empty fleet by (auto simp: newcomers_def admissible_def)
  from fleet_settles [OF arr url r ok this distinct] obtain r' where
    r': "reg_at (fold (\<lambda>(A, rng). heartbeat_round N A rng bases) fleet s) url = Some r'" "registry_ok r'"
      "map bounds (slots (topo r')) = map bounds (slots (topo r))" "\<forall>(A, rng) \<in> set fleet. serving (topo r') (ag_id A) rng"
    by blast
  have "s_start sl < s_end sl \<and> (\<exists>nid. serving (topo r') nid (s_start sl, s_end sl))" if "sl \<in> set (slots (topo r'))" for sl
  proof -
    have "bounds sl \<in> set (map bounds (slots (topo r')))" using that by simp
    then have "bounds sl \<in> set (map bounds (slots (topo r)))" by (simp only: r'(3))
    then obtain sl0 where "sl0 \<in> set (slots (topo r))" "s_start sl0 = s_start sl" "s_end sl0 = s_end sl" by auto
    then show ?thesis using enough r'(4) by fastforce
  qed
  then have "coverage_ok (topo r')" using r'(2) by (intro covered_by_serving) (simp_all add: registry_ok_def)
  then show ?thesis using r' by blast
qed

subsection \<open>Joining\<close>

lemma hex_key: "json_hex (JStr (hex_of k)) = Inr k"
  by simp

lemma read_admission_json:
  "assignment a = Some (x, y) \<Longrightarrow> length (session_key a) = 32 \<Longrightarrow> read_admission (admission_json a) = Inr ((x, y), session_key a)"
  by (simp add: read_admission_def admission_json_def jfield_def any_field_def hex_key normalize_key_def KEY_LEN_def)

text \<open>A registry that has given a node a slot.\<close>

definition seated :: "registry \<Rightarrow> string \<Rightarrow> int \<times> int \<Rightarrow> bytes option \<Rightarrow> node_state \<Rightarrow> bool" where
  "seated r nid rng key st \<longleftrightarrow> registry_ok r \<and> (\<exists>i nd. i < length (slots (topo r)) \<and>
     (s_start (slots (topo r) ! i), s_end (slots (topo r) ! i)) = rng \<and> nid \<in> set (s_holders (slots (topo r) ! i)) \<and>
     map_of (nodes (topo r)) nid = Some nd \<and> wire_key nd = key \<and> state nd = st)"

lemma seated_ready:
  assumes "seated r nid rng key st" and "st \<in> {JOINING, READY}"
  shows "seated (reg_mark_ready r nid) nid rng key READY"
proof -
  have "registry_ok (reg_mark_ready r nid)"
    using registry_ok_step [of r "RReady nid"] assms(1) by (simp add: seated_def)
  moreover obtain i nd where i: "i < length (slots (topo r))" "(s_start (slots (topo r) ! i), s_end (slots (topo r) ! i)) = rng"
      "nid \<in> set (s_holders (slots (topo r) ! i))" "map_of (nodes (topo r)) nid = Some nd" "wire_key nd = key" "state nd = st"
    using assms(1) by (auto simp: seated_def)
  moreover have "map_of (nodes (topo (reg_mark_ready r nid))) nid = Some (nd\<lparr>state := READY\<rparr>)"
    using i(4,6) assms(2) by (auto simp: reg_mark_ready_def mark_ready_def dict_simps)
  moreover have "slots (topo (reg_mark_ready r nid)) = slots (topo r)" by (simp add: reg_mark_ready_def mark_ready_def)
  ultimately show ?thesis
    unfolding seated_def by (intro conjI exI [of _ i] exI [of _ "nd\<lparr>state := READY\<rparr>"]) simp_all
qed

lemma seated_serving: "seated r nid rng key READY \<Longrightarrow> serving (topo r) nid rng"
  by (auto simp: seated_def serving_def)

lemma serving_seated: "registry_ok r \<Longrightarrow> serving (topo r) nid rng \<Longrightarrow> \<exists>key. seated r nid rng key READY"
  by (auto simp: seated_def serving_def)

lemma announced:
  assumes b: "believed N A" and arr: "arrives N url"
  shows "reg_at s url = Some r \<Longrightarrow> seated r (ag_id A) rng key st \<Longrightarrow> st \<in> {JOINING, READY} \<Longrightarrow>
    \<exists>r'. reg_at (on_listening N A bases s) url = Some r' \<and>
      seated r' (ag_id A) rng key (if url \<in> set bases then READY else st)"
proof (induction bases arbitrary: s r st)
  case Nil
  then show ?case by (simp add: on_listening_def announce_def)
next
  case (Cons u us)
  let ?s1 = "fst (post_one (agent_net N A) ''/ready'' (live_body A) u s)"
  have step: "on_listening N A (u # us) s = on_listening N A us ?s1" by (simp add: on_listening_def announce_def)
  show ?case
  proof (cases "u = url")
    case True
    have "reg_at ?s1 url = Some (reg_mark_ready r (ag_id A))"
      using live_post [OF b arr Cons.prems(1), of "''/ready''"] True Cons.prems(1) by simp
    from Cons.IH [OF this seated_ready [OF Cons.prems(2,3)]] show ?thesis using True step by (simp split: if_splits)
  next
    case False
    then have "reg_at ?s1 url = Some r" using post_elsewhere Cons.prems(1) by simp
    from Cons.IH [OF this Cons.prems(2,3)] show ?thesis using False step by simp
  qed
qed

lemma standbys_elsewhere:
  "url \<notin> set sbs \<Longrightarrow> reg_at (fold (\<lambda>sb s. fst (register_standby N A rng sb s)) sbs s) url = reg_at s url"
  by (induction sbs arbitrary: s) (auto simp: standby_elsewhere)

text \<open>Whatever the other standbys do, the one that answers and has such a slot seats the node.\<close>

lemma standbys_join:
  assumes b: "believed N A" and arr: "arrives N sb"
  shows "sb \<in> set sbs \<Longrightarrow> reg_at s sb = Some r \<Longrightarrow> registry_ok r \<Longrightarrow> may_join r A \<and> has_slot (topo r) A rng \<Longrightarrow>
    \<exists>r'. reg_at (fold (\<lambda>sb s. fst (register_standby N A rng sb s)) sbs s) sb = Some r' \<and>
      registry_ok r' \<and> serving (topo r') (ag_id A) rng"
proof (induction sbs arbitrary: s r)
  case (Cons u us)
  show ?case
  proof (cases "u = sb")
    case True
    obtain r1 where r1: "reg_at (fst (register_standby N A rng sb s)) sb = Some r1" "keeps (ag_id A) r r1"
        "serving (topo r1) (ag_id A) rng"
      using standby_rejoins [OF b arr Cons.prems(2,3), of rng] Cons.prems(2,4) by auto
    have ok1: "registry_ok r1" using r1(2) by (simp add: keeps_def)
    show ?thesis
    proof (cases "sb \<in> set us")
      case True
      from Cons.IH [OF this r1(1) ok1 may_join_keeps [OF r1(2) Cons.prems(4)]] show ?thesis using \<open>u = sb\<close> by simp
    next
      case False
      then show ?thesis using standbys_elsewhere [OF False] r1(1,3) ok1 \<open>u = sb\<close> by simp
    qed
  next
    case False
    then have "reg_at (fst (register_standby N A rng u s)) sb = Some r" using standby_elsewhere Cons.prems(2) by simp
    from Cons.IH [OF _ this Cons.prems(3,4)] show ?thesis using False Cons.prems(1) by simp
  qed
qed simp

text \<open>C9. Over a connection that works, a node that the active control plane would take joins at the first attempt, and what
  it is told is what coordinators are told: when it has loaded its layers and announced itself, the control plane lists
  it as \<open>READY\<close> in the slot with exactly the layers it was given, and the key a coordinator will use for it is the
  key it was given.  Any number of standbys may be configured, none too: each that can be reached, would take the node and
  has a slot of those layers lists it there as well, and the others may refuse, lose or answer whatever they like.\<close>

theorem joined_node_serves_its_layers:
  assumes r: "reg_at s base = Some r" "registry_ok r" and arr: "arrives N base" and b: "believed N A" and j: "may_join r A"
    and fits: "\<exists>sl \<in> set (slots (topo r)). slot_size sl \<le> ag_capacity A"
    and new: "base \<notin> set standbys"
  shows "\<exists>s1 rng key. join_mesh N A (Suc k) (base # standbys) s = (s1, Joined rng key) \<and>
    (\<exists>r2 nd. reg_at (on_listening N A (base # standbys) s1) base = Some r2 \<and> registry_ok r2 \<and> serving (topo r2) (ag_id A) rng \<and>
       map_of (nodes (topo r2)) (ag_id A) = Some nd \<and> node_key cluster nd = Inr key) \<and>
    (\<forall>sb \<in> set standbys. \<forall>rs. arrives N sb \<and> reg_at s sb = Some rs \<and> registry_ok rs \<and> may_join rs A \<and> has_slot (topo rs) A rng \<longrightarrow>
       (\<exists>r3. reg_at (on_listening N A (base # standbys) s1) sb = Some r3 \<and> registry_ok r3 \<and> serving (topo r3) (ag_id A) rng))"
proof -
  let ?now = "cn_server N (pl_contacts s)" and ?id = "ag_id A"
  have wf: "topo_wf (topo r)" using r(2) by (simp add: registry_ok_def)
  obtain r1 a i nd where reg: "reg_register r (agent_node A) ?now None = (r1, Inr a)"
    and i: "i < length (slots (topo r1))" "map_of (nodes (topo r1)) ?id = Some nd" "state nd = JOINING"
      "wire_key nd = Some (session_key a)" "session_key a = derive_node_key (master_secret r) ?id"
      "?id \<in> set (s_holders (slots (topo r1) ! i))"
      "assignment a = Some (s_start (slots (topo r1) ! i), s_end (slots (topo r1) ! i))"
    using agent_register [OF wf j fits, of ?now None] by blast
  have ok1: "registry_ok r1" using registry_ok_step [OF r(2), of "RRegister (agent_node A) ?now None"] reg by simp
  let ?rng = "(s_start (slots (topo r1) ! i), s_end (slots (topo r1) ! i))" and ?key = "session_key a"
  have key: "length ?key = 32" by (simp add: i(5) derive_node_key_def)
  let ?s0 = "with_reg base r1 s" and ?join = "fold (\<lambda>sb s. fst (register_standby N A ?rng sb s)) standbys"
  have do: "do_register N A None base (Suc k) s = (?s0, Joined ?rng ?key)"
    using register_post(1) [OF b arr r(1) reg] read_admission_json [OF i(7) key] by simp
  have join: "join_mesh N A (Suc k) (base # standbys) s = (?join ?s0, Joined ?rng ?key)" using do by (simp add: join_mesh_def)
  have at1: "reg_at (?join ?s0) base = Some r1" using standbys_elsewhere [OF new] r(1) by simp
  have seat: "seated r1 ?id ?rng (Some ?key) JOINING" using ok1 i by (auto simp: seated_def)
  obtain r2 where r2: "reg_at (on_listening N A (base # standbys) (?join ?s0)) base = Some r2" "seated r2 ?id ?rng (Some ?key) READY"
    using announced [OF b arr at1 seat, of "base # standbys"] by auto
  obtain nd2 where nd2: "map_of (nodes (topo r2)) ?id = Some nd2" "wire_key nd2 = Some ?key" using r2(2) by (auto simp: seated_def)
  have "node_key cluster nd2 = Inr ?key" using nd2(2) key by (auto simp: node_key_def normalize_key_def KEY_LEN_def)
  moreover have "\<exists>r3. reg_at (on_listening N A (base # standbys) (?join ?s0)) sb = Some r3 \<and> registry_ok r3 \<and> serving (topo r3) ?id ?rng"
    if sb: "sb \<in> set standbys" "arrives N sb" "reg_at s sb = Some rs" "registry_ok rs" "may_join rs A" "has_slot (topo rs) A ?rng" for sb rs
  proof -
    have "reg_at ?s0 sb = Some rs" using sb(1,3) new by auto
    then obtain r3 key3 where r3: "reg_at (?join ?s0) sb = Some r3" "seated r3 ?id ?rng key3 READY"
      using standbys_join [OF b sb(2,1) _ sb(4)] sb(5,6) serving_seated by blast
    obtain r4 where r4: "reg_at (on_listening N A (base # standbys) (?join ?s0)) sb = Some r4" "seated r4 ?id ?rng key3 READY"
      using announced [OF b sb(2) r3, of "base # standbys"] sb(1) by auto
    have "registry_ok r4" using r4(2) by (simp add: seated_def)
    with r4(1) seated_serving [OF r4(2)] show ?thesis by blast
  qed
  ultimately show ?thesis using join r2 nd2(1) seated_serving [OF r2(2)]
    by (intro exI [of _ "?join ?s0"] exI [of _ ?rng] exI [of _ ?key]) (auto simp: seated_def)
qed

subsection \<open>Other slots\<close>

text \<open>C34. A node insists on its layers, but not when it announces itself: registered with a control plane none of
  whose slots has exactly the layers it has loaded (a standby, or one restarted, with another layout), it is
  given a slot of other layers, and is announced there as \<open>READY\<close> all the same.  Coordinators will send it what
  is meant for those layers.\<close>

theorem drifted_layout_serves_wrong_layers:
  assumes b: "believed N A" and arr: "arrives N url" and r: "reg_at s url = Some r" "registry_ok r" and j: "may_join r A"
    and fits: "\<exists>sl \<in> set (slots (topo r)). slot_size sl \<le> ag_capacity A"
    and other: "\<forall>sl \<in> set (slots (topo r)). (s_start sl, s_end sl) \<noteq> rng"
  shows "\<exists>s' r' rng'. register_standby N A rng url s = (s', True) \<and> reg_at s' url = Some r' \<and>
    serving (topo r') (ag_id A) rng' \<and> rng' \<noteq> rng"
proof -
  let ?now = "cn_server N (pl_contacts s)" and ?id = "ag_id A"
  have wf: "topo_wf (topo r)" using r(2) by (simp add: registry_ok_def)
  obtain r1 a i nd where reg: "reg_register r (agent_node A) ?now (Some rng) = (r1, Inr a)"
    and o: "others_same ?id (topo r) (topo r1)"
    and i: "i < length (slots (topo r1))" "map_of (nodes (topo r1)) ?id = Some nd" "state nd = JOINING"
      "?id \<in> set (s_holders (slots (topo r1) ! i))"
    using agent_register [OF wf j fits, of ?now "Some rng"] by blast
  let ?rng = "(s_start (slots (topo r1) ! i), s_end (slots (topo r1) ! i))"
  have b1: "bounds (slots (topo r1) ! i) = bounds (slots (topo r) ! i)"
    using o i(1) bounds_nth [of "slots (topo r1)" "slots (topo r)" i] by (simp add: others_same_def)
  have "slots (topo r) ! i \<in> set (slots (topo r))" using i(1) others_same_length [OF o] by simp
  then have ne: "?rng \<noteq> rng" using other b1 by fastforce
  let ?r2 = "reg_mark_ready r1 ?id"
  have "reg_at (with_reg url r1 s) url = Some r1" using r(1) by simp
  from live_post [OF b arr this, of "''/ready''"] register_post(2) [OF b arr r(1) reg]
  have st: "register_standby N A rng url s = (with_reg url ?r2 (with_reg url r1 s), True)"
    by (simp add: register_standby_def)
  have "serving (topo ?r2) ?id ?rng"
    unfolding serving_def using i by (intro exI [of _ i] exI [of _ "nd\<lparr>state := READY\<rparr>"])
      (simp add: reg_mark_ready_def mark_ready_def dict_simps)
  then show ?thesis using st r(1) ne by auto
qed

subsection \<open>A small fleet\<close>

definition agent_keys :: "bytes \<Rightarrow> node_agent" where
  "agent_keys pub = \<lparr>ag_id = hex_of pub, ag_endpoint = (''10.0.0.1'', 9000), ag_capacity = 2, ag_fp = ''fp'',
     ag_reach = ''public'', ag_region = [], ag_wallet = [], ag_key = Some (demo_keys, [])\<rparr>"

definition empty_four :: topology where
  "empty_four = projr (mk_topology 4 0 2 ''fp'' 1 30 None False None)"

definition empty_three :: topology where
  "empty_three = projr (mk_topology 3 0 3 ''fp'' 1 30 None False None)"

definition fresh_registry :: "topology \<Rightarrow> registry" where
  "fresh_registry t = mk_registry t [1] (''coord'', 7000) '''' None None 1000 1 '''' None True"

definition demo_planes :: planes where
  "demo_planes = \<lparr>pl_servers = [(''cp'', \<lparr>ct_reg = fresh_registry empty_four, ct_suspects = []\<rparr>),
     (''sb'', \<lparr>ct_reg = fresh_registry empty_four, ct_suspects = []\<rparr>),
     (''old'', \<lparr>ct_reg = fresh_registry empty_three, ct_suspects = []\<rparr>)], pl_contacts = 0\<rparr>"

lemma empty_topologies:
  "mk_topology 4 0 2 ''fp'' 1 30 None False None = Inr empty_four"
  "mk_topology 3 0 3 ''fp'' 1 30 None False None = Inr empty_three"
  by (simp_all add: empty_four_def empty_three_def mk_topology_def)

lemma empty_slots:
  "map (\<lambda>s. (s_start s, s_end s)) (slots empty_four) = [(0, 2), (2, 4)]"
  "map (\<lambda>s. (s_start s, s_end s)) (slots empty_three) = [(0, 1), (1, 2), (2, 3)]"
  "nodes empty_four = []" "topo_fp empty_four = ''fp''" "topo_fp empty_three = ''fp''"
  by (simp_all add: empty_four_def empty_three_def mk_topology_def balanced_sizes_def Let_def numeral_2_eq_2 numeral_3_eq_3 mk_slots.simps)

lemma fresh_registry_facts:
  "topo (fresh_registry t) = t" "banned (fresh_registry t) = []" "allowlist (fresh_registry t) = None"
  by (simp_all add: fresh_registry_def mk_registry_def Let_def)

lemma fresh_registry_ok: "topo_wf t \<Longrightarrow> registry_ok (fresh_registry t)"
  unfolding fresh_registry_def by (rule registry_ok_initial)

lemma demo_agent:
  "arrives demo_net url" "topo_fp t = ''fp'' \<Longrightarrow> may_join (fresh_registry t) (agent_keys pub)"
  "registry_ok (fresh_registry empty_four)" "registry_ok (fresh_registry empty_three)"
  using topo_wf_mk_topology [OF empty_topologies(1)] topo_wf_mk_topology [OF empty_topologies(2)]
  by (simp_all add: fresh_registry_facts fresh_registry_ok may_join_def arrives_def demo_net_def agent_keys_def)

lemma demo_believed: "believed demo_net (agent_keys pub)"
  unfolding believed_def
  by (rule exI [of _ demo_keys], rule exI [of _ "[]"], rule exI [of _ pub], rule exI [of _ 300])
    (simp add: demo_net_def demo_config_def agent_keys_def, simp add: demo_keys_def)

lemma slots_by_range:
  "(\<exists>s \<in> set ss. P (s_start s, s_end s)) \<longleftrightarrow> (\<exists>g \<in> set (map (\<lambda>s. (s_start s, s_end s)) ss). P g)"
  "(\<forall>s \<in> set ss. P (s_start s, s_end s)) \<longleftrightarrow> (\<forall>g \<in> set (map (\<lambda>s. (s_start s, s_end s)) ss). P g)"
  by auto

lemma has_slot_range: "has_slot t A rng \<longleftrightarrow> (\<exists>g \<in> set (map (\<lambda>s. (s_start s, s_end s)) (slots t)). g = rng \<and> snd g - fst g \<le> ag_capacity A)"
  by (auto simp: has_slot_def slot_size_def)

lemma agent_id: "ag_id (agent_keys pub) = hex_of pub"
  by (simp add: agent_keys_def)

lemma demo_at: "reg_at demo_planes ''cp'' = Some (fresh_registry empty_four)" "reg_at demo_planes ''sb'' = Some (fresh_registry empty_four)"
  "reg_at demo_planes ''old'' = Some (fresh_registry empty_three)"
  by (simp_all add: reg_at_def demo_planes_def)

lemma restart_recovers_coverage_witness:
  "\<exists>r'. reg_at (fold (\<lambda>(A, rng). heartbeat_round demo_net A rng [''sb'', ''cp'']) [(agent_keys [7], 0, 2), (agent_keys [8], 2, 4)] demo_planes) ''cp'' =
     Some r' \<and> coverage_ok (topo r')"
proof -
  let ?fleet = "[(agent_keys [7], 0, 2), (agent_keys [8], 2, 4 :: int)]"
  have f: "\<forall>(A, rng) \<in> set ?fleet. believed demo_net A \<and> may_join (fresh_registry empty_four) A \<and> has_slot (topo (fresh_registry empty_four)) A rng"
    by (simp add: demo_believed demo_agent(2) fresh_registry_facts has_slot_range empty_slots) (simp add: agent_keys_def)
  have "ag_id (agent_keys [7]) \<noteq> ag_id (agent_keys [8])" by (simp add: agent_keys_def hex_of_def hex_char_def)
  then have d: "distinct (map (ag_id \<circ> fst) ?fleet)" by simp
  have e: "\<forall>sl \<in> set (slots (topo (fresh_registry empty_four))). s_start sl < s_end sl \<and> (s_start sl, s_end sl) \<in> snd ` set ?fleet"
    using slots_by_range(2) [of "slots empty_four" "\<lambda>g. fst g < snd g \<and> g \<in> snd ` set ?fleet"]
    by (simp add: fresh_registry_facts empty_slots)
  have n: "nodes (topo (fresh_registry empty_four)) = []" by (simp add: fresh_registry_facts empty_slots)
  have u: "''cp'' \<in> set [''sb'', ''cp'']" by simp
  from restart_recovers_coverage [OF demo_at(1) demo_agent(3) n u demo_agent(1) f d e] show ?thesis by blast
qed

lemma joined_node_serves_its_layers_witness:
  "\<exists>s1 rng key r2. join_mesh demo_net (agent_keys [7]) (Suc 0) [''cp'', ''sb'', ''old''] demo_planes = (s1, Joined rng key) \<and>
     reg_at (on_listening demo_net (agent_keys [7]) [''cp'', ''sb'', ''old''] s1) ''cp'' = Some r2 \<and> serving (topo r2) (hex_of [7]) rng \<and>
     (has_slot empty_four (agent_keys [7]) rng \<longrightarrow>
       (\<exists>r3. reg_at (on_listening demo_net (agent_keys [7]) [''cp'', ''sb'', ''old''] s1) ''sb'' = Some r3 \<and> serving (topo r3) (hex_of [7]) rng))"
proof -
  have j: "may_join (fresh_registry empty_four) (agent_keys [7])" by (simp add: demo_agent(2) empty_slots)
  have "\<exists>s \<in> set (slots empty_four). s_end s - s_start s \<le> 2"
    using slots_by_range(1) [of "slots empty_four" "\<lambda>g. snd g - fst g \<le> 2"] by (simp add: empty_slots)
  then have f: "\<exists>s \<in> set (slots (topo (fresh_registry empty_four))). slot_size s \<le> ag_capacity (agent_keys [7])"
    by (simp add: fresh_registry_facts slot_size_def agent_keys_def)
  have ne: "''cp'' \<notin> set [''sb'', ''old'']" by simp
  have sb: "''sb'' \<in> set [''sb'', ''old'']" by simp
  have four: "topo (fresh_registry empty_four) = empty_four" by (rule fresh_registry_facts)
  from joined_node_serves_its_layers [OF demo_at(1) demo_agent(3) demo_agent(1) demo_believed j f ne, of 0]
  obtain s1 rng key r2 where J: "join_mesh demo_net (agent_keys [7]) (Suc 0) [''cp'', ''sb'', ''old''] demo_planes = (s1, Joined rng key)"
      "reg_at (on_listening demo_net (agent_keys [7]) [''cp'', ''sb'', ''old''] s1) ''cp'' = Some r2" "serving (topo r2) (hex_of [7]) rng"
      and sbs: "\<forall>sb \<in> set [''sb'', ''old'']. \<forall>rs. arrives demo_net sb \<and> reg_at demo_planes sb = Some rs \<and> registry_ok rs \<and>
        may_join rs (agent_keys [7]) \<and> has_slot (topo rs) (agent_keys [7]) rng \<longrightarrow>
       (\<exists>r3. reg_at (on_listening demo_net (agent_keys [7]) [''cp'', ''sb'', ''old''] s1) sb = Some r3 \<and> registry_ok r3 \<and> serving (topo r3) (hex_of [7]) rng)"
    unfolding agent_id by blast
  have "has_slot empty_four (agent_keys [7]) rng \<longrightarrow>
       (\<exists>r3. reg_at (on_listening demo_net (agent_keys [7]) [''cp'', ''sb'', ''old''] s1) ''sb'' = Some r3 \<and> serving (topo r3) (hex_of [7]) rng)"
    using spec [OF bspec [OF sbs sb], of "fresh_registry empty_four"] demo_at(2) demo_agent(1,3) j by (auto simp only: four)
  then show ?thesis using J by (intro exI [of _ s1] exI [of _ rng] exI [of _ key] exI [of _ r2]) (simp only: simp_thms)
qed

lemma drifted_layout_serves_wrong_layers_witness:
  "\<exists>s' r' rng'. register_standby demo_net (agent_keys [7]) (0, 2) ''old'' demo_planes = (s', True) \<and> reg_at s' ''old'' = Some r' \<and>
     serving (topo r') (hex_of [7]) rng' \<and> rng' \<noteq> (0, 2)"
proof -
  have j: "may_join (fresh_registry empty_three) (agent_keys [7])" by (simp add: demo_agent(2) empty_slots)
  have "\<exists>s \<in> set (slots empty_three). s_end s - s_start s \<le> 2"
    using slots_by_range(1) [of "slots empty_three" "\<lambda>g. snd g - fst g \<le> 2"] by (simp add: empty_slots)
  then have f: "\<exists>s \<in> set (slots (topo (fresh_registry empty_three))). slot_size s \<le> ag_capacity (agent_keys [7])"
    by (simp add: fresh_registry_facts slot_size_def agent_keys_def)
  have o: "\<forall>s \<in> set (slots (topo (fresh_registry empty_three))). (s_start s, s_end s) \<noteq> (0, 2)"
    using slots_by_range(2) [of "slots empty_three" "\<lambda>g. g \<noteq> (0, 2)"] by (simp add: fresh_registry_facts empty_slots)
  from drifted_layout_serves_wrong_layers [OF demo_believed demo_agent(1) demo_at(3) demo_agent(4) j f o]
  show ?thesis by (simp add: agent_keys_def)
qed

end
