(* ===== verification/Catalog.thy ===== *)
theory Catalog
  imports Route_Client Sha256
begin

section \<open>Published slices\<close>

text \<open>
  \<open>engine/shard_fetch.py\<close> and the pure part of \<open>scripts/slice-awq.py\<close>: the layout that the
  publisher, the coordinator and the nodes share, the manifest, the topology built from it, the
  slices of a checkpoint by tensor names, and how a node obtains its slice.  What the download and
  the slicer program do is a parameter; a file is its bytes.
\<close>

subsection \<open>Layouts\<close>

definition parse_range :: "string \<Rightarrow> (int \<times> int) result" where
  "parse_range p =
     (case split_char CHR '':'' p of
        [a, b] \<Rightarrow> bindE (parse_int a) (\<lambda>s. bindE (parse_int b) (\<lambda>e.
                    if e \<le> s then Inl ValueError else Inr (s, e)))
      | _ \<Rightarrow> Inl ValueError)"

fun parse_ranges :: "int option \<Rightarrow> bool \<Rightarrow> string list \<Rightarrow> (int \<times> int \<times> bool) list result" where
  "parse_ranges prev first [] = Inr []"
| "parse_ranges prev first (p # ps) =
     bindE (parse_range p) (\<lambda>(s, e).
       if prev \<noteq> None \<and> prev \<noteq> Some s then Inl ValueError
       else bindE (parse_ranges (Some e) False ps) (\<lambda>rs. Inr ((s, e, first) # rs)))"

definition parse_layout :: "string \<Rightarrow> (int \<times> int \<times> bool) list result" where
  "parse_layout spec =
     (let parts = filter (\<lambda>p. py_strip p \<noteq> []) (split_char CHR '','' spec)
      in if parts = [] then Inl ValueError else parse_ranges None True parts)"

definition slot_dirname :: "int \<Rightarrow> int \<Rightarrow> bool \<Rightarrow> string" where
  "slot_dirname s e keep_head = (if keep_head then ''coord'' else ''sub'') @ ''-'' @ int_text s @ ''-'' @ int_text e"

definition artifact_subdir :: "int \<Rightarrow> int \<Rightarrow> bool \<Rightarrow> string" where
  "artifact_subdir = slot_dirname"

subsection \<open>Manifests\<close>

definition manifest_slot :: "(string, body) dict \<Rightarrow> int \<times> int \<times> bool \<Rightarrow> json" where
  "manifest_slot slot_meta = (\<lambda>(s, e, kh).
     let d = slot_dirname s e kh
     in JObj (dict_update [(''start'', JInt s), (''end'', JInt e), (''keep_head'', JBool kh), (''dir'', JStr d)] (dget slot_meta d [])))"

definition build_manifest :: "string \<Rightarrow> (int \<times> int \<times> bool) list \<Rightarrow> string option \<Rightarrow> (string, body) dict \<Rightarrow> body result" where
  "build_manifest model_id ranges revision slot_meta =
     (if ranges = [] then Inl IndexError
      else Inr [(''model'', JStr model_id), (''revision'', case revision of None \<Rightarrow> JNull | Some r \<Rightarrow> JStr r),
        (''format'', JStr ''awq-per-node-v1''), (''num_layers'', JInt (fst (snd (last ranges)))),
        (''slots'', JList (map (manifest_slot slot_meta) ranges))])"

text \<open>A slot of a manifest.  Bounds that are no whole numbers are refused here, in the program when they are
  first computed with; \<open>keep_head\<close> is used for its truth only.\<close>

definition slot_of_json :: "json \<Rightarrow> (int \<times> int \<times> bool) result" where
  "slot_of_json v =
     bindE (any_field ''start'' v) (\<lambda>s. bindE (any_field ''end'' v) (\<lambda>e. bindE (any_field ''keep_head'' v) (\<lambda>k.
       case (s, e) of (JInt a, JInt b) \<Rightarrow> Inr (a, b, truthy k) | _ \<Rightarrow> Inl TypeError)))"

definition manifest_layout :: "json \<Rightarrow> (int \<times> int \<times> bool) list result" where
  "manifest_layout m =
     bindE (any_field ''slots'' m) (\<lambda>v. case v of JList xs \<Rightarrow> mapE slot_of_json xs | _ \<Rightarrow> Inl TypeError)"

datatype catalog = CatalogText string | CatalogManifest json

text \<open>A text that is the path of a file stands for the JSON in it: \<open>files\<close> maps paths to what \<open>json.load\<close> gives.\<close>

definition catalog_layout :: "(string \<Rightarrow> json result option) \<Rightarrow> catalog \<Rightarrow> (int \<times> int \<times> bool) list result" where
  "catalog_layout files spec =
     (case spec of
        CatalogManifest m \<Rightarrow> manifest_layout m
      | CatalogText s \<Rightarrow>
          (case files s of
             Some r \<Rightarrow> bindE r manifest_layout
           | None \<Rightarrow> if length s \<ge> 5 \<and> drop (length s - 5) s = ''.json'' then Inl OSError else parse_layout s))"

definition topology_from_catalog :: "int \<Rightarrow> (int \<times> int \<times> bool) list \<Rightarrow> (int \<times> int \<times> int list) result" where
  "topology_from_catalog n_layers ranges =
     (case ranges of
        [] \<Rightarrow> Inl ValueError
      | (s0, ce, kh) # stages \<Rightarrow>
          if \<not> kh then Inl ValueError
          else if stages = [] then Inl ValueError
          else if fst (hd stages) \<noteq> ce \<or> fst (snd (last stages)) \<noteq> n_layers then Inl ValueError
          else Inr (ce, int (length stages), map (\<lambda>(s, e, k). e - s) stages))"

subsection \<open>Slicing a checkpoint by names\<close>

text \<open>\<open>^(model\.layers\.)(\d+)(\..*)$\<close>: the number and what follows it; the end of the pattern is also found before
  a final line feed.\<close>

definition layer_prefix :: string where "layer_prefix = ''model.layers.''"

definition match_layer :: "string \<Rightarrow> (nat \<times> string) option" where
  "match_layer name =
     (if take (length layer_prefix) name \<noteq> layer_prefix then None
      else (let rest = drop (length layer_prefix) name;
                ds = takeWhile (\<lambda>c. dec_digit c \<noteq> None) rest;
                tail = dropWhile (\<lambda>c. dec_digit c \<noteq> None) rest;
                more_text = (if tail \<noteq> [] \<and> last tail = CHR 0x0A then butlast tail else tail)
            in if ds = [] \<or> more_text = [] \<or> hd more_text \<noteq> CHR ''.'' \<or> CHR 0x0A \<in> set more_text then None
               else map_option (\<lambda>i. (i, more_text)) (int_digits ds False 0)))"

definition relayer_name :: "string \<Rightarrow> int \<Rightarrow> int \<Rightarrow> string option" where
  "relayer_name name start end =
     (case match_layer name of
        None \<Rightarrow> None
      | Some (i, more_text) \<Rightarrow> if start \<le> int i \<and> int i < end then Some (layer_prefix @ int_text (int i - start) @ more_text) else None)"

definition keep_nonlayer :: "string \<Rightarrow> bool \<Rightarrow> bool \<Rightarrow> bool" where
  "keep_nonlayer name keep_norm keep_head =
     (let starts = (\<lambda>p. take (length p) name = p)
      in keep_head \<and> (starts ''model.embed_tokens.'' \<or> starts ''lm_head.'' \<or> starts ''model.norm.'') \<or>
         keep_norm \<and> starts ''model.norm.'')"

fun remap_loop :: "(string \<times> string) list \<Rightarrow> int \<Rightarrow> int \<Rightarrow> bool \<Rightarrow> bool \<Rightarrow> (string, string) dict \<Rightarrow> bool \<Rightarrow> (string, string) dict \<times> bool" where
  "remap_loop [] start end kn kh out seen = (out, seen)"
| "remap_loop ((name, shard) # ws) start end kn kh out seen =
     (case relayer_name name start end of
        Some sub \<Rightarrow> remap_loop ws start end kn kh (dset sub shard out) True
      | None \<Rightarrow> remap_loop ws start end kn kh (if keep_nonlayer name kn kh then dset name shard out else out) seen)"

definition remap_weight_map :: "(string, string) dict \<Rightarrow> int \<Rightarrow> int \<Rightarrow> bool \<Rightarrow> bool \<Rightarrow> (string, string) dict result" where
  "remap_weight_map wm start end keep_norm keep_head =
     (if \<not> (0 \<le> start \<and> start \<le> end) then Inl ValueError
      else case remap_loop wm start end keep_norm keep_head [] False of
             (out, seen) \<Rightarrow>
               if start < end \<and> \<not> seen then Inl ValueError
               else if start = end \<and> out = [] then Inl ValueError
               else Inr out)"

definition kept_tensor_names :: "string list \<Rightarrow> int \<Rightarrow> int \<Rightarrow> bool \<Rightarrow> bool \<Rightarrow> (string, string) dict" where
  "kept_tensor_names names start end keep_norm keep_head =
     foldl (\<lambda>kept name.
        case relayer_name name start end of
          Some sub \<Rightarrow> dset name sub kept
        | None \<Rightarrow> if keep_nonlayer name keep_norm keep_head then dset name name kept else kept) [] names"

definition sub_config :: "body \<Rightarrow> int \<Rightarrow> int \<Rightarrow> bool \<Rightarrow> body" where
  "sub_config config start end keep_head =
     (let c1 = dset ''num_hidden_layers'' (JInt (end - start)) config;
          c2 = (if keep_head then c1 else dset ''tie_word_embeddings'' (JBool False) c1)
      in if end - start = 0 then dpop ''quantization_config'' c2 else c2)"

text \<open>The slicer's copy: new names with the tensors' bytes, checked against the index.\<close>

definition slice_tensors ::
  "(string \<Rightarrow> 'a) \<Rightarrow> (string, string) dict \<Rightarrow> int \<Rightarrow> int \<Rightarrow> bool \<Rightarrow> bool \<Rightarrow> (string, 'a) dict result" where
  "slice_tensors tensor wm start end keep_norm keep_head =
     (let kept = kept_tensor_names (map fst wm) start end keep_norm keep_head;
          new = foldl (\<lambda>d (orig, sub). dset sub (tensor orig) d) [] kept
      in bindE (remap_weight_map wm start end keep_norm keep_head) (\<lambda>index.
           if set (map fst index) = set (map fst new) then Inr new else Inl AssertionError))"

subsection \<open>Obtaining a slice\<close>

text \<open>A local slice directory: a link to a downloaded file, or a directory with or without weights.\<close>

datatype slice_dir = Linked bytes | Folder "bytes option"

type_synonym store = "(string, slice_dir) dict"

definition weights :: "store \<Rightarrow> string \<Rightarrow> bytes option" where
  "weights st d = (case map_of st d of None \<Rightarrow> None | Some (Linked b) \<Rightarrow> Some b | Some (Folder w) \<Rightarrow> w)"

definition has_weights :: "store \<Rightarrow> string \<Rightarrow> bool" where
  "has_weights st d \<longleftrightarrow> weights st d \<noteq> None"

definition verify_slice :: "store \<Rightarrow> string \<Rightarrow> string option \<Rightarrow> bool" where
  "verify_slice st d expected =
     (case expected of
        None \<Rightarrow> True
      | Some h \<Rightarrow> h = [] \<or> (case weights st d of None \<Rightarrow> False | Some b \<Rightarrow> hex_of (sha256 b) = h))"

text \<open>How the slicer program ends: it wrote weights, or none; the checkpoint could not be had; or it failed after
  it had made the directory.\<close>

datatype slicing = Sliced "bytes option" | NoCheckpoint py_error | SliceFailed py_error

text \<open>What the hub and the slicer do: \<open>so_download\<close> the weights in a repository's subfolder, if it has them,
  \<open>so_manifest\<close> its manifest, \<open>so_slice\<close> the weights the slicer writes.\<close>

record slice_sources =
  so_download :: "string \<Rightarrow> string \<Rightarrow> bytes option result"
  so_manifest :: "string \<Rightarrow> json result"
  so_slice :: "int \<Rightarrow> int \<Rightarrow> bool \<Rightarrow> slicing"
  so_link :: bool
  so_verify :: bool

text \<open>The hash of the first slot with this directory.  Any exception on the way means that nothing is checked.\<close>

fun slot_hash :: "string \<Rightarrow> json list \<Rightarrow> json result" where
  "slot_hash sub [] = Inr JNull"
| "slot_hash sub (v # vs) =
     (case v of
        JObj b \<Rightarrow> if map_of b ''dir'' = Some (JStr sub) then Inr (case map_of b ''sha256'' of None \<Rightarrow> JNull | Some h \<Rightarrow> h)
                  else slot_hash sub vs
      | _ \<Rightarrow> Inl TypeError)"

definition manifest_hash :: "json result \<Rightarrow> string \<Rightarrow> json result" where
  "manifest_hash man sub =
     bindE man (\<lambda>m. case m of
       JObj b \<Rightarrow> (case map_of b ''slots'' of None \<Rightarrow> Inr JNull | Some (JList vs) \<Rightarrow> slot_hash sub vs | Some _ \<Rightarrow> Inl TypeError)
     | _ \<Rightarrow> Inl TypeError)"

text \<open>Whether the check rejects the slice: a true hash that is no string equals no digest.\<close>

definition slice_rejected :: "slice_sources \<Rightarrow> string \<Rightarrow> string \<Rightarrow> string \<Rightarrow> store \<Rightarrow> bool" where
  "slice_rejected S repo sub dest st \<longleftrightarrow> so_verify S \<and>
     (case manifest_hash (so_manifest S repo) sub of
        Inl e \<Rightarrow> False
      | Inr h \<Rightarrow> truthy h \<and> (case h of JStr x \<Rightarrow> \<not> verify_slice st dest (Some x) | _ \<Rightarrow> True))"

definition try_download :: "slice_sources \<Rightarrow> string \<Rightarrow> int \<Rightarrow> int \<Rightarrow> bool \<Rightarrow> string \<Rightarrow> store \<Rightarrow> store \<times> bool" where
  "try_download S repo start end keep_head dest st =
     (let sub = artifact_subdir start end keep_head
      in case so_download S repo sub of
           Inl e \<Rightarrow> (st, False)
         | Inr None \<Rightarrow> (st, False)
         | Inr (Some b) \<Rightarrow>
             (case map_of st dest of
                Some (Folder w) \<Rightarrow> (st, False)
              | _ \<Rightarrow>
                  if \<not> so_link S then (dpop dest st, False)
                  else (let st1 = dset dest (Linked b) st
                        in if slice_rejected S repo sub dest st1 then (st1, False) else (st1, has_weights st1 dest))))"

text \<open>The slicer writes through a link into the directory it points to.\<close>

definition write_slice :: "string \<Rightarrow> bytes option \<Rightarrow> store \<Rightarrow> store" where
  "write_slice dest w st =
     dset dest (case map_of st dest of
                  Some (Linked b) \<Rightarrow> Linked (case w of None \<Rightarrow> b | Some b' \<Rightarrow> b')
                | Some (Folder v) \<Rightarrow> Folder (case w of None \<Rightarrow> v | Some b' \<Rightarrow> Some b')
                | None \<Rightarrow> Folder w) st"

definition local_slice :: "slice_sources \<Rightarrow> int \<Rightarrow> int \<Rightarrow> bool \<Rightarrow> string \<Rightarrow> store \<Rightarrow> store \<times> unit result" where
  "local_slice S start end keep_head dest st =
     (case so_slice S start end keep_head of
        NoCheckpoint e \<Rightarrow> (st, Inl e)
      | SliceFailed e \<Rightarrow> (write_slice dest None st, Inl e)
      | Sliced w \<Rightarrow> (write_slice dest w st, Inr ()))"

definition resolve_submodel ::
  "slice_sources \<Rightarrow> int \<Rightarrow> int \<Rightarrow> string \<Rightarrow> bool \<Rightarrow> string option \<Rightarrow> store \<Rightarrow> store \<times> string result" where
  "resolve_submodel S start end work_dir keep_head repo st =
     (let dest = work_dir @ ''/'' @ slot_dirname start end keep_head
      in if has_weights st dest then (st, Inr dest)
         else (case (case repo of
                       None \<Rightarrow> (st, False)
                     | Some r \<Rightarrow> if r = [] then (st, False) else try_download S r start end keep_head dest st) of
                 (st1, ok) \<Rightarrow>
                   if ok \<and> has_weights st1 dest then (st1, Inr dest)
                   else (case local_slice S start end keep_head dest st1 of
                           (st2, Inl e) \<Rightarrow> (st2, Inl e)
                         | (st2, Inr _) \<Rightarrow> if has_weights st2 dest then (st2, Inr dest) else (st2, Inl RuntimeError))))"

end
