(* ===== verification/Catalog_Spec.thy ===== *)
theory Catalog_Spec
  imports Catalog Registry_Spec
begin

section \<open>Published slices: properties\<close>

text \<open>
  The layout is one object for the publisher, the coordinator and the nodes: the slots of a topology
  built from it are the published artifacts, and the artifact of a slot holds exactly the tensors of
  the slot's layers, renumbered from 0.  What a node loads from the hub has been checked against the
  published hash; a slice that fails the check stays in place and is loaded the next time.
\<close>

subsection \<open>Layouts and topologies\<close>

lemma parse_ranges_tiles:
  "parse_ranges prev first ps = Inr rs \<Longrightarrow>
     (\<forall>(s, e, k) \<in> set rs. s < e) \<and> length rs = length ps \<and>
     (\<forall>i < length rs. snd (snd (rs ! i)) = (i = 0 \<and> first)) \<and>
     (rs \<noteq> [] \<and> prev \<noteq> None \<longrightarrow> prev = Some (fst (hd rs))) \<and>
     (\<forall>i. Suc i < length rs \<longrightarrow> fst (rs ! Suc i) = fst (snd (rs ! i)))"
proof (induction ps arbitrary: prev first rs)
  case (Cons p ps)
  obtain s e where p: "parse_range p = Inr (s, e)" using Cons.prems by (auto simp: bindE_Inr_iff)
  then have lt: "s < e" by (auto simp: parse_range_def bindE_Inr_iff split: list.splits if_splits)
  obtain rs' where rs: "parse_ranges (Some e) False ps = Inr rs'" "rs = (s, e, first) # rs'" "prev = None \<or> prev = Some s"
    using Cons.prems p by (auto simp: bindE_Inr_iff split: if_splits)
  note ih = Cons.IH [OF rs(1)]
  have "fst (rs ! Suc i) = fst (snd (rs ! i))" if "Suc i < length rs" for i
    using ih that rs(2) by (cases i) (auto simp: hd_conv_nth)
  moreover have "snd (snd (rs ! i)) = (i = 0 \<and> first)" if "i < length rs" for i
    using ih that rs(2) by (cases i) auto
  ultimately show ?case using ih lt rs by auto
qed simp

lemma mk_slots_bounds:
  "\<forall>i. Suc i < length rs \<longrightarrow> fst (rs ! Suc i) = fst (snd (rs ! i)) \<Longrightarrow> rs \<noteq> [] \<Longrightarrow> fst (hd rs) = a \<Longrightarrow>
     map (\<lambda>s. (s_start s, s_end s)) (mk_slots i a (map (\<lambda>(s, e, k). e - s) rs)) = map (\<lambda>(s, e, k). (s, e)) rs"
proof (induction rs arbitrary: i a)
  case (Cons r rs)
  obtain s e k where r: "r = (s, e, k)" by (cases r)
  have next1: "fst (rs ! Suc j) = fst (snd (rs ! j))" if "Suc j < length rs" for j
    using Cons.prems(1) [rule_format, of "Suc j"] that by simp
  show ?case
  proof (cases "rs = []")
    case True
    then show ?thesis using Cons.prems(3) r by simp
  next
    case False
    then have "fst (hd rs) = e" using Cons.prems(1) [rule_format, of 0] r by (simp add: hd_conv_nth)
    then show ?thesis using Cons.IH [OF _ False] next1 Cons.prems(3) r by simp
  qed
qed simp

lemma sizes_telescope:
  "\<forall>i. Suc i < length rs \<longrightarrow> fst (rs ! Suc i) = fst (snd (rs ! i)) \<Longrightarrow> rs \<noteq> [] \<Longrightarrow>
     sum_list (map (\<lambda>(s, e, k). e - s) rs) = fst (snd (last rs)) - (fst (hd rs) :: int)"
proof (induction rs)
  case (Cons r rs)
  obtain s e k where r: "r = (s, e, k)" by (cases r)
  have next1: "fst (rs ! Suc j) = fst (snd (rs ! j))" if "Suc j < length rs" for j
    using Cons.prems(1) [rule_format, of "Suc j"] that by simp
  show ?case
  proof (cases "rs = []")
    case False
    then have "fst (hd rs) = e" using Cons.prems(1) [rule_format, of 0] r by (simp add: hd_conv_nth)
    then show ?thesis using Cons.IH next1 False r by simp
  qed (simp add: r)
qed simp

text \<open>Extra fields that leave the slot's own fields alone.\<close>

definition extras_only :: "(string, body) dict \<Rightarrow> bool" where
  "extras_only slot_meta \<longleftrightarrow> (\<forall>d b. map_of slot_meta d = Some b \<longrightarrow> dict_ok b \<and> set (map fst b) \<inter> {''start'', ''end'', ''keep_head'', ''dir''} = {})"

lemma slot_of_manifest:
  assumes "extras_only slot_meta"
  shows "slot_of_json (manifest_slot slot_meta (s, e, k)) = Inr (s, e, k) \<and>
    (\<exists>b. manifest_slot slot_meta (s, e, k) = JObj b \<and> map_of b ''dir'' = Some (JStr (slot_dirname s e k)))"
proof -
  let ?m = "dget slot_meta (slot_dirname s e k) []"
  have m: "dict_ok ?m" "set (map fst ?m) \<inter> {''start'', ''end'', ''keep_head'', ''dir''} = {}"
    using assms unfolding extras_only_def dget_def
    by (cases "map_of slot_meta (slot_dirname s e k)"; simp; blast)+
  let ?b = "[(''start'', JInt s), (''end'', JInt e), (''keep_head'', JBool k), (''dir'', JStr (slot_dirname s e k))]"
  have "dict_update ?b ?m = ?b @ ?m" by (rule dict_update_append) (use m in auto)
  then show ?thesis by (simp add: manifest_slot_def Let_def slot_of_json_def any_field_def jfield_def)
qed

lemma manifest_roundtrip:
  assumes "extras_only slot_meta" and "build_manifest model_id ranges revision slot_meta = Inr man"
  shows "catalog_layout files (CatalogManifest (JObj man)) = Inr ranges"
proof -
  have "mapE slot_of_json (map (manifest_slot slot_meta) rs) = Inr rs" for rs :: "(int \<times> int \<times> bool) list"
    using slot_of_manifest [OF assms(1)] by (induction rs) auto
  then show ?thesis
    using assms(2) by (auto simp: build_manifest_def catalog_layout_def manifest_layout_def any_field_def jfield_def split: if_splits)
qed

lemma layout_topology:
  assumes parse: "parse_layout spec = Inr ranges" and top: "topology_from_catalog n ranges = Inr (ce, k, sizes)"
  shows "(0 \<le> fst (hd ranges) \<longrightarrow> (\<exists>t. mk_topology n ce k fp repl dead creg lat (Some sizes) = Inr t)) \<and>
    (\<forall>t. mk_topology n ce k fp repl dead creg lat (Some sizes) = Inr t \<longrightarrow>
       map (\<lambda>s. (s_start s, s_end s, False)) (slots t) = tl ranges)"
proof -
  obtain ps where ps: "parse_ranges None True ps = Inr ranges"
    using parse by (auto simp: parse_layout_def Let_def split: if_splits)
  note r = parse_ranges_tiles [OF ps]
  obtain s0 stages where st: "ranges = (s0, ce, True) # stages" "stages \<noteq> []" "fst (hd stages) = ce" "fst (snd (last stages)) = n"
      "k = int (length stages)" "sizes = map (\<lambda>(s, e, k). e - s) stages"
    using top by (auto simp: topology_from_catalog_def split: list.splits if_splits)
  have chain: "\<forall>i. Suc i < length stages \<longrightarrow> fst (stages ! Suc i) = fst (snd (stages ! i))"
    using r st(1) by (metis Suc_less_eq length_Cons nth_Cons_Suc)
  have pos: "\<forall>(s, e, k) \<in> set stages. s < e" and s0: "s0 < ce" using r st(1) by auto
  have flags: "\<not> snd (snd x)" if x: "x \<in> set stages" for x
  proof -
    obtain i where "i < length stages" "stages ! i = x" using x by (meson in_set_conv_nth)
    then show ?thesis using r st(1) by (metis Suc_less_eq length_Cons nat.distinct(1) nth_Cons_Suc)
  qed
  have sum: "sum_list sizes = n - ce" using sizes_telescope [OF chain st(2)] st by simp
  have one: "1 \<le> x" if "x \<in> set sizes" for x using that pos st(6) by auto
  then have "1 \<le> min_list sizes" using st(2,6) by (subst min_list_Min) auto
  moreover have "ce < n"
  proof -
    have "sizes \<noteq> []" using st by simp
    then obtain y ys where "sizes = y # ys" by (cases sizes) auto
    then have "1 \<le> y" "0 \<le> sum_list ys" using one by (auto intro!: sum_list_nonneg) (smt (verit) list.set_intros(2) one)
    then show ?thesis using sum \<open>sizes = y # ys\<close> by simp
  qed
  ultimately have built: "\<exists>t. mk_topology n ce k fp repl dead creg lat (Some sizes) = Inr t" if "0 \<le> fst (hd ranges)"
    using that s0 sum st by (cases stages) (auto simp: mk_topology_def Let_def)
  have t: "map (\<lambda>s. (s_start s, s_end s, False)) (slots t) = tl ranges"
    if "mk_topology n ce k fp repl dead creg lat (Some sizes) = Inr t" for t
  proof -
    have "slots t = mk_slots 0 ce sizes" using that by (auto simp: mk_topology_def Let_def split: if_splits)
    then have "map (\<lambda>s. (s_start s, s_end s)) (slots t) = map (\<lambda>(s, e, k). (s, e)) stages"
      using mk_slots_bounds [OF chain st(2,3)] st(6) by simp
    then have "map (\<lambda>(a, b). (a, b, False)) (map (\<lambda>s. (s_start s, s_end s)) (slots t)) = map (\<lambda>(a, b). (a, b, False)) (map (\<lambda>(s, e, k). (s, e)) stages)"
      by simp
    moreover have "map (\<lambda>(a, b). (a, b, False)) (map (\<lambda>(s, e, k). (s, e)) stages) = stages"
    proof -
      have "(a, b, True) \<notin> set stages" for a b using flags [of "(a, b, True)"] by auto
      then show ?thesis by (auto intro!: map_idI)
    qed
    ultimately show ?thesis by (simp add: st(1) comp_def)
  qed
  show ?thesis using built t by blast
qed

text \<open>C12. The slots of a mesh and the published artifacts cannot drift apart: from one layout text, the coordinator's
  topology has exactly the layout's stages as its slots, in order; reading the manifest that the publisher writes
  from it gives the layout back; and whichever slot a node is assigned, the manifest lists an artifact for exactly
  its layers under the directory the node looks for.  Such a topology can always be built when the layout does not
  start below layer 0.\<close>

theorem catalog_slots_are_published:
  assumes parse: "parse_layout spec = Inr ranges" and top: "topology_from_catalog n ranges = Inr (ce, k, sizes)"
    and man: "build_manifest model_id ranges revision slot_meta = Inr man" "extras_only slot_meta"
  shows "(0 \<le> fst (hd ranges) \<longrightarrow> (\<exists>t. mk_topology n ce k fp repl dead creg lat (Some sizes) = Inr t)) \<and>
    catalog_layout files (CatalogManifest (JObj man)) = Inr ranges \<and>
    (\<forall>t. mk_topology n ce k fp repl dead creg lat (Some sizes) = Inr t \<longrightarrow>
       map (\<lambda>s. (s_start s, s_end s, False)) (slots t) = tl ranges \<and>
       (\<forall>s \<in> set (slots t). \<exists>vs b. map_of man ''slots'' = Some (JList vs) \<and> JObj b \<in> set vs \<and>
          map_of b ''dir'' = Some (JStr (slot_dirname (s_start s) (s_end s) False)) \<and>
          slot_of_json (JObj b) = Inr (s_start s, s_end s, False)))"
proof -
  note lt = layout_topology [OF parse top, of fp repl dead creg lat]
  have ne: "ranges \<noteq> []" using top by (auto simp: topology_from_catalog_def)
  have pub: "\<exists>vs b. map_of man ''slots'' = Some (JList vs) \<and> JObj b \<in> set vs \<and>
          map_of b ''dir'' = Some (JStr (slot_dirname (s_start s) (s_end s) False)) \<and>
          slot_of_json (JObj b) = Inr (s_start s, s_end s, False)"
    if "mk_topology n ce k fp repl dead creg lat (Some sizes) = Inr t" "s \<in> set (slots t)" for t s
  proof -
    have "(s_start s, s_end s, False) \<in> set (map (\<lambda>s. (s_start s, s_end s, False)) (slots t))" using that(2) by simp
    then have in_r: "(s_start s, s_end s, False) \<in> set ranges" using lt that(1) ne by (metis list.set_sel(2))
    obtain b where b: "manifest_slot slot_meta (s_start s, s_end s, False) = JObj b"
        "map_of b ''dir'' = Some (JStr (slot_dirname (s_start s) (s_end s) False))" "slot_of_json (JObj b) = Inr (s_start s, s_end s, False)"
      using slot_of_manifest [OF man(2), of "s_start s" "s_end s" False] by auto
    have "map_of man ''slots'' = Some (JList (map (manifest_slot slot_meta) ranges))"
      using man(1) ne by (auto simp: build_manifest_def)
    moreover have "JObj b \<in> set (map (manifest_slot slot_meta) ranges)" using in_r b(1) by (metis image_eqI list.set_map)
    ultimately show ?thesis using b(2,3) by blast
  qed
  show ?thesis using lt manifest_roundtrip [OF man(2,1)] pub by blast
qed

subsection \<open>Slices of a checkpoint\<close>

definition layer_name :: "nat \<Rightarrow> string \<Rightarrow> string" where
  "layer_name i part = layer_prefix @ map char_of (decimal i) @ CHR ''.'' # part"

lemma dec_digit_decimal: "d \<in> set (decimal i) \<Longrightarrow> dec_digit (char_of d) = Some (d - 48)"
  using decimal_digits [of i] by (auto simp: dec_digit_def Let_def of_char_of)

lemma int_digits_run:
  assumes "\<forall>d \<in> set ds. 48 \<le> d \<and> d < (58 :: nat)"
  shows "int_digits (map char_of ds) after acc = (if ds = [] \<and> \<not> after then None else Some (foldl (\<lambda>a d. a * 10 + (d - 48)) acc ds))"
  using assms
proof (induction ds arbitrary: after acc)
  case (Cons d ds)
  then have "dec_digit (char_of d) = Some (d - 48)" by (simp add: dec_digit_def Let_def of_char_of)
  then show ?case using Cons by simp
qed simp

lemma run_ends: "\<forall>c \<in> set xs. P c \<Longrightarrow> \<not> P d \<Longrightarrow> takeWhile P (xs @ d # ys) = xs \<and> dropWhile P (xs @ d # ys) = d # ys"
  by (induction xs) auto

lemma match_layer_name:
  assumes "CHR 0x0A \<notin> set part"
  shows "match_layer (layer_name i part) = Some (i, CHR ''.'' # part)"
proof -
  let ?ds = "map (char_of :: nat \<Rightarrow> char) (decimal i)" and ?P = "\<lambda>c. dec_digit c \<noteq> None"
  have all: "\<forall>c \<in> set ?ds. ?P c" using dec_digit_decimal [of _ i] by auto
  have dot: "\<not> ?P CHR ''.''" by (simp add: dec_digit_def)
  have tk: "takeWhile ?P (?ds @ CHR ''.'' # part) = ?ds" "dropWhile ?P (?ds @ CHR ''.'' # part) = CHR ''.'' # part"
    using run_ends [of ?ds ?P, OF all dot] by blast+
  have ne: "?ds \<noteq> []" using decimal_digits [of i] by simp
  have "int_digits ?ds False 0 = Some i"
    using int_digits_run [of "decimal i" False 0] decimal_digits [of i] decimal_value [of i] by (simp add: digits_value_def)
  moreover have "last (CHR ''.'' # part) \<noteq> CHR 0x0A" using assms by (cases part) (auto dest: last_in_set)
  ultimately show ?thesis
    using assms tk ne dot by (simp add: match_layer_def layer_name_def Let_def del: takeWhile_append dropWhile_append)
qed

lemma int_text_nat: "int_text (int i) = map char_of (decimal i)"
  by (simp add: int_text_def)

lemma relayer_layer_name:
  assumes "CHR 0x0A \<notin> set part"
  shows "relayer_name (layer_name i part) start end =
    (if start \<le> int i \<and> int i < end then Some (layer_name (nat (int i - start)) part) else None)"
proof (cases "start \<le> int i \<and> int i < end")
  case True
  then obtain m where m: "int i - start = int m" by (metis diff_ge_0_iff_ge nonneg_int_cases)
  then show ?thesis using True by (simp add: relayer_name_def match_layer_name [OF assms] int_text_nat layer_name_def [of m])
next
  case False
  then show ?thesis by (auto simp: relayer_name_def match_layer_name [OF assms])
qed

lemma layer_name_inj:
  assumes "CHR 0x0A \<notin> set part" "CHR 0x0A \<notin> set part'"
  shows "layer_name i part = layer_name j part' \<longleftrightarrow> i = j \<and> part = part'"
proof
  assume "layer_name i part = layer_name j part'"
  then have "Some (i, CHR ''.'' # part) = Some (j, CHR ''.'' # part')"
    unfolding match_layer_name [OF assms(1), symmetric] match_layer_name [OF assms(2), symmetric] by (rule arg_cong)
  then show "i = j \<and> part = part'" by simp
qed simp

text \<open>What a slice makes of a name: \<open>None\<close> when it drops it.\<close>

definition slice_name :: "int \<Rightarrow> int \<Rightarrow> bool \<Rightarrow> bool \<Rightarrow> string \<Rightarrow> string option" where
  "slice_name lo hi kn kh name =
     (case relayer_name name lo hi of
        Some sub \<Rightarrow> Some sub | None \<Rightarrow> if keep_nonlayer name kn kh then Some name else None)"

lemma kept_names:
  "kept_tensor_names names lo hi kn kh = foldl (\<lambda>d (k, v). dset k v d) [] (List.map_filter (\<lambda>n. map_option (Pair n) (slice_name lo hi kn kh n)) names)"
proof -
  have "foldl (\<lambda>kept name. case relayer_name name lo hi of Some sub \<Rightarrow> dset name sub kept
          | None \<Rightarrow> if keep_nonlayer name kn kh then dset name name kept else kept) d names =
      foldl (\<lambda>d (k, v). dset k v d) d (List.map_filter (\<lambda>n. map_option (Pair n) (slice_name lo hi kn kh n)) names)" for d
    by (induction names arbitrary: d) (auto simp: slice_name_def List.map_filter_simps split: option.split)
  then show ?thesis by (simp add: kept_tensor_names_def)
qed

lemma fold_dset_keys: "fst ` set (foldl (\<lambda>d x. dset (g x) (h x) d) d0 xs) = fst ` set d0 \<union> g ` set xs"
proof (induction xs arbitrary: d0)
  case (Cons x xs)
  then show ?case by (simp add: dom_update)
qed simp

lemma fold_dset_lookup:
  assumes "inj_on g (set xs)" and "distinct xs"
  shows "map_of (foldl (\<lambda>d x. dset (g x) (h x) d) d0 xs) k =
    (if k \<in> g ` set xs then Some (h (the_inv_into (set xs) g k)) else map_of d0 k)"
  using assms
proof (induction xs rule: rev_induct)
  case (snoc x xs)
  have inj: "inj_on g (set xs)" and d: "distinct xs" "x \<notin> set xs" using snoc.prems by auto
  have at: "the_inv_into (set (xs @ [x])) g (g y) = y" if "y \<in> set (xs @ [x])" for y
    by (rule the_inv_into_f_f [OF snoc.prems(1) that])
  have at': "the_inv_into (set xs) g (g y) = y" if "y \<in> set xs" for y
    by (rule the_inv_into_f_f [OF inj that])
  have ne: "g y \<noteq> g x" if "y \<in> set xs" for y
    using snoc.prems(1) d(2) that by (auto simp: inj_on_def)
  show ?case
  proof (cases "k = g x")
    case True
    then show ?thesis using at [of x] by (simp add: dict_simps)
  next
    case False
    show ?thesis
    proof (cases "k \<in> g ` set xs")
      case True
      then obtain y where y: "y \<in> set xs" "k = g y" by blast
      then show ?thesis using snoc.IH [OF inj d(1)] False at [of y] at' [of y] by (simp add: dict_simps)
    qed (use snoc.IH [OF inj d(1)] False in \<open>simp add: dict_simps\<close>)
  qed
qed simp

lemma remap_loop_keys:
  "fst ` set (fst (remap_loop ws lo hi kn kh out seen)) =
     fst ` set out \<union> {sub. \<exists>name \<in> fst ` set ws. slice_name lo hi kn kh name = Some sub}"
proof (induction ws lo hi kn kh out seen rule: remap_loop.induct)
  case (2 name shard ws lo hi kn kh out seen)
  show ?case
  proof (cases "relayer_name name lo hi")
    case None
    show ?thesis
    proof (cases "keep_nonlayer name kn kh")
      case True
      then have "slice_name lo hi kn kh name = Some name" using None by (simp add: slice_name_def)
      then show ?thesis using 2(1) [OF None] None True by (auto simp: dom_update)
    next
      case False
      then have "slice_name lo hi kn kh name = None" using None by (simp add: slice_name_def)
      then show ?thesis using 2(1) [OF None] None False by auto
    qed
  next
    case (Some sub)
    then have "slice_name lo hi kn kh name = Some sub" by (simp add: slice_name_def)
    then show ?thesis using 2(2) [OF Some] Some by (auto simp: dom_update)
  qed
qed simp

lemma kept_pairs:
  assumes "distinct names"
  shows "kept_tensor_names names lo hi kn kh =
    map (\<lambda>n. (n, the (slice_name lo hi kn kh n))) (filter (\<lambda>n. slice_name lo hi kn kh n \<noteq> None) names)"
proof -
  let ?f = "slice_name lo hi kn kh"
  have m: "List.map_filter (\<lambda>n. map_option (Pair n) (?f n)) names = map (\<lambda>n. (n, the (?f n))) (filter (\<lambda>n. ?f n \<noteq> None) names)"
    by (auto simp: List.map_filter_def option.map_sel comp_def intro!: map_cong filter_cong)
  have "dict_ok (map (\<lambda>n. (n, the (?f n))) (filter (\<lambda>n. ?f n \<noteq> None) names))" using assms by (simp add: comp_def)
  from dict_update_empty [OF this] show ?thesis unfolding kept_names m dict_update_def .
qed

text \<open>The tensors of a slice, and that the slicer's assertion never fails.\<close>

lemma slice_tensors_new:
  assumes "dict_ok wm"
  shows "slice_tensors tensor wm lo hi kn kh =
    bindE (remap_weight_map wm lo hi kn kh) (\<lambda>_. Inr (foldl (\<lambda>d n. dset (the (slice_name lo hi kn kh n)) (tensor n) d) []
       (filter (\<lambda>n. slice_name lo hi kn kh n \<noteq> None) (map fst wm))))"
proof -
  let ?f = "slice_name lo hi kn kh"
  let ?ns = "filter (\<lambda>n. ?f n \<noteq> None) (map fst wm)"
  let ?new = "foldl (\<lambda>d n. dset (the (?f n)) (tensor n) d) [] ?ns"
  have fold: "foldl (\<lambda>d (orig, sub). dset sub (tensor orig) d) d0 (map (\<lambda>n. (n, the (?f n))) xs) =
      foldl (\<lambda>d n. dset (the (?f n)) (tensor n) d) d0 xs" for d0 and xs
    by (induction xs arbitrary: d0) auto
  have k: "fst ` set ?new = {sub. \<exists>name \<in> fst ` set wm. ?f name = Some sub}"
    unfolding fold_dset_keys by force
  have "set (map fst index) = set (map fst ?new)" if i: "remap_weight_map wm lo hi kn kh = Inr index" for index
  proof -
    have "index = fst (remap_loop wm lo hi kn kh [] False)"
      using i by (auto simp: remap_weight_map_def split: if_splits prod.splits)
    then show ?thesis using remap_loop_keys [of wm lo hi kn kh "[]" False] k by simp
  qed
  then show ?thesis
    by (cases "remap_weight_map wm lo hi kn kh")
      (simp_all add: slice_tensors_def Let_def kept_pairs [OF assms] fold)
qed

lemma remap_range: "remap_weight_map wm lo hi kn kh = Inr index \<Longrightarrow> 0 \<le> lo \<and> lo \<le> hi"
  by (simp add: remap_weight_map_def split: if_splits)

text \<open>A checkpoint whose layer numbers have no leading zeros, as every one does.\<close>

definition plain_names :: "string list \<Rightarrow> bool" where
  "plain_names names \<longleftrightarrow> (\<forall>n \<in> set names. \<forall>i more_text. match_layer n = Some (i, more_text) \<longrightarrow>
     (\<exists>part. more_text = CHR ''.'' # part \<and> CHR 0x0A \<notin> set part \<and> n = layer_name i part))"

lemma match_slice_name:
  assumes "plain_names names" and n: "n \<in> set names" and f: "slice_name lo hi kn kh n = Some sub"
  shows "(\<exists>i part. n = layer_name i part \<and> CHR 0x0A \<notin> set part \<and> lo \<le> int i \<and> int i < hi \<and> sub = layer_name (nat (int i - lo)) part)
    \<or> (sub = n \<and> match_layer n = None \<and> keep_nonlayer n kn kh) \<or> (sub = n \<and> (\<exists>i part. n = layer_name i part \<and> CHR 0x0A \<notin> set part) \<and> keep_nonlayer n kn kh)"
proof (cases "match_layer n")
  case None
  then show ?thesis using f by (auto simp: slice_name_def relayer_name_def split: if_splits)
next
  case (Some p)
  obtain i t where "p = (i, t)" by (cases p)
  then obtain part where part: "n = layer_name i part" "CHR 0x0A \<notin> set part" using assms(1) n Some unfolding plain_names_def by blast
  then show ?thesis using f relayer_layer_name [OF part(2), of i lo hi] by (auto simp: slice_name_def split: if_splits)
qed

lemma layer_not_head: "\<not> keep_nonlayer (layer_name i part) kn kh"
  by (simp add: keep_nonlayer_def layer_name_def layer_prefix_def)

lemma slice_name_inj:
  assumes "plain_names names"
  shows "inj_on (\<lambda>n. the (slice_name lo hi kn kh n)) (set (filter (\<lambda>n. slice_name lo hi kn kh n \<noteq> None) names))"
proof (rule inj_onI)
  fix m n assume m: "m \<in> set (filter (\<lambda>n. slice_name lo hi kn kh n \<noteq> None) names)"
    and n: "n \<in> set (filter (\<lambda>n. slice_name lo hi kn kh n \<noteq> None) names)"
    and eq: "the (slice_name lo hi kn kh m) = the (slice_name lo hi kn kh n)"
  then obtain sub where s: "slice_name lo hi kn kh m = Some sub" "slice_name lo hi kn kh n = Some sub" by auto
  consider (mm) i part j part' where "m = layer_name i part" "CHR 0x0A \<notin> set part" "lo \<le> int i" "sub = layer_name (nat (int i - lo)) part"
        "n = layer_name j part'" "CHR 0x0A \<notin> set part'" "lo \<le> int j" "sub = layer_name (nat (int j - lo)) part'"
    | (m1) i part where "CHR 0x0A \<notin> set part" "sub = layer_name i part" "match_layer sub = None"
    | (nn) "m = sub" "n = sub"
    using match_slice_name [OF assms _ s(1)] match_slice_name [OF assms _ s(2)] m n layer_not_head by auto
  then show "m = n"
  proof cases
    case mm
    then have "nat (int i - lo) = nat (int j - lo) \<and> part = part'" using layer_name_inj by metis
    then show ?thesis using mm by (simp add: eq_nat_nat_iff)
  next
    case m1
    then show ?thesis using match_layer_name by simp
  qed simp
qed

lemma slice_lookup:
  assumes wm: "dict_ok wm" "plain_names (map fst wm)" and new: "slice_tensors tensor wm lo hi kn kh = Inr new"
    and part: "CHR 0x0A \<notin> set part"
  shows "map_of new (layer_name j part) =
    (if int j < hi - lo \<and> layer_name (nat lo + j) part \<in> fst ` set wm then Some (tensor (layer_name (nat lo + j) part)) else None)"
proof -
  let ?f = "slice_name lo hi kn kh" and ?n = "layer_name (nat lo + j) part"
  let ?ns = "filter (\<lambda>n. ?f n \<noteq> None) (map fst wm)"
  obtain index where index: "remap_weight_map wm lo hi kn kh = Inr index" and
    new': "new = foldl (\<lambda>d n. dset (the (?f n)) (tensor n) d) [] ?ns"
    using new slice_tensors_new [OF wm(1), of tensor lo hi kn kh] by (auto simp: bindE_Inr_iff)
  have lo: "0 \<le> lo" using remap_range [OF index] by simp
  note look = fold_dset_lookup [OF slice_name_inj [OF wm(2), of lo hi kn kh], of tensor "[]" "layer_name j part", folded new']
  have d: "distinct ?ns" using wm(1) by simp
  have named: "?f ?n = Some (layer_name j part) \<longleftrightarrow> int j < hi - lo"
    using relayer_layer_name [OF part, of "nat lo + j" lo hi] lo layer_not_head [of "nat lo + j" part kn kh]
    by (auto simp: slice_name_def nat_add_distrib)
  have only: "m = ?n" if m: "m \<in> set ?ns" "the (?f m) = layer_name j part" for m
  proof -
    have "?f m = Some (layer_name j part)" "m \<in> set (map fst wm)" using m by auto
    from match_slice_name [OF wm(2) this(2,1)] obtain i part' where
      i: "m = layer_name i part'" "CHR 0x0A \<notin> set part'" "lo \<le> int i" "layer_name j part = layer_name (nat (int i - lo)) part'"
      using match_layer_name [OF part, of j] layer_not_head by auto
    then have "j = nat (int i - lo) \<and> part = part'" using layer_name_inj [OF part i(2)] by blast
    then have "i = nat lo + j" using i(3) lo by simp
    then show ?thesis using i(1) \<open>j = nat (int i - lo) \<and> part = part'\<close> by simp
  qed
  show ?thesis
  proof (cases "int j < hi - lo \<and> ?n \<in> fst ` set wm")
    case True
    then have n: "?n \<in> set ?ns" "the (?f ?n) = layer_name j part" using named by auto
    then have "the_inv_into (set ?ns) (\<lambda>n. the (?f n)) (layer_name j part) = ?n"
      using the_inv_into_f_f [OF slice_name_inj [OF wm(2), of lo hi kn kh], of ?n] by simp
    moreover have "layer_name j part \<in> (\<lambda>n. the (?f n)) ` set ?ns" using n by (metis imageI)
    ultimately show ?thesis using look [OF d] True by simp
  next
    case False
    have "layer_name j part \<notin> (\<lambda>n. the (?f n)) ` set ?ns"
    proof
      assume "layer_name j part \<in> (\<lambda>n. the (?f n)) ` set ?ns"
      then obtain m where m: "m \<in> set ?ns" "the (?f m) = layer_name j part" by (elim imageE) simp
      then have "m = ?n" by (rule only)
      then show False using m False named by auto
    qed
    then show ?thesis using look [OF d] False by auto
  qed
qed

lemma layout_covers:
  assumes "parse_ranges prev first ps = Inr rs" and "rs \<noteq> []" "fst (hd rs) \<le> l" "l < fst (snd (last rs))"
  shows "\<exists>!r. r < length rs \<and> fst (rs ! r) \<le> l \<and> l < fst (snd (rs ! r))"
proof -
  note r = parse_ranges_tiles [OF assms(1)]
  define ss where "ss = map (\<lambda>(s, e, k). \<lparr>s_index = 0, s_start = s, s_end = e, s_holders = []\<rparr>) rs"
  have "tiles (fst (hd xs)) (fst (snd (last xs))) (map (\<lambda>(s, e, k). \<lparr>s_index = 0, s_start = s, s_end = e, s_holders = []\<rparr>) xs)"
    if "xs \<noteq> []" "\<forall>(s, e, k) \<in> set xs. s < e" "\<forall>i. Suc i < length xs \<longrightarrow> fst (xs ! Suc i) = fst (snd (xs ! i))" for xs :: "(int \<times> int \<times> bool) list"
    using that
  proof (induction xs)
    case (Cons x xs)
    obtain s e k where x: "x = (s, e, k)" by (cases x)
    have "fst (xs ! Suc i) = fst (snd (xs ! i))" if "Suc i < length xs" for i
      using Cons.prems(3) [rule_format, of "Suc i"] that by simp
    then have ih: "xs \<noteq> [] \<Longrightarrow> tiles (fst (hd xs)) (fst (snd (last xs))) (map (\<lambda>(s, e, k). \<lparr>s_index = 0, s_start = s, s_end = e, s_holders = []\<rparr>) xs)"
      using Cons.IH Cons.prems(2) by simp
    have "xs \<noteq> [] \<Longrightarrow> fst (hd xs) = e" using Cons.prems(3) [rule_format, of 0] x by (simp add: hd_conv_nth)
    then show ?case using ih Cons.prems(2) x by (cases "xs = []") auto
  qed simp
  then have "tiles (fst (hd rs)) (fst (snd (last rs))) ss" using r assms(2) by (simp add: ss_def)
  from tiles_unique_cover [OF this assms(3,4)] show ?thesis by (auto simp: ss_def split_beta)
qed

text \<open>C13. Cutting a checkpoint along a layout loses and moves no layer: every layer belongs to exactly one slice, and
  the tensors of local layer \<open>j\<close> in the slice of \<open>[s, e)\<close> are, part by part, the tensors of global layer \<open>s + j\<close> of
  the checkpoint, for \<open>j < e - s\<close>, and there are no others.  Cutting never fails on the slicer's own comparison of
  its index with its tensors.\<close>

theorem slices_hold_their_layers:
  assumes parse: "parse_layout spec = Inr ranges" and wm: "dict_ok wm" "plain_names (map fst wm)"
    and cut: "list_all2 (\<lambda>(s, e, kh) new. slice_tensors tensor wm s e False kh = Inr new) ranges news"
  shows "(\<forall>l. fst (hd ranges) \<le> l \<and> l < fst (snd (last ranges)) \<longrightarrow>
      (\<exists>!r. r < length ranges \<and> fst (ranges ! r) \<le> l \<and> l < fst (snd (ranges ! r)))) \<and>
    (\<forall>r < length ranges. \<forall>j part. CHR 0x0A \<notin> set part \<longrightarrow>
       (let (s, e, kh) = ranges ! r; name = layer_name (nat s + j) part
        in map_of (news ! r) (layer_name j part) =
             (if int j < e - s \<and> name \<in> fst ` set wm then Some (tensor name) else None))) \<and>
    (\<forall>s e kh. slice_tensors tensor wm s e False kh \<noteq> Inl AssertionError)"
proof -
  obtain ps where ps: "parse_ranges None True ps = Inr ranges" "ps \<noteq> []"
    using parse by (auto simp: parse_layout_def Let_def split: if_splits)
  then have "ranges \<noteq> []" using parse_ranges_tiles [OF ps(1)] by auto
  then have one: "\<forall>l. fst (hd ranges) \<le> l \<and> l < fst (snd (last ranges)) \<longrightarrow>
      (\<exists>!r. r < length ranges \<and> fst (ranges ! r) \<le> l \<and> l < fst (snd (ranges ! r)))"
    using layout_covers [OF ps(1)] by blast
  have two: "map_of (news ! r) (layer_name j part) =
      (if int j < e - s \<and> layer_name (nat s + j) part \<in> fst ` set wm then Some (tensor (layer_name (nat s + j) part)) else None)"
    if "r < length ranges" "ranges ! r = (s, e, kh)" "CHR 0x0A \<notin> set part" for r s e kh j part
  proof -
    have "slice_tensors tensor wm s e False kh = Inr (news ! r)" using list_all2_nthD [OF cut that(1)] that(2) by simp
    from slice_lookup [OF wm this that(3)] show ?thesis .
  qed
  have "remap_weight_map wm s e False kh \<noteq> Inl AssertionError" for s e kh
    by (simp add: remap_weight_map_def split: prod.split)
  then have "slice_tensors tensor wm s e False kh \<noteq> Inl AssertionError" for s e kh
    unfolding slice_tensors_new [OF wm(1)] by (cases "remap_weight_map wm s e False kh") auto
  then show ?thesis using one two by (auto simp: Let_def split: prod.split)
qed

subsection \<open>Checked slices\<close>

text \<open>The check of a downloaded slice against the published hash of its slot.\<close>

definition published_hash :: "slice_sources \<Rightarrow> string \<Rightarrow> string \<Rightarrow> string \<Rightarrow> bool" where
  "published_hash S repo sub h \<longleftrightarrow> so_verify S \<and> manifest_hash (so_manifest S repo) sub = Inr (JStr h) \<and> h \<noteq> []"

text \<open>C33. The integrity check of downloaded slices works once: when the manifest publishes a hash for the slot and nothing
  is in the slot's directory yet, a slice that the node goes on to serve either has that hash or was cut locally by the
  slicer.  But a download that fails the check stays linked in the directory; when the local slicer cannot run, the
  node stops with its error, and when it is started again it takes the rejected slice for a slice it already has.\<close>

theorem rejected_slice_is_reused:
  fixes start e kh work_dir
  defines "sub \<equiv> slot_dirname start e kh" and "dest \<equiv> work_dir @ ''/'' @ slot_dirname start e kh"
  assumes hash: "published_hash S repo sub h" and repo: "repo \<noteq> []" and none: "map_of st dest = None"
    and writes: "so_slice S start e kh \<noteq> Sliced None"
  shows "(\<forall>st1 d. resolve_submodel S start e work_dir kh (Some repo) st = (st1, Inr d) \<longrightarrow>
      (\<exists>b. d = dest \<and> weights st1 d = Some b \<and> (hex_of (sha256 b) = h \<or> so_slice S start e kh = Sliced (Some b)))) \<and>
    (\<forall>b err. so_download S repo sub = Inr (Some b) \<and> so_link S \<and> hex_of (sha256 b) \<noteq> h \<and> so_slice S start e kh = NoCheckpoint err \<longrightarrow>
      (\<exists>st1. resolve_submodel S start e work_dir kh (Some repo) st = (st1, Inl err) \<and>
        resolve_submodel S start e work_dir kh (Some repo) st1 = (st1, Inr dest) \<and> weights st1 dest = Some b))"
proof -
  have fresh: "\<not> has_weights st dest" using none by (simp add: has_weights_def weights_def)
  have rej: "slice_rejected S repo sub dest st' \<longleftrightarrow> \<not> verify_slice st' dest (Some h)" for st'
    using hash by (simp add: slice_rejected_def published_hash_def)
  have ver: "verify_slice (dset dest (Linked b) st) dest (Some h) \<longleftrightarrow> hex_of (sha256 b) = h" for b
    using hash by (simp add: verify_slice_def weights_def dict_simps published_hash_def)
  have dl: "try_download S repo start e kh dest st =
      (case so_download S repo sub of Inr (Some b) \<Rightarrow>
         if so_link S then (dset dest (Linked b) st, hex_of (sha256 b) = h) else (dpop dest st, False)
       | _ \<Rightarrow> (st, False))"
    using none by (auto simp: try_download_def artifact_subdir_def sub_def [symmetric] Let_def rej ver has_weights_def
        weights_def dict_simps split: sum.split option.split)
  have sliced: "weights (write_slice dest (Some b) st') dest = Some b" for b st'
    by (auto simp: write_slice_def weights_def dict_simps split: option.split slice_dir.split)
  have res: "resolve_submodel S start e work_dir kh (Some repo) st' =
      (if has_weights st' dest then (st', Inr dest)
       else case try_download S repo start e kh dest st' of
              (st1, ok) \<Rightarrow>
                if ok \<and> has_weights st1 dest then (st1, Inr dest)
                else (case local_slice S start e kh dest st1 of
                        (st2, Inl er) \<Rightarrow> (st2, Inl er)
                      | (st2, Inr _) \<Rightarrow> if has_weights st2 dest then (st2, Inr dest) else (st2, Inl RuntimeError)))" for st'
    using repo unfolding resolve_submodel_def Let_def dest_def by simp
  have linked: "weights (dset dest (Linked b) st) dest = Some b" for b by (simp add: weights_def dict_simps)
  have local: "\<exists>b. d = dest \<and> weights st1 d = Some b \<and> so_slice S start e kh = Sliced (Some b)"
    if "(case local_slice S start e kh dest st' of (st2, Inl er) \<Rightarrow> (st2, Inl er)
          | (st2, Inr _) \<Rightarrow> if has_weights st2 dest then (st2, Inr dest) else (st2, Inl RuntimeError)) = (st1, Inr d)" for st' st1 d
    using that writes sliced by (auto simp: local_slice_def split: slicing.splits if_splits option.splits)
  have safe: "\<exists>b. d = dest \<and> weights st1 d = Some b \<and> (hex_of (sha256 b) = h \<or> so_slice S start e kh = Sliced (Some b))"
    if r: "resolve_submodel S start e work_dir kh (Some repo) st = (st1, Inr d)" for st1 d
  proof (cases "\<exists>b. so_download S repo sub = Inr (Some b) \<and> so_link S \<and> hex_of (sha256 b) = h")
    case True
    then obtain b where "try_download S repo start e kh dest st = (dset dest (Linked b) st, True)" "hex_of (sha256 b) = h"
      using dl by auto
    then show ?thesis using r fresh linked [of b] by (auto simp: res has_weights_def)
  next
    case False
    then obtain st' where "try_download S repo start e kh dest st = (st', False)"
      using dl by (auto split: sum.splits option.splits if_splits)
    then show ?thesis using r fresh local [of st' st1 d] by (auto simp: res)
  qed
  have reuse: "resolve_submodel S start e work_dir kh (Some repo) st = (dset dest (Linked b) st, Inl err) \<and>
      resolve_submodel S start e work_dir kh (Some repo) (dset dest (Linked b) st) = (dset dest (Linked b) st, Inr dest)"
    if "so_download S repo sub = Inr (Some b)" "so_link S" "hex_of (sha256 b) \<noteq> h" "so_slice S start e kh = NoCheckpoint err" for b err
    using that fresh linked [of b] by (simp add: res dl local_slice_def) (simp add: has_weights_def)
  show ?thesis using safe reuse linked by blast
qed

subsection \<open>A small catalog\<close>

lemma demo_layout: "parse_layout ''0:2,2:4'' = Inr [(0, 2, True), (2, 4, False)]"
  by (simp add: parse_layout_def Let_def parse_range_def parse_int_def py_strip_def py_space_def max_int_digits_def dec_digit_def)

lemma catalog_slots_are_published_witness:
  "\<exists>t man. mk_topology 4 2 1 ''fp'' 1 30 None False (Some [2]) = Inr t \<and> map (\<lambda>s. (s_start s, s_end s, False)) (slots t) = [(2, 4, False)] \<and>
     build_manifest ''m'' [(0, 2, True), (2, 4, False)] None [] = Inr man \<and>
     catalog_layout (\<lambda>_. None) (CatalogManifest (JObj man)) = Inr [(0, 2, True), (2, 4, False)]"
proof -
  let ?r = "[(0, 2, True), (2, 4, False)] :: (int \<times> int \<times> bool) list"
  have t: "topology_from_catalog 4 ?r = Inr (2, 1, [2])" by (simp add: topology_from_catalog_def)
  obtain man where man: "build_manifest ''m'' ?r None [] = Inr man" by (simp add: build_manifest_def)
  have e: "extras_only []" by (simp add: extras_only_def)
  note c = catalog_slots_are_published [OF demo_layout t man e, of "''fp''" 1 30 None False "\<lambda>_. None"]
  then obtain t where "mk_topology 4 2 1 ''fp'' 1 30 None False (Some [2]) = Inr t" by auto
  then show ?thesis using c man by auto
qed

definition demo_index :: "(string, string) dict" where
  "demo_index = [(layer_name 0 ''w'', ''f''), (layer_name 3 ''w'', ''f''), (''lm_head.weight'', ''f'')]"

lemma demo_head: "match_layer ''lm_head.weight'' = None"
  by (simp add: match_layer_def layer_prefix_def)

lemma demo_plain: "dict_ok demo_index \<and> plain_names (map fst demo_index)"
proof -
  have "layer_name 0 ''w'' \<noteq> layer_name 3 ''w''" by (simp add: layer_name_inj)
  moreover have "layer_name i part \<noteq> ''lm_head.weight''" for i part by (simp add: layer_name_def layer_prefix_def)
  moreover have "match_layer (layer_name i ''w'') = Some (i, ''.w'')" for i using match_layer_name [of "''w''" i] by simp
  ultimately show ?thesis by (auto simp: demo_index_def plain_names_def demo_head)
qed

lemma demo_cut:
  "\<exists>new. slice_tensors tensor demo_index 0 2 False True = Inr new" "\<exists>new. slice_tensors tensor demo_index 2 4 False False = Inr new"
proof -
  have r: "relayer_name (layer_name i ''w'') lo hi = (if lo \<le> int i \<and> int i < hi then Some (layer_name (nat (int i - lo)) ''w'') else None)" for i lo hi
    by (rule relayer_layer_name) simp
  have h: "relayer_name ''lm_head.weight'' lo hi = None" for lo hi by (simp add: relayer_name_def demo_head)
  show "\<exists>new. slice_tensors tensor demo_index 0 2 False True = Inr new" "\<exists>new. slice_tensors tensor demo_index 2 4 False False = Inr new"
    using demo_plain unfolding slice_tensors_new [OF conjunct1 [OF demo_plain]]
    by (simp_all add: remap_weight_map_def demo_index_def r h layer_not_head split: prod.split)
qed

lemma slices_hold_their_layers_witness:
  "\<exists>a b. slice_tensors id demo_index 0 2 False True = Inr a \<and> slice_tensors id demo_index 2 4 False False = Inr b \<and>
     map_of a (layer_name 0 ''w'') = Some (layer_name 0 ''w'') \<and> map_of b (layer_name 1 ''w'') = Some (layer_name 3 ''w'') \<and>
     map_of b (layer_name 0 ''w'') = None"
proof -
  obtain a b where ab: "slice_tensors id demo_index 0 2 False True = Inr a" "slice_tensors id demo_index 2 4 False False = Inr b"
    using demo_cut [of id] by blast
  let ?r = "[(0, 2, True), (2, 4, False)] :: (int \<times> int \<times> bool) list"
  have "list_all2 (\<lambda>(s, e, kh) new. slice_tensors id demo_index s e False kh = Inr new) ?r [a, b]" using ab by simp
  note c = slices_hold_their_layers [OF demo_layout conjunct1 [OF demo_plain] conjunct2 [OF demo_plain] this, THEN conjunct2, THEN conjunct1]
  have w: "CHR 0x0A \<notin> set ''w''" by simp
  have "map_of a (layer_name 0 ''w'') = (if layer_name 0 ''w'' \<in> fst ` set demo_index then Some (layer_name 0 ''w'') else None)"
    using c [rule_format, of 0 "''w''" 0] by (simp add: Let_def)
  moreover have "map_of b (layer_name j ''w'') = (if int j < 2 \<and> layer_name (2 + j) ''w'' \<in> fst ` set demo_index then Some (layer_name (2 + j) ''w'') else None)" for j
    using c [rule_format, of 1 "''w''" j] by (simp add: Let_def)
  note this [of 0] this [of 1]
  ultimately show ?thesis using ab by (auto simp: demo_index_def layer_name_inj) (auto simp: layer_name_def layer_prefix_def)
qed

definition demo_sources :: slice_sources where
  "demo_sources = \<lparr>so_download = (\<lambda>_ _. Inr (Some [1])),
     so_manifest = (\<lambda>_. Inr (JObj [(''slots'', JList [JObj [(''dir'', JStr ''sub-2-4''), (''sha256'', JStr ''00'')]])])),
     so_slice = (\<lambda>_ _ _. NoCheckpoint OSError), so_link = True, so_verify = True\<rparr>"

lemma rejected_slice_is_reused_witness:
  "\<exists>st1. resolve_submodel demo_sources 2 4 ''/root'' False (Some ''repo'') [] = (st1, Inl OSError) \<and>
     resolve_submodel demo_sources 2 4 ''/root'' False (Some ''repo'') st1 = (st1, Inr ''/root/sub-2-4'') \<and>
     weights st1 ''/root/sub-2-4'' = Some [1]"
proof -
  have d: "slot_dirname 2 4 False = ''sub-2-4''" by (simp add: slot_dirname_def int_text_def decimal.simps char_of_def bit_0)
  have p: "published_hash demo_sources ''repo'' (slot_dirname 2 4 False) ''00''"
    by (simp add: published_hash_def demo_sources_def manifest_hash_def d)
  have h: "hex_of (sha256 [1]) \<noteq> ''00''"
  proof -
    have "length (hex_of (sha256 [1])) = 64" by (simp add: hex_of_def length_concat comp_def sum_list_triv)
    then show ?thesis by auto
  qed
  have "map_of [] (''/root'' @ ''/'' @ slot_dirname 2 4 False) = (None :: slice_dir option)" by simp
  from rejected_slice_is_reused [OF p _ this] show ?thesis using h by (simp add: demo_sources_def d)
qed

end
