(* ===== verification/Api.thy ===== *)
theory Api
  imports Catalog Scheduler Tree_Decode
begin

section \<open>The HTTP front end\<close>

text \<open>
  \<open>engine/api.py\<close>: the mesh and the coordinator built from the environment, the tool calls read out of
  a generated text, and the handler of a completion request with its choice of a decoder, the carrying
  over of a session between orchestrators, and batch mode.  An environment maps names to texts.  The
  chat template with the tokenizer and the JSON text functions are parameters; the framing of HTTP,
  time stamps and logging are left out.
\<close>

subsection \<open>The environment\<close>

type_synonym environ = "(string, string) dict"

definition env_need :: "environ \<Rightarrow> string \<Rightarrow> string result" where
  "env_need env k = (case map_of env k of None \<Rightarrow> Inl KeyError | Some v \<Rightarrow> Inr v)"

definition env_int :: "environ \<Rightarrow> string \<Rightarrow> string \<Rightarrow> int result" where
  "env_int env k dflt = parse_int (dget env k dflt)"

definition env_flag :: "environ \<Rightarrow> string \<Rightarrow> bool" where
  "env_flag env k \<longleftrightarrow> map_of env k = Some ''1''"

text \<open>\<open>{x.strip() for x in s.split(",") if x.strip()} or None\<close>.\<close>

definition name_set :: "string \<Rightarrow> string list option" where
  "name_set s =
     (let xs = remdups (filter (\<lambda>x. x \<noteq> []) (map py_strip (split_char CHR '','' (py_strip s))))
      in if xs = [] then None else Some xs)"

definition stage_addr :: "string \<Rightarrow> (string \<times> int) result" where
  "stage_addr a =
     (case split_char CHR '':'' a of
        [h, p] \<Rightarrow> bindE (parse_int p) (\<lambda>n. Inr (h, n))
      | _ \<Rightarrow> Inl ValueError)"

record coord_args =
  ca_model :: string
  ca_stages :: "(string \<times> int) list"
  ca_key :: bytes
  ca_device :: string
  ca_local :: "int list option"
  ca_draft :: "string option"
  ca_shard :: bool
  ca_other_device :: string
  ca_quant :: string
  ca_submodel :: string
  ca_concurrency :: int
  ca_chain :: bool

definition build_coordinator :: "environ \<Rightarrow> coord_args result" where
  "build_coordinator env =
     bindE (bindE (env_need env ''CIRCUIT_KEY'') fromhex) (\<lambda>key.
     bindE (mapE stage_addr (filter (\<lambda>a. a \<noteq> []) (split_char CHR '','' (dget env ''CIRCUIT_STAGES'' [])))) (\<lambda>stages.
     bindE (let ll = dget env ''CIRCUIT_LOCAL_LAYERS'' []
            in if ll = [] then Inr None else bindE (mapE parse_int (split_char CHR '':'' ll)) (\<lambda>xs. Inr (Some xs))) (\<lambda>ll.
     bindE (env_need env ''CIRCUIT_MODEL'') (\<lambda>model.
     bindE (env_int env ''CIRCUIT_MAX_CONCURRENCY'' ''1'') (\<lambda>conc.
       Inr \<lparr>ca_model = model, ca_stages = stages, ca_key = key, ca_device = dget env ''CIRCUIT_DEVICE'' ''cuda'',
            ca_local = ll,
            ca_draft = (let d = dget env ''CIRCUIT_DRAFT'' [] in if d = [] then None else Some d),
            ca_shard = env_flag env ''CIRCUIT_SHARD'', ca_other_device = dget env ''CIRCUIT_OTHER_DEVICE'' ''cpu'',
            ca_quant = dget env ''CIRCUIT_QUANT'' [], ca_submodel = dget env ''CIRCUIT_COORD_SUBMODEL'' [],
            ca_concurrency = conc, ca_chain = env_flag env ''CIRCUIT_CHAIN''\<rparr>)))))"

subsection \<open>The control plane from the environment\<close>

text \<open>What the machine has: the number in a text, for \<open>float\<close>; the JSON files; the registry's state file; and
  whether it can be written.\<close>

record machine =
  mc_float :: "string \<Rightarrow> rat result"
  mc_files :: "string \<Rightarrow> json result option"
  mc_state :: "string \<Rightarrow> saved_state option"
  mc_disk_ok :: bool

record mesh_setup =
  ms_reg :: registry
  ms_host :: string
  ms_port :: int
  ms_reap :: rat
  ms_verify :: bool

text \<open>\<open>int(ll.split(":")[1])\<close>.\<close>

definition second_bound :: "string \<Rightarrow> int result" where
  "second_bound ll = (case split_char CHR '':'' ll of _ # b # _ \<Rightarrow> parse_int b | _ \<Rightarrow> Inl IndexError)"

text \<open>The end of the coordinator's layers, the number of stages and their sizes: from the catalog, or from the
  capacity of a node, or as configured.\<close>

definition mesh_layout :: "machine \<Rightarrow> environ \<Rightarrow> int \<Rightarrow> int \<Rightarrow> int \<Rightarrow> (int \<times> int \<times> int list option) result" where
  "mesh_layout W env n_layers coord_end n_stages =
     (let catalog = dget env ''CIRCUIT_MESH_CATALOG'' []; cap = dget env ''CIRCUIT_MESH_NODE_CAP'' []
      in if catalog \<noteq> [] then
           bindE (catalog_layout (mc_files W) (CatalogText catalog)) (\<lambda>ranges.
           bindE (topology_from_catalog n_layers ranges) (\<lambda>(ce, k, sizes). Inr (ce, k, Some sizes)))
         else if cap \<noteq> [] then
           bindE (parse_int cap) (\<lambda>c.
           bindE (plan_stages (n_layers - coord_end) (replicate (nat (n_layers - coord_end)) c) 1) (\<lambda>k.
             Inr (coord_end, k, None)))
         else Inr (coord_end, n_stages, None))"

definition build_mesh :: "machine \<Rightarrow> environ \<Rightarrow> mesh_setup option result" where
  "build_mesh W env =
     (if \<not> env_flag env ''CIRCUIT_MESH'' then Inr None
      else
        bindE (let ll = dget env ''CIRCUIT_LOCAL_LAYERS'' [] in if ll = [] then Inr 0 else second_bound ll) (\<lambda>ce0.
        bindE (bindE (env_need env ''CIRCUIT_MESH_LAYERS'') parse_int) (\<lambda>n_layers.
        bindE (env_int env ''CIRCUIT_MESH_STAGES'' ''1'') (\<lambda>stages0.
        bindE (mesh_layout W env n_layers ce0 stages0) (\<lambda>(ce, n_stages, sizes).
        bindE (env_int env ''CIRCUIT_MESH_REPLICATION'' ''1'') (\<lambda>repl.
        bindE (mc_float W (dget env ''CIRCUIT_MESH_DEAD_AFTER'' ''30'')) (\<lambda>dead_after.
        bindE (bindE (let s = dget env ''CIRCUIT_MESH_SECRET'' [] in if s = [] then env_need env ''CIRCUIT_KEY'' else Inr s) fromhex) (\<lambda>secret.
        bindE (env_int env ''CIRCUIT_CONTROL_PORT'' ''18932'') (\<lambda>port.
        bindE (mc_float W (dget env ''CIRCUIT_REAP_INTERVAL'' ''10'')) (\<lambda>reap_s.
        bindE (mk_topology n_layers ce n_stages (dget env ''CIRCUIT_MESH_FP'' []) repl dead_after
                 (let r = dget env ''CIRCUIT_REGION'' [] in if r = [] then None else Some r)
                 (env_flag env ''CIRCUIT_ROUTE_LATENCY'') sizes) (\<lambda>t.
        bindE (env_int env ''CIRCUIT_BAN_AFTER'' ''3'') (\<lambda>ban.
          (let host = dget env ''CIRCUIT_CONTROL_HOST'' ''0.0.0.0''; path = dget env ''CIRCUIT_REGISTRY_STATE'' []
           in Inr (Some
             \<lparr>ms_reg = mk_registry t secret (dget env ''CIRCUIT_COORDINATOR_ADVERTISE'' host, port)
                (dget env ''CIRCUIT_COORD_PAYOUT_WALLET'' []) (name_set (dget env ''CIRCUIT_MESH_ALLOWLIST'' []))
                (name_set (dget env ''CIRCUIT_MESH_SEED_NODES'' [])) 1000 ban path (mc_state W path) (mc_disk_ok W),
              ms_host = host, ms_port = port, ms_reap = reap_s,
              ms_verify = env_flag env ''CIRCUIT_MESH_VERIFY_SIG''\<rparr>))))))))))))))"

subsection \<open>Tool calls\<close>

text \<open>A generated text is a list of code points.  \<open>find_sub\<close> splits it at the first occurrence.\<close>

fun find_sub :: "pystr \<Rightarrow> pystr \<Rightarrow> (pystr \<times> pystr) option" where
  "find_sub pat [] = (if pat = [] then Some ([], []) else None)"
| "find_sub pat (c # cs) =
     (if take (length pat) (c # cs) = pat then Some ([], drop (length pat) (c # cs))
      else map_option (\<lambda>(a, b). (c # a, b)) (find_sub pat cs))"

definition u_space :: "nat \<Rightarrow> bool" where
  "u_space c \<longleftrightarrow> c \<in> {9 .. 13} \<union> {28 .. 32} \<union> {133, 160, 5760} \<union> {8192 .. 8202} \<union> {8232, 8233, 8239, 8287, 12288}"

definition u_strip :: "pystr \<Rightarrow> pystr" where
  "u_strip s = rev (dropWhile u_space (rev (dropWhile u_space s)))"

definition open_tag :: pystr where "open_tag = codes ''<tool_call>''"
definition close_tag :: pystr where "close_tag = codes ''</tool_call>''"

lemma open_tag_pos: "open_tag \<noteq> []"
  by (simp add: open_tag_def codes_def)

lemma find_sub_eq: "find_sub pat s = Some (a, b) \<Longrightarrow> s = a @ pat @ b"
proof (induction pat s arbitrary: a rule: find_sub.induct)
  case (2 pat c cs)
  then show ?case
  proof (cases "take (length pat) (c # cs) = pat")
    case True
    then have "pat @ drop (length pat) (c # cs) = c # cs" by (metis append_take_drop_id)
    then show ?thesis using 2(2) True by simp
  qed (use 2 in auto)
qed (auto split: if_splits)

text \<open>The contents of the blocks, stripped, and the text outside of them.\<close>

function tool_blocks :: "pystr \<Rightarrow> pystr list \<times> pystr" where
  "tool_blocks text_in =
     (case find_sub open_tag text_in of
        None \<Rightarrow> ([], text_in)
      | Some (outside, rest) \<Rightarrow>
          (case find_sub close_tag rest of
             None \<Rightarrow> ([], text_in)
           | Some (content, after) \<Rightarrow>
               (case tool_blocks after of (bs, out) \<Rightarrow> (u_strip content # bs, outside @ out))))"
  by auto
termination
proof (relation "measure length", goal_cases)
  case (2 text_in p outside rest p' content after)
  then have "text_in = outside @ open_tag @ rest" "rest = content @ close_tag @ after" by (auto dest: find_sub_eq)
  then show ?case using open_tag_pos by simp
qed simp

declare tool_blocks.simps [simp del]

text \<open>What \<open>json.loads\<close> gives for the text of a call.\<close>

datatype tool_value = VNull | VBool bool | VNum pyfloat | VStr pystr | VList "tool_value list"
  | VObj "(pystr \<times> tool_value) list"

fun truth :: "tool_value \<Rightarrow> bool" where
  "truth VNull = False"
| "truth (VBool b) = b"
| "truth (VNum f) = (f \<noteq> Fin 0)"
| "truth (VStr s) = (s \<noteq> [])"
| "truth (VList vs) = (vs \<noteq> [])"
| "truth (VObj kvs) = (kvs \<noteq> [])"

record tool_json =
  tj_loads :: "pystr \<Rightarrow> tool_value result"
  tj_dumps :: "tool_value \<Rightarrow> pystr"

record tool_call =
  tc_index :: nat
  tc_name :: tool_value
  tc_args :: pystr

definition call_args :: "tool_json \<Rightarrow> (pystr \<times> tool_value) list \<Rightarrow> pystr" where
  "call_args T kvs =
     (case dget kvs (codes ''arguments'') (VObj []) of VStr s \<Rightarrow> s | v \<Rightarrow> tj_dumps T v)"

fun block_calls :: "tool_json \<Rightarrow> nat \<Rightarrow> pystr list \<Rightarrow> tool_call list result" where
  "block_calls T i [] = Inr []"
| "block_calls T i (b # bs) =
     (case tj_loads T b of
        Inl e \<Rightarrow> block_calls T (Suc i) bs
      | Inr (VObj kvs) \<Rightarrow>
          (let name = dget kvs (codes ''name'') VNull
           in if \<not> truth name then block_calls T (Suc i) bs
              else bindE (block_calls T (Suc i) bs) (\<lambda>cs.
                Inr (\<lparr>tc_index = i, tc_name = name, tc_args = call_args T kvs\<rparr> # cs)))
      | Inr _ \<Rightarrow> Inl AttributeError)"

definition parse_tool_calls :: "tool_json \<Rightarrow> pystr \<Rightarrow> (pystr option \<times> tool_call list) result" where
  "parse_tool_calls T text_in =
     (case tool_blocks text_in of
        (bs, out) \<Rightarrow> bindE (block_calls T 0 bs) (\<lambda>cs.
          Inr (let leftover = u_strip out in if leftover = [] then None else Some leftover, cs)))"

subsection \<open>Requests and answers\<close>

text \<open>A request has its path, what reading and parsing its body gives, the caller's address, and the internal
  key of its header.  An orchestrator's decoders are those of its coordinator; in batch mode
  \<open>ap_batch\<close> is what the scheduler puts on the request's queue.\<close>

record request =
  rq_path :: string
  rq_body :: "json result"
  rq_peer :: "string option"
  rq_header :: string

record ('e, 'l, 'p, 'f, 'd, 'c, 'k) api =
  ap_mesh :: "'e mesh_env"
  ap_coord :: "('e, 'l) coord"
  ap_prov :: "'p route_provider"
  ap_gen :: "'f gen_config"
  ap_draft :: "('d, 'f) draft_ops"
  ap_draft0 :: 'd
  ap_tree :: "('c, 'k) tree_config"
  ap_prompt :: "json \<Rightarrow> json option \<Rightarrow> int list result"
  ap_json :: tool_json
  ap_vars :: environ
  ap_batch :: "(int list \<Rightarrow> nat \<Rightarrow> sched_item list) option"

record completion =
  cp_content :: "pystr option"
  cp_calls :: "tool_call list"
  cp_finish :: string
  cp_tokens :: nat
  cp_circuit :: body

text \<open>\<open>Refused\<close> is a JSON error with its status; \<open>Chunks\<close> an event stream with the content of its chunks,
  closed by the end marks when the result is \<open>Inr\<close>; \<open>Dropped\<close> an exception that nothing catches before an
  answer is sent; \<open>Waits\<close> a queue that never ends; \<open>Outside\<close> a request that the model leaves out.\<close>

datatype answer = Refused nat | Completed completion | Chunks "pystr list" "unit result"
  | Dropped py_error | Waits | Outside

definition bget :: "string \<Rightarrow> json \<Rightarrow> json result" where
  "bget k v = (case v of JObj b \<Rightarrow> Inr (dget b k JNull) | _ \<Rightarrow> Inl AttributeError)"

text \<open>\<open>max(1, min(int(body.get("max_tokens") or 256), cap))\<close>.\<close>

definition max_tokens :: "environ \<Rightarrow> json \<Rightarrow> nat result" where
  "max_tokens env b =
     bindE (env_int env ''CIRCUIT_MAX_TOKENS_CAP'' ''2048'') (\<lambda>cap.
     bindE (bget ''max_tokens'' b) (\<lambda>v.
     bindE (json_int (if truthy v then v else JInt 256)) (\<lambda>n.
       Inr (nat (max 1 (min n cap))))))"

text \<open>The message of an answer; with tools the calls are read out of the text.\<close>

definition shape_message :: "tool_json \<Rightarrow> json option \<Rightarrow> pystr \<Rightarrow> (pystr option \<times> tool_call list) result" where
  "shape_message T tools txt = (case tools of None \<Rightarrow> Inr (Some txt, []) | Some _ \<Rightarrow> parse_tool_calls T txt)"

subsection \<open>Batch mode\<close>

text \<open>What is taken off the queue until it ends, and how it ends; \<open>None\<close> when it never does.\<close>

fun drain_queue :: "sched_item list \<Rightarrow> int list \<times> unit result option" where
  "drain_queue [] = ([], None)"
| "drain_queue (Done # xs) = ([], Some (Inr ()))"
| "drain_queue (Failed e # xs) = ([], Some (Inl e))"
| "drain_queue (Token t # xs) = (case drain_queue xs of (ts, r) \<Rightarrow> (t # ts, r))"

definition serve_batched ::
  "tool_json \<Rightarrow> (int list \<Rightarrow> pystr) \<Rightarrow> sched_item list \<Rightarrow> bool \<Rightarrow> json option \<Rightarrow> answer" where
  "serve_batched T decode items streaming tools =
     (case drain_queue items of
        (toks, None) \<Rightarrow> Waits
      | (toks, Some r) \<Rightarrow>
          if streaming then Chunks (text_pieces decode [] [] toks) r
          else (case r of
                  Inl e \<Rightarrow> Refused 500
                | Inr _ \<Rightarrow>
                    (case shape_message T tools (decode toks) of
                       Inl e \<Rightarrow> Dropped e
                     | Inr (content, calls) \<Rightarrow>
                         Completed \<lparr>cp_content = content, cp_calls = calls, cp_finish = (if calls = [] then ''stop'' else ''tool_calls''),
                 cp_tokens = length toks, cp_circuit = []\<rparr>)))"

subsection \<open>Streams\<close>

text \<open>A size of the draft tree: the request's, or the configured one.\<close>

fun tree_size :: "json \<Rightarrow> nat \<Rightarrow> nat option" where
  "tree_size (JInt i) dflt = (if i = 0 then Some dflt else if 0 < i then Some (nat i) else None)"
| "tree_size v dflt = (if truthy v then None else Some dflt)"

definition tree_request :: "body \<Rightarrow> ('c, 'k) tree_config \<Rightarrow> ('c, 'k) tree_config option" where
  "tree_request b G =
     (case (tree_size (dget b ''tree_nodes'' JNull) (tg_nodes G), tree_size (dget b ''tree_branch'' JNull) (tg_branch G),
            tree_size (dget b ''tree_depth'' JNull) (tg_depth G), tree_size (dget b ''tree_beam'' JNull) (tg_beam G)) of
        (Some n, Some r, Some d, Some w) \<Rightarrow> Some (G\<lparr>tg_nodes := n, tg_branch := r, tg_depth := d, tg_beam := w\<rparr>)
      | _ \<Rightarrow> None)"

definition spec_k :: "environ \<Rightarrow> body \<Rightarrow> int result" where
  "spec_k env b =
     (let v = dget b ''spec_k'' JNull in if truthy v then json_int v else env_int env ''CIRCUIT_SPEC_K'' ''4'')"

text \<open>The outer option is \<open>None\<close> when the decoder never comes back.\<close>

definition serve_stream ::
  "('e, 'l, 'p, 'f, 'd, 'c :: linorder, 'k) api \<Rightarrow> body \<Rightarrow> int list \<Rightarrow> nat \<Rightarrow> ('e, 'p) orch \<Rightarrow>
   (('e, 'p) orch \<times> answer) option" where
  "serve_stream A b ids n s =
     (case spec_k (ap_vars A) b of
        Inl e \<Rightarrow> Some (s, Chunks [] (Inl e))
      | Inr K \<Rightarrow>
          if (truthy (dget b ''tree'' JNull) \<or> env_flag (ap_vars A) ''CIRCUIT_TREE'') \<and> tg_draft (ap_tree A) \<noteq> None then
            (case tree_request b (ap_tree A) of
               None \<Rightarrow> Some (s, Outside)
             | Some G \<Rightarrow>
                 map_option (\<lambda>(s1, ps, r). (s1, Chunks ps r))
                   (generate_tree_stream (ap_mesh A) (ap_coord A) (ap_prov A) (ap_gen A) G ids n s))
          else if gc_has_draft (ap_gen A) then
            (if K < 0 then Some (s, Outside)
             else case generate_speculative_stream (ap_mesh A) (ap_coord A) (ap_prov A) (ap_gen A) (ap_draft A) (ap_draft0 A) (nat K) ids n s of
                    (s1, ps, r) \<Rightarrow> Some (s1, Chunks ps r))
          else (case generate_stream (ap_mesh A) (ap_coord A) (ap_prov A) (ap_gen A) True ids n s of
                  (s1, ps, r) \<Rightarrow> Some (s1, Chunks ps r)))"

subsection \<open>Carrying a session over\<close>

text \<open>Whether a caller may resume a session.  \<open>compare_digest\<close> takes ASCII texts only.\<close>

definition trusted_caller :: "environ \<Rightarrow> request \<Rightarrow> bool result" where
  "trusted_caller env q =
     (let ik = dget env ''CIRCUIT_ENGINE_INTERNAL_KEY'' [];
          ascii = list_all (\<lambda>c. (of_char c :: nat) < 128)
      in if ik = [] then Inr True
         else if rq_peer q \<in> Some ` set [''127.0.0.1'', ''::1'', ''::ffff:127.0.0.1''] then Inr True
         else if \<not> ascii (rq_header q) \<or> \<not> ascii ik then Inl TypeError
         else Inr (rq_header q = ik))"

text \<open>The token ids of a carried session; anything but whole numbers is left out.\<close>

fun json_ids :: "json \<Rightarrow> int list option" where
  "json_ids (JList vs) = those (map (\<lambda>v. case v of JInt i \<Rightarrow> Some i | _ \<Rightarrow> None) vs)"
| "json_ids _ = None"

text \<open>\<open>list(v)\<close>.\<close>

fun json_items :: "json \<Rightarrow> json list result" where
  "json_items (JList vs) = Inr vs"
| "json_items (JStr s) = Inr (map (\<lambda>c. JStr [c]) s)"
| "json_items (JObj kvs) = Inr (map (JStr \<circ> fst) kvs)"
| "json_items _ = Inl TypeError"

text \<open>The session, its state and the tokens before it; \<open>Inr None\<close> is left out by the model.\<close>

definition read_resume :: "json \<Rightarrow> (int \<times> (int list \<times> int \<times> nat) \<times> json list) option result" where
  "read_resume v =
     bindE (bindE (any_field ''session_id'' v) json_int) (\<lambda>sid.
     bindE (any_field ''seq_ids'' v) (\<lambda>seq_v.
     bindE (bindE (any_field ''next_token'' v) json_int) (\<lambda>nxt.
     bindE (case v of JObj b \<Rightarrow> json_items (dget b ''output_token_ids'' (JList [])) | _ \<Rightarrow> Inl TypeError) (\<lambda>prior.
     bindE (bindE (any_field ''pos'' v) json_int) (\<lambda>pos.
       Inr (case json_ids seq_v of
              None \<Rightarrow> None
            | Some seq \<Rightarrow> if pos < 0 then None else Some (sid, (seq, nxt, nat pos), prior)))))))"

definition carried :: "int \<Rightarrow> json list \<Rightarrow> int list \<times> int \<times> nat \<Rightarrow> json" where
  "carried sid done_ids = (\<lambda>(seq, nxt, cur).
     JObj [(''session_id'', JInt sid), (''seq_ids'', JList (map JInt seq)), (''next_token'', JInt nxt),
           (''pos'', JInt (int cur)), (''output_token_ids'', JList done_ids)])"

definition completion_of ::
  "('e, 'l, 'p, 'f, 'd, 'c, 'k) api \<Rightarrow> json option \<Rightarrow> bool \<Rightarrow> int \<Rightarrow> json list \<Rightarrow> ('e, 'p) orch \<Rightarrow>
   ('e, 'p) mesh \<times> (int list \<times> int list \<times> int \<times> nat) result \<Rightarrow> ('e, 'p) orch \<times> answer" where
  "completion_of A tools keep sid prior s = (\<lambda>(m, r).
     (s\<lparr>or_mesh := m\<rparr>,
      case r of
        Inl e \<Rightarrow> Dropped e
      | Inr (toks, st) \<Rightarrow>
          (case shape_message (ap_json A) tools (gc_decode (ap_gen A) toks) of
             Inl e \<Rightarrow> Dropped e
           | Inr (content, calls) \<Rightarrow>
               Completed \<lparr>cp_content = content, cp_calls = calls, cp_finish = (if calls = [] then ''stop'' else ''tool_calls''),
                 cp_tokens = length toks,
                 cp_circuit = [(''session_id'', JInt sid), (''token_ids'', JList (prior @ map JInt toks))] @
                   (if keep then [(''resume'', carried sid (prior @ map JInt toks) st)] else [])\<rparr>)))"

definition serve_completion ::
  "('e, 'l, 'p, 'f, 'd, 'c, 'k) api \<Rightarrow> request \<Rightarrow> body \<Rightarrow> json option \<Rightarrow> int list \<Rightarrow> nat \<Rightarrow> ('e, 'p) orch \<Rightarrow>
   ('e, 'p) orch \<times> answer" where
  "serve_completion A q b tools ids n s =
     (let resume = dget b ''circuit_resume'' JNull; keep = truthy (dget b ''circuit_keep_warm'' JNull)
      in if truthy resume then
           (case trusted_caller (ap_vars A) q of
              Inl e \<Rightarrow> (s, Dropped e)
            | Inr False \<Rightarrow> (s, Refused 403)
            | Inr True \<Rightarrow>
                (case read_resume resume of
                   Inl e \<Rightarrow> (s, Dropped e)
                 | Inr None \<Rightarrow> (s, Outside)
                 | Inr (Some (sid, st, prior)) \<Rightarrow>
                     completion_of A tools keep sid prior s
                       (generate_resume_state (ap_mesh A) (ap_coord A) (ap_prov A) sid st n keep (or_mesh s))))
         else (case fresh_session (ap_gen A) s of
                 (s1, sid) \<Rightarrow>
                   completion_of A tools keep sid [] s1
                     (generate_state (ap_mesh A) (ap_coord A) (ap_prov A) sid ids n keep (or_mesh s1))))"

subsection \<open>The handler\<close>

definition truthy_opt :: "json \<Rightarrow> json option" where
  "truthy_opt v = (if truthy v then Some v else None)"

definition do_POST ::
  "('e, 'l, 'p, 'f, 'd, 'c :: linorder, 'k) api \<Rightarrow> request \<Rightarrow> ('e, 'p) orch \<Rightarrow> (('e, 'p) orch \<times> answer) option" where
  "do_POST A q s =
     (if rq_path q \<noteq> ''/v1/chat/completions'' then Some (s, Refused 404)
      else case rq_body q of
             Inl e \<Rightarrow> Some (s, Refused 400)
           | Inr (JObj b) \<Rightarrow>
               (let tools = truthy_opt (dget b ''tools'' JNull);
                    streaming = truthy (dget b ''stream'' JNull) \<and> tools = None
                in case bindE (max_tokens (ap_vars A) (JObj b)) (\<lambda>n.
                          bindE (ap_prompt A (dget b ''messages'' (JList [])) tools) (\<lambda>ids. Inr (n, ids))) of
                     Inl e \<Rightarrow> Some (s, Dropped e)
                   | Inr (n, ids) \<Rightarrow>
                       (case ap_batch A of
                          Some queue \<Rightarrow> Some (s, serve_batched (ap_json A) (gc_decode (ap_gen A)) (queue ids n) streaming tools)
                        | None \<Rightarrow>
                            if streaming then serve_stream A b ids n s
                            else Some (serve_completion A q b tools ids n s)))
           | Inr _ \<Rightarrow> Some (s, Dropped AttributeError))"

end
