(* ===== verification/Api_Spec.thy ===== *)
theory Api_Spec
  imports Api Catalog_Spec Route_Client_Spec Tree_Decode_Spec Eagle
begin

section \<open>The HTTP front end: properties\<close>

text \<open>
  The control plane that the environment describes starts in its invariant and covers exactly the
  configured layers; tool calls are read back out of the format they are written in; no request makes
  the decoder produce more tokens than the ceiling; and a session that one orchestrator left warm is
  continued by another from the resume object of its answer.
\<close>

subsection \<open>The control plane from the environment\<close>

lemma plan_size_le:
  assumes "b \<le> int j * c" and "0 < j" and "x \<in> set (plan_sizes b j)"
  shows "x \<le> c"
proof -
  have b: "b = int j * (b div int j) + b mod int j" by simp
  have "b div int j \<le> c" using assms(1,2) by (metis div_mult_self1_is_m nonzero_mult_div_cancel_left of_nat_0_less_iff order_less_irrefl zdiv_mono1)
  moreover have "b div int j + 1 \<le> c" if "0 < b mod int j"
  proof -
    have "int j * (b div int j) < int j * c" using assms(1) b that by linarith
    then show ?thesis using assms(2) by simp
  qed
  ultimately show ?thesis using assms(3) by (auto simp: plan_sizes_def Let_def split: if_splits)
qed

lemma staffable_replicate:
  "staffable (stage_demands b 1 j) (replicate n c) \<longleftrightarrow> length (plan_sizes b j) \<le> n \<and> (\<forall>x \<in> set (plan_sizes b j). x \<le> c)"
proof -
  let ?d = "plan_sizes b j"
  have d: "stage_demands b 1 j = ?d" by (simp add: stage_demands_def)
  show ?thesis
  proof
    assume "staffable (stage_demands b 1 j) (replicate n c)"
    then obtain used where u: "mset used \<subseteq># replicate_mset n c" "list_all2 (\<le>) ?d used" unfolding d staffable_def by auto
    then have len: "length used \<le> n" using size_mset_mono by fastforce
    have "set used \<subseteq> {c}" using set_mset_mono [OF u(1)] by (auto split: if_splits)
    then show "length ?d \<le> n \<and> (\<forall>x \<in> set ?d. x \<le> c)"
      using u(2) len by (auto simp: list_all2_conv_all_nth in_set_conv_nth) (metis nth_mem singletonD subsetD)
  next
    assume a: "length ?d \<le> n \<and> (\<forall>x \<in> set ?d. x \<le> c)"
    then have "replicate_mset (length ?d) c \<subseteq># replicate_mset n c" by (simp add: subseteq_mset_def)
    then show "staffable (stage_demands b 1 j) (replicate n c)"
      unfolding d staffable_def using a by (intro exI [of _ "replicate (length ?d) c"]) (simp add: list_all2_conv_all_nth)
  qed
qed

lemma plan_stages_uniform:
  assumes "plan_stages b (replicate (nat b) c) 1 = Inr v"
  shows "\<exists>k. v = int k \<and> 0 < k \<and> (\<forall>x \<in> set (plan_sizes b k). x \<le> c) \<and> (\<forall>j. 0 < j \<and> b \<le> int j * c \<longrightarrow> k \<le> j)"
proof -
  have b: "1 \<le> b" using assms by (auto simp: plan_stages_def split: if_splits)
  from plan_stages_fewest [OF b, of 1 "replicate (nat b) c"] assms obtain k where
    k: "v = int k" "0 < k" "int k \<le> b" "staffable (stage_demands b 1 k) (replicate (nat b) c)"
      "\<forall>j. 0 < j \<and> j < k \<longrightarrow> \<not> staffable (stage_demands b 1 j) (replicate (nat b) c)" by auto
  have few: "k \<le> j" if "0 < j" "b \<le> int j * c" for j
  proof (rule ccontr)
    assume "\<not> k \<le> j"
    then have "\<not> staffable (stage_demands b 1 j) (replicate (nat b) c)" "j \<le> nat b" using k that by auto
    then show False using plan_size_le [OF that(2,1)] that(1) by (simp add: staffable_replicate [unfolded One_nat_def] length_plan_sizes)
  qed
  have "\<forall>x \<in> set (plan_sizes b k). x \<le> c" using k(4) unfolding staffable_replicate ..
  then show ?thesis using k(1,2) few by blast
qed

lemma built_mesh:
  assumes "build_mesh W env = Inr (Some S)"
  obtains nl ce0 stages0 ce ns szs fp repl dead creg lat t where "env_flag env ''CIRCUIT_MESH''"
    "bindE (env_need env ''CIRCUIT_MESH_LAYERS'') parse_int = Inr nl"
    "mesh_layout W env nl ce0 stages0 = Inr (ce, ns, szs)"
    "mk_topology nl ce ns fp repl dead creg lat szs = Inr t" "topo (ms_reg S) = t" "registry_ok (ms_reg S)"
    "(let ll = dget env ''CIRCUIT_LOCAL_LAYERS'' [] in if ll = [] then Inr 0 else second_bound ll) = Inr ce0"
    "env_int env ''CIRCUIT_MESH_STAGES'' ''1'' = Inr stages0"
proof -
  have flag: "env_flag env ''CIRCUIT_MESH''" using assms by (auto simp: build_mesh_def split: if_splits)
  obtain nl ce0 stages0 ce ns szs fp repl dead creg lat t secret cep cw al seeds ban path fl ok
    where "bindE (env_need env ''CIRCUIT_MESH_LAYERS'') parse_int = Inr nl"
      "mesh_layout W env nl ce0 stages0 = Inr (ce, ns, szs)"
      "mk_topology nl ce ns fp repl dead creg lat szs = Inr t"
      "ms_reg S = mk_registry t secret cep cw al seeds 1000 ban path fl ok"
      and origins: "(let ll = dget env ''CIRCUIT_LOCAL_LAYERS'' [] in if ll = [] then Inr 0 else second_bound ll) = Inr ce0"
        "env_int env ''CIRCUIT_MESH_STAGES'' ''1'' = Inr stages0"
    using assms flag unfolding build_mesh_def by (auto simp: bindE_Inr_iff Let_def)
  moreover have "topo (mk_registry t secret cep cw al seeds 1000 ban path fl ok) = t"
    by (simp add: mk_registry_def load_state_def Let_def split: option.split)
  moreover have "registry_ok (mk_registry t secret cep cw al seeds 1000 ban path fl ok)"
    using registry_ok_initial [OF topo_wf_mk_topology] calculation(3) by blast
  ultimately show thesis using flag that [OF flag _ _ _ _ _ origins] by metis
qed

text \<open>C16. The control plane that the environment describes is sound from the start: when one is built, mesh mode is on,
  the registry satisfies its invariant, and its slots tile the layers from the coordinator's own to the
  configured last one without gap or overlap, nobody holding any.  The coordinator's own layers end where
  \<open>CIRCUIT_LOCAL_LAYERS\<close> says, at 0 without it, which is the range the coordinator of the same environment loads;
  with a catalog they end where its first range does.  Without catalog and capacity there are
  \<open>CIRCUIT_MESH_STAGES\<close> slots.  With a capacity per node every slot fits a
  node and no smaller number of slots could hold the layers; with a layout text the slots are the layout's
  stages, those the slices were published for.\<close>

theorem environment_builds_sound_mesh:
  assumes built: "build_mesh W env = Inr (Some S)"
  defines "t \<equiv> topo (ms_reg S)" and "catalog \<equiv> dget env ''CIRCUIT_MESH_CATALOG'' []" and "cap \<equiv> dget env ''CIRCUIT_MESH_NODE_CAP'' []"
    and "own \<equiv> dget env ''CIRCUIT_LOCAL_LAYERS'' []"
  shows "env_flag env ''CIRCUIT_MESH'' \<and> registry_ok (ms_reg S) \<and> nodes t = [] \<and> slots t \<noteq> [] \<and>
    bindE (env_need env ''CIRCUIT_MESH_LAYERS'') parse_int = Inr (num_layers t) \<and>
    0 \<le> coordinator_end t \<and> coordinator_end t < num_layers t \<and> tiles (coordinator_end t) (num_layers t) (slots t) \<and>
    (catalog = [] \<longrightarrow> (if own = [] then coordinator_end t = 0
       else \<exists>a b rest. split_char CHR '':'' own = a # b # rest \<and> parse_int b = Inr (coordinator_end t))) \<and>
    (\<forall>A. catalog = [] \<and> build_coordinator env = Inr A \<longrightarrow> (case ca_local A of None \<Rightarrow> coordinator_end t = 0
       | Some xs \<Rightarrow> 1 < length xs \<and> coordinator_end t = xs ! 1)) \<and>
    (\<forall>ranges. catalog \<noteq> [] \<and> catalog_layout (mc_files W) (CatalogText catalog) = Inr ranges \<longrightarrow>
       coordinator_end t = fst (snd (hd ranges))) \<and>
    (catalog = [] \<and> cap = [] \<longrightarrow> env_int env ''CIRCUIT_MESH_STAGES'' ''1'' = Inr (int (length (slots t)))) \<and>
    (catalog = [] \<and> cap \<noteq> [] \<longrightarrow> (\<exists>c. parse_int cap = Inr c \<and> (\<forall>sl \<in> set (slots t). slot_size sl \<le> c) \<and>
       (\<forall>j. 0 < j \<and> num_layers t - coordinator_end t \<le> int j * c \<longrightarrow> length (slots t) \<le> j))) \<and>
    (\<forall>ranges. catalog \<noteq> [] \<and> catalog_layout (mc_files W) (CatalogText catalog) = Inr ranges \<and> parse_layout catalog = Inr ranges \<longrightarrow>
       map (\<lambda>sl. (s_start sl, s_end sl, False)) (slots t) = tl ranges)"
proof -
  obtain nl ce0 stages0 ce ns szs fp repl dead creg lat t0 where m0: "env_flag env ''CIRCUIT_MESH''"
    "bindE (env_need env ''CIRCUIT_MESH_LAYERS'') parse_int = Inr nl"
    "mesh_layout W env nl ce0 stages0 = Inr (ce, ns, szs)"
    "mk_topology nl ce ns fp repl dead creg lat szs = Inr t0" "topo (ms_reg S) = t0" "registry_ok (ms_reg S)"
    "(let ll = dget env ''CIRCUIT_LOCAL_LAYERS'' [] in if ll = [] then Inr 0 else second_bound ll) = Inr ce0"
    "env_int env ''CIRCUIT_MESH_STAGES'' ''1'' = Inr stages0"
    by (rule built_mesh [OF built])
  have m: "env_flag env ''CIRCUIT_MESH''" "bindE (env_need env ''CIRCUIT_MESH_LAYERS'') parse_int = Inr nl"
    "mesh_layout W env nl ce0 stages0 = Inr (ce, ns, szs)"
    "mk_topology nl ce ns fp repl dead creg lat szs = Inr t" "registry_ok (ms_reg S)"
    and origin: "(if own = [] then Inr 0 else second_bound own) = Inr ce0" "env_int env ''CIRCUIT_MESH_STAGES'' ''1'' = Inr stages0"
    using m0 by (simp_all add: t_def own_def Let_def split: if_splits)
  obtain sizes where z: "slots t = mk_slots 0 ce sizes" "sum_list sizes = nl - ce" "\<forall>x \<in> set sizes. 0 \<le> x" "int (length sizes) = ns" "1 \<le> ns"
    "num_layers t = nl" "coordinator_end t = ce" "nodes t = []" "0 \<le> ce" "ce < nl"
    "sizes = (case szs of None \<Rightarrow> plan_sizes (nl - ce) (nat ns) | Some zs \<Rightarrow> zs)"
    using mk_topology_Inr [OF m(4)] by metis
  have tile: "tiles ce nl (slots t)" using mk_slots_tiles [OF z(3), of ce 0] z(1,2) by simp
  have capped: "\<exists>c. parse_int cap = Inr c \<and> (\<forall>sl \<in> set (slots t). slot_size sl \<le> c) \<and> (\<forall>j. 0 < j \<and> nl - ce \<le> int j * c \<longrightarrow> length (slots t) \<le> j)"
    if "catalog = []" "cap \<noteq> []"
  proof -
    have l: "mesh_layout W env nl ce0 stages0 =
        bindE (parse_int cap) (\<lambda>c. bindE (plan_stages (nl - ce0) (replicate (nat (nl - ce0)) c) 1) (\<lambda>k. Inr (ce0, k, None)))"
      using that by (simp add: mesh_layout_def Let_def catalog_def cap_def)
    obtain c where c: "parse_int cap = Inr c" "plan_stages (nl - ce) (replicate (nat (nl - ce)) c) 1 = Inr ns" "szs = None"
      using m(3) unfolding l by (auto simp only: bindE_Inr_iff prod.inject sum.inject)
    obtain k where k: "ns = int k" "\<forall>x \<in> set (plan_sizes (nl - ce) k). x \<le> c" "\<forall>j. 0 < j \<and> nl - ce \<le> int j * c \<longrightarrow> k \<le> j"
      using plan_stages_uniform [OF c(2)] by blast
    have sz: "sizes = plan_sizes (nl - ce) k" using z(11) unfolding c(3) k(1) by simp
    have "slot_size sl \<le> c" if "sl \<in> set (slots t)" for sl
    proof -
      have "sl \<in> set (mk_slots 0 ce sizes)" using that unfolding z(1) .
      then obtain i where i: "i < length sizes" "sl = mk_slots 0 ce sizes ! i" by (auto simp only: in_set_conv_nth mk_slots_length)
      then have "slot_size sl = sizes ! i" using mk_slots_nth [OF i(1)] by simp
      moreover have "sizes ! i \<in> set (plan_sizes (nl - ce) k)" using i(1) unfolding sz [symmetric] by simp
      ultimately show ?thesis using k(2) by simp
    qed
    moreover have "length (slots t) = k" using z(1,4) k(1) by simp
    ultimately show ?thesis using c(1) k(3) by blast
  qed
  have listed: "map (\<lambda>sl. (s_start sl, s_end sl, False)) (slots t) = tl ranges"
    if "catalog \<noteq> []" "catalog_layout (mc_files W) (CatalogText catalog) = Inr ranges" "parse_layout catalog = Inr ranges" for ranges
  proof -
    have l: "mesh_layout W env nl ce0 stages0 = bindE (topology_from_catalog nl ranges) (\<lambda>(ce, k, sizes). Inr (ce, k, Some sizes))"
      using that(1,2) by (simp add: mesh_layout_def Let_def catalog_def)
    obtain zs where "topology_from_catalog nl ranges = Inr (ce, ns, zs)" "szs = Some zs"
      using m(3) unfolding l by (auto simp: bindE_Inr_iff)
    then show ?thesis using layout_topology [OF that(3)] m(4) by blast
  qed
  have plain: "ce = ce0" if "catalog = []"
    using m(3) that by (auto simp: mesh_layout_def Let_def catalog_def bindE_Inr_iff split: if_splits)
  have staged: "env_int env ''CIRCUIT_MESH_STAGES'' ''1'' = Inr (int (length (slots t)))" if "catalog = []" "cap = []"
  proof -
    have "ns = stages0" using m(3) that by (simp add: mesh_layout_def Let_def catalog_def cap_def)
    then show ?thesis using origin(2) z(1,4) by simp
  qed
  have ends: "if own = [] then ce0 = 0 else \<exists>a b rest. split_char CHR '':'' own = a # b # rest \<and> parse_int b = Inr ce0"
    using origin(1) by (auto simp: second_bound_def split: if_splits list.splits)
  have same: "case ca_local A of None \<Rightarrow> ce0 = 0 | Some xs \<Rightarrow> 1 < length xs \<and> ce0 = xs ! 1" if "build_coordinator env = Inr A" for A
  proof -
    have "(if own = [] then Inr None else bindE (mapE parse_int (split_char CHR '':'' own)) (\<lambda>xs. Inr (Some xs))) = Inr (ca_local A)"
      using that by (auto simp: build_coordinator_def own_def Let_def bindE_Inr_iff)
    then show ?thesis using ends by (cases "ca_local A") (auto simp: bindE_Inr_iff split: if_splits)
  qed
  have cat: "ce = fst (snd (hd ranges))" if "catalog \<noteq> []" "catalog_layout (mc_files W) (CatalogText catalog) = Inr ranges" for ranges
    using m(3) that
    by (auto simp: mesh_layout_def Let_def catalog_def bindE_Inr_iff topology_from_catalog_def split: list.splits if_splits)
  have ne: "slots t \<noteq> []" using z(1,4,5) by (cases sizes) auto
  have d1: "catalog = [] \<longrightarrow> (if own = [] then ce = 0 else \<exists>a b rest. split_char CHR '':'' own = a # b # rest \<and> parse_int b = Inr ce)"
    using ends plain by (auto split: if_splits)
  have d2: "\<forall>A. catalog = [] \<and> build_coordinator env = Inr A \<longrightarrow> (case ca_local A of None \<Rightarrow> ce = 0 | Some xs \<Rightarrow> 1 < length xs \<and> ce = xs ! 1)"
    using same plain by blast
  show ?thesis unfolding z(6-8) using m(1,2,5) z(9,10) ne tile d1 d2 cat staged capped listed by blast
qed

subsection \<open>Tool calls\<close>

text \<open>A tag begins with a character that is not in the rest of it, so it cannot overlap itself.\<close>

lemma find_sub_at:
  assumes "c \<notin> set p"
  shows "find_sub (c # p) t = None \<Longrightarrow> find_sub (c # p) (t @ c # p @ r) = Some (t, r)"
proof (induction t)
  case (Cons x t)
  let ?pat = "c # p"
  have no: "find_sub ?pat t = None" "take (length ?pat) (x # t) \<noteq> ?pat" using Cons.prems by (auto split: if_splits)
  have "take (length ?pat) (x # t @ ?pat @ r) \<noteq> ?pat"
  proof
    assume eq: "take (length ?pat) (x # t @ ?pat @ r) = ?pat"
    show False
    proof (cases "length ?pat \<le> length (x # t)")
      case True
      then show False using eq no(2) by simp
    next
      case False
      then have len: "length t < length p" by simp
      have "?pat ! Suc (length t) = (x # t @ ?pat @ r) ! Suc (length t)"
        using eq len by (metis Suc_mono length_Cons nth_take)
      then have "p ! length t = c" by (simp add: nth_append)
      then show False using len assms nth_mem by metis
    qed
  qed
  then show ?case using Cons.IH [OF no(1)] by simp
qed simp

lemma tags:
  "\<exists>c p. open_tag = c # p \<and> c \<notin> set p" "\<exists>c p. close_tag = c # p \<and> c \<notin> set p"
  by (simp_all add: open_tag_def close_tag_def codes_def)

lemma find_open: "find_sub open_tag t = None \<Longrightarrow> find_sub open_tag (t @ open_tag @ r) = Some (t, r)"
  and find_close: "find_sub close_tag t = None \<Longrightarrow> find_sub close_tag (t @ close_tag @ r) = Some (t, r)"
  using find_sub_at tags by (metis append_Cons)+

text \<open>A generated text: a text, and blocks each followed by a text.\<close>

definition tagged_text :: "pystr \<Rightarrow> (pystr \<times> pystr) list \<Rightarrow> pystr" where
  "tagged_text t bts = t @ concat (map (\<lambda>(b, t'). open_tag @ b @ close_tag @ t') bts)"

lemma tool_blocks_tagged:
  "find_sub open_tag t = None \<Longrightarrow> \<forall>(b, t') \<in> set bts. find_sub close_tag b = None \<and> find_sub open_tag t' = None \<Longrightarrow>
     tool_blocks (tagged_text t bts) = (map (u_strip \<circ> fst) bts, t @ concat (map snd bts))"
proof (induction bts arbitrary: t)
  case Nil
  then show ?case by (simp add: tagged_text_def tool_blocks.simps [of t])
next
  case (Cons p bts)
  obtain b t' where p: "p = (b, t')" by (cases p)
  have ok: "find_sub close_tag b = None" "find_sub open_tag t' = None" using Cons.prems(2) p by auto
  have ih: "tool_blocks (tagged_text t' bts) = (map (u_strip \<circ> fst) bts, t' @ concat (map snd bts))"
    by (rule Cons.IH [OF ok(2)]) (use Cons.prems(2) in auto)
  have "tagged_text t (p # bts) = t @ open_tag @ (b @ close_tag @ tagged_text t' bts)" by (simp add: tagged_text_def p)
  then show ?case
    using find_open [OF Cons.prems(1)] find_close [OF ok(1)] ih p by (subst tool_blocks.simps) simp
qed

text \<open>The call that a well-formed block stands for.\<close>

definition call_of :: "tool_json \<Rightarrow> nat \<Rightarrow> (pystr \<times> tool_value) list \<Rightarrow> tool_call" where
  "call_of T i kvs = \<lparr>tc_index = i, tc_name = dget kvs (codes ''name'') VNull, tc_args = call_args T kvs\<rparr>"

lemma block_calls_valid:
  "list_all2 (\<lambda>b kvs. tj_loads T b = Inr (VObj kvs) \<and> truth (dget kvs (codes ''name'') VNull)) bs vs \<Longrightarrow>
     block_calls T i bs = Inr (map (\<lambda>(j, kvs). call_of T j kvs) (enumerate i vs))"
  by (induction arbitrary: i rule: list_all2_induct) (simp_all add: call_of_def Let_def)

text \<open>C17. Tool calls are read back out of the format they are written in: from a text with call blocks between
  pieces of text, where no piece has an opening tag and no block a closing tag, exactly the blocks' calls are
  returned, in order, numbered and with their arguments as text, and the content is the pieces joined and
  stripped, or none when nothing is left.  White space inside a block does not matter.\<close>

theorem tool_calls_are_read_back:
  assumes "find_sub open_tag t = None" and "\<forall>(b, t') \<in> set bts. find_sub close_tag b = None \<and> find_sub open_tag t' = None"
    and "list_all2 (\<lambda>(b, _) kvs. tj_loads T (u_strip b) = Inr (VObj kvs) \<and> truth (dget kvs (codes ''name'') VNull)) bts vs"
  defines "content \<equiv> u_strip (t @ concat (map snd bts))"
  shows "parse_tool_calls T (tagged_text t bts) =
    Inr (if content = [] then None else Some content, map (\<lambda>(j, kvs). call_of T j kvs) (enumerate 0 vs))"
proof -
  have "list_all2 (\<lambda>b kvs. tj_loads T b = Inr (VObj kvs) \<and> truth (dget kvs (codes ''name'') VNull)) (map (u_strip \<circ> fst) bts) vs"
    using assms(3) by (simp add: list_all2_map1 case_prod_unfold)
  from block_calls_valid [OF this] show ?thesis
    by (simp add: parse_tool_calls_def tool_blocks_tagged [OF assms(1,2)] content_def Let_def)
qed

definition demo_tools :: tool_json where
  "demo_tools = \<lparr>tj_loads = (\<lambda>s. if s = codes ''x'' then Inr (VObj [(codes ''name'', VStr (codes ''f''))]) else Inl ValueError),
     tj_dumps = (\<lambda>_. codes ''{}'')\<rparr>"

theorem tool_calls_are_read_back_witness:
  "parse_tool_calls demo_tools (tagged_text (codes ''hi '') [(codes '' x '', [])]) =
     Inr (Some (codes ''hi''), [\<lparr>tc_index = 0, tc_name = VStr (codes ''f''), tc_args = codes ''{}''\<rparr>])"
proof -
  have s: "u_strip (codes '' x '') = codes ''x''" "u_strip (codes ''hi '') = codes ''hi''"
    by (simp_all add: u_strip_def u_space_def codes_def)
  have t: "tj_loads demo_tools (codes ''x'') = Inr (VObj [(codes ''name'', VStr (codes ''f''))])" by (simp add: demo_tools_def)
  have "parse_tool_calls demo_tools (tagged_text (codes ''hi '') [(codes '' x '', [])]) =
    Inr (if u_strip (codes ''hi '' @ concat (map snd [(codes '' x '', [])])) = [] then None
           else Some (u_strip (codes ''hi '' @ concat (map snd [(codes '' x '', [])]))),
         map (\<lambda>(j, kvs). call_of demo_tools j kvs) (enumerate 0 [[(codes ''name'', VStr (codes ''f''))]]))"
    by (rule tool_calls_are_read_back) (simp_all add: s t open_tag_def close_tag_def, simp_all add: codes_def dget_def)
  moreover have "call_of demo_tools 0 [(codes ''name'', VStr (codes ''f''))] =
      \<lparr>tc_index = 0, tc_name = VStr (codes ''f''), tc_args = codes ''{}''\<rparr>"
    by (simp add: call_of_def call_args_def dget_def demo_tools_def) (simp add: codes_def)
  moreover have "codes ''hi'' \<noteq> []" by (simp add: codes_def)
  ultimately show ?thesis by (simp add: s)
qed

subsection \<open>The ceiling\<close>

lemma length_text_pieces: "length (text_pieces dec produced prev ts) \<le> length ts"
  by (induction ts arbitrary: produced prev) (auto simp: Let_def le_SucI)

lemma length_greedy_steps: "greedy_steps E C P session k st m = (m', Inr (out, st')) \<Longrightarrow> length out \<le> k"
  by (induction E C P session k st m arbitrary: m' out st' rule: greedy_steps.induct)
    (fastforce split: if_splits sum.splits prod.splits)+

lemma finish_session_Inr: "finish_session E C P session w p = (m', Inr x) \<Longrightarrow> snd p = Inr x"
  by (cases p) (auto simp: finish_session_def split: if_splits prod.splits sum.splits)

lemma length_generated:
  "generate_state E C P session ids n w m = (m', Inr (out, st)) \<Longrightarrow> length out \<le> n"
  "generate_resume_state E C P session st0 n w m = (m', Inr (out, st)) \<Longrightarrow> length out \<le> n"
proof -
  show "length out \<le> n" if "generate_resume_state E C P session st0 n w m = (m', Inr (out, st))"
    using finish_session_Inr [OF that [unfolded generate_resume_state_def]] length_greedy_steps
    by (metis prod.collapse)
  show "length out \<le> n" if "generate_state E C P session ids n w m = (m', Inr (out, st))"
  proof -
    from finish_session_Inr [OF that [unfolded generate_state_def]] obtain t m1 where
      "snd (greedy_steps E C P session n (ids, t, length ids) m1) = Inr (out, st)"
      by (auto split: prod.splits sum.splits)
    then show ?thesis using length_greedy_steps by (metis prod.collapse)
  qed
qed

lemma length_stream_steps: "stream_steps E C P stop session k st m = (m', out, r) \<Longrightarrow> length out \<le> k"
  by (induction E C P stop session k st m arbitrary: m' out r rule: stream_steps.induct)
    (fastforce split: if_splits sum.splits prod.splits)+

lemma length_emit_committed: "length (fst (emit_committed eos n_new produced ts)) \<le> n_new - produced"
  by (induction eos n_new produced ts rule: emit_committed.induct) (auto split: prod.split)

lemma length_prefixed: "length (fst (case p of (zs, r) \<Rightarrow> (ys @ zs, r))) = length ys + length (fst p)"
  by (cases p) simp

lemma length_stream_loop: "length (fst (stream_loop T D pt K eos n_new produced st gc)) \<le> n_new - produced"
proof (induction T D pt K eos n_new produced st gc rule: stream_loop.induct)
  case (1 T D pt K eos n_new produced st gc)
  show ?case
  proof (cases "produced < n_new")
    case True
    obtain s1 r where r: "spec_round T D pt K st = (s1, r)" by fastforce
    show ?thesis
    proof (cases r)
      case (Inr x)
      obtain com m st' where x: "x = (com, m, st')" by (cases x)
      obtain ys b where y: "emit_committed eos n_new produced com = (ys, b)" by fastforce
      have ys: "length ys \<le> n_new - produced" using length_emit_committed [of eos n_new produced com] y by simp
      have rest: "length (fst (stream_loop T D pt K eos n_new (produced + length ys) st' (map_option (bump_counts m K) gc))) \<le> n_new - (produced + length ys)"
        if "b = False" using 1 [OF True r [symmetric] Inr x [symmetric] refl refl y [symmetric] that] .
      show ?thesis
      proof (cases b)
        case False
        then have "b = False" by simp
        from rest [OF this] this show ?thesis using ys y r Inr x True by (subst stream_loop.simps) (simp add: Let_def length_prefixed)
      qed (use ys y r Inr x True in \<open>subst stream_loop.simps; simp add: Let_def\<close>)
    qed (use True r in \<open>subst stream_loop.simps; simp\<close>)
  qed (subst stream_loop.simps; simp)
qed

lemma length_speculative_stream:
  "length (fst (speculative_greedy_stream T D pt K eos s d prompt n_new gc)) \<le> max 1 n_new"
proof (cases "snd (spec_start T D s d prompt)")
  case (Inr st)
  have "length (fst (stream_loop T D pt K eos n_new 1 st gc)) \<le> n_new - 1" by (rule length_stream_loop)
  then show ?thesis using Inr
    by (cases "spec_start T D s d prompt") (auto simp: speculative_greedy_stream_def case_prod_unfold)
qed (cases "spec_start T D s d prompt"; simp add: speculative_greedy_stream_def)

lemma length_tree_loop:
  "length (fst (tree_loop E C P G D session ids n_new produced h pos m gc)) \<le> n_new - length produced"
proof (induction E C P G D session ids n_new produced h pos m gc rule: tree_loop.induct)
  case (1 E C P G D session ids n_new produced h pos m gc)
  show ?case
  proof (cases "length produced < n_new")
    case True
    obtain m1 r where r: "tree_round E C P G D session (ids @ butlast produced) h pos m = (m1, r)" by fastforce
    consider (stuck) "r = None" | (raised) e where "r = Some (Inl e)" | (ok) com path t where "r = Some (Inr (com, path, t))"
      by (cases r) (auto, metis obj_sumE prod_cases3)
    then show ?thesis
    proof cases
      case ok
      obtain ys b where y: "emit_committed (co_eos C) n_new (length produced) com = (ys, b)" by fastforce
      have ys: "length ys \<le> n_new - length produced" using length_emit_committed [of "co_eos C" n_new "length produced" com] y by simp
      show ?thesis
      proof (cases b)
        case False
        then have b: "b = False" by simp
        note 1 [OF True r [symmetric] ok refl refl refl refl y [symmetric] b]
        then show ?thesis using ys y r ok True b by (subst tree_loop.simps) (simp add: Let_def length_prefixed)
      qed (use ys y r ok True in \<open>subst tree_loop.simps; simp add: Let_def\<close>)
    qed (use True r in \<open>subst tree_loop.simps; simp\<close>)+
  qed (subst tree_loop.simps; simp)
qed

lemma stream_within:
  "speculative_greedy_stream T D pt K eos s d prompt n_new gc = (toks, x) \<Longrightarrow> length toks \<le> max 1 n_new"
  "tree_loop E C P G TD session ids n_new produced h pos m gc' = (toks, y) \<Longrightarrow> length toks \<le> n_new - length produced"
  by (metis length_speculative_stream fst_conv, metis length_tree_loop fst_conv)

text \<open>The pieces of a stream, whichever decoder it comes from.\<close>

lemma length_plain_stream: "generate_stream E C P G stop ids n s = (s', ps, r) \<Longrightarrow> length ps \<le> n"
  by (auto simp: generate_stream_def intro: le_trans [OF length_text_pieces] dest: length_stream_steps
      split: prod.splits sum.splits)

lemma length_spec_stream: "generate_speculative_stream E C P G D d K ids n s = (s', ps, r) \<Longrightarrow> length ps \<le> max 1 n"
  by (auto simp: generate_speculative_stream_def
      intro: le_trans [OF length_text_pieces stream_within(1) [unfolded One_nat_def]] split: if_splits prod.splits sum.splits)

lemma length_tree_pieces:
  assumes "length toks \<le> k"
  shows "length (case toks of [] \<Rightarrow> [] | t # ts \<Rightarrow> gc_decode G [t] # text_pieces (gc_decode G) [t] (gc_decode G [t]) ts) \<le> k"
proof (cases toks)
  case (Cons t ts)
  have "length (text_pieces (gc_decode G) [t] (gc_decode G [t]) ts) \<le> length ts" by (rule length_text_pieces)
  then show ?thesis using assms Cons by simp
qed simp

lemma length_tree_stream:
  assumes g: "generate_tree_stream E C P G TG ids n s = Some (s', ps, r)"
  shows "length ps \<le> max 1 n"
proof (cases "tg_draft TG")
  case (Some D)
  obtain s1 sid where f: "fresh_session G s = (s1, sid)" by fastforce
  let ?run = "case relay E C P sid 0 (co_embed C ids) (or_mesh s1) of
      (m1, Inl e) \<Rightarrow> ([], m1, call_counts, Some (Inl e))
    | (m1, Inr h) \<Rightarrow> (case next_token C h of
          Inl e \<Rightarrow> ([], m1, call_counts, Some (Inl e))
        | Inr t \<Rightarrow> if t \<in> co_eos C then ([], m1, call_counts, Some (Inr ()))
            else (case tree_loop E C P TG D sid ids n [t] t (length ids) m1 call_counts of (ys, r) \<Rightarrow> (t # ys, r)))"
  obtain toks m2 gc q where run: "?run = (toks, m2, gc, q)" by (rule prod_cases4)
  have toks: "length toks \<le> max 1 n"
    using run by (auto split: prod.splits sum.splits if_splits dest!: stream_within(2))
  have "ps = (case toks of [] \<Rightarrow> [] | t # ts \<Rightarrow> gc_decode G [t] # text_pieces (gc_decode G) [t] (gc_decode G [t]) ts)"
    using g unfolding generate_tree_stream_def Some f option.case prod.case run
    by (auto simp only: Let_def option.distinct option.inject prod.inject split: option.splits prod.splits)
  then show ?thesis using length_tree_pieces [OF toks] by simp
qed (use g in \<open>simp add: generate_tree_stream_def\<close>)

lemma answer_kinds:
  "serve_stream A b ids n s \<noteq> Some (s', Completed c)" "serve_completion A q b tools ids n s \<noteq> (s', Chunks ps r)"
  by (auto simp: serve_stream_def serve_completion_def completion_of_def Let_def
      split: sum.splits if_splits option.splits prod.splits bool.splits)

text \<open>The request without its \<open>circuit_resume\<close> field.\<close>

definition without_resume :: "request \<Rightarrow> body \<Rightarrow> request" where
  "without_resume q b = q\<lparr>rq_body := Inr (JObj (dpop ''circuit_resume'' b))\<rparr>"

definition streamed :: "body \<Rightarrow> bool" where
  "streamed b \<longleftrightarrow> truthy (dget b ''stream'' JNull) \<and> \<not> truthy (dget b ''tools'' JNull)"

lemma resume_ignored:
  assumes "rq_body q = Inr (JObj b)" and "streamed b \<or> ap_batch A \<noteq> None"
  shows "do_POST A (without_resume q b) s = do_POST A q s"
proof -
  let ?b = "dpop ''circuit_resume'' b"
  have d: "dget ?b k v = dget b k v" if "k \<noteq> ''circuit_resume''" for k v
    using that by (simp add: dget_def dict_simps)
  have f: "dget ?b ''tools'' v = dget b ''tools'' v" "dget ?b ''stream'' v = dget b ''stream'' v" "dget ?b ''tree'' v = dget b ''tree'' v"
      "dget ?b ''messages'' v = dget b ''messages'' v" "dget ?b ''max_tokens'' v = dget b ''max_tokens'' v" "dget ?b ''spec_k'' v = dget b ''spec_k'' v"
      "dget ?b ''tree_nodes'' v = dget b ''tree_nodes'' v" "dget ?b ''tree_branch'' v = dget b ''tree_branch'' v"
      "dget ?b ''tree_depth'' v = dget b ''tree_depth'' v" "dget ?b ''tree_beam'' v = dget b ''tree_beam'' v" for v
    by (rule d; simp)+
  have m: "max_tokens (ap_vars A) (JObj ?b) = max_tokens (ap_vars A) (JObj b)"
    by (simp add: max_tokens_def bget_def f)
  have t: "serve_stream A ?b ids n s = serve_stream A b ids n s" for ids n
    unfolding serve_stream_def spec_k_def tree_request_def f ..
  let ?args = "bindE (max_tokens (ap_vars A) (JObj b)) (\<lambda>n.
      bindE (ap_prompt A (dget b ''messages'' (JList [])) (truthy_opt (dget b ''tools'' JNull))) (\<lambda>ids. Inr (n, ids)))"
  have q: "rq_body (without_resume q b) = Inr (JObj ?b)" "rq_path (without_resume q b) = rq_path q"
    by (simp_all add: without_resume_def)
  show ?thesis
  proof (cases "ap_batch A")
    case None
    then have c: "(truthy (dget b ''stream'' JNull) \<and> truthy_opt (dget b ''tools'' JNull) = None) = True"
      using assms(2) by (simp add: streamed_def truthy_opt_def)
    show ?thesis unfolding do_POST_def q assms(1) sum.case json.case Let_def f m t None option.case c if_True ..
  next
    case (Some queue)
    show ?thesis unfolding do_POST_def q assms(1) sum.case json.case Let_def f m Some option.case ..
  qed
qed


subsection \<open>Carrying a session over\<close>

lemma json_ids_ints [simp]: "json_ids (JList (map JInt xs)) = Some xs"
  by (induction xs) simp_all

declare json_ids.simps [simp del]

text \<open>The resume object of an answer is read back as the session it stands for.\<close>

lemma read_carried: "read_resume (carried sid prior st) = Inr (Some (sid, st, prior))" "truthy (carried sid prior st)"
  by (cases st; simp add: read_resume_def carried_def any_field_def jfield_def dget_def)+

text \<open>The request that a body makes, once its prompt and its number of tokens are known.\<close>

definition asks :: "('e, 'l, 'p, 'f, 'd, 'c, 'k) api \<Rightarrow> request \<Rightarrow> body \<Rightarrow> int list \<Rightarrow> nat \<Rightarrow> bool" where
  "asks A q b ids n \<longleftrightarrow> rq_path q = ''/v1/chat/completions'' \<and> rq_body q = Inr (JObj b) \<and> ap_batch A = None \<and>
     max_tokens (ap_vars A) (JObj b) = Inr n \<and> ap_prompt A (dget b ''messages'' (JList [])) (truthy_opt (dget b ''tools'' JNull)) = Inr ids"

lemma asks_post:
  assumes "asks A q b ids n"
  shows "do_POST A q s = (if truthy (dget b ''stream'' JNull) \<and> truthy_opt (dget b ''tools'' JNull) = None
    then serve_stream A b ids n s else Some (serve_completion A q b (truthy_opt (dget b ''tools'' JNull)) ids n s))"
  using assms by (simp add: do_POST_def asks_def Let_def)

lemma asks_completed:
  assumes "asks A q b ids n" and "do_POST A q s = Some (s', Completed c)"
  shows "serve_completion A q b (truthy_opt (dget b ''tools'' JNull)) ids n s = (s', Completed c)"
  using assms(2) unfolding asks_post [OF assms(1)] by (auto simp: answer_kinds split: if_splits)

lemma completed:
  assumes "completion_of A tools keep sid prior s (m, r) = (s', Completed c)"
  shows "\<exists>toks st. r = Inr (toks, st) \<and> or_mesh s' = m \<and> map_of (cp_circuit c) ''token_ids'' = Some (JList (prior @ map JInt toks)) \<and>
    (keep \<longrightarrow> map_of (cp_circuit c) ''resume'' = Some (carried sid (prior @ map JInt toks) st))"
  using assms by (auto simp: completion_of_def split: sum.splits prod.splits)

lemma completes:
  assumes "r = Inr (toks, st)"
  shows "\<exists>s' c. completion_of A None keep sid prior s (m, r) = (s', Completed c)"
  using assms by (simp add: completion_of_def shape_message_def)


subsection \<open>A small deployment behind the front end\<close>

definition demo_machine :: machine where
  "demo_machine = \<lparr>mc_float = (\<lambda>_. Inr 30), mc_files = (\<lambda>_. None), mc_state = (\<lambda>_. None), mc_disk_ok = True\<rparr>"

definition demo_environ :: environ where
  "demo_environ = [(''CIRCUIT_MESH'', ''1''), (''CIRCUIT_MESH_LAYERS'', ''10''), (''CIRCUIT_LOCAL_LAYERS'', ''0:2''),
     (''CIRCUIT_MESH_NODE_CAP'', ''3''), (''CIRCUIT_KEY'', ''0a'')]"

definition demo_mesh_view :: "mesh_setup option result \<Rightarrow> (int \<times> int \<times> nat) option" where
  "demo_mesh_view r =
     (case r of
        Inr (Some S) \<Rightarrow> Some (coordinator_end (topo (ms_reg S)), num_layers (topo (ms_reg S)), length (slots (topo (ms_reg S))))
      | _ \<Rightarrow> None)"

lemma demo_mesh_built: "demo_mesh_view (build_mesh demo_machine demo_environ) = Some (2, 10, 3)"
  by code_simp

theorem environment_builds_sound_mesh_witness:
  "\<exists>S. build_mesh demo_machine demo_environ = Inr (Some S) \<and> registry_ok (ms_reg S) \<and> tiles 2 10 (slots (topo (ms_reg S))) \<and>
     length (slots (topo (ms_reg S))) = 3 \<and> parse_int ''2'' = Inr (coordinator_end (topo (ms_reg S))) \<and> (\<exists>c. \<forall>sl \<in> set (slots (topo (ms_reg S))). slot_size sl \<le> c)"
proof -
  obtain S where S: "build_mesh demo_machine demo_environ = Inr (Some S)" "coordinator_end (topo (ms_reg S)) = 2"
      "num_layers (topo (ms_reg S)) = 10" "length (slots (topo (ms_reg S))) = 3"
    using demo_mesh_built by (auto simp: demo_mesh_view_def split: sum.splits option.splits)
  have "dget demo_environ ''CIRCUIT_MESH_CATALOG'' [] = []" "dget demo_environ ''CIRCUIT_MESH_NODE_CAP'' [] = ''3''"
    "dget demo_environ ''CIRCUIT_LOCAL_LAYERS'' [] = ''0:2''"
    by (simp_all add: demo_environ_def dget_def)
  moreover have "split_char CHR '':'' ''0:2'' = [''0'', ''2'']" by code_simp
  ultimately show ?thesis using environment_builds_sound_mesh [OF S(1)] S by auto
qed

text \<open>Two orchestrators; the second asks for the internal key.\<close>

definition demo_api :: "environ \<Rightarrow> (8 word, 8 word, remote, 8 word, 8 word eagle, nat, unit) api" where
  "demo_api env = \<lparr>ap_mesh = demo_env, ap_coord = demo_coord, ap_prov = remote_provider demo_net, ap_gen = demo_gen,
     ap_draft = eagle_draft demo_eagle, ap_draft0 = eagle_new, ap_tree = demo_tree, ap_prompt = (\<lambda>_ _. Inr [3, 1]),
     ap_json = demo_tools, ap_vars = env, ap_batch = None\<rparr>"

definition demo_keyed :: environ where "demo_keyed = [(''CIRCUIT_ENGINE_INTERNAL_KEY'', ''k'')]"

definition demo_request :: "body \<Rightarrow> request" where
  "demo_request b = \<lparr>rq_path = ''/v1/chat/completions'', rq_body = Inr (JObj b), rq_peer = Some ''10.0.0.9'', rq_header = ''k''\<rparr>"

definition demo_ask :: body where "demo_ask = [(''max_tokens'', JInt 2), (''circuit_keep_warm'', JBool True)]"

definition head_orch :: "(8 word, remote) orch" where
  "head_orch = \<lparr>or_mesh = head_mesh, or_counter = 0, or_pc_ids = None, or_pc_sid = None, or_pc_len = 0, or_totals = no_totals\<rparr>"

lemma demo_cap: "env_int env ''CIRCUIT_MAX_TOKENS_CAP'' ''2048'' = Inr 2048" if "env \<in> {[], demo_keyed}"
proof -
  have "parse_int ''2048'' = Inr 2048" by code_simp
  then show ?thesis using that by (auto simp: env_int_def dget_def demo_keyed_def)
qed

lemma demo_asks:
  assumes "env \<in> {[], demo_keyed}" and "map_of b ''max_tokens'' = Some (JInt (int k))" "0 < k" "k \<le> 2048"
  shows "asks (demo_api env) (demo_request b) b [3, 1] k"
  using demo_cap [OF assms(1)] assms(2-4) by (simp add: asks_def demo_api_def demo_request_def max_tokens_def bget_def dget_def)

lemma demo_first_answer:
  "\<exists>s c. do_POST (demo_api []) (demo_request demo_ask) head_orch = Some (s, Completed c) \<and>
     (\<exists>v sid st prior. map_of (cp_circuit c) ''resume'' = Some v \<and> link_open demo_net (m_prov (or_mesh s)) \<and>
        session_kept demo_env (co_key demo_coord) byte_model 4 byte_enc demo_lay sid (or_mesh s)
          ((or_mesh s)\<lparr>m_routes := [], m_conns := [], m_keys := []\<rparr>) \<and> read_resume v = Inr (Some (sid, st, prior)))"
proof -
  have a: "asks (demo_api []) (demo_request demo_ask) demo_ask [3, 1] 2" by (rule demo_asks) (simp_all add: demo_ask_def)
  obtain sa sid where f: "fresh_session demo_gen head_orch = (sa, sid)" by fastforce
  have sid: "id_ok sid" "or_mesh sa = head_mesh"
    using f next_session_id_ok [of "gc_prefix demo_gen" "or_counter head_orch"]
    by (auto simp: fresh_session_def head_orch_def split: prod.splits)
  obtain m1 r1 where g: "generate_state demo_env demo_coord (remote_provider demo_net) sid [3, 1] 2 True head_mesh = (m1, r1)" by fastforce
  note left = demo_session_left [OF g sid(1)]
  obtain out st where r: "r1 = Inr (out, st)" using left by auto
  have fields: "dget demo_ask ''circuit_resume'' JNull = JNull" "dget demo_ask ''circuit_keep_warm'' JNull = JBool True"
      "dget demo_ask ''tools'' JNull = JNull" "dget demo_ask ''stream'' JNull = JNull" by (simp_all add: demo_ask_def dget_def)
  have "serve_completion (demo_api []) (demo_request demo_ask) demo_ask None [3, 1] 2 head_orch =
      completion_of (demo_api []) None True sid [] sa (m1, r1)"
    using f g sid(2) by (simp add: serve_completion_def fields demo_api_def)
  moreover obtain s c where c: "completion_of (demo_api []) None True sid [] sa (m1, r1) = (s, Completed c)"
    using completes [OF r, of "demo_api []" True sid "[]" sa m1] by blast
  moreover from completed [OF c] have "or_mesh s = m1" "\<exists>v st prior. map_of (cp_circuit c) ''resume'' = Some v \<and> read_resume v = Inr (Some (sid, st, prior))"
    using read_carried(1) by (metis, metis)
  ultimately show ?thesis using left unfolding asks_post [OF a] by (auto simp: fields truthy_opt_def)
qed



end
