(* ===== verification/Spec2Isabelle.thy ===== *)
theory Spec2Isabelle
  imports Topology_Spec Registry_Spec Tensors_Spec Specdecode_Spec Stage_Worker_Spec Chain Wire Mesh_Spec Generation_Spec Tree_Decode_Spec Draft_Tree Route_Client_Spec Relay_Spec Scheduler Eagle Node_Audit Node_Agent_Spec Catalog_Spec Api_Spec
begin

text \<open>
  A verification development of the engine of a distributed language-model server (\<open>src/engine\<close>).

  \<^bold>\<open>The program.\<close>  The layers of a model are cut into slots.  Nodes (\<open>stage_worker.py\<close>) register with
  a control plane (\<open>registry.py\<close>, \<open>topology.py\<close>, \<open>control_server.py\<close>) and each holds the layers of one
  slot; a slot has several holders.  A coordinator (\<open>coordinator.py\<close>) has the embedding and the head.
  It asks the control plane for a route, one holder of every slot, in process or over signed posts
  (\<open>route_provider.py\<close>), sends the hidden states of new tokens through the holders in encrypted
  frames (\<open>wire.py\<close>, \<open>tensors.py\<close>, \<open>chain.py\<close>), and picks the next token.  Every holder keeps the
  attention cache of every session (\<open>kv.py\<close>).  When a holder fails, the coordinator reports it, asks
  for another route and rebuilds the caches.  Nodes behind a NAT are reached through a relay
  (\<open>relay.py\<close>).  Generation comes in several modes: plain, streaming, speculative with a linear or a
  tree draft (\<open>specdecode.py\<close>, \<open>eagle.py\<close>), with a warm prefix, and in batches formed by \<open>scheduler.py\<close>;
  \<open>api.py\<close> is the HTTP front end.  Nodes fetch the slice of the model they were assigned
  (\<open>shard_fetch.py\<close>, \<open>slice-awq.py\<close>), and new ones are audited against trusted ones (\<open>verify.py\<close>).

  \<^bold>\<open>The theories.\<close>  Each models its files function by function, under the names of the source; a
  companion \<open>_Spec\<close> or \<open>_Inv\<close> theory has the lemmas.

  \<^item> \<open>Prelude\<close>: Python's exceptions as a sum, insertion-ordered dictionaries as association lists,
    \<open>min\<close> and \<open>max\<close> with a key.  \<open>Bytes\<close>: \<open>struct\<close>, slices, UTF-8.  \<open>Codec\<close>: encoders and decoders as
    locales, sequences of them.  \<open>Json\<close>: \<open>canonical.py\<close> and the values of \<open>json.loads\<close>.  \<open>Sha256\<close>: the
    hash function that ids are derived with.
  \<^item> \<open>Topology_Plan\<close>, \<open>Topology\<close> (\<open>topology.py\<close>): the stage planners; nodes, slots, registration,
    heartbeats, reaping, trust, routes.  \<open>Topology_Inv\<close>, \<open>Topology_Spec\<close>: the invariant of every run,
    coverage, the node state machine, refusals.
  \<^item> \<open>Registry\<close> (\<open>registry.py\<close>): admission, bans, load counters, session pins, paid work, the durable
    file.  \<open>Registry_Inv\<close>, \<open>Registry_Spec\<close>: counters equal pins in every reachable state, the choice
    of replicas, conservation of pay, restarts.
  \<^item> \<open>Control_Server\<close> (\<open>control_server.py\<close>): every endpoint, the verifier and signer, the rate limit.
    \<open>Control_Spec\<close>: who can change or read what, and when.  \<open>Route_Client\<close>, \<open>Route_Client_Spec\<close>
    (\<open>route_provider.py\<close>): endpoints with failover, the remote provider, and that a head-only
    coordinator decodes what an in-process one does.
  \<^item> \<open>Wire\<close> (\<open>wire.py\<close>), \<open>Chain\<close> (\<open>chain.py\<close>), \<open>Tensors\<close>, \<open>Tensors_Spec\<close> (\<open>tensors.py\<close>): frames, routes and
    payloads, round trips and authenticity, the tree mask.
  \<^item> \<open>KV\<close> (\<open>kv.py\<close>): the cache of a stage.  \<open>Specdecode\<close>, \<open>Specdecode_Spec\<close> (\<open>specdecode.py\<close>, \<open>stage.py\<close>):
    stages of layers, the target and draft protocols as locales, both loops.
  \<^item> \<open>Stage_Worker\<close>, \<open>Stage_Worker_Spec\<close> (\<open>stage_worker.py\<close>): the session store, its reaper, the frame
    handler with chain forwarding.
  \<^item> \<open>Coordinator\<close>, \<open>Coordinator_Spec\<close>, \<open>Mesh_Spec\<close> (\<open>coordinator.py\<close>, dynamic mode): pinned routes, star
    and chain relay, failover, cache control, greedy generation and its resumption, over a mesh of
    modelled workers and any provider of routes (locale \<open>route_source\<close>, interpreted on the registry
    and on the remote provider).
  \<^item> \<open>Generation\<close>, \<open>Generation_Spec\<close>: the connection pool, \<open>SocketTarget\<close>, the prefix cache, speculative
    and streaming generation.  \<open>Tree_Layers\<close>, \<open>Tree_Decode\<close>, \<open>Draft_Tree\<close>, \<open>Tree_Decode_Spec\<close>: draft
    trees, their masked attention, acceptance, compaction.
  \<^item> \<open>Batch_Layers\<close>, \<open>Batch\<close>, \<open>Batch_Spec\<close>: padded batches over static stages.  \<open>Scheduler\<close>
    (\<open>scheduler.py\<close>): requests, collecting windows, output queues.
  \<^item> \<open>Relay\<close>, \<open>Relay_Spec\<close> (\<open>relay.py\<close> and its two clients): every interleaving of the relay's threads as a
    step relation.
  \<^item> \<open>Eagle\<close> (\<open>EagleDraft\<close> of \<open>eagle.py\<close>): the running context of the EAGLE draft, an interpretation of the
    draft protocol, and what happens to it on a warm prefix.
  \<^item> \<open>Node_Audit\<close> (\<open>verify.py\<close> and the audit round of the coordinator): challenges, the comparison of
    outputs, audits of an honest mesh.
  \<^item> \<open>Node_Agent\<close>, \<open>Node_Agent_Spec\<close> (\<open>run_control_client\<close> of \<open>stage_worker.py\<close>, the registration of an
    orchestrator in \<open>api.py\<close>): joining, standbys, heartbeats, draining, and the recovery of a restarted
    control plane.
  \<^item> \<open>Catalog\<close>, \<open>Catalog_Spec\<close> (\<open>shard_fetch.py\<close> and the pure part of \<open>slice-awq.py\<close>): layouts, manifests,
    slices by tensor names, the sources of a slice.
  \<^item> \<open>Api\<close>, \<open>Api_Spec\<close> (\<open>api.py\<close>): the mesh and the coordinator from the environment, tool calls, the
    completion handler with every decoder, and sessions carried from one orchestrator to another.

  \<^bold>\<open>How state corresponds.\<close>  A class is a record with a field per attribute that the modelled methods
  use; a method is a function from the record to the record and a result, \<open>Inl\<close> of the exception's
  class or \<open>Inr\<close> of the value.  A hidden state, a cache entry and a logit are values of any type: the
  layers, the embedding and the head are the parameter \<open>model_ops\<close>, and a worker's model library the
  parameter \<open>stage_lib\<close>, tied to it by \<open>lib_serves\<close>.  The network is \<open>me_net\<close>, which says of every
  contact whether it is refused, answered, or lost after it was processed; threads that share a lock
  are steps that do not interleave, and all others (\<open>Relay\<close>) are interleaved.  Floats in times,
  latencies and weights are rational numbers; \<open>Json\<close> and the signature window also have infinities and
  not-a-number.

  \<^bold>\<open>What is shown.\<close>  Whatever the routes, splits and survived failures, every generation mode yields
  the whole model's greedy continuation (C1 to C7, the properties of \<open>Specdecode_Spec\<close> and \<open>Eagle\<close>): the decode
  loops are proved once against the target and draft protocols and the mesh is proved to keep the
  protocol.  A batch is its prompts one by one, and the scheduler answers every request once and in
  order.  The control plane keeps its invariants in every run, changes only for signed callers,
  conserves pay.  Frames, payloads and route headers round-trip and only authentic frames are read.
  The relay joins a dial only with the data connection that was opened for it.  A control plane built
  from an environment starts in its invariant; a fleet's heartbeats bring an emptied one back to full
  coverage; a joined node serves the layers it was told, and their artifact holds exactly these.
  Audits never evict an honest node.  A request is held to the ceiling of tokens, and one answered
  in two halves by two orchestrators is one generation.

  \<^bold>\<open>Bounds and fuel.\<close>  A forwarded chain has at most 255 hops (one byte), so the exchange's depth of
  257 workers is enough.  Positions and session ids fit 32 bits, which the theorems assume of the
  context length; session ids of coordinators are below \<open>2 ^ 31\<close> and batch ids from there on.  The
  planner's loop has the source's own guard of \<open>10 * n\<close> steps.  Python refuses integer literals of more
  than 4300 digits, a relay preamble is at most 64 KiB.  \<open>room\<close> bounds the scalars of a batch so that
  its tensors fit a frame.  The tree mask's walk over parents can run for ever: it is a partial
  function, and its property says when it ends.

  \<^bold>\<open>Assumptions.\<close>  The AEAD satisfies \<open>aead_ok\<close>, ed25519 the documented law of signatures; tags and
  nonces of the relay are fresh.  Equality of outputs needs tensors to represent their values
  (\<open>tensor_rep\<close>, \<open>batch_rep\<close>): rounding is the same wherever a layer runs.  Attention under a mask is
  attention over the visible entries.  Workers do not reap or lose a session during a run; liveness is
  shown on a quiet network.

  \<^bold>\<open>Not modelled.\<close>  Chain mode is modelled but excluded from the generation theorems: cache control
  does not reach the later nodes of a chain.  A registration whose fields have undocumented JSON types
  (the model answers \<open>None\<close>), and a completion request with such (\<open>Outside\<close>).  The arithmetic inside
  layers and the EAGLE head; loading of models (\<open>model.py\<close>); the formats of weight files and the hub's
  transfers, of which \<open>Catalog\<close> knows the outcome only; the publishing and deployment scripts; the probes
  of \<open>rtt_probe.py\<close>, which are sockets and clocks; the chat template and JSON texts, parameters of \<open>Api\<close>;
  the status pages and the HTTP framing of \<open>api.py\<close> and of the control plane; printing, argument
  parsing, key files.
\<close>

end
